(* ===== verification/Prelude.thy ===== *)
theory Prelude
  imports Main "HOL-Library.Word"
begin

text \<open>
  Shared vocabulary of the development: bytes, the result type of kernel code, the
  wrap-around of C's 32-bit integers, the first-free-slot scan that the fixed tables of the
  kernel use, ring buffers and step systems.
\<close>

section \<open>Results of kernel code\<close>

text \<open>
  A kernel function returns (\<open>Ok\<close>), stops the machine (\<open>Panic\<close> with the message given to
  \<^verbatim>\<open>panic\<close>), reaches a call of \<^verbatim>\<open>sleep\<close> (\<open>Sleeps\<close> with the name of the channel: the calling
  process then gives up the CPU, and it is another process that has to act), or does what C
  leaves undefined (\<open>Fault\<close>: an access outside an object, a loop that never ends).
\<close>

datatype 'a res = Ok 'a | Panic string | Sleeps string | Fault string

primrec bind_res :: "'a res \<Rightarrow> ('a \<Rightarrow> 'b res) \<Rightarrow> 'b res" where
  "bind_res (Ok a) f = f a"
| "bind_res (Panic m) f = Panic m"
| "bind_res (Sleeps c) f = Sleeps c"
| "bind_res (Fault m) f = Fault m"

text \<open>A loop over a list of indices, left at the first call that does not return.\<close>

primrec fold_res :: "('i \<Rightarrow> 's \<Rightarrow> 's res) \<Rightarrow> 'i list \<Rightarrow> 's \<Rightarrow> 's res" where
  "fold_res f [] s = Ok s"
| "fold_res f (x # xs) s = bind_res (f x s) (fold_res f xs)"

type_synonym byte = "8 word"

section \<open>C integers\<close>

text \<open>
  A \<^verbatim>\<open>uint\<close> is a natural number below \<open>2 ^ 32\<close>; \<open>wrap32\<close> is what a store of a larger value
  leaves. \<open>int32\<close> reads an integer as a two's complement \<^verbatim>\<open>int\<close>, \<open>uint32\<close> as a \<^verbatim>\<open>uint\<close>.
\<close>

definition wrap32 :: "nat \<Rightarrow> nat" where
  "wrap32 n = n mod 2 ^ 32"

definition uint32 :: "int \<Rightarrow> nat" where
  "uint32 x = nat (x mod 2 ^ 32)"

definition int32 :: "int \<Rightarrow> int" where
  "int32 x = (x + 2 ^ 31) mod 2 ^ 32 - 2 ^ 31"

section \<open>Scanning a fixed table\<close>

text \<open>The loops of the form \<^verbatim>\<open>for (p = tab; p < tab + N; p++) if (P(p)) ...\<close>.\<close>

primrec first_idx :: "('a \<Rightarrow> bool) \<Rightarrow> 'a list \<Rightarrow> nat option" where
  "first_idx P [] = None"
| "first_idx P (x # xs) = (if P x then Some 0 else map_option Suc (first_idx P xs))"

section \<open>Ring buffers\<close>

text \<open>
  \<open>ring_contents N buf r k\<close> is the sequence of the \<open>k\<close> elements that a ring of size \<open>N\<close>
  holds from the read counter \<open>r\<close> on.
\<close>

definition ring_contents :: "nat \<Rightarrow> 'a list \<Rightarrow> nat \<Rightarrow> nat \<Rightarrow> 'a list" where
  "ring_contents N buf r k = map (\<lambda>i. buf ! ((r + i) mod N)) [0..<k]"

section \<open>Lemmas on results\<close>

lemma bind_res_Ok_iff [simp]:
  "bind_res m f = Ok y \<longleftrightarrow> (\<exists>x. m = Ok x \<and> f x = Ok y)"
  by (cases m) auto

lemma bind_res_assoc:
  "bind_res (bind_res m f) g = bind_res m (\<lambda>x. bind_res (f x) g)"
  by (cases m) auto

lemma if_res_Ok_iff [simp]:
  "(if c then Panic m else r) = Ok y \<longleftrightarrow> \<not> c \<and> r = Ok y"
  "(if c then Sleeps m else r) = Ok y \<longleftrightarrow> \<not> c \<and> r = Ok y"
  "(if c then r else Panic m) = Ok y \<longleftrightarrow> c \<and> r = Ok y"
  "(if c then r else Sleeps m) = Ok y \<longleftrightarrow> c \<and> r = Ok y"
  "(if c then Fault m else r) = Ok y \<longleftrightarrow> \<not> c \<and> r = Ok y"
  "(if c then r else Fault m) = Ok y \<longleftrightarrow> c \<and> r = Ok y"
  by auto

lemma fold_res_append: "fold_res f (xs @ ys) s = bind_res (fold_res f xs s) (fold_res f ys)"
proof (induction xs arbitrary: s)
  case (Cons x xs)
  then show ?case by (cases "f x s") simp_all
qed simp

section \<open>Lemmas on C integers\<close>

lemma wrap32_less [simp]: "wrap32 n < 2 ^ 32" "wrap32 n < 4294967296"
  by (simp_all add: wrap32_def)

lemma wrap32_Suc [simp]: "wrap32 (Suc (wrap32 a)) = wrap32 (Suc a)"
  by (simp add: wrap32_def mod_Suc_eq)

lemma wrap32_full [simp]: "wrap32 (a + 4294967296) = wrap32 a"
  by (simp add: wrap32_def)

lemma wrap32_id: "n < 2 ^ 32 \<Longrightarrow> wrap32 n = n"
  by (simp add: wrap32_def)

lemma wrap32_add_left [simp]: "wrap32 (wrap32 a + b) = wrap32 (a + b)"
  by (simp add: wrap32_def mod_add_left_eq)

lemma wrap32_idem [simp]: "wrap32 (wrap32 a) = wrap32 a"
  by (simp add: wrap32_def)

text \<open>A ring index survives the wrap-around of its counter when the size divides \<open>2 ^ 32\<close>.\<close>

lemma wrap32_mod: "N dvd 2 ^ 32 \<Longrightarrow> wrap32 a mod N = a mod N"
  by (simp add: wrap32_def mod_mod_cancel)

text \<open>Two counters less than \<open>2 ^ 32\<close> apart stay apart after wrapping.\<close>

lemma wrap32_add_inj:
  assumes "wrap32 (a + i) = wrap32 (a + j)" and "i < 2 ^ 32" and "j < 2 ^ 32"
  shows "i = j"
proof -
  have "(a + i) mod 2 ^ 32 = (a + j) mod 2 ^ 32"
    using assms(1) by (simp only: wrap32_def)
  then have "int (a + i) mod 2 ^ 32 = int (a + j) mod 2 ^ 32"
    by (metis of_nat_numeral of_nat_power zmod_int)
  then have "int i mod 2 ^ 32 = int j mod 2 ^ 32"
    by (metis add_diff_cancel_left' mod_diff_left_eq of_nat_add)
  then show ?thesis using assms(2,3) by simp
qed

section \<open>Lemmas on scans\<close>

lemma first_idx_None: "first_idx P xs = None \<longleftrightarrow> (\<forall>x \<in> set xs. \<not> P x)"
  by (induction xs) auto

lemma first_idx_Some:
  "first_idx P xs = Some i \<longleftrightarrow> i < length xs \<and> P (xs ! i) \<and> (\<forall>j < i. \<not> P (xs ! j))"
proof (induction xs arbitrary: i)
  case Nil
  then show ?case by simp
next
  case (Cons x xs)
  then show ?case
    by (cases i) (auto simp: All_less_Suc2)
qed

lemma first_idx_SomeD:
  assumes "first_idx P xs = Some i"
  shows "i < length xs" and "P (xs ! i)" and "j < i \<Longrightarrow> \<not> P (xs ! j)"
  using assms by (auto simp: first_idx_Some)

lemma first_idx_ex: "x \<in> set xs \<Longrightarrow> P x \<Longrightarrow> \<exists>i. first_idx P xs = Some i"
  by (metis first_idx_None not_Some_eq)

section \<open>Allocation from a fixed table\<close>

text \<open>
  The contract of the kernel's fixed tables: an allocator claims the first free slot, or
  reports that there is none. \<open>alloc\<close> is the code's own routine, \<open>free\<close> the test of its
  scan and \<open>claim\<close> what it stores into the slot.
\<close>

locale slot_table =
  fixes free :: "'e \<Rightarrow> bool"
    and claim :: "'e \<Rightarrow> 'e"
    and alloc :: "'e list \<Rightarrow> (nat \<times> 'e list) option"
  assumes claim_not_free: "free e \<Longrightarrow> \<not> free (claim e)"
    and alloc_scan: "alloc t = (case first_idx free t of None \<Rightarrow> None
                     | Some i \<Rightarrow> Some (i, t[i := claim (t ! i)]))"
begin

lemma alloc_None: "alloc t = None \<longleftrightarrow> (\<forall>e \<in> set t. \<not> free e)"
  by (auto simp: alloc_scan first_idx_None [symmetric] split: option.splits)

lemma alloc_Some:
  assumes "alloc t = Some (i, t')"
  shows "i < length t" "free (t ! i)" "\<And>j. j < i \<Longrightarrow> \<not> free (t ! j)" "t' = t[i := claim (t ! i)]"
  using assms by (auto simp: alloc_scan first_idx_Some split: option.splits)

lemma alloc_frame:
  assumes "alloc t = Some (i, t')"
  shows "length t' = length t" and "j \<noteq> i \<Longrightarrow> t' ! j = t ! j" and "\<not> free (t' ! i)"
  using alloc_Some [OF assms] claim_not_free by auto

lemma alloc_twice:
  assumes "alloc t = Some (i, t')" and "alloc t' = Some (j, t'')"
  shows "j \<noteq> i" and "\<not> free (t'' ! i)"
proof -
  have nf: "\<not> free (t' ! i)" by (rule alloc_frame(3) [OF assms(1)])
  with alloc_Some(2) [OF assms(2)] show "j \<noteq> i" by auto
  with nf alloc_frame(2) [OF assms(2), of i] show "\<not> free (t'' ! i)" by auto
qed

text \<open>Each allocation uses up exactly one free slot.\<close>

lemma alloc_count:
  assumes "alloc t = Some (i, t')"
  shows "length (filter free t) = Suc (length (filter free t'))"
proof -
  note a = alloc_Some [OF assms]
  have t: "t = take i t @ t ! i # drop (Suc i) t" using a(1) by (rule id_take_nth_drop)
  have t': "t' = take i t @ claim (t ! i) # drop (Suc i) t"
    using a(1,4) by (simp add: upd_conv_take_nth_drop)
  have "filter free t = filter free (take i t) @ t ! i # filter free (drop (Suc i) t)"
    by (subst t) (simp add: a(2))
  moreover have "filter free t' = filter free (take i t) @ filter free (drop (Suc i) t)"
    by (subst t') (simp add: claim_not_free [OF a(2)])
  ultimately show ?thesis by simp
qed

end

section \<open>Step systems\<close>

text \<open>
  An invariant that holds at the start and that every step keeps holds in every state a run
  reaches.
\<close>

locale step_system =
  fixes init :: "'s \<Rightarrow> bool"
    and step :: "'s \<Rightarrow> 's \<Rightarrow> bool"
    and inv :: "'s \<Rightarrow> bool"
  assumes inv_init: "init s \<Longrightarrow> inv s"
    and inv_step: "inv s \<Longrightarrow> step s t \<Longrightarrow> inv t"
begin

lemma inv_run:
  assumes "inv s" and "step\<^sup>*\<^sup>* s t"
  shows "inv t"
  using assms(2,1) by (induction rule: rtranclp_induct) (auto intro: inv_step)

lemma inv_reachable: "init s \<Longrightarrow> step\<^sup>*\<^sup>* s t \<Longrightarrow> inv t"
  by (blast intro: inv_run inv_init)

end

section \<open>Ring buffer laws\<close>

text \<open>The arithmetic that every ring of the kernel relies on: its size divides \<open>2 ^ 32\<close>.\<close>

locale ring_size =
  fixes N :: nat
  assumes N_pos: "0 < N"
    and N_dvd: "N dvd 2 ^ 32"
begin

lemma index_less [simp]: "wrap32 a mod N < N" "a mod N < N"
  using N_pos by auto

lemma index_wrap [simp]: "wrap32 a mod N = a mod N"
  by (rule wrap32_mod [OF N_dvd])

lemma N_le: "N \<le> 2 ^ 32"
  using N_dvd by (rule dvd_imp_le) simp

lemma contents_Nil [simp]: "ring_contents N buf r 0 = []"
  by (simp add: ring_contents_def)

lemma contents_length [simp]: "length (ring_contents N buf r k) = k"
  by (simp add: ring_contents_def)

lemma contents_wrap [simp]: "ring_contents N buf (wrap32 r) k = ring_contents N buf r k"
proof -
  have "(wrap32 r + i) mod N = (r + i) mod N" for i
    by (metis index_wrap mod_add_left_eq)
  then show ?thesis by (simp add: ring_contents_def)
qed

text \<open>Slots of one window are different.\<close>

lemma slots_distinct:
  assumes "i < N" "j < N" "(r + i) mod N = (r + j) mod N"
  shows "i = j"
proof -
  have "(int r + int i) mod int N = (int r + int j) mod int N"
    using assms(3) by (metis of_nat_add zmod_int)
  then have "int i mod int N = int j mod int N"
    by (metis add_diff_cancel_left' mod_diff_left_eq)
  then show ?thesis using assms(1,2) by simp
qed

text \<open>Storing at the write counter appends one element; the reader's window is not touched.\<close>

lemma contents_push:
  assumes "length buf = N" and "k < N"
  shows "ring_contents N (buf[(r + k) mod N := x]) r (Suc k) = ring_contents N buf r k @ [x]"
proof -
  have "buf[(r + k) mod N := x] ! ((r + i) mod N) = buf ! ((r + i) mod N)" if "i < k" for i
    using that assms slots_distinct [of i k r] by (metis less_irrefl less_trans nth_list_update_neq)
  moreover have "buf[(r + k) mod N := x] ! ((r + k) mod N) = x"
    using assms N_pos by simp
  ultimately show ?thesis
    by (simp add: ring_contents_def)
qed

lemma contents_pop:
  "ring_contents N buf r (Suc k) = buf ! (r mod N) # ring_contents N buf (Suc r) k"
  by (simp add: ring_contents_def upt_conv_Cons map_Suc_upt [symmetric] del: upt_Suc)

end

end
