(* ===== verification/Bytes.thy ===== *)
theory Bytes
  imports Prelude
begin

text \<open>
  Memory as lists of bytes: \<^verbatim>\<open>memmove\<close> into and out of a buffer at an offset, and the
  little-endian integers that the on-disk structures are made of.
\<close>

unbundle bit_operations_syntax

section \<open>Parts of a byte array\<close>

definition slice :: "nat \<Rightarrow> nat \<Rightarrow> 'a list \<Rightarrow> 'a list" where
  "slice off n bs = take n (drop off bs)"

definition patch :: "nat \<Rightarrow> 'a list \<Rightarrow> 'a list \<Rightarrow> 'a list" where
  "patch off xs bs = take off bs @ xs @ drop (off + length xs) bs"

lemma length_slice [simp]: "off + n \<le> length bs \<Longrightarrow> length (slice off n bs) = n"
  by (simp add: slice_def)

lemma length_patch [simp]: "off + length xs \<le> length bs \<Longrightarrow> length (patch off xs bs) = length bs"
  by (simp add: patch_def)

lemma nth_slice [simp]: "off + n \<le> length bs \<Longrightarrow> i < n \<Longrightarrow> slice off n bs ! i = bs ! (off + i)"
  by (simp add: slice_def)

lemma nth_patch:
  assumes "off + length xs \<le> length bs" and "i < length bs"
  shows "patch off xs bs ! i = (if off \<le> i \<and> i < off + length xs then xs ! (i - off) else bs ! i)"
  using assms by (auto simp: patch_def nth_append min_def)

lemma slice_patch_same [simp]:
  "off + length xs \<le> length bs \<Longrightarrow> n = length xs \<Longrightarrow> slice off n (patch off xs bs) = xs"
  by (simp add: slice_def patch_def)

lemma slice_patch_other:
  assumes "off + length xs \<le> length bs" and "o' + n \<le> length bs" and "o' + n \<le> off \<or> off + length xs \<le> o'"
  shows "slice o' n (patch off xs bs) = slice o' n bs"
  by (rule nth_equalityI) (use assms in \<open>auto simp: nth_patch\<close>)

lemma patch_slice_id: "off + n \<le> length bs \<Longrightarrow> patch off (slice off n bs) bs = bs"
  by (rule nth_equalityI) (auto simp: nth_patch)

lemma patch_all [simp]: "length xs = length bs \<Longrightarrow> patch 0 xs bs = xs"
  by (simp add: patch_def)

section \<open>Little-endian integers\<close>

fun le_bytes :: "nat \<Rightarrow> nat \<Rightarrow> byte list" where
  "le_bytes 0 v = []"
| "le_bytes (Suc k) v = of_nat v # le_bytes k (v div 256)"

fun le_nat :: "byte list \<Rightarrow> nat" where
  "le_nat [] = 0"
| "le_nat (b # bs) = unat b + 256 * le_nat bs"

lemma length_le_bytes [simp]: "length (le_bytes k v) = k"
  by (induction k arbitrary: v) auto

lemma le_nat_bytes [simp]: "le_nat (le_bytes k v) = v mod 256 ^ k"
proof (induction k arbitrary: v)
  case 0
  then show ?case by simp
next
  case (Suc k)
  have "unat (of_nat v :: byte) = v mod 256" by (simp add: unat_of_nat)
  then show ?case using Suc mod_mult2_eq [of v 256 "256 ^ k"] by simp
qed

lemma le_nat_less: "le_nat bs < 256 ^ length bs"
proof (induction bs)
  case Nil
  then show ?case by simp
next
  case (Cons b bs)
  have b: "unat b < 256" using unsigned_less [of b] by simp
  have "Suc (le_nat bs) * 256 \<le> 256 ^ length bs * 256"
    using Cons by (intro mult_le_mono1) simp
  then show ?case using b by simp
qed

lemma le_bytes_nat [simp]: "k = length bs \<Longrightarrow> le_bytes k (le_nat bs) = bs"
proof (induction bs arbitrary: k)
  case Nil
  then show ?case by simp
next
  case (Cons b bs)
  have b: "unat b < 256" using unsigned_less [of b] by simp
  have "of_nat (unat b + 256 * le_nat bs) = b"
  proof (rule unsigned_word_eqI)
    show "unat (of_nat (unat b + 256 * le_nat bs) :: byte) = unat b"
      using b by (simp add: unat_of_nat del: of_nat_add of_nat_mult)
  qed
  then show ?case using Cons b by simp
qed

section \<open>Loads and stores\<close>

definition ld32 :: "nat \<Rightarrow> byte list \<Rightarrow> nat" where
  "ld32 off bs = le_nat (slice off 4 bs)"

definition st32 :: "nat \<Rightarrow> nat \<Rightarrow> byte list \<Rightarrow> byte list" where
  "st32 off v bs = patch off (le_bytes 4 v) bs"

definition ld16 :: "nat \<Rightarrow> byte list \<Rightarrow> nat" where
  "ld16 off bs = le_nat (slice off 2 bs)"

definition st16 :: "nat \<Rightarrow> nat \<Rightarrow> byte list \<Rightarrow> byte list" where
  "st16 off v bs = patch off (le_bytes 2 v) bs"

lemma length_st [simp]:
  "off + 4 \<le> length bs \<Longrightarrow> length (st32 off v bs) = length bs"
  "off + 2 \<le> length bs \<Longrightarrow> length (st16 off v bs) = length bs"
  by (simp_all add: st32_def st16_def)

lemma ld_st_same [simp]:
  "off + 4 \<le> length bs \<Longrightarrow> ld32 off (st32 off v bs) = v mod 2 ^ 32"
  "off + 2 \<le> length bs \<Longrightarrow> ld16 off (st16 off v bs) = v mod 2 ^ 16"
  by (simp_all add: ld32_def ld16_def st32_def st16_def)

lemma ld32_st32_other [simp]:
  "off + 4 \<le> length bs \<Longrightarrow> o' + 4 \<le> length bs \<Longrightarrow> o' + 4 \<le> off \<or> off + 4 \<le> o' \<Longrightarrow>
     ld32 o' (st32 off v bs) = ld32 o' bs"
  by (simp add: ld32_def st32_def slice_patch_other)

lemma ld32_less [simp]: "off + 4 \<le> length bs \<Longrightarrow> ld32 off bs < 2 ^ 32" "off + 4 \<le> length bs \<Longrightarrow> ld32 off bs < 4294967296"
  using le_nat_less [of "slice off 4 bs"] by (simp_all add: ld32_def)

lemma ld16_less [simp]: "off + 2 \<le> length bs \<Longrightarrow> ld16 off bs < 2 ^ 16" "off + 2 \<le> length bs \<Longrightarrow> ld16 off bs < 65536"
  using le_nat_less [of "slice off 2 bs"] by (simp_all add: ld16_def)

end
