(* ===== verification/Strings.thy ===== *)
theory Strings
  imports Bytes
begin

text \<open>
  \<^verbatim>\<open>src/string.c\<close> (kernel) and the string functions of \<^verbatim>\<open>src/ulib.c\<close> (user programs), on a byte-addressed
  memory, so that overlapping arguments are covered. Addresses are natural numbers: the address
  space does not wrap around inside an object. Loops that only stop at a NUL byte are partial
  functions.
\<close>

type_synonym mem = "nat \<Rightarrow> byte"

definition mem_range :: "mem \<Rightarrow> nat \<Rightarrow> nat \<Rightarrow> byte list" where
  "mem_range m a n = map m [a..<a + n]"

definition mem_store :: "mem \<Rightarrow> nat \<Rightarrow> byte list \<Rightarrow> mem" where
  "mem_store m a bs = (\<lambda>x. if a \<le> x \<and> x < a + length bs then bs ! (x - a) else m x)"

section \<open>Filling\<close>

text \<open>\<^verbatim>\<open>rep stosb\<close> and \<^verbatim>\<open>rep stosl\<close> of \<^verbatim>\<open>src/x86.h\<close>.\<close>

fun stosb :: "mem \<Rightarrow> nat \<Rightarrow> byte \<Rightarrow> nat \<Rightarrow> mem" where
  "stosb m d c 0 = m"
| "stosb m d c (Suc n) = stosb (m(d := c)) (d + 1) c n"

fun stosl :: "mem \<Rightarrow> nat \<Rightarrow> 32 word \<Rightarrow> nat \<Rightarrow> mem" where
  "stosl m d w 0 = m"
| "stosl m d w (Suc n) =
     stosl (m(d := ucast w, d + 1 := ucast (drop_bit 8 w), d + 2 := ucast (drop_bit 16 w), d + 3 := ucast (drop_bit 24 w)))
       (d + 4) w n"

definition memset :: "mem \<Rightarrow> nat \<Rightarrow> 32 word \<Rightarrow> nat \<Rightarrow> mem" where
  "memset m dst c n =
     (if dst mod 4 = 0 \<and> n mod 4 = 0 then
        let c = c AND 0xFF
        in stosl m dst (push_bit 24 c OR push_bit 16 c OR push_bit 8 c OR c) (n div 4)
      else stosb m dst (ucast c) n)"

section \<open>Copying and comparing\<close>

fun memcmp :: "mem \<Rightarrow> nat \<Rightarrow> nat \<Rightarrow> nat \<Rightarrow> int" where
  "memcmp m s1 s2 0 = 0"
| "memcmp m s1 s2 (Suc n) =
     (if m s1 \<noteq> m s2 then int (unat (m s1)) - int (unat (m s2)) else memcmp m (s1 + 1) (s2 + 1) n)"

text \<open>The two loops of \<^verbatim>\<open>memmove\<close>: downwards from the ends, and upwards from the starts.\<close>

fun copy_down :: "mem \<Rightarrow> nat \<Rightarrow> nat \<Rightarrow> nat \<Rightarrow> mem" where
  "copy_down m d s 0 = m"
| "copy_down m d s (Suc n) = copy_down (m(d - 1 := m (s - 1))) (d - 1) (s - 1) n"

fun copy_up :: "mem \<Rightarrow> nat \<Rightarrow> nat \<Rightarrow> nat \<Rightarrow> mem" where
  "copy_up m d s 0 = m"
| "copy_up m d s (Suc n) = copy_up (m(d := m s)) (d + 1) (s + 1) n"

definition memmove :: "mem \<Rightarrow> nat \<Rightarrow> nat \<Rightarrow> nat \<Rightarrow> mem" where
  "memmove m dst src n =
     (if src < dst \<and> src + n > dst then copy_down m (dst + n) (src + n) n else copy_up m dst src n)"

definition memcpy :: "mem \<Rightarrow> nat \<Rightarrow> nat \<Rightarrow> nat \<Rightarrow> mem" where
  "memcpy m dst src n = memmove m dst src n"

section \<open>Bounded strings\<close>

fun strncmp :: "mem \<Rightarrow> nat \<Rightarrow> nat \<Rightarrow> nat \<Rightarrow> int" where
  "strncmp m p q 0 = 0"
| "strncmp m p q (Suc n) =
     (if m p \<noteq> 0 \<and> m p = m q then strncmp m (p + 1) (q + 1) n
      else int (unat (m p)) - int (unat (m q)))"

fun zero_fill :: "mem \<Rightarrow> nat \<Rightarrow> nat \<Rightarrow> mem" where
  "zero_fill m s 0 = m"
| "zero_fill m s (Suc n) = zero_fill (m(s := 0)) (s + 1) n"

fun strncpy :: "mem \<Rightarrow> nat \<Rightarrow> nat \<Rightarrow> nat \<Rightarrow> mem" where
  "strncpy m s t 0 = m"
| "strncpy m s t (Suc n) =
     (let m' = m(s := m t) in if m t \<noteq> 0 then strncpy m' (s + 1) (t + 1) n else zero_fill m' (s + 1) n)"

text \<open>The loop of \<^verbatim>\<open>safestrcpy\<close>, entered with the decremented count.\<close>

fun safestrcpy_loop :: "mem \<Rightarrow> nat \<Rightarrow> nat \<Rightarrow> nat \<Rightarrow> mem \<times> nat" where
  "safestrcpy_loop m s t 0 = (m, s)"
| "safestrcpy_loop m s t (Suc n) =
     (let m' = m(s := m t) in if m t \<noteq> 0 then safestrcpy_loop m' (s + 1) (t + 1) n else (m', s + 1))"

definition safestrcpy :: "mem \<Rightarrow> nat \<Rightarrow> nat \<Rightarrow> int \<Rightarrow> mem" where
  "safestrcpy m s t n =
     (if n \<le> 0 then m else let (m, s) = safestrcpy_loop m s t (nat n - 1) in m(s := 0))"

section \<open>Unbounded strings\<close>

partial_function (option) strlen_from :: "mem \<Rightarrow> nat \<Rightarrow> nat \<Rightarrow> nat option" where
  "strlen_from m s n = (if m (s + n) = 0 then Some n else strlen_from m s (n + 1))"

definition strlen :: "mem \<Rightarrow> nat \<Rightarrow> nat option" where
  "strlen m s = strlen_from m s 0"

partial_function (option) strcpy :: "mem \<Rightarrow> nat \<Rightarrow> nat \<Rightarrow> mem option" where
  "strcpy m s t = (let m' = m(s := m t) in if m t \<noteq> 0 then strcpy m' (s + 1) (t + 1) else Some m')"

partial_function (option) strcmp :: "mem \<Rightarrow> nat \<Rightarrow> nat \<Rightarrow> int option" where
  "strcmp m p q = (if m p \<noteq> 0 \<and> m p = m q then strcmp m (p + 1) (q + 1)
     else Some (int (unat (m p)) - int (unat (m q))))"

partial_function (option) strchr :: "mem \<Rightarrow> nat \<Rightarrow> byte \<Rightarrow> nat option option" where
  "strchr m s c = (if m s = 0 then Some None else if m s = c then Some (Some s) else strchr m (s + 1) c)"

text \<open>\<^verbatim>\<open>memset\<close> and \<^verbatim>\<open>memmove\<close> of \<^verbatim>\<open>src/ulib.c\<close>.\<close>

definition umemset :: "mem \<Rightarrow> nat \<Rightarrow> byte \<Rightarrow> nat \<Rightarrow> mem" where
  "umemset m dst c n = stosb m dst c n"

definition umemmove :: "mem \<Rightarrow> nat \<Rightarrow> nat \<Rightarrow> int \<Rightarrow> mem" where
  "umemmove m vdst vsrc n = copy_up m vdst vsrc (nat n)"

text \<open>\<^verbatim>\<open>atoi\<close>, with the 32-bit wrap-around of its accumulator; it stops at the first non-digit.\<close>

fun atoi_loop :: "int \<Rightarrow> byte list \<Rightarrow> int" where
  "atoi_loop n [] = n"
| "atoi_loop n (c # s) =
     (if 48 \<le> unat c \<and> unat c \<le> 57 then atoi_loop (int32 (n * 10 + int (unat c) - 48)) s else n)"

definition atoi :: "byte list \<Rightarrow> int" where
  "atoi s = atoi_loop 0 s"

text \<open>
  \<^verbatim>\<open>gets\<close>: the input is the sequence of results of \<^verbatim>\<open>read(0, &c, 1)\<close>, \<open>None\<close> for one that returns
  less than 1. The result is what \<^verbatim>\<open>buf\<close> holds before the NUL byte, and the unread input.
\<close>

fun gets_loop :: "byte list \<Rightarrow> int \<Rightarrow> byte option list \<Rightarrow> byte list \<times> byte option list" where
  "gets_loop buf lim [] = (buf, [])"
| "gets_loop buf lim (r # input) =
     (if int (length buf) + 1 < lim then
        (case r of
           None \<Rightarrow> (buf, input)
         | Some c \<Rightarrow> if c = 10 \<or> c = 13 then (buf @ [c], input) else gets_loop (buf @ [c]) lim input)
      else (buf, r # input))"

section \<open>Lemmas\<close>

lemma mem_store_Nil [simp]: "mem_store m a [] = m"
  by (auto simp: mem_store_def fun_eq_iff)

lemma mem_store_replicate: "mem_store m a (replicate n c) = (\<lambda>x. if a \<le> x \<and> x < a + n then c else m x)"
  by (auto simp: mem_store_def fun_eq_iff)

lemma stosb_eq: "stosb m d c n = mem_store m d (replicate n c)"
proof (induction n arbitrary: m d)
  case (Suc n)
  have "stosb m d c (Suc n) = mem_store (m(d := c)) (d + 1) (replicate n c)" using Suc by (simp add: fun_upd_def)
  also have "\<dots> = mem_store m d (replicate (Suc n) c)"
    unfolding mem_store_replicate by (auto simp: fun_eq_iff)
  finally show ?case .
qed simp

lemma stosl_eq:
  assumes "ucast w = c" "ucast (drop_bit 8 w) = c" "ucast (drop_bit 16 w) = c" "ucast (drop_bit 24 w) = c"
  shows "stosl m d w n = mem_store m d (replicate (4 * n) (c :: byte))"
proof (induction n arbitrary: m d)
  case (Suc n)
  have "stosl m d w (Suc n) = mem_store (m(d := c, d + 1 := c, d + 2 := c, d + 3 := c)) (d + 4) (replicate (4 * n) c)"
    using Suc assms by (simp add: fun_upd_def)
  also have "\<dots> = mem_store m d (replicate (4 * Suc n) c)"
    unfolding mem_store_replicate by (auto simp: fun_eq_iff)
  finally show ?case .
qed simp

lemma rep_byte:
  fixes c :: "32 word"
  defines "b \<equiv> c AND 0xFF" and "w \<equiv> push_bit 24 (c AND 0xFF) OR push_bit 16 (c AND 0xFF) OR push_bit 8 (c AND 0xFF) OR (c AND 0xFF)"
  shows "(ucast w :: byte) = ucast c" "(ucast (drop_bit 8 w) :: byte) = ucast c"
    "(ucast (drop_bit 16 w) :: byte) = ucast c" "(ucast (drop_bit 24 w) :: byte) = ucast c"
proof -
  have m: "(0xFF :: 32 word) = mask 8" by (simp add: mask_eq_exp_minus_1)
  show "(ucast w :: byte) = ucast c" "(ucast (drop_bit 8 w) :: byte) = ucast c"
    "(ucast (drop_bit 16 w) :: byte) = ucast c" "(ucast (drop_bit 24 w) :: byte) = ucast c"
    unfolding w_def m
    by (auto intro!: bit_word_eqI simp: bit_simps)
qed

lemma copy_up_eq:
  assumes "d \<le> s \<or> s + n \<le> d"
  shows "copy_up m d s n = mem_store m d (mem_range m s n)"
  using assms
proof (induction n arbitrary: m d s)
  case (Suc n)
  have "copy_up m d s (Suc n) = mem_store (m(d := m s)) (d + 1) (mem_range (m(d := m s)) (s + 1) n)"
    using Suc.prems by (simp, intro Suc.IH) auto
  also have "\<dots> = mem_store m d (mem_range m s (Suc n))"
  proof
    fix x
    show "mem_store (m(d := m s)) (d + 1) (mem_range (m(d := m s)) (s + 1) n) x = mem_store m d (mem_range m s (Suc n)) x"
    proof (cases "d + 1 \<le> x \<and> x < d + 1 + n")
      case True
      then have "s + (x - d) \<noteq> d \<and> s + 1 + (x - (d + 1)) = s + (x - d)" using Suc.prems by auto
      then show ?thesis using True by (auto simp: mem_store_def mem_range_def simp del: upt_Suc)
    next
      case False
      then show ?thesis by (cases "x = d") (auto simp: mem_store_def mem_range_def simp del: upt_Suc)
    qed
  qed
  finally show ?case .
qed (simp add: mem_range_def)

lemma copy_down_eq:
  assumes "s \<le> d"
  shows "copy_down m (d + n) (s + n) n = mem_store m d (mem_range m s n)"
  using assms
proof (induction n arbitrary: m)
  case (Suc n)
  let ?m = "m(d + n := m (s + n))"
  have "copy_down m (d + Suc n) (s + Suc n) (Suc n) = copy_down ?m (d + n) (s + n) n" by simp
  also have "\<dots> = mem_store ?m d (mem_range ?m s n)" using Suc by blast
  also have "\<dots> = mem_store m d (mem_range m s (Suc n))"
  proof
    fix x
    show "mem_store ?m d (mem_range ?m s n) x = mem_store m d (mem_range m s (Suc n)) x"
    proof (cases "d \<le> x \<and> x < d + n")
      case True
      then have "s + (x - d) \<noteq> d + n" using Suc.prems by auto
      then show ?thesis using True by (auto simp: mem_store_def mem_range_def simp del: upt_Suc)
    next
      case False
      then show ?thesis by (cases "x = d + n") (auto simp: mem_store_def mem_range_def simp del: upt_Suc)
    qed
  qed
  finally show ?case .
qed (simp add: mem_range_def)

text \<open>
  \<^verbatim>\<open>memmove\<close> copies correctly whether or not source and destination overlap: afterwards the
  destination holds the \<open>n\<close> bytes that the source held before the call, and no other byte of
  memory has changed.
\<close>

theorem memmove_copies:
  "memmove m dst src n = mem_store m dst (mem_range m src n)"
  using copy_down_eq [of src dst m n] copy_up_eq [of dst src n m] by (auto simp: memmove_def)

text \<open>
  \<^verbatim>\<open>memset\<close> stores the low byte of \<open>c\<close> into exactly the \<open>n\<close> bytes from \<open>dst\<close> on, on the
  word-at-a-time path for aligned arguments as on the byte path.
\<close>

theorem memset_fills:
  "memset m dst c n = mem_store m dst (replicate n (ucast c))"
  using stosl_eq [OF rep_byte [of c], of m dst "n div 4"]
  by (auto simp: memset_def stosb_eq Let_def mult_div_mod_eq)

section \<open>Bounded strings, as lists\<close>

text \<open>The string that a buffer holds: the bytes before the first NUL.\<close>

definition cstr :: "byte list \<Rightarrow> byte list" where
  "cstr bs = takeWhile (\<lambda>b. b \<noteq> 0) bs"

lemma mem_range_Suc: "mem_range m a (Suc n) = m a # mem_range m (a + 1) n"
  by (simp add: mem_range_def upt_conv_Cons del: upt_Suc)

lemma length_mem_range [simp]: "length (mem_range m a n) = n"
  by (simp add: mem_range_def)

lemma mem_range_store [simp]: "length bs = n \<Longrightarrow> mem_range (mem_store m a bs) a n = bs"
  by (rule nth_equalityI) (auto simp: mem_range_def mem_store_def)

lemma unat_byte_diff: "int (unat (a :: byte)) - int (unat b) = 0 \<longleftrightarrow> a = b"
  by (auto intro: unsigned_word_eqI)

text \<open>
  \<^verbatim>\<open>strncmp\<close> returns 0 exactly when the two strings, cut at their NUL byte or after \<open>n\<close>
  bytes, are equal.
\<close>

theorem strncmp_equal:
  "strncmp m p q n = 0 \<longleftrightarrow> cstr (mem_range m p n) = cstr (mem_range m q n)"
proof (induction n arbitrary: p q)
  case (Suc n)
  then show ?case
    using unat_byte_diff [of "m p" "m q"] by (auto simp: mem_range_Suc cstr_def)
qed (simp add: mem_range_def)

text \<open>The bytes \<^verbatim>\<open>strncpy\<close> and \<^verbatim>\<open>safestrcpy\<close> store.\<close>

definition strncpy_bytes :: "byte list \<Rightarrow> nat \<Rightarrow> byte list" where
  "strncpy_bytes t n = take n (cstr (take n t) @ replicate n 0)"

lemma zero_fill_eq: "zero_fill m s n = mem_store m s (replicate n 0)"
proof -
  have "zero_fill m s n = stosb m s 0 n" by (induction n arbitrary: m s) simp_all
  then show ?thesis by (simp add: stosb_eq)
qed

lemma mem_store_Cons: "mem_store (m(s := b)) (s + 1) bs = mem_store m s (b # bs)"
  by (auto simp: mem_store_def fun_eq_iff nth_Cons')

lemma mem_range_upd_other: "\<not> (a \<le> x \<and> x < a + n) \<Longrightarrow> mem_range (m(x := b)) a n = mem_range m a n"
  by (auto simp: mem_range_def)

lemma strncpy_eq:
  assumes "s + n \<le> t \<or> t + n \<le> s"
  shows "strncpy m s t n = mem_store m s (strncpy_bytes (mem_range m t n) n)"
  using assms
proof (induction n arbitrary: m s t)
  case (Suc n)
  let ?m = "m(s := m t)"
  have r: "mem_range ?m (t + 1) n = mem_range m (t + 1) n"
    using Suc.prems by (intro mem_range_upd_other) auto
  show ?case
  proof (cases "m t = 0")
    case True
    then show ?thesis
      using mem_store_Cons [of m s 0 "replicate n 0"]
      by (simp add: zero_fill_eq strncpy_bytes_def mem_range_Suc cstr_def Let_def)
  next
    case False
    have "strncpy ?m (s + 1) (t + 1) n = mem_store ?m (s + 1) (strncpy_bytes (mem_range m (t + 1) n) n)"
      unfolding r [symmetric] by (rule Suc.IH) (use Suc.prems in auto)
    also have "\<dots> = mem_store m s (m t # strncpy_bytes (mem_range m (t + 1) n) n)" by (rule mem_store_Cons)
    also have "m t # strncpy_bytes (mem_range m (t + 1) n) n = strncpy_bytes (mem_range m t (Suc n)) (Suc n)"
      using False by (simp add: strncpy_bytes_def mem_range_Suc cstr_def take_Cons' del: replicate_Suc)
    finally show ?thesis using False by (simp add: Let_def fun_upd_def)
  qed
qed (simp add: strncpy_bytes_def)

lemma safestrcpy_loop_eq:
  assumes "s + n \<le> t \<or> t + n \<le> s" and c: "c = cstr (mem_range m t n)"
  shows "\<exists>e. safestrcpy_loop m s t n = (mem_store m s (c @ e), s + length (c @ e))
     \<and> (e = [] \<and> length c = n \<or> e = [0] \<and> length c < n)"
  using assms
proof (induction n arbitrary: m s t c)
  case (Suc n)
  let ?m = "m(s := m t)"
  have r: "mem_range ?m (t + 1) n = mem_range m (t + 1) n"
    using Suc.prems(1) by (intro mem_range_upd_other) auto
  show ?case
  proof (cases "m t = 0")
    case True
    then have "c = []" using Suc.prems(2) by (simp add: mem_range_Suc cstr_def)
    then show ?thesis using True mem_store_Cons [of m s 0 "[]"]
      by (auto simp: mem_store_def fun_eq_iff)
  next
    case False
    define c' where "c' = cstr (mem_range ?m (t + 1) n)"
    have c: "c = m t # c'" using Suc.prems(2) False unfolding c'_def r by (simp add: mem_range_Suc cstr_def)
    have "s + 1 + n \<le> t + 1 \<or> t + 1 + n \<le> s + 1" using Suc.prems(1) by auto
    from Suc.IH [OF this c'_def] obtain e where
      e: "safestrcpy_loop ?m (s + 1) (t + 1) n = (mem_store ?m (s + 1) (c' @ e), s + 1 + length (c' @ e))"
      "e = [] \<and> length c' = n \<or> e = [0] \<and> length c' < n" by blast
    then show ?thesis using False mem_store_Cons [of m s "m t" "c' @ e"] by (auto simp: c Let_def)
  qed
qed (simp add: mem_range_def cstr_def)

text \<open>
  \<^verbatim>\<open>safestrcpy\<close> with a positive count always leaves a NUL-terminated string: the destination
  holds the source string cut to \<open>n - 1\<close> bytes, and nothing beyond the \<open>n\<close> bytes changes.
\<close>

theorem safestrcpy_terminates_string:
  assumes "0 < n" and "s + nat n \<le> t \<or> t + nat n \<le> s"
  shows "cstr (mem_range (safestrcpy m s t n) s (nat n)) = cstr (mem_range m t (nat n - 1))
     \<and> 0 \<in> set (mem_range (safestrcpy m s t n) s (nat n))
     \<and> (\<forall>x. \<not> (s \<le> x \<and> x < s + nat n) \<longrightarrow> safestrcpy m s t n x = m x)"
proof -
  obtain k where k: "nat n = Suc k" using assms(1) by (metis Suc_nat_eq_nat_zadd1 gr0_conv_Suc zero_less_nat_eq)
  define c where "c = cstr (mem_range m t k)"
  have "s + k \<le> t \<or> t + k \<le> s" using assms(2) k by auto
  from safestrcpy_loop_eq [OF this c_def] obtain e where
    e: "safestrcpy_loop m s t k = (mem_store m s (c @ e), s + length (c @ e))"
    "e = [] \<and> length c = k \<or> e = [0] \<and> length c < k" by blast
  let ?r = "safestrcpy m s t n"
  have r: "?r = (mem_store m s (c @ e))(s + length (c @ e) := 0)"
    using assms(1) e(1) k by (simp add: safestrcpy_def)
  have lc: "length c \<le> k" using e(2) by auto
  have nz: "0 \<notin> set c" by (auto simp: c_def cstr_def dest: set_takeWhileD)
  have at: "?r (s + i) = c ! i" if "i < length c" for i
    using that by (auto simp: r mem_store_def nth_append)
  have z: "?r (s + length c) = 0" using e(2) by (auto simp: r mem_store_def nth_append)
  have rng: "mem_range ?r s (Suc k) = c @ 0 # mem_range ?r (s + length c + 1) (k - length c)"
    by (rule nth_equalityI) (use lc at z in \<open>auto simp: mem_range_def nth_append nth_Cons' simp del: upt_Suc\<close>)
  have "takeWhile (\<lambda>b. b \<noteq> 0) (c @ 0 # ys) = c" for ys
    using nz by (simp add: takeWhile_append)
  then have "cstr (mem_range ?r s (Suc k)) = c" unfolding rng cstr_def by simp
  moreover have "?r x = m x" if "\<not> (s \<le> x \<and> x < s + Suc k)" for x
    using that e(2) lc by (auto simp: r mem_store_def)
  ultimately show ?thesis unfolding k using rng by (simp add: c_def)
qed

theorem safestrcpy_terminates_string_witness:
  "cstr (mem_range (safestrcpy (\<lambda>x. if x < 3 then 65 else 0) 100 0 2) 100 2) = [65]"
  using safestrcpy_terminates_string [of 2 100 0 "\<lambda>x. if x < 3 then 65 else 0"]
  by (simp add: mem_range_def cstr_def upt_rec)

text \<open>
  The user-level \<^verbatim>\<open>memmove\<close> of \<^verbatim>\<open>ulib.c\<close> agrees with the kernel's unless the destination starts
  inside the source; there it repeats the first bytes instead of moving the block.
\<close>

theorem umemmove_no_forward_overlap:
  assumes "0 \<le> n" and "\<not> (src < dst \<and> dst < src + nat n)"
  shows "umemmove m dst src n = memmove m dst src (nat n)"
  using assms by (auto simp: umemmove_def memmove_def)

theorem umemmove_no_forward_overlap_witness:
  "umemmove (\<lambda>x. of_nat x) 10 12 4 = memmove (\<lambda>x. of_nat x) 10 12 4
     \<and> umemmove (\<lambda>x. of_nat x) 11 10 2 12 \<noteq> memmove (\<lambda>x. of_nat x) 11 10 2 12"
  using umemmove_no_forward_overlap [of 4 12 10 "\<lambda>x. of_nat x"]
  by (simp add: umemmove_def memmove_def numeral_eq_Suc)

section \<open>Strings that end\<close>

lemma strlen_from_Some:
  assumes "m (s + n + k) = 0" and "\<And>i. i < k \<Longrightarrow> m (s + n + i) \<noteq> 0"
  shows "strlen_from m s n = Some (n + k)"
  using assms
proof (induction k arbitrary: n)
  case 0
  then show ?case by (simp add: strlen_from.simps)
next
  case (Suc k)
  have "strlen_from m s (n + 1) = Some (n + 1 + k)"
  proof (rule Suc.IH)
    show "m (s + (n + 1) + k) = 0" using Suc.prems(1) by simp
    show "m (s + (n + 1) + i) \<noteq> 0" if "i < k" for i using Suc.prems(2) [of "Suc i"] that by simp
  qed
  moreover have "m (s + n) \<noteq> 0" using Suc.prems(2) [of 0] by simp
  ultimately show ?case by (simp add: strlen_from.simps [of m s n])
qed

lemma strlen_ends:
  assumes "m (s + k) = 0"
  shows "\<exists>n \<le> k. strlen m s = Some n \<and> m (s + n) = 0 \<and> (\<forall>i < n. m (s + i) \<noteq> 0)"
proof -
  define n where "n = (LEAST n. m (s + n) = 0)"
  have n: "m (s + n) = 0" "n \<le> k" "\<And>i. i < n \<Longrightarrow> m (s + i) \<noteq> 0"
    using assms LeastI [of "\<lambda>n. m (s + n) = 0" k] Least_le [of "\<lambda>n. m (s + n) = 0" k] not_less_Least
    by (auto simp: n_def)
  have "strlen m s = Some n" using strlen_from_Some [of m s 0 n] n by (simp add: strlen_def)
  with n show ?thesis by blast
qed

lemma gets_loop_bound:
  assumes "int (length buf) < lim"
  shows "int (length (fst (gets_loop buf lim input))) < lim"
  using assms by (induction buf lim input rule: gets_loop.induct) (auto split: option.splits)

end
