(* ===== verification/Locks.thy ===== *)
theory Locks
  imports Prelude
begin

text \<open>
  \<^verbatim>\<open>src/spinlock.c\<close> and \<^verbatim>\<open>src/sleeplock.c\<close>. A spin lock is modelled at the grain of the machine:
  entering \<^verbatim>\<open>acquire\<close>, one \<^verbatim>\<open>xchg\<close> of its loop and \<^verbatim>\<open>release\<close> are separate steps of a CPU, and
  \<open>lock_step\<close> interleaves the steps of all CPUs. The other components of the kernel take the
  code between an \<^verbatim>\<open>acquire\<close> and the matching \<^verbatim>\<open>release\<close> as one atomic step, which the mutual
  exclusion shown here justifies. A sleep lock is protected by a spin lock of its own, so each
  of its operations is one atomic step.
\<close>

section \<open>CPU interrupt state\<close>

text \<open>\<open>c_if\<close> is the bit \<^verbatim>\<open>FL_IF\<close> of the flags register, which \<^verbatim>\<open>cli\<close> clears and \<^verbatim>\<open>sti\<close> sets.\<close>

record cpu =
  c_if :: bool
  ncli :: int
  intena :: bool

definition pushcli :: "cpu \<Rightarrow> cpu" where
  "pushcli c = c\<lparr>c_if := False, intena := (if ncli c = 0 then c_if c else intena c),
                 ncli := ncli c + 1\<rparr>"

definition popcli :: "cpu \<Rightarrow> cpu res" where
  "popcli c =
     (if c_if c then Panic ''popcli - interruptible''
      else let c' = c\<lparr>ncli := ncli c - 1\<rparr> in
        if ncli c' < 0 then Panic ''popcli''
        else Ok (if ncli c' = 0 \<and> intena c' then c'\<lparr>c_if := True\<rparr> else c'))"

section \<open>Spin locks\<close>

type_synonym addr_t = "64 word"

definition KERNBASE :: addr_t where
  "KERNBASE = 0xFFFF800000000000"

text \<open>The walk along the saved frame pointers; \<open>mem\<close> reads a word of memory.\<close>

fun getstackpcs_from :: "(addr_t \<Rightarrow> addr_t) \<Rightarrow> addr_t \<Rightarrow> nat \<Rightarrow> addr_t list" where
  "getstackpcs_from mem rbp 0 = []"
| "getstackpcs_from mem rbp (Suc k) =
     (if rbp = 0 \<or> rbp < KERNBASE \<or> rbp = 0xffffffff then replicate (Suc k) 0
      else mem (rbp + 8) # getstackpcs_from mem (mem rbp) k)"

definition getstackpcs :: "(addr_t \<Rightarrow> addr_t) \<Rightarrow> addr_t \<Rightarrow> addr_t list" where
  "getstackpcs mem rbp = getstackpcs_from mem rbp 10"

text \<open>\<open>lk_cpu\<close> is the index of the holding CPU, \<open>None\<close> the null pointer.\<close>

record spinlock =
  lk_locked :: bool
  lk_name :: string
  lk_cpu :: "nat option"
  lk_pcs :: "addr_t list"

definition initlock :: "spinlock \<Rightarrow> string \<Rightarrow> spinlock" where
  "initlock lk name = lk\<lparr>lk_name := name, lk_locked := False, lk_cpu := None\<rparr>"

definition holding :: "nat \<Rightarrow> spinlock \<Rightarrow> bool" where
  "holding me lk \<longleftrightarrow> lk_locked lk \<and> lk_cpu lk = Some me"

text \<open>The head of \<^verbatim>\<open>acquire\<close>: interrupts off, and no second acquisition by the same CPU.\<close>

definition acquire_enter :: "nat \<Rightarrow> spinlock \<Rightarrow> cpu \<Rightarrow> cpu res" where
  "acquire_enter me lk c =
     (let c' = pushcli c in if holding me lk then Panic ''acquire'' else Ok c')"

text \<open>
  One atomic \<^verbatim>\<open>xchg(&lk->locked, 1)\<close>: the old value of \<^verbatim>\<open>locked\<close> and the lock after it. The
  loop ends when the old value was 0; then the holder is recorded.
\<close>

definition acquire_xchg :: "spinlock \<Rightarrow> bool \<times> spinlock" where
  "acquire_xchg lk = (lk_locked lk, lk\<lparr>lk_locked := True\<rparr>)"

definition acquire_record :: "nat \<Rightarrow> (addr_t \<Rightarrow> addr_t) \<Rightarrow> addr_t \<Rightarrow> spinlock \<Rightarrow> spinlock" where
  "acquire_record me mem rbp lk = lk\<lparr>lk_cpu := Some me, lk_pcs := getstackpcs mem rbp\<rparr>"

definition release :: "nat \<Rightarrow> spinlock \<Rightarrow> cpu \<Rightarrow> (spinlock \<times> cpu) res" where
  "release me lk c =
     (if \<not> holding me lk then Panic ''release''
      else bind_res (popcli c) (\<lambda>c'. Ok (lk\<lparr>lk_pcs := (lk_pcs lk)[0 := 0], lk_cpu := None,
                                            lk_locked := False\<rparr>, c')))"

section \<open>Several CPUs and one lock\<close>

datatype lock_pc = Outside | Spinning | Acquired | Inside

record lock_sys =
  s_lock :: spinlock
  s_cpu :: "nat \<Rightarrow> cpu"
  s_pc :: "nat \<Rightarrow> lock_pc"

inductive lock_step :: "lock_sys \<Rightarrow> lock_sys \<Rightarrow> bool" where
  enter: "s_pc s i = Outside \<Longrightarrow> acquire_enter i (s_lock s) (s_cpu s i) = Ok c' \<Longrightarrow>
     lock_step s (s\<lparr>s_cpu := (s_cpu s)(i := c'), s_pc := (s_pc s)(i := Spinning)\<rparr>)"
| xchg: "s_pc s i = Spinning \<Longrightarrow> acquire_xchg (s_lock s) = (old, lk') \<Longrightarrow>
     lock_step s (s\<lparr>s_lock := lk', s_pc := (s_pc s)(i := (if old then Spinning else Acquired))\<rparr>)"
| record_holder: "s_pc s i = Acquired \<Longrightarrow>
     lock_step s (s\<lparr>s_lock := acquire_record i mem rbp (s_lock s), s_pc := (s_pc s)(i := Inside)\<rparr>)"
| leave: "s_pc s i = Inside \<Longrightarrow> release i (s_lock s) (s_cpu s i) = Ok (lk', c') \<Longrightarrow>
     lock_step s (s\<lparr>s_lock := lk', s_cpu := (s_cpu s)(i := c'), s_pc := (s_pc s)(i := Outside)\<rparr>)"

definition lock_init :: "lock_sys \<Rightarrow> bool" where
  "lock_init s \<longleftrightarrow> (\<exists>lk name. s_lock s = initlock lk name) \<and> (\<forall>i. s_pc s i = Outside)
     \<and> (\<forall>i. 0 \<le> ncli (s_cpu s i) \<and> (0 < ncli (s_cpu s i) \<longrightarrow> \<not> c_if (s_cpu s i)))"

text \<open>A CPU owns the lock from its successful \<^verbatim>\<open>xchg\<close> to its \<^verbatim>\<open>release\<close>.\<close>

definition owns :: "lock_sys \<Rightarrow> nat \<Rightarrow> bool" where
  "owns s i \<longleftrightarrow> s_pc s i = Acquired \<or> s_pc s i = Inside"

definition lock_inv :: "lock_sys \<Rightarrow> bool" where
  "lock_inv s \<longleftrightarrow>
     (\<forall>i j. owns s i \<longrightarrow> owns s j \<longrightarrow> i = j)
     \<and> (lk_locked (s_lock s) \<longleftrightarrow> (\<exists>i. owns s i))
     \<and> (\<forall>i. lk_cpu (s_lock s) = Some i \<longleftrightarrow> s_pc s i = Inside)
     \<and> (\<forall>i. 0 \<le> ncli (s_cpu s i) \<and> (0 < ncli (s_cpu s i) \<longrightarrow> \<not> c_if (s_cpu s i)))
     \<and> (\<forall>i. s_pc s i \<noteq> Outside \<longrightarrow> 0 < ncli (s_cpu s i))"

section \<open>Sleep locks\<close>

record sleeplock =
  sl_locked :: bool
  sl_name :: string
  sl_pid :: nat

definition initsleeplock :: "sleeplock \<Rightarrow> string \<Rightarrow> sleeplock" where
  "initsleeplock lk name = lk\<lparr>sl_name := name, sl_locked := False, sl_pid := 0\<rparr>"

definition acquiresleep :: "nat \<Rightarrow> sleeplock \<Rightarrow> sleeplock res" where
  "acquiresleep pid lk =
     (if sl_locked lk then Sleeps ''sleeplock'' else Ok (lk\<lparr>sl_locked := True, sl_pid := pid\<rparr>))"

text \<open>\<^verbatim>\<open>releasesleep\<close> also wakes the processes that sleep on the lock.\<close>

definition releasesleep :: "sleeplock \<Rightarrow> sleeplock" where
  "releasesleep lk = lk\<lparr>sl_locked := False, sl_pid := 0\<rparr>"

definition holdingsleep :: "sleeplock \<Rightarrow> bool" where
  "holdingsleep lk = sl_locked lk"

section \<open>Balanced interrupt disabling\<close>

definition cpu_wf :: "cpu \<Rightarrow> bool" where
  "cpu_wf c \<longleftrightarrow> 0 \<le> ncli c \<and> (0 < ncli c \<longrightarrow> \<not> c_if c)"

lemma pushcli_wf: "cpu_wf c \<Longrightarrow> cpu_wf (pushcli c) \<and> 0 < ncli (pushcli c)"
  by (simp add: cpu_wf_def pushcli_def)

lemma popcli_wf: "cpu_wf c \<Longrightarrow> popcli c = Ok c' \<Longrightarrow> cpu_wf c'"
  by (auto simp: cpu_wf_def popcli_def Let_def split: if_splits)

text \<open>
  \<^verbatim>\<open>pushcli\<close> and \<^verbatim>\<open>popcli\<close> are matched: after any number of \<^verbatim>\<open>pushcli\<close> calls interrupts are
  off, as many \<^verbatim>\<open>popcli\<close> calls succeed, and together they restore the interrupt flag and the
  nesting depth that the CPU had before.
\<close>

theorem pushcli_popcli_balanced:
  assumes "0 \<le> ncli c" and "0 < ncli c \<Longrightarrow> \<not> c_if c" and "0 < n"
  shows "\<not> c_if ((pushcli ^^ n) c)
     \<and> (\<exists>c'. ((\<lambda>r. bind_res r popcli) ^^ n) (Ok ((pushcli ^^ n) c)) = Ok c'
            \<and> ncli c' = ncli c \<and> c_if c' = c_if c)"
proof -
  have push: "(pushcli ^^ Suc k) c
      = c\<lparr>c_if := False, intena := (if ncli c = 0 then c_if c else intena c), ncli := ncli c + int (Suc k)\<rparr>"
    for k using assms(1) by (induction k) (auto simp: pushcli_def)
  have pop1: "popcli (c\<lparr>c_if := False, intena := x, ncli := a\<rparr>)
      = Ok (c\<lparr>c_if := False, intena := x, ncli := a - 1\<rparr>)" if "1 < a" for a x
    using that by (simp add: popcli_def Let_def)
  have pop: "((\<lambda>r. bind_res r popcli) ^^ k)
        (Ok (c\<lparr>c_if := False, intena := x, ncli := ncli c + int (k + m)\<rparr>))
      = Ok (c\<lparr>c_if := False, intena := x, ncli := ncli c + int m\<rparr>)" if "0 < m" for k m x
    using that
  proof (induction k)
    case 0
    then show ?case by simp
  next
    case (Suc k)
    show ?case
      unfolding funpow_Suc_right o_apply
      using Suc assms(1) by (simp add: pop1 algebra_simps)
  qed
  obtain k where n: "n = Suc k" using assms(3) by (cases n) auto
  let ?x = "if ncli c = 0 then c_if c else intena c"
  have last: "\<exists>c'. popcli (c\<lparr>c_if := False, intena := ?x, ncli := ncli c + 1\<rparr>) = Ok c'
      \<and> ncli c' = ncli c \<and> c_if c' = c_if c"
    using assms(1,2) by (auto simp: popcli_def Let_def)
  have "((\<lambda>r. bind_res r popcli) ^^ n) (Ok ((pushcli ^^ n) c))
      = popcli (c\<lparr>c_if := False, intena := ?x, ncli := ncli c + 1\<rparr>)"
    unfolding n push using pop [of 1 k ?x] by (simp add: algebra_simps)
  with last show ?thesis unfolding n push by simp
qed

theorem pushcli_popcli_balanced_witness:
  "\<exists>c'. ((\<lambda>r. bind_res r popcli) ^^ 2) (Ok ((pushcli ^^ 2) \<lparr>c_if = True, ncli = 0, intena = False\<rparr>)) = Ok c'
     \<and> ncli c' = 0 \<and> c_if c'"
  using pushcli_popcli_balanced [of "\<lparr>c_if = True, ncli = 0, intena = False\<rparr>" 2] by auto

section \<open>Mutual exclusion\<close>

lemma lock_step_inv:
  assumes inv: "lock_inv s" and st: "lock_step s t"
  shows "lock_inv t"
  using st
proof cases
  case (enter i c')
  then have c': "c' = pushcli (s_cpu s i)"
    by (auto simp: acquire_enter_def Let_def split: if_splits)
  have own: "owns t k = owns s k" for k
    using enter by (auto simp: owns_def)
  show ?thesis
    using inv enter own unfolding lock_inv_def c' by (auto simp: pushcli_def)
next
  case (xchg i old lk')
  then have lk: "lk' = (s_lock s)\<lparr>lk_locked := True\<rparr>" and old: "old = lk_locked (s_lock s)"
    by (auto simp: acquire_xchg_def)
  have own: "owns t k = (owns s k \<or> k = i \<and> \<not> old)" for k
    using xchg by (auto simp: owns_def)
  have some: "\<exists>k. owns t k"
  proof (cases old)
    case True
    then have "\<exists>k. owns s k" using inv old by (simp add: lock_inv_def)
    then show ?thesis using own by blast
  next
    case False
    then show ?thesis using own by blast
  qed
  have one: "\<forall>k j. owns t k \<longrightarrow> owns t j \<longrightarrow> k = j"
    using inv own old unfolding lock_inv_def by metis
  have "s_pc t k = Inside \<longleftrightarrow> s_pc s k = Inside" for k using xchg by auto
  with inv some one show ?thesis
    unfolding lock_inv_def using xchg by (simp add: lk)
next
  case (record_holder i mem rbp)
  have own: "owns t k = owns s k" for k
    using record_holder by (auto simp: owns_def)
  have "s_pc s k \<noteq> Inside" for k
    using inv record_holder unfolding lock_inv_def owns_def by (metis lock_pc.distinct(11))
  then have "\<forall>k. lk_cpu (s_lock t) = Some k \<longleftrightarrow> s_pc t k = Inside"
    using record_holder by (simp add: acquire_record_def)
  moreover have "lk_locked (s_lock t) = lk_locked (s_lock s)" "s_cpu t = s_cpu s"
    and "\<forall>k. s_pc t k \<noteq> Outside \<longleftrightarrow> s_pc s k \<noteq> Outside"
    using record_holder by (auto simp: acquire_record_def)
  moreover have "owns t = owns s" using own by blast
  ultimately show ?thesis
    using inv unfolding lock_inv_def by simp
next
  case (leave i lk' c')
  then have hold: "holding i (s_lock s)" and pop: "popcli (s_cpu s i) = Ok c'"
    and lk: "\<not> lk_locked lk'" "lk_cpu lk' = None"
    by (auto simp: release_def split: if_splits)
  have only: "owns s k \<Longrightarrow> k = i" for k
    using inv leave unfolding lock_inv_def owns_def by metis
  have none: "\<not> owns t k" for k
    using only leave by (auto simp: owns_def)
  then have "s_pc t k \<noteq> Inside" for k by (auto simp: owns_def)
  moreover have "cpu_wf (s_cpu s k)" for k
    using inv by (simp add: lock_inv_def cpu_wf_def)
  then have "cpu_wf (s_cpu t k)" for k
    using popcli_wf [OF _ pop] leave by simp
  moreover have "s_pc t k \<noteq> Outside \<longrightarrow> 0 < ncli (s_cpu t k)" for k
    using inv leave by (simp add: lock_inv_def)
  ultimately show ?thesis
    using none lk leave unfolding lock_inv_def by (simp add: cpu_wf_def)
qed

interpretation lock_sys: step_system lock_init lock_step lock_inv
proof unfold_locales
  fix s :: lock_sys
  assume "lock_init s"
  then show "lock_inv s"
    by (auto simp: lock_init_def lock_inv_def owns_def initlock_def)
qed (rule lock_step_inv)

text \<open>
  C9. A spin lock excludes: in every interleaving of the CPUs' steps at most one CPU is between
  its successful \<^verbatim>\<open>xchg\<close> and its \<^verbatim>\<open>release\<close>, and a CPU that spins for the lock or holds it has
  interrupts disabled. The \<^verbatim>\<open>holding\<close> test is exact for the CPU inside the critical section, so
  its \<^verbatim>\<open>release\<close> does not panic.
\<close>

theorem spinlock_mutual_exclusion:
  assumes "lock_init s" and "lock_step\<^sup>*\<^sup>* s t"
  shows "(owns t i \<longrightarrow> owns t j \<longrightarrow> i = j)
     \<and> (s_pc t i \<noteq> Outside \<longrightarrow> \<not> c_if (s_cpu t i))
     \<and> (s_pc t i = Inside \<longrightarrow> (\<exists>r. release i (s_lock t) (s_cpu t i) = Ok r))"
proof -
  have inv: "lock_inv t" by (rule lock_sys.inv_reachable [OF assms])
  have rel: "\<exists>r. release i (s_lock t) (s_cpu t i) = Ok r" if "s_pc t i = Inside"
  proof -
    have "holding i (s_lock t)"
      using inv that unfolding lock_inv_def holding_def owns_def by metis
    moreover have "0 < ncli (s_cpu t i)" "\<not> c_if (s_cpu t i)"
      using inv that by (auto simp: lock_inv_def)
    ultimately show ?thesis by (auto simp: release_def popcli_def Let_def)
  qed
  then show ?thesis using inv by (auto simp: lock_inv_def)
qed

definition lock_example :: lock_sys where
  "lock_example = \<lparr>s_lock = initlock \<lparr>lk_locked = True, lk_name = [], lk_cpu = None, lk_pcs = []\<rparr> ''bcache'',
     s_cpu = (\<lambda>_. \<lparr>c_if = True, ncli = 0, intena = False\<rparr>), s_pc = (\<lambda>_. Outside)\<rparr>"

theorem spinlock_mutual_exclusion_witness:
  "\<exists>t. lock_step\<^sup>*\<^sup>* lock_example t \<and> s_pc t 0 = Spinning \<and> \<not> c_if (s_cpu t 0)"
proof -
  have init: "lock_init lock_example" by (auto simp: lock_init_def lock_example_def)
  let ?c = "pushcli \<lparr>c_if = True, ncli = 0, intena = False\<rparr>"
  let ?t = "lock_example\<lparr>s_cpu := (s_cpu lock_example)(0 := ?c), s_pc := (s_pc lock_example)(0 := Spinning)\<rparr>"
  have "lock_step lock_example ?t"
    by (rule lock_step.enter)
      (simp_all add: lock_example_def acquire_enter_def initlock_def holding_def)
  then have st: "lock_step\<^sup>*\<^sup>* lock_example ?t" by blast
  from spinlock_mutual_exclusion [OF init st, of 0 0] st show ?thesis
    by (auto intro!: exI [of _ ?t])
qed

end
