(* ===== verification/Bio.thy ===== *)
theory Bio
  imports Locks
begin

text \<open>
  \<^verbatim>\<open>src/bio.c\<close> (the buffer cache), \<^verbatim>\<open>src/buf.h\<close> and the in-memory disk driver \<^verbatim>\<open>src/memide.c\<close> that
  it calls. The cache is the array \<^verbatim>\<open>bcache.buf\<close> of \<^verbatim>\<open>NBUF\<close> buffers; \<^verbatim>\<open>bcache.head\<close> is kept as the
  element after the last one, so that the pointers \<^verbatim>\<open>prev\<close> and \<^verbatim>\<open>next\<close> are indices up to
  \<^verbatim>\<open>NBUF\<close>. \<open>bc_trace\<close> is a history variable, which no operation reads: the block writes that
  have reached the disk, in order. Operations on later layers extend the state record.
\<close>

section \<open>State\<close>

definition BSIZE :: nat where
  "BSIZE = 512"

text \<open>The size of the file system in blocks.\<close>

definition FSSIZE :: nat where
  "FSSIZE = 2000"

definition NBUF :: nat where
  "NBUF = 30"

definition ROOTDEV :: nat where
  "ROOTDEV = 1"

type_synonym block = "byte list"

text \<open>\<^verbatim>\<open>flags\<close> has two bits, \<^verbatim>\<open>B_VALID\<close> and \<^verbatim>\<open>B_DIRTY\<close>.\<close>

record buf =
  b_valid :: bool
  b_dirty :: bool
  b_dev :: nat
  b_blockno :: nat
  b_lock :: sleeplock
  b_refcnt :: nat
  b_prev :: nat
  b_next :: nat
  b_data :: block

record bcache =
  bc_buf :: "buf list"
  bc_disk :: "block list"
  bc_trace :: "(nat \<times> block) list"
  bc_pid :: nat

definition upd_buf :: "nat \<Rightarrow> (buf \<Rightarrow> buf) \<Rightarrow> 'z bcache_scheme \<Rightarrow> 'z bcache_scheme" where
  "upd_buf i f s = s\<lparr>bc_buf := (bc_buf s)[i := f (bc_buf s ! i)]\<rparr>"

abbreviation get_buf :: "'z bcache_scheme \<Rightarrow> nat \<Rightarrow> buf" where
  "get_buf s i \<equiv> bc_buf s ! i"

section \<open>Linking buffers\<close>

definition set_next :: "nat \<Rightarrow> nat \<Rightarrow> 'z bcache_scheme \<Rightarrow> 'z bcache_scheme" where
  "set_next i j = upd_buf i (\<lambda>b. b\<lparr>b_next := j\<rparr>)"

definition set_prev :: "nat \<Rightarrow> nat \<Rightarrow> 'z bcache_scheme \<Rightarrow> 'z bcache_scheme" where
  "set_prev i j = upd_buf i (\<lambda>b. b\<lparr>b_prev := j\<rparr>)"

text \<open>The body of the loop of \<^verbatim>\<open>binit\<close> and the whole of it.\<close>

definition binit_buf :: "nat \<Rightarrow> 'z bcache_scheme \<Rightarrow> 'z bcache_scheme" where
  "binit_buf b s =
     (let s = set_next b (b_next (get_buf s NBUF)) s;
          s = set_prev b NBUF s;
          s = upd_buf b (\<lambda>x. x\<lparr>b_lock := initsleeplock (b_lock x) ''buffer''\<rparr>) s;
          s = set_prev (b_next (get_buf s NBUF)) b s
      in set_next NBUF b s)"

definition binit :: "'z bcache_scheme \<Rightarrow> 'z bcache_scheme" where
  "binit s = fold binit_buf [0..<NBUF] (set_next NBUF NBUF (set_prev NBUF NBUF s))"

text \<open>The last part of \<^verbatim>\<open>brelse\<close>: unlink \<open>b\<close> and put it behind the head.\<close>

definition move_front :: "nat \<Rightarrow> 'z bcache_scheme \<Rightarrow> 'z bcache_scheme" where
  "move_front b s =
     (let s = set_prev (b_next (get_buf s b)) (b_prev (get_buf s b)) s;
          s = set_next (b_prev (get_buf s b)) (b_next (get_buf s b)) s;
          s = set_next b (b_next (get_buf s NBUF)) s;
          s = set_prev b NBUF s;
          s = set_prev (b_next (get_buf s NBUF)) b s
      in set_next NBUF b s)"

section \<open>Traversals of the list\<close>

text \<open>
  The two loops of \<^verbatim>\<open>bget\<close>. The fuel bounds the number of buffers visited: \<open>None\<close> is a
  traversal that has not come back to the head by then, \<open>Some None\<close> one that has found
  nothing. \<open>Suc NBUF\<close> steps are enough for a well-formed list.
\<close>

fun scan_next :: "nat \<Rightarrow> (buf \<Rightarrow> bool) \<Rightarrow> buf list \<Rightarrow> nat \<Rightarrow> nat option option" where
  "scan_next 0 P bs i = None"
| "scan_next (Suc k) P bs i =
     (if i = NBUF then Some None else if P (bs ! i) then Some (Some i)
      else scan_next k P bs (b_next (bs ! i)))"

fun scan_prev :: "nat \<Rightarrow> (buf \<Rightarrow> bool) \<Rightarrow> buf list \<Rightarrow> nat \<Rightarrow> nat option option" where
  "scan_prev 0 P bs i = None"
| "scan_prev (Suc k) P bs i =
     (if i = NBUF then Some None else if P (bs ! i) then Some (Some i)
      else scan_prev k P bs (b_prev (bs ! i)))"

section \<open>The disk driver\<close>

definition iderw :: "nat \<Rightarrow> 'z bcache_scheme \<Rightarrow> 'z bcache_scheme res" where
  "iderw i s =
     (let b = get_buf s i in
      if \<not> holdingsleep (b_lock b) then Panic ''iderw: buf not locked''
      else if b_valid b \<and> \<not> b_dirty b then Panic ''iderw: nothing to do''
      else if b_dev b \<noteq> 1 then Panic ''iderw: request not for disk 1''
      else if b_blockno b \<ge> length (bc_disk s) then Panic ''iderw: block out of range''
      else if b_dirty b then
        Ok (upd_buf i (\<lambda>b. b\<lparr>b_dirty := False, b_valid := True\<rparr>)
              (s\<lparr>bc_disk := (bc_disk s)[b_blockno b := b_data b],
                 bc_trace := bc_trace s @ [(b_blockno b, b_data b)]\<rparr>))
      else Ok (upd_buf i (\<lambda>x. x\<lparr>b_data := bc_disk s ! b_blockno b, b_valid := True\<rparr>) s))"

section \<open>Operations of the cache\<close>

definition bget_lock :: "nat \<Rightarrow> 'z bcache_scheme \<Rightarrow> (nat \<times> 'z bcache_scheme) res" where
  "bget_lock i s =
     bind_res (acquiresleep (bc_pid s) (b_lock (get_buf s i)))
       (\<lambda>lk. Ok (i, upd_buf i (\<lambda>b. b\<lparr>b_lock := lk\<rparr>) s))"

definition bget :: "nat \<Rightarrow> nat \<Rightarrow> 'z bcache_scheme \<Rightarrow> (nat \<times> 'z bcache_scheme) res" where
  "bget dev blockno s =
     (case scan_next (Suc NBUF) (\<lambda>b. b_dev b = dev \<and> b_blockno b = blockno) (bc_buf s)
             (b_next (get_buf s NBUF)) of
        None \<Rightarrow> Fault ''bget: endless list''
      | Some (Some i) \<Rightarrow> bget_lock i (upd_buf i (\<lambda>b. b\<lparr>b_refcnt := wrap32 (b_refcnt b + 1)\<rparr>) s)
      | Some None \<Rightarrow>
          (case scan_prev (Suc NBUF) (\<lambda>b. b_refcnt b = 0 \<and> \<not> b_dirty b) (bc_buf s)
                  (b_prev (get_buf s NBUF)) of
             None \<Rightarrow> Fault ''bget: endless list''
           | Some (Some i) \<Rightarrow>
               bget_lock i (upd_buf i (\<lambda>b. b\<lparr>b_dev := dev, b_blockno := blockno, b_valid := False,
                                             b_dirty := False, b_refcnt := 1\<rparr>) s)
           | Some None \<Rightarrow> Panic ''bget: no buffers''))"

definition bread :: "nat \<Rightarrow> nat \<Rightarrow> 'z bcache_scheme \<Rightarrow> (nat \<times> 'z bcache_scheme) res" where
  "bread dev blockno s =
     bind_res (bget dev blockno s) (\<lambda>(i, s).
       if \<not> b_valid (get_buf s i) then bind_res (iderw i s) (\<lambda>s. Ok (i, s)) else Ok (i, s))"

definition bwrite :: "nat \<Rightarrow> 'z bcache_scheme \<Rightarrow> 'z bcache_scheme res" where
  "bwrite i s =
     (if \<not> holdingsleep (b_lock (get_buf s i)) then Panic ''bwrite''
      else iderw i (upd_buf i (\<lambda>b. b\<lparr>b_dirty := True\<rparr>) s))"

definition brelse :: "nat \<Rightarrow> 'z bcache_scheme \<Rightarrow> 'z bcache_scheme res" where
  "brelse i s =
     (if \<not> holdingsleep (b_lock (get_buf s i)) then Panic ''brelse''
      else let s = upd_buf i (\<lambda>b. b\<lparr>b_lock := releasesleep (b_lock b),
                                     b_refcnt := wrap32 (b_refcnt b + 2 ^ 32 - 1)\<rparr>) s
           in Ok (if b_refcnt (get_buf s i) = 0 then move_front i s else s))"

text \<open>The callers of \<^verbatim>\<open>bread\<close> store into \<^verbatim>\<open>b->data\<close> while they hold the buffer.\<close>

definition set_data :: "nat \<Rightarrow> block \<Rightarrow> 'z bcache_scheme \<Rightarrow> 'z bcache_scheme" where
  "set_data i d = upd_buf i (\<lambda>b. b\<lparr>b_data := d\<rparr>)"

section \<open>Doubly linked paths\<close>

text \<open>
  \<open>dl N P a xs z\<close>: following \<open>N\<close> from \<open>a\<close> visits \<open>xs\<close> and then \<open>z\<close>, and \<open>P\<close> leads back.
\<close>

fun dl :: "(nat \<Rightarrow> nat) \<Rightarrow> (nat \<Rightarrow> nat) \<Rightarrow> nat \<Rightarrow> nat list \<Rightarrow> nat \<Rightarrow> bool" where
  "dl N P a [] z \<longleftrightarrow> N a = z \<and> P z = a"
| "dl N P a (x # xs) z \<longleftrightarrow> N a = x \<and> P x = a \<and> dl N P x xs z"

lemma dl_append: "dl N P a (xs @ y # ys) z \<longleftrightarrow> dl N P a xs y \<and> dl N P y ys z"
  by (induction xs arbitrary: a) auto

lemma dl_frame:
  assumes "\<And>u. u \<in> set (a # xs) \<Longrightarrow> N' u = N u" and "\<And>v. v \<in> set (xs @ [z]) \<Longrightarrow> P' v = P v"
  shows "dl N' P' a xs z = dl N P a xs z"
  using assms by (induction xs arbitrary: a) auto

lemma dl_ends:
  assumes "dl N P a xs z"
  shows "N a = hd (xs @ [z])" and "P z = last (a # xs)"
  using assms by (induction xs arbitrary: a) auto

text \<open>Taking one node out, and putting one in behind the first.\<close>

lemma dl_unlink:
  assumes "dl N P a (xs @ y # ys) z" and "distinct (a # xs @ y # ys)" and "distinct (xs @ y # ys @ [z])"
  shows "dl (N(P y := N y)) (P(N y := P y)) a (xs @ ys) z"
proof -
  have l: "dl N P a xs y" and r: "dl N P y ys z" using assms(1) by (simp_all add: dl_append)
  have Py: "P y = last (a # xs)" using dl_ends(2) [OF l] .
  have Ny: "N y = hd (ys @ [z])" using dl_ends(1) [OF r] .
  show ?thesis
  proof (cases xs rule: rev_cases)
    case xs: Nil
    show ?thesis
    proof (cases ys)
      case Nil
      then show ?thesis using xs Py Ny by simp
    next
      case (Cons v vs)
      with r have "dl N P v vs z" by simp
      moreover have "dl (N(a := v)) (P(v := a)) v vs z = dl N P v vs z"
        by (rule dl_frame) (use assms(2,3) xs Cons in auto)
      ultimately show ?thesis using xs Cons Py Ny by simp
    qed
  next
    case xs: (snoc us u)
    then have du: "dl N P a us u" using l by (simp add: dl_append)
    show ?thesis
    proof (cases ys)
      case Nil
      have "dl (N(u := z)) (P(z := u)) a us u = dl N P a us u"
        by (rule dl_frame) (use assms(2,3) xs Nil in auto)
      then show ?thesis using xs Nil Py Ny du by (simp add: dl_append)
    next
      case (Cons v vs)
      have "dl (N(u := v)) (P(v := u)) a us u = dl N P a us u"
        by (rule dl_frame) (use assms(2,3) xs Cons in auto)
      moreover have "dl (N(u := v)) (P(v := u)) v vs z = dl N P v vs z"
        by (rule dl_frame) (use assms(2,3) xs Cons in auto)
      ultimately show ?thesis using xs Cons Py Ny du r by (simp add: dl_append)
    qed
  qed
qed

lemma dl_push:
  assumes "dl N P a xs z" and "y \<notin> set (a # xs)" and "y \<noteq> z" and "distinct (a # xs)" and "z \<notin> set xs"
  shows "dl (N(y := N a, a := y)) (P(y := a, N a := y)) a (y # xs) z"
proof (cases xs)
  case Nil
  then show ?thesis using assms by auto
next
  case (Cons x ys)
  then have "dl N P x ys z" using assms(1) by simp
  moreover have "dl (N(y := N a, a := y)) (P(y := a, N a := y)) x ys z = dl N P x ys z"
    by (rule dl_frame) (use assms Cons in auto)
  ultimately show ?thesis using assms Cons by auto
qed

section \<open>The list of buffers\<close>

definition nextf :: "'z bcache_scheme \<Rightarrow> nat \<Rightarrow> nat" where
  "nextf s i = b_next (get_buf s i)"

definition prevf :: "'z bcache_scheme \<Rightarrow> nat \<Rightarrow> nat" where
  "prevf s i = b_prev (get_buf s i)"

text \<open>\<open>lru s xs\<close>: the list from the most to the least recently used buffer is \<open>xs\<close>.\<close>

definition lru :: "'z bcache_scheme \<Rightarrow> nat list \<Rightarrow> bool" where
  "lru s xs \<longleftrightarrow> length (bc_buf s) = Suc NBUF \<and> dl (nextf s) (prevf s) NBUF xs NBUF
     \<and> distinct xs \<and> set xs = {..<NBUF}"

lemma upd_buf_sel [simp]:
  "length (bc_buf (upd_buf i f s)) = length (bc_buf s)"
  "bc_disk (upd_buf i f s) = bc_disk s" "bc_trace (upd_buf i f s) = bc_trace s"
  "bc_pid (upd_buf i f s) = bc_pid s" "bcache.more (upd_buf i f s) = bcache.more s"
  by (simp_all add: upd_buf_def)

lemma upd_buf_get:
  "i < length (bc_buf s) \<Longrightarrow> get_buf (upd_buf i f s) j = (if j = i then f (get_buf s i) else get_buf s j)"
  by (simp add: upd_buf_def)

lemma set_next_sel [simp]:
  "length (bc_buf (set_next i j s)) = length (bc_buf s)" "bc_disk (set_next i j s) = bc_disk s"
  "bc_trace (set_next i j s) = bc_trace s" "bc_pid (set_next i j s) = bc_pid s"
  "bcache.more (set_next i j s) = bcache.more s"
  by (simp_all add: set_next_def)

lemma set_prev_sel [simp]:
  "length (bc_buf (set_prev i j s)) = length (bc_buf s)" "bc_disk (set_prev i j s) = bc_disk s"
  "bc_trace (set_prev i j s) = bc_trace s" "bc_pid (set_prev i j s) = bc_pid s"
  "bcache.more (set_prev i j s) = bcache.more s"
  by (simp_all add: set_prev_def)

lemma set_next_links:
  assumes "i < length (bc_buf s)"
  shows "nextf (set_next i j s) = (nextf s)(i := j)" and "prevf (set_next i j s) = prevf s"
  using assms by (auto simp: set_next_def upd_buf_get nextf_def prevf_def fun_eq_iff)

lemma set_prev_links:
  assumes "i < length (bc_buf s)"
  shows "prevf (set_prev i j s) = (prevf s)(i := j)" and "nextf (set_prev i j s) = nextf s"
  using assms by (auto simp: set_prev_def upd_buf_get nextf_def prevf_def fun_eq_iff)

lemma upd_buf_links:
  assumes "i < length (bc_buf s)" and "b_next (f (get_buf s i)) = nextf s i"
    and "b_prev (f (get_buf s i)) = prevf s i"
  shows "nextf (upd_buf i f s) = nextf s" and "prevf (upd_buf i f s) = prevf s"
  using assms by (auto simp: upd_buf_get nextf_def prevf_def fun_eq_iff)

lemma lru_upd_buf:
  assumes "lru s xs" and "i < NBUF" and "b_next (f (get_buf s i)) = nextf s i"
    and "b_prev (f (get_buf s i)) = prevf s i"
  shows "lru (upd_buf i f s) xs"
  using assms upd_buf_links [of i s f] by (simp add: lru_def)

lemma dl_closed:
  assumes "dl N P a xs z" and "u \<in> set (a # xs)"
  shows "N u \<in> set (xs @ [z])"
  using assms by (induction xs arbitrary: a) auto

lemma dl_closed_back:
  assumes "dl N P a xs z" and "u \<in> set (xs @ [z])"
  shows "P u \<in> set (a # xs)"
  using assms by (induction xs arbitrary: a) auto

lemma lru_bounds:
  assumes "lru s xs" and "i \<le> NBUF"
  shows "nextf s i \<le> NBUF" and "prevf s i \<le> NBUF"
proof -
  have d: "dl (nextf s) (prevf s) NBUF xs NBUF" and x: "set xs = {..<NBUF}"
    using assms(1) by (simp_all add: lru_def)
  have i: "i \<in> set (NBUF # xs)" "i \<in> set (xs @ [NBUF])" using assms(2) by (auto simp: x)
  have "nextf s i \<in> set (xs @ [NBUF])" by (rule dl_closed [OF d i(1)])
  then show "nextf s i \<le> NBUF" by (auto simp: x)
  have "prevf s i \<in> set (NBUF # xs)" by (rule dl_closed_back [OF d i(2)])
  then show "prevf s i \<le> NBUF" by (auto simp: x)
qed

text \<open>
  The six pointer assignments of \<^verbatim>\<open>brelse\<close> move one buffer to the front of the list and keep
  the order of the others.
\<close>

lemma move_front_links:
  assumes "lru s xs" and "b < NBUF"
  defines "N \<equiv> (nextf s)(prevf s b := nextf s b)" and "P \<equiv> (prevf s)(nextf s b := prevf s b)"
  shows "nextf (move_front b s) = N(b := N NBUF, NBUF := b)"
    and "prevf (move_front b s) = P(b := NBUF, N NBUF := b)"
proof -
  have len: "length (bc_buf s) = Suc NBUF" using assms(1) by (simp add: lru_def)
  have bd: "nextf s b < Suc NBUF" "prevf s b < Suc NBUF" "nextf s NBUF < Suc NBUF"
    using lru_bounds [OF assms(1)] assms(2) by (auto simp: less_Suc_eq_le)
  define s1 where "s1 = set_prev (nextf s b) (prevf s b) s"
  have s1: "nextf s1 = nextf s" "prevf s1 = P" "length (bc_buf s1) = Suc NBUF"
    using set_prev_links [of "nextf s b" s] bd len by (simp_all add: s1_def P_def)
  have Pb: "P b = prevf s b" by (simp add: P_def)
  define s2 where "s2 = set_next (prevf s1 b) (nextf s1 b) s1"
  have s2: "nextf s2 = N" "prevf s2 = P" "length (bc_buf s2) = Suc NBUF"
    using set_next_links [of "prevf s1 b" s1] bd s1 Pb by (simp_all add: s2_def N_def)
  have Nb: "N NBUF < Suc NBUF" using bd by (simp add: N_def)
  define s3 where "s3 = set_next b (nextf s2 NBUF) s2"
  have s3: "nextf s3 = N(b := N NBUF)" "prevf s3 = P" "length (bc_buf s3) = Suc NBUF"
    using set_next_links [of b s2] assms(2) s2 by (simp_all add: s3_def)
  define s4 where "s4 = set_prev b NBUF s3"
  have s4: "nextf s4 = N(b := N NBUF)" "prevf s4 = P(b := NBUF)" "length (bc_buf s4) = Suc NBUF"
    using set_prev_links [of b s3] assms(2) s3 by (simp_all add: s4_def)
  define s5 where "s5 = set_prev (nextf s4 NBUF) b s4"
  have s5: "nextf s5 = N(b := N NBUF)" "prevf s5 = P(b := NBUF, N NBUF := b)"
    "length (bc_buf s5) = Suc NBUF"
    using set_prev_links [of "N NBUF" s4] assms(2) s4 Nb by (simp_all add: s5_def)
  have mf: "move_front b s = set_next NBUF b s5"
    by (simp add: move_front_def s5_def s4_def s3_def s2_def s1_def Let_def nextf_def prevf_def)
  show "nextf (move_front b s) = N(b := N NBUF, NBUF := b)"
    and "prevf (move_front b s) = P(b := NBUF, N NBUF := b)"
    using set_next_links [of NBUF s5] s5 by (simp_all add: mf)
qed

lemma move_front_lru:
  assumes "lru s (xs @ b # ys)"
  shows "lru (move_front b s) (b # xs @ ys)"
proof -
  let ?N = "(nextf s)(prevf s b := nextf s b)" and ?P = "(prevf s)(nextf s b := prevf s b)"
  have d: "dl (nextf s) (prevf s) NBUF (xs @ b # ys) NBUF" "distinct (xs @ b # ys)"
    "set (xs @ b # ys) = {..<NBUF}" "length (bc_buf s) = Suc NBUF"
    using assms by (simp_all add: lru_def)
  have b: "b < NBUF" using d(3) by auto
  have head: "NBUF \<notin> set (xs @ b # ys)" using d(3) by auto
  have u: "dl ?N ?P NBUF (xs @ ys) NBUF"
    by (rule dl_unlink [OF d(1)]) (use d(2) head in auto)
  have "dl (?N(b := ?N NBUF, NBUF := b)) (?P(b := NBUF, ?N NBUF := b)) NBUF (b # xs @ ys) NBUF"
    by (rule dl_push [OF u]) (use d(2) head b in auto)
  with move_front_links [OF assms b]
  have "dl (nextf (move_front b s)) (prevf (move_front b s)) NBUF (b # xs @ ys) NBUF"
    by simp
  moreover have "length (bc_buf (move_front b s)) = Suc NBUF"
    using d(4) by (simp add: move_front_def Let_def)
  ultimately show ?thesis using d(2,3) by (auto simp: lru_def)
qed

section \<open>Traversals find the first matching buffer\<close>

lemma scan_next_dl:
  assumes "dl (\<lambda>i. b_next (bs ! i)) P a xs NBUF" and "NBUF \<notin> set xs" and "length xs < k"
  shows "scan_next k Q bs (b_next (bs ! a)) = Some (List.find (\<lambda>i. Q (bs ! i)) xs)"
  using assms
proof (induction xs arbitrary: a k)
  case Nil
  then show ?case by (cases k) auto
next
  case (Cons x xs)
  then obtain k' where k: "k = Suc k'" by (cases k) auto
  have "b_next (bs ! a) = x" "dl (\<lambda>i. b_next (bs ! i)) P x xs NBUF" using Cons.prems(1) by auto
  then show ?case using Cons.IH [of x k'] Cons.prems(2,3) by (auto simp: k)
qed

lemma scan_prev_dl:
  assumes "dl N (\<lambda>i. b_prev (bs ! i)) NBUF xs z" and "NBUF \<notin> set xs" and "length xs < k"
  shows "scan_prev k Q bs (b_prev (bs ! z)) = Some (List.find (\<lambda>i. Q (bs ! i)) (rev xs))"
  using assms
proof (induction xs arbitrary: z k rule: rev_induct)
  case Nil
  then show ?case by (cases k) auto
next
  case (snoc x xs)
  then obtain k' where k: "k = Suc k'" by (cases k) auto
  have "b_prev (bs ! z) = x" "dl N (\<lambda>i. b_prev (bs ! i)) NBUF xs x"
    using snoc.prems(1) by (simp_all add: dl_append)
  then show ?case using snoc.IH [of x k'] snoc.prems(2,3) by (auto simp: k)
qed

lemma lru_scans:
  assumes "lru s xs"
  shows "scan_next (Suc NBUF) Q (bc_buf s) (nextf s NBUF) = Some (List.find (\<lambda>i. Q (get_buf s i)) xs)"
    and "scan_prev (Suc NBUF) Q (bc_buf s) (prevf s NBUF) = Some (List.find (\<lambda>i. Q (get_buf s i)) (rev xs))"
proof -
  have d: "dl (nextf s) (prevf s) NBUF xs NBUF" "distinct xs" "set xs = {..<NBUF}"
    using assms by (simp_all add: lru_def)
  have "length xs = NBUF" using distinct_card [OF d(2)] d(3) by simp
  then have l: "length xs < Suc NBUF" "NBUF \<notin> set xs" using d(3) by auto
  show "scan_next (Suc NBUF) Q (bc_buf s) (nextf s NBUF) = Some (List.find (\<lambda>i. Q (get_buf s i)) xs)"
    using scan_next_dl [of "bc_buf s" "prevf s" NBUF xs "Suc NBUF" Q] d(1) l
    by (simp add: nextf_def [abs_def])
  show "scan_prev (Suc NBUF) Q (bc_buf s) (prevf s NBUF) = Some (List.find (\<lambda>i. Q (get_buf s i)) (rev xs))"
    using scan_prev_dl [of "nextf s" "bc_buf s" xs NBUF "Suc NBUF" Q] d(1) l
    by (simp add: prevf_def [abs_def])
qed

end
