(* ===== verification/Bio_Spec.thy ===== *)
theory Bio_Spec
  imports Bio
begin

text \<open>
  What the buffer cache promises its clients. \<open>bc_wf\<close> is its invariant, \<open>bview\<close> the contents
  of the device as its clients see it (the cached copy of a block, or else the disk).
  The laws of the operations are the locale \<open>buffer_cache\<close>, interpreted on the operations of
  \<^verbatim>\<open>src/bio.c\<close>; the sequences of calls that the log and the file system make are lemmas of the
  locale.
\<close>

section \<open>Buffers without their links\<close>

definition core :: "buf \<Rightarrow> buf" where
  "core b = b\<lparr>b_prev := 0, b_next := 0\<rparr>"

definition cores :: "'z bcache_scheme \<Rightarrow> buf list" where
  "cores s = map core (take NBUF (bc_buf s))"

definition caches :: "buf \<Rightarrow> nat \<Rightarrow> bool" where
  "caches b n \<longleftrightarrow> b_dev b = ROOTDEV \<and> b_blockno b = n"

definition core_ok :: "block list \<Rightarrow> buf \<Rightarrow> bool" where
  "core_ok disk b \<longleftrightarrow> length (b_data b) = BSIZE
     \<and> (b_valid b \<longleftrightarrow> b_dev b = ROOTDEV)
     \<and> (b_valid b \<longrightarrow> b_blockno b < length disk)
     \<and> (b_dirty b \<longrightarrow> b_valid b) \<and> (sl_locked (b_lock b) \<longrightarrow> b_valid b)
     \<and> b_refcnt b = (if sl_locked (b_lock b) then 1 else 0)
     \<and> (b_valid b \<and> \<not> b_dirty b \<and> \<not> sl_locked (b_lock b) \<longrightarrow> b_data b = disk ! b_blockno b)"

definition uniq :: "buf list \<Rightarrow> bool" where
  "uniq cs \<longleftrightarrow> (\<forall>i < length cs. \<forall>j < length cs. \<forall>n. caches (cs ! i) n \<longrightarrow> caches (cs ! j) n \<longrightarrow> i = j)"

definition bc_wf :: "'z bcache_scheme \<Rightarrow> bool" where
  "bc_wf s \<longleftrightarrow> (\<exists>xs. lru s xs) \<and> uniq (cores s) \<and> (\<forall>b \<in> set (cores s). core_ok (bc_disk s) b)
     \<and> (\<forall>d \<in> set (bc_disk s). length d = BSIZE)"

section \<open>The clients' view\<close>

definition viewc :: "buf list \<Rightarrow> block list \<Rightarrow> nat \<Rightarrow> block" where
  "viewc cs disk n = (case List.find (\<lambda>b. caches b n) cs of None \<Rightarrow> disk ! n | Some b \<Rightarrow> b_data b)"

definition bview :: "'z bcache_scheme \<Rightarrow> nat \<Rightarrow> block" where
  "bview s n = viewc (cores s) (bc_disk s) n"

definition dirtyc :: "buf list \<Rightarrow> nat set" where
  "dirtyc cs = {n. \<exists>b \<in> set cs. b_dirty b \<and> caches b n}"

definition bdirty :: "'z bcache_scheme \<Rightarrow> nat set" where
  "bdirty s = dirtyc (cores s)"

definition heldc :: "buf list \<Rightarrow> nat \<Rightarrow> nat option" where
  "heldc cs i = (if i < length cs \<and> sl_locked (b_lock (cs ! i)) then Some (b_blockno (cs ! i)) else None)"

definition bheld :: "'z bcache_scheme \<Rightarrow> nat \<Rightarrow> nat option" where
  "bheld s = heldc (cores s)"

definition availc :: "buf list \<Rightarrow> nat" where
  "availc cs = length (filter (\<lambda>b. b_refcnt b = 0 \<and> \<not> b_dirty b) cs)"

definition bavail :: "'z bcache_scheme \<Rightarrow> nat" where
  "bavail s = availc (cores s)"

definition bdata :: "'z bcache_scheme \<Rightarrow> nat \<Rightarrow> block" where
  "bdata s i = b_data (get_buf s i)"

section \<open>Sequences of block writes\<close>

definition apply_writes :: "(nat \<times> block) list \<Rightarrow> block list \<Rightarrow> block list" where
  "apply_writes ws d = fold (\<lambda>(n, b) d. d[n := b]) ws d"

lemma apply_writes_simps [simp]:
  "apply_writes [] d = d" "apply_writes ((n, b) # ws) d = apply_writes ws (d[n := b])"
  "apply_writes (us @ vs) d = apply_writes vs (apply_writes us d)"
  by (simp_all add: apply_writes_def)

lemma length_apply_writes [simp]: "length (apply_writes ws d) = length d"
  by (induction ws arbitrary: d) auto

lemma apply_writes_other: "n \<notin> fst ` set ws \<Longrightarrow> apply_writes ws d ! n = d ! n"
  by (induction ws arbitrary: d) auto

lemma apply_writes_hit:
  assumes "distinct (map fst ws)" and "(n, b) \<in> set ws" and "n < length d"
  shows "apply_writes ws d ! n = b"
  using assms
proof (induction ws arbitrary: d)
  case (Cons w ws)
  then show ?case by (cases w) (force simp: apply_writes_other)
qed simp

text \<open>The same writes, as updates of a function from block numbers to contents.\<close>

definition upd_all :: "(nat \<times> block) list \<Rightarrow> (nat \<Rightarrow> block) \<Rightarrow> nat \<Rightarrow> block" where
  "upd_all ws v = fold (\<lambda>(n, b) v. v(n := b)) ws v"

lemma upd_all_simps [simp]:
  "upd_all [] v = v" "upd_all ((n, b) # ws) v = upd_all ws (v(n := b))"
  "upd_all (us @ vs) v = upd_all vs (upd_all us v)"
  by (simp_all add: upd_all_def)

lemma upd_all_other: "n \<notin> fst ` set ws \<Longrightarrow> upd_all ws v n = v n"
  by (induction ws arbitrary: v) auto

lemma upd_all_hit:
  assumes "distinct (map fst ws)" and "(n, b) \<in> set ws"
  shows "upd_all ws v n = b"
  using assms
proof (induction ws arbitrary: v)
  case (Cons w ws)
  then show ?case by (cases w) (force simp: upd_all_other)
qed simp

section \<open>The contract\<close>

locale buffer_cache =
  fixes rd :: "nat \<Rightarrow> 's \<Rightarrow> (nat \<times> 's) res"
    and wr :: "nat \<Rightarrow> 's \<Rightarrow> 's res"
    and rel :: "nat \<Rightarrow> 's \<Rightarrow> 's res"
    and put :: "nat \<Rightarrow> block \<Rightarrow> 's \<Rightarrow> 's"
    and pin :: "nat \<Rightarrow> 's \<Rightarrow> 's"
    and wf :: "'s \<Rightarrow> bool"
    and view :: "'s \<Rightarrow> nat \<Rightarrow> block"
    and disk :: "'s \<Rightarrow> block list"
    and trace :: "'s \<Rightarrow> (nat \<times> block) list"
    and dirty :: "'s \<Rightarrow> nat set"
    and held :: "'s \<Rightarrow> nat \<Rightarrow> nat option"
    and avail :: "'s \<Rightarrow> nat"
    and data :: "'s \<Rightarrow> nat \<Rightarrow> block"
    and rest :: "'s \<Rightarrow> 'r"
  assumes rd_ok: "wf s \<Longrightarrow> n < length (disk s) \<Longrightarrow> n \<notin> ran (held s) \<Longrightarrow> n \<in> dirty s \<or> 0 < avail s \<Longrightarrow>
      \<exists>i s'. rd n s = Ok (i, s') \<and> wf s' \<and> held s i = None \<and> held s' = (held s)(i \<mapsto> n)
        \<and> view s' = view s \<and> disk s' = disk s \<and> trace s' = trace s \<and> dirty s' = dirty s
        \<and> avail s = avail s' + (if n \<in> dirty s then 0 else 1) \<and> rest s' = rest s"
    and data_held: "wf s \<Longrightarrow> held s i = Some n \<Longrightarrow> data s i = view s n"
    and put_ok: "wf s \<Longrightarrow> held s i = Some n \<Longrightarrow> length d = BSIZE \<Longrightarrow>
      wf (put i d s) \<and> held (put i d s) = held s \<and> view (put i d s) = (view s)(n := d)
        \<and> disk (put i d s) = disk s \<and> trace (put i d s) = trace s \<and> dirty (put i d s) = dirty s
        \<and> avail (put i d s) = avail s \<and> rest (put i d s) = rest s"
    and pin_ok: "wf s \<Longrightarrow> held s i = Some n \<Longrightarrow>
      wf (pin i s) \<and> held (pin i s) = held s \<and> view (pin i s) = view s
        \<and> disk (pin i s) = disk s \<and> trace (pin i s) = trace s \<and> dirty (pin i s) = insert n (dirty s)
        \<and> avail (pin i s) = avail s \<and> rest (pin i s) = rest s"
    and wr_ok: "wf s \<Longrightarrow> held s i = Some n \<Longrightarrow>
      \<exists>s'. wr i s = Ok s' \<and> wf s' \<and> held s' = held s \<and> view s' = view s
        \<and> disk s' = (disk s)[n := view s n] \<and> trace s' = trace s @ [(n, view s n)]
        \<and> dirty s' = dirty s - {n} \<and> avail s' = avail s \<and> rest s' = rest s"
    and rel_ok: "wf s \<Longrightarrow> held s i = Some n \<Longrightarrow> n \<in> dirty s \<or> view s n = disk s ! n \<Longrightarrow>
      \<exists>s'. rel i s = Ok s' \<and> wf s' \<and> held s' = (held s)(i := None) \<and> view s' = view s
        \<and> disk s' = disk s \<and> trace s' = trace s \<and> dirty s' = dirty s
        \<and> avail s' = avail s + (if n \<in> dirty s then 0 else 1) \<and> rest s' = rest s"
    and clean_view: "wf s \<Longrightarrow> n \<notin> ran (held s) \<Longrightarrow> n \<notin> dirty s \<Longrightarrow> view s n = disk s ! n"
    and view_length: "wf s \<Longrightarrow> n < length (disk s) \<Longrightarrow> length (view s n) = BSIZE"
    and held_inj: "wf s \<Longrightarrow> held s i = Some n \<Longrightarrow> held s j = Some n \<Longrightarrow> i = j"
    and held_range: "wf s \<Longrightarrow> held s i = Some n \<Longrightarrow> n < length (disk s)"
    and avail_card: "wf s \<Longrightarrow> held s = Map.empty \<Longrightarrow> avail s + card (dirty s) = NBUF"
begin

text \<open>Reading one block: \<^verbatim>\<open>bread\<close>, a look at the data, \<^verbatim>\<open>brelse\<close>.\<close>

lemma read_block:
  assumes "wf s" and "n < length (disk s)" and "n \<notin> ran (held s)" and "n \<in> dirty s \<or> 0 < avail s"
  shows "\<exists>i s1 s2. rd n s = Ok (i, s1) \<and> data s1 i = view s n \<and> rel i s1 = Ok s2
     \<and> wf s2 \<and> held s2 = held s \<and> view s2 = view s \<and> disk s2 = disk s \<and> trace s2 = trace s
     \<and> dirty s2 = dirty s \<and> avail s2 = avail s \<and> rest s1 = rest s \<and> rest s2 = rest s"
proof -
  obtain i s1 where r: "rd n s = Ok (i, s1)" "wf s1" "held s i = None" "held s1 = (held s)(i \<mapsto> n)"
    "view s1 = view s" "disk s1 = disk s" "trace s1 = trace s" "dirty s1 = dirty s" "rest s1 = rest s"
    "avail s = avail s1 + (if n \<in> dirty s then 0 else 1)"
    using rd_ok [OF assms] by blast
  have h: "held s1 i = Some n" using r(4) by simp
  have "n \<in> dirty s1 \<or> view s1 n = disk s1 ! n" using clean_view [OF assms(1,3)] r by auto
  from rel_ok [OF r(2) h this] obtain s2 where t: "rel i s1 = Ok s2" "wf s2"
    "held s2 = (held s1)(i := None)" "view s2 = view s1" "disk s2 = disk s1" "trace s2 = trace s1"
    "dirty s2 = dirty s1" "avail s2 = avail s1 + (if n \<in> dirty s1 then 0 else 1)" "rest s2 = rest s1"
    by blast
  have "held s2 = held s" using t(3) r(3,4) by (simp add: fun_upd_idem)
  then show ?thesis using r t data_held [OF r(2) h] by auto
qed

text \<open>Reading one block, modifying it in memory and writing it to the disk.\<close>

lemma write_block:
  assumes wf: "wf s" and n: "n < length (disk s)" and nh: "n \<notin> ran (held s)" and room: "n \<in> dirty s \<or> 0 < avail s"
  shows "\<exists>i s1. rd n s = Ok (i, s1) \<and> data s1 i = view s n \<and> rest s1 = rest s
     \<and> (\<forall>d. length d = BSIZE \<longrightarrow> (\<exists>s2 s3. wr i (put i d s1) = Ok s2 \<and> rel i s2 = Ok s3
       \<and> wf s3 \<and> held s3 = held s \<and> view s3 = (view s)(n := d) \<and> disk s3 = (disk s)[n := d]
       \<and> trace s3 = trace s @ [(n, d)] \<and> dirty s3 = dirty s - {n} \<and> avail s \<le> avail s3 \<and> rest s3 = rest s))"
proof -
  obtain i s1 where r: "rd n s = Ok (i, s1)" "wf s1" "held s i = None" "held s1 = (held s)(i \<mapsto> n)"
    "view s1 = view s" "disk s1 = disk s" "trace s1 = trace s" "dirty s1 = dirty s" "rest s1 = rest s"
    "avail s = avail s1 + (if n \<in> dirty s then 0 else 1)"
    using rd_ok [OF assms] by blast
  have h: "held s1 i = Some n" using r(4) by simp
  have "\<exists>s2 s3. wr i (put i d s1) = Ok s2 \<and> rel i s2 = Ok s3
       \<and> wf s3 \<and> held s3 = held s \<and> view s3 = (view s)(n := d) \<and> disk s3 = (disk s)[n := d]
       \<and> trace s3 = trace s @ [(n, d)] \<and> dirty s3 = dirty s - {n} \<and> avail s \<le> avail s3 \<and> rest s3 = rest s"
    if len: "length d = BSIZE" for d
  proof -
    define p where "p = put i d s1"
    have p: "wf p" "held p i = Some n" "held p = held s1" "view p = (view s)(n := d)" "disk p = disk s"
      "trace p = trace s" "dirty p = dirty s" "avail p = avail s1" "rest p = rest s"
      using put_ok [OF r(2) h len] r h by (auto simp: p_def)
    from wr_ok [OF p(1,2)] obtain s2 where w: "wr i p = Ok s2" "wf s2" "held s2 = held s1"
      "view s2 = (view s)(n := d)" "disk s2 = (disk s)[n := d]" "trace s2 = trace s @ [(n, d)]"
      "dirty s2 = dirty s - {n}" "avail s2 = avail s1" "rest s2 = rest s"
      using p by auto
    have h2: "held s2 i = Some n" "view s2 n = disk s2 ! n" "n \<notin> dirty s2" using w h n by simp_all
    from rel_ok [OF w(2) h2(1)] h2(2,3) obtain s3 where t: "rel i s2 = Ok s3" "wf s3" "held s3 = (held s2)(i := None)"
      "view s3 = view s2" "disk s3 = disk s2" "trace s3 = trace s2" "dirty s3 = dirty s2"
      "avail s3 = avail s2 + 1" "rest s3 = rest s2"
      by auto
    have "held s3 = held s" using t(3) w(3) r(3,4) by (simp add: fun_upd_idem)
    then show ?thesis using w t r(10) by (auto simp: p_def)
  qed
  then show ?thesis using r(1,9) r(5) data_held [OF r(2) h] by auto
qed

text \<open>
  Copying one block to another through the cache and to the disk: the body of the loops of
  \<^verbatim>\<open>write_log\<close> (destination read first) and \<^verbatim>\<open>install_trans\<close> (source read first).
\<close>

definition copied :: "nat \<Rightarrow> nat \<Rightarrow> 's \<Rightarrow> 's \<Rightarrow> bool" where
  "copied src dst s t \<longleftrightarrow> wf t \<and> held t = held s \<and> view t = (view s)(dst := view s src)
     \<and> disk t = (disk s)[dst := view s src] \<and> trace t = trace s @ [(dst, view s src)]
     \<and> dirty t = dirty s - {dst} \<and> avail t = avail s + (if dst \<in> dirty s then 1 else 0) \<and> rest t = rest s"

lemma copy_held:
  assumes wf: "wf s" and hi: "held s i = Some src" and hj: "held s j = Some dst" and ne: "src \<noteq> dst"
    and clean: "src \<in> dirty s \<or> view s src = disk s ! src"
  shows "\<exists>t1 t2 t3. wr j (put j (data s i) s) = Ok t1 \<and> rel i t1 = Ok t2 \<and> rel j t2 = Ok t3
     \<and> wf t3 \<and> held t3 = (held s)(i := None, j := None) \<and> view t3 = (view s)(dst := view s src)
     \<and> disk t3 = (disk s)[dst := view s src] \<and> trace t3 = trace s @ [(dst, view s src)]
     \<and> dirty t3 = dirty s - {dst} \<and> avail t3 = avail s + (if src \<in> dirty s then 0 else 1) + 1
     \<and> rest t3 = rest s"
proof -
  have ij: "i \<noteq> j" using hi hj ne by auto
  have di: "data s i = view s src" by (rule data_held [OF wf hi])
  have len: "length (view s src) = BSIZE" by (rule view_length [OF wf held_range [OF wf hi]])
  define p where "p = put j (view s src) s"
  have p: "wf p" "held p = held s" "view p = (view s)(dst := view s src)" "disk p = disk s"
    "trace p = trace s" "dirty p = dirty s" "avail p = avail s" "rest p = rest s"
    using put_ok [OF wf hj len] by (auto simp: p_def)
  have "held p j = Some dst" using p(2) hj by simp
  from wr_ok [OF p(1) this] obtain t1 where t1: "wr j p = Ok t1" "wf t1" "held t1 = held s"
    "view t1 = view p" "disk t1 = (disk s)[dst := view s src]" "trace t1 = trace s @ [(dst, view s src)]"
    "dirty t1 = dirty s - {dst}" "avail t1 = avail s" "rest t1 = rest s"
    using p by auto
  have "held t1 i = Some src" using t1(3) hi by simp
  moreover have "src \<in> dirty t1 \<or> view t1 src = disk t1 ! src" using clean ne t1 p(3) by auto
  ultimately obtain t2 where t2: "rel i t1 = Ok t2" "wf t2" "held t2 = (held s)(i := None)"
    "view t2 = view t1" "disk t2 = disk t1" "trace t2 = trace t1" "dirty t2 = dirty t1"
    "avail t2 = avail s + (if src \<in> dirty s then 0 else 1)" "rest t2 = rest s"
    using rel_ok [OF t1(2), of i src] t1 ne by auto
  have h2: "held t2 j = Some dst" using t2(3) hj ij by simp
  have "view t2 dst = disk t2 ! dst" using t2 t1 p(3) held_range [OF wf hj] by simp
  then obtain t3 where t3: "rel j t2 = Ok t3" "wf t3" "held t3 = (held t2)(j := None)"
    "view t3 = view t2" "disk t3 = disk t2" "trace t3 = trace t2" "dirty t3 = dirty t2"
    "avail t3 = avail t2 + 1" "rest t3 = rest t2"
    using rel_ok [OF t2(2) h2] t2(7) t1(7) by auto
  show ?thesis using t1 t2 t3 p(3) by (auto simp: di p_def [symmetric])
qed

lemma copy_block:
  assumes wf: "wf s" and r: "a < length (disk s)" "b < length (disk s)" and ne: "a \<noteq> b"
    and free: "held s = Map.empty" and ra: "a \<in> dirty s \<or> 0 < avail s"
    and rb: "b \<in> dirty s \<or> (if a \<in> dirty s then 0 else 1) < avail s"
  shows "\<exists>i j s1 s2. rd a s = Ok (i, s1) \<and> rd b s1 = Ok (j, s2)
     \<and> (\<exists>t1 t2 t3. wr j (put j (data s2 i) s2) = Ok t1 \<and> rel i t1 = Ok t2 \<and> rel j t2 = Ok t3 \<and> copied a b s t3)
     \<and> (\<exists>t1 t2 t3. wr i (put i (data s2 j) s2) = Ok t1 \<and> rel j t1 = Ok t2 \<and> rel i t2 = Ok t3 \<and> copied b a s t3)"
proof -
  have na: "a \<notin> ran (held s)" "b \<notin> ran (held s)" using free by auto
  from rd_ok [OF wf r(1) na(1) ra] obtain i s1 where s1: "rd a s = Ok (i, s1)" "wf s1"
    "held s1 = [i \<mapsto> a]" "view s1 = view s" "disk s1 = disk s" "trace s1 = trace s" "dirty s1 = dirty s"
    "avail s = avail s1 + (if a \<in> dirty s then 0 else 1)" "rest s1 = rest s"
    using free by auto
  have "b \<notin> ran (held s1)" using s1(3) ne by auto
  moreover have "b \<in> dirty s1 \<or> 0 < avail s1" using rb s1(7,8) by (auto split: if_splits)
  ultimately obtain j s2 where s2: "rd b s1 = Ok (j, s2)" "wf s2" "held s1 j = None"
    "held s2 = (held s1)(j \<mapsto> b)" "view s2 = view s" "disk s2 = disk s" "trace s2 = trace s"
    "dirty s2 = dirty s" "avail s1 = avail s2 + (if b \<in> dirty s then 0 else 1)" "rest s2 = rest s"
    using rd_ok [OF s1(2), of b] r(2) s1 by auto
  have ij: "i \<noteq> j" using s1(3) s2(3) by auto
  have h: "held s2 i = Some a" "held s2 j = Some b" using s1(3) s2(4) ij by simp_all
  have bk: "(held s2)(i := None, j := None) = held s" "(held s2)(j := None, i := None) = held s"
    using s1(3) s2(4) free by (auto simp: fun_eq_iff)
  have c: "n \<in> dirty s2 \<or> view s2 n = disk s2 ! n" if "n = a \<or> n = b" for n
    using clean_view [OF wf, of n] na that s2(5,6,8) by auto
  have "\<exists>t1 t2 t3. wr j (put j (data s2 i) s2) = Ok t1 \<and> rel i t1 = Ok t2 \<and> rel j t2 = Ok t3 \<and> copied a b s t3"
    using copy_held [OF s2(2) h ne] c bk(1) s1(8) s2 by (auto simp: copied_def split: if_splits)
  moreover have "\<exists>t1 t2 t3. wr i (put i (data s2 j) s2) = Ok t1 \<and> rel j t1 = Ok t2 \<and> rel i t2 = Ok t3 \<and> copied b a s t3"
    using copy_held [OF s2(2) h(2,1)] ne c bk(2) s1(8) s2 by (auto simp: copied_def split: if_splits)
  ultimately show ?thesis using s1(1) s2(1) by blast
qed

text \<open>
  A loop of such copies, from blocks \<open>src x\<close> to pairwise different blocks \<open>dst x\<close>, none of
  which is also a source.
\<close>

definition copies :: "('x \<Rightarrow> nat) \<Rightarrow> ('x \<Rightarrow> nat) \<Rightarrow> 'x list \<Rightarrow> 's \<Rightarrow> 's \<Rightarrow> bool" where
  "copies src dst xs s t \<longleftrightarrow>
     (let ws = map (\<lambda>x. (dst x, view s (src x))) xs
      in wf t \<and> held t = held s \<and> view t = upd_all ws (view s) \<and> disk t = apply_writes ws (disk s)
        \<and> trace t = trace s @ ws \<and> dirty t = dirty s - dst ` set xs \<and> avail s \<le> avail t \<and> rest t = rest s)"

definition can_copy :: "nat \<Rightarrow> nat \<Rightarrow> 's \<Rightarrow> bool" where
  "can_copy a b s \<longleftrightarrow> a < length (disk s) \<and> b < length (disk s)
     \<and> (1 < avail s \<or> 0 < avail s \<and> (a \<in> dirty s \<or> b \<in> dirty s))"

lemma copy_loop:
  assumes body: "\<And>x u. x \<in> set xs \<Longrightarrow> wf u \<Longrightarrow> held u = Map.empty \<Longrightarrow> rest u = rest s \<Longrightarrow> can_copy (src x) (dst x) u \<Longrightarrow>
      \<exists>t. f x u = Ok t \<and> copied (src x) (dst x) u t"
    and wf: "wf s" and free: "held s = Map.empty"
    and d: "distinct (map dst xs)" and disj: "dst ` set xs \<inter> src ` set xs = {}"
    and room: "\<And>x. x \<in> set xs \<Longrightarrow> can_copy (src x) (dst x) s"
  shows "\<exists>t. fold_res f xs s = Ok t \<and> copies src dst xs s t"
  using assms
proof (induction xs arbitrary: s)
  case Nil
  then show ?case by (simp add: copies_def)
next
  case (Cons x xs)
  have xm: "x \<in> set (x # xs)" by simp
  from Cons.prems(1) [OF xm Cons.prems(2,3) refl Cons.prems(6) [OF xm]]
  obtain u where u: "f x s = Ok u" "copied (src x) (dst x) s u" by blast
  then have c: "wf u" "held u = Map.empty" "view u = (view s)(dst x := view s (src x))"
    "disk u = (disk s)[dst x := view s (src x)]" "trace u = trace s @ [(dst x, view s (src x))]"
    "dirty u = dirty s - {dst x}" "avail s \<le> avail u" "rest u = rest s"
    using Cons.prems(3) by (auto simp: copied_def)
  have "can_copy (src y) (dst y) u" if y: "y \<in> set xs" for y
  proof -
    have "dst x \<notin> dst ` set xs" using Cons.prems(4) by simp
    then have ne: "dst x \<noteq> dst y" using y by (metis imageI)
    have "dst x \<notin> src ` set xs" using Cons.prems(5) by auto
    then have "dst x \<noteq> src y" using y by (metis imageI)
    with ne have m: "src y \<in> dirty u \<longleftrightarrow> src y \<in> dirty s" "dst y \<in> dirty u \<longleftrightarrow> dst y \<in> dirty s"
      "length (disk u) = length (disk s)"
      by (simp_all add: c(4,6))
    have "can_copy (src y) (dst y) s" by (rule Cons.prems(6)) (simp add: y)
    then show ?thesis unfolding can_copy_def m using c(7) by linarith
  qed
  moreover have "\<exists>t. f y v = Ok t \<and> copied (src y) (dst y) v t"
    if "y \<in> set xs" "wf v" "held v = Map.empty" "rest v = rest u" "can_copy (src y) (dst y) v" for y v
    using Cons.prems(1) [of y v] that c(8) by simp
  ultimately obtain t where t: "fold_res f xs u = Ok t" "copies src dst xs u t"
    using Cons.IH [of u] c(1,2) Cons.prems(4,5) by auto
  have same: "map (\<lambda>y. (dst y, view u (src y))) xs = map (\<lambda>y. (dst y, view s (src y))) xs"
  proof (rule map_cong [OF refl])
    fix y assume "y \<in> set xs"
    moreover have "dst x \<notin> src ` set xs" using Cons.prems(5) by auto
    ultimately have "src y \<noteq> dst x" by (metis imageI)
    then show "(dst y, view u (src y)) = (dst y, view s (src y))" by (simp add: c(3))
  qed
  have "copies src dst (x # xs) s t"
    using t(2) c Cons.prems(3) unfolding copies_def Let_def same by auto
  then show ?case using t(1) u(1) by auto
qed

end

section \<open>The view after an update of one buffer\<close>

lemma viewc_cached:
  assumes "uniq cs" and "i < length cs" and "caches (cs ! i) n"
  shows "viewc cs disk n = b_data (cs ! i)"
proof -
  have "List.find (\<lambda>b. caches b n) cs = Some (cs ! i)"
    unfolding find_Some_iff using assms unfolding uniq_def by (metis less_trans nat_neq_iff)
  then show ?thesis by (simp add: viewc_def)
qed

lemma viewc_uncached: "(\<And>b. b \<in> set cs \<Longrightarrow> \<not> caches b n) \<Longrightarrow> viewc cs disk n = disk ! n"
  by (auto simp: viewc_def find_None_iff split: option.splits) (metis find_Some_iff nth_mem)

lemma viewc_update:
  assumes "uniq cs" and "uniq (cs[i := c])" and "i < length cs"
  shows "viewc (cs[i := c]) disk m =
     (if caches c m then b_data c else if caches (cs ! i) m then disk ! m else viewc cs disk m)"
proof (cases "caches c m")
  case True
  then show ?thesis using viewc_cached [OF assms(2), of i m] assms(3) by simp
next
  case nc: False
  show ?thesis
  proof (cases "\<exists>j < length cs. j \<noteq> i \<and> caches (cs ! j) m")
    case True
    then obtain j where j: "j < length cs" "j \<noteq> i" "caches (cs ! j) m" by blast
    then have "\<not> caches (cs ! i) m" using assms(1,3) unfolding uniq_def by blast
    then show ?thesis
      using viewc_cached [OF assms(2), of j m] viewc_cached [OF assms(1) j(1,3)] j nc by simp
  next
    case False
    then have "viewc (cs[i := c]) disk m = disk ! m"
      by (intro viewc_uncached)
        (metis assms(3) in_set_conv_nth length_list_update nc nth_list_update_eq nth_list_update_neq)
    moreover have "viewc cs disk m = disk ! m" if "\<not> caches (cs ! i) m"
      by (intro viewc_uncached) (use False that in \<open>auto simp: in_set_conv_nth\<close>)
    ultimately show ?thesis using nc by auto
  qed
qed

lemma viewc_disk:
  assumes "\<And>b. b \<in> set cs \<Longrightarrow> caches b n \<Longrightarrow> False" "m \<noteq> n"
  shows "viewc cs (disk[n := d]) m = viewc cs disk m"
  using assms by (simp add: viewc_def split: option.splits)

section \<open>Cores of a state\<close>

lemma cores_length: "lru s xs \<Longrightarrow> length (cores s) = NBUF"
  by (simp add: cores_def lru_def)

lemma cores_nth: "lru s xs \<Longrightarrow> i < NBUF \<Longrightarrow> cores s ! i = core (get_buf s i)"
  by (simp add: cores_def lru_def)

lemma core_sel [simp]:
  "b_valid (core b) = b_valid b" "b_dirty (core b) = b_dirty b" "b_dev (core b) = b_dev b"
  "b_blockno (core b) = b_blockno b" "b_lock (core b) = b_lock b" "b_refcnt (core b) = b_refcnt b"
  "b_data (core b) = b_data b" "caches (core b) n = caches b n"
  by (simp_all add: core_def caches_def)

lemma cores_upd_buf:
  assumes "lru s xs" and "i < NBUF"
  shows "cores (upd_buf i f s) = (cores s)[i := core (f (get_buf s i))]"
  using assms by (simp add: cores_def upd_buf_def lru_def take_update_swap map_update)

lemma cores_set_link:
  assumes "i < length (bc_buf s)"
  shows "cores (set_next i j s) = cores s" and "cores (set_prev i j s) = cores s"
proof -
  have "map core ((bc_buf s)[i := (get_buf s i)\<lparr>b_next := j\<rparr>]) = map core (bc_buf s)"
    using assms by (simp add: map_update core_def list_update_same_conv)
  then show "cores (set_next i j s) = cores s"
    by (simp add: cores_def set_next_def upd_buf_def take_map [symmetric])
  have "map core ((bc_buf s)[i := (get_buf s i)\<lparr>b_prev := j\<rparr>]) = map core (bc_buf s)"
    using assms by (simp add: map_update core_def list_update_same_conv)
  then show "cores (set_prev i j s) = cores s"
    by (simp add: cores_def set_prev_def upd_buf_def take_map [symmetric])
qed

lemma cores_move_front:
  assumes "lru s xs" and "b < NBUF"
  shows "cores (move_front b s) = cores s"
proof -
  have len: "length (bc_buf s) = Suc NBUF" using assms(1) by (simp add: lru_def)
  have bd: "b_next (get_buf s b) < Suc NBUF" "b_prev (get_buf s b) < Suc NBUF"
    "b_next (get_buf s NBUF) < Suc NBUF"
    using lru_bounds [OF assms(1)] assms(2) by (auto simp: less_Suc_eq_le nextf_def prevf_def)
  define s1 where "s1 = set_prev (b_next (get_buf s b)) (b_prev (get_buf s b)) s"
  have g1: "b_next (get_buf s1 j) = b_next (get_buf s j)" for j
    using set_prev_links(2) [of "b_next (get_buf s b)" s] bd len by (simp add: s1_def nextf_def fun_eq_iff)
  have p1: "b_prev (get_buf s1 b) < Suc NBUF"
    using set_prev_links(1) [of "b_next (get_buf s b)" s "b_prev (get_buf s b)"] bd len
    by (simp add: s1_def prevf_def fun_eq_iff)
  define s2 where "s2 = set_next (b_prev (get_buf s1 b)) (b_next (get_buf s1 b)) s1"
  have n2: "b_next (get_buf s2 NBUF) < Suc NBUF"
    using set_next_links(1) [of "b_prev (get_buf s1 b)" s1 "b_next (get_buf s1 b)"] bd len p1 g1
    by (simp add: s2_def s1_def nextf_def fun_eq_iff)
  define s3 where "s3 = set_prev b NBUF (set_next b (b_next (get_buf s2 NBUF)) s2)"
  have l3: "length (bc_buf s3) = Suc NBUF" by (simp add: s3_def s2_def s1_def len)
  have n3: "b_next (get_buf s3 NBUF) < Suc NBUF"
    using n2 assms(2) l3
    by (simp add: s3_def set_prev_def set_next_def upd_buf_get)
  have "move_front b s = set_next NBUF b (set_prev (b_next (get_buf s3 NBUF)) b s3)"
    by (simp add: move_front_def s3_def s2_def s1_def Let_def)
  then show ?thesis
    using l3 n3 bd p1 assms(2) len
    by (simp add: cores_set_link s3_def s2_def s1_def)
qed

section \<open>Updating one core\<close>

lemma uniqD:
  "uniq cs \<Longrightarrow> i < length cs \<Longrightarrow> j < length cs \<Longrightarrow> caches (cs ! i) n \<Longrightarrow> caches (cs ! j) n \<Longrightarrow> i = j"
  by (auto simp: uniq_def)

lemma dirtyc_iff:
  assumes "uniq cs" and "i < length cs" and "caches (cs ! i) n"
  shows "n \<in> dirtyc cs \<longleftrightarrow> b_dirty (cs ! i)"
proof
  assume "n \<in> dirtyc cs"
  then obtain j where "j < length cs" "b_dirty (cs ! j)" "caches (cs ! j) n"
    by (auto simp: dirtyc_def in_set_conv_nth)
  moreover then have "j = i" using assms uniqD by blast
  ultimately show "b_dirty (cs ! i)" by simp
qed (use assms nth_mem in \<open>auto simp: dirtyc_def\<close>)

lemma uniq_update_same:
  assumes "uniq cs" and "\<And>n. caches c n = caches (cs ! i) n"
  shows "uniq (cs[i := c])"
  using assms unfolding uniq_def by (metis length_list_update nth_list_update_eq nth_list_update_neq)

lemma uniq_update_new:
  assumes "uniq cs" and "\<And>b n. b \<in> set cs \<Longrightarrow> caches c n \<Longrightarrow> \<not> caches b n"
  shows "uniq (cs[i := c])"
  using assms unfolding uniq_def
  by (metis length_list_update nth_list_update_eq nth_list_update_neq nth_mem)

lemma set_update_ok:
  assumes "\<forall>b \<in> set cs. core_ok disk b" and "core_ok disk c"
  shows "\<forall>b \<in> set (cs[i := c]). core_ok disk b"
  using assms set_update_subset_insert [of cs i c] by blast

lemma dirtyc_update_same:
  assumes "i < length cs" and "\<And>n. caches c n = caches (cs ! i) n" and "b_dirty c = b_dirty (cs ! i)"
  shows "dirtyc (cs[i := c]) = dirtyc cs"
  using assms unfolding dirtyc_def
  by (auto simp: set_conv_nth) (metis (no_types, lifting) nth_list_update_eq nth_list_update_neq)+

lemma dirtyc_update_clean:
  assumes "i < length cs" and "\<not> b_dirty c" and "\<not> b_dirty (cs ! i)"
  shows "dirtyc (cs[i := c]) = dirtyc cs"
  using assms unfolding dirtyc_def
  by (auto simp: set_conv_nth) (metis (no_types, lifting) nth_list_update_eq nth_list_update_neq)+

lemma heldc_update:
  assumes "i < length cs"
  shows "heldc (cs[i := c]) = (heldc cs)(i := if sl_locked (b_lock c) then Some (b_blockno c) else None)"
  using assms by (auto simp: heldc_def fun_eq_iff)

lemma availc_update:
  assumes "i < length cs"
  shows "availc (cs[i := c]) + (if b_refcnt (cs ! i) = 0 \<and> \<not> b_dirty (cs ! i) then 1 else 0)
       = availc cs + (if b_refcnt c = 0 \<and> \<not> b_dirty c then 1 else 0)"
proof -
  have "cs = take i cs @ cs ! i # drop (Suc i) cs" using assms by (rule id_take_nth_drop)
  then have "availc cs = availc (take i cs) + availc (cs ! i # drop (Suc i) cs)"
    by (metis availc_def filter_append length_append)
  moreover have "availc (cs[i := c]) = availc (take i cs) + availc (c # drop (Suc i) cs)"
    using assms by (simp add: availc_def upd_conv_take_nth_drop)
  ultimately show ?thesis by (simp add: availc_def)
qed

lemma availc_pos: "0 < availc cs \<longleftrightarrow> (\<exists>b \<in> set cs. b_refcnt b = 0 \<and> \<not> b_dirty b)"
  by (auto simp: availc_def filter_empty_conv)

lemma heldc_ran: "n \<in> ran (heldc cs) \<longleftrightarrow> (\<exists>b \<in> set cs. sl_locked (b_lock b) \<and> b_blockno b = n)"
  unfolding ran_def heldc_def in_set_conv_nth Bex_def by (auto split: if_splits)

section \<open>The operations meet the contract\<close>

lemma bc_wfD:
  assumes "bc_wf s"
  obtains xs where "lru s xs" "length (cores s) = NBUF" "uniq (cores s)"
    "\<And>i. i < NBUF \<Longrightarrow> core_ok (bc_disk s) (cores s ! i)" "\<And>i. i < NBUF \<Longrightarrow> cores s ! i = core (get_buf s i)"
proof -
  from assms obtain xs where x: "lru s xs" and u: "uniq (cores s)"
    and ok: "\<forall>b \<in> set (cores s). core_ok (bc_disk s) b" by (auto simp: bc_wf_def)
  have "core_ok (bc_disk s) (cores s ! i)" if "i < NBUF" for i
    using ok nth_mem [of i "cores s"] cores_length [OF x] that by simp
  then show thesis using that [OF x cores_length [OF x] u] cores_nth [OF x] by blast
qed

lemma bheldD:
  assumes "bc_wf s" and "bheld s i = Some n"
  shows "i < NBUF" "sl_locked (b_lock (get_buf s i))" "b_valid (get_buf s i)" "b_dev (get_buf s i) = ROOTDEV"
    "b_blockno (get_buf s i) = n" "b_refcnt (get_buf s i) = 1" "n < length (bc_disk s)"
    "length (b_data (get_buf s i)) = BSIZE" "caches (cores s ! i) n"
proof -
  obtain xs where w: "lru s xs" "length (cores s) = NBUF"
    "\<And>i. i < NBUF \<Longrightarrow> core_ok (bc_disk s) (cores s ! i)" "\<And>i. i < NBUF \<Longrightarrow> cores s ! i = core (get_buf s i)"
    using assms(1) by (rule bc_wfD) blast
  from assms(2) have h: "i < NBUF" "sl_locked (b_lock (get_buf s i))" "b_blockno (get_buf s i) = n"
    using w(2,4) by (auto simp: bheld_def heldc_def split: if_splits)
  moreover have "core_ok (bc_disk s) (core (get_buf s i))" using w(3,4) h(1) by metis
  ultimately show "i < NBUF" "sl_locked (b_lock (get_buf s i))" "b_valid (get_buf s i)"
    "b_dev (get_buf s i) = ROOTDEV" "b_blockno (get_buf s i) = n" "b_refcnt (get_buf s i) = 1"
    "n < length (bc_disk s)" "length (b_data (get_buf s i)) = BSIZE" "caches (cores s ! i) n"
    using w(4) by (auto simp: core_ok_def caches_def)
qed

lemma bview_held:
  assumes "bc_wf s" and "bheld s i = Some n"
  shows "bview s n = bdata s i"
proof -
  note h = bheldD [OF assms]
  obtain xs where "length (cores s) = NBUF" "uniq (cores s)" "cores s ! i = core (get_buf s i)"
    using assms(1) h(1) by (metis bc_wfD)
  then show ?thesis using viewc_cached [of "cores s" i n] h(1,9) by (simp add: bview_def bdata_def)
qed

text \<open>An update of buffer \<open>i\<close> that keeps its links.\<close>

lemma upd_buf_wf:
  assumes "bc_wf s" and "i < NBUF" and "b_next (f (get_buf s i)) = b_next (get_buf s i)"
    and "b_prev (f (get_buf s i)) = b_prev (get_buf s i)"
    and "uniq ((cores s)[i := core (f (get_buf s i))])" and "core_ok (bc_disk s) (core (f (get_buf s i)))"
  shows "bc_wf (upd_buf i f s)"
proof -
  from assms(1) obtain xs where x: "lru s xs" by (auto simp: bc_wf_def)
  have "lru (upd_buf i f s) xs"
    by (rule lru_upd_buf [OF x assms(2)]) (use assms(3,4) in \<open>simp_all add: nextf_def prevf_def\<close>)
  then show ?thesis
    using assms(1,5,6) set_update_ok [of "cores s" "bc_disk s" "core (f (get_buf s i))" i]
    by (auto simp: bc_wf_def cores_upd_buf [OF x assms(2)])
qed

lemma set_data_spec:
  assumes wf: "bc_wf s" and h: "bheld s i = Some n" and d: "length d = BSIZE"
  shows "bc_wf (set_data i d s) \<and> bheld (set_data i d s) = bheld s \<and> bview (set_data i d s) = (bview s)(n := d)
     \<and> bdirty (set_data i d s) = bdirty s \<and> bavail (set_data i d s) = bavail s"
proof -
  note hd = bheldD [OF wf h]
  obtain xs where w: "lru s xs" "length (cores s) = NBUF" "uniq (cores s)"
    "core_ok (bc_disk s) (cores s ! i)" "cores s ! i = core (get_buf s i)"
    using wf hd(1) by (metis bc_wfD)
  let ?c = "core ((get_buf s i)\<lparr>b_data := d\<rparr>)"
  have cs: "cores (set_data i d s) = (cores s)[i := ?c]"
    using cores_upd_buf [OF w(1) hd(1)] by (simp add: set_data_def)
  have same: "caches ?c m = caches (cores s ! i) m" for m using w(5) by (simp add: caches_def core_def)
  have u: "uniq ((cores s)[i := ?c])" by (rule uniq_update_same [OF w(3) same])
  have "core_ok (bc_disk s) ?c" using w(4,5) d hd by (simp add: core_ok_def)
  then have wf': "bc_wf (set_data i d s)"
    unfolding set_data_def by (intro upd_buf_wf [OF wf hd(1)]) (use u in simp_all)
  have "bview (set_data i d s) m = ((bview s)(n := d)) m" for m
    unfolding bview_def cs
    using viewc_update [OF w(3) u, of "bc_disk s" m] hd(1,9) w(2,5) same
    by (auto simp: set_data_def core_def caches_def)
  moreover have "bheld (set_data i d s) = bheld s"
    unfolding bheld_def cs using heldc_update [of i "cores s" ?c] hd w(2) h
    by (auto simp: bheld_def fun_eq_iff core_def)
  moreover have "bdirty (set_data i d s) = bdirty s"
    unfolding bdirty_def cs by (rule dirtyc_update_same) (use hd(1) w(2,5) same in \<open>simp_all add: core_def\<close>)
  moreover have "bavail (set_data i d s) = bavail s"
    using availc_update [of i "cores s" ?c] hd w(2,5) unfolding bavail_def cs by (simp add: core_def)
  ultimately show ?thesis using wf' by blast
qed

text \<open>What \<^verbatim>\<open>log_write\<close> does to the buffer: it sets \<^verbatim>\<open>B_DIRTY\<close>, which keeps the buffer cached.\<close>

definition pin_buf :: "nat \<Rightarrow> 'z bcache_scheme \<Rightarrow> 'z bcache_scheme" where
  "pin_buf i = upd_buf i (\<lambda>b. b\<lparr>b_dirty := True\<rparr>)"

lemma dirtyc_update_dirty:
  assumes "i < length cs" and "\<And>m. caches c m = caches (cs ! i) m" and "b_dirty c" and "caches (cs ! i) n"
  shows "dirtyc (cs[i := c]) = insert n (dirtyc cs)"
proof -
  have n: "caches c m \<longleftrightarrow> m = n" for m using assms(2,4) by (auto simp: caches_def)
  have "m \<in> dirtyc (cs[i := c]) \<longleftrightarrow> m \<in> insert n (dirtyc cs)" for m
  proof (cases "m = n")
    case True
    then show ?thesis
      using assms(1,3) n set_update_memI [of i cs c] by (auto simp: dirtyc_def)
  next
    case False
    then show ?thesis
      using assms n unfolding dirtyc_def in_set_conv_nth Bex_def
      by (auto simp: nth_list_update split: if_splits) (metis nth_list_update_neq)+
  qed
  then show ?thesis by blast
qed

lemma pin_spec:
  assumes wf: "bc_wf s" and h: "bheld s i = Some n"
  shows "bc_wf (pin_buf i s) \<and> bheld (pin_buf i s) = bheld s \<and> bview (pin_buf i s) = bview s
     \<and> bdirty (pin_buf i s) = insert n (bdirty s) \<and> bavail (pin_buf i s) = bavail s"
proof -
  note hd = bheldD [OF wf h]
  obtain xs where w: "lru s xs" "length (cores s) = NBUF" "uniq (cores s)"
    "core_ok (bc_disk s) (cores s ! i)" "cores s ! i = core (get_buf s i)"
    using wf hd(1) by (metis bc_wfD)
  let ?c = "core ((get_buf s i)\<lparr>b_dirty := True\<rparr>)"
  have cs: "cores (pin_buf i s) = (cores s)[i := ?c]"
    using cores_upd_buf [OF w(1) hd(1)] by (simp add: pin_buf_def)
  have same: "caches ?c m = caches (cores s ! i) m" for m using w(5) by (simp add: caches_def core_def)
  have u: "uniq ((cores s)[i := ?c])" by (rule uniq_update_same [OF w(3) same])
  have "core_ok (bc_disk s) ?c" using w(4,5) hd by (simp add: core_ok_def)
  then have wf': "bc_wf (pin_buf i s)"
    unfolding pin_buf_def by (intro upd_buf_wf [OF wf hd(1)]) (use u in simp_all)
  have dk: "bc_disk (pin_buf i s) = bc_disk s" by (simp add: pin_buf_def)
  have "bview (pin_buf i s) m = bview s m" for m
    unfolding bview_def cs dk
    using viewc_update [OF w(3) u, of "bc_disk s" m] viewc_cached [OF w(3), of i m] hd(1) w(2,5) same
    by auto
  moreover have "bheld (pin_buf i s) = bheld s"
    unfolding bheld_def cs using heldc_update [of i "cores s" ?c] hd w(2) h
    by (auto simp: bheld_def fun_eq_iff core_def)
  moreover have "bdirty (pin_buf i s) = insert n (bdirty s)"
    unfolding bdirty_def cs by (rule dirtyc_update_dirty) (use hd(1,9) w(2) same in \<open>simp_all add: core_def\<close>)
  moreover have "bavail (pin_buf i s) = bavail s"
    using availc_update [of i "cores s" ?c] hd w(2,5) unfolding bavail_def cs by (simp add: core_def)
  ultimately show ?thesis using wf' by blast
qed

text \<open>\<^verbatim>\<open>bwrite\<close>: the block goes to the disk as the clients see it, and the buffer is clean.\<close>

lemma core_ok_disk:
  assumes "core_ok disk b" and "b_blockno b \<noteq> n \<or> \<not> b_valid b"
  shows "core_ok (disk[n := d]) b"
  using assms by (auto simp: core_ok_def)

lemma dirtyc_update_undirty:
  assumes "uniq cs" and "i < length cs" and "\<not> b_dirty c" and "caches (cs ! i) n"
  shows "dirtyc (cs[i := c]) = dirtyc cs - {n}"
proof -
  have "m \<in> dirtyc (cs[i := c]) \<longleftrightarrow> m \<in> dirtyc cs \<and> m \<noteq> n" for m
  proof
    assume "m \<in> dirtyc (cs[i := c])"
    then obtain j where "j < length cs" "b_dirty (cs[i := c] ! j)" "caches (cs[i := c] ! j) m"
      by (auto simp: dirtyc_def in_set_conv_nth)
    then have j: "j < length cs" "j \<noteq> i" "b_dirty (cs ! j)" "caches (cs ! j) m"
      using assms(2,3) by (auto simp: nth_list_update split: if_splits)
    then have "m \<noteq> n" using assms(1,2,4) unfolding uniq_def by blast
    then show "m \<in> dirtyc cs \<and> m \<noteq> n" using j by (auto simp: dirtyc_def)
  next
    assume m: "m \<in> dirtyc cs \<and> m \<noteq> n"
    then obtain j where j: "j < length cs" "b_dirty (cs ! j)" "caches (cs ! j) m"
      by (auto simp: dirtyc_def in_set_conv_nth)
    then have "j \<noteq> i" using assms(4) m by (auto simp: caches_def)
    then have "cs ! j \<in> set (cs[i := c])"
      using j(1) by (metis length_list_update nth_list_update_neq nth_mem)
    then show "m \<in> dirtyc (cs[i := c])" using j by (auto simp: dirtyc_def)
  qed
  then show ?thesis by blast
qed

lemma bwrite_spec:
  assumes wf: "bc_wf s" and h: "bheld s i = Some n"
  shows "\<exists>s'. bwrite i s = Ok s' \<and> bc_wf s' \<and> bheld s' = bheld s \<and> bview s' = bview s
     \<and> bc_disk s' = (bc_disk s)[n := bview s n] \<and> bc_trace s' = bc_trace s @ [(n, bview s n)]
     \<and> bdirty s' = bdirty s - {n} \<and> bavail s' = bavail s
     \<and> bc_pid s' = bc_pid s \<and> bcache.more s' = bcache.more s"
proof -
  note hd = bheldD [OF wf h]
  obtain xs where w: "lru s xs" "length (cores s) = NBUF" "uniq (cores s)"
    "core_ok (bc_disk s) (cores s ! i)" "cores s ! i = core (get_buf s i)"
    using wf hd(1) by (metis bc_wfD)
  let ?b = "(get_buf s i)\<lparr>b_dirty := False, b_valid := True\<rparr>" and ?v = "b_data (get_buf s i)"
  let ?s' = "s\<lparr>bc_disk := (bc_disk s)[n := ?v], bc_trace := bc_trace s @ [(n, ?v)],
               bc_buf := (bc_buf s)[i := ?b]\<rparr>"
  have len: "i < length (bc_buf s)" using w(1) hd(1) by (simp add: lru_def)
  have v: "bview s n = ?v" using bview_held [OF wf h] by (simp add: bdata_def)
  have run: "bwrite i s = Ok ?s'"
    using hd len by (simp add: bwrite_def iderw_def Let_def holdingsleep_def upd_buf_def ROOTDEV_def)
  let ?c = "core ?b" and ?cs = "(cores s)[i := core ?b]"
  have cs: "cores ?s' = ?cs"
    using cores_upd_buf [OF w(1) hd(1), of "\<lambda>_. ?b"] by (simp add: upd_buf_def cores_def)
  have same: "caches ?c m = caches (cores s ! i) m" for m using w(5) by (simp add: caches_def core_def)
  have u: "uniq ?cs" by (rule uniq_update_same [OF w(3) same])
  have "lru ?s' xs"
  proof -
    have "lru (upd_buf i (\<lambda>_. ?b) s) xs"
      by (rule lru_upd_buf [OF w(1) hd(1)]) (simp_all add: nextf_def prevf_def)
    then show ?thesis by (simp add: lru_def upd_buf_def nextf_def [abs_def] prevf_def [abs_def])
  qed
  moreover have "core_ok ((bc_disk s)[n := ?v]) (?cs ! j)" if "j < NBUF" for j
  proof (cases "j = i")
    case True
    then show ?thesis using w(2,4,5) hd by (simp add: core_ok_def)
  next
    case False
    have ok: "core_ok (bc_disk s) (cores s ! j)" using wf that by (metis bc_wfD)
    have "b_blockno (cores s ! j) \<noteq> n \<or> \<not> b_valid (cores s ! j)"
    proof (rule ccontr)
      assume "\<not> ?thesis"
      then have "caches (cores s ! j) n" using ok by (simp add: caches_def core_ok_def)
      then show False using uniqD [OF w(3), of i j n] w(2) hd(1,9) that False by simp
    qed
    then show ?thesis using core_ok_disk [OF ok] False by simp
  qed
  then have "\<forall>b \<in> set ?cs. core_ok ((bc_disk s)[n := ?v]) b"
    using w(2) by (metis in_set_conv_nth length_list_update)
  moreover have "\<forall>d \<in> set ((bc_disk s)[n := ?v]). length d = BSIZE"
    using wf hd(8) set_update_subset_insert [of "bc_disk s" n ?v] by (auto simp: bc_wf_def)
  ultimately have wf': "bc_wf ?s'" using u by (auto simp: bc_wf_def cs)
  have "bview ?s' m = bview s m" for m
    using viewc_update [OF w(3) u, of "(bc_disk s)[n := ?v]" m] v hd(1,9) w(2,5) same
    by (auto simp: bview_def cs caches_def viewc_def core_def split: option.splits)
  moreover have "bheld ?s' = bheld s"
    unfolding bheld_def cs using heldc_update [of i "cores s" ?c] hd w(2) h
    by (auto simp: bheld_def fun_eq_iff core_def)
  moreover have "bdirty ?s' = bdirty s - {n}"
    unfolding bdirty_def cs by (rule dirtyc_update_undirty [OF w(3)]) (use hd(1,9) w(2) in \<open>simp_all add: core_def\<close>)
  moreover have "bavail ?s' = bavail s"
    using availc_update [of i "cores s" ?c] hd w(2,5) unfolding bavail_def cs by (simp add: core_def)
  ultimately show ?thesis using wf' run by (auto simp: v)
qed

text \<open>\<^verbatim>\<open>brelse\<close>, on a buffer that is dirty or agrees with the disk.\<close>

lemma brelse_spec:
  assumes wf: "bc_wf s" and h: "bheld s i = Some n" and ok: "n \<in> bdirty s \<or> bview s n = bc_disk s ! n"
  shows "\<exists>s'. brelse i s = Ok s' \<and> bc_wf s' \<and> bheld s' = (bheld s)(i := None) \<and> bview s' = bview s
     \<and> bc_disk s' = bc_disk s \<and> bc_trace s' = bc_trace s \<and> bdirty s' = bdirty s
     \<and> bavail s' = bavail s + (if n \<in> bdirty s then 0 else 1)
     \<and> bc_pid s' = bc_pid s \<and> bcache.more s' = bcache.more s"
proof -
  note hd = bheldD [OF wf h]
  obtain xs where w: "lru s xs" "length (cores s) = NBUF" "uniq (cores s)"
    "core_ok (bc_disk s) (cores s ! i)" "cores s ! i = core (get_buf s i)"
    using wf hd(1) by (metis bc_wfD)
  let ?b = "(get_buf s i)\<lparr>b_lock := releasesleep (b_lock (get_buf s i)), b_refcnt := 0\<rparr>"
  define t where "t = upd_buf i (\<lambda>_. ?b) s"
  have len: "i < length (bc_buf s)" using w(1) hd(1) by (simp add: lru_def)
  have "wrap32 (1 + 2 ^ 32 - 1) = 0" by (simp add: wrap32_def)
  then have run: "brelse i s = Ok (move_front i t)"
    using hd len by (simp add: brelse_def Let_def holdingsleep_def t_def upd_buf_def)
  have lt: "lru t xs"
    unfolding t_def by (rule lru_upd_buf [OF w(1) hd(1)]) (simp_all add: nextf_def prevf_def)
  have "i \<in> set xs" using w(1) hd(1) by (simp add: lru_def)
  then obtain us vs where "xs = us @ i # vs" by (meson split_list)
  then have lm: "lru (move_front i t) (i # us @ vs)" using lt move_front_lru by blast
  let ?c = "core ?b" and ?cs = "(cores s)[i := core ?b]"
  have cs: "cores (move_front i t) = ?cs"
    using cores_move_front [OF lt hd(1)] cores_upd_buf [OF w(1) hd(1), of "\<lambda>_. ?b"] by (simp add: t_def)
  have mf: "bc_disk (move_front i t) = bc_disk s" "bc_trace (move_front i t) = bc_trace s"
    "bc_pid (move_front i t) = bc_pid s" "bcache.more (move_front i t) = bcache.more s"
    by (simp_all add: move_front_def Let_def t_def)
  have same: "caches ?c m = caches (cores s ! i) m" for m using w(5) by (simp add: caches_def core_def)
  have u: "uniq ?cs" by (rule uniq_update_same [OF w(3) same])
  have dirty: "n \<in> bdirty s \<longleftrightarrow> b_dirty (get_buf s i)"
    using dirtyc_iff [OF w(3), of i n] w(2,5) hd(1,9) by (simp add: bdirty_def)
  have "core_ok (bc_disk s) ?c"
    using w(4,5) hd ok dirty bview_held [OF wf h] by (auto simp: core_ok_def releasesleep_def bdata_def)
  then have "\<forall>b \<in> set ?cs. core_ok (bc_disk s) b"
    using wf by (intro set_update_ok) (auto simp: bc_wf_def)
  then have wf': "bc_wf (move_front i t)"
    using lm u wf by (auto simp: bc_wf_def cs mf)
  have "bview (move_front i t) m = bview s m" for m
    unfolding bview_def cs mf
    using viewc_update [OF w(3) u, of "bc_disk s" m] viewc_cached [OF w(3), of i m] hd(1) w(2,5) same
    by auto
  moreover have "bheld (move_front i t) = (bheld s)(i := None)"
    unfolding bheld_def cs using heldc_update [of i "cores s" ?c] hd w(2)
    by (simp add: core_def releasesleep_def)
  moreover have "bdirty (move_front i t) = bdirty s"
    unfolding bdirty_def cs by (rule dirtyc_update_same) (use hd(1) w(2,5) same in \<open>simp_all add: core_def\<close>)
  moreover have "bavail (move_front i t) = bavail s + (if n \<in> bdirty s then 0 else 1)"
    using availc_update [of i "cores s" ?c] hd w(2,5) unfolding bavail_def cs dirty by (simp add: core_def)
  ultimately show ?thesis using wf' run mf by auto
qed

text \<open>\<^verbatim>\<open>bread\<close> when the block is cached, and when a buffer has to be recycled for it.\<close>

lemma not_held_unlocked:
  assumes "bc_wf s" and "n \<notin> ran (bheld s)" and "i < NBUF" and "caches (cores s ! i) n"
  shows "\<not> sl_locked (b_lock (get_buf s i))"
proof
  assume l: "sl_locked (b_lock (get_buf s i))"
  have c: "length (cores s) = NBUF" "cores s ! i = core (get_buf s i)"
    using assms(1,3) by (metis bc_wfD)+
  then have "cores s ! i \<in> set (cores s)" using assms(3) by (metis nth_mem)
  with l c assms(4) have "n \<in> ran (heldc (cores s))" unfolding heldc_ran
    by (intro bexI [of _ "cores s ! i"]) (auto simp: caches_def)
  with assms(2) show False by (simp add: bheld_def)
qed

lemma core_ok_data:
  assumes "bc_wf s" and "i < NBUF" and "caches (cores s ! i) n"
  shows "bview s n = b_data (get_buf s i)" and "b_valid (get_buf s i)"
proof -
  have c: "length (cores s) = NBUF" "uniq (cores s)" "cores s ! i = core (get_buf s i)"
    "core_ok (bc_disk s) (cores s ! i)"
    using assms(1,2) by (metis bc_wfD)+
  then show "bview s n = b_data (get_buf s i)" and "b_valid (get_buf s i)"
    using viewc_cached [OF c(2), of i n] assms(2,3) by (simp_all add: bview_def core_ok_def caches_def)
qed

text \<open>Every block of the view has the size of a block.\<close>

lemma bview_length:
  assumes wf: "bc_wf s" and n: "n < length (bc_disk s)"
  shows "length (bview s n) = BSIZE"
proof (cases "\<exists>j < NBUF. caches (cores s ! j) n")
  case True
  then obtain j where j: "j < NBUF" "caches (cores s ! j) n" by blast
  have "core_ok (bc_disk s) (core (get_buf s j))" using wf j(1) by (metis bc_wfD)
  then show ?thesis using core_ok_data [OF wf j] by (simp add: core_ok_def)
next
  case False
  have "length (cores s) = NBUF" by (rule bc_wfD [OF wf])
  then have "bview s n = bc_disk s ! n"
    unfolding bview_def by (intro viewc_uncached) (use False in \<open>auto simp: in_set_conv_nth\<close>)
  then show ?thesis using wf n by (simp add: bc_wf_def)
qed

text \<open>A buffer that caches the block already, or one for a block that is in no buffer.\<close>

lemma uniq_take:
  assumes "uniq cs" and c: "\<And>m. caches c m \<longleftrightarrow> m = n" and "caches (cs ! i) n \<or> (\<forall>b \<in> set cs. \<not> caches b n)"
  shows "uniq (cs[i := c])"
proof (cases "caches (cs ! i) n")
  case True
  then have "caches (cs ! i) m \<longleftrightarrow> m = n" for m by (auto simp: caches_def)
  then show ?thesis by (intro uniq_update_same [OF assms(1)]) (simp add: c)
next
  case False
  with assms(3) c show ?thesis by (intro uniq_update_new [OF assms(1)]) auto
qed

text \<open>Locking a buffer that no one holds, after its reference count has been set to 1.\<close>

lemma take_buf_spec:
  assumes wf: "bc_wf s" and i: "i < NBUF" and free: "\<not> sl_locked (b_lock (get_buf s i))"
    and f: "f = (\<lambda>b. b\<lparr>b_dev := ROOTDEV, b_blockno := n, b_valid := True, b_refcnt := 1,
              b_lock := (b_lock (get_buf s i))\<lparr>sl_locked := True, sl_pid := bc_pid s\<rparr>, b_data := bview s n\<rparr>)"
    and n: "n < length (bc_disk s)"
    and kind: "caches (cores s ! i) n \<or> \<not> b_dirty (get_buf s i) \<and> (\<forall>b \<in> set (cores s). \<not> caches b n)"
  shows "bc_wf (upd_buf i f s) \<and> bheld s i = None \<and> bheld (upd_buf i f s) = (bheld s)(i \<mapsto> n)
     \<and> bview (upd_buf i f s) = bview s \<and> bdirty (upd_buf i f s) = bdirty s
     \<and> bavail s = bavail (upd_buf i f s) + (if n \<in> bdirty s then 0 else 1)"
proof -
  obtain xs where w: "lru s xs" "length (cores s) = NBUF" "uniq (cores s)"
    "core_ok (bc_disk s) (cores s ! i)" "cores s ! i = core (get_buf s i)"
    using wf i by (metis bc_wfD)
  let ?c = "core (f (get_buf s i))" and ?cs = "(cores s)[i := core (f (get_buf s i))]"
  have cs: "cores (upd_buf i f s) = ?cs" by (rule cores_upd_buf [OF w(1) i])
  have cn: "caches ?c m \<longleftrightarrow> m = n" for m by (auto simp: f caches_def)
  have u: "uniq ?cs" by (rule uniq_take [OF w(3) cn]) (use kind in blast)
  have okc: "core_ok (bc_disk s) ?c"
    using w(4,5) n bview_length [OF wf n] free kind by (auto simp: f core_ok_def)
  have wf': "bc_wf (upd_buf i f s)"
    by (rule upd_buf_wf [OF wf i]) (use u okc in \<open>simp_all add: f\<close>)
  have old: "caches (cores s ! i) m \<Longrightarrow> \<not> b_dirty (get_buf s i) \<Longrightarrow> bview s m = bc_disk s ! m" for m
    using core_ok_data(1) [OF wf i, of m] w(4,5) free by (auto simp: core_ok_def caches_def)
  have "bview (upd_buf i f s) m = bview s m" for m
    unfolding bview_def cs
    using viewc_update [OF w(3) u, of "bc_disk s" m] old [of m] kind i w(2,5) cn [of m]
    by (auto simp: f bview_def caches_def)
  moreover have "bheld s i = None" using free w(5) by (simp add: bheld_def heldc_def)
  moreover have "bheld (upd_buf i f s) = (bheld s)(i \<mapsto> n)"
    unfolding bheld_def cs using heldc_update [of i "cores s" ?c] i w(2) by (simp add: f)
  moreover have d: "bdirty (upd_buf i f s) = bdirty s"
  proof (cases "b_dirty (get_buf s i)")
    case True
    then have "caches (cores s ! i) n" using kind by blast
    then show ?thesis unfolding bdirty_def cs
      by (intro dirtyc_update_same) (use i w(2,5) cn in \<open>auto simp: f caches_def\<close>)
  next
    case False
    then show ?thesis unfolding bdirty_def cs
      by (intro dirtyc_update_clean) (use i w(2,5) in \<open>auto simp: f\<close>)
  qed
  moreover have "bavail s = bavail (upd_buf i f s) + (if n \<in> bdirty s then 0 else 1)"
  proof -
    have "n \<in> bdirty s \<longleftrightarrow> b_dirty (get_buf s i)"
      using dirtyc_iff [OF w(3), of i n] kind i w(2,5) by (auto simp: bdirty_def dirtyc_def)
    moreover have "b_refcnt (get_buf s i) = 0" using w(4,5) free by (simp add: core_ok_def)
    ultimately show ?thesis
      using availc_update [of i "cores s" ?c] i w(2,5) unfolding bavail_def cs by (auto simp: f)
  qed
  ultimately show ?thesis using wf' by blast
qed

lemma bread_spec:
  assumes wf: "bc_wf s" and n: "n < length (bc_disk s)" and nh: "n \<notin> ran (bheld s)"
    and room: "n \<in> bdirty s \<or> 0 < bavail s"
  shows "\<exists>i s'. bread ROOTDEV n s = Ok (i, s') \<and> bc_wf s' \<and> bheld s i = None \<and> bheld s' = (bheld s)(i \<mapsto> n)
     \<and> bview s' = bview s \<and> bc_disk s' = bc_disk s \<and> bc_trace s' = bc_trace s \<and> bdirty s' = bdirty s
     \<and> bavail s = bavail s' + (if n \<in> bdirty s then 0 else 1)
     \<and> bc_pid s' = bc_pid s \<and> bcache.more s' = bcache.more s"
proof -
  obtain xs where w: "lru s xs" "length (cores s) = NBUF" "uniq (cores s)"
    and nth: "\<And>i. i < NBUF \<Longrightarrow> cores s ! i = core (get_buf s i)"
    and ok: "\<And>i. i < NBUF \<Longrightarrow> core_ok (bc_disk s) (cores s ! i)"
    using wf by (rule bc_wfD) blast
  have xs: "set xs = {..<NBUF}" "length (bc_buf s) = Suc NBUF" using w(1) by (simp_all add: lru_def)
  define f where "f i = (\<lambda>b :: buf. b\<lparr>b_dev := ROOTDEV, b_blockno := n, b_valid := True, b_refcnt := 1,
      b_lock := (b_lock (get_buf s i))\<lparr>sl_locked := True, sl_pid := bc_pid s\<rparr>, b_data := bview s n\<rparr>)" for i
  have "\<exists>i < NBUF. bread ROOTDEV n s = Ok (i, upd_buf i (f i) s) \<and> \<not> sl_locked (b_lock (get_buf s i))
      \<and> (caches (cores s ! i) n \<or> \<not> b_dirty (get_buf s i) \<and> (\<forall>b \<in> set (cores s). \<not> caches b n))"
  proof (cases "List.find (\<lambda>i. b_dev (get_buf s i) = ROOTDEV \<and> b_blockno (get_buf s i) = n) xs")
    case (Some i)
    then have i: "i < NBUF" "b_dev (get_buf s i) = ROOTDEV" "b_blockno (get_buf s i) = n"
      using xs by (auto simp: find_Some_iff)
    then have c: "caches (cores s ! i) n" using nth by (simp add: caches_def)
    note free = not_held_unlocked [OF wf nh i(1) c]
    have "b_refcnt (get_buf s i) = 0" using ok [OF i(1)] nth [OF i(1)] free by (simp add: core_ok_def)
    moreover have "f i (get_buf s i) = (get_buf s i)\<lparr>b_refcnt := 1,
        b_lock := (b_lock (get_buf s i))\<lparr>sl_locked := True, sl_pid := bc_pid s\<rparr>\<rparr>"
      using core_ok_data [OF wf i(1) c] i(2,3) by (simp add: f_def)
    ultimately have "bread ROOTDEV n s = Ok (i, upd_buf i (f i) s)"
      using lru_scans(1) [OF w(1), of "\<lambda>b. b_dev b = ROOTDEV \<and> b_blockno b = n"] Some free i(1) xs(2)
        core_ok_data(2) [OF wf i(1) c]
      by (simp add: bread_def bget_def bget_lock_def acquiresleep_def nextf_def upd_buf_def wrap32_def)
    with i(1) free c show ?thesis by blast
  next
    case None
    then have none: "\<not> caches b n" if "b \<in> set (cores s)" for b
      using that xs w(2) nth by (auto simp: find_None_iff caches_def in_set_conv_nth)
    have "n \<notin> bdirty s" using none by (auto simp: bdirty_def dirtyc_def)
    with room obtain b where b: "b \<in> set (cores s)" "b_refcnt b = 0" "\<not> b_dirty b"
      by (auto simp: bavail_def availc_pos)
    then obtain j where j: "j < NBUF" "b_refcnt (get_buf s j) = 0" "\<not> b_dirty (get_buf s j)"
      using w(2) nth by (auto simp: in_set_conv_nth)
    define i' where "i' = List.find (\<lambda>i. b_refcnt (get_buf s i) = 0 \<and> \<not> b_dirty (get_buf s i)) (rev xs)"
    have "i' \<noteq> None" using j xs by (auto simp: i'_def find_None_iff)
    then obtain i where Some: "List.find (\<lambda>i. b_refcnt (get_buf s i) = 0 \<and> \<not> b_dirty (get_buf s i)) (rev xs) = Some i"
      by (auto simp: i'_def)
    then have i: "i < NBUF" "b_refcnt (get_buf s i) = 0" "\<not> b_dirty (get_buf s i)"
      using xs nth_mem [of _ "rev xs"] by (auto simp: find_Some_iff)
    have free: "\<not> sl_locked (b_lock (get_buf s i))"
      using ok [OF i(1)] nth [OF i(1)] i(2) by (auto simp: core_ok_def split: if_splits)
    have v: "bview s n = bc_disk s ! n" unfolding bview_def by (rule viewc_uncached) (use none in blast)
    have fi: "(get_buf s i)\<lparr>b_dev := Suc 0, b_blockno := n, b_dirty := False, b_refcnt := Suc 0,
        b_lock := (b_lock (get_buf s i))\<lparr>sl_locked := True, sl_pid := bc_pid s\<rparr>,
        b_data := bc_disk s ! n, b_valid := True\<rparr> = f i (get_buf s i)"
      using i(3) by (cases "get_buf s i") (simp add: f_def ROOTDEV_def v)
    have "bread ROOTDEV n s = Ok (i, upd_buf i (f i) s)"
      using lru_scans(1) [OF w(1), of "\<lambda>b. b_dev b = ROOTDEV \<and> b_blockno b = n"] None
        lru_scans(2) [OF w(1), of "\<lambda>b. b_refcnt b = 0 \<and> \<not> b_dirty b"] Some free i xs(2) n
      by (simp add: bread_def bget_def bget_lock_def acquiresleep_def nextf_def prevf_def upd_buf_def
          iderw_def Let_def holdingsleep_def ROOTDEV_def fi)
    with i free none show ?thesis by blast
  qed
  then obtain i where i: "i < NBUF" "bread ROOTDEV n s = Ok (i, upd_buf i (f i) s)"
    "\<not> sl_locked (b_lock (get_buf s i))"
    "caches (cores s ! i) n \<or> \<not> b_dirty (get_buf s i) \<and> (\<forall>b \<in> set (cores s). \<not> caches b n)" by blast
  from take_buf_spec [OF wf i(1,3) f_def n i(4)] i(2) show ?thesis by auto
qed

section \<open>The interpretation\<close>

lemma bview_clean:
  assumes "bc_wf s" and "n \<notin> ran (bheld s)" and "n \<notin> bdirty s"
  shows "bview s n = bc_disk s ! n"
proof (cases "\<exists>i < NBUF. caches (cores s ! i) n")
  case True
  then obtain i where i: "i < NBUF" "caches (cores s ! i) n" by blast
  have c: "length (cores s) = NBUF" "uniq (cores s)" "cores s ! i = core (get_buf s i)"
    "core_ok (bc_disk s) (cores s ! i)"
    using assms(1) i(1) by (metis bc_wfD)+
  have "\<not> b_dirty (get_buf s i)" using assms(3) dirtyc_iff [OF c(2), of i n] c(1,3) i by (simp add: bdirty_def)
  then show ?thesis
    using not_held_unlocked [OF assms(1,2) i] core_ok_data [OF assms(1) i] c(3,4) i(2)
    by (simp add: core_ok_def caches_def)
next
  case False
  have "length (cores s) = NBUF" using assms(1) by (metis bc_wfD)
  with False show ?thesis unfolding bview_def by (intro viewc_uncached) (auto simp: in_set_conv_nth)
qed

lemma bview_len:
  assumes "bc_wf s" and "n < length (bc_disk s)"
  shows "length (bview s n) = BSIZE"
proof (cases "\<exists>i < NBUF. caches (cores s ! i) n")
  case True
  then obtain i where i: "i < NBUF" "caches (cores s ! i) n" by blast
  have "core_ok (bc_disk s) (core (get_buf s i))" using assms(1) i(1) by (metis bc_wfD)
  then show ?thesis using core_ok_data(1) [OF assms(1) i] by (simp add: core_ok_def)
next
  case False
  have "length (cores s) = NBUF" using assms(1) by (metis bc_wfD)
  with False have "bview s n = bc_disk s ! n"
    unfolding bview_def by (intro viewc_uncached) (auto simp: in_set_conv_nth)
  then show ?thesis using assms by (simp add: bc_wf_def)
qed

lemma bheld_inj:
  assumes "bc_wf s" and "bheld s i = Some n" and "bheld s j = Some n"
  shows "i = j"
proof -
  have "length (cores s) = NBUF" "uniq (cores s)" using assms(1) by (metis bc_wfD)+
  then show ?thesis
    using bheldD [OF assms(1,2)] bheldD [OF assms(1,3)] uniqD [of "cores s" i j n] by simp
qed

lemma dirtyc_card:
  assumes "uniq cs" and "\<And>b. b \<in> set cs \<Longrightarrow> b_dirty b \<Longrightarrow> b_dev b = ROOTDEV"
  shows "card (dirtyc cs) = length (filter b_dirty cs)"
proof -
  have inj: "i = j" if "i < length cs" "j < length cs" "b_dirty (cs ! i)" "b_dirty (cs ! j)"
    "b_blockno (cs ! i) = b_blockno (cs ! j)" for i j
    using assms(1) assms(2) [OF nth_mem] that unfolding uniq_def caches_def by blast
  let ?I = "{i. i < length cs \<and> b_dirty (cs ! i)}"
  have "dirtyc cs = (\<lambda>i. b_blockno (cs ! i)) ` ?I"
    using assms(2) unfolding dirtyc_def caches_def image_def Bex_def in_set_conv_nth by auto
  moreover have "inj_on (\<lambda>i. b_blockno (cs ! i)) ?I" using inj by (auto simp: inj_on_def)
  ultimately show ?thesis by (simp add: card_image length_filter_conv_card)
qed

lemma bavail_card:
  assumes "bc_wf s" and "bheld s = Map.empty"
  shows "bavail s + card (bdirty s) = NBUF"
proof -
  have c: "length (cores s) = NBUF" "uniq (cores s)" using assms(1) by (metis bc_wfD)+
  have ok: "core_ok (bc_disk s) b" if "b \<in> set (cores s)" for b
    using assms(1) that by (simp add: bc_wf_def)
  have un: "\<not> sl_locked (b_lock b)" if "b \<in> set (cores s)" for b
    using assms(2) that by (auto simp: bheld_def heldc_def in_set_conv_nth fun_eq_iff split: if_splits)
  have "filter (\<lambda>b. b_refcnt b = 0 \<and> \<not> b_dirty b) (cores s) = filter (\<lambda>b. \<not> b_dirty b) (cores s)"
    by (rule filter_cong) (use ok un in \<open>auto simp: core_ok_def\<close>)
  moreover have "card (bdirty s) = length (filter b_dirty (cores s))"
    unfolding bdirty_def by (rule dirtyc_card [OF c(2)]) (use ok in \<open>auto simp: core_ok_def\<close>)
  ultimately show ?thesis
    using sum_length_filter_compl [of b_dirty "cores s"] c(1) by (simp add: bavail_def availc_def)
qed

interpretation bc: buffer_cache "bread ROOTDEV" bwrite brelse set_data pin_buf bc_wf bview bc_disk bc_trace
  bdirty bheld bavail bdata "\<lambda>s :: 'z bcache_scheme. (bc_pid s, bcache.more s)"
proof (unfold_locales, goal_cases)
  case (1 s n)
  then show ?case using bread_spec [of s n] by simp
next
  case (2 s i n)
  then show ?case using bview_held [of s i n] by simp
next
  case (3 s i n d)
  then show ?case using set_data_spec [of s i n d] by (simp add: set_data_def)
next
  case (4 s i n)
  then show ?case using pin_spec [of s i n] by (simp add: pin_buf_def)
next
  case (5 s i n)
  then show ?case using bwrite_spec [of s i n] by simp
next
  case (6 s i n)
  then show ?case using brelse_spec [of s i n] by simp
next
  case (7 s n)
  then show ?case by (rule bview_clean)
next
  case (8 s n)
  then show ?case by (rule bview_len)
next
  case (9 s i n j)
  then show ?case by (rule bheld_inj)
next
  case (10 s i n)
  then show ?case by (rule bheldD(7))
next
  case (11 s)
  then show ?case by (rule bavail_card)
qed

end
