(* ===== verification/Bio_Props.thy ===== *)
theory Bio_Props
  imports Bio_Spec
begin

text \<open>
  Properties of \<^verbatim>\<open>src/bio.c\<close>: the state that \<^verbatim>\<open>binit\<close> leaves, the order in which buffers are
  recycled, and what clients read.
\<close>

section \<open>Initialisation\<close>

text \<open>The array as the loader leaves it: zeroed memory.\<close>

definition zero_buf :: buf where
  "zero_buf = \<lparr>b_valid = False, b_dirty = False, b_dev = 0, b_blockno = 0,
     b_lock = \<lparr>sl_locked = False, sl_name = '''', sl_pid = 0\<rparr>, b_refcnt = 0, b_prev = 0, b_next = 0,
     b_data = replicate BSIZE 0\<rparr>"

definition boot_cache :: "block list \<Rightarrow> bcache" where
  "boot_cache disk = \<lparr>bc_buf = replicate (Suc NBUF) zero_buf, bc_disk = disk, bc_trace = [], bc_pid = 0\<rparr>"

lemma binit_buf_links:
  assumes len: "length (bc_buf s) = Suc NBUF" and b: "b < NBUF" and bd: "nextf s NBUF \<le> NBUF"
  shows "nextf (binit_buf b s) = (nextf s)(b := nextf s NBUF, NBUF := b)"
    and "prevf (binit_buf b s) = (prevf s)(b := NBUF, nextf s NBUF := b)"
    and "length (bc_buf (binit_buf b s)) = Suc NBUF"
proof -
  define s1 where "s1 = set_next b (nextf s NBUF) s"
  have s1: "nextf s1 = (nextf s)(b := nextf s NBUF)" "prevf s1 = prevf s" "length (bc_buf s1) = Suc NBUF"
    using set_next_links [of b s] b len by (simp_all add: s1_def)
  define s2 where "s2 = set_prev b NBUF s1"
  have s2: "nextf s2 = nextf s1" "prevf s2 = (prevf s)(b := NBUF)" "length (bc_buf s2) = Suc NBUF"
    using set_prev_links [of b s1] b s1 by (simp_all add: s2_def)
  define s3 where "s3 = upd_buf b (\<lambda>x. x\<lparr>b_lock := initsleeplock (b_lock x) ''buffer''\<rparr>) s2"
  have s3: "nextf s3 = nextf s1" "prevf s3 = (prevf s)(b := NBUF)" "length (bc_buf s3) = Suc NBUF"
    using upd_buf_links [of b s2 "\<lambda>x. x\<lparr>b_lock := initsleeplock (b_lock x) ''buffer''\<rparr>"] b s2
    by (simp_all add: s3_def nextf_def prevf_def fun_eq_iff)
  have n3: "nextf s3 NBUF = nextf s NBUF" using s3(1) s1(1) b by simp
  define s4 where "s4 = set_prev (nextf s3 NBUF) b s3"
  have s4: "nextf s4 = nextf s1" "prevf s4 = (prevf s)(b := NBUF, nextf s NBUF := b)"
    "length (bc_buf s4) = Suc NBUF"
    using set_prev_links [of "nextf s NBUF" s3] bd s3 n3 by (simp_all add: s4_def)
  have run: "binit_buf b s = set_next NBUF b s4"
    by (simp add: binit_buf_def s4_def s3_def s2_def s1_def Let_def nextf_def)
  show "nextf (binit_buf b s) = (nextf s)(b := nextf s NBUF, NBUF := b)"
    and "prevf (binit_buf b s) = (prevf s)(b := NBUF, nextf s NBUF := b)"
    and "length (bc_buf (binit_buf b s)) = Suc NBUF"
    using set_next_links [of NBUF s4] s4 s1(1) by (simp_all add: run)
qed

lemma binit_dl:
  assumes "length (bc_buf s) = Suc NBUF" and "k \<le> NBUF"
  defines "t \<equiv> fold binit_buf [0..<k] (set_next NBUF NBUF (set_prev NBUF NBUF s))"
  shows "length (bc_buf t) = Suc NBUF \<and> dl (nextf t) (prevf t) NBUF (rev [0..<k]) NBUF"
  using assms(2) unfolding t_def
proof (induction k)
  case 0
  then show ?case using set_next_links [of NBUF "set_prev NBUF NBUF s"] set_prev_links [of NBUF s] assms(1)
    by simp
next
  case (Suc k)
  let ?t = "fold binit_buf [0..<k] (set_next NBUF NBUF (set_prev NBUF NBUF s))"
  have ih: "length (bc_buf ?t) = Suc NBUF" "dl (nextf ?t) (prevf ?t) NBUF (rev [0..<k]) NBUF"
    using Suc by simp_all
  have "nextf ?t NBUF = hd (rev [0..<k] @ [NBUF])" by (rule dl_ends(1) [OF ih(2)])
  then have bd: "nextf ?t NBUF \<le> NBUF" using Suc.prems by (cases k) auto
  note l = binit_buf_links [OF ih(1) _ bd, of k]
  have "dl ((nextf ?t)(k := nextf ?t NBUF, NBUF := k)) ((prevf ?t)(k := NBUF, nextf ?t NBUF := k)) NBUF (k # rev [0..<k]) NBUF"
    by (rule dl_push [OF ih(2)]) (use Suc.prems in auto)
  moreover have "rev [0..<Suc k] = k # rev [0..<k]" by simp
  moreover have "fold binit_buf [0..<Suc k] u = binit_buf k (fold binit_buf [0..<k] u)" for u :: "'a bcache_scheme"
    by simp
  ultimately show ?case using l Suc.prems by (simp only: less_eq_Suc_le) 
qed

lemma binit_lru:
  assumes "length (bc_buf s) = Suc NBUF"
  shows "lru (binit s) (rev [0..<NBUF])"
  using binit_dl [OF assms order_refl] by (auto simp: lru_def binit_def)

text \<open>Initialisation changes links and locks only.\<close>

definition same_but_links :: "buf \<Rightarrow> buf \<Rightarrow> bool" where
  "same_but_links a b \<longleftrightarrow> b_valid b = b_valid a \<and> b_dirty b = b_dirty a \<and> b_dev b = b_dev a
     \<and> b_refcnt b = b_refcnt a \<and> b_data b = b_data a \<and> (sl_locked (b_lock a) \<or> \<not> sl_locked (b_lock b))"

lemma same_but_links_refl: "same_but_links a a"
  by (simp add: same_but_links_def)

lemma same_but_links_trans: "same_but_links a b \<Longrightarrow> same_but_links b c \<Longrightarrow> same_but_links a c"
  by (auto simp: same_but_links_def)

lemma upd_buf_same:
  assumes "\<And>b. same_but_links b (f b)"
  shows "same_but_links (get_buf s j) (get_buf (upd_buf i f s) j)"
proof (cases "j = i \<and> i < length (bc_buf s)")
  case True
  then show ?thesis using assms by (simp add: upd_buf_def)
next
  case False
  then have "get_buf (upd_buf i f s) j = get_buf s j" by (auto simp: upd_buf_def list_update_beyond not_less)
  then show ?thesis by (simp add: same_but_links_refl)
qed

lemma upd_buf_same_next: "same_but_links (get_buf s j) (get_buf (set_next i k s) j)"
  unfolding set_next_def by (rule upd_buf_same) (simp add: same_but_links_def)

lemma upd_buf_same_prev: "same_but_links (get_buf s j) (get_buf (set_prev i k s) j)"
  unfolding set_prev_def by (rule upd_buf_same) (simp add: same_but_links_def)

lemma binit_buf_same: "same_but_links (get_buf s j) (get_buf (binit_buf b s) j)"
  unfolding binit_buf_def Let_def
  by (rule same_but_links_trans [OF _ upd_buf_same_next], rule same_but_links_trans [OF _ upd_buf_same_prev],
      rule same_but_links_trans [OF _ upd_buf_same], rule same_but_links_trans [OF _ upd_buf_same_prev],
      rule upd_buf_same_next) (simp add: same_but_links_def initsleeplock_def)

lemma fold_binit_same: "same_but_links (get_buf s j) (get_buf (fold binit_buf bs s) j)"
  by (induction bs arbitrary: s) (auto intro: same_but_links_refl same_but_links_trans binit_buf_same)

lemma fold_binit_sel:
  "bc_disk (fold binit_buf bs s) = bc_disk s \<and> bc_trace (fold binit_buf bs s) = bc_trace s
     \<and> bc_pid (fold binit_buf bs s) = bc_pid s \<and> bcache.more (fold binit_buf bs s) = bcache.more s"
  by (induction bs arbitrary: s) (simp_all add: binit_buf_def Let_def)

lemma binit_same: "same_but_links (get_buf s j) (get_buf (binit s) j)"
  unfolding binit_def
  by (rule same_but_links_trans [OF _ fold_binit_same], rule same_but_links_trans [OF _ upd_buf_same_next],
      rule upd_buf_same_prev)

lemma binit_sel:
  "bc_disk (binit s) = bc_disk s" "bc_trace (binit s) = bc_trace s" "bc_pid (binit s) = bc_pid s"
  "bcache.more (binit s) = bcache.more s"
  using fold_binit_sel [of "[0..<NBUF]" "set_next NBUF NBUF (set_prev NBUF NBUF s)"]
  by (simp_all add: binit_def)

lemma binit_cores:
  assumes "bc_buf s = replicate (Suc NBUF) zero_buf" and "b \<in> set (cores (binit s))"
  shows "\<not> b_valid b" "\<not> b_dirty b" "b_dev b = 0" "b_refcnt b = 0" "length (b_data b) = BSIZE"
    "\<not> sl_locked (b_lock b)"
proof -
  have "length (bc_buf (binit s)) = Suc NBUF" using binit_lru [of s] assms(1) by (simp add: lru_def)
  then obtain i where i: "i < NBUF" "b = core (get_buf (binit s) i)"
    using assms(2) by (auto simp: cores_def in_set_conv_nth)
  have "same_but_links zero_buf (get_buf (binit s) i)"
    using binit_same [of s i] i(1) assms(1) by (simp del: replicate_Suc)
  then show "\<not> b_valid b" "\<not> b_dirty b" "b_dev b = 0" "b_refcnt b = 0" "length (b_data b) = BSIZE"
    "\<not> sl_locked (b_lock b)"
    by (auto simp: i(2) same_but_links_def zero_buf_def core_def)
qed

lemma binit_establishes_helper:
  assumes "bc_buf s = replicate (Suc NBUF) zero_buf" and "\<forall>d \<in> set (bc_disk s). length d = BSIZE"
  shows "lru (binit s) (rev [0..<NBUF]) \<and> bc_wf (binit s) \<and> bview (binit s) = (\<lambda>n. bc_disk s ! n)
     \<and> bheld (binit s) = Map.empty \<and> bdirty (binit s) = {} \<and> bavail (binit s) = NBUF"
proof -
  note c = binit_cores [OF assms(1)]
  have l: "lru (binit s) (rev [0..<NBUF])" using binit_lru [of s] assms(1) by simp
  have no: "\<not> caches b n" if "b \<in> set (cores (binit s))" for b n
    using c(3) [OF that] by (simp add: caches_def ROOTDEV_def)
  have "uniq (cores (binit s))" using no by (auto simp: uniq_def)
  moreover have "core_ok (bc_disk s) b" if "b \<in> set (cores (binit s))" for b
    using c [OF that] by (simp add: core_ok_def ROOTDEV_def)
  ultimately have "bc_wf (binit s)" using l assms(2) by (auto simp: bc_wf_def binit_sel)
  moreover have "bview (binit s) n = bc_disk s ! n" for n
    unfolding bview_def using viewc_uncached [OF no] by (simp add: binit_sel)
  moreover have "bheld (binit s) i = None" for i
    using c(6) nth_mem by (auto simp: bheld_def heldc_def)
  moreover have "bdirty (binit s) = {}" using no by (auto simp: bdirty_def dirtyc_def)
  moreover have "length (cores (binit s)) = NBUF" using l by (simp add: cores_def lru_def)
  then have "bavail (binit s) = NBUF" using c(2,4) by (simp add: bavail_def availc_def)
  ultimately show ?thesis using l by auto
qed

text \<open>
  \<^verbatim>\<open>binit\<close>, run on the zeroed array, links all \<^verbatim>\<open>NBUF\<close> buffers into one circular list, in
  which following \<^verbatim>\<open>next\<close> and \<^verbatim>\<open>prev\<close> visits each buffer once, the last one of the array first.
  The cache is then well-formed: nothing is cached, held or dirty, every buffer is available,
  and clients see the disk.
\<close>

theorem binit_establishes:
  assumes "bc_buf s = replicate (Suc NBUF) zero_buf" and "\<forall>d \<in> set (bc_disk s). length d = BSIZE"
  shows "lru (binit s) (rev [0..<NBUF]) \<and> bc_wf (binit s) \<and> bview (binit s) = (\<lambda>n. bc_disk s ! n)
     \<and> bheld (binit s) = Map.empty \<and> bdirty (binit s) = {} \<and> bavail (binit s) = NBUF"
  using assms by (rule binit_establishes_helper)

theorem binit_establishes_witness:
  "bc_wf (binit (boot_cache [replicate BSIZE 7])) \<and> bview (binit (boot_cache [replicate BSIZE 7])) 0 = replicate BSIZE 7"
  using binit_establishes [of "boot_cache [replicate BSIZE 7]"] by (simp add: boot_cache_def)

section \<open>Least recently used\<close>

text \<open>The buffer that \<^verbatim>\<open>bget\<close> settles on, given the list of buffers.\<close>

definition bget_choice :: "'z bcache_scheme \<Rightarrow> nat list \<Rightarrow> nat \<Rightarrow> nat \<Rightarrow> nat option" where
  "bget_choice s xs dev n =
     (case List.find (\<lambda>i. b_dev (get_buf s i) = dev \<and> b_blockno (get_buf s i) = n) xs of
        Some i \<Rightarrow> Some i
      | None \<Rightarrow> List.find (\<lambda>i. b_refcnt (get_buf s i) = 0 \<and> \<not> b_dirty (get_buf s i)) (rev xs))"

lemma find_in: "List.find P xs = Some x \<Longrightarrow> x \<in> set xs \<and> P x"
  by (auto simp: find_Some_iff)

lemma bget_lock_lru:
  assumes "lru s xs" and "i < NBUF" and "bget_lock i s = Ok (j, t)"
  shows "j = i \<and> lru t xs"
  using assms(3) lru_upd_buf [OF assms(1,2)] unfolding bget_lock_def
  by (auto simp: nextf_def prevf_def)

lemma iderw_lru:
  assumes "lru s xs" and "i < NBUF" and "iderw i s = Ok t"
  shows "lru t xs"
proof -
  have "lru (s\<lparr>bc_disk := d, bc_trace := e\<rparr>) xs" for d e
    using assms(1) by (simp add: lru_def nextf_def [abs_def] prevf_def [abs_def])
  then show ?thesis
    using assms(1,2,3)
    by (auto simp: iderw_def Let_def nextf_def prevf_def split: if_splits intro!: lru_upd_buf)
qed

lemma bget_eq:
  assumes "lru s xs"
  shows "bget dev n s = (case List.find (\<lambda>i. b_dev (get_buf s i) = dev \<and> b_blockno (get_buf s i) = n) xs of
        Some i \<Rightarrow> bget_lock i (upd_buf i (\<lambda>b. b\<lparr>b_refcnt := wrap32 (b_refcnt b + 1)\<rparr>) s)
      | None \<Rightarrow>
          (case List.find (\<lambda>i. b_refcnt (get_buf s i) = 0 \<and> \<not> b_dirty (get_buf s i)) (rev xs) of
             Some i \<Rightarrow> bget_lock i (upd_buf i (\<lambda>b. b\<lparr>b_dev := dev, b_blockno := n, b_valid := False,
                                                     b_dirty := False, b_refcnt := 1\<rparr>) s)
           | None \<Rightarrow> Panic ''bget: no buffers''))"
  unfolding bget_def lru_scans [OF assms, unfolded nextf_def prevf_def] option.case ..

lemma lru_upd_keep:
  assumes "lru s xs" and "i < NBUF" and "\<And>b. b_next (f b) = b_next b \<and> b_prev (f b) = b_prev b"
  shows "lru (upd_buf i f s) xs"
  by (rule lru_upd_buf [OF assms(1,2)]) (simp_all add: nextf_def prevf_def assms(3))

lemma bget_lru:
  assumes l: "lru s xs" and run: "bget dev n s = Ok (i, t)"
  shows "bget_choice s xs dev n = Some i \<and> i < NBUF \<and> lru t xs"
proof -
  have xs: "set xs = {..<NBUF}" using l by (simp add: lru_def)
  obtain j f where c: "bget_choice s xs dev n = Some j" "bget_lock j (upd_buf j f s) = Ok (i, t)"
    and f: "\<And>b. b_next (f b) = b_next b \<and> b_prev (f b) = b_prev b"
  proof (cases "List.find (\<lambda>i. b_dev (get_buf s i) = dev \<and> b_blockno (get_buf s i) = n) xs")
    case (Some j)
    show ?thesis
      by (rule that [of j "\<lambda>b. b\<lparr>b_refcnt := wrap32 (b_refcnt b + 1)\<rparr>"])
        (use run Some in \<open>simp_all add: bget_eq [OF l] bget_choice_def\<close>)
  next
    case none: None
    show ?thesis
    proof (cases "List.find (\<lambda>i. b_refcnt (get_buf s i) = 0 \<and> \<not> b_dirty (get_buf s i)) (rev xs)")
      case None
      then show ?thesis using run none by (simp add: bget_eq [OF l])
    next
      case (Some j)
      show ?thesis
        by (rule that [of j "\<lambda>b. b\<lparr>b_dev := dev, b_blockno := n, b_valid := False, b_dirty := False, b_refcnt := 1\<rparr>"])
          (use run none Some in \<open>simp_all add: bget_eq [OF l] bget_choice_def\<close>)
    qed
  qed
  have "j \<in> set xs" using c(1) by (auto simp: bget_choice_def split: option.splits dest!: find_in)
  then have j: "j < NBUF" using xs by simp
  show ?thesis using bget_lock_lru [OF lru_upd_keep [OF l j f] j c(2)] c(1) j by simp
qed

lemma bread_lru:
  assumes "lru s xs" and "bread dev n s = Ok (i, t)"
  shows "bget_choice s xs dev n = Some i \<and> i < NBUF \<and> lru t xs"
proof -
  obtain u where u: "bget dev n s = Ok (i, u)" "u = t \<or> iderw i u = Ok t"
    using assms(2) by (auto simp: bread_def split: if_splits)
  show ?thesis using bget_lru [OF assms(1) u(1)] u(2) iderw_lru [of u xs i t] by auto
qed

lemma brelse_lru:
  assumes "lru s (us @ i # vs)" and "b_refcnt (get_buf s i) = 1" and "brelse i s = Ok t"
  shows "lru t (i # us @ vs)"
proof -
  have i: "i < NBUF" "i < length (bc_buf s)" using assms(1) by (auto simp: lru_def)
  let ?f = "\<lambda>b. b\<lparr>b_lock := releasesleep (b_lock b), b_refcnt := wrap32 (b_refcnt b + 2 ^ 32 - 1)\<rparr>"
  have "lru (upd_buf i ?f s) (us @ i # vs)"
    by (rule lru_upd_buf [OF assms(1) i(1)]) (simp_all add: nextf_def prevf_def)
  moreover have "t = move_front i (upd_buf i ?f s)"
    using assms(2,3) i(2) by (auto simp: brelse_def Let_def upd_buf_get wrap32_def)
  ultimately show ?thesis by (simp add: move_front_lru)
qed

text \<open>
  A client that reads a block with \<^verbatim>\<open>bread\<close> and gives it back with \<^verbatim>\<open>brelse\<close> sees the block's
  current contents: those of the cached copy if there is one and of the disk otherwise. The
  buffer used is the one that caches the block, or else the least recently used buffer that
  nobody refers to and that is not dirty, and it becomes the most recently used one; the order
  of the others, the contents of all blocks and the disk stay as they were.
\<close>

theorem bread_brelse_reads:
  assumes "bc_wf s" and "lru s xs" and "n < length (bc_disk s)" and "n \<notin> ran (bheld s)"
    and "n \<in> bdirty s \<or> 0 < bavail s"
  shows "\<exists>i s1 s2. bread ROOTDEV n s = Ok (i, s1) \<and> brelse i s1 = Ok s2
     \<and> bget_choice s xs ROOTDEV n = Some i \<and> b_data (get_buf s1 i) = bview s n
     \<and> lru s2 (i # remove1 i xs) \<and> bc_wf s2 \<and> bview s2 = bview s \<and> bc_disk s2 = bc_disk s
     \<and> bheld s2 = bheld s"
proof -
  from bc.read_block [OF assms(1,3,4,5)] obtain i s1 s2 where r: "bread ROOTDEV n s = Ok (i, s1)"
    "bdata s1 i = bview s n" "brelse i s1 = Ok s2" "bc_wf s2" "bheld s2 = bheld s" "bview s2 = bview s"
    "bc_disk s2 = bc_disk s" by blast
  from bread_spec [OF assms(1,3,4,5)] r(1) have s1: "bc_wf s1" "bheld s1 i = Some n" by auto
  have rc: "b_refcnt (get_buf s1 i) = 1"
    using bheldD [OF s1] by simp
  from bread_lru [OF assms(2) r(1)] have l: "bget_choice s xs ROOTDEV n = Some i" "i < NBUF" "lru s1 xs"
    by auto
  obtain us vs where xs: "xs = us @ i # vs" "i \<notin> set us"
    using split_list_first [of i xs] l(2,3) by (auto simp: lru_def)
  have "lru s2 (i # us @ vs)" by (rule brelse_lru) (use l(3) xs rc r(3) in auto)
  moreover have "remove1 i xs = us @ vs" using xs by (simp add: remove1_append)
  ultimately show ?thesis using r l by (auto simp: bdata_def)
qed

theorem bread_brelse_reads_witness:
  "\<exists>s1 s2. bread ROOTDEV 0 (binit (boot_cache [replicate BSIZE 7])) = Ok (0, s1)
     \<and> b_data (get_buf s1 0) = replicate BSIZE 7 \<and> brelse 0 s1 = Ok s2
     \<and> lru s2 (0 # remove1 0 (rev [0..<NBUF]))"
proof -
  let ?s = "binit (boot_cache [replicate BSIZE 7])"
  have b: "bc_buf (boot_cache [replicate BSIZE 7]) = replicate (Suc NBUF) zero_buf"
    "bc_disk (boot_cache [replicate BSIZE 7]) = [replicate BSIZE 7]" by (simp_all add: boot_cache_def)
  note w = binit_establishes_helper [OF b(1)]
  have same: "same_but_links zero_buf (get_buf ?s i)" if "i < NBUF" for i
    using binit_same [of "boot_cache [replicate BSIZE 7]" i] that b(1) by (simp del: replicate_Suc)
  have "List.find (\<lambda>i. b_dev (get_buf ?s i) = ROOTDEV \<and> b_blockno (get_buf ?s i) = 0) (rev [0..<NBUF]) = None"
    using same by (auto simp: find_None_iff same_but_links_def zero_buf_def ROOTDEV_def)
  moreover have "[0..<NBUF] = 0 # [1..<NBUF]" by (simp add: NBUF_def upt_conv_Cons)
  ultimately have ch: "bget_choice ?s (rev [0..<NBUF]) ROOTDEV 0 = Some 0"
    using same [of 0] by (simp add: bget_choice_def same_but_links_def zero_buf_def NBUF_def)
  show ?thesis
    using bread_brelse_reads [of ?s "rev [0..<NBUF]" 0] w ch by (auto simp: binit_sel b(2) NBUF_def)
qed

end
