(* ===== verification/Log.thy ===== *)
theory Log
  imports Bio_Props Bytes
begin

text \<open>
  \<^verbatim>\<open>src/log.c\<close>: the redo log. Blocks that file-system calls modify stay in the buffer cache,
  marked dirty, until the last outstanding call commits: the blocks are copied to the log,
  the header block that lists them is written, and only then are they installed at their home
  locations. Recovery at boot installs what a complete header lists. The properties of these
  operations are in \<open>Log_Props\<close>.
\<close>

section \<open>Super block\<close>

record superblock =
  sb_size :: nat
  sb_nblocks :: nat
  sb_ninodes :: nat
  sb_nlog :: nat
  sb_logstart :: nat
  sb_inodestart :: nat
  sb_bmapstart :: nat

definition dec_superblock :: "block \<Rightarrow> superblock" where
  "dec_superblock d = \<lparr>sb_size = ld32 0 d, sb_nblocks = ld32 4 d, sb_ninodes = ld32 8 d, sb_nlog = ld32 12 d,
     sb_logstart = ld32 16 d, sb_inodestart = ld32 20 d, sb_bmapstart = ld32 24 d\<rparr>"

definition readsb :: "nat \<Rightarrow> 'z bcache_scheme \<Rightarrow> (superblock \<times> 'z bcache_scheme) res" where
  "readsb dev s =
     bind_res (bread dev 1 s) (\<lambda>(b, s).
       let sb = dec_superblock (b_data (get_buf s b)) in
       bind_res (brelse b s) (\<lambda>s. Ok (sb, s)))"

section \<open>State\<close>

definition MAXOPBLOCKS :: nat where
  "MAXOPBLOCKS = 10"

definition LOGSIZE :: nat where
  "LOGSIZE = MAXOPBLOCKS * 3"

text \<open>
  \<^verbatim>\<open>struct log\<close>; the in-memory header \<^verbatim>\<open>lh\<close> is the pair of the last two fields. Block numbers
  are kept as the \<^verbatim>\<open>uint\<close> that \<^verbatim>\<open>bread\<close> reads them as.
\<close>

record logst = bcache +
  lg_start :: nat
  lg_size :: int
  lg_outstanding :: int
  lg_committing :: bool
  lg_dev :: nat
  lg_n :: int
  lg_block :: "nat list"

section \<open>The header block\<close>

text \<open>\<^verbatim>\<open>struct logheader\<close> in a block: \<^verbatim>\<open>n\<close>, then the block numbers.\<close>

definition hdr_n :: "block \<Rightarrow> int" where
  "hdr_n d = int32 (int (ld32 0 d))"

definition hdr_block :: "block \<Rightarrow> nat \<Rightarrow> nat" where
  "hdr_block d i = ld32 (4 + 4 * i) d"

definition hdr_store :: "int \<Rightarrow> nat list \<Rightarrow> block \<Rightarrow> block" where
  "hdr_store n bl d = fold (\<lambda>i d. st32 (4 + 4 * i) (bl ! i) d) [0..<nat n] (st32 0 (uint32 n) d)"

section \<open>Operations\<close>

text \<open>The bodies of the loops of \<^verbatim>\<open>install_trans\<close> and \<^verbatim>\<open>write_log\<close>.\<close>

definition install_one :: "nat \<Rightarrow> 'z logst_scheme \<Rightarrow> 'z logst_scheme res" where
  "install_one tail s =
     bind_res (bread (lg_dev s) (wrap32 (lg_start s + tail + 1)) s) (\<lambda>(lbuf, s).
     bind_res (bread (lg_dev s) (lg_block s ! tail) s) (\<lambda>(dbuf, s).
     bind_res (bwrite dbuf (set_data dbuf (b_data (get_buf s lbuf)) s)) (\<lambda>s.
     bind_res (brelse lbuf s) (\<lambda>s.
     brelse dbuf s))))"

definition install_trans :: "'z logst_scheme \<Rightarrow> 'z logst_scheme res" where
  "install_trans s = fold_res install_one [0..<nat (lg_n s)] s"

definition read_head :: "'z logst_scheme \<Rightarrow> 'z logst_scheme res" where
  "read_head s =
     bind_res (bread (lg_dev s) (lg_start s) s) (\<lambda>(b, s).
       let d = b_data (get_buf s b); n = hdr_n d in
       if n > int LOGSIZE then Fault ''read_head: block[] overrun''
       else let s = s\<lparr>lg_n := n, lg_block := fold (\<lambda>i bl. bl[i := hdr_block d i]) [0..<nat n] (lg_block s)\<rparr>
            in brelse b s)"

definition write_head :: "'z logst_scheme \<Rightarrow> 'z logst_scheme res" where
  "write_head s =
     bind_res (bread (lg_dev s) (lg_start s) s) (\<lambda>(b, s).
       bind_res (bwrite b (set_data b (hdr_store (lg_n s) (lg_block s) (b_data (get_buf s b))) s)) (\<lambda>s.
         brelse b s))"

definition recover_from_log :: "'z logst_scheme \<Rightarrow> 'z logst_scheme res" where
  "recover_from_log s =
     bind_res (read_head s) (\<lambda>s.
     bind_res (install_trans s) (\<lambda>s.
     write_head (s\<lparr>lg_n := 0\<rparr>)))"

definition initlog :: "nat \<Rightarrow> 'z logst_scheme \<Rightarrow> 'z logst_scheme res" where
  "initlog dev s =
     (if 4 + 4 * LOGSIZE \<ge> BSIZE then Panic ''initlog: too big logheader''
      else bind_res (readsb dev s) (\<lambda>(sb, s).
        recover_from_log (s\<lparr>lg_start := sb_logstart sb, lg_size := int32 (int (sb_nlog sb)), lg_dev := dev\<rparr>)))"

definition begin_op :: "'z logst_scheme \<Rightarrow> 'z logst_scheme res" where
  "begin_op s =
     (if lg_committing s then Sleeps ''log''
      else if lg_n s + (lg_outstanding s + 1) * int MAXOPBLOCKS > int LOGSIZE then Sleeps ''log''
      else Ok (s\<lparr>lg_outstanding := lg_outstanding s + 1\<rparr>))"

definition write_log_one :: "nat \<Rightarrow> 'z logst_scheme \<Rightarrow> 'z logst_scheme res" where
  "write_log_one tail s =
     bind_res (bread (lg_dev s) (wrap32 (lg_start s + tail + 1)) s) (\<lambda>(to, s).
     bind_res (bread (lg_dev s) (lg_block s ! tail) s) (\<lambda>(from, s).
     bind_res (bwrite to (set_data to (b_data (get_buf s from)) s)) (\<lambda>s.
     bind_res (brelse from s) (\<lambda>s.
     brelse to s))))"

definition write_log :: "'z logst_scheme \<Rightarrow> 'z logst_scheme res" where
  "write_log s = fold_res write_log_one [0..<nat (lg_n s)] s"

definition commit :: "'z logst_scheme \<Rightarrow> 'z logst_scheme res" where
  "commit s =
     (if lg_n s > 0 then
        bind_res (write_log s) (\<lambda>s.
        bind_res (write_head s) (\<lambda>s.
        bind_res (install_trans s) (\<lambda>s.
        write_head (s\<lparr>lg_n := 0\<rparr>))))
      else Ok s)"

definition end_op :: "'z logst_scheme \<Rightarrow> 'z logst_scheme res" where
  "end_op s =
     (let s = s\<lparr>lg_outstanding := lg_outstanding s - 1\<rparr> in
      if lg_committing s then Panic ''log.committing''
      else if lg_outstanding s = 0 then
        bind_res (commit (s\<lparr>lg_committing := True\<rparr>)) (\<lambda>s. Ok (s\<lparr>lg_committing := False\<rparr>))
      else Ok s)"

definition log_write :: "nat \<Rightarrow> 'z logst_scheme \<Rightarrow> 'z logst_scheme res" where
  "log_write b s =
     (if lg_n s \<ge> int LOGSIZE \<or> lg_n s \<ge> lg_size s - 1 then Panic ''too big a transaction''
      else if lg_outstanding s < 1 then Panic ''log_write outside of trans''
      else let blockno = b_blockno (get_buf s b);
               i = (case first_idx (\<lambda>x. x = blockno) (take (nat (lg_n s)) (lg_block s)) of
                      Some i \<Rightarrow> i | None \<Rightarrow> nat (lg_n s));
               s = s\<lparr>lg_block := (lg_block s)[i := blockno]\<rparr>;
               s = (if int i = lg_n s then s\<lparr>lg_n := lg_n s + 1\<rparr> else s)
           in Ok (pin_buf b s))"

section \<open>The header round trip\<close>

lemma hdr_store_fold:
  assumes "length d = BSIZE" and "k \<le> LOGSIZE"
  shows "length (fold (\<lambda>i d. st32 (4 + 4 * i) (bl ! i) d) [0..<k] d) = BSIZE
     \<and> ld32 0 (fold (\<lambda>i d. st32 (4 + 4 * i) (bl ! i) d) [0..<k] d) = ld32 0 d
     \<and> (\<forall>i < k. ld32 (4 + 4 * i) (fold (\<lambda>i d. st32 (4 + 4 * i) (bl ! i) d) [0..<k] d) = bl ! i mod 2 ^ 32)"
  using assms(2)
proof (induction k)
  case 0
  then show ?case using assms(1) by simp
next
  case (Suc k)
  let ?d = "fold (\<lambda>i d. st32 (4 + 4 * i) (bl ! i) d) [0..<k] d"
  have d: "length ?d = BSIZE" "ld32 0 ?d = ld32 0 d" "\<forall>i < k. ld32 (4 + 4 * i) ?d = bl ! i mod 2 ^ 32"
    using Suc by simp_all
  have k: "4 + 4 * k + 4 \<le> BSIZE" using Suc.prems by (simp add: BSIZE_def LOGSIZE_def MAXOPBLOCKS_def)
  have "ld32 (4 + 4 * i) (st32 (4 + 4 * k) (bl ! k) ?d) = bl ! i mod 2 ^ 32" if "i < Suc k" for i
  proof (cases "i = k")
    case True
    then show ?thesis using d(1) k by simp
  next
    case False
    then have "i < k" using that by simp
    then show ?thesis using d k by (subst ld32_st32_other) auto
  qed
  moreover have "ld32 0 (st32 (4 + 4 * k) (bl ! k) ?d) = ld32 0 d"
    using d k by (subst ld32_st32_other) auto
  ultimately show ?case using d(1) k by simp
qed

lemma int32_id: "- (2 ^ 31) \<le> x \<Longrightarrow> x < 2 ^ 31 \<Longrightarrow> int32 x = x"
  by (simp add: int32_def)

lemma hdr_store_spec:
  assumes "length d = BSIZE" and "0 \<le> n" and "n \<le> int LOGSIZE"
  shows "length (hdr_store n bl d) = BSIZE" and "hdr_n (hdr_store n bl d) = n"
    and "i < nat n \<Longrightarrow> bl ! i < 2 ^ 32 \<Longrightarrow> hdr_block (hdr_store n bl d) i = bl ! i"
proof -
  have l: "length (st32 0 (uint32 n) d) = BSIZE" using assms(1) by (simp add: BSIZE_def)
  have n: "nat n \<le> LOGSIZE" using assms(3) by simp
  note f = hdr_store_fold [OF l n, of bl]
  show "length (hdr_store n bl d) = BSIZE" using f by (simp add: hdr_store_def)
  have "n < 2 ^ 31" using assms(3) by (simp add: LOGSIZE_def MAXOPBLOCKS_def)
  then have "ld32 0 (hdr_store n bl d) = nat n"
    using f assms(1,2) by (simp add: hdr_store_def BSIZE_def uint32_def)
  then show "hdr_n (hdr_store n bl d) = n"
    using assms(2) \<open>n < 2 ^ 31\<close> by (simp add: hdr_n_def int32_id)
  show "i < nat n \<Longrightarrow> bl ! i < 2 ^ 32 \<Longrightarrow> hdr_block (hdr_store n bl d) i = bl ! i"
    using f by (simp add: hdr_store_def hdr_block_def)
qed

section \<open>Well-formed logs\<close>

definition homes :: "'z logst_scheme \<Rightarrow> nat list" where
  "homes s = take (nat (lg_n s)) (lg_block s)"

definition log_area :: "'z logst_scheme \<Rightarrow> nat set" where
  "log_area s = {lg_start s ..< lg_start s + nat (lg_size s)}"

text \<open>The geometry that \<^verbatim>\<open>mkfs\<close> lays out and \<^verbatim>\<open>initlog\<close> reads.\<close>

definition log_geom :: "'z logst_scheme \<Rightarrow> bool" where
  "log_geom s \<longleftrightarrow> lg_dev s = ROOTDEV \<and> 0 < lg_size s \<and> lg_size s \<le> int LOGSIZE
     \<and> lg_start s + nat (lg_size s) \<le> length (bc_disk s) \<and> length (bc_disk s) < 2 ^ 31
     \<and> length (lg_block s) = LOGSIZE"

definition log_wf :: "'z logst_scheme \<Rightarrow> bool" where
  "log_wf s \<longleftrightarrow> bc_wf s \<and> log_geom s \<and> 0 \<le> lg_n s \<and> lg_n s < lg_size s
     \<and> distinct (homes s) \<and> (\<forall>b \<in> set (homes s). b < length (bc_disk s) \<and> b \<notin> log_area s)
     \<and> bdirty s = set (homes s) \<and> ran (bheld s) \<inter> log_area s = {}
     \<and> hdr_n (bc_disk s ! lg_start s) = 0"

lemma logst_more:
  assumes "bcache.more u = bcache.more (s :: 'z logst_scheme)"
  shows "lg_start u = lg_start s" "lg_size u = lg_size s" "lg_outstanding u = lg_outstanding s"
    "lg_committing u = lg_committing s" "lg_dev u = lg_dev s" "lg_n u = lg_n s" "lg_block u = lg_block s"
    "logst.more u = logst.more s"
  using assms by (cases u, cases s, simp)+

end
