(* ===== verification/Log_Props.thy ===== *)
theory Log_Props
  imports Log
begin

text \<open>
  Properties of \<^verbatim>\<open>src/log.c\<close>: what a commit writes and in which order, what recovery does, and
  that the two together make a transaction atomic whenever the machine stops.
\<close>

section \<open>The cache operations leave the log's fields alone\<close>

lemma bget_lock_more: "bget_lock i s = Ok (j, t) \<Longrightarrow> bcache.more t = bcache.more s"
  by (auto simp: bget_lock_def)

lemma iderw_more: "iderw i s = Ok t \<Longrightarrow> bcache.more t = bcache.more s"
  by (auto simp: iderw_def Let_def split: if_splits)

lemma bget_more: "bget dev n s = Ok (i, t) \<Longrightarrow> bcache.more t = bcache.more s"
  unfolding bget_def by (auto split: option.splits dest!: bget_lock_more)

lemma bread_more:
  assumes "bread dev n s = Ok (i, t)"
  shows "bcache.more t = bcache.more s"
proof -
  obtain u where "bget dev n s = Ok (i, u)" "u = t \<or> iderw i u = Ok t"
    using assms by (auto simp: bread_def split: if_splits)
  then show ?thesis using bget_more iderw_more by metis
qed

lemmas bread_lg = logst_more [OF bread_more]

section \<open>The bodies of the loops\<close>

lemma can_copy_rooms:
  assumes "bc.can_copy a b u"
  shows "a < length (bc_disk u)" "b < length (bc_disk u)" "a \<in> bdirty u \<or> 0 < bavail u"
    "b \<in> bdirty u \<or> (if a \<in> bdirty u then 0 else 1) < bavail u"
  using assms by (auto simp: bc.can_copy_def)

lemma install_one_ok:
  assumes "bc_wf u" and "bheld u = Map.empty" and dev: "lg_dev u = ROOTDEV"
    and a: "wrap32 (lg_start u + i + 1) = a" and b: "lg_block u ! i = b" and "a \<noteq> b" and c: "bc.can_copy a b u"
  shows "\<exists>t. install_one i u = Ok t \<and> bc.copied a b u t"
proof -
  from bc.copy_block [OF assms(1) can_copy_rooms(1,2) [OF c] assms(6,2) can_copy_rooms(3,4) [OF c]]
  obtain l d s1 s2 t1 t2 t3 where r: "bread ROOTDEV a u = Ok (l, s1)" "bread ROOTDEV b s1 = Ok (d, s2)"
    "bwrite d (set_data d (bdata s2 l) s2) = Ok t1" "brelse l t1 = Ok t2" "brelse d t2 = Ok t3" "bc.copied a b u t3"
    by blast
  have "lg_dev s1 = ROOTDEV" "lg_block s1 ! i = b" using bread_lg [OF r(1)] dev b by simp_all
  then show ?thesis using r dev a by (simp add: install_one_def bdata_def)
qed

lemma write_log_one_ok:
  assumes "bc_wf u" and "bheld u = Map.empty" and dev: "lg_dev u = ROOTDEV"
    and a: "wrap32 (lg_start u + i + 1) = a" and b: "lg_block u ! i = b" and "a \<noteq> b" and c: "bc.can_copy a b u"
  shows "\<exists>t. write_log_one i u = Ok t \<and> bc.copied b a u t"
proof -
  from bc.copy_block [OF assms(1) can_copy_rooms(1,2) [OF c] assms(6,2) can_copy_rooms(3,4) [OF c]]
  obtain l d s1 s2 t1 t2 t3 where r: "bread ROOTDEV a u = Ok (l, s1)" "bread ROOTDEV b s1 = Ok (d, s2)"
    "bwrite l (set_data l (bdata s2 d) s2) = Ok t1" "brelse d t1 = Ok t2" "brelse l t2 = Ok t3" "bc.copied b a u t3"
    by blast
  have "lg_dev s1 = ROOTDEV" "lg_block s1 ! i = b" using bread_lg [OF r(1)] dev b by simp_all
  then show ?thesis using r dev a by (simp add: write_log_one_def bdata_def)
qed

lemma write_head_ok:
  assumes "bc_wf s" and "lg_start s < length (bc_disk s)" and "lg_start s \<notin> ran (bheld s)" and "0 < bavail s"
    and dev: "lg_dev s = ROOTDEV" and n: "0 \<le> lg_n s" "lg_n s \<le> int LOGSIZE"
    and h: "h = hdr_store (lg_n s) (lg_block s) (bview s (lg_start s))"
  shows "\<exists>t. write_head s = Ok t \<and> bc_wf t \<and> bheld t = bheld s \<and> bview t = (bview s)(lg_start s := h)
     \<and> bc_disk t = (bc_disk s)[lg_start s := h] \<and> bc_trace t = bc_trace s @ [(lg_start s, h)]
     \<and> bdirty t = bdirty s - {lg_start s} \<and> bavail s \<le> bavail t
     \<and> bc_pid t = bc_pid s \<and> bcache.more t = bcache.more s"
proof -
  have room: "lg_start s \<in> bdirty s \<or> 0 < bavail s" using assms(4) by simp
  from bc.write_block [OF assms(1,2,3) room] obtain i s1 where r: "bread ROOTDEV (lg_start s) s = Ok (i, s1)"
    "bdata s1 i = bview s (lg_start s)" "bcache.more s1 = bcache.more s"
    and w: "\<And>d. length d = BSIZE \<Longrightarrow> \<exists>s2 s3. bwrite i (set_data i d s1) = Ok s2 \<and> brelse i s2 = Ok s3
       \<and> bc_wf s3 \<and> bheld s3 = bheld s \<and> bview s3 = (bview s)(lg_start s := d)
       \<and> bc_disk s3 = (bc_disk s)[lg_start s := d] \<and> bc_trace s3 = bc_trace s @ [(lg_start s, d)]
       \<and> bdirty s3 = bdirty s - {lg_start s} \<and> bavail s \<le> bavail s3
       \<and> (bc_pid s3, bcache.more s3) = (bc_pid s, bcache.more s)" by auto
  have len: "length h = BSIZE"
    unfolding h by (rule hdr_store_spec(1) [OF bview_len [OF assms(1,2)] n])
  note lg = logst_more [OF r(3)]
  have "write_head s = bind_res (bwrite i (set_data i h s1)) (brelse i)"
    using r(1,2) dev lg by (simp add: write_head_def h bdata_def)
  with w [OF len] show ?thesis by auto
qed

section \<open>The loops\<close>

text \<open>What both loops rely on: the blocks listed in the header are real blocks outside the log.\<close>

definition txn_ok :: "'z logst_scheme \<Rightarrow> bool" where
  "txn_ok s \<longleftrightarrow> bc_wf s \<and> log_geom s \<and> bheld s = Map.empty \<and> 0 \<le> lg_n s \<and> lg_n s < lg_size s
     \<and> distinct (homes s) \<and> (\<forall>b \<in> set (homes s). b < length (bc_disk s) \<and> b \<notin> log_area s)"

abbreviation log_slot :: "'z logst_scheme \<Rightarrow> nat \<Rightarrow> nat" where
  "log_slot s i \<equiv> lg_start s + i + 1"

lemma homes_nth: "log_geom s \<Longrightarrow> 0 \<le> lg_n s \<Longrightarrow> lg_n s < lg_size s \<Longrightarrow> i < nat (lg_n s) \<Longrightarrow>
    lg_block s ! i = homes s ! i \<and> lg_block s ! i \<in> set (homes s)"
  by (auto simp: homes_def log_geom_def in_set_conv_nth intro!: exI [of _ i])

lemma homes_map:
  assumes "log_geom s" and "0 \<le> lg_n s" and "lg_n s < lg_size s"
  shows "map (\<lambda>i. lg_block s ! i) [0..<nat (lg_n s)] = homes s"
  by (rule nth_equalityI) (use assms in \<open>auto simp: homes_def log_geom_def\<close>)

lemma txn_slots:
  assumes "txn_ok s" and "i < nat (lg_n s)"
  shows "wrap32 (log_slot s i) = log_slot s i" "log_slot s i < length (bc_disk s)"
    "lg_block s ! i < length (bc_disk s)" "lg_block s ! i \<notin> log_area s" "log_slot s i \<in> log_area s"
    "lg_block s ! i \<in> set (homes s)"
proof -
  have g: "log_geom s" "0 \<le> lg_n s" "lg_n s < lg_size s" using assms(1) by (simp_all add: txn_ok_def)
  then show "log_slot s i < length (bc_disk s)" "log_slot s i \<in> log_area s"
    using assms(2) by (auto simp: log_geom_def log_area_def)
  moreover have "length (bc_disk s) < 2 ^ 31" using g(1) by (simp add: log_geom_def)
  ultimately show "wrap32 (log_slot s i) = log_slot s i" by (intro wrap32_id) simp
  show "lg_block s ! i \<in> set (homes s)" using homes_nth [OF g assms(2)] by blast
  then show "lg_block s ! i < length (bc_disk s)" "lg_block s ! i \<notin> log_area s"
    using assms(1) by (auto simp: txn_ok_def)
qed

lemma txn_disjoint:
  assumes "txn_ok s"
  shows "log_slot s ` set [0..<nat (lg_n s)] \<inter> (\<lambda>i. lg_block s ! i) ` set [0..<nat (lg_n s)] = {}"
    "(\<lambda>i. lg_block s ! i) ` set [0..<nat (lg_n s)] = set (homes s)"
    "distinct (map (log_slot s) [0..<nat (lg_n s)])"
    "distinct (map (\<lambda>i. lg_block s ! i) [0..<nat (lg_n s)])"
proof -
  show "log_slot s ` set [0..<nat (lg_n s)] \<inter> (\<lambda>i. lg_block s ! i) ` set [0..<nat (lg_n s)] = {}"
  proof (rule ccontr)
    assume "\<not> ?thesis"
    then obtain i j where ij: "i < nat (lg_n s)" "j < nat (lg_n s)" "log_slot s i = lg_block s ! j" by auto
    then show False using txn_slots(4) [OF assms ij(2)] txn_slots(5) [OF assms ij(1)] by simp
  qed
  have m: "map (\<lambda>i. lg_block s ! i) [0..<nat (lg_n s)] = homes s"
    using assms by (intro homes_map) (auto simp: txn_ok_def)
  then show "distinct (map (\<lambda>i. lg_block s ! i) [0..<nat (lg_n s)])"
    using assms by (simp add: txn_ok_def)
  show "(\<lambda>i. lg_block s ! i) ` set [0..<nat (lg_n s)] = set (homes s)"
    unfolding m [symmetric] by simp
  show "distinct (map (log_slot s) [0..<nat (lg_n s)])" by (simp add: distinct_map inj_on_def)
qed

lemma write_log_ok:
  assumes txn: "txn_ok s" and dirty: "set (homes s) \<subseteq> bdirty s" and av: "0 < bavail s"
  shows "\<exists>t. write_log s = Ok t \<and> bc.copies (\<lambda>i. lg_block s ! i) (log_slot s) [0..<nat (lg_n s)] s t"
  unfolding write_log_def
proof (rule bc.copy_loop)
  fix i and u :: "'a logst_scheme"
  assume i: "i \<in> set [0..<nat (lg_n s)]" and u: "bc_wf u" "bheld u = Map.empty"
    "(bc_pid u, bcache.more u) = (bc_pid s, bcache.more s)" "bc.can_copy (lg_block s ! i) (log_slot s i) u"
  have il: "i < nat (lg_n s)" using i by simp
  from u(3) have lg: "lg_dev u = lg_dev s" "lg_start u = lg_start s" "lg_block u = lg_block s"
    using logst_more [of u s] by simp_all
  have "lg_dev s = ROOTDEV" using txn by (simp add: txn_ok_def log_geom_def)
  moreover have "log_slot s i \<noteq> lg_block s ! i"
    using txn_slots(4,5) [OF txn il] by auto
  moreover have "bc.can_copy (log_slot s i) (lg_block s ! i) u" using u(4) by (auto simp: bc.can_copy_def)
  ultimately show "\<exists>t. write_log_one i u = Ok t \<and> bc.copied (lg_block s ! i) (log_slot s i) u t"
    using write_log_one_ok [OF u(1,2), of i "log_slot s i" "lg_block s ! i"] lg txn_slots(1) [OF txn il] by simp
next
  show "bc_wf s" "bheld s = Map.empty" using txn by (simp_all add: txn_ok_def)
  show "distinct (map (log_slot s) [0..<nat (lg_n s)])" by (rule txn_disjoint [OF txn])
  show "log_slot s ` set [0..<nat (lg_n s)] \<inter> (\<lambda>i. lg_block s ! i) ` set [0..<nat (lg_n s)] = {}"
    by (rule txn_disjoint [OF txn])
next
  fix i assume "i \<in> set [0..<nat (lg_n s)]"
  then have i: "i < nat (lg_n s)" by simp
  show "bc.can_copy (lg_block s ! i) (log_slot s i) s"
    using txn_slots [OF txn i] dirty av by (auto simp: bc.can_copy_def)
qed

lemma install_trans_ok:
  assumes txn: "txn_ok s" and room: "0 < bavail s" "1 < bavail s \<or> set (homes s) \<subseteq> bdirty s"
  shows "\<exists>t. install_trans s = Ok t \<and> bc.copies (log_slot s) (\<lambda>i. lg_block s ! i) [0..<nat (lg_n s)] s t"
  unfolding install_trans_def
proof (rule bc.copy_loop)
  fix i and u :: "'a logst_scheme"
  assume i: "i \<in> set [0..<nat (lg_n s)]" and u: "bc_wf u" "bheld u = Map.empty"
    "(bc_pid u, bcache.more u) = (bc_pid s, bcache.more s)" "bc.can_copy (log_slot s i) (lg_block s ! i) u"
  have il: "i < nat (lg_n s)" using i by simp
  from u(3) have lg: "lg_dev u = lg_dev s" "lg_start u = lg_start s" "lg_block u = lg_block s"
    using logst_more [of u s] by simp_all
  have "lg_dev s = ROOTDEV" using txn by (simp add: txn_ok_def log_geom_def)
  moreover have "log_slot s i \<noteq> lg_block s ! i"
    using txn_slots(4,5) [OF txn il] by auto
  ultimately show "\<exists>t. install_one i u = Ok t \<and> bc.copied (log_slot s i) (lg_block s ! i) u t"
    using install_one_ok [OF u(1,2), of i "log_slot s i" "lg_block s ! i"] lg txn_slots(1) [OF txn il] u(4) by simp
next
  show "bc_wf s" "bheld s = Map.empty" using txn by (simp_all add: txn_ok_def)
  show "distinct (map (\<lambda>i. lg_block s ! i) [0..<nat (lg_n s)])" by (rule txn_disjoint [OF txn])
  show "(\<lambda>i. lg_block s ! i) ` set [0..<nat (lg_n s)] \<inter> log_slot s ` set [0..<nat (lg_n s)] = {}"
    using txn_disjoint(1) [OF txn] by blast
next
  fix i assume "i \<in> set [0..<nat (lg_n s)]"
  then have i: "i < nat (lg_n s)" by simp
  show "bc.can_copy (log_slot s i) (lg_block s ! i) s"
    using txn_slots [OF txn i] room by (auto simp: bc.can_copy_def)
qed

section \<open>Commit\<close>

text \<open>The writes of a commit, in the order in which they reach the disk.\<close>

definition log_writes :: "'z logst_scheme \<Rightarrow> (nat \<times> block) list" where
  "log_writes s = map (\<lambda>i. (log_slot s i, bview s (lg_block s ! i))) [0..<nat (lg_n s)]"

definition home_writes :: "'z logst_scheme \<Rightarrow> (nat \<times> block) list" where
  "home_writes s = map (\<lambda>i. (lg_block s ! i, bview s (lg_block s ! i))) [0..<nat (lg_n s)]"

definition full_header :: "'z logst_scheme \<Rightarrow> block" where
  "full_header s = hdr_store (lg_n s) (lg_block s) (bview s (lg_start s))"

definition commit_writes :: "'z logst_scheme \<Rightarrow> (nat \<times> block) list" where
  "commit_writes s = (if lg_n s > 0 then
     log_writes s @ (lg_start s, full_header s) # home_writes s
       @ [(lg_start s, hdr_store 0 (lg_block s) (full_header s))] else [])"

lemma log_writes_sel:
  assumes "txn_ok s"
  shows "map fst (log_writes s) = map (log_slot s) [0..<nat (lg_n s)]" "distinct (map fst (log_writes s))"
    "fst ` set (log_writes s) \<subseteq> log_area s" "lg_start s \<notin> fst ` set (log_writes s)"
proof -
  show f: "map fst (log_writes s) = map (log_slot s) [0..<nat (lg_n s)]" by (simp add: log_writes_def)
  show "distinct (map fst (log_writes s))" unfolding f by (rule txn_disjoint(3) [OF assms])
  show "fst ` set (log_writes s) \<subseteq> log_area s" using txn_slots(5) [OF assms] by (auto simp: log_writes_def)
  show "lg_start s \<notin> fst ` set (log_writes s)" by (auto simp: log_writes_def)
qed

lemma home_writes_sel:
  assumes "txn_ok s"
  shows "map fst (home_writes s) = homes s" "fst ` set (home_writes s) \<inter> log_area s = {}"
    "fst ` set (home_writes s) = set (homes s)"
proof -
  show f: "map fst (home_writes s) = homes s"
    using assms homes_map [of s] by (simp add: home_writes_def txn_ok_def comp_def)
  then show g: "fst ` set (home_writes s) = set (homes s)" by (metis list.set_map)
  show "fst ` set (home_writes s) \<inter> log_area s = {}" unfolding g using assms by (auto simp: txn_ok_def)
qed

lemma home_writes_mem:
  assumes "txn_ok s" and "m \<in> set (homes s)"
  shows "(m, bview s m) \<in> set (home_writes s)"
proof -
  have "m \<in> fst ` set (home_writes s)" using assms home_writes_sel(3) by blast
  then show ?thesis by (auto simp: home_writes_def)
qed

lemma start_in_area: "log_geom s \<Longrightarrow> lg_start s \<in> log_area s \<and> lg_start s < length (bc_disk s)"
  by (auto simp: log_geom_def log_area_def)

text \<open>A log that is not being modified by anyone has room for one more block in the cache.\<close>

lemma log_avail:
  assumes "bc_wf s" and "bheld s = Map.empty" and "log_geom s" and "0 \<le> lg_n s" "lg_n s < lg_size s"
    and "bdirty s = set (homes s)"
  shows "0 < bavail s"
proof -
  have "card (bdirty s) \<le> length (homes s)" unfolding assms(6) by (rule card_length)
  also have "\<dots> < NBUF" using assms(3-5) by (auto simp: homes_def log_geom_def LOGSIZE_def MAXOPBLOCKS_def NBUF_def)
  finally show ?thesis using bavail_card [OF assms(1,2)] by simp
qed

lemma log_wf_txn: "log_wf s \<Longrightarrow> bheld s = Map.empty \<Longrightarrow> txn_ok s"
  by (simp add: log_wf_def txn_ok_def)

lemma txn_ok_cong:
  assumes "txn_ok s" and "bc_wf t" and "bheld t = Map.empty" and "bcache.more t = bcache.more s"
    and "length (bc_disk t) = length (bc_disk s)"
  shows "txn_ok t"
  using assms logst_more [OF assms(4)] by (simp add: txn_ok_def log_geom_def homes_def log_area_def)

text \<open>The two halves of \<^verbatim>\<open>commit\<close>: the log and its header, then the home blocks and the empty header.\<close>

lemma commit_log_spec:
  assumes wf: "log_wf s" and free: "bheld s = Map.empty"
  shows "\<exists>t1 t. write_log s = Ok t1 \<and> write_head t1 = Ok t \<and> bc_wf t \<and> bheld t = Map.empty
     \<and> bview t = (upd_all (log_writes s) (bview s))(lg_start s := full_header s)
     \<and> bc_disk t = (apply_writes (log_writes s) (bc_disk s))[lg_start s := full_header s]
     \<and> bc_trace t = bc_trace s @ log_writes s @ [(lg_start s, full_header s)] \<and> bdirty t = set (homes s) \<and> 0 < bavail t
     \<and> bcache.more t = bcache.more s \<and> bc_pid t = bc_pid s"
proof -
  note txn = log_wf_txn [OF wf free]
  have n: "0 \<le> lg_n s" "lg_n s \<le> int LOGSIZE" "lg_dev s = ROOTDEV" and g: "log_geom s" and dr: "bdirty s = set (homes s)"
    using wf by (auto simp: log_wf_def log_geom_def)
  have av: "0 < bavail s" using wf free by (intro log_avail) (auto simp: log_wf_def)
  note st = start_in_area [OF g]
  have dj: "bdirty s - log_slot s ` set [0..<nat (lg_n s)] = set (homes s)"
    unfolding dr using txn_disjoint(1,2) [OF txn] by blast
  from write_log_ok [OF txn _ av] dr obtain t1 where t1: "write_log s = Ok t1" "bc_wf t1" "bheld t1 = Map.empty"
    "bview t1 = upd_all (log_writes s) (bview s)" "bc_disk t1 = apply_writes (log_writes s) (bc_disk s)"
    "bc_trace t1 = bc_trace s @ log_writes s" "bdirty t1 = set (homes s)" "0 < bavail t1"
    "bcache.more t1 = bcache.more s" "bc_pid t1 = bc_pid s"
    using av free dj by (auto simp: bc.copies_def Let_def log_writes_def simp del: set_upt)
  note lg1 = logst_more [OF t1(9)]
  have v1: "bview t1 (lg_start s) = bview s (lg_start s)"
    unfolding t1(4) by (rule upd_all_other [OF log_writes_sel(4) [OF txn]])
  let ?h = "full_header s"
  have "\<exists>t. write_head t1 = Ok t \<and> bc_wf t \<and> bheld t = bheld t1 \<and> bview t = (bview t1)(lg_start t1 := ?h)
     \<and> bc_disk t = (bc_disk t1)[lg_start t1 := ?h] \<and> bc_trace t = bc_trace t1 @ [(lg_start t1, ?h)]
     \<and> bdirty t = bdirty t1 - {lg_start t1} \<and> bavail t1 \<le> bavail t
     \<and> bc_pid t = bc_pid t1 \<and> bcache.more t = bcache.more t1"
    by (rule write_head_ok) (use t1 lg1 n st v1 in \<open>simp_all add: full_header_def\<close>)
  then show ?thesis using t1 lg1 txn_slots(4) [OF txn] st wf by (auto simp: log_wf_def)
qed

lemma commit_home_spec:
  assumes txn: "txn_ok s" and n: "0 \<le> lg_n s" "lg_n s \<le> int LOGSIZE" "lg_dev s = ROOTDEV" and g: "log_geom s"
    and t2: "bc_wf t2" "bheld t2 = Map.empty" "0 < bavail t2" "bdirty t2 = set (homes s)" "bcache.more t2 = bcache.more s"
      "length (bc_disk t2) = length (bc_disk s)" "bview t2 (lg_start s) = full_header s"
    and slots: "\<And>i. i < nat (lg_n s) \<Longrightarrow> bview t2 (log_slot s i) = bview s (lg_block s ! i)"
  defines "e \<equiv> hdr_store 0 (lg_block s) (full_header s)"
  shows "\<exists>t3 t. install_trans t2 = Ok t3 \<and> write_head (t3\<lparr>lg_n := 0\<rparr>) = Ok t \<and> bc_wf t \<and> bheld t = Map.empty \<and> bdirty t = {}
     \<and> bview t = (upd_all (home_writes s) (bview t2))(lg_start s := e)
     \<and> bc_disk t = (apply_writes (home_writes s) (bc_disk t2))[lg_start s := e]
     \<and> bc_trace t = bc_trace t2 @ home_writes s @ [(lg_start s, e)]
     \<and> bcache.more t = bcache.more (s\<lparr>lg_n := 0\<rparr>) \<and> bc_pid t = bc_pid t2"
proof -
  note st = start_in_area [OF g]
  note lg2 = logst_more [OF t2(5)]
  have txn2: "txn_ok t2" by (rule txn_ok_cong [OF txn]) (use t2 in simp_all)
  have h2: "homes t2 = homes s" using lg2 by (simp add: homes_def)
  have vw: "map (\<lambda>i. (lg_block t2 ! i, bview t2 (log_slot t2 i))) [0..<nat (lg_n t2)] = home_writes s"
    using lg2 slots by (simp add: home_writes_def)
  from install_trans_ok [OF txn2 t2(3)] obtain t3 where t3: "install_trans t2 = Ok t3" "bc_wf t3"
    "bheld t3 = Map.empty" "bview t3 = upd_all (home_writes s) (bview t2)"
    "bc_disk t3 = apply_writes (home_writes s) (bc_disk t2)" "bc_trace t3 = bc_trace t2 @ home_writes s"
    "bdirty t3 = {}" "0 < bavail t3" "bcache.more t3 = bcache.more s" "bc_pid t3 = bc_pid t2"
    using h2 t2 txn_disjoint(2) [OF txn2] vw by (auto simp: bc.copies_def Let_def)
  define t3' where "t3' = t3\<lparr>lg_n := 0\<rparr>"
  have same3: "bc_wf t3' = bc_wf t3" "bheld t3' = bheld t3" "bview t3' = bview t3" "bdirty t3' = bdirty t3"
    "bavail t3' = bavail t3"
    by (simp_all add: t3'_def bc_wf_def lru_def nextf_def [abs_def] prevf_def [abs_def] cores_def bheld_def
        bview_def bdirty_def bavail_def fun_eq_iff)
  have more3: "bcache.more t3' = bcache.more (s\<lparr>lg_n := 0\<rparr>)"
    using t3(9) by (cases t3, cases s) (simp add: t3'_def)
  note lg3 = logst_more [OF more3]
  have "lg_start s \<notin> fst ` set (home_writes s)" using home_writes_sel(2) [OF txn] st by blast
  then have v3: "bview t3 (lg_start s) = full_header s" by (simp add: t3(4) t2(7) upd_all_other)
  have "\<exists>t. write_head t3' = Ok t \<and> bc_wf t \<and> bheld t = bheld t3' \<and> bview t = (bview t3')(lg_start t3' := e)
     \<and> bc_disk t = (bc_disk t3')[lg_start t3' := e] \<and> bc_trace t = bc_trace t3' @ [(lg_start t3', e)]
     \<and> bdirty t = bdirty t3' - {lg_start t3'} \<and> bavail t3' \<le> bavail t
     \<and> bc_pid t = bc_pid t3' \<and> bcache.more t = bcache.more t3'"
    by (rule write_head_ok) (use t2 t3 lg3 n st v3 same3 in \<open>simp_all add: t3'_def e_def\<close>)
  then obtain t where t: "write_head t3' = Ok t" "bc_wf t" "bheld t = Map.empty"
    "bview t = (bview t3)(lg_start s := e)" "bc_disk t = (bc_disk t3)[lg_start s := e]"
    "bc_trace t = bc_trace t3 @ [(lg_start s, e)]" "bdirty t = {}" "bcache.more t = bcache.more t3'" "bc_pid t = bc_pid t2"
    using same3 t3 lg3 by (auto simp: t3'_def)
  show ?thesis using t t3 more3 unfolding t3'_def by (intro exI [of _ t3] exI [of _ t]) simp
qed

lemma commit_spec:
  assumes wf: "log_wf s" and free: "bheld s = Map.empty"
  shows "\<exists>t. commit s = Ok t \<and> bc_wf t \<and> bheld t = Map.empty \<and> bdirty t = {}
     \<and> bc_disk t = apply_writes (commit_writes s) (bc_disk s) \<and> bc_trace t = bc_trace s @ commit_writes s
     \<and> bview t = upd_all (commit_writes s) (bview s)
     \<and> bcache.more t = bcache.more (s\<lparr>lg_n := 0\<rparr>) \<and> bc_pid t = bc_pid s"
proof (cases "lg_n s > 0")
  case False
  then have "homes s = []" "lg_n s = 0" using wf by (auto simp: log_wf_def homes_def)
  moreover from this have "bcache.more (s\<lparr>lg_n := 0\<rparr>) = bcache.more s" by (cases s) simp
  ultimately show ?thesis using False wf free by (simp add: commit_def commit_writes_def log_wf_def)
next
  case True
  note txn = log_wf_txn [OF wf free]
  have n: "0 \<le> lg_n s" "lg_n s \<le> int LOGSIZE" "lg_dev s = ROOTDEV" and g: "log_geom s" using wf by (auto simp: log_wf_def log_geom_def)
  from commit_log_spec [OF wf free] obtain t1 t2 where t2: "write_log s = Ok t1" "write_head t1 = Ok t2" "bc_wf t2"
    "bheld t2 = Map.empty" "bview t2 = (upd_all (log_writes s) (bview s))(lg_start s := full_header s)"
    "bc_disk t2 = (apply_writes (log_writes s) (bc_disk s))[lg_start s := full_header s]"
    "bc_trace t2 = bc_trace s @ log_writes s @ [(lg_start s, full_header s)]" "bdirty t2 = set (homes s)" "0 < bavail t2"
    "bcache.more t2 = bcache.more s" "bc_pid t2 = bc_pid s" by blast
  have slots: "bview t2 (log_slot s i) = bview s (lg_block s ! i)" if "i < nat (lg_n s)" for i
  proof -
    have "upd_all (log_writes s) (bview s) (log_slot s i) = bview s (lg_block s ! i)"
      by (rule upd_all_hit [OF log_writes_sel(2) [OF txn]]) (use that in \<open>simp add: log_writes_def\<close>)
    then show ?thesis by (simp add: t2(5))
  qed
  have len: "length (bc_disk t2) = length (bc_disk s)" "bview t2 (lg_start s) = full_header s" using t2(5,6) by simp_all
  from commit_home_spec [OF txn n g t2(3,4,9,8,10) len slots] obtain t3 t where t: "install_trans t2 = Ok t3"
    "write_head (t3\<lparr>lg_n := 0\<rparr>) = Ok t" "bc_wf t" "bheld t = Map.empty" "bdirty t = {}"
    "bview t = (upd_all (home_writes s) (bview t2))(lg_start s := hdr_store 0 (lg_block s) (full_header s))"
    "bc_disk t = (apply_writes (home_writes s) (bc_disk t2))[lg_start s := hdr_store 0 (lg_block s) (full_header s)]"
    "bc_trace t = bc_trace t2 @ home_writes s @ [(lg_start s, hdr_store 0 (lg_block s) (full_header s))]"
    "bcache.more t = bcache.more (s\<lparr>lg_n := 0\<rparr>)" "bc_pid t = bc_pid t2" by blast
  have "commit s = Ok t" using True t2(1,2) t(1,2) by (simp add: commit_def)
  then show ?thesis using t t2 True by (simp add: commit_writes_def)
qed

section \<open>Recovery\<close>

text \<open>A header block that recovery can act on.\<close>

definition hdr_ok :: "'z logst_scheme \<Rightarrow> block \<Rightarrow> bool" where
  "hdr_ok s d \<longleftrightarrow> 0 \<le> hdr_n d \<and> hdr_n d < lg_size s
     \<and> distinct (map (hdr_block d) [0..<nat (hdr_n d)])
     \<and> (\<forall>i < nat (hdr_n d). hdr_block d i < length (bc_disk s) \<and> hdr_block d i \<notin> log_area s)"

definition recover_writes :: "nat \<Rightarrow> block list \<Rightarrow> (nat \<times> block) list" where
  "recover_writes st disk =
     (let d = disk ! st in
      map (\<lambda>i. (hdr_block d i, disk ! (st + i + 1))) [0..<nat (hdr_n d)] @ [(st, st32 0 0 d)])"

text \<open>The cache as \<^verbatim>\<open>binit\<close> leaves it at boot, with the log's geometry read from the super block.\<close>

definition boot_ok :: "'z logst_scheme \<Rightarrow> bool" where
  "boot_ok s \<longleftrightarrow> bc_wf s \<and> log_geom s \<and> bheld s = Map.empty \<and> bdirty s = {}"

lemma fold_update_nth:
  assumes "k \<le> length xs"
  shows "length (fold (\<lambda>i bl. bl[i := f i]) [0..<k] xs) = length xs
     \<and> take k (fold (\<lambda>i bl. bl[i := f i]) [0..<k] xs) = map f [0..<k]"
  using assms
proof (induction k)
  case (Suc k)
  then show ?case by (simp add: take_Suc_conv_app_nth take_update_cancel)
qed simp

lemma hdr_store_0: "hdr_store 0 bl d = st32 0 0 d"
  by (simp add: hdr_store_def uint32_def)

text \<open>Updates of the log's own fields do not touch the cache.\<close>

lemma lg_upd_cache [simp]:
  "bc_wf (s\<lparr>lg_n := n\<rparr>) = bc_wf s" "bheld (s\<lparr>lg_n := n\<rparr>) = bheld s" "bview (s\<lparr>lg_n := n\<rparr>) = bview s"
  "bdirty (s\<lparr>lg_n := n\<rparr>) = bdirty s" "bavail (s\<lparr>lg_n := n\<rparr>) = bavail s"
  "bc_wf (s\<lparr>lg_block := bl\<rparr>) = bc_wf s" "bheld (s\<lparr>lg_block := bl\<rparr>) = bheld s" "bview (s\<lparr>lg_block := bl\<rparr>) = bview s"
  "bdirty (s\<lparr>lg_block := bl\<rparr>) = bdirty s" "bavail (s\<lparr>lg_block := bl\<rparr>) = bavail s"
  "bc_wf (s\<lparr>lg_outstanding := k\<rparr>) = bc_wf s" "bheld (s\<lparr>lg_outstanding := k\<rparr>) = bheld s"
  "bview (s\<lparr>lg_outstanding := k\<rparr>) = bview s" "bdirty (s\<lparr>lg_outstanding := k\<rparr>) = bdirty s"
  "bavail (s\<lparr>lg_outstanding := k\<rparr>) = bavail s"
  "bc_wf (s\<lparr>lg_committing := c\<rparr>) = bc_wf s" "bheld (s\<lparr>lg_committing := c\<rparr>) = bheld s"
  "bview (s\<lparr>lg_committing := c\<rparr>) = bview s" "bdirty (s\<lparr>lg_committing := c\<rparr>) = bdirty s"
  "bavail (s\<lparr>lg_committing := c\<rparr>) = bavail s"
  by (simp_all add: bc_wf_def lru_def nextf_def [abs_def] prevf_def [abs_def] cores_def bheld_def
      bview_def bdirty_def bavail_def fun_eq_iff)

lemma read_head_ok:
  assumes boot: "boot_ok s" and d: "d = bc_disk s ! lg_start s" and ok: "hdr_ok s d"
  shows "\<exists>t. read_head s = Ok t \<and> txn_ok t \<and> bdirty t = {} \<and> bview t = bview s \<and> bc_disk t = bc_disk s
     \<and> bc_trace t = bc_trace s \<and> lg_n t = hdr_n d \<and> homes t = map (hdr_block d) [0..<nat (hdr_n d)]
     \<and> bcache.more (t\<lparr>lg_n := 0, lg_block := []\<rparr>) = bcache.more (s\<lparr>lg_n := 0, lg_block := []\<rparr>)"
proof -
  have b: "bc_wf s" "log_geom s" "bheld s = Map.empty" "bdirty s = {}" using boot by (simp_all add: boot_ok_def)
  have av: "0 < bavail s" using bavail_card [OF b(1,3)] b(4) by (simp add: NBUF_def)
  have st: "lg_start s < length (bc_disk s)" using start_in_area [OF b(2)] by simp
  have v: "bview s (lg_start s) = d" unfolding d by (rule bview_clean) (use b in auto)
  have nh: "lg_start s \<notin> ran (bheld s)" by (simp add: b(3))
  from bread_spec [OF b(1) st nh] av obtain i s1 where r: "bread ROOTDEV (lg_start s) s = Ok (i, s1)"
    "bc_wf s1" "bheld s1 = [i \<mapsto> lg_start s]" "bview s1 = bview s" "bc_disk s1 = bc_disk s"
    "bc_trace s1 = bc_trace s" "bdirty s1 = {}" "bcache.more s1 = bcache.more s"
    using b(3,4) by auto
  note lg = logst_more [OF r(8)]
  have h: "bheld s1 i = Some (lg_start s)" by (simp add: r(3))
  have dat: "b_data (get_buf s1 i) = d" using bview_held [OF r(2) h] r(4) v by (simp add: bdata_def)
  define bl where "bl = fold (\<lambda>i bl. bl[i := hdr_block d i]) [0..<nat (hdr_n d)] (lg_block s)"
  have n: "0 \<le> hdr_n d" "hdr_n d < lg_size s" "hdr_n d \<le> int LOGSIZE" "nat (hdr_n d) \<le> length (lg_block s)"
    using ok b(2) by (auto simp: hdr_ok_def log_geom_def)
  note bl = fold_update_nth [OF n(4), of "hdr_block d", folded bl_def]
  define s2 where "s2 = s1\<lparr>lg_n := hdr_n d, lg_block := bl\<rparr>"
  have s2: "bc_wf s2" "bheld s2 i = Some (lg_start s)" "bview s2 = bview s" "bc_disk s2 = bc_disk s"
    "bdirty s2 = {}" "bheld s2 = [i \<mapsto> lg_start s]" "bc_trace s2 = bc_trace s"
    using r h by (simp_all add: s2_def)
  from brelse_spec [OF s2(1,2)] obtain t where t: "brelse i s2 = Ok t" "bc_wf t" "bheld t = Map.empty"
    "bview t = bview s" "bc_disk t = bc_disk s" "bc_trace t = bc_trace s" "bdirty t = {}"
    "bcache.more t = bcache.more s2"
    using s2 v d by auto
  note lgt = logst_more [OF t(8)]
  have f: "lg_start t = lg_start s" "lg_size t = lg_size s" "lg_dev t = lg_dev s" "lg_n t = hdr_n d" "lg_block t = bl"
    using lgt lg by (simp_all add: s2_def)
  have hm: "homes t = map (hdr_block d) [0..<nat (hdr_n d)]" using bl by (simp add: homes_def f)
  have "txn_ok t"
    using b(2) ok n t f bl hm by (auto simp: txn_ok_def log_geom_def hdr_ok_def log_area_def)
  moreover have "read_head s = Ok t"
    using r(1) dat t(1) b(2) n(3) lg by (simp add: read_head_def log_geom_def s2_def bl_def Let_def)
  moreover have "bcache.more (t\<lparr>lg_n := 0, lg_block := []\<rparr>) = bcache.more (s\<lparr>lg_n := 0, lg_block := []\<rparr>)"
    using t(8) r(8) by (cases t, cases s, cases s1) (simp add: s2_def)
  ultimately show ?thesis using t f(4) hm by blast
qed

lemma recover_spec:
  assumes boot: "boot_ok s" and ok: "hdr_ok s (bc_disk s ! lg_start s)"
  defines "ws \<equiv> recover_writes (lg_start s) (bc_disk s)"
  shows "\<exists>t. recover_from_log s = Ok t \<and> boot_ok t \<and> lg_n t = 0
     \<and> bc_disk t = apply_writes ws (bc_disk s) \<and> bc_trace t = bc_trace s @ ws
     \<and> lg_start t = lg_start s \<and> lg_size t = lg_size s"
proof -
  define d where "d = bc_disk s ! lg_start s"
  have b: "bc_wf s" "log_geom s" "bheld s = Map.empty" "bdirty s = {}" using boot by (simp_all add: boot_ok_def)
  from read_head_ok [OF boot d_def] ok obtain t1 where t1: "read_head s = Ok t1" "txn_ok t1" "bdirty t1 = {}"
    "bview t1 = bview s" "bc_disk t1 = bc_disk s" "bc_trace t1 = bc_trace s" "lg_n t1 = hdr_n d"
    "homes t1 = map (hdr_block d) [0..<nat (hdr_n d)]"
    "bcache.more (t1\<lparr>lg_n := 0, lg_block := []\<rparr>) = bcache.more (s\<lparr>lg_n := 0, lg_block := []\<rparr>)"
    unfolding d_def by blast
  have lg1: "lg_start t1 = lg_start s" "lg_size t1 = lg_size s" "lg_dev t1 = lg_dev s"
    using t1(9) by (cases t1, cases s, simp)+
  have tx: "bc_wf t1" "bheld t1 = Map.empty" "log_geom t1" "0 \<le> lg_n t1" "lg_n t1 < lg_size t1"
    using t1(2) by (simp_all add: txn_ok_def)
  have av: "bavail t1 = NBUF" using bavail_card [OF tx(1,2)] t1(3) by simp
  then have room: "0 < bavail t1" "1 < bavail t1" by (simp_all add: NBUF_def)
  have clean: "bview s m = bc_disk s ! m" for m using b by (intro bview_clean) auto
  let ?ws = "map (\<lambda>i. (hdr_block d i, bc_disk s ! (lg_start s + i + 1))) [0..<nat (hdr_n d)]"
  have nth: "lg_block t1 ! i = hdr_block d i" if "i < nat (hdr_n d)" for i
  proof -
    have "lg_block t1 ! i = homes t1 ! i" using homes_nth [OF tx(3-5)] that t1(7) by simp
    then show ?thesis using that by (simp add: t1(8))
  qed
  have ws: "map (\<lambda>i. (lg_block t1 ! i, bview t1 (log_slot t1 i))) [0..<nat (lg_n t1)] = ?ws"
    using nth by (simp add: t1(4,7) lg1 clean)
  from install_trans_ok [OF t1(2) room(1)] room(2) obtain t2 where i: "install_trans t1 = Ok t2"
    and cp: "bc.copies (log_slot t1) (\<lambda>i. lg_block t1 ! i) [0..<nat (lg_n t1)] t1 t2" by blast
  have t2: "install_trans t1 = Ok t2" "bc_wf t2"
    "bheld t2 = Map.empty" "bview t2 = upd_all ?ws (bview s)" "bc_disk t2 = apply_writes ?ws (bc_disk s)"
    "bc_trace t2 = bc_trace s @ ?ws" "bdirty t2 = {}" "0 < bavail t2" "bcache.more t2 = bcache.more t1"
    using t1(3-6) tx(2) room(1) i cp [unfolded bc.copies_def Let_def ws] by auto
  note lg2 = logst_more [OF t2(9)]
  have st: "lg_start s < length (bc_disk s)" "lg_start s \<in> log_area s" using start_in_area [OF b(2)] by auto
  have "lg_start s \<notin> fst ` set ?ws" using ok st(2) by (auto simp: hdr_ok_def d_def)
  then have v2: "bview t2 (lg_start s) = d"
    using clean [of "lg_start s"] by (simp add: t2(4) upd_all_other d_def)
  have dev: "lg_dev s = ROOTDEV" using b(2) by (simp add: log_geom_def)
  have "\<exists>t. write_head (t2\<lparr>lg_n := 0\<rparr>) = Ok t \<and> bc_wf t \<and> bheld t = bheld (t2\<lparr>lg_n := 0\<rparr>)
     \<and> bview t = (bview (t2\<lparr>lg_n := 0\<rparr>))(lg_start (t2\<lparr>lg_n := 0\<rparr>) := st32 0 0 d)
     \<and> bc_disk t = (bc_disk (t2\<lparr>lg_n := 0\<rparr>))[lg_start (t2\<lparr>lg_n := 0\<rparr>) := st32 0 0 d]
     \<and> bc_trace t = bc_trace (t2\<lparr>lg_n := 0\<rparr>) @ [(lg_start (t2\<lparr>lg_n := 0\<rparr>), st32 0 0 d)]
     \<and> bdirty t = bdirty (t2\<lparr>lg_n := 0\<rparr>) - {lg_start (t2\<lparr>lg_n := 0\<rparr>)} \<and> bavail (t2\<lparr>lg_n := 0\<rparr>) \<le> bavail t
     \<and> bc_pid t = bc_pid (t2\<lparr>lg_n := 0\<rparr>) \<and> bcache.more t = bcache.more (t2\<lparr>lg_n := 0\<rparr>)"
    by (rule write_head_ok) (use t2 lg2 lg1 st dev v2 in \<open>simp_all add: hdr_store_0\<close>)
  then obtain t where t: "write_head (t2\<lparr>lg_n := 0\<rparr>) = Ok t" "bc_wf t" "bheld t = Map.empty"
    "bc_disk t = (bc_disk t2)[lg_start s := st32 0 0 d]" "bc_trace t = bc_trace t2 @ [(lg_start s, st32 0 0 d)]"
    "bdirty t = {}" "bcache.more t = bcache.more (t2\<lparr>lg_n := 0\<rparr>)"
    using t2 lg2 lg1 by auto
  note lg = logst_more [OF t(7)]
  have run: "recover_from_log s = Ok t" using t1(1) t2(1) t(1) by (simp add: recover_from_log_def)
  have "boot_ok t" using t t2 lg lg2 lg1 tx(3) t1(5) by (simp add: boot_ok_def log_geom_def)
  moreover have "ws = ?ws @ [(lg_start s, st32 0 0 d)]" by (simp add: ws_def recover_writes_def d_def Let_def)
  ultimately show ?thesis using run t t2 lg lg2 lg1 by simp
qed

section \<open>Crashes\<close>

text \<open>
  The machine stops after some of the writes of a commit have reached the disk and boots
  again: \<open>crash_boot s ws r\<close>, where \<open>r\<close> is the state when recovery starts.
\<close>

definition crash_boot :: "'z logst_scheme \<Rightarrow> (nat \<times> block) list \<Rightarrow> 'y logst_scheme \<Rightarrow> bool" where
  "crash_boot s ws r \<longleftrightarrow> boot_ok r \<and> bc_disk r = apply_writes ws (bc_disk s)
     \<and> lg_start r = lg_start s \<and> lg_size r = lg_size s"

lemma crash_area:
  assumes "crash_boot s ws r"
  shows "log_area r = log_area s" "length (bc_disk r) = length (bc_disk s)"
  using assms by (simp_all add: crash_boot_def log_area_def)

text \<open>Recovery of a disk whose header is empty changes nothing outside the log.\<close>

lemma recover_empty:
  assumes "boot_ok r" and "hdr_n (bc_disk r ! lg_start r) = 0"
  shows "\<exists>t. recover_from_log r = Ok t \<and> boot_ok t \<and> lg_n t = 0
     \<and> (\<forall>m. m \<notin> log_area r \<longrightarrow> bc_disk t ! m = bc_disk r ! m)"
proof -
  have g: "log_geom r" using assms(1) by (simp add: boot_ok_def)
  have "hdr_ok r (bc_disk r ! lg_start r)" using assms(2) g by (simp add: hdr_ok_def log_geom_def)
  from recover_spec [OF assms(1) this] obtain t where t: "recover_from_log r = Ok t" "boot_ok t" "lg_n t = 0"
    "bc_disk t = apply_writes (recover_writes (lg_start r) (bc_disk r)) (bc_disk r)" by blast
  have "lg_start r \<in> log_area r" using start_in_area [OF g] by simp
  then have "lg_start r \<noteq> m" if "m \<notin> log_area r" for m using that by blast
  then have "bc_disk t ! m = bc_disk r ! m" if "m \<notin> log_area r" for m
    using that assms(2) by (simp add: t(4) recover_writes_def Let_def)
  with t show ?thesis by blast
qed

lemma st32_0_hdr: "length d = BSIZE \<Longrightarrow> hdr_n (st32 0 0 d) = 0"
  by (simp add: hdr_n_def BSIZE_def int32_def)

lemma crash_before_commit:
  assumes wf: "log_wf s" and free: "bheld s = Map.empty" and cr: "crash_boot s (take k (log_writes s)) r"
  shows "\<exists>t. recover_from_log r = Ok t \<and> boot_ok t \<and> lg_n t = 0
     \<and> (\<forall>m. m \<notin> log_area s \<longrightarrow> bc_disk t ! m = bc_disk s ! m)"
proof -
  note txn = log_wf_txn [OF wf free]
  have sub: "fst ` set (take k (log_writes s)) \<subseteq> fst ` set (log_writes s)"
    by (intro image_mono set_take_subset)
  have r: "boot_ok r" "lg_start r = lg_start s" "bc_disk r = apply_writes (take k (log_writes s)) (bc_disk s)"
    using cr by (simp_all add: crash_boot_def)
  have "bc_disk r ! lg_start s = bc_disk s ! lg_start s"
    unfolding r(3) by (rule apply_writes_other) (use sub log_writes_sel(4) [OF txn] in blast)
  then have "hdr_n (bc_disk r ! lg_start r) = 0" using wf r(2) by (simp add: log_wf_def)
  from recover_empty [OF r(1) this] crash_area [OF cr] obtain t where
    t: "recover_from_log r = Ok t" "boot_ok t" "lg_n t = 0" "\<And>m. m \<notin> log_area s \<Longrightarrow> bc_disk t ! m = bc_disk r ! m"
    by auto
  have "bc_disk r ! m = bc_disk s ! m" if "m \<notin> log_area s" for m
    unfolding r(3) by (rule apply_writes_other) (use sub log_writes_sel(3) [OF txn] that in blast)
  with t show ?thesis by auto
qed

lemma full_header_spec:
  assumes txn: "txn_ok s"
  shows "hdr_n (full_header s) = lg_n s" "\<And>i. i < nat (lg_n s) \<Longrightarrow> hdr_block (full_header s) i = lg_block s ! i"
    "length (full_header s) = BSIZE"
proof -
  have wf: "bc_wf s" and g: "log_geom s" and n: "0 \<le> lg_n s" "lg_n s < lg_size s"
    using txn by (simp_all add: txn_ok_def)
  have l: "length (bview s (lg_start s)) = BSIZE" using bview_len [OF wf] start_in_area [OF g] by simp
  have m: "lg_n s \<le> int LOGSIZE" using g n by (simp add: log_geom_def)
  note h = hdr_store_spec [OF l n(1) m, where bl = "lg_block s", folded full_header_def]
  show "hdr_n (full_header s) = lg_n s" "length (full_header s) = BSIZE" using h by simp_all
  fix i assume i: "i < nat (lg_n s)"
  have "lg_block s ! i < length (bc_disk s)" "length (bc_disk s) < 2 ^ 31"
    using txn_slots(3) [OF txn i] g by (simp_all add: log_geom_def)
  then show "hdr_block (full_header s) i = lg_block s ! i" using h(3) [OF i] by simp
qed

text \<open>The disk once the header is written: the log holds every new block.\<close>

lemma after_header:
  assumes wf: "log_wf s" and free: "bheld s = Map.empty"
    and d: "d = apply_writes (log_writes s @ (lg_start s, full_header s) # take j (home_writes s)) (bc_disk s)"
  shows "d ! lg_start s = full_header s" "length d = length (bc_disk s)"
    "\<And>i. i < nat (lg_n s) \<Longrightarrow> d ! log_slot s i = bview s (lg_block s ! i)"
    "\<And>m. m \<notin> log_area s \<Longrightarrow> m \<notin> set (homes s) \<Longrightarrow> d ! m = bview s m"
    "\<And>m. m \<notin> log_area s \<Longrightarrow> m \<in> set (homes s) \<Longrightarrow> length (home_writes s) \<le> j \<Longrightarrow> d ! m = bview s m"
proof -
  note txn = log_wf_txn [OF wf free]
  have g: "log_geom s" and w0: "bc_wf s" using wf by (simp_all add: log_wf_def)
  have st: "lg_start s \<in> log_area s" "lg_start s < length (bc_disk s)" using start_in_area [OF g] by auto
  have sub: "fst ` set (take j (home_writes s)) \<subseteq> set (homes s)"
    using set_take_subset [of j "home_writes s"] home_writes_sel(3) [OF txn] by blast
  then have area: "fst ` set (take j (home_writes s)) \<inter> log_area s = {}"
    using home_writes_sel(2,3) [OF txn] by blast
  let ?d1 = "apply_writes (log_writes s) (bc_disk s)"
  have d': "d = apply_writes (take j (home_writes s)) (?d1[lg_start s := full_header s])" by (simp add: d)
  show "length d = length (bc_disk s)" by (simp add: d')
  have "d ! lg_start s = ?d1[lg_start s := full_header s] ! lg_start s"
    unfolding d' by (rule apply_writes_other) (use area st in blast)
  then show "d ! lg_start s = full_header s" using st by simp
  show "d ! log_slot s i = bview s (lg_block s ! i)" if i: "i < nat (lg_n s)" for i
  proof -
    have "d ! log_slot s i = ?d1[lg_start s := full_header s] ! log_slot s i"
      unfolding d' by (rule apply_writes_other) (use area txn_slots(5) [OF txn i] in blast)
    also have "\<dots> = ?d1 ! log_slot s i" by simp
    also have "\<dots> = bview s (lg_block s ! i)"
      by (rule apply_writes_hit [OF log_writes_sel(2) [OF txn]])
        (use i txn_slots(2) [OF txn i] in \<open>simp_all add: log_writes_def\<close>)
    finally show ?thesis .
  qed
  have clean: "bview s m = bc_disk s ! m" if "m \<notin> set (homes s)" for m
    by (rule bview_clean [OF w0]) (use wf free that in \<open>auto simp: log_wf_def\<close>)
  show "d ! m = bview s m" if m: "m \<notin> log_area s" "m \<notin> set (homes s)" for m
  proof -
    have "d ! m = ?d1[lg_start s := full_header s] ! m"
      unfolding d' by (rule apply_writes_other) (use sub m in blast)
    also have "\<dots> = ?d1 ! m" using st m by (metis nth_list_update_neq)
    also have "\<dots> = bc_disk s ! m" by (rule apply_writes_other) (use m log_writes_sel(3) [OF txn] in blast)
    finally show ?thesis using clean m by simp
  qed
  show "d ! m = bview s m" if m: "m \<notin> log_area s" "m \<in> set (homes s)" "length (home_writes s) \<le> j" for m
  proof -
    have "(m, bview s m) \<in> set (home_writes s)" by (rule home_writes_mem [OF txn m(2)])
    moreover have "distinct (map fst (home_writes s))" "m < length (bc_disk s)"
      using home_writes_sel(1) [OF txn] txn m(2) by (auto simp: txn_ok_def)
    ultimately show ?thesis unfolding d' using m(3) by (intro apply_writes_hit) simp_all
  qed
qed

lemma crash_after_header:
  assumes wf: "log_wf s" and free: "bheld s = Map.empty"
    and cr: "crash_boot s (log_writes s @ (lg_start s, full_header s) # take j (home_writes s)) r"
  shows "\<exists>t. recover_from_log r = Ok t \<and> boot_ok t \<and> lg_n t = 0
     \<and> (\<forall>m. m \<notin> log_area s \<longrightarrow> bc_disk t ! m = bview s m)"
proof -
  note txn = log_wf_txn [OF wf free]
  have r: "boot_ok r" "lg_start r = lg_start s" "lg_size r = lg_size s"
    and dr: "bc_disk r = apply_writes (log_writes s @ (lg_start s, full_header s) # take j (home_writes s)) (bc_disk s)"
    using cr by (simp_all add: crash_boot_def)
  note ah = after_header [OF wf free dr]
  note fh = full_header_spec [OF txn]
  have n: "0 \<le> lg_n s" "lg_n s < lg_size s" using txn by (simp_all add: txn_ok_def)
  have blk: "map (hdr_block (full_header s)) [0..<nat (lg_n s)] = homes s"
    using fh(2) homes_map [of s] txn by (auto simp: txn_ok_def intro: trans [OF map_cong])
  have "hdr_ok r (bc_disk r ! lg_start r)"
    unfolding r(2) ah(1) hdr_ok_def fh(1) blk
    using n r(3) fh(2) txn_slots(3,4) [OF txn] txn crash_area [OF cr] by (auto simp: txn_ok_def)
  from recover_spec [OF r(1) this] obtain t where t: "recover_from_log r = Ok t" "boot_ok t" "lg_n t = 0"
    "bc_disk t = apply_writes (recover_writes (lg_start r) (bc_disk r)) (bc_disk r)" by blast
  have rw: "recover_writes (lg_start r) (bc_disk r) = home_writes s @ [(lg_start s, st32 0 0 (full_header s))]"
    unfolding recover_writes_def r(2) ah(1) fh(1) Let_def home_writes_def
    using fh(2) ah(3) by simp
  have st: "lg_start s \<in> log_area s" using start_in_area [of s] txn by (simp add: txn_ok_def)
  have "bc_disk t ! m = bview s m" if m: "m \<notin> log_area s" for m
  proof -
    have "bc_disk t ! m = apply_writes (home_writes s) (bc_disk r) ! m"
      unfolding t(4) rw using st m by (metis apply_writes_simps(1-3) nth_list_update_neq)
    also have "\<dots> = bview s m"
    proof (cases "m \<in> set (homes s)")
      case True
      then have "(m, bview s m) \<in> set (home_writes s)" by (rule home_writes_mem [OF txn])
      moreover have "distinct (map fst (home_writes s))" "m < length (bc_disk r)"
        using home_writes_sel(1) [OF txn] txn True ah(2) by (auto simp: txn_ok_def)
      ultimately show ?thesis by (intro apply_writes_hit)
    next
      case False
      then show ?thesis using ah(4) [OF m False] home_writes_sel(3) [OF txn] by (simp add: apply_writes_other)
    qed
    finally show ?thesis .
  qed
  with t show ?thesis by blast
qed

lemma crash_after_clear:
  assumes wf: "log_wf s" and free: "bheld s = Map.empty" and n: "lg_n s > 0"
    and cr: "crash_boot s (commit_writes s) r"
  shows "\<exists>t. recover_from_log r = Ok t \<and> boot_ok t \<and> lg_n t = 0
     \<and> (\<forall>m. m \<notin> log_area s \<longrightarrow> bc_disk t ! m = bview s m)"
proof -
  note txn = log_wf_txn [OF wf free]
  let ?d = "apply_writes (log_writes s @ (lg_start s, full_header s) # take (length (home_writes s)) (home_writes s)) (bc_disk s)"
  have ah: "?d ! m = bview s m" if m: "m \<notin> log_area s" for m
    using after_header(4,5) [OF wf free refl m, of "length (home_writes s)"] by blast
  have st: "lg_start s \<in> log_area s" "lg_start s < length (bc_disk s)"
    using start_in_area [of s] txn by (auto simp: txn_ok_def)
  have r: "boot_ok r" "lg_start r = lg_start s" "bc_disk r = ?d[lg_start s := st32 0 0 (full_header s)]"
    using cr n by (simp_all add: crash_boot_def commit_writes_def hdr_store_0)
  have "hdr_n (bc_disk r ! lg_start r) = 0"
    unfolding r(2,3) using st st32_0_hdr [OF full_header_spec(3) [OF txn]] by simp
  from recover_empty [OF r(1) this] crash_area [OF cr] obtain t where
    t: "recover_from_log r = Ok t" "boot_ok t" "lg_n t = 0" "\<And>m. m \<notin> log_area s \<Longrightarrow> bc_disk t ! m = bc_disk r ! m"
    by auto
  have "bc_disk r ! m = bview s m" if "m \<notin> log_area s" for m
  proof -
    have "bc_disk r ! m = ?d ! m" unfolding r(3) using st that by (metis nth_list_update_neq)
    then show ?thesis using ah [OF that] by simp
  qed
  with t show ?thesis by auto
qed

lemma length_home_writes: "length (log_writes s) = nat (lg_n s)" "length (home_writes s) = nat (lg_n s)"
  by (simp_all add: log_writes_def home_writes_def)

lemma take_commit_writes:
  assumes "lg_n s > 0"
  shows "take k (commit_writes s) =
    (if k \<le> nat (lg_n s) then take k (log_writes s)
     else if k \<le> 2 * nat (lg_n s) + 1
       then log_writes s @ (lg_start s, full_header s) # take (k - nat (lg_n s) - 1) (home_writes s)
     else commit_writes s)"
proof -
  have "length (commit_writes s) = 2 * nat (lg_n s) + 2"
    using assms by (simp add: commit_writes_def length_home_writes)
  then show ?thesis
    using assms by (auto simp: commit_writes_def length_home_writes take_Cons')
qed

lemma commit_crash_helper:
  assumes wf: "log_wf s" and free: "bheld s = Map.empty" and cr: "crash_boot s (take k (commit_writes s)) r"
  shows "\<exists>t. recover_from_log r = Ok t \<and> boot_ok t \<and> lg_n t = 0
     \<and> (\<forall>m. m \<notin> log_area s \<longrightarrow> bc_disk t ! m = (if k \<le> nat (lg_n s) then bc_disk s ! m else bview s m))"
proof (cases "lg_n s > 0")
  case False
  then have e: "commit_writes s = []" "homes s = []" by (simp_all add: commit_writes_def homes_def)
  have "bview s m = bc_disk s ! m" for m
    by (rule bview_clean) (use wf free e(2) in \<open>auto simp: log_wf_def\<close>)
  moreover have "log_writes s = []" using False by (simp add: log_writes_def)
  ultimately show ?thesis using crash_before_commit [OF wf free, of k r] cr e(1) by simp
next
  case True
  show ?thesis
    using cr crash_before_commit [OF wf free] crash_after_header [OF wf free] crash_after_clear [OF wf free True]
    unfolding take_commit_writes [OF True] by (auto split: if_splits)
qed

text \<open>
  C1. A transaction is atomic. \<^verbatim>\<open>commit\<close>, run when no call is using a buffer, returns after a
  fixed sequence of block writes. Suppose that the machine stops after any number \<open>k\<close> of them
  and boots again. Then \<^verbatim>\<open>recover_from_log\<close> succeeds, leaves an empty log, and every block
  outside the log has either its contents from before the transaction, when the header block
  had not been written yet (\<open>k \<le> n\<close>), or the contents the transaction gave it, for all
  blocks at once.
\<close>

theorem commit_crash_atomic:
  assumes "log_wf s" and "bheld s = Map.empty"
  shows "\<exists>s' ws. commit s = Ok s' \<and> bc_trace s' = bc_trace s @ ws \<and> bc_disk s' = apply_writes ws (bc_disk s)
     \<and> (\<forall>k r. crash_boot s (take k ws) r \<longrightarrow>
          (\<exists>t. recover_from_log r = Ok t \<and> lg_n t = 0
             \<and> (\<forall>m. m \<notin> log_area s \<longrightarrow>
                  bc_disk t ! m = (if k \<le> nat (lg_n s) then bc_disk s ! m else bview s m))))"
  using commit_spec [OF assms] commit_crash_helper [OF assms] by metis

section \<open>Recovery can be interrupted\<close>

lemma st32_idem: "off + 4 \<le> length d \<Longrightarrow> st32 off v (st32 off v d) = st32 off v d"
  by (simp add: st32_def patch_def)

lemma recover_writes_sel:
  assumes ok: "hdr_ok s (bc_disk s ! lg_start s)" and g: "log_geom s"
    and ws: "ws = recover_writes (lg_start s) (bc_disk s)"
  shows "distinct (map fst ws)" "\<And>m. m \<in> fst ` set ws \<Longrightarrow> m < length (bc_disk s)"
    "\<And>w. w \<in> set (butlast ws) \<Longrightarrow> fst w \<notin> log_area s"
    "ws = butlast ws @ [(lg_start s, st32 0 0 (bc_disk s ! lg_start s))]"
    "length ws = nat (hdr_n (bc_disk s ! lg_start s)) + 1"
proof -
  let ?d = "bc_disk s ! lg_start s"
  let ?I = "map (\<lambda>i. (hdr_block ?d i, bc_disk s ! log_slot s i)) [0..<nat (hdr_n ?d)]"
  have w: "ws = ?I @ [(lg_start s, st32 0 0 ?d)]" by (simp add: ws recover_writes_def Let_def)
  have bl: "butlast ws = ?I" by (simp add: w)
  note st = start_in_area [OF g]
  show "ws = butlast ws @ [(lg_start s, st32 0 0 ?d)]" unfolding bl by (rule w)
  show "length ws = nat (hdr_n ?d) + 1" by (simp add: w)
  show "fst w' \<notin> log_area s" if "w' \<in> set (butlast ws)" for w'
    using that ok unfolding bl by (auto simp: hdr_ok_def)
  have "map fst ws = map (hdr_block ?d) [0..<nat (hdr_n ?d)] @ [lg_start s]" by (simp add: w)
  moreover have "lg_start s \<notin> set (map (hdr_block ?d) [0..<nat (hdr_n ?d)])"
    using ok st by (auto simp: hdr_ok_def)
  ultimately show "distinct (map fst ws)" using ok by (simp add: hdr_ok_def)
  show "m < length (bc_disk s)" if "m \<in> fst ` set ws" for m
    using that ok st by (auto simp: w hdr_ok_def)
qed

lemma apply_writes_again:
  assumes "distinct (map fst ws)" and "\<And>m. m \<in> fst ` set ws \<Longrightarrow> m < length d"
  shows "apply_writes ws (apply_writes (take k ws) d) = apply_writes ws d"
proof (rule nth_equalityI)
  fix m assume "m < length (apply_writes ws (apply_writes (take k ws) d))"
  show "apply_writes ws (apply_writes (take k ws) d) ! m = apply_writes ws d ! m"
  proof (cases "m \<in> fst ` set ws")
    case True
    then obtain b where "(m, b) \<in> set ws" by auto
    then show ?thesis using apply_writes_hit [OF assms(1)] assms(2) [OF True] by simp
  next
    case False
    moreover have "m \<notin> fst ` set (take k ws)" using False set_take_subset [of k ws] by blast
    ultimately show ?thesis by (simp add: apply_writes_other)
  qed
qed simp

text \<open>The disk after recovery: every block the header names has its copy from the log, the header is empty, and all else is as before.\<close>

definition installed :: "nat \<Rightarrow> block list \<Rightarrow> block list \<Rightarrow> bool" where
  "installed st d d' \<longleftrightarrow> (let h = d ! st in
     (\<forall>i < nat (hdr_n h). d' ! hdr_block h i = d ! (st + i + 1)) \<and> hdr_n (d' ! st) = 0
     \<and> (\<forall>m. m \<noteq> st \<and> m \<notin> hdr_block h ` {..<nat (hdr_n h)} \<longrightarrow> d' ! m = d ! m))"

lemma recover_installs:
  assumes "hdr_ok s (bc_disk s ! lg_start s)" "log_geom s" "bc_wf s"
  shows "installed (lg_start s) (bc_disk s) (apply_writes (recover_writes (lg_start s) (bc_disk s)) (bc_disk s))"
proof -
  let ?h = "bc_disk s ! lg_start s" and ?ws = "recover_writes (lg_start s) (bc_disk s)"
  note sel = recover_writes_sel [OF assms(1,2) refl]
  note hit = apply_writes_hit [OF sel(1) _ sel(2)]
  have set: "set ?ws = (\<lambda>i. (hdr_block ?h i, bc_disk s ! (lg_start s + i + 1))) ` {..<nat (hdr_n ?h)} \<union> {(lg_start s, st32 0 0 ?h)}"
    by (auto simp: recover_writes_def Let_def)
  have "apply_writes ?ws (bc_disk s) ! hdr_block ?h i = bc_disk s ! (lg_start s + i + 1)" if "i < nat (hdr_n ?h)" for i
    by (rule hit) (use that in \<open>force simp: set\<close>)+
  moreover have "apply_writes ?ws (bc_disk s) ! lg_start s = st32 0 0 ?h" by (rule hit) (force simp: set)+
  moreover have "hdr_n (st32 0 0 ?h) = 0"
    using assms(3) start_in_area [OF assms(2)] by (intro st32_0_hdr) (simp add: bc_wf_def)
  moreover have "apply_writes ?ws (bc_disk s) ! m = bc_disk s ! m"
    if "m \<noteq> lg_start s" "m \<notin> hdr_block ?h ` {..<nat (hdr_n ?h)}" for m
    by (rule apply_writes_other) (use that in \<open>auto simp: set\<close>)
  ultimately show ?thesis by (simp add: installed_def Let_def)
qed

text \<open>
  C2. Recovery installs a committed transaction: every block that the header on the disk names gets its copy from the log, no other block but the
  header changes, and the header is empty afterwards. It may itself be interrupted: if the machine stops after any number of the writes
  of \<^verbatim>\<open>recover_from_log\<close> and recovery runs again, the disk ends up exactly as one uninterrupted
  recovery leaves it.
\<close>

theorem recovery_restartable:
  assumes boot: "boot_ok s" and ok: "hdr_ok s (bc_disk s ! lg_start s)"
  shows "\<exists>t ws. recover_from_log s = Ok t \<and> bc_trace t = bc_trace s @ ws
     \<and> installed (lg_start s) (bc_disk s) (bc_disk t)
     \<and> (\<forall>k r. crash_boot s (take k ws) r \<longrightarrow>
          (\<exists>t'. recover_from_log r = Ok t' \<and> bc_disk t' = bc_disk t \<and> lg_n t' = 0))"
proof -
  define ws where "ws = recover_writes (lg_start s) (bc_disk s)"
  let ?d = "bc_disk s ! lg_start s"
  have g: "log_geom s" and w0: "bc_wf s" using boot by (simp_all add: boot_ok_def)
  note st = start_in_area [OF g]
  note sel = recover_writes_sel [OF ok g ws_def]
  from recover_spec [OF boot ok] obtain t where t: "recover_from_log s = Ok t" "bc_trace t = bc_trace s @ ws"
    "bc_disk t = apply_writes ws (bc_disk s)" unfolding ws_def by blast
  have len: "length ?d = BSIZE" using w0 st by (simp add: bc_wf_def)
  have "\<exists>t'. recover_from_log r = Ok t' \<and> bc_disk t' = bc_disk t \<and> lg_n t' = 0"
    if cr: "crash_boot s (take k ws) r" for k and r :: "'b logst_scheme"
  proof -
    have r: "boot_ok r" "lg_start r = lg_start s" "lg_size r = lg_size s"
      "bc_disk r = apply_writes (take k ws) (bc_disk s)" using cr by (simp_all add: crash_boot_def)
    show ?thesis
    proof (cases "k < length ws")
      case True
      then have tk: "take k ws = take k (butlast ws)" by (metis butlast_snoc sel(4) take_butlast)
      have keep: "bc_disk r ! m = bc_disk s ! m" if "m \<in> log_area s" for m
        unfolding r(4) tk using sel(3) that set_take_subset [of k "butlast ws"]
        by (intro apply_writes_other) auto
      have hd: "bc_disk r ! lg_start r = ?d" using keep st r(2) by simp
      have okr: "hdr_ok r (bc_disk r ! lg_start r)"
        unfolding hd using ok crash_area [OF cr] r(3) by (simp add: hdr_ok_def)
      have "bc_disk r ! log_slot s i = bc_disk s ! log_slot s i" if "i < nat (hdr_n ?d)" for i
        using keep that ok by (auto simp: hdr_ok_def log_area_def)
      then have "recover_writes (lg_start r) (bc_disk r) = ws"
        unfolding recover_writes_def hd r(2) by (simp add: ws_def recover_writes_def Let_def hd [unfolded r(2)])
      with recover_spec [OF r(1) okr] obtain t' where t': "recover_from_log r = Ok t'" "lg_n t' = 0"
        "bc_disk t' = apply_writes ws (bc_disk r)" by auto
      then show ?thesis using apply_writes_again [OF sel(1,2)] t(3) r(4) by auto
    next
      case False
      then have "take k ws = ws" by simp
      then have dr: "bc_disk r = (apply_writes (butlast ws) (bc_disk s))[lg_start s := st32 0 0 ?d]"
        using r(4) sel(4) by (metis apply_writes_simps(1-3))
      have hd: "bc_disk r ! lg_start r = st32 0 0 ?d" using dr st r(2) by simp
      have n0: "hdr_n (st32 0 0 ?d) = 0" by (rule st32_0_hdr [OF len])
      have okr: "hdr_ok r (bc_disk r ! lg_start r)"
        unfolding hd using n0 g r(3) by (simp add: hdr_ok_def log_geom_def)
      have "recover_writes (lg_start r) (bc_disk r) = [(lg_start s, st32 0 0 ?d)]"
        unfolding recover_writes_def hd n0 using r(2) len by (simp add: Let_def hd n0 st32_idem BSIZE_def)
      with recover_spec [OF r(1) okr] obtain t' where t': "recover_from_log r = Ok t'" "lg_n t' = 0"
        "bc_disk t' = (bc_disk r)[lg_start s := st32 0 0 ?d]" by auto
      then show ?thesis using dr t(3) r(4) \<open>take k ws = ws\<close> by simp
    qed
  qed
  moreover have "installed (lg_start s) (bc_disk s) (bc_disk t)" using recover_installs [OF ok g w0] t(3) by (simp add: ws_def)
  ultimately show ?thesis using t(1,2) by blast
qed

section \<open>Calls of a transaction\<close>

text \<open>The log as seen by a file-system call between \<^verbatim>\<open>begin_op\<close> and \<^verbatim>\<open>end_op\<close>.\<close>

definition in_txn :: "'z logst_scheme \<Rightarrow> bool" where
  "in_txn s \<longleftrightarrow> log_wf s \<and> 1 \<le> lg_outstanding s \<and> \<not> lg_committing s"

lemma log_write_ok:
  assumes txn: "in_txn s" and h: "bheld s b = Some m" and cap: "lg_n s < lg_size s - 1"
  shows "\<exists>t. log_write b s = Ok t \<and> in_txn t \<and> bheld t = bheld s \<and> bview t = bview s \<and> bc_disk t = bc_disk s
     \<and> bc_trace t = bc_trace s \<and> bdirty t = insert m (bdirty s) \<and> bavail t = bavail s
     \<and> set (homes t) = insert m (set (homes s)) \<and> bc_pid t = bc_pid s
     \<and> lg_n t = lg_n s + (if m \<in> set (homes s) then 0 else 1)
     \<and> lg_size t = lg_size s \<and> lg_start t = lg_start s \<and> lg_outstanding t = lg_outstanding s
     \<and> logst.more t = logst.more s"
proof -
  have wf: "log_wf s" and w0: "bc_wf s" and g: "log_geom s" and n: "0 \<le> lg_n s" "lg_n s < lg_size s"
    and dr: "bdirty s = set (homes s)" and ds: "distinct (homes s)"
    using txn by (auto simp: in_txn_def log_wf_def)
  have len: "length (homes s) = nat (lg_n s)" "length (lg_block s) = LOGSIZE" "nat (lg_n s) < LOGSIZE"
    using g n by (auto simp: homes_def log_geom_def)
  note hd = bheldD [OF w0 h]
  have m: "m \<notin> log_area s" "m < length (bc_disk s)" using wf h hd(7) by (auto simp: log_wf_def ran_def)
  define i where "i = (case first_idx (\<lambda>x. x = m) (homes s) of Some i \<Rightarrow> i | None \<Rightarrow> nat (lg_n s))"
  define u where "u = s\<lparr>lg_block := (lg_block s)[i := m],
      lg_n := (if int i = lg_n s then lg_n s + 1 else lg_n s)\<rparr>"
  have run: "log_write b s = Ok (pin_buf b u)"
    using txn cap len(3) hd(5) by (auto simp: log_write_def Let_def in_txn_def homes_def i_def u_def)
  have hom: "distinct (homes u) \<and> set (homes u) = insert m (set (homes s))
      \<and> lg_n u = lg_n s + (if m \<in> set (homes s) then 0 else 1)"
  proof (cases "first_idx (\<lambda>x. x = m) (homes s)")
    case None
    then have nm: "m \<notin> set (homes s)" by (auto simp: first_idx_None)
    have "i = nat (lg_n s)" using None by (simp add: i_def)
    moreover have "take (Suc (nat (lg_n s))) ((lg_block s)[nat (lg_n s) := m]) = homes s @ [m]"
      using len by (simp add: take_Suc_conv_app_nth homes_def)
    ultimately show ?thesis using nm ds n by (simp add: homes_def u_def nat_add_distrib)
  next
    case (Some j)
    have ij: "i = j" using Some by (simp add: i_def)
    from Some have j: "j < nat (lg_n s)" "homes s ! j = m" using len by (auto simp: first_idx_Some)
    note j = j ij
    then have "(lg_block s)[i := m] = lg_block s" by (auto simp: homes_def list_update_id)
    moreover have "m \<in> set (homes s)" using j len by (metis nth_mem)
    ultimately show ?thesis using ds j by (auto simp: homes_def u_def)
  qed
  have cu: "bc_wf u" "bheld u = bheld s" "bview u = bview s" "bdirty u = bdirty s" "bavail u = bavail s"
    "bc_disk u = bc_disk s" "bc_trace u = bc_trace s"
    using w0 by (simp_all add: u_def)
  have "bheld u b = Some m" using cu h by simp
  note pin = pin_spec [OF cu(1) this]
  have sel: "bc_disk (pin_buf b u) = bc_disk s" "bc_trace (pin_buf b u) = bc_trace s" "bc_pid (pin_buf b u) = bc_pid s"
    "bcache.more (pin_buf b u) = bcache.more u"
    by (simp_all add: pin_buf_def u_def)
  note lg = logst_more [OF sel(4)]
  have fl: "lg_start (pin_buf b u) = lg_start s" "lg_size (pin_buf b u) = lg_size s" "lg_dev (pin_buf b u) = lg_dev s"
    "lg_outstanding (pin_buf b u) = lg_outstanding s" "lg_committing (pin_buf b u) = lg_committing s"
    "length (lg_block (pin_buf b u)) = LOGSIZE" "homes (pin_buf b u) = homes u" "logst.more (pin_buf b u) = logst.more s"
    using lg len(2) by (simp_all add: u_def homes_def)
  have "log_wf (pin_buf b u)"
    using wf pin sel fl hom m lg(6) cu cap dr n unfolding log_wf_def log_geom_def log_area_def
    by (auto split: if_splits)
  then show ?thesis using run pin sel fl hom cu txn lg(6) by (auto simp: in_txn_def)
qed

section \<open>The interface of the file system\<close>

text \<open>
  What file-system calls may rely on inside a transaction: the laws of the buffer cache,
  and that a held block can be logged as long as the log has a slot left. \<open>area\<close> are the blocks
  of the log itself, which no client touches.
\<close>

locale logged_cache = buffer_cache rd wr rel put pin wf view disk trace dirty held avail data rest
  for rd :: "nat \<Rightarrow> 's \<Rightarrow> (nat \<times> 's) res"
    and wr :: "nat \<Rightarrow> 's \<Rightarrow> 's res"
    and rel :: "nat \<Rightarrow> 's \<Rightarrow> 's res"
    and put :: "nat \<Rightarrow> block \<Rightarrow> 's \<Rightarrow> 's"
    and pin :: "nat \<Rightarrow> 's \<Rightarrow> 's"
    and wf :: "'s \<Rightarrow> bool"
    and view :: "'s \<Rightarrow> nat \<Rightarrow> block"
    and disk :: "'s \<Rightarrow> block list"
    and trace :: "'s \<Rightarrow> (nat \<times> block) list"
    and dirty :: "'s \<Rightarrow> nat set"
    and held :: "'s \<Rightarrow> nat \<Rightarrow> nat option"
    and avail :: "'s \<Rightarrow> nat"
    and data :: "'s \<Rightarrow> nat \<Rightarrow> block"
    and rest :: "'s \<Rightarrow> 'r" +
  fixes lw :: "nat \<Rightarrow> 's \<Rightarrow> 's res"
    and txn :: "'s \<Rightarrow> bool"
    and left :: "'s \<Rightarrow> nat"
    and area :: "'s \<Rightarrow> nat set"
    and frest :: "'s \<Rightarrow> 'f"
  assumes txn_wf: "txn s \<Longrightarrow> wf s"
    and txn_held: "txn s \<Longrightarrow> ran (held s) \<inter> area s = {}"
    and txn_keep: "txn s \<Longrightarrow> wf t \<Longrightarrow> rest t = rest s \<Longrightarrow> dirty t = dirty s \<Longrightarrow> disk t = disk s \<Longrightarrow>
      ran (held t) \<inter> area s = {} \<Longrightarrow> txn t \<and> left t = left s \<and> area t = area s \<and> frest t = frest s"
    and lw_ok: "txn s \<Longrightarrow> held s i = Some n \<Longrightarrow> 0 < left s \<Longrightarrow>
      \<exists>t. lw i s = Ok t \<and> txn t \<and> held t = held s \<and> view t = view s \<and> disk t = disk s \<and> trace t = trace s
        \<and> dirty t = insert n (dirty s) \<and> avail t = avail s \<and> left t + (if n \<in> dirty s then 0 else 1) = left s
        \<and> area t = area s \<and> frest t = frest s"
begin

text \<open>The state after blocks have been read or logged: what a call may have changed.\<close>

definition after :: "(nat \<times> block) list \<Rightarrow> 's \<Rightarrow> 's \<Rightarrow> bool" where
  "after ws s t \<longleftrightarrow> txn t \<and> held t = held s \<and> view t = upd_all ws (view s) \<and> disk t = disk s \<and> trace t = trace s
     \<and> dirty s \<subseteq> dirty t \<and> avail s \<le> avail t + length ws \<and> left s \<le> left t + length ws
     \<and> area t = area s \<and> frest t = frest s"

lemma after_refl: "txn s \<Longrightarrow> after [] s s"
  by (simp add: after_def)

lemma after_trans: "after us s t \<Longrightarrow> after vs t u \<Longrightarrow> after (us @ vs) s u"
  by (auto simp: after_def)

text \<open>Reading one block inside a transaction.\<close>

lemma txn_read:
  assumes txn: "txn s" and n: "n < length (disk s)" "n \<notin> area s" "n \<notin> ran (held s)" and room: "n \<in> dirty s \<or> 0 < avail s"
  shows "\<exists>i s1 s2. rd n s = Ok (i, s1) \<and> data s1 i = view s n \<and> rest s1 = rest s \<and> rel i s1 = Ok s2
     \<and> after [] s s2 \<and> rest s2 = rest s \<and> avail s2 = avail s \<and> dirty s2 = dirty s \<and> left s2 = left s"
proof -
  from read_block [OF txn_wf [OF txn] n(1,3) room] obtain i s1 s2 where r: "rd n s = Ok (i, s1)"
    "data s1 i = view s n" "rel i s1 = Ok s2" "wf s2" "held s2 = held s" "view s2 = view s" "disk s2 = disk s"
    "trace s2 = trace s" "dirty s2 = dirty s" "avail s2 = avail s" "rest s1 = rest s" "rest s2 = rest s" by blast
  have "ran (held s2) \<inter> area s = {}" using txn_held [OF txn] r(5) by simp
  from txn_keep [OF txn r(4,12,9,7) this] r show ?thesis by (auto simp: after_def)
qed

text \<open>A block taken for later use, and a held block modified, logged and given bk.\<close>

lemma txn_take:
  assumes txn: "txn s" and n: "n < length (disk s)" "n \<notin> area s" "n \<notin> ran (held s)" and room: "n \<in> dirty s \<or> 0 < avail s"
  shows "\<exists>i s1. rd n s = Ok (i, s1) \<and> txn s1 \<and> held s i = None \<and> held s1 = (held s)(i \<mapsto> n) \<and> data s1 i = view s n
     \<and> view s1 = view s \<and> disk s1 = disk s \<and> trace s1 = trace s \<and> dirty s1 = dirty s \<and> rest s1 = rest s
     \<and> avail s = avail s1 + (if n \<in> dirty s then 0 else 1) \<and> left s1 = left s \<and> area s1 = area s \<and> frest s1 = frest s"
proof -
  obtain i s1 where r: "rd n s = Ok (i, s1)" "wf s1" "held s i = None" "held s1 = (held s)(i \<mapsto> n)"
    "view s1 = view s" "disk s1 = disk s" "trace s1 = trace s" "dirty s1 = dirty s" "rest s1 = rest s"
    "avail s = avail s1 + (if n \<in> dirty s then 0 else 1)"
    using rd_ok [OF txn_wf [OF txn] n(1,3) room] by blast
  have "ran (held s1) \<inter> area s = {}" using txn_held [OF txn] n(2) r(3,4) by (auto simp: ran_def)
  from txn_keep [OF txn r(2,9,8,6) this] data_held [OF r(2), of i n] r show ?thesis by simp
qed

lemma log_held:
  assumes txn: "txn s" and h: "held s i = Some n" and left: "0 < left s" and len: "length d = BSIZE"
  shows "\<exists>s2 s3. lw i (put i d s) = Ok s2 \<and> frest s2 = frest s \<and> rel i s2 = Ok s3 \<and> txn s3
     \<and> held s3 = (held s)(i := None) \<and> view s3 = (view s)(n := d) \<and> disk s3 = disk s \<and> trace s3 = trace s
     \<and> dirty s3 = insert n (dirty s) \<and> avail s3 = avail s
     \<and> left s3 + (if n \<in> dirty s then 0 else 1) = left s \<and> area s3 = area s \<and> frest s3 = frest s"
proof -
  define p where "p = put i d s"
  have p: "wf p" "held p = held s" "view p = (view s)(n := d)" "disk p = disk s" "trace p = trace s"
    "dirty p = dirty s" "avail p = avail s" "rest p = rest s"
    using put_ok [OF txn_wf [OF txn] h len] by (auto simp: p_def)
  have area1: "ran (held p) \<inter> area s = {}" using txn_held [OF txn] p(2) by simp
  from txn_keep [OF txn p(1,8,6,4) area1] have q: "txn p" "left p = left s" "area p = area s" "frest p = frest s"
    by auto
  have hp: "held p i = Some n" "0 < left p" using p(2) h q(2) left by simp_all
  from lw_ok [OF q(1) hp] obtain s2 where w: "lw i p = Ok s2" "txn s2" "held s2 = held s"
    "view s2 = (view s)(n := d)" "disk s2 = disk s" "trace s2 = trace s" "dirty s2 = insert n (dirty s)"
    "avail s2 = avail s" "left s2 + (if n \<in> dirty s then 0 else 1) = left s" "area s2 = area s" "frest s2 = frest s"
    using p q by auto
  have h2: "held s2 i = Some n" "n \<in> dirty s2" using w h by simp_all
  from rel_ok [OF txn_wf [OF w(2)] h2(1)] h2(2) obtain s3 where t: "rel i s2 = Ok s3" "wf s3"
    "held s3 = (held s2)(i := None)" "view s3 = view s2" "disk s3 = disk s2" "trace s3 = trace s2"
    "dirty s3 = dirty s2" "avail s3 = avail s2" "rest s3 = rest s2"
    by auto
  have "ran (held s3) \<subseteq> ran (held s)" using t(3) w(3) by (auto simp: ran_def split: if_splits)
  then have "ran (held s3) \<inter> area s2 = {}" using txn_held [OF txn] w(10) by auto
  from txn_keep [OF w(2) t(2,9,7,5) this] have "txn s3" "left s3 = left s2" "area s3 = area s" "frest s3 = frest s"
    using w by auto
  then show ?thesis using t w by (auto simp: p_def)
qed

text \<open>Reading one block, modifying it and logging it.\<close>

lemma log_block:
  assumes txn: "txn s" and n: "n < length (disk s)" "n \<notin> area s" "n \<notin> ran (held s)"
    and room: "n \<in> dirty s \<or> 0 < avail s" and left: "0 < left s"
  shows "\<exists>i s1. rd n s = Ok (i, s1) \<and> data s1 i = view s n \<and> rest s1 = rest s
     \<and> (\<forall>d. length d = BSIZE \<longrightarrow>
          (\<exists>s2 s3. lw i (put i d s1) = Ok s2 \<and> frest s2 = frest s \<and> rel i s2 = Ok s3 \<and> after [(n, d)] s s3
             \<and> dirty s3 = insert n (dirty s)))"
proof -
  from txn_take [OF assms(1-5)] obtain i s1 where r: "rd n s = Ok (i, s1)" "txn s1" "held s i = None"
    "held s1 = (held s)(i \<mapsto> n)" "data s1 i = view s n" "view s1 = view s" "disk s1 = disk s" "trace s1 = trace s"
    "dirty s1 = dirty s" "rest s1 = rest s" "avail s = avail s1 + (if n \<in> dirty s then 0 else 1)"
    "left s1 = left s" "area s1 = area s" "frest s1 = frest s" by blast
  have h: "held s1 i = Some n" "0 < left s1" using r left by simp_all
  have bk: "(held s1)(i := None) = held s" using r(3,4) by (simp add: fun_upd_idem)
  have "\<exists>s2 s3. lw i (put i d s1) = Ok s2 \<and> frest s2 = frest s \<and> rel i s2 = Ok s3 \<and> after [(n, d)] s s3
       \<and> dirty s3 = insert n (dirty s)" if "length d = BSIZE" for d
    using log_held [OF r(2) h that] r(6-14) unfolding bk [folded r(4)] after_def
    by (auto split: if_splits)
  then show ?thesis using r(1,5,10) by auto
qed

end

definition log_left :: "'z logst_scheme \<Rightarrow> nat" where
  "log_left s = nat (lg_size s - 1 - lg_n s)"

text \<open>The part of the state that belongs to neither the cache nor the header in memory.\<close>

definition log_frame :: "'z logst_scheme \<Rightarrow> nat \<times> nat \<times> int \<times> nat \<times> int \<times> 'z" where
  "log_frame s = (bc_pid s, lg_start s, lg_size s, lg_dev s, lg_outstanding s, logst.more s)"

lemma in_txn_keep:
  assumes "in_txn s" and "bc_wf t" and r: "bcache.more t = bcache.more s" and "bdirty t = bdirty s"
    and "bc_disk t = bc_disk s" and "ran (bheld t) \<inter> log_area s = {}"
  shows "in_txn t" "log_left t = log_left s" "log_area t = log_area s"
  using assms logst_more [OF r]
  by (simp_all add: in_txn_def log_wf_def log_geom_def homes_def log_area_def log_left_def)

lemma log_write_left:
  assumes "in_txn s" and h: "bheld s i = Some n" and "0 < log_left s"
  shows "\<exists>t. log_write i s = Ok t \<and> in_txn t \<and> bheld t = bheld s \<and> bview t = bview s \<and> bc_disk t = bc_disk s
     \<and> bc_trace t = bc_trace s \<and> bdirty t = insert n (bdirty s) \<and> bavail t = bavail s
     \<and> log_left t + (if n \<in> bdirty s then 0 else 1) = log_left s \<and> log_area t = log_area s
     \<and> log_frame t = log_frame s"
proof -
  have cap: "lg_n s < lg_size s - 1" using assms(3) by (simp add: log_left_def)
  have d: "bdirty s = set (homes s)" "lg_dev s = ROOTDEV" using assms(1) by (simp_all add: in_txn_def log_wf_def log_geom_def)
  from log_write_ok [OF assms(1) h cap] obtain t where t: "log_write i s = Ok t" "in_txn t" "bheld t = bheld s"
    "bview t = bview s" "bc_disk t = bc_disk s" "bc_trace t = bc_trace s" "bdirty t = insert n (bdirty s)"
    "bavail t = bavail s" "lg_n t = lg_n s + (if n \<in> set (homes s) then 0 else 1)" "lg_size t = lg_size s"
    "lg_start t = lg_start s" "lg_outstanding t = lg_outstanding s" "logst.more t = logst.more s" "bc_pid t = bc_pid s"
    by blast
  have "lg_dev t = ROOTDEV" using t(2) by (simp add: in_txn_def log_wf_def log_geom_def)
  then have "log_left t + (if n \<in> bdirty s then 0 else 1) = log_left s" "log_area t = log_area s" "log_frame t = log_frame s"
    using t(9-14) cap d by (auto simp: log_left_def log_area_def log_frame_def)
  with t show ?thesis by simp
qed

interpretation lc: logged_cache "bread ROOTDEV" bwrite brelse set_data pin_buf bc_wf bview bc_disk bc_trace
  bdirty bheld bavail bdata "\<lambda>s :: 'z logst_scheme. (bc_pid s, bcache.more s)" log_write in_txn log_left log_area log_frame
proof (unfold_locales, goal_cases)
  case (1 s)
  then show ?case by (simp add: in_txn_def log_wf_def)
next
  case (2 s)
  then show ?case by (simp add: in_txn_def log_wf_def)
next
  case (3 s t)
  then have "bcache.more t = bcache.more s" "bc_pid t = bc_pid s" by simp_all
  with 3 in_txn_keep [of s t] logst_more [of t s] show ?case by (simp add: log_frame_def)
next
  case (4 s i n)
  then show ?case by (rule log_write_left)
qed

section \<open>Beginning and ending a call\<close>

lemma commit_disk:
  assumes wf: "log_wf s" and free: "bheld s = Map.empty"
  shows "m \<notin> log_area s \<Longrightarrow> apply_writes (commit_writes s) (bc_disk s) ! m = bview s m"
    and "hdr_n (apply_writes (commit_writes s) (bc_disk s) ! lg_start s) = 0"
proof -
  note txn = log_wf_txn [OF wf free]
  have st: "lg_start s \<in> log_area s" "lg_start s < length (bc_disk s)"
    using start_in_area [of s] txn by (auto simp: txn_ok_def)
  let ?d = "apply_writes (log_writes s @ (lg_start s, full_header s) # take (length (home_writes s)) (home_writes s)) (bc_disk s)"
  have cw: "apply_writes (commit_writes s) (bc_disk s) = ?d[lg_start s := st32 0 0 (full_header s)]" if "lg_n s > 0"
    using that by (simp add: commit_writes_def hdr_store_0)
  show "apply_writes (commit_writes s) (bc_disk s) ! m = bview s m" if m: "m \<notin> log_area s"
  proof (cases "lg_n s > 0")
    case True
    have "?d ! m = bview s m"
      using after_header(4,5) [OF wf free refl m, of "length (home_writes s)"] by blast
    then show ?thesis unfolding cw [OF True] using st m by (metis nth_list_update_neq)
  next
    case False
    then have "homes s = []" by (simp add: homes_def)
    then have "bview s m = bc_disk s ! m" by (intro bview_clean) (use wf free in \<open>auto simp: log_wf_def\<close>)
    then show ?thesis using False by (simp add: commit_writes_def)
  qed
  show "hdr_n (apply_writes (commit_writes s) (bc_disk s) ! lg_start s) = 0"
  proof (cases "lg_n s > 0")
    case True
    then show ?thesis using cw st st32_0_hdr [OF full_header_spec(3) [OF txn]] by simp
  next
    case False
    then show ?thesis using wf by (simp add: commit_writes_def log_wf_def)
  qed
qed

lemma end_op_last:
  assumes txn: "in_txn s" and free: "bheld s = Map.empty" and last: "lg_outstanding s = 1"
  shows "\<exists>t. end_op s = Ok t \<and> log_wf t \<and> bheld t = Map.empty \<and> lg_n t = 0 \<and> lg_outstanding t = 0
     \<and> \<not> lg_committing t \<and> bdirty t = {} \<and> log_area t = log_area s
     \<and> (\<forall>m. m \<notin> log_area s \<longrightarrow> bc_disk t ! m = bview s m \<and> bview t m = bview s m)
     \<and> bc_pid t = bc_pid s \<and> logst.more t = logst.more s"
proof -
  define u where "u = s\<lparr>lg_outstanding := 0, lg_committing := True\<rparr>"
  have area: "log_area u = log_area s" "bview u = bview s" by (simp_all add: u_def log_area_def)
  have wf: "log_wf u" and fr: "bheld u = Map.empty"
    using txn free by (simp_all add: u_def in_txn_def log_wf_def log_geom_def homes_def log_area_def)
  from commit_spec [OF wf fr] obtain v where v: "commit u = Ok v" "bc_wf v" "bheld v = Map.empty" "bdirty v = {}"
    "bc_disk v = apply_writes (commit_writes u) (bc_disk u)" "bcache.more v = bcache.more (u\<lparr>lg_n := 0\<rparr>)"
    "bc_pid v = bc_pid u" by blast
  note lg = logst_more [OF v(6)]
  define t where "t = v\<lparr>lg_committing := False\<rparr>"
  have run: "end_op s = Ok t"
    using v(1) last txn by (simp add: end_op_def Let_def u_def t_def in_txn_def)
  have geo: "log_geom t" "lg_n t = 0" "log_area t = log_area s" "lg_start t = lg_start u" "lg_size t = lg_size u"
    using wf lg v(5) by (simp_all add: t_def log_wf_def log_geom_def log_area_def u_def)
  have h0: "homes t = []" "0 < lg_size t" using geo by (simp_all add: homes_def log_geom_def)
  have hdr: "hdr_n (bc_disk t ! lg_start t) = 0" using commit_disk(2) [OF wf fr] v(5) geo(4) by (simp add: t_def)
  have "log_wf t" unfolding log_wf_def h0(1) geo(2) using v h0(2) geo(1) hdr by (simp add: t_def)
  moreover have d: "bc_disk t ! m = bview s m" if "m \<notin> log_area s" for m
    using commit_disk(1) [OF wf fr, of m] that v(5) area by (simp add: t_def)
  moreover have "bview t m = bc_disk t ! m" for m
    by (rule bview_clean) (use v in \<open>simp_all add: t_def\<close>)
  ultimately show ?thesis using run v geo lg by (auto simp: t_def u_def)
qed

text \<open>
  C3. Inside a transaction \<^verbatim>\<open>log_write\<close> records a held block: the block is listed in the header
  exactly once, however often it is logged (absorption), it becomes dirty, so that it cannot
  leave the cache, the contents that clients see stay, nothing reaches the disk yet, and the
  log stays well-formed.
\<close>

theorem log_write_records:
  assumes "in_txn s" and "bheld s b = Some m" and "lg_n s < lg_size s - 1"
  shows "\<exists>t. log_write b s = Ok t \<and> in_txn t \<and> bheld t = bheld s \<and> bview t = bview s \<and> bc_disk t = bc_disk s
     \<and> bdirty t = insert m (bdirty s) \<and> distinct (homes t) \<and> set (homes t) = insert m (set (homes s))
     \<and> lg_n t = lg_n s + (if m \<in> set (homes s) then 0 else 1)"
  using log_write_ok [OF assms] by (auto simp: in_txn_def log_wf_def)

text \<open>
  The last \<^verbatim>\<open>end_op\<close> of a transaction commits it: afterwards the log is empty and the disk
  itself has, for every block outside the log, the contents that the calls left in the cache.
  An \<^verbatim>\<open>end_op\<close> that is not the last one only gives up its reservation.
\<close>

theorem end_op_commits:
  assumes "in_txn s" and "lg_outstanding s = 1 \<Longrightarrow> bheld s = Map.empty"
  shows "if lg_outstanding s = 1
     then \<exists>t. end_op s = Ok t \<and> log_wf t \<and> lg_n t = 0 \<and> lg_outstanding t = 0 \<and> \<not> lg_committing t \<and> bdirty t = {}
       \<and> (\<forall>m. m \<notin> log_area s \<longrightarrow> bc_disk t ! m = bview s m \<and> bview t m = bview s m)
     else end_op s = Ok (s\<lparr>lg_outstanding := lg_outstanding s - 1\<rparr>) \<and> in_txn (s\<lparr>lg_outstanding := lg_outstanding s - 1\<rparr>)"
proof (cases "lg_outstanding s = 1")
  case True
  then show ?thesis using end_op_last [OF assms(1) assms(2) [OF True] True] by auto
next
  case False
  then show ?thesis
    using assms(1) by (simp add: end_op_def Let_def in_txn_def log_wf_def log_geom_def homes_def log_area_def)
qed

text \<open>
  \<^verbatim>\<open>begin_op\<close> admits a call only while the blocks in the log and the reservation of
  \<^verbatim>\<open>MAXOPBLOCKS\<close> for every admitted call fit into \<^verbatim>\<open>LOGSIZE\<close>; it starts a transaction in a
  well-formed log and changes nothing else. It never makes a call wait for an idle log.
\<close>

theorem begin_op_reserves:
  assumes "log_wf s" and "0 \<le> lg_outstanding s"
  shows "(if lg_committing s \<or> lg_n s + (lg_outstanding s + 1) * int MAXOPBLOCKS > int LOGSIZE
          then begin_op s = Sleeps ''log''
          else \<exists>t. begin_op s = Ok t \<and> in_txn t \<and> lg_n t + lg_outstanding t * int MAXOPBLOCKS \<le> int LOGSIZE
            \<and> lg_outstanding t = lg_outstanding s + 1 \<and> bview t = bview s \<and> bheld t = bheld s)
     \<and> (lg_n s = 0 \<and> lg_outstanding s = 0 \<and> \<not> lg_committing s \<longrightarrow> (\<exists>t. begin_op s = Ok t))"
  using assms
  by (simp add: begin_op_def in_txn_def log_wf_def log_geom_def homes_def log_area_def LOGSIZE_def MAXOPBLOCKS_def)

section \<open>A small log\<close>

text \<open>
  Five zeroed blocks, with the log in blocks 2 and 3, right after \<^verbatim>\<open>binit\<close> and \<^verbatim>\<open>begin_op\<close>; a second
  disk has a committed transaction for block 4 in its log.
\<close>

definition small_log :: "block list \<Rightarrow> logst" where
  "small_log disk = binit \<lparr>bc_buf = replicate (Suc NBUF) zero_buf, bc_disk = disk, bc_trace = [], bc_pid = 1,
     lg_start = 2, lg_size = 2, lg_outstanding = 1, lg_committing = False, lg_dev = ROOTDEV, lg_n = 0,
     lg_block = replicate LOGSIZE 0\<rparr>"

definition zero_block :: block where
  "zero_block = replicate BSIZE 0"

definition nine_block :: block where
  "nine_block = replicate BSIZE 9"

definition zero_disk :: "block list" where
  "zero_disk = [zero_block, zero_block, zero_block, zero_block, zero_block]"

definition committed_disk :: "block list" where
  "committed_disk = zero_disk[2 := hdr_store 1 [4] zero_block, 3 := nine_block]"

lemma zero_block_hdr: "hdr_n zero_block = 0" "length zero_block = BSIZE" "length nine_block = BSIZE"
  by (simp_all add: hdr_n_def ld32_def slice_def zero_block_def nine_block_def BSIZE_def numeral_eq_Suc int32_def)

lemma small_log_sel:
  assumes "\<forall>d \<in> set disk. length d = BSIZE"
  shows "bc_wf (small_log disk)" "bheld (small_log disk) = Map.empty" "bdirty (small_log disk) = {}"
    "bavail (small_log disk) = NBUF" "bview (small_log disk) = (\<lambda>n. disk ! n)" "bc_disk (small_log disk) = disk"
    "bc_trace (small_log disk) = []" "lg_start (small_log disk) = 2" "lg_size (small_log disk) = 2"
    "lg_outstanding (small_log disk) = 1" "\<not> lg_committing (small_log disk)" "lg_dev (small_log disk) = ROOTDEV"
    "lg_n (small_log disk) = 0" "lg_block (small_log disk) = replicate LOGSIZE 0"
proof -
  let ?s = "\<lparr>bc_buf = replicate (Suc NBUF) zero_buf, bc_disk = disk, bc_trace = [], bc_pid = 1,
     lg_start = 2, lg_size = 2, lg_outstanding = 1, lg_committing = False, lg_dev = ROOTDEV, lg_n = 0,
     lg_block = replicate LOGSIZE 0\<rparr> :: logst"
  have b: "bc_buf ?s = replicate (Suc NBUF) zero_buf" "\<forall>d \<in> set (bc_disk ?s). length d = BSIZE" using assms by simp_all
  note e = binit_establishes_helper [OF b, folded small_log_def]
  show "bc_wf (small_log disk)" "bheld (small_log disk) = Map.empty" "bdirty (small_log disk) = {}"
    "bavail (small_log disk) = NBUF" "bview (small_log disk) = (\<lambda>n. disk ! n)"
    using e by simp_all
  show "bc_disk (small_log disk) = disk" "bc_trace (small_log disk) = []" by (simp_all add: small_log_def binit_sel)
  have "bcache.more (small_log disk) = bcache.more ?s" unfolding small_log_def by (rule binit_sel)
  note lg = logst_more [OF this]
  show "lg_start (small_log disk) = 2" "lg_size (small_log disk) = 2"
    "lg_outstanding (small_log disk) = 1" "\<not> lg_committing (small_log disk)" "lg_dev (small_log disk) = ROOTDEV"
    "lg_n (small_log disk) = 0" "lg_block (small_log disk) = replicate LOGSIZE 0"
    using lg by simp_all
qed

lemma zero_disk_len: "\<forall>d \<in> set zero_disk. length d = BSIZE" "length zero_disk = 5"
  by (simp_all add: zero_disk_def zero_block_hdr)

lemma small_log_geom: "\<forall>d \<in> set disk. length d = BSIZE \<Longrightarrow> length disk = 5 \<Longrightarrow>
    log_geom (small_log disk) \<and> log_area (small_log disk) = {2, 3}"
  by (auto simp: log_geom_def log_area_def small_log_sel LOGSIZE_def MAXOPBLOCKS_def)

lemma small_log_txn: "in_txn (small_log zero_disk)"
  using small_log_geom [OF zero_disk_len] small_log_sel [OF zero_disk_len(1)] zero_block_hdr
  by (simp add: in_txn_def log_wf_def homes_def zero_disk_def)

text \<open>Logging a new block 4 into it.\<close>

lemma small_log_block4:
  "\<exists>s :: logst. in_txn s \<and> log_wf s \<and> bheld s = Map.empty \<and> bview s 4 = nine_block \<and> bc_disk s = zero_disk
     \<and> lg_outstanding s = 1 \<and> log_area s = {2, 3} \<and> bdirty s = {4} \<and> bc_trace s = []"
proof -
  note sel = small_log_sel [OF zero_disk_len(1)]
  have "\<exists>i s1. bread ROOTDEV 4 (small_log zero_disk) = Ok (i, s1) \<and> bdata s1 i = bview (small_log zero_disk) 4
     \<and> (bc_pid s1, bcache.more s1) = (bc_pid (small_log zero_disk), bcache.more (small_log zero_disk))
     \<and> (\<forall>d. length d = BSIZE \<longrightarrow>
          (\<exists>s2 s3. log_write i (set_data i d s1) = Ok s2 \<and> log_frame s2 = log_frame (small_log zero_disk) \<and> brelse i s2 = Ok s3
             \<and> lc.after [(4, d)] (small_log zero_disk) s3 \<and> bdirty s3 = insert 4 (bdirty (small_log zero_disk))))"
    by (rule lc.log_block [OF small_log_txn])
      (use sel small_log_geom [OF zero_disk_len] zero_disk_len in \<open>simp_all add: NBUF_def log_left_def\<close>)
  then obtain s3 where s3: "lc.after [(4, nine_block)] (small_log zero_disk) s3" "bdirty s3 = {4}"
    using zero_block_hdr(3) sel by force
  then have f: "in_txn s3" "bheld s3 = Map.empty" "bview s3 4 = nine_block" "bc_disk s3 = zero_disk" "bc_trace s3 = []"
    "log_area s3 = {2, 3}" "lg_outstanding s3 = 1"
    using sel small_log_geom [OF zero_disk_len] by (simp_all add: lc.after_def log_frame_def)
  then have "log_wf s3" by (simp add: in_txn_def)
  with f s3(2) show ?thesis by blast
qed

theorem commit_crash_atomic_witness:
  "\<exists>(s :: logst) s' ws. bc_disk s ! 4 = zero_block \<and> bview s 4 = nine_block \<and> commit s = Ok s' \<and> bc_trace s' = ws
     \<and> (\<forall>k (r :: logst). crash_boot s (take k ws) r \<longrightarrow>
          (\<exists>t. recover_from_log r = Ok t \<and> bc_disk t ! 4 = (if k \<le> nat (lg_n s) then zero_block else nine_block)))"
proof -
  obtain s :: logst where s: "log_wf s" "bheld s = Map.empty" "bview s 4 = nine_block" "bc_disk s = zero_disk"
    "log_area s = {2, 3}" "bc_trace s = []"
    using small_log_block4 by blast
  have z: "zero_disk ! 4 = zero_block" "(4 :: nat) \<notin> {2, 3}" by (simp_all add: zero_disk_def)
  obtain s' ws where r: "commit s = Ok s'" "bc_trace s' = bc_trace s @ ws"
    "\<forall>k (r :: logst). crash_boot s (take k ws) r \<longrightarrow> (\<exists>t. recover_from_log r = Ok t \<and> lg_n t = 0
             \<and> (\<forall>m. m \<notin> log_area s \<longrightarrow> bc_disk t ! m = (if k \<le> nat (lg_n s) then bc_disk s ! m else bview s m)))"
    using commit_crash_atomic [OF s(1,2)] by blast
  have "\<exists>t. recover_from_log r = Ok t \<and> bc_disk t ! 4 = (if k \<le> nat (lg_n s) then zero_block else nine_block)"
    if "crash_boot s (take k ws) r" for k and r :: logst
    using r(3) [rule_format, OF that] s(3-5) z by fastforce
  then show ?thesis using r(1,2) s(3,4,6) z(1) by (intro exI [of _ s] exI [of _ s'] exI [of _ ws]) simp
qed

theorem recovery_restartable_witness:
  "hdr_n (committed_disk ! 2) = 1 \<and>
   (\<exists>t ws. recover_from_log (small_log committed_disk) = Ok t \<and> bc_trace t = ws
     \<and> bc_disk t ! 4 = committed_disk ! 3 \<and> hdr_n (bc_disk t ! 2) = 0
     \<and> (\<forall>k (r :: logst). crash_boot (small_log committed_disk) (take k ws) r \<longrightarrow>
          (\<exists>t'. recover_from_log r = Ok t' \<and> bc_disk t' = bc_disk t)))"
proof -
  have len1: "length (hdr_store 1 [4] zero_block) = BSIZE" and n1: "hdr_n (hdr_store 1 [4] zero_block) = 1"
    and b1: "hdr_block (hdr_store 1 [4] zero_block) 0 = 4"
    using hdr_store_spec [OF zero_block_hdr(2), where n = 1 and bl = "[4]"] by (simp_all add: LOGSIZE_def MAXOPBLOCKS_def)
  have len: "\<forall>d \<in> set committed_disk. length d = BSIZE" "length committed_disk = 5"
    using len1 by (simp_all add: committed_disk_def zero_disk_def zero_block_hdr)
  note sel = small_log_sel [OF len(1)] and geo = small_log_geom [OF len]
  have hd: "committed_disk ! 2 = hdr_store 1 [4] zero_block" by (simp add: committed_disk_def zero_disk_def)
  have "boot_ok (small_log committed_disk)" using sel geo by (simp add: boot_ok_def)
  moreover have "hdr_ok (small_log committed_disk) (bc_disk (small_log committed_disk) ! lg_start (small_log committed_disk))"
    using sel geo len(2) by (simp add: hdr_ok_def hd n1 b1)
  moreover have "d ! 4 = committed_disk ! 3 \<and> hdr_n (d ! 2) = 0" if "installed 2 committed_disk d" for d
    using that by (simp add: installed_def Let_def hd n1 b1) (simp add: numeral_eq_Suc)
  ultimately show ?thesis
    using recovery_restartable [of "small_log committed_disk"] sel geo by (fastforce simp: hd n1)
qed

theorem log_write_records_witness:
  "\<exists>b (s :: logst) t. bheld s b = Some 4 \<and> log_write b s = Ok t \<and> set (homes t) = {4} \<and> bdirty t = {4}"
proof -
  note sel = small_log_sel [OF zero_disk_len(1)] and geo = small_log_geom [OF zero_disk_len]
  have "\<exists>i s'. bread ROOTDEV 4 (small_log zero_disk) = Ok (i, s') \<and> bc_wf s'
     \<and> bheld s' = (bheld (small_log zero_disk))(i \<mapsto> 4) \<and> bc_disk s' = bc_disk (small_log zero_disk)
     \<and> bdirty s' = bdirty (small_log zero_disk) \<and> bcache.more s' = bcache.more (small_log zero_disk)"
    using bread_spec [OF sel(1), of 4] sel zero_disk_len by (simp add: NBUF_def) blast
  then obtain i s' where s': "bc_wf s'" "bheld s' = [i \<mapsto> 4]" "bc_disk s' = zero_disk" "bdirty s' = {}"
    "bcache.more s' = bcache.more (small_log zero_disk)" using sel by auto
  note lg = logst_more [OF s'(5)]
  have "in_txn s'" by (rule in_txn_keep(1) [OF small_log_txn s'(1,5)]) (use s' sel geo in simp_all)
  moreover have "homes s' = []" using lg sel by (simp add: homes_def)
  moreover have "bheld s' i = Some 4" "lg_n s' < lg_size s' - 1" using s'(2) lg sel by simp_all
  ultimately obtain t where "log_write i s' = Ok t" "set (homes t) = {4}" "bdirty t = {4}"
    using log_write_records [of s' i 4] s'(4) by auto
  with s'(2) show ?thesis by (intro exI [of _ i] exI [of _ s'] exI [of _ t]) simp
qed

theorem end_op_commits_witness:
  "\<exists>(s :: logst) t. bc_disk s ! 4 = zero_block \<and> end_op s = Ok t \<and> bc_disk t ! 4 = nine_block \<and> lg_n t = 0"
proof -
  obtain s :: logst where s: "in_txn s" "bheld s = Map.empty" "bview s 4 = nine_block" "bc_disk s = zero_disk"
    "log_area s = {2, 3}" "lg_outstanding s = 1"
    using small_log_block4 by blast
  have "bc_disk s ! 4 = zero_block" by (simp add: s(4) zero_disk_def)
  moreover obtain t where "end_op s = Ok t" "bc_disk t ! 4 = nine_block" "lg_n t = 0"
    using end_op_commits [OF s(1)] s by auto
  ultimately show ?thesis by blast
qed

theorem begin_op_reserves_witness:
  "\<exists>t. begin_op (small_log zero_disk) = Ok t \<and> lg_outstanding t = 2"
proof -
  have "log_wf (small_log zero_disk)" using small_log_txn by (simp add: in_txn_def)
  with begin_op_reserves [of "small_log zero_disk"] small_log_sel [OF zero_disk_len(1)] show ?thesis
    by (auto simp: LOGSIZE_def MAXOPBLOCKS_def)
qed

text \<open>
  The reservation of \<^verbatim>\<open>begin_op\<close> counts \<^verbatim>\<open>LOGSIZE\<close> slots, but a log of \<^verbatim>\<open>nlog = LOGSIZE\<close> blocks
  has only \<^verbatim>\<open>LOGSIZE - 1\<close> of them: three calls may be admitted to an empty log, and the
  block that uses up their reservation stops the machine.
\<close>

theorem log_reservation_gap:
  assumes "lg_size s = int LOGSIZE" and "lg_n s = int (3 * MAXOPBLOCKS) - 1"
  shows "log_write b s = Panic ''too big a transaction''"
    and "lg_n u = 0 \<Longrightarrow> lg_outstanding u = 2 \<Longrightarrow> \<not> lg_committing u \<Longrightarrow> begin_op u = Ok (u\<lparr>lg_outstanding := 3\<rparr>)"
  using assms by (simp_all add: log_write_def begin_op_def LOGSIZE_def MAXOPBLOCKS_def)

end
