(* ===== verification/Fs.thy ===== *)
theory Fs
  imports Log_Props Strings
begin

text \<open>
  \<^verbatim>\<open>src/fs.c\<close>, all five layers above the log: the block allocator, the inode cache, file contents,
  directories and path names. The state extends the log's with the super block \<^verbatim>\<open>sb\<close> and the
  inode cache \<^verbatim>\<open>icache\<close>; a pointer to an in-memory inode is its index in the cache. On-disk
  structures are the bytes of blocks.
\<close>

section \<open>Constants\<close>

definition BPB :: nat where
  "BPB = BSIZE * 8"

definition IPB :: nat where
  "IPB = BSIZE div 64"

definition NDIRECT :: nat where
  "NDIRECT = 12"

definition NINDIRECT :: nat where
  "NINDIRECT = BSIZE div 4"

definition MAXFILE :: nat where
  "MAXFILE = NDIRECT + NINDIRECT"

definition NINODE :: nat where
  "NINODE = 50"

definition DIRSIZ :: nat where
  "DIRSIZ = 14"

definition ROOTINO :: nat where
  "ROOTINO = 1"

definition T_DIR :: nat where "T_DIR = 1"
definition T_FILE :: nat where "T_FILE = 2"
definition T_DEV :: nat where "T_DEV = 3"

section \<open>State\<close>

text \<open>
  \<^verbatim>\<open>struct inode\<close>; the flag word has the one bit \<^verbatim>\<open>I_VALID\<close>. The \<^verbatim>\<open>short\<close> fields hold 16-bit
  patterns.
\<close>

record inode =
  i_dev :: nat
  i_inum :: nat
  i_ref :: int
  i_lock :: sleeplock
  i_valid :: bool
  i_type :: nat
  i_major :: nat
  i_minor :: nat
  i_nlink :: nat
  i_size :: nat
  i_addrs :: "nat list"

record fsst = logst +
  fs_sb :: superblock
  fs_inode :: "inode list"

abbreviation get_inode :: "'z fsst_scheme \<Rightarrow> nat \<Rightarrow> inode" where
  "get_inode s i \<equiv> fs_inode s ! i"

definition upd_inode :: "nat \<Rightarrow> (inode \<Rightarrow> inode) \<Rightarrow> 'z fsst_scheme \<Rightarrow> 'z fsst_scheme" where
  "upd_inode i f s = s\<lparr>fs_inode := (fs_inode s)[i := f (fs_inode s ! i)]\<rparr>"

section \<open>On-disk inodes\<close>

record dinode =
  di_type :: nat
  di_major :: nat
  di_minor :: nat
  di_nlink :: nat
  di_size :: nat
  di_addrs :: "nat list"

definition dec_dinode :: "nat \<Rightarrow> block \<Rightarrow> dinode" where
  "dec_dinode off d = \<lparr>di_type = ld16 off d, di_major = ld16 (off + 2) d, di_minor = ld16 (off + 4) d,
     di_nlink = ld16 (off + 6) d, di_size = ld32 (off + 8) d,
     di_addrs = map (\<lambda>i. ld32 (off + 12 + 4 * i) d) [0..<NDIRECT + 1]\<rparr>"

definition enc_dinode :: "nat \<Rightarrow> dinode \<Rightarrow> block \<Rightarrow> block" where
  "enc_dinode off di d =
     patch off (le_bytes 2 (di_type di) @ le_bytes 2 (di_major di) @ le_bytes 2 (di_minor di)
       @ le_bytes 2 (di_nlink di) @ le_bytes 4 (di_size di) @ concat (map (le_bytes 4) (di_addrs di))) d"

text \<open>The fields of an inode that are copies of the on-disk inode.\<close>

definition inode_dinode :: "inode \<Rightarrow> dinode" where
  "inode_dinode ip = \<lparr>di_type = i_type ip, di_major = i_major ip, di_minor = i_minor ip, di_nlink = i_nlink ip,
     di_size = i_size ip, di_addrs = i_addrs ip\<rparr>"

definition IBLOCK :: "nat \<Rightarrow> superblock \<Rightarrow> nat" where
  "IBLOCK i sb = i div IPB + sb_inodestart sb"

definition IOFF :: "nat \<Rightarrow> nat" where
  "IOFF inum = 64 * (inum mod IPB)"

definition BBLOCK :: "nat \<Rightarrow> superblock \<Rightarrow> nat" where
  "BBLOCK b sb = b div BPB + sb_bmapstart sb"

section \<open>Blocks\<close>

definition bzero :: "nat \<Rightarrow> nat \<Rightarrow> 'z logst_scheme \<Rightarrow> 'z logst_scheme res" where
  "bzero dev bno s =
     bind_res (bread dev bno s) (\<lambda>(bp, s).
     bind_res (log_write bp (set_data bp (replicate BSIZE 0) s)) (\<lambda>s.
     brelse bp s))"

text \<open>One bit of the free map.\<close>

definition bm_used :: "block \<Rightarrow> nat \<Rightarrow> bool" where
  "bm_used d bi \<longleftrightarrow> (d ! (bi div 8)) AND push_bit (bi mod 8) 1 \<noteq> 0"

definition bm_mark :: "nat \<Rightarrow> block \<Rightarrow> block" where
  "bm_mark bi d = d[bi div 8 := (d ! (bi div 8)) OR push_bit (bi mod 8) 1]"

definition bm_clear :: "nat \<Rightarrow> block \<Rightarrow> block" where
  "bm_clear bi d = d[bi div 8 := (d ! (bi div 8)) AND NOT (push_bit (bi mod 8) 1)]"

text \<open>The outer loop of \<^verbatim>\<open>balloc\<close>, over the first block numbers of the blocks of the free map.\<close>

fun balloc_from :: "nat \<Rightarrow> nat list \<Rightarrow> 'z fsst_scheme \<Rightarrow> (nat \<times> 'z fsst_scheme) res" where
  "balloc_from dev [] s = Panic ''balloc: out of blocks''"
| "balloc_from dev (b # bs) s =
     bind_res (bread dev (BBLOCK b (fs_sb s)) s) (\<lambda>(bp, s).
       let d = b_data (get_buf s bp) in
       case List.find (\<lambda>bi. \<not> bm_used d bi) [0..<min BPB (sb_size (fs_sb s) - b)] of
         Some bi \<Rightarrow>
           bind_res (log_write bp (set_data bp (bm_mark bi d) s)) (\<lambda>s.
           bind_res (brelse bp s) (\<lambda>s.
           bind_res (bzero dev (b + bi) s) (\<lambda>s.
           Ok (b + bi, s))))
       | None \<Rightarrow> bind_res (brelse bp s) (balloc_from dev bs))"

definition balloc :: "nat \<Rightarrow> 'z fsst_scheme \<Rightarrow> (nat \<times> 'z fsst_scheme) res" where
  "balloc dev s = balloc_from dev (map (\<lambda>k. k * BPB) [0..<(sb_size (fs_sb s) + BPB - 1) div BPB]) s"

definition bfree :: "nat \<Rightarrow> nat \<Rightarrow> 'z fsst_scheme \<Rightarrow> 'z fsst_scheme res" where
  "bfree dev b s =
     bind_res (readsb dev s) (\<lambda>(sb, s).
       let s = s\<lparr>fs_sb := sb\<rparr> in
       bind_res (bread dev (BBLOCK b (fs_sb s)) s) (\<lambda>(bp, s).
         let d = b_data (get_buf s bp); bi = b mod BPB in
         if \<not> bm_used d bi then Panic ''freeing free block''
         else bind_res (log_write bp (set_data bp (bm_clear bi d) s)) (\<lambda>s. brelse bp s)))"

section \<open>Inodes\<close>

definition iinit :: "nat \<Rightarrow> 'z fsst_scheme \<Rightarrow> 'z fsst_scheme res" where
  "iinit dev s =
     (let s = s\<lparr>fs_inode := map (\<lambda>ip. ip\<lparr>i_lock := initsleeplock (i_lock ip) ''inode''\<rparr>) (fs_inode s)\<rparr>
      in bind_res (readsb dev s) (\<lambda>(sb, s). Ok (s\<lparr>fs_sb := sb\<rparr>)))"

text \<open>A slot of the cache that refers to inode \<open>inum\<close> already, or else the first unused slot.\<close>

definition iget :: "nat \<Rightarrow> nat \<Rightarrow> 'z fsst_scheme \<Rightarrow> (nat \<times> 'z fsst_scheme) res" where
  "iget dev inum s =
     (case first_idx (\<lambda>ip. i_ref ip > 0 \<and> i_dev ip = dev \<and> i_inum ip = inum) (fs_inode s) of
        Some i \<Rightarrow> Ok (i, upd_inode i (\<lambda>ip. ip\<lparr>i_ref := i_ref ip + 1\<rparr>) s)
      | None \<Rightarrow>
          (case first_idx (\<lambda>ip. i_ref ip = 0) (fs_inode s) of
             None \<Rightarrow> Panic ''iget: no inodes''
           | Some i \<Rightarrow> Ok (i, upd_inode i (\<lambda>ip. ip\<lparr>i_dev := dev, i_inum := inum, i_ref := 1, i_valid := False\<rparr>) s)))"

fun ialloc_from :: "nat \<Rightarrow> nat \<Rightarrow> nat list \<Rightarrow> 'z fsst_scheme \<Rightarrow> (nat \<times> 'z fsst_scheme) res" where
  "ialloc_from dev type [] s = Panic ''ialloc: no inodes''"
| "ialloc_from dev type (inum # inums) s =
     bind_res (bread dev (IBLOCK inum (fs_sb s)) s) (\<lambda>(bp, s).
       let d = b_data (get_buf s bp) in
       if ld16 (IOFF inum) d = 0 then
         bind_res (log_write bp (set_data bp (st16 (IOFF inum) type (patch (IOFF inum) (replicate 64 0) d)) s)) (\<lambda>s.
         bind_res (brelse bp s) (\<lambda>s.
         iget dev inum s))
       else bind_res (brelse bp s) (ialloc_from dev type inums))"

definition ialloc :: "nat \<Rightarrow> nat \<Rightarrow> 'z fsst_scheme \<Rightarrow> (nat \<times> 'z fsst_scheme) res" where
  "ialloc dev type s = ialloc_from dev type [1..<sb_ninodes (fs_sb s)] s"

definition iupdate :: "nat \<Rightarrow> 'z fsst_scheme \<Rightarrow> 'z fsst_scheme res" where
  "iupdate i s =
     (let inum = i_inum (get_inode s i) in
      bind_res (bread (i_dev (get_inode s i)) (IBLOCK inum (fs_sb s)) s) (\<lambda>(bp, s).
        let d = enc_dinode (IOFF inum) (inode_dinode (get_inode s i)) (b_data (get_buf s bp)) in
        bind_res (log_write bp (set_data bp d s)) (\<lambda>s. brelse bp s)))"

definition idup :: "nat \<Rightarrow> 'z fsst_scheme \<Rightarrow> nat \<times> 'z fsst_scheme" where
  "idup i s = (i, upd_inode i (\<lambda>ip. ip\<lparr>i_ref := i_ref ip + 1\<rparr>) s)"

definition ilock :: "nat \<Rightarrow> 'z fsst_scheme \<Rightarrow> 'z fsst_scheme res" where
  "ilock i s =
     (if i_ref (get_inode s i) < 1 then Panic ''ilock''
      else bind_res (acquiresleep (bc_pid s) (i_lock (get_inode s i))) (\<lambda>lk.
        let s = upd_inode i (\<lambda>ip. ip\<lparr>i_lock := lk\<rparr>) s in
        if i_valid (get_inode s i) then Ok s
        else let inum = i_inum (get_inode s i) in
          bind_res (bread (i_dev (get_inode s i)) (IBLOCK inum (fs_sb s)) s) (\<lambda>(bp, s).
            let di = dec_dinode (IOFF inum) (b_data (get_buf s bp));
                s = upd_inode i (\<lambda>ip. ip\<lparr>i_type := di_type di, i_major := di_major di, i_minor := di_minor di,
                      i_nlink := di_nlink di, i_size := di_size di, i_addrs := di_addrs di\<rparr>) s in
            bind_res (brelse bp s) (\<lambda>s.
              let s = upd_inode i (\<lambda>ip. ip\<lparr>i_valid := True\<rparr>) s in
              if i_type (get_inode s i) = 0 then Panic ''ilock: no type'' else Ok s))))"

definition iunlock :: "nat \<Rightarrow> 'z fsst_scheme \<Rightarrow> 'z fsst_scheme res" where
  "iunlock i s =
     (if \<not> holdingsleep (i_lock (get_inode s i)) \<or> i_ref (get_inode s i) < 1 then Panic ''iunlock''
      else Ok (upd_inode i (\<lambda>ip. ip\<lparr>i_lock := releasesleep (i_lock ip)\<rparr>) s))"

section \<open>Freeing the contents of an inode\<close>

definition itrunc_direct :: "nat \<Rightarrow> nat \<Rightarrow> 'z fsst_scheme \<Rightarrow> 'z fsst_scheme res" where
  "itrunc_direct i k s =
     (let a = i_addrs (get_inode s i) ! k in
      if a \<noteq> 0 then
        bind_res (bfree (i_dev (get_inode s i)) a s) (\<lambda>s.
          Ok (upd_inode i (\<lambda>ip. ip\<lparr>i_addrs := (i_addrs ip)[k := 0]\<rparr>) s))
      else Ok s)"

definition itrunc_indirect :: "nat \<Rightarrow> block \<Rightarrow> nat \<Rightarrow> 'z fsst_scheme \<Rightarrow> 'z fsst_scheme res" where
  "itrunc_indirect i d j s =
     (let a = ld32 (4 * j) d in if a \<noteq> 0 then bfree (i_dev (get_inode s i)) a s else Ok s)"

definition itrunc :: "nat \<Rightarrow> 'z fsst_scheme \<Rightarrow> 'z fsst_scheme res" where
  "itrunc i s =
     bind_res (fold_res (itrunc_direct i) [0..<NDIRECT] s) (\<lambda>s.
     bind_res
       (if i_addrs (get_inode s i) ! NDIRECT \<noteq> 0 then
          bind_res (bread (i_dev (get_inode s i)) (i_addrs (get_inode s i) ! NDIRECT) s) (\<lambda>(bp, s).
          bind_res (fold_res (itrunc_indirect i (b_data (get_buf s bp))) [0..<NINDIRECT] s) (\<lambda>s.
          bind_res (brelse bp s) (\<lambda>s.
          bind_res (bfree (i_dev (get_inode s i)) (i_addrs (get_inode s i) ! NDIRECT) s) (\<lambda>s.
          Ok (upd_inode i (\<lambda>ip. ip\<lparr>i_addrs := (i_addrs ip)[NDIRECT := 0]\<rparr>) s)))))
        else Ok s)
       (\<lambda>s. iupdate i (upd_inode i (\<lambda>ip. ip\<lparr>i_size := 0\<rparr>) s)))"

definition iput :: "nat \<Rightarrow> 'z fsst_scheme \<Rightarrow> 'z fsst_scheme res" where
  "iput i s =
     bind_res
       (if i_ref (get_inode s i) = 1 \<and> i_valid (get_inode s i) \<and> i_nlink (get_inode s i) = 0 then
          bind_res (itrunc i s) (\<lambda>s.
          bind_res (iupdate i (upd_inode i (\<lambda>ip. ip\<lparr>i_type := 0\<rparr>) s)) (\<lambda>s.
          Ok (upd_inode i (\<lambda>ip. ip\<lparr>i_valid := False\<rparr>) s)))
        else Ok s)
       (\<lambda>s. Ok (upd_inode i (\<lambda>ip. ip\<lparr>i_ref := i_ref ip - 1\<rparr>) s))"

definition iunlockput :: "nat \<Rightarrow> 'z fsst_scheme \<Rightarrow> 'z fsst_scheme res" where
  "iunlockput i s = bind_res (iunlock i s) (iput i)"

section \<open>File contents\<close>

definition bmap :: "nat \<Rightarrow> nat \<Rightarrow> 'z fsst_scheme \<Rightarrow> (nat \<times> 'z fsst_scheme) res" where
  "bmap i bn s =
     (if bn < NDIRECT then
        let addr = i_addrs (get_inode s i) ! bn in
        if addr = 0 then
          bind_res (balloc (i_dev (get_inode s i)) s) (\<lambda>(addr, s).
            Ok (addr, upd_inode i (\<lambda>ip. ip\<lparr>i_addrs := (i_addrs ip)[bn := addr]\<rparr>) s))
        else Ok (addr, s)
      else if bn - NDIRECT < NINDIRECT then
        bind_res
          (let addr = i_addrs (get_inode s i) ! NDIRECT in
           if addr = 0 then
             bind_res (balloc (i_dev (get_inode s i)) s) (\<lambda>(addr, s).
               Ok (addr, upd_inode i (\<lambda>ip. ip\<lparr>i_addrs := (i_addrs ip)[NDIRECT := addr]\<rparr>) s))
           else Ok (addr, s))
          (\<lambda>(addr, s).
             bind_res (bread (i_dev (get_inode s i)) addr s) (\<lambda>(bp, s).
               let addr = ld32 (4 * (bn - NDIRECT)) (b_data (get_buf s bp)) in
               if addr = 0 then
                 bind_res (balloc (i_dev (get_inode s i)) s) (\<lambda>(addr, s).
                 bind_res (log_write bp (set_data bp (st32 (4 * (bn - NDIRECT)) addr (b_data (get_buf s bp))) s)) (\<lambda>s.
                 bind_res (brelse bp s) (\<lambda>s.
                 Ok (addr, s))))
               else bind_res (brelse bp s) (\<lambda>s. Ok (addr, s))))
      else Panic ''bmap: out of range'')"

record stat =
  st_type :: nat
  st_dev :: nat
  st_ino :: nat
  st_nlink :: nat
  st_size :: nat

definition stati :: "nat \<Rightarrow> 'z fsst_scheme \<Rightarrow> stat" where
  "stati i s = (let ip = get_inode s i in
     \<lparr>st_type = i_type ip, st_dev = i_dev ip, st_ino = i_inum ip, st_nlink = i_nlink ip, st_size = i_size ip\<rparr>)"

text \<open>
  The loop of \<^verbatim>\<open>readi\<close>: \<open>k\<close> bytes are still to be copied (\<^verbatim>\<open>n - tot\<close>), \<open>acc\<close> is what \<^verbatim>\<open>dst\<close> has so far.
\<close>

lemma chunk_pos: "0 < k \<Longrightarrow> 0 < min k (BSIZE - off mod BSIZE)"
  by (simp add: BSIZE_def)

function readi_loop :: "nat \<Rightarrow> nat \<Rightarrow> nat \<Rightarrow> byte list \<Rightarrow> 'z fsst_scheme \<Rightarrow> (byte list \<times> 'z fsst_scheme) res" where
  "readi_loop i off k acc s =
     (if k = 0 then Ok (acc, s)
      else bind_res (bmap i (off div BSIZE) s) (\<lambda>(addr, s).
           bind_res (bread (i_dev (get_inode s i)) addr s) (\<lambda>(bp, s).
             let m = min k (BSIZE - off mod BSIZE);
                 d = slice (off mod BSIZE) m (b_data (get_buf s bp)) in
             bind_res (brelse bp s) (readi_loop i (wrap32 (off + m)) (k - m) (acc @ d)))))"
  by pat_completeness auto
termination
  by (relation "measure (\<lambda>(i, off, k, acc, s). k)") (auto dest: chunk_pos simp: BSIZE_def)

definition readi :: "nat \<Rightarrow> nat \<Rightarrow> nat \<Rightarrow> 'z fsst_scheme \<Rightarrow> (int \<times> byte list \<times> 'z fsst_scheme) res" where
  "readi i off n s =
     (if i_type (get_inode s i) = T_DEV then Ok (-1, [], s)
      else if off > i_size (get_inode s i) \<or> wrap32 (off + n) < off then Ok (-1, [], s)
      else let n = (if wrap32 (off + n) > i_size (get_inode s i) then i_size (get_inode s i) - off else n) in
        bind_res (readi_loop i off n [] s) (\<lambda>(bs, s). Ok (int n, bs, s)))"

function writei_loop :: "nat \<Rightarrow> nat \<Rightarrow> byte list \<Rightarrow> nat \<Rightarrow> 'z fsst_scheme \<Rightarrow> (nat \<times> 'z fsst_scheme) res" where
  "writei_loop i off src k s =
     (if k = 0 then Ok (off, s)
      else bind_res (bmap i (off div BSIZE) s) (\<lambda>(addr, s).
           bind_res (bread (i_dev (get_inode s i)) addr s) (\<lambda>(bp, s).
             let m = min k (BSIZE - off mod BSIZE);
                 d = patch (off mod BSIZE) (take m src) (b_data (get_buf s bp)) in
             bind_res (log_write bp (set_data bp d s)) (\<lambda>s.
             bind_res (brelse bp s) (writei_loop i (wrap32 (off + m)) (drop m src) (k - m))))))"
  by pat_completeness auto
termination
  by (relation "measure (\<lambda>(i, off, src, k, s). k)") (auto dest: chunk_pos simp: BSIZE_def)

definition writei :: "nat \<Rightarrow> byte list \<Rightarrow> nat \<Rightarrow> nat \<Rightarrow> 'z fsst_scheme \<Rightarrow> (int \<times> 'z fsst_scheme) res" where
  "writei i src off n s =
     (if i_type (get_inode s i) = T_DEV then Ok (-1, s)
      else if off > i_size (get_inode s i) \<or> wrap32 (off + n) < off then Ok (-1, s)
      else if wrap32 (off + n) > MAXFILE * BSIZE then Ok (-1, s)
      else bind_res (writei_loop i off src n s) (\<lambda>(off, s).
        if n > 0 \<and> off > i_size (get_inode s i)
        then bind_res (iupdate i (upd_inode i (\<lambda>ip. ip\<lparr>i_size := off\<rparr>) s)) (\<lambda>s. Ok (int n, s))
        else Ok (int n, s)))"

declare readi_loop.simps [simp del] writei_loop.simps [simp del]

section \<open>Directories\<close>

text \<open>
  \<^verbatim>\<open>struct dirent\<close>: two bytes \<^verbatim>\<open>inum\<close> and fourteen bytes \<^verbatim>\<open>name\<close>. A name is the contents of a \<^verbatim>\<open>char\<close>
  buffer; a list that ends before byte 14 is followed by a NUL byte.
\<close>

definition DIRENT_SIZE :: nat where
  "DIRENT_SIZE = 16"

fun strncmp_list :: "byte list \<Rightarrow> byte list \<Rightarrow> nat \<Rightarrow> int" where
  "strncmp_list p q 0 = 0"
| "strncmp_list p q (Suc n) =
     (let a = (case p of [] \<Rightarrow> 0 | x # _ \<Rightarrow> x); b = (case q of [] \<Rightarrow> 0 | y # _ \<Rightarrow> y) in
      if a \<noteq> 0 \<and> a = b then strncmp_list (tl p) (tl q) n else int (unat a) - int (unat b))"

definition namecmp :: "byte list \<Rightarrow> byte list \<Rightarrow> int" where
  "namecmp s t = strncmp_list s t DIRSIZ"

function dirlookup_loop :: "nat \<Rightarrow> byte list \<Rightarrow> nat \<Rightarrow> nat \<Rightarrow> 'z fsst_scheme \<Rightarrow> ((nat \<times> nat) option \<times> 'z fsst_scheme) res" where
  "dirlookup_loop dp name dsize off s =
     (if off < dsize then
        bind_res (readi dp off DIRENT_SIZE s) (\<lambda>(r, de, s).
          if r \<noteq> int DIRENT_SIZE then Panic ''dirlookup read''
          else if ld16 0 de = 0 then dirlookup_loop dp name dsize (off + DIRENT_SIZE) s
          else if namecmp name (slice 2 DIRSIZ de) = 0 then
            bind_res (iget (i_dev (get_inode s dp)) (ld16 0 de) s) (\<lambda>(ip, s). Ok (Some (ip, off), s))
          else dirlookup_loop dp name dsize (off + DIRENT_SIZE) s)
      else Ok (None, s))"
  by pat_completeness auto
termination
  by (relation "measure (\<lambda>(dp, name, dsize, off, s). dsize - off)") (auto simp: DIRENT_SIZE_def)

declare dirlookup_loop.simps [simp del]

definition dirlookup :: "nat \<Rightarrow> byte list \<Rightarrow> 'z fsst_scheme \<Rightarrow> ((nat \<times> nat) option \<times> 'z fsst_scheme) res" where
  "dirlookup dp name s =
     (if i_type (get_inode s dp) \<noteq> T_DIR then Panic ''dirlookup not DIR''
      else dirlookup_loop dp name (i_size (get_inode s dp)) 0 s)"

function dirlink_find :: "nat \<Rightarrow> nat \<Rightarrow> nat \<Rightarrow> 'z fsst_scheme \<Rightarrow> (nat \<times> 'z fsst_scheme) res" where
  "dirlink_find dp dsize off s =
     (if off < dsize then
        bind_res (readi dp off DIRENT_SIZE s) (\<lambda>(r, de, s).
          if r \<noteq> int DIRENT_SIZE then Panic ''dirlink read''
          else if ld16 0 de = 0 then Ok (off, s)
          else dirlink_find dp dsize (off + DIRENT_SIZE) s)
      else Ok (off, s))"
  by pat_completeness auto
termination
  by (relation "measure (\<lambda>(dp, dsize, off, s). dsize - off)") (auto simp: DIRENT_SIZE_def)

declare dirlink_find.simps [simp del]

definition dirlink :: "nat \<Rightarrow> byte list \<Rightarrow> nat \<Rightarrow> 'z fsst_scheme \<Rightarrow> (int \<times> 'z fsst_scheme) res" where
  "dirlink dp name inum s =
     bind_res (dirlookup dp name s) (\<lambda>(found, s).
       case found of
         Some (ip, _) \<Rightarrow> bind_res (iput ip s) (\<lambda>s. Ok (-1, s))
       | None \<Rightarrow>
           bind_res (dirlink_find dp (i_size (get_inode s dp)) 0 s) (\<lambda>(off, s).
           bind_res (writei dp (le_bytes 2 inum @ strncpy_bytes name DIRSIZ) off DIRENT_SIZE s) (\<lambda>(r, s).
             if r \<noteq> int DIRENT_SIZE then Panic ''dirlink'' else Ok (0, s))))"

section \<open>Paths\<close>

text \<open>
  A path is the bytes before its NUL. \<^verbatim>\<open>skipelem\<close> returns the rest of the path and the new
  contents of the buffer \<^verbatim>\<open>name\<close>.
\<close>

abbreviation slash :: byte where
  "slash \<equiv> 47"

definition skipelem :: "byte list \<Rightarrow> byte list \<Rightarrow> (byte list \<times> byte list) option" where
  "skipelem path name =
     (let path = dropWhile (\<lambda>c. c = slash) path in
      if path = [] then None
      else let s = takeWhile (\<lambda>c. c \<noteq> slash) path;
               path = dropWhile (\<lambda>c. c \<noteq> slash) path;
               name = (if length s \<ge> DIRSIZ then patch 0 (take DIRSIZ s) name else patch 0 (s @ [0]) name)
           in Some (dropWhile (\<lambda>c. c = slash) path, name))"

lemma dropWhile_shorter: "length (dropWhile P xs) \<le> length xs"
  by (simp add: length_dropWhile_le)

lemma skipelem_shorter:
  assumes "skipelem path name = Some (path', name')"
  shows "length path' < length path"
proof -
  define p where "p = dropWhile (\<lambda>c. c = slash) path"
  have p: "p \<noteq> []" "path' = dropWhile (\<lambda>c. c = slash) (dropWhile (\<lambda>c. c \<noteq> slash) p)"
    using assms by (auto simp: skipelem_def Let_def p_def split: if_splits)
  obtain c q where cq: "p = c # q" using p(1) by (cases p) auto
  have "c \<noteq> slash" using cq hd_dropWhile [of "\<lambda>c. c = slash" path] by (auto simp: p_def)
  then have "length path' \<le> length q"
    using p(2) cq dropWhile_shorter [of "\<lambda>c. c \<noteq> slash" q]
      dropWhile_shorter [of "\<lambda>c. c = slash" "dropWhile (\<lambda>c. c \<noteq> slash) q"] by simp
  then show ?thesis using cq dropWhile_shorter [of "\<lambda>c. c = slash" path] by (simp add: p_def)
qed

text \<open>The loop of \<^verbatim>\<open>namex\<close>; it returns the inode found, if any, and the buffer \<^verbatim>\<open>name\<close>.\<close>

function namex_loop :: "bool \<Rightarrow> byte list \<Rightarrow> byte list \<Rightarrow> nat \<Rightarrow> 'z fsst_scheme
    \<Rightarrow> (nat option \<times> byte list \<times> 'z fsst_scheme) res" where
  "namex_loop parent path name ip s =
     (case skipelem path name of
        None \<Rightarrow>
          if parent then bind_res (iput ip s) (\<lambda>s. Ok (None, name, s)) else Ok (Some ip, name, s)
      | Some (path, name) \<Rightarrow>
          bind_res (ilock ip s) (\<lambda>s.
            if i_type (get_inode s ip) \<noteq> T_DIR then bind_res (iunlockput ip s) (\<lambda>s. Ok (None, name, s))
            else if parent \<and> path = [] then bind_res (iunlock ip s) (\<lambda>s. Ok (Some ip, name, s))
            else bind_res (dirlookup ip name s) (\<lambda>(found, s).
              case found of
                None \<Rightarrow> bind_res (iunlockput ip s) (\<lambda>s. Ok (None, name, s))
              | Some (next, _) \<Rightarrow> bind_res (iunlockput ip s) (namex_loop parent path name next))))"
  by pat_completeness auto
termination
  by (relation "measure (\<lambda>(parent, path, name, ip, s). length path)") (auto dest: skipelem_shorter)

declare namex_loop.simps [simp del]

definition namex :: "nat \<Rightarrow> byte list \<Rightarrow> bool \<Rightarrow> byte list \<Rightarrow> 'z fsst_scheme
    \<Rightarrow> (nat option \<times> byte list \<times> 'z fsst_scheme) res" where
  "namex cwd path parent name s =
     (if path \<noteq> [] \<and> hd path = slash
      then bind_res (iget ROOTDEV ROOTINO s) (\<lambda>(ip, s). namex_loop parent path name ip s)
      else case idup cwd s of (ip, s) \<Rightarrow> namex_loop parent path name ip s)"

definition namei :: "nat \<Rightarrow> byte list \<Rightarrow> 'z fsst_scheme \<Rightarrow> (nat option \<times> 'z fsst_scheme) res" where
  "namei cwd path s =
     bind_res (namex cwd path False (replicate DIRSIZ 0) s) (\<lambda>(ip, name, s). Ok (ip, s))"

definition nameiparent :: "nat \<Rightarrow> byte list \<Rightarrow> byte list \<Rightarrow> 'z fsst_scheme
    \<Rightarrow> (nat option \<times> byte list \<times> 'z fsst_scheme) res" where
  "nameiparent cwd path name s = namex cwd path True name s"

end
