(* ===== verification/Fs_Blocks.thy ===== *)
theory Fs_Blocks
  imports Fs
begin

text \<open>
  The block allocator of \<^verbatim>\<open>src/fs.c\<close>: the free map, \<^verbatim>\<open>balloc\<close> and \<^verbatim>\<open>bfree\<close>, seen through the contents
  that file-system calls see (\<open>bview\<close>).
\<close>

section \<open>What file-system operations may change\<close>

text \<open>
  \<open>fs_after ws ins s t\<close>: inside a transaction, \<open>t\<close> is \<open>s\<close> after the block updates \<open>ws\<close> have been
  logged and the inode cache has become \<open>ins\<close>.
\<close>

definition fs_after :: "(nat \<times> block) list \<Rightarrow> inode list \<Rightarrow> 'z fsst_scheme \<Rightarrow> 'z fsst_scheme \<Rightarrow> bool" where
  "fs_after ws ins s t \<longleftrightarrow> in_txn t \<and> bheld t = bheld s \<and> bview t = upd_all ws (bview s) \<and> bc_disk t = bc_disk s
     \<and> bc_trace t = bc_trace s \<and> bavail s \<le> bavail t + length ws \<and> log_left s \<le> log_left t + length ws
     \<and> log_area t = log_area s \<and> fs_sb t = fs_sb s \<and> fs_inode t = ins \<and> fsst.more t = fsst.more s
     \<and> bc_pid t = bc_pid s"

lemma fsst_more:
  assumes "logst.more u = logst.more (s :: 'z fsst_scheme)"
  shows "fs_sb u = fs_sb s" "fs_inode u = fs_inode s" "fsst.more u = fsst.more s"
  using assms by (cases u, cases s, simp)+

lemma log_frame_fs:
  assumes "log_frame u = log_frame (s :: 'z fsst_scheme)"
  shows "fs_sb u = fs_sb s" "fs_inode u = fs_inode s" "fsst.more u = fsst.more s" "bc_pid u = bc_pid s"
  using assms fsst_more [of u s] by (simp_all add: log_frame_def)

lemma fs_rest:
  assumes "(bc_pid u, bcache.more u) = (bc_pid s, bcache.more (s :: 'z fsst_scheme))"
  shows "fs_sb u = fs_sb s" "fs_inode u = fs_inode s" "fsst.more u = fsst.more s"
  using logst_more(8) [of u s] fsst_more [of u s] assms by simp_all

lemma lc_after_fs: "lc.after ws s t \<Longrightarrow> fs_after ws (fs_inode s) s t"
  using log_frame_fs [of t s] by (auto simp: lc.after_def fs_after_def)

lemma fs_after_refl: "in_txn s \<Longrightarrow> fs_after [] (fs_inode s) s s"
  by (simp add: fs_after_def)

lemma fs_after_trans: "fs_after us ins s t \<Longrightarrow> fs_after vs ins' t u \<Longrightarrow> fs_after (us @ vs) ins' s u"
  by (auto simp: fs_after_def)

text \<open>Updates of the inode cache and of the super block leave the layers below alone.\<close>

lemma upd_inode_sel [simp]:
  "bc_disk (upd_inode i f s) = bc_disk s" "bc_trace (upd_inode i f s) = bc_trace s"
  "bc_pid (upd_inode i f s) = bc_pid s" "bc_buf (upd_inode i f s) = bc_buf s"
  "fs_sb (upd_inode i f s) = fs_sb s" "fsst.more (upd_inode i f s) = fsst.more s"
  "fs_inode (upd_inode i f s) = (fs_inode s)[i := f (get_inode s i)]"
  "lg_start (upd_inode i f s) = lg_start s" "lg_size (upd_inode i f s) = lg_size s"
  "lg_n (upd_inode i f s) = lg_n s" "lg_block (upd_inode i f s) = lg_block s" "lg_dev (upd_inode i f s) = lg_dev s"
  "lg_outstanding (upd_inode i f s) = lg_outstanding s" "lg_committing (upd_inode i f s) = lg_committing s"
  by (simp_all add: upd_inode_def)

lemma cache_cong:
  assumes "bc_buf t = bc_buf s" and "bc_disk t = bc_disk s"
  shows "bc_wf t = bc_wf s" "bheld t = bheld s" "bview t = bview s" "bdirty t = bdirty s" "bavail t = bavail s"
  using assms
  by (simp_all add: bc_wf_def lru_def nextf_def [abs_def] prevf_def [abs_def] cores_def bheld_def
      bview_def bdirty_def bavail_def fun_eq_iff)

lemma upd_inode_cache [simp]:
  "bc_wf (upd_inode i f s) = bc_wf s" "bheld (upd_inode i f s) = bheld s" "bview (upd_inode i f s) = bview s"
  "bdirty (upd_inode i f s) = bdirty s" "bavail (upd_inode i f s) = bavail s"
  by (rule cache_cong; simp)+

lemma upd_inode_log [simp]:
  "in_txn (upd_inode i f s) = in_txn s" "log_left (upd_inode i f s) = log_left s" "log_area (upd_inode i f s) = log_area s"
  by (simp_all add: in_txn_def log_wf_def log_geom_def homes_def log_area_def log_left_def)

lemma fs_after_upd_inode:
  assumes "fs_after ws ins s t"
  shows "fs_after ws (ins[i := f (ins ! i)]) s (upd_inode i f t)"
  using assms by (simp add: fs_after_def)

section \<open>The free map\<close>

lemma bm_used_bit: "bm_used d bi \<longleftrightarrow> bit (d ! (bi div 8)) (bi mod 8)"
proof -
  have "((d ! (bi div 8)) AND push_bit (bi mod 8) 1 = 0) \<longleftrightarrow> \<not> bit (d ! (bi div 8)) (bi mod 8)"
    using bit_iff_and_push_bit_not_eq_0 [of "d ! (bi div 8)" "bi mod 8"] by simp
  then show ?thesis by (simp add: bm_used_def)
qed

lemma bm_same: "bi div 8 = bj div 8 \<Longrightarrow> bi mod 8 = bj mod 8 \<Longrightarrow> bi = (bj :: nat)"
  by (metis div_mult_mod_eq)

lemma bm_mark_used:
  assumes "bi div 8 < length d"
  shows "bm_used (bm_mark bi d) bj \<longleftrightarrow> bj = bi \<or> bm_used d bj"
proof (cases "bj div 8 = bi div 8")
  case True
  have "bj mod 8 < LENGTH(8)" "bi mod 8 < LENGTH(8)" by simp_all
  then show ?thesis using assms True bm_same [of bj bi]
    by (auto simp: bm_used_bit bm_mark_def bit_or_iff bit_push_bit_iff bit_exp_iff)
next
  case False
  then show ?thesis using assms by (auto simp: bm_used_bit bm_mark_def)
qed

lemma bm_clear_used:
  assumes "bi div 8 < length d"
  shows "bm_used (bm_clear bi d) bj \<longleftrightarrow> bj \<noteq> bi \<and> bm_used d bj"
proof (cases "bj div 8 = bi div 8")
  case True
  have l: "bj mod 8 < LENGTH(8)" "bi mod 8 < LENGTH(8)" by simp_all
  then show ?thesis using assms True bm_same [of bj bi]
    by (auto simp: bm_used_bit bm_clear_def bit_and_iff bit_not_iff bit_push_bit_iff bit_exp_iff)
next
  case False
  then show ?thesis using assms by (auto simp: bm_used_bit bm_clear_def)
qed

lemma length_bm [simp]: "length (bm_mark bi d) = length d" "length (bm_clear bi d) = length d"
  by (simp_all add: bm_mark_def bm_clear_def)

text \<open>The state of block \<open>b\<close> according to the free map in the view \<open>v\<close>.\<close>

definition used :: "superblock \<Rightarrow> (nat \<Rightarrow> block) \<Rightarrow> nat \<Rightarrow> bool" where
  "used sb v b \<longleftrightarrow> bm_used (v (BBLOCK b sb)) (b mod BPB)"

definition mark :: "superblock \<Rightarrow> (nat \<Rightarrow> block) \<Rightarrow> nat \<Rightarrow> nat \<times> block" where
  "mark sb v b = (BBLOCK b sb, bm_mark (b mod BPB) (v (BBLOCK b sb)))"

definition unmark :: "superblock \<Rightarrow> (nat \<Rightarrow> block) \<Rightarrow> nat \<Rightarrow> nat \<times> block" where
  "unmark sb v b = (BBLOCK b sb, bm_clear (b mod BPB) (v (BBLOCK b sb)))"

lemma BPB_pos: "0 < BPB"
  by (simp add: BPB_def BSIZE_def)

lemma bitmap_index: "length d = BSIZE \<Longrightarrow> (b mod BPB) div 8 < length d"
  using mod_less_divisor [OF BPB_pos, of b] by (simp add: BPB_def BSIZE_def)

lemma same_bit: "BBLOCK a sb = BBLOCK b sb \<Longrightarrow> a mod BPB = b mod BPB \<Longrightarrow> a = b"
  by (metis BBLOCK_def add_right_cancel div_mult_mod_eq)

lemma used_mark:
  assumes "length (v (BBLOCK b sb)) = BSIZE"
  shows "used sb (v(fst (mark sb v b) := snd (mark sb v b))) c \<longleftrightarrow> c = b \<or> used sb v c"
  using bm_mark_used [OF bitmap_index [OF assms]] same_bit [of c sb b]
  by (auto simp: used_def mark_def)

lemma used_unmark:
  assumes "length (v (BBLOCK b sb)) = BSIZE"
  shows "used sb (v(fst (unmark sb v b) := snd (unmark sb v b))) c \<longleftrightarrow> c \<noteq> b \<and> used sb v c"
  using bm_clear_used [OF bitmap_index [OF assms]] same_bit [of c sb b]
  by (auto simp: used_def unmark_def)

section \<open>Layout\<close>

text \<open>
  The layout that \<^verbatim>\<open>mkfs\<close> establishes: every block the super block counts exists, and the blocks of
  the log, the free map, the inodes and the super block are marked as used. \<open>meta\<close> are those blocks.
\<close>

definition meta :: "nat set \<Rightarrow> superblock \<Rightarrow> nat set" where
  "meta area sb = area \<union> {BBLOCK b sb | b. b < sb_size sb} \<union> {IBLOCK i sb | i. i < sb_ninodes sb} \<union> {0, 1}"

definition layout :: "nat set \<Rightarrow> nat \<Rightarrow> superblock \<Rightarrow> (nat \<Rightarrow> block) \<Rightarrow> bool" where
  "layout area len sb v \<longleftrightarrow> sb_size sb \<le> len
     \<and> (\<forall>b < sb_size sb. BBLOCK b sb < len \<and> BBLOCK b sb \<notin> area)
     \<and> (\<forall>i < sb_ninodes sb. IBLOCK i sb < len \<and> IBLOCK i sb \<notin> area)
     \<and> (\<forall>b \<in> meta area sb. b < sb_size sb \<longrightarrow> used sb v b)
     \<and> (\<forall>b < sb_size sb. \<forall>i < sb_ninodes sb. BBLOCK b sb \<noteq> IBLOCK i sb)"

abbreviation fs_layout :: "'z fsst_scheme \<Rightarrow> bool" where
  "fs_layout s \<equiv> layout (log_area s) (length (bc_disk s)) (fs_sb s) (bview s)"

lemma layout_free:
  assumes "layout area len sb v" and "b < sb_size sb" and "\<not> used sb v b"
  shows "b \<notin> area" "b < len" "b \<noteq> BBLOCK c sb \<or> \<not> c < sb_size sb" "b \<notin> meta area sb"
proof -
  show m: "b \<notin> meta area sb" using assms unfolding layout_def by blast
  then show "b \<notin> area" "b \<noteq> BBLOCK c sb \<or> \<not> c < sb_size sb" unfolding meta_def by blast+
  show "b < len" using assms(1,2) by (simp add: layout_def)
qed

section \<open>Allocation\<close>

definition zeros :: block where
  "zeros = replicate BSIZE 0"

lemma length_zeros [simp]: "length zeros = BSIZE"
  by (simp add: zeros_def)

lemma bzero_ok:
  assumes "in_txn s" and "n < length (bc_disk s)" "n \<notin> log_area s" "n \<notin> ran (bheld s)" "0 < bavail s" "0 < log_left s"
  shows "\<exists>t. bzero ROOTDEV n s = Ok t \<and> lc.after [(n, zeros)] s t"
proof -
  have room: "n \<in> bdirty s \<or> 0 < bavail s" using assms(5) by simp
  from lc.log_block [OF assms(1-4) room assms(6)] obtain i s1 where r: "bread ROOTDEV n s = Ok (i, s1)"
    and w: "\<And>d. length d = BSIZE \<Longrightarrow> \<exists>s2 s3. log_write i (set_data i d s1) = Ok s2 \<and> brelse i s2 = Ok s3 \<and> lc.after [(n, d)] s s3"
    by blast
  from w [OF length_zeros] r show ?thesis by (auto simp: bzero_def zeros_def)
qed

lemma group_bits:
  assumes "b mod BPB = 0" and "bi < BPB"
  shows "BBLOCK (b + bi) sb = BBLOCK b sb" and "(b + bi) mod BPB = bi"
proof -
  obtain k where k: "b = BPB * k" using assms(1) by (auto simp: mod_eq_0_iff_dvd dvd_def)
  show "BBLOCK (b + bi) sb = BBLOCK b sb" using assms(2) by (simp add: BBLOCK_def k div_add1_eq)
  show "(b + bi) mod BPB = bi" using assms(2) by (simp add: k)
qed

text \<open>What \<^verbatim>\<open>balloc\<close> needs of the rest of the kernel: nobody holds the free map or a free block.\<close>

definition unheld_free :: "'z fsst_scheme \<Rightarrow> bool" where
  "unheld_free s \<longleftrightarrow> (\<forall>b < sb_size (fs_sb s). BBLOCK b (fs_sb s) \<notin> ran (bheld s)
     \<and> (\<not> used (fs_sb s) (bview s) b \<longrightarrow> b \<notin> ran (bheld s)))"

lemma balloc_group:
  assumes txn: "in_txn s" and lay: "fs_layout s" and free: "unheld_free s" and room: "2 \<le> bavail s" "2 \<le> log_left s"
    and b: "b mod BPB = 0" "b < sb_size (fs_sb s)"
  shows "(\<forall>bi < min BPB (sb_size (fs_sb s) - b). used (fs_sb s) (bview s) (b + bi))
       \<and> (\<exists>s2. balloc_from ROOTDEV (b # bs) s = balloc_from ROOTDEV bs s2 \<and> lc.after [] s s2 \<and> bavail s2 = bavail s \<and> log_left s2 = log_left s)
     \<or> (\<exists>a t. balloc_from ROOTDEV (b # bs) s = Ok (a, t) \<and> a < sb_size (fs_sb s) \<and> \<not> used (fs_sb s) (bview s) a
         \<and> fs_after [mark (fs_sb s) (bview s) a, (a, zeros)] (fs_inode s) s t)"
proof -
  let ?n = "BBLOCK b (fs_sb s)" and ?d = "bview s (BBLOCK b (fs_sb s))" and ?k = "min BPB (sb_size (fs_sb s) - b)"
  have n: "?n < length (bc_disk s)" "?n \<notin> log_area s" using lay b(2) by (simp_all add: layout_def)
  have nh: "?n \<notin> ran (bheld s)" using free b(2) by (simp add: unheld_free_def)
  have rm: "?n \<in> bdirty s \<or> 0 < bavail s" "0 < log_left s" using room by auto
  have us: "used (fs_sb s) (bview s) (b + bi) = bm_used ?d bi" if "bi < ?k" for bi
    using group_bits [OF b(1)] that by (simp add: used_def)
  show ?thesis
  proof (cases "List.find (\<lambda>bi. \<not> bm_used ?d bi) [0..<?k]")
    case None
    then have all: "\<forall>bi < ?k. used (fs_sb s) (bview s) (b + bi)" using us by (auto simp: find_None_iff)
    from lc.txn_read [OF txn n nh rm(1)] obtain i s1 s2 where r: "bread ROOTDEV ?n s = Ok (i, s1)"
      "bdata s1 i = ?d" "(bc_pid s1, bcache.more s1) = (bc_pid s, bcache.more s)" "brelse i s1 = Ok s2"
      "lc.after [] s s2" "bavail s2 = bavail s" "log_left s2 = log_left s" by blast
    have "balloc_from ROOTDEV (b # bs) s = balloc_from ROOTDEV bs s2"
      using r(1,2,4) None fs_rest(1) [OF r(3)] by (simp add: bdata_def Let_def)
    then show ?thesis using all r(5-7) by blast
  next
    case (Some bi)
    then have bi: "bi < ?k" "\<not> bm_used ?d bi" by (auto dest: find_in)
    define a where "a = b + bi"
    have a: "a < sb_size (fs_sb s)" "\<not> used (fs_sb s) (bview s) a" "BBLOCK a (fs_sb s) = ?n" "a mod BPB = bi"
      using bi us [OF bi(1)] b group_bits [OF b(1), of bi] by (auto simp: a_def)
    note lf = layout_free [OF lay a(1,2)]
    from lc.log_block [OF txn n nh rm] obtain i s1 where r: "bread ROOTDEV ?n s = Ok (i, s1)" "bdata s1 i = ?d"
      "(bc_pid s1, bcache.more s1) = (bc_pid s, bcache.more s)"
      and w: "\<And>d. length d = BSIZE \<Longrightarrow> \<exists>s2 s3. log_write i (set_data i d s1) = Ok s2 \<and> brelse i s2 = Ok s3 \<and> lc.after [(?n, d)] s s3"
      by blast
    have len: "length ?d = BSIZE" by (rule bview_len) (use txn n in \<open>auto simp: in_txn_def log_wf_def\<close>)
    then have "length (bm_mark bi ?d) = BSIZE" by simp
    from w [OF this] obtain s2 s3 where m: "log_write i (set_data i (bm_mark bi ?d) s1) = Ok s2" "brelse i s2 = Ok s3"
      "lc.after [(?n, bm_mark bi ?d)] s s3" by blast
    have "\<exists>t. bzero ROOTDEV a s3 = Ok t \<and> lc.after [(a, zeros)] s3 t"
      by (rule bzero_ok)
        (use m(3) lf(1,2) room free a(1,2) in \<open>auto simp: lc.after_def unheld_free_def\<close>)
    then obtain t where t: "bzero ROOTDEV a s3 = Ok t" "lc.after [(a, zeros)] s3 t" by blast
    have "balloc_from ROOTDEV (b # bs) s = Ok (a, t)"
      using r(1,2) Some m t fs_rest(1) [OF r(3)] by (simp add: bdata_def Let_def a_def)
    moreover have "lc.after [mark (fs_sb s) (bview s) a, (a, zeros)] s t"
      using lc.after_trans [OF m(3) t(2)] a(3,4) by (simp add: mark_def)
    ultimately show ?thesis using a lc_after_fs by blast
  qed
qed

lemma balloc_from_ok:
  assumes "in_txn s" and "fs_layout s" and "unheld_free s" and "2 \<le> bavail s" "2 \<le> log_left s"
    and "\<And>b. b \<in> set bs \<Longrightarrow> b mod BPB = 0 \<and> b < sb_size (fs_sb s)"
    and "b \<in> set bs" "bi < min BPB (sb_size (fs_sb s) - b)" "\<not> used (fs_sb s) (bview s) (b + bi)"
  shows "\<exists>a t. balloc_from ROOTDEV bs s = Ok (a, t) \<and> a < sb_size (fs_sb s) \<and> \<not> used (fs_sb s) (bview s) a
     \<and> fs_after [mark (fs_sb s) (bview s) a, (a, zeros)] (fs_inode s) s t"
  using assms
proof (induction bs arbitrary: s)
  case (Cons c bs)
  have c: "c mod BPB = 0" "c < sb_size (fs_sb s)" using Cons.prems(6) [of c] by auto
  from balloc_group [OF Cons.prems(1-5) c, of bs] show ?case
  proof
    assume "\<exists>a t. balloc_from ROOTDEV (c # bs) s = Ok (a, t) \<and> a < sb_size (fs_sb s) \<and> \<not> used (fs_sb s) (bview s) a
         \<and> fs_after [mark (fs_sb s) (bview s) a, (a, zeros)] (fs_inode s) s t"
    then show ?thesis .
  next
    assume "(\<forall>bi < min BPB (sb_size (fs_sb s) - c). used (fs_sb s) (bview s) (c + bi))
       \<and> (\<exists>s2. balloc_from ROOTDEV (c # bs) s = balloc_from ROOTDEV bs s2 \<and> lc.after [] s s2 \<and> bavail s2 = bavail s \<and> log_left s2 = log_left s)"
    then obtain s2 where all: "\<forall>bi < min BPB (sb_size (fs_sb s) - c). used (fs_sb s) (bview s) (c + bi)"
      and s2: "balloc_from ROOTDEV (c # bs) s = balloc_from ROOTDEV bs s2" "lc.after [] s s2" "bavail s2 = bavail s"
      "log_left s2 = log_left s" by blast
    have f: "in_txn s2" "bheld s2 = bheld s" "bview s2 = bview s" "bc_disk s2 = bc_disk s" "log_area s2 = log_area s"
      "fs_sb s2 = fs_sb s" "fs_inode s2 = fs_inode s"
      using lc_after_fs [OF s2(2)] by (simp_all add: fs_after_def)
    have "b \<in> set bs" using Cons.prems(7-9) all by auto
    moreover have "fs_layout s2" "unheld_free s2" using Cons.prems(2,3) f by (simp_all add: unheld_free_def)
    ultimately obtain a t where r: "balloc_from ROOTDEV bs s2 = Ok (a, t)" "a < sb_size (fs_sb s2)"
      "\<not> used (fs_sb s2) (bview s2) a" "fs_after [mark (fs_sb s2) (bview s2) a, (a, zeros)] (fs_inode s2) s2 t"
      using Cons.IH [of s2] f Cons.prems(4-6,8,9) s2(3,4) by auto
    have "fs_after ([] @ [mark (fs_sb s) (bview s) a, (a, zeros)]) (fs_inode s) s t"
      using fs_after_trans [OF lc_after_fs [OF s2(2)]] r(4) f by simp
    then show ?thesis using r s2(1) f by auto
  qed
qed simp

lemma balloc_ok:
  assumes "in_txn s" and "fs_layout s" and "unheld_free s" and "2 \<le> bavail s" "2 \<le> log_left s"
    and "\<exists>b < sb_size (fs_sb s). \<not> used (fs_sb s) (bview s) b"
  shows "\<exists>a t. balloc ROOTDEV s = Ok (a, t) \<and> a < sb_size (fs_sb s) \<and> \<not> used (fs_sb s) (bview s) a
     \<and> fs_after [mark (fs_sb s) (bview s) a, (a, zeros)] (fs_inode s) s t"
proof -
  let ?n = "sb_size (fs_sb s)"
  let ?gs = "map (\<lambda>k. k * BPB) [0..<(?n + BPB - 1) div BPB]"
  obtain x where x: "x < ?n" "\<not> used (fs_sb s) (bview s) x" using assms(6) by blast
  have "x div BPB < (?n + BPB - 1) div BPB"
  proof -
    have "(x + BPB) div BPB \<le> (?n + BPB - 1) div BPB" using x(1) BPB_pos by (intro div_le_mono) simp
    moreover have "(x + BPB) div BPB = Suc (x div BPB)" using BPB_pos by (simp add: div_add_self2)
    ultimately show ?thesis by simp
  qed
  then have mem: "x div BPB * BPB \<in> set ?gs" by auto
  have grp: "b mod BPB = 0 \<and> b < ?n" if g: "b \<in> set ?gs" for b
  proof -
    from g obtain k where "k \<in> set [0..<(?n + BPB - 1) div BPB]" and kb: "b = k * BPB"
      unfolding set_map image_iff by blast
    then have k: "b = k * BPB" "k < (?n + BPB - 1) div BPB" by simp_all
    then have "Suc k * BPB \<le> ?n + BPB - 1" using BPB_pos by (metis Suc_leI div_times_less_eq_dividend mult_le_mono1 order_trans)
    then show ?thesis using k(1) BPB_pos by simp
  qed
  have "x mod BPB < min BPB (?n - x div BPB * BPB)"
    using x(1) BPB_pos div_mult_mod_eq [of x BPB] by (auto simp: less_diff_conv)
  moreover have "x div BPB * BPB + x mod BPB = x" by simp
  ultimately show ?thesis
    unfolding balloc_def using balloc_from_ok [OF assms(1-5) grp mem] x(2) by simp
qed

section \<open>Freeing\<close>

lemma readsb_ok:
  assumes "in_txn s" and "1 < length (bc_disk s)" "1 \<notin> log_area s" "1 \<notin> ran (bheld s)" "0 < bavail s"
  shows "\<exists>t. readsb ROOTDEV s = Ok (dec_superblock (bview s 1), t) \<and> lc.after [] s t
     \<and> bavail t = bavail s \<and> log_left t = log_left s"
proof -
  have room: "1 \<in> bdirty s \<or> 0 < bavail s" using assms(5) by simp
  from lc.txn_read [OF assms(1-4) room] obtain i s1 s2 where r: "bread ROOTDEV 1 s = Ok (i, s1)"
    "bdata s1 i = bview s 1" "brelse i s1 = Ok s2" "lc.after [] s s2" "bavail s2 = bavail s" "log_left s2 = log_left s"
    by blast
  then show ?thesis by (simp add: readsb_def bdata_def Let_def)
qed

lemma fs_sb_upd [simp]:
  "bc_wf (s\<lparr>fs_sb := sb\<rparr>) = bc_wf s" "bheld (s\<lparr>fs_sb := sb\<rparr>) = bheld s" "bview (s\<lparr>fs_sb := sb\<rparr>) = bview s"
  "bdirty (s\<lparr>fs_sb := sb\<rparr>) = bdirty s" "bavail (s\<lparr>fs_sb := sb\<rparr>) = bavail s"
  by (rule cache_cong; simp)+

lemma fs_sb_log [simp]:
  "in_txn (s\<lparr>fs_sb := sb\<rparr>) = in_txn s" "log_left (s\<lparr>fs_sb := sb\<rparr>) = log_left s" "log_area (s\<lparr>fs_sb := sb\<rparr>) = log_area s"
  by (simp_all add: in_txn_def log_wf_def log_geom_def homes_def log_area_def log_left_def)

lemma fs_sb_same: "fs_sb s = sb \<Longrightarrow> s\<lparr>fs_sb := sb\<rparr> = s"
  by (cases s) simp

lemma bfree_ok:
  assumes txn: "in_txn s" and lay: "fs_layout s" and sb: "dec_superblock (bview s 1) = fs_sb s"
    and one: "1 < length (bc_disk s)" "1 \<notin> log_area s" "1 \<notin> ran (bheld s)"
    and b: "b < sb_size (fs_sb s)" "BBLOCK b (fs_sb s) \<notin> ran (bheld s)" and room: "0 < bavail s" "0 < log_left s"
  shows "if used (fs_sb s) (bview s) b
     then \<exists>t. bfree ROOTDEV b s = Ok t \<and> fs_after [unmark (fs_sb s) (bview s) b] (fs_inode s) s t
     else bfree ROOTDEV b s = Panic ''freeing free block''"
proof -
  let ?n = "BBLOCK b (fs_sb s)" and ?d = "bview s (BBLOCK b (fs_sb s))"
  have n: "?n < length (bc_disk s)" "?n \<notin> log_area s" using lay b(1) by (simp_all add: layout_def)
  from readsb_ok [OF txn one room(1)] sb obtain u where u: "readsb ROOTDEV s = Ok (fs_sb s, u)" "lc.after [] s u"
    "bavail u = bavail s" "log_left u = log_left s" by auto
  have f: "in_txn u" "bheld u = bheld s" "bview u = bview s" "bc_disk u = bc_disk s" "log_area u = log_area s"
    "fs_sb u = fs_sb s" "fs_inode u = fs_inode s"
    using lc_after_fs [OF u(2)] by (simp_all add: fs_after_def)
  have same: "u\<lparr>fs_sb := fs_sb s\<rparr> = u" by (rule fs_sb_same) (rule f(6))
  have nu: "?n < length (bc_disk u)" "?n \<notin> log_area u" "?n \<notin> ran (bheld u)" "?n \<in> bdirty u \<or> 0 < bavail u" "0 < log_left u"
    using f n b room u by simp_all
  from lc.log_block [OF f(1) nu] f(3) obtain i s1 where r: "bread ROOTDEV ?n u = Ok (i, s1)" "bdata s1 i = ?d"
    and w: "\<And>d. length d = BSIZE \<Longrightarrow> \<exists>s2 s3. log_write i (set_data i d s1) = Ok s2 \<and> brelse i s2 = Ok s3 \<and> lc.after [(?n, d)] u s3"
    by metis
  have run: "bfree ROOTDEV b s = (if \<not> bm_used ?d (b mod BPB) then Panic ''freeing free block''
      else bind_res (log_write i (set_data i (bm_clear (b mod BPB) ?d) s1)) (\<lambda>s. brelse i s))"
    using u(1) r f(6) by (simp add: bfree_def bdata_def Let_def same)
  have len: "length ?d = BSIZE" by (rule bview_len) (use txn n in \<open>auto simp: in_txn_def log_wf_def\<close>)
  show ?thesis
  proof (cases "used (fs_sb s) (bview s) b")
    case True
    from len have "length (bm_clear (b mod BPB) ?d) = BSIZE" by simp
    from w [OF this] obtain s2 s3 where m: "log_write i (set_data i (bm_clear (b mod BPB) ?d) s1) = Ok s2"
      "brelse i s2 = Ok s3" "lc.after [(?n, bm_clear (b mod BPB) ?d)] u s3" by blast
    have "fs_after ([] @ [unmark (fs_sb s) (bview s) b]) (fs_inode s) s s3"
      using fs_after_trans [OF lc_after_fs [OF u(2)] lc_after_fs [OF m(3)]] f by (simp add: unmark_def)
    then show ?thesis using True run m by (auto simp: used_def)
  next
    case False
    then show ?thesis using run by (simp add: used_def)
  qed
qed

section \<open>Properties\<close>

text \<open>
  C6. \<^verbatim>\<open>balloc\<close>, called inside a transaction while some block is free, returns a block that was
  free: none of the log's, the free map's or the inodes' blocks. Afterwards exactly this block is
  marked as used in addition, its contents are zero, every other block outside the free map
  has its old contents, and nothing has been written to the disk yet.
\<close>

theorem balloc_allocates:
  assumes "in_txn s" and "fs_layout s" and "unheld_free s" and "2 \<le> bavail s" "2 \<le> log_left s"
    and "\<exists>b < sb_size (fs_sb s). \<not> used (fs_sb s) (bview s) b"
  shows "\<exists>a t. balloc ROOTDEV s = Ok (a, t) \<and> in_txn t
     \<and> a < sb_size (fs_sb s) \<and> \<not> used (fs_sb s) (bview s) a \<and> a \<notin> meta (log_area s) (fs_sb s)
     \<and> (\<forall>b < sb_size (fs_sb s). used (fs_sb t) (bview t) b \<longleftrightarrow> b = a \<or> used (fs_sb s) (bview s) b)
     \<and> bview t a = replicate BSIZE 0 \<and> (\<forall>b. b \<noteq> a \<and> b \<noteq> BBLOCK a (fs_sb s) \<longrightarrow> bview t b = bview s b)
     \<and> bc_disk t = bc_disk s \<and> bheld t = bheld s"
proof -
  from balloc_ok [OF assms] obtain a t where r: "balloc ROOTDEV s = Ok (a, t)" "a < sb_size (fs_sb s)"
    "\<not> used (fs_sb s) (bview s) a" "fs_after [mark (fs_sb s) (bview s) a, (a, zeros)] (fs_inode s) s t" by blast
  note lf = layout_free [OF assms(2) r(2,3)]
  have n: "BBLOCK a (fs_sb s) < length (bc_disk s)" using assms(2) r(2) by (simp add: layout_def)
  have len: "length (bview s (BBLOCK a (fs_sb s))) = BSIZE"
    by (rule bview_len) (use assms(1) n in \<open>auto simp: in_txn_def log_wf_def\<close>)
  have f: "in_txn t" "bheld t = bheld s" "bc_disk t = bc_disk s" "fs_sb t = fs_sb s"
    "bview t = (bview s)(BBLOCK a (fs_sb s) := bm_mark (a mod BPB) (bview s (BBLOCK a (fs_sb s))), a := zeros)"
    using r(4) by (simp_all add: fs_after_def mark_def)
  have "used (fs_sb t) (bview t) b \<longleftrightarrow> b = a \<or> used (fs_sb s) (bview s) b" if "b < sb_size (fs_sb s)" for b
  proof -
    have "BBLOCK b (fs_sb s) \<noteq> a" using lf(3) [of b] that by auto
    then show ?thesis using used_mark [where v = "bview s" and b = a and sb = "fs_sb s", OF len, of b] by (simp add: f(4,5) used_def mark_def)
  qed
  then show ?thesis using r(1-3) lf(4) f by (auto simp: zeros_def)
qed

text \<open>
  \<^verbatim>\<open>bfree\<close> of a used block marks exactly this block as free; freeing a block that is free
  already stops the machine instead of corrupting the map.
\<close>

theorem bfree_frees:
  assumes "in_txn s" and "fs_layout s" and "dec_superblock (bview s 1) = fs_sb s"
    and "1 < length (bc_disk s)" "1 \<notin> log_area s" "1 \<notin> ran (bheld s)"
    and "b < sb_size (fs_sb s)" "BBLOCK b (fs_sb s) \<notin> ran (bheld s)" and "0 < bavail s" "0 < log_left s"
  shows "if used (fs_sb s) (bview s) b
     then \<exists>t. bfree ROOTDEV b s = Ok t \<and> in_txn t
       \<and> (\<forall>c. used (fs_sb t) (bview t) c \<longleftrightarrow> c \<noteq> b \<and> used (fs_sb s) (bview s) c)
       \<and> (\<forall>c. c \<noteq> BBLOCK b (fs_sb s) \<longrightarrow> bview t c = bview s c) \<and> bc_disk t = bc_disk s \<and> bheld t = bheld s
     else bfree ROOTDEV b s = Panic ''freeing free block''"
proof (cases "used (fs_sb s) (bview s) b")
  case True
  with bfree_ok [OF assms] obtain t where t: "bfree ROOTDEV b s = Ok t" "fs_after [unmark (fs_sb s) (bview s) b] (fs_inode s) s t"
    by auto
  have n: "BBLOCK b (fs_sb s) < length (bc_disk s)" using assms(2,7) by (simp add: layout_def)
  have len: "length (bview s (BBLOCK b (fs_sb s))) = BSIZE"
    by (rule bview_len) (use assms(1) n in \<open>auto simp: in_txn_def log_wf_def\<close>)
  have f: "in_txn t" "bheld t = bheld s" "bc_disk t = bc_disk s" "fs_sb t = fs_sb s"
    "bview t = (bview s)(fst (unmark (fs_sb s) (bview s) b) := snd (unmark (fs_sb s) (bview s) b))"
    using t(2) by (simp_all add: fs_after_def unmark_def)
  have "used (fs_sb t) (bview t) c \<longleftrightarrow> c \<noteq> b \<and> used (fs_sb s) (bview s) c" for c
    unfolding f(4,5) by (rule used_unmark) (rule len)
  then show ?thesis using True t(1) f by (auto simp: unmark_def)
next
  case False
  then show ?thesis using bfree_ok [OF assms] by simp
qed

end
