(* ===== verification/Fs_Inode.thy ===== *)
theory Fs_Inode
  imports Fs_Blocks
begin

text \<open>
  The inodes of \<^verbatim>\<open>src/fs.c\<close>: their encoding in inode blocks, the inode cache, and \<^verbatim>\<open>ilock\<close> and \<^verbatim>\<open>iupdate\<close>.
\<close>

section \<open>Encoding\<close>

lemma slice_patch_in:
  assumes "off + length xs \<le> length bs" and "k + n \<le> length xs"
  shows "slice (off + k) n (patch off xs bs) = slice k n xs"
  by (rule nth_equalityI) (use assms in \<open>auto simp: nth_patch\<close>)

lemma slice_append1: "k + n \<le> length xs \<Longrightarrow> slice k n (xs @ ys) = slice k n xs"
  by (simp add: slice_def)

lemma slice_append2: "length xs \<le> k \<Longrightarrow> slice k n (xs @ ys) = slice (k - length xs) n ys"
  by (simp add: slice_def)

lemma slice_full: "length xs = n \<Longrightarrow> slice 0 n xs = xs"
  by (simp add: slice_def)

lemma slice_concat:
  assumes "\<And>x. x \<in> set xss \<Longrightarrow> length x = n" and "i < length xss"
  shows "slice (n * i) n (concat xss) = xss ! i"
  using assms
proof (induction xss arbitrary: i)
  case (Cons x xss)
  then show ?case by (cases i) (auto simp: slice_append1 slice_append2 slice_full)
qed simp

lemma length_concat_le [simp]: "length (concat (map (le_bytes k) xs)) = k * length xs"
  by (induction xs) auto

definition dinode_ok :: "dinode \<Rightarrow> bool" where
  "dinode_ok di \<longleftrightarrow> di_type di < 2 ^ 16 \<and> di_major di < 2 ^ 16 \<and> di_minor di < 2 ^ 16 \<and> di_nlink di < 2 ^ 16
     \<and> di_size di < 2 ^ 32 \<and> length (di_addrs di) = NDIRECT + 1 \<and> (\<forall>a \<in> set (di_addrs di). a < 2 ^ 32)"

definition dinode_bytes :: "dinode \<Rightarrow> byte list" where
  "dinode_bytes di = le_bytes 2 (di_type di) @ le_bytes 2 (di_major di) @ le_bytes 2 (di_minor di)
       @ le_bytes 2 (di_nlink di) @ le_bytes 4 (di_size di) @ concat (map (le_bytes 4) (di_addrs di))"

lemma length_dinode_bytes: "dinode_ok di \<Longrightarrow> length (dinode_bytes di) = 64"
  by (simp add: dinode_ok_def dinode_bytes_def NDIRECT_def)

lemma dinode_bytes_slices:
  assumes "dinode_ok di"
  shows "slice 0 2 (dinode_bytes di) = le_bytes 2 (di_type di)" "slice 2 2 (dinode_bytes di) = le_bytes 2 (di_major di)"
    "slice 4 2 (dinode_bytes di) = le_bytes 2 (di_minor di)" "slice 6 2 (dinode_bytes di) = le_bytes 2 (di_nlink di)"
    "slice 8 4 (dinode_bytes di) = le_bytes 4 (di_size di)"
    "\<And>i. i < NDIRECT + 1 \<Longrightarrow> slice (12 + 4 * i) 4 (dinode_bytes di) = le_bytes 4 (di_addrs di ! i)"
proof -
  show "slice 0 2 (dinode_bytes di) = le_bytes 2 (di_type di)" "slice 2 2 (dinode_bytes di) = le_bytes 2 (di_major di)"
    "slice 4 2 (dinode_bytes di) = le_bytes 2 (di_minor di)" "slice 6 2 (dinode_bytes di) = le_bytes 2 (di_nlink di)"
    "slice 8 4 (dinode_bytes di) = le_bytes 4 (di_size di)"
    by (simp_all add: dinode_bytes_def slice_append1 slice_append2 slice_full)
  show "slice (12 + 4 * i) 4 (dinode_bytes di) = le_bytes 4 (di_addrs di ! i)" if "i < NDIRECT + 1" for i
  proof -
    have "slice (4 * i) 4 (concat (map (le_bytes 4) (di_addrs di))) = map (le_bytes 4) (di_addrs di) ! i"
      by (rule slice_concat) (use assms that in \<open>auto simp: dinode_ok_def\<close>)
    then show ?thesis using assms that by (simp add: dinode_bytes_def slice_append2 dinode_ok_def)
  qed
qed

lemma enc_dinode_bytes: "enc_dinode off di d = patch off (dinode_bytes di) d"
  by (simp add: enc_dinode_def dinode_bytes_def)

lemma dec_enc_dinode:
  assumes ok: "dinode_ok di" and off: "off + 64 \<le> length d"
  shows "dec_dinode off (enc_dinode off di d) = di"
proof -
  note len = length_dinode_bytes [OF ok]
  note sl = dinode_bytes_slices [OF ok]
  have s: "slice (off + k) n (enc_dinode off di d) = slice k n (dinode_bytes di)" if "k + n \<le> 64" for k n
    using that off len by (simp add: enc_dinode_bytes slice_patch_in)
  have s0: "slice off 2 (enc_dinode off di d) = slice 0 2 (dinode_bytes di)" using s [of 0 2] by simp
  have a: "ld32 (off + 12 + 4 * i) (enc_dinode off di d) = di_addrs di ! i" if i: "i < NDIRECT + 1" for i
  proof -
    have "slice (off + (12 + 4 * i)) 4 (enc_dinode off di d) = le_bytes 4 (di_addrs di ! i)"
      using s [of "12 + 4 * i" 4] sl(6) [OF i] i by (simp add: NDIRECT_def)
    moreover have "di_addrs di ! i < 2 ^ 32" using ok i by (simp add: dinode_ok_def)
    ultimately show ?thesis by (simp add: ld32_def add.assoc)
  qed
  have addrs: "map (\<lambda>i. ld32 (off + 12 + 4 * i) (enc_dinode off di d)) [0..<NDIRECT + 1] = di_addrs di"
    by (rule nth_equalityI) (use ok a in \<open>auto simp: dinode_ok_def simp del: upt_Suc\<close>)
  show ?thesis
    unfolding dec_dinode_def addrs ld16_def s0 sl(1)
    using ok s [of 2 2] s [of 4 2] s [of 6 2] s [of 8 4] sl
    by (cases di) (simp add: dinode_ok_def ld32_def)
qed

lemma dec_enc_dinode_other:
  assumes ok: "dinode_ok di" and off: "off + 64 \<le> length d" "off' + 64 \<le> length d" and dj: "off' + 64 \<le> off \<or> off + 64 \<le> off'"
  shows "dec_dinode off' (enc_dinode off di d) = dec_dinode off' d"
proof -
  note len = length_dinode_bytes [OF ok]
  have s: "slice (off' + k) n (enc_dinode off di d) = slice (off' + k) n d" if "k + n \<le> 64" for k n
    using that off dj len by (auto simp: enc_dinode_bytes slice_patch_other)
  have s0: "slice off' 2 (enc_dinode off di d) = slice off' 2 d" using s [of 0 2] by simp
  have "slice (off' + 12 + 4 * i) 4 (enc_dinode off di d) = slice (off' + 12 + 4 * i) 4 d" if "i < NDIRECT + 1" for i
    using s [of "12 + 4 * i" 4] that by (simp add: NDIRECT_def add.assoc)
  then show ?thesis
    using s [of 2 2] s [of 4 2] s [of 6 2] s [of 8 4] s0
    by (simp add: dec_dinode_def ld16_def ld32_def cong: map_cong del: upt_Suc)
qed

lemma dec_dinode_ok: "off + 64 \<le> length d \<Longrightarrow> dinode_ok (dec_dinode off d)"
  by (auto simp: dec_dinode_def dinode_ok_def NDIRECT_def simp del: upt_Suc)

lemma IOFF_bound: "IOFF inum + 64 \<le> BSIZE"
  by (simp add: IOFF_def IPB_def BSIZE_def)

lemma IOFF_disjoint: "IOFF i \<noteq> IOFF j \<Longrightarrow> IOFF i + 64 \<le> IOFF j \<or> IOFF j + 64 \<le> IOFF i"
  by (auto simp: IOFF_def)

lemma same_inode_slot: "IBLOCK i sb = IBLOCK j sb \<Longrightarrow> IOFF i = IOFF j \<Longrightarrow> i = j"
  by (metis BSIZE_def IBLOCK_def IOFF_def add_right_cancel div_mult_mod_eq mult_cancel1 zero_neq_numeral)

text \<open>Inode \<open>inum\<close> as the view \<open>v\<close> of the disk has it.\<close>

definition disk_inode :: "superblock \<Rightarrow> (nat \<Rightarrow> block) \<Rightarrow> nat \<Rightarrow> dinode" where
  "disk_inode sb v inum = dec_dinode (IOFF inum) (v (IBLOCK inum sb))"

lemma disk_inode_update:
  assumes "length (v (IBLOCK inum sb)) = BSIZE" and "dinode_ok di"
  shows "disk_inode sb (v(IBLOCK inum sb := enc_dinode (IOFF inum) di (v (IBLOCK inum sb)))) j
     = (if j = inum then di else disk_inode sb v j)"
proof (cases "IBLOCK j sb = IBLOCK inum sb \<and> j \<noteq> inum")
  case True
  then have "IOFF j \<noteq> IOFF inum" using same_inode_slot by blast
  then show ?thesis
    using True assms dec_enc_dinode_other [OF assms(2)] IOFF_bound [of j] IOFF_bound [of inum] IOFF_disjoint [of j inum]
    by (auto simp: disk_inode_def)
next
  case False
  then show ?thesis using assms dec_enc_dinode [OF assms(2)] IOFF_bound [of inum]
    by (auto simp: disk_inode_def)
qed

section \<open>The inode cache\<close>

text \<open>No two slots in use refer to the same inode.\<close>

definition icache_ok :: "inode list \<Rightarrow> bool" where
  "icache_ok ins \<longleftrightarrow> (\<forall>i < length ins. 0 \<le> i_ref (ins ! i))
     \<and> (\<forall>i < length ins. \<forall>j < length ins. i_ref (ins ! i) > 0 \<and> i_ref (ins ! j) > 0
          \<and> i_dev (ins ! i) = i_dev (ins ! j) \<and> i_inum (ins ! i) = i_inum (ins ! j) \<longrightarrow> i = j)"

lemma icache_ok_same:
  assumes "icache_ok ins" and "i < length ins" and "i_dev ip = i_dev (ins ! i)" "i_inum ip = i_inum (ins ! i)"
    and "0 \<le> i_ref ip" and "i_ref ip > 0 \<Longrightarrow> i_ref (ins ! i) > 0"
  shows "icache_ok (ins[i := ip])"
  unfolding icache_ok_def
proof (intro conjI allI impI)
  fix k assume "k < length (ins[i := ip])"
  then show "0 \<le> i_ref (ins[i := ip] ! k)" using assms by (auto simp: icache_ok_def nth_list_update)
next
  fix k j assume "k < length (ins[i := ip])" "j < length (ins[i := ip])"
    "i_ref (ins[i := ip] ! k) > 0 \<and> i_ref (ins[i := ip] ! j) > 0
     \<and> i_dev (ins[i := ip] ! k) = i_dev (ins[i := ip] ! j) \<and> i_inum (ins[i := ip] ! k) = i_inum (ins[i := ip] ! j)"
  moreover have "i_ref (ins ! k) > 0" "i_dev (ins ! k) = i_dev (ins[i := ip] ! k)" "i_inum (ins ! k) = i_inum (ins[i := ip] ! k)"
    if "k < length ins" "i_ref (ins[i := ip] ! k) > 0" for k
    using that assms by (cases "k = i", auto)+
  ultimately show "k = j" using assms(1) unfolding icache_ok_def by (metis length_list_update)
qed

lemma icache_ok_new:
  assumes "icache_ok ins" and "i < length ins" and "0 \<le> i_ref ip"
    and "\<And>j. j < length ins \<Longrightarrow> i_ref (ins ! j) > 0 \<Longrightarrow> \<not> (i_dev (ins ! j) = i_dev ip \<and> i_inum (ins ! j) = i_inum ip)"
  shows "icache_ok (ins[i := ip])"
  unfolding icache_ok_def
proof (intro conjI allI impI)
  fix k assume "k < length (ins[i := ip])"
  then show "0 \<le> i_ref (ins[i := ip] ! k)" using assms by (auto simp: icache_ok_def nth_list_update)
next
  fix k j assume a: "k < length (ins[i := ip])" "j < length (ins[i := ip])"
    "i_ref (ins[i := ip] ! k) > 0 \<and> i_ref (ins[i := ip] ! j) > 0
     \<and> i_dev (ins[i := ip] ! k) = i_dev (ins[i := ip] ! j) \<and> i_inum (ins[i := ip] ! k) = i_inum (ins[i := ip] ! j)"
  show "k = j"
  proof (rule ccontr)
    assume ne: "k \<noteq> j"
    consider "k = i" "j \<noteq> i" | "j = i" "k \<noteq> i" | "k \<noteq> i" "j \<noteq> i" using ne by blast
    then show False
      using a assms(1) assms(4) [of k] assms(4) [of j] ne assms(2) unfolding icache_ok_def by cases auto
  qed
qed

text \<open>
  \<^verbatim>\<open>iget\<close> returns the cache slot of inode \<open>inum\<close>: the one in use for it, with one more reference,
  or else an unused slot, not yet valid, with one reference; it stops the machine only when all
  slots are in use for other inodes. No two slots ever refer to the same inode.
\<close>

theorem iget_unique:
  assumes "icache_ok (fs_inode s)"
  shows "(\<exists>i t. iget dev inum s = Ok (i, t) \<and> i < length (fs_inode s) \<and> icache_ok (fs_inode t)
        \<and> i_dev (get_inode t i) = dev \<and> i_inum (get_inode t i) = inum
        \<and> i_ref (get_inode t i) = i_ref (get_inode s i) + 1
        \<and> (i_ref (get_inode s i) = 0 \<longrightarrow> \<not> i_valid (get_inode t i))
        \<and> (i_ref (get_inode s i) > 0 \<longrightarrow> i_dev (get_inode s i) = dev \<and> i_inum (get_inode s i) = inum)
        \<and> (\<forall>j. j \<noteq> i \<longrightarrow> get_inode t j = get_inode s j))
     \<or> iget dev inum s = Panic ''iget: no inodes'' \<and> (\<forall>ip \<in> set (fs_inode s). i_ref ip > 0)"
proof (cases "first_idx (\<lambda>ip. i_ref ip > 0 \<and> i_dev ip = dev \<and> i_inum ip = inum) (fs_inode s)")
  case (Some i)
  note i = first_idx_SomeD(1,2) [OF Some]
  let ?ip = "(get_inode s i)\<lparr>i_ref := i_ref (get_inode s i) + 1\<rparr>"
  have "icache_ok ((fs_inode s)[i := ?ip])"
    by (rule icache_ok_same [OF assms i(1)]) (use i in auto)
  then show ?thesis using Some i by (intro disjI1 exI conjI) (auto simp: iget_def)
next
  case none: None
  show ?thesis
  proof (cases "first_idx (\<lambda>ip. i_ref ip = 0) (fs_inode s)")
    case None
    then have "\<forall>ip \<in> set (fs_inode s). i_ref ip \<noteq> 0 \<and> 0 \<le> i_ref ip"
      using assms by (auto simp: first_idx_None icache_ok_def in_set_conv_nth)
    then show ?thesis using none None by (force simp: iget_def)
  next
    case (Some i)
    note i = first_idx_SomeD(1,2) [OF Some]
    let ?ip = "(get_inode s i)\<lparr>i_dev := dev, i_inum := inum, i_ref := 1, i_valid := False\<rparr>"
    have "icache_ok ((fs_inode s)[i := ?ip])"
      by (rule icache_ok_new [OF assms i(1)]) (use none in \<open>auto simp: first_idx_None\<close>)
    then show ?thesis using none Some i by (intro disjI1 exI conjI) (auto simp: iget_def)
  qed
qed

section \<open>Loading and storing inodes\<close>

text \<open>An inode that is in use, on the root device, and whose inode block nobody holds.\<close>

definition inode_there :: "'z fsst_scheme \<Rightarrow> nat \<Rightarrow> bool" where
  "inode_there s i \<longleftrightarrow> i < length (fs_inode s) \<and> i_dev (get_inode s i) = ROOTDEV
     \<and> i_inum (get_inode s i) < sb_ninodes (fs_sb s) \<and> IBLOCK (i_inum (get_inode s i)) (fs_sb s) \<notin> ran (bheld s)"

lemma iupdate_ok:
  assumes txn: "in_txn s" and lay: "fs_layout s" and ip: "inode_there s i" and ok: "dinode_ok (inode_dinode (get_inode s i))"
    and room: "0 < bavail s" "0 < log_left s" and inum: "inum = i_inum (get_inode s i)"
  shows "\<exists>t. iupdate i s = Ok t \<and> fs_after [(IBLOCK inum (fs_sb s),
       enc_dinode (IOFF inum) (inode_dinode (get_inode s i)) (bview s (IBLOCK inum (fs_sb s))))] (fs_inode s) s t"
proof -
  let ?n = "IBLOCK inum (fs_sb s)"
  have n: "?n < length (bc_disk s)" "?n \<notin> log_area s" "?n \<notin> ran (bheld s)"
    using lay ip inum by (auto simp: layout_def inode_there_def)
  have rm: "?n \<in> bdirty s \<or> 0 < bavail s" using room by simp
  from lc.log_block [OF txn n rm room(2)] obtain b s1 where r: "bread ROOTDEV ?n s = Ok (b, s1)"
    "bdata s1 b = bview s ?n" "(bc_pid s1, bcache.more s1) = (bc_pid s, bcache.more s)"
    and w: "\<And>d. length d = BSIZE \<Longrightarrow> \<exists>s2 s3. log_write b (set_data b d s1) = Ok s2 \<and> brelse b s2 = Ok s3 \<and> lc.after [(?n, d)] s s3"
    by metis
  have len: "length (bview s ?n) = BSIZE" by (rule bview_len) (use txn n in \<open>auto simp: in_txn_def log_wf_def\<close>)
  let ?d = "enc_dinode (IOFF inum) (inode_dinode (get_inode s i)) (bview s ?n)"
  have "length ?d = BSIZE" using len IOFF_bound [of inum] length_dinode_bytes [OF ok] by (simp add: enc_dinode_bytes)
  from w [OF this] obtain s2 s3 where m: "log_write b (set_data b ?d s1) = Ok s2" "brelse b s2 = Ok s3"
    "lc.after [(?n, ?d)] s s3" by blast
  have "iupdate i s = Ok s3"
    using r(1,2) m ip fs_rest(2) [OF r(3)] inum by (simp add: iupdate_def inode_there_def Let_def bdata_def)
  then show ?thesis using lc_after_fs [OF m(3)] by blast
qed

text \<open>
  C7. \<^verbatim>\<open>iupdate\<close> stores an in-memory inode: afterwards the inode block holds exactly its type,
  device numbers, link count, size and block addresses, and the other inodes of the same block
  are as before.
\<close>

theorem iupdate_stores:
  assumes "in_txn s" and "fs_layout s" and "inode_there s i" and "dinode_ok (inode_dinode (get_inode s i))"
    and "0 < bavail s" "0 < log_left s"
  shows "\<exists>t. iupdate i s = Ok t \<and> in_txn t \<and> fs_inode t = fs_inode s
     \<and> disk_inode (fs_sb t) (bview t) (i_inum (get_inode s i)) = inode_dinode (get_inode s i)
     \<and> (\<forall>j. j \<noteq> i_inum (get_inode s i) \<longrightarrow> disk_inode (fs_sb t) (bview t) j = disk_inode (fs_sb s) (bview s) j)
     \<and> (\<forall>b. b \<noteq> IBLOCK (i_inum (get_inode s i)) (fs_sb s) \<longrightarrow> bview t b = bview s b)"
proof -
  let ?inum = "i_inum (get_inode s i)"
  let ?n = "IBLOCK ?inum (fs_sb s)"
  from iupdate_ok [OF assms refl] obtain t where t: "iupdate i s = Ok t"
    "fs_after [(?n, enc_dinode (IOFF ?inum) (inode_dinode (get_inode s i)) (bview s ?n))] (fs_inode s) s t" by blast
  have n: "?n < length (bc_disk s)" using assms(2,3) by (auto simp: layout_def inode_there_def)
  have len: "length (bview s ?n) = BSIZE" by (rule bview_len) (use assms(1) n in \<open>auto simp: in_txn_def log_wf_def\<close>)
  show ?thesis using t disk_inode_update [where v = "bview s" and sb = "fs_sb s" and inum = ?inum, OF len assms(4)] by (auto simp: fs_after_def)
qed

text \<open>Reading a block while the inode cache is changed in between.\<close>

lemma brelse_upd_inode:
  assumes txn: "in_txn s1" and h: "bheld s1 b = Some n" and cl: "n \<in> bdirty s1 \<or> bview s1 n = bc_disk s1 ! n"
    and old: "bheld s1 = (bheld s)(b \<mapsto> n)" "bheld s b = None"
  shows "\<exists>t. brelse b (upd_inode i f s1) = Ok t \<and> in_txn t \<and> bheld t = bheld s \<and> bview t = bview s1
     \<and> bc_disk t = bc_disk s1 \<and> bc_trace t = bc_trace s1 \<and> bdirty t = bdirty s1
     \<and> bavail t = bavail s1 + (if n \<in> bdirty s1 then 0 else 1) \<and> log_left t = log_left s1 \<and> log_area t = log_area s1
     \<and> fs_sb t = fs_sb s1 \<and> fs_inode t = (fs_inode s1)[i := f (get_inode s1 i)] \<and> fsst.more t = fsst.more s1 \<and> bc_pid t = bc_pid s1"
proof -
  let ?u = "upd_inode i f s1"
  have u: "bc_wf ?u" "bheld ?u b = Some n" "n \<in> bdirty ?u \<or> bview ?u n = bc_disk ?u ! n"
    using txn h cl by (auto simp: in_txn_def log_wf_def)
  from brelse_spec [OF u] obtain t where t: "brelse b ?u = Ok t" "bc_wf t" "bheld t = (bheld ?u)(b := None)"
    "bview t = bview ?u" "bc_disk t = bc_disk ?u" "bc_trace t = bc_trace ?u" "bdirty t = bdirty ?u"
    "bavail t = bavail ?u + (if n \<in> bdirty ?u then 0 else 1)" "bc_pid t = bc_pid ?u" "bcache.more t = bcache.more ?u"
    by blast
  have hb: "bheld t = bheld s" using t(3) old by (simp add: fun_upd_idem)
  have "ran (bheld s) \<inter> log_area s1 = {}"
  proof -
    have "ran (bheld s) \<subseteq> ran (bheld s1)" using old by (simp add: ran_map_upd subset_insertI)
    then show ?thesis using txn by (auto simp: in_txn_def log_wf_def)
  qed
  then have "in_txn t" "log_left t = log_left s1" "log_area t = log_area s1"
    using in_txn_keep [of ?u t] txn t hb by simp_all
  moreover have "(bc_pid t, bcache.more t) = (bc_pid ?u, bcache.more ?u)" using t(9,10) by simp
  from fs_rest [OF this] have "fs_sb t = fs_sb s1" "fs_inode t = (fs_inode s1)[i := f (get_inode s1 i)]" "fsst.more t = fsst.more s1"
    by simp_all
  ultimately show ?thesis using t hb by auto
qed

text \<open>What \<^verbatim>\<open>ilock\<close> makes of an inode that has to be loaded.\<close>

definition loaded :: "nat \<Rightarrow> dinode \<Rightarrow> inode \<Rightarrow> inode" where
  "loaded pid di ip = ip\<lparr>i_lock := (i_lock ip)\<lparr>sl_locked := True, sl_pid := pid\<rparr>,
     i_type := di_type di, i_major := di_major di, i_minor := di_minor di, i_nlink := di_nlink di,
     i_size := di_size di, i_addrs := di_addrs di, i_valid := True\<rparr>"

lemma ilock_ok:
  assumes txn: "in_txn s" and lay: "fs_layout s" and ip: "inode_there s i" and rf: "1 \<le> i_ref (get_inode s i)"
    and un: "\<not> sl_locked (i_lock (get_inode s i))" and room: "0 < bavail s" and inv: "\<not> i_valid (get_inode s i)"
    and di: "di = disk_inode (fs_sb s) (bview s) (i_inum (get_inode s i))"
  shows "if di_type di = 0 then ilock i s = Panic ''ilock: no type''
     else \<exists>t. ilock i s = Ok t \<and> fs_after [] ((fs_inode s)[i := loaded (bc_pid s) di (get_inode s i)]) s t"
proof -
  let ?inum = "i_inum (get_inode s i)"
  let ?n = "IBLOCK ?inum (fs_sb s)"
  let ?lk = "(i_lock (get_inode s i))\<lparr>sl_locked := True, sl_pid := bc_pid s\<rparr>"
  define u where "u = upd_inode i (\<lambda>ip. ip\<lparr>i_lock := ?lk\<rparr>) s"
  have il: "i < length (fs_inode s)" using ip by (simp add: inode_there_def)
  have n: "?n < length (bc_disk u)" "?n \<notin> log_area u" "?n \<notin> ran (bheld u)" "?n \<in> bdirty u \<or> 0 < bavail u"
    using lay ip room by (auto simp: layout_def inode_there_def u_def)
  have tu: "in_txn u" using txn by (simp add: u_def)
  from lc.txn_take [OF tu n] obtain b s1 where r: "bread ROOTDEV ?n u = Ok (b, s1)" "in_txn s1" "bheld u b = None"
    "bheld s1 = (bheld u)(b \<mapsto> ?n)" "bdata s1 b = bview u ?n" "bview s1 = bview u" "bc_disk s1 = bc_disk u"
    "bc_trace s1 = bc_trace u" "bdirty s1 = bdirty u" "(bc_pid s1, bcache.more s1) = (bc_pid u, bcache.more u)"
    "bavail u = bavail s1 + (if ?n \<in> bdirty u then 0 else 1)" "log_left s1 = log_left u" "log_area s1 = log_area u" by blast
  note fr = fs_rest [OF r(10)]
  have h: "bheld s1 b = Some ?n" using r(4) by simp
  have cl: "?n \<in> bdirty s1 \<or> bview s1 ?n = bc_disk s1 ! ?n"
    using bview_clean [of u ?n] tu n(3) r(6,7,9) by (auto simp: in_txn_def log_wf_def)
  have d: "dec_dinode (IOFF ?inum) (b_data (get_buf s1 b)) = di"
    using r(5) by (simp add: di disk_inode_def bdata_def u_def)
  let ?f = "\<lambda>ip. ip\<lparr>i_type := di_type di, i_major := di_major di, i_minor := di_minor di,
                      i_nlink := di_nlink di, i_size := di_size di, i_addrs := di_addrs di\<rparr>"
  from brelse_upd_inode [OF r(2) h cl r(4,3), of i ?f] obtain t where t: "brelse b (upd_inode i ?f s1) = Ok t"
    "in_txn t" "bheld t = bheld u" "bview t = bview s1" "bc_disk t = bc_disk s1" "bc_trace t = bc_trace s1"
    "bavail t = bavail s1 + (if ?n \<in> bdirty s1 then 0 else 1)" "log_left t = log_left s1" "log_area t = log_area s1"
    "fs_sb t = fs_sb s1" "fs_inode t = (fs_inode s1)[i := ?f (get_inode s1 i)]" "fsst.more t = fsst.more s1" "bc_pid t = bc_pid s1"
    by blast
  have it: "(fs_inode t)[i := (get_inode t i)\<lparr>i_valid := True\<rparr>] = (fs_inode s)[i := loaded (bc_pid s) di (get_inode s i)]"
    using il by (simp add: t(11) fr(2) u_def loaded_def)
  have ty: "i_type ((fs_inode t)[i := (get_inode t i)\<lparr>i_valid := True\<rparr>] ! i) = di_type di"
    unfolding it using il by (simp add: loaded_def)
  have run: "ilock i s = (if di_type di = 0 then Panic ''ilock: no type'' else Ok (upd_inode i (\<lambda>ip. ip\<lparr>i_valid := True\<rparr>) t))"
  proof -
    have "acquiresleep (bc_pid s) (i_lock (get_inode s i)) = Ok ?lk" using un by (simp add: acquiresleep_def)
    moreover have "get_inode u i = (get_inode s i)\<lparr>i_lock := ?lk\<rparr>" "fs_sb u = fs_sb s" using il by (simp_all add: u_def)
    ultimately show ?thesis
      using rf inv r(1) d t(1) ip ty by (simp add: ilock_def Let_def u_def [symmetric] inode_there_def)
  qed
  have "fs_after [] ((fs_inode s)[i := loaded (bc_pid s) di (get_inode s i)]) s (upd_inode i (\<lambda>ip. ip\<lparr>i_valid := True\<rparr>) t)"
    unfolding fs_after_def upd_inode_sel it using t r fr by (auto simp: u_def)
  then show ?thesis using run by auto
qed

text \<open>
  \<^verbatim>\<open>ilock\<close> of an inode that is not valid yet loads it from its inode block: afterwards it is
  locked, valid and equal to the on-disk inode. An inode whose on-disk type is 0 (free) stops
  the machine. No other inode, no block and no link of the cache changes.
\<close>

theorem ilock_loads:
  assumes "in_txn s" and "fs_layout s" and "inode_there s i" and "1 \<le> i_ref (get_inode s i)"
    and "\<not> sl_locked (i_lock (get_inode s i))" and "0 < bavail s" and "\<not> i_valid (get_inode s i)"
  shows "if di_type (disk_inode (fs_sb s) (bview s) (i_inum (get_inode s i))) = 0
     then ilock i s = Panic ''ilock: no type''
     else \<exists>t. ilock i s = Ok t \<and> in_txn t \<and> i_valid (get_inode t i) \<and> sl_locked (i_lock (get_inode t i))
       \<and> inode_dinode (get_inode t i) = disk_inode (fs_sb s) (bview s) (i_inum (get_inode s i))
       \<and> (\<forall>j. j \<noteq> i \<longrightarrow> get_inode t j = get_inode s j) \<and> bview t = bview s \<and> bheld t = bheld s"
proof (cases "di_type (disk_inode (fs_sb s) (bview s) (i_inum (get_inode s i))) = 0")
  case True
  then show ?thesis using ilock_ok [OF assms refl] by simp
next
  case False
  then obtain t where t: "ilock i s = Ok t"
    "fs_after [] ((fs_inode s)[i := loaded (bc_pid s) (disk_inode (fs_sb s) (bview s) (i_inum (get_inode s i))) (get_inode s i)]) s t"
    using ilock_ok [OF assms refl] by auto
  have "i < length (fs_inode s)" using assms(3) by (simp add: inode_there_def)
  then show ?thesis using False t by (auto simp: fs_after_def loaded_def inode_dinode_def)
qed

end
