(* ===== verification/Fs_File.thy ===== *)
theory Fs_File
  imports Fs_Inode
begin

text \<open>
  The contents of files (\<^verbatim>\<open>bmap\<close>, \<^verbatim>\<open>readi\<close>, \<^verbatim>\<open>writei\<close> of \<^verbatim>\<open>src/fs.c\<close>). A file is seen as an array of
  \<^verbatim>\<open>MAXFILE\<close> blocks, in which a block that is not allocated counts as zeros: allocating blocks does
  not change it, and reading and writing are reading and updating a part of it.
\<close>

section \<open>The blocks of a file\<close>

text \<open>The address of block \<open>bn\<close> of a file, 0 if there is none, and the contents of block \<open>bn\<close>.\<close>

definition fa :: "(nat \<Rightarrow> block) \<Rightarrow> nat list \<Rightarrow> nat \<Rightarrow> nat" where
  "fa v as bn = (if bn < NDIRECT then as ! bn
     else if as ! NDIRECT = 0 then 0 else ld32 (4 * (bn - NDIRECT)) (v (as ! NDIRECT)))"

definition fdata :: "(nat \<Rightarrow> block) \<Rightarrow> nat list \<Rightarrow> nat \<Rightarrow> block" where
  "fdata v as bn = (if fa v as bn = 0 then zeros else v (fa v as bn))"

definition fblocks :: "(nat \<Rightarrow> block) \<Rightarrow> nat list \<Rightarrow> nat set" where
  "fblocks v as = (fa v as ` {..<MAXFILE} \<union> {as ! NDIRECT}) - {0}"

text \<open>
  A well-formed file: its blocks and its indirect block are different used blocks of the data area.
\<close>

definition file_ok :: "nat set \<Rightarrow> superblock \<Rightarrow> (nat \<Rightarrow> block) \<Rightarrow> nat list \<Rightarrow> bool" where
  "file_ok area sb v as \<longleftrightarrow> length as = NDIRECT + 1
     \<and> (\<forall>b \<in> fblocks v as. b < sb_size sb \<and> used sb v b \<and> b \<notin> meta area sb)
     \<and> (\<forall>bn < MAXFILE. \<forall>bm < MAXFILE. fa v as bn = fa v as bm \<and> fa v as bn \<noteq> 0 \<longrightarrow> bn = bm)
     \<and> (as ! NDIRECT \<noteq> 0 \<longrightarrow> (\<forall>bn < MAXFILE. fa v as bn \<noteq> as ! NDIRECT))"

definition bitmap_blocks :: "superblock \<Rightarrow> nat set" where
  "bitmap_blocks sb = {BBLOCK b sb | b. b < sb_size sb}"

text \<open>All blocks have the right size, as far as the super block counts them.\<close>

definition sized :: "nat \<Rightarrow> (nat \<Rightarrow> block) \<Rightarrow> bool" where
  "sized len v \<longleftrightarrow> (\<forall>b < len. length (v b) = BSIZE)"

section \<open>Steps that allocate\<close>

text \<open>
  \<open>fstep\<close>: the view and the addresses of one file before and after blocks have been allocated for
  it. The contents of the file and of every other used block outside the free map are the same.
\<close>

definition fstep :: "nat set \<Rightarrow> nat \<Rightarrow> superblock \<Rightarrow> (nat \<Rightarrow> block) \<Rightarrow> nat list \<Rightarrow> (nat \<Rightarrow> block) \<Rightarrow> nat list \<Rightarrow> bool" where
  "fstep area len sb v as v' as' \<longleftrightarrow> file_ok area sb v' as' \<and> layout area len sb v' \<and> sized len v'
     \<and> (\<forall>bn < MAXFILE. fdata v' as' bn = fdata v as bn)
     \<and> (\<forall>bn < MAXFILE. fa v as bn \<noteq> 0 \<longrightarrow> fa v' as' bn = fa v as bn)
     \<and> (\<forall>b < sb_size sb. used sb v b \<longrightarrow> used sb v' b)
     \<and> fblocks v as \<subseteq> fblocks v' as'
     \<and> (\<forall>b \<in> fblocks v' as'. b \<in> fblocks v as \<or> \<not> used sb v b)
     \<and> (\<forall>b. b \<notin> fblocks v as \<longrightarrow> b \<notin> bitmap_blocks sb \<longrightarrow> (b < sb_size sb \<longrightarrow> used sb v b) \<longrightarrow> v' b = v b)"

lemma fstep_refl: "file_ok area sb v as \<Longrightarrow> layout area len sb v \<Longrightarrow> sized len v \<Longrightarrow> fstep area len sb v as v as"
  by (simp add: fstep_def)

lemma fstep_trans:
  assumes a: "fstep area len sb v as v' as'" and b: "fstep area len sb v' as' v'' as''"
  shows "fstep area len sb v as v'' as''"
proof -
  have na: "\<forall>b < sb_size sb. used sb v b \<longrightarrow> used sb v' b"
    "\<forall>b \<in> fblocks v' as'. b \<in> fblocks v as \<or> \<not> used sb v b" "fblocks v as \<subseteq> fblocks v' as'"
    using a by (simp_all add: fstep_def)
  have dom: "\<forall>b \<in> fblocks v'' as''. b < sb_size sb" using b by (simp add: fstep_def file_ok_def)
  have dom': "\<forall>b \<in> fblocks v' as'. b < sb_size sb" using a by (simp add: fstep_def file_ok_def)
  have "v'' b = v b" if b': "b \<notin> fblocks v as" "b \<notin> bitmap_blocks sb" "b < sb_size sb \<longrightarrow> used sb v b" for b
  proof -
    have "b \<notin> fblocks v' as'" using b' na(2) dom' by blast
    moreover have "b < sb_size sb \<longrightarrow> used sb v' b" using b'(3) na(1) by blast
    ultimately have "v'' b = v' b" using b b'(2) by (simp add: fstep_def)
    also have "\<dots> = v b" using a b' by (simp add: fstep_def)
    finally show ?thesis .
  qed
  moreover have "b \<in> fblocks v as \<or> \<not> used sb v b" if "b \<in> fblocks v'' as''" for b
    using that b na(1,2) dom by (auto simp: fstep_def)
  ultimately show ?thesis using a b by (auto simp: fstep_def)
qed

section \<open>The effect of an allocation on the view\<close>

definition alloc_view :: "superblock \<Rightarrow> (nat \<Rightarrow> block) \<Rightarrow> nat \<Rightarrow> nat \<Rightarrow> block" where
  "alloc_view sb v a = v(BBLOCK a sb := bm_mark (a mod BPB) (v (BBLOCK a sb)), a := zeros)"

lemma alloc_view_upd: "upd_all [mark sb v a, (a, zeros)] v = alloc_view sb v a"
  by (simp add: alloc_view_def mark_def)

lemma alloc_view_used:
  assumes lay: "layout area len sb v" and sz: "sized len v" and a: "a < sb_size sb" "\<not> used sb v a" and b: "b < sb_size sb"
  shows "used sb (alloc_view sb v a) b \<longleftrightarrow> b = a \<or> used sb v b"
proof -
  have n: "BBLOCK a sb < len" using lay a(1) by (simp add: layout_def)
  then have len: "length (v (BBLOCK a sb)) = BSIZE" using sz by (simp add: sized_def)
  have "BBLOCK b sb \<noteq> a" using layout_free(3) [OF lay a, of b] b by auto
  then show ?thesis
    using used_mark [where v = v and b = a and sb = sb, OF len, of b] by (simp add: alloc_view_def used_def mark_def)
qed

lemma alloc_view_other: "b \<noteq> a \<Longrightarrow> b \<noteq> BBLOCK a sb \<Longrightarrow> alloc_view sb v a b = v b"
  by (simp add: alloc_view_def)

lemma alloc_view_zero [simp]: "alloc_view sb v a a = zeros"
  by (simp add: alloc_view_def)

lemma alloc_view_layout:
  assumes lay: "layout area len sb v" and sz: "sized len v" and a: "a < sb_size sb" "\<not> used sb v a"
  shows "layout area len sb (alloc_view sb v a)" "sized len (alloc_view sb v a)"
proof -
  show "layout area len sb (alloc_view sb v a)"
    using lay alloc_view_used [OF lay sz a] unfolding layout_def by blast
  show "sized len (alloc_view sb v a)" using sz by (auto simp: sized_def alloc_view_def)
qed

lemma file_blockD:
  assumes "file_ok area sb v as" and "b \<in> fblocks v as"
  shows "b < sb_size sb" "used sb v b" "b \<notin> meta area sb" "b \<noteq> 0" "b \<notin> bitmap_blocks sb" "b \<notin> area"
  using assms by (auto simp: file_ok_def fblocks_def meta_def bitmap_blocks_def)

lemma fa_in_fblocks: "bn < MAXFILE \<Longrightarrow> fa v as bn \<noteq> 0 \<Longrightarrow> fa v as bn \<in> fblocks v as"
  by (auto simp: fblocks_def)

lemma ind_in_fblocks: "as ! NDIRECT \<noteq> 0 \<Longrightarrow> as ! NDIRECT \<in> fblocks v as"
  by (auto simp: fblocks_def)

text \<open>Views that agree on the blocks of a file give the same file.\<close>

lemma fa_cong: "(as ! NDIRECT \<noteq> 0 \<Longrightarrow> v' (as ! NDIRECT) = v (as ! NDIRECT)) \<Longrightarrow> fa v' as = fa v as"
  by (auto simp: fa_def fun_eq_iff)

lemma file_cong:
  assumes "\<And>b. b \<in> fblocks v as \<Longrightarrow> v' b = v b"
  shows "fa v' as = fa v as" "fblocks v' as = fblocks v as" "bn < MAXFILE \<Longrightarrow> fdata v' as bn = fdata v as bn"
proof -
  show f: "fa v' as = fa v as" by (rule fa_cong) (use assms ind_in_fblocks in blast)
  then show "fblocks v' as = fblocks v as" by (simp add: fblocks_def)
  show "fdata v' as bn = fdata v as bn" if "bn < MAXFILE"
    using f assms [OF fa_in_fblocks [OF that]] by (simp add: fdata_def)
qed

text \<open>An allocated block that is not yet part of the file.\<close>

lemma alloc_fstep:
  assumes ok: "file_ok area sb v as" and lay: "layout area len sb v" and sz: "sized len v" and a: "a < sb_size sb" "\<not> used sb v a"
  shows "fstep area len sb v as (alloc_view sb v a) as" "a \<notin> fblocks v as" "fa (alloc_view sb v a) as = fa v as"
    "fblocks (alloc_view sb v a) as = fblocks v as"
proof -
  show na: "a \<notin> fblocks v as" using file_blockD(2) [OF ok] a(2) by blast
  have nb: "BBLOCK a sb \<notin> fblocks v as" using file_blockD(5) [OF ok] a(1) by (auto simp: bitmap_blocks_def)
  have same: "alloc_view sb v a b = v b" if "b \<in> fblocks v as" for b
    using that na nb by (intro alloc_view_other) auto
  note fc = file_cong [where v' = "alloc_view sb v a", OF same]
  show "fa (alloc_view sb v a) as = fa v as" "fblocks (alloc_view sb v a) as = fblocks v as" using fc by simp_all
  have us: "used sb v b \<longrightarrow> used sb (alloc_view sb v a) b" if "b < sb_size sb" for b
    using alloc_view_used [OF lay sz a that] by blast
  have "file_ok area sb (alloc_view sb v a) as"
    using ok us by (simp add: file_ok_def fc(1,2))
  moreover have "alloc_view sb v a b = v b"
    if "b \<notin> bitmap_blocks sb" "b < sb_size sb \<longrightarrow> used sb v b" for b
    by (rule alloc_view_other) (use that a in \<open>auto simp: bitmap_blocks_def\<close>)
  ultimately show "fstep area len sb v as (alloc_view sb v a) as"
    using alloc_view_layout [OF lay sz a] us fc by (simp add: fstep_def)
qed

section \<open>Making an allocated block part of the file\<close>

lemma NDIRECT_less: "NDIRECT < MAXFILE" "bn < NDIRECT \<Longrightarrow> bn < MAXFILE"
  by (simp_all add: NDIRECT_def MAXFILE_def NINDIRECT_def BSIZE_def)

text \<open>A fresh block: zeroed, used, of the data area and not part of the file.\<close>

definition fresh :: "nat set \<Rightarrow> superblock \<Rightarrow> (nat \<Rightarrow> block) \<Rightarrow> nat list \<Rightarrow> nat \<Rightarrow> bool" where
  "fresh area sb v as a \<longleftrightarrow> a < sb_size sb \<and> used sb v a \<and> a \<notin> meta area sb \<and> a \<notin> fblocks v as \<and> v a = zeros"

lemma fresh_alloc:
  assumes ok: "file_ok area sb v as" and lay: "layout area len sb v" and sz: "sized len v" and a: "a < sb_size sb" "\<not> used sb v a"
  shows "fresh area sb (alloc_view sb v a) as a"
  using alloc_fstep [OF assms] alloc_view_used [OF lay sz a a(1)] layout_free(4) [OF lay a] a(1)
  by (simp add: fresh_def)

lemma fresh_ne0: "fresh area sb v as a \<Longrightarrow> a \<noteq> 0"
  by (auto simp: fresh_def meta_def)

text \<open>
  Adding \<open>a\<close> as block \<open>bn\<close>: the new addresses agree with the old ones elsewhere, and the blocks of
  the file keep their contents (the indirect block apart, which the addresses already account for).
\<close>

lemma add_block:
  assumes ok: "file_ok area sb v as" and fr: "fresh area sb v as a" and bn: "bn < MAXFILE" "fa v as bn = 0"
    and len: "length as' = NDIRECT + 1" and ind: "as' ! NDIRECT = as ! NDIRECT"
    and new: "fa v' as' bn = a" and old: "\<And>bm. bm < MAXFILE \<Longrightarrow> bm \<noteq> bn \<Longrightarrow> fa v' as' bm = fa v as bm"
    and us: "\<And>b. b < sb_size sb \<Longrightarrow> used sb v' b = used sb v b"
    and same: "\<And>b. b \<noteq> as ! NDIRECT \<Longrightarrow> v' b = v b"
  shows "file_ok area sb v' as'" "fblocks v' as' = insert a (fblocks v as)"
    "\<And>bm. bm < MAXFILE \<Longrightarrow> fdata v' as' bm = fdata v as bm"
proof -
  have a: "a < sb_size sb" "used sb v a" "a \<notin> meta area sb" "a \<notin> fblocks v as" "v a = zeros" "a \<noteq> 0"
    using fr fresh_ne0 [OF fr] by (simp_all add: fresh_def)
  have "fa v' as' ` {..<MAXFILE} = insert a (fa v as ` ({..<MAXFILE} - {bn}))"
  proof -
    have "{..<MAXFILE} = insert bn ({..<MAXFILE} - {bn})" using bn(1) by auto
    then have "fa v' as' ` {..<MAXFILE} = insert (fa v' as' bn) (fa v' as' ` ({..<MAXFILE} - {bn}))" by (metis image_insert)
    moreover have "fa v' as' ` ({..<MAXFILE} - {bn}) = fa v as ` ({..<MAXFILE} - {bn})"
      by (rule image_cong) (use old in auto)
    ultimately show ?thesis by (simp add: new)
  qed
  also have "\<dots> - {0} = insert a (fa v as ` {..<MAXFILE}) - {0}" using bn(2) by auto
  finally have e: "fa v' as' ` {..<MAXFILE} - {0} = insert a (fa v as ` {..<MAXFILE}) - {0}" .
  show fb: "fblocks v' as' = insert a (fblocks v as)"
    unfolding fblocks_def ind Un_Diff e using a(6) by (simp add: insert_Diff_if)
  have ne: "fa v as bm \<noteq> a" if "bm < MAXFILE" for bm
    using that a(4,6) fa_in_fblocks [OF that, of v as] by auto
  have inj: "bk = bm" if "bk < MAXFILE" "bm < MAXFILE" "fa v' as' bk = fa v' as' bm" "fa v' as' bk \<noteq> 0" for bk bm
    using that new old ne ok unfolding file_ok_def by metis
  have na: "as ! NDIRECT \<noteq> a \<or> as ! NDIRECT = 0" using a(4) ind_in_fblocks by blast
  have "fa v' as' bm \<noteq> as ! NDIRECT" if "as ! NDIRECT \<noteq> 0" "bm < MAXFILE" for bm
    using that new old na ok unfolding file_ok_def by metis
  then show "file_ok area sb v' as'"
    unfolding file_ok_def fb ind using len inj a us ok by (auto simp: file_ok_def)
  show "fdata v' as' bm = fdata v as bm" if bm: "bm < MAXFILE" for bm
  proof (cases "bm = bn")
    case True
    have "v' a = zeros" using same a(4,5,6) ind_in_fblocks [of as v] by (cases "as ! NDIRECT = a") auto
    then show ?thesis using True new bn(2) by (auto simp: fdata_def)
  next
    case False
    then have e: "fa v' as' bm = fa v as bm" using old bm by simp
    have "v' (fa v as bm) = v (fa v as bm)" if "fa v as bm \<noteq> 0"
      by (rule same) (use that ok bm in \<open>auto simp: file_ok_def\<close>)
    then show ?thesis by (simp add: fdata_def e)
  qed
qed

lemma add_direct:
  assumes ok: "file_ok area sb v as" and fr: "fresh area sb v as a" and bn: "bn < NDIRECT" "as ! bn = 0"
  shows "file_ok area sb v (as[bn := a])" "fblocks v (as[bn := a]) = insert a (fblocks v as)"
    "\<And>bm. bm < MAXFILE \<Longrightarrow> fdata v (as[bn := a]) bm = fdata v as bm" "fa v (as[bn := a]) bn = a"
    "\<And>bm. fa v as bm \<noteq> 0 \<Longrightarrow> fa v (as[bn := a]) bm = fa v as bm"
proof -
  have l: "length as = NDIRECT + 1" using ok by (simp add: file_ok_def)
  have f: "fa v as bn = 0" using bn by (simp add: fa_def)
  have n: "fa v (as[bn := a]) bn = a" using bn l by (simp add: fa_def)
  have o: "fa v (as[bn := a]) bm = fa v as bm" if "bm \<noteq> bn" for bm using that bn by (simp add: fa_def)
  have i: "as[bn := a] ! NDIRECT = as ! NDIRECT" "length (as[bn := a]) = NDIRECT + 1" using bn(1) l by simp_all
  note ab = add_block [OF ok fr NDIRECT_less(2) [OF bn(1)] f i(2,1) n o refl refl]
  show "file_ok area sb v (as[bn := a])" by (rule ab(1))
  show "fblocks v (as[bn := a]) = insert a (fblocks v as)" by (rule ab(2))
  show "fdata v (as[bn := a]) bm = fdata v as bm" if "bm < MAXFILE" for bm using ab(3) that by blast
  show "fa v (as[bn := a]) bn = a" by (rule n)
  show "fa v (as[bn := a]) bm = fa v as bm" if "fa v as bm \<noteq> 0" for bm using that o f by (cases "bm = bn") auto
qed

lemma ld32_zeros: "off + 4 \<le> BSIZE \<Longrightarrow> ld32 off zeros = 0"
  by (simp add: ld32_def slice_def zeros_def numeral_eq_Suc)

text \<open>A new indirect block: no address changes.\<close>

lemma add_indirect:
  assumes ok: "file_ok area sb v as" and fr: "fresh area sb v as a" and z: "as ! NDIRECT = 0"
  shows "file_ok area sb v (as[NDIRECT := a])" "fblocks v (as[NDIRECT := a]) = insert a (fblocks v as)"
    "\<And>bm. bm < MAXFILE \<Longrightarrow> fa v (as[NDIRECT := a]) bm = fa v as bm"
proof -
  have l: "length as = NDIRECT + 1" using ok by (simp add: file_ok_def)
  have a: "a < sb_size sb" "used sb v a" "a \<notin> meta area sb" "a \<notin> fblocks v as" "v a = zeros" "a \<noteq> 0"
    using fr fresh_ne0 [OF fr] by (simp_all add: fresh_def)
  show same: "fa v (as[NDIRECT := a]) bm = fa v as bm" if "bm < MAXFILE" for bm
    using that z l a(5,6) ld32_zeros [of "4 * (bm - NDIRECT)"]
    by (auto simp: fa_def MAXFILE_def NINDIRECT_def BSIZE_def)
  then have "fa v (as[NDIRECT := a]) ` {..<MAXFILE} = fa v as ` {..<MAXFILE}" by auto
  then show fb: "fblocks v (as[NDIRECT := a]) = insert a (fblocks v as)"
    using l z a(6) by (auto simp: fblocks_def)
  have "fa v as bm \<noteq> a" if "bm < MAXFILE" for bm
    using that a(4,6) fa_in_fblocks [OF that, of v as] by auto
  then show "file_ok area sb v (as[NDIRECT := a])"
    unfolding file_ok_def fb using ok a l same by (auto simp: file_ok_def)
qed

text \<open>A new entry of the indirect block.\<close>

lemma add_entry:
  assumes ok: "file_ok area sb v as" and fr: "fresh area sb v as a" and sz: "sized len v" "sb_size sb \<le> len" "sb_size sb \<le> 2 ^ 32"
    and x: "x = as ! NDIRECT" "x \<noteq> 0" and k: "k < NINDIRECT" and z: "ld32 (4 * k) (v x) = 0"
    and v': "v' = v(x := st32 (4 * k) a (v x))"
  shows "file_ok area sb v' as" "fblocks v' as = insert a (fblocks v as)"
    "\<And>bm. bm < MAXFILE \<Longrightarrow> fdata v' as bm = fdata v as bm" "fa v' as (NDIRECT + k) = a"
    "\<And>bm. bm < MAXFILE \<Longrightarrow> fa v as bm \<noteq> 0 \<Longrightarrow> fa v' as bm = fa v as bm" "\<And>b. used sb v' b = used sb v b \<or> \<not> b < sb_size sb"
proof -
  have l: "length as = NDIRECT + 1" using ok by (simp add: file_ok_def)
  have xf: "x \<in> fblocks v as" using ind_in_fblocks x by simp
  note xb = file_blockD [OF ok xf]
  have len: "length (v x) = BSIZE" using sz xb(1) by (simp add: sized_def)
  have a: "a < 2 ^ 32" using fr sz(3) by (simp add: fresh_def)
  have off: "4 * j + 4 \<le> BSIZE" if "j < NINDIRECT" for j using that by (simp add: NINDIRECT_def BSIZE_def)
  have bn: "NDIRECT + k < MAXFILE" using k by (simp add: MAXFILE_def)
  have f: "fa v as (NDIRECT + k) = 0" using z x by (simp add: fa_def)
  have n: "fa v' as (NDIRECT + k) = a" using x len off [OF k] a by (simp add: fa_def v')
  have o: "fa v' as bm = fa v as bm" if bm: "bm < MAXFILE" "bm \<noteq> NDIRECT + k" for bm
  proof (cases "bm < NDIRECT")
    case True
    then show ?thesis by (simp add: fa_def)
  next
    case False
    then have j: "bm - NDIRECT < NINDIRECT" "bm - NDIRECT \<noteq> k" using bm by (auto simp: MAXFILE_def)
    then have "ld32 (4 * (bm - NDIRECT)) (st32 (4 * k) a (v x)) = ld32 (4 * (bm - NDIRECT)) (v x)"
      using off [OF j(1)] off [OF k] len by (intro ld32_st32_other) auto
    then show ?thesis using False x by (simp add: fa_def v')
  qed
  have nb: "BBLOCK b sb \<noteq> x" if "b < sb_size sb" for b using xb(5) that by (auto simp: bitmap_blocks_def)
  have us: "used sb v' b = used sb v b" if "b < sb_size sb" for b using nb [OF that] by (simp add: used_def v')
  have same: "v' b = v b" if "b \<noteq> as ! NDIRECT" for b using that x by (simp add: v')
  note ab = add_block [OF ok fr bn f l refl n o us same]
  show "file_ok area sb v' as" by (rule ab(1))
  show "fblocks v' as = insert a (fblocks v as)" by (rule ab(2))
  show "fdata v' as bm = fdata v as bm" if "bm < MAXFILE" for bm using ab(3) that by blast
  show "fa v' as (NDIRECT + k) = a" by (rule n)
  show "fa v' as bm = fa v as bm" if "bm < MAXFILE" "fa v as bm \<noteq> 0" for bm
    using that o f by (cases "bm = NDIRECT + k") auto
  show "used sb v' b = used sb v b \<or> \<not> b < sb_size sb" for b using us by blast
qed

section \<open>A file in a state\<close>

text \<open>
  \<open>file_at s i as\<close>: inside a transaction, cache slot \<open>i\<close> is an inode of the root device with the
  block addresses \<open>as\<close>; nobody holds the free map, a free block or a block of the file.
\<close>

definition file_at :: "'z fsst_scheme \<Rightarrow> nat \<Rightarrow> nat list \<Rightarrow> bool" where
  "file_at s i as \<longleftrightarrow> in_txn s \<and> fs_layout s \<and> unheld_free s \<and> i < length (fs_inode s)
     \<and> i_dev (get_inode s i) = ROOTDEV \<and> i_addrs (get_inode s i) = as
     \<and> file_ok (log_area s) (fs_sb s) (bview s) as \<and> fblocks (bview s) as \<inter> ran (bheld s) = {}"

abbreviation fs_step :: "'z fsst_scheme \<Rightarrow> nat list \<Rightarrow> 'z fsst_scheme \<Rightarrow> nat list \<Rightarrow> bool" where
  "fs_step s as t as' \<equiv> fstep (log_area s) (length (bc_disk s)) (fs_sb s) (bview s) as (bview t) as'"

definition nfree :: "superblock \<Rightarrow> (nat \<Rightarrow> block) \<Rightarrow> nat" where
  "nfree sb v = card {b. b < sb_size sb \<and> \<not> used sb v b}"

definition set_addrs :: "nat \<Rightarrow> nat list \<Rightarrow> 'z fsst_scheme \<Rightarrow> inode list" where
  "set_addrs i as s = (fs_inode s)[i := (get_inode s i)\<lparr>i_addrs := as\<rparr>]"

lemma txn_sized: "in_txn s \<Longrightarrow> sized (length (bc_disk s)) (bview s)"
  by (auto simp: sized_def in_txn_def log_wf_def intro: bview_len)

lemma txn_small: "in_txn s \<Longrightarrow> fs_layout s \<Longrightarrow> sb_size (fs_sb s) \<le> 2 ^ 31"
  by (auto simp: in_txn_def log_wf_def log_geom_def layout_def)

lemma set_addrs_same: "i_addrs (get_inode s i) = as \<Longrightarrow> set_addrs i as s = fs_inode s"
  by (cases "get_inode s i") (simp add: set_addrs_def, metis list_update_id)

lemma unheld_free_mono:
  assumes "unheld_free s" and "fs_sb t = fs_sb s" and "bheld t = bheld s"
    and "\<And>b. b < sb_size (fs_sb s) \<Longrightarrow> used (fs_sb s) (bview s) b \<Longrightarrow> used (fs_sb s) (bview t) b"
  shows "unheld_free t"
  using assms unfolding unheld_free_def by auto

lemma file_at_step:
  assumes at: "file_at s i as" and af: "fs_after ws (set_addrs i as' s) s t" and st: "fs_step s as t as'"
  shows "file_at t i as'"
proof -
  have f: "in_txn t" "bheld t = bheld s" "log_area t = log_area s" "bc_disk t = bc_disk s" "fs_sb t = fs_sb s"
    "fs_inode t = set_addrs i as' s"
    using af by (simp_all add: fs_after_def)
  have mono: "\<And>b. b < sb_size (fs_sb s) \<Longrightarrow> used (fs_sb s) (bview s) b \<Longrightarrow> used (fs_sb s) (bview t) b"
    using st by (simp add: fstep_def)
  have uh: "unheld_free t" by (rule unheld_free_mono [of s]) (use at f mono in \<open>auto simp: file_at_def\<close>)
  have "b \<notin> ran (bheld s)" if b: "b \<in> fblocks (bview t) as'" for b
  proof -
    have "b < sb_size (fs_sb s)" "b \<in> fblocks (bview s) as \<or> \<not> used (fs_sb s) (bview s) b"
      using st b by (auto simp: fstep_def file_ok_def)
    then show ?thesis using at by (auto simp: file_at_def unheld_free_def)
  qed
  then have "fblocks (bview t) as' \<inter> ran (bheld t) = {}" using f(2) by auto
  then show ?thesis using at st f uh by (auto simp: file_at_def fstep_def set_addrs_def)
qed

lemma finite_free: "finite {b. b < sb_size sb \<and> \<not> used sb v b}"
  by simp

lemma nfree_alloc:
  assumes "layout area len sb v" and "sized len v" and "a < sb_size sb" "\<not> used sb v a"
  shows "nfree sb v = nfree sb (alloc_view sb v a) + 1"
proof -
  have "{b. b < sb_size sb \<and> \<not> used sb v b} = insert a {b. b < sb_size sb \<and> \<not> used sb (alloc_view sb v a) b}"
    using alloc_view_used [OF assms] assms(3,4) by auto
  moreover have "a \<notin> {b. b < sb_size sb \<and> \<not> used sb (alloc_view sb v a) b}"
    using alloc_view_used [OF assms assms(3)] by simp
  ultimately show ?thesis by (simp add: nfree_def)
qed

lemma nfree_pos: "0 < nfree sb v \<Longrightarrow> \<exists>b < sb_size sb. \<not> used sb v b"
  by (auto simp: nfree_def card_gt_0_iff)

lemma nfree_cong: "(\<And>b. b < sb_size sb \<Longrightarrow> used sb v' b = used sb v b) \<Longrightarrow> nfree sb v' = nfree sb v"
  unfolding nfree_def by (metis (mono_tags, lifting))

text \<open>\<^verbatim>\<open>balloc\<close> on behalf of a file.\<close>

lemma balloc_file:
  assumes txn: "in_txn s" and lay: "fs_layout s" and uh: "unheld_free s"
    and ok: "file_ok (log_area s) (fs_sb s) (bview s) as"
    and room: "2 \<le> bavail s" "2 \<le> log_left s" "0 < nfree (fs_sb s) (bview s)"
  shows "\<exists>a t ws. balloc ROOTDEV s = Ok (a, t) \<and> fs_after ws (fs_inode s) s t \<and> length ws = 2
     \<and> bview t = alloc_view (fs_sb s) (bview s) a \<and> a < sb_size (fs_sb s) \<and> \<not> used (fs_sb s) (bview s) a
     \<and> fs_step s as t as \<and> fresh (log_area s) (fs_sb s) (bview t) as a
     \<and> nfree (fs_sb s) (bview s) = nfree (fs_sb s) (bview t) + 1 \<and> unheld_free t
     \<and> a \<notin> fblocks (bview s) as \<and> fblocks (bview t) as = fblocks (bview s) as \<and> fa (bview t) as = fa (bview s) as"
proof -
  note sz = txn_sized [OF txn]
  from balloc_ok [OF txn lay uh room(1,2) nfree_pos [OF room(3)]] obtain a t where r: "balloc ROOTDEV s = Ok (a, t)"
    "a < sb_size (fs_sb s)" "\<not> used (fs_sb s) (bview s) a"
    "fs_after [mark (fs_sb s) (bview s) a, (a, zeros)] (fs_inode s) s t" by blast
  have v: "bview t = alloc_view (fs_sb s) (bview s) a"
    using r(4) unfolding fs_after_def alloc_view_upd by blast
  note af = alloc_fstep [OF ok lay sz r(2,3), folded v]
  have f: "fs_sb t = fs_sb s" "bheld t = bheld s" using r(4) by (simp_all add: fs_after_def)
  have mono: "\<forall>b < sb_size (fs_sb s). used (fs_sb s) (bview s) b \<longrightarrow> used (fs_sb s) (bview t) b"
    using af(1) unfolding fstep_def by blast
  have uht: "unheld_free t" by (rule unheld_free_mono [OF uh f]) (use mono in blast)
  note fr = fresh_alloc [OF ok lay sz r(2,3), folded v] and nf = nfree_alloc [OF lay sz r(2,3), folded v]
  show ?thesis
    by (intro exI [of _ a] exI [of _ t] exI [of _ "[mark (fs_sb s) (bview s) a, (a, zeros)]"] conjI)
      (rule r v af fr nf uht | simp)+
qed

text \<open>A block that has become part of the file: what both kinds of blocks have in common.\<close>

lemma fstep_add:
  assumes st: "fstep area len sb v as v1 as" and na: "\<not> used sb v a" and lay: "layout area len sb v'" "sized len v'"
    and ok: "file_ok area sb v' as'" and fb: "fblocks v' as' = insert a (fblocks v1 as)" and fb1: "fblocks v1 as = fblocks v as"
    and fd: "\<And>bm. bm < MAXFILE \<Longrightarrow> fdata v' as' bm = fdata v1 as bm"
    and old: "\<And>bm. bm < MAXFILE \<Longrightarrow> fa v1 as bm \<noteq> 0 \<Longrightarrow> fa v' as' bm = fa v1 as bm"
    and us: "\<And>b. b < sb_size sb \<Longrightarrow> used sb v' b = used sb v1 b"
    and same: "\<And>b. b \<notin> fblocks v1 as \<Longrightarrow> v' b = v1 b"
  shows "fstep area len sb v as v' as'"
  using assms unfolding fstep_def by (auto simp: fb1)

section \<open>bmap\<close>

text \<open>What \<^verbatim>\<open>bmap\<close> promises: the address of block \<open>bn\<close>, allocated if need be.\<close>

definition bmap_post :: "nat \<Rightarrow> nat list \<Rightarrow> nat list \<Rightarrow> nat \<Rightarrow> 'z fsst_scheme \<Rightarrow> 'z fsst_scheme \<Rightarrow> bool" where
  "bmap_post i as as' k s t \<longleftrightarrow> (\<exists>ws. fs_after ws (set_addrs i as' s) s t \<and> length ws \<le> k) \<and> fs_step s as t as'
     \<and> nfree (fs_sb s) (bview s) \<le> nfree (fs_sb s) (bview t) + k"

lemma set_addrs_trans:
  assumes "fs_inode t = set_addrs i as s"
  shows "set_addrs i as' t = set_addrs i as' s"
  using assms by (cases "i < length (fs_inode s)") (auto simp: set_addrs_def list_update_beyond)

lemma fs_after_trans_set:
  assumes "fs_after ws (set_addrs i as s) s t" and "fs_after ws' (set_addrs i as' t) t u"
  shows "fs_after (ws @ ws') (set_addrs i as' s) s u"
proof -
  have "fs_inode t = set_addrs i as s" using assms(1) by (simp add: fs_after_def)
  then show ?thesis using fs_after_trans [OF assms] set_addrs_trans by metis
qed

lemma bmap_post_trans:
  assumes "bmap_post i as as' k s t" and "bmap_post i as' as'' m t u"
  shows "bmap_post i as as'' (k + m) s u"
proof -
  obtain ws where ws: "fs_after ws (set_addrs i as' s) s t" "length ws \<le> k" using assms(1) by (auto simp: bmap_post_def)
  obtain ws' where ws': "fs_after ws' (set_addrs i as'' t) t u" "length ws' \<le> m" using assms(2) by (auto simp: bmap_post_def)
  have f: "log_area t = log_area s" "bc_disk t = bc_disk s" "fs_sb t = fs_sb s" using ws(1) by (simp_all add: fs_after_def)
  have "fs_step s as u as''" using assms f fstep_trans unfolding bmap_post_def by metis
  moreover have "nfree (fs_sb s) (bview s) \<le> nfree (fs_sb s) (bview u) + (k + m)"
    using assms f by (simp add: bmap_post_def)
  ultimately show ?thesis using fs_after_trans_set [OF ws(1) ws'(1)] ws(2) ws'(2)
    by (auto simp: bmap_post_def intro!: exI [of _ "ws @ ws'"])
qed

lemma bmap_post_refl: "file_at s i as \<Longrightarrow> bmap_post i as as 0 s s"
  using fs_after_refl [of s] set_addrs_same [of s i as]
  by (auto simp: bmap_post_def file_at_def intro: fstep_refl txn_sized)

lemma bmap_post_mono: "bmap_post i as as' k s t \<Longrightarrow> k \<le> m \<Longrightarrow> bmap_post i as as' m s t"
  by (auto simp: bmap_post_def)

text \<open>Allocating a block and storing its number in \<^verbatim>\<open>ip->addrs[k]\<close>.\<close>

lemma alloc_into_addrs:
  assumes at: "file_at s i as" and room: "2 \<le> bavail s" "2 \<le> log_left s" "0 < nfree (fs_sb s) (bview s)"
    and k: "k \<le> NDIRECT" "as ! k = 0"
  shows "\<exists>a t. balloc ROOTDEV s = Ok (a, t) \<and> a \<noteq> 0
     \<and> bmap_post i as (as[k := a]) 2 s (upd_inode i (\<lambda>ip. ip\<lparr>i_addrs := (i_addrs ip)[k := a]\<rparr>) t)
     \<and> (k < NDIRECT \<longrightarrow> fa (bview t) (as[k := a]) k = a)"
proof -
  have f: "in_txn s" "fs_layout s" "unheld_free s" "i < length (fs_inode s)" "i_addrs (get_inode s i) = as"
    "file_ok (log_area s) (fs_sb s) (bview s) as" using at by (simp_all add: file_at_def)
  from balloc_file [OF f(1-3,6) room] obtain a t ws where r: "balloc ROOTDEV s = Ok (a, t)" "fs_after ws (fs_inode s) s t"
    "length ws = 2" "\<not> used (fs_sb s) (bview s) a" "fs_step s as t as" "fresh (log_area s) (fs_sb s) (bview t) as a"
    "nfree (fs_sb s) (bview s) = nfree (fs_sb s) (bview t) + 1" "fblocks (bview t) as = fblocks (bview s) as" by blast
  let ?u = "upd_inode i (\<lambda>ip. ip\<lparr>i_addrs := (i_addrs ip)[k := a]\<rparr>) t"
  have okt: "file_ok (log_area s) (fs_sb s) (bview t) as" "layout (log_area s) (length (bc_disk s)) (fs_sb s) (bview t)"
    "sized (length (bc_disk s)) (bview t)" using r(5) by (simp_all add: fstep_def)
  have add: "file_ok (log_area s) (fs_sb s) (bview t) (as[k := a])"
    "fblocks (bview t) (as[k := a]) = insert a (fblocks (bview t) as)"
    "\<And>bm. bm < MAXFILE \<Longrightarrow> fdata (bview t) (as[k := a]) bm = fdata (bview t) as bm"
    "\<And>bm. bm < MAXFILE \<Longrightarrow> fa (bview t) as bm \<noteq> 0 \<Longrightarrow> fa (bview t) (as[k := a]) bm = fa (bview t) as bm"
    "k < NDIRECT \<longrightarrow> fa (bview t) (as[k := a]) k = a"
  proof -
    consider "k < NDIRECT" | "k = NDIRECT" using k(1) by linarith
    then show "file_ok (log_area s) (fs_sb s) (bview t) (as[k := a])"
      "fblocks (bview t) (as[k := a]) = insert a (fblocks (bview t) as)"
      "\<And>bm. bm < MAXFILE \<Longrightarrow> fdata (bview t) (as[k := a]) bm = fdata (bview t) as bm"
      "\<And>bm. bm < MAXFILE \<Longrightarrow> fa (bview t) as bm \<noteq> 0 \<Longrightarrow> fa (bview t) (as[k := a]) bm = fa (bview t) as bm"
      "k < NDIRECT \<longrightarrow> fa (bview t) (as[k := a]) k = a"
      using add_direct [OF okt(1) r(6) _ k(2)] add_indirect [OF okt(1) r(6)] k(2)
      by (cases; simp add: fdata_def)+
  qed
  have st: "fs_step s as t (as[k := a])"
    by (rule fstep_add [OF r(5,4) okt(2,3) add(1,2) r(8) add(3,4)]) simp_all
  have "fs_inode t = fs_inode s" using r(2) by (simp add: fs_after_def)
  then have "fs_after ws (set_addrs i (as[k := a]) s) s ?u"
    using fs_after_upd_inode [OF r(2), of i "\<lambda>ip. ip\<lparr>i_addrs := (i_addrs ip)[k := a]\<rparr>"] f(5) by (simp add: set_addrs_def)
  then have "bmap_post i as (as[k := a]) 2 s ?u" using st r(3,7) by (auto simp: bmap_post_def)
  then show ?thesis using r(1) fresh_ne0 [OF r(6)] add(5) by blast
qed

text \<open>The second half of \<^verbatim>\<open>bmap\<close> for an indirect block \<open>x\<close>: entry \<open>k\<close>, allocated if need be.\<close>

definition bmap_entry :: "nat \<Rightarrow> nat \<Rightarrow> nat \<Rightarrow> 'z fsst_scheme \<Rightarrow> (nat \<times> 'z fsst_scheme) res" where
  "bmap_entry i x k s =
     bind_res (bread (i_dev (get_inode s i)) x s) (\<lambda>(bp, s).
       let addr = ld32 (4 * k) (b_data (get_buf s bp)) in
       if addr = 0 then
         bind_res (balloc (i_dev (get_inode s i)) s) (\<lambda>(addr, s).
         bind_res (log_write bp (set_data bp (st32 (4 * k) addr (b_data (get_buf s bp))) s)) (\<lambda>s.
         bind_res (brelse bp s) (\<lambda>s.
         Ok (addr, s))))
       else bind_res (brelse bp s) (\<lambda>s. Ok (addr, s)))"

text \<open>An entry that is there, and an entry that \<^verbatim>\<open>balloc\<close> makes while the indirect block is held.\<close>

lemma file_at_ind:
  assumes at: "file_at s i as" and x: "x = as ! NDIRECT" "x \<noteq> 0" and room: "0 < bavail s"
  shows "x \<in> fblocks (bview s) as" "x < length (bc_disk s)" "x \<notin> log_area s" "x \<notin> ran (bheld s)" "x \<in> bdirty s \<or> 0 < bavail s"
    "x \<notin> bitmap_blocks (fs_sb s)" "used (fs_sb s) (bview s) x" "fa (bview s) as (NDIRECT + k) = ld32 (4 * k) (bview s x)"
proof -
  have f: "fs_layout s" "file_ok (log_area s) (fs_sb s) (bview s) as" "fblocks (bview s) as \<inter> ran (bheld s) = {}"
    using at by (simp_all add: file_at_def)
  show xf: "x \<in> fblocks (bview s) as" using ind_in_fblocks x by simp
  note xb = file_blockD [OF f(2) xf]
  show "x < length (bc_disk s)" "x \<notin> log_area s" "x \<notin> ran (bheld s)" "x \<in> bdirty s \<or> 0 < bavail s"
    using xb f(1,3) xf room by (auto simp: layout_def)
  show "x \<notin> bitmap_blocks (fs_sb s)" "used (fs_sb s) (bview s) x" using xb by (auto simp: bitmap_blocks_def)
  show "fa (bview s) as (NDIRECT + k) = ld32 (4 * k) (bview s x)" using x by (simp add: fa_def)
qed

lemma bmap_entry_found:
  assumes at: "file_at s i as" and x: "x = as ! NDIRECT" "x \<noteq> 0" and room: "0 < bavail s" and e: "ld32 (4 * k) (bview s x) \<noteq> 0"
  shows "\<exists>t. bmap_entry i x k s = Ok (ld32 (4 * k) (bview s x), t) \<and> bmap_post i as as 3 s t \<and> bview t = bview s"
proof -
  have f: "in_txn s" "fs_layout s" "i_dev (get_inode s i) = ROOTDEV" "i_addrs (get_inode s i) = as"
    "file_ok (log_area s) (fs_sb s) (bview s) as" using at by (simp_all add: file_at_def)
  from lc.txn_read [OF f(1) file_at_ind(2-5) [OF at x room]] obtain bp s1 s2 where r: "bread ROOTDEV x s = Ok (bp, s1)"
    "bdata s1 bp = bview s x" "brelse bp s1 = Ok s2" "lc.after [] s s2" by blast
  have v2: "bview s2 = bview s" using r(4) by (simp add: lc.after_def)
  have "fs_after [] (set_addrs i as s) s s2" using lc_after_fs [OF r(4)] set_addrs_same [OF f(4)] by simp
  then have "bmap_post i as as 3 s s2"
    using fstep_refl [OF f(5,2) txn_sized [OF f(1)]] v2 by (auto simp: bmap_post_def intro!: exI [of _ "[]"])
  moreover have "bmap_entry i x k s = Ok (ld32 (4 * k) (bview s x), s2)"
    using r(1-3) e f(3) by (simp add: bmap_entry_def bdata_def)
  ultimately show ?thesis using v2 by blast
qed

text \<open>
  \<^verbatim>\<open>balloc\<close> while buffer \<open>bp\<close> holds block \<open>x\<close>: what \<^const>\<open>fs_after\<close> says, but for the held buffer and the slot of the cache it takes.
\<close>

definition alloc_held :: "nat \<Rightarrow> nat \<Rightarrow> nat list \<Rightarrow> nat \<Rightarrow> (nat \<times> block) list \<Rightarrow> 'z fsst_scheme \<Rightarrow> 'z fsst_scheme \<Rightarrow> bool" where
  "alloc_held bp x as a ws s t \<longleftrightarrow> in_txn t \<and> bheld s bp = None \<and> bheld t = (bheld s)(bp \<mapsto> x) \<and> bview t = upd_all ws (bview s)
     \<and> bc_disk t = bc_disk s \<and> bc_trace t = bc_trace s \<and> bavail s \<le> bavail t + 3 \<and> log_left s \<le> log_left t + 2
     \<and> log_area t = log_area s \<and> fs_sb t = fs_sb s \<and> fs_inode t = fs_inode s \<and> fsst.more t = fsst.more s \<and> bc_pid t = bc_pid s
     \<and> length ws = 2 \<and> \<not> used (fs_sb s) (bview s) a \<and> fs_step s as t as \<and> fresh (log_area s) (fs_sb s) (bview t) as a
     \<and> nfree (fs_sb s) (bview s) = nfree (fs_sb s) (bview t) + 1 \<and> fblocks (bview t) as = fblocks (bview s) as
     \<and> fa (bview t) as = fa (bview s) as"

lemma take_balloc:
  assumes at: "file_at s i as" and room: "3 \<le> bavail s" "3 \<le> log_left s" "0 < nfree (fs_sb s) (bview s)"
    and x: "x = as ! NDIRECT" "x \<noteq> 0"
  shows "\<exists>bp u a t ws. bread ROOTDEV x s = Ok (bp, u) \<and> bdata u bp = bview s x \<and> fs_inode u = fs_inode s
    \<and> balloc ROOTDEV u = Ok (a, t) \<and> alloc_held bp x as a ws s t"
proof -
  have f: "in_txn s" "fs_layout s" "unheld_free s" "file_ok (log_area s) (fs_sb s) (bview s) as" using at by (simp_all add: file_at_def)
  have av: "0 < bavail s" using room(1) by simp
  note n = file_at_ind [OF at x av]
  from lc.txn_take [OF f(1) n(2-5)] obtain bp u where r: "bread ROOTDEV x s = Ok (bp, u)" "in_txn u" "bheld s bp = None"
    "bheld u = (bheld s)(bp \<mapsto> x)" "bdata u bp = bview s x" "bview u = bview s" "bc_disk u = bc_disk s"
    "bc_trace u = bc_trace s" "(bc_pid u, bcache.more u) = (bc_pid s, bcache.more s)"
    "bavail s = bavail u + (if x \<in> bdirty s then 0 else 1)" "log_left u = log_left s" "log_area u = log_area s" by blast
  note fr = fs_rest [OF r(9)]
  have ranu: "ran (bheld u) = insert x (ran (bheld s))" using r(3,4) by (simp add: ran_map_upd)
  have uhu: "unheld_free u"
    using f(3) n(6,7) unfolding unheld_free_def ranu fr(1) r(6) by (auto simp: bitmap_blocks_def)
  have lay: "fs_layout u" using f(2) r(6,7,12) fr(1) by simp
  have okk: "file_ok (log_area u) (fs_sb u) (bview u) as" using f(4) r(6,12) fr(1) by simp
  have rm: "2 \<le> bavail u" "2 \<le> log_left u" "0 < nfree (fs_sb u) (bview u)"
    using room r(6,10,11) fr(1) by (auto split: if_splits)
  from balloc_file [OF r(2) lay uhu okk rm] obtain a t ws where b: "balloc ROOTDEV u = Ok (a, t)"
    "fs_after ws (fs_inode u) u t" "length ws = 2" "\<not> used (fs_sb u) (bview u) a"
    "fs_step u as t as" "fresh (log_area u) (fs_sb u) (bview t) as a"
    "nfree (fs_sb u) (bview u) = nfree (fs_sb u) (bview t) + 1" "fblocks (bview t) as = fblocks (bview u) as"
    "fa (bview t) as = fa (bview u) as" by blast
  have av3: "bavail s \<le> bavail t + 3" using b(2,3) r(10) by (auto simp: fs_after_def split: if_splits)
  have "alloc_held bp x as a ws s t"
    unfolding alloc_held_def using b(2-9) r(3,4,6-9,11,12) fr av3 by (simp add: fs_after_def)
  then show ?thesis using r(1,5) b(1) fr(2) by blast
qed

lemma bmap_entry_alloc:
  assumes at: "file_at s i as" and room: "3 \<le> bavail s" "3 \<le> log_left s" "0 < nfree (fs_sb s) (bview s)"
    and x: "x = as ! NDIRECT" "x \<noteq> 0" and k: "k < NINDIRECT" and e: "ld32 (4 * k) (bview s x) = 0"
  shows "\<exists>a t. bmap_entry i x k s = Ok (a, t) \<and> a \<noteq> 0 \<and> bmap_post i as as 3 s t \<and> fa (bview t) as (NDIRECT + k) = a"
proof -
  have f: "in_txn s" "fs_layout s" "i_dev (get_inode s i) = ROOTDEV" "i_addrs (get_inode s i) = as" using at by (simp_all add: file_at_def)
  have av: "0 < bavail s" using room(1) by simp
  note n = file_at_ind [OF at x av]
  from take_balloc [OF at room x] obtain bp u a t ws where r: "bread ROOTDEV x s = Ok (bp, u)" "bdata u bp = bview s x"
    "fs_inode u = fs_inode s" "balloc ROOTDEV u = Ok (a, t)" "alloc_held bp x as a ws s t" by blast
  note h = r(5) [unfolded alloc_held_def]
  have g: "fs_step s as t as" "\<not> used (fs_sb s) (bview s) a" "fresh (log_area s) (fs_sb s) (bview t) as a"
    "nfree (fs_sb s) (bview s) = nfree (fs_sb s) (bview t) + 1" "fblocks (bview t) as = fblocks (bview s) as"
    "fa (bview t) as = fa (bview s) as" using h by blast+
  have ht: "in_txn t" "bheld t bp = Some x" "0 < log_left t" using h room(2) by simp_all
  have dt: "b_data (get_buf t bp) = bview t x" using bview_held [OF _ ht(2)] ht(1) by (simp add: bdata_def in_txn_def log_wf_def)
  have okt: "file_ok (log_area s) (fs_sb s) (bview t) as" "layout (log_area s) (length (bc_disk s)) (fs_sb s) (bview t)"
    "sized (length (bc_disk s)) (bview t)" using g(1) by (simp_all add: fstep_def)
  have sbl: "sb_size (fs_sb s) \<le> length (bc_disk s)" "sb_size (fs_sb s) \<le> 2 ^ 32"
    using f(2) txn_small [OF f(1,2)] by (simp_all add: layout_def)
  have "fa (bview t) as (NDIRECT + k) = 0" using g(6) n(8) [of k] e by simp
  then have zt: "ld32 (4 * k) (bview t x) = 0" using x by (simp add: fa_def)
  define d where "d = st32 (4 * k) a (bview t x)"
  have ld: "length d = BSIZE" using okt(3) n(2) k by (simp add: d_def sized_def NINDIRECT_def BSIZE_def)
  from lc.log_held [OF ht ld] obtain s2 s3 where w: "log_write bp (set_data bp d t) = Ok s2" "brelse bp s2 = Ok s3"
    "in_txn s3" "bheld s3 = (bheld t)(bp := None)" "bview s3 = (bview t)(x := d)" "bc_disk s3 = bc_disk t"
    "bc_trace s3 = bc_trace t" "bavail s3 = bavail t" "log_left s3 + (if x \<in> bdirty t then 0 else 1) = log_left t"
    "log_area s3 = log_area t" "log_frame s3 = log_frame t" by blast
  have v3: "bview s3 = (bview t)(x := st32 (4 * k) a (bview t x))" by (simp add: w(5) d_def)
  note ae = add_entry [OF okt(1) g(3) okt(3) sbl x k zt v3]
  have us: "used (fs_sb s) (bview s3) c = used (fs_sb s) (bview t) c" if "c < sb_size (fs_sb s)" for c using ae(6) that by blast
  have l3: "layout (log_area s) (length (bc_disk s)) (fs_sb s) (bview s3)" "sized (length (bc_disk s)) (bview s3)"
    using okt(2,3) us w(5) ld by (auto simp: layout_def sized_def)
  have xt: "x \<in> fblocks (bview t) as" using ind_in_fblocks x by simp
  have st: "fs_step s as s3 as"
    by (rule fstep_add [OF g(1,2) l3 ae(1,2) g(5)]) (use ae us w(5) xt in auto)
  have nf: "nfree (fs_sb s) (bview s) \<le> nfree (fs_sb s) (bview s3) + 3"
    using g(4) nfree_cong [of "fs_sb s" "bview s3" "bview t"] us by simp
  have hb: "bheld s3 = bheld s" using w(4) h by (simp add: fun_upd_idem)
  have "fs_after (ws @ [(x, d)]) (set_addrs i as s) s s3"
    unfolding fs_after_def set_addrs_same [OF f(4)]
    using w h log_frame_fs [OF w(11)] hb by (auto split: if_splits)
  then have "bmap_post i as as 3 s s3" using st nf h by (auto simp: bmap_post_def intro!: exI [of _ "ws @ [(x, d)]"])
  moreover have "bmap_entry i x k s = Ok (a, s3)"
    using r(1-4) e dt w(1,2) f(3) by (simp add: bmap_entry_def bdata_def d_def)
  ultimately show ?thesis using ae(4) fresh_ne0 [OF g(3)] by blast
qed

lemma bmap_entry_ok:
  assumes at: "file_at s i as" and room: "3 \<le> bavail s" "3 \<le> log_left s" "0 < nfree (fs_sb s) (bview s)"
    and x: "x = as ! NDIRECT" "x \<noteq> 0" and k: "k < NINDIRECT"
  shows "\<exists>a t. bmap_entry i x k s = Ok (a, t) \<and> a \<noteq> 0 \<and> bmap_post i as as 3 s t \<and> fa (bview t) as (NDIRECT + k) = a"
proof (cases "ld32 (4 * k) (bview s x) = 0")
  case True
  then show ?thesis using bmap_entry_alloc [OF at room x k] by simp
next
  case False
  have av: "0 < bavail s" using room(1) by simp
  have "fa v as (NDIRECT + k) = ld32 (4 * k) (v x)" for v using x by (simp add: fa_def)
  then show ?thesis using bmap_entry_found [OF at x av False] False by force
qed

lemma bmap_direct: "bn < NDIRECT \<Longrightarrow> bmap i bn s =
    (if i_addrs (get_inode s i) ! bn = 0 then
       bind_res (balloc (i_dev (get_inode s i)) s) (\<lambda>(addr, s).
         Ok (addr, upd_inode i (\<lambda>ip. ip\<lparr>i_addrs := (i_addrs ip)[bn := addr]\<rparr>) s))
     else Ok (i_addrs (get_inode s i) ! bn, s))"
  by (simp add: bmap_def Let_def)

lemma bmap_indirect: "k < NINDIRECT \<Longrightarrow> bmap i (NDIRECT + k) s =
    bind_res
      (if i_addrs (get_inode s i) ! NDIRECT = 0 then
         bind_res (balloc (i_dev (get_inode s i)) s) (\<lambda>(addr, s).
           Ok (addr, upd_inode i (\<lambda>ip. ip\<lparr>i_addrs := (i_addrs ip)[NDIRECT := addr]\<rparr>) s))
       else Ok (i_addrs (get_inode s i) ! NDIRECT, s))
      (\<lambda>(addr, s). bmap_entry i addr k s)"
  unfolding bmap_def bmap_entry_def Let_def diff_add_inverse by simp

lemma bmap_ok:
  assumes at: "file_at s i as" and room: "5 \<le> bavail s" "5 \<le> log_left s" "2 \<le> nfree (fs_sb s) (bview s)" and bn: "bn < MAXFILE"
  shows "\<exists>a t as'. bmap i bn s = Ok (a, t) \<and> a \<noteq> 0 \<and> bmap_post i as as' 5 s t \<and> fa (bview t) as' bn = a"
proof -
  have f: "i_dev (get_inode s i) = ROOTDEV" "i_addrs (get_inode s i) = as" "length as = NDIRECT + 1"
    using at by (simp_all add: file_at_def file_ok_def)
  have rm: "2 \<le> bavail s" "2 \<le> log_left s" "0 < nfree (fs_sb s) (bview s)" using room by simp_all
  show ?thesis
  proof (cases "bn < NDIRECT")
    case True
    show ?thesis
    proof (cases "as ! bn = 0")
      case z: True
      have "bn \<le> NDIRECT" using True by simp
      from alloc_into_addrs [OF at rm this z] True obtain a t where r: "balloc ROOTDEV s = Ok (a, t)" "a \<noteq> 0"
        "bmap_post i as (as[bn := a]) 2 s (upd_inode i (\<lambda>ip. ip\<lparr>i_addrs := (i_addrs ip)[bn := a]\<rparr>) t)"
        "fa (bview t) (as[bn := a]) bn = a" by blast
      then show ?thesis using bmap_direct [OF True, of i s] f z bmap_post_mono [OF r(3), of 5] by auto
    next
      case False
      then show ?thesis
        using bmap_direct [OF True, of i s] f bmap_post_mono [OF bmap_post_refl [OF at], of 5] True by (auto simp: fa_def)
    qed
  next
    case False
    then obtain k where k: "bn = NDIRECT + k" "k < NINDIRECT"
      using bn by (metis MAXFILE_def add_less_cancel_left le_Suc_ex not_less)
    have "\<exists>x u as1. (if as ! NDIRECT = 0 then
         bind_res (balloc ROOTDEV s) (\<lambda>(addr, s).
           Ok (addr, upd_inode i (\<lambda>ip. ip\<lparr>i_addrs := (i_addrs ip)[NDIRECT := addr]\<rparr>) s))
       else Ok (as ! NDIRECT, s)) = Ok (x, u) \<and> x \<noteq> 0 \<and> bmap_post i as as1 2 s u \<and> as1 ! NDIRECT = x"
    proof (cases "as ! NDIRECT = 0")
      case True
      from alloc_into_addrs [OF at rm order_refl True] obtain a t where r: "balloc ROOTDEV s = Ok (a, t)" "a \<noteq> 0"
        "bmap_post i as (as[NDIRECT := a]) 2 s (upd_inode i (\<lambda>ip. ip\<lparr>i_addrs := (i_addrs ip)[NDIRECT := a]\<rparr>) t)" by blast
      then show ?thesis using True f(3) by auto
    next
      case False
      then show ?thesis using bmap_post_mono [OF bmap_post_refl [OF at], of 2] by auto
    qed
    then obtain x u as1 where u: "(if as ! NDIRECT = 0 then
         bind_res (balloc ROOTDEV s) (\<lambda>(addr, s).
           Ok (addr, upd_inode i (\<lambda>ip. ip\<lparr>i_addrs := (i_addrs ip)[NDIRECT := addr]\<rparr>) s))
       else Ok (as ! NDIRECT, s)) = Ok (x, u)" "x \<noteq> 0" "bmap_post i as as1 2 s u" "as1 ! NDIRECT = x" by blast
    obtain ws where ws: "fs_after ws (set_addrs i as1 s) s u" "length ws \<le> 2" "fs_step s as u as1"
      "nfree (fs_sb s) (bview s) \<le> nfree (fs_sb s) (bview u) + 2"
      using u(3) by (auto simp: bmap_post_def)
    have atu: "file_at u i as1" by (rule file_at_step [OF at ws(1,3)])
    have rmu: "3 \<le> bavail u" "3 \<le> log_left u" using ws(1,2) room by (simp_all add: fs_after_def)
    have "0 < nfree (fs_sb u) (bview u)"
    proof (cases "as ! NDIRECT = 0")
      case False
      then have "u = s" using u(1) by simp
      then show ?thesis using rm(3) by simp
    next
      case True
      from alloc_into_addrs [OF at rm order_refl True] u(1) True
      have "nfree (fs_sb s) (bview s) \<le> nfree (fs_sb s) (bview u) + 1"
        using balloc_file [of s as] at rm by (auto simp: file_at_def)
      moreover have "fs_sb u = fs_sb s" using ws(1) by (simp add: fs_after_def)
      ultimately show ?thesis using room(3) by simp
    qed
    from bmap_entry_ok [OF atu rmu this u(4) [symmetric] u(2) k(2)] obtain a t where
      t: "bmap_entry i x k u = Ok (a, t)" "a \<noteq> 0" "bmap_post i as1 as1 3 u t" "fa (bview t) as1 (NDIRECT + k) = a" by blast
    have "bmap_post i as as1 5 s t" using bmap_post_trans [OF u(3) t(3)] by simp
    moreover have "bmap i bn s = Ok (a, t)" 
      unfolding k(1) bmap_indirect [OF k(2)] f(1,2) u(1) using t(1) by simp
    ultimately show ?thesis using t(2,4) k(1) by blast
  qed
qed

section \<open>Reading\<close>

text \<open>Byte \<open>o\<close> of a file.\<close>

definition fbyte :: "(nat \<Rightarrow> block) \<Rightarrow> nat list \<Rightarrow> nat \<Rightarrow> byte" where
  "fbyte v as p = fdata v as (p div BSIZE) ! (p mod BSIZE)"

text \<open>Operations that only read: the cache may have moved blocks around, nothing else.\<close>

definition reads :: "'z bcache_scheme \<Rightarrow> 'z bcache_scheme \<Rightarrow> bool" where
  "reads s t \<longleftrightarrow> bc_wf t \<and> bheld t = bheld s \<and> bview t = bview s \<and> bc_disk t = bc_disk s \<and> bc_trace t = bc_trace s
     \<and> bdirty t = bdirty s \<and> bavail t = bavail s \<and> bc_pid t = bc_pid s \<and> bcache.more t = bcache.more s"

lemma reads_refl: "bc_wf s \<Longrightarrow> reads s s"
  by (simp add: reads_def)

lemma reads_trans: "reads s t \<Longrightarrow> reads t u \<Longrightarrow> reads s u"
  by (simp add: reads_def)

lemma reads_fs: "reads s t \<Longrightarrow> fs_sb t = fs_sb s \<and> fs_inode t = fs_inode s"
  using fs_rest [of t s] by (simp add: reads_def)

lemma reads_block:
  assumes "bc_wf s" and "n < length (bc_disk s)" "n \<notin> ran (bheld s)" "0 < bavail s"
  shows "\<exists>i s1 s2. bread ROOTDEV n s = Ok (i, s1) \<and> b_data (get_buf s1 i) = bview s n \<and> brelse i s1 = Ok s2
     \<and> reads s s2 \<and> bcache.more s1 = bcache.more s"
proof -
  have "n \<in> bdirty s \<or> 0 < bavail s" using assms(4) by simp
  from bc.read_block [OF assms(1-3) this] show ?thesis by (auto simp: reads_def bdata_def)
qed

text \<open>Block \<open>bn\<close> of the file is there and can be read.\<close>

definition readable :: "'z fsst_scheme \<Rightarrow> nat list \<Rightarrow> nat \<Rightarrow> bool" where
  "readable s as bn \<longleftrightarrow> bn < MAXFILE \<and> fa (bview s) as bn \<noteq> 0
     \<and> fa (bview s) as bn < length (bc_disk s) \<and> fa (bview s) as bn \<notin> ran (bheld s)
     \<and> (NDIRECT \<le> bn \<longrightarrow> as ! NDIRECT < length (bc_disk s) \<and> as ! NDIRECT \<notin> ran (bheld s))"

lemma bmap_mapped:
  assumes wf: "bc_wf s" and av: "0 < bavail s" and ip: "i_dev (get_inode s i) = ROOTDEV" "i_addrs (get_inode s i) = as"
    and rd: "readable s as bn"
  shows "\<exists>t. bmap i bn s = Ok (fa (bview s) as bn, t) \<and> reads s t"
proof (cases "bn < NDIRECT")
  case True
  then show ?thesis using bmap_direct [OF True, of i s] rd ip reads_refl [OF wf] by (auto simp: readable_def fa_def)
next
  case False
  then obtain k where k: "bn = NDIRECT + k" "k < NINDIRECT"
    using rd unfolding readable_def by (metis MAXFILE_def add_less_cancel_left le_Suc_ex not_less)
  have x: "as ! NDIRECT \<noteq> 0" "as ! NDIRECT < length (bc_disk s)" "as ! NDIRECT \<notin> ran (bheld s)"
    "ld32 (4 * k) (bview s (as ! NDIRECT)) = fa (bview s) as bn" "fa (bview s) as bn \<noteq> 0"
    using rd False k by (auto simp: readable_def fa_def split: if_splits)
  from reads_block [OF wf x(2,3) av] obtain bp s1 s2 where r: "bread ROOTDEV (as ! NDIRECT) s = Ok (bp, s1)"
    "b_data (get_buf s1 bp) = bview s (as ! NDIRECT)" "brelse bp s1 = Ok s2" "reads s s2" by blast
  have "bmap i bn s = Ok (fa (bview s) as bn, s2)"
    unfolding k(1) bmap_indirect [OF k(2)] bmap_entry_def ip using x r by (simp add: ip k(1))
  then show ?thesis using r(4) by blast
qed

lemma div_mod_offset:
  assumes "off mod B + i < (B :: nat)"
  shows "(off + i) div B = off div B \<and> (off + i) mod B = off mod B + i"
proof -
  have "off + i = B * (off div B) + (off mod B + i)" by (simp add: add.assoc [symmetric])
  moreover have "(B * q + r) div B = q \<and> (B * q + r) mod B = r" if "r < B" for q r using that by auto
  ultimately show ?thesis using assms by metis
qed

lemma chunk_bytes:
  assumes "m \<le> BSIZE - off mod BSIZE" and "length (fdata v as (off div BSIZE)) = BSIZE"
  shows "slice (off mod BSIZE) m (fdata v as (off div BSIZE)) = map (fbyte v as) [off..<off + m]"
proof (rule nth_equalityI)
  have B: "0 < BSIZE" by (simp add: BSIZE_def)
  have l: "off mod BSIZE + m \<le> length (fdata v as (off div BSIZE))"
    using assms mod_less_divisor [OF B, of off] by simp
  then show "length (slice (off mod BSIZE) m (fdata v as (off div BSIZE))) = length (map (fbyte v as) [off..<off + m])"
    by simp
  fix i assume "i < length (slice (off mod BSIZE) m (fdata v as (off div BSIZE)))"
  then have i: "i < m" using l by simp
  have lt: "off mod BSIZE + i < BSIZE" using i assms(1) mod_less_divisor [OF B, of off] by simp
  from div_mod_offset [OF lt]
  have "(off + i) div BSIZE = off div BSIZE" "(off + i) mod BSIZE = off mod BSIZE + i" by auto
  then show "slice (off mod BSIZE) m (fdata v as (off div BSIZE)) ! i = map (fbyte v as) [off..<off + m] ! i"
    using i l by (simp add: fbyte_def)
qed

lemma readi_loop_ok:
  assumes "bc_wf s" and "0 < bavail s" and "i_dev (get_inode s i) = ROOTDEV" "i_addrs (get_inode s i) = as"
    and "\<And>p. off \<le> p \<Longrightarrow> p < off + k \<Longrightarrow> readable s as (p div BSIZE)" and "off + k < 2 ^ 32"
  shows "\<exists>t. readi_loop i off k acc s = Ok (acc @ map (fbyte (bview s) as) [off..<off + k], t) \<and> reads s t"
  using assms
proof (induction k arbitrary: off acc s rule: less_induct)
  case (less k)
  show ?case
  proof (cases "k = 0")
    case True
    then show ?thesis using reads_refl [OF less.prems(1)] by (auto simp: readi_loop.simps)
  next
    case False
    define m where "m = min k (BSIZE - off mod BSIZE)"
    have m: "0 < m" "m \<le> k" "m \<le> BSIZE - off mod BSIZE" using False chunk_pos [of k off] by (auto simp: m_def)
    let ?a = "fa (bview s) as (off div BSIZE)"
    have rd: "readable s as (off div BSIZE)" using less.prems(5) [of off] False by simp
    from bmap_mapped [OF less.prems(1-4) rd] obtain s1 where s1: "bmap i (off div BSIZE) s = Ok (?a, s1)" "reads s s1" by blast
    have f1: "bc_wf s1" "?a < length (bc_disk s1)" "?a \<notin> ran (bheld s1)" "0 < bavail s1" "fs_inode s1 = fs_inode s"
      using s1(2) reads_fs [OF s1(2)] rd less.prems(2) by (auto simp: reads_def readable_def)
    from reads_block [OF f1(1-4)] obtain bp s2 s3 where r: "bread ROOTDEV ?a s1 = Ok (bp, s2)"
      "b_data (get_buf s2 bp) = bview s1 ?a" "brelse bp s2 = Ok s3" "reads s1 s3" by blast
    have rs: "reads s s3" by (rule reads_trans [OF s1(2) r(4)])
    have f3: "bc_wf s3" "0 < bavail s3" "fs_inode s3 = fs_inode s" "bview s3 = bview s" "bc_disk s3 = bc_disk s" "bheld s3 = bheld s"
      using rs reads_fs [OF rs] less.prems(2) by (simp_all add: reads_def)
    have fd: "bview s ?a = fdata (bview s) as (off div BSIZE)" using rd by (simp add: fdata_def readable_def)
    have len: "length (fdata (bview s) as (off div BSIZE)) = BSIZE"
      unfolding fd [symmetric] using bview_len [OF less.prems(1)] rd by (simp add: readable_def)
    have d: "slice (off mod BSIZE) m (bview s1 ?a) = map (fbyte (bview s) as) [off..<off + m]"
      using chunk_bytes [OF m(3) len] s1(2) fd by (simp add: reads_def)
    have w: "wrap32 (off + m) = off + m" using less.prems(6) m(2) by (intro wrap32_id) simp
    have "\<exists>t. readi_loop i (off + m) (k - m) (acc @ map (fbyte (bview s) as) [off..<off + m]) s3
        = Ok ((acc @ map (fbyte (bview s) as) [off..<off + m]) @ map (fbyte (bview s3) as) [off + m..<off + m + (k - m)], t) \<and> reads s3 t"
    proof (rule less.IH)
      show "readable s3 as (p div BSIZE)" if "off + m \<le> p" "p < off + m + (k - m)" for p
        using less.prems(5) [of p] that m(2) f3 by (simp add: readable_def)
    qed (use m f3 less.prems in auto)
    then obtain t where t: "readi_loop i (off + m) (k - m) (acc @ map (fbyte (bview s) as) [off..<off + m]) s3
        = Ok (acc @ map (fbyte (bview s) as) [off..<off + m] @ map (fbyte (bview s) as) [off + m..<off + k], t)" "reads s3 t"
      using f3(4) m(2) by auto
    have sp: "map (fbyte (bview s) as) [off..<off + m] @ map (fbyte (bview s) as) [off + m..<off + k]
        = map (fbyte (bview s) as) [off..<off + k]"
      using m(2) upt_add_eq_append [of off "off + m" "k - m"] by (metis add.assoc le_add1 le_add_diff_inverse map_append)
    have "readi_loop i off k acc s = readi_loop i (off + m) (k - m) (acc @ map (fbyte (bview s) as) [off..<off + m]) s3"
      using False s1(1) r(1-3) f1(5) less.prems(3) d w
      by (subst readi_loop.simps) (simp add: m_def [symmetric] Let_def)
    then show ?thesis using t sp reads_trans [OF rs t(2)] by auto
  qed
qed

lemma wrap32_overflow:
  assumes "off < 2 ^ 32" and "n < 2 ^ 32"
  shows "wrap32 (off + n) < off \<longleftrightarrow> 2 ^ 32 \<le> off + n"
proof (cases "off + n < 2 ^ 32")
  case True
  then have "wrap32 (off + n) = off + n" by (rule wrap32_id)
  then show ?thesis using True by simp
next
  case False
  then have "wrap32 (off + n) = off + n - 2 ^ 32" using assms by (simp add: wrap32_def mod_if)
  then show ?thesis using False assms by simp
qed

lemma readi_ok:
  assumes wf: "bc_wf s" and av: "0 < bavail s" and ip: "i_dev (get_inode s i) = ROOTDEV" "i_addrs (get_inode s i) = as"
    and ty: "i_type (get_inode s i) \<noteq> T_DEV" and sz: "i_size (get_inode s i) = sz" "sz < 2 ^ 32"
    and rd: "\<And>bn. bn * BSIZE < sz \<Longrightarrow> readable s as bn" and b: "off < 2 ^ 32" "n < 2 ^ 32"
    and m: "m = min n (sz - off)"
  shows "if off > sz \<or> 2 ^ 32 \<le> off + n then readi i off n s = Ok (-1, [], s)
     else \<exists>t. readi i off n s = Ok (int m, map (fbyte (bview s) as) [off..<off + m], t) \<and> reads s t"
proof (cases "off > sz \<or> 2 ^ 32 \<le> off + n")
  case True
  then show ?thesis using ty sz wrap32_overflow [OF b] by (auto simp: readi_def)
next
  case False
  then have w: "wrap32 (off + n) = off + n" "\<not> wrap32 (off + n) < off" "off \<le> sz" by (auto simp: wrap32_id)
  have mm: "(if off + n > sz then sz - off else n) = m" using False by (auto simp: m)
  have "\<exists>t. readi_loop i off m [] s = Ok ([] @ map (fbyte (bview s) as) [off..<off + m], t) \<and> reads s t"
  proof (rule readi_loop_ok [OF wf av ip])
    fix p assume "off \<le> p" "p < off + m"
    then have "p < sz" using m by simp
    then show "readable s as (p div BSIZE)" using rd [of "p div BSIZE"] by (metis div_times_less_eq_dividend le_less_trans)
  next
    show "off + m < 2 ^ 32" using False m by auto
  qed
  then show ?thesis using False w ty sz mm by (auto simp: readi_def Let_def)
qed

section \<open>Writing\<close>

text \<open>As \<open>fstep\<close>, but the contents of the file may change.\<close>

definition fframe :: "nat set \<Rightarrow> nat \<Rightarrow> superblock \<Rightarrow> (nat \<Rightarrow> block) \<Rightarrow> nat list \<Rightarrow> (nat \<Rightarrow> block) \<Rightarrow> nat list \<Rightarrow> bool" where
  "fframe area len sb v as v' as' \<longleftrightarrow> file_ok area sb v' as' \<and> layout area len sb v' \<and> sized len v'
     \<and> (\<forall>bn < MAXFILE. fa v as bn \<noteq> 0 \<longrightarrow> fa v' as' bn = fa v as bn)
     \<and> (\<forall>b < sb_size sb. used sb v b \<longrightarrow> used sb v' b)
     \<and> fblocks v as \<subseteq> fblocks v' as'
     \<and> (\<forall>b \<in> fblocks v' as'. b \<in> fblocks v as \<or> \<not> used sb v b)
     \<and> (\<forall>b. b \<notin> fblocks v as \<longrightarrow> b \<notin> bitmap_blocks sb \<longrightarrow> (b < sb_size sb \<longrightarrow> used sb v b) \<longrightarrow> v' b = v b)"

lemma fstep_frame: "fstep area len sb v as v' as' \<Longrightarrow> fframe area len sb v as v' as'"
  by (simp add: fstep_def fframe_def)

lemma fframe_trans:
  assumes a: "fframe area len sb v as v' as'" and b: "fframe area len sb v' as' v'' as''"
  shows "fframe area len sb v as v'' as''"
proof -
  have na: "\<forall>b < sb_size sb. used sb v b \<longrightarrow> used sb v' b"
    "\<forall>b \<in> fblocks v' as'. b \<in> fblocks v as \<or> \<not> used sb v b"
    using a by (simp_all add: fframe_def)
  have dom: "\<forall>b \<in> fblocks v'' as''. b < sb_size sb" "\<forall>b \<in> fblocks v' as'. b < sb_size sb"
    using a b by (simp_all add: fframe_def file_ok_def)
  have "v'' b = v b" if b': "b \<notin> fblocks v as" "b \<notin> bitmap_blocks sb" "b < sb_size sb \<longrightarrow> used sb v b" for b
  proof -
    have "b \<notin> fblocks v' as'" using b' na(2) dom(2) by blast
    moreover have "b < sb_size sb \<longrightarrow> used sb v' b" using b'(3) na(1) by blast
    ultimately have "v'' b = v' b" using b b'(2) by (simp add: fframe_def)
    also have "\<dots> = v b" using a b' by (simp add: fframe_def)
    finally show ?thesis .
  qed
  moreover have "b \<in> fblocks v as \<or> \<not> used sb v b" if "b \<in> fblocks v'' as''" for b
    using that b na dom(1) by (auto simp: fframe_def)
  ultimately show ?thesis using a b by (auto simp: fframe_def)
qed

text \<open>Storing into a block of the file.\<close>

lemma store_block:
  assumes ok: "file_ok area sb v as" and lay: "layout area len sb v" and sz: "sized len v" and bn: "bn < MAXFILE"
    and a: "a = fa v as bn" "a \<noteq> 0" and d: "length d = BSIZE" and v': "v' = v(a := d)"
  shows "fframe area len sb v as v' as" "fa v' as = fa v as"
    "\<And>bm. bm < MAXFILE \<Longrightarrow> fdata v' as bm = (if bm = bn then d else fdata v as bm)"
    "\<And>b. b < sb_size sb \<Longrightarrow> used sb v' b = used sb v b"
proof -
  have af: "a \<in> fblocks v as" using fa_in_fblocks [OF bn] a by simp
  note ab = file_blockD [OF ok af]
  have ne: "a \<noteq> as ! NDIRECT \<or> as ! NDIRECT = 0" using ok bn a by (auto simp: file_ok_def)
  show f: "fa v' as = fa v as" by (rule fa_cong) (use ne in \<open>auto simp: v'\<close>)
  have fb: "fblocks v' as = fblocks v as" by (simp add: fblocks_def f)
  show us: "used sb v' b = used sb v b" if "b < sb_size sb" for b
    using ab(5) that by (auto simp: used_def v' bitmap_blocks_def)
  have lay': "layout area len sb v'" using lay us by (simp add: layout_def)
  have "file_ok area sb v' as" using ok us by (simp add: file_ok_def f fb)
  moreover have "sized len v'" using sz d by (simp add: sized_def v')
  moreover have "v' b = v b" if "b \<notin> fblocks v as" for b using that af by (auto simp: v')
  ultimately show "fframe area len sb v as v' as" unfolding fframe_def f fb using lay' us by simp
  show "fdata v' as bm = (if bm = bn then d else fdata v as bm)" if bm: "bm < MAXFILE" for bm
  proof (cases "bm = bn")
    case True
    then show ?thesis using a by (simp add: fdata_def f) (simp add: v')
  next
    case False
    have "fa v as bm \<noteq> a" if "fa v as bm \<noteq> 0"
      using ok bm bn that False unfolding file_ok_def a(1) by blast
    then show ?thesis using False by (simp add: fdata_def f) (simp add: v')
  qed
qed

text \<open>The number of blocks that a write of \<open>k\<close> bytes at offset \<open>off\<close> touches.\<close>

definition nblocks :: "nat \<Rightarrow> nat \<Rightarrow> nat" where
  "nblocks off k = (if k = 0 then 0 else (off + k - 1) div BSIZE - off div BSIZE + 1)"

lemma nblocks_chunk:
  assumes "0 < k" and "m = min k (BSIZE - off mod BSIZE)"
  shows "nblocks off k = Suc (nblocks (off + m) (k - m))"
proof (cases "k \<le> BSIZE - off mod BSIZE")
  case True
  then have mk: "m = k" using assms(2) by simp
  have "off mod BSIZE + (k - 1) < BSIZE" using True assms(1) mod_less_divisor [of BSIZE off] by (simp add: BSIZE_def)
  from div_mod_offset [OF this] assms(1) have "(off + k - 1) div BSIZE = off div BSIZE" by simp
  then show ?thesis using assms(1) mk by (simp add: nblocks_def)
next
  case False
  then have m: "m = BSIZE - off mod BSIZE" using assms(2) by simp
  have B: "0 < BSIZE" by (simp add: BSIZE_def)
  define q r where "q = off div BSIZE" and "r = off mod BSIZE"
  have "off = BSIZE * q + r" "r < BSIZE" using B by (simp_all add: q_def r_def)
  then have "off + (BSIZE - r) = BSIZE * (q + 1)" by simp
  then have e: "off + m = BSIZE * (off div BSIZE + 1)" by (simp only: m q_def r_def)
  then have q: "(off + m) div BSIZE = off div BSIZE + 1" using B by simp
  have "off div BSIZE + 1 \<le> (off + k - 1) div BSIZE"
    unfolding q [symmetric] using False m by (intro div_le_mono) simp
  moreover have "off + m + (k - m) - 1 = off + k - 1" "k - m \<noteq> 0" using False m by auto
  ultimately show ?thesis using assms(1) q by (simp add: nblocks_def)
qed

end
