(* ===== verification/Fs_Write.thy ===== *)
theory Fs_Write
  imports Fs_File
begin

text \<open>\<^verbatim>\<open>writei\<close> of \<^verbatim>\<open>src/fs.c\<close>: a write replaces exactly the bytes it names, and reading returns them.\<close>

section \<open>One block\<close>

definition chunk_post :: "nat \<Rightarrow> nat list \<Rightarrow> nat list \<Rightarrow> nat \<Rightarrow> nat \<Rightarrow> byte list \<Rightarrow> 'z fsst_scheme \<Rightarrow> 'z fsst_scheme \<Rightarrow> bool" where
  "chunk_post i as as' bn o' bytes s t \<longleftrightarrow> (\<exists>ws. fs_after ws (set_addrs i as' s) s t \<and> length ws \<le> 6)
     \<and> fframe (log_area s) (length (bc_disk s)) (fs_sb s) (bview s) as (bview t) as'
     \<and> (\<forall>bm < MAXFILE. fdata (bview t) as' bm =
          (if bm = bn then patch o' bytes (fdata (bview s) as bn) else fdata (bview s) as bm))
     \<and> fa (bview t) as' bn \<noteq> 0 \<and> nfree (fs_sb s) (bview s) \<le> nfree (fs_sb s) (bview t) + 5"

lemma file_at_frame:
  assumes at: "file_at s i as" and af: "fs_after ws (set_addrs i as' s) s t"
    and fr: "fframe (log_area s) (length (bc_disk s)) (fs_sb s) (bview s) as (bview t) as'"
  shows "file_at t i as'"
proof -
  have f: "in_txn t" "bheld t = bheld s" "log_area t = log_area s" "bc_disk t = bc_disk s" "fs_sb t = fs_sb s"
    "fs_inode t = set_addrs i as' s"
    using af by (simp_all add: fs_after_def)
  have uh: "unheld_free t" by (rule unheld_free_mono [of s]) (use at f fr in \<open>auto simp: file_at_def fframe_def\<close>)
  have "b \<notin> ran (bheld s)" if b: "b \<in> fblocks (bview t) as'" for b
  proof -
    have "b < sb_size (fs_sb s)" "b \<in> fblocks (bview s) as \<or> \<not> used (fs_sb s) (bview s) b"
      using fr b by (auto simp: fframe_def file_ok_def)
    then show ?thesis using at by (auto simp: file_at_def unheld_free_def)
  qed
  then have "fblocks (bview t) as' \<inter> ran (bheld t) = {}" using f(2) by auto
  then show ?thesis using at fr f uh by (auto simp: file_at_def fframe_def set_addrs_def)
qed

lemma fdata_length:
  assumes "file_ok area sb v as" and "sized len v" and "sb_size sb \<le> len" and "bn < MAXFILE"
  shows "length (fdata v as bn) = BSIZE"
proof (cases "fa v as bn = 0")
  case False
  then have "fa v as bn < sb_size sb" using file_blockD(1) [OF assms(1) fa_in_fblocks [OF assms(4)]] by simp
  then show ?thesis using False assms(2,3) by (simp add: fdata_def sized_def)
qed (simp add: fdata_def)

lemma write_chunk:
  assumes at: "file_at s i as" and room: "6 \<le> bavail s" "6 \<le> log_left s" "2 \<le> nfree (fs_sb s) (bview s)"
    and bn: "bn < MAXFILE" and o': "o' + length bytes \<le> BSIZE"
  shows "\<exists>a s1 bp s2 s3 t as'. bmap i bn s = Ok (a, s1) \<and> i_dev (get_inode s1 i) = ROOTDEV \<and> bread ROOTDEV a s1 = Ok (bp, s2)
     \<and> log_write bp (set_data bp (patch o' bytes (b_data (get_buf s2 bp))) s2) = Ok s3 \<and> brelse bp s3 = Ok t
     \<and> chunk_post i as as' bn o' bytes s t"
proof -
  have rm: "5 \<le> bavail s" "5 \<le> log_left s" using room by simp_all
  from bmap_ok [OF at rm room(3) bn] obtain a s1 as1 where r: "bmap i bn s = Ok (a, s1)" "a \<noteq> 0"
    "bmap_post i as as1 5 s s1" "fa (bview s1) as1 bn = a" by blast
  obtain ws where ws: "fs_after ws (set_addrs i as1 s) s s1" "length ws \<le> 5" "fs_step s as s1 as1"
    "nfree (fs_sb s) (bview s) \<le> nfree (fs_sb s) (bview s1) + 5" using r(3) by (auto simp: bmap_post_def)
  have at1: "file_at s1 i as1" by (rule file_at_step [OF at ws(1,3)])
  have f: "in_txn s1" "bheld s1 = bheld s" "log_area s1 = log_area s" "bc_disk s1 = bc_disk s" "fs_sb s1 = fs_sb s"
    "bavail s \<le> bavail s1 + length ws" "log_left s \<le> log_left s1 + length ws"
    using ws(1) by (simp_all add: fs_after_def)
  have g: "fs_layout s1" "file_ok (log_area s1) (fs_sb s1) (bview s1) as1" "fblocks (bview s1) as1 \<inter> ran (bheld s1) = {}"
    "i_dev (get_inode s1 i) = ROOTDEV" using at1 by (simp_all add: file_at_def)
  have af: "a \<in> fblocks (bview s1) as1" using fa_in_fblocks [OF bn, of "bview s1" as1] r(2,4) by simp
  note ab = file_blockD [OF g(2) af]
  have n: "a < length (bc_disk s1)" "a \<notin> log_area s1" "a \<notin> ran (bheld s1)" "a \<in> bdirty s1 \<or> 0 < bavail s1" "0 < log_left s1"
    using ab g(1,3) af f room ws(2) by (auto simp: layout_def)
  note sz = txn_sized [OF f(1)]
  have len: "length (bview s1 a) = BSIZE" using sz n(1) by (simp add: sized_def)
  define d where "d = patch o' bytes (bview s1 a)"
  have ld: "length d = BSIZE" using len o' by (simp add: d_def)
  from lc.log_block [OF f(1) n] ld obtain bp s2 s3 t where w: "bread ROOTDEV a s1 = Ok (bp, s2)"
    "bdata s2 bp = bview s1 a" "log_write bp (set_data bp d s2) = Ok s3" "brelse bp s3 = Ok t" "lc.after [(a, d)] s1 t"
    by metis
  have at': "fs_after [(a, d)] (fs_inode s1) s1 t" by (rule lc_after_fs [OF w(5)])
  have vt: "bview t = (bview s1)(a := d)" using at' by (simp add: fs_after_def)
  note sb = store_block [OF g(2,1) sz bn r(4) [symmetric] r(2) ld vt]
  have in1: "fs_inode s1 = set_addrs i as1 s" using ws(1) by (simp add: fs_after_def)
  have all: "fs_after (ws @ [(a, d)]) (set_addrs i as1 s) s t" using fs_after_trans [OF ws(1) at'] in1 by simp
  have fr: "fframe (log_area s) (length (bc_disk s)) (fs_sb s) (bview s) as (bview t) as1"
    using fframe_trans [OF fstep_frame [OF ws(3)]] sb(1) f by simp
  have fd: "fdata (bview s1) as1 bm = fdata (bview s) as bm" if "bm < MAXFILE" for bm
    using ws(3) that by (simp add: fstep_def)
  have da: "bview s1 a = fdata (bview s) as bn" using fd [OF bn] r(2,4) by (simp add: fdata_def)
  have nf: "nfree (fs_sb s) (bview s) \<le> nfree (fs_sb s) (bview t) + 5"
    using ws(4) nfree_cong [of "fs_sb s" "bview t" "bview s1"] sb(4) f(5) by simp
  have ex: "\<exists>ws. fs_after ws (set_addrs i as1 s) s t \<and> length ws \<le> 6"
    by (rule exI [of _ "ws @ [(a, d)]"]) (use all ws(2) in simp)
  have dd: "d = patch o' bytes (fdata (bview s) as bn)" by (simp add: d_def da)
  have fdt: "fdata (bview t) as1 bm = (if bm = bn then patch o' bytes (fdata (bview s) as bn) else fdata (bview s) as bm)"
    if "bm < MAXFILE" for bm using sb(3) [OF that] fd [OF that] dd by simp
  have "chunk_post i as as1 bn o' bytes s t"
    unfolding chunk_post_def using ex fr fdt nf r(2,4) sb(2) by simp
  then show ?thesis using r(1) g(4) w(1-4) by (auto simp: d_def bdata_def)
qed

section \<open>The loop\<close>

definition write_post :: "nat \<Rightarrow> nat list \<Rightarrow> nat list \<Rightarrow> nat \<Rightarrow> nat \<Rightarrow> byte list \<Rightarrow> 'z fsst_scheme \<Rightarrow> 'z fsst_scheme \<Rightarrow> bool" where
  "write_post i as as' off k src s t \<longleftrightarrow> (\<exists>ws. fs_after ws (set_addrs i as' s) s t \<and> length ws \<le> 6 * nblocks off k)
     \<and> fframe (log_area s) (length (bc_disk s)) (fs_sb s) (bview s) as (bview t) as'
     \<and> (\<forall>p < MAXFILE * BSIZE. fbyte (bview t) as' p = (if off \<le> p \<and> p < off + k then src ! (p - off) else fbyte (bview s) as p))
     \<and> (\<forall>p. off \<le> p \<and> p < off + k \<longrightarrow> fa (bview t) as' (p div BSIZE) \<noteq> 0)"

lemma BSIZE_pos: "0 < BSIZE"
  by (simp add: BSIZE_def)

lemma block_in_range: "p < MAXFILE * BSIZE \<Longrightarrow> p div BSIZE < MAXFILE"
  by (simp add: less_mult_imp_div_less)

lemma offset_cmp:
  "p = Q + a \<Longrightarrow> off = Q + b \<Longrightarrow> (b \<le> a \<and> a < b + n \<longleftrightarrow> off \<le> p \<and> p < off + n) \<and> a - b = p - (off :: nat)"
  by auto

lemma chunk_fbyte_len:
  assumes len: "off div BSIZE < MAXFILE \<Longrightarrow> length (fdata v as (off div BSIZE)) = BSIZE" and m: "off mod BSIZE + length bytes \<le> BSIZE"
    and fd: "\<And>bm. bm < MAXFILE \<Longrightarrow> fdata v' as' bm = (if bm = off div BSIZE then patch (off mod BSIZE) bytes (fdata v as (off div BSIZE)) else fdata v as bm)"
    and p: "p < MAXFILE * BSIZE"
  shows "fbyte v' as' p = (if off \<le> p \<and> p < off + length bytes then bytes ! (p - off) else fbyte v as p)"
proof (cases "p div BSIZE = off div BSIZE")
  case True
  have bn: "off div BSIZE < MAXFILE" using block_in_range [OF p] True by simp
  have pm: "p = off div BSIZE * BSIZE + p mod BSIZE" using True by (metis div_mult_mod_eq)
  have om: "off = off div BSIZE * BSIZE + off mod BSIZE" by simp
  note oc = offset_cmp [OF pm om, of "length bytes"]
  show ?thesis
    using True fd [OF bn] len [OF bn] m BSIZE_pos oc by (simp add: fbyte_def nth_patch)
next
  case False
  have "\<not> (off \<le> p \<and> p < off + length bytes)"
  proof
    assume a: "off \<le> p \<and> p < off + length bytes"
    then have "p - off < length bytes" by linarith
    then have "off mod BSIZE + (p - off) < BSIZE" using m by linarith
    from div_mod_offset [OF this] a have "p div BSIZE = off div BSIZE" by simp
    with False show False by simp
  qed
  then have "(if off \<le> p \<and> p < off + length bytes then bytes ! (p - off) else fbyte v as p) = fbyte v as p" by (rule if_not_P)
  then show ?thesis using False fd [OF block_in_range [OF p]] by (simp only: fbyte_def if_False)
qed

lemma chunk_fbyte:
  assumes ok: "file_ok area sb v as" "sized len v" "sb_size sb \<le> len" and m: "off mod BSIZE + length bytes \<le> BSIZE"
    and fd: "\<And>bm. bm < MAXFILE \<Longrightarrow> fdata v' as' bm = (if bm = off div BSIZE then patch (off mod BSIZE) bytes (fdata v as (off div BSIZE)) else fdata v as bm)"
    and p: "p < MAXFILE * BSIZE"
  shows "fbyte v' as' p = (if off \<le> p \<and> p < off + length bytes then bytes ! (p - off) else fbyte v as p)"
  by (rule chunk_fbyte_len [OF fdata_length [OF ok] m fd p])

lemma write_post_none:
  assumes "file_at s i as"
  shows "write_post i as as off 0 src s s"
proof -
  have "fs_after [] (set_addrs i as s) s s"
    using fs_after_refl [of s] set_addrs_same [of s i as] assms by (simp add: file_at_def)
  moreover have "fframe (log_area s) (length (bc_disk s)) (fs_sb s) (bview s) as (bview s) as"
    using assms by (intro fstep_frame fstep_refl txn_sized) (auto simp: file_at_def)
  ultimately show ?thesis by (auto simp: write_post_def nblocks_def intro!: exI [of _ "[]"])
qed

text \<open>A chunk of \<open>m\<close> bytes within one block, and the rest of the write after it.\<close>

lemma write_post_chunk:
  assumes at: "file_at s i as" and c: "chunk_post i as as1 (off div BSIZE) (off mod BSIZE) (take m src) s t1"
    and t: "write_post i as1 as' (off + m) (k - m) (drop m src) t1 t"
    and m: "m \<le> k" "m \<le> BSIZE - off mod BSIZE" and nb: "nblocks off k = Suc (nblocks (off + m) (k - m))"
    and bn: "off div BSIZE < MAXFILE" and k: "k \<le> length src"
  shows "write_post i as as' off k src s t"
proof -
  let ?bn = "off div BSIZE" and ?o = "off mod BSIZE" and ?b = "take m src"
  have lb: "length ?b = m" using m(1) k by simp
  have ob: "?o + length ?b \<le> BSIZE" using m(2) mod_less_divisor [OF BSIZE_pos, of off] by (simp add: lb)
  obtain ws where ws: "fs_after ws (set_addrs i as1 s) s t1" "length ws \<le> 6"
    "fframe (log_area s) (length (bc_disk s)) (fs_sb s) (bview s) as (bview t1) as1" using c by (auto simp: chunk_post_def)
  have fd1: "\<And>bm. bm < MAXFILE \<Longrightarrow> fdata (bview t1) as1 bm =
      (if bm = ?bn then patch ?o ?b (fdata (bview s) as ?bn) else fdata (bview s) as bm)"
    and fa1: "fa (bview t1) as1 ?bn \<noteq> 0" using c by (auto simp: chunk_post_def)
  have f1: "log_area t1 = log_area s" "bc_disk t1 = bc_disk s" "fs_sb t1 = fs_sb s" using ws(1) by (simp_all add: fs_after_def)
  obtain ws' where ws': "fs_after ws' (set_addrs i as' t1) t1 t" "length ws' \<le> 6 * nblocks (off + m) (k - m)"
    "fframe (log_area t1) (length (bc_disk t1)) (fs_sb t1) (bview t1) as1 (bview t) as'" using t by (auto simp: write_post_def)
  have ok: "file_ok (log_area s) (fs_sb s) (bview s) as" "sized (length (bc_disk s)) (bview s)" "sb_size (fs_sb s) \<le> length (bc_disk s)"
    using at txn_sized [of s] by (auto simp: file_at_def layout_def)
  have fb: "fbyte (bview t) as' p = (if off \<le> p \<and> p < off + k then src ! (p - off) else fbyte (bview s) as p)"
    if p: "p < MAXFILE * BSIZE" for p
    using chunk_fbyte [OF ok ob fd1 p] t p m(1) k unfolding lb by (auto simp: write_post_def nth_drop)
  have mapd: "fa (bview t) as' (p div BSIZE) \<noteq> 0" if p: "off \<le> p" "p < off + k" for p
  proof (cases "off + m \<le> p")
    case True
    then show ?thesis using t p(2) m(1) by (auto simp: write_post_def)
  next
    case False
    then have "off mod BSIZE + (p - off) < BSIZE" using p(1) m(2) mod_less_divisor [OF BSIZE_pos, of off] by simp
    from div_mod_offset [OF this] p(1) have "p div BSIZE = ?bn" by simp
    moreover have "fa (bview t) as' ?bn = fa (bview t1) as1 ?bn" using ws'(3) bn fa1 by (simp add: fframe_def)
    ultimately show ?thesis using fa1 by simp
  qed
  show ?thesis
    unfolding write_post_def
    using fs_after_trans_set [OF ws(1) ws'(1)] ws(2) ws'(2) nb fframe_trans [OF ws(3)] ws'(3) f1 fb mapd
    by (auto intro!: exI [of _ "ws @ ws'"])
qed

lemma writei_loop_ok:
  assumes "file_at s i as" and "6 * nblocks off k \<le> bavail s" "6 * nblocks off k \<le> log_left s"
    and "6 * nblocks off k \<le> nfree (fs_sb s) (bview s)" and "off + k \<le> MAXFILE * BSIZE" and "k \<le> length src"
  shows "\<exists>t as'. writei_loop i off src k s = Ok (off + k, t) \<and> write_post i as as' off k src s t"
  using assms
proof (induction k arbitrary: off src s as rule: less_induct)
  case (less k)
  show ?case
  proof (cases "k = 0")
    case True
    then show ?thesis using write_post_none [OF less.prems(1)] by (auto simp: writei_loop.simps)
  next
    case False
    define m where "m = min k (BSIZE - off mod BSIZE)"
    have m: "0 < m" "m \<le> k" "m \<le> BSIZE - off mod BSIZE" using False chunk_pos [of k off] by (auto simp: m_def)
    have nb: "nblocks off k = Suc (nblocks (off + m) (k - m))" using nblocks_chunk [OF _ m_def] False by simp
    let ?bn = "off div BSIZE" and ?o = "off mod BSIZE" and ?b = "take m src"
    have bn: "?bn < MAXFILE" using less.prems(5) False by (intro block_in_range) simp
    have ob: "?o + length ?b \<le> BSIZE" using m(3) mod_less_divisor [OF BSIZE_pos, of off] by simp
    have rm: "6 \<le> bavail s" "6 \<le> log_left s" "2 \<le> nfree (fs_sb s) (bview s)" using less.prems(2-4) nb by simp_all
    from write_chunk [OF less.prems(1) rm bn ob] obtain a s1 bp s2 s3 t1 as1 where
      r: "bmap i ?bn s = Ok (a, s1)" "i_dev (get_inode s1 i) = ROOTDEV" "bread ROOTDEV a s1 = Ok (bp, s2)"
      "log_write bp (set_data bp (patch ?o ?b (b_data (get_buf s2 bp))) s2) = Ok s3" "brelse bp s3 = Ok t1"
      "chunk_post i as as1 ?bn ?o ?b s t1" by blast
    obtain ws where ws: "fs_after ws (set_addrs i as1 s) s t1" "length ws \<le> 6"
      "fframe (log_area s) (length (bc_disk s)) (fs_sb s) (bview s) as (bview t1) as1"
      "nfree (fs_sb s) (bview s) \<le> nfree (fs_sb s) (bview t1) + 5"
      using r(6) by (auto simp: chunk_post_def)
    have f1: "fs_sb t1 = fs_sb s" "bavail s \<le> bavail t1 + length ws" "log_left s \<le> log_left t1 + length ws"
      using ws(1) by (simp_all add: fs_after_def)
    have at1: "file_at t1 i as1" by (rule file_at_frame [OF less.prems(1) ws(1,3)])
    have "\<exists>t as'. writei_loop i (off + m) (drop m src) (k - m) t1 = Ok (off + m + (k - m), t)
        \<and> write_post i as1 as' (off + m) (k - m) (drop m src) t1 t"
      by (rule less.IH [OF _ at1]) (use m nb less.prems(2-6) f1 ws(2,4) in auto)
    then obtain t as' where t: "writei_loop i (off + m) (drop m src) (k - m) t1 = Ok (off + k, t)"
      "write_post i as1 as' (off + m) (k - m) (drop m src) t1 t" using m(2) by auto
    have w: "wrap32 (off + m) = off + m"
      using less.prems(5) m(2) by (intro wrap32_id) (simp add: MAXFILE_def NDIRECT_def NINDIRECT_def BSIZE_def)
    have "writei_loop i off src k s = Ok (off + k, t)"
      using False r(1-5) t(1) w by (subst writei_loop.simps) (simp add: m_def [symmetric] Let_def)
    then show ?thesis using write_post_chunk [OF less.prems(1) r(6) t(2) m(2,3) nb bn less.prems(6)] by blast
  qed
qed

section \<open>The whole write\<close>

text \<open>The inode after a write that may have made the file longer.\<close>

definition written :: "nat \<Rightarrow> nat list \<Rightarrow> nat \<Rightarrow> 'z fsst_scheme \<Rightarrow> inode list" where
  "written i as' sz s = (fs_inode s)[i := (get_inode s i)\<lparr>i_addrs := as', i_size := sz\<rparr>]"

lemma inode_dinode_ok:
  assumes "file_ok area sb v as" and "sb_size sb \<le> 2 ^ 31"
    and "i_type ip < 2 ^ 16" "i_major ip < 2 ^ 16" "i_minor ip < 2 ^ 16" "i_nlink ip < 2 ^ 16" "i_size ip < 2 ^ 32" "i_addrs ip = as"
  shows "dinode_ok (inode_dinode ip)"
proof -
  have l: "length as = NDIRECT + 1" using assms(1) by (simp add: file_ok_def)
  have "a < 2 ^ 32" if "a \<in> set as" for a
  proof -
    obtain k where k: "k < NDIRECT + 1" "a = as ! k" using \<open>a \<in> set as\<close> l by (auto simp: in_set_conv_nth)
    have "as ! k = 0 \<or> as ! k \<in> fblocks v as"
    proof (cases "k < NDIRECT")
      case True
      then have "fa v as k = as ! k" by (simp add: fa_def)
      then show ?thesis using fa_in_fblocks [OF NDIRECT_less(2) [OF True], of v as] by auto
    next
      case False
      then show ?thesis using k ind_in_fblocks [of as v] by (cases "k = NDIRECT") auto
    qed
    then have "as ! k < 2 ^ 31 \<or> as ! k = 0" using file_blockD(1) [OF assms(1)] assms(2) by (meson less_le_trans)
    then show ?thesis using k(2) by auto
  qed
  then show ?thesis using assms l by (simp add: dinode_ok_def inode_dinode_def)
qed

lemma IBLOCK_meta: "i < sb_ninodes sb \<Longrightarrow> IBLOCK i sb \<in> meta area sb"
  by (auto simp: meta_def)

text \<open>
  A store into an inode block leaves every file alone.
\<close>

lemma inode_block_frame:
  assumes ok: "file_ok area sb v as" and lay: "layout area len sb v" and n: "inum < sb_ninodes sb"
    and v': "v' = v(IBLOCK inum sb := d)"
  shows "file_ok area sb v' as" "layout area len sb v'" "fbyte v' as p = fbyte v as p \<or> \<not> p < MAXFILE * BSIZE"
    "fa v' as = fa v as" "fblocks v' as = fblocks v as"
    "\<And>b. b < sb_size sb \<Longrightarrow> used sb v' b = used sb v b"
proof -
  have ni: "IBLOCK inum sb \<notin> fblocks v as" using file_blockD(3) [OF ok] IBLOCK_meta [OF n] by blast
  have same: "v' b = v b" if "b \<in> fblocks v as" for b using that ni by (auto simp: v')
  note fc = file_cong [where v' = v', OF same]
  show "fa v' as = fa v as" by (rule fc(1))
  show "fblocks v' as = fblocks v as" by (rule fc(2))
  show us: "used sb v' b = used sb v b" if "b < sb_size sb" for b
    using lay n that by (auto simp: used_def v' layout_def)
  show "file_ok area sb v' as" using ok us by (simp add: file_ok_def fc(1,2))
  show "layout area len sb v'" using lay us by (simp add: layout_def)
  show "fbyte v' as p = fbyte v as p \<or> \<not> p < MAXFILE * BSIZE"
    using fc(3) block_in_range [of p] by (auto simp: fbyte_def)
qed

text \<open>Storing a new size: \<^verbatim>\<open>iupdate\<close> changes the block of the inode only.\<close>

lemma iupdate_size:
  assumes at: "file_at u i as" and there: "inode_there u i" and sz: "sz < 2 ^ 32" and room: "0 < bavail u" "0 < log_left u"
    and ty: "i_type (get_inode u i) < 2 ^ 16" "i_major (get_inode u i) < 2 ^ 16" "i_minor (get_inode u i) < 2 ^ 16" "i_nlink (get_inode u i) < 2 ^ 16"
  defines "inum \<equiv> i_inum (get_inode u i)"
  shows "\<exists>t d. iupdate i (upd_inode i (\<lambda>ip. ip\<lparr>i_size := sz\<rparr>) u) = Ok t \<and> file_at t i as \<and> bheld t = bheld u \<and> bc_disk t = bc_disk u
     \<and> log_area t = log_area u \<and> fs_sb t = fs_sb u \<and> fs_inode t = (fs_inode u)[i := (get_inode u i)\<lparr>i_size := sz\<rparr>]
     \<and> bview t = (bview u)(IBLOCK inum (fs_sb u) := d) \<and> disk_inode (fs_sb u) (bview t) inum = inode_dinode (get_inode t i)
     \<and> bavail u \<le> bavail t + 1"
proof -
  have f: "in_txn u" "fs_layout u" "i < length (fs_inode u)" "i_addrs (get_inode u i) = as" "file_ok (log_area u) (fs_sb u) (bview u) as"
    using at by (simp_all add: file_at_def)
  define x where "x = upd_inode i (\<lambda>ip. ip\<lparr>i_size := sz\<rparr>) u"
  have ix: "get_inode x i = (get_inode u i)\<lparr>i_size := sz\<rparr>" "fs_inode x = (fs_inode u)[i := (get_inode u i)\<lparr>i_size := sz\<rparr>]"
    using f(3) by (simp_all add: x_def)
  have cx: "in_txn x" "bview x = bview u" "bheld x = bheld u" "bc_disk x = bc_disk u" "log_area x = log_area u" "fs_sb x = fs_sb u"
    "bavail x = bavail u" "log_left x = log_left u" using f(1) by (simp_all add: x_def)
  have dok: "dinode_ok (inode_dinode (get_inode x i))"
    by (rule inode_dinode_ok [OF f(5)]) (use txn_small [OF f(1,2)] ty ix(1) sz f(4) in simp_all)
  have thx: "inode_there x i" using there ix cx f(3) by (simp add: inode_there_def)
  have layx: "fs_layout x" using f(2) cx by simp
  have rx: "0 < bavail x" "0 < log_left x" using room cx by simp_all
  have inx: "inum = i_inum (get_inode x i)" using ix by (simp add: inum_def)
  from iupdate_ok [OF cx(1) layx thx dok rx inx] obtain t where t: "iupdate i x = Ok t"
    "fs_after [(IBLOCK inum (fs_sb x), enc_dinode (IOFF inum) (inode_dinode (get_inode x i)) (bview x (IBLOCK inum (fs_sb x))))] (fs_inode x) x t"
    by blast
  have g: "in_txn t" "bheld t = bheld u" "bc_disk t = bc_disk u" "log_area t = log_area u" "fs_sb t = fs_sb u" "fs_inode t = fs_inode x"
    "bavail u \<le> bavail t + 1" using t(2) cx by (simp_all add: fs_after_def)
  define d where "d = enc_dinode (IOFF inum) (inode_dinode (get_inode x i)) (bview u (IBLOCK inum (fs_sb u)))"
  have vt: "bview t = (bview u)(IBLOCK inum (fs_sb u) := d)" using t(2) cx by (simp add: fs_after_def d_def)
  have ninum: "inum < sb_ninodes (fs_sb u)" using there by (simp add: inode_there_def inum_def)
  note ib = inode_block_frame [OF f(5,2) ninum vt]
  have uht: "unheld_free t" by (rule unheld_free_mono [of u]) (use at g ib(6) in \<open>auto simp: file_at_def\<close>)
  have att: "file_at t i as" using at g ib uht ix f(3) unfolding file_at_def by simp
  have "IBLOCK inum (fs_sb u) < length (bc_disk u)" using f(2) ninum by (simp add: layout_def)
  then have lenb: "length (bview u (IBLOCK inum (fs_sb u))) = BSIZE" using txn_sized [OF f(1)] by (simp add: sized_def)
  have "disk_inode (fs_sb u) (bview t) inum = inode_dinode (get_inode t i)"
    unfolding vt d_def g(6) using disk_inode_update [where v = "bview u" and sb = "fs_sb u" and inum = inum, OF lenb dok] by simp
  moreover have "fs_inode t = (fs_inode u)[i := (get_inode u i)\<lparr>i_size := sz\<rparr>]" using g(6) ix(2) by simp
  ultimately show ?thesis using t(1) g att vt unfolding x_def [symmetric] by blast
qed

lemma writei_ok:
  assumes at: "file_at s i as" and there: "inode_there s i"
    and ty: "i_type (get_inode s i) \<noteq> T_DEV" "i_type (get_inode s i) < 2 ^ 16" "i_major (get_inode s i) < 2 ^ 16"
      "i_minor (get_inode s i) < 2 ^ 16" "i_nlink (get_inode s i) < 2 ^ 16"
    and sz: "i_size (get_inode s i) = sz" and off: "off \<le> sz" and n: "off + n \<le> MAXFILE * BSIZE" "n \<le> length src"
    and room: "6 * nblocks off n < bavail s" "6 * nblocks off n < log_left s" "6 * nblocks off n \<le> nfree (fs_sb s) (bview s)"
  shows "\<exists>t as'. writei i src off n s = Ok (int n, t) \<and> in_txn t \<and> fs_inode t = written i as' (max sz (off + n)) s
     \<and> file_at t i as' \<and> bheld t = bheld s \<and> bc_disk t = bc_disk s
     \<and> (\<forall>p < MAXFILE * BSIZE. fbyte (bview t) as' p = (if off \<le> p \<and> p < off + n then src ! (p - off) else fbyte (bview s) as p))
     \<and> (\<forall>p. off \<le> p \<and> p < off + n \<longrightarrow> fa (bview t) as' (p div BSIZE) \<noteq> 0)
     \<and> (\<forall>bn < MAXFILE. fa (bview s) as bn \<noteq> 0 \<longrightarrow> fa (bview t) as' bn = fa (bview s) as bn)
     \<and> (\<forall>b. b \<notin> fblocks (bview s) as \<longrightarrow> b \<notin> bitmap_blocks (fs_sb s) \<longrightarrow> (b < sb_size (fs_sb s) \<longrightarrow> used (fs_sb s) (bview s) b)
          \<longrightarrow> b \<noteq> IBLOCK (i_inum (get_inode s i)) (fs_sb s) \<longrightarrow> bview t b = bview s b)
     \<and> (off + n > sz \<longrightarrow> disk_inode (fs_sb t) (bview t) (i_inum (get_inode s i)) = inode_dinode (get_inode t i))
     \<and> log_area t = log_area s \<and> fs_sb t = fs_sb s \<and> bavail s \<le> bavail t + 6 * nblocks off n + 1"
proof -
  have mf: "MAXFILE * BSIZE < 2 ^ 32" by (simp add: MAXFILE_def NDIRECT_def NINDIRECT_def BSIZE_def)
  then have w: "wrap32 (off + n) = off + n" using n(1) by (intro wrap32_id) simp
  have rm: "6 * nblocks off n \<le> bavail s" "6 * nblocks off n \<le> log_left s" using room by simp_all
  from writei_loop_ok [OF at rm room(3) n] obtain u as' where u: "writei_loop i off src n s = Ok (off + n, u)"
    "write_post i as as' off n src s u" by blast
  obtain ws where ws: "fs_after ws (set_addrs i as' s) s u" "length ws \<le> 6 * nblocks off n"
    "fframe (log_area s) (length (bc_disk s)) (fs_sb s) (bview s) as (bview u) as'"
    using u(2) by (auto simp: write_post_def)
  have fb: "\<And>p. p < MAXFILE * BSIZE \<Longrightarrow> fbyte (bview u) as' p = (if off \<le> p \<and> p < off + n then src ! (p - off) else fbyte (bview s) as p)"
    and mp: "\<And>p. off \<le> p \<Longrightarrow> p < off + n \<Longrightarrow> fa (bview u) as' (p div BSIZE) \<noteq> 0"
    using u(2) by (simp_all add: write_post_def)
  have f: "in_txn u" "bheld u = bheld s" "bc_disk u = bc_disk s" "log_area u = log_area s" "fs_sb u = fs_sb s"
    "fs_inode u = set_addrs i as' s" "bavail s \<le> bavail u + length ws" "log_left s \<le> log_left u + length ws"
    using ws(1) by (simp_all add: fs_after_def)
  have atu: "file_at u i as'" by (rule file_at_frame [OF at ws(1,3)])
  have il: "i < length (fs_inode s)" using at by (simp add: file_at_def)
  have iu: "get_inode u i = (get_inode s i)\<lparr>i_addrs := as'\<rparr>" using il by (simp add: f(6) set_addrs_def)
  have fr: "\<And>bn. bn < MAXFILE \<Longrightarrow> fa (bview s) as bn \<noteq> 0 \<Longrightarrow> fa (bview u) as' bn = fa (bview s) as bn"
    "\<And>b. b \<notin> fblocks (bview s) as \<Longrightarrow> b \<notin> bitmap_blocks (fs_sb s) \<Longrightarrow> (b < sb_size (fs_sb s) \<longrightarrow> used (fs_sb s) (bview s) b) \<Longrightarrow> bview u b = bview s b"
    using ws(3) by (simp_all add: fframe_def)
  have run: "writei i src off n s = (if n > 0 \<and> off + n > sz
      then bind_res (iupdate i (upd_inode i (\<lambda>ip. ip\<lparr>i_size := off + n\<rparr>) u)) (\<lambda>s. Ok (int n, s)) else Ok (int n, u))"
    using ty(1) sz off n(1) u(1) w iu by (simp add: writei_def)
  show ?thesis
  proof (cases "off + n > sz")
    case False
    then have e: "written i as' (max sz (off + n)) s = fs_inode u"
      using sz by (cases "get_inode s i") (simp add: written_def f(6) set_addrs_def max_def)
    show ?thesis
      using run False e f atu fb mp fr ws(2) by (intro exI [of _ u] exI [of _ as']) simp
  next
    case True
    let ?inum = "i_inum (get_inode s i)"
    have thu: "inode_there u i" using there iu f(2,5) il by (simp add: inode_there_def f(6) set_addrs_def)
    have inu: "i_inum (get_inode u i) = ?inum" using iu by simp
    have sz32: "off + n < 2 ^ 32" using n(1) mf by simp
    have rx: "0 < bavail u" "0 < log_left u" using room f(7,8) ws(2) by simp_all
    have "\<exists>t d. iupdate i (upd_inode i (\<lambda>ip. ip\<lparr>i_size := off + n\<rparr>) u) = Ok t \<and> file_at t i as' \<and> bheld t = bheld u \<and> bc_disk t = bc_disk u
       \<and> log_area t = log_area u \<and> fs_sb t = fs_sb u \<and> fs_inode t = (fs_inode u)[i := (get_inode u i)\<lparr>i_size := off + n\<rparr>]
       \<and> bview t = (bview u)(IBLOCK ?inum (fs_sb u) := d) \<and> disk_inode (fs_sb u) (bview t) ?inum = inode_dinode (get_inode t i)
       \<and> bavail u \<le> bavail t + 1"
      unfolding inu [symmetric] by (rule iupdate_size [OF atu thu sz32 rx]) (use iu ty in simp_all)
    then obtain t d where t: "iupdate i (upd_inode i (\<lambda>ip. ip\<lparr>i_size := off + n\<rparr>) u) = Ok t" "file_at t i as'" "bheld t = bheld u"
      "bc_disk t = bc_disk u" "log_area t = log_area u" "fs_sb t = fs_sb u" "fs_inode t = (fs_inode u)[i := (get_inode u i)\<lparr>i_size := off + n\<rparr>]"
      "bview t = (bview u)(IBLOCK ?inum (fs_sb u) := d)" "disk_inode (fs_sb u) (bview t) ?inum = inode_dinode (get_inode t i)" "bavail u \<le> bavail t + 1"
      by blast
    have oku: "file_ok (log_area s) (fs_sb s) (bview u) as'" "layout (log_area s) (length (bc_disk s)) (fs_sb s) (bview u)"
      using ws(3) by (simp_all add: fframe_def)
    have ninum: "?inum < sb_ninodes (fs_sb s)" using there by (simp add: inode_there_def)
    note ib = inode_block_frame [OF oku ninum t(8) [unfolded f(5)]]
    have "writei i src off n s = Ok (int n, t)" using run True off t(1) by simp
    moreover have "in_txn t" using t(2) by (simp add: file_at_def)
    moreover have "fs_inode t = written i as' (max sz (off + n)) s" using t(7) iu True by (simp add: f(6) set_addrs_def written_def)
    moreover have "fbyte (bview t) as' p = (if off \<le> p \<and> p < off + n then src ! (p - off) else fbyte (bview s) as p)"
      if "p < MAXFILE * BSIZE" for p using ib(3) [of p] fb [OF that] that by auto
    moreover have "bavail s \<le> bavail t + 6 * nblocks off n + 1" using t(10) f(7) ws(2) by simp
    ultimately show ?thesis
      using t(2-6,8,9) f(2-5) ib(4) mp fr by (intro exI [of _ t] exI [of _ as']) simp
  qed
qed

end
