(* ===== verification/Fs_Props.thy ===== *)
theory Fs_Props
  imports Fs_Write
begin

text \<open>
  The properties of file contents (\<^verbatim>\<open>readi\<close> and \<^verbatim>\<open>writei\<close> of \<^verbatim>\<open>src/fs.c\<close>), and a small file system on
  which the properties of \<open>Fs_Blocks\<close>, \<open>Fs_Inode\<close> and this theory are applied.
\<close>

section \<open>Reading what has been written\<close>

lemma readable_file:
  assumes at: "file_at s i as" and bn: "bn < MAXFILE" "fa (bview s) as bn \<noteq> 0"
  shows "readable s as bn"
proof -
  have f: "fs_layout s" "file_ok (log_area s) (fs_sb s) (bview s) as" "fblocks (bview s) as \<inter> ran (bheld s) = {}"
    using at by (simp_all add: file_at_def)
  have a: "fa (bview s) as bn \<in> fblocks (bview s) as" by (rule fa_in_fblocks [OF bn])
  have ind: "as ! NDIRECT \<in> fblocks (bview s) as" if "NDIRECT \<le> bn"
    using that bn(2) ind_in_fblocks [of as "bview s"] by (cases "as ! NDIRECT = 0") (auto simp: fa_def)
  have len: "b < length (bc_disk s)" if "b \<in> fblocks (bview s) as" for b
    using file_blockD(1) [OF f(2) that] f(1) by (auto simp: layout_def)
  show ?thesis
    unfolding readable_def using bn a ind len f(3) by blast
qed

section \<open>A file as a list of bytes\<close>

text \<open>The abstraction of an inode to the bytes of its file.\<close>

definition content :: "(nat \<Rightarrow> block) \<Rightarrow> inode \<Rightarrow> byte list" where
  "content v ip = map (fbyte v (i_addrs ip)) [0..<i_size ip]"

lemma length_content [simp]: "length (content v ip) = i_size ip"
  by (simp add: content_def)

lemma content_slice:
  "off \<le> i_size ip \<Longrightarrow> map (fbyte v (i_addrs ip)) [off..<off + min n (i_size ip - off)] = slice off n (content v ip)"
  by (rule nth_equalityI) (auto simp: content_def slice_def)

lemma content_write:
  assumes "i_size ip' = max (i_size ip) (off + n)" and "off \<le> i_size ip" and "n \<le> length src"
    and "\<And>p. p < i_size ip' \<Longrightarrow> fbyte v' (i_addrs ip') p = (if off \<le> p \<and> p < off + n then src ! (p - off) else fbyte v (i_addrs ip) p)"
  shows "content v' ip' = take off (content v ip) @ take n src @ drop (off + n) (content v ip)"
proof (rule nth_equalityI)
  show l: "length (content v' ip') = length (take off (content v ip) @ take n src @ drop (off + n) (content v ip))"
    using assms(1-3) by simp
  fix p assume "p < length (content v' ip')"
  then have p: "p < i_size ip'" by simp
  consider "p < off" | "off \<le> p" "p < off + n" | "off + n \<le> p" by linarith
  then show "content v' ip' ! p = (take off (content v ip) @ take n src @ drop (off + n) (content v ip)) ! p"
    using p assms by cases (auto simp: content_def nth_append)
qed

text \<open>All blocks below the size of the file are there; files have no holes in this file system.\<close>

definition mapped :: "(nat \<Rightarrow> block) \<Rightarrow> inode \<Rightarrow> bool" where
  "mapped v ip \<longleftrightarrow> i_size ip \<le> MAXFILE * BSIZE \<and> (\<forall>p < i_size ip. fa v (i_addrs ip) (p div BSIZE) \<noteq> 0)"

lemma readi_ok':
  assumes "file_at s i (i_addrs (get_inode s i))" and "mapped (bview s) (get_inode s i)" and "0 < bavail s"
    and "i_type (get_inode s i) \<noteq> T_DEV" and "off < 2 ^ 32" "n < 2 ^ 32"
  shows "if off > i_size (get_inode s i) \<or> 2 ^ 32 \<le> off + n then readi i off n s = Ok (-1, [], s)
     else \<exists>t. readi i off n s = Ok (int (length (slice off n (content (bview s) (get_inode s i)))),
            slice off n (content (bview s) (get_inode s i)), t)
          \<and> bview t = bview s \<and> bc_disk t = bc_disk s \<and> fs_inode t = fs_inode s \<and> bheld t = bheld s"
proof -
  let ?ip = "get_inode s i"
  have f: "bc_wf s" "i_dev ?ip = ROOTDEV" using assms(1) by (auto simp: file_at_def in_txn_def log_wf_def)
  have mf: "MAXFILE * BSIZE < 2 ^ 32" by (simp add: MAXFILE_def NDIRECT_def NINDIRECT_def BSIZE_def)
  have sz: "i_size ?ip \<le> MAXFILE * BSIZE" using assms(2) by (simp add: mapped_def)
  then have sz': "i_size ?ip < 2 ^ 32" using mf by linarith
  have rd: "readable s (i_addrs ?ip) bn" if "bn * BSIZE < i_size ?ip" for bn
  proof (rule readable_file [OF assms(1)])
    have e: "bn * BSIZE div BSIZE = bn" using BSIZE_pos by simp
    have "bn * BSIZE < MAXFILE * BSIZE" using that sz by linarith
    then show "bn < MAXFILE" by simp
    show "fa (bview s) (i_addrs ?ip) bn \<noteq> 0" using assms(2) that e unfolding mapped_def by metis
  qed
  show ?thesis
  proof (cases "off > i_size ?ip \<or> 2 ^ 32 \<le> off + n")
    case True
    then show ?thesis using readi_ok [OF f(1) assms(3) f(2) refl assms(4) refl sz' rd assms(5,6) refl] by simp
  next
    case False
    then obtain t where t: "readi i off n s = Ok (int (min n (i_size ?ip - off)),
        map (fbyte (bview s) (i_addrs ?ip)) [off..<off + min n (i_size ?ip - off)], t)" "reads s t"
      using readi_ok [OF f(1) assms(3) f(2) refl assms(4) refl sz' rd assms(5,6) refl] by auto
    have "length (slice off n (content (bview s) ?ip)) = min n (i_size ?ip - off)" by (simp add: slice_def min.commute)
    then show ?thesis
      using t False content_slice [of off ?ip "bview s" n] reads_fs [OF t(2)] by (auto simp: reads_def)
  qed
qed

text \<open>
  C5. \<^verbatim>\<open>readi\<close> refines reading a slice of a byte list: offsets past the end and sums that wrap
  around give -1; otherwise it returns the bytes from \<open>off\<close> on, as many as are asked for
  and as the file has, and changes neither the file nor the disk.
\<close>

theorem readi_reads:
  assumes "file_at s i (i_addrs (get_inode s i))" and "mapped (bview s) (get_inode s i)" and "0 < bavail s"
    and "i_type (get_inode s i) \<noteq> T_DEV" and "off < 2 ^ 32" "n < 2 ^ 32"
  shows "if off > i_size (get_inode s i) \<or> 2 ^ 32 \<le> off + n then readi i off n s = Ok (-1, [], s)
     else \<exists>t. readi i off n s = Ok (int (length (slice off n (content (bview s) (get_inode s i)))),
            slice off n (content (bview s) (get_inode s i)), t)
          \<and> bview t = bview s \<and> bc_disk t = bc_disk s \<and> fs_inode t = fs_inode s \<and> bheld t = bheld s"
  by (rule readi_ok' [OF assms])

text \<open>
  C4. \<^verbatim>\<open>writei\<close> refines overwriting a slice of a byte list and extending it at the end: the file
  afterwards has the new bytes at \<open>off\<close> and the old ones elsewhere, has grown exactly if the write
  ends past the old size, and then its inode on the disk has been updated in the same transaction.
  Blocks of other files keep their contents, and reading the written range returns the new bytes.
\<close>

theorem writei_writes:
  assumes "file_at s i (i_addrs (get_inode s i))" and "inode_there s i" and "mapped (bview s) (get_inode s i)"
    and "i_type (get_inode s i) \<noteq> T_DEV" "i_type (get_inode s i) < 2 ^ 16" "i_major (get_inode s i) < 2 ^ 16"
      "i_minor (get_inode s i) < 2 ^ 16" "i_nlink (get_inode s i) < 2 ^ 16"
    and "off \<le> i_size (get_inode s i)" and "off + n \<le> MAXFILE * BSIZE" "n \<le> length src"
    and "6 * nblocks off n + 1 < bavail s" "6 * nblocks off n < log_left s" "6 * nblocks off n \<le> nfree (fs_sb s) (bview s)"
  shows "\<exists>t u. writei i src off n s = Ok (int n, t)
     \<and> content (bview t) (get_inode t i)
         = take off (content (bview s) (get_inode s i)) @ take n src @ drop (off + n) (content (bview s) (get_inode s i))
     \<and> mapped (bview t) (get_inode t i) \<and> file_at t i (i_addrs (get_inode t i)) \<and> bc_disk t = bc_disk s
     \<and> (off + n > i_size (get_inode s i) \<longrightarrow>
          disk_inode (fs_sb t) (bview t) (i_inum (get_inode s i)) = inode_dinode (get_inode t i))
     \<and> (\<forall>b < sb_size (fs_sb s). used (fs_sb s) (bview s) b \<and> b \<notin> fblocks (bview s) (i_addrs (get_inode s i))
          \<and> b \<notin> bitmap_blocks (fs_sb s) \<and> b \<noteq> IBLOCK (i_inum (get_inode s i)) (fs_sb s) \<longrightarrow> bview t b = bview s b)
     \<and> readi i off n t = Ok (int n, take n src, u)"
proof -
  let ?ip = "get_inode s i"
  have room: "6 * nblocks off n < bavail s" using assms(12) by simp
  from writei_ok [OF assms(1,2,4-8) refl assms(9-11) room assms(13,14)] obtain t as' where
    t: "writei i src off n s = Ok (int n, t)" "fs_inode t = written i as' (max (i_size ?ip) (off + n)) s" "file_at t i as'"
      "bc_disk t = bc_disk s" "fs_sb t = fs_sb s" "bavail s \<le> bavail t + 6 * nblocks off n + 1"
      "off + n > i_size ?ip \<longrightarrow> disk_inode (fs_sb t) (bview t) (i_inum ?ip) = inode_dinode (get_inode t i)"
    and byt: "\<forall>p < MAXFILE * BSIZE. fbyte (bview t) as' p = (if off \<le> p \<and> p < off + n then src ! (p - off) else fbyte (bview s) (i_addrs ?ip) p)"
    and new: "\<forall>p. off \<le> p \<and> p < off + n \<longrightarrow> fa (bview t) as' (p div BSIZE) \<noteq> 0"
    and old: "\<forall>bn < MAXFILE. fa (bview s) (i_addrs ?ip) bn \<noteq> 0 \<longrightarrow> fa (bview t) as' bn = fa (bview s) (i_addrs ?ip) bn"
    and oth: "\<forall>b. b \<notin> fblocks (bview s) (i_addrs ?ip) \<longrightarrow> b \<notin> bitmap_blocks (fs_sb s) \<longrightarrow> (b < sb_size (fs_sb s) \<longrightarrow> used (fs_sb s) (bview s) b)
          \<longrightarrow> b \<noteq> IBLOCK (i_inum ?ip) (fs_sb s) \<longrightarrow> bview t b = bview s b" by blast
  have il: "i < length (fs_inode s)" using assms(1) by (simp add: file_at_def)
  have it: "i_addrs (get_inode t i) = as'" "i_size (get_inode t i) = max (i_size ?ip) (off + n)" "i_type (get_inode t i) = i_type ?ip"
    using il by (simp_all add: t(2) written_def)
  have sz: "i_size ?ip \<le> MAXFILE * BSIZE" using assms(3) by (simp add: mapped_def)
  have "content (bview t) (get_inode t i) = take off (content (bview s) ?ip) @ take n src @ drop (off + n) (content (bview s) ?ip)"
    by (rule content_write) (use it sz assms(9-11) byt in auto)
  moreover have m: "mapped (bview t) (get_inode t i)"
    unfolding mapped_def it
  proof (intro conjI allI impI)
    show "max (i_size ?ip) (off + n) \<le> MAXFILE * BSIZE" using sz assms(10) by simp
    fix p assume p: "p < max (i_size ?ip) (off + n)"
    show "fa (bview t) as' (p div BSIZE) \<noteq> 0"
    proof (cases "off \<le> p \<and> p < off + n")
      case False
      then have ps: "p < i_size ?ip" using p assms(9) by auto
      then have "p div BSIZE < MAXFILE" using sz block_in_range [of p] by simp
      then show ?thesis using old assms(3) ps by (simp add: mapped_def)
    qed (use new in blast)
  qed
  moreover have at: "file_at t i (i_addrs (get_inode t i))" using t(3) it(1) by simp
  ultimately have c: "content (bview t) (get_inode t i) = take off (content (bview s) ?ip) @ take n src @ drop (off + n) (content (bview s) ?ip)"
    by simp
  have av: "0 < bavail t" using t(6) assms(12) by linarith
  have mf: "MAXFILE * BSIZE < 2 ^ 32" by (simp add: MAXFILE_def NDIRECT_def NINDIRECT_def BSIZE_def)
  have b: "off < 2 ^ 32" "n < 2 ^ 32" "\<not> (off > i_size (get_inode t i) \<or> 2 ^ 32 \<le> off + n)"
    using assms(10) mf it(2) by auto
  have td: "i_type (get_inode t i) \<noteq> T_DEV" using it(3) assms(4) by simp
  have sl: "slice off n (content (bview t) (get_inode t i)) = take n src"
    unfolding c slice_def using assms(9,11) by simp
  obtain u where "readi i off n t = Ok (int (length (slice off n (content (bview t) (get_inode t i)))), slice off n (content (bview t) (get_inode t i)), u)"
    using readi_ok' [OF at m av td b(1,2)] b(3) by auto
  then have "readi i off n t = Ok (int n, take n src, u)" using sl assms(11) by simp
  then show ?thesis using t(1,4,7) c m at oth by blast
qed

section \<open>A small file system\<close>

text \<open>
  41 blocks: the super block is block 1, the log the blocks 2 to 31, block 32 holds eight inodes,
  block 33 the free map, and the seven blocks from 34 on are free. Inode 1 is an empty file. The
  first slot of the inode cache is \<open>ip\<close>; the cache and the log are as after \<^verbatim>\<open>binit\<close> and \<^verbatim>\<open>begin_op\<close>.
\<close>

definition small_sb :: superblock where
  "small_sb = \<lparr>sb_size = 41, sb_nblocks = 7, sb_ninodes = 8, sb_nlog = 30, sb_logstart = 2, sb_inodestart = 32, sb_bmapstart = 33\<rparr>"

definition small_super :: block where
  "small_super = st32 24 33 (st32 20 32 (st32 16 2 (st32 12 30 (st32 8 8 (st32 4 7 (st32 0 41 zero_block))))))"

definition small_bitmap :: block where
  "small_bitmap = [255, 255, 255, 255, 3] @ replicate 507 0"

definition small_file :: dinode where
  "small_file = \<lparr>di_type = T_FILE, di_major = 0, di_minor = 0, di_nlink = 1, di_size = 0, di_addrs = replicate 13 0\<rparr>"

definition small_disk :: "block list" where
  "small_disk = (replicate 41 zero_block)[1 := small_super, 32 := enc_dinode 64 small_file zero_block, 33 := small_bitmap]"

definition free_slot :: inode where
  "free_slot = \<lparr>i_dev = 0, i_inum = 0, i_ref = 0,
     i_lock = \<lparr>sl_locked = False, sl_name = ''inode'', sl_pid = 0\<rparr>, i_valid = False, i_type = 0, i_major = 0,
     i_minor = 0, i_nlink = 0, i_size = 0, i_addrs = replicate 13 0\<rparr>"

definition slot_1 :: inode where
  "slot_1 = free_slot\<lparr>i_dev := ROOTDEV, i_inum := 1, i_ref := 1\<rparr>"

definition file_1 :: inode where
  "file_1 = slot_1\<lparr>i_valid := True, i_type := T_FILE, i_nlink := 1\<rparr>"

definition small_fs :: "inode \<Rightarrow> fsst" where
  "small_fs ip = binit \<lparr>bc_buf = replicate (Suc NBUF) zero_buf, bc_disk = small_disk, bc_trace = [], bc_pid = 1,
     lg_start = 2, lg_size = 30, lg_outstanding = 1, lg_committing = False, lg_dev = ROOTDEV, lg_n = 0,
     lg_block = replicate LOGSIZE 0, fs_sb = small_sb, fs_inode = ip # replicate 49 free_slot\<rparr>"

lemma small_disk_len: "\<forall>d \<in> set small_disk. length d = BSIZE" "length small_disk = 41"
proof -
  have d: "dinode_ok small_file" by (simp add: dinode_ok_def small_file_def T_FILE_def NDIRECT_def)
  have "length (enc_dinode 64 small_file zero_block) = BSIZE"
    using length_dinode_bytes [OF d] zero_block_hdr(2) by (simp add: enc_dinode_bytes BSIZE_def)
  moreover have "length small_super = BSIZE" "length small_bitmap = BSIZE"
    using zero_block_hdr(2) by (simp_all add: small_super_def small_bitmap_def BSIZE_def)
  ultimately show "\<forall>d \<in> set small_disk. length d = BSIZE"
    unfolding small_disk_def using zero_block_hdr(2) set_update_subset_insert by (smt (verit) in_set_replicate insertE subsetD)
  show "length small_disk = 41" by (simp add: small_disk_def)
qed

lemma small_fs_sel:
  "bc_wf (small_fs ip)" "bheld (small_fs ip) = Map.empty" "bdirty (small_fs ip) = {}" "bavail (small_fs ip) = 30"
  "bview (small_fs ip) = (\<lambda>n. small_disk ! n)" "bc_disk (small_fs ip) = small_disk" "bc_pid (small_fs ip) = 1"
  "lg_start (small_fs ip) = 2" "lg_size (small_fs ip) = 30" "lg_outstanding (small_fs ip) = 1"
  "\<not> lg_committing (small_fs ip)" "lg_dev (small_fs ip) = ROOTDEV" "lg_n (small_fs ip) = 0"
  "lg_block (small_fs ip) = replicate LOGSIZE 0" "fs_sb (small_fs ip) = small_sb"
  "fs_inode (small_fs ip) = ip # replicate 49 free_slot"
proof -
  let ?s = "\<lparr>bc_buf = replicate (Suc NBUF) zero_buf, bc_disk = small_disk, bc_trace = [], bc_pid = 1,
     lg_start = 2, lg_size = 30, lg_outstanding = 1, lg_committing = False, lg_dev = ROOTDEV, lg_n = 0,
     lg_block = replicate LOGSIZE 0, fs_sb = small_sb, fs_inode = ip # replicate 49 free_slot\<rparr> :: fsst"
  have b: "bc_buf ?s = replicate (Suc NBUF) zero_buf" "\<forall>d \<in> set (bc_disk ?s). length d = BSIZE"
    using small_disk_len by simp_all
  note e = binit_establishes_helper [OF b, folded small_fs_def]
  show "bc_wf (small_fs ip)" "bheld (small_fs ip) = Map.empty" "bdirty (small_fs ip) = {}" "bavail (small_fs ip) = 30"
    "bview (small_fs ip) = (\<lambda>n. small_disk ! n)" using e by (simp_all add: NBUF_def)
  show "bc_disk (small_fs ip) = small_disk" "bc_pid (small_fs ip) = 1" by (simp_all add: small_fs_def binit_sel)
  have m: "bcache.more (small_fs ip) = bcache.more ?s" unfolding small_fs_def by (rule binit_sel)
  note lg = logst_more [OF m]
  show "lg_start (small_fs ip) = 2" "lg_size (small_fs ip) = 30" "lg_outstanding (small_fs ip) = 1"
    "\<not> lg_committing (small_fs ip)" "lg_dev (small_fs ip) = ROOTDEV" "lg_n (small_fs ip) = 0"
    "lg_block (small_fs ip) = replicate LOGSIZE 0" using lg by simp_all
  show "fs_sb (small_fs ip) = small_sb" "fs_inode (small_fs ip) = ip # replicate 49 free_slot"
    using fsst_more [OF lg(8)] by simp_all
qed

lemma small_disk_nth:
  "small_disk ! 1 = small_super" "small_disk ! 2 = zero_block" "small_disk ! 33 = small_bitmap"
  "small_disk ! 32 = enc_dinode 64 small_file zero_block"
  by (simp_all add: small_disk_def nth_list_update)

lemma small_log_area: "log_area (small_fs ip) = {2..<32}"
  by (simp add: log_area_def small_fs_sel)

lemma small_fs_txn: "in_txn (small_fs ip)" "log_left (small_fs ip) = 29"
  using small_disk_len zero_block_hdr(1)
  by (simp_all add: in_txn_def log_wf_def homes_def log_geom_def small_fs_sel LOGSIZE_def MAXOPBLOCKS_def log_left_def small_disk_nth)

lemma small_blocks: "b < 4096 \<Longrightarrow> BBLOCK b small_sb = 33" "i < 8 \<Longrightarrow> IBLOCK i small_sb = 32"
  by (auto simp: BBLOCK_def IBLOCK_def small_sb_def BPB_def IPB_def BSIZE_def)

lemma small_used:
  assumes "b < 41"
  shows "used small_sb (\<lambda>n. small_disk ! n) b \<longleftrightarrow> b < 34"
proof -
  have "list_all (\<lambda>b. bm_used ([255, 255, 255, 255, 3, 0] @ replicate 506 0) b = (b < 34)) [0..<41]"
    by (simp add: bm_used_def upt_rec)
  moreover have "small_bitmap = [255, 255, 255, 255, 3, 0] @ replicate 506 0" by (simp add: small_bitmap_def numeral_eq_Suc)
  ultimately have "bm_used small_bitmap b = (b < 34)" using assms by (simp add: list_all_iff)
  moreover have "b mod BPB = b" using assms by (simp add: BPB_def BSIZE_def)
  ultimately show ?thesis using assms small_blocks(1) [of b] by (simp add: used_def small_disk_nth)
qed

lemma small_layout: "fs_layout (small_fs ip)"
proof -
  have sz: "sb_size small_sb = 41" "sb_ninodes small_sb = 8" by (simp_all add: small_sb_def)
  have "used small_sb (\<lambda>n. small_disk ! n) b" if "b \<in> meta {2..<32} small_sb" "b < 41" for b
    using that small_used [of b] small_blocks by (auto simp: meta_def sz)
  then show ?thesis
    using small_disk_len(2) small_blocks by (auto simp: layout_def small_fs_sel small_log_area sz)
qed

lemma small_unheld: "unheld_free (small_fs ip)"
  by (simp add: unheld_free_def small_fs_sel)

lemma small_room: "2 \<le> bavail (small_fs ip)" "2 \<le> log_left (small_fs ip)" "0 < bavail (small_fs ip)" "0 < log_left (small_fs ip)"
  by (simp_all add: small_fs_sel small_fs_txn)

lemma small_free: "\<exists>b < sb_size (fs_sb (small_fs ip)). \<not> used (fs_sb (small_fs ip)) (bview (small_fs ip)) b"
  using small_used [of 34] by (intro exI [of _ 34]) (simp add: small_fs_sel small_sb_def)

lemma small_nfree: "nfree small_sb (\<lambda>n. small_disk ! n) = 7"
proof -
  have "{b. b < sb_size small_sb \<and> \<not> used small_sb (\<lambda>n. small_disk ! n) b} = {34..<41}"
    using small_used by (auto simp: small_sb_def)
  then show ?thesis by (simp add: nfree_def)
qed

theorem balloc_allocates_witness:
  "\<exists>a t. balloc ROOTDEV (small_fs slot_1) = Ok (a, t) \<and> bview t a = replicate BSIZE 0
     \<and> \<not> used (fs_sb (small_fs slot_1)) (bview (small_fs slot_1)) a"
  using balloc_allocates [OF small_fs_txn(1) small_layout small_unheld small_room(1,2) small_free, of slot_1] by blast

lemma small_dec: "dec_superblock small_super = small_sb"
  using zero_block_hdr(2) by (simp add: dec_superblock_def small_super_def small_sb_def BSIZE_def)

lemma small_bfree: "dec_superblock (bview (small_fs ip) 1) = fs_sb (small_fs ip)" "1 < length (bc_disk (small_fs ip))"
  "1 \<notin> log_area (small_fs ip)" "1 \<notin> ran (bheld (small_fs ip))" "33 < sb_size (fs_sb (small_fs ip))"
  "BBLOCK 33 (fs_sb (small_fs ip)) \<notin> ran (bheld (small_fs ip))"
  using small_dec small_disk_nth(1) by (simp_all add: small_fs_sel small_log_area small_disk_len small_sb_def)

theorem bfree_frees_witness:
  "\<exists>t. bfree ROOTDEV 33 (small_fs slot_1) = Ok t \<and> \<not> used (fs_sb t) (bview t) 33"
  using bfree_frees [OF small_fs_txn(1) small_layout small_bfree small_room(3,4), of slot_1] small_used [of 33]
    small_bfree(5) [of slot_1] by (auto simp: small_fs_sel)

lemma small_icache: "icache_ok (slot_1 # replicate 49 free_slot)"
  by (auto simp: icache_ok_def nth_Cons' slot_1_def free_slot_def split: if_splits)

theorem iget_unique_witness:
  "\<exists>t. iget ROOTDEV 1 (small_fs slot_1) = Ok (0, t) \<and> i_ref (get_inode t 0) = 2"
proof -
  have "first_idx (\<lambda>ip. 0 < i_ref ip \<and> i_dev ip = ROOTDEV \<and> i_inum ip = 1) (fs_inode (small_fs slot_1)) = Some 0"
    by (simp add: small_fs_sel slot_1_def)
  moreover have "icache_ok (fs_inode (small_fs slot_1))" using small_icache by (simp add: small_fs_sel)
  ultimately show ?thesis
    using iget_unique [of "small_fs slot_1" ROOTDEV 1] by (auto simp: iget_def small_fs_sel slot_1_def)
qed

lemma small_there: "ip = slot_1 \<or> ip = file_1 \<Longrightarrow> inode_there (small_fs ip) 0"
  by (auto simp: inode_there_def small_fs_sel slot_1_def file_1_def small_sb_def)

theorem iupdate_stores_witness:
  "\<exists>t. iupdate 0 (small_fs file_1) = Ok t \<and> di_type (disk_inode (fs_sb t) (bview t) 1) = T_FILE"
proof -
  have d: "dinode_ok (inode_dinode (get_inode (small_fs file_1) 0))"
    by (simp add: dinode_ok_def inode_dinode_def small_fs_sel file_1_def slot_1_def free_slot_def T_FILE_def NDIRECT_def)
  from iupdate_stores [OF small_fs_txn(1) small_layout small_there d small_room(3,4)]
  show ?thesis by (auto simp: small_fs_sel file_1_def slot_1_def inode_dinode_def)
qed

theorem ilock_loads_witness:
  "\<exists>t. ilock 0 (small_fs slot_1) = Ok t \<and> i_valid (get_inode t 0) \<and> i_type (get_inode t 0) = T_FILE"
proof -
  have d: "dinode_ok small_file" by (simp add: dinode_ok_def small_file_def T_FILE_def NDIRECT_def)
  have "disk_inode (fs_sb (small_fs slot_1)) (bview (small_fs slot_1)) (i_inum (get_inode (small_fs slot_1) 0)) = small_file"
    using disk_inode_update [of "\<lambda>_. zero_block" 1 small_sb small_file 1] d zero_block_hdr(2) small_blocks(2) [of 1]
    by (simp add: small_fs_sel slot_1_def disk_inode_def small_disk_nth IOFF_def IPB_def BSIZE_def)
  then show ?thesis
    using ilock_loads [OF small_fs_txn(1) small_layout small_there, of slot_1]
    by (auto simp: small_fs_sel slot_1_def free_slot_def small_file_def T_FILE_def inode_dinode_def)
qed

lemma small_file_at: "file_at (small_fs file_1) 0 (replicate 13 0)"
proof -
  have z: "fa v (replicate 13 0) bn = 0" for v bn by (simp add: fa_def NDIRECT_def)
  then have "fblocks v (replicate 13 0) = {}" for v by (auto simp: fblocks_def NDIRECT_def)
  then show ?thesis
    using small_fs_txn(1) small_layout small_unheld z
    by (simp add: file_at_def file_ok_def small_fs_sel file_1_def slot_1_def free_slot_def NDIRECT_def)
qed

lemma small_file_1: "get_inode (small_fs file_1) 0 = file_1" "i_addrs file_1 = replicate 13 0" "i_size file_1 = 0"
  "mapped v file_1" "i_type file_1 = T_FILE"
  by (simp_all add: small_fs_sel file_1_def slot_1_def free_slot_def mapped_def)

theorem readi_reads_witness:
  "\<exists>t. readi 0 0 5 (small_fs file_1) = Ok (0, [], t) \<and> bc_disk t = small_disk"
  using readi_reads [of "small_fs file_1" 0 0 5] small_file_at
  by (simp add: small_file_1 small_fs_sel T_FILE_def T_DEV_def slice_def content_def) blast

theorem writei_writes_witness:
  "\<exists>t u. writei 0 [104, 105, 33] 0 3 (small_fs file_1) = Ok (3, t)
     \<and> content (bview t) (get_inode t 0) = [104, 105, 33] \<and> readi 0 0 3 t = Ok (3, [104, 105, 33], u)"
proof -
  have nb: "nblocks 0 3 = 1" by (simp add: nblocks_def BSIZE_def)
  have c: "content v file_1 = []" for v by (simp add: content_def small_file_1)
  have k: "3 \<le> MAXFILE * BSIZE" by (simp add: MAXFILE_def NDIRECT_def BSIZE_def)
  show ?thesis
    using writei_writes [of "small_fs file_1" 0 0 3 "[104, 105, 33]"] small_file_at small_there small_nfree k
    by (simp add: small_file_1 small_fs_sel small_fs_txn T_FILE_def T_DEV_def nb c)
      (auto simp: file_1_def slot_1_def free_slot_def T_FILE_def)
qed

end
