(* ===== verification/Pipe.thy ===== *)
theory Pipe
  imports Prelude
begin

text \<open>
  \<^verbatim>\<open>src/pipe.c\<close>: the ring buffer of a pipe, \<^verbatim>\<open>pipewrite\<close> and \<^verbatim>\<open>piperead\<close>. Both hold \<^verbatim>\<open>p->lock\<close>
  except inside \<^verbatim>\<open>sleep\<close>, so a call is a sequence of atomic segments, each from the entry (or
  from the return of \<^verbatim>\<open>sleep\<close>) to the next \<^verbatim>\<open>sleep\<close> or to the return. A segment is one function
  here; it also lists the channels it wakes. \<open>pipe_step\<close> interleaves the segments of any
  number of readers, writers and closers. Allocation of the two file structures
  (\<^verbatim>\<open>pipealloc\<close>) needs the file table and is in the file layer.
\<close>

section \<open>State and operations\<close>

definition PIPESIZE :: nat where
  "PIPESIZE = 512"

record pipe =
  p_data :: "byte list"
  p_nread :: nat
  p_nwrite :: nat
  p_readopen :: bool
  p_writeopen :: bool

datatype pipe_chan = ChanNread | ChanNwrite

text \<open>
  The stores of \<^verbatim>\<open>pipealloc\<close> into a page fresh from \<^verbatim>\<open>kalloc\<close>; the bytes of \<^verbatim>\<open>data\<close> are
  whatever the page held.
\<close>

definition pipe_fresh :: "byte list \<Rightarrow> pipe" where
  "pipe_fresh page = \<lparr>p_data = take PIPESIZE page, p_nread = 0, p_nwrite = 0,
                      p_readopen = True, p_writeopen = True\<rparr>"

text \<open>
  \<open>WSleep i\<close>: the writer sleeps on \<^verbatim>\<open>&p->nwrite\<close> before byte \<open>i\<close>; the next segment starts at
  the loop head with the same \<open>i\<close>. \<open>WDone r\<close>: the call returns \<open>r\<close>.
\<close>

datatype write_outcome = WDone int | WSleep nat

function pipewrite :: "pipe \<Rightarrow> byte list \<Rightarrow> nat \<Rightarrow> int \<Rightarrow> bool
    \<Rightarrow> pipe \<times> pipe_chan list \<times> write_outcome" where
  "pipewrite p addr i n killed =
     (if int i < n then
        if p_nwrite p = wrap32 (p_nread p + PIPESIZE) then
          if \<not> p_readopen p \<or> killed then (p, [], WDone (-1))
          else (p, [ChanNread], WSleep i)
        else pipewrite (p\<lparr>p_data := (p_data p)[p_nwrite p mod PIPESIZE := addr ! i],
                          p_nwrite := wrap32 (p_nwrite p + 1)\<rparr>) addr (Suc i) n killed
      else (p, [ChanNread], WDone n))"
  by pat_completeness auto
termination
  by (relation "measure (\<lambda>(p, addr, i, n, killed). nat (n - int i))") auto

text \<open>The copy loop of \<^verbatim>\<open>piperead\<close>; \<open>out\<close> is what has been stored at \<^verbatim>\<open>addr\<close> so far.\<close>

function piperead_copy :: "pipe \<Rightarrow> nat \<Rightarrow> int \<Rightarrow> byte list \<Rightarrow> pipe \<times> nat \<times> byte list" where
  "piperead_copy p i n out =
     (if int i < n then
        if p_nread p = p_nwrite p then (p, i, out)
        else piperead_copy (p\<lparr>p_nread := wrap32 (p_nread p + 1)\<rparr>) (Suc i) n
               (out @ [p_data p ! (p_nread p mod PIPESIZE)])
      else (p, i, out))"
  by pat_completeness auto
termination
  by (relation "measure (\<lambda>(p, i, n, out). nat (n - int i))") auto

datatype read_outcome = RDone int "byte list" | RSleep

definition piperead :: "pipe \<Rightarrow> int \<Rightarrow> bool \<Rightarrow> pipe \<times> pipe_chan list \<times> read_outcome" where
  "piperead p n killed =
     (if p_nread p = p_nwrite p \<and> p_writeopen p then
        if killed then (p, [], RDone (-1) [])
        else (p, [], RSleep)
      else case piperead_copy p 0 n [] of
        (p', i, out) \<Rightarrow> (p', [ChanNwrite], RDone (int i) out))"

text \<open>\<open>True\<close> as second result: both ends are closed and the page goes back to \<^verbatim>\<open>kfree\<close>.\<close>

definition pipeclose :: "pipe \<Rightarrow> bool \<Rightarrow> pipe \<times> pipe_chan list \<times> bool" where
  "pipeclose p writable =
     (let (p', w) = (if writable then (p\<lparr>p_writeopen := False\<rparr>, [ChanNread])
                     else (p\<lparr>p_readopen := False\<rparr>, [ChanNwrite]))
      in (p', w, \<not> p_readopen p' \<and> \<not> p_writeopen p'))"

declare pipewrite.simps [simp del] piperead_copy.simps [simp del]

section \<open>Interleaved runs\<close>

text \<open>
  A run keeps the pipe and two histories: everything its writers have put into the ring and
  everything its readers have been given. A segment of \<^verbatim>\<open>pipewrite\<close> has put in as many bytes as
  it advanced \<^verbatim>\<open>nwrite\<close>.
\<close>

record pipe_run =
  r_pipe :: pipe
  r_written :: "byte list"
  r_read :: "byte list"

inductive pipe_step :: "pipe_run \<Rightarrow> pipe_run \<Rightarrow> bool" where
  write_segment:
    "pipewrite (r_pipe s) addr i n killed = (p', wk, oc) \<Longrightarrow> n \<le> int (length addr) \<Longrightarrow>
     k = wrap32 (p_nwrite p' + 2 ^ 32 - p_nwrite (r_pipe s)) \<Longrightarrow>
     pipe_step s (s\<lparr>r_pipe := p', r_written := r_written s @ take k (drop i addr)\<rparr>)"
| read_segment:
    "piperead (r_pipe s) n killed = (p', wk, RDone r out) \<Longrightarrow>
     pipe_step s (s\<lparr>r_pipe := p', r_read := r_read s @ out\<rparr>)"
| read_wait:
    "piperead (r_pipe s) n killed = (p', wk, RSleep) \<Longrightarrow> pipe_step s (s\<lparr>r_pipe := p'\<rparr>)"
| close_end:
    "pipeclose (r_pipe s) writable = (p', wk, freed) \<Longrightarrow> pipe_step s (s\<lparr>r_pipe := p'\<rparr>)"

section \<open>Well-formed pipes and their contents\<close>

definition pipe_count :: "pipe \<Rightarrow> nat" where
  "pipe_count p = wrap32 (p_nwrite p + 2 ^ 32 - p_nread p)"

definition pipe_contents :: "pipe \<Rightarrow> byte list" where
  "pipe_contents p = ring_contents PIPESIZE (p_data p) (p_nread p) (pipe_count p)"

definition pipe_wf :: "pipe \<Rightarrow> bool" where
  "pipe_wf p \<longleftrightarrow> length (p_data p) = PIPESIZE \<and> p_nread p < 2 ^ 32 \<and> p_nwrite p < 2 ^ 32
     \<and> pipe_count p \<le> PIPESIZE"

definition pipe_run_inv :: "pipe_run \<Rightarrow> bool" where
  "pipe_run_inv s \<longleftrightarrow> pipe_wf (r_pipe s) \<and> r_written s = r_read s @ pipe_contents (r_pipe s)"

definition pipe_run_init :: "pipe_run \<Rightarrow> bool" where
  "pipe_run_init s \<longleftrightarrow> (\<exists>page. PIPESIZE \<le> length page \<and> r_pipe s = pipe_fresh page)
     \<and> r_written s = [] \<and> r_read s = []"

interpretation pr: ring_size PIPESIZE
  by unfold_locales (simp_all add: PIPESIZE_def)

lemma count_nwrite:
  assumes "pipe_wf p"
  shows "p_nwrite p = wrap32 (p_nread p + pipe_count p)"
proof -
  have "wrap32 (p_nread p + pipe_count p) = wrap32 (p_nread p + (p_nwrite p + 2 ^ 32 - p_nread p))"
    unfolding pipe_count_def by (metis add.commute wrap32_add_left)
  also have "p_nread p + (p_nwrite p + 2 ^ 32 - p_nread p) = p_nwrite p + 2 ^ 32"
    using assms by (simp add: pipe_wf_def)
  finally show ?thesis using assms by (simp add: pipe_wf_def wrap32_def)
qed

lemma count_unique:
  assumes "pipe_wf p" and "p_nwrite p = wrap32 (p_nread p + k)" and "k < 2 ^ 32"
  shows "pipe_count p = k"
proof (rule wrap32_add_inj)
  show "wrap32 (p_nread p + pipe_count p) = wrap32 (p_nread p + k)"
    using assms(2) count_nwrite [OF assms(1)] by simp
qed (use assms(3) in \<open>simp_all add: pipe_count_def\<close>)

lemma full_iff: "pipe_wf p \<Longrightarrow> p_nwrite p = wrap32 (p_nread p + PIPESIZE) \<longleftrightarrow> pipe_count p = PIPESIZE"
proof
  assume wf: "pipe_wf p"
  then show "p_nwrite p = wrap32 (p_nread p + PIPESIZE) \<Longrightarrow> pipe_count p = PIPESIZE"
    by (rule count_unique) (simp_all add: PIPESIZE_def)
  show "pipe_count p = PIPESIZE \<Longrightarrow> p_nwrite p = wrap32 (p_nread p + PIPESIZE)"
    using count_nwrite [OF wf] by simp
qed

lemma empty_iff: "pipe_wf p \<Longrightarrow> p_nread p = p_nwrite p \<longleftrightarrow> pipe_count p = 0"
proof
  assume wf: "pipe_wf p"
  then have r: "p_nread p = wrap32 (p_nread p)" by (simp add: pipe_wf_def wrap32_id)
  show "p_nread p = p_nwrite p \<Longrightarrow> pipe_count p = 0"
    by (rule count_unique [OF wf]) (use r in simp_all)
  show "pipe_count p = 0 \<Longrightarrow> p_nread p = p_nwrite p"
    using count_nwrite [OF wf] r by simp
qed

lemma contents_length_count [simp]: "length (pipe_contents p) = pipe_count p"
  by (simp add: pipe_contents_def)

text \<open>Storing one byte.\<close>

lemma pipe_put:
  fixes x :: byte
  assumes "pipe_wf p" and "pipe_count p < PIPESIZE"
  defines "p' \<equiv> p\<lparr>p_data := (p_data p)[p_nwrite p mod PIPESIZE := x], p_nwrite := wrap32 (p_nwrite p + 1)\<rparr>"
  shows "pipe_wf p'" and "pipe_count p' = Suc (pipe_count p)" and "pipe_contents p' = pipe_contents p @ [x]"
proof -
  have nw: "p_nwrite p' = wrap32 (p_nread p' + Suc (pipe_count p))"
    using count_nwrite [OF assms(1)] by (simp add: p'_def)
  have less: "Suc (pipe_count p) < 2 ^ 32" using assms(2) by (simp add: PIPESIZE_def)
  have rd: "p_nread p' < 2 ^ 32" using assms(1) by (simp add: p'_def pipe_wf_def)
  have "pipe_count p' = wrap32 (wrap32 (p_nread p' + Suc (pipe_count p)) + (2 ^ 32 - p_nread p'))"
    using nw rd by (simp add: pipe_count_def)
  also have "\<dots> = wrap32 (p_nread p' + Suc (pipe_count p) + (2 ^ 32 - p_nread p'))"
    by (rule wrap32_add_left)
  also have "\<dots> = wrap32 (Suc (pipe_count p) + 2 ^ 32)"
    using rd by (simp add: add.commute add.left_commute)
  also have "\<dots> = Suc (pipe_count p)" using less by (metis mod_add_self2 mod_less wrap32_def)
  finally show c: "pipe_count p' = Suc (pipe_count p)" .
  show "pipe_wf p'"
    using assms(1,2) c by (simp add: pipe_wf_def) (simp add: p'_def)
  have slot: "p_nwrite p mod PIPESIZE = (p_nread p + pipe_count p) mod PIPESIZE"
    by (simp add: count_nwrite [OF assms(1)])
  show "pipe_contents p' = pipe_contents p @ [x]"
    unfolding pipe_contents_def c
    using pr.contents_push [of "p_data p" "pipe_count p" "p_nread p" x] assms(1,2) slot
    by (simp add: p'_def pipe_wf_def)
qed

text \<open>Fetching one byte.\<close>

lemma pipe_get:
  assumes "pipe_wf p" and "0 < pipe_count p"
  defines "p' \<equiv> p\<lparr>p_nread := wrap32 (p_nread p + 1)\<rparr>"
  shows "pipe_wf p'" and "pipe_count p' = pipe_count p - 1"
    and "pipe_contents p = p_data p ! (p_nread p mod PIPESIZE) # pipe_contents p'"
proof -
  obtain k where k: "pipe_count p = Suc k" using assms(2) by (cases "pipe_count p") auto
  have kl: "k < 2 ^ 32" using assms(1) k by (simp add: pipe_wf_def PIPESIZE_def)
  have nw: "p_nwrite p' = wrap32 (p_nread p' + k)"
    using count_nwrite [OF assms(1)] k by (simp add: p'_def)
  have "pipe_count p' = wrap32 (wrap32 (p_nread p' + k) + (2 ^ 32 - p_nread p'))"
    using nw by (simp add: pipe_count_def p'_def less_imp_le del: wrap32_add_left wrap32_Suc)
  also have "\<dots> = wrap32 (p_nread p' + k + (2 ^ 32 - p_nread p'))"
    by (rule wrap32_add_left)
  also have "\<dots> = wrap32 (k + 2 ^ 32)"
    by (simp add: p'_def add.commute add.left_commute less_imp_le)
  also have "\<dots> = k" using kl by (metis mod_add_self2 mod_less wrap32_def)
  finally have c: "pipe_count p' = k" .
  then show "pipe_count p' = pipe_count p - 1" using k by simp
  show "pipe_wf p'"
    using assms(1) c k by (simp add: pipe_wf_def) (simp add: p'_def)
  show "pipe_contents p = p_data p ! (p_nread p mod PIPESIZE) # pipe_contents p'"
    unfolding pipe_contents_def c k by (simp add: pr.contents_pop p'_def)
qed

section \<open>What a segment does\<close>

lemma pipewrite_spec:
  assumes "pipe_wf p" and "int i \<le> n" and "n \<le> int (length addr)"
    and "k = min (PIPESIZE - pipe_count p) (nat n - i)"
  shows "\<exists>p' wk oc. pipewrite p addr i n killed = (p', wk, oc)
     \<and> pipe_wf p' \<and> pipe_contents p' = pipe_contents p @ take k (drop i addr)
     \<and> p_nwrite p' = wrap32 (p_nwrite p + k) \<and> p_nread p' = p_nread p
     \<and> p_readopen p' = p_readopen p \<and> p_writeopen p' = p_writeopen p
     \<and> oc = (if k = nat n - i then WDone n
             else if \<not> p_readopen p \<or> killed then WDone (-1) else WSleep (i + k))"
  using assms
proof (induction p addr i n killed arbitrary: k rule: pipewrite.induct)
  case (1 p addr i n killed)
  note k = "1.prems"(4)
  show ?case
  proof (cases "int i < n")
    case False
    then have "k = 0" and "nat n - i = 0" using "1.prems" by (auto simp: k)
    moreover have "p_nwrite p = wrap32 (p_nwrite p)"
      using "1.prems"(1) by (simp add: pipe_wf_def wrap32_id)
    ultimately show ?thesis
      using False "1.prems"(1) by (simp add: pipewrite.simps [of p addr i n killed])
  next
    case True
    show ?thesis
    proof (cases "pipe_count p = PIPESIZE")
      case full: True
      have "p_nwrite p = wrap32 (p_nwrite p)"
        using "1.prems"(1) by (simp add: pipe_wf_def wrap32_id)
      then show ?thesis
        using full True "1.prems"(1) full_iff [OF "1.prems"(1)]
        by (auto simp: pipewrite.simps [of p addr i n killed] k)
    next
      case room: False
      define q where "q = p\<lparr>p_data := (p_data p)[p_nwrite p mod PIPESIZE := addr ! i],
                             p_nwrite := wrap32 (p_nwrite p + 1)\<rparr>"
      have lt: "pipe_count p < PIPESIZE" using room "1.prems"(1) by (simp add: pipe_wf_def)
      note put = pipe_put [OF "1.prems"(1) lt, of "addr ! i", folded q_def]
      define j where "j = min (PIPESIZE - pipe_count q) (nat n - Suc i)"
      have kj: "k = Suc j" using lt True put(2) by (auto simp: k j_def)
      have step: "pipewrite p addr i n killed = pipewrite q addr (Suc i) n killed"
        using True lt full_iff [OF "1.prems"(1)]
        by (simp add: pipewrite.simps [of p addr i n killed] q_def)
      have nfull: "p_nwrite p \<noteq> wrap32 (p_nread p + PIPESIZE)"
        using lt full_iff [OF "1.prems"(1)] by simp
      have il: "i < length addr" using True "1.prems"(3) by linarith
      have tk: "take k (drop i addr) = addr ! i # take j (drop (Suc i) addr)"
        using il by (simp add: kj Cons_nth_drop_Suc [symmetric])
      have nsub: "nat n - i = Suc (nat n - Suc i)" using True by linarith
      have opens: "p_readopen q = p_readopen p" "p_writeopen q = p_writeopen p" "p_nread q = p_nread p"
        "p_nwrite q = wrap32 (p_nwrite p + 1)"
        by (simp_all add: q_def)
      have "int (Suc i) \<le> n" using True by simp
      from "1.IH" [OF True nfull, folded q_def, OF put(1) this "1.prems"(3) j_def]
      show ?thesis
        unfolding step put(3) tk opens using nsub by (auto simp: kj)
    qed
  qed
qed

text \<open>
  One segment of \<^verbatim>\<open>pipewrite\<close>, started at byte \<open>i\<close>, appends exactly the bytes of \<^verbatim>\<open>addr\<close>
  that fit: as many of the remaining \<open>n - i\<close> as the ring has room for, in order and without
  touching what readers have not fetched yet. It returns \<open>n\<close> when all were stored, \<open>-1\<close>
  when the ring filled up and no reader is left or the process was killed, and otherwise
  sleeps at the byte it could not store. The counters may wrap around.
\<close>

theorem pipewrite_segment:
  assumes "pipe_wf p" and "int i \<le> n" and "n \<le> int (length addr)"
  defines "k \<equiv> min (PIPESIZE - pipe_count p) (nat n - i)"
  shows "\<exists>p' wk oc. pipewrite p addr i n killed = (p', wk, oc)
     \<and> pipe_wf p' \<and> pipe_contents p' = pipe_contents p @ take k (drop i addr)
     \<and> p_nwrite p' = wrap32 (p_nwrite p + k) \<and> p_nread p' = p_nread p
     \<and> p_readopen p' = p_readopen p \<and> p_writeopen p' = p_writeopen p
     \<and> oc = (if k = nat n - i then WDone n
             else if \<not> p_readopen p \<or> killed then WDone (-1) else WSleep (i + k))"
  using assms(1,2,3) unfolding k_def by (rule pipewrite_spec) simp

lemma piperead_copy_spec:
  assumes "pipe_wf p" and "int i \<le> n" and "m = min (pipe_count p) (nat n - i)"
  shows "\<exists>p'. piperead_copy p i n out = (p', i + m, out @ take m (pipe_contents p))
     \<and> pipe_wf p' \<and> pipe_contents p' = drop m (pipe_contents p)
     \<and> p_readopen p' = p_readopen p \<and> p_writeopen p' = p_writeopen p"
  using assms
proof (induction p i n out arbitrary: m rule: piperead_copy.induct)
  case (1 p i n out)
  note m = "1.prems"(3)
  show ?case
  proof (cases "int i < n \<and> pipe_count p \<noteq> 0")
    case False
    then have "m = 0" by (auto simp: m)
    then show ?thesis
      using False "1.prems"(1,2) empty_iff [OF "1.prems"(1)]
      by (auto simp: piperead_copy.simps [of p i n out])
  next
    case True
    define q where "q = p\<lparr>p_nread := wrap32 (p_nread p + 1)\<rparr>"
    have pos: "0 < pipe_count p" using True by simp
    note get = pipe_get [OF "1.prems"(1) pos, folded q_def]
    define j where "j = min (pipe_count q) (nat n - Suc i)"
    have mj: "m = Suc j" using True get(2) by (auto simp: m j_def)
    have nempty: "p_nread p \<noteq> p_nwrite p" using pos empty_iff [OF "1.prems"(1)] by simp
    have step: "piperead_copy p i n out
        = piperead_copy q (Suc i) n (out @ [p_data p ! (p_nread p mod PIPESIZE)])"
      using True nempty by (simp add: piperead_copy.simps [of p i n out] q_def)
    have "int i < n" "int (Suc i) \<le> n" using True by auto
    from "1.IH" [OF this(1) nempty, folded q_def, OF get(1) this(2) j_def]
    show ?thesis unfolding step by (auto simp: mj get(3) q_def)
  qed
qed

definition pipe_example :: pipe where
  "pipe_example = pipe_fresh (replicate 512 0)"

lemma pipe_example_wf [simp]: "pipe_wf pipe_example" "pipe_count pipe_example = 0"
  "pipe_contents pipe_example = []" "p_writeopen pipe_example" "p_readopen pipe_example"
  by (simp_all add: pipe_example_def pipe_fresh_def pipe_wf_def pipe_contents_def pipe_count_def
      PIPESIZE_def wrap32_def ring_contents_def)

theorem pipewrite_segment_witness:
  "\<exists>p' wk. pipewrite pipe_example [7, 8] 0 2 False = (p', wk, WDone 2) \<and> pipe_contents p' = [7, 8]"
  using pipewrite_segment [of pipe_example 0 2 "[7, 8]" False] by (auto simp: PIPESIZE_def)

text \<open>
  \<^verbatim>\<open>piperead\<close> sleeps exactly when the ring is empty, a writer is left and the process was
  not killed. When it goes on, it hands out the oldest \<open>min n count\<close> bytes in the order they
  were written and removes exactly these; with no writer left it returns 0 on an empty pipe.
\<close>

theorem piperead_segment:
  assumes "pipe_wf p" and "0 \<le> n"
  defines "m \<equiv> min (pipe_count p) (nat n)"
  shows "if pipe_count p = 0 \<and> p_writeopen p
         then piperead p n killed = (p, [], if killed then RDone (-1) [] else RSleep)
         else \<exists>p'. piperead p n killed
                 = (p', [ChanNwrite], RDone (int m) (take m (pipe_contents p)))
               \<and> pipe_wf p' \<and> pipe_contents p' = drop m (pipe_contents p)
               \<and> p_readopen p' = p_readopen p \<and> p_writeopen p' = p_writeopen p"
  using piperead_copy_spec [OF assms(1), of 0 n "min (pipe_count p) (nat n)" "[]"] empty_iff [OF assms(1)] assms(2)
  by (auto simp: piperead_def m_def)

theorem piperead_segment_witness:
  "piperead pipe_example 3 False = (pipe_example, [], RSleep)"
  using piperead_segment [of pipe_example 3 False] by simp

section \<open>Pipes are first-in first-out\<close>

lemma advance_count:
  assumes "p_nwrite p' = wrap32 (p_nwrite p + k)" and "p_nwrite p < 2 ^ 32" and "k < 2 ^ 32"
  shows "wrap32 (p_nwrite p' + 2 ^ 32 - p_nwrite p) = k"
proof -
  have "wrap32 (p_nwrite p' + 2 ^ 32 - p_nwrite p)
      = wrap32 (wrap32 (p_nwrite p + k) + (2 ^ 32 - p_nwrite p))"
    using assms(1,2) by simp
  also have "\<dots> = wrap32 (p_nwrite p + k + (2 ^ 32 - p_nwrite p))" by (rule wrap32_add_left)
  also have "p_nwrite p + k + (2 ^ 32 - p_nwrite p) = k + 2 ^ 32" using assms(2) by simp
  also have "wrap32 (k + 2 ^ 32) = k" using assms(3) by (metis mod_add_self2 mod_less wrap32_def)
  finally show ?thesis .
qed

lemma pipewrite_idle: "\<not> int i < n \<Longrightarrow> pipewrite p addr i n killed = (p, [ChanNread], WDone n)"
  by (simp add: pipewrite.simps [of p addr i n killed])

lemma write_keeps_inv:
  assumes wf: "pipe_wf p" and w: "pipewrite p addr i n killed = (p', wk, oc)"
    and n: "n \<le> int (length addr)" and k: "k = wrap32 (p_nwrite p' + 2 ^ 32 - p_nwrite p)"
  shows "pipe_wf p' \<and> pipe_contents p' = pipe_contents p @ take k (drop i addr)"
proof (cases "int i \<le> n")
  case True
  define j where "j = min (PIPESIZE - pipe_count p) (nat n - i)"
  from pipewrite_spec [OF wf True n, of j killed] w
  have s: "pipe_wf p'" "pipe_contents p' = pipe_contents p @ take j (drop i addr)"
    "p_nwrite p' = wrap32 (p_nwrite p + j)"
    by (auto simp: j_def)
  have "j \<le> 512" by (simp add: j_def PIPESIZE_def)
  then have "j < 2 ^ 32" by simp
  with advance_count [OF s(3)] wf have "k = j" by (simp add: k pipe_wf_def)
  with s show ?thesis by simp
next
  case False
  with w have "p' = p" by (simp add: pipewrite_idle)
  moreover have "k = 0" using k wf by (simp add: \<open>p' = p\<close> wrap32_def pipe_wf_def)
  ultimately show ?thesis using wf by simp
qed

lemma read_keeps_inv:
  assumes wf: "pipe_wf p" and r: "piperead p n killed = (p', wk, oc)"
  shows "pipe_wf p' \<and> (case oc of RSleep \<Rightarrow> p' = p
     | RDone _ out \<Rightarrow> pipe_contents p = out @ pipe_contents p')"
proof (cases "0 \<le> n")
  case True
  define m where "m = min (pipe_count p) (nat n)"
  have "pipe_contents p = take m (pipe_contents p) @ drop m (pipe_contents p)" by simp
  then show ?thesis
    using piperead_copy_spec [OF wf, of 0 n m "[]"] True wf r
    by (auto simp: piperead_def m_def split: if_splits)
next
  case False
  then have "piperead_copy p 0 n [] = (p, 0, [])" by (simp add: piperead_copy.simps)
  with r wf show ?thesis by (auto simp: piperead_def split: if_splits)
qed

lemma close_keeps_inv:
  assumes "pipeclose p w = (p', wk, f)"
  shows "pipe_wf p' = pipe_wf p" and "pipe_contents p' = pipe_contents p"
  using assms by (auto simp: pipeclose_def pipe_wf_def pipe_contents_def pipe_count_def split: if_splits)

interpretation pipe_sys: step_system pipe_run_init pipe_step pipe_run_inv
proof unfold_locales
  fix s :: pipe_run
  assume "pipe_run_init s"
  then show "pipe_run_inv s"
    by (auto simp: pipe_run_init_def pipe_run_inv_def pipe_wf_def pipe_contents_def pipe_count_def
        pipe_fresh_def wrap32_def PIPESIZE_def ring_contents_def)
next
  fix s t :: pipe_run
  assume inv: "pipe_run_inv s" and "pipe_step s t"
  from this(2) show "pipe_run_inv t"
  proof cases
    case (write_segment addr i n killed p' wk oc k)
    then show ?thesis
      using inv write_keeps_inv [of "r_pipe s" addr i n killed p' wk oc k] by (simp add: pipe_run_inv_def)
  next
    case (read_segment n killed p' wk r out)
    then show ?thesis
      using inv read_keeps_inv [of "r_pipe s" n killed p' wk] by (fastforce simp: pipe_run_inv_def)
  next
    case (read_wait n killed p' wk)
    then show ?thesis
      using inv read_keeps_inv [of "r_pipe s" n killed p' wk] by (fastforce simp: pipe_run_inv_def)
  next
    case (close_end writable p' wk freed)
    then show ?thesis
      using inv close_keeps_inv [of "r_pipe s" writable p' wk freed] by (simp add: pipe_run_inv_def)
  qed
qed

text \<open>
  C8. Whatever readers, writers and closers do, in any interleaving of their segments, the
  bytes handed to readers followed by the bytes in the ring are exactly the bytes written, in
  order: nothing is lost, duplicated or reordered, also across the wrap-around of the two
  counters; and the ring never holds more than \<^verbatim>\<open>PIPESIZE\<close> bytes.
\<close>

theorem pipe_fifo:
  assumes "pipe_run_init s" and "pipe_step\<^sup>*\<^sup>* s t"
  shows "r_written t = r_read t @ pipe_contents (r_pipe t)
     \<and> length (pipe_contents (r_pipe t)) \<le> PIPESIZE"
  using pipe_sys.inv_reachable [OF assms] by (simp add: pipe_run_inv_def pipe_wf_def)

theorem pipe_fifo_witness:
  "\<exists>t. pipe_step\<^sup>*\<^sup>* \<lparr>r_pipe = pipe_example, r_written = [], r_read = []\<rparr> t
     \<and> r_written t = [7, 8] \<and> r_read t @ pipe_contents (r_pipe t) = [7, 8]"
proof -
  let ?s = "\<lparr>r_pipe = pipe_example, r_written = [], r_read = []\<rparr>"
  obtain p' wk oc where w: "pipewrite pipe_example [7, 8] 0 2 False = (p', wk, oc)"
    and nw: "p_nwrite p' = wrap32 (p_nwrite pipe_example + 2)"
    using pipewrite_spec [of pipe_example 0 2 "[7, 8]" 2 False] by (auto simp: PIPESIZE_def)
  have k: "2 = wrap32 (p_nwrite p' + 2 ^ 32 - p_nwrite (r_pipe ?s))"
    using advance_count [OF nw] by (simp add: pipe_example_def pipe_fresh_def)
  have init: "pipe_run_init ?s"
    unfolding pipe_run_init_def pipe_example_def by (auto simp: PIPESIZE_def intro!: exI [of _ "replicate 512 0"])
  let ?t = "?s\<lparr>r_pipe := p', r_written := [7, 8]\<rparr>"
  have "pipe_step ?s (?s\<lparr>r_pipe := p', r_written := r_written ?s @ take 2 (drop 0 [7, 8])\<rparr>)"
    by (rule pipe_step.write_segment [where n = 2, OF _ _ k]) (use w in simp_all)
  then have step: "pipe_step\<^sup>*\<^sup>* ?s ?t" by (auto intro: r_into_rtranclp)
  from pipe_fifo [OF init step] step show ?thesis
    by (auto intro!: exI [of _ ?t])
qed

end
