(* ===== verification/Kalloc.thy ===== *)
theory Kalloc
  imports Locks Bytes
begin

text \<open>
  \<^verbatim>\<open>src/kalloc.c\<close>: the allocator of physical pages. Memory is byte addressed by kernel virtual
  addresses; the free list is threaded through the first eight bytes of the free pages, as in
  the code. \<^verbatim>\<open>end\<close>, the address after the kernel image, is fixed by the linker and is the
  parameter \<open>kend\<close>. The lock that \<^verbatim>\<open>use_lock\<close> turns on brackets each operation.
\<close>

section \<open>Memory\<close>

type_synonym memory = "addr_t \<Rightarrow> byte"

definition ld64 :: "memory \<Rightarrow> addr_t \<Rightarrow> addr_t" where
  "ld64 m a = of_nat (le_nat (map (\<lambda>k. m (a + of_nat k)) [0..<8]))"

definition st64 :: "memory \<Rightarrow> addr_t \<Rightarrow> addr_t \<Rightarrow> memory" where
  "st64 m a v = (\<lambda>x. if unat (x - a) < 8 then le_bytes 8 (unat v) ! unat (x - a) else m x)"

definition fill :: "memory \<Rightarrow> addr_t \<Rightarrow> byte \<Rightarrow> nat \<Rightarrow> memory" where
  "fill m a c n = (\<lambda>x. if unat (x - a) < n then c else m x)"

definition PGSIZE :: nat where
  "PGSIZE = 4096"

definition PHYSTOP :: addr_t where
  "PHYSTOP = 0xE000000"

definition V2P :: "addr_t \<Rightarrow> addr_t" where
  "V2P a = a - KERNBASE"

definition P2V :: "addr_t \<Rightarrow> addr_t" where
  "P2V a = a + KERNBASE"

section \<open>State and operations\<close>

record kmem =
  km_use_lock :: bool
  km_freelist :: addr_t
  km_mem :: memory

definition kfree :: "addr_t \<Rightarrow> addr_t \<Rightarrow> 'z kmem_scheme \<Rightarrow> 'z kmem_scheme res" where
  "kfree kend v k =
     (if unat v mod PGSIZE \<noteq> 0 \<or> v < kend \<or> V2P v \<ge> PHYSTOP then Panic ''kfree''
      else Ok (k\<lparr>km_mem := st64 (fill (km_mem k) v 1 PGSIZE) v (km_freelist k), km_freelist := v\<rparr>))"

definition kalloc :: "'z kmem_scheme \<Rightarrow> (addr_t \<times> 'z kmem_scheme) res" where
  "kalloc k =
     (let r = km_freelist k in
      if r \<noteq> 0 then Ok (r, k\<lparr>km_freelist := ld64 (km_mem k) r\<rparr>)
      else Panic ''Out of memory!'')"

text \<open>
  The loop of \<^verbatim>\<open>freerange\<close> from \<open>p\<close> on. An end address in the last page of the address space would
  make \<^verbatim>\<open>p + PGSIZE\<close> wrap around to 0 and the loop go on; \<open>Fault\<close> marks that.
\<close>

lemma unat_64: "unat (a :: addr_t) < 18446744073709551616"
  using unsigned_less [where 'a = nat, of a] by simp

function freerange_from :: "addr_t \<Rightarrow> addr_t \<Rightarrow> addr_t \<Rightarrow> 'z kmem_scheme \<Rightarrow> 'z kmem_scheme res" where
  "freerange_from kend p vend k =
     (if unat p + PGSIZE \<ge> 2 ^ 64 then Fault ''freerange: wrap-around''
      else if p + of_nat PGSIZE \<le> vend then
        bind_res (kfree kend p k) (freerange_from kend (p + of_nat PGSIZE) vend)
      else Ok k)"
  by pat_completeness auto
termination
proof (relation "measure (\<lambda>(kend, p, vend, k). 2 ^ 64 - unat p)")
  fix kend p vend :: addr_t and k x :: "'z kmem_scheme"
  assume "\<not> 2 ^ 64 \<le> unat p + PGSIZE"
  then have "unat (p + of_nat PGSIZE) = unat p + PGSIZE"
    by (subst unat_add_lem [THEN iffD1]) (simp_all add: PGSIZE_def)
  then show "((kend, p + of_nat PGSIZE, vend, x), kend, p, vend, k) \<in> measure (\<lambda>(kend, p, vend, k). 2 ^ 64 - unat p)"
    using unat_64 [of p] by (simp add: PGSIZE_def)
qed simp

declare freerange_from.simps [simp del]

definition PGROUNDUP :: "addr_t \<Rightarrow> addr_t" where
  "PGROUNDUP sz = (sz + 4095) AND NOT 4095"

definition PGROUNDDOWN :: "addr_t \<Rightarrow> addr_t" where
  "PGROUNDDOWN a = a AND NOT 4095"

definition freerange :: "addr_t \<Rightarrow> addr_t \<Rightarrow> addr_t \<Rightarrow> 'z kmem_scheme \<Rightarrow> 'z kmem_scheme res" where
  "freerange kend vstart vend k = freerange_from kend (PGROUNDUP vstart) vend k"

definition kinit1 :: "addr_t \<Rightarrow> addr_t \<Rightarrow> addr_t \<Rightarrow> 'z kmem_scheme \<Rightarrow> 'z kmem_scheme res" where
  "kinit1 kend vstart vend k = freerange kend vstart vend (k\<lparr>km_use_lock := False, km_freelist := 0\<rparr>)"

definition kinit2 :: "'z kmem_scheme \<Rightarrow> 'z kmem_scheme" where
  "kinit2 k = k\<lparr>km_use_lock := True\<rparr>"

section \<open>Loads after stores\<close>

lemma ld64_st64_same [simp]: "ld64 (st64 m a v) a = v"
proof -
  have "unat (a + of_nat k - a) = k" if "k < 8" for k
    using that by (simp add: unat_of_nat)
  then have "map (\<lambda>k. st64 m a v (a + of_nat k)) [0..<8] = le_bytes 8 (unat v)"
    by (intro nth_equalityI) (simp_all add: st64_def)
  then have "ld64 (st64 m a v) a = of_nat (unat v mod 256 ^ 8)" unfolding ld64_def by simp
  also have "unat v mod 256 ^ 8 = unat v" using unat_64 [of v] by simp
  finally show ?thesis by simp
qed

text \<open>Two accesses are apart when neither starts inside the other.\<close>

definition apart :: "addr_t \<Rightarrow> nat \<Rightarrow> addr_t \<Rightarrow> nat \<Rightarrow> bool" where
  "apart a n b k \<longleftrightarrow> (\<forall>i < k. n \<le> unat (b + of_nat i - a))"

lemma ld64_cong: "(\<And>i. i < 8 \<Longrightarrow> m (a + of_nat i) = m' (a + of_nat i)) \<Longrightarrow> ld64 m a = ld64 m' a"
  unfolding ld64_def by (intro arg_cong [where f = of_nat] arg_cong [where f = le_nat] map_cong) auto

lemma ld64_apart:
  "apart a 8 b 8 \<Longrightarrow> ld64 (st64 m a v) b = ld64 m b" "apart a n b 8 \<Longrightarrow> ld64 (fill m a c n) b = ld64 m b"
  by (rule ld64_cong; force simp: apart_def st64_def fill_def)+

lemma unat_diff: "unat (x - a :: addr_t) = (if a \<le> x then unat x - unat a else unat x + 2 ^ 64 - unat a)"
  by (simp add: unat_sub_if_size word_size word_le_nat_alt)

text \<open>Different pages do not overlap.\<close>

lemma page_offset:
  assumes "unat (a :: addr_t) mod PGSIZE = 0" and "k < PGSIZE"
  shows "unat (a + of_nat k) = unat a + k"
proof -
  have "unat a + PGSIZE \<le> 18446744073709551616"
  proof -
    obtain q where q: "unat a = PGSIZE * q" using assms(1) by (metis mod_0_imp_dvd dvdE)
    then have "PGSIZE * q < PGSIZE * 4503599627370496" using unat_64 [of a] by (simp add: PGSIZE_def)
    then have "Suc q \<le> 4503599627370496" by simp
    then have "PGSIZE * Suc q \<le> PGSIZE * 4503599627370496" by (rule mult_le_mono2)
    then show ?thesis by (simp add: q PGSIZE_def)
  qed
  then show ?thesis using assms(2)
    by (subst unat_add_lem [THEN iffD1]) (simp_all add: PGSIZE_def unat_of_nat)
qed

lemma pages_apart:
  assumes "unat (a :: addr_t) mod PGSIZE = 0" "unat b mod PGSIZE = 0" "a \<noteq> b" "k < PGSIZE"
  shows "PGSIZE \<le> unat (b + of_nat k - a)"
proof -
  obtain i where i: "unat a = PGSIZE * i" using assms(1) by (metis mod_0_imp_dvd dvdE)
  obtain j where j: "unat b = PGSIZE * j" using assms(2) by (metis mod_0_imp_dvd dvdE)
  have "i \<noteq> j" using assms(3) i j by (metis unsigned_word_eqI)
  note u = page_offset [OF assms(2,4)]
  have top: "unat a + PGSIZE - 1 < 18446744073709551616"
    using page_offset [OF assms(1), of "PGSIZE - 1"] unat_64 [of "a + of_nat (PGSIZE - 1)"] by (simp add: PGSIZE_def)
  consider "Suc i \<le> j" | "Suc j \<le> i" using \<open>i \<noteq> j\<close> by linarith
  then show ?thesis
  proof cases
    case 1
    then have "PGSIZE * Suc i \<le> PGSIZE * j" by (rule mult_le_mono2)
    then have le: "unat a + PGSIZE \<le> unat b" by (simp add: i j)
    then have "a \<le> b + of_nat k" using u by (simp add: word_le_nat_alt)
    then show ?thesis using le u by (simp add: unat_diff)
  next
    case 2
    then have "PGSIZE * Suc j \<le> PGSIZE * i" by (rule mult_le_mono2)
    then have le: "unat b + PGSIZE \<le> unat a" by (simp add: i j)
    then have "\<not> a \<le> b + of_nat k" using u assms(4) by (simp add: word_le_nat_alt)
    then show ?thesis using le u top by (simp add: unat_diff PGSIZE_def)
  qed
qed

section \<open>The free list\<close>

text \<open>The chain of pages that starts at \<open>p\<close>.\<close>

fun chain :: "memory \<Rightarrow> addr_t \<Rightarrow> addr_t list \<Rightarrow> bool" where
  "chain m p [] \<longleftrightarrow> p = 0"
| "chain m p (q # qs) \<longleftrightarrow> p = q \<and> p \<noteq> 0 \<and> chain m (ld64 m p) qs"

definition page_ok :: "addr_t \<Rightarrow> addr_t \<Rightarrow> bool" where
  "page_ok kend v \<longleftrightarrow> unat v mod PGSIZE = 0 \<and> kend \<le> v \<and> V2P v < PHYSTOP \<and> v \<noteq> 0"

text \<open>\<open>kmem_free kend k ps\<close>: the free pages are \<open>ps\<close>, the next one to be allocated first.\<close>

definition kmem_free :: "addr_t \<Rightarrow> 'z kmem_scheme \<Rightarrow> addr_t list \<Rightarrow> bool" where
  "kmem_free kend k ps \<longleftrightarrow> chain (km_mem k) (km_freelist k) ps \<and> distinct ps \<and> (\<forall>p \<in> set ps. page_ok kend p)"

lemma chain_cong: "(\<And>q. q \<in> set ps \<Longrightarrow> ld64 m q = ld64 m' q) \<Longrightarrow> chain m p ps = chain m' p ps"
  by (induction ps arbitrary: p) auto

lemma st64_in_page:
  assumes "unat v mod PGSIZE = 0" "unat q mod PGSIZE = 0" "q \<noteq> v"
  shows "ld64 (st64 (fill m v c PGSIZE) v x) q = ld64 m q"
proof -
  have a: "PGSIZE \<le> unat (q + of_nat i - v)" if "i < 8" for i
    by (rule pages_apart) (use assms that in \<open>auto simp: PGSIZE_def\<close>)
  have "apart v 8 q 8" "apart v PGSIZE q 8"
    using a unfolding apart_def by (auto simp: PGSIZE_def intro: order_trans [of 8 4096])
  then show ?thesis using ld64_apart by simp
qed

lemma kfree_ok:
  assumes f: "kmem_free kend k ps" and v: "page_ok kend v" "v \<notin> set ps"
  shows "\<exists>k'. kfree kend v k = Ok k' \<and> kmem_free kend k' (v # ps) \<and> km_use_lock k' = km_use_lock k
     \<and> (\<forall>x. PGSIZE \<le> unat (x - v) \<longrightarrow> km_mem k' x = km_mem k x)
     \<and> (\<forall>x. 8 \<le> unat (x - v) \<and> unat (x - v) < PGSIZE \<longrightarrow> km_mem k' x = 1)"
proof -
  let ?k = "k\<lparr>km_mem := st64 (fill (km_mem k) v 1 PGSIZE) v (km_freelist k), km_freelist := v\<rparr>"
  have run: "kfree kend v k = Ok ?k" using v(1) by (auto simp: kfree_def page_ok_def)
  have same: "ld64 (km_mem ?k) q = ld64 (km_mem k) q" if q: "q \<in> set ps" for q
  proof -
    have "unat q mod PGSIZE = 0" "q \<noteq> v" using q f v by (auto simp: kmem_free_def page_ok_def)
    then show ?thesis using st64_in_page v(1) by (simp add: page_ok_def)
  qed
  have "chain (km_mem ?k) (km_freelist k) ps"
    using f chain_cong [of ps "km_mem ?k" "km_mem k", OF same] by (simp add: kmem_free_def)
  then have "kmem_free kend ?k (v # ps)" using f v by (simp add: kmem_free_def page_ok_def)
  moreover have "km_mem ?k x = km_mem k x" if "PGSIZE \<le> unat (x - v)" for x
    using that by (simp add: st64_def fill_def PGSIZE_def)
  moreover have "km_mem ?k x = 1" if "8 \<le> unat (x - v)" "unat (x - v) < PGSIZE" for x
    using that by (simp add: st64_def fill_def)
  ultimately show ?thesis using run by auto
qed

lemma kalloc_ok:
  "kmem_free kend k (p # ps) \<Longrightarrow> \<exists>k'. kalloc k = Ok (p, k') \<and> kmem_free kend k' ps \<and> km_mem k' = km_mem k \<and> km_use_lock k' = km_use_lock k"
  "kmem_free kend k [] \<Longrightarrow> kalloc k = Panic ''Out of memory!''"
  by (auto simp: kalloc_def kmem_free_def Let_def)

section \<open>Interface\<close>

text \<open>
  What the kernel relies on: pages come off a stack of free pages and go back onto it. The laws
  are those of the two operations; everything else about pages in use follows from them.
\<close>

locale page_allocator =
  fixes free :: "'s \<Rightarrow> addr_t list \<Rightarrow> bool"
    and good :: "addr_t \<Rightarrow> bool"
    and palloc :: "'s \<Rightarrow> (addr_t \<times> 's) res"
    and pfree :: "addr_t \<Rightarrow> 's \<Rightarrow> 's res"
  assumes free_set: "free s ps \<Longrightarrow> distinct ps \<and> (\<forall>p \<in> set ps. good p)"
    and palloc_top: "free s (p # ps) \<Longrightarrow> \<exists>t. palloc s = Ok (p, t) \<and> free t ps"
    and palloc_empty: "free s [] \<Longrightarrow> palloc s = Panic ''Out of memory!''"
    and pfree_push: "free s ps \<Longrightarrow> good v \<Longrightarrow> v \<notin> set ps \<Longrightarrow> \<exists>t. pfree v s = Ok t \<and> free t (v # ps)"
begin

lemma palloc_fresh:
  assumes "free s ps" and "palloc s = Ok (p, t)"
  shows "\<exists>qs. ps = p # qs \<and> free t qs \<and> p \<notin> set qs \<and> good p"
proof (cases ps)
  case Nil
  then show ?thesis using palloc_empty assms by simp
next
  case (Cons q qs)
  with palloc_top assms free_set [OF assms(1)] show ?thesis by fastforce
qed

text \<open>A page that has been allocated can be given back, and is then the next one to be allocated.\<close>

lemma palloc_pfree:
  assumes "free s ps" and "palloc s = Ok (p, t)"
  shows "\<exists>u. pfree p t = Ok u \<and> free u ps"
  using palloc_fresh [OF assms] pfree_push by auto

text \<open>Successive allocations never give out a page twice.\<close>

lemma palloc_twice:
  assumes "free s ps" and "palloc s = Ok (p, t)" and "palloc t = Ok (q, u)"
  shows "p \<noteq> q"
  using palloc_fresh [OF assms(1,2)] palloc_fresh [OF _ assms(3)] by fastforce

text \<open>Freeing a list of pages.\<close>

lemma pfree_all:
  assumes "free s ps" and "\<forall>v \<in> set vs. good v" "distinct vs" "set vs \<inter> set ps = {}"
  shows "\<exists>t. fold_res pfree vs s = Ok t \<and> free t (rev vs @ ps)"
  using assms
proof (induction vs arbitrary: s ps)
  case (Cons v vs)
  then obtain t where t: "pfree v s = Ok t" "free t (v # ps)" using pfree_push [of s ps v] by auto
  then show ?case using Cons.IH [of t "v # ps"] Cons.prems by auto
qed simp

end

interpretation kp: page_allocator "kmem_free kend" "page_ok kend" kalloc "kfree kend" for kend
proof unfold_locales
  fix s ps assume "kmem_free kend s ps"
  then show "distinct ps \<and> (\<forall>p \<in> set ps. page_ok kend p)" by (simp add: kmem_free_def)
next
  fix s p ps assume "kmem_free kend s (p # ps)"
  from kalloc_ok(1) [OF this] show "\<exists>t. kalloc s = Ok (p, t) \<and> kmem_free kend t ps" by blast
next
  fix s ps v assume "kmem_free kend s ps" "page_ok kend v" "v \<notin> set ps"
  from kfree_ok [OF this] show "\<exists>t. kfree kend v s = Ok t \<and> kmem_free kend t (v # ps)" by blast
qed (rule kalloc_ok)

section \<open>Rounding to pages\<close>

lemma unat_PGROUNDDOWN: "unat (PGROUNDDOWN a) = unat a - unat a mod PGSIZE"
proof -
  have m: "(4095 :: addr_t) = mask 12" by (simp add: mask_eq_exp_minus_1)
  have "PGROUNDDOWN a = a - (a AND mask 12)"
  proof -
    have "a - (a AND mask 12) = a AND NOT (a AND mask 12)"
      by (rule disjunctive_diff_eq_and_not) (auto intro!: bit_eqI simp: bit_and_iff bit_not_iff)
    also have "\<dots> = a AND NOT (mask 12)" by (rule bit_eqI) (auto simp: bit_and_iff bit_or_iff bit_not_iff)
    finally show ?thesis by (simp only: PGROUNDDOWN_def m)
  qed
  moreover have "unat (a AND mask 12) = unat a mod PGSIZE"
    by (simp only: take_bit_eq_mask [symmetric] unsigned_take_bit_eq) (simp add: take_bit_eq_mod PGSIZE_def)
  moreover from this have "a AND mask 12 \<le> a" by (simp add: word_le_nat_alt)
  ultimately show ?thesis by (simp add: unat_sub)
qed

lemma PGROUNDDOWN_aligned: "unat (PGROUNDDOWN a) mod PGSIZE = 0"
  by (simp add: unat_PGROUNDDOWN minus_mod_eq_mult_div [symmetric])

lemma PGROUNDUP_down: "PGROUNDUP a = PGROUNDDOWN (a + 4095)"
  by (simp add: PGROUNDUP_def PGROUNDDOWN_def)

lemma PGROUNDUP_aligned: "unat (PGROUNDUP a) mod PGSIZE = 0"
  by (simp add: PGROUNDUP_down PGROUNDDOWN_aligned)

section \<open>Freeing a range\<close>

definition pages :: "addr_t \<Rightarrow> nat \<Rightarrow> addr_t list" where
  "pages p n = map (\<lambda>i. p + of_nat (i * PGSIZE)) [0..<n]"

lemma pages_Suc: "pages p (Suc n) = p # pages (p + of_nat PGSIZE) n"
proof -
  have "pages p (Suc n) = map (\<lambda>i. p + of_nat (i * PGSIZE)) (0 # map Suc [0..<n])"
    unfolding pages_def by (simp only: upt_conv_Cons map_Suc_upt zero_less_Suc)
  also have "\<dots> = p # pages (p + of_nat PGSIZE) n" by (simp add: pages_def comp_def algebra_simps)
  finally show ?thesis .
qed

lemma unat_step: "unat p + PGSIZE < 2 ^ 64 \<Longrightarrow> unat (p + of_nat PGSIZE :: addr_t) = unat p + PGSIZE"
  by (subst unat_add_lem [THEN iffD1]) (simp_all add: PGSIZE_def)

lemma pages_in:
  assumes "v \<in> set (pages p n)" and "unat p + n * PGSIZE < 2 ^ 64"
  shows "\<exists>i < n. unat v = unat p + i * PGSIZE"
  using assms
proof (induction n arbitrary: p)
  case 0
  then show ?case by (simp add: pages_def)
next
  case (Suc n)
  have u: "unat (p + of_nat PGSIZE) = unat p + PGSIZE" by (rule unat_step) (use Suc.prems in simp)
  consider "v = p" | "v \<in> set (pages (p + of_nat PGSIZE) n)" using Suc.prems(1) by (auto simp: pages_Suc)
  then show ?case
  proof cases
    case 2
    then obtain i where "i < n" "unat v = unat (p + of_nat PGSIZE) + i * PGSIZE"
      using Suc.IH [of "p + of_nat PGSIZE"] Suc.prems(2) u by auto
    then show ?thesis using u by (intro exI [of _ "Suc i"]) simp
  qed (intro exI [of _ 0], simp)
qed

lemma freerange_lock: "freerange_from kend p vend k = Ok k' \<Longrightarrow> km_use_lock k' = km_use_lock k"
proof (induction kend p vend k arbitrary: k' rule: freerange_from.induct)
  case (1 kend p vend k)
  then show ?case
    by (subst (asm) freerange_from.simps) (auto simp: kfree_def split: if_splits)
qed

text \<open>The pages of a range of direct-mapped memory above the kernel image.\<close>

definition good_range :: "addr_t \<Rightarrow> addr_t \<Rightarrow> addr_t \<Rightarrow> bool" where
  "good_range kend p vend \<longleftrightarrow> unat p mod PGSIZE = 0 \<and> kend \<le> p \<and> KERNBASE < p \<and> unat vend \<le> unat KERNBASE + unat PHYSTOP"

lemma range_top: "unat KERNBASE + unat PHYSTOP + PGSIZE < 2 ^ 64"
  by (simp add: KERNBASE_def PHYSTOP_def PGSIZE_def)

lemma good_range_page:
  assumes "good_range kend p vend" and "p + of_nat PGSIZE \<le> vend" and "unat p + PGSIZE < 2 ^ 64"
  shows "page_ok kend p" and "good_range kend (p + of_nat PGSIZE) vend"
proof -
  note u = unat_step [OF assms(3)]
  have le: "unat p + PGSIZE \<le> unat vend" using assms(2) u by (simp add: word_le_nat_alt)
  have k: "unat KERNBASE < unat p" using assms(1) by (simp add: good_range_def word_less_nat_alt)
  then have "unat (V2P p) = unat p - unat KERNBASE" by (simp add: V2P_def unat_sub word_le_nat_alt)
  moreover have "unat vend \<le> unat KERNBASE + unat PHYSTOP" using assms(1) by (simp add: good_range_def)
  ultimately have "unat (V2P p) < unat PHYSTOP" using le k unfolding PGSIZE_def by linarith
  then have "V2P p < PHYSTOP" by (simp add: word_less_nat_alt)
  moreover have "p \<noteq> 0" using k by auto
  ultimately show "page_ok kend p" using assms(1) by (simp add: page_ok_def good_range_def)
  have "unat kend \<le> unat (p + of_nat PGSIZE)" "unat KERNBASE < unat (p + of_nat PGSIZE)"
    using assms(1) u by (simp_all add: good_range_def word_le_nat_alt word_less_nat_alt)
  then have "kend \<le> p + of_nat PGSIZE" "KERNBASE < p + of_nat PGSIZE"
    by (simp_all add: word_le_nat_alt word_less_nat_alt)
  then show "good_range kend (p + of_nat PGSIZE) vend" using assms(1) u by (simp add: good_range_def)
qed

lemma freerange_from_ok:
  assumes "good_range kend p vend" and "unat p \<le> unat KERNBASE + unat PHYSTOP" and "kmem_free kend k ps"
    and "\<And>q. q \<in> set ps \<Longrightarrow> unat q < unat p" and "n = (unat vend - unat p) div PGSIZE"
  shows "\<exists>k'. freerange_from kend p vend k = Ok k' \<and> kmem_free kend k' (rev (pages p n) @ ps)"
  using assms
proof (induction n arbitrary: p k ps)
  case 0
  have top: "unat p + PGSIZE < 2 ^ 64" using "0.prems"(2) range_top by linarith
  have "unat vend - unat p < PGSIZE" using "0.prems"(5) by (metis PGSIZE_def div_eq_0_iff rel_simps(76))
  then have "\<not> p + of_nat PGSIZE \<le> vend" using unat_step [OF top] by (simp add: word_le_nat_alt PGSIZE_def)
  then show ?case using top "0.prems"(3) by (simp add: freerange_from.simps [of kend p] pages_def)
next
  case (Suc n)
  have top: "unat p + PGSIZE < 2 ^ 64" using Suc.prems(2) range_top by linarith
  note u = unat_step [OF top]
  have pos: "0 < PGSIZE" by (simp add: PGSIZE_def)
  have "PGSIZE \<le> unat vend - unat p"
  proof (rule ccontr)
    assume "\<not> ?thesis"
    then show False using Suc.prems(5) by simp
  qed
  then have le: "unat p + PGSIZE \<le> unat vend" using pos by linarith
  then have v: "p + of_nat PGSIZE \<le> vend" using u by (simp add: word_le_nat_alt)
  have n: "n = (unat vend - unat (p + of_nat PGSIZE)) div PGSIZE"
    using Suc.prems(5) le pos le_div_geq [of PGSIZE "unat vend - unat p"] by (simp add: u)
  note g = good_range_page [OF Suc.prems(1) v top]
  have "p \<notin> set ps" using Suc.prems(4) by blast
  from kfree_ok [OF Suc.prems(3) g(1) this] obtain k1 where k1: "kfree kend p k = Ok k1" "kmem_free kend k1 (p # ps)" by blast
  have q: "unat q < unat (p + of_nat PGSIZE)" if "q \<in> set (p # ps)" for q
    using that Suc.prems(4) [of q] u pos by auto
  have "unat (p + of_nat PGSIZE) \<le> unat KERNBASE + unat PHYSTOP"
    using le u Suc.prems(1) by (simp add: good_range_def)
  from Suc.IH [OF g(2) this k1(2) q n] obtain k' where "freerange_from kend (p + of_nat PGSIZE) vend k1 = Ok k'"
    "kmem_free kend k' (rev (pages (p + of_nat PGSIZE) n) @ p # ps)" by blast
  then show ?case using k1(1) top v by (auto simp: freerange_from.simps [of kend p] pages_Suc)
qed

section \<open>Properties\<close>

text \<open>
  \<^verbatim>\<open>kinit1\<close> frees exactly the whole pages between the two addresses: after it, the free list is
  the pages from \<^verbatim>\<open>PGROUNDUP(vstart)\<close> on, each once, the highest first, and the loop ends.
\<close>

theorem kinit1_frees_range:
  assumes "good_range kend (PGROUNDUP vstart) vend" and "unat (PGROUNDUP vstart) \<le> unat KERNBASE + unat PHYSTOP"
  shows "\<exists>k'. kinit1 kend vstart vend k = Ok k' \<and> \<not> km_use_lock k' \<and>
     kmem_free kend k' (rev (pages (PGROUNDUP vstart) ((unat vend - unat (PGROUNDUP vstart)) div PGSIZE)))"
proof -
  let ?k = "k\<lparr>km_use_lock := False, km_freelist := 0\<rparr>"
  have "kmem_free kend ?k []" by (simp add: kmem_free_def)
  from freerange_from_ok [OF assms this, of _] obtain k' where
    k': "freerange_from kend (PGROUNDUP vstart) vend ?k = Ok k'"
      "kmem_free kend k' (rev (pages (PGROUNDUP vstart) ((unat vend - unat (PGROUNDUP vstart)) div PGSIZE)))" by auto
  moreover have "\<not> km_use_lock k'" using freerange_lock [OF k'(1)] by simp
  ultimately show ?thesis by (simp add: kinit1_def freerange_def)
qed

definition any_kmem :: kmem where
  "any_kmem = \<lparr>km_use_lock = True, km_freelist = 5, km_mem = (\<lambda>_. 0)\<rparr>"

theorem kinit1_frees_range_witness:
  "\<exists>k'. kinit1 0xFFFF800000100000 0xFFFF800000100001 0xFFFF800000103000 any_kmem = Ok k'
     \<and> kmem_free 0xFFFF800000100000 k' [0xFFFF800000102000, 0xFFFF800000101000]"
proof -
  have p: "PGROUNDUP 0xFFFF800000100001 = 0xFFFF800000101000" by (simp add: PGROUNDUP_def)
  have g: "good_range 0xFFFF800000100000 (PGROUNDUP 0xFFFF800000100001) 0xFFFF800000103000"
    by (simp add: p good_range_def PGSIZE_def KERNBASE_def PHYSTOP_def)
  have l: "unat (PGROUNDUP 0xFFFF800000100001) \<le> unat KERNBASE + unat PHYSTOP" by (simp add: p KERNBASE_def PHYSTOP_def)
  have "pages 0xFFFF800000101000 2 = [0xFFFF800000101000, 0xFFFF800000102000]" by (simp add: pages_def PGSIZE_def upt_rec)
  then show ?thesis using kinit1_frees_range [OF g l, of any_kmem] by (auto simp: p PGSIZE_def)
qed

text \<open>The code does not return 0 when there is no page, as its comment says.\<close>

lemma kalloc_out_of_memory: "kmem_free kend k [] \<Longrightarrow> kalloc k = Panic ''Out of memory!''"
  by (rule kalloc_ok(2))

text \<open>
  C14. The allocator is a stack of free pages: when there is a free page, \<^verbatim>\<open>kalloc\<close> takes the top one, which is then no longer free,
  and leaves memory alone; \<^verbatim>\<open>kfree\<close> of a page in use puts
  it on top, fills it and changes no other page, and the next \<^verbatim>\<open>kalloc\<close> returns it.
\<close>

theorem kalloc_kfree_stack:
  assumes "kmem_free kend k ps"
  shows "(\<forall>p qs. ps = p # qs \<longrightarrow> (\<exists>k'. kalloc k = Ok (p, k') \<and> kmem_free kend k' qs \<and> p \<notin> set qs \<and> km_mem k' = km_mem k))
    \<and> (\<forall>v. page_ok kend v \<and> v \<notin> set ps \<longrightarrow> (\<exists>k' k''. kfree kend v k = Ok k' \<and> kmem_free kend k' (v # ps)
       \<and> (\<forall>w x. page_ok kend w \<and> w \<noteq> v \<and> unat (x - w) < PGSIZE \<longrightarrow> km_mem k' x = km_mem k x)
       \<and> (\<forall>x. 8 \<le> unat (x - v) \<and> unat (x - v) < PGSIZE \<longrightarrow> km_mem k' x = 1)
       \<and> kalloc k' = Ok (v, k'') \<and> kmem_free kend k'' ps))"
proof (intro conjI allI impI)
  fix p qs assume "ps = p # qs"
  then show "\<exists>k'. kalloc k = Ok (p, k') \<and> kmem_free kend k' qs \<and> p \<notin> set qs \<and> km_mem k' = km_mem k"
    using kalloc_ok(1) [of kend k p qs] assms by (auto simp: kmem_free_def)
next
  fix v assume "page_ok kend v \<and> v \<notin> set ps"
  then have v: "page_ok kend v" "v \<notin> set ps" by simp_all
  from kfree_ok [OF assms v] obtain k' where k': "kfree kend v k = Ok k'" "kmem_free kend k' (v # ps)"
    "\<forall>x. PGSIZE \<le> unat (x - v) \<longrightarrow> km_mem k' x = km_mem k x"
    "\<forall>x. 8 \<le> unat (x - v) \<and> unat (x - v) < PGSIZE \<longrightarrow> km_mem k' x = 1" by blast
  from kalloc_ok(1) [OF k'(2)] obtain k'' where "kalloc k' = Ok (v, k'')" "kmem_free kend k'' ps" by blast
  moreover have "km_mem k' x = km_mem k x" if "page_ok kend w" "w \<noteq> v" "unat (x - w) < PGSIZE" for w x
  proof -
    have "PGSIZE \<le> unat (w + of_nat (unat (x - w)) - v)"
      by (rule pages_apart) (use v(1) that in \<open>auto simp: page_ok_def\<close>)
    then show ?thesis using k'(3) by simp
  qed
  ultimately show "\<exists>k' k''. kfree kend v k = Ok k' \<and> kmem_free kend k' (v # ps)
       \<and> (\<forall>w x. page_ok kend w \<and> w \<noteq> v \<and> unat (x - w) < PGSIZE \<longrightarrow> km_mem k' x = km_mem k x)
       \<and> (\<forall>x. 8 \<le> unat (x - v) \<and> unat (x - v) < PGSIZE \<longrightarrow> km_mem k' x = 1)
       \<and> kalloc k' = Ok (v, k'') \<and> kmem_free kend k'' ps"
    using k' by (intro exI [of _ k'] exI [of _ k'']) blast
qed

theorem kalloc_kfree_stack_witness:
  "\<exists>k' k''. kfree 0xFFFF800000100000 0xFFFF800000200000 (any_kmem\<lparr>km_freelist := 0\<rparr>) = Ok k'
     \<and> kalloc k' = Ok (0xFFFF800000200000, k'')"
proof -
  have f: "kmem_free 0xFFFF800000100000 (any_kmem\<lparr>km_freelist := 0\<rparr>) []" by (simp add: kmem_free_def)
  have "page_ok 0xFFFF800000100000 0xFFFF800000200000" by (simp add: page_ok_def PGSIZE_def V2P_def KERNBASE_def PHYSTOP_def)
  with kalloc_kfree_stack [OF f] show ?thesis by fastforce
qed

end
