(* ===== verification/Vm.thy ===== *)
theory Vm
  imports Kalloc
begin

text \<open>
  \<^verbatim>\<open>src/vm.c\<close>: four-level page tables in the pages that \<^verbatim>\<open>kalloc\<close> hands out, and user address spaces.
  A table is a page of 512 entries of eight bytes at its kernel address. \<^verbatim>\<open>loaduvm\<close>, which reads a
  file, is with \<^verbatim>\<open>exec\<close>; \<^verbatim>\<open>seginit\<close> and \<^verbatim>\<open>syscallinit\<close> are in \<open>Segs\<close>.
\<close>

section \<open>Addresses and entries\<close>

definition PMX :: "addr_t \<Rightarrow> addr_t" where
  "PMX va = drop_bit 39 va AND 511"

definition PDPX :: "addr_t \<Rightarrow> addr_t" where
  "PDPX va = drop_bit 30 va AND 511"

definition PDX :: "addr_t \<Rightarrow> addr_t" where
  "PDX va = drop_bit 21 va AND 511"

definition PTX :: "addr_t \<Rightarrow> addr_t" where
  "PTX va = drop_bit 12 va AND 511"

definition PTE_P :: addr_t where "PTE_P = 1"
definition PTE_W :: addr_t where "PTE_W = 2"
definition PTE_U :: addr_t where "PTE_U = 4"
definition PTE_PWT :: addr_t where "PTE_PWT = 8"
definition PTE_PCD :: addr_t where "PTE_PCD = 16"
definition PTE_PS :: addr_t where "PTE_PS = 128"

definition PTE_ADDR :: "addr_t \<Rightarrow> addr_t" where
  "PTE_ADDR pte = pte AND NOT 4095"

definition PTE_FLAGS :: "addr_t \<Rightarrow> addr_t" where
  "PTE_FLAGS pte = pte AND 4095"

text \<open>The entry \<open>i\<close> of the table at \<open>t\<close>.\<close>

definition entry :: "addr_t \<Rightarrow> addr_t \<Rightarrow> addr_t" where
  "entry t i = t + 8 * i"

definition present :: "addr_t \<Rightarrow> bool" where
  "present e \<longleftrightarrow> e AND PTE_P \<noteq> 0"

section \<open>State\<close>

text \<open>
  The allocator and its memory, the kernel's own tables, the page table register and the two words
  of the task state segment that hold the kernel stack.
\<close>

record vmst = kmem +
  vm_kpml4 :: addr_t
  vm_kpdpt :: addr_t
  vm_cr3 :: addr_t
  vm_tss1 :: "32 word"
  vm_tss2 :: "32 word"

definition zero_page :: "addr_t \<Rightarrow> 'z kmem_scheme \<Rightarrow> 'z kmem_scheme" where
  "zero_page p k = k\<lparr>km_mem := fill (km_mem k) p 0 PGSIZE\<rparr>"

definition store64 :: "addr_t \<Rightarrow> addr_t \<Rightarrow> 'z kmem_scheme \<Rightarrow> 'z kmem_scheme" where
  "store64 a v k = k\<lparr>km_mem := st64 (km_mem k) a v\<rparr>"

definition store_bytes :: "addr_t \<Rightarrow> byte list \<Rightarrow> 'z kmem_scheme \<Rightarrow> 'z kmem_scheme" where
  "store_bytes a bs k = k\<lparr>km_mem := (\<lambda>x. if unat (x - a) < length bs then bs ! unat (x - a) else km_mem k x)\<rparr>"

definition load_bytes :: "addr_t \<Rightarrow> nat \<Rightarrow> 'z kmem_scheme \<Rightarrow> byte list" where
  "load_bytes a n k = map (\<lambda>i. km_mem k (a + of_nat i)) [0..<n]"

section \<open>Page tables\<close>

definition setupkvm :: "vmst \<Rightarrow> (addr_t \<times> vmst) res" where
  "setupkvm k =
     bind_res (kalloc k) (\<lambda>(pml4, k).
       Ok (pml4, store64 (entry pml4 256) (V2P (vm_kpdpt k) OR PTE_P OR PTE_W) (zero_page pml4 k)))"

definition switchkvm :: "vmst \<Rightarrow> vmst" where
  "switchkvm k = k\<lparr>vm_cr3 := V2P (vm_kpml4 k)\<rparr>"

definition kvmalloc :: "vmst \<Rightarrow> vmst res" where
  "kvmalloc k =
     bind_res (kalloc k) (\<lambda>(pml4, k).
     bind_res (kalloc (zero_page pml4 (k\<lparr>vm_kpml4 := pml4\<rparr>))) (\<lambda>(pdpt, k).
       let k = zero_page pdpt (k\<lparr>vm_kpdpt := pdpt\<rparr>);
           k = store64 (entry pml4 (PMX KERNBASE)) (V2P pdpt OR PTE_P OR PTE_W) k;
           k = store64 (entry pdpt 0) (PTE_PS OR PTE_P OR PTE_W) k;
           k = store64 (entry pdpt 3) (0xC0000000 OR PTE_PS OR PTE_P OR PTE_W OR PTE_PWT OR PTE_PCD) k
       in Ok (switchkvm k)))"

definition KSTACKSIZE :: nat where
  "KSTACKSIZE = 4096"

text \<open>\<^verbatim>\<open>switchuvm\<close>, given the page table and the kernel stack of the process.\<close>

definition switchuvm :: "addr_t \<Rightarrow> addr_t \<Rightarrow> vmst \<Rightarrow> vmst res" where
  "switchuvm pgdir kstack k =
     (if pgdir = 0 then Panic ''switchuvm: no pgdir''
      else let stktop = kstack + of_nat KSTACKSIZE in
        Ok (k\<lparr>vm_tss1 := ucast stktop, vm_tss2 := ucast (drop_bit 32 stktop), vm_cr3 := V2P pgdir\<rparr>))"

text \<open>One of the three levels of \<^verbatim>\<open>walkpgdir\<close>: the table that the entry at \<open>e\<close> points to, made if missing.\<close>

definition walk_level :: "bool \<Rightarrow> addr_t \<Rightarrow> 'z kmem_scheme \<Rightarrow> (addr_t option \<times> 'z kmem_scheme) res" where
  "walk_level alloc e k =
     (if present (ld64 (km_mem k) e) then Ok (Some (P2V (PTE_ADDR (ld64 (km_mem k) e))), k)
      else if \<not> alloc then Ok (None, k)
      else bind_res (kalloc k) (\<lambda>(t, k).
        if t = 0 then Ok (None, k)
        else Ok (Some t, store64 e (V2P t OR PTE_P OR PTE_W OR PTE_U) (zero_page t k))))"

definition walkpgdir :: "addr_t \<Rightarrow> addr_t \<Rightarrow> bool \<Rightarrow> 'z kmem_scheme \<Rightarrow> (addr_t option \<times> 'z kmem_scheme) res" where
  "walkpgdir pml4 va alloc k =
     bind_res (walk_level alloc (entry pml4 (PMX va)) k) (\<lambda>(pdp, k).
       case pdp of None \<Rightarrow> Ok (None, k) | Some pdp \<Rightarrow>
     bind_res (walk_level alloc (entry pdp (PDPX va)) k) (\<lambda>(pd, k).
       case pd of None \<Rightarrow> Ok (None, k) | Some pd \<Rightarrow>
     bind_res (walk_level alloc (entry pd (PDX va)) k) (\<lambda>(pgtab, k).
       case pgtab of None \<Rightarrow> Ok (None, k) | Some pgtab \<Rightarrow> Ok (Some (entry pgtab (PTX va)), k))))"

text \<open>
  \<^verbatim>\<open>mappages\<close>: the loop runs from page \<open>a\<close> to page \<open>last\<close>, both included, that is for
  \<open>(last - a) / PGSIZE + 1\<close> pages (modulo \<open>2 ^ 64\<close>, since the test is \<^verbatim>\<open>a == last\<close>). The result is 0 or -1.
\<close>

fun mappages_loop :: "nat \<Rightarrow> addr_t \<Rightarrow> addr_t \<Rightarrow> addr_t \<Rightarrow> addr_t \<Rightarrow> 'z kmem_scheme \<Rightarrow> (int \<times> 'z kmem_scheme) res" where
  "mappages_loop 0 pgdir a pa perm k = Ok (0, k)"
| "mappages_loop (Suc n) pgdir a pa perm k =
     bind_res (walkpgdir pgdir a True k) (\<lambda>(pte, k).
       case pte of
         None \<Rightarrow> Ok (-1, k)
       | Some pte \<Rightarrow>
           if present (ld64 (km_mem k) pte) then Panic ''remap''
           else mappages_loop n pgdir (a + of_nat PGSIZE) (pa + of_nat PGSIZE) perm
                  (store64 pte (pa OR perm OR PTE_P) k))"

definition mappages :: "addr_t \<Rightarrow> addr_t \<Rightarrow> addr_t \<Rightarrow> addr_t \<Rightarrow> addr_t \<Rightarrow> 'z kmem_scheme \<Rightarrow> (int \<times> 'z kmem_scheme) res" where
  "mappages pgdir va sz pa perm k =
     (let a = PGROUNDDOWN va; last = PGROUNDDOWN (va + sz - 1)
      in mappages_loop (unat (last - a) div PGSIZE + 1) pgdir a pa perm k)"

section \<open>User address spaces\<close>

definition inituvm :: "addr_t \<Rightarrow> byte list \<Rightarrow> vmst \<Rightarrow> vmst res" where
  "inituvm pgdir init k =
     (if length init \<ge> PGSIZE then Panic ''inituvm: more than a page''
      else bind_res (kalloc k) (\<lambda>(mem, k).
        bind_res (mappages pgdir (of_nat PGSIZE) (of_nat PGSIZE) (V2P mem) (PTE_W OR PTE_U) (zero_page mem k))
          (\<lambda>(_, k). Ok (store_bytes mem init k))))"

text \<open>The addresses that the loops \<^verbatim>\<open>for (a = ...; a < hi; a += PGSIZE)\<close> visit.\<close>

definition page_range :: "addr_t \<Rightarrow> addr_t \<Rightarrow> addr_t list" where
  "page_range a hi = pages a ((unat hi - unat a + PGSIZE - 1) div PGSIZE)"

definition dealloc_page :: "addr_t \<Rightarrow> addr_t \<Rightarrow> addr_t \<Rightarrow> 'z kmem_scheme \<Rightarrow> 'z kmem_scheme res" where
  "dealloc_page kend pgdir a k =
     bind_res (walkpgdir pgdir a False k) (\<lambda>(pte, k).
       case pte of
         None \<Rightarrow> Ok k
       | Some pte \<Rightarrow>
           if present (ld64 (km_mem k) pte) then
             let pa = PTE_ADDR (ld64 (km_mem k) pte) in
             if pa = 0 then Panic ''kfree''
             else bind_res (kfree kend (P2V pa) k) (\<lambda>k. Ok (store64 pte 0 k))
           else Ok k)"

definition deallocuvm :: "addr_t \<Rightarrow> addr_t \<Rightarrow> addr_t \<Rightarrow> addr_t \<Rightarrow> 'z kmem_scheme \<Rightarrow> (addr_t \<times> 'z kmem_scheme) res" where
  "deallocuvm kend pgdir oldsz newsz k =
     (if newsz \<ge> oldsz then Ok (oldsz, k)
      else bind_res (fold_res (dealloc_page kend pgdir) (page_range (PGROUNDUP newsz) oldsz) k) (\<lambda>k. Ok (newsz, k)))"

fun allocuvm_loop :: "addr_t \<Rightarrow> addr_t \<Rightarrow> addr_t \<Rightarrow> addr_t \<Rightarrow> addr_t list \<Rightarrow> 'z kmem_scheme \<Rightarrow> (addr_t \<times> 'z kmem_scheme) res" where
  "allocuvm_loop kend pgdir oldsz newsz [] k = Ok (newsz, k)"
| "allocuvm_loop kend pgdir oldsz newsz (a # as) k =
     bind_res (kalloc k) (\<lambda>(mem, k).
       if mem = 0 then bind_res (deallocuvm kend pgdir newsz oldsz k) (\<lambda>(_, k). Ok (0, k))
       else bind_res (mappages pgdir a (of_nat PGSIZE) (V2P mem) (PTE_W OR PTE_U) (zero_page mem k)) (\<lambda>(r, k).
         if r < 0 then
           bind_res (deallocuvm kend pgdir newsz oldsz k) (\<lambda>(_, k).
           bind_res (kfree kend mem k) (\<lambda>k. Ok (0, k)))
         else allocuvm_loop kend pgdir oldsz newsz as k))"

definition allocuvm :: "addr_t \<Rightarrow> addr_t \<Rightarrow> addr_t \<Rightarrow> addr_t \<Rightarrow> 'z kmem_scheme \<Rightarrow> (addr_t \<times> 'z kmem_scheme) res" where
  "allocuvm kend pgdir oldsz newsz k =
     (if newsz \<ge> KERNBASE then Ok (0, k)
      else if newsz < oldsz then Ok (oldsz, k)
      else allocuvm_loop kend pgdir oldsz newsz (page_range (PGROUNDUP oldsz) newsz) k)"

text \<open>
  \<^verbatim>\<open>freevm\<close>: the entries present in a table, freed by \<open>f\<close> one after the other, and then the table itself.
  An entry is read when the loop reaches it.
\<close>

definition free_entries :: "addr_t \<Rightarrow> nat \<Rightarrow> (addr_t \<Rightarrow> 'z kmem_scheme \<Rightarrow> 'z kmem_scheme res) \<Rightarrow> addr_t \<Rightarrow> 'z kmem_scheme \<Rightarrow> 'z kmem_scheme res" where
  "free_entries kend n f t k =
     bind_res (fold_res (\<lambda>i k. let e = ld64 (km_mem k) (entry t (of_nat i)) in
                 if present e then f (P2V (PTE_ADDR e)) k else Ok k) [0..<n] k)
       (kfree kend t)"

definition freevm :: "addr_t \<Rightarrow> addr_t \<Rightarrow> 'z kmem_scheme \<Rightarrow> 'z kmem_scheme res" where
  "freevm kend pml4 k =
     (if pml4 = 0 then Panic ''freevm: no pgdir''
      else free_entries kend 256
             (free_entries kend 512
               (free_entries kend 512
                 (free_entries kend 512 (kfree kend)))) pml4 k)"

definition clearpteu :: "addr_t \<Rightarrow> addr_t \<Rightarrow> 'z kmem_scheme \<Rightarrow> 'z kmem_scheme res" where
  "clearpteu pgdir uva k =
     bind_res (walkpgdir pgdir uva False k) (\<lambda>(pte, k).
       case pte of
         None \<Rightarrow> Panic ''clearpteu''
       | Some pte \<Rightarrow> Ok (store64 pte (ld64 (km_mem k) pte AND NOT PTE_U) k))"

fun copyuvm_loop :: "addr_t \<Rightarrow> addr_t \<Rightarrow> addr_t \<Rightarrow> addr_t list \<Rightarrow> 'z kmem_scheme \<Rightarrow> (addr_t \<times> 'z kmem_scheme) res" where
  "copyuvm_loop kend pgdir d [] k = Ok (d, k)"
| "copyuvm_loop kend pgdir d (i # is) k =
     bind_res (walkpgdir pgdir i False k) (\<lambda>(pte, k).
       case pte of
         None \<Rightarrow> Panic ''copyuvm: pte should exist''
       | Some pte \<Rightarrow>
           let e = ld64 (km_mem k) pte in
           if \<not> present e then Panic ''copyuvm: page not present''
           else bind_res (kalloc k) (\<lambda>(mem, k).
             if mem = 0 then bind_res (freevm kend d k) (\<lambda>k. Ok (0, k))
             else bind_res (mappages d i (of_nat PGSIZE) (V2P mem) (PTE_FLAGS e)
                              (store_bytes mem (load_bytes (P2V (PTE_ADDR e)) PGSIZE k) k)) (\<lambda>(r, k).
               if r < 0 then bind_res (freevm kend d k) (\<lambda>k. Ok (0, k))
               else copyuvm_loop kend pgdir d is k)))"

text \<open>The size is a \<^verbatim>\<open>uint\<close>: the caller's 64-bit size is cut to 32 bits.\<close>

definition copyuvm :: "addr_t \<Rightarrow> addr_t \<Rightarrow> 32 word \<Rightarrow> vmst \<Rightarrow> (addr_t \<times> vmst) res" where
  "copyuvm kend pgdir sz k =
     bind_res (setupkvm k) (\<lambda>(d, k).
       if d = 0 then Ok (0, k)
       else copyuvm_loop kend pgdir d (page_range (of_nat PGSIZE) (ucast sz)) k)"

text \<open>\<^verbatim>\<open>uva2ka\<close> dereferences the result of \<^verbatim>\<open>walkpgdir\<close> without a test.\<close>

definition uva2ka :: "addr_t \<Rightarrow> addr_t \<Rightarrow> 'z kmem_scheme \<Rightarrow> addr_t res" where
  "uva2ka pgdir uva k =
     bind_res (walkpgdir pgdir uva False k) (\<lambda>(pte, k).
       case pte of
         None \<Rightarrow> Fault ''uva2ka: null pte''
       | Some pte \<Rightarrow>
           let e = ld64 (km_mem k) pte in
           if \<not> present e then Ok 0
           else if e AND PTE_U = 0 then Ok 0
           else Ok (P2V (PTE_ADDR e)))"

function copyout :: "addr_t \<Rightarrow> addr_t \<Rightarrow> byte list \<Rightarrow> 'z kmem_scheme \<Rightarrow> (int \<times> 'z kmem_scheme) res" where
  "copyout pgdir va buf k =
     (if buf = [] then Ok (0, k)
      else let va0 = PGROUNDDOWN va in
        bind_res (uva2ka pgdir va0 k) (\<lambda>pa0.
          if pa0 = 0 then Ok (-1, k)
          else let n = min (PGSIZE - unat (va - va0)) (length buf) in
            copyout pgdir (va0 + of_nat PGSIZE) (drop n buf) (store_bytes (pa0 + (va - va0)) (take n buf) k)))"
  by pat_completeness auto

lemma PGROUNDDOWN_offset: "unat (va - PGROUNDDOWN va) = unat va mod PGSIZE"
proof -
  have "PGROUNDDOWN va \<le> va" by (simp add: word_le_nat_alt unat_PGROUNDDOWN)
  then show ?thesis by (simp add: unat_sub unat_PGROUNDDOWN)
qed

termination copyout
  by (relation "measure (\<lambda>(pgdir, va, buf, k). length buf)")
    (auto simp: PGROUNDDOWN_offset PGSIZE_def)

declare copyout.simps [simp del]

end
