(* ===== verification/Kstate.thy ===== *)
theory Kstate
  imports Fs_Props Pipe Vm
begin

text \<open>
  The state of the whole kernel, which the file layer, the system calls and processes share: the
  process table of \<^verbatim>\<open>src/proc.h\<close>, the file table of \<^verbatim>\<open>src/file.h\<close>, the pipes, and memory. It extends the
  file-system state. Pointers into the tables are indices; a pipe is known by the address of its
  page. A kernel function here is one uninterrupted segment of the process that runs it, which is
  the process \<open>k_cur\<close>. \<open>k_end\<close> is the linker's \<^verbatim>\<open>end\<close>, \<open>k_ncli\<close> the depth of \<^verbatim>\<open>pushcli\<close>
  nesting of the CPU, \<open>k_ptlock\<close> whether it holds \<^verbatim>\<open>ptable.lock\<close>, and \<open>k_first\<close> the static variable of \<^verbatim>\<open>forkret\<close>.
  Without a current process (\<^verbatim>\<open>proc == 0\<close>) \<open>k_cur\<close> is no index of the table.
\<close>

section \<open>Processes\<close>

record trapframe =
  tf_rax :: addr_t
  tf_rbx :: addr_t
  tf_rcx :: addr_t
  tf_rdx :: addr_t
  tf_rbp :: addr_t
  tf_rsi :: addr_t
  tf_rdi :: addr_t
  tf_r8 :: addr_t
  tf_r9 :: addr_t
  tf_r10 :: addr_t
  tf_r11 :: addr_t
  tf_r12 :: addr_t
  tf_r13 :: addr_t
  tf_r14 :: addr_t
  tf_r15 :: addr_t
  tf_trapno :: addr_t
  tf_err :: addr_t
  tf_rip :: addr_t
  tf_cs :: addr_t
  tf_rflags :: addr_t
  tf_rsp :: addr_t
  tf_ss :: addr_t

datatype procstate = UNUSED | EMBRYO | SLEEPING | RUNNABLE | RUNNING | ZOMBIE

text \<open>
  A channel is an address that is only compared: of a process structure, of a counter of a pipe, of
  \<^verbatim>\<open>ticks\<close>, or of another kernel object.
\<close>

datatype chan = ChanProc nat | ChanPipe addr_t pipe_chan | ChanTicks | ChanObj string

text \<open>Where the saved kernel context of a process continues.\<close>

datatype kpc = AtForkret | AtSched

record proc =
  p_sz :: addr_t
  p_pgdir :: addr_t
  p_kstack :: addr_t
  p_state :: procstate
  p_pid :: int
  p_parent :: "nat option"
  p_tf :: trapframe
  p_context :: kpc
  p_chan :: "chan option"
  p_killed :: bool
  p_ofile :: "nat option list"
  p_cwd :: "nat option"
  p_name :: "byte list"

definition NPROC :: nat where
  "NPROC = 64"

definition NOFILE :: nat where
  "NOFILE = 16"

section \<open>Open files\<close>

datatype ftype = FD_NONE | FD_PIPE | FD_INODE

record kfile =
  f_type :: ftype
  f_ref :: int
  f_readable :: bool
  f_writable :: bool
  f_pipe :: addr_t
  f_ip :: nat
  f_off :: nat
  f_dev_payload :: addr_t

definition NFILE :: nat where
  "NFILE = 100"

section \<open>The kernel\<close>

record kst = fsst +
  k_file :: "kfile list"
  k_pipe :: "addr_t \<Rightarrow> pipe option"
  k_mm :: vmst
  k_proc :: "proc list"
  k_cur :: nat
  k_initproc :: nat
  k_nextpid :: int
  k_ticks :: nat
  k_ncli :: int
  k_ptlock :: bool
  k_first :: bool
  k_end :: addr_t

definition upd_proc :: "nat \<Rightarrow> (proc \<Rightarrow> proc) \<Rightarrow> 'z kst_scheme \<Rightarrow> 'z kst_scheme" where
  "upd_proc i f s = s\<lparr>k_proc := (k_proc s)[i := f (k_proc s ! i)]\<rparr>"

definition upd_file :: "nat \<Rightarrow> (kfile \<Rightarrow> kfile) \<Rightarrow> 'z kst_scheme \<Rightarrow> 'z kst_scheme" where
  "upd_file i f s = s\<lparr>k_file := (k_file s)[i := f (k_file s ! i)]\<rparr>"

abbreviation get_file :: "'z kst_scheme \<Rightarrow> nat \<Rightarrow> kfile" where
  "get_file s i \<equiv> k_file s ! i"

abbreviation get_proc :: "'z kst_scheme \<Rightarrow> nat \<Rightarrow> proc" where
  "get_proc s i \<equiv> k_proc s ! i"

text \<open>The process that is running, \<^verbatim>\<open>proc\<close>.\<close>

abbreviation cur :: "'z kst_scheme \<Rightarrow> proc" where
  "cur s \<equiv> k_proc s ! k_cur s"

abbreviation upd_cur :: "(proc \<Rightarrow> proc) \<Rightarrow> 'z kst_scheme \<Rightarrow> 'z kst_scheme" where
  "upd_cur f s \<equiv> upd_proc (k_cur s) f s"

section \<open>Waking processes\<close>

text \<open>\<^verbatim>\<open>wakeup1\<close> of \<^verbatim>\<open>src/proc.c\<close> on one process and on the table; \<^verbatim>\<open>wakeup\<close> is the same under the lock.\<close>

definition wake :: "chan \<Rightarrow> proc \<Rightarrow> proc" where
  "wake c p = (if p_state p = SLEEPING \<and> p_chan p = Some c then p\<lparr>p_state := RUNNABLE\<rparr> else p)"

definition wakeup1 :: "chan \<Rightarrow> proc list \<Rightarrow> proc list" where
  "wakeup1 c ps = map (wake c) ps"

definition wakeup :: "chan \<Rightarrow> 'z kst_scheme \<Rightarrow> 'z kst_scheme" where
  "wakeup c s = s\<lparr>k_proc := wakeup1 c (k_proc s)\<rparr>"

text \<open>The wake-up calls of a segment of pipe code, in their order.\<close>

definition pipe_wakeups :: "addr_t \<Rightarrow> pipe_chan list \<Rightarrow> 'z kst_scheme \<Rightarrow> 'z kst_scheme" where
  "pipe_wakeups p cs s = fold (\<lambda>c. wakeup (ChanPipe p c)) cs s"

end
