(* ===== verification/File.thy ===== *)
theory File
  imports Kstate
begin

text \<open>
  \<^verbatim>\<open>src/file.c\<close>: the table of open files, and \<^verbatim>\<open>pipealloc\<close> of \<^verbatim>\<open>src/pipe.c\<close>. The device switch \<^verbatim>\<open>devsw\<close>
  is a table of function pointers that drivers fill in; it is an argument of the operations that
  call through it. \<^verbatim>\<open>fileread\<close> returns the bytes that the code stores at \<^verbatim>\<open>addr\<close>, \<^verbatim>\<open>filewrite\<close> is given the
  bytes that the code reads there.
\<close>

section \<open>The device switch\<close>

record 's devops =
  d_read :: "(nat \<Rightarrow> int \<Rightarrow> 's \<Rightarrow> (int \<times> byte list \<times> 's) res) option"
  d_write :: "(nat \<Rightarrow> byte list \<Rightarrow> int \<Rightarrow> 's \<Rightarrow> (int \<times> 's) res) option"
  d_ioctl :: "(nat \<Rightarrow> int \<Rightarrow> int \<Rightarrow> 's \<Rightarrow> (int \<times> 's) res) option"

definition NDEV :: int where
  "NDEV = 10"

text \<open>A \<^verbatim>\<open>short\<close> read as a number.\<close>

definition int16 :: "nat \<Rightarrow> int" where
  "int16 x = (int x + 2 ^ 15) mod 2 ^ 16 - 2 ^ 15"

section \<open>The file table\<close>

definition alloc_slot :: "kfile list \<Rightarrow> (nat \<times> kfile list) option" where
  "alloc_slot fs = (case first_idx (\<lambda>f. f_ref f = 0) fs of
     None \<Rightarrow> None | Some i \<Rightarrow> Some (i, fs[i := (fs ! i)\<lparr>f_ref := 1\<rparr>]))"

definition filealloc :: "'z kst_scheme \<Rightarrow> nat option \<times> 'z kst_scheme" where
  "filealloc s = (case alloc_slot (k_file s) of None \<Rightarrow> (None, s) | Some (i, fs) \<Rightarrow> (Some i, s\<lparr>k_file := fs\<rparr>))"

definition filedup :: "nat \<Rightarrow> 'z kst_scheme \<Rightarrow> 'z kst_scheme res" where
  "filedup i s =
     (if f_ref (get_file s i) < 1 then Panic ''filedup''
      else Ok (upd_file i (\<lambda>f. f\<lparr>f_ref := f_ref f + 1\<rparr>) s))"

text \<open>\<^verbatim>\<open>pipeclose\<close> on the pipe at page \<open>p\<close>, with its wake-up calls and the release of the page.\<close>

definition pipe_close :: "addr_t \<Rightarrow> bool \<Rightarrow> 'z kst_scheme \<Rightarrow> 'z kst_scheme res" where
  "pipe_close p writable s =
     (case k_pipe s p of
        None \<Rightarrow> Fault ''pipeclose: dangling pipe''
      | Some pp \<Rightarrow>
          (case pipeclose pp writable of (pp', cs, freed) \<Rightarrow>
             let s = pipe_wakeups p cs (s\<lparr>k_pipe := (k_pipe s)(p \<mapsto> pp')\<rparr>) in
             if freed then
               bind_res (kfree (k_end s) p (k_mm s)) (\<lambda>m. Ok (s\<lparr>k_mm := m, k_pipe := (k_pipe s)(p := None)\<rparr>))
             else Ok s))"

definition fileclose :: "nat \<Rightarrow> 'z kst_scheme \<Rightarrow> 'z kst_scheme res" where
  "fileclose i s =
     (let f = get_file s i in
      if f_ref f < 1 then Panic ''fileclose''
      else if f_ref f - 1 > 0 then Ok (upd_file i (\<lambda>f. f\<lparr>f_ref := f_ref f - 1\<rparr>) s)
      else let s = upd_file i (\<lambda>f. f\<lparr>f_ref := 0, f_type := FD_NONE\<rparr>) s in
        case f_type f of
          FD_PIPE \<Rightarrow> pipe_close (f_pipe f) (f_writable f) s
        | FD_INODE \<Rightarrow> bind_res (begin_op s) (\<lambda>s. bind_res (iput (f_ip f) s) end_op)
        | FD_NONE \<Rightarrow> Ok s)"

definition fileioctl :: "(nat \<Rightarrow> 'z kst_scheme devops) \<Rightarrow> nat \<Rightarrow> int \<Rightarrow> int \<Rightarrow> 'z kst_scheme \<Rightarrow> (int \<times> 'z kst_scheme) res" where
  "fileioctl devsw i param val s =
     (let major = int16 (i_major (get_inode s (f_ip (get_file s i)))) in
      if major < 0 \<or> major \<ge> NDEV then Fault ''fileioctl: devsw out of range''
      else case d_ioctl (devsw (nat major)) of
        Some ioctl \<Rightarrow> ioctl i param val s
      | None \<Rightarrow> Ok (-1, s))"

definition filestat :: "nat \<Rightarrow> 'z kst_scheme \<Rightarrow> (int \<times> stat option \<times> 'z kst_scheme) res" where
  "filestat i s =
     (if f_type (get_file s i) = FD_INODE then
        let ip = f_ip (get_file s i) in
        bind_res (ilock ip s) (\<lambda>s.
          let st = stati ip s in
          bind_res (iunlock ip s) (\<lambda>s. Ok (0, Some st, s)))
      else Ok (-1, None, s))"

section \<open>Reading\<close>

definition pipe_read :: "addr_t \<Rightarrow> int \<Rightarrow> 'z kst_scheme \<Rightarrow> (read_outcome \<times> 'z kst_scheme) res" where
  "pipe_read p n s =
     (case k_pipe s p of
        None \<Rightarrow> Fault ''piperead: dangling pipe''
      | Some pp \<Rightarrow>
          (case piperead pp n (p_killed (cur s)) of (pp', cs, r) \<Rightarrow>
             Ok (r, pipe_wakeups p cs (s\<lparr>k_pipe := (k_pipe s)(p \<mapsto> pp')\<rparr>))))"

definition fileread :: "(nat \<Rightarrow> 'z kst_scheme devops) \<Rightarrow> nat \<Rightarrow> int \<Rightarrow> 'z kst_scheme \<Rightarrow> (read_outcome \<times> 'z kst_scheme) res" where
  "fileread devsw i n s =
     (let f = get_file s i in
      if \<not> f_readable f then Ok (RDone (-1) [], s)
      else case f_type f of
        FD_PIPE \<Rightarrow> pipe_read (f_pipe f) n s
      | FD_INODE \<Rightarrow>
          let ip = f_ip f; major = int16 (i_major (get_inode s ip)) in
          if i_type (get_inode s ip) = T_DEV then
            if major < 0 \<or> major \<ge> NDEV then Ok (RDone (-1) [], s)
            else (case d_read (devsw (nat major)) of
                None \<Rightarrow> Ok (RDone (-1) [], s)
              | Some rd \<Rightarrow> bind_res (rd i n s) (\<lambda>(r, bs, s). Ok (RDone r bs, s)))
          else
            bind_res (ilock ip s) (\<lambda>s.
            bind_res (readi ip (f_off (get_file s i)) (uint32 n) s) (\<lambda>(r, bs, s).
              let s = (if r > 0 then upd_file i (\<lambda>f. f\<lparr>f_off := wrap32 (f_off f + nat r)\<rparr>) s else s) in
              bind_res (iunlock ip s) (\<lambda>s. Ok (RDone r bs, s))))
      | FD_NONE \<Rightarrow> Panic ''fileread'')"

section \<open>Writing\<close>

definition pipe_write :: "addr_t \<Rightarrow> byte list \<Rightarrow> nat \<Rightarrow> int \<Rightarrow> 'z kst_scheme \<Rightarrow> (write_outcome \<times> 'z kst_scheme) res" where
  "pipe_write p addr i n s =
     (case k_pipe s p of
        None \<Rightarrow> Fault ''pipewrite: dangling pipe''
      | Some pp \<Rightarrow>
          (case pipewrite pp addr i n (p_killed (cur s)) of (pp', cs, r) \<Rightarrow>
             Ok (r, pipe_wakeups p cs (s\<lparr>k_pipe := (k_pipe s)(p \<mapsto> pp')\<rparr>))))"

text \<open>The largest part of a write that is one transaction.\<close>

definition WRITEMAX :: nat where
  "WRITEMAX = ((LOGSIZE - 1 - 1 - 2) div 2) * 512"

text \<open>The loop of \<^verbatim>\<open>filewrite\<close> on an inode, from byte \<open>i\<close> on; it returns the value of \<^verbatim>\<open>i\<close> after the loop.\<close>

function filewrite_loop :: "nat \<Rightarrow> byte list \<Rightarrow> nat \<Rightarrow> nat \<Rightarrow> 'z kst_scheme \<Rightarrow> (nat \<times> 'z kst_scheme) res" where
  "filewrite_loop fi addr i n s =
     (if i < n then
        let n1 = min (n - i) WRITEMAX; ip = f_ip (get_file s fi) in
        bind_res (begin_op s) (\<lambda>s.
        bind_res (ilock ip s) (\<lambda>s.
        bind_res (writei ip (drop i addr) (f_off (get_file s fi)) n1 s) (\<lambda>(r, s).
          let s = (if r > 0 then upd_file fi (\<lambda>f. f\<lparr>f_off := wrap32 (f_off f + nat r)\<rparr>) s else s) in
          bind_res (iunlock ip s) (\<lambda>s.
          bind_res (end_op s) (\<lambda>s.
            if r < 0 then Ok (i, s)
            else if r \<noteq> int n1 then Panic ''short filewrite''
            else filewrite_loop fi addr (i + n1) n s)))))
      else Ok (i, s))"
  by pat_completeness auto
termination
  by (relation "measure (\<lambda>(fi, addr, i, n, s). n - i)") (auto simp: WRITEMAX_def LOGSIZE_def MAXOPBLOCKS_def)

declare filewrite_loop.simps [simp del]

definition filewrite :: "(nat \<Rightarrow> 'z kst_scheme devops) \<Rightarrow> nat \<Rightarrow> byte list \<Rightarrow> int \<Rightarrow> 'z kst_scheme \<Rightarrow> (write_outcome \<times> 'z kst_scheme) res" where
  "filewrite devsw i addr n s =
     (let f = get_file s i in
      if \<not> f_writable f then Ok (WDone (-1), s)
      else case f_type f of
        FD_PIPE \<Rightarrow> pipe_write (f_pipe f) addr 0 n s
      | FD_INODE \<Rightarrow>
          let ip = f_ip f; major = int16 (i_major (get_inode s ip)) in
          if i_type (get_inode s ip) = T_DEV then
            if major < 0 \<or> major \<ge> NDEV then Ok (WDone (-1), s)
            else (case d_write (devsw (nat major)) of
                None \<Rightarrow> Ok (WDone (-1), s)
              | Some wr \<Rightarrow> bind_res (wr i addr n s) (\<lambda>(r, s). Ok (WDone r, s)))
          else
            bind_res (filewrite_loop i addr 0 (nat n) s) (\<lambda>(k, s).
              Ok (WDone (if int k = n then n else -1), s))
      | FD_NONE \<Rightarrow> Panic ''filewrite'')"

section \<open>Seeking\<close>

definition fileseek :: "nat \<Rightarrow> int \<Rightarrow> int \<Rightarrow> 'z kst_scheme \<Rightarrow> (int \<times> 'z kst_scheme) res" where
  "fileseek i offset position s =
     (if f_type (get_file s i) \<noteq> FD_INODE then Ok (-1, s)
      else bind_res (filestat i s) (\<lambda>(r, st, s).
        case st of
          None \<Rightarrow> Ok (-1, s)
        | Some st \<Rightarrow>
            if r \<noteq> 0 \<or> position \<notin> {0, 1, 2} then Ok (-1, s)
            else
              let new_off = (if position = 0 then offset
                             else if position = 1 then int32 (int (f_off (get_file s i)) + offset)
                             else int32 (int (st_size st) - offset));
                  new_off = (if new_off < 0 then 0 else new_off);
                  new_off = (if uint32 new_off > st_size st then int32 (int (st_size st)) else new_off)
              in Ok (new_off, upd_file i (\<lambda>f. f\<lparr>f_off := uint32 new_off\<rparr>) s)))"

section \<open>Pipes\<close>

text \<open>The common failure path of \<^verbatim>\<open>pipealloc\<close>.\<close>

definition pipealloc_bad :: "nat option \<Rightarrow> nat option \<Rightarrow> addr_t option \<Rightarrow> 'z kst_scheme
    \<Rightarrow> ((nat \<times> nat) option \<times> 'z kst_scheme) res" where
  "pipealloc_bad f0 f1 p s =
     bind_res (case p of None \<Rightarrow> Ok s | Some p \<Rightarrow> bind_res (kfree (k_end s) p (k_mm s)) (\<lambda>m. Ok (s\<lparr>k_mm := m\<rparr>))) (\<lambda>s.
     bind_res (case f0 of None \<Rightarrow> Ok s | Some i \<Rightarrow> fileclose i s) (\<lambda>s.
     bind_res (case f1 of None \<Rightarrow> Ok s | Some i \<Rightarrow> fileclose i s) (\<lambda>s.
     Ok (None, s))))"

definition pipealloc :: "'z kst_scheme \<Rightarrow> ((nat \<times> nat) option \<times> 'z kst_scheme) res" where
  "pipealloc s =
     (case filealloc s of
        (None, s) \<Rightarrow> pipealloc_bad None None None s
      | (Some f0, s) \<Rightarrow>
          (case filealloc s of
             (None, s) \<Rightarrow> pipealloc_bad (Some f0) None None s
           | (Some f1, s) \<Rightarrow>
               bind_res (kalloc (k_mm s)) (\<lambda>(p, m).
                 let s = s\<lparr>k_mm := m, k_pipe := (k_pipe s)(p \<mapsto> pipe_fresh (load_bytes p PGSIZE m))\<rparr>;
                     s = upd_file f0 (\<lambda>f. f\<lparr>f_type := FD_PIPE, f_readable := True, f_writable := False, f_pipe := p\<rparr>) s;
                     s = upd_file f1 (\<lambda>f. f\<lparr>f_type := FD_PIPE, f_readable := False, f_writable := True, f_pipe := p\<rparr>) s
                 in Ok (Some (f0, f1), s))))"

end
