(* ===== verification/Syscall.thy ===== *)
theory Syscall
  imports File
begin

text \<open>
  The argument fetching of \<^verbatim>\<open>src/syscall.c\<close>. User memory is what the page table of the running process
  maps; an address from \<^verbatim>\<open>KERNBASE\<close> up is kernel memory, which the kernel can always access. An
  access to an address that is not mapped is a page fault in the kernel (\<open>Fault\<close>).
\<close>

section \<open>Access to memory at a pointer\<close>

definition translate :: "addr_t \<Rightarrow> addr_t \<Rightarrow> 'z kmem_scheme \<Rightarrow> addr_t res" where
  "translate pgdir va k =
     (if KERNBASE \<le> va then Ok va
      else bind_res (walkpgdir pgdir va False k) (\<lambda>(pte, k).
        case pte of
          None \<Rightarrow> Fault ''page fault''
        | Some pte \<Rightarrow>
            let e = ld64 (km_mem k) pte in
            if present e then Ok (P2V (PTE_ADDR e) + (va - PGROUNDDOWN va)) else Fault ''page fault''))"

definition load_byte :: "addr_t \<Rightarrow> 'z kst_scheme \<Rightarrow> byte res" where
  "load_byte va s = bind_res (translate (p_pgdir (cur s)) va (k_mm s)) (\<lambda>a. Ok (km_mem (k_mm s) a))"

fun load_user :: "addr_t \<Rightarrow> nat \<Rightarrow> 'z kst_scheme \<Rightarrow> byte list res" where
  "load_user va 0 s = Ok []"
| "load_user va (Suc n) s = bind_res (load_byte va s) (\<lambda>b. bind_res (load_user (va + 1) n s) (\<lambda>bs. Ok (b # bs)))"

fun store_user :: "addr_t \<Rightarrow> byte list \<Rightarrow> 'z kst_scheme \<Rightarrow> 'z kst_scheme res" where
  "store_user va [] s = Ok s"
| "store_user va (b # bs) s =
     bind_res (translate (p_pgdir (cur s)) va (k_mm s)) (\<lambda>a.
       store_user (va + 1) bs (s\<lparr>k_mm := store_bytes a [b] (k_mm s)\<rparr>))"

section \<open>Fetching from user memory\<close>

definition user_sz :: "'z kst_scheme \<Rightarrow> addr_t" where
  "user_sz s = p_sz (cur s)"

text \<open>\<open>None\<close> is the result -1 of these functions.\<close>

definition fetchint :: "addr_t \<Rightarrow> 'z kst_scheme \<Rightarrow> int option res" where
  "fetchint addr s =
     (if addr < of_nat PGSIZE \<or> addr \<ge> user_sz s \<or> addr + 4 > user_sz s then Ok None
      else bind_res (load_user addr 4 s) (\<lambda>bs. Ok (Some (int32 (int (le_nat bs))))))"

definition fetchaddr :: "addr_t \<Rightarrow> 'z kst_scheme \<Rightarrow> addr_t option res" where
  "fetchaddr addr s =
     (if addr < of_nat PGSIZE \<or> addr \<ge> user_sz s \<or> addr + 8 > user_sz s then Ok None
      else bind_res (load_user addr 8 s) (\<lambda>bs. Ok (Some (of_nat (le_nat bs)))))"

text \<open>The scan of \<^verbatim>\<open>fetchstr\<close>; it gives the bytes before the NUL.\<close>

function fetchstr_scan :: "addr_t \<Rightarrow> addr_t \<Rightarrow> byte list \<Rightarrow> 'z kst_scheme \<Rightarrow> byte list option res" where
  "fetchstr_scan a ep acc s =
     (if a < ep then
        bind_res (load_byte a s) (\<lambda>b. if b = 0 then Ok (Some acc) else fetchstr_scan (a + 1) ep (acc @ [b]) s)
      else Ok None)"
  by pat_completeness auto
termination
proof (relation "measure (\<lambda>(a, ep, acc, s). unat ep - unat a)")
  fix a ep :: addr_t and acc x and s :: "'z kst_scheme"
  assume "a < ep"
  moreover from this have "unat (a + 1) = unat a + 1" 
    using unat_64 [of ep] by (subst unat_add_lem [THEN iffD1]) (simp_all add: word_less_nat_alt)
  ultimately show "((a + 1, ep, acc @ [x], s), a, ep, acc, s) \<in> measure (\<lambda>(a, ep, acc, s). unat ep - unat a)"
    by (simp add: word_less_nat_alt)
qed simp

declare fetchstr_scan.simps [simp del]

definition fetchstr :: "addr_t \<Rightarrow> 'z kst_scheme \<Rightarrow> byte list option res" where
  "fetchstr addr s =
     (if addr < of_nat PGSIZE \<or> addr \<ge> user_sz s then Ok None else fetchstr_scan addr (user_sz s) [] s)"

section \<open>System call arguments\<close>

definition fetcharg :: "int \<Rightarrow> 'z kst_scheme \<Rightarrow> addr_t res" where
  "fetcharg n s =
     (let tf = p_tf (cur s) in
      if n = 0 then Ok (tf_rdi tf) else if n = 1 then Ok (tf_rsi tf) else if n = 2 then Ok (tf_rdx tf)
      else if n = 3 then Ok (tf_r10 tf) else if n = 4 then Ok (tf_r8 tf) else if n = 5 then Ok (tf_r9 tf)
      else Panic ''failed fetch'')"

definition argint :: "int \<Rightarrow> 'z kst_scheme \<Rightarrow> int res" where
  "argint n s = bind_res (fetcharg n s) (\<lambda>a. Ok (sint (ucast a :: 32 word)))"

definition argaddr :: "int \<Rightarrow> 'z kst_scheme \<Rightarrow> addr_t res" where
  "argaddr n s = fetcharg n s"

text \<open>\<^verbatim>\<open>argptr\<close> checks the low half of the pointer, in 32-bit arithmetic, and returns all of it.\<close>

definition argptr :: "int \<Rightarrow> int \<Rightarrow> 'z kst_scheme \<Rightarrow> addr_t option res" where
  "argptr n sz s =
     bind_res (argaddr n s) (\<lambda>i.
       let lo = (ucast i :: 32 word) in
       if sz < 0 \<or> ucast lo \<ge> user_sz s \<or> ucast (lo + of_int sz) > user_sz s then Ok None
       else Ok (Some i))"

text \<open>\<^verbatim>\<open>argstr\<close> fetches the pointer as an \<^verbatim>\<open>int\<close>, which is then sign-extended.\<close>

definition argstr :: "int \<Rightarrow> 'z kst_scheme \<Rightarrow> byte list option res" where
  "argstr n s = bind_res (argint n s) (\<lambda>addr. fetchstr (of_int addr) s)"

end
