(* ===== verification/Sysfile.thy ===== *)
theory Sysfile
  imports Syscall
begin

text \<open>
  \<^verbatim>\<open>src/sysfile.c\<close>: the system calls on files. Each is a function of the kernel state and returns the
  value that goes back to the user; \<open>Blocked\<close> is a call that has gone to sleep on a pipe after
  what its first segment did. \<^verbatim>\<open>sys_exec\<close> is with \<^verbatim>\<open>exec\<close>; \<^verbatim>\<open>sys_kbddecoy\<close> hands its string to the
  console.
\<close>

datatype sysret = Ret int | Blocked chan

section \<open>File descriptors\<close>

definition argfd :: "int \<Rightarrow> 'z kst_scheme \<Rightarrow> (nat \<times> nat) option res" where
  "argfd n s =
     bind_res (argint n s) (\<lambda>fd.
       if fd < 0 \<or> fd \<ge> int NOFILE then Ok None
       else case p_ofile (cur s) ! nat fd of
         None \<Rightarrow> Ok None
       | Some f \<Rightarrow> Ok (Some (nat fd, f)))"

definition alloc_fd :: "nat \<Rightarrow> nat option list \<Rightarrow> (nat \<times> nat option list) option" where
  "alloc_fd f fds = (case first_idx (\<lambda>x. x = None) fds of None \<Rightarrow> None | Some fd \<Rightarrow> Some (fd, fds[fd := Some f]))"

definition fdalloc :: "nat \<Rightarrow> 'z kst_scheme \<Rightarrow> int \<times> 'z kst_scheme" where
  "fdalloc f s =
     (case alloc_fd f (p_ofile (cur s)) of
        None \<Rightarrow> (-1, s)
      | Some (fd, fds) \<Rightarrow> (int fd, upd_cur (\<lambda>p. p\<lparr>p_ofile := fds\<rparr>) s))"

definition clear_fd :: "nat \<Rightarrow> 'z kst_scheme \<Rightarrow> 'z kst_scheme" where
  "clear_fd fd s = upd_cur (\<lambda>p. p\<lparr>p_ofile := (p_ofile p)[fd := None]\<rparr>) s"

definition sys_dup :: "'z kst_scheme \<Rightarrow> (int \<times> 'z kst_scheme) res" where
  "sys_dup s =
     bind_res (argfd 0 s) (\<lambda>a.
       case a of
         None \<Rightarrow> Ok (-1, s)
       | Some (_, f) \<Rightarrow>
           (case fdalloc f s of (fd, s) \<Rightarrow>
              if fd < 0 then Ok (-1, s) else bind_res (filedup f s) (\<lambda>s. Ok (fd, s))))"

definition sys_read :: "(nat \<Rightarrow> 'z kst_scheme devops) \<Rightarrow> 'z kst_scheme \<Rightarrow> (sysret \<times> 'z kst_scheme) res" where
  "sys_read devsw s =
     bind_res (argfd 0 s) (\<lambda>a.
       case a of
         None \<Rightarrow> Ok (Ret (-1), s)
       | Some (_, f) \<Rightarrow>
           bind_res (argint 2 s) (\<lambda>n.
           bind_res (argptr 1 n s) (\<lambda>p.
             case p of
               None \<Rightarrow> Ok (Ret (-1), s)
             | Some p \<Rightarrow>
                 bind_res (fileread devsw f n s) (\<lambda>(r, s).
                   case r of
                     RDone r bs \<Rightarrow> bind_res (store_user p bs s) (\<lambda>s. Ok (Ret r, s))
                   | RSleep \<Rightarrow> Ok (Blocked (ChanPipe (f_pipe (get_file s f)) ChanNread), s)))))"

text \<open>A file that is not writable fails before its buffer is read.\<close>

definition sys_write :: "(nat \<Rightarrow> 'z kst_scheme devops) \<Rightarrow> 'z kst_scheme \<Rightarrow> (sysret \<times> 'z kst_scheme) res" where
  "sys_write devsw s =
     bind_res (argfd 0 s) (\<lambda>a.
       case a of
         None \<Rightarrow> Ok (Ret (-1), s)
       | Some (_, f) \<Rightarrow>
           bind_res (argint 2 s) (\<lambda>n.
           bind_res (argptr 1 n s) (\<lambda>p.
             case p of
               None \<Rightarrow> Ok (Ret (-1), s)
             | Some p \<Rightarrow>
                 if \<not> f_writable (get_file s f) then Ok (Ret (-1), s)
                 else
                   bind_res (load_user p (nat n) s) (\<lambda>addr.
                   bind_res (filewrite devsw f addr n s) (\<lambda>(r, s).
                     case r of
                       WDone r \<Rightarrow> Ok (Ret r, s)
                     | WSleep _ \<Rightarrow> Ok (Blocked (ChanPipe (f_pipe (get_file s f)) ChanNwrite), s))))))"

definition sys_close :: "'z kst_scheme \<Rightarrow> (int \<times> 'z kst_scheme) res" where
  "sys_close s =
     bind_res (argfd 0 s) (\<lambda>a.
       case a of
         None \<Rightarrow> Ok (-1, s)
       | Some (fd, f) \<Rightarrow> bind_res (fileclose f (clear_fd fd s)) (\<lambda>s. Ok (0, s)))"

definition sys_ioctl :: "(nat \<Rightarrow> 'z kst_scheme devops) \<Rightarrow> 'z kst_scheme \<Rightarrow> (int \<times> 'z kst_scheme) res" where
  "sys_ioctl devsw s =
     bind_res (argfd 0 s) (\<lambda>a.
       case a of
         None \<Rightarrow> Ok (-1, s)
       | Some (_, f) \<Rightarrow>
           bind_res (argint 1 s) (\<lambda>param.
           bind_res (argint 2 s) (\<lambda>val.
           fileioctl devsw f param val s)))"

text \<open>\<^verbatim>\<open>struct stat\<close> in user memory; the two bytes of padding after each \<^verbatim>\<open>short\<close> are not written.\<close>

definition store_stat :: "addr_t \<Rightarrow> stat \<Rightarrow> 'z kst_scheme \<Rightarrow> 'z kst_scheme res" where
  "store_stat p st s =
     bind_res (store_user p (le_bytes 2 (st_type st)) s) (\<lambda>s.
     bind_res (store_user (p + 4) (le_bytes 4 (st_dev st) @ le_bytes 4 (st_ino st) @ le_bytes 2 (st_nlink st)) s) (\<lambda>s.
     store_user (p + 16) (le_bytes 4 (st_size st)) s))"

definition sys_fstat :: "'z kst_scheme \<Rightarrow> (int \<times> 'z kst_scheme) res" where
  "sys_fstat s =
     bind_res (argfd 0 s) (\<lambda>a.
       case a of
         None \<Rightarrow> Ok (-1, s)
       | Some (_, f) \<Rightarrow>
           bind_res (argptr 1 20 s) (\<lambda>p.
             case p of
               None \<Rightarrow> Ok (-1, s)
             | Some p \<Rightarrow>
                 bind_res (filestat f s) (\<lambda>(r, st, s).
                   case st of
                     None \<Rightarrow> Ok (r, s)
                   | Some st \<Rightarrow> bind_res (store_stat p st s) (\<lambda>s. Ok (r, s)))))"

section \<open>Links\<close>

text \<open>The entries of directory \<open>dp\<close> from \<open>off\<close> on are unused.\<close>

function isdirempty_from :: "nat \<Rightarrow> nat \<Rightarrow> nat \<Rightarrow> 'z kst_scheme \<Rightarrow> (bool \<times> 'z kst_scheme) res" where
  "isdirempty_from dp dsize off s =
     (if off < dsize then
        bind_res (readi dp off DIRENT_SIZE s) (\<lambda>(r, de, s).
          if r \<noteq> int DIRENT_SIZE then Panic ''isdirempty: readi''
          else if ld16 0 de \<noteq> 0 then Ok (False, s)
          else isdirempty_from dp dsize (off + DIRENT_SIZE) s)
      else Ok (True, s))"
  by pat_completeness auto
termination
  by (relation "measure (\<lambda>(dp, dsize, off, s). dsize - off)") (auto simp: DIRENT_SIZE_def)

declare isdirempty_from.simps [simp del]

definition isdirempty :: "nat \<Rightarrow> 'z kst_scheme \<Rightarrow> (bool \<times> 'z kst_scheme) res" where
  "isdirempty dp s = isdirempty_from dp (i_size (get_inode s dp)) (2 * DIRENT_SIZE) s"

text \<open>\<^verbatim>\<open>proc->cwd\<close>; a process without one has no inode there.\<close>

definition cwd :: "'z kst_scheme \<Rightarrow> nat" where
  "cwd s = (case p_cwd (cur s) of Some i \<Rightarrow> i | None \<Rightarrow> length (fs_inode s))"

definition add_nlink :: "nat \<Rightarrow> int \<Rightarrow> 'z kst_scheme \<Rightarrow> 'z kst_scheme" where
  "add_nlink i d s = upd_inode i (\<lambda>ip. ip\<lparr>i_nlink := nat ((int (i_nlink ip) + d) mod 2 ^ 16)\<rparr>) s"

text \<open>A call that ends its transaction and returns \<open>r\<close>.\<close>

definition end_ret :: "'r \<Rightarrow> 'z kst_scheme \<Rightarrow> ('r \<times> 'z kst_scheme) res" where
  "end_ret r s = bind_res (end_op s) (\<lambda>s. Ok (r, s))"

definition link_bad :: "nat \<Rightarrow> 'z kst_scheme \<Rightarrow> (int \<times> 'z kst_scheme) res" where
  "link_bad ip s =
     bind_res (ilock ip s) (\<lambda>s.
     bind_res (iupdate ip (add_nlink ip (-1) s)) (\<lambda>s.
     bind_res (iunlockput ip s) (end_ret (-1))))"

text \<open>\<^verbatim>\<open>sys_link\<close> once both paths have been fetched.\<close>

definition link_paths :: "byte list \<Rightarrow> byte list \<Rightarrow> 'z kst_scheme \<Rightarrow> (int \<times> 'z kst_scheme) res" where
  "link_paths old new s =
     bind_res (begin_op s) (\<lambda>s.
     bind_res (namei (cwd s) old s) (\<lambda>(ip, s).
       case ip of
         None \<Rightarrow> end_ret (-1) s
       | Some ip \<Rightarrow>
           bind_res (ilock ip s) (\<lambda>s.
             if i_type (get_inode s ip) = T_DIR then bind_res (iunlockput ip s) (end_ret (-1))
             else
               bind_res (iupdate ip (add_nlink ip 1 s)) (\<lambda>s.
               bind_res (iunlock ip s) (\<lambda>s.
               bind_res (nameiparent (cwd s) new (replicate DIRSIZ 0) s) (\<lambda>(dp, name, s).
                 case dp of
                   None \<Rightarrow> link_bad ip s
                 | Some dp \<Rightarrow>
                     bind_res (ilock dp s) (\<lambda>s.
                     bind_res (if i_dev (get_inode s dp) \<noteq> i_dev (get_inode s ip) then Ok (-1, s)
                               else dirlink dp name (i_inum (get_inode s ip)) s) (\<lambda>(r, s).
                       if r < 0 then bind_res (iunlockput dp s) (link_bad ip)
                       else
                         bind_res (iunlockput dp s) (\<lambda>s.
                         bind_res (iput ip s) (end_ret 0))))))))))"

definition sys_link :: "'z kst_scheme \<Rightarrow> (int \<times> 'z kst_scheme) res" where
  "sys_link s =
     bind_res (argstr 0 s) (\<lambda>old.
       case old of None \<Rightarrow> Ok (-1, s) | Some old \<Rightarrow>
     bind_res (argstr 1 s) (\<lambda>new.
       case new of None \<Rightarrow> Ok (-1, s) | Some new \<Rightarrow> link_paths old new s))"

definition unlink_bad :: "nat \<Rightarrow> 'z kst_scheme \<Rightarrow> (int \<times> 'z kst_scheme) res" where
  "unlink_bad dp s = bind_res (iunlockput dp s) (end_ret (-1))"

definition dot :: "byte list" where "dot = [46]"
definition dotdot :: "byte list" where "dotdot = [46, 46]"

definition sys_unlink :: "'z kst_scheme \<Rightarrow> (int \<times> 'z kst_scheme) res" where
  "sys_unlink s =
     bind_res (argstr 0 s) (\<lambda>path.
       case path of
         None \<Rightarrow> Ok (-1, s)
       | Some path \<Rightarrow>
           bind_res (begin_op s) (\<lambda>s.
           bind_res (nameiparent (cwd s) path (replicate DIRSIZ 0) s) (\<lambda>(dp, name, s).
             case dp of
               None \<Rightarrow> end_ret (-1) s
             | Some dp \<Rightarrow>
                 bind_res (ilock dp s) (\<lambda>s.
                   if namecmp name dot = 0 \<or> namecmp name dotdot = 0 then unlink_bad dp s
                   else
                     bind_res (dirlookup dp name s) (\<lambda>(found, s).
                       case found of
                         None \<Rightarrow> unlink_bad dp s
                       | Some (ip, off) \<Rightarrow>
                           bind_res (ilock ip s) (\<lambda>s.
                             if int16 (i_nlink (get_inode s ip)) < 1 then Panic ''unlink: nlink < 1''
                             else
                               bind_res (if i_type (get_inode s ip) = T_DIR then isdirempty ip s else Ok (True, s)) (\<lambda>(em, s).
                                 if \<not> em then bind_res (iunlockput ip s) (unlink_bad dp)
                                 else
                                   bind_res (writei dp (replicate DIRENT_SIZE 0) off DIRENT_SIZE s) (\<lambda>(r, s).
                                     if r \<noteq> int DIRENT_SIZE then Panic ''unlink: writei''
                                     else
                                       bind_res (if i_type (get_inode s ip) = T_DIR then iupdate dp (add_nlink dp (-1) s) else Ok s) (\<lambda>s.
                                       bind_res (iunlockput dp s) (\<lambda>s.
                                       bind_res (iupdate ip (add_nlink ip (-1) s)) (\<lambda>s.
                                       bind_res (iunlockput ip s) (end_ret 0)))))))))))) "

section \<open>Creating and opening\<close>

text \<open>The entries \<^verbatim>\<open>.\<close> and \<^verbatim>\<open>..\<close> of a new directory \<open>ip\<close> in \<open>dp\<close>.\<close>

definition create_dots :: "nat \<Rightarrow> nat \<Rightarrow> 'z kst_scheme \<Rightarrow> 'z kst_scheme res" where
  "create_dots dp ip s =
     bind_res (iupdate dp (add_nlink dp 1 s)) (\<lambda>s.
     bind_res (dirlink ip dot (i_inum (get_inode s ip)) s) (\<lambda>(r, s).
       if r < 0 then Panic ''create dots''
       else bind_res (dirlink ip dotdot (i_inum (get_inode s dp)) s) (\<lambda>(r, s).
         if r < 0 then Panic ''create dots'' else Ok s)))"

text \<open>
  The result is a locked inode, if any. \<open>major\<close> and \<open>minor\<close> are \<^verbatim>\<open>short\<close> parameters.
\<close>

definition create :: "byte list \<Rightarrow> nat \<Rightarrow> nat \<Rightarrow> nat \<Rightarrow> 'z kst_scheme \<Rightarrow> (nat option \<times> 'z kst_scheme) res" where
  "create path type major minor s =
     bind_res (nameiparent (cwd s) path (replicate DIRSIZ 0) s) (\<lambda>(dp, name, s).
       case dp of
         None \<Rightarrow> Ok (None, s)
       | Some dp \<Rightarrow>
           bind_res (ilock dp s) (\<lambda>s.
           bind_res (dirlookup dp name s) (\<lambda>(found, s).
             case found of
               Some (ip, _) \<Rightarrow>
                 bind_res (iunlockput dp s) (\<lambda>s.
                 bind_res (ilock ip s) (\<lambda>s.
                   if type = T_FILE \<and> i_type (get_inode s ip) = T_FILE then Ok (Some ip, s)
                   else bind_res (iunlockput ip s) (\<lambda>s. Ok (None, s))))
             | None \<Rightarrow>
                 bind_res (ialloc (i_dev (get_inode s dp)) type s) (\<lambda>(ip, s).
                 bind_res (ilock ip s) (\<lambda>s.
                 bind_res (iupdate ip (upd_inode ip (\<lambda>x. x\<lparr>i_major := major, i_minor := minor, i_nlink := 1\<rparr>) s)) (\<lambda>s.
                 bind_res (if type = T_DIR then create_dots dp ip s else Ok s) (\<lambda>s.
                 bind_res (dirlink dp name (i_inum (get_inode s ip)) s) (\<lambda>(r, s).
                   if r < 0 then Panic ''create: dirlink''
                   else bind_res (iunlockput dp s) (\<lambda>s. Ok (Some ip, s))))))))))"

definition flag :: "int \<Rightarrow> 32 word \<Rightarrow> bool" where
  "flag omode f \<longleftrightarrow> (of_int omode :: 32 word) AND f \<noteq> 0"

definition O_WRONLY :: "32 word" where "O_WRONLY = 1"
definition O_RDWR :: "32 word" where "O_RDWR = 2"
definition O_CREATE :: "32 word" where "O_CREATE = 0x200"

text \<open>The inode that \<^verbatim>\<open>sys_open\<close> opens, locked; without one the transaction has been ended.\<close>

definition open_inode :: "byte list \<Rightarrow> int \<Rightarrow> 'z kst_scheme \<Rightarrow> (nat option \<times> 'z kst_scheme) res" where
  "open_inode path omode s =
     (if flag omode O_CREATE then
        bind_res (create path T_FILE 0 0 s) (\<lambda>(ip, s).
          case ip of None \<Rightarrow> end_ret None s | Some ip \<Rightarrow> Ok (Some ip, s))
      else
        bind_res (namei (cwd s) path s) (\<lambda>(ip, s).
          case ip of
            None \<Rightarrow> end_ret None s
          | Some ip \<Rightarrow>
              bind_res (ilock ip s) (\<lambda>s.
                if i_type (get_inode s ip) = T_DIR \<and> omode \<noteq> 0 then bind_res (iunlockput ip s) (end_ret None)
                else Ok (Some ip, s))))"

definition sys_open :: "'z kst_scheme \<Rightarrow> (int \<times> 'z kst_scheme) res" where
  "sys_open s =
     bind_res (argstr 0 s) (\<lambda>path.
       case path of
         None \<Rightarrow> Ok (-1, s)
       | Some path \<Rightarrow>
           bind_res (argint 1 s) (\<lambda>omode.
           bind_res (begin_op s) (\<lambda>s.
           bind_res (open_inode path omode s) (\<lambda>(ip, s).
             case ip of
               None \<Rightarrow> Ok (-1, s)
             | Some ip \<Rightarrow>
                 (case filealloc s of
                    (None, s) \<Rightarrow> bind_res (iunlockput ip s) (end_ret (-1))
                  | (Some f, s) \<Rightarrow>
                      (case fdalloc f s of (fd, s) \<Rightarrow>
                         if fd < 0 then
                           bind_res (fileclose f s) (\<lambda>s. bind_res (iunlockput ip s) (end_ret (-1)))
                         else
                           bind_res (iunlock ip s) (\<lambda>s.
                           bind_res (end_op s) (\<lambda>s.
                           Ok (fd, upd_file f (\<lambda>x. x\<lparr>f_type := FD_INODE, f_ip := ip, f_off := 0,
                                     f_readable := \<not> flag omode O_WRONLY,
                                     f_writable := flag omode O_WRONLY \<or> flag omode O_RDWR,
                                     f_dev_payload := 0\<rparr>) s)))))))))"

definition sys_mkdir :: "'z kst_scheme \<Rightarrow> (int \<times> 'z kst_scheme) res" where
  "sys_mkdir s =
     bind_res (begin_op s) (\<lambda>s.
     bind_res (argstr 0 s) (\<lambda>path.
       case path of
         None \<Rightarrow> end_ret (-1) s
       | Some path \<Rightarrow>
           bind_res (create path T_DIR 0 0 s) (\<lambda>(ip, s).
             case ip of
               None \<Rightarrow> end_ret (-1) s
             | Some ip \<Rightarrow> bind_res (iunlockput ip s) (end_ret 0))))"

definition sys_mknod :: "'z kst_scheme \<Rightarrow> (int \<times> 'z kst_scheme) res" where
  "sys_mknod s =
     bind_res (begin_op s) (\<lambda>s.
     bind_res (argstr 0 s) (\<lambda>path.
       case path of
         None \<Rightarrow> end_ret (-1) s
       | Some path \<Rightarrow>
           bind_res (argint 1 s) (\<lambda>major.
           bind_res (argint 2 s) (\<lambda>minor.
           bind_res (create path T_DEV (nat (major mod 2 ^ 16)) (nat (minor mod 2 ^ 16)) s) (\<lambda>(ip, s).
             case ip of
               None \<Rightarrow> end_ret (-1) s
             | Some ip \<Rightarrow> bind_res (iunlockput ip s) (end_ret 0))))))"

definition sys_chdir :: "'z kst_scheme \<Rightarrow> (int \<times> 'z kst_scheme) res" where
  "sys_chdir s =
     bind_res (begin_op s) (\<lambda>s.
     bind_res (argstr 0 s) (\<lambda>path.
       case path of
         None \<Rightarrow> end_ret (-1) s
       | Some path \<Rightarrow>
           bind_res (namei (cwd s) path s) (\<lambda>(ip, s).
             case ip of
               None \<Rightarrow> end_ret (-1) s
             | Some ip \<Rightarrow>
                 bind_res (ilock ip s) (\<lambda>s.
                   if i_type (get_inode s ip) \<noteq> T_DIR then bind_res (iunlockput ip s) (end_ret (-1))
                   else
                     bind_res (iunlock ip s) (\<lambda>s.
                     bind_res (iput (cwd s) s) (\<lambda>s.
                     bind_res (end_op s) (\<lambda>s.
                     Ok (0, upd_cur (\<lambda>p. p\<lparr>p_cwd := Some ip\<rparr>) s))))))))"

section \<open>Pipes, seeking\<close>

definition sys_pipe :: "'z kst_scheme \<Rightarrow> (int \<times> 'z kst_scheme) res" where
  "sys_pipe s =
     bind_res (argptr 0 8 s) (\<lambda>fd.
       case fd of
         None \<Rightarrow> Ok (-1, s)
       | Some fd \<Rightarrow>
           bind_res (pipealloc s) (\<lambda>(fs, s).
             case fs of
               None \<Rightarrow> Ok (-1, s)
             | Some (rfl, wfl) \<Rightarrow>
                 (case fdalloc rfl s of (fd0, s) \<Rightarrow>
                    if fd0 < 0 then
                      bind_res (fileclose rfl s) (\<lambda>s. bind_res (fileclose wfl s) (\<lambda>s. Ok (-1, s)))
                    else
                      (case fdalloc wfl s of (fd1, s) \<Rightarrow>
                         if fd1 < 0 then
                           bind_res (fileclose rfl (clear_fd (nat fd0) s)) (\<lambda>s. bind_res (fileclose wfl s) (\<lambda>s. Ok (-1, s)))
                         else
                           bind_res (store_user fd (le_bytes 4 (uint32 fd0) @ le_bytes 4 (uint32 fd1)) s) (\<lambda>s.
                           Ok (0, s))))))"

definition sys_fseek :: "'z kst_scheme \<Rightarrow> (int \<times> 'z kst_scheme) res" where
  "sys_fseek s =
     bind_res (argfd 0 s) (\<lambda>a.
       case a of
         None \<Rightarrow> Ok (-1, s)
       | Some (_, f) \<Rightarrow>
           bind_res (argint 1 s) (\<lambda>offset.
           bind_res (argint 2 s) (\<lambda>position.
           fileseek f offset position s)))"

text \<open>\<open>consoleinput\<close> is the console's entry point for a string of characters.\<close>

definition sys_kbddecoy :: "(byte list \<Rightarrow> 'z kst_scheme \<Rightarrow> 'z kst_scheme) \<Rightarrow> 'z kst_scheme \<Rightarrow> (int \<times> 'z kst_scheme) res" where
  "sys_kbddecoy consoleinput s =
     bind_res (argstr 0 s) (\<lambda>str. case str of None \<Rightarrow> Ok (-1, s) | Some str \<Rightarrow> Ok (0, consoleinput str s))"

section \<open>The current directory\<close>

text \<open>The name of the first entry of \<open>parent\<close> for inode \<open>inum\<close>, as the 14 bytes of its field.\<close>

function getcwd_find :: "nat \<Rightarrow> nat \<Rightarrow> nat \<Rightarrow> nat \<Rightarrow> 'z kst_scheme \<Rightarrow> (byte list option \<times> 'z kst_scheme) res" where
  "getcwd_find parent inum dsize off s =
     (if off < dsize then
        bind_res (readi parent off DIRENT_SIZE s) (\<lambda>(r, de, s).
          if r \<noteq> int DIRENT_SIZE then Ok (None, s)
          else if ld16 0 de = inum then Ok (Some (slice 2 DIRSIZ de), s)
          else getcwd_find parent inum dsize (off + DIRENT_SIZE) s)
      else Ok (None, s))"
  by pat_completeness auto
termination
  by (relation "measure (\<lambda>(parent, inum, dsize, off, s). dsize - off)") (auto simp: DIRENT_SIZE_def)

text \<open>
  The loop up to the root. \<open>path\<close> is what has been stored at the end of \<^verbatim>\<open>tmp\<close> so far, so \<^verbatim>\<open>pos\<close> is 511 less
  its length. Every round adds at least a slash, which bounds the number of rounds. A name of
  14 characters has no terminating NUL and \<^verbatim>\<open>strlen\<close> runs past it.
\<close>

function getcwd_loop :: "nat \<Rightarrow> byte list \<Rightarrow> 'z kst_scheme \<Rightarrow> (byte list option \<times> 'z kst_scheme) res" where
  "getcwd_loop dir path s =
     bind_res (ilock dir s) (\<lambda>s.
       let cur_inum = i_inum (get_inode s dir) in
       bind_res (dirlookup dir dotdot s) (\<lambda>(parent, s).
       bind_res (iunlock dir s) (\<lambda>s.
         case parent of
           None \<Rightarrow> bind_res (iput dir s) (\<lambda>s. Ok (None, s))
         | Some (parent, _) \<Rightarrow>
             bind_res (ilock parent s) (\<lambda>s.
               if cur_inum = i_inum (get_inode s parent) then
                 bind_res (iunlock parent s) (\<lambda>s.
                 bind_res (iput parent s) (\<lambda>s.
                 bind_res (iput dir s) (\<lambda>s. Ok (Some path, s))))
               else
                 bind_res (getcwd_find parent cur_inum (i_size (get_inode s parent)) 0 s) (\<lambda>(de, s).
                 bind_res (iunlock parent s) (\<lambda>s.
                   case de of
                     None \<Rightarrow> bind_res (iput parent s) (\<lambda>s. bind_res (iput dir s) (\<lambda>s. Ok (None, s)))
                   | Some name \<Rightarrow>
                       if 0 \<notin> set name then Fault ''getcwd: strlen past the name''
                       else if 511 - length path < length (cstr name) + 1 then
                         bind_res (iput parent s) (\<lambda>s. bind_res (iput dir s) (\<lambda>s. Ok (None, s)))
                       else
                         bind_res (iput dir s) (getcwd_loop parent (slash # cstr name @ path))))))))"
  by pat_completeness auto
termination
  by (relation "measure (\<lambda>(dir, path, s). 511 - length path)") auto

declare getcwd_find.simps [simp del] getcwd_loop.simps [simp del]

definition sys_getcwd :: "'z kst_scheme \<Rightarrow> (int \<times> 'z kst_scheme) res" where
  "sys_getcwd s =
     bind_res (argint 1 s) (\<lambda>sz.
     bind_res (argptr 0 sz s) (\<lambda>buf.
       case buf of
         None \<Rightarrow> Ok (-1, s)
       | Some buf \<Rightarrow>
           (case idup (cwd s) s of (dir, s) \<Rightarrow>
              bind_res (getcwd_loop dir [] s) (\<lambda>(path, s).
                case path of
                  None \<Rightarrow> Ok (-1, s)
                | Some path \<Rightarrow>
                    let result = (if path = [] then [slash] else path) in
                    if int (length result) + 1 > sz then Ok (-1, s)
                    else bind_res (store_user buf (strncpy_bytes result (nat sz)) s) (\<lambda>s. Ok (0, s))))))"

end
