(* ===== verification/Proc.thy ===== *)
theory Proc
  imports Sysfile
begin

text \<open>
  \<^verbatim>\<open>src/proc.c\<close> and \<^verbatim>\<open>src/sysproc.c\<close>: the process table, the scheduler, sleeping and waking. A function
  that gives up the CPU is modelled up to the context switch in \<^verbatim>\<open>sched\<close>; what it does after being
  scheduled again is a function of its own. The addresses in a new process's kernel stack are
  not modelled, except that its context starts at \<^verbatim>\<open>forkret\<close>.
\<close>

section \<open>The lock of the table\<close>

definition acquire_ptable :: "'z kst_scheme \<Rightarrow> 'z kst_scheme res" where
  "acquire_ptable s = (if k_ptlock s then Panic ''acquire'' else Ok (s\<lparr>k_ptlock := True, k_ncli := k_ncli s + 1\<rparr>))"

definition release_ptable :: "'z kst_scheme \<Rightarrow> 'z kst_scheme res" where
  "release_ptable s = (if \<not> k_ptlock s then Panic ''release'' else Ok (s\<lparr>k_ptlock := False, k_ncli := k_ncli s - 1\<rparr>))"

section \<open>Allocating processes\<close>

definition claim_proc :: "int \<Rightarrow> proc \<Rightarrow> proc" where
  "claim_proc pid p = p\<lparr>p_state := EMBRYO, p_pid := pid\<rparr>"

definition alloc_proc_slot :: "int \<Rightarrow> proc list \<Rightarrow> (nat \<times> proc list) option" where
  "alloc_proc_slot pid ps = (case first_idx (\<lambda>p. p_state p = UNUSED) ps of
     None \<Rightarrow> None | Some i \<Rightarrow> Some (i, ps[i := claim_proc pid (ps ! i)]))"

definition allocproc :: "'z kst_scheme \<Rightarrow> (nat option \<times> 'z kst_scheme) res" where
  "allocproc s =
     bind_res (acquire_ptable s) (\<lambda>s.
       case alloc_proc_slot (k_nextpid s) (k_proc s) of
         None \<Rightarrow> bind_res (release_ptable s) (\<lambda>s. Ok (None, s))
       | Some (i, ps) \<Rightarrow>
           bind_res (release_ptable (s\<lparr>k_proc := ps, k_nextpid := int32 (k_nextpid s + 1)\<rparr>)) (\<lambda>s.
           bind_res (kalloc (k_mm s)) (\<lambda>(stack, m).
             let s = upd_proc i (\<lambda>p. p\<lparr>p_kstack := stack\<rparr>) (s\<lparr>k_mm := m\<rparr>) in
             if stack = 0 then Ok (None, upd_proc i (\<lambda>p. p\<lparr>p_state := UNUSED\<rparr>) s)
             else Ok (Some i, upd_proc i (\<lambda>p. p\<lparr>p_context := AtForkret\<rparr>) s))))"

definition zero_tf :: trapframe where
  "zero_tf = \<lparr>tf_rax = 0, tf_rbx = 0, tf_rcx = 0, tf_rdx = 0, tf_rbp = 0, tf_rsi = 0, tf_rdi = 0, tf_r8 = 0,
     tf_r9 = 0, tf_r10 = 0, tf_r11 = 0, tf_r12 = 0, tf_r13 = 0, tf_r14 = 0, tf_r15 = 0, tf_trapno = 0,
     tf_err = 0, tf_rip = 0, tf_cs = 0, tf_rflags = 0, tf_rsp = 0, tf_ss = 0\<rparr>"

text \<open>\<^verbatim>\<open>safestrcpy\<close> into the 16 bytes of \<^verbatim>\<open>p->name\<close>: the string that is there afterwards.\<close>

definition proc_name :: "byte list \<Rightarrow> byte list" where
  "proc_name t = take 15 (cstr t)"

definition initcode_name :: "byte list" where
  "initcode_name = [105, 110, 105, 116, 99, 111, 100, 101]"

text \<open>\<open>initcode\<close> is the program that the build links into the kernel.\<close>

definition userinit :: "byte list \<Rightarrow> 'z kst_scheme \<Rightarrow> 'z kst_scheme res" where
  "userinit initcode s =
     bind_res (allocproc s) (\<lambda>(p, s).
       case p of
         None \<Rightarrow> Fault ''userinit: null process''
       | Some p \<Rightarrow>
           bind_res (setupkvm (k_mm s)) (\<lambda>(pgdir, m).
             let s = upd_proc p (\<lambda>x. x\<lparr>p_pgdir := pgdir\<rparr>) (s\<lparr>k_mm := m, k_initproc := p\<rparr>) in
             if pgdir = 0 then Panic ''userinit: out of memory?''
             else
               bind_res (inituvm pgdir initcode (k_mm s)) (\<lambda>m.
               let s = upd_proc p (\<lambda>x. x\<lparr>p_sz := of_nat (2 * PGSIZE),
                         p_tf := zero_tf\<lparr>tf_r11 := 0x200, tf_rsp := of_nat (2 * PGSIZE), tf_rcx := of_nat PGSIZE\<rparr>,
                         p_name := proc_name initcode_name\<rparr>) (s\<lparr>k_mm := m\<rparr>) in
               bind_res (namei (cwd s) [slash] s) (\<lambda>(ip, s).
               Ok (upd_proc p (\<lambda>x. x\<lparr>p_cwd := ip, p_state := RUNNABLE\<rparr>) s)))))"

definition growproc :: "addr_t \<Rightarrow> 'z kst_scheme \<Rightarrow> (int \<times> 'z kst_scheme) res" where
  "growproc n s =
     (let sz = p_sz (cur s); pgdir = p_pgdir (cur s) in
      bind_res
        (if sint n > 0 then bind_res (allocuvm (k_end s) pgdir sz (sz + n) (k_mm s)) (\<lambda>(sz, m). Ok (sz, sz = 0, m))
         else if sint n < 0 then bind_res (deallocuvm (k_end s) pgdir sz (sz + n) (k_mm s)) (\<lambda>(sz, m). Ok (sz, sz = 0, m))
         else Ok (sz, False, k_mm s)) (\<lambda>(sz, failed, m).
        let s = s\<lparr>k_mm := m\<rparr> in
        if failed then Ok (-1, s)
        else let s = upd_cur (\<lambda>p. p\<lparr>p_sz := sz\<rparr>) s in
          bind_res (switchuvm pgdir (p_kstack (cur s)) (k_mm s)) (\<lambda>m. Ok (0, s\<lparr>k_mm := m\<rparr>))))"

section \<open>Fork\<close>

text \<open>The loop over the descriptors of the parent.\<close>

definition fork_fd :: "nat \<Rightarrow> nat \<Rightarrow> 'z kst_scheme \<Rightarrow> 'z kst_scheme res" where
  "fork_fd np fd s =
     (case p_ofile (cur s) ! fd of
        None \<Rightarrow> Ok s
      | Some f \<Rightarrow> bind_res (filedup f s) (\<lambda>s. Ok (upd_proc np (\<lambda>p. p\<lparr>p_ofile := (p_ofile p)[fd := Some f]\<rparr>) s)))"

definition fork :: "'z kst_scheme \<Rightarrow> (int \<times> 'z kst_scheme) res" where
  "fork s =
     bind_res (allocproc s) (\<lambda>(np, s).
       case np of
         None \<Rightarrow> Ok (-1, s)
       | Some np \<Rightarrow>
           bind_res (copyuvm (k_end s) (p_pgdir (cur s)) (ucast (p_sz (cur s))) (k_mm s)) (\<lambda>(d, m).
             let s = upd_proc np (\<lambda>p. p\<lparr>p_pgdir := d\<rparr>) (s\<lparr>k_mm := m\<rparr>) in
             if d = 0 then
               bind_res (kfree (k_end s) (p_kstack (get_proc s np)) (k_mm s)) (\<lambda>m.
               Ok (-1, upd_proc np (\<lambda>p. p\<lparr>p_kstack := 0, p_state := UNUSED\<rparr>) (s\<lparr>k_mm := m\<rparr>)))
             else
               let s = upd_proc np (\<lambda>p. p\<lparr>p_sz := p_sz (cur s), p_parent := Some (k_cur s),
                         p_tf := (p_tf (cur s))\<lparr>tf_rax := 0\<rparr>\<rparr>) s in
               bind_res (fold_res (fork_fd np) [0..<NOFILE] s) (\<lambda>s.
               let s = snd (idup (cwd s) s);
                   s = upd_proc np (\<lambda>p. p\<lparr>p_cwd := p_cwd (cur s), p_name := proc_name (p_name (cur s))\<rparr>) s;
                   pid = p_pid (get_proc s np)
               in Ok (pid, upd_proc np (\<lambda>p. p\<lparr>p_state := RUNNABLE\<rparr>) s))))"

section \<open>Giving up the CPU\<close>

text \<open>The checks of \<^verbatim>\<open>sched\<close>; with a nesting depth of 1 interrupts are off.\<close>

definition sched :: "'z kst_scheme \<Rightarrow> 'z kst_scheme res" where
  "sched s =
     (if \<not> k_ptlock s then Panic ''sched ptable.lock''
      else if k_ncli s \<noteq> 1 then Panic ''sched locks''
      else if p_state (cur s) = RUNNING then Panic ''sched running''
      else Ok s)"

text \<open>\<^verbatim>\<open>yield\<close> up to the switch.\<close>

definition yield :: "'z kst_scheme \<Rightarrow> 'z kst_scheme res" where
  "yield s = bind_res (acquire_ptable s) (\<lambda>s. sched (upd_cur (\<lambda>p. p\<lparr>p_state := RUNNABLE\<rparr>) s))"

text \<open>
  \<^verbatim>\<open>sleep\<close> up to the switch. \<open>own\<close>: the lock passed is \<^verbatim>\<open>ptable.lock\<close> itself; any other lock is
  released after \<^verbatim>\<open>ptable.lock\<close> has been taken. The second part runs after the switch back.
\<close>

definition sleep :: "chan \<Rightarrow> bool \<Rightarrow> 'z kst_scheme \<Rightarrow> 'z kst_scheme res" where
  "sleep c own s =
     (if k_cur s \<ge> length (k_proc s) then Panic ''sleep''
      else bind_res (if own then Ok s else bind_res (acquire_ptable s) (\<lambda>s. Ok (s\<lparr>k_ncli := k_ncli s - 1\<rparr>))) (\<lambda>s.
        sched (upd_cur (\<lambda>p. p\<lparr>p_chan := Some c, p_state := SLEEPING\<rparr>) s)))"

definition sleep_return :: "bool \<Rightarrow> 'z kst_scheme \<Rightarrow> 'z kst_scheme res" where
  "sleep_return own s =
     (let s = upd_cur (\<lambda>p. p\<lparr>p_chan := None\<rparr>) s in
      if own then Ok s else bind_res (release_ptable s) (\<lambda>s. Ok (s\<lparr>k_ncli := k_ncli s + 1\<rparr>)))"

text \<open>A child's first steps in the kernel.\<close>

definition forkret :: "'z kst_scheme \<Rightarrow> 'z kst_scheme res" where
  "forkret s =
     bind_res (release_ptable s) (\<lambda>s.
       if k_first s then bind_res (iinit ROOTDEV (s\<lparr>k_first := False\<rparr>)) (initlog ROOTDEV)
       else Ok s)"

section \<open>Exit and wait\<close>

definition exit_fd :: "nat \<Rightarrow> 'z kst_scheme \<Rightarrow> 'z kst_scheme res" where
  "exit_fd fd s =
     (case p_ofile (cur s) ! fd of
        None \<Rightarrow> Ok s
      | Some f \<Rightarrow> bind_res (fileclose f s) (\<lambda>s. Ok (clear_fd fd s)))"

text \<open>Process \<open>i\<close> of the loop that hands children to \<^verbatim>\<open>initproc\<close>.\<close>

definition reparent :: "nat \<Rightarrow> nat \<Rightarrow> nat \<Rightarrow> proc list \<Rightarrow> proc list" where
  "reparent me init i ps =
     (if p_parent (ps ! i) = Some me then
        let ps = ps[i := (ps ! i)\<lparr>p_parent := Some init\<rparr>] in
        if p_state (ps ! i) = ZOMBIE then wakeup1 (ChanProc init) ps else ps
      else ps)"

text \<open>\<^verbatim>\<open>exit\<close> up to the switch, from which it does not return.\<close>

definition exit :: "'z kst_scheme \<Rightarrow> 'z kst_scheme res" where
  "exit s =
     (if k_cur s = k_initproc s then Panic ''init exiting''
      else
        bind_res (fold_res exit_fd [0..<NOFILE] s) (\<lambda>s.
        bind_res (begin_op s) (\<lambda>s.
        bind_res (iput (cwd s) s) (\<lambda>s.
        bind_res (end_op s) (\<lambda>s.
        bind_res (acquire_ptable (upd_cur (\<lambda>p. p\<lparr>p_cwd := None\<rparr>) s)) (\<lambda>s.
          let ps = (case p_parent (cur s) of None \<Rightarrow> k_proc s | Some pp \<Rightarrow> wakeup1 (ChanProc pp) (k_proc s));
              ps = fold (reparent (k_cur s) (k_initproc s)) [0..<length ps] ps
          in sched (upd_cur (\<lambda>p. p\<lparr>p_state := ZOMBIE\<rparr>) (s\<lparr>k_proc := ps\<rparr>))))))))"

text \<open>
  The first child of \<open>me\<close> that has exited, and whether there are children at all, as one scan of
  \<^verbatim>\<open>wait\<close> finds them.
\<close>

definition wait_scan :: "nat \<Rightarrow> proc list \<Rightarrow> nat option \<times> bool" where
  "wait_scan me ps =
     (first_idx (\<lambda>p. p_parent p = Some me \<and> p_state p = ZOMBIE) ps, \<exists>p \<in> set ps. p_parent p = Some me)"

text \<open>One round of the loop of \<^verbatim>\<open>wait\<close>, which holds \<^verbatim>\<open>ptable.lock\<close>.\<close>

definition wait_round :: "'z kst_scheme \<Rightarrow> (sysret \<times> 'z kst_scheme) res" where
  "wait_round s =
     (case wait_scan (k_cur s) (k_proc s) of
        (Some i, _) \<Rightarrow>
          let p = get_proc s i in
          bind_res (kfree (k_end s) (p_kstack p) (k_mm s)) (\<lambda>m.
          bind_res (freevm (k_end s) (p_pgdir p) m) (\<lambda>m.
          bind_res (release_ptable (upd_proc i (\<lambda>p. p\<lparr>p_kstack := 0, p_pid := 0, p_parent := None, p_name := [],
                       p_killed := False, p_state := UNUSED\<rparr>) (s\<lparr>k_mm := m\<rparr>))) (\<lambda>s.
          Ok (Ret (p_pid p), s))))
      | (None, havekids) \<Rightarrow>
          if \<not> havekids \<or> p_killed (cur s) then bind_res (release_ptable s) (\<lambda>s. Ok (Ret (-1), s))
          else bind_res (sleep (ChanProc (k_cur s)) True s) (\<lambda>s. Ok (Blocked (ChanProc (k_cur s)), s)))"

definition wait :: "'z kst_scheme \<Rightarrow> (sysret \<times> 'z kst_scheme) res" where
  "wait s = bind_res (acquire_ptable s) wait_round"

section \<open>The scheduler\<close>

text \<open>
  The scan of \<^verbatim>\<open>scheduler\<close> over the rest of the table from \<open>i\<close> on: the next process to run and the new
  value of \<^verbatim>\<open>skipped\<close>. Between two calls the process that was chosen has run and has switched back.
\<close>

function sched_scan :: "nat \<Rightarrow> nat \<Rightarrow> proc list \<Rightarrow> nat option \<times> nat" where
  "sched_scan i skipped ps =
     (if i < length ps then
        if p_state (ps ! i) \<noteq> RUNNABLE then sched_scan (Suc i) (Suc skipped) ps else (Some i, 0)
      else (None, skipped))"
  by pat_completeness auto
termination
  by (relation "measure (\<lambda>(i, skipped, ps). length ps - i)") auto

declare sched_scan.simps [simp del]

definition dispatch :: "nat \<Rightarrow> 'z kst_scheme \<Rightarrow> 'z kst_scheme res" where
  "dispatch i s =
     bind_res (switchuvm (p_pgdir (get_proc s i)) (p_kstack (get_proc s i)) (k_mm s)) (\<lambda>m.
     Ok (upd_proc i (\<lambda>p. p\<lparr>p_state := RUNNING\<rparr>) (s\<lparr>k_cur := i, k_mm := m\<rparr>)))"

text \<open>What the scheduler does when control comes back to it.\<close>

definition undispatch :: "'z kst_scheme \<Rightarrow> 'z kst_scheme" where
  "undispatch s = s\<lparr>k_mm := switchkvm (k_mm s), k_cur := length (k_proc s)\<rparr>"

text \<open>The end of a pass: the CPU halts when it has skipped more than \<^verbatim>\<open>NPROC\<close> processes in a row.\<close>

definition pass_end :: "nat \<Rightarrow> bool \<times> nat" where
  "pass_end skipped = (if skipped > NPROC then (True, 0) else (False, skipped))"

section \<open>Kill\<close>

definition kill :: "int \<Rightarrow> 'z kst_scheme \<Rightarrow> (int \<times> 'z kst_scheme) res" where
  "kill pid s =
     bind_res (acquire_ptable s) (\<lambda>s.
       case first_idx (\<lambda>p. p_pid p = pid) (k_proc s) of
         Some i \<Rightarrow>
           bind_res (release_ptable (upd_proc i (\<lambda>p. p\<lparr>p_killed := True,
               p_state := if p_state p = SLEEPING then RUNNABLE else p_state p\<rparr>) s)) (\<lambda>s. Ok (0, s))
       | None \<Rightarrow> bind_res (release_ptable s) (\<lambda>s. Ok (-1, s)))"

section \<open>System calls\<close>

definition sys_kill :: "'z kst_scheme \<Rightarrow> (int \<times> 'z kst_scheme) res" where
  "sys_kill s = bind_res (argint 0 s) (\<lambda>pid. kill pid s)"

definition sys_getpid :: "'z kst_scheme \<Rightarrow> int" where
  "sys_getpid s = p_pid (cur s)"

definition sys_sbrk :: "'z kst_scheme \<Rightarrow> (addr_t \<times> 'z kst_scheme) res" where
  "sys_sbrk s =
     bind_res (argaddr 0 s) (\<lambda>n.
       let addr = p_sz (cur s) in
       bind_res (growproc n s) (\<lambda>(r, s). Ok (if r < 0 then -1 else addr, s)))"

text \<open>
  The test of the loop of \<^verbatim>\<open>sys_sleep\<close>, at the start and after every return from \<^verbatim>\<open>sleep\<close>. The
  comparison is between unsigned numbers, so a negative \<open>n\<close> waits almost forever.
\<close>

definition sleep_test :: "int \<Rightarrow> nat \<Rightarrow> 'z kst_scheme \<Rightarrow> sysret" where
  "sleep_test n ticks0 s =
     (if wrap32 (k_ticks s + 2 ^ 32 - ticks0) < uint32 n then
        if p_killed (cur s) then Ret (-1) else Blocked ChanTicks
      else Ret 0)"

definition sys_sleep :: "'z kst_scheme \<Rightarrow> (sysret \<times> nat \<times> 'z kst_scheme) res" where
  "sys_sleep s = bind_res (argint 0 s) (\<lambda>n. Ok (sleep_test n (k_ticks s) s, k_ticks s, s))"

definition sys_uptime :: "'z kst_scheme \<Rightarrow> int" where
  "sys_uptime s = int32 (int (k_ticks s))"

end
