(* ===== verification/Exec.thy ===== *)
theory Exec
  imports Proc
begin

text \<open>
  \<^verbatim>\<open>src/exec.c\<close> with \<^verbatim>\<open>loaduvm\<close> of \<^verbatim>\<open>src/vm.c\<close> and \<^verbatim>\<open>sys_exec\<close> of \<^verbatim>\<open>src/sysfile.c\<close>: replacing the memory image of
  the running process by a program read from a file. The headers of \<^verbatim>\<open>src/elf.h\<close> are decoded from
  the bytes that are read. The path and the arguments are strings in the caller's memory, which
  stays as it is until the old image is freed at the very end; they are passed by value.
\<close>

section \<open>ELF headers\<close>

definition ELF_MAGIC :: nat where
  "ELF_MAGIC = 0x464C457F"

definition ELF_PROG_LOAD :: nat where
  "ELF_PROG_LOAD = 1"

definition MAXARG :: nat where
  "MAXARG = 32"

text \<open>The fields of the two headers that are used, with the offsets that the C layout gives them.\<close>

definition ld_at :: "nat \<Rightarrow> nat \<Rightarrow> byte list \<Rightarrow> nat" where
  "ld_at off n bs = le_nat (slice off n bs)"

record elfhdr =
  eh_magic :: nat
  eh_entry :: addr_t
  eh_phoff :: addr_t
  eh_phnum :: nat

definition ELFHDR_SIZE :: nat where
  "ELFHDR_SIZE = 64"

definition dec_elfhdr :: "byte list \<Rightarrow> elfhdr" where
  "dec_elfhdr bs = \<lparr>eh_magic = ld_at 0 4 bs, eh_entry = of_nat (ld_at 24 8 bs), eh_phoff = of_nat (ld_at 32 8 bs),
     eh_phnum = ld_at 56 2 bs\<rparr>"

record proghdr =
  ph_type :: nat
  ph_off :: addr_t
  ph_vaddr :: addr_t
  ph_filesz :: addr_t
  ph_memsz :: addr_t

definition PROGHDR_SIZE :: nat where
  "PROGHDR_SIZE = 56"

definition dec_proghdr :: "byte list \<Rightarrow> proghdr" where
  "dec_proghdr bs = \<lparr>ph_type = ld_at 0 4 bs, ph_off = of_nat (ld_at 8 8 bs), ph_vaddr = of_nat (ld_at 16 8 bs),
     ph_filesz = of_nat (ld_at 32 8 bs), ph_memsz = of_nat (ld_at 40 8 bs)\<rparr>"

section \<open>Loading a segment\<close>

text \<open>
  The loop of \<^verbatim>\<open>loaduvm\<close> over the offsets \<open>is\<close>; the result is 0 or -1. The counter is a \<^verbatim>\<open>uint\<close>: for a
  size within a page of \<open>2 ^ 32\<close> it would start again at 0.
\<close>

fun loaduvm_loop :: "addr_t \<Rightarrow> addr_t \<Rightarrow> nat \<Rightarrow> nat \<Rightarrow> nat \<Rightarrow> nat list \<Rightarrow> 'z kst_scheme \<Rightarrow> (int \<times> 'z kst_scheme) res" where
  "loaduvm_loop pgdir addr ip offset sz [] s = Ok (0, s)"
| "loaduvm_loop pgdir addr ip offset sz (i # is) s =
     bind_res (walkpgdir pgdir (addr + of_nat i) False (k_mm s)) (\<lambda>(pte, m).
       case pte of
         None \<Rightarrow> Panic ''loaduvm: address should exist''
       | Some pte \<Rightarrow>
           let pa = PTE_ADDR (ld64 (km_mem m) pte); n = min (sz - i) PGSIZE in
           bind_res (readi ip (wrap32 (offset + i)) n s) (\<lambda>(r, bs, s).
             let s = s\<lparr>k_mm := store_bytes (P2V pa) bs (k_mm s)\<rparr> in
             if r \<noteq> int n then Ok (-1, s) else loaduvm_loop pgdir addr ip offset sz is s))"

definition loaduvm :: "addr_t \<Rightarrow> addr_t \<Rightarrow> nat \<Rightarrow> nat \<Rightarrow> nat \<Rightarrow> 'z kst_scheme \<Rightarrow> (int \<times> 'z kst_scheme) res" where
  "loaduvm pgdir addr ip offset sz s =
     (if unat addr mod PGSIZE \<noteq> 0 then Panic ''loaduvm: addr must be page aligned''
      else bind_res (loaduvm_loop pgdir addr ip offset sz (map (\<lambda>k. k * PGSIZE) [0..<(sz + PGSIZE - 1) div PGSIZE]) s) (\<lambda>(r, s).
        if r = 0 \<and> sz > 2 ^ 32 - PGSIZE then Fault ''loaduvm: counter wraps around'' else Ok (r, s)))"

section \<open>Exec\<close>

text \<open>The code at the label \<^verbatim>\<open>bad\<close>; \<open>ip\<close> is the inode that is still locked.\<close>

definition exec_bad :: "addr_t \<Rightarrow> nat option \<Rightarrow> 'z kst_scheme \<Rightarrow> (int \<times> 'z kst_scheme) res" where
  "exec_bad pgdir ip s =
     bind_res (if pgdir \<noteq> 0 then bind_res (freevm (k_end s) pgdir (k_mm s)) (\<lambda>m. Ok (s\<lparr>k_mm := m\<rparr>)) else Ok s) (\<lambda>s.
       case ip of
         None \<Rightarrow> Ok (-1, s)
       | Some ip \<Rightarrow> bind_res (iunlockput ip s) (\<lambda>s. bind_res (end_op s) (\<lambda>s. Ok (-1, s))))"

text \<open>
  The loop over \<open>n\<close> program headers from offset \<open>off\<close> of the file; the result is the size of the
  image, or \<open>None\<close> for a jump to \<^verbatim>\<open>bad\<close>. The offset is an \<^verbatim>\<open>int\<close> of 32 bits, which \<^verbatim>\<open>readi\<close> takes as a \<^verbatim>\<open>uint\<close>.
\<close>

fun exec_load :: "nat \<Rightarrow> addr_t \<Rightarrow> nat \<Rightarrow> nat \<Rightarrow> addr_t \<Rightarrow> 'z kst_scheme \<Rightarrow> (addr_t option \<times> 'z kst_scheme) res" where
  "exec_load ip pgdir 0 off sz s = Ok (Some sz, s)"
| "exec_load ip pgdir (Suc n) off sz s =
     bind_res (readi ip off PROGHDR_SIZE s) (\<lambda>(r, bs, s).
       let ph = dec_proghdr bs; off' = wrap32 (off + PROGHDR_SIZE) in
       if r \<noteq> int PROGHDR_SIZE then Ok (None, s)
       else if ph_type ph \<noteq> ELF_PROG_LOAD then exec_load ip pgdir n off' sz s
       else if ph_memsz ph < ph_filesz ph then Ok (None, s)
       else if ph_vaddr ph + ph_memsz ph < ph_vaddr ph then Ok (None, s)
       else
         bind_res (allocuvm (k_end s) pgdir sz (ph_vaddr ph + ph_memsz ph) (k_mm s)) (\<lambda>(sz, m).
           let s = s\<lparr>k_mm := m\<rparr> in
           if sz = 0 then Ok (None, s)
           else if unat (ph_vaddr ph) mod PGSIZE \<noteq> 0 then Ok (None, s)
           else
             bind_res (loaduvm pgdir (ph_vaddr ph) ip (wrap32 (unat (ph_off ph))) (wrap32 (unat (ph_filesz ph))) s) (\<lambda>(r, s).
               if r < 0 then Ok (None, s) else exec_load ip pgdir n off' sz s)))"

text \<open>
  The loop that pushes the argument strings from stack pointer \<open>sp\<close> on. \<open>argc\<close> strings have been
  pushed already, at the addresses \<open>ptrs\<close>; \<open>None\<close> is a jump to \<^verbatim>\<open>bad\<close>.
\<close>

definition push_sp :: "addr_t \<Rightarrow> nat \<Rightarrow> addr_t" where
  "push_sp sp n = (sp - (of_nat n + 1)) AND NOT 7"

fun exec_args :: "addr_t \<Rightarrow> byte list list \<Rightarrow> addr_t \<Rightarrow> addr_t list \<Rightarrow> vmst \<Rightarrow> ((addr_t \<times> addr_t list) option \<times> vmst) res" where
  "exec_args pgdir [] sp ptrs m = Ok (Some (sp, ptrs), m)"
| "exec_args pgdir (arg # argv) sp ptrs m =
     (if length ptrs \<ge> MAXARG then Ok (None, m)
      else let sp = push_sp sp (length (cstr arg)) in
        bind_res (copyout pgdir sp (cstr arg @ [0]) m) (\<lambda>(r, m).
          if r < 0 then Ok (None, m) else exec_args pgdir argv sp (ptrs @ [sp]) m))"

text \<open>The name of the program: what follows the last slash of the path.\<close>

definition last_elem :: "byte list \<Rightarrow> byte list" where
  "last_elem path = rev (takeWhile (\<lambda>b. b \<noteq> slash) (rev (cstr path)))"

text \<open>From the commit on: the new image replaces the old one, which is freed.\<close>

definition exec_commit :: "byte list \<Rightarrow> addr_t \<Rightarrow> addr_t \<Rightarrow> addr_t \<Rightarrow> addr_t \<Rightarrow> addr_t \<Rightarrow> 'z kst_scheme \<Rightarrow> (int \<times> 'z kst_scheme) res" where
  "exec_commit path oldpgdir pgdir sz start sp s =
     (let s = upd_cur (\<lambda>p. p\<lparr>p_name := proc_name (last_elem path), p_pgdir := pgdir, p_sz := sz,
                         p_tf := (p_tf p)\<lparr>tf_rip := start, tf_rcx := start, tf_rsp := sp\<rparr>\<rparr>) s in
      bind_res (switchuvm pgdir (p_kstack (cur s)) (k_mm s)) (\<lambda>m.
      bind_res (freevm (k_end s) oldpgdir m) (\<lambda>m. Ok (0, s\<lparr>k_mm := m\<rparr>))))"

text \<open>After the program has been loaded: the stack, the arguments and the commit.\<close>

definition exec_stack :: "byte list \<Rightarrow> byte list list \<Rightarrow> addr_t \<Rightarrow> addr_t \<Rightarrow> addr_t \<Rightarrow> addr_t \<Rightarrow> 'z kst_scheme \<Rightarrow> (int \<times> 'z kst_scheme) res" where
  "exec_stack path argv oldpgdir pgdir sz start s =
     bind_res (allocuvm (k_end s) pgdir (PGROUNDUP sz) (PGROUNDUP sz + of_nat (2 * PGSIZE)) (k_mm s)) (\<lambda>(sz, m).
       if sz = 0 then exec_bad pgdir None (s\<lparr>k_mm := m\<rparr>)
       else
         bind_res (clearpteu pgdir (sz - of_nat (2 * PGSIZE)) m) (\<lambda>m.
         bind_res (exec_args pgdir argv sz [] m) (\<lambda>(args, m).
           let s = s\<lparr>k_mm := m\<rparr> in
           case args of
             None \<Rightarrow> exec_bad pgdir None s
           | Some (sp, ptrs) \<Rightarrow>
               let argc = of_nat (length ptrs);
                   ustack = concat (map (\<lambda>w. le_bytes 8 (unat w)) (- 1 # ptrs @ [0]));
                   s = upd_cur (\<lambda>p. p\<lparr>p_tf := (p_tf p)\<lparr>tf_rdi := argc, tf_rsi := sp - (argc + 1) * 8\<rparr>\<rparr>) s;
                   sp = sp - (argc + 2) * 8
               in bind_res (copyout pgdir sp ustack (k_mm s)) (\<lambda>(r, m).
                    let s = s\<lparr>k_mm := m\<rparr> in
                    if r < 0 then exec_bad pgdir None s
                    else exec_commit path oldpgdir pgdir sz start sp s))))"

definition exec :: "byte list \<Rightarrow> byte list list \<Rightarrow> 'z kst_scheme \<Rightarrow> (int \<times> 'z kst_scheme) res" where
  "exec path argv s =
     (let oldpgdir = p_pgdir (cur s) in
     bind_res (begin_op s) (\<lambda>s.
     bind_res (namei (cwd s) path s) (\<lambda>(ip, s).
       case ip of
         None \<Rightarrow> end_ret (-1) s
       | Some ip \<Rightarrow>
           bind_res (ilock ip s) (\<lambda>s.
           bind_res (readi ip 0 ELFHDR_SIZE s) (\<lambda>(r, bs, s).
             let elf = dec_elfhdr bs in
             if r \<noteq> int ELFHDR_SIZE then exec_bad 0 (Some ip) s
             else if eh_magic elf \<noteq> ELF_MAGIC then exec_bad 0 (Some ip) s
             else
               bind_res (setupkvm (k_mm s)) (\<lambda>(pgdir, m).
                 let s = s\<lparr>k_mm := m\<rparr> in
                 if pgdir = 0 then exec_bad 0 (Some ip) s
                 else
                   bind_res (exec_load ip pgdir (eh_phnum elf) (wrap32 (unat (eh_phoff elf))) (of_nat PGSIZE) s) (\<lambda>(sz, s).
                     case sz of
                       None \<Rightarrow> exec_bad pgdir (Some ip) s
                     | Some sz \<Rightarrow>
                         bind_res (iunlockput ip s) (\<lambda>s.
                         bind_res (end_op s) (\<lambda>s.
                         exec_stack path argv oldpgdir pgdir sz (eh_entry elf) s)))))))))"

section \<open>The system call\<close>

text \<open>The loop that collects the arguments; \<open>fuel\<close> is the number of slots of \<^verbatim>\<open>argv\<close> that are left.\<close>

fun exec_fetch :: "nat \<Rightarrow> addr_t \<Rightarrow> 'z kst_scheme \<Rightarrow> byte list list option res" where
  "exec_fetch 0 uargv s = Ok None"
| "exec_fetch (Suc n) uargv s =
     bind_res (fetchaddr uargv s) (\<lambda>uarg.
       case uarg of
         None \<Rightarrow> Ok None
       | Some uarg \<Rightarrow>
           if uarg = 0 then Ok (Some [])
           else bind_res (fetchstr uarg s) (\<lambda>arg.
             case arg of
               None \<Rightarrow> Ok None
             | Some arg \<Rightarrow> bind_res (exec_fetch n (uargv + 8) s) (\<lambda>args.
                 Ok (case args of None \<Rightarrow> None | Some args \<Rightarrow> Some (arg # args)))))"

definition sys_exec :: "'z kst_scheme \<Rightarrow> (int \<times> 'z kst_scheme) res" where
  "sys_exec s =
     bind_res (argstr 0 s) (\<lambda>path.
       case path of
         None \<Rightarrow> Ok (-1, s)
       | Some path \<Rightarrow>
           bind_res (argaddr 1 s) (\<lambda>uargv.
           bind_res (exec_fetch MAXARG uargv s) (\<lambda>argv.
             case argv of
               None \<Rightarrow> Ok (-1, s)
             | Some argv \<Rightarrow> exec path argv s)))"

end
