(* ===== verification/Frames.thy ===== *)
theory Frames
  imports Kstate
begin

text \<open>
  The layers of the file system leave the rest of the kernel alone: no operation of the buffer
  cache, the log or \<^verbatim>\<open>src/fs.c\<close> changes a field of the state above its own layer. In particular the
  file table, the process table, the pipes and memory are as before.
\<close>

named_theorems frame

section \<open>The buffer cache\<close>

lemma upd_buf_more [simp]: "bcache.more (upd_buf i f s) = bcache.more s"
  by (simp add: upd_buf_def)

lemma set_data_more [simp]: "bcache.more (set_data i d s) = bcache.more s"
  by (simp add: set_data_def)

lemma links_more [simp]: "bcache.more (set_next i j s) = bcache.more s" "bcache.more (set_prev i j s) = bcache.more s"
  by (simp_all add: set_next_def set_prev_def)

lemma iderw_frame [frame]: "iderw i s = Ok t \<Longrightarrow> bcache.more t = bcache.more s"
  by (auto simp: iderw_def Let_def split: if_splits)

lemma bget_lock_frame: "bget_lock i s = Ok (j, t) \<Longrightarrow> bcache.more t = bcache.more s"
  by (auto simp: bget_lock_def)

lemma bget_frame [frame]: "bget dev b s = Ok (i, t) \<Longrightarrow> bcache.more t = bcache.more s"
  by (auto simp: bget_def split: option.splits dest!: bget_lock_frame)

lemma bread_frame [frame]: "bread dev b s = Ok (i, t) \<Longrightarrow> bcache.more t = bcache.more s"
  by (auto simp: bread_def split: if_splits dest!: bget_frame iderw_frame)

lemma bwrite_frame [frame]: "bwrite i s = Ok t \<Longrightarrow> bcache.more t = bcache.more s"
  by (auto simp: bwrite_def split: if_splits dest!: iderw_frame)

lemma move_front_more [simp]: "bcache.more (move_front b s) = bcache.more s"
  by (simp add: move_front_def Let_def)

lemma brelse_frame [frame]: "brelse i s = Ok t \<Longrightarrow> bcache.more t = bcache.more s"
  by (auto simp: brelse_def Let_def split: if_splits)

lemma readsb_frame [frame]: "readsb dev s = Ok (sb, t) \<Longrightarrow> bcache.more t = bcache.more s"
  by (auto simp: readsb_def Let_def dest!: bread_frame brelse_frame)

section \<open>The log\<close>

text \<open>Seen from the log: what the cache leaves alone of a state that extends the log's.\<close>

lemmas cache_log_frame =
  bread_frame [THEN logst_more(8)] bwrite_frame [THEN logst_more(8)] brelse_frame [THEN logst_more(8)]
  readsb_frame [THEN logst_more(8)]

lemma set_data_log [simp]: "logst.more (set_data i d s) = logst.more s"
  by (rule logst_more(8)) simp

lemma fold_res_frame:
  assumes "\<And>x s t. x \<in> set xs \<Longrightarrow> f x s = Ok t \<Longrightarrow> m t = m s"
  shows "fold_res f xs s = Ok t \<Longrightarrow> m t = m s"
  using assms
proof (induction xs arbitrary: s)
  case (Cons x xs)
  then obtain u where u: "f x s = Ok u" "fold_res f xs u = Ok t" by auto
  have "m t = m u" by (rule Cons.IH [OF u(2)]) (use Cons.prems(2) in auto)
  then show ?case using Cons.prems(2) [OF _ u(1)] by simp
qed simp

lemma install_one_frame: "install_one tail s = Ok t \<Longrightarrow> logst.more t = logst.more s"
  by (auto simp: install_one_def dest!: cache_log_frame)

lemma install_trans_frame: "install_trans s = Ok t \<Longrightarrow> logst.more t = logst.more s"
  unfolding install_trans_def by (rule fold_res_frame [where m = logst.more]) (auto dest: install_one_frame)

lemma write_head_frame: "write_head s = Ok t \<Longrightarrow> logst.more t = logst.more s"
  by (auto simp: write_head_def dest!: cache_log_frame)

lemma read_head_frame: "read_head s = Ok t \<Longrightarrow> logst.more t = logst.more s"
  by (auto simp: read_head_def Let_def split: if_splits dest!: cache_log_frame)

lemma write_log_one_frame: "write_log_one tail s = Ok t \<Longrightarrow> logst.more t = logst.more s"
  by (auto simp: write_log_one_def dest!: cache_log_frame)

lemma write_log_frame: "write_log s = Ok t \<Longrightarrow> logst.more t = logst.more s"
  unfolding write_log_def by (rule fold_res_frame [where m = logst.more]) (auto dest: write_log_one_frame)

lemma commit_frame: "commit s = Ok t \<Longrightarrow> logst.more t = logst.more s"
  by (auto simp: commit_def split: if_splits dest!: write_log_frame write_head_frame install_trans_frame)

lemma begin_op_frame [frame]: "begin_op s = Ok t \<Longrightarrow> logst.more t = logst.more s"
  by (auto simp: begin_op_def split: if_splits)

lemma end_op_frame [frame]: "end_op s = Ok t \<Longrightarrow> logst.more t = logst.more s"
  by (auto simp: end_op_def Let_def split: if_splits dest!: commit_frame)

lemma pin_buf_more [simp]: "bcache.more (pin_buf b s) = bcache.more s"
  by (simp add: pin_buf_def)

lemma pin_buf_log [simp]: "logst.more (pin_buf b s) = logst.more s"
  by (rule logst_more(8)) simp

lemma log_write_frame [frame]: "log_write b s = Ok t \<Longrightarrow> logst.more t = logst.more s"
  by (auto simp: log_write_def Let_def split: if_splits)

lemma recover_frame: "recover_from_log s = Ok t \<Longrightarrow> logst.more t = logst.more s"
  by (auto simp: recover_from_log_def dest!: read_head_frame install_trans_frame write_head_frame)

lemma initlog_frame [frame]: "initlog dev s = Ok t \<Longrightarrow> logst.more t = logst.more s"
  by (auto simp: initlog_def split: if_splits dest!: recover_frame cache_log_frame)

section \<open>The file system\<close>

lemma upd_inode_more [simp]: "fsst.more (upd_inode i f s) = fsst.more s"
  by (simp add: upd_inode_def)

lemma set_data_fs [simp]: "fsst.more (set_data i d s) = fsst.more s" "fs_sb (set_data i d s) = fs_sb s" "fs_inode (set_data i d s) = fs_inode s"
  using fsst_more [of "set_data i d s" s] by simp_all

lemma bread_fs: "bread dev b s = Ok (i, t) \<Longrightarrow> fsst.more t = fsst.more s"
  using fsst_more(3) [OF logst_more(8) [OF bread_frame]] .

lemma brelse_fs: "brelse i s = Ok t \<Longrightarrow> fsst.more t = fsst.more s"
  using fsst_more(3) [OF logst_more(8) [OF brelse_frame]] .

lemma log_write_fs: "log_write b s = Ok t \<Longrightarrow> fsst.more t = fsst.more s"
  using fsst_more(3) [OF log_write_frame] .

lemma readsb_fs: "readsb dev s = Ok (sb, t) \<Longrightarrow> fsst.more t = fsst.more s"
  using fsst_more(3) [OF logst_more(8) [OF readsb_frame]] .

lemma begin_op_fs: "begin_op s = Ok t \<Longrightarrow> fsst.more t = fsst.more s"
  using fsst_more(3) [OF begin_op_frame] .

lemma end_op_fs: "end_op s = Ok t \<Longrightarrow> fsst.more t = fsst.more s"
  using fsst_more(3) [OF end_op_frame] .

lemmas block_fs = bread_fs brelse_fs log_write_fs readsb_fs begin_op_fs end_op_fs

lemma bzero_fs: "bzero dev b s = Ok t \<Longrightarrow> fsst.more t = fsst.more s"
  by (auto simp: bzero_def dest!: block_fs)

lemma balloc_from_fs: "balloc_from dev bs s = Ok (b, t) \<Longrightarrow> fsst.more t = fsst.more s"
proof (induction bs arbitrary: s)
  case (Cons b' bs)
  then obtain bp u where u: "bread dev (BBLOCK b' (fs_sb s)) s = Ok (bp, u)" by auto
  note f = bread_fs [OF u]
  show ?case
  proof (cases "List.find (\<lambda>bi. \<not> bm_used (b_data (get_buf u bp)) bi) [0..<min BPB (sb_size (fs_sb u) - b')]")
    case None
    then obtain w where w: "brelse bp u = Ok w" "balloc_from dev bs w = Ok (b, t)" using Cons.prems u by (auto simp: Let_def)
    from Cons.IH [OF w(2)] brelse_fs [OF w(1)] f show ?thesis by simp
  next
    case (Some bi)
    then show ?thesis using Cons.prems u f by (auto simp: Let_def dest!: block_fs bzero_fs)
  qed
qed simp

lemma balloc_fs: "balloc dev s = Ok (b, t) \<Longrightarrow> fsst.more t = fsst.more s"
  unfolding balloc_def by (rule balloc_from_fs)

lemma bfree_fs: "bfree dev b s = Ok t \<Longrightarrow> fsst.more t = fsst.more s"
  by (auto simp: bfree_def Let_def split: if_splits dest!: block_fs)

lemma iget_fs: "iget dev inum s = Ok (i, t) \<Longrightarrow> fsst.more t = fsst.more s"
  by (auto simp: iget_def split: option.splits)

lemma ialloc_from_fs: "ialloc_from dev type is s = Ok (i, t) \<Longrightarrow> fsst.more t = fsst.more s"
proof (induction "is" arbitrary: s)
  case (Cons inum inums)
  then obtain bp u where u: "bread dev (IBLOCK inum (fs_sb s)) s = Ok (bp, u)" by auto
  note f = bread_fs [OF u]
  show ?case
  proof (cases "ld16 (IOFF inum) (b_data (get_buf u bp)) = 0")
    case False
    then obtain w where w: "brelse bp u = Ok w" "ialloc_from dev type inums w = Ok (i, t)" using Cons.prems u by (auto simp: Let_def)
    from Cons.IH [OF w(2)] brelse_fs [OF w(1)] f show ?thesis by simp
  next
    case True
    then show ?thesis using Cons.prems u f by (auto simp: Let_def dest!: block_fs iget_fs)
  qed
qed simp

lemma ialloc_fs: "ialloc dev type s = Ok (i, t) \<Longrightarrow> fsst.more t = fsst.more s"
  unfolding ialloc_def by (rule ialloc_from_fs)

lemma iupdate_fs: "iupdate i s = Ok t \<Longrightarrow> fsst.more t = fsst.more s"
  by (auto simp: iupdate_def Let_def dest!: block_fs)

lemma idup_fs [simp]: "fsst.more (snd (idup i s)) = fsst.more s"
  by (simp add: idup_def)

lemma ilock_fs: "ilock i s = Ok t \<Longrightarrow> fsst.more t = fsst.more s"
  by (auto simp: ilock_def Let_def split: if_splits dest!: block_fs) (metis upd_inode_more)+

lemma iunlock_fs: "iunlock i s = Ok t \<Longrightarrow> fsst.more t = fsst.more s"
  by (auto simp: iunlock_def split: if_splits)

lemma itrunc_direct_fs: "itrunc_direct i k s = Ok t \<Longrightarrow> fsst.more t = fsst.more s"
  by (auto simp: itrunc_direct_def Let_def split: if_splits dest!: bfree_fs)

lemma itrunc_indirect_fs: "itrunc_indirect i d j s = Ok t \<Longrightarrow> fsst.more t = fsst.more s"
  by (auto simp: itrunc_indirect_def Let_def split: if_splits dest!: bfree_fs)

lemma itrunc_folds_fs:
  "fold_res (itrunc_direct i) ks s = Ok t \<Longrightarrow> fsst.more t = fsst.more s"
  "fold_res (itrunc_indirect i d) ks s = Ok t \<Longrightarrow> fsst.more t = fsst.more s"
  by (erule fold_res_frame [where m = fsst.more, rotated], erule itrunc_direct_fs itrunc_indirect_fs)+

lemma itrunc_fs: "itrunc i s = Ok t \<Longrightarrow> fsst.more t = fsst.more s"
  by (auto simp: itrunc_def split: if_splits dest!: block_fs bfree_fs iupdate_fs itrunc_folds_fs)

lemma iput_fs: "iput i s = Ok t \<Longrightarrow> fsst.more t = fsst.more s"
  by (auto simp: iput_def split: if_splits dest!: itrunc_fs iupdate_fs)

lemma iunlockput_fs: "iunlockput i s = Ok t \<Longrightarrow> fsst.more t = fsst.more s"
  by (auto simp: iunlockput_def dest!: iunlock_fs iput_fs)

lemma bmap_fs: "bmap i bn s = Ok (a, t) \<Longrightarrow> fsst.more t = fsst.more s"
  by (auto simp: bmap_def Let_def split: if_splits dest!: block_fs balloc_fs)

lemma readi_loop_fs: "readi_loop i off k acc s = Ok (bs, t) \<Longrightarrow> fsst.more t = fsst.more s"
proof (induction i off k acc s rule: readi_loop.induct)
  case (1 i off k acc s)
  show ?case
  proof (cases "k = 0")
    case True
    then show ?thesis using "1.prems" by (simp add: readi_loop.simps [of i off 0])
  next
    case False
    then obtain addr s1 bp s2 s3 where r: "bmap i (off div BSIZE) s = Ok (addr, s1)" "bread (i_dev (get_inode s1 i)) addr s1 = Ok (bp, s2)"
      "brelse bp s2 = Ok s3"
      "readi_loop i (wrap32 (off + min k (BSIZE - off mod BSIZE))) (k - min k (BSIZE - off mod BSIZE))
         (acc @ slice (off mod BSIZE) (min k (BSIZE - off mod BSIZE)) (b_data (get_buf s2 bp))) s3 = Ok (bs, t)"
      using "1.prems" by (auto simp: readi_loop.simps [of i off k] Let_def)
    have "fsst.more t = fsst.more s3" by (rule "1.IH" [OF False refl refl r(4)])
    then show ?thesis using bmap_fs [OF r(1)] bread_fs [OF r(2)] brelse_fs [OF r(3)] by simp
  qed
qed

lemma readi_fs: "readi i off n s = Ok (r, bs, t) \<Longrightarrow> fsst.more t = fsst.more s"
  by (auto simp: readi_def Let_def split: if_splits dest!: readi_loop_fs)

lemma writei_loop_fs: "writei_loop i off src k s = Ok (e, t) \<Longrightarrow> fsst.more t = fsst.more s"
proof (induction i off src k s rule: writei_loop.induct)
  case (1 i off src k s)
  show ?case
  proof (cases "k = 0")
    case True
    then show ?thesis using "1.prems" by (simp add: writei_loop.simps [of i off src 0])
  next
    case False
    let ?m = "min k (BSIZE - off mod BSIZE)"
    from False obtain addr s1 bp s2 s3 s4 where r: "bmap i (off div BSIZE) s = Ok (addr, s1)" "bread (i_dev (get_inode s1 i)) addr s1 = Ok (bp, s2)"
      "log_write bp (set_data bp (patch (off mod BSIZE) (take ?m src) (b_data (get_buf s2 bp))) s2) = Ok s3" "brelse bp s3 = Ok s4"
      "writei_loop i (wrap32 (off + ?m)) (drop ?m src) (k - ?m) s4 = Ok (e, t)"
      using "1.prems" by (auto simp: writei_loop.simps [of i off src k] Let_def)
    have "fsst.more t = fsst.more s4" by (rule "1.IH" [OF False refl refl r(5)])
    then show ?thesis using bmap_fs [OF r(1)] bread_fs [OF r(2)] log_write_fs [OF r(3)] brelse_fs [OF r(4)] by simp
  qed
qed

lemma writei_fs: "writei i src off n s = Ok (r, t) \<Longrightarrow> fsst.more t = fsst.more s"
  by (auto simp: writei_def split: if_splits dest!: writei_loop_fs iupdate_fs)

lemma dirlookup_loop_fs: "dirlookup_loop dp name ds off s = Ok (r, t) \<Longrightarrow> fsst.more t = fsst.more s"
proof (induction dp name ds off s rule: dirlookup_loop.induct)
  case (1 dp name ds off s)
  show ?case
  proof (cases "off < ds")
    case True
    then obtain de u where u: "readi dp off DIRENT_SIZE s = Ok (int DIRENT_SIZE, de, u)"
      using "1.prems" by (auto simp: dirlookup_loop.simps [of dp name ds off] split: if_splits)
    note f = readi_fs [OF u]
    consider "ld16 0 de = 0 \<or> namecmp name (slice 2 DIRSIZ de) \<noteq> 0" | "ld16 0 de \<noteq> 0" "namecmp name (slice 2 DIRSIZ de) = 0" by blast
    then show ?thesis
    proof cases
      case 1
      then have "dirlookup_loop dp name ds (off + DIRENT_SIZE) u = Ok (r, t)"
        using "1.prems" True u by (auto simp: dirlookup_loop.simps [of dp name ds off] split: if_splits)
      moreover have "\<not> int DIRENT_SIZE \<noteq> int DIRENT_SIZE" by simp
      ultimately have "fsst.more t = fsst.more u" using "1.IH" [OF True] 1 by metis
      then show ?thesis using f by simp
    next
      case 2
      then show ?thesis using "1.prems" True u f by (auto simp: dirlookup_loop.simps [of dp name ds off] dest!: iget_fs)
    qed
  next
    case False
    then show ?thesis using "1.prems" by (simp add: dirlookup_loop.simps [of dp name ds off])
  qed
qed

lemma dirlookup_fs: "dirlookup dp name s = Ok (r, t) \<Longrightarrow> fsst.more t = fsst.more s"
  by (auto simp: dirlookup_def split: if_splits dest!: dirlookup_loop_fs)

lemma dirlink_find_fs: "dirlink_find dp ds off s = Ok (r, t) \<Longrightarrow> fsst.more t = fsst.more s"
proof (induction dp ds off s rule: dirlink_find.induct)
  case (1 dp ds off s)
  show ?case
  proof (cases "off < ds")
    case True
    then obtain de u where u: "readi dp off DIRENT_SIZE s = Ok (int DIRENT_SIZE, de, u)"
      using "1.prems" by (auto simp: dirlink_find.simps [of dp ds off] split: if_splits)
    have "\<not> int DIRENT_SIZE \<noteq> int DIRENT_SIZE" by simp
    then have "dirlink_find dp ds (off + DIRENT_SIZE) u = Ok (r, t) \<Longrightarrow> ld16 0 de \<noteq> 0 \<Longrightarrow> fsst.more t = fsst.more u"
      using "1.IH" [OF True] by metis
    then show ?thesis using "1.prems" True u readi_fs [OF u]
      by (auto simp: dirlink_find.simps [of dp ds off] split: if_splits)
  next
    case False
    then show ?thesis using "1.prems" by (simp add: dirlink_find.simps [of dp ds off])
  qed
qed

lemma dirlink_fs: "dirlink dp name inum s = Ok (r, t) \<Longrightarrow> fsst.more t = fsst.more s"
  by (auto simp: dirlink_def split: option.splits if_splits prod.splits dest!: dirlookup_fs dirlink_find_fs writei_fs iput_fs)

lemma namex_loop_fs: "namex_loop parent path name ip s = Ok (r, n, t) \<Longrightarrow> fsst.more t = fsst.more s"
proof (induction parent path name ip s rule: namex_loop.induct)
  case (1 parent path name ip s)
  show ?case
  proof (cases "skipelem path name")
    case None
    then show ?thesis using "1.prems" by (auto simp: namex_loop.simps [of parent path] split: if_splits dest!: iput_fs)
  next
    case (Some e)
    then obtain path' name' where sk: "skipelem path name = Some (path', name')" by (cases e) auto
    from "1.prems" sk obtain s1 where s1: "ilock ip s = Ok s1" by (auto simp: namex_loop.simps [of parent path])
    note f = ilock_fs [OF s1]
    show ?thesis
    proof (cases "i_type (get_inode s1 ip) \<noteq> T_DIR \<or> parent \<and> path' = []")
      case True
      then show ?thesis using "1.prems" sk s1 f
        by (auto simp: namex_loop.simps [of parent path] split: if_splits dest!: iunlockput_fs iunlock_fs)
    next
      case False
      with "1.prems" sk s1 obtain found s2 where s2: "dirlookup ip name' s1 = Ok (found, s2)"
        by (auto simp: namex_loop.simps [of parent path])
      note g = dirlookup_fs [OF s2]
      show ?thesis
      proof (cases found)
        case None
        then show ?thesis using "1.prems" sk s1 f s2 g False
          by (auto simp: namex_loop.simps [of parent path] dest!: iunlockput_fs)
      next
        case (Some x)
        then obtain nx o' where x: "found = Some (nx, o')" by (cases x) auto
        then obtain s3 where s3: "iunlockput ip s2 = Ok s3" "namex_loop parent path' name' nx s3 = Ok (r, n, t)"
          using "1.prems" sk s1 s2 False by (auto simp: namex_loop.simps [of parent path])
        have "fsst.more t = fsst.more s3"
          using "1.IH" [of "(path', name')" path' name' s1 "Some (nx, o')" "(nx, o')" nx o' s3] sk False s3(2) by simp
        then show ?thesis using iunlockput_fs [OF s3(1)] f g by simp
      qed
    qed
  qed
qed

lemma namex_fs: "namex cwd path parent name s = Ok (r, n, t) \<Longrightarrow> fsst.more t = fsst.more s"
  by (auto simp: namex_def idup_def split: if_splits dest!: namex_loop_fs iget_fs)

lemma namei_fs: "namei cwd path s = Ok (r, t) \<Longrightarrow> fsst.more t = fsst.more s"
  by (auto simp: namei_def dest!: namex_fs)

lemma nameiparent_fs: "nameiparent cwd path name s = Ok (r, n, t) \<Longrightarrow> fsst.more t = fsst.more s"
  unfolding nameiparent_def by (rule namex_fs)

text \<open>All operations of the file system.\<close>

lemmas fs_frame = begin_op_fs end_op_fs ialloc_fs iupdate_fs iget_fs ilock_fs iunlock_fs iput_fs iunlockput_fs
  readi_fs writei_fs dirlookup_fs dirlink_fs namei_fs nameiparent_fs

end
