(* ===== verification/File_Props.thy ===== *)
theory File_Props
  imports Sysfile Frames
begin

text \<open>
  Reference counts: the number of file descriptors that refer to an open file is its reference
  count, in every process. The table scans of \<^verbatim>\<open>filealloc\<close> and \<^verbatim>\<open>fdalloc\<close> are instances of the slot
  tables of the prelude.
\<close>

interpretation ft: slot_table "\<lambda>f. f_ref f = 0" "\<lambda>f. f\<lparr>f_ref := 1\<rparr>" alloc_slot
  by unfold_locales (simp_all add: alloc_slot_def)

interpretation fdt: slot_table "\<lambda>x. x = None" "\<lambda>_. Some f" "alloc_fd f" for f
  by unfold_locales (simp_all add: alloc_fd_def)

section \<open>Counting references\<close>

definition ofiles :: "'z kst_scheme \<Rightarrow> nat option list list" where
  "ofiles s = map p_ofile (k_proc s)"

definition nrefs :: "nat option list list \<Rightarrow> nat \<Rightarrow> nat" where
  "nrefs fss i = sum_list (map (\<lambda>fs. count_list fs (Some i)) fss)"

definition fds_ok :: "nat \<Rightarrow> nat option list list \<Rightarrow> bool" where
  "fds_ok n fss \<longleftrightarrow> (\<forall>fs \<in> set fss. length fs = NOFILE \<and> (\<forall>i. Some i \<in> set fs \<longrightarrow> i < n))"

definition refs_ok :: "'z kst_scheme \<Rightarrow> bool" where
  "refs_ok s \<longleftrightarrow> k_cur s < length (k_proc s) \<and> fds_ok (length (k_file s)) (ofiles s)
     \<and> (\<forall>i < length (k_file s). f_ref (get_file s i) = int (nrefs (ofiles s) i))"

lemma count_list_update:
  "i < length xs \<Longrightarrow> count_list (xs[i := y]) z + (if xs ! i = z then 1 else 0) = count_list xs z + (if y = z then 1 else 0)"
proof (induction xs arbitrary: i)
  case (Cons x xs)
  show ?case
  proof (cases i)
    case (Suc k)
    then show ?thesis using Cons.IH [of k] Cons.prems by (cases "x = z") simp_all
  qed simp
qed simp

lemma nrefs_update:
  "i < length fss \<Longrightarrow> nrefs (fss[i := fs]) j + count_list (fss ! i) (Some j) = nrefs fss j + count_list fs (Some j)"
proof (induction fss arbitrary: i)
  case (Cons x fss)
  then show ?case by (cases i) (auto simp: nrefs_def)
qed simp

text \<open>Replacing one descriptor of process \<open>i\<close>.\<close>

lemma nrefs_update_fd:
  assumes "i < length fss" and "fd < length (fss ! i)"
  shows "nrefs (fss[i := (fss ! i)[fd := x]]) j + (if fss ! i ! fd = Some j then 1 else 0) = nrefs fss j + (if x = Some j then 1 else 0)"
  using nrefs_update [OF assms(1), of "(fss ! i)[fd := x]" j] count_list_update [OF assms(2), of x "Some j"] by simp

lemma fds_ok_update:
  assumes "fds_ok n fss" and "i < length fss" and "fd < NOFILE" and "\<And>j. x = Some j \<Longrightarrow> j < n"
  shows "fds_ok n (fss[i := (fss ! i)[fd := x]])"
  unfolding fds_ok_def
proof (intro ballI conjI allI impI)
  fix fs assume "fs \<in> set (fss[i := (fss ! i)[fd := x]])"
  then have fs: "fs = (fss ! i)[fd := x] \<or> fs \<in> set fss" using set_update_subset_insert by fastforce
  have old: "fss ! i \<in> set fss" using assms(2) by simp
  show "length fs = NOFILE" using fs old assms(1) by (auto simp: fds_ok_def)
  fix j assume "Some j \<in> set fs"
  then have "Some j \<in> insert x (set (fss ! i)) \<or> Some j \<in> set fs \<and> fs \<in> set fss"
    using fs set_update_subset_insert by fastforce
  then show "j < n" using old assms(1,4) by (auto simp: fds_ok_def)
qed

section \<open>What the operations do to the tables\<close>

lemma kst_more:
  assumes "fsst.more t = fsst.more (s :: 'z kst_scheme)"
  shows "k_file t = k_file s" "k_proc t = k_proc s" "k_cur t = k_cur s" "ofiles t = ofiles s" "k_pipe t = k_pipe s"
    "k_mm t = k_mm s" "k_end t = k_end s"
proof -
  show e: "k_file t = k_file s" "k_proc t = k_proc s" "k_cur t = k_cur s" "k_pipe t = k_pipe s" "k_mm t = k_mm s" "k_end t = k_end s"
    using assms by (cases t, cases s, simp)+
  then show "ofiles t = ofiles s" by (simp add: ofiles_def)
qed

lemma refs_ok_more: "fsst.more t = fsst.more s \<Longrightarrow> refs_ok s \<Longrightarrow> refs_ok t"
  using kst_more [of t s] by (simp add: refs_ok_def)

lemma upd_file_sel [simp]:
  "k_file (upd_file i f s) = (k_file s)[i := f (get_file s i)]" "k_proc (upd_file i f s) = k_proc s"
  "k_cur (upd_file i f s) = k_cur s" "ofiles (upd_file i f s) = ofiles s" "k_pipe (upd_file i f s) = k_pipe s"
  by (simp_all add: upd_file_def ofiles_def)

lemma upd_proc_sel [simp]:
  "k_file (upd_proc i f s) = k_file s" "k_proc (upd_proc i f s) = (k_proc s)[i := f (get_proc s i)]" "k_cur (upd_proc i f s) = k_cur s"
  by (simp_all add: upd_proc_def)

lemma ofiles_upd_proc: "ofiles (upd_proc i f s) = (ofiles s)[i := p_ofile (f (get_proc s i))]"
  by (simp add: ofiles_def map_update)

lemma wakeup_sel [simp]:
  "k_file (wakeup c s) = k_file s" "k_cur (wakeup c s) = k_cur s" "ofiles (wakeup c s) = ofiles s"
  "length (k_proc (wakeup c s)) = length (k_proc s)"
  by (auto simp: wakeup_def wakeup1_def ofiles_def wake_def)

lemma pipe_wakeups_sel [simp]:
  "k_file (pipe_wakeups p cs s) = k_file s" "k_cur (pipe_wakeups p cs s) = k_cur s"
  "ofiles (pipe_wakeups p cs s) = ofiles s" "length (k_proc (pipe_wakeups p cs s)) = length (k_proc s)"
  unfolding pipe_wakeups_def by (induction cs arbitrary: s) simp_all

definition tables :: "'z kst_scheme \<Rightarrow> kfile list \<times> nat option list list \<times> nat" where
  "tables s = (k_file s, ofiles s, k_cur s)"

lemma length_ofiles: "length (ofiles s) = length (k_proc s)"
  by (simp add: ofiles_def)

lemma refs_ok_tables:
  assumes "tables t = tables s" and "refs_ok s"
  shows "refs_ok t"
proof -
  have e: "k_file t = k_file s" "ofiles t = ofiles s" "k_cur t = k_cur s" using assms(1) by (simp_all add: tables_def)
  then have "length (k_proc t) = length (k_proc s)" using length_ofiles [of t] length_ofiles [of s] by simp
  then show ?thesis using e assms(2) by (simp add: refs_ok_def)
qed

lemma more_tables: "fsst.more t = fsst.more s \<Longrightarrow> tables t = tables s"
  using kst_more [of t s] by (simp add: tables_def)

lemma mm_tables [simp]:
  "tables (s\<lparr>k_mm := m\<rparr>) = tables s" "tables (s\<lparr>k_pipe := q\<rparr>) = tables s"
  unfolding tables_def ofiles_def by simp_all

lemma pipe_wakeups_tables [simp]: "tables (pipe_wakeups p cs s) = tables s"
  unfolding tables_def by simp

lemma pipe_close_tables: "pipe_close p w s = Ok t \<Longrightarrow> tables t = tables s"
  by (auto simp: pipe_close_def Let_def split: option.splits prod.splits if_splits)

lemma store_user_tables: "store_user va bs s = Ok t \<Longrightarrow> tables t = tables s"
proof (induction bs arbitrary: va s)
  case (Cons b bs)
  then obtain a where "store_user (va + 1) bs (s\<lparr>k_mm := store_bytes a [b] (k_mm s)\<rparr>) = Ok t" by auto
  from Cons.IH [OF this] show ?case by simp
qed simp

lemma cur_ofile: "k_cur s < length (k_proc s) \<Longrightarrow> p_ofile (cur s) = ofiles s ! k_cur s"
  by (simp add: ofiles_def)

lemma fdalloc_cases:
  assumes "k_cur s < length (k_proc s)"
  shows "fdalloc f s = (-1, s) \<and> None \<notin> set (ofiles s ! k_cur s)
     \<or> (\<exists>fd t. fdalloc f s = (int fd, t) \<and> fd < length (ofiles s ! k_cur s) \<and> ofiles s ! k_cur s ! fd = None
          \<and> tables t = (k_file s, (ofiles s)[k_cur s := (ofiles s ! k_cur s)[fd := Some f]], k_cur s)
          \<and> t = upd_cur (\<lambda>p. p\<lparr>p_ofile := (p_ofile p)[fd := Some f]\<rparr>) s)"
proof (cases "alloc_fd f (p_ofile (cur s))")
  case None
  then show ?thesis using fdt.alloc_None [of f "p_ofile (cur s)"] cur_ofile [OF assms] by (auto simp: fdalloc_def)
next
  case (Some x)
  then obtain fd fds where x: "alloc_fd f (p_ofile (cur s)) = Some (fd, fds)" by (cases x) auto
  note a = fdt.alloc_Some [OF x]
  have "fdalloc f s = (int fd, upd_cur (\<lambda>p. p\<lparr>p_ofile := (p_ofile p)[fd := Some f]\<rparr>) s)"
    using x a(4) by (simp add: fdalloc_def upd_proc_def)
  then show ?thesis using a(1,2) cur_ofile [OF assms] by (auto simp: tables_def ofiles_upd_proc)
qed

lemma clear_fd_tables:
  "k_cur s < length (k_proc s) \<Longrightarrow> tables (clear_fd fd s) = (k_file s, (ofiles s)[k_cur s := (ofiles s ! k_cur s)[fd := None]], k_cur s)"
  by (simp add: clear_fd_def tables_def ofiles_upd_proc cur_ofile)

lemma fileclose_files:
  assumes "fileclose i s = Ok t"
  shows "\<exists>f. tables t = ((k_file s)[i := f], ofiles s, k_cur s) \<and> f_ref f = f_ref (get_file s i) - 1 \<and> 1 \<le> f_ref (get_file s i)"
proof -
  have r: "1 \<le> f_ref (get_file s i)" using assms by (auto simp: fileclose_def Let_def split: if_splits)
  show ?thesis
  proof (cases "f_ref (get_file s i) - 1 > 0")
    case True
    then have "t = upd_file i (\<lambda>f. f\<lparr>f_ref := f_ref f - 1\<rparr>) s" using assms r by (simp add: fileclose_def Let_def)
    then show ?thesis using r by (intro exI [of _ "(get_file s i)\<lparr>f_ref := f_ref (get_file s i) - 1\<rparr>"]) (simp add: tables_def)
  next
    case False
    define u where "u = upd_file i (\<lambda>f. f\<lparr>f_ref := 0, f_type := FD_NONE\<rparr>) s"
    have "tables t = tables u"
      using assms r False by (cases "f_type (get_file s i)")
        (auto simp: fileclose_def Let_def u_def dest!: pipe_close_tables begin_op_fs iput_fs end_op_fs dest: more_tables)
    then show ?thesis using r False
      by (intro exI [of _ "(get_file s i)\<lparr>f_ref := 0, f_type := FD_NONE\<rparr>"]) (simp add: tables_def u_def)
  qed
qed

lemma filealloc_cases:
  "filealloc s = (None, s) \<and> (\<forall>f \<in> set (k_file s). f_ref f \<noteq> 0)
     \<or> (\<exists>i. filealloc s = (Some i, s\<lparr>k_file := (k_file s)[i := (get_file s i)\<lparr>f_ref := 1\<rparr>]\<rparr>) \<and> i < length (k_file s) \<and> f_ref (get_file s i) = 0)"
proof (cases "alloc_slot (k_file s)")
  case None
  then show ?thesis using ft.alloc_None [of "k_file s"] by (auto simp: filealloc_def)
next
  case (Some x)
  then obtain i fs where "alloc_slot (k_file s) = Some (i, fs)" by (cases x) auto
  with ft.alloc_Some [OF this] show ?thesis by (auto simp: filealloc_def)
qed

section \<open>References in transit\<close>

text \<open>
  Inside a system call a count can differ from the number of descriptors: \<open>d i\<close> is the number of
  references to file \<open>i\<close> that the call itself holds. Each operation moves references.
\<close>

definition bal :: "(nat \<Rightarrow> int) \<Rightarrow> 'z kst_scheme \<Rightarrow> bool" where
  "bal d s \<longleftrightarrow> k_cur s < length (k_proc s) \<and> fds_ok (length (k_file s)) (ofiles s)
     \<and> (\<forall>i < length (k_file s). f_ref (get_file s i) = int (nrefs (ofiles s) i) + d i)"

lemma refs_ok_bal: "refs_ok s \<longleftrightarrow> bal (\<lambda>_. 0) s"
  by (simp add: refs_ok_def bal_def)

lemma bal_tables:
  assumes "tables t = tables s"
  shows "bal d t = bal d s"
proof -
  have e: "k_file t = k_file s" "ofiles t = ofiles s" "k_cur t = k_cur s" using assms by (simp_all add: tables_def)
  then have "length (k_proc t) = length (k_proc s)" using length_ofiles [of t] length_ofiles [of s] by simp
  then show ?thesis using e by (simp add: bal_def)
qed

lemma bal_more: "bal d s \<Longrightarrow> fsst.more t = fsst.more s \<Longrightarrow> bal d t"
  using bal_tables [OF more_tables, of t s] by blast

lemma bal_file:
  assumes b: "bal d s" and t: "tables t = ((k_file s)[i := f], ofiles s, k_cur s)" and r: "f_ref f = f_ref (get_file s i) + k"
  shows "bal (d(i := d i + k)) t"
proof -
  have e: "k_file t = (k_file s)[i := f]" "ofiles t = ofiles s" "k_cur t = k_cur s" using t by (simp_all add: tables_def)
  then have l: "length (k_proc t) = length (k_proc s)" using length_ofiles [of t] length_ofiles [of s] by simp
  show ?thesis using b r by (auto simp: bal_def e l nth_list_update)
qed

lemma bal_fd:
  assumes b: "bal d s" and t: "tables t = (k_file s, (ofiles s)[k_cur s := (ofiles s ! k_cur s)[fd := x]], k_cur s)"
    and fd: "fd < NOFILE" and x: "\<And>j. x = Some j \<Longrightarrow> j < length (k_file s)" and old: "ofiles s ! k_cur s ! fd = y"
  shows "bal (\<lambda>j. d j + (if y = Some j then 1 else 0) - (if x = Some j then 1 else 0)) t"
proof -
  have e: "k_file t = k_file s" "ofiles t = (ofiles s)[k_cur s := (ofiles s ! k_cur s)[fd := x]]" "k_cur t = k_cur s"
    using t by (simp_all add: tables_def)
  then have l: "length (k_proc t) = length (k_proc s)" using length_ofiles [of t] length_ofiles [of s] by simp
  have c: "k_cur s < length (ofiles s)" using b by (simp add: bal_def length_ofiles)
  have "length (ofiles s ! k_cur s) = NOFILE" using b c by (simp add: bal_def fds_ok_def)
  then have fl: "fd < length (ofiles s ! k_cur s)" using fd by simp
  have "fds_ok (length (k_file t)) (ofiles t)"
    unfolding e using fds_ok_update [OF _ c fd x] b by (simp add: bal_def)
  moreover have "f_ref (get_file t j) = int (nrefs (ofiles t) j) + (d j + (if y = Some j then 1 else 0) - (if x = Some j then 1 else 0))"
    if "j < length (k_file t)" for j
  proof -
    have "f_ref (get_file s j) = int (nrefs (ofiles s) j) + d j" using b that e(1) by (simp add: bal_def)
    then show ?thesis using nrefs_update_fd [OF c fl, of x j] by (simp add: e old split: if_splits)
  qed
  ultimately show ?thesis using b l e(3) by (simp add: bal_def)
qed

lemma bal_cur: "bal d s \<Longrightarrow> k_cur s < length (k_proc s) \<and> length (ofiles s ! k_cur s) = NOFILE"
  by (auto simp: bal_def fds_ok_def length_ofiles)

lemma bal_fdalloc:
  assumes b: "bal d s" and a: "fdalloc f s = (r, t)" and f: "f < length (k_file s)"
  shows "r < 0 \<and> t = s \<or> 0 \<le> r \<and> bal (d(f := d f - 1)) t \<and> k_file t = k_file s \<and> nat r < NOFILE
     \<and> ofiles t ! k_cur t ! nat r = Some f"
proof -
  note c = bal_cur [OF b]
  from fdalloc_cases [OF conjunct1 [OF c], of f] show ?thesis
  proof (elim disjE exE conjE)
    assume "fdalloc f s = (- 1, s)"
    then show ?thesis using a by simp
  next
    fix fd t'
    assume x: "fdalloc f s = (int fd, t')" "fd < length (ofiles s ! k_cur s)" "ofiles s ! k_cur s ! fd = None"
      "tables t' = (k_file s, (ofiles s)[k_cur s := (ofiles s ! k_cur s)[fd := Some f]], k_cur s)"
    have t: "t = t'" "r = int fd" using a x(1) by simp_all
    have "bal (\<lambda>j. d j + (if None = Some j then 1 else 0) - (if Some f = Some j then 1 else 0)) t'"
      by (rule bal_fd [OF b x(4) _ _ x(3)]) (use x(2) c f in auto)
    moreover have "(\<lambda>j. d j + (if None = Some j then 1 else 0) - (if Some f = Some j then 1 else 0)) = d(f := d f - 1)" by auto
    ultimately have "bal (d(f := d f - 1)) t" using t by simp
    moreover have "ofiles t ! k_cur t ! fd = Some f" "k_file t = k_file s"
      using x(2,4) t c by (auto simp: tables_def length_ofiles)
    ultimately show ?thesis using x(2) c t by auto
  qed
qed

lemma bal_clear_fd:
  assumes b: "bal d s" and fd: "fd < NOFILE" "ofiles s ! k_cur s ! fd = Some f"
  shows "bal (d(f := d f + 1)) (clear_fd fd s)"
proof -
  have t: "tables (clear_fd fd s) = (k_file s, (ofiles s)[k_cur s := (ofiles s ! k_cur s)[fd := None]], k_cur s)"
    by (rule clear_fd_tables) (use b in \<open>simp add: bal_def\<close>)
  have "bal (\<lambda>j. d j + (if Some f = Some j then 1 else 0) - (if None = Some j then 1 else 0)) (clear_fd fd s)"
    by (rule bal_fd [OF b t fd(1) _ fd(2)]) simp
  moreover have "(\<lambda>j. d j + (if Some f = Some j then 1 else 0) - (if None = Some j then 1 else 0)) = d(f := d f + 1)" by auto
  ultimately show ?thesis by simp
qed

lemma bal_fileclose:
  assumes "bal d s" and "fileclose i s = Ok t"
  shows "bal (d(i := d i - 1)) t" and "length (k_file t) = length (k_file s)"
proof -
  from fileclose_files [OF assms(2)] obtain f where f: "tables t = ((k_file s)[i := f], ofiles s, k_cur s)"
    "f_ref f = f_ref (get_file s i) - 1" by blast
  have "f_ref f = f_ref (get_file s i) + (- 1)" using f(2) by simp
  from bal_file [OF assms(1) f(1) this] show "bal (d(i := d i - 1)) t" by simp
  show "length (k_file t) = length (k_file s)" using f(1) by (simp add: tables_def)
qed

lemma bal_filealloc:
  assumes b: "bal d s" and d: "\<And>i. 0 \<le> d i" and a: "filealloc s = (x, t)"
  shows "case x of None \<Rightarrow> t = s
     | Some i \<Rightarrow> i < length (k_file s) \<and> bal (d(i := 1)) t \<and> d i = 0 \<and> length (k_file t) = length (k_file s)"
  using filealloc_cases [of s]
proof (elim disjE exE conjE)
  assume "filealloc s = (None, s)"
  then show ?thesis using a by simp
next
  fix i
  assume i: "filealloc s = (Some i, s\<lparr>k_file := (k_file s)[i := (get_file s i)\<lparr>f_ref := 1\<rparr>]\<rparr>)"
    "i < length (k_file s)" "f_ref (get_file s i) = 0"
  have x: "x = Some i" "t = s\<lparr>k_file := (k_file s)[i := (get_file s i)\<lparr>f_ref := 1\<rparr>]\<rparr>" using a i(1) by simp_all
  have tb: "tables t = ((k_file s)[i := (get_file s i)\<lparr>f_ref := 1\<rparr>], ofiles s, k_cur s)" by (simp add: x(2) tables_def ofiles_def)
  have "int (nrefs (ofiles s) i) + d i = 0" using b i(2,3) by (simp add: bal_def)
  then have "d i = 0" using d [of i] by simp
  moreover have "f_ref ((get_file s i)\<lparr>f_ref := 1\<rparr>) = f_ref (get_file s i) + 1" using i(3) by simp
  from bal_file [OF b tb this] have "bal (d(i := d i + 1)) t" .
  ultimately show ?thesis using i(2) by (simp add: x)
qed

section \<open>System calls that only touch the file system\<close>

lemma add_nlink_fs [simp]: "fsst.more (add_nlink i d s) = fsst.more s"
  by (simp add: add_nlink_def)

lemma end_ret_fs: "end_ret r s = Ok (x, t) \<Longrightarrow> fsst.more t = fsst.more s"
  by (auto simp: end_ret_def dest!: end_op_fs)

lemma link_bad_fs: "link_bad ip s = Ok (r, t) \<Longrightarrow> fsst.more t = fsst.more s"
  by (auto simp: link_bad_def dest!: ilock_fs iupdate_fs iunlockput_fs end_ret_fs)

lemma link_paths_fs: "link_paths old new s = Ok (r, t) \<Longrightarrow> fsst.more t = fsst.more s"
  by (auto simp: link_paths_def split: option.splits if_splits prod.splits dest!: fs_frame end_ret_fs link_bad_fs)

lemma unlink_bad_fs: "unlink_bad dp s = Ok (r, t) \<Longrightarrow> fsst.more t = fsst.more s"
  by (auto simp: unlink_bad_def dest!: iunlockput_fs end_ret_fs)

lemma isdirempty_from_fs: "isdirempty_from dp ds off s = Ok (r, t) \<Longrightarrow> fsst.more t = fsst.more s"
proof (induction dp ds off s rule: isdirempty_from.induct)
  case (1 dp ds off s)
  show ?case
  proof (cases "off < ds")
    case True
    then obtain de u where u: "readi dp off DIRENT_SIZE s = Ok (int DIRENT_SIZE, de, u)"
      using "1.prems" by (auto simp: isdirempty_from.simps [of dp ds off] split: if_splits)
    have "\<not> int DIRENT_SIZE \<noteq> int DIRENT_SIZE" by simp
    then have "isdirempty_from dp ds (off + DIRENT_SIZE) u = Ok (r, t) \<Longrightarrow> \<not> ld16 0 de \<noteq> 0 \<Longrightarrow> fsst.more t = fsst.more u"
      using "1.IH" [OF True] by metis
    then show ?thesis using "1.prems" True u readi_fs [OF u]
      by (auto simp: isdirempty_from.simps [of dp ds off] split: if_splits)
  next
    case False
    then show ?thesis using "1.prems" by (simp add: isdirempty_from.simps [of dp ds off])
  qed
qed

lemma isdirempty_fs: "isdirempty dp s = Ok (r, t) \<Longrightarrow> fsst.more t = fsst.more s"
  unfolding isdirempty_def by (rule isdirempty_from_fs)

lemma create_dots_fs: "create_dots dp ip s = Ok t \<Longrightarrow> fsst.more t = fsst.more s"
  by (auto simp: create_dots_def dest!: iupdate_fs dirlink_fs)

lemma create_fs:
  assumes "create path type major minor s = Ok (r, t)"
  shows "fsst.more t = fsst.more s"
proof -
  from assms obtain dp name s1 where s1: "nameiparent (cwd s) path (replicate DIRSIZ 0) s = Ok (dp, name, s1)"
    by (auto simp: create_def)
  note f1 = nameiparent_fs [OF s1]
  show ?thesis
  proof (cases dp)
    case None
    then show ?thesis using assms s1 f1 by (simp add: create_def)
  next
    case (Some d)
    with assms s1 obtain s2 found s3 where s2: "ilock d s1 = Ok s2" and s3: "dirlookup d name s2 = Ok (found, s3)"
      by (auto simp: create_def)
    note f3 = ilock_fs [OF s2] dirlookup_fs [OF s3] f1
    show ?thesis
    proof (cases found)
      case (Some x)
      then show ?thesis using assms s1 \<open>dp = Some d\<close> s2 s3 f3
        by (auto simp: create_def split: prod.splits if_splits dest!: iunlockput_fs ilock_fs)
    next
      case None
      with assms s1 \<open>dp = Some d\<close> s2 s3 obtain ip s4 s5 s6 s7 r8 s8 where
        c: "ialloc (i_dev (get_inode s3 d)) type s3 = Ok (ip, s4)" "ilock ip s4 = Ok s5"
          "iupdate ip (upd_inode ip (\<lambda>x. x\<lparr>i_major := major, i_minor := minor, i_nlink := 1\<rparr>) s5) = Ok s6"
          "(if type = T_DIR then create_dots d ip s6 else Ok s6) = Ok s7"
          "dirlink d name (i_inum (get_inode s7 ip)) s7 = Ok (r8, s8)" "iunlockput d s8 = Ok t"
        by (auto simp: create_def)
      have "fsst.more s7 = fsst.more s6" using c(4) create_dots_fs by (cases "type = T_DIR") auto
      then show ?thesis
        using ialloc_fs [OF c(1)] ilock_fs [OF c(2)] iupdate_fs [OF c(3)] dirlink_fs [OF c(5)] iunlockput_fs [OF c(6)] f3 by simp
    qed
  qed
qed

lemma open_inode_fs:
  assumes "open_inode path omode s = Ok (r, t)"
  shows "fsst.more t = fsst.more s"
proof (cases "flag omode O_CREATE")
  case True
  then obtain ip u where u: "create path T_FILE 0 0 s = Ok (ip, u)" using assms by (auto simp: open_inode_def)
  then show ?thesis using assms True create_fs [OF u] end_ret_fs [of None u r t]
    by (cases ip) (auto simp: open_inode_def)
next
  case False
  then obtain ip u where u: "namei (cwd s) path s = Ok (ip, u)" using assms by (auto simp: open_inode_def)
  note f = namei_fs [OF u]
  show ?thesis
  proof (cases ip)
    case None
    then show ?thesis using assms False u f end_ret_fs [of None u r t] by (simp add: open_inode_def)
  next
    case (Some i)
    then obtain w where w: "ilock i u = Ok w" using assms False u by (auto simp: open_inode_def)
    show ?thesis
    proof (cases "i_type (get_inode w i) = T_DIR \<and> omode \<noteq> 0")
      case True
      then obtain x where x: "iunlockput i w = Ok x" "end_ret None x = Ok (r, t)" using assms False u w Some by (auto simp: open_inode_def)
      then show ?thesis using iunlockput_fs [OF x(1)] end_ret_fs [OF x(2)] ilock_fs [OF w] f by simp
    next
      case no: False
      then have "w = t" using assms False u w Some by (auto simp: open_inode_def)
      then show ?thesis using ilock_fs [OF w] f by simp
    qed
  qed
qed

section \<open>System calls on descriptors\<close>

lemma argfd_Some:
  assumes "argfd n s = Ok (Some (fd, f))" and "bal d s"
  shows "fd < NOFILE" "ofiles s ! k_cur s ! fd = Some f" "f < length (k_file s)"
proof -
  have c: "k_cur s < length (k_proc s)" "length (ofiles s ! k_cur s) = NOFILE" using bal_cur [OF assms(2)] by simp_all
  show a: "fd < NOFILE" "ofiles s ! k_cur s ! fd = Some f"
    using assms(1) cur_ofile [OF c(1)] by (auto simp: argfd_def split: if_splits option.splits)
  then have "Some f \<in> set (ofiles s ! k_cur s)" using c(2) by (metis nth_mem)
  then show "f < length (k_file s)" using assms(2) c(1) by (auto simp: bal_def fds_ok_def length_ofiles)
qed

lemma nrefs_pos:
  assumes "i < length fss" and "Some f \<in> set (fss ! i)"
  shows "0 < nrefs fss f"
proof -
  have "count_list (fss ! i) (Some f) \<noteq> 0" using assms(2) by (simp add: count_list_0_iff)
  moreover have "count_list (fss ! i) (Some f) \<in> set (map (\<lambda>fs. count_list fs (Some f)) fss)" using assms(1) by auto
  ultimately have "count_list (fss ! i) (Some f) \<le> nrefs fss f" unfolding nrefs_def by (intro member_le_sum_list) simp_all
  with \<open>count_list (fss ! i) (Some f) \<noteq> 0\<close> show ?thesis by simp
qed

lemma argfd_ref:
  assumes "argfd n s = Ok (Some (fd, f))" and "refs_ok s"
  shows "1 \<le> f_ref (get_file s f)"
proof -
  have b: "bal (\<lambda>_. 0) s" using assms(2) by (simp add: refs_ok_bal)
  note a = argfd_Some [OF assms(1) b]
  have "Some f \<in> set (ofiles s ! k_cur s)" using a bal_cur [OF b] by (metis nth_mem)
  then have "0 < nrefs (ofiles s) f" using nrefs_pos bal_cur [OF b] by (metis length_ofiles)
  then show ?thesis using b a(3) by (simp add: bal_def)
qed

lemma argfd_Ok: "\<exists>a. argfd 0 s = Ok a"
  by (simp add: argfd_def argint_def fetcharg_def Let_def split: option.split)

lemma sys_dup_ok:
  assumes r: "refs_ok s"
  shows "\<exists>r t. sys_dup s = Ok (r, t) \<and> refs_ok t \<and>
     (r = -1 \<and> t = s \<and> (argfd 0 s = Ok None \<or> None \<notin> set (p_ofile (cur s)))
      \<or> (\<exists>fd f. argfd 0 s = Ok (Some (fd, f)) \<and> 0 \<le> r \<and> nat r < NOFILE
           \<and> p_ofile (cur s) ! nat r = None \<and> p_ofile (cur t) = (p_ofile (cur s))[nat r := Some f]
           \<and> f_ref (get_file t f) = f_ref (get_file s f) + 1))"
proof -
  obtain a where a: "argfd 0 s = Ok a" using argfd_Ok [of s] by blast
  show ?thesis
  proof (cases a)
    case None
    then show ?thesis using a r by (simp add: sys_dup_def)
  next
    case (Some x)
    then obtain fd f where x: "argfd 0 s = Ok (Some (fd, f))" using a by (cases x) auto
    have b: "bal (\<lambda>_. 0) s" using r by (simp add: refs_ok_bal)
    note c = bal_cur [OF b] and g = argfd_Some [OF x b] and ref = argfd_ref [OF x r]
    from fdalloc_cases [OF conjunct1 [OF c], of f] show ?thesis
    proof (elim disjE exE conjE)
      assume "fdalloc f s = (- 1, s)" "None \<notin> set (ofiles s ! k_cur s)"
      then show ?thesis using x r cur_ofile [of s] c by (auto simp: sys_dup_def)
    next
      fix k t1
      assume y: "fdalloc f s = (int k, t1)" "k < length (ofiles s ! k_cur s)" "ofiles s ! k_cur s ! k = None"
        "tables t1 = (k_file s, (ofiles s)[k_cur s := (ofiles s ! k_cur s)[k := Some f]], k_cur s)"
        "t1 = upd_cur (\<lambda>p. p\<lparr>p_ofile := (p_ofile p)[k := Some f]\<rparr>) s"
      define t where "t = upd_file f (\<lambda>f. f\<lparr>f_ref := f_ref f + 1\<rparr>) t1"
      have kf: "k_file t1 = k_file s" using y(4) by (simp add: tables_def)
      have run: "sys_dup s = Ok (int k, t)" using x y(1) ref kf by (simp add: sys_dup_def filedup_def t_def)
      have "bal ((\<lambda>_. 0)(f := - 1)) t1" using bal_fdalloc [OF b y(1) g(3)] by simp
      moreover have "tables t = ((k_file t1)[f := (get_file t1 f)\<lparr>f_ref := f_ref (get_file t1 f) + 1\<rparr>], ofiles t1, k_cur t1)"
        by (simp add: t_def tables_def)
      ultimately have "bal (((\<lambda>_. 0)(f := - 1))(f := ((\<lambda>_. 0)(f := - 1)) f + 1)) t"
        by (rule bal_file) simp
      moreover have "((\<lambda>_. 0)(f := - 1))(f := ((\<lambda>_. 0)(f := - 1)) f + 1) = (\<lambda>_. 0 :: int)" by auto
      ultimately have rt: "refs_ok t" by (simp add: refs_ok_bal)
      have "p_ofile (cur t) = (p_ofile (cur s))[k := Some f]" using c by (simp add: t_def y(5))
      moreover have "f_ref (get_file t f) = f_ref (get_file s f) + 1" using g(3) by (simp add: t_def kf)
      moreover have "p_ofile (cur s) ! k = None" "k < NOFILE" using y(2,3) c cur_ofile [of s] by auto
      ultimately show ?thesis using run rt x by auto
    qed
  qed
qed

lemma sys_close_refs:
  assumes "refs_ok s" and "sys_close s = Ok (r, t)"
  shows "refs_ok t"
proof -
  obtain a where a: "argfd 0 s = Ok a" using argfd_Ok [of s] by blast
  show ?thesis
  proof (cases a)
    case None
    then show ?thesis using a assms by (simp add: sys_close_def)
  next
    case (Some x)
    then obtain fd f where x: "argfd 0 s = Ok (Some (fd, f))" using a by (cases x) auto
    have b: "bal (\<lambda>_. 0) s" using assms(1) by (simp add: refs_ok_bal)
    note g = argfd_Some [OF x b]
    have run: "fileclose f (clear_fd fd s) = Ok t" using assms(2) x by (auto simp: sys_close_def)
    have "bal ((\<lambda>_. 0)(f := 0 + 1)) (clear_fd fd s)" by (rule bal_clear_fd [OF b g(1,2)])
    from bal_fileclose(1) [OF this run] have "bal (\<lambda>_. 0) t" by (simp add: fun_upd_idem)
    then show ?thesis by (simp add: refs_ok_bal)
  qed
qed

lemma sys_open_refs:
  assumes "refs_ok s" and "sys_open s = Ok (r, t)"
  shows "refs_ok t"
proof -
  from assms(2) obtain path where p: "argstr 0 s = Ok path" by (auto simp: sys_open_def)
  show ?thesis
  proof (cases path)
    case None
    then show ?thesis using p assms by (simp add: sys_open_def)
  next
    case (Some pa)
    with p assms(2) obtain omode s1 ip s2 where o1: "argint 1 s = Ok omode" "begin_op s = Ok s1" "open_inode pa omode s1 = Ok (ip, s2)"
      by (auto simp: sys_open_def)
    have b2: "bal (\<lambda>_. 0) s2"
      using assms(1) bal_more begin_op_fs [OF o1(2)] open_inode_fs [OF o1(3)] by (metis refs_ok_bal)
    show ?thesis
    proof (cases ip)
      case None
      then show ?thesis using p Some o1 assms(2) b2 by (simp add: sys_open_def refs_ok_bal)
    next
      case ip: (Some i)
      obtain x s3 where fa: "filealloc s2 = (x, s3)" by fastforce
      note bx = bal_filealloc [OF b2 _ fa, simplified]
      show ?thesis
      proof (cases x)
        case None
        with fa bx p Some o1 ip assms(2) obtain u where "iunlockput i s2 = Ok u" "end_ret (- 1) u = Ok (r, t)"
          by (auto simp: sys_open_def)
        then show ?thesis using b2 iunlockput_fs end_ret_fs bal_more by (metis refs_ok_bal)
      next
        case xf: (Some f)
        then have b3: "bal ((\<lambda>_. 0)(f := 1)) s3" "f < length (k_file s3)" using bx by simp_all
        obtain fd s4 where fd: "fdalloc f s3 = (fd, s4)" by fastforce
        from bal_fdalloc [OF b3(1) fd b3(2)] show ?thesis
        proof (elim disjE conjE)
          assume n: "fd < 0" "s4 = s3"
          with fa fd xf p Some o1 ip assms(2) obtain u w where u: "fileclose f s3 = Ok u" "iunlockput i u = Ok w" "end_ret (- 1) w = Ok (r, t)"
            by (auto simp: sys_open_def)
          have "bal (\<lambda>_. 0) u" using bal_fileclose(1) [OF b3(1) u(1)] by (simp add: fun_upd_idem)
          then show ?thesis using u(2,3) iunlockput_fs end_ret_fs bal_more by (metis refs_ok_bal)
        next
          assume q: "0 \<le> fd" "bal (((\<lambda>_. 0)(f := 1))(f := ((\<lambda>_. 0)(f := 1)) f - 1)) s4"
          then have b4: "bal (\<lambda>_. 0) s4" by (simp add: fun_upd_idem)
          from q(1) fa fd xf p Some o1 ip assms(2) obtain s5 s6 where u: "iunlock i s4 = Ok s5" "end_op s5 = Ok s6"
            "t = upd_file f (\<lambda>x. x\<lparr>f_type := FD_INODE, f_ip := i, f_off := 0, f_readable := \<not> flag omode O_WRONLY,
                   f_writable := flag omode O_WRONLY \<or> flag omode O_RDWR, f_dev_payload := 0\<rparr>) s6"
            by (auto simp: sys_open_def)
          have b6: "bal (\<lambda>_. 0) s6" using b4 iunlock_fs [OF u(1)] end_op_fs [OF u(2)] bal_more by metis
          have "bal ((\<lambda>_. 0)(f := 0 + 0)) t"
            by (rule bal_file [OF b6, where f = "(get_file s6 f)\<lparr>f_type := FD_INODE, f_ip := i, f_off := 0, f_readable := \<not> flag omode O_WRONLY,
                   f_writable := flag omode O_WRONLY \<or> flag omode O_RDWR, f_dev_payload := 0\<rparr>"]) (simp_all add: u(3) tables_def)
          then show ?thesis by (simp add: refs_ok_bal fun_upd_idem)
        qed
      qed
    qed
  qed
qed

lemma pipealloc_bal:
  assumes b: "bal (\<lambda>_. 0) s" and a: "pipealloc s = Ok (x, t)"
  shows "case x of None \<Rightarrow> bal (\<lambda>_. 0) t
     | Some (f0, f1) \<Rightarrow> f0 < length (k_file t) \<and> f1 < length (k_file t) \<and> f0 \<noteq> f1 \<and> bal ((\<lambda>_. 0)(f0 := 1, f1 := 1)) t"
proof -
  obtain x0 s1 where f0: "filealloc s = (x0, s1)" by fastforce
  note b0 = bal_filealloc [OF b _ f0, simplified]
  show ?thesis
  proof (cases x0)
    case None
    then show ?thesis using f0 b0 a b by (simp add: pipealloc_def pipealloc_bad_def)
  next
    case (Some i0)
    then have b1: "bal ((\<lambda>_. 0)(i0 := 1)) s1" "i0 < length (k_file s1)" using b0 by simp_all
    obtain x1 s2 where f1: "filealloc s1 = (x1, s2)" by fastforce
    have nn: "0 \<le> ((\<lambda>_. 0 :: int)(i0 := 1)) i" for i by simp
    note bb = bal_filealloc [OF b1(1) nn f1]
    show ?thesis
    proof (cases x1)
      case None
      then obtain u where u: "fileclose i0 s1 = Ok u" "x = None" "t = u" using f0 f1 bb Some a by (auto simp: pipealloc_def pipealloc_bad_def)
      then show ?thesis using bal_fileclose(1) [OF b1(1) u(1)] by (simp add: fun_upd_idem)
    next
      case s1: (Some i1)
      then have b2: "bal ((\<lambda>_. 0)(i0 := 1, i1 := 1)) s2" "i1 \<noteq> i0" "i0 < length (k_file s2)" "i1 < length (k_file s2)"
        using bb b1(2) by (auto split: if_splits)
      from f0 f1 Some s1 a obtain p m where k: "kalloc (k_mm s2) = Ok (p, m)" "x = Some (i0, i1)" and
        t: "t = upd_file i1 (\<lambda>f. f\<lparr>f_type := FD_PIPE, f_readable := False, f_writable := True, f_pipe := p\<rparr>)
          (upd_file i0 (\<lambda>f. f\<lparr>f_type := FD_PIPE, f_readable := True, f_writable := False, f_pipe := p\<rparr>)
            (s2\<lparr>k_mm := m, k_pipe := (k_pipe s2)(p \<mapsto> pipe_fresh (load_bytes p PGSIZE m))\<rparr>))"
        by (auto simp: pipealloc_def Let_def)
      let ?u = "s2\<lparr>k_mm := m, k_pipe := (k_pipe s2)(p \<mapsto> pipe_fresh (load_bytes p PGSIZE m))\<rparr>"
      let ?v = "upd_file i0 (\<lambda>f. f\<lparr>f_type := FD_PIPE, f_readable := True, f_writable := False, f_pipe := p\<rparr>) ?u"
      let ?d = "(\<lambda>_. 0 :: int)(i0 := 1, i1 := 1)"
      have "bal ?d ?u" using b2(1) bal_tables [of ?u s2 ?d] mm_tables by metis
      then have "bal (?d(i0 := ?d i0 + 0)) ?v"
        by (rule bal_file [where f = "(get_file s2 i0)\<lparr>f_type := FD_PIPE, f_readable := True, f_writable := False, f_pipe := p\<rparr>"])
          (simp_all add: tables_def)
      then have "bal ?d ?v" by (simp add: fun_upd_idem fun_upd_twist)
      then have "bal (?d(i1 := ?d i1 + 0)) t" unfolding t
        by (rule bal_file [where f = "(get_file ?v i1)\<lparr>f_type := FD_PIPE, f_readable := False, f_writable := True, f_pipe := p\<rparr>"])
          (simp_all add: tables_def)
      then have "bal ?d t" by (simp add: fun_upd_idem)
      moreover have "length (k_file t) = length (k_file s2)" by (simp add: t)
      ultimately show ?thesis using k(2) b2 by simp
    qed
  qed
qed

lemma sys_pipe_refs:
  assumes "refs_ok s" and "sys_pipe s = Ok (r, t)"
  shows "refs_ok t"
proof -
  have b: "bal (\<lambda>_. 0) s" using assms(1) by (simp add: refs_ok_bal)
  from assms(2) obtain a where a: "argptr 0 8 s = Ok a" by (auto simp: sys_pipe_def)
  show ?thesis
  proof (cases a)
    case None
    then show ?thesis using a assms by (simp add: sys_pipe_def)
  next
    case (Some ptr)
    with a assms(2) obtain x s1 where p: "pipealloc s = Ok (x, s1)" by (auto simp: sys_pipe_def)
    note bp = pipealloc_bal [OF b p]
    show ?thesis
    proof (cases x)
      case None
      then show ?thesis using a Some p bp assms(2) by (simp add: sys_pipe_def refs_ok_bal)
    next
      case x: (Some y)
      then obtain f0 f1 where y: "x = Some (f0, f1)" by (cases y) auto
      then have b1: "f0 < length (k_file s1)" "f1 < length (k_file s1)" "f0 \<noteq> f1" "bal ((\<lambda>_. 0)(f0 := 1, f1 := 1)) s1"
        using bp by simp_all
      obtain d0 s2 where fd0: "fdalloc f0 s1 = (d0, s2)" by fastforce
      have closing: "refs_ok u2" if "bal ((\<lambda>_. 0)(f0 := 1, f1 := 1)) u" "fileclose f0 u = Ok u1" "fileclose f1 u1 = Ok u2" for u u1 u2
      proof -
        have "bal ((\<lambda>_. 0)(f1 := 1)) u1" using bal_fileclose(1) [OF that(1,2)] b1(3) by (simp add: fun_upd_idem fun_upd_twist)
        from bal_fileclose(1) [OF this that(3)] show ?thesis by (simp add: refs_ok_bal fun_upd_idem)
      qed
      from bal_fdalloc [OF b1(4) fd0 b1(1)] show ?thesis
      proof (elim disjE conjE)
        assume n: "d0 < 0" "s2 = s1"
        with a Some p y fd0 assms(2) obtain u where "fileclose f0 s1 = Ok u" "fileclose f1 u = Ok t" by (auto simp: sys_pipe_def)
        then show ?thesis using closing b1(4) by blast
      next
        assume q: "0 \<le> d0" "bal (((\<lambda>_. 0)(f0 := 1, f1 := 1))(f0 := ((\<lambda>_. 0)(f0 := 1, f1 := 1)) f0 - 1)) s2"
          "k_file s2 = k_file s1" "nat d0 < NOFILE" "ofiles s2 ! k_cur s2 ! nat d0 = Some f0"
        have b2: "bal ((\<lambda>_. 0)(f1 := 1)) s2" using q(2) b1(3) by (simp add: fun_upd_idem fun_upd_twist)
        obtain d1 s3 where fd1: "fdalloc f1 s2 = (d1, s3)" by fastforce
        have l1: "f1 < length (k_file s2)" using b1(2) q(3) by simp
        from bal_fdalloc [OF b2 fd1 l1] show ?thesis
        proof (elim disjE conjE)
          assume n: "d1 < 0" "s3 = s2"
          with a Some p y fd0 fd1 q(1) assms(2) obtain u where u: "fileclose f0 (clear_fd (nat d0) s2) = Ok u" "fileclose f1 u = Ok t"
            by (auto simp: sys_pipe_def)
          have "bal (((\<lambda>_. 0)(f1 := 1))(f0 := ((\<lambda>_. 0)(f1 := 1)) f0 + 1)) (clear_fd (nat d0) s2)" by (rule bal_clear_fd [OF b2 q(4,5)])
          then have "bal ((\<lambda>_. 0)(f0 := 1, f1 := 1)) (clear_fd (nat d0) s2)" using b1(3) by (simp add: fun_upd_twist)
          then show ?thesis using closing u by blast
        next
          assume w: "0 \<le> d1" "bal (((\<lambda>_. 0)(f1 := 1))(f1 := ((\<lambda>_. 0)(f1 := 1)) f1 - 1)) s3"
          with a Some p y fd0 fd1 q(1) assms(2) obtain bs where "store_user ptr bs s3 = Ok t" by (auto simp: sys_pipe_def)
          then show ?thesis using w(2) bal_tables [OF store_user_tables] by (metis fun_upd_idem fun_upd_same fun_upd_upd refs_ok_bal diff_self)
        qed
      qed
    qed
  qed
qed

text \<open>The calls that leave the file table and all descriptors alone.\<close>

lemma fs_calls_refs:
  assumes "refs_ok s"
  shows "sys_link s = Ok (r, t) \<Longrightarrow> refs_ok t" "sys_mkdir s = Ok (r, t) \<Longrightarrow> refs_ok t" "sys_mknod s = Ok (r, t) \<Longrightarrow> refs_ok t"
proof -
  have k: "fsst.more t = fsst.more s \<Longrightarrow> refs_ok t" using refs_ok_more [OF _ assms] by blast
  show "sys_link s = Ok (r, t) \<Longrightarrow> refs_ok t"
    by (rule k) (auto simp: sys_link_def split: option.splits dest!: link_paths_fs)
  show "sys_mkdir s = Ok (r, t) \<Longrightarrow> refs_ok t"
    by (rule k) (auto simp: sys_mkdir_def split: option.splits dest!: begin_op_fs create_fs end_ret_fs iunlockput_fs)
  show "sys_mknod s = Ok (r, t) \<Longrightarrow> refs_ok t"
    by (rule k) (auto simp: sys_mknod_def split: option.splits dest!: begin_op_fs create_fs end_ret_fs iunlockput_fs)
qed

section \<open>Properties\<close>

text \<open>
  \<^verbatim>\<open>sys_dup\<close> always returns: the new descriptor is one that was unused and refers to the same open
  file, whose count grows by one; it returns -1, with nothing changed, exactly when the argument is
  no open descriptor or all descriptors are in use.
\<close>

theorem sys_dup_shares:
  assumes "refs_ok s"
  shows "\<exists>r t. sys_dup s = Ok (r, t) \<and> refs_ok t \<and>
     (r = -1 \<and> t = s \<and> (argfd 0 s = Ok None \<or> None \<notin> set (p_ofile (cur s)))
      \<or> (\<exists>fd f. argfd 0 s = Ok (Some (fd, f)) \<and> 0 \<le> r \<and> nat r < NOFILE
           \<and> p_ofile (cur s) ! nat r = None \<and> p_ofile (cur t) = (p_ofile (cur s))[nat r := Some f]
           \<and> f_ref (get_file t f) = f_ref (get_file s f) + 1))"
  by (rule sys_dup_ok [OF assms])

text \<open>A kernel with one process, whose descriptor 0 is the only open file.\<close>

definition plain_tf :: trapframe where
  "plain_tf = \<lparr>tf_rax = 0, tf_rbx = 0, tf_rcx = 0, tf_rdx = 0, tf_rbp = 0, tf_rsi = 0, tf_rdi = 0, tf_r8 = 0,
     tf_r9 = 0, tf_r10 = 0, tf_r11 = 0, tf_r12 = 0, tf_r13 = 0, tf_r14 = 0, tf_r15 = 0, tf_trapno = 0,
     tf_err = 0, tf_rip = 0, tf_cs = 0, tf_rflags = 0, tf_rsp = 0, tf_ss = 0\<rparr>"

definition plain_proc :: proc where
  "plain_proc = \<lparr>p_sz = 0x3000, p_pgdir = 0xFFFF800000200000, p_kstack = 0xFFFF800000201000, p_state = RUNNING, p_pid = 1,
     p_parent = None, p_tf = plain_tf, p_context = AtSched, p_chan = None, p_killed = False,
     p_ofile = Some 0 # replicate 15 None, p_cwd = Some 0, p_name = []\<rparr>"

definition plain_mm :: vmst where
  "plain_mm = \<lparr>km_use_lock = True, km_freelist = 0, km_mem = (\<lambda>_. 0), vm_kpml4 = 0, vm_kpdpt = 0, vm_cr3 = 0, vm_tss1 = 0, vm_tss2 = 0\<rparr>"

definition plain_file :: kfile where
  "plain_file = \<lparr>f_type = FD_INODE, f_ref = 1, f_readable = True, f_writable = False, f_pipe = 0, f_ip = 0, f_off = 0, f_dev_payload = 0\<rparr>"

definition plain_kst :: kst where
  "plain_kst = fsst.extend (small_fs slot_1) (kst.fields [plain_file, plain_file\<lparr>f_type := FD_NONE, f_ref := 0\<rparr>] Map.empty plain_mm
     [plain_proc] 0 0 2 0 0 False False 0xFFFF800000100000)"

lemma plain_kst_sel:
  "k_file plain_kst = [plain_file, plain_file\<lparr>f_type := FD_NONE, f_ref := 0\<rparr>]" "k_proc plain_kst = [plain_proc]" "k_cur plain_kst = 0"
  "k_mm plain_kst = plain_mm" "k_ncli plain_kst = 0" "k_ptlock plain_kst = False" "k_initproc plain_kst = 0"
  by (simp_all add: plain_kst_def fsst.extend_def kst.fields_def)

lemma plain_refs: "refs_ok plain_kst"
proof -
  have "ofiles plain_kst = [Some 0 # replicate 15 None]" by (simp add: ofiles_def plain_kst_sel plain_proc_def)
  moreover have "nrefs [Some 0 # replicate 15 None] 0 = 1" "nrefs [Some 0 # replicate 15 None] 1 = 0"
    by (simp_all add: nrefs_def numeral_eq_Suc)
  ultimately show ?thesis
    by (auto simp: refs_ok_def fds_ok_def plain_kst_sel plain_file_def NOFILE_def less_Suc_eq)
qed

lemma plain_argfd: "argfd 0 plain_kst = Ok (Some (0, 0))"
  by (simp add: argfd_def argint_def fetcharg_def plain_kst_sel plain_proc_def plain_tf_def NOFILE_def)

lemma plain_dup: "\<exists>t. sys_dup plain_kst = Ok (1, t)"
proof -
  have "alloc_fd 0 (p_ofile (cur plain_kst)) = Some (1, Some 0 # Some 0 # replicate 14 None)"
    by (simp add: alloc_fd_def plain_kst_sel plain_proc_def numeral_eq_Suc)
  then show ?thesis
    using plain_argfd by (auto simp: sys_dup_def fdalloc_def filedup_def plain_kst_sel plain_file_def upd_proc_def)
qed

theorem sys_dup_shares_witness:
  "\<exists>t. sys_dup plain_kst = Ok (1, t) \<and> p_ofile (cur t) ! 1 = Some 0 \<and> f_ref (get_file t 0) = 2"
  using plain_dup sys_dup_shares [OF plain_refs] plain_argfd
  by (auto simp: plain_kst_sel plain_proc_def plain_file_def)

end
