(* ===== verification/Proc_Props.thy ===== *)
theory Proc_Props
  imports Proc File_Props
begin

text \<open>Properties of processes: the table, scheduling, \<^verbatim>\<open>wait\<close> and \<^verbatim>\<open>exit\<close>.\<close>

interpretation pt: slot_table "\<lambda>p. p_state p = UNUSED" "claim_proc pid" "alloc_proc_slot pid" for pid
  by unfold_locales (simp_all add: alloc_proc_slot_def claim_proc_def)

section \<open>The scheduler\<close>

lemma sched_scan_Some:
  "fst (sched_scan i k ps) = Some m \<longleftrightarrow> i \<le> m \<and> m < length ps \<and> p_state (ps ! m) = RUNNABLE
     \<and> (\<forall>j. i \<le> j \<and> j < m \<longrightarrow> p_state (ps ! j) \<noteq> RUNNABLE)"
proof (induction i k ps rule: sched_scan.induct)
  case (1 i k ps)
  consider "i < length ps" "p_state (ps ! i) = RUNNABLE" | "i < length ps" "p_state (ps ! i) \<noteq> RUNNABLE" | "length ps \<le> i" by linarith
  then show ?case
  proof cases
    case 1
    then have "fst (sched_scan i k ps) = Some i" by (subst sched_scan.simps) simp
    then show ?thesis using 1 by (cases "i < m") (auto simp: not_less)
  next
    case 2
    have "fst (sched_scan i k ps) = fst (sched_scan (Suc i) (Suc k) ps)" using 2 by (subst sched_scan.simps) simp
    also have "\<dots> = Some m \<longleftrightarrow> Suc i \<le> m \<and> m < length ps \<and> p_state (ps ! m) = RUNNABLE
        \<and> (\<forall>j. Suc i \<le> j \<and> j < m \<longrightarrow> p_state (ps ! j) \<noteq> RUNNABLE)" using "1.IH" 2 by simp
    also have "\<dots> \<longleftrightarrow> i \<le> m \<and> m < length ps \<and> p_state (ps ! m) = RUNNABLE \<and> (\<forall>j. i \<le> j \<and> j < m \<longrightarrow> p_state (ps ! j) \<noteq> RUNNABLE)"
      using 2 by (metis Suc_leD Suc_leI le_eq_less_or_eq)
    finally show ?thesis .
  next
    case 3
    then show ?thesis by (subst sched_scan.simps) auto
  qed
qed

lemma sched_scan_None:
  assumes "fst (sched_scan i k ps) = None" and "i \<le> j" and "j < length ps"
  shows "p_state (ps ! j) \<noteq> RUNNABLE"
proof
  assume r: "p_state (ps ! j) = RUNNABLE"
  define m where "m = (LEAST m. i \<le> m \<and> p_state (ps ! m) = RUNNABLE)"
  have m: "i \<le> m \<and> p_state (ps ! m) = RUNNABLE" unfolding m_def by (rule LeastI [of _ j]) (use assms(2) r in simp)
  have "m \<le> j" unfolding m_def by (rule Least_le) (use assms(2) r in simp)
  moreover have "p_state (ps ! l) \<noteq> RUNNABLE" if "i \<le> l" "l < m" for l
    using not_less_Least [of l "\<lambda>m. i \<le> m \<and> p_state (ps ! m) = RUNNABLE"] that unfolding m_def by blast
  ultimately have "fst (sched_scan i k ps) = Some m" using m assms(3) unfolding sched_scan_Some by auto
  with assms(1) show False by simp
qed

text \<open>
  The scheduler's position after \<open>n\<close> scans, when the \<open>n\<close>-th scan sees the table \<open>tab n\<close>: behind the process
  it has chosen, or at the start again after the end of a pass. Processes run, sleep, exit and are
  woken between the scans, so nothing is assumed of how one table follows from another.
\<close>

primrec sched_pos :: "(nat \<Rightarrow> proc list) \<Rightarrow> nat \<Rightarrow> nat \<Rightarrow> nat" where
  "sched_pos tab i 0 = i"
| "sched_pos tab i (Suc n) = (case fst (sched_scan (sched_pos tab i n) 0 (tab n)) of Some j \<Rightarrow> Suc j | None \<Rightarrow> 0)"

abbreviation picks :: "(nat \<Rightarrow> proc list) \<Rightarrow> nat \<Rightarrow> nat \<Rightarrow> nat option" where
  "picks tab i n \<equiv> fst (sched_scan (sched_pos tab i n) 0 (tab n))"

lemma sched_pos_shift: "sched_pos tab i (a + n) = sched_pos (\<lambda>k. tab (a + k)) (sched_pos tab i a) n"
  by (induction n) auto

text \<open>From a position not behind process \<open>j\<close>, it takes at most \<open>j - i\<close> other choices.\<close>

lemma picked_from_below:
  assumes "i \<le> j" and "\<And>n. n \<le> j - i \<Longrightarrow> j < length (tab n) \<and> p_state (tab n ! j) = RUNNABLE"
  shows "\<exists>n \<le> j - i. picks tab i n = Some j"
  using assms
proof (induction "j - i" arbitrary: i tab rule: less_induct)
  case less
  have r: "j < length (tab 0)" "p_state (tab 0 ! j) = RUNNABLE" using less.prems(2) [of 0] by simp_all
  show ?case
  proof (cases "picks tab i 0")
    case None
    then show ?thesis using sched_scan_None [of i 0 "tab 0" j] less.prems(1) r by simp
  next
    case (Some m)
    then have m: "i \<le> m" "\<not> (i \<le> j \<and> j < m)" using r sched_scan_Some [of i 0 "tab 0" m] by auto
    show ?thesis
    proof (cases "m = j")
      case True
      then show ?thesis using Some by (intro exI [of _ 0]) simp
    next
      case False
      then have lt: "m < j" using m less.prems(1) by simp
      have p1: "sched_pos tab i 1 = Suc m" using Some by simp
      have "\<exists>n \<le> j - Suc m. picks (\<lambda>k. tab (1 + k)) (Suc m) n = Some j"
        by (rule less.hyps) (use lt m(1) less.prems(2) in auto)
      then obtain n where n: "n \<le> j - Suc m" "picks (\<lambda>k. tab (1 + k)) (Suc m) n = Some j" by blast
      have "picks tab i (1 + n) = Some j" using n(2) sched_pos_shift [of tab i 1 n] p1 by simp
      then show ?thesis using n(1) m(1) lt by (intro exI [of _ "1 + n"]) simp
    qed
  qed
qed

text \<open>Every pass ends: from any position, either \<open>j\<close> is chosen or the scan is back at the start.\<close>

lemma pass_ends:
  assumes "i \<le> L" and "\<And>n. n \<le> L - i \<Longrightarrow> length (tab n) = L"
  shows "\<exists>n \<le> L - i. picks tab i n = None"
  using assms
proof (induction "L - i" arbitrary: i tab rule: less_induct)
  case less
  show ?case
  proof (cases "picks tab i 0")
    case None
    then show ?thesis by (intro exI [of _ 0]) simp
  next
    case (Some m)
    then have m: "i \<le> m" "m < L" using less.prems(2) [of 0] sched_scan_Some [of i 0 "tab 0" m] by auto
    have p1: "sched_pos tab i 1 = Suc m" using Some by simp
    have "\<exists>n \<le> L - Suc m. picks (\<lambda>k. tab (1 + k)) (Suc m) n = None"
      by (rule less.hyps) (use m less.prems(2) in auto)
    then obtain n where n: "n \<le> L - Suc m" "picks (\<lambda>k. tab (1 + k)) (Suc m) n = None" by blast
    have "picks tab i (1 + n) = None" using n(2) sched_pos_shift [of tab i 1 n] p1 by simp
    then show ?thesis using n(1) m by (intro exI [of _ "1 + n"]) simp
  qed
qed

text \<open>
  C11. No process starves: a process that stays runnable is chosen by the scheduler after at most
  \<open>2 * NPROC + 1\<close> scans, wherever the scheduler is in the table and whatever the other processes do in
  the meantime.
\<close>

theorem scheduler_no_starvation:
  assumes "\<And>n. length (tab n) = NPROC" and "j < NPROC" and "\<And>n. p_state (tab n ! j) = RUNNABLE" and "i \<le> NPROC"
  shows "\<exists>n \<le> 2 * NPROC. fst (sched_scan (sched_pos tab i n) 0 (tab n)) = Some j"
proof -
  obtain a where a: "a \<le> NPROC - i" "picks tab i a = None" using pass_ends [OF assms(4), of tab] assms(1) by blast
  have p0: "sched_pos tab i (Suc a) = 0" using a(2) by simp
  have "\<exists>n \<le> j - 0. picks (\<lambda>k. tab (Suc a + k)) 0 n = Some j"
    by (rule picked_from_below) (use assms in auto)
  then obtain n where n: "n \<le> j" "picks (\<lambda>k. tab (Suc a + k)) 0 n = Some j" by auto
  have "picks tab i (Suc a + n) = Some j" using n(2) sched_pos_shift [of tab i "Suc a" n] p0 by simp
  moreover have "Suc a + n \<le> 2 * NPROC" using a(1) n(1) assms(2) by simp
  ultimately show ?thesis by blast
qed

theorem scheduler_no_starvation_witness:
  "\<exists>n \<le> 2 * NPROC. fst (sched_scan (sched_pos (\<lambda>n. replicate NPROC (plain_proc\<lparr>p_state := RUNNABLE\<rparr>)) 7 n) 0
      (replicate NPROC (plain_proc\<lparr>p_state := RUNNABLE\<rparr>))) = Some 3"
  by (rule scheduler_no_starvation) (simp_all add: NPROC_def)

section \<open>Wait\<close>

lemma lock_round_trip: "\<not> k_ptlock s \<Longrightarrow> s\<lparr>k_ptlock := True, k_ncli := k_ncli s + 1\<rparr>\<lparr>k_ptlock := False, k_ncli := k_ncli s\<rparr> = s"
  by simp

text \<open>
  What \<^verbatim>\<open>wait\<close> does, in all cases: a child that has exited is removed from the table, with its
  kernel stack and address space freed, and its pid is returned; without children, or when the
  caller has been killed, the result is -1 and nothing has changed; otherwise the caller sleeps on
  its own process structure, still holding the table lock, so no exit of a child can come in between.
\<close>

theorem wait_outcomes:
  assumes "\<not> k_ptlock s" and "k_ncli s = 0" and "k_cur s < length (k_proc s)"
  shows "case first_idx (\<lambda>p. p_parent p = Some (k_cur s) \<and> p_state p = ZOMBIE) (k_proc s) of
     Some i \<Rightarrow> \<forall>m m'. kfree (k_end s) (p_kstack (get_proc s i)) (k_mm s) = Ok m \<and> freevm (k_end s) (p_pgdir (get_proc s i)) m = Ok m' \<longrightarrow>
       (\<exists>t. wait s = Ok (Ret (p_pid (get_proc s i)), t) \<and> \<not> k_ptlock t \<and> k_mm t = m'
          \<and> p_state (get_proc t i) = UNUSED \<and> p_parent (get_proc t i) = None \<and> (\<forall>j. j \<noteq> i \<longrightarrow> get_proc t j = get_proc s j))
   | None \<Rightarrow>
       if (\<forall>p \<in> set (k_proc s). p_parent p \<noteq> Some (k_cur s)) \<or> p_killed (cur s) then wait s = Ok (Ret (-1), s)
       else \<exists>t. wait s = Ok (Blocked (ChanProc (k_cur s)), t) \<and> k_ptlock t \<and> k_cur t = k_cur s
          \<and> p_state (cur t) = SLEEPING \<and> p_chan (cur t) = Some (ChanProc (k_cur s))
          \<and> (\<forall>j. j \<noteq> k_cur s \<longrightarrow> get_proc t j = get_proc s j)"
proof (cases "first_idx (\<lambda>p. p_parent p = Some (k_cur s) \<and> p_state p = ZOMBIE) (k_proc s)")
  case None
  then have sc: "wait_scan (k_cur s) (k_proc s) = (None, \<exists>p \<in> set (k_proc s). p_parent p = Some (k_cur s))" by (simp add: wait_scan_def)
  show ?thesis
  proof (cases "(\<forall>p \<in> set (k_proc s). p_parent p \<noteq> Some (k_cur s)) \<or> p_killed (cur s)")
    case True
    then have "\<not> (\<exists>p \<in> set (k_proc s). p_parent p = Some (k_cur s)) \<or> p_killed (cur s)" by blast
    then have "wait s = Ok (Ret (-1), s)"
      using assms(1) sc by (simp add: wait_def wait_round_def acquire_ptable_def release_ptable_def)
    then show ?thesis using None True by simp
  next
    case False
    then have h: "(\<exists>p \<in> set (k_proc s). p_parent p = Some (k_cur s)) \<and> \<not> p_killed (cur s)" by blast
    have "\<exists>t. wait s = Ok (Blocked (ChanProc (k_cur s)), t) \<and> k_ptlock t \<and> k_cur t = k_cur s
          \<and> p_state (cur t) = SLEEPING \<and> p_chan (cur t) = Some (ChanProc (k_cur s))
          \<and> (\<forall>j. j \<noteq> k_cur s \<longrightarrow> get_proc t j = get_proc s j)"
      using assms h sc
      by (simp add: wait_def wait_round_def acquire_ptable_def sleep_def sched_def upd_proc_def)
    then show ?thesis unfolding None option.case if_not_P [OF False] .
  qed
next
  case (Some i)
  note i = first_idx_SomeD(1,2) [OF Some]
  have sc: "wait_scan (k_cur s) (k_proc s) = (Some i, \<exists>p \<in> set (k_proc s). p_parent p = Some (k_cur s))" using Some by (simp add: wait_scan_def)
  have "\<exists>t. wait s = Ok (Ret (p_pid (get_proc s i)), t) \<and> \<not> k_ptlock t \<and> k_mm t = m'
          \<and> p_state (get_proc t i) = UNUSED \<and> p_parent (get_proc t i) = None \<and> (\<forall>j. j \<noteq> i \<longrightarrow> get_proc t j = get_proc s j)"
    if "kfree (k_end s) (p_kstack (get_proc s i)) (k_mm s) = Ok m" "freevm (k_end s) (p_pgdir (get_proc s i)) m = Ok m'" for m m'
    using assms(1) sc that i(1)
    by (simp add: wait_def wait_round_def acquire_ptable_def release_ptable_def upd_proc_def Let_def)
  then show ?thesis using Some by simp
qed

lemma plain_wait: "k_ptlock plain_kst = False" "k_ncli plain_kst = 0" "k_cur plain_kst < length (k_proc plain_kst)"
  by (simp_all add: plain_kst_sel)

theorem wait_outcomes_witness:
  "wait plain_kst = Ok (Ret (-1), plain_kst)"
  using wait_outcomes [of plain_kst] by (simp add: plain_kst_sel plain_proc_def)

section \<open>Process identifiers\<close>

definition pids_ok :: "int \<Rightarrow> proc list \<Rightarrow> bool" where
  "pids_ok next ps \<longleftrightarrow> (\<forall>i < length ps. p_state (ps ! i) \<noteq> UNUSED \<longrightarrow> p_pid (ps ! i) < next \<and> p_pid (ps ! i) \<noteq> 0)
     \<and> (\<forall>i < length ps. \<forall>j < length ps. p_state (ps ! i) \<noteq> UNUSED \<and> p_state (ps ! j) \<noteq> UNUSED \<and> p_pid (ps ! i) = p_pid (ps ! j) \<longrightarrow> i = j)"

text \<open>
  C13. \<^verbatim>\<open>allocproc\<close> takes the first unused slot and a pid that no process in the table has, as long as
  the counter has not run through all positive numbers; no two processes in use ever have the same
  pid. It returns without a process, the state unchanged, exactly when the table is full.
\<close>

theorem allocproc_unique_pid:
  assumes "pids_ok (k_nextpid s) (k_proc s)" and "0 < k_nextpid s" "k_nextpid s < 2 ^ 31 - 1" and "\<not> k_ptlock s"
    and "kmem_free (k_end s) (k_mm s) (pg # pgs)"
  shows "if \<forall>p \<in> set (k_proc s). p_state p \<noteq> UNUSED then allocproc s = Ok (None, s)
     else \<exists>i t. allocproc s = Ok (Some i, t) \<and> i < length (k_proc s) \<and> p_state (get_proc s i) = UNUSED
       \<and> pids_ok (k_nextpid t) (k_proc t) \<and> 0 < k_nextpid t
       \<and> p_state (get_proc t i) = EMBRYO \<and> p_pid (get_proc t i) = k_nextpid s
       \<and> p_kstack (get_proc t i) = pg \<and> p_context (get_proc t i) = AtForkret \<and> kmem_free (k_end s) (k_mm t) pgs
       \<and> (\<forall>j. j \<noteq> i \<longrightarrow> get_proc t j = get_proc s j)"
proof (cases "alloc_proc_slot (k_nextpid s) (k_proc s)")
  case None
  then have "\<forall>p \<in> set (k_proc s). p_state p \<noteq> UNUSED" using pt.alloc_None by blast
  moreover have "allocproc s = Ok (None, s)" using None assms(4) by (simp add: allocproc_def acquire_ptable_def release_ptable_def)
  ultimately show ?thesis by simp
next
  case (Some x)
  then obtain i ps where x: "alloc_proc_slot (k_nextpid s) (k_proc s) = Some (i, ps)" by (cases x) auto
  note a = pt.alloc_Some [OF x]
  have ex: "\<not> (\<forall>p \<in> set (k_proc s). p_state p \<noteq> UNUSED)" using a(1,2) nth_mem by blast
  obtain m where m: "kalloc (k_mm s) = Ok (pg, m)" "kmem_free (k_end s) m pgs" using kalloc_ok(1) [OF assms(5)] by blast
  have pg: "pg \<noteq> 0" using assms(5) by (auto simp: kmem_free_def page_ok_def)
  have nx: "int32 (k_nextpid s + 1) = k_nextpid s + 1" using assms(2,3) by (intro int32_id) simp_all
  define p' where "p' = (claim_proc (k_nextpid s) (get_proc s i))\<lparr>p_kstack := pg, p_context := AtForkret\<rparr>"
  have "\<exists>t. allocproc s = Ok (Some i, t) \<and> k_proc t = (k_proc s)[i := p'] \<and> k_nextpid t = k_nextpid s + 1 \<and> k_mm t = m"
    using x a(1,4) assms(4) m(1) pg nx
    by (simp add: allocproc_def acquire_ptable_def release_ptable_def upd_proc_def p'_def)
  then obtain t where t: "allocproc s = Ok (Some i, t)" "k_proc t = (k_proc s)[i := p']" "k_nextpid t = k_nextpid s + 1" "k_mm t = m" by blast
  have p': "p_state p' = EMBRYO" "p_pid p' = k_nextpid s" "p_kstack p' = pg" "p_context p' = AtForkret" by (simp_all add: p'_def claim_proc_def)
  have bound: "p_pid (get_proc s j) < k_nextpid s" "p_pid (get_proc s j) \<noteq> 0" if "j < length (k_proc s)" "p_state (get_proc s j) \<noteq> UNUSED" for j
    using assms(1) that by (simp_all add: pids_ok_def)
  have uniq: "j = l" if "j < length (k_proc s)" "l < length (k_proc s)" "p_state (get_proc s j) \<noteq> UNUSED" "p_state (get_proc s l) \<noteq> UNUSED"
      "p_pid (get_proc s j) = p_pid (get_proc s l)" for j l
    using assms(1) that unfolding pids_ok_def by blast
  have "pids_ok (k_nextpid t) (k_proc t)"
    unfolding pids_ok_def t(2,3)
  proof (intro conjI allI impI)
    fix j assume j: "j < length ((k_proc s)[i := p'])" "p_state ((k_proc s)[i := p'] ! j) \<noteq> UNUSED"
    show "p_pid ((k_proc s)[i := p'] ! j) < k_nextpid s + 1" "p_pid ((k_proc s)[i := p'] ! j) \<noteq> 0"
      using j bound [of j] p' assms(2) by (cases "j = i"; simp)+
  next
    fix j l assume j: "j < length ((k_proc s)[i := p'])" "l < length ((k_proc s)[i := p'])"
      "p_state ((k_proc s)[i := p'] ! j) \<noteq> UNUSED \<and> p_state ((k_proc s)[i := p'] ! l) \<noteq> UNUSED
       \<and> p_pid ((k_proc s)[i := p'] ! j) = p_pid ((k_proc s)[i := p'] ! l)"
    then show "j = l"
      using bound(1) [of j] bound(1) [of l] uniq [of j l] p' by (cases "j = i"; cases "l = i") simp_all
  qed
  then show ?thesis
    using ex t a(1,2) p' m(2) assms(2) by auto
qed

lemma plain_proc_table:
  assumes "s = plain_kst\<lparr>k_proc := [plain_proc, plain_proc\<lparr>p_state := UNUSED\<rparr>], k_mm := plain_mm\<lparr>km_freelist := 0xFFFF800000300000\<rparr>\<rparr>"
  shows "k_proc s = [plain_proc, plain_proc\<lparr>p_state := UNUSED\<rparr>]" "k_nextpid s = 2" "\<not> k_ptlock s"
    "kmem_free (k_end s) (k_mm s) [0xFFFF800000300000]" "pids_ok (k_nextpid s) (k_proc s)"
proof -
  show e: "k_proc s = [plain_proc, plain_proc\<lparr>p_state := UNUSED\<rparr>]" "k_nextpid s = 2" "\<not> k_ptlock s"
    by (simp_all add: assms plain_kst_def fsst.extend_def kst.fields_def)
  have "k_end s = 0xFFFF800000100000" by (simp add: assms plain_kst_def fsst.extend_def kst.fields_def)
  moreover have "ld64 (\<lambda>_. 0) a = 0" for a by (simp add: ld64_def upt_rec)
  ultimately show "kmem_free (k_end s) (k_mm s) [0xFFFF800000300000]"
    by (simp add: assms plain_mm_def kmem_free_def page_ok_def PGSIZE_def V2P_def KERNBASE_def PHYSTOP_def)
  show "pids_ok (k_nextpid s) (k_proc s)"
    unfolding e pids_ok_def by (auto simp: less_Suc_eq plain_proc_def)
qed

theorem allocproc_unique_pid_witness:
  "\<exists>t. allocproc (plain_kst\<lparr>k_proc := [plain_proc, plain_proc\<lparr>p_state := UNUSED\<rparr>], k_mm := plain_mm\<lparr>km_freelist := 0xFFFF800000300000\<rparr>\<rparr>) = Ok (Some 1, t)
     \<and> p_pid (get_proc t 1) = 2"
proof -
  let ?s = "plain_kst\<lparr>k_proc := [plain_proc, plain_proc\<lparr>p_state := UNUSED\<rparr>], k_mm := plain_mm\<lparr>km_freelist := 0xFFFF800000300000\<rparr>\<rparr>"
  note e = plain_proc_table [OF refl]
  have "0 < k_nextpid ?s" "k_nextpid ?s < 2 ^ 31 - 1" unfolding e(2) by simp_all
  from allocproc_unique_pid [OF e(5) this e(3,4)] obtain i t where t: "allocproc ?s = Ok (Some i, t)" "i < length (k_proc ?s)"
    "p_state (get_proc ?s i) = UNUSED" "p_pid (get_proc t i) = k_nextpid ?s"
    unfolding e(1) by auto
  have "i = 1" using t(2,3) unfolding e(1) by (auto simp: less_Suc_eq plain_proc_def)
  then show ?thesis using t(1,4) e(2) by auto
qed

section \<open>Exit\<close>

text \<open>What other processes can see of the files of a process being closed: sleepers are woken.\<close>

definition only_woken :: "'z kst_scheme \<Rightarrow> 'z kst_scheme \<Rightarrow> bool" where
  "only_woken s t \<longleftrightarrow> k_cur t = k_cur s \<and> k_initproc t = k_initproc s \<and> length (k_proc t) = length (k_proc s)
     \<and> (\<forall>i < length (k_proc s). p_parent (get_proc t i) = p_parent (get_proc s i) \<and> p_chan (get_proc t i) = p_chan (get_proc s i)
          \<and> (p_state (get_proc t i) = p_state (get_proc s i) \<or> p_state (get_proc s i) = SLEEPING \<and> p_state (get_proc t i) = RUNNABLE))"

lemma only_woken_refl: "only_woken s s"
  by (simp add: only_woken_def)

lemma only_woken_trans: "only_woken s t \<Longrightarrow> only_woken t u \<Longrightarrow> only_woken s u"
  unfolding only_woken_def by (metis (no_types, lifting) procstate.distinct(25))

lemma kst_more2: "fsst.more t = fsst.more (s :: 'z kst_scheme) \<Longrightarrow> k_initproc t = k_initproc s \<and> k_ptlock t = k_ptlock s \<and> k_ncli t = k_ncli s"
  by (cases t, cases s) simp

lemma more_woken: "fsst.more t = fsst.more s \<Longrightarrow> only_woken s t"
  using kst_more [of t s] kst_more2 [of t s] by (simp add: only_woken_def)

lemma wakeup_woken: "only_woken s (wakeup c s)"
  by (auto simp: only_woken_def wakeup_def wakeup1_def wake_def)

lemma pipe_wakeups_woken: "only_woken s (pipe_wakeups p cs s)"
  unfolding pipe_wakeups_def
  by (induction cs arbitrary: s) (auto intro: only_woken_refl only_woken_trans wakeup_woken)

lemma update_woken:
  "only_woken s (s\<lparr>k_pipe := q\<rparr>)" "only_woken s (s\<lparr>k_mm := m\<rparr>)" "only_woken s (s\<lparr>k_mm := m, k_pipe := q\<rparr>)"
  "only_woken s (upd_file i f s)"
  by (simp_all add: only_woken_def upd_file_def)

lemma upd_proc_woken:
  assumes "\<And>p. p_parent (f p) = p_parent p \<and> p_chan (f p) = p_chan p \<and> p_state (f p) = p_state p"
  shows "only_woken s (upd_proc i f s)"
proof (cases "i < length (k_proc s)")
  case True
  then show ?thesis using assms by (auto simp: only_woken_def upd_proc_def nth_list_update)
next
  case False
  then show ?thesis by (simp add: upd_proc_def only_woken_def list_update_beyond)
qed

lemma clear_fd_woken: "only_woken s (clear_fd fd s)"
  unfolding clear_fd_def by (rule upd_proc_woken) simp

lemma pipe_close_woken:
  assumes "pipe_close p w s = Ok t"
  shows "only_woken s t"
proof -
  from assms obtain pp pp' cs freed where c: "k_pipe s p = Some pp" "pipeclose pp w = (pp', cs, freed)"
    by (cases "k_pipe s p"; cases "pipeclose (the (k_pipe s p)) w") (auto simp: pipe_close_def)
  let ?u = "pipe_wakeups p cs (s\<lparr>k_pipe := (k_pipe s)(p \<mapsto> pp')\<rparr>)"
  have u: "only_woken s ?u" by (rule only_woken_trans [OF update_woken(1) pipe_wakeups_woken])
  have "only_woken ?u t" using assms c update_woken(3) only_woken_refl by (auto simp: pipe_close_def Let_def split: if_splits)
  with u show ?thesis by (rule only_woken_trans)
qed

lemma fileclose_woken:
  assumes "fileclose i s = Ok t"
  shows "only_woken s t"
proof (cases "f_ref (get_file s i) - 1 > 0")
  case True
  then show ?thesis using assms update_woken(4) by (auto simp: fileclose_def Let_def split: if_splits)
next
  case False
  let ?u = "upd_file i (\<lambda>f. f\<lparr>f_ref := 0, f_type := FD_NONE\<rparr>) s"
  have "only_woken ?u t"
    using assms False only_woken_refl by (cases "f_type (get_file s i)")
      (auto simp: fileclose_def Let_def split: if_splits dest!: pipe_close_woken begin_op_fs iput_fs end_op_fs dest: more_woken)
  then show ?thesis by (rule only_woken_trans [OF update_woken(4)])
qed

text \<open>Closing the descriptors one after the other.\<close>

lemma exit_fds:
  assumes "fold_res exit_fd [0..<n] s = Ok t" and "k_cur s < length (k_proc s)" and "n \<le> length (p_ofile (cur s))"
  shows "only_woken s t \<and> length (p_ofile (cur t)) = length (p_ofile (cur s)) \<and> (\<forall>fd < n. p_ofile (cur t) ! fd = None)"
  using assms
proof (induction n arbitrary: t)
  case 0
  then show ?case using only_woken_refl by simp
next
  case (Suc n)
  then obtain u where u: "fold_res exit_fd [0..<n] s = Ok u" "exit_fd n u = Ok t" by (auto simp: fold_res_append)
  have ih: "only_woken s u" "length (p_ofile (cur u)) = length (p_ofile (cur s))" "\<forall>fd < n. p_ofile (cur u) ! fd = None"
    using Suc.IH [OF u(1)] Suc.prems(2,3) by simp_all
  have cu: "k_cur u < length (k_proc u)" using ih(1) Suc.prems(2) by (simp add: only_woken_def)
  show ?case
  proof (cases "p_ofile (cur u) ! n")
    case None
    then have "t = u" using u(2) by (simp add: exit_fd_def)
    then show ?thesis using ih None by (auto simp: less_Suc_eq)
  next
    case (Some f)
    then obtain w where w: "fileclose f u = Ok w" "t = clear_fd n w" using u(2) by (auto simp: exit_fd_def)
    have ow: "only_woken u w" by (rule fileclose_woken [OF w(1)])
    have of: "ofiles w = ofiles u" "k_cur w = k_cur u" using fileclose_files [OF w(1)] by (auto simp: tables_def)
    have lw: "k_cur w < length (k_proc w)" using ow cu by (simp add: only_woken_def)
    have same: "p_ofile (cur w) = p_ofile (cur u)" using cur_ofile [OF lw] cur_ofile [OF cu] of by simp
    have ct: "p_ofile (cur t) = (p_ofile (cur u))[n := None]" using lw same by (simp add: w(2) clear_fd_def)
    have "only_woken s t" unfolding w(2) by (rule only_woken_trans [OF only_woken_trans [OF ih(1) ow] clear_fd_woken])
    moreover have "n < length (p_ofile (cur u))" using Suc.prems(3) ih(2) by simp
    ultimately show ?thesis using ct ih(2,3) by (auto simp: less_Suc_eq)
  qed
qed

text \<open>Handing the children over.\<close>

lemma wakeup1_sel [simp]:
  "length (wakeup1 c ps) = length ps" "i < length ps \<Longrightarrow> p_parent (wakeup1 c ps ! i) = p_parent (ps ! i)"
  "i < length ps \<Longrightarrow> p_ofile (wakeup1 c ps ! i) = p_ofile (ps ! i)" "i < length ps \<Longrightarrow> p_cwd (wakeup1 c ps ! i) = p_cwd (ps ! i)"
  "i < length ps \<Longrightarrow> p_chan (wakeup1 c ps ! i) = p_chan (ps ! i)"
  "i < length ps \<Longrightarrow> p_state (wakeup1 c ps ! i) = (if p_state (ps ! i) = SLEEPING \<and> p_chan (ps ! i) = Some c then RUNNABLE else p_state (ps ! i))"
  by (simp_all add: wakeup1_def wake_def)

lemma reparent_sel:
  assumes "k < length ps"
  shows "length (reparent me init k ps) = length ps"
    and "i < length ps \<Longrightarrow> p_parent (reparent me init k ps ! i) = (if i = k \<and> p_parent (ps ! i) = Some me then Some init else p_parent (ps ! i))"
    and "i < length ps \<Longrightarrow> p_ofile (reparent me init k ps ! i) = p_ofile (ps ! i)"
    and "i < length ps \<Longrightarrow> p_cwd (reparent me init k ps ! i) = p_cwd (ps ! i)"
    and "i < length ps \<Longrightarrow> p_chan (reparent me init k ps ! i) = p_chan (ps ! i)"
    and "i < length ps \<Longrightarrow> p_state (ps ! i) = RUNNABLE \<Longrightarrow> p_state (reparent me init k ps ! i) = RUNNABLE"
  using assms by (auto simp: reparent_def Let_def nth_list_update)

lemma reparent_all:
  assumes "n \<le> length ps" and "me \<noteq> init"
  shows "length (fold (reparent me init) [0..<n] ps) = length ps
     \<and> (\<forall>i < length ps. p_parent (fold (reparent me init) [0..<n] ps ! i) = (if i < n \<and> p_parent (ps ! i) = Some me then Some init else p_parent (ps ! i))
          \<and> p_ofile (fold (reparent me init) [0..<n] ps ! i) = p_ofile (ps ! i) \<and> p_cwd (fold (reparent me init) [0..<n] ps ! i) = p_cwd (ps ! i)
          \<and> (p_state (ps ! i) = RUNNABLE \<longrightarrow> p_state (fold (reparent me init) [0..<n] ps ! i) = RUNNABLE))"
  using assms
proof (induction n)
  case (Suc n)
  let ?q = "fold (reparent me init) [0..<n] ps"
  have ih: "length ?q = length ps" "n < length ?q" and n: "n < length ps" using Suc by simp_all
  have sel: "fold (reparent me init) [0..<Suc n] ps = reparent me init n ?q" by simp
  show ?case
  proof (intro conjI allI impI, goal_cases)
    case 1
    show ?case using ih(1) reparent_sel(1) [OF ih(2)] by (simp add: sel)
  next
    case (2 i)
    have i: "i < length ?q" using 2 ih(1) by simp
    have "p_parent (?q ! i) = (if i < n \<and> p_parent (ps ! i) = Some me then Some init else p_parent (ps ! i))" using Suc 2 by simp
    then show ?case unfolding sel reparent_sel(2) [OF ih(2) i] using assms(2) by (auto simp: less_Suc_eq)
  next
    case (3 i)
    have i: "i < length ?q" using 3 ih(1) by simp
    show ?case unfolding sel reparent_sel(3) [OF ih(2) i] using Suc 3 by simp
  next
    case (4 i)
    have i: "i < length ?q" using 4 ih(1) by simp
    show ?case unfolding sel reparent_sel(4) [OF ih(2) i] using Suc 4 by simp
  next
    case (5 i)
    have i: "i < length ?q" using 5 ih(1) by simp
    show ?case unfolding sel by (rule reparent_sel(6) [OF ih(2) i]) (use Suc 5 in simp)
  qed
qed simp

lemma exit_zombie:
  assumes "exit s = Ok t" and "k_cur s < length (k_proc s)" and "length (p_ofile (cur s)) = NOFILE"
  shows "k_cur s \<noteq> k_initproc s \<and> k_cur t = k_cur s \<and> length (k_proc t) = length (k_proc s) \<and> k_ptlock t
     \<and> p_state (cur t) = ZOMBIE \<and> set (p_ofile (cur t)) \<subseteq> {None} \<and> p_cwd (cur t) = None
     \<and> (\<forall>i < length (k_proc s). i \<noteq> k_cur s \<longrightarrow>
          p_parent (get_proc t i) = (if p_parent (get_proc s i) = Some (k_cur s) then Some (k_initproc s) else p_parent (get_proc s i)))
     \<and> (\<forall>pp < length (k_proc s). p_parent (cur s) = Some pp \<and> pp \<noteq> k_cur s
          \<and> p_state (get_proc s pp) = SLEEPING \<and> p_chan (get_proc s pp) = Some (ChanProc pp) \<longrightarrow> p_state (get_proc t pp) = RUNNABLE)"
proof -
  have ni: "k_cur s \<noteq> k_initproc s" using assms(1) by (auto simp: exit_def)
  then obtain s1 s2 s3 s4 s5 where e: "fold_res exit_fd [0..<NOFILE] s = Ok s1" "begin_op s1 = Ok s2" "iput (cwd s2) s2 = Ok s3"
    "end_op s3 = Ok s4" "acquire_ptable (upd_cur (\<lambda>p. p\<lparr>p_cwd := None\<rparr>) s4) = Ok s5"
    "sched (upd_cur (\<lambda>p. p\<lparr>p_state := ZOMBIE\<rparr>) (s5\<lparr>k_proc :=
        fold (reparent (k_cur s5) (k_initproc s5)) [0..<length (k_proc s5)]
          (case p_parent (cur s5) of None \<Rightarrow> k_proc s5 | Some pp \<Rightarrow> wakeup1 (ChanProc pp) (k_proc s5))\<rparr>)) = Ok t"
    using assms(1) by (auto simp: exit_def Let_def split: option.splits)
  have x: "only_woken s s1" "length (p_ofile (cur s1)) = NOFILE" "\<forall>fd < NOFILE. p_ofile (cur s1) ! fd = None"
    using exit_fds [OF e(1) assms(2)] assms(3) by simp_all
  have m4: "fsst.more s4 = fsst.more s1" using begin_op_fs [OF e(2)] iput_fs [OF e(3)] end_op_fs [OF e(4)] by simp
  have p4: "k_proc s4 = k_proc s1" "k_cur s4 = k_cur s1" "k_initproc s4 = k_initproc s1" using kst_more [OF m4] kst_more2 [OF m4] by simp_all
  have c1: "k_cur s1 = k_cur s" "k_initproc s1 = k_initproc s" "length (k_proc s1) = length (k_proc s)" using x(1) by (simp_all add: only_woken_def)
  have p5: "k_proc s5 = (k_proc s1)[k_cur s := (get_proc s1 (k_cur s))\<lparr>p_cwd := None\<rparr>]" "k_cur s5 = k_cur s" "k_initproc s5 = k_initproc s" "k_ptlock s5"
    using e(5) p4 c1 by (auto simp: acquire_ptable_def upd_proc_def split: if_splits)
  define qs where "qs = (case p_parent (cur s5) of None \<Rightarrow> k_proc s5 | Some pp \<Rightarrow> wakeup1 (ChanProc pp) (k_proc s5))"
  define rs where "rs = fold (reparent (k_cur s) (k_initproc s)) [0..<length (k_proc s)] qs"
  have lq: "length qs = length (k_proc s)" using p5(1) c1(3) by (auto simp: qs_def split: option.splits)
  have q: "p_parent (qs ! i) = p_parent (get_proc s i)" "p_ofile (qs ! i) = p_ofile (get_proc s1 i)"
      "i = k_cur s \<Longrightarrow> p_cwd (qs ! i) = None" if "i < length (k_proc s)" for i
    using that x(1) assms(2) c1(3) by (auto simp: qs_def only_woken_def p5(1) nth_list_update split: option.splits)
  have le: "length (k_proc s) \<le> length qs" using lq by simp
  note ra = reparent_all [OF le ni, folded rs_def]
  have run: "sched (upd_cur (\<lambda>p. p\<lparr>p_state := ZOMBIE\<rparr>) (s5\<lparr>k_proc := rs\<rparr>)) = Ok t"
    using e(6) p5 c1(3) by (simp add: rs_def qs_def)
  then have t: "t = upd_cur (\<lambda>p. p\<lparr>p_state := ZOMBIE\<rparr>) (s5\<lparr>k_proc := rs\<rparr>)" by (auto simp: sched_def split: if_splits)
  have pt: "k_proc t = rs[k_cur s := (rs ! k_cur s)\<lparr>p_state := ZOMBIE\<rparr>]" "k_cur t = k_cur s" "k_ptlock t"
    using p5 by (simp_all add: t upd_proc_def)
  have lr: "length rs = length (k_proc s)" using ra lq by simp
  have of: "p_ofile (cur t) = p_ofile (cur s1)" "p_cwd (cur t) = None" "p_state (cur t) = ZOMBIE"
    using ra q assms(2) lq lr c1 by (simp_all add: pt)
  have none: "set (p_ofile (cur t)) \<subseteq> {None}" unfolding of(1) using x(2,3) by (auto simp: in_set_conv_nth)
  have par: "p_parent (get_proc t i) = (if p_parent (get_proc s i) = Some (k_cur s) then Some (k_initproc s) else p_parent (get_proc s i))"
    if "i < length (k_proc s)" "i \<noteq> k_cur s" for i
    using ra q(1) [OF that(1)] that lq by (simp add: pt(1))
  have wk: "p_state (get_proc t pp) = RUNNABLE"
    if "pp < length (k_proc s)" "p_parent (cur s) = Some pp" "pp \<noteq> k_cur s" "p_state (get_proc s pp) = SLEEPING" "p_chan (get_proc s pp) = Some (ChanProc pp)" for pp
  proof -
    have "p_parent (cur s5) = Some pp" using that(2) x(1) assms(2) p5 c1 by (simp add: only_woken_def)
    then have "qs = wakeup1 (ChanProc pp) (k_proc s5)" by (simp add: qs_def)
    moreover have "p_chan (k_proc s5 ! pp) = Some (ChanProc pp)" "p_state (k_proc s5 ! pp) \<in> {SLEEPING, RUNNABLE}"
      using that x(1) p5(1) by (auto simp: only_woken_def)
    ultimately have "p_state (qs ! pp) = RUNNABLE" using that(1) p5(1) c1(3) by auto
    then show ?thesis using ra that lq by (simp add: pt(1))
  qed
  show ?thesis using ni pt(2,3) lr pt(1) of none par wk by auto
qed

text \<open>What \<^verbatim>\<open>exit\<close> does to the other processes: some of them are woken, and the children get a new parent.\<close>

definition woken :: "proc \<Rightarrow> proc \<Rightarrow> bool" where
  "woken p q \<longleftrightarrow> q = p \<or> p_state p = SLEEPING \<and> q = p\<lparr>p_state := RUNNABLE\<rparr>"

definition others_woken :: "'z kst_scheme \<Rightarrow> 'z kst_scheme \<Rightarrow> bool" where
  "others_woken s t \<longleftrightarrow> k_cur t = k_cur s \<and> k_initproc t = k_initproc s \<and> length (k_proc t) = length (k_proc s)
     \<and> (\<forall>i < length (k_proc s). i \<noteq> k_cur s \<longrightarrow> woken (get_proc s i) (get_proc t i))"

lemma woken_refl [simp]: "woken p p"
  by (simp add: woken_def)

lemma woken_trans: "woken p q \<Longrightarrow> woken q r \<Longrightarrow> woken p r"
  by (auto simp: woken_def)

lemma woken_wake [simp]: "woken p (wake c p)"
  by (simp add: woken_def wake_def)

lemma woken_parent: "woken p q \<Longrightarrow> woken (p\<lparr>p_parent := x\<rparr>) (q\<lparr>p_parent := x\<rparr>)"
  by (auto simp: woken_def)

lemma others_refl [simp]: "others_woken s s"
  by (simp add: others_woken_def)

lemma others_trans: "others_woken s t \<Longrightarrow> others_woken t u \<Longrightarrow> others_woken s u"
  unfolding others_woken_def by (metis woken_trans)

lemma more_others: "fsst.more t = fsst.more s \<Longrightarrow> others_woken s t"
  using kst_more [of t s] kst_more2 [of t s] by (simp add: others_woken_def)

lemma pipe_wakeups_others: "others_woken s (pipe_wakeups p cs s)"
  unfolding pipe_wakeups_def
proof (induction cs arbitrary: s)
  case (Cons c cs)
  have "others_woken s (wakeup (ChanPipe p c) s)" by (simp add: others_woken_def wakeup_def wakeup1_def)
  then show ?case using Cons others_trans by fastforce
qed simp

lemma update_others:
  "others_woken s (s\<lparr>k_pipe := q\<rparr>)" "others_woken s (s\<lparr>k_mm := m, k_pipe := q\<rparr>)" "others_woken s (upd_file i f s)"
  "others_woken s (upd_cur g s)" "others_woken s (clear_fd fd s)"
  by (simp_all add: others_woken_def upd_file_def clear_fd_def upd_proc_def)

lemma pipe_close_others:
  assumes "pipe_close p w s = Ok t"
  shows "others_woken s t"
proof -
  from assms obtain pp pp' cs freed where c: "k_pipe s p = Some pp" "pipeclose pp w = (pp', cs, freed)"
    by (cases "k_pipe s p"; cases "pipeclose (the (k_pipe s p)) w") (auto simp: pipe_close_def)
  let ?u = "pipe_wakeups p cs (s\<lparr>k_pipe := (k_pipe s)(p \<mapsto> pp')\<rparr>)"
  have "others_woken s ?u" by (rule others_trans [OF update_others(1) pipe_wakeups_others])
  moreover have "others_woken ?u t" using assms c update_others(2) by (auto simp: pipe_close_def Let_def split: if_splits)
  ultimately show ?thesis by (rule others_trans)
qed

lemma fileclose_others:
  assumes "fileclose i s = Ok t"
  shows "others_woken s t"
proof (cases "f_ref (get_file s i) - 1 > 0")
  case True
  then show ?thesis using assms update_others(3) by (auto simp: fileclose_def Let_def split: if_splits)
next
  case False
  have "others_woken (upd_file i (\<lambda>f. f\<lparr>f_ref := 0, f_type := FD_NONE\<rparr>) s) t"
    using assms False by (cases "f_type (get_file s i)")
      (auto simp: fileclose_def Let_def split: if_splits dest!: pipe_close_others begin_op_fs iput_fs end_op_fs dest: more_others)
  then show ?thesis by (rule others_trans [OF update_others(3)])
qed

lemma exit_fds_others: "fold_res exit_fd fds s = Ok t \<Longrightarrow> others_woken s t"
proof (induction fds arbitrary: s)
  case (Cons fd fds)
  then obtain u where u: "exit_fd fd s = Ok u" "fold_res exit_fd fds u = Ok t" by auto
  have "others_woken s u"
    using u(1) update_others(5) by (auto simp: exit_fd_def split: option.splits intro: others_trans dest!: fileclose_others)
  then show ?case using Cons.IH [OF u(2)] by (rule others_trans)
qed simp

lemma reparent_woken:
  assumes "k < length ps" "i < length ps"
  shows "woken ((ps ! i)\<lparr>p_parent := if i = k \<and> p_parent (ps ! i) = Some me then Some init else p_parent (ps ! i)\<rparr>) (reparent me init k ps ! i)"
  using assms by (auto simp: reparent_def Let_def wakeup1_def nth_list_update)

lemma reparent_all_woken:
  assumes "n \<le> length ps" "i < length ps" "me \<noteq> init"
  shows "woken ((ps ! i)\<lparr>p_parent := if i < n \<and> p_parent (ps ! i) = Some me then Some init else p_parent (ps ! i)\<rparr>)
    (fold (reparent me init) [0..<n] ps ! i)"
  using assms
proof (induction n)
  case (Suc n)
  let ?q = "fold (reparent me init) [0..<n] ps"
  let ?p = "if i < n \<and> p_parent (ps ! i) = Some me then Some init else p_parent (ps ! i)"
  have ih: "woken ((ps ! i)\<lparr>p_parent := ?p\<rparr>) (?q ! i)" using Suc by simp
  have "length ?q = length ps \<and> p_parent (?q ! i) = ?p" using reparent_all [of n ps me init] Suc.prems by simp
  then have q: "n < length ?q" "i < length ?q" "p_parent (?q ! i) = ?p" using Suc.prems by simp_all
  let ?r = "if i = n \<and> ?p = Some me then Some init else ?p"
  have "woken ((ps ! i)\<lparr>p_parent := ?r\<rparr>) ((?q ! i)\<lparr>p_parent := ?r\<rparr>)" using woken_parent [OF ih, of ?r] by simp
  moreover have "woken ((?q ! i)\<lparr>p_parent := ?r\<rparr>) (reparent me init n ?q ! i)"
    using reparent_woken [OF q(1,2), of me init] unfolding q(3) .
  moreover have "?r = (if i < Suc n \<and> p_parent (ps ! i) = Some me then Some init else p_parent (ps ! i))"
    using assms(3) by (auto simp: less_Suc_eq)
  ultimately show ?case using woken_trans by simp
qed simp

definition orphan :: "nat \<Rightarrow> nat \<Rightarrow> proc \<Rightarrow> proc" where
  "orphan me init p = (if p_parent p = Some me then p\<lparr>p_parent := Some init\<rparr> else p)"

lemma orphan_parent: "p\<lparr>p_parent := if p_parent p = Some me then Some init else p_parent p\<rparr> = orphan me init p"
  by (simp add: orphan_def)

lemma exit_others:
  assumes "exit s = Ok t" and "k_cur s < length (k_proc s)" and i: "i < length (k_proc s)" "i \<noteq> k_cur s"
  shows "woken (orphan (k_cur s) (k_initproc s) (get_proc s i)) (get_proc t i)"
proof -
  have ni: "k_cur s \<noteq> k_initproc s" using assms(1) by (auto simp: exit_def)
  then obtain s1 s2 s3 s4 s5 where e: "fold_res exit_fd [0..<NOFILE] s = Ok s1" "begin_op s1 = Ok s2" "iput (cwd s2) s2 = Ok s3"
    "end_op s3 = Ok s4" "acquire_ptable (upd_cur (\<lambda>p. p\<lparr>p_cwd := None\<rparr>) s4) = Ok s5"
    "sched (upd_cur (\<lambda>p. p\<lparr>p_state := ZOMBIE\<rparr>) (s5\<lparr>k_proc :=
        fold (reparent (k_cur s5) (k_initproc s5)) [0..<length (k_proc s5)]
          (case p_parent (cur s5) of None \<Rightarrow> k_proc s5 | Some pp \<Rightarrow> wakeup1 (ChanProc pp) (k_proc s5))\<rparr>)) = Ok t"
    using assms(1) by (auto simp: exit_def Let_def split: option.splits)
  have m4: "fsst.more s4 = fsst.more s1" using begin_op_fs [OF e(2)] iput_fs [OF e(3)] end_op_fs [OF e(4)] by simp
  have "others_woken s s4" using exit_fds_others [OF e(1)] more_others [OF m4] by (rule others_trans)
  then have "others_woken s (upd_cur (\<lambda>p. p\<lparr>p_cwd := None\<rparr>) s4)" using update_others(4) by (rule others_trans)
  then have o: "others_woken s s5" using e(5) by (auto simp: acquire_ptable_def others_woken_def split: if_splits)
  have c: "k_cur s5 = k_cur s" "length (k_proc s5) = length (k_proc s)" and init: "k_initproc s5 = k_initproc s"
    using o by (simp_all add: others_woken_def)
  define qs where "qs = (case p_parent (cur s5) of None \<Rightarrow> k_proc s5 | Some pp \<Rightarrow> wakeup1 (ChanProc pp) (k_proc s5))"
  have lq: "length qs = length (k_proc s)" using c(2) by (simp add: qs_def split: option.splits)
  have "woken (get_proc s5 i) (qs ! i)" using i(1) c(2) by (simp add: qs_def wakeup1_def split: option.splits)
  then have w: "woken (get_proc s i) (qs ! i)" using o i woken_trans by (auto simp: others_woken_def)
  then have p: "p_parent (qs ! i) = p_parent (get_proc s i)" by (auto simp: woken_def)
  let ?x = "if p_parent (get_proc s i) = Some (k_cur s) then Some (k_initproc s) else p_parent (get_proc s i)"
  have "woken ((qs ! i)\<lparr>p_parent := ?x\<rparr>) (fold (reparent (k_cur s) (k_initproc s)) [0..<length (k_proc s)] qs ! i)"
    using reparent_all_woken [of "length (k_proc s)" qs i "k_cur s" "k_initproc s"] lq i(1) ni unfolding p by simp
  moreover have "get_proc t i = fold (reparent (k_cur s) (k_initproc s)) [0..<length (k_proc s)] qs ! i"
    using e(6) i(2) c init by (auto simp: sched_def qs_def upd_proc_def split: if_splits)
  ultimately show ?thesis using woken_trans [OF woken_parent [OF w, of ?x]] unfolding orphan_parent by simp
qed

text \<open>
  C12. When \<^verbatim>\<open>exit\<close> gives up the CPU for the last time, the process is a zombie without open files and
  current directory, it is nobody's parent any more and its children belong to \<^verbatim>\<open>init\<close>, and a
  parent that was waiting for it has been woken; the table lock is held, so the parent sees all of
  this at once. The first process never exits.
\<close>

theorem exit_leaves_zombie:
  assumes "exit s = Ok t" and "k_cur s < length (k_proc s)" and "length (p_ofile (cur s)) = NOFILE"
  shows "k_cur s \<noteq> k_initproc s \<and> k_cur t = k_cur s \<and> length (k_proc t) = length (k_proc s) \<and> k_ptlock t
     \<and> p_state (cur t) = ZOMBIE \<and> set (p_ofile (cur t)) \<subseteq> {None} \<and> p_cwd (cur t) = None
     \<and> (\<forall>i < length (k_proc s). i \<noteq> k_cur s \<longrightarrow>
          p_parent (get_proc t i) = (if p_parent (get_proc s i) = Some (k_cur s) then Some (k_initproc s) else p_parent (get_proc s i)))
     \<and> (\<forall>pp < length (k_proc s). p_parent (cur s) = Some pp \<and> pp \<noteq> k_cur s
          \<and> p_state (get_proc s pp) = SLEEPING \<and> p_chan (get_proc s pp) = Some (ChanProc pp) \<longrightarrow> p_state (get_proc t pp) = RUNNABLE)"
  by (rule exit_zombie [OF assms])

text \<open>A child without open files of a parent that waits for it.\<close>

definition exit_kst :: kst where
  "exit_kst = plain_kst\<lparr>k_cur := 1, k_proc :=
     [plain_proc\<lparr>p_state := SLEEPING, p_chan := Some (ChanProc 0)\<rparr>,
      plain_proc\<lparr>p_pid := 2, p_parent := Some 0, p_ofile := replicate 16 None\<rparr>]\<rparr>"

lemma exit_kst_sel:
  "k_proc exit_kst = [plain_proc\<lparr>p_state := SLEEPING, p_chan := Some (ChanProc 0)\<rparr>,
      plain_proc\<lparr>p_pid := 2, p_parent := Some 0, p_ofile := replicate 16 None\<rparr>]"
  "k_cur exit_kst = 1" "k_initproc exit_kst = 0" "k_ncli exit_kst = 0" "\<not> k_ptlock exit_kst"
  "lg_outstanding exit_kst = 1" "\<not> lg_committing exit_kst" "lg_n exit_kst = 0" "\<not> i_valid (get_inode exit_kst 0)"
  by (simp_all add: exit_kst_def plain_kst_def fsst.extend_def kst.fields_def small_fs_sel slot_1_def free_slot_def)

lemma exit_fd_none: "\<forall>n \<in> set ns. p_ofile (cur s) ! n = None \<Longrightarrow> fold_res exit_fd ns s = Ok s"
  by (induction ns) (simp_all add: exit_fd_def)

lemma exit_kst_runs: "\<exists>t. exit exit_kst = Ok t"
proof -
  have fds: "fold_res exit_fd [0..<NOFILE] exit_kst = Ok exit_kst"
    by (rule exit_fd_none) (simp add: exit_kst_sel NOFILE_def)
  show ?thesis
    using exit_kst_sel
    by (simp add: exit_def fds begin_op_def iput_def end_op_def cwd_def acquire_ptable_def sched_def upd_proc_def upd_inode_def
        plain_proc_def MAXOPBLOCKS_def LOGSIZE_def reparent_def wakeup1_def wake_def Let_def)
qed

theorem exit_leaves_zombie_witness:
  "\<exists>t. exit exit_kst = Ok t \<and> p_state (get_proc t 1) = ZOMBIE \<and> p_state (get_proc t 0) = RUNNABLE"
proof -
  obtain t where t: "exit exit_kst = Ok t" using exit_kst_runs by blast
  show ?thesis
    using exit_leaves_zombie [OF t] t by (auto simp: exit_kst_sel plain_proc_def NOFILE_def)
qed

end
