(* ===== verification/Trap.thy ===== *)
theory Trap
  imports Exec Proc_Props
begin

text \<open>
  The two ways into the kernel: \<^verbatim>\<open>syscall\<close> of \<^verbatim>\<open>src/syscall.c\<close> with its table of calls, and \<^verbatim>\<open>trap\<close> of
  \<^verbatim>\<open>src/trap.c\<close>. The messages they print are left out, as are the descriptor table of \<^verbatim>\<open>tvinit\<close> and the
  acknowledgement of interrupts.
\<close>

section \<open>System calls\<close>

text \<open>How a segment of kernel code ends: back in user mode, asleep, gone, or off the CPU but still runnable.\<close>

datatype kend = Returned | AsleepOn chan | Exited | Yielded

text \<open>
  What a call hands back. Most calls are defined as functions to \<^verbatim>\<open>int\<close> but called through pointers to
  functions to \<^verbatim>\<open>addr_t\<close>; only the low half of their result is defined, which is sign-extended here.
\<close>

datatype 's called = Value addr_t 's | Asleep chan 's | Gone 's

fun int_call :: "(int \<times> 's) res \<Rightarrow> 's called res" where
  "int_call (Ok (r, s)) = Ok (Value (of_int r) s)"
| "int_call (Panic m) = Panic m"
| "int_call (Sleeps m) = Sleeps m"
| "int_call (Fault m) = Fault m"

fun end_call :: "sysret \<Rightarrow> 's \<Rightarrow> 's called" where
  "end_call (Ret r) s = Value (of_int r) s"
| "end_call (Blocked c) s = Asleep c s"

definition blocking_call :: "(sysret \<times> 's) res \<Rightarrow> 's called res" where
  "blocking_call r = bind_res r (\<lambda>(v, s). Ok (end_call v s))"

text \<open>
  The table. The devices and the console's input are parameters, as are \<open>power_off\<close> and \<open>reset\<close>, the
  two calls that only write to ports.
\<close>

record 's env =
  env_devsw :: "nat \<Rightarrow> 's devops"
  env_consoleinput :: "byte list \<Rightarrow> 's \<Rightarrow> 's"
  env_power_off :: "'s \<Rightarrow> (int \<times> 's) res"
  env_reset :: "'s \<Rightarrow> (int \<times> 's) res"

definition syscalls :: "'z kst_scheme env \<Rightarrow> ('z kst_scheme \<Rightarrow> 'z kst_scheme called res) option list" where
  "syscalls e =
     [None,
      Some (\<lambda>s. int_call (fork s)),
      Some (\<lambda>s. bind_res (exit s) (\<lambda>s. Ok (Gone s))),
      Some (\<lambda>s. blocking_call (wait s)),
      Some (\<lambda>s. int_call (sys_pipe s)),
      Some (\<lambda>s. blocking_call (sys_read (env_devsw e) s)),
      Some (\<lambda>s. int_call (sys_kill s)),
      Some (\<lambda>s. int_call (sys_exec s)),
      Some (\<lambda>s. int_call (sys_fstat s)),
      Some (\<lambda>s. int_call (sys_chdir s)),
      Some (\<lambda>s. int_call (sys_dup s)),
      Some (\<lambda>s. Ok (Value (of_int (sys_getpid s)) s)),
      Some (\<lambda>s. bind_res (sys_sbrk s) (\<lambda>(a, s). Ok (Value a s))),
      Some (\<lambda>s. bind_res (sys_sleep s) (\<lambda>(v, _, s). Ok (end_call v s))),
      Some (\<lambda>s. Ok (Value (of_int (sys_uptime s)) s)),
      Some (\<lambda>s. int_call (sys_open s)),
      Some (\<lambda>s. blocking_call (sys_write (env_devsw e) s)),
      Some (\<lambda>s. int_call (sys_mknod s)),
      Some (\<lambda>s. int_call (sys_unlink s)),
      Some (\<lambda>s. int_call (sys_link s)),
      Some (\<lambda>s. int_call (sys_mkdir s)),
      Some (\<lambda>s. int_call (sys_close s)),
      Some (\<lambda>s. int_call (env_power_off e s)),
      Some (\<lambda>s. int_call (env_reset e s)),
      Some (\<lambda>s. int_call (sys_fseek s)),
      Some (\<lambda>s. int_call (sys_kbddecoy (env_consoleinput e) s)),
      Some (\<lambda>s. int_call (sys_ioctl (env_devsw e) s)),
      Some (\<lambda>s. int_call (sys_getcwd s))]"

text \<open>The end of \<^verbatim>\<open>syscall\<close>, also of a call that had been asleep: the result goes to \<^verbatim>\<open>rax\<close>.\<close>

definition syscall_return :: "addr_t \<Rightarrow> 'z kst_scheme \<Rightarrow> (kend \<times> 'z kst_scheme) res" where
  "syscall_return v s =
     (let s = upd_cur (\<lambda>p. p\<lparr>p_tf := (p_tf p)\<lparr>tf_rax := v\<rparr>\<rparr>) s in
      if p_killed (cur s) then bind_res (exit s) (\<lambda>s. Ok (Exited, s)) else Ok (Returned, s))"

definition syscall :: "'z kst_scheme env \<Rightarrow> trapframe \<Rightarrow> 'z kst_scheme \<Rightarrow> (kend \<times> 'z kst_scheme) res" where
  "syscall e tf s =
     (let s = upd_cur (\<lambda>p. p\<lparr>p_tf := tf\<rparr>) s; num = unat (tf_rax tf) in
      if num > 0 \<and> num < length (syscalls e) \<and> syscalls e ! num \<noteq> None then
        bind_res (the (syscalls e ! num) s) (\<lambda>r.
          case r of
            Value v s \<Rightarrow> syscall_return v s
          | Asleep c s \<Rightarrow> Ok (AsleepOn c, s)
          | Gone s \<Rightarrow> Ok (Exited, s))
      else syscall_return (-1) s)"

section \<open>Traps\<close>

definition T_IRQ0 :: nat where "T_IRQ0 = 32"
definition IRQ_TIMER :: nat where "IRQ_TIMER = 0"
definition IRQ_KBD :: nat where "IRQ_KBD = 1"
definition IRQ_COM1 :: nat where "IRQ_COM1 = 4"
definition IRQ_IDE :: nat where "IRQ_IDE = 14"
definition IRQ_SPURIOUS :: nat where "IRQ_SPURIOUS = 31"

definition user_mode :: "trapframe \<Rightarrow> bool" where
  "user_mode tf \<longleftrightarrow> tf_cs tf AND 3 = 3"

definition have_proc :: "'z kst_scheme \<Rightarrow> bool" where
  "have_proc s \<longleftrightarrow> k_cur s < length (k_proc s)"

text \<open>The clock's interrupt, on the first CPU.\<close>

definition clock_tick :: "'z kst_scheme \<Rightarrow> 'z kst_scheme" where
  "clock_tick s = wakeup ChanTicks (s\<lparr>k_ticks := wrap32 (k_ticks s + 1)\<rparr>)"

text \<open>The \<^verbatim>\<open>switch\<close> of \<^verbatim>\<open>trap\<close>; \<open>dev\<close> are the interrupt routines of the disk, the keyboard and the serial line.\<close>

definition trap_switch :: "(nat \<Rightarrow> 'z kst_scheme \<Rightarrow> 'z kst_scheme res) \<Rightarrow> nat \<Rightarrow> trapframe \<Rightarrow> 'z kst_scheme \<Rightarrow> 'z kst_scheme res" where
  "trap_switch dev cpunum tf s =
     (let no = unat (tf_trapno tf) in
      if no = T_IRQ0 + IRQ_TIMER then Ok (if cpunum = 0 then clock_tick s else s)
      else if no = T_IRQ0 + IRQ_IDE then dev IRQ_IDE s
      else if no = T_IRQ0 + IRQ_IDE + 1 then Ok s
      else if no = T_IRQ0 + IRQ_KBD then dev IRQ_KBD s
      else if no = T_IRQ0 + IRQ_COM1 then dev IRQ_COM1 s
      else if no = T_IRQ0 + 7 \<or> no = T_IRQ0 + IRQ_SPURIOUS then Ok s
      else if \<not> have_proc s \<or> tf_cs tf AND 3 = 0 then Panic ''trap''
      else Ok (upd_cur (\<lambda>p. p\<lparr>p_killed := True\<rparr>) s))"

text \<open>The test that makes a killed process exit, as it stands before and after \<^verbatim>\<open>yield\<close>.\<close>

definition exit_if_killed :: "trapframe \<Rightarrow> 'z kst_scheme \<Rightarrow> (kend \<times> 'z kst_scheme) res" where
  "exit_if_killed tf s =
     (if have_proc s \<and> p_killed (cur s) \<and> user_mode tf then bind_res (exit s) (\<lambda>s. Ok (Exited, s))
      else Ok (Returned, s))"

definition trap :: "(nat \<Rightarrow> 'z kst_scheme \<Rightarrow> 'z kst_scheme res) \<Rightarrow> nat \<Rightarrow> trapframe \<Rightarrow> 'z kst_scheme \<Rightarrow> (kend \<times> 'z kst_scheme) res" where
  "trap dev cpunum tf s =
     bind_res (trap_switch dev cpunum tf s) (\<lambda>s.
     bind_res (exit_if_killed tf s) (\<lambda>(r, s).
       if r = Exited then Ok (Exited, s)
       else if have_proc s \<and> p_state (cur s) = RUNNING \<and> unat (tf_trapno tf) = T_IRQ0 + IRQ_TIMER then
         bind_res (yield s) (\<lambda>s. Ok (Yielded, s))
       else exit_if_killed tf s))"

text \<open>The rest of \<^verbatim>\<open>yield\<close> and \<^verbatim>\<open>trap\<close> when the process runs again.\<close>

definition trap_resume :: "trapframe \<Rightarrow> 'z kst_scheme \<Rightarrow> (kend \<times> 'z kst_scheme) res" where
  "trap_resume tf s = bind_res (release_ptable s) (exit_if_killed tf)"

end
