(* ===== verification/Trap_Props.thy ===== *)
theory Trap_Props
  imports Trap
begin

text \<open>Properties of the ways into and out of the kernel.\<close>

text \<open>The traps that \<^verbatim>\<open>trap\<close> knows; every other one is a fault.\<close>

definition known_trap :: "nat \<Rightarrow> bool" where
  "known_trap no \<longleftrightarrow> no \<in> {T_IRQ0 + IRQ_TIMER, T_IRQ0 + IRQ_IDE, T_IRQ0 + IRQ_IDE + 1, T_IRQ0 + IRQ_KBD, T_IRQ0 + IRQ_COM1,
     T_IRQ0 + 7, T_IRQ0 + IRQ_SPURIOUS}"

lemma exit_if_killed_returned: "exit_if_killed tf s = Ok (Returned, t) \<Longrightarrow> user_mode tf \<Longrightarrow> have_proc t \<Longrightarrow> \<not> p_killed (cur t)"
  by (auto simp: exit_if_killed_def split: if_splits)

lemma syscall_return_returned: "syscall_return v s = Ok (Returned, t) \<Longrightarrow> \<not> p_killed (cur t)"
  by (auto simp: syscall_return_def Let_def split: if_splits)

lemma syscall_returned: "syscall e tf s = Ok (Returned, t) \<Longrightarrow> \<not> p_killed (cur t)"
proof -
  assume a: "syscall e tf s = Ok (Returned, t)"
  obtain r where "(case r of Value v s \<Rightarrow> syscall_return v s | Asleep c s \<Rightarrow> Ok (AsleepOn c, s) | Gone s \<Rightarrow> Ok (Exited, s)) = Ok (Returned, t)"
    using a that [of "Value (- 1) (upd_cur (\<lambda>p. p\<lparr>p_tf := tf\<rparr>) s)"] by (auto simp: syscall_def Let_def split: if_splits)
  then show ?thesis by (cases r) (auto dest: syscall_return_returned)
qed

text \<open>
  The segments of kernel code that end in user mode: the end of a system call, at once or after the process has slept, the end of a trap that was taken in
  user mode, at once or after the process has been off the CPU, and \<^verbatim>\<open>forkret\<close>, where a child comes out of the kernel for the first time (\<open>first\<close>).
\<close>

inductive enters_user :: "'z kst_scheme env \<Rightarrow> (nat \<Rightarrow> 'z kst_scheme \<Rightarrow> 'z kst_scheme res) \<Rightarrow> nat \<Rightarrow> bool \<Rightarrow> 'z kst_scheme \<Rightarrow> bool"
  for e dev cpunum where
  by_syscall: "syscall e tf s = Ok (Returned, t) \<Longrightarrow> enters_user e dev cpunum False t"
| by_wakeup: "syscall_return v s = Ok (Returned, t) \<Longrightarrow> enters_user e dev cpunum False t"
| by_trap: "user_mode tf \<Longrightarrow> have_proc t \<Longrightarrow> trap dev cpunum tf s = Ok (Returned, t) \<Longrightarrow> enters_user e dev cpunum False t"
| by_resume: "user_mode tf \<Longrightarrow> have_proc t \<Longrightarrow> trap_resume tf s = Ok (Returned, t) \<Longrightarrow> enters_user e dev cpunum False t"
| by_forkret: "forkret s = Ok t \<Longrightarrow> enters_user e dev cpunum True t"

lemma enters_user_killed: "enters_user e dev cpunum first t \<Longrightarrow> p_killed (cur t) \<Longrightarrow> first"
  by (induction rule: enters_user.induct)
    (auto simp: trap_def trap_resume_def split: if_splits dest: syscall_returned syscall_return_returned exit_if_killed_returned)

text \<open>\<^verbatim>\<open>forkret\<close> does not look at \<^verbatim>\<open>killed\<close>: a child that is killed before it has run comes out into user mode once.\<close>

lemma forkret_ignores_killed: "k_ptlock s \<Longrightarrow> \<not> k_first s \<Longrightarrow> p_killed (cur s) \<Longrightarrow> \<exists>t. forkret s = Ok t \<and> p_killed (cur t)"
  by (simp add: forkret_def release_ptable_def)

text \<open>
  C15. A killed process exits on its way out of the kernel. No segment of kernel code but a child's very first one (\<^verbatim>\<open>forkret\<close>) ends in user mode with the
  process marked as killed, whatever system call it was and whether it slept or not, and whatever trap; and a process that is marked when its
  system call is about to return, or when it runs again after a trap, is a zombie without open files afterwards.
\<close>

theorem killed_process_exits:
  "(enters_user e dev cpunum first t \<and> p_killed (cur t) \<longrightarrow> first)
   \<and> (have_proc s \<and> length (p_ofile (cur s)) = NOFILE \<and> p_killed (cur s)
        \<and> (syscall_return v s = Ok (r, u) \<or> user_mode tf \<and> trap_resume tf s = Ok (r, u))
      \<longrightarrow> r = Exited \<and> k_cur u = k_cur s \<and> p_state (cur u) = ZOMBIE \<and> set (p_ofile (cur u)) \<subseteq> {None})"
proof (intro conjI impI)
  show "enters_user e dev cpunum first t \<and> p_killed (cur t) \<Longrightarrow> first" using enters_user_killed by blast
next
  assume a: "have_proc s \<and> length (p_ofile (cur s)) = NOFILE \<and> p_killed (cur s)
        \<and> (syscall_return v s = Ok (r, u) \<or> user_mode tf \<and> trap_resume tf s = Ok (r, u))"
  then have c: "k_cur s < length (k_proc s)" "length (p_ofile (cur s)) = NOFILE" by (simp_all add: have_proc_def)
  have "\<exists>w. r = Exited \<and> exit w = Ok u \<and> k_cur w = k_cur s \<and> k_cur w < length (k_proc w) \<and> length (p_ofile (cur w)) = NOFILE"
    using a c by (auto simp: syscall_return_def trap_resume_def release_ptable_def exit_if_killed_def have_proc_def split: if_splits)
  then obtain w where w: "r = Exited" "exit w = Ok u" "k_cur w = k_cur s" "k_cur w < length (k_proc w)" "length (p_ofile (cur w)) = NOFILE" by blast
  show "r = Exited" by (rule w(1))
  note z = exit_zombie [OF w(2,4,5)]
  show "k_cur u = k_cur s" "p_state (cur u) = ZOMBIE" "set (p_ofile (cur u)) \<subseteq> {None}" using z w(3) by auto
qed

definition plain_env :: "kst env" where
  "plain_env = \<lparr>env_devsw = (\<lambda>_. \<lparr>d_read = None, d_write = None, d_ioctl = None\<rparr>), env_consoleinput = (\<lambda>_ s. s),
     env_power_off = (\<lambda>s. Ok (0, s)), env_reset = (\<lambda>s. Ok (0, s))\<rparr>"

lemma plain_getpid: "\<exists>t. syscall plain_env (plain_tf\<lparr>tf_rax := 11\<rparr>) plain_kst = Ok (Returned, t) \<and> tf_rax (p_tf (cur t)) = 1 \<and> k_cur t = 0"
  by (simp add: syscall_def syscalls_def sys_getpid_def syscall_return_def plain_kst_sel plain_proc_def plain_tf_def Let_def)

theorem killed_process_exits_witness:
  "(\<exists>t. enters_user plain_env (\<lambda>_ s. Ok s) 0 False t \<and> tf_rax (p_tf (get_proc t 0)) = 1 \<and> \<not> p_killed (get_proc t 0))
   \<and> (\<exists>u. syscall_return 0 (upd_cur (\<lambda>p. p\<lparr>p_killed := True\<rparr>) exit_kst) = Ok (Exited, u) \<and> p_state (get_proc u 1) = ZOMBIE)"
proof -
  obtain t where t: "syscall plain_env (plain_tf\<lparr>tf_rax := 11\<rparr>) plain_kst = Ok (Returned, t)" "tf_rax (p_tf (cur t)) = 1" "k_cur t = 0"
    using plain_getpid by blast
  have eu: "enters_user plain_env (\<lambda>_ s. Ok s) 0 False t" by (rule by_syscall [OF t(1)])
  let ?s = "upd_cur (\<lambda>p. p\<lparr>p_killed := True\<rparr>) exit_kst"
  let ?w = "upd_cur (\<lambda>p. p\<lparr>p_tf := (p_tf p)\<lparr>tf_rax := 0\<rparr>\<rparr>) ?s"
  have fds: "fold_res exit_fd [0..<NOFILE] ?w = Ok ?w"
    by (rule exit_fd_none) (simp add: exit_kst_sel NOFILE_def upd_proc_def)
  have "\<exists>u. syscall_return 0 ?s = Ok (Exited, u)"
    using exit_kst_sel fds
    by (simp add: syscall_return_def exit_def begin_op_def iput_def end_op_def cwd_def acquire_ptable_def sched_def upd_proc_def upd_inode_def
        plain_proc_def MAXOPBLOCKS_def LOGSIZE_def reparent_def wakeup1_def wake_def Let_def)
  then obtain u where u: "syscall_return 0 ?s = Ok (Exited, u)" by blast
  have c: "have_proc ?s" "length (p_ofile (cur ?s)) = NOFILE" "p_killed (cur ?s)" "k_cur ?s = 1"
    by (simp_all add: have_proc_def exit_kst_sel NOFILE_def upd_proc_def)
  show ?thesis
    using killed_process_exits [of plain_env "\<lambda>_ s. Ok s" 0 False t ?s 0 Exited u plain_tf] eu t(2,3) u c by auto
qed

text \<open>
  C16. A fault is contained. When a trap that is no known interrupt happens in the kernel or without a
  process, the machine stops; when it happens in user mode, the trap ends with the exit of the
  process that caused it, which is a zombie without open files afterwards. Every other process stays as it is in all its fields, except that its children
  belong to \<^verbatim>\<open>init\<close> and that a process that was asleep may have been woken.
\<close>

theorem fault_contained:
  assumes "\<not> known_trap (unat (tf_trapno tf))"
  shows "(\<not> have_proc s \<or> tf_cs tf AND 3 = 0 \<longrightarrow> trap dev cpunum tf s = Panic ''trap'')
     \<and> (have_proc s \<and> user_mode tf \<and> length (p_ofile (cur s)) = NOFILE \<and> trap dev cpunum tf s = Ok (r, t) \<longrightarrow>
          r = Exited \<and> p_state (cur t) = ZOMBIE \<and> set (p_ofile (cur t)) \<subseteq> {None} \<and> k_cur t = k_cur s
          \<and> length (k_proc t) = length (k_proc s)
          \<and> (\<forall>i < length (k_proc s). i \<noteq> k_cur s \<longrightarrow>
               woken (orphan (k_cur s) (k_initproc s) (get_proc s i)) (get_proc t i)))"
proof -
  have sw: "trap_switch dev cpunum tf s =
      (if \<not> have_proc s \<or> tf_cs tf AND 3 = 0 then Panic ''trap'' else Ok (upd_cur (\<lambda>p. p\<lparr>p_killed := True\<rparr>) s))"
    using assms by (simp add: trap_switch_def known_trap_def)
  show ?thesis
  proof (rule conjI; rule impI)
    assume "\<not> have_proc s \<or> tf_cs tf AND 3 = 0"
    then show "trap dev cpunum tf s = Panic ''trap''" by (simp add: trap_def sw)
  next
    assume a: "have_proc s \<and> user_mode tf \<and> length (p_ofile (cur s)) = NOFILE \<and> trap dev cpunum tf s = Ok (r, t)"
    let ?u = "upd_cur (\<lambda>p. p\<lparr>p_killed := True\<rparr>) s"
    have um: "tf_cs tf AND 3 \<noteq> 0" using a by (simp add: user_mode_def)
    have r: "r = Exited" "exit ?u = Ok t"
      using a um by (auto simp: trap_def sw exit_if_killed_def have_proc_def split: if_splits)
    have l: "k_cur ?u < length (k_proc ?u)" "length (p_ofile (cur ?u)) = NOFILE" using a by (simp_all add: have_proc_def)
    note z = exit_zombie [OF r(2) l]
    have "k_initproc ?u = k_initproc s" by (simp add: upd_proc_def)
    moreover have "k_proc ?u = (k_proc s)[k_cur s := (cur s)\<lparr>p_killed := True\<rparr>]" "k_cur ?u = k_cur s" by simp_all
    ultimately have "woken (orphan (k_cur s) (k_initproc s) (get_proc s i)) (get_proc t i)" if "i < length (k_proc s)" "i \<noteq> k_cur s" for i
      using exit_others [OF r(2) l(1), of i] that by simp
    then show "r = Exited \<and> p_state (cur t) = ZOMBIE \<and> set (p_ofile (cur t)) \<subseteq> {None} \<and> k_cur t = k_cur s
          \<and> length (k_proc t) = length (k_proc s)
          \<and> (\<forall>i < length (k_proc s). i \<noteq> k_cur s \<longrightarrow>
               woken (orphan (k_cur s) (k_initproc s) (get_proc s i)) (get_proc t i))"
      using z r(1) by auto
  qed
qed

theorem fault_contained_witness:
  "\<exists>t. trap (\<lambda>_ s. Ok s) 0 (plain_tf\<lparr>tf_trapno := 14, tf_cs := 35\<rparr>) exit_kst = Ok (Exited, t) \<and> p_state (get_proc t 1) = ZOMBIE
    \<and> p_killed (get_proc t 0) = p_killed (get_proc exit_kst 0) \<and> p_ofile (get_proc t 0) = p_ofile (get_proc exit_kst 0)"
proof -
  let ?tf = "plain_tf\<lparr>tf_trapno := 14, tf_cs := 35\<rparr>"
  have k: "\<not> known_trap (unat (tf_trapno ?tf))"
    by (simp add: known_trap_def T_IRQ0_def IRQ_TIMER_def IRQ_IDE_def IRQ_KBD_def IRQ_COM1_def IRQ_SPURIOUS_def)
  have fds: "fold_res exit_fd [0..<NOFILE] (upd_proc 1 (\<lambda>p. p\<lparr>p_killed := True\<rparr>) exit_kst) = Ok (upd_proc 1 (\<lambda>p. p\<lparr>p_killed := True\<rparr>) exit_kst)"
    by (rule exit_fd_none) (simp add: exit_kst_sel NOFILE_def upd_proc_def)
  have "\<exists>t. trap (\<lambda>_ s. Ok s) 0 ?tf exit_kst = Ok (Exited, t)"
    using exit_kst_sel k fds
    by (simp add: trap_def trap_switch_def known_trap_def exit_if_killed_def have_proc_def user_mode_def exit_def begin_op_def iput_def
        end_op_def cwd_def acquire_ptable_def sched_def upd_proc_def upd_inode_def plain_proc_def MAXOPBLOCKS_def LOGSIZE_def
        reparent_def wakeup1_def wake_def Let_def)
  then obtain t where t: "trap (\<lambda>_ s. Ok s) 0 ?tf exit_kst = Ok (Exited, t)" by blast
  have c: "have_proc exit_kst" "user_mode ?tf" "length (p_ofile (cur exit_kst)) = NOFILE" "k_cur exit_kst = 1"
    by (simp_all add: have_proc_def user_mode_def exit_kst_sel NOFILE_def)
  have "woken (orphan 1 0 (get_proc exit_kst 0)) (get_proc t 0) \<and> p_state (get_proc t 1) = ZOMBIE"
    using fault_contained [OF k, of exit_kst "\<lambda>_ s. Ok s" 0 Exited t] c t exit_kst_sel(1,3) by auto
  then show ?thesis using t by (auto simp: woken_def orphan_def split: if_splits)
qed

text \<open>
  C17. \<^verbatim>\<open>sleep(n)\<close> in terms of elapsed clock ticks, over a wrap-around of the counter: after \<open>d\<close> ticks,
  less than \<open>2 ^ 32\<close>, the test that the call makes whenever it is woken ends it with 0 exactly when \<open>d\<close> has reached \<open>n\<close> taken as an unsigned number,
  so a negative argument waits for \<open>2 ^ 32 + n\<close> ticks; before that a killed process gets -1 and any
  other sleeps on. Every tick wakes exactly the processes asleep on the clock.
\<close>

theorem sleep_counts_ticks:
  assumes "d < 2 ^ 32" and "t0 < 2 ^ 32" and "k_ticks s = wrap32 (t0 + d)" and "- (2 ^ 31) \<le> n" and "n < 2 ^ 31"
  shows "sleep_test n t0 s =
      (if (if n < 0 then n + 2 ^ 32 else n) \<le> int d then Ret 0 else if p_killed (cur s) then Ret (-1) else Blocked ChanTicks)
    \<and> k_ticks (clock_tick s) = wrap32 (t0 + d + 1)
    \<and> (\<forall>i < length (k_proc s). p_state (get_proc (clock_tick s) i) =
         (if p_state (get_proc s i) = SLEEPING \<and> p_chan (get_proc s i) = Some ChanTicks then RUNNABLE else p_state (get_proc s i)))"
proof -
  have d: "wrap32 (k_ticks s + 2 ^ 32 - t0) = d"
    using assms(1,2) by (simp add: assms(3) wrap32_def mod_if, arith)
  have u: "int (uint32 n) = (if n < 0 then n + 2 ^ 32 else n)"
  proof (cases "n < 0")
    case True
    have "n mod 2 ^ 32 = (n + 2 ^ 32) mod 2 ^ 32" by simp
    also have "\<dots> = n + 2 ^ 32" using True assms(4) by (intro mod_pos_pos_trivial) simp_all
    finally show ?thesis using True assms(4) by (simp add: uint32_def)
  qed (use assms(5) in \<open>simp add: uint32_def\<close>)
  have "d < uint32 n \<longleftrightarrow> \<not> int (uint32 n) \<le> int d" by linarith
  then have "sleep_test n t0 s =
      (if (if n < 0 then n + 2 ^ 32 else n) \<le> int d then Ret 0 else if p_killed (cur s) then Ret (-1) else Blocked ChanTicks)"
    unfolding sleep_test_def d u by simp
  moreover have "k_ticks (clock_tick s) = wrap32 (t0 + d + 1)"
    by (simp add: clock_tick_def wakeup_def assms(3) wrap32_def mod_simps)
  moreover have "\<forall>i < length (k_proc s). p_state (get_proc (clock_tick s) i) =
         (if p_state (get_proc s i) = SLEEPING \<and> p_chan (get_proc s i) = Some ChanTicks then RUNNABLE else p_state (get_proc s i))"
    by (simp add: clock_tick_def wakeup_def)
  ultimately show ?thesis by blast
qed

theorem sleep_counts_ticks_witness: "sleep_test 0 0 plain_kst = Ret 0"
  using sleep_counts_ticks [of 0 0 plain_kst 0] by (simp add: plain_kst_def fsst.extend_def kst.fields_def wrap32_def)

end
