(* ===== verification/Exec_Props.thy ===== *)
theory Exec_Props
  imports Exec Proc_Props
begin

text \<open>What \<^verbatim>\<open>exec\<close> does to the process that calls it, when it succeeds and when it fails.\<close>

section \<open>Steps that leave the tables alone\<close>

definition same_tabs :: "'z kst_scheme \<Rightarrow> 'z kst_scheme \<Rightarrow> bool" where
  "same_tabs s t \<longleftrightarrow> k_proc t = k_proc s \<and> k_cur t = k_cur s \<and> k_file t = k_file s"

named_theorems tabs

lemma same_tabs_refl [simp]: "same_tabs s s"
  by (simp add: same_tabs_def)

lemma same_tabs_trans: "same_tabs s t \<Longrightarrow> same_tabs t u \<Longrightarrow> same_tabs s u"
  by (simp add: same_tabs_def)

lemma same_tabs_mm [simp]: "same_tabs (s\<lparr>k_mm := m\<rparr>) t = same_tabs s t" "same_tabs s (t\<lparr>k_mm := m\<rparr>) = same_tabs s t"
  by (simp_all add: same_tabs_def)

lemma more_tabs: "fsst.more t = fsst.more s \<Longrightarrow> same_tabs s t"
  using kst_more [of t s] by (simp add: same_tabs_def)

lemmas exec_tabs = readi_fs [THEN more_tabs] begin_op_fs [THEN more_tabs] end_op_fs [THEN more_tabs]
  ilock_fs [THEN more_tabs] iunlockput_fs [THEN more_tabs]

lemma namei_tabs: "namei d path s = Ok (ip, t) \<Longrightarrow> same_tabs s t"
  using namex_fs more_tabs by (fastforce simp: namei_def)

lemma loaduvm_loop_tabs: "loaduvm_loop pgdir addr ip offset sz is s = Ok (r, t) \<Longrightarrow> same_tabs s t"
proof (induction "is" arbitrary: s)
  case (Cons i "is")
  then obtain r' bs u m where u: "readi ip (wrap32 (offset + i)) (min (sz - i) PGSIZE) s = Ok (r', bs, u)"
    and t: "t = u\<lparr>k_mm := m\<rparr> \<or> loaduvm_loop pgdir addr ip offset sz is (u\<lparr>k_mm := m\<rparr>) = Ok (r, t)"
    by (auto simp: Let_def split: option.splits if_splits)
  have "same_tabs u t" using t Cons.IH [of "u\<lparr>k_mm := m\<rparr>"] by auto
  then show ?case using same_tabs_trans [OF exec_tabs(1) [OF u]] by blast
qed simp

lemma loaduvm_tabs: "loaduvm pgdir addr ip offset sz s = Ok (r, t) \<Longrightarrow> same_tabs s t"
  using loaduvm_loop_tabs by (fastforce simp: loaduvm_def split: if_splits)

lemma exec_load_tabs: "exec_load ip pgdir n off sz s = Ok (r, t) \<Longrightarrow> same_tabs s t"
proof (induction n arbitrary: off sz s)
  case (Suc n)
  obtain r' bs u where u: "readi ip off PROGHDR_SIZE s = Ok (r', bs, u)" using Suc.prems by auto
  note su = exec_tabs(1) [OF u]
  note rest = Suc.prems [simplified, unfolded u, simplified, unfolded Let_def]
  have "same_tabs u t"
    using rest Suc.IH loaduvm_tabs by (fastforce split: if_splits dest: same_tabs_trans)
  then show ?case using su same_tabs_trans by blast
qed simp

lemma exec_bad_tabs: "exec_bad pgdir ip s = Ok (r, t) \<Longrightarrow> r = -1 \<and> same_tabs s t"
  using exec_tabs(3,5) by (fastforce simp: exec_bad_def split: if_splits option.splits dest: same_tabs_trans)

section \<open>The stack pointer\<close>

lemma mod8_uint: "(a :: addr_t) mod 8 = 0 \<longleftrightarrow> uint a mod 8 = 0"
  by (simp add: word_uint_eq_iff uint_mod)

lemma aligned_diff: "a mod 8 = 0 \<Longrightarrow> (a - b * 8) mod 8 = (0 :: addr_t)"
proof -
  assume a: "a mod 8 = 0"
  have "uint (a - b * 8) = (uint a - uint b * 8) mod 2 ^ 64"
    by (simp add: uint_word_ariths mod_simps)
  then have "uint (a - b * 8) mod 8 = (uint a - uint b * 8) mod 8"
    using mod_mod_cancel [of 8 "2 ^ 64 :: int" "uint a - uint b * 8"] by simp
  then show ?thesis using a unfolding mod8_uint by presburger
qed

lemma push_sp_aligned: "push_sp sp n mod 8 = 0"
proof -
  have "take_bit 3 (NOT 7 :: addr_t) = 0" by (simp add: take_bit_eq_mod)
  then have "take_bit 3 (x AND NOT 7 :: addr_t) = 0" for x by (simp add: take_bit_and)
  then show ?thesis by (simp add: push_sp_def take_bit_eq_mod)
qed

lemma allocuvm_loop_result: "allocuvm_loop kend pgdir oldsz newsz as k = Ok (r, k') \<Longrightarrow> r = 0 \<or> r = newsz"
proof (induction "as" arbitrary: k)
  case (Cons a "as")
  from Cons.prems show ?case using Cons.IH by (auto split: if_splits)
qed simp

lemma allocuvm_result: "allocuvm kend pgdir oldsz newsz k = Ok (r, k') \<Longrightarrow> r = 0 \<or> r = newsz \<or> r = oldsz"
  by (auto simp: allocuvm_def split: if_splits dest: allocuvm_loop_result)

lemma exec_args_result:
  assumes "exec_args pgdir argv sp ptrs m = Ok (Some (sp', ptrs'), m')" and "length ptrs \<le> MAXARG" and "sp mod 8 = 0"
  shows "length ptrs' = length ptrs + length argv \<and> length ptrs' \<le> MAXARG \<and> sp' mod 8 = 0"
  using assms
proof (induction argv arbitrary: sp ptrs m)
  case (Cons arg argv)
  from Cons.prems show ?case
    using Cons.IH [of "push_sp sp (length (cstr arg))" "ptrs @ [push_sp sp (length (cstr arg))]"]
    by (auto simp: Let_def push_sp_aligned split: if_splits)
qed simp

lemma PGROUNDUP_mod8: "PGROUNDUP a mod 8 = 0" "(PGROUNDUP a + 8192) mod 8 = 0"
proof -
  have "unat (PGROUNDUP a) = 8 * (512 * (unat (a + 4095) div 4096))"
    by (simp add: PGROUNDUP_down unat_PGROUNDDOWN PGSIZE_def minus_mod_eq_mult_div)
  then have "unat (PGROUNDUP a) mod 8 = 0" by simp
  then show a: "PGROUNDUP a mod 8 = 0" by (simp add: word_unat_eq_iff unat_mod)
  show "(PGROUNDUP a + 8192) mod 8 = 0" using aligned_diff [OF a, of "- 1024"] by simp
qed

section \<open>Exec\<close>

text \<open>What the two ways through the end of \<^verbatim>\<open>exec\<close> leave of the process.\<close>

definition kept_image :: "proc \<Rightarrow> proc \<Rightarrow> bool" where
  "kept_image p q \<longleftrightarrow> (\<exists>a b. q = p\<lparr>p_tf := (p_tf p)\<lparr>tf_rdi := a, tf_rsi := b\<rparr>\<rparr>)"

definition new_image :: "byte list \<Rightarrow> nat \<Rightarrow> proc \<Rightarrow> proc \<Rightarrow> bool" where
  "new_image path argc p q \<longleftrightarrow> p_pgdir q \<noteq> 0 \<and> tf_rsp (p_tf q) mod 8 = 0 \<and>
     (\<exists>pgdir sz start sp. q = p\<lparr>p_name := proc_name (last_elem path), p_pgdir := pgdir, p_sz := sz,
        p_tf := (p_tf p)\<lparr>tf_rdi := of_nat argc, tf_rsi := sp + 8, tf_rip := start, tf_rcx := start, tf_rsp := sp\<rparr>\<rparr>)"

definition exec_effect :: "byte list \<Rightarrow> byte list list \<Rightarrow> int \<Rightarrow> 'z kst_scheme \<Rightarrow> 'z kst_scheme \<Rightarrow> bool" where
  "exec_effect path argv r s t \<longleftrightarrow> k_cur t = k_cur s \<and> k_file t = k_file s
     \<and> (\<exists>q. k_proc t = (k_proc s)[k_cur s := q] \<and>
          (r = -1 \<and> kept_image (cur s) q \<or> r = 0 \<and> length argv \<le> MAXARG \<and> new_image path (length argv) (cur s) q))"

lemma kept_refl [simp]: "kept_image p p"
  unfolding kept_image_def by (rule exI [of _ "tf_rdi (p_tf p)"], rule exI [of _ "tf_rsi (p_tf p)"]) simp

lemma exec_effect_tabs: "same_tabs s u \<Longrightarrow> exec_effect path argv r u t \<Longrightarrow> exec_effect path argv r s t"
  by (simp add: exec_effect_def same_tabs_def)

lemma exec_bad_effect:
  assumes "exec_bad pgdir ip s = Ok (r, t)"
  shows "exec_effect path argv r s t"
proof -
  have "r = -1" "k_proc t = k_proc s" "k_cur t = k_cur s" "k_file t = k_file s"
    using exec_bad_tabs [OF assms] by (simp_all add: same_tabs_def)
  moreover have "k_proc s = (k_proc s)[k_cur s := cur s]" by simp
  ultimately show ?thesis unfolding exec_effect_def using kept_refl by metis
qed

lemma exec_stack_effect:
  assumes "exec_stack path argv oldpgdir pgdir sz start s = Ok (r, t)" and "k_cur s < length (k_proc s)" and "pgdir \<noteq> 0"
  shows "exec_effect path argv r s t"
proof -
  obtain sz' m where al: "allocuvm (k_end s) pgdir (PGROUNDUP sz) (PGROUNDUP sz + of_nat (2 * PGSIZE)) (k_mm s) = Ok (sz', m)"
    using assms(1) by (auto simp: exec_stack_def)
  have two_pages: "(of_nat (2 * PGSIZE) :: addr_t) = 8192" by (simp add: PGSIZE_def)
  have z: "sz' mod 8 = 0"
    using allocuvm_result [OF al] PGROUNDUP_mod8 [of sz] by (elim disjE) (simp_all only: mod_0 two_pages)
  consider (nostack) "sz' = 0" "exec_bad pgdir None (s\<lparr>k_mm := m\<rparr>) = Ok (r, t)"
    | (stack) m1 args m2 where "sz' \<noteq> 0" "exec_args pgdir argv sz' [] m1 = Ok (args, m2)"
        "(let s = s\<lparr>k_mm := m2\<rparr> in
           case args of
             None \<Rightarrow> exec_bad pgdir None s
           | Some (sp, ptrs) \<Rightarrow>
               let argc = of_nat (length ptrs);
                   ustack = concat (map (\<lambda>w. le_bytes 8 (unat w)) (- 1 # ptrs @ [0]));
                   s = upd_cur (\<lambda>p. p\<lparr>p_tf := (p_tf p)\<lparr>tf_rdi := argc, tf_rsi := sp - (argc + 1) * 8\<rparr>\<rparr>) s;
                   sp = sp - (argc + 2) * 8
               in bind_res (copyout pgdir sp ustack (k_mm s)) (\<lambda>(r, m).
                    let s = s\<lparr>k_mm := m\<rparr> in
                    if r < 0 then exec_bad pgdir None s
                    else exec_commit path oldpgdir pgdir sz' start sp s)) = Ok (r, t)"
    using assms(1) al by (auto simp: exec_stack_def split: if_splits)
  then show ?thesis
  proof cases
    case nostack
    show ?thesis using exec_effect_tabs [OF _ exec_bad_effect [OF nostack(2)], of s] by simp
  next
    case stack
    show ?thesis
    proof (cases args)
      case None
      then have "exec_bad pgdir None (s\<lparr>k_mm := m2\<rparr>) = Ok (r, t)" using stack(3) by simp
      from exec_effect_tabs [OF _ exec_bad_effect [OF this], of s] show ?thesis by simp
    next
      case (Some sp_ptrs)
      obtain sp ptrs where a: "args = Some (sp, ptrs)" using Some by (cases sp_ptrs) simp
      have p: "length ptrs = length argv" "length argv \<le> MAXARG" "sp mod 8 = 0"
        using exec_args_result [OF stack(2) [unfolded a], of] z by (simp_all add: MAXARG_def)
      define u where "u = upd_cur (\<lambda>p. p\<lparr>p_tf := (p_tf p)\<lparr>tf_rdi := of_nat (length argv), tf_rsi := sp - (of_nat (length argv) + 1) * 8\<rparr>\<rparr>) s"
      obtain m3 r3 where e: "r3 < 0 \<and> exec_bad pgdir None (u\<lparr>k_mm := m3\<rparr>) = Ok (r, t)
          \<or> \<not> r3 < (0 :: int) \<and> exec_commit path oldpgdir pgdir sz' start (sp - (of_nat (length argv) + 2) * 8) (u\<lparr>k_mm := m3\<rparr>) = Ok (r, t)"
        using stack(3) p(1) by (auto simp: a Let_def u_def upd_proc_def split: if_splits)
      let ?q = "(cur s)\<lparr>p_tf := (p_tf (cur s))\<lparr>tf_rdi := of_nat (length argv), tf_rsi := sp - (of_nat (length argv) + 1) * 8\<rparr>\<rparr>"
      have pu: "k_proc u = (k_proc s)[k_cur s := ?q]" "k_cur u = k_cur s" "k_file u = k_file s" by (simp_all add: u_def)
      have kq: "kept_image (cur s) ?q" unfolding kept_image_def by blast
      from e show ?thesis
      proof (elim disjE conjE)
        assume "exec_bad pgdir None (u\<lparr>k_mm := m3\<rparr>) = Ok (r, t)"
        from exec_bad_tabs [OF this] show ?thesis using kq pu by (auto simp: exec_effect_def same_tabs_def)
      next
        assume c: "exec_commit path oldpgdir pgdir sz' start (sp - (of_nat (length argv) + 2) * 8) (u\<lparr>k_mm := m3\<rparr>) = Ok (r, t)"
        let ?sp = "sp - (of_nat (length argv) + 2) * 8"
        let ?n = "(cur s)\<lparr>p_name := proc_name (last_elem path), p_pgdir := pgdir, p_sz := sz',
            p_tf := (p_tf (cur s))\<lparr>tf_rdi := of_nat (length argv), tf_rsi := ?sp + 8, tf_rip := start, tf_rcx := start, tf_rsp := ?sp\<rparr>\<rparr>"
        have t: "r = 0" "k_cur t = k_cur s" "k_file t = k_file s" "k_proc t = (k_proc s)[k_cur s := ?n]"
          using c pu assms(2) by (auto simp: exec_commit_def Let_def algebra_simps)
        have "new_image path (length argv) (cur s) ?n"
          unfolding new_image_def
        proof (intro conjI)
          show "tf_rsp (p_tf ?n) mod 8 = 0" using aligned_diff [OF p(3), of "of_nat (length argv) + 2"] by simp
        qed (use assms(3) in \<open>simp, blast\<close>)
        then show ?thesis unfolding exec_effect_def t using p(2) by blast
      qed
    qed
  qed
qed

text \<open>
  In all cases no other process,
  no open file and none of the descriptors change. When \<^verbatim>\<open>exec\<close> fails with -1, the process still has its page
  table, size, name and registers, except that the registers of the first two arguments may have
  been overwritten.
\<close>

lemma exec_effect_ok:
  assumes "exec path argv s = Ok (r, t)" and "k_cur s < length (k_proc s)"
  shows "exec_effect path argv r s t"
proof -
  obtain s1 ip s2 where s1: "begin_op s = Ok s1" and s2: "namei (cwd s1) path s1 = Ok (ip, s2)"
    using assms(1) by (auto simp: exec_def Let_def)
  have t2: "same_tabs s s2" using same_tabs_trans [OF exec_tabs(2) [OF s1] namei_tabs [OF s2]] .
  show ?thesis
  proof (cases ip)
    case None
    then have "r = -1" "end_op s2 = Ok t" using assms(1) s1 s2 by (auto simp: exec_def Let_def end_ret_def)
    then show ?thesis using same_tabs_trans [OF t2 exec_tabs(3)] by (auto simp: exec_effect_def same_tabs_def intro!: exI [of _ "cur s"])
  next
    case (Some i)
    then obtain s3 r4 bs s4 where s3: "ilock i s2 = Ok s3" and s4: "readi i 0 ELFHDR_SIZE s3 = Ok (r4, bs, s4)"
      using assms(1) s1 s2 by (auto simp: exec_def Let_def)
    have t4: "same_tabs s s4" using same_tabs_trans [OF same_tabs_trans [OF t2 exec_tabs(4) [OF s3]] exec_tabs(1) [OF s4]] .
    note run = assms(1) [unfolded exec_def Let_def, unfolded s1, simplified, unfolded s2, simplified, unfolded Some, simplified, unfolded s3, simplified, unfolded s4, simplified]
    then consider (bad) "exec_bad 0 (Some i) s4 = Ok (r, t)" | (badm) m where "exec_bad 0 (Some i) (s4\<lparr>k_mm := m\<rparr>) = Ok (r, t)"
      | (load) pgdir m sz s5 old where "pgdir \<noteq> 0"
          "exec_load i pgdir (eh_phnum (dec_elfhdr bs)) (wrap32 (unat (eh_phoff (dec_elfhdr bs)))) (of_nat PGSIZE) (s4\<lparr>k_mm := m\<rparr>) = Ok (sz, s5)"
          "(case sz of None \<Rightarrow> exec_bad pgdir (Some i) s5
            | Some sz \<Rightarrow> bind_res (iunlockput i s5) (\<lambda>s. bind_res (end_op s) (\<lambda>s.
                exec_stack path argv old pgdir sz (eh_entry (dec_elfhdr bs)) s))) = Ok (r, t)"
      by (auto split: if_splits)
    then show ?thesis
    proof cases
      case bad
      show ?thesis using exec_effect_tabs [OF t4 exec_bad_effect [OF bad]] .
    next
      case badm
      show ?thesis using exec_effect_tabs [OF _ exec_bad_effect [OF badm], of s] t4 by simp
    next
      case load
      have t5: "same_tabs s s5" using same_tabs_trans [OF _ exec_load_tabs [OF load(2)], of s] t4 by simp
      show ?thesis
      proof (cases sz)
        case None
        then show ?thesis using exec_effect_tabs [OF t5 exec_bad_effect] load(3) by simp
      next
        case (Some z)
        then obtain s6 s7 where s67: "iunlockput i s5 = Ok s6" "end_op s6 = Ok s7"
            "exec_stack path argv old pgdir z (eh_entry (dec_elfhdr bs)) s7 = Ok (r, t)"
          using load(3) by auto
        have t7: "same_tabs s s7" using same_tabs_trans [OF same_tabs_trans [OF t5 exec_tabs(5) [OF s67(1)]] exec_tabs(3) [OF s67(2)]] .
        show ?thesis using exec_effect_tabs [OF t7 exec_stack_effect [OF s67(3) _ load(1)]] t7 assms(2) by (simp add: same_tabs_def)
      qed
    qed
  qed
qed

text \<open>A process whose current directory is an ordinary file, so that no path leads anywhere.\<close>

definition lost_kst :: kst where
  "lost_kst = fsst.extend (small_fs file_1) (kst.fields [plain_file] Map.empty plain_mm [plain_proc] 0 0 2 0 0 False False 0xFFFF800000100000)"

lemma lost_kst_sel:
  "k_proc lost_kst = [plain_proc]" "k_cur lost_kst = 0" "fs_inode lost_kst = file_1 # replicate 49 free_slot"
  "lg_outstanding lost_kst = 1" "\<not> lg_committing lost_kst" "lg_n lost_kst = 0" "bc_pid lost_kst = 1"
  by (simp_all add: lost_kst_def fsst.extend_def kst.fields_def small_fs_sel)

lemma exec_lost: "\<exists>t. exec [97] [] lost_kst = Ok (-1, t)"
  using lost_kst_sel
  by (simp add: exec_def begin_op_def namei_def namex_def namex_loop.simps [of False "[97]"] skipelem_def idup_def cwd_def plain_proc_def
      upd_inode_def ilock_def acquiresleep_def file_1_def slot_1_def free_slot_def T_FILE_def T_DIR_def iunlockput_def iunlock_def
      holdingsleep_def releasesleep_def iput_def end_ret_def end_op_def MAXOPBLOCKS_def LOGSIZE_def Let_def DIRSIZ_def)

end
