(* ===== verification/Console.thy ===== *)
theory Console
  imports Bytes
begin

text \<open>
  \<^verbatim>\<open>src/console.c\<close>: the screen, the line editor of the input buffer, and the console's device operations.
  The counters of the input buffer are \<^verbatim>\<open>uint\<close>s and are compared as such. What the code does outside its own
  variables is a trace of events. The locks, and the loop of a CPU that has seen a panic, are left
  out; the routines that touch the locks are executed as a whole.
\<close>

section \<open>State\<close>

datatype con_event = Uart nat | WakeReaders | LoadIdt0 | LoadFont "byte list" | LoadDefaultFont

definition INPUT_BUF :: nat where
  "INPUT_BUF = 128"

definition CONSOLE_FONT_BYTES :: nat where
  "CONSOLE_FONT_BYTES = 4096"

record console =
  in_buf :: "byte list"
  in_r :: "32 word"
  in_w :: "32 word"
  in_e :: "32 word"
  in_cur :: "32 word"
  in_raw :: bool
  in_esc :: nat
  draft :: "byte list"
  draft_active :: bool
  crt :: "nat \<Rightarrow> 16 word"
  crt_pos :: nat
  fg :: "32 word"
  bg :: "32 word"
  font_buf :: "byte list"
  font_loading :: bool
  font_offset :: nat
  has_uart :: bool
  con_ev :: "con_event list"

definition emit :: "con_event \<Rightarrow> 'z console_scheme \<Rightarrow> 'z console_scheme" where
  "emit v st = st\<lparr>con_ev := con_ev st @ [v]\<rparr>"

definition uartputc :: "nat \<Rightarrow> 'z console_scheme \<Rightarrow> 'z console_scheme" where
  "uartputc c st = (if has_uart st then emit (Uart (c mod 256)) st else st)"

section \<open>The screen\<close>

text \<open>A character is a byte or \<^verbatim>\<open>BACKSPACE\<close>. The cursor is the position in the CGA controller's two registers.\<close>

definition BACKSPACE :: nat where
  "BACKSPACE = 256"

definition cga_store :: "nat \<Rightarrow> 32 word \<Rightarrow> nat \<Rightarrow> (nat \<Rightarrow> 16 word) \<Rightarrow> nat \<times> (nat \<Rightarrow> 16 word)" where
  "cga_store c attr pos m =
     (if c = 10 then (pos + (80 - pos mod 80), m)
      else if c = BACKSPACE then
        if pos > 0 then (pos - 1, m(pos - 1 := ucast (32 OR attr))) else (pos, m)
      else (pos + 1, m(pos := ucast (of_nat (c mod 256) OR attr))))"

definition cga_scroll :: "32 word \<Rightarrow> nat \<Rightarrow> (nat \<Rightarrow> 16 word) \<Rightarrow> nat \<times> (nat \<Rightarrow> 16 word)" where
  "cga_scroll attr pos m =
     (if pos div 80 \<ge> 24 then
        let m = (\<lambda>i. if i < 23 * 80 then m (i + 80) else m i); pos = pos - 80
        in (pos, \<lambda>i. if pos \<le> i \<and> i < 24 * 80 then ucast (32 OR attr) else m i)
      else (pos, m))"

definition cgaputc :: "nat \<Rightarrow> 32 word \<Rightarrow> 'z console_scheme \<Rightarrow> 'z console_scheme" where
  "cgaputc c attr st =
     (let (pos, m) = cga_store c attr (crt_pos st) (crt st); (pos, m) = cga_scroll attr pos m
      in st\<lparr>crt := m, crt_pos := pos mod 2 ^ 16\<rparr>)"

definition global_attr :: "'z console_scheme \<Rightarrow> 32 word" where
  "global_attr st = push_bit 8 (push_bit 4 (bg st) OR fg st)"

definition consputc_color :: "nat \<Rightarrow> 32 word \<Rightarrow> 'z console_scheme \<Rightarrow> 'z console_scheme" where
  "consputc_color c attr st =
     cgaputc c attr (if c = BACKSPACE then uartputc 8 (uartputc 32 (uartputc 8 st)) else uartputc c st)"

definition consputc :: "nat \<Rightarrow> 'z console_scheme \<Rightarrow> 'z console_scheme" where
  "consputc c st = consputc_color c (global_attr st) st"

definition cons_cursor_left :: "'z console_scheme \<Rightarrow> 'z console_scheme" where
  "cons_cursor_left st = (let st = uartputc 8 st in st\<lparr>crt_pos := crt_pos st - 1\<rparr>)"

definition consoleclear :: "'z console_scheme \<Rightarrow> 'z console_scheme" where
  "consoleclear st =
     (let attr = global_attr st;
          st = st\<lparr>crt := (\<lambda>i. if i < 80 * 24 then ucast (32 OR attr) else crt st i), crt_pos := 0\<rparr>
      in fold uartputc [27, 91, 50, 74, 27, 91, 72] st)"

section \<open>Formatted output\<close>

definition digits :: "nat list" where
  "digits = [48, 49, 50, 51, 52, 53, 54, 55, 56, 57, 97, 98, 99, 100, 101, 102]"

fun print_x64 :: "nat \<Rightarrow> 64 word \<Rightarrow> nat list" where
  "print_x64 0 x = []"
| "print_x64 (Suc n) x = digits ! unat (drop_bit 60 x) # print_x64 n (push_bit 4 x)"

fun print_x32 :: "nat \<Rightarrow> 32 word \<Rightarrow> nat list" where
  "print_x32 0 x = []"
| "print_x32 (Suc n) x = digits ! unat (drop_bit 28 x) # print_x32 n (push_bit 4 x)"

text \<open>The digits that \<^verbatim>\<open>print_d\<close> collects in its buffer, last digit first.\<close>

function print_d_buf :: "nat \<Rightarrow> nat list" where
  "print_d_buf x = digits ! (x mod 10) # (if x div 10 \<noteq> 0 then print_d_buf (x div 10) else [])"
  by pat_completeness auto
termination
  by (relation "measure id") auto

declare print_d_buf.simps [simp del]

definition print_d :: "int \<Rightarrow> nat list" where
  "print_d v = rev (print_d_buf (nat \<bar>v\<bar>) @ (if v < 0 then [45] else []))"

text \<open>
  \<^verbatim>\<open>cprintf\<close>: the characters that are printed. An argument is what \<^verbatim>\<open>va_arg\<close> finds; a missing one, or one of the
  wrong type, is an error of the caller (\<open>Fault\<close>). \<open>None\<close> is a null string.
\<close>

datatype carg = ArgD int | ArgX "32 word" | ArgP "64 word" | ArgS "byte list option"

fun cprintf_arg :: "nat \<Rightarrow> carg list \<Rightarrow> (nat list \<times> carg list) res" where
  "cprintf_arg c args =
     (if c = 100 then (case args of ArgD v # args \<Rightarrow> Ok (print_d v, args) | _ \<Rightarrow> Fault ''va_arg'')
      else if c = 120 then (case args of ArgX v # args \<Rightarrow> Ok (print_x32 8 v, args) | _ \<Rightarrow> Fault ''va_arg'')
      else if c = 112 then (case args of ArgP v # args \<Rightarrow> Ok (print_x64 16 v, args) | _ \<Rightarrow> Fault ''va_arg'')
      else if c = 115 then
        (case args of
           ArgS (Some t) # args \<Rightarrow> Ok (map unat t, args)
         | ArgS None # args \<Rightarrow> Ok ([40, 110, 117, 108, 108, 41], args)
         | _ \<Rightarrow> Fault ''va_arg'')
      else if c = 37 then Ok ([37], args)
      else Ok ([37, c], args))"

fun cprintf_loop :: "byte list \<Rightarrow> carg list \<Rightarrow> nat list res" where
  "cprintf_loop [] args = Ok []"
| "cprintf_loop (c # fmt) args =
     (if c \<noteq> 37 then bind_res (cprintf_loop fmt args) (\<lambda>out. Ok (unat c # out))
      else case fmt of
        [] \<Rightarrow> Ok []
      | d # fmt \<Rightarrow>
          bind_res (cprintf_arg (unat d) args) (\<lambda>(out, args).
          bind_res (cprintf_loop fmt args) (\<lambda>rest. Ok (out @ rest))))"

definition cprintf :: "byte list option \<Rightarrow> carg list \<Rightarrow> 'z console_scheme \<Rightarrow> 'z console_scheme res" where
  "cprintf fmt args st =
     (case fmt of
        None \<Rightarrow> Panic ''null fmt''
      | Some fmt \<Rightarrow> bind_res (cprintf_loop fmt args) (\<lambda>out. Ok (fold consputc out st)))"

section \<open>The input buffer\<close>

text \<open>\<^verbatim>\<open>input.buf[i % INPUT_BUF]\<close>, read and written.\<close>

definition slot :: "32 word \<Rightarrow> nat" where
  "slot i = unat i mod INPUT_BUF"

definition in_at :: "'z console_scheme \<Rightarrow> 32 word \<Rightarrow> byte" where
  "in_at st i = in_buf st ! slot i"

definition in_set :: "32 word \<Rightarrow> byte \<Rightarrow> 'z console_scheme \<Rightarrow> 'z console_scheme" where
  "in_set i c st = st\<lparr>in_buf := (in_buf st)[slot i := c]\<rparr>"

text \<open>\<^verbatim>\<open>input.e - input.r\<close>.\<close>

definition in_used :: "'z console_scheme \<Rightarrow> nat" where
  "in_used st = unat (in_e st - in_r st)"

definition show_at :: "32 word \<Rightarrow> 'z console_scheme \<Rightarrow> 'z console_scheme" where
  "show_at i st = consputc (unat (in_at st i)) st"

lemma uartputc_sel [simp]:
  "in_buf (uartputc c st) = in_buf st" "in_r (uartputc c st) = in_r st" "in_w (uartputc c st) = in_w st" "in_e (uartputc c st) = in_e st"
  "in_cur (uartputc c st) = in_cur st" "in_raw (uartputc c st) = in_raw st" "in_esc (uartputc c st) = in_esc st"
  "draft (uartputc c st) = draft st" "draft_active (uartputc c st) = draft_active st"
  by (simp_all add: uartputc_def emit_def)

lemma consputc_sel [simp]:
  "in_buf (consputc c st) = in_buf st" "in_r (consputc c st) = in_r st" "in_w (consputc c st) = in_w st" "in_e (consputc c st) = in_e st"
  "in_cur (consputc c st) = in_cur st" "in_raw (consputc c st) = in_raw st" "in_esc (consputc c st) = in_esc st"
  "draft (consputc c st) = draft st" "draft_active (consputc c st) = draft_active st"
  by (simp_all add: consputc_def consputc_color_def cgaputc_def Let_def split: prod.split)

lemma cursor_left_sel [simp]:
  "in_buf (cons_cursor_left st) = in_buf st" "in_r (cons_cursor_left st) = in_r st" "in_w (cons_cursor_left st) = in_w st"
  "in_e (cons_cursor_left st) = in_e st" "in_cur (cons_cursor_left st) = in_cur st" "in_raw (cons_cursor_left st) = in_raw st"
  "in_esc (cons_cursor_left st) = in_esc st" "draft (cons_cursor_left st) = draft st" "draft_active (cons_cursor_left st) = draft_active st"
  by (simp_all add: cons_cursor_left_def Let_def)

lemma show_at_sel [simp]:
  "in_buf (show_at i st) = in_buf st" "in_r (show_at i st) = in_r st" "in_w (show_at i st) = in_w st" "in_e (show_at i st) = in_e st"
  "in_cur (show_at i st) = in_cur st" "in_raw (show_at i st) = in_raw st" "in_esc (show_at i st) = in_esc st"
  "draft (show_at i st) = draft st" "draft_active (show_at i st) = draft_active st"
  by (simp_all add: show_at_def)

lemma unat_inc: "(a :: 32 word) < b \<Longrightarrow> unat (a + 1) = unat a + 1"
  using unsigned_less [where 'a = nat, of b] by (subst unat_add_lem [THEN iffD1]) (simp_all add: word_less_nat_alt)

lemma unat_dec: "(a :: 32 word) \<noteq> 0 \<Longrightarrow> unat (a - 1) = unat a - 1"
  by (simp add: unat_minus_one)

text \<open>\<^verbatim>\<open>while (input.cur < input.e) consputc(input.buf[input.cur++ % INPUT_BUF]);\<close>\<close>

function cursor_to_end :: "'z console_scheme \<Rightarrow> 'z console_scheme" where
  "cursor_to_end st =
     (if in_cur st < in_e st then cursor_to_end (show_at (in_cur st) (st\<lparr>in_cur := in_cur st + 1\<rparr>)) else st)"
  by pat_completeness auto
termination
  by (relation "measure (\<lambda>st. unat (in_e st) - unat (in_cur st))") (auto simp: unat_inc word_less_nat_alt)

text \<open>The loop of \<^verbatim>\<open>clear\<close> that takes characters back, up to the start of the line.\<close>

function erase_line :: "'z console_scheme \<Rightarrow> 'z console_scheme" where
  "erase_line st =
     (if in_e st \<noteq> in_w st \<and> in_at st (in_e st - 1) \<noteq> 10 then erase_line (consputc BACKSPACE (st\<lparr>in_e := in_e st - 1\<rparr>)) else st)"
  by pat_completeness auto
termination
proof (relation "measure (\<lambda>st. unat (in_e st - in_w st))")
  fix st :: "'z console_scheme"
  assume "in_e st \<noteq> in_w st \<and> in_at st (in_e st - 1) \<noteq> 10"
  then have "in_e st - in_w st \<noteq> 0" by simp
  then have "unat (in_e st - in_w st - 1) < unat (in_e st - in_w st)"
    using unat_dec unat_gt_0 [of "in_e st - in_w st"] by (simp add: unat_minus_one)
  then show "(consputc BACKSPACE (st\<lparr>in_e := in_e st - 1\<rparr>), st) \<in> measure (\<lambda>st. unat (in_e st - in_w st))"
    by (simp add: algebra_simps)
qed simp

declare cursor_to_end.simps [simp del] erase_line.simps [simp del]

definition clear :: "'z console_scheme \<Rightarrow> 'z console_scheme" where
  "clear st = (let st = erase_line (cursor_to_end st) in st\<lparr>in_cur := in_e st\<rparr>)"

section \<open>The history's draft\<close>

definition save_history_draft :: "'z console_scheme \<Rightarrow> 'z console_scheme" where
  "save_history_draft st =
     (let len = min (unat (in_e st - in_w st)) (INPUT_BUF - 1)
      in st\<lparr>draft := patch 0 (map (\<lambda>i. in_at st (in_w st + of_nat i)) [0..<len] @ [0]) (draft st), draft_active := True\<rparr>)"

text \<open>The loop of \<^verbatim>\<open>replace_input\<close> that types the replacement.\<close>

fun type_string :: "byte list \<Rightarrow> 'z console_scheme \<Rightarrow> 'z console_scheme" where
  "type_string [] st = st"
| "type_string (c # cs) st =
     (if in_used st < INPUT_BUF - 1 then
        let st = in_set (in_e st) c st; st = st\<lparr>in_e := in_e st + 1\<rparr>; st = st\<lparr>in_cur := in_e st\<rparr>
        in type_string cs (consputc (unat c) st)
      else st)"

definition replace_input :: "byte list \<Rightarrow> 'z console_scheme \<Rightarrow> 'z console_scheme" where
  "replace_input s st =
     (let restoring = (s = [] \<and> draft_active st);
          replacement = (if restoring then takeWhile (\<lambda>b. b \<noteq> 0) (draft st) else s);
          st = (if \<not> restoring \<and> \<not> draft_active st then save_history_draft st else st);
          st = type_string replacement (clear st)
      in if restoring \<or> (s \<noteq> [] \<and> (hd s = 10 \<or> hd s = 13))
         then st\<lparr>draft_active := False, draft := (draft st)[0 := 0]\<rparr> else st)"

definition consoleinput :: "byte list \<Rightarrow> 'z console_scheme \<Rightarrow> 'z console_scheme" where
  "consoleinput s st = replace_input s st"

section \<open>The line editor\<close>

definition KEY_UP :: nat where "KEY_UP = 0xE2"
definition KEY_DN :: nat where "KEY_DN = 0xE3"
definition KEY_LF :: nat where "KEY_LF = 0xE4"
definition KEY_RT :: nat where "KEY_RT = 0xE5"

text \<open>The control character \<^verbatim>\<open>C(x)\<close> for the letter with code \<open>x\<close>.\<close>

definition ctl :: "nat \<Rightarrow> nat" where
  "ctl x = x - 64"

definition move_left :: "'z console_scheme \<Rightarrow> 'z console_scheme" where
  "move_left st = (if in_cur st > in_w st then cons_cursor_left (st\<lparr>in_cur := in_cur st - 1\<rparr>) else st)"

definition move_right :: "'z console_scheme \<Rightarrow> 'z console_scheme" where
  "move_right st = (if in_cur st < in_e st then show_at (in_cur st) (st\<lparr>in_cur := in_cur st + 1\<rparr>) else st)"

text \<open>\<^verbatim>\<open>input.buf[input.e++ % INPUT_BUF] = c; input.cur = input.e;\<close>\<close>

definition push_char :: "nat \<Rightarrow> 'z console_scheme \<Rightarrow> 'z console_scheme" where
  "push_char c st = (in_set (in_e st) (of_nat c) st)\<lparr>in_e := in_e st + 1, in_cur := in_e st + 1\<rparr>"

text \<open>\<^verbatim>\<open>input.w = input.e; wakeup(&input.r);\<close>\<close>

definition submit :: "'z console_scheme \<Rightarrow> 'z console_scheme" where
  "submit st = emit WakeReaders (st\<lparr>in_w := in_e st\<rparr>)"

definition submit_char :: "nat \<Rightarrow> 'z console_scheme \<Rightarrow> 'z console_scheme" where
  "submit_char c st = (if in_used st < INPUT_BUF then submit (push_char c st) else st)"

text \<open>The two loops that move the characters behind the cursor by one place.\<close>

function shift_left :: "32 word \<Rightarrow> 32 word \<Rightarrow> byte list \<Rightarrow> byte list" where
  "shift_left i hi b = (if i < hi then shift_left (i + 1) hi (b[slot i := b ! slot (i + 1)]) else b)"
  by pat_completeness auto
termination
  by (relation "measure (\<lambda>(i, hi, b). unat hi - unat i)") (auto simp: unat_inc word_less_nat_alt)

function shift_right :: "32 word \<Rightarrow> 32 word \<Rightarrow> byte list \<Rightarrow> byte list" where
  "shift_right i low b = (if i > low then shift_right (i - 1) low (b[slot i := b ! slot (i - 1)]) else b)"
  by pat_completeness auto
termination
proof (relation "measure (\<lambda>(i, low, b). unat i)")
  fix i low :: "32 word" and b
  assume "low < i"
  then have "i \<noteq> 0" by auto
  then show "((i - 1, low, b[slot i := b ! slot (i - 1)]), i, low, b) \<in> measure (\<lambda>(i, low, b). unat i)"
    using unat_dec [of i] unat_gt_0 [of i] by simp
qed simp

function show_range :: "32 word \<Rightarrow> 32 word \<Rightarrow> 'z console_scheme \<Rightarrow> 'z console_scheme" where
  "show_range i hi st = (if i < hi then show_range (i + 1) hi (show_at i st) else st)"
  by pat_completeness auto
termination
  by (relation "measure (\<lambda>(i, hi, st). unat hi - unat i)") (auto simp: unat_inc word_less_nat_alt)

declare shift_left.simps [simp del] shift_right.simps [simp del] show_range.simps [simp del]

definition backspace :: "nat \<Rightarrow> 'z console_scheme \<Rightarrow> 'z console_scheme" where
  "backspace c st =
     (if in_cur st = in_w st then submit_char c st
      else let cur = in_cur st - 1;
               st = st\<lparr>in_cur := cur, in_buf := shift_left cur (in_e st - 1) (in_buf st), in_e := in_e st - 1\<rparr>;
               n = unat (in_e st - cur);
               st = consputc BACKSPACE st;
               st = fold (\<lambda>i. show_at (cur + of_nat i)) [0..<n] st;
               st = consputc 32 st
           in (cons_cursor_left ^^ (n + 1)) st)"

definition insert_char :: "nat \<Rightarrow> 'z console_scheme \<Rightarrow> 'z console_scheme" where
  "insert_char c st =
     (let cur = in_cur st;
          st = in_set cur (of_nat c) (st\<lparr>in_buf := shift_right (in_e st) cur (in_buf st)\<rparr>);
          st = st\<lparr>in_e := in_e st + 1\<rparr>;
          st = show_range cur (in_e st) st;
          st = st\<lparr>in_cur := cur + 1\<rparr>;
          st = (cons_cursor_left ^^ (unat (in_e st) - unat (cur + 1))) st
      in if in_e st = in_r st + of_nat INPUT_BUF then submit (cursor_to_end st) else st)"

definition type_char :: "nat \<Rightarrow> 'z console_scheme \<Rightarrow> 'z console_scheme" where
  "type_char c st =
     (if c = 0 \<or> in_used st \<ge> INPUT_BUF then st
      else let c = (if c = 13 then 10 else c) in
        if c = 10 \<or> c = ctl 68 then submit ((consputc c (push_char c (cursor_to_end st)))\<lparr>draft_active := False\<rparr>)
        else if in_cur st = in_e st then
          let st = consputc c (push_char c st)
          in if in_e st = in_r st + of_nat INPUT_BUF then submit st else st
        else insert_char c st)"

text \<open>\<^verbatim>\<open>handle_input\<close> after the arrow keys and escape sequences.\<close>

definition edit :: "nat \<Rightarrow> 'z console_scheme \<Rightarrow> 'z console_scheme" where
  "edit c st =
     (if c = ctl 90 then emit LoadIdt0 st
      else if in_raw st \<and> in_used st < INPUT_BUF then submit (push_char c st)
      else if c = ctl 85 then (clear st)\<lparr>draft_active := False\<rparr>
      else if c = 9 then submit_char c st
      else if c = ctl 80 \<or> c = ctl 78 then submit_char c (clear (if draft_active st then st else save_history_draft st))
      else if c = ctl 72 \<or> c = 127 then backspace c st
      else type_char c st)"

definition handle_input :: "nat \<Rightarrow> 'z console_scheme \<Rightarrow> 'z console_scheme" where
  "handle_input c st =
     (if c = KEY_LF then move_left st
      else if c = KEY_RT then move_right st
      else if c = KEY_UP \<or> c = KEY_DN then edit (if c = KEY_UP then ctl 80 else ctl 78) st
      else if in_esc st = 1 then st\<lparr>in_esc := if c = 91 then 2 else 0\<rparr>
      else if in_esc st = 2 then
        let st = st\<lparr>in_esc := 0\<rparr> in
        if c = 65 \<or> c = 66 then edit (if c = 65 then ctl 80 else ctl 78) st
        else if c = 67 then move_right st
        else if c = 68 then move_left st
        else st
      else if c = 27 then st\<lparr>in_esc := 1\<rparr>
      else edit c st)"

text \<open>\<^verbatim>\<open>consoleintr\<close>: \<open>cs\<close> are the characters that \<^verbatim>\<open>getc\<close> delivers before it returns -1.\<close>

definition consoleintr :: "nat list \<Rightarrow> 'z console_scheme \<Rightarrow> 'z console_scheme" where
  "consoleintr cs st = fold handle_input cs st"

section \<open>Device operations\<close>

text \<open>
  One segment of \<^verbatim>\<open>consoleread\<close>: \<open>acc\<close> is what has been stored so far and \<open>n\<close> what is still wanted. It
  ends with the number of bytes, or asleep for more input.
\<close>

datatype cread = CDone int "byte list" | CSleep nat "byte list"

fun consoleread :: "nat \<Rightarrow> byte list \<Rightarrow> bool \<Rightarrow> 'z console_scheme \<Rightarrow> cread \<times> 'z console_scheme" where
  "consoleread 0 acc killed st = (CDone (int (length acc)) acc, st)"
| "consoleread (Suc n) acc killed st =
     (if in_r st = in_w st then (if killed then CDone (-1) acc else CSleep (Suc n) acc, st)
      else let c = in_at st (in_r st); st' = st\<lparr>in_r := in_r st + 1\<rparr> in
        if c = of_nat (ctl 68) then (CDone (int (length acc)) acc, if acc \<noteq> [] then st else st')
        else if in_raw st \<or> c = 10 then (CDone (int (length acc) + 1) (acc @ [c]), st')
        else consoleread n (acc @ [c]) killed st')"

definition consoleioctl :: "int \<Rightarrow> 32 word \<Rightarrow> 'z console_scheme \<Rightarrow> int \<times> 'z console_scheme" where
  "consoleioctl param val st =
     (if param = 0 then (0, st\<lparr>fg := val AND 15, bg := signed_drop_bit 4 val AND 15\<rparr>)
      else if param = 1 then (sint (fg st OR push_bit 4 (bg st)), st)
      else if param = 2 then (sint (fg st), st)
      else if param = 3 then (sint (bg st), st)
      else if param = 4 then (0, st\<lparr>fg := val AND 15\<rparr>)
      else if param = 5 then (0, st\<lparr>bg := val AND 15\<rparr>)
      else if param = 6 then (0, st\<lparr>in_r := 0, in_w := 0, in_e := 0, in_raw := \<not> in_raw st\<rparr>)
      else if param = 7 then
        if \<not> in_raw st \<or> in_r st = in_w st then (-1, st)
        else (sint (in_at st (in_r st)), st\<lparr>in_r := in_r st + 1\<rparr>)
      else if param = 8 then
        (0, st\<lparr>crt := (\<lambda>i. if i < 80 * 24 then (crt st i AND 255) OR ucast (global_attr st) else crt st i)\<rparr>)
      else if param = 12 then (0, consoleclear st)
      else if param = 9 then (0, st\<lparr>font_loading := True, font_offset := 0\<rparr>)
      else if param = 10 then (0, st\<lparr>font_loading := False, font_offset := 0\<rparr>)
      else if param = 11 then (0, emit LoadDefaultFont (st\<lparr>font_loading := False, font_offset := 0\<rparr>))
      else (-1, st))"

text \<open>The loop of \<^verbatim>\<open>consolewrite\<close> while a font is being loaded; it ends early when the font is complete.\<close>

fun load_font :: "byte list \<Rightarrow> 'z console_scheme \<Rightarrow> 'z console_scheme" where
  "load_font [] st = st"
| "load_font (b # bs) st =
     (if \<not> font_loading st then st
      else let st = st\<lparr>font_buf := (font_buf st)[font_offset st := b], font_offset := font_offset st + 1\<rparr> in
        load_font bs
          (if font_offset st = CONSOLE_FONT_BYTES
           then (emit (LoadFont (font_buf st)) st)\<lparr>font_loading := False, font_offset := 0\<rparr> else st))"

text \<open>\<open>payload\<close> is \<^verbatim>\<open>f->dev_payload\<close>, 0 also for a null \<^verbatim>\<open>f\<close>.\<close>

definition consolewrite :: "64 word \<Rightarrow> byte list \<Rightarrow> 'z console_scheme \<Rightarrow> int \<times> 'z console_scheme" where
  "consolewrite payload bs st =
     (let attr = (if payload \<noteq> 0 then ucast payload else global_attr st) in
      if font_loading st then (int (length bs), load_font bs st)
      else (int (length bs), fold (\<lambda>b. consputc_color (unat b) attr) bs st))"

end
