(* ===== verification/Console_Props.thy ===== *)
theory Console_Props
  imports Console
begin

text \<open>
  The line editor of the console refines an editor on three lists: what has been submitted but not
  read, and the characters of the line before and after the cursor.
\<close>

section \<open>The abstract editor\<close>

type_synonym editor = "byte list \<times> byte list \<times> byte list"

definition ed_room :: "editor \<Rightarrow> bool" where
  "ed_room ed = (case ed of (done, l, r) \<Rightarrow> length done + length l + length r < INPUT_BUF)"

definition ed_submit :: "byte list \<Rightarrow> editor \<Rightarrow> editor" where
  "ed_submit cs ed = (case ed of (done, l, r) \<Rightarrow> (done @ l @ r @ cs, [], []))"

text \<open>What is left of a line that is erased back to its last newline.\<close>

definition line_start :: "byte list \<Rightarrow> byte list" where
  "line_start cs = rev (dropWhile (\<lambda>b. b \<noteq> 10) (rev cs))"

definition ed_clear :: "editor \<Rightarrow> editor" where
  "ed_clear ed = (case ed of (done, l, r) \<Rightarrow> (done, line_start (l @ r), []))"

definition ed_submit_char :: "byte \<Rightarrow> editor \<Rightarrow> editor" where
  "ed_submit_char c ed = (if ed_room ed then ed_submit [c] ed else ed)"

definition ed_insert :: "byte \<Rightarrow> editor \<Rightarrow> editor" where
  "ed_insert c ed = (case ed of (done, l, r) \<Rightarrow>
     let ed = (done, l @ [c], r) in if ed_room ed then ed else ed_submit [] ed)"

definition ed_backspace :: "byte \<Rightarrow> editor \<Rightarrow> editor" where
  "ed_backspace c ed = (case ed of (done, l, r) \<Rightarrow> if l = [] then ed_submit_char c ed else (done, butlast l, r))"

definition ed_left :: "editor \<Rightarrow> editor" where
  "ed_left ed = (case ed of (done, l, r) \<Rightarrow> if l = [] then ed else (done, butlast l, last l # r))"

definition ed_right :: "editor \<Rightarrow> editor" where
  "ed_right ed = (case ed of (done, l, r) \<Rightarrow> case r of [] \<Rightarrow> ed | c # r \<Rightarrow> (done, l @ [c], r))"

definition ed_edit :: "bool \<Rightarrow> nat \<Rightarrow> editor \<Rightarrow> editor" where
  "ed_edit raw c ed =
     (if c = ctl 90 then ed
      else if raw \<and> ed_room ed then ed_submit [of_nat c] ed
      else if c = ctl 85 then ed_clear ed
      else if c = 9 then ed_submit_char (of_nat c) ed
      else if c = ctl 80 \<or> c = ctl 78 then ed_submit_char (of_nat c) (ed_clear ed)
      else if c = ctl 72 \<or> c = 127 then ed_backspace (of_nat c) ed
      else if c = 0 \<or> \<not> ed_room ed then ed
      else if c = 10 \<or> c = 13 then ed_submit [10] ed
      else if c = ctl 68 then ed_submit [of_nat c] ed
      else ed_insert (of_nat c) ed)"

text \<open>Keys, with the state of an escape sequence from the serial line.\<close>

definition ed_key :: "bool \<Rightarrow> nat \<Rightarrow> nat \<times> editor \<Rightarrow> nat \<times> editor" where
  "ed_key raw c k = (case k of (esc, ed) \<Rightarrow>
     if c = KEY_LF then (esc, ed_left ed)
     else if c = KEY_RT then (esc, ed_right ed)
     else if c = KEY_UP then (esc, ed_edit raw (ctl 80) ed)
     else if c = KEY_DN then (esc, ed_edit raw (ctl 78) ed)
     else if esc = 1 then (if c = 91 then 2 else 0, ed)
     else if esc = 2 then
       (0, if c = 65 then ed_edit raw (ctl 80) ed else if c = 66 then ed_edit raw (ctl 78) ed
           else if c = 67 then ed_right ed else if c = 68 then ed_left ed else ed)
     else if c = 27 then (1, ed)
     else (esc, ed_edit raw c ed))"

section \<open>The ring buffer as a window\<close>

abbreviation ring_at :: "byte list \<Rightarrow> nat \<Rightarrow> byte" where
  "ring_at b i \<equiv> b ! (i mod INPUT_BUF)"

definition seg :: "byte list \<Rightarrow> nat \<Rightarrow> nat \<Rightarrow> byte list" where
  "seg b i j = map (ring_at b) [i..<j]"

definition ed_of :: "'z console_scheme \<Rightarrow> editor" where
  "ed_of st = (seg (in_buf st) (unat (in_r st)) (unat (in_w st)), seg (in_buf st) (unat (in_w st)) (unat (in_cur st)),
     seg (in_buf st) (unat (in_cur st)) (unat (in_e st)))"

definition con_ok :: "'z console_scheme \<Rightarrow> bool" where
  "con_ok st \<longleftrightarrow> length (in_buf st) = INPUT_BUF \<and> in_r st \<le> in_w st \<and> in_w st \<le> in_cur st \<and> in_cur st \<le> in_e st
     \<and> unat (in_e st) \<le> unat (in_r st) + INPUT_BUF"

lemma length_seg [simp]: "length (seg b i j) = j - i"
  by (simp add: seg_def)

lemma seg_append: "i \<le> j \<Longrightarrow> j \<le> k \<Longrightarrow> seg b i j @ seg b j k = seg b i k"
  unfolding seg_def using upt_add_eq_append [of i j "k - j"] by (simp flip: map_append)

lemma seg_Suc: "i \<le> j \<Longrightarrow> seg b i (Suc j) = seg b i j @ [ring_at b j]"
  by (simp add: seg_def)

lemma seg_Cons: "i < j \<Longrightarrow> seg b i j = ring_at b i # seg b (Suc i) j"
  by (simp add: seg_def upt_conv_Cons)

lemma seg_empty [simp]: "seg b i i = []"
  by (simp add: seg_def)

lemma seg_cong: "(\<And>k. i \<le> k \<Longrightarrow> k < j \<Longrightarrow> ring_at b k = ring_at b' k) \<Longrightarrow> seg b i j = seg b' i j"
  by (simp add: seg_def)

lemma seg_shift: "seg b (Suc i) (Suc j) = map (\<lambda>k. ring_at b (Suc k)) [i..<j]"
  by (simp add: seg_def map_Suc_upt [symmetric] comp_def del: upt_Suc)

lemma window_distinct:
  assumes "r \<le> i" "i < r + INPUT_BUF" "r \<le> j" "j < r + INPUT_BUF" "i mod INPUT_BUF = j mod INPUT_BUF"
  shows "i = j"
proof (rule ccontr)
  assume "i \<noteq> j"
  moreover have "x = y" if "x \<le> y" "y < x + INPUT_BUF" "x mod INPUT_BUF = y mod INPUT_BUF" for x y :: nat
  proof -
    have "INPUT_BUF dvd y - x" using that mod_eq_dvd_iff_nat [of x y INPUT_BUF] by simp
    then show ?thesis using that by (auto dest: dvd_imp_le)
  qed
  moreover have "i < j + INPUT_BUF" "j < i + INPUT_BUF" using assms by simp_all
  ultimately show False using assms(5) nat_le_linear [of i j] by metis
qed

lemma ring_update:
  assumes "length b = INPUT_BUF" "r \<le> i" "i < r + INPUT_BUF" "r \<le> j" "j < r + INPUT_BUF"
  shows "ring_at (b[i mod INPUT_BUF := c]) j = (if j = i then c else ring_at b j)"
  using assms window_distinct [of r i j] by (auto simp: nth_list_update INPUT_BUF_def)

lemma slot_ring: "b ! slot i = ring_at b (unat i)" "b[slot i := c] = b[unat i mod INPUT_BUF := c]"
  by (simp_all add: slot_def)

lemma shift_left_ring:
  assumes "length b = INPUT_BUF" "r \<le> unat i" "unat hi < r + INPUT_BUF"
  shows "length (shift_left i hi b) = INPUT_BUF \<and> (\<forall>j. r \<le> j \<and> j < r + INPUT_BUF \<longrightarrow>
    ring_at (shift_left i hi b) j = (if unat i \<le> j \<and> j < unat hi then ring_at b (Suc j) else ring_at b j))"
  using assms
proof (induction i hi b rule: shift_left.induct)
  case (1 i hi b)
  show ?case
  proof (cases "i < hi")
    case True
    let ?b = "b[slot i := b ! slot (i + 1)]"
    have u: "unat (i + 1) = Suc (unat i)" "unat i < unat hi" using unat_inc [OF True] True by (simp_all add: word_less_nat_alt)
    have e: "shift_left i hi b = shift_left (i + 1) hi ?b" using True by (simp add: shift_left.simps [of i])
    have b: "ring_at ?b j = (if j = unat i then ring_at b (Suc (unat i)) else ring_at b j)" if "r \<le> j" "j < r + INPUT_BUF" for j
      unfolding slot_ring using ring_update [OF 1(2), of r "unat i" j] that 1(3,4) u by simp
    note ih = 1(1) [OF True, unfolded u(1)]
    have "length (shift_left (i + 1) hi ?b) = INPUT_BUF" using ih 1(2-4) by simp
    moreover have "ring_at (shift_left (i + 1) hi ?b) j = (if unat i \<le> j \<and> j < unat hi then ring_at b (Suc j) else ring_at b j)"
      if "r \<le> j" "j < r + INPUT_BUF" for j
    proof -
      have "ring_at (shift_left (i + 1) hi ?b) j = (if Suc (unat i) \<le> j \<and> j < unat hi then ring_at ?b (Suc j) else ring_at ?b j)"
        using ih 1(2-4) that by simp
      then show ?thesis using b [OF that] b [of "Suc j"] that u(2) 1(4) by (cases "j = unat i") auto
    qed
    ultimately show ?thesis unfolding e by blast
  next
    case False
    then show ?thesis using 1(2) by (auto simp: shift_left.simps [of i] word_less_nat_alt)
  qed
qed

lemma shift_right_ring:
  assumes "length b = INPUT_BUF" "r \<le> unat low" "unat i < r + INPUT_BUF"
  shows "length (shift_right i low b) = INPUT_BUF \<and> (\<forall>j. r \<le> j \<and> j < r + INPUT_BUF \<longrightarrow>
    ring_at (shift_right i low b) j = (if unat low < j \<and> j \<le> unat i then ring_at b (j - 1) else ring_at b j))"
  using assms
proof (induction i low b rule: shift_right.induct)
  case (1 i low b)
  show ?case
  proof (cases "low < i")
    case True
    let ?b = "b[slot i := b ! slot (i - 1)]"
    have "i \<noteq> 0" using True by auto
    then have u: "unat (i - 1) = unat i - 1" "unat low < unat i" using unat_dec [of i] True by (auto simp: word_less_nat_alt)
    have e: "shift_right i low b = shift_right (i - 1) low ?b" using True by (simp add: shift_right.simps [of i])
    have b: "ring_at ?b j = (if j = unat i then ring_at b (unat i - 1) else ring_at b j)" if "r \<le> j" "j < r + INPUT_BUF" for j
      unfolding slot_ring using ring_update [OF 1(2), of r "unat i" j] that 1(3,4) u by simp
    note ih = 1(1) [OF True, unfolded u(1)]
    have "length (shift_right (i - 1) low ?b) = INPUT_BUF" using ih 1(2-4) by simp
    moreover have "ring_at (shift_right (i - 1) low ?b) j = (if unat low < j \<and> j \<le> unat i then ring_at b (j - 1) else ring_at b j)"
      if "r \<le> j" "j < r + INPUT_BUF" for j
    proof -
      have "ring_at (shift_right (i - 1) low ?b) j = (if unat low < j \<and> j \<le> unat i - 1 then ring_at ?b (j - 1) else ring_at ?b j)"
        using ih 1(2-4) that by simp
      then show ?thesis using b [OF that] b [of "j - 1"] that u(2) 1(3) by (cases "j = unat i") auto
    qed
    ultimately show ?thesis unfolding e by blast
  next
    case False
    then show ?thesis using 1(2) by (auto simp: shift_right.simps [of i] word_less_nat_alt)
  qed
qed

section \<open>The steps of the editor\<close>

lemma full_eq:
  assumes "unat (e :: 32 word) \<le> unat (r :: 32 word) + INPUT_BUF" and "unat r \<le> unat e"
  shows "e = r + of_nat INPUT_BUF \<longleftrightarrow> unat e = unat r + INPUT_BUF"
proof
  assume "e = r + of_nat INPUT_BUF"
  then have "e - r = 128" by (simp add: INPUT_BUF_def)
  then have "unat (e - r) = 128" by simp
  moreover have "unat (e - r) = unat e - unat r" by (rule unat_sub) (use assms(2) in \<open>simp add: word_le_nat_alt\<close>)
  ultimately show "unat e = unat r + INPUT_BUF" using assms by (simp add: INPUT_BUF_def)
next
  assume "unat e = unat r + INPUT_BUF"
  then have "(of_nat (unat e) :: 32 word) = of_nat (unat r + INPUT_BUF)" by simp
  then show "e = r + of_nat INPUT_BUF" by simp
qed

lemma used_eq: "con_ok st \<Longrightarrow> in_used st = unat (in_e st) - unat (in_r st)"
  unfolding con_ok_def in_used_def by (rule unat_sub) (auto dest: order_trans)

lemma con_ok_nat:
  assumes "con_ok st"
  shows "length (in_buf st) = INPUT_BUF" "unat (in_r st) \<le> unat (in_w st)" "unat (in_w st) \<le> unat (in_cur st)"
    "unat (in_cur st) \<le> unat (in_e st)" "unat (in_e st) \<le> unat (in_r st) + INPUT_BUF"
  using assms by (auto simp: con_ok_def word_le_nat_alt)

lemma con_okI:
  "length (in_buf st) = INPUT_BUF \<Longrightarrow> unat (in_r st) \<le> unat (in_w st) \<Longrightarrow> unat (in_w st) \<le> unat (in_cur st)
    \<Longrightarrow> unat (in_cur st) \<le> unat (in_e st) \<Longrightarrow> unat (in_e st) \<le> unat (in_r st) + INPUT_BUF \<Longrightarrow> con_ok st"
  by (simp add: con_ok_def word_le_nat_alt)

text \<open>The counter has not reached its end, so that one more character can be taken without a wrap-around.\<close>

definition counters_ok :: "'z console_scheme \<Rightarrow> bool" where
  "counters_ok st \<longleftrightarrow> unat (in_e st) < 2 ^ 32 - 1"

lemma unat_e_Suc: "counters_ok st \<Longrightarrow> unat (in_e st + 1) = Suc (unat (in_e st))"
  unfolding counters_ok_def by (subst unat_add_lem [THEN iffD1]) simp_all

lemma room_eq: "con_ok st \<Longrightarrow> ed_room (ed_of st) \<longleftrightarrow> in_used st < INPUT_BUF"
  using con_ok_nat [of st] by (auto simp: used_eq ed_room_def ed_of_def)

lemma line_eq:
  assumes "con_ok st"
  shows "seg (in_buf st) (unat (in_w st)) (unat (in_cur st)) @ seg (in_buf st) (unat (in_cur st)) (unat (in_e st))
    = seg (in_buf st) (unat (in_w st)) (unat (in_e st))"
  using con_ok_nat [OF assms] by (simp add: seg_append)

text \<open>Output leaves the buffer alone.\<close>

definition same_input :: "'z console_scheme \<Rightarrow> 'z console_scheme \<Rightarrow> bool" where
  "same_input st st' \<longleftrightarrow> in_buf st' = in_buf st \<and> in_r st' = in_r st \<and> in_w st' = in_w st \<and> in_e st' = in_e st \<and> in_cur st' = in_cur st
     \<and> in_raw st' = in_raw st \<and> in_esc st' = in_esc st"

lemma same_input_ok: "same_input st st' \<Longrightarrow> con_ok st' = con_ok st" "same_input st st' \<Longrightarrow> ed_of st' = ed_of st"
  "same_input st st' \<Longrightarrow> in_raw st' = in_raw st" "same_input st st' \<Longrightarrow> in_esc st' = in_esc st"
  by (simp_all add: same_input_def con_ok_def ed_of_def)

lemma same_input_trans: "same_input st st' \<Longrightarrow> same_input st' st'' \<Longrightarrow> same_input st st''"
  by (simp add: same_input_def)

lemma same_input_out [simp]: "same_input st st" "same_input st (consputc c st')  = same_input st st'"
    "same_input st (cons_cursor_left st') = same_input st st'" "same_input st (show_at i st') = same_input st st'"
    "same_input st (emit v st') = same_input st st'" "same_input st (st'\<lparr>draft_active := d\<rparr>) = same_input st st'"
    "same_input st (st'\<lparr>draft := dd\<rparr>) = same_input st st'"
  by (simp_all add: same_input_def emit_def)

lemma same_input_pow [simp]: "same_input st ((cons_cursor_left ^^ n) st') = same_input st st'"
  by (induction n) simp_all

lemma same_input_fold [simp]: "same_input st (fold (\<lambda>i. show_at (f i)) is st') = same_input st st'"
  by (induction "is" arbitrary: st') simp_all

lemma show_range_sel [simp]: "in_e (show_range i hi st) = in_e st" "in_cur (show_range i hi st) = in_cur st" "in_r (show_range i hi st) = in_r st"
  by (induction i hi st rule: show_range.induct; simp add: show_range.simps)+

lemma same_input_range [simp]: "same_input st (show_range i hi st') = same_input st st'"
  by (induction i hi st' rule: show_range.induct) (simp add: show_range.simps)

definition goes_to :: "'z console_scheme \<Rightarrow> 'z console_scheme \<Rightarrow> editor \<Rightarrow> bool" where
  "goes_to st st' ed \<longleftrightarrow> con_ok st' \<and> ed_of st' = ed \<and> in_raw st' = in_raw st \<and> in_esc st' = in_esc st \<and> in_r st' = in_r st"

lemma goes_to_out: "goes_to st st' ed \<Longrightarrow> same_input st' st'' \<Longrightarrow> goes_to st st'' ed"
  by (simp add: goes_to_def same_input_ok) (simp add: same_input_def)

lemma goes_to_refl [simp]: "con_ok st \<Longrightarrow> goes_to st st (ed_of st)"
  by (simp add: goes_to_def)

lemma move_left_goes:
  assumes ok: "con_ok st"
  shows "goes_to st (move_left st) (ed_left (ed_of st))"
proof (cases "in_cur st > in_w st")
  case True
  note n = con_ok_nat [OF ok]
  have nz: "in_cur st \<noteq> 0" using True by auto
  obtain c where c: "unat (in_cur st) = Suc c" "unat (in_w st) \<le> c"
    using True by (cases "unat (in_cur st)") (auto simp: word_less_nat_alt)
  have u: "unat (in_cur st - 1) = c" using unat_dec [OF nz] c by simp
  have l: "seg (in_buf st) (unat (in_w st)) (Suc c) = seg (in_buf st) (unat (in_w st)) c @ [ring_at (in_buf st) c]"
    by (rule seg_Suc [OF c(2)])
  have r: "seg (in_buf st) c (unat (in_e st)) = ring_at (in_buf st) c # seg (in_buf st) (Suc c) (unat (in_e st))"
    by (rule seg_Cons) (use c n(4) in simp)
  have "goes_to st (st\<lparr>in_cur := in_cur st - 1\<rparr>) (ed_left (ed_of st))"
    unfolding goes_to_def using n u c by (auto simp: ed_of_def ed_left_def l r intro!: con_okI)
  then show ?thesis using True goes_to_out by (fastforce simp: move_left_def)
next
  case False
  then have "in_w st = in_cur st" using ok by (auto simp: con_ok_def)
  then have "ed_left (ed_of st) = ed_of st" by (simp add: ed_left_def ed_of_def)
  then show ?thesis using ok False by (simp add: move_left_def)
qed

lemma move_right_goes:
  assumes ok: "con_ok st"
  shows "goes_to st (move_right st) (ed_right (ed_of st))"
proof (cases "in_cur st < in_e st")
  case True
  note n = con_ok_nat [OF ok]
  have u: "unat (in_cur st + 1) = Suc (unat (in_cur st))" "unat (in_cur st) < unat (in_e st)"
    using unat_inc [OF True] True by (simp_all add: word_less_nat_alt)
  have "goes_to st (st\<lparr>in_cur := in_cur st + 1\<rparr>) (ed_right (ed_of st))"
    unfolding goes_to_def using n u seg_Cons [OF u(2), of "in_buf st"] seg_Suc [OF n(3), of "in_buf st"]
    by (auto simp: ed_of_def ed_right_def intro!: con_okI)
  then show ?thesis using True goes_to_out by (fastforce simp: move_right_def)
next
  case False
  then have "in_cur st = in_e st" using ok by (auto simp: con_ok_def)
  then have "ed_right (ed_of st) = ed_of st" by (simp add: ed_right_def ed_of_def)
  then show ?thesis using ok False by (simp add: move_right_def)
qed

lemma cursor_to_end_goes:
  assumes "con_ok st"
  shows "con_ok (cursor_to_end st) \<and> in_cur (cursor_to_end st) = in_e st \<and> in_buf (cursor_to_end st) = in_buf st
    \<and> in_r (cursor_to_end st) = in_r st \<and> in_w (cursor_to_end st) = in_w st \<and> in_e (cursor_to_end st) = in_e st
    \<and> in_raw (cursor_to_end st) = in_raw st \<and> in_esc (cursor_to_end st) = in_esc st"
  using assms
proof (induction st rule: cursor_to_end.induct)
  case (1 st)
  show ?case
  proof (cases "in_cur st < in_e st")
    case True
    let ?s = "show_at (in_cur st) (st\<lparr>in_cur := in_cur st + 1\<rparr>)"
    have "con_ok ?s"
      using con_ok_nat [OF 1(2)] unat_inc [OF True] True by (intro con_okI) (simp_all add: word_less_nat_alt)
    then show ?thesis using 1(1) [OF True] True by (simp add: cursor_to_end.simps [of st])
  next
    case False
    then have "in_cur st = in_e st" using 1(2) by (auto simp: con_ok_def)
    then show ?thesis using 1(2) by (simp add: cursor_to_end.simps [of st])
  qed
qed

lemma goes_to_trans: "goes_to st st1 ed \<Longrightarrow> goes_to st1 st2 (f (ed_of st1)) \<Longrightarrow> goes_to st st2 (f ed)"
  by (simp add: goes_to_def)

lemma push_char_goes:
  assumes ok: "con_ok st" and "counters_ok st" and room: "in_used st < INPUT_BUF"
  shows "goes_to st (push_char c st) (case ed_of st of (done, l, r) \<Rightarrow> (done, l @ r @ [of_nat c], []))"
    and "in_cur (push_char c st) = in_e (push_char c st)"
proof -
  note n = con_ok_nat [OF ok]
  have e: "unat (in_e st) < unat (in_r st) + INPUT_BUF" using room used_eq [OF ok] n by simp
  let ?b = "(in_buf st)[slot (in_e st) := of_nat c]"
  have b: "ring_at ?b j = (if j = unat (in_e st) then of_nat c else ring_at (in_buf st) j)" if "unat (in_r st) \<le> j" "j < unat (in_r st) + INPUT_BUF" for j
    unfolding slot_ring using ring_update [OF n(1), of "unat (in_r st)" "unat (in_e st)" j] that n e by simp
  have sg: "seg ?b i j = seg (in_buf st) i j" if "unat (in_r st) \<le> i" "j \<le> unat (in_e st)" for i j
    by (rule seg_cong) (use b that e in auto)
  have "seg ?b (unat (in_w st)) (Suc (unat (in_e st))) = seg (in_buf st) (unat (in_w st)) (unat (in_e st)) @ [of_nat c]"
    using seg_Suc [of "unat (in_w st)" "unat (in_e st)" ?b] n sg [of "unat (in_w st)" "unat (in_e st)"] b [of "unat (in_e st)"] e by simp
  moreover have "seg ?b (unat (in_r st)) (unat (in_w st)) = seg (in_buf st) (unat (in_r st)) (unat (in_w st))"
    using sg n by simp
  ultimately show "goes_to st (push_char c st) (case ed_of st of (done, l, r) \<Rightarrow> (done, l @ r @ [of_nat c], []))"
    unfolding goes_to_def using n e unat_e_Suc [OF assms(2)] line_eq [OF ok]
    by (auto simp: push_char_def in_set_def ed_of_def simp flip: append_assoc intro!: con_okI)
qed (simp add: push_char_def)

lemma submit_goes:
  assumes ok: "con_ok st" and "in_cur st = in_e st"
  shows "goes_to st (submit st) (ed_submit [] (ed_of st))"
  unfolding goes_to_def submit_def emit_def using con_ok_nat [OF ok] assms(2)
  by (auto simp: ed_of_def ed_submit_def seg_append intro!: con_okI)

lemma submit_push_goes:
  assumes "con_ok st" "counters_ok st" "in_used st < INPUT_BUF"
  shows "goes_to st (submit (push_char c st)) (ed_submit [of_nat c] (ed_of st))"
proof -
  note p = push_char_goes [OF assms, of c]
  have "con_ok (push_char c st)" using p(1) by (simp add: goes_to_def)
  from goes_to_trans [where f = "ed_submit []", OF p(1) submit_goes [OF this p(2)]] show ?thesis
    by (simp add: ed_submit_def split: prod.splits)
qed

lemma submit_char_goes:
  assumes "con_ok st" "counters_ok st"
  shows "goes_to st (submit_char c st) (ed_submit_char (of_nat c) (ed_of st))"
  using submit_push_goes [OF assms] assms(1) by (simp add: submit_char_def ed_submit_char_def room_eq)

lemma line_start_snoc: "line_start (cs @ [x]) = (if x = 10 then cs @ [x] else line_start cs)"
  by (simp add: line_start_def)

lemma erase_line_seg:
  assumes "unat (in_w st) \<le> unat (in_e st)"
  shows "in_buf (erase_line st) = in_buf st \<and> in_r (erase_line st) = in_r st \<and> in_w (erase_line st) = in_w st
    \<and> in_raw (erase_line st) = in_raw st \<and> in_esc (erase_line st) = in_esc st
    \<and> unat (in_w st) \<le> unat (in_e (erase_line st)) \<and> unat (in_e (erase_line st)) \<le> unat (in_e st)
    \<and> seg (in_buf st) (unat (in_w st)) (unat (in_e (erase_line st))) = line_start (seg (in_buf st) (unat (in_w st)) (unat (in_e st)))"
  using assms
proof (induction st rule: erase_line.induct)
  case (1 st)
  show ?case
  proof (cases "in_e st = in_w st")
    case True
    then show ?thesis by (simp add: erase_line.simps [of st] line_start_def)
  next
    case False
    then obtain d where d: "unat (in_e st) = Suc d" "unat (in_w st) \<le> d"
      using 1(2) by (cases "unat (in_e st)") (auto simp: le_Suc_eq word_unat_eq_iff)
    have "in_e st \<noteq> 0" using d(1) by auto
    then have u: "unat (in_e st - 1) = d" using unat_dec [of "in_e st"] d by simp
    have x: "in_at st (in_e st - 1) = ring_at (in_buf st) d" by (simp add: in_at_def slot_def u)
    note sg = seg_Suc [OF d(2), of "in_buf st", folded x]
    show ?thesis
    proof (cases "in_at st (in_e st - 1) = 10")
      case True
      then show ?thesis using d by (simp add: erase_line.simps [of st] sg line_start_snoc)
    next
      case x10: False
      have "erase_line st = erase_line (consputc BACKSPACE (st\<lparr>in_e := in_e st - 1\<rparr>))"
        using False x10 by (simp add: erase_line.simps [of st])
      then show ?thesis using 1(1) d u False x10 by (simp add: sg line_start_snoc)
    qed
  qed
qed

lemma clear_goes:
  assumes ok: "con_ok st"
  shows "goes_to st (clear st) (ed_clear (ed_of st))" and "in_e (clear st) \<le> in_e st"
proof -
  note c = cursor_to_end_goes [OF ok] and n = con_ok_nat [OF ok]
  note er = erase_line_seg [of "cursor_to_end st"]
  have "unat (in_w (cursor_to_end st)) \<le> unat (in_e (cursor_to_end st))" using c n by simp
  note er = er [OF this]
  show "goes_to st (clear st) (ed_clear (ed_of st))"
    unfolding goes_to_def using c er n line_eq [OF ok]
    by (auto simp: clear_def Let_def ed_of_def ed_clear_def intro!: con_okI)
  show "in_e (clear st) \<le> in_e st" using er c by (simp add: clear_def Let_def word_le_nat_alt)
qed

lemma backspace_goes:
  assumes ok: "con_ok st" and "counters_ok st"
  shows "goes_to st (backspace c st) (ed_backspace (of_nat c) (ed_of st))"
proof (cases "in_cur st = in_w st")
  case True
  then show ?thesis using submit_char_goes [OF assms, of c] by (simp add: backspace_def ed_backspace_def ed_of_def)
next
  case False
  note n = con_ok_nat [OF ok]
  obtain d where d: "unat (in_cur st) = Suc d" "unat (in_w st) \<le> d"
    using False n(3) by (cases "unat (in_cur st)") (auto simp: le_Suc_eq word_unat_eq_iff)
  have "in_cur st \<noteq> 0" using d(1) by auto
  then have u: "unat (in_cur st - 1) = d" using unat_dec [of "in_cur st"] d by simp
  obtain f where f: "unat (in_e st) = Suc f" "d \<le> f" using d n(4) by (cases "unat (in_e st)") auto
  have "in_e st \<noteq> 0" using f(1) by auto
  then have ue: "unat (in_e st - 1) = f" using unat_dec [of "in_e st"] f by simp
  let ?b = "shift_left (in_cur st - 1) (in_e st - 1) (in_buf st)"
  have r: "unat (in_r st) \<le> d" "f < unat (in_r st) + INPUT_BUF" using n d f by simp_all
  note sh = shift_left_ring [OF n(1), of "unat (in_r st)" "in_cur st - 1" "in_e st - 1", unfolded u ue, OF r]
  have low: "seg ?b i j = seg (in_buf st) i j" if "unat (in_r st) \<le> i" "j \<le> d" for i j
    by (rule seg_cong) (use sh that f r in auto)
  have "seg ?b d f = map (\<lambda>j. ring_at (in_buf st) (Suc j)) [d..<f]"
    unfolding seg_def by (rule map_cong) (use sh r in auto)
  then have high: "seg ?b d f = seg (in_buf st) (Suc d) (Suc f)" by (simp add: seg_shift)
  have l: "seg (in_buf st) (unat (in_w st)) (Suc d) = seg (in_buf st) (unat (in_w st)) d @ [ring_at (in_buf st) d]"
    by (rule seg_Suc [OF d(2)])
  have "goes_to st (st\<lparr>in_cur := in_cur st - 1, in_buf := ?b, in_e := in_e st - 1\<rparr>) (ed_backspace (of_nat c) (ed_of st))"
    unfolding goes_to_def using n sh u ue d f r low high
    by (auto simp: ed_of_def ed_backspace_def l intro!: con_okI)
  then show ?thesis using False goes_to_out by (fastforce simp: backspace_def Let_def)
qed

lemma insert_char_goes:
  assumes ok: "con_ok st" and cnt: "counters_ok st" and room: "in_used st < INPUT_BUF" and behind: "in_cur st \<noteq> in_e st"
  shows "goes_to st (insert_char c st) (ed_insert (of_nat c) (ed_of st))"
proof -
  note n = con_ok_nat [OF ok]
  have lt: "in_cur st < in_e st" using behind ok by (simp add: con_ok_def less_le)
  have e: "unat (in_e st) < unat (in_r st) + INPUT_BUF" using room used_eq [OF ok] n by simp
  have us: "unat (in_e st + 1) = Suc (unat (in_e st))" "unat (in_cur st + 1) = Suc (unat (in_cur st))"
    using unat_e_Suc [OF cnt] unat_inc [OF lt] by simp_all
  let ?s = "shift_right (in_e st) (in_cur st) (in_buf st)"
  let ?b = "?s[slot (in_cur st) := of_nat c]"
  have rc: "unat (in_r st) \<le> unat (in_cur st)" using n by simp
  note sh = shift_right_ring [OF n(1) rc e]
  have b: "ring_at ?b j = (if j = unat (in_cur st) then of_nat c else if unat (in_cur st) < j \<and> j \<le> unat (in_e st) then ring_at (in_buf st) (j - 1) else ring_at (in_buf st) j)"
    if "unat (in_r st) \<le> j" "j < unat (in_r st) + INPUT_BUF" for j
    unfolding slot_ring using ring_update [of ?s "unat (in_r st)" "unat (in_cur st)" j] sh that n e rc by auto
  have low: "seg ?b i j = seg (in_buf st) i j" if "unat (in_r st) \<le> i" "j \<le> unat (in_cur st)" for i j
    by (rule seg_cong) (use b that n e in auto)
  have "seg ?b (Suc (unat (in_cur st))) (Suc (unat (in_e st))) = map (\<lambda>j. ring_at ?b (Suc j)) [unat (in_cur st)..<unat (in_e st)]"
    by (rule seg_shift)
  also have "\<dots> = seg (in_buf st) (unat (in_cur st)) (unat (in_e st))"
    unfolding seg_def by (rule map_cong) (use b rc e in auto)
  finally have high: "seg ?b (Suc (unat (in_cur st))) (Suc (unat (in_e st))) = seg (in_buf st) (unat (in_cur st)) (unat (in_e st))" .
  have mid: "seg ?b (unat (in_w st)) (Suc (unat (in_cur st))) = seg (in_buf st) (unat (in_w st)) (unat (in_cur st)) @ [of_nat c]"
    using seg_Suc [OF n(3), of ?b] low n b [of "unat (in_cur st)"] rc e by simp
  define u where "u = st\<lparr>in_buf := ?b, in_e := in_e st + 1, in_cur := in_cur st + 1\<rparr>"
  have gu: "goes_to st u (case ed_of st of (done, l, r) \<Rightarrow> (done, l @ [of_nat c], r))"
    unfolding goes_to_def u_def using n us sh e low high mid by (auto simp: ed_of_def intro!: con_okI)
  define v where "v = (cons_cursor_left ^^ (unat (in_e st + 1) - unat (in_cur st + 1)))
     ((show_range (in_cur st) (in_e st + 1) (st\<lparr>in_buf := ?b, in_e := in_e st + 1\<rparr>))\<lparr>in_cur := in_cur st + 1\<rparr>)"
  have "same_input (st\<lparr>in_buf := ?b, in_e := in_e st + 1\<rparr>) (show_range (in_cur st) (in_e st + 1) (st\<lparr>in_buf := ?b, in_e := in_e st + 1\<rparr>))" by simp
  then have sr: "same_input u v" unfolding u_def v_def same_input_pow by (simp add: same_input_def)
  have gv: "goes_to st v (case ed_of st of (done, l, r) \<Rightarrow> (done, l @ [of_nat c], r))" by (rule goes_to_out [OF gu sr])
  then have okv: "con_ok v" by (simp add: goes_to_def)
  have iv: "insert_char c st = (if in_e v = in_r v + of_nat INPUT_BUF then submit (cursor_to_end v) else v)"
    unfolding v_def insert_char_def by (simp add: Let_def in_set_def)
  have full: "in_e v = in_r v + of_nat INPUT_BUF \<longleftrightarrow> \<not> ed_room (ed_of v)"
    using full_eq [of "in_e v" "in_r v"] con_ok_nat [OF okv] by (auto simp: room_eq [OF okv] used_eq [OF okv])
  show ?thesis
  proof (cases "ed_room (ed_of v)")
    case True
    then have "insert_char c st = v" using iv full by simp
    then show ?thesis using gv True by (auto simp: ed_insert_def goes_to_def split: prod.splits)
  next
    case False
    note ce = cursor_to_end_goes [OF okv]
    have "ed_submit [] (ed_of (cursor_to_end v)) = ed_submit [] (ed_of v)"
      using ce by (simp add: ed_of_def ed_submit_def line_eq [OF okv, symmetric])
    then have "goes_to v (submit (cursor_to_end v)) (ed_submit [] (ed_of v))"
      using submit_goes [of "cursor_to_end v"] ce by (simp add: goes_to_def)
    note gs = goes_to_trans [where f = "ed_submit []", OF gv this]
    have "insert_char c st = submit (cursor_to_end v)" using iv full False by simp
    then show ?thesis using gs False gv by (auto simp: ed_insert_def goes_to_def split: prod.splits)
  qed
qed

lemma type_char_goes:
  assumes ok: "con_ok st" and cnt: "counters_ok st"
  shows "goes_to st (type_char c st)
    (if c = 0 \<or> \<not> ed_room (ed_of st) then ed_of st
     else if c = 10 \<or> c = 13 then ed_submit [10] (ed_of st)
     else if c = ctl 68 then ed_submit [of_nat c] (ed_of st)
     else ed_insert (of_nat c) (ed_of st))"
proof (cases "c = 0 \<or> \<not> ed_room (ed_of st)")
  case True
  then show ?thesis using ok by (auto simp: type_char_def room_eq)
next
  case False
  then have room: "in_used st < INPUT_BUF" "c \<noteq> 0" using room_eq [OF ok] by simp_all
  define k where "k = (if c = 13 then 10 else c)"
  have tc: "type_char c st = (if k = 10 \<or> k = ctl 68 then submit ((consputc k (push_char k (cursor_to_end st)))\<lparr>draft_active := False\<rparr>)
      else if in_cur st = in_e st then
        let st = consputc k (push_char k st) in if in_e st = in_r st + of_nat INPUT_BUF then submit st else st
      else insert_char k st)"
    using room by (simp add: type_char_def k_def Let_def)
  show ?thesis
  proof (cases "k = 10 \<or> k = ctl 68")
    case True
    note ce = cursor_to_end_goes [OF ok]
    let ?s = "cursor_to_end st"
    have ks: "con_ok ?s" "counters_ok ?s" "in_used ?s < INPUT_BUF" using ce cnt room by (simp_all add: counters_ok_def in_used_def)
    let ?p = "(consputc k (push_char k ?s))\<lparr>draft_active := False\<rparr>"
    have gp: "goes_to ?s ?p (case ed_of ?s of (done, l, r) \<Rightarrow> (done, l @ r @ [of_nat k], []))"
      by (rule goes_to_out [OF push_char_goes(1) [OF ks, of k]]) simp
    have "con_ok ?p" "in_cur ?p = in_e ?p" using gp push_char_goes(2) [OF ks, of k] by (simp_all add: goes_to_def)
    note gs = goes_to_trans [where f = "ed_submit []", OF gp submit_goes [OF this]]
    have "ed_submit [] (case ed_of ?s of (done, l, r) \<Rightarrow> (done, l @ r @ [of_nat k], [])) = ed_submit [of_nat k] (ed_of ?s)"
      by (simp add: ed_submit_def split: prod.splits)
    also have "\<dots> = ed_submit [of_nat k] (ed_of st)"
      using ce by (simp add: ed_of_def ed_submit_def line_eq [OF ok, symmetric])
    finally have "goes_to st (submit ?p) (ed_submit [of_nat k] (ed_of st))" using gs ce by (simp add: goes_to_def)
    then show ?thesis using True False by (auto simp: tc k_def ctl_def split: if_splits)
  next
    case k: False
    then have ck: "c \<noteq> 10" "c \<noteq> 13" "c \<noteq> ctl 68" "k = c" by (auto simp: k_def split: if_splits)
    have "goes_to st (type_char c st) (ed_insert (of_nat c) (ed_of st))"
    proof (cases "in_cur st = in_e st")
      case at_end: True
      let ?p = "consputc k (push_char k st)"
      have gp: "goes_to st ?p (case ed_of st of (done, l, r) \<Rightarrow> (done, l @ r @ [of_nat k], []))"
        by (rule goes_to_out [OF push_char_goes(1) [OF ok cnt room(1), of k]]) simp
      have okp: "con_ok ?p" "in_cur ?p = in_e ?p" using gp push_char_goes(2) [OF ok cnt room(1), of k] by (simp_all add: goes_to_def)
      have edp: "ed_of ?p = (case ed_of st of (done, l, r) \<Rightarrow> (done, l @ [of_nat k], r))"
      proof -
        have "(case ed_of st of (done, l, r) \<Rightarrow> (done, l @ r @ [of_nat k], [])) = (case ed_of st of (done, l, r) \<Rightarrow> (done, l @ [of_nat k], r))"
          using at_end by (simp add: ed_of_def)
        then show ?thesis using gp by (simp add: goes_to_def)
      qed
      have full: "in_e ?p = in_r ?p + of_nat INPUT_BUF \<longleftrightarrow> \<not> ed_room (ed_of ?p)"
        using full_eq [of "in_e ?p" "in_r ?p"] con_ok_nat [OF okp(1)] by (auto simp: room_eq [OF okp(1)] used_eq [OF okp(1)])
      have gp': "goes_to st ?p (ed_of ?p)" using gp by (simp add: goes_to_def)
      note gs = goes_to_trans [where f = "ed_submit []", OF gp' submit_goes [OF okp]]
      have t: "type_char c st = (if ed_room (ed_of ?p) then ?p else submit ?p)"
        unfolding tc using k at_end full by (auto simp: Let_def)
      show ?thesis using t gp' gs unfolding edp ed_insert_def by (auto simp: ck(4) Let_def split: prod.splits if_splits)
    next
      case behind: False
      then show ?thesis using insert_char_goes [OF ok cnt room(1) behind, of k] k by (simp add: tc ck(4))
    qed
    then show ?thesis using False ck by simp
  qed
qed

lemma edit_goes:
  assumes ok: "con_ok st" and cnt: "counters_ok st"
  shows "goes_to st (edit c st) (ed_edit (in_raw st) c (ed_of st))"
proof -
  let ?h = "if draft_active st then st else save_history_draft st"
  have h: "same_input st ?h" by (simp add: save_history_draft_def Let_def same_input_def)
  have okh: "con_ok ?h" "ed_of ?h = ed_of st" "in_e ?h = in_e st" using same_input_ok [OF h] ok h by (simp_all add: same_input_def)
  note ch = clear_goes [OF okh(1)]
  have cl: "goes_to st (clear ?h) (ed_clear (ed_of st))" using ch(1) same_input_ok [OF h] h okh(2) by (simp add: goes_to_def same_input_def)
  have okc: "con_ok (clear ?h)" using cl by (simp add: goes_to_def)
  have cc: "counters_ok (clear ?h)" using cnt ch(2) okh(3) by (simp add: counters_ok_def word_le_nat_alt)
  have hist: "goes_to st (submit_char c (clear ?h)) (ed_submit_char (of_nat c) (ed_clear (ed_of st)))"
    by (rule goes_to_trans [where f = "ed_submit_char (of_nat c)", OF cl submit_char_goes [OF okc cc]])
  have u: "goes_to st ((clear st)\<lparr>draft_active := False\<rparr>) (ed_clear (ed_of st))"
    by (rule goes_to_out [OF clear_goes(1) [OF ok]]) simp
  have z: "goes_to st (emit LoadIdt0 st) (ed_of st)" by (rule goes_to_out [OF goes_to_refl [OF ok]]) simp
  have raw: "goes_to st (submit (push_char c st)) (ed_submit [of_nat c] (ed_of st))" if "ed_room (ed_of st)"
    by (rule submit_push_goes [OF ok cnt]) (use that room_eq [OF ok] in simp)
  show ?thesis
    unfolding edit_def ed_edit_def room_eq [OF ok, symmetric]
    using z raw u submit_char_goes [OF ok cnt, of c] hist backspace_goes [OF ok cnt, of c] type_char_goes [OF ok cnt, of c] by presburger
qed

section \<open>Sequences of keys\<close>

lemma esc_goes:
  "con_ok st \<Longrightarrow> con_ok (st\<lparr>in_esc := x\<rparr>) \<and> ed_of (st\<lparr>in_esc := x\<rparr>) = ed_of st \<and> counters_ok (st\<lparr>in_esc := x\<rparr>) = counters_ok st"
  by (simp add: con_ok_def ed_of_def counters_ok_def)

lemma handle_input_goes:
  assumes ok: "con_ok st" and cnt: "counters_ok st"
  shows "con_ok (handle_input c st) \<and> in_raw (handle_input c st) = in_raw st \<and> in_r (handle_input c st) = in_r st
    \<and> (in_esc (handle_input c st), ed_of (handle_input c st)) = ed_key (in_raw st) c (in_esc st, ed_of st)"
proof -
  note g = edit_goes [OF ok cnt] move_left_goes [OF ok] move_right_goes [OF ok]
  let ?s = "st\<lparr>in_esc := 0\<rparr>"
  have s: "con_ok ?s" "counters_ok ?s" "ed_of ?s = ed_of st" using esc_goes [OF ok, of 0] cnt by simp_all
  note h = edit_goes [OF s(1,2)] move_left_goes [OF s(1)] move_right_goes [OF s(1)]
  have e: "con_ok (st\<lparr>in_esc := x\<rparr>)" "ed_of (st\<lparr>in_esc := x\<rparr>) = ed_of st" for x using esc_goes [OF ok] by simp_all
  show ?thesis
    using g h s(3) e ok unfolding handle_input_def ed_key_def goes_to_def
    by (simp add: KEY_LF_def KEY_RT_def KEY_UP_def KEY_DN_def Let_def)
qed

definition ed_len :: "editor \<Rightarrow> nat" where
  "ed_len ed = (case ed of (done, l, r) \<Rightarrow> length done + length l + length r)"

lemma ed_len_e: "con_ok st \<Longrightarrow> unat (in_e st) = unat (in_r st) + ed_len (ed_of st)"
  using con_ok_nat [of st] by (simp add: ed_len_def ed_of_def)

lemma line_start_len: "length (line_start cs) \<le> length cs"
  using length_dropWhile_le [of "\<lambda>b. b \<noteq> 10" "rev cs"] by (simp add: line_start_def)

lemma ed_key_len: "ed_len (snd (ed_key raw c (esc, ed))) \<le> Suc (ed_len ed)"
proof -
  obtain d l r where ed: "ed = (d, l, r)" by (cases ed)
  have e: "ed_len (ed_edit raw k ed) \<le> Suc (ed_len ed)" for k
    using line_start_len [of "l @ r"]
    by (auto simp: ed ed_edit_def ed_len_def ed_submit_def ed_clear_def ed_submit_char_def ed_backspace_def ed_insert_def Let_def)
  have "ed_len (ed_left ed) = ed_len ed" by (auto simp: ed ed_left_def ed_len_def)
  moreover have "ed_len (ed_right ed) = ed_len ed" by (auto simp: ed ed_right_def ed_len_def split: list.splits)
  ultimately show ?thesis using e by (simp add: ed_key_def)
qed

lemma consoleintr_goes:
  assumes "con_ok st" and "unat (in_e st) + length cs < 2 ^ 32"
  shows "con_ok (consoleintr cs st) \<and> in_raw (consoleintr cs st) = in_raw st
    \<and> (in_esc (consoleintr cs st), ed_of (consoleintr cs st)) = fold (ed_key (in_raw st)) cs (in_esc st, ed_of st)"
  using assms
proof (induction cs arbitrary: st)
  case (Cons c cs)
  have cnt: "counters_ok st" using Cons.prems(2) by (simp add: counters_ok_def)
  note h = handle_input_goes [OF Cons.prems(1) cnt, of c]
  have "unat (in_e (handle_input c st)) \<le> Suc (unat (in_e st))"
    using ed_len_e [of st] ed_len_e [of "handle_input c st"] h Cons.prems(1) ed_key_len [of "in_raw st" c "in_esc st" "ed_of st"]
    by (metis add_Suc_right add_le_cancel_left snd_conv)
  then show ?case using Cons.IH [of "handle_input c st"] h Cons.prems(2) by (simp add: consoleintr_def)
qed (simp add: consoleintr_def)

text \<open>
  The condition on the counters is needed. Once \<^verbatim>\<open>e\<close> has passed \<open>2 ^ 32\<close> while the cursor has not, the unsigned comparison
  \<^verbatim>\<open>cur < e\<close> fails: with characters right of the cursor, the arrow does not move it and Enter does not show them, until the line is submitted.
\<close>

lemma cursor_stuck_at_wrap:
  assumes "in_e st < in_cur st"
  shows "in_cur st \<noteq> in_e st \<and> move_right st = st \<and> cursor_to_end st = st"
  using assms by (auto simp: move_right_def cursor_to_end.simps [of st])

text \<open>
  C18. The console's input buffer implements a line editor as long as its counters do not wrap around. For any sequence of keys that does not take the
  32-bit counters past their end, in raw or in line mode, the submitted characters, the characters
  before and those after the cursor are what the editor on lists makes of the keys: insertion and
  deletion at the cursor, arrow keys also as escape sequences, erasing the line, submitting it, and history and completion
  keys; the buffer stays well formed and never holds more than 128 characters.
\<close>

theorem console_refines_editor:
  assumes "con_ok st" and "unat (in_e st) + length cs < 2 ^ 32"
  shows "con_ok (consoleintr cs st)
    \<and> (in_esc (consoleintr cs st), ed_of (consoleintr cs st)) = fold (ed_key (in_raw st)) cs (in_esc st, ed_of st)
    \<and> ed_len (ed_of (consoleintr cs st)) \<le> INPUT_BUF"
proof -
  note g = consoleintr_goes [OF assms]
  have "ed_len (ed_of (consoleintr cs st)) \<le> INPUT_BUF"
    using g ed_len_e [of "consoleintr cs st"] con_ok_nat [of "consoleintr cs st"] by simp
  then show ?thesis using g by blast
qed

section \<open>Reading\<close>

lemma read_one:
  assumes ok: "con_ok st" and d: "seg (in_buf st) (unat (in_r st)) (unat (in_w st)) = c # cs"
  shows "in_r st \<noteq> in_w st" "in_at st (in_r st) = c" "con_ok (st\<lparr>in_r := in_r st + 1\<rparr>)"
    "ed_of (st\<lparr>in_r := in_r st + 1\<rparr>) = (cs, snd (ed_of st))"
proof -
  note n = con_ok_nat [OF ok]
  show ne: "in_r st \<noteq> in_w st" using d by auto
  then have lt: "in_r st < in_w st" using ok by (auto simp: con_ok_def)
  have u: "unat (in_r st + 1) = Suc (unat (in_r st))" "unat (in_r st) < unat (in_w st)"
    using unat_inc [OF lt] lt by (simp_all add: word_less_nat_alt)
  note sc = seg_Cons [OF u(2), of "in_buf st"]
  show "in_at st (in_r st) = c" using d sc by (simp add: in_at_def slot_def)
  show "con_ok (st\<lparr>in_r := in_r st + 1\<rparr>)" using n u by (intro con_okI) simp_all
  show "ed_of (st\<lparr>in_r := in_r st + 1\<rparr>) = (cs, snd (ed_of st))" using d sc u by (simp add: ed_of_def)
qed

lemma consoleread_line:
  assumes "con_ok st" and "fst (ed_of st) = xs @ 10 # rest" and "10 \<notin> set xs" and "4 \<notin> set xs" and "length xs < n" and "\<not> in_raw st"
  shows "\<exists>st'. consoleread n acc killed st = (CDone (int (length (acc @ xs)) + 1) (acc @ xs @ [10]), st')
    \<and> con_ok st' \<and> ed_of st' = (rest, snd (ed_of st))"
  using assms
proof (induction xs arbitrary: n acc st)
  case Nil
  obtain m where m: "n = Suc m" using Nil.prems(5) by (cases n) auto
  have "seg (in_buf st) (unat (in_r st)) (unat (in_w st)) = 10 # rest" using Nil.prems(2) by (simp add: ed_of_def)
  note o = read_one [OF Nil.prems(1) this]
  show ?case using o by (simp add: m Let_def ctl_def)
next
  case (Cons x xs)
  obtain m where m: "n = Suc m" using Cons.prems(5) by (cases n) auto
  have "seg (in_buf st) (unat (in_r st)) (unat (in_w st)) = x # xs @ 10 # rest" using Cons.prems(2) by (simp add: ed_of_def)
  note o = read_one [OF Cons.prems(1) this]
  have "\<exists>st'. consoleread m (acc @ [x]) killed (st\<lparr>in_r := in_r st + 1\<rparr>) = (CDone (int (length ((acc @ [x]) @ xs)) + 1) ((acc @ [x]) @ xs @ [10]), st')
    \<and> con_ok st' \<and> ed_of st' = (rest, snd (ed_of (st\<lparr>in_r := in_r st + 1\<rparr>)))"
    by (rule Cons.IH) (use o Cons.prems m in simp_all)
  then show ?case using o Cons.prems m by (auto simp: Let_def ctl_def)
qed

text \<open>Enter puts the line, with a newline, before the reader.\<close>

lemma enter_submits:
  assumes "con_ok st" and "unat (in_e st) + length cs + 1 < 2 ^ 32" and "\<not> in_raw st" and k: "k = 10 \<or> k = 13"
    and "fold (ed_key False) cs (in_esc st, ed_of st) = (0, [], l, r)" and "length (l @ r) < INPUT_BUF"
  shows "con_ok (consoleintr (cs @ [k]) st)" "\<not> in_raw (consoleintr (cs @ [k]) st)"
    "ed_of (consoleintr (cs @ [k]) st) = (l @ r @ [10], [], [])"
proof -
  let ?t = "consoleintr (cs @ [k]) st"
  have "con_ok ?t \<and> in_raw ?t = in_raw st \<and> (in_esc ?t, ed_of ?t) = fold (ed_key (in_raw st)) (cs @ [k]) (in_esc st, ed_of st)"
    by (rule consoleintr_goes [OF assms(1)]) (use assms(2) in simp)
  moreover have "fold (ed_key (in_raw st)) (cs @ [k]) (in_esc st, ed_of st) = (0, l @ r @ [10], [], [])"
    using assms(3,5,6) k by (auto simp: ed_key_def KEY_LF_def KEY_RT_def KEY_UP_def KEY_DN_def ed_edit_def ctl_def ed_room_def ed_submit_def)
  ultimately show "con_ok ?t" "\<not> in_raw ?t" "ed_of ?t = (l @ r @ [10], [], [])" using assms(3) by auto
qed

text \<open>
  What is on the line is what the reader gets: when the keys typed have made the line \<open>l @ r\<close>, with
  the cursor anywhere in it, the Enter key followed by a read of enough bytes returns this line with a
  newline, all of it and nothing else, and leaves an empty buffer.
\<close>

theorem typed_line_is_read:
  assumes "con_ok st" and "unat (in_e st) + length cs + 1 < 2 ^ 32" and "\<not> in_raw st"
    and "fold (ed_key False) cs (in_esc st, ed_of st) = (0, [], l, r)"
    and "10 \<notin> set (l @ r)" and "4 \<notin> set (l @ r)" and "length (l @ r) < INPUT_BUF" and "length (l @ r) < n"
  shows "\<exists>st'. consoleread n [] killed (consoleintr (cs @ [13]) st) = (CDone (int (length (l @ r)) + 1) (l @ r @ [10]), st')
    \<and> con_ok st' \<and> ed_of st' = ([], [], [])"
  using enter_submits [OF assms(1,2,3) _ assms(4,7), of 13] consoleread_line [of "consoleintr (cs @ [13]) st" "l @ r" "[]" n "[]" killed] assms(5,6,8)
  by simp

definition empty_console :: console where
  "empty_console = \<lparr>in_buf = replicate 128 0, in_r = 0, in_w = 0, in_e = 0, in_cur = 0, in_raw = False, in_esc = 0,
     draft = replicate 128 0, draft_active = False, crt = (\<lambda>_. 0), crt_pos = 0, fg = 7, bg = 0, font_buf = replicate 4096 0,
     font_loading = False, font_offset = 0, has_uart = False, con_ev = []\<rparr>"

lemma empty_console_ok: "con_ok empty_console" "ed_of empty_console = ([], [], [])" "in_esc empty_console = 0" "\<not> in_raw empty_console" "in_e empty_console = 0"
  by (simp_all add: con_ok_def empty_console_def INPUT_BUF_def ed_of_def)

text \<open>Typing \<open>ab\<close>, the left arrow and \<open>c\<close>.\<close>

lemma demo_keys: "fold (ed_key False) [97, 98, KEY_LF, 99] (0, [], [], []) = (0, [], [97, 99], [98])"
  by (simp add: ed_key_def KEY_LF_def KEY_RT_def KEY_UP_def KEY_DN_def ed_edit_def ctl_def ed_room_def ed_insert_def ed_left_def INPUT_BUF_def)

theorem console_refines_editor_witness:
  "ed_of (consoleintr [97, 98, KEY_LF, 99] empty_console) = ([], [97, 99], [98])"
  using console_refines_editor [of empty_console "[97, 98, KEY_LF, 99]"] empty_console_ok demo_keys by simp

theorem typed_line_is_read_witness:
  "\<exists>st'. consoleread 80 [] False (consoleintr [97, 98, KEY_LF, 99, 13] empty_console) = (CDone 4 [97, 99, 98, 10], st') \<and> con_ok st'"
  using typed_line_is_read [of empty_console "[97, 98, KEY_LF, 99]" "[97, 99]" "[98]" 80 False] empty_console_ok demo_keys
  by (auto simp: INPUT_BUF_def)

section \<open>Numbers\<close>

text \<open>Reading numbers back: a digit, and a sequence of digits in a base, first digit first.\<close>

definition digit_val :: "nat \<Rightarrow> nat" where
  "digit_val c = (if c < 58 then c - 48 else c - 87)"

definition num_val :: "nat \<Rightarrow> nat list \<Rightarrow> nat" where
  "num_val base cs = foldl (\<lambda>a c. base * a + digit_val c) 0 cs"

definition int_val :: "nat list \<Rightarrow> int" where
  "int_val cs = (if cs \<noteq> [] \<and> hd cs = 45 then - int (num_val 10 (tl cs)) else int (num_val 10 cs))"

lemma digit_val_digits [simp]: "i < 16 \<Longrightarrow> digit_val (digits ! i) = i" "i < 16 \<Longrightarrow> digits ! i \<noteq> 45"
proof -
  have "\<forall>i \<in> set [0..<16]. digit_val (digits ! i) = i \<and> digits ! i \<noteq> 45" by code_simp
  then show "i < 16 \<Longrightarrow> digit_val (digits ! i) = i" "i < 16 \<Longrightarrow> digits ! i \<noteq> 45" by auto
qed

lemma num_val_snoc [simp]: "num_val b (cs @ [c]) = b * num_val b cs + digit_val c"
  by (simp add: num_val_def)

lemma print_d_buf_val: "num_val 10 (rev (print_d_buf x)) = x \<and> (\<forall>c \<in> set (print_d_buf x). c \<noteq> 45)
    \<and> print_d_buf x \<noteq> [] \<and> (last (print_d_buf x) = digits ! 0 \<longrightarrow> x = 0)"
proof (induction x rule: print_d_buf.induct)
  case (1 x)
  show ?case
  proof (cases "x div 10 = 0")
    case True
    then have "x < 16" by auto
    then have "digits ! x = digits ! 0 \<Longrightarrow> x = 0" using digit_val_digits(1) [of x] digit_val_digits(1) [of 0] by simp
    then show ?thesis using True by (auto simp: print_d_buf.simps [of x] num_val_def)
  next
    case False
    then show ?thesis using 1 by (auto simp: print_d_buf.simps [of x])
  qed
qed

text \<open>The nibbles of a number of \<open>k\<close> hexadecimal digits, taken from the top.\<close>

fun nibbles :: "nat \<Rightarrow> nat \<Rightarrow> nat \<Rightarrow> nat list" where
  "nibbles 0 k x = []"
| "nibbles (Suc n) k x = x div 16 ^ (k - 1) # nibbles n k (16 * x mod 16 ^ k)"

lemma num_val_Cons: "num_val b (c # cs) = digit_val c * b ^ length cs + num_val b cs"
proof -
  have "foldl (\<lambda>a c. b * a + digit_val c) z cs = z * b ^ length cs + foldl (\<lambda>a c. b * a + digit_val c) 0 cs" for z
  proof (induction cs arbitrary: z)
    case (Cons c cs)
    show ?case using Cons [of "b * z + digit_val c"] Cons [of "digit_val c"] by (simp add: algebra_simps)
  qed simp
  from this [of "digit_val c"] show ?thesis by (simp add: num_val_def)
qed

lemma length_nibbles [simp]: "length (nibbles n k x) = n"
  by (induction n k x rule: nibbles.induct) simp_all

lemma nibbles_val: "n \<le> k \<Longrightarrow> x < 16 ^ k \<Longrightarrow> num_val 16 (map ((!) digits) (nibbles n k x)) = x div 16 ^ (k - n)"
proof (induction n k x rule: nibbles.induct)
  case (2 n k x)
  obtain j where j: "k = Suc j" "n \<le> j" using 2(2) by (cases k) auto
  define q r where "q = x div 16 ^ j" and "r = x mod 16 ^ j"
  have x: "x = q * 16 ^ j + r" "r < 16 ^ j" unfolding q_def r_def by (rule div_mult_mod_eq [symmetric], simp)
  have q: "q < 16" unfolding q_def by (rule less_mult_imp_div_less) (use 2(3) j in simp)
  have "16 * x mod 16 ^ k = 16 * r mod 16 ^ k" unfolding x(1) j by (simp add: algebra_simps)
  also have "\<dots> = 16 * r" using x(2) j by simp
  finally have m: "16 * x mod 16 ^ k = 16 * r" .
  have p: "(16 :: nat) ^ (k - n) = 16 * 16 ^ (j - n)" using j by (simp add: Suc_diff_le)
  have s: "(16 :: nat) ^ j = 16 ^ n * 16 ^ (j - n)" using j(2) by (simp flip: power_add)
  have "x div 16 ^ (k - Suc n) = q * 16 ^ n + r div 16 ^ (j - n)"
    unfolding x(1) s using j by (simp add: mult.assoc [symmetric])
  then show ?case
    using 2(1,2) j q m p x(2) by (simp add: num_val_Cons flip: q_def)
qed (simp add: num_val_def)

lemma print_x32_nibbles: "print_x32 n x = map ((!) digits) (nibbles n 8 (unat x))"
proof (induction n x rule: print_x32.induct)
  case (2 n x)
  have "unat (drop_bit 28 x) = unat x div 16 ^ 7" by (simp add: drop_bit_eq_div unat_div)
  moreover have "unat (push_bit 4 x) = 16 * unat x mod 16 ^ 8" by (simp add: push_bit_eq_mult unat_word_ariths mult.commute)
  ultimately show ?case using 2 by simp
qed simp

lemma print_x64_nibbles: "print_x64 n x = map ((!) digits) (nibbles n 16 (unat x))"
proof (induction n x rule: print_x64.induct)
  case (2 n x)
  have "unat (drop_bit 60 x) = unat x div 16 ^ 15" by (simp add: drop_bit_eq_div unat_div)
  moreover have "unat (push_bit 4 x) = 16 * unat x mod 16 ^ 16" by (simp add: push_bit_eq_mult unat_word_ariths mult.commute)
  ultimately show ?case using 2 by simp
qed simp

text \<open>
  \<^verbatim>\<open>cprintf\<close> prints an integer so that reading the text back gives the integer, for every value
  of the type including the smallest, with a minus sign exactly for negative numbers and without
  leading zeros; a 32-bit and a 64-bit number in hexadecimal read back to themselves from eight and sixteen digits.
\<close>

theorem cprintf_numbers_read_back:
  "int_val (print_d v) = v \<and> (hd (print_d v) = 45 \<longleftrightarrow> v < 0)
   \<and> (v \<noteq> 0 \<longrightarrow> hd (dropWhile (\<lambda>c. c = 45) (print_d v)) \<noteq> 48)
   \<and> length (print_x32 8 x) = 8 \<and> num_val 16 (print_x32 8 x) = unat x
   \<and> length (print_x64 16 y) = 16 \<and> num_val 16 (print_x64 16 y) = unat y"
proof -
  note b = print_d_buf_val [of "nat \<bar>v\<bar>"]
  have ne: "hd (rev (print_d_buf (nat \<bar>v\<bar>))) \<noteq> 45" using b by (simp add: hd_rev)
  have d: "print_d v = (if v < 0 then [45] else []) @ rev (print_d_buf (nat \<bar>v\<bar>))" by (simp add: print_d_def)
  have 1: "int_val (print_d v) = v" "hd (print_d v) = 45 \<longleftrightarrow> v < 0" using b ne by (auto simp: d int_val_def hd_append)
  have "dropWhile (\<lambda>c. c = 45) (print_d v) = rev (print_d_buf (nat \<bar>v\<bar>))"
    using b ne by (cases "rev (print_d_buf (nat \<bar>v\<bar>))") (auto simp: d)
  then have 2: "v \<noteq> 0 \<longrightarrow> hd (dropWhile (\<lambda>c. c = 45) (print_d v)) \<noteq> 48" using b by (auto simp: hd_rev digits_def)
  have 3: "num_val 16 (print_x32 8 x) = unat x" "num_val 16 (print_x64 16 y) = unat y"
    using nibbles_val [of 8 8 "unat x"] nibbles_val [of 16 16 "unat y"] unsigned_less [of x, where 'a = nat] unsigned_less [of y, where 'a = nat]
    by (simp_all add: print_x32_nibbles print_x64_nibbles)
  have 4: "length (print_x32 8 x) = 8" "length (print_x64 16 y) = 16" by (simp_all add: print_x32_nibbles print_x64_nibbles)
  show ?thesis using 1 2 3 4 by blast
qed

theorem cprintf_numbers_read_back_witness:
  "print_d (- 2147483648) \<noteq> [] \<and> hd (dropWhile (\<lambda>c. c = 45) (print_d (- 2147483648))) \<noteq> 48"
proof -
  have "print_d (- 2147483648) \<noteq> []" by (simp add: print_d_def)
  then show ?thesis using cprintf_numbers_read_back [of "- 2147483648" 0 0] by simp
qed

end
