(* ===== verification/Kbd.thy ===== *)
theory Kbd
  imports Console
begin

text \<open>
  \<^verbatim>\<open>src/kbd.c\<close> and the tables of \<^verbatim>\<open>src/kbd.h\<close>: from scan codes to characters. The tables have 256 entries; an
  entry that the initializer does not mention is 0.
\<close>

section \<open>Tables\<close>

definition SHIFT :: "32 word" where "SHIFT = 1"
definition CTL :: "32 word" where "CTL = 2"
definition ALT :: "32 word" where "ALT = 4"
definition CAPSLOCK :: "32 word" where "CAPSLOCK = 8"
definition NUMLOCK :: "32 word" where "NUMLOCK = 16"
definition SCROLLLOCK :: "32 word" where "SCROLLLOCK = 32"
definition E0ESC :: "32 word" where "E0ESC = 64"

definition table :: "'a list \<Rightarrow> (nat \<times> 'a) list \<Rightarrow> 'a \<Rightarrow> 'a list" where
  "table init extra no = fold (\<lambda>(i, v) t. t[i := v]) extra (init @ replicate (256 - length init) no)"

definition shiftcode :: "32 word list" where
  "shiftcode = table [] [(0x1D, CTL), (0x2A, SHIFT), (0x36, SHIFT), (0x38, ALT), (0x9D, CTL), (0xB8, ALT)] 0"

definition togglecode :: "32 word list" where
  "togglecode = table [] [(0x3A, CAPSLOCK), (0x45, NUMLOCK), (0x46, SCROLLLOCK)] 0"

definition normalmap :: "nat list" where
  "normalmap = table
    [0, 27, 49, 50, 51, 52, 53, 54, 55, 56, 57, 48, 45, 61, 8, 9,
     113, 119, 101, 114, 116, 121, 117, 105, 111, 112, 91, 93, 10, 0, 97, 115,
     100, 102, 103, 104, 106, 107, 108, 59, 39, 96, 0, 92, 122, 120, 99, 118,
     98, 110, 109, 44, 46, 47, 0, 42, 0, 32, 0, 0, 0, 0, 0, 0,
     0, 0, 0, 0, 0, 0, 0, 55, 56, 57, 45, 52, 53, 54, 43, 49,
     50, 51, 48, 46, 0, 0, 0, 0]
    [(0x9C, 10), (0xB5, 47), (0xC8, 226), (0xD0, 227), (0xC9, 230), (0xD1, 231), (0xCB, 228), (0xCD, 229), (0x97, 224), (0xCF, 225), (0xD2, 232), (0xD3, 233)] 0"

definition shiftmap :: "nat list" where
  "shiftmap = table
    [0, 27, 33, 64, 35, 36, 37, 94, 38, 42, 40, 41, 95, 43, 8, 9,
     81, 87, 69, 82, 84, 89, 85, 73, 79, 80, 123, 125, 10, 0, 65, 83,
     68, 70, 71, 72, 74, 75, 76, 58, 34, 126, 0, 124, 90, 88, 67, 86,
     66, 78, 77, 60, 62, 63, 0, 42, 0, 32, 0, 0, 0, 0, 0, 0,
     0, 0, 0, 0, 0, 0, 0, 55, 56, 57, 45, 52, 53, 54, 43, 49,
     50, 51, 48, 46, 0, 0, 0, 0]
    [(0x9C, 10), (0xB5, 47), (0xC8, 226), (0xD0, 227), (0xC9, 230), (0xD1, 231), (0xCB, 228), (0xCD, 229), (0x97, 224), (0xCF, 225), (0xD2, 232), (0xD3, 233)] 0"

definition ctlmap :: "nat list" where
  "ctlmap = table
    [0, 0, 0, 0, 0, 0, 0, 0, 0, 0, 0, 0, 0, 0, 0, 0,
     17, 23, 5, 18, 20, 25, 21, 9, 15, 16, 0, 0, 13, 0, 1, 19,
     4, 6, 7, 8, 10, 11, 12, 0, 0, 0, 0, 28, 26, 24, 3, 22,
     2, 14, 13, 0, 0, 239, 0, 0]
    [(0x9C, 13), (0xB5, 239), (0xC8, 226), (0xD0, 227), (0xC9, 230), (0xD1, 231), (0xCB, 228), (0xCD, 229), (0x97, 224), (0xCF, 225), (0xD2, 232), (0xD3, 233)] 0"

section \<open>Reading the keyboard\<close>

text \<open>
  \<^verbatim>\<open>kbdgetc\<close>: the scan code in the controller's buffer, if there is one, and the static variable \<^verbatim>\<open>shift\<close>
  give the character, or -1, and the new state.
\<close>

definition kbd_char :: "32 word \<Rightarrow> nat \<Rightarrow> nat" where
  "kbd_char shift data =
     (let m = shift AND (CTL OR SHIFT);
          c = (if m = 0 then normalmap else if m = SHIFT then shiftmap else ctlmap) ! data
      in if shift AND CAPSLOCK \<noteq> 0 then
           if 97 \<le> c \<and> c \<le> 122 then c - 32 else if 65 \<le> c \<and> c \<le> 90 then c + 32 else c
         else c)"

definition kbdgetc :: "byte option \<Rightarrow> 32 word \<Rightarrow> int \<times> 32 word" where
  "kbdgetc code shift =
     (case code of
        None \<Rightarrow> (-1, shift)
      | Some data \<Rightarrow>
          if data = 0xE0 then (0, shift OR E0ESC)
          else if data AND 0x80 \<noteq> 0 then
            let data = (if shift AND E0ESC \<noteq> 0 then data else data AND 0x7F)
            in (0, shift AND NOT (shiftcode ! unat data OR E0ESC))
          else
            let (data, shift) = (if shift AND E0ESC \<noteq> 0 then (data OR 0x80, shift AND NOT E0ESC) else (data, shift));
                shift = (shift OR shiftcode ! unat data) XOR togglecode ! unat data
            in (int (kbd_char shift (unat data)), shift))"

text \<open>\<^verbatim>\<open>kbdintr\<close>: the codes that are in the controller are read one after the other until there is none.\<close>

fun kbd_read :: "byte list \<Rightarrow> 32 word \<Rightarrow> nat list \<times> 32 word" where
  "kbd_read [] shift = ([], shift)"
| "kbd_read (code # codes) shift =
     (let (c, shift) = kbdgetc (Some code) shift; (cs, shift) = kbd_read codes shift in (nat c # cs, shift))"

definition kbdintr :: "byte list \<Rightarrow> 32 word \<times> 'z console_scheme \<Rightarrow> 32 word \<times> 'z console_scheme" where
  "kbdintr codes k = (case k of (shift, st) \<Rightarrow> case kbd_read codes shift of (cs, shift) \<Rightarrow> (shift, consoleintr cs st))"

section \<open>The keyboard\<close>

text \<open>
  What the keyboard is meant to do, independently of the tables: an American layout given row by row, keys that are held down, locks that each press turns over, and
  the prefix that announces a key of the extended block. A key is the code of its press, with or without the prefix.
\<close>

datatype key = Key nat | Ext nat

record keyboard =
  kb_shift :: bool
  kb_ctl :: bool
  kb_alt :: bool
  kb_caps :: bool
  kb_num :: bool
  kb_scroll :: bool
  kb_prefix :: bool

definition key_row :: "nat \<Rightarrow> string \<Rightarrow> string \<Rightarrow> (nat \<times> nat \<times> nat) list" where
  "key_row first plain shifted = zip [first..<first + length plain] (zip (map of_char plain) (map of_char shifted))"

text \<open>The keys of the main block and of the numeric pad: code, character, character with the shift key.\<close>

definition layout :: "(nat \<times> nat \<times> nat) list" where
  "layout = key_row 0x02 ''1234567890-='' ''!@#$%^&*()_+'' @ key_row 0x10 ''qwertyuiop[]'' ''QWERTYUIOP{}''
     @ key_row 0x1E ''asdfghjkl;'' ''ASDFGHJKL:'' @ [(0x28, 39, 34), (0x29, 96, 126), (0x2B, 92, 124)]
     @ key_row 0x2C ''zxcvbnm,./'' ''ZXCVBNM<>?'' @ key_row 0x47 ''789-456+1230.'' ''789-456+1230.''
     @ [(0x01, 27, 27), (0x0E, 8, 8), (0x0F, 9, 9), (0x1C, 10, 10), (0x37, 42, 42), (0x39, 32, 32)]"

text \<open>
  The extended block: Enter and the slash of the numeric pad, arrows up, down, left and right, page up and down, end, insert and delete. The code \<open>0x17\<close> is what the
  tables have for the home key.
\<close>

definition ext_layout :: "(nat \<times> nat) list" where
  "ext_layout = [(0x1C, 10), (0x35, 47), (0x48, KEY_UP), (0x50, KEY_DN), (0x4B, KEY_LF), (0x4D, KEY_RT), (0x49, 0xE6), (0x51, 0xE7),
     (0x17, 0xE0), (0x4F, 0xE1), (0x52, 0xE8), (0x53, 0xE9)]"

definition is_lower :: "nat \<Rightarrow> bool" where
  "is_lower c \<longleftrightarrow> of_char CHR ''a'' \<le> c \<and> c \<le> of_char CHR ''z''"

definition is_upper :: "nat \<Rightarrow> bool" where
  "is_upper c \<longleftrightarrow> of_char CHR ''A'' \<le> c \<and> c \<le> of_char CHR ''Z''"

definition key_char :: "bool \<Rightarrow> key \<Rightarrow> nat" where
  "key_char shifted k =
     (case k of
        Key i \<Rightarrow> (case map_of layout i of None \<Rightarrow> 0 | Some (p, s) \<Rightarrow> if shifted then s else p)
      | Ext i \<Rightarrow> (case map_of ext_layout i of None \<Rightarrow> 0 | Some c \<Rightarrow> c))"

text \<open>
  With the control key: the position of the letter in the alphabet, carriage return for Enter, 28 for the backslash; a slash gives \<^verbatim>\<open>C('/')\<close> as a byte. Other keys of the
  main block give nothing, those of the extended block what they give without it.
\<close>

definition control_char :: "key \<Rightarrow> nat" where
  "control_char k =
     (let c = key_char False k in
      if is_lower c then Suc (c - of_char CHR ''a'')
      else if k = Key 0x1C \<or> k = Ext 0x1C then 13
      else if k = Key 0x2B then 28
      else if k = Key 0x35 \<or> k = Ext 0x35 then 256 + 47 - 64
      else case k of Key _ \<Rightarrow> 0 | Ext _ \<Rightarrow> c)"

definition invert_case :: "nat \<Rightarrow> nat" where
  "invert_case c =
     (if is_lower c then c - of_char CHR ''a'' + of_char CHR ''A'' else if is_upper c then c - of_char CHR ''A'' + of_char CHR ''a'' else c)"

definition kb_types :: "keyboard \<Rightarrow> key \<Rightarrow> nat" where
  "kb_types kb k = (if kb_caps kb then invert_case else id) (if kb_ctl kb then control_char k else key_char (kb_shift kb) k)"

text \<open>Pressing or releasing a key: modifiers are held, locks turned over by a press.\<close>

definition kb_hold :: "bool \<Rightarrow> key \<Rightarrow> keyboard \<Rightarrow> keyboard" where
  "kb_hold down k kb =
     (if k \<in> {Key 0x2A, Key 0x36} then kb\<lparr>kb_shift := down\<rparr>
      else if k \<in> {Key 0x1D, Ext 0x1D} then kb\<lparr>kb_ctl := down\<rparr>
      else if k \<in> {Key 0x38, Ext 0x38} then kb\<lparr>kb_alt := down\<rparr>
      else kb)"

definition kb_lock :: "key \<Rightarrow> keyboard \<Rightarrow> keyboard" where
  "kb_lock k kb =
     (if k = Key 0x3A then kb\<lparr>kb_caps := \<not> kb_caps kb\<rparr>
      else if k = Key 0x45 then kb\<lparr>kb_num := \<not> kb_num kb\<rparr>
      else if k = Key 0x46 then kb\<lparr>kb_scroll := \<not> kb_scroll kb\<rparr>
      else kb)"

definition kb_step :: "byte \<Rightarrow> keyboard \<Rightarrow> nat \<times> keyboard" where
  "kb_step code kb =
     (if code = 0xE0 then (0, kb\<lparr>kb_prefix := True\<rparr>)
      else let k = (if kb_prefix kb then Ext else Key) (unat code mod 128); kb = kb\<lparr>kb_prefix := False\<rparr> in
        if unat code \<ge> 128 then (0, kb_hold False k kb)
        else let kb = kb_lock k (kb_hold True k kb) in (kb_types kb k, kb))"

fun kb_run :: "byte list \<Rightarrow> keyboard \<Rightarrow> nat list \<times> keyboard" where
  "kb_run [] kb = ([], kb)"
| "kb_run (code # codes) kb =
     (let (c, kb) = kb_step code kb; (cs, kb) = kb_run codes kb in (c # cs, kb))"

text \<open>The keyboard that the static variable \<^verbatim>\<open>shift\<close> stands for.\<close>

definition kb_of :: "32 word \<Rightarrow> keyboard" where
  "kb_of w = \<lparr>kb_shift = bit w 0, kb_ctl = bit w 1, kb_alt = bit w 2, kb_caps = bit w 3, kb_num = bit w 4, kb_scroll = bit w 5, kb_prefix = bit w 6\<rparr>"

definition key_of :: "nat \<Rightarrow> key" where
  "key_of d = (if d \<ge> 128 then Ext (d mod 128) else Key d)"

section \<open>The tables are the layout\<close>

lemma layout_code [code]:
  "layout = [(2, 49, 33), (3, 50, 64), (4, 51, 35), (5, 52, 36), (6, 53, 37), (7, 54, 94), (8, 55, 38), (9, 56, 42), (10, 57, 40), (11, 48, 41), (12, 45,
     95), (13, 61, 43), (16, 113, 81), (17, 119, 87), (18, 101, 69), (19, 114, 82), (20, 116, 84), (21, 121, 89), (22, 117, 85), (23, 105, 73),
     (24, 111, 79), (25, 112, 80), (26, 91, 123), (27, 93, 125), (30, 97, 65), (31, 115, 83), (32, 100, 68), (33, 102, 70), (34, 103, 71), (35,
     104, 72), (36, 106, 74), (37, 107, 75), (38, 108, 76), (39, 59, 58), (40, 39, 34), (41, 96, 126), (43, 92, 124), (44, 122, 90), (45, 120,
     88), (46, 99, 67), (47, 118, 86), (48, 98, 66), (49, 110, 78), (50, 109, 77), (51, 44, 60), (52, 46, 62), (53, 47, 63), (71, 55, 55), (72,
     56, 56), (73, 57, 57), (74, 45, 45), (75, 52, 52), (76, 53, 53), (77, 54, 54), (78, 43, 43), (79, 49, 49), (80, 50, 50), (81, 51, 51), (82,
     48, 48), (83, 46, 46), (1, 27, 27), (14, 8, 8), (15, 9, 9), (28, 10, 10), (55, 42, 42), (57, 32, 32)]"
  by (simp add: layout_def key_row_def upt_rec)

lemma letter_code [code]: "is_lower c \<longleftrightarrow> 97 \<le> c \<and> c \<le> 122" "is_upper c \<longleftrightarrow> 65 \<le> c \<and> c \<le> 90"
  by (simp_all add: is_lower_def is_upper_def)

lemma normalmap_layout: "normalmap = map (\<lambda>d. key_char False (key_of d)) [0..<256]"
  by code_simp

lemma shiftmap_layout: "shiftmap = map (\<lambda>d. key_char True (key_of d)) [0..<256]"
  by code_simp

definition ctl_entry :: "nat \<Rightarrow> nat \<Rightarrow> nat" where
  "ctl_entry d c = (if 97 \<le> c \<and> c \<le> 122 then c - 96 else if d = 28 \<or> d = 156 then 13 else if d = 43 then 28
     else if d = 53 \<or> d = 181 then 239 else if d < 128 then 0 else c)"

lemma ctlmap_entries: "ctlmap = map2 ctl_entry [0..<256] normalmap"
  by code_simp

lemma ctlmap_layout: "ctlmap = map (\<lambda>d. control_char (key_of d)) [0..<256]"
proof -
  have "ctl_entry d (key_char False (key_of d)) = control_char (key_of d)" if "d < 256" for d
  proof -
    define c where "c = key_char False (key_of d)"
    have "key_of d = (if 128 \<le> d then Ext (d - 128) else Key d)" using that by (simp add: key_of_def mod_if)
    then show ?thesis using that unfolding control_char_def c_def [symmetric] ctl_entry_def is_lower_def Let_def
      by (cases "128 \<le> d"; cases "97 \<le> c \<and> c \<le> 122") auto
  qed
  then show ?thesis unfolding ctlmap_entries normalmap_layout by (simp add: zip_map2 zip_same_conv_map)
qed

definition held_bit :: "key \<Rightarrow> 32 word" where
  "held_bit k = (if k \<in> {Key 0x2A, Key 0x36} then SHIFT else if k \<in> {Key 0x1D, Ext 0x1D} then CTL else if k \<in> {Key 0x38, Ext 0x38} then ALT else 0)"

definition lock_bit :: "key \<Rightarrow> 32 word" where
  "lock_bit k = (if k = Key 0x3A then CAPSLOCK else if k = Key 0x45 then NUMLOCK else if k = Key 0x46 then SCROLLLOCK else 0)"

lemma shiftcode_keys: "shiftcode = map (\<lambda>d. held_bit (key_of d)) [0..<256]"
  by code_simp

lemma togglecode_keys: "togglecode = map (\<lambda>d. lock_bit (key_of d)) [0..<256]"
  by code_simp

lemma layout_at:
  assumes "d < 256"
  shows "normalmap ! d = key_char False (key_of d)" "shiftmap ! d = key_char True (key_of d)" "ctlmap ! d = control_char (key_of d)"
    "shiftcode ! d = held_bit (key_of d)" "togglecode ! d = lock_bit (key_of d)"
  unfolding normalmap_layout shiftmap_layout ctlmap_layout shiftcode_keys togglecode_keys using assms by simp_all

section \<open>The flags are the modifiers\<close>

lemmas flag_defs = SHIFT_def CTL_def ALT_def CAPSLOCK_def NUMLOCK_def SCROLLLOCK_def E0ESC_def

lemma kb_of_press: "kb_of ((w OR held_bit k) XOR lock_bit k) = kb_lock k (kb_hold True k (kb_of w))"
  by (auto simp: kb_of_def held_bit_def lock_bit_def kb_hold_def kb_lock_def flag_defs bit_simps)

lemma kb_of_release: "kb_of (w AND NOT (held_bit k OR E0ESC)) = kb_hold False k ((kb_of w)\<lparr>kb_prefix := False\<rparr>)"
  by (auto simp: kb_of_def held_bit_def kb_hold_def flag_defs bit_simps)

lemma kb_of_prefix: "kb_of (w OR E0ESC) = (kb_of w)\<lparr>kb_prefix := True\<rparr>" "kb_of (w AND NOT E0ESC) = (kb_of w)\<lparr>kb_prefix := False\<rparr>"
  by (auto simp: kb_of_def flag_defs bit_simps)

lemma flag_tests:
  "w AND E0ESC \<noteq> 0 \<longleftrightarrow> kb_prefix (kb_of w)" "w AND CAPSLOCK \<noteq> 0 \<longleftrightarrow> kb_caps (kb_of w)"
  "w AND (CTL OR SHIFT) = 0 \<longleftrightarrow> \<not> kb_ctl (kb_of w) \<and> \<not> kb_shift (kb_of w)"
  "w AND (CTL OR SHIFT) = SHIFT \<longleftrightarrow> \<not> kb_ctl (kb_of w) \<and> kb_shift (kb_of w)"
proof -
  have one: "w AND push_bit n 1 \<noteq> 0 \<longleftrightarrow> bit w n" if "n < 32" for n and w :: "32 word"
    using that by (simp add: and_exp_eq_0_iff_not_bit push_bit_eq_mult)
  from one [of 6 w] one [of 3 w]
  show "w AND E0ESC \<noteq> 0 \<longleftrightarrow> kb_prefix (kb_of w)" "w AND CAPSLOCK \<noteq> 0 \<longleftrightarrow> kb_caps (kb_of w)"
    by (simp_all add: flag_defs kb_of_def push_bit_eq_mult)
  have three: "w AND (CTL OR SHIFT) = of_bool (bit w 0) + 2 * of_bool (bit w 1)"
  proof -
    have "w AND (CTL OR SHIFT) = take_bit (Suc (Suc 0)) w" by (simp add: flag_defs take_bit_eq_mask mask_eq_exp_minus_1)
    also have "\<dots> = of_bool (bit w 0) + 2 * of_bool (bit w 1)"
      by (simp add: take_bit_Suc bit_0 bit_Suc mod_2_eq_odd)
    finally show ?thesis .
  qed
  show "w AND (CTL OR SHIFT) = 0 \<longleftrightarrow> \<not> kb_ctl (kb_of w) \<and> \<not> kb_shift (kb_of w)"
    "w AND (CTL OR SHIFT) = SHIFT \<longleftrightarrow> \<not> kb_ctl (kb_of w) \<and> kb_shift (kb_of w)"
    unfolding three by (simp_all add: kb_of_def SHIFT_def)
qed

lemma kbd_char_types: "d < 256 \<Longrightarrow> kbd_char w d = kb_types (kb_of w) (key_of d)"
  by (cases "kb_ctl (kb_of w)"; cases "kb_shift (kb_of w)"; cases "kb_caps (kb_of w)")
    (simp_all add: kbd_char_def Let_def flag_tests layout_at kb_types_def invert_case_def is_lower_def is_upper_def)

section \<open>Properties\<close>

lemma unat_byte: "unat (b :: byte) < 256"
  using unsigned_less [where 'a = nat, of b] by simp

lemma high_bit:
  "(b :: byte) AND 0x80 \<noteq> 0 \<longleftrightarrow> unat b \<ge> 128" "unat (b AND 0x7F) = unat b mod 128" "unat b < 128 \<Longrightarrow> unat (b OR 0x80) = 128 + unat b"
proof -
  have "\<forall>n \<in> set [0..<256]. ((of_nat n :: byte) AND 0x80 \<noteq> 0 \<longleftrightarrow> n \<ge> 128) \<and> unat ((of_nat n :: byte) AND 0x7F) = n mod 128
      \<and> (n < 128 \<longrightarrow> unat ((of_nat n :: byte) OR 0x80) = 128 + n)"
    by code_simp
  then have "(of_nat (unat b) AND 0x80 \<noteq> (0 :: byte) \<longleftrightarrow> unat b \<ge> 128) \<and> unat (of_nat (unat b) AND (0x7F :: byte)) = unat b mod 128
      \<and> (unat b < 128 \<longrightarrow> unat (of_nat (unat b) OR (0x80 :: byte)) = 128 + unat b)"
    by (rule bspec) (use unat_byte in simp)
  then show "b AND 0x80 \<noteq> 0 \<longleftrightarrow> unat b \<ge> 128" "unat (b AND 0x7F) = unat b mod 128" "unat b < 128 \<Longrightarrow> unat (b OR 0x80) = 128 + unat b"
    by simp_all
qed

text \<open>One code: the character and the new flags are those of the keyboard.\<close>

lemma kbdgetc_step: "map_prod id kb_of (kbdgetc (Some code) w) = map_prod int id (kb_step code (kb_of w))"
proof -
  let ?d = "if kb_prefix (kb_of w) then 128 + unat code mod 128 else unat code mod 128"
  have k: "key_of ?d = (if kb_prefix (kb_of w) then Ext else Key) (unat code mod 128)" using mod_less_divisor [of 128 "unat code"] by (simp add: key_of_def linorder_not_le [symmetric])
  have "unat code mod 128 < 128" by simp
  then have d: "?d < 256" by (cases "kb_prefix (kb_of w)") simp_all
  consider (prefix) "code = 0xE0" | (release) "code \<noteq> 0xE0" "unat code \<ge> 128" | (press) "code \<noteq> 0xE0" "unat code < 128" by linarith
  then show ?thesis
  proof cases
    case prefix
    then show ?thesis by (simp add: kbdgetc_def kb_step_def kb_of_prefix)
  next
    case release
    have u: "unat (if kb_prefix (kb_of w) then code else code AND 0x7F) = ?d"
      using release(2) unat_byte [of code] by (auto simp: high_bit mod_if)
    have "kbdgetc (Some code) w = (0, w AND NOT (shiftcode ! ?d OR E0ESC))"
      using release unfolding u [symmetric] by (simp add: kbdgetc_def flag_tests high_bit(1) Let_def del: bit.de_Morgan_disj)
    then show ?thesis
      using release k unfolding layout_at(4) [OF d]
      by (simp add: kb_step_def kb_of_release Let_def del: bit.de_Morgan_disj)
  next
    case press
    let ?w = "if kb_prefix (kb_of w) then w AND NOT E0ESC else w"
    have u: "unat (if kb_prefix (kb_of w) then code OR 0x80 else code) = ?d" using press(2) by (simp add: high_bit(3))
    have w: "kb_of ?w = (kb_of w)\<lparr>kb_prefix := False\<rparr>" by (cases "kb_prefix (kb_of w)") (simp_all add: kb_of_prefix)
    have "kbdgetc (Some code) w = (int (kbd_char ((?w OR shiftcode ! ?d) XOR togglecode ! ?d) ?d), (?w OR shiftcode ! ?d) XOR togglecode ! ?d)"
      using press u by (auto simp: kbdgetc_def flag_tests high_bit(1) Let_def)
    then show ?thesis
      using press k unfolding layout_at(4,5) [OF d]
      by (simp add: kb_step_def kbd_char_types [OF d] kb_of_press w Let_def)
  qed
qed

lemma kbd_read_runs: "fst (kbd_read codes w) = fst (kb_run codes (kb_of w)) \<and> kb_of (snd (kbd_read codes w)) = snd (kb_run codes (kb_of w))"
proof (induction codes arbitrary: w)
  case (Cons code codes)
  obtain c w' where g: "kbdgetc (Some code) w = (c, w')" by fastforce
  then have "kb_step code (kb_of w) = (nat c, kb_of w')" using kbdgetc_step [of code w] by (cases "kb_step code (kb_of w)") auto
  then show ?case using g Cons.IH [of w'] by (auto simp: Let_def split: prod.splits)
qed simp

text \<open>
  C22. The tables and the flag word of \<^verbatim>\<open>kbdgetc\<close> implement a keyboard with an American layout. For every sequence of scan codes, whatever was pressed before, the characters that the
  interrupt hands to the console, and the modifiers at the end, are those of the keyboard that knows only its rows of keys: a press gives the character of its key, shifted or as a control character
  while such a key is held and with the case inverted by CapsLock; a release gives nothing and lets go of its own modifier only; a lock changes at each press; and the prefix
  concerns exactly the next code. Without a code in the controller the result is -1 and nothing changes.
\<close>

theorem keyboard_refines_layout:
  "kbdgetc None w = (-1, w)
   \<and> fst (kbd_read codes w) = fst (kb_run codes (kb_of w)) \<and> kb_of (snd (kbd_read codes w)) = snd (kb_run codes (kb_of w))"
  using kbd_read_runs by (simp add: kbdgetc_def)

end
