(* ===== verification/Grep.thy ===== *)
theory Grep
  imports Bytes
begin

text \<open>
  \<^verbatim>\<open>src/grep.c\<close>: the pattern matcher and the loop over the lines of a file. A C string is the list of its
  bytes before the NUL; \<^verbatim>\<open>re[1]\<close> of a pattern of one character is the NUL.
\<close>

section \<open>The matcher\<close>

function (sequential) matchhere :: "byte list \<Rightarrow> byte list \<Rightarrow> bool"
  and matchstar :: "byte \<Rightarrow> byte list \<Rightarrow> byte list \<Rightarrow> bool" where
  "matchhere [] text = True"
| "matchhere (c # re) text =
     (if re \<noteq> [] \<and> hd re = 42 then matchstar c (tl re) text
      else if c = 36 \<and> re = [] then text = []
      else case text of
        [] \<Rightarrow> False
      | t # text' \<Rightarrow> if c = 46 \<or> c = t then matchhere re text' else False)"
| "matchstar c re text =
     (if matchhere re text then True
      else case text of
        [] \<Rightarrow> False
      | t # text' \<Rightarrow> if t = c \<or> c = 46 then matchstar c re text' else False)"
  by pat_completeness auto
termination
  by (relation "measure (\<lambda>x. case x of Inl (re, text) \<Rightarrow> 2 * length re + length text | Inr (c, re, text) \<Rightarrow> 2 * length re + length text + 1)")
    (auto simp: neq_Nil_conv)

declare matchhere.simps(2) [simp del] matchstar.simps [simp del]

fun match_any :: "byte list \<Rightarrow> byte list \<Rightarrow> bool" where
  "match_any re [] = matchhere re []"
| "match_any re (t # text) = (matchhere re (t # text) \<or> match_any re text)"

definition match :: "byte list \<Rightarrow> byte list \<Rightarrow> bool" where
  "match re text = (if re \<noteq> [] \<and> hd re = 94 then matchhere (tl re) text else match_any re text)"

section \<open>Lines\<close>

definition GREP_BUF :: nat where
  "GREP_BUF = 1024"

text \<open>\<^verbatim>\<open>strchr(p, '\n') != 0\<close>: the buffer has a newline that no NUL comes before.\<close>

definition has_line :: "byte list \<Rightarrow> bool" where
  "has_line p \<longleftrightarrow> 10 \<in> set (takeWhile (\<lambda>b. b \<noteq> 0) p)"

text \<open>The inner loop of \<^verbatim>\<open>grep\<close>: what it writes for the lines in the buffer from \<open>p\<close> on, and the rest after the last newline.\<close>

function grep_lines :: "byte list \<Rightarrow> byte list \<Rightarrow> byte list \<times> byte list" where
  "grep_lines re p =
     (if has_line p then
        let line = takeWhile (\<lambda>b. b \<noteq> 10) p;
            (out, rest) = grep_lines re (drop (length line + 1) p)
        in ((if match re line then line @ [10] else []) @ out, rest)
      else ([], p))"
  by pat_completeness auto
termination
  by (relation "measure (\<lambda>(re, p). length p)") (auto simp: has_line_def intro!: diff_less elim: list.set_cases)

declare grep_lines.simps [simp del]

text \<open>
  The outer loop. \<open>held\<close> are the \<^verbatim>\<open>m\<close> bytes that stay in the buffer; one round takes the bytes \<open>r\<close> of a read, gives what is written, and what is
  held for the next round. When the buffer has no newline, what has been read is dropped (\<^verbatim>\<open>m = 0\<close>). \<open>reads\<close> are the results of the
  calls of \<^verbatim>\<open>read\<close>, up to the first that is empty or fails; each has at most the number of bytes that is asked for.
\<close>

definition grep_space :: "byte list \<Rightarrow> nat" where
  "grep_space held = GREP_BUF - length held - 1"

definition grep_round :: "byte list \<Rightarrow> byte list \<Rightarrow> byte list \<Rightarrow> byte list \<times> byte list" where
  "grep_round re held r =
     (let (out, rest) = grep_lines re (held @ r) in (out, if has_line (held @ r) then rest else []))"

fun grep :: "byte list \<Rightarrow> byte list \<Rightarrow> byte list list \<Rightarrow> byte list" where
  "grep re held [] = []"
| "grep re held (r # reads) =
     (let r = take (grep_space held) r in
      if r = [] then [] else let (out, held) = grep_round re held r in out @ grep re held reads)"

section \<open>What a pattern means\<close>

text \<open>
  A pattern is a sequence of characters or dots, each perhaps with a star, and perhaps a final dollar. Its
  language is the set of the texts that the sequence describes.
\<close>

type_synonym item = "byte \<times> bool"

definition sat :: "byte \<Rightarrow> byte \<Rightarrow> bool" where
  "sat c t \<longleftrightarrow> c = 46 \<or> c = t"

fun items_of :: "byte list \<Rightarrow> item list \<times> bool" where
  "items_of [] = ([], False)"
| "items_of [c] = (if c = 36 then ([], True) else ([(c, False)], False))"
| "items_of (c # d # re) =
     (if d = 42 then (case items_of re of (is, e) \<Rightarrow> ((c, True) # is, e))
      else (case items_of (d # re) of (is, e) \<Rightarrow> ((c, False) # is, e)))"

fun lang :: "item list \<Rightarrow> byte list set" where
  "lang [] = {[]}"
| "lang ((c, False) # is) = {t # w | t w. sat c t \<and> w \<in> lang is}"
| "lang ((c, True) # is) = {u @ w | u w. (\<forall>t \<in> set u. sat c t) \<and> w \<in> lang is}"

definition matches_at :: "byte list \<Rightarrow> byte list \<Rightarrow> bool" where
  "matches_at re text \<longleftrightarrow> (\<exists>w rest. text = w @ rest \<and> w \<in> lang (fst (items_of re)) \<and> (snd (items_of re) \<longrightarrow> rest = []))"

lemma items_of_star: "items_of (c # 42 # re) = ((c, True) # fst (items_of re), snd (items_of re))"
  by (simp split: prod.splits)

lemma items_of_char:
  "re = [] \<and> c \<noteq> 36 \<or> re \<noteq> [] \<and> hd re \<noteq> 42 \<Longrightarrow> items_of (c # re) = ((c, False) # fst (items_of re), snd (items_of re))"
  by (cases re) (auto split: prod.splits)

lemma matches_at_star:
  "matches_at (c # 42 # re) text \<longleftrightarrow> (\<exists>u rest. text = u @ rest \<and> (\<forall>t \<in> set u. sat c t) \<and> matches_at re rest)"
proof
  assume "matches_at (c # 42 # re) text"
  then obtain v rest u w where "text = v @ rest" "v = u @ w" "\<forall>t \<in> set u. sat c t" "w \<in> lang (fst (items_of re))" "snd (items_of re) \<longrightarrow> rest = []"
    unfolding matches_at_def items_of_star fst_conv snd_conv lang.simps by blast
  then have "text = u @ (w @ rest)" "matches_at re (w @ rest)" unfolding matches_at_def by auto
  then show "\<exists>u rest. text = u @ rest \<and> (\<forall>t \<in> set u. sat c t) \<and> matches_at re rest"
    using \<open>\<forall>t \<in> set u. sat c t\<close> by blast
next
  assume "\<exists>u rest. text = u @ rest \<and> (\<forall>t \<in> set u. sat c t) \<and> matches_at re rest"
  then obtain u w rest where "text = (u @ w) @ rest" "\<forall>t \<in> set u. sat c t" "w \<in> lang (fst (items_of re))" "snd (items_of re) \<longrightarrow> rest = []"
    unfolding matches_at_def by auto
  then show "matches_at (c # 42 # re) text"
    unfolding matches_at_def items_of_star fst_conv snd_conv lang.simps by blast
qed

lemma matches_at_char:
  assumes "re = [] \<and> c \<noteq> 36 \<or> re \<noteq> [] \<and> hd re \<noteq> 42"
  shows "matches_at (c # re) text \<longleftrightarrow> (\<exists>t rest. text = t # rest \<and> sat c t \<and> matches_at re rest)"
proof
  assume "matches_at (c # re) text"
  then obtain v rest t w where "text = v @ rest" "v = t # w" "sat c t" "w \<in> lang (fst (items_of re))" "snd (items_of re) \<longrightarrow> rest = []"
    unfolding matches_at_def items_of_char [OF assms] fst_conv snd_conv lang.simps by blast
  then have "text = t # (w @ rest)" "matches_at re (w @ rest)" unfolding matches_at_def by auto
  then show "\<exists>t rest. text = t # rest \<and> sat c t \<and> matches_at re rest" using \<open>sat c t\<close> by blast
next
  assume "\<exists>t rest. text = t # rest \<and> sat c t \<and> matches_at re rest"
  then obtain t w rest where "text = (t # w) @ rest" "sat c t" "w \<in> lang (fst (items_of re))" "snd (items_of re) \<longrightarrow> rest = []"
    unfolding matches_at_def by auto
  then show "matches_at (c # re) text"
    unfolding matches_at_def items_of_char [OF assms] fst_conv snd_conv lang.simps by blast
qed

lemma matches_at_simps:
  "matches_at [] text" "matches_at [36] text \<longleftrightarrow> text = []"
  by (auto simp: matches_at_def)

lemma matcher_correct:
  "matchhere re s \<longleftrightarrow> matches_at re s"
  "matchstar c re s \<longleftrightarrow> matches_at (c # 42 # re) s"
proof (induction re s and c re s rule: matchhere_matchstar.induct)
  case (1 s)
  show ?case by (simp add: matches_at_simps)
next
  case (2 c re s)
  consider (star) re' where "re = 42 # re'" | (dollar) "re = []" "c = 36" | (char) "re = [] \<and> c \<noteq> 36 \<or> re \<noteq> [] \<and> hd re \<noteq> 42"
    by (cases re) auto
  then show ?case
  proof cases
    case star
    then show ?thesis using 2(1) by (simp add: matchhere.simps(2))
  next
    case dollar
    then show ?thesis by (simp add: matchhere.simps(2) matches_at_simps)
  next
    case char
    then have "\<not> (re \<noteq> [] \<and> hd re = 42)" "\<not> (c = 36 \<and> re = [])" by auto
    then show ?thesis
      using 2(2) matches_at_char [OF char, of s] by (cases s) (auto simp: matchhere.simps(2) sat_def)
  qed
next
  case (3 c re s)
  show ?case
  proof (cases "matchhere re s")
    case True
    then have "matches_at re s" using 3(1) by simp
    then have "matches_at (c # 42 # re) s" unfolding matches_at_star by (intro exI [of _ "[]"] exI [of _ s]) simp
    then show ?thesis using True by (simp add: matchstar.simps)
  next
    case False
    then have n: "\<not> matches_at re s" using 3(1) by simp
    show ?thesis
    proof (cases s)
      case Nil
      then show ?thesis using False n by (auto simp: matchstar.simps matches_at_star)
    next
      case (Cons t s')
      have "matches_at (c # 42 # re) s \<longleftrightarrow> sat c t \<and> matches_at (c # 42 # re) s'"
      proof
        assume "matches_at (c # 42 # re) s"
        then obtain u rest where u: "s = u @ rest" "\<forall>t \<in> set u. sat c t" "matches_at re rest" unfolding matches_at_star by blast
        then obtain u' where "u = t # u'" using n Cons by (cases u) auto
        then show "sat c t \<and> matches_at (c # 42 # re) s'" using u Cons unfolding matches_at_star by auto
      next
        assume a: "sat c t \<and> matches_at (c # 42 # re) s'"
        then obtain u rest where "s' = u @ rest" "\<forall>t \<in> set u. sat c t" "matches_at re rest" unfolding matches_at_star by blast
        then show "matches_at (c # 42 # re) s"
          unfolding matches_at_star using a Cons by (intro exI [of _ "t # u"] exI [of _ rest]) simp
      qed
      then show ?thesis using 3(2) [OF False Cons] False Cons by (auto simp: matchstar.simps [of c re "t # s'"] sat_def)
    qed
  qed
qed

lemma match_any_correct: "match_any re s \<longleftrightarrow> (\<exists>pre rest. s = pre @ rest \<and> matches_at re rest)"
proof (induction s)
  case (Cons t s)
  have "(\<exists>pre rest. t # s = pre @ rest \<and> matches_at re rest) \<longleftrightarrow> matches_at re (t # s) \<or> (\<exists>pre rest. s = pre @ rest \<and> matches_at re rest)"
    by (auto simp: Cons_eq_append_conv)
  then show ?case using Cons by (simp add: matcher_correct)
qed (simp add: matcher_correct)

text \<open>
  C20. The matcher accepts exactly the lines that contain a text of the pattern's language: anywhere in the
  line, or at its start for a pattern that begins with a caret, and up to its end for one that ends with a dollar.
\<close>

theorem grep_match_equiv:
  "match re text \<longleftrightarrow>
    (let (start, re) = (if re \<noteq> [] \<and> hd re = 94 then (True, tl re) else (False, re)) in
     \<exists>pre w post. text = pre @ w @ post \<and> w \<in> lang (fst (items_of re)) \<and> (start \<longrightarrow> pre = []) \<and> (snd (items_of re) \<longrightarrow> post = []))"
  by (auto simp: match_def matcher_correct match_any_correct matches_at_def)

theorem grep_match_equiv_witness: "match [94, 97, 46, 42, 98, 36] [97, 99, 99, 98]"
proof -
  have "items_of [97, 46, 42, 98, 36] = ([(97, False), (46, True), (98, False)], True)" by simp
  moreover have "[97, 99, 99, 98] \<in> lang [(97, False), (46, True), (98, False)]"
    by (auto simp: sat_def intro!: exI [of _ "[99, 99]"])
  ultimately show ?thesis using grep_match_equiv [of "[94, 97, 46, 42, 98, 36]" "[97, 99, 99, 98]"] by auto
qed

section \<open>Files\<close>

text \<open>The lines of a file, each without its newline.\<close>

fun lines_of :: "byte list list \<Rightarrow> byte list" where
  "lines_of [] = []"
| "lines_of (l # ls) = l @ [10] @ lines_of ls"

lemma has_line_Cons: "10 \<notin> set l \<Longrightarrow> 0 \<notin> set l \<Longrightarrow> has_line (l @ 10 # rest)"
  by (induction l) (auto simp: has_line_def)

lemma takeWhile_line: "10 \<notin> set l \<Longrightarrow> takeWhile (\<lambda>b. b \<noteq> 10) (l @ 10 # rest) = (l :: byte list)"
  by (induction l) auto

lemma grep_lines_file:
  "\<forall>l \<in> set ls. 10 \<notin> set l \<and> 0 \<notin> set l \<Longrightarrow> 10 \<notin> set tail \<Longrightarrow>
   grep_lines re (lines_of ls @ tail) = (lines_of (filter (match re) ls), tail)"
proof (induction ls)
  case Nil
  have "\<not> has_line tail" using Nil by (auto simp: has_line_def dest: set_takeWhileD)
  then show ?case by (simp add: grep_lines.simps)
next
  case (Cons l ls)
  have l: "10 \<notin> set l" "0 \<notin> set l" using Cons.prems by auto
  have "lines_of (l # ls) @ tail = l @ 10 # lines_of ls @ tail" by simp
  then show ?case
    using Cons has_line_Cons [OF l, of "lines_of ls @ tail"] takeWhile_line [OF l(1), of "lines_of ls @ tail"]
    by (simp add: grep_lines.simps [of re "l @ 10 # lines_of ls @ tail"] Let_def)
qed

text \<open>
  A regular file with the bytes \<open>unread\<close> still to be read answers a read with as many bytes as there is space for, or with the rest of them: the results of the reads that
  \<^verbatim>\<open>grep\<close> makes.
\<close>

function file_reads :: "byte list \<Rightarrow> byte list \<Rightarrow> byte list \<Rightarrow> byte list list" where
  "file_reads re held unread =
     (let r = take (grep_space held) unread in
      if r = [] then [] else r # file_reads re (snd (grep_round re held r)) (drop (length r) unread))"
  by pat_completeness auto
termination
  by (relation "measure (\<lambda>(re, held, unread). length unread)") (auto simp: min_def)

declare file_reads.simps [simp del]

lemma lines_split: "\<exists>ls tail. xs = lines_of ls @ tail \<and> 10 \<notin> set tail \<and> (\<forall>l \<in> set ls. 10 \<notin> set l)"
proof (induction "length xs" arbitrary: xs rule: less_induct)
  case less
  show ?case
  proof (cases "10 \<in> set xs")
    case True
    then obtain l zs where x: "xs = l @ 10 # zs" "10 \<notin> set l" by (meson split_list_first)
    then obtain ls tail where "zs = lines_of ls @ tail" "10 \<notin> set tail" "\<forall>l \<in> set ls. 10 \<notin> set l" using less [of zs] by auto
    then show ?thesis using x by (intro exI [of _ "l # ls"] exI [of _ tail]) simp
  next
    case False
    then show ?thesis by (intro exI [of _ "[]"] exI [of _ xs]) simp
  qed
qed

lemma lines_prefix:
  "lines_of ls1 @ z = lines_of ls @ tail \<Longrightarrow> 10 \<notin> set tail \<Longrightarrow> \<forall>l \<in> set ls1. 10 \<notin> set l \<Longrightarrow> \<forall>l \<in> set ls. 10 \<notin> set l
   \<Longrightarrow> \<exists>ls2. ls = ls1 @ ls2 \<and> z = lines_of ls2 @ tail"
proof (induction ls1 arbitrary: ls)
  case (Cons l1 ls1)
  have e: "l1 @ 10 # (lines_of ls1 @ z) = lines_of ls @ tail" using Cons.prems(1) by simp
  obtain l ls' where ls: "ls = l # ls'"
  proof (cases ls)
    case Nil
    then have "10 \<in> set tail" using arg_cong [OF e, of set] by auto
    then show thesis using Cons.prems(2) by simp
  qed
  have e2: "l1 @ 10 # (lines_of ls1 @ z) = l @ 10 # (lines_of ls' @ tail)" using e ls by simp
  have "l1 = l" using arg_cong [OF e2, of "takeWhile (\<lambda>b. b \<noteq> 10)"] Cons.prems(3,4) ls by (simp add: takeWhile_line)
  then show ?case using Cons.IH [of ls'] e2 Cons.prems ls by auto
qed simp

lemma lines_of_append [simp]: "lines_of (xs @ ys) = lines_of xs @ lines_of ys"
  by (induction xs) auto

text \<open>Bytes without a newline make \<^verbatim>\<open>grep\<close> write nothing.\<close>

lemma no_newline_no_line: "10 \<notin> set p \<Longrightarrow> \<not> has_line p"
  by (auto simp: has_line_def dest: set_takeWhileD)

lemma grep_without_newline:
  "10 \<notin> set held \<Longrightarrow> 10 \<notin> set (concat reads) \<Longrightarrow> grep re held reads = []"
proof (induction reads arbitrary: held)
  case (Cons r reads)
  have "\<not> has_line (held @ take (grep_space held) r)"
    by (rule no_newline_no_line) (use Cons.prems in \<open>auto dest: in_set_takeD\<close>)
  then have "grep_round re held (take (grep_space held) r) = ([], [])"
    by (simp add: grep_round_def grep_lines.simps [of re "held @ _"])
  then show ?case using Cons.IH [of "[]"] Cons.prems by simp
qed simp

lemma file_reads_concat: "set (concat (file_reads re held unread)) \<subseteq> set unread"
proof (induction re held unread rule: file_reads.induct)
  case (1 re held unread)
  show ?case
    by (subst file_reads.simps) (use 1 in \<open>auto simp: Let_def dest: in_set_takeD in_set_dropD\<close>)
qed

text \<open>A round whose buffer ends the lines \<open>ls1\<close> writes those that match, and holds the start of the next line.\<close>

lemma grep_round_lines:
  assumes "held @ r = lines_of ls1 @ t1" "ls1 \<noteq> []" "\<forall>l \<in> set ls1. 10 \<notin> set l \<and> 0 \<notin> set l" "10 \<notin> set t1"
  shows "grep_round re held r = (lines_of (filter (match re) ls1), t1)"
proof -
  obtain l ls where l: "ls1 = l # ls" using assms(2) by (cases ls1) auto
  have "has_line (held @ r)" using has_line_Cons [of l "lines_of ls @ t1"] assms(1,3) l by simp
  then show ?thesis using grep_lines_file [OF assms(3,4), of re] assms(1) by (simp add: grep_round_def)
qed

lemma grep_file_lines:
  assumes "held @ unread = lines_of ls @ tail" and "\<forall>l \<in> set ls. 10 \<notin> set l \<and> 0 \<notin> set l \<and> length l < GREP_BUF - 1" and "10 \<notin> set tail"
    and "length held < GREP_BUF - 1" and "10 \<notin> set held"
  shows "grep re held (file_reads re held unread) = lines_of (filter (match re) ls)"
  using assms
proof (induction re held unread arbitrary: ls rule: file_reads.induct)
  case (1 re held unread)
  show ?case
  proof (cases ls)
    case Nil
    then have "10 \<notin> set unread" using "1.prems"(1,3) by (metis append_Nil lines_of.simps(1) Un_iff set_append)
    then show ?thesis using grep_without_newline "1.prems"(5) file_reads_concat Nil by (metis filter.simps(1) lines_of.simps(1) subset_eq)
  next
    case (Cons l ls')
    define r where "r = take (grep_space held) unread"
    have nl: "\<forall>l \<in> set ls. 10 \<notin> set l" using "1.prems"(2) by auto
    have unread: "unread \<noteq> []" using "1.prems"(1,5) Cons by auto
    have r: "r \<noteq> []" using unread "1.prems"(4) by (simp add: r_def grep_space_def)
    obtain ls1 t1 where s: "held @ r = lines_of ls1 @ t1" "10 \<notin> set t1" "\<forall>l \<in> set ls1. 10 \<notin> set l" using lines_split by blast
    have "lines_of ls1 @ (t1 @ drop (length r) unread) = lines_of ls @ tail"
      using "1.prems"(1) s(1) unfolding r_def by (metis append_assoc append_eq_conv_conj append_take_drop_id)
    from lines_prefix [OF this "1.prems"(3) s(3) nl]
    obtain ls2 where l2: "ls = ls1 @ ls2" "t1 @ drop (length r) unread = lines_of ls2 @ tail" by blast
    have ne: "ls1 \<noteq> []"
    proof
      assume "ls1 = []"
      then have nr: "10 \<notin> set (held @ r)" using s by simp
      have pre: "held @ r = take (length (held @ r)) (l @ [10] @ lines_of ls' @ tail)"
      proof -
        have "take (length r) unread = r" by (simp add: r_def min_def)
        then have "held @ r = take (length (held @ r)) (held @ unread)" by simp
        moreover have "held @ unread = l @ [10] @ lines_of ls' @ tail" using "1.prems"(1) Cons by simp
        ultimately show ?thesis by (rule subst [rotated])
      qed
      have "length (held @ r) \<le> length l"
      proof (rule ccontr)
        assume "\<not> ?thesis"
        then have "10 \<in> set (take (length (held @ r)) (l @ [10] @ lines_of ls' @ tail))" by (auto simp: take_Cons' )
        then show False using nr unfolding pre [symmetric] by blast
      qed
      then have "length (held @ r) < GREP_BUF - 1" using "1.prems"(2) Cons by auto
      then have "r = unread" using "1.prems"(4) by (auto simp: r_def grep_space_def min_def split: if_splits)
      then show False using nr "1.prems"(1) Cons by auto
    qed
    have g: "grep_round re held r = (lines_of (filter (match re) ls1), t1)"
      by (rule grep_round_lines [OF s(1) ne _ s(2)]) (use "1.prems"(2) l2(1) in auto)
    have t1: "length t1 < GREP_BUF - 1"
    proof -
      have "lines_of ls1 \<noteq> []" using ne by (cases ls1) auto
      then have "length t1 < length (held @ r)" using s(1) by (metis length_append length_greater_0_conv less_add_same_cancel2)
      also have "\<dots> \<le> GREP_BUF - 1" using "1.prems"(4) by (simp add: r_def grep_space_def)
      finally show ?thesis .
    qed
    have "grep re t1 (file_reads re t1 (drop (length r) unread)) = lines_of (filter (match re) ls2)"
      using "1.IH" [OF r_def r, of ls2] g l2 "1.prems"(2,3) t1 s(2) by simp
    moreover have "file_reads re held unread = r # file_reads re t1 (drop (length r) unread)"
      using g r by (simp add: file_reads.simps [of re held unread] r_def)
    moreover have "take (grep_space held) r = r" by (simp add: r_def)
    ultimately show ?thesis using g r l2(1) by simp
  qed
qed

text \<open>
  C21. \<^verbatim>\<open>grep\<close> of a regular file whose lines have at most 1022 characters, none of them NUL, writes exactly the lines that match, in order and once each, whatever
  the length of the file and wherever the reads cut it; a last line without a newline is dropped.
\<close>

theorem grep_prints_matching_lines:
  assumes "\<forall>l \<in> set ls. 10 \<notin> set l \<and> 0 \<notin> set l \<and> length l \<le> 1022" and "10 \<notin> set tail"
  shows "grep re [] (file_reads re [] (lines_of ls @ tail)) = lines_of (filter (match re) ls)"
  by (rule grep_file_lines) (use assms in \<open>auto simp: GREP_BUF_def\<close>)

text \<open>A file of three lines of 500 characters each, which does not fit the buffer: the second line is cut by the first read.\<close>

theorem grep_prints_matching_lines_witness:
  "grep [98] [] (file_reads [98] [] (lines_of [replicate 500 97, replicate 500 98, replicate 500 99])) = replicate 500 98 @ [10]"
proof -
  have a: "\<not> match [98] (replicate n 97)" "\<not> match [98] (replicate n 99)" for n
    by (induction n) (simp_all add: match_def matchhere.simps matchstar.simps)
  have "match [98] (replicate (Suc n) 98)" for n by (simp add: match_def matchhere.simps)
  from this [of 499] have b: "match [98] (replicate 500 98)" by (simp del: replicate_Suc)
  show ?thesis
    using grep_prints_matching_lines [of "[replicate 500 97, replicate 500 98, replicate 500 99]" "[]" "[98]"] a [of 500] b by simp
qed

end
