(* ===== verification/Sh_Parse.thy ===== *)
theory Sh_Parse
  imports Bytes
begin

text \<open>
  The command parser of \<^verbatim>\<open>src/sh.c\<close>. A parsing function takes the rest of the line, from \<^verbatim>\<open>*ps\<close> to \<^verbatim>\<open>es\<close>, and
  returns the new rest. \<^verbatim>\<open>panic\<close> ends the shell's child (\<open>Panic\<close>). Strings are values: the counted strings
  that the parser stores are the strings that \<^verbatim>\<open>nulterminate\<close> makes of them. The recursive descent has fuel, one unit
  for each nested call; running out is \<open>Fault\<close>, and is shown not to happen.
\<close>

section \<open>Commands\<close>

datatype cmd =
    EXEC "byte list list"
  | REDIR cmd "byte list" "32 word" nat
  | PIPE cmd cmd
  | LIST cmd cmd
  | BACK cmd

definition MAXARGS :: nat where
  "MAXARGS = 10"

definition O_RDONLY :: "32 word" where "O_RDONLY = 0"
definition O_WRONLY_CREATE :: "32 word" where "O_WRONLY_CREATE = 0x201"

section \<open>Tokens\<close>

definition whitespace :: "byte list" where
  "whitespace = [32, 9, 13, 10, 11]"

definition symbols :: "byte list" where
  "symbols = [60, 124, 62, 38, 59, 40, 41]"

definition skip_ws :: "byte list \<Rightarrow> byte list" where
  "skip_ws s = dropWhile (\<lambda>c. c \<in> set whitespace) s"

definition word_char :: "byte \<Rightarrow> bool" where
  "word_char c \<longleftrightarrow> c \<notin> set whitespace \<and> c \<notin> set symbols"

text \<open>\<^verbatim>\<open>gettoken\<close>: the kind of token, its text (\<^verbatim>\<open>*q\<close> to \<^verbatim>\<open>*eq\<close>) and the rest.\<close>

definition gettoken :: "byte list \<Rightarrow> byte \<times> byte list \<times> byte list" where
  "gettoken s =
     (case skip_ws s of
        [] \<Rightarrow> (0, [], [])
      | c # t \<Rightarrow>
          if c \<in> {124, 40, 41, 59, 38, 60} then (c, [c], skip_ws t)
          else if c = 62 then
            (case t of
               d # t' \<Rightarrow> if d = 62 then (43, [c, d], skip_ws t') else (c, [c], skip_ws t)
             | [] \<Rightarrow> (c, [c], skip_ws t))
          else (97, takeWhile word_char (c # t), skip_ws (dropWhile word_char (c # t))))"

definition peek :: "byte list \<Rightarrow> byte list \<Rightarrow> bool \<times> byte list" where
  "peek toks s = (case skip_ws s of [] \<Rightarrow> (False, []) | c # t \<Rightarrow> (c \<in> set toks, c # t))"

section \<open>Lemmas on tokens\<close>

lemma skip_ws_shorter: "length (skip_ws s) \<le> length s"
  by (simp add: skip_ws_def length_dropWhile_le)

lemma dropWhile_shorter_hd: "s \<noteq> [] \<Longrightarrow> P (hd s) \<Longrightarrow> length (dropWhile P s) < length s"
  using length_dropWhile_le [of P "tl s"] by (cases s) auto

lemma skip_ws_hd: "skip_ws s = c # t \<Longrightarrow> c \<notin> set whitespace"
  unfolding skip_ws_def by (metis hd_dropWhile list.distinct(1) list.sel(1))

lemma word_char_hd:
  "c \<notin> set whitespace \<Longrightarrow> c \<notin> {124, 40, 41, 59, 38, 60} \<Longrightarrow> c \<noteq> 62 \<Longrightarrow> word_char c"
  by (auto simp: word_char_def symbols_def)

lemma gettoken_rest:
  assumes "gettoken s = (tok, w, r)"
  shows "length r \<le> length s" and "tok \<noteq> 0 \<Longrightarrow> length r < length s"
proof -
  have "length r \<le> length s \<and> (tok \<noteq> 0 \<longrightarrow> length r < length s)"
  proof (cases "skip_ws s")
    case Nil
    then show ?thesis using assms by (simp add: gettoken_def)
  next
    case (Cons c t)
    have t: "length t < length s" using skip_ws_shorter [of s] Cons by simp
    have le: "length (skip_ws u) \<le> length u" for u by (rule skip_ws_shorter)
    show ?thesis
    proof (cases "c \<in> {124, 40, 41, 59, 38, 60} \<or> c = 62")
      case True
      have "length r \<le> length t"
        using assms True Cons le [of t] le [of "tl t"] by (auto simp: gettoken_def split: list.splits if_splits) 
      then show ?thesis using t by simp
    next
      case False
      then have "word_char c" using skip_ws_hd [OF Cons] by (auto intro: word_char_hd)
      then have "length r \<le> length t"
        using assms False Cons le [of "dropWhile word_char t"] length_dropWhile_le [of word_char t] by (auto simp: gettoken_def)
      then show ?thesis using t by simp
    qed
  qed
  then show "length r \<le> length s" "tok \<noteq> 0 \<Longrightarrow> length r < length s" by simp_all
qed

lemma peek_rest: "peek toks s = (b, r) \<Longrightarrow> r = skip_ws s"
  by (auto simp: peek_def split: list.splits)

lemma redir_step:
  assumes "(f, s0) = peek toks s" "(tok, w, s1) = gettoken s0" "(a, q, s2) = gettoken s1" "a \<noteq> 0"
  shows "length s2 < length s"
proof -
  have "length s0 \<le> length s" using peek_rest [OF assms(1) [symmetric]] skip_ws_shorter [of s] by simp
  moreover have "length s1 \<le> length s0" using gettoken_rest(1) [OF assms(2) [symmetric]] .
  moreover have "length s2 < length s1" using gettoken_rest(2) [OF assms(3) [symmetric] assms(4)] .
  ultimately show ?thesis by simp
qed

section \<open>Redirections and arguments\<close>

lemma bind_res_cong [fundef_cong]:
  "m = m' \<Longrightarrow> (\<And>x. m' = Ok x \<Longrightarrow> f x = f' x) \<Longrightarrow> bind_res m f = bind_res m' f'"
  by (cases m') simp_all

text \<open>
  \<^verbatim>\<open>parseredirs\<close> wraps its command in one more node for every redirection; the model collects the
  wrappers. The modes of \<^verbatim>\<open>>\<close> and \<^verbatim>\<open>>>\<close> are the same.
\<close>

type_synonym redir = "byte list \<times> 32 word \<times> nat"

definition redir_of :: "byte \<Rightarrow> byte list \<Rightarrow> redir" where
  "redir_of tok q = (if tok = 60 then (q, O_RDONLY, 0) else (q, O_WRONLY_CREATE, 1))"

definition redircmd :: "cmd \<Rightarrow> redir \<Rightarrow> cmd" where
  "redircmd c r = (case r of (f, mode, fd) \<Rightarrow> REDIR c f mode fd)"

function parseredirs :: "redir list \<Rightarrow> byte list \<Rightarrow> (redir list \<times> byte list) res" where
  "parseredirs rs s =
     (case peek [60, 62] s of (found, s) \<Rightarrow>
        if found then
          (case gettoken s of (tok, _, s1) \<Rightarrow> case gettoken s1 of (a, q, s2) \<Rightarrow>
             if a \<noteq> 97 then Panic ''missing file for redirection''
             else parseredirs (rs @ [redir_of tok q]) s2)
        else Ok (rs, s))"
  by pat_completeness auto
termination
  by (relation "measure (\<lambda>(rs, s). length s)") (auto intro: redir_step)

declare parseredirs.simps [simp del]

lemma parseredirs_rest: "parseredirs rs s = Ok (rs', r) \<Longrightarrow> length r \<le> length s"
proof (induction rs s rule: parseredirs.induct)
  case (1 rs s)
  obtain f s0 where p: "peek [60, 62] s = (f, s0)" by (cases "peek [60, 62] s")
  obtain tok w s1 where g: "gettoken s0 = (tok, w, s1)" by (cases "gettoken s0")
  obtain a q s2 where h: "gettoken s1 = (a, q, s2)" by (cases "gettoken s1")
  have l: "length s0 \<le> length s" "length s1 \<le> length s0" "length s2 \<le> length s1"
    using peek_rest [OF p] skip_ws_shorter [of s] gettoken_rest(1) [OF g] gettoken_rest(1) [OF h] by simp_all
  show ?case
  proof (cases "f \<and> a = 97")
    case True
    then have e: "parseredirs rs s = parseredirs (rs @ [redir_of tok q]) s2" by (simp add: parseredirs.simps [of rs s] p g h)
    have "length r \<le> length s2" using 1(1) [OF p [symmetric] _ g [symmetric] refl h [symmetric] refl] True 1(2) e by simp
    then show ?thesis using l by simp
  next
    case False
    then show ?thesis using 1(2) l by (auto simp: parseredirs.simps [of rs s] p g h split: if_splits)
  qed
qed

lemma arg_step:
  assumes "(f, s0) = peek toks s" "(tok, q, s1) = gettoken s0" "tok \<noteq> 0" "parseredirs rs s1 = Ok (rs', s2)"
  shows "length s2 < length s"
proof -
  have "length s0 \<le> length s" using peek_rest [OF assms(1) [symmetric]] skip_ws_shorter [of s] by simp
  moreover have "length s1 < length s0" using gettoken_rest(2) [OF assms(2) [symmetric] assms(3)] .
  ultimately show ?thesis using parseredirs_rest [OF assms(4)] by simp
qed

text \<open>The loop of \<^verbatim>\<open>parseexec\<close>.\<close>

function parse_args :: "byte list list \<Rightarrow> redir list \<Rightarrow> byte list \<Rightarrow> (byte list list \<times> redir list \<times> byte list) res" where
  "parse_args args rs s =
     (case peek [124, 41, 38, 59] s of (stop, s) \<Rightarrow>
        if stop then Ok (args, rs, s)
        else case gettoken s of (tok, q, s1) \<Rightarrow>
          if tok = 0 then Ok (args, rs, s1)
          else if tok \<noteq> 97 then Panic ''syntax''
          else if length args + 1 \<ge> MAXARGS then Panic ''too many args''
          else bind_res (parseredirs rs s1) (\<lambda>(rs, s2). parse_args (args @ [q]) rs s2))"
  by pat_completeness auto
termination
  by (relation "measure (\<lambda>(args, rs, s). length s)") (auto intro: arg_step)

declare parse_args.simps [simp del]

section \<open>The grammar\<close>

text \<open>The loop of \<^verbatim>\<open>parseline\<close> over background marks.\<close>

function parse_backs :: "cmd \<Rightarrow> byte list \<Rightarrow> cmd \<times> byte list" where
  "parse_backs c s =
     (case peek [38] s of (found, s) \<Rightarrow>
        if found then (case gettoken s of (_, _, s1) \<Rightarrow> parse_backs (BACK c) s1) else (c, s))"
  by pat_completeness auto

lemma peek_shorter:
  assumes "peek toks s = (True, s0)" "gettoken s0 = (tok, w, s1)"
  shows "length s1 < length s"
proof -
  obtain c t where s0: "skip_ws s = c # t" "s0 = c # t" using assms(1) by (auto simp: peek_def split: list.splits)
  have c: "c \<notin> set whitespace" by (rule skip_ws_hd [OF s0(1)])
  then have sk: "skip_ws (c # t) = c # t" by (simp add: skip_ws_def)
  have l: "length (c # t) \<le> length s" using skip_ws_shorter [of s] s0(1) by simp
  show ?thesis
  proof (cases "tok = 0")
    case True
    have "s1 = skip_ws t \<or> (\<exists>d t'. t = d # t' \<and> s1 = skip_ws t') \<or> s1 = skip_ws (dropWhile word_char (c # t)) \<and> tok = 97"
      using assms(2) sk s0(2) by (auto simp: gettoken_def split: list.splits if_splits)
    then have "length s1 \<le> length t" using True skip_ws_shorter [of t] by (auto intro: le_trans [OF skip_ws_shorter])
    then show ?thesis using l by simp
  next
    case False
    then show ?thesis using gettoken_rest(2) [OF assms(2) False] s0(2) l by simp
  qed
qed

termination parse_backs
  by (relation "measure (\<lambda>(c, s). length s)") (auto intro: peek_shorter sym)

declare parse_backs.simps [simp del]

text \<open>The rest after the token that \<^verbatim>\<open>peek\<close> has found.\<close>

definition skip_token :: "byte list \<Rightarrow> byte list" where
  "skip_token s = snd (snd (gettoken s))"

fun parseline :: "nat \<Rightarrow> byte list \<Rightarrow> (cmd \<times> byte list) res"
  and parsepipe :: "nat \<Rightarrow> byte list \<Rightarrow> (cmd \<times> byte list) res"
  and parseexec :: "nat \<Rightarrow> byte list \<Rightarrow> (cmd \<times> byte list) res"
  and parseblock :: "nat \<Rightarrow> byte list \<Rightarrow> (cmd \<times> byte list) res" where
  "parseline 0 s = Fault ''fuel''"
| "parseline (Suc n) s =
     bind_res (parsepipe n s) (\<lambda>(c, s).
       case parse_backs c s of (c, s) \<Rightarrow> case peek [59] s of (found, s) \<Rightarrow>
         if found then bind_res (parseline n (skip_token s)) (\<lambda>(r, s). Ok (LIST c r, s))
         else Ok (c, s))"
| "parsepipe 0 s = Fault ''fuel''"
| "parsepipe (Suc n) s =
     bind_res (parseexec n s) (\<lambda>(c, s).
       case peek [124] s of (found, s) \<Rightarrow>
         if found then bind_res (parsepipe n (skip_token s)) (\<lambda>(r, s). Ok (PIPE c r, s))
         else Ok (c, s))"
| "parseexec 0 s = Fault ''fuel''"
| "parseexec (Suc n) s =
     (case peek [40] s of (found, s) \<Rightarrow>
        if found then parseblock n s
        else
          bind_res (parseredirs [] s) (\<lambda>(rs, s).
          bind_res (parse_args [] rs s) (\<lambda>(args, rs, s).
          Ok (foldl redircmd (EXEC args) rs, s))))"
| "parseblock 0 s = Fault ''fuel''"
| "parseblock (Suc n) s =
     (case peek [40] s of (found, s) \<Rightarrow>
        if \<not> found then Panic ''parseblock''
        else
          bind_res (parseline n (skip_token s)) (\<lambda>(c, s).
            case peek [41] s of (found, s) \<Rightarrow>
              if \<not> found then Panic ''syntax - missing )''
              else
                bind_res (parseredirs [] (skip_token s)) (\<lambda>(rs, s).
                Ok (foldl redircmd c rs, s))))"

definition parse_fuel :: "byte list \<Rightarrow> nat" where
  "parse_fuel s = 4 * length s + 4"

definition parsecmd :: "byte list \<Rightarrow> cmd res" where
  "parsecmd s =
     bind_res (parseline (parse_fuel s) s) (\<lambda>(c, s).
       case peek [] s of (_, s) \<Rightarrow> if s \<noteq> [] then Panic ''syntax'' else Ok c)"

section \<open>The parser ends\<close>

lemma parse_backs_rest: "length (snd (parse_backs c s)) \<le> length s"
proof (induction c s rule: parse_backs.induct)
  case (1 c s)
  obtain f s0 where p: "peek [38] s = (f, s0)" by (cases "peek [38] s")
  obtain tok w s1 where g: "gettoken s0 = (tok, w, s1)" by (cases "gettoken s0")
  show ?case
  proof (cases f)
    case True
    have "length s1 < length s" using peek_shorter p g True by simp
    then show ?thesis using 1 p g True by (fastforce simp: parse_backs.simps [of c s])
  next
    case False
    then show ?thesis using p peek_rest [OF p] skip_ws_shorter [of s] by (simp add: parse_backs.simps [of c s])
  qed
qed

lemma parse_args_rest: "parse_args args rs s = Ok (args', rs', r) \<Longrightarrow> length r \<le> length s"
proof (induction args rs s rule: parse_args.induct)
  case (1 args rs s)
  obtain f s0 where p: "peek [124, 41, 38, 59] s = (f, s0)" by (cases "peek [124, 41, 38, 59] s")
  obtain tok q s1 where g: "gettoken s0 = (tok, q, s1)" by (cases "gettoken s0")
  have l: "length s0 \<le> length s" "length s1 \<le> length s0" using peek_rest [OF p] skip_ws_shorter [of s] gettoken_rest(1) [OF g] by simp_all
  show ?case
  proof (cases "f \<or> tok = 0")
    case True
    then show ?thesis using 1(2) l by (auto simp: parse_args.simps [of args rs s] p g split: if_splits)
  next
    case False
    then obtain rs1 s2 where r: "parseredirs rs s1 = Ok (rs1, s2)" "parse_args (args @ [q]) rs1 s2 = Ok (args', rs', r)" "tok = 97" "\<not> length args + 1 \<ge> MAXARGS"
      using 1(2) by (auto simp: parse_args.simps [of args rs s] p g split: if_splits)
    have "length r \<le> length s2" using 1(1) [OF p [symmetric] _ g [symmetric] refl _ _ _ r(1) refl] False r by simp
    then show ?thesis using parseredirs_rest [OF r(1)] l by simp
  qed
qed

lemma skip_token_peek: "peek toks s = (True, s0) \<Longrightarrow> length (skip_token s0) < length s"
  unfolding skip_token_def by (cases "gettoken s0") (auto intro: peek_shorter)

lemma peek_le: "peek toks s = (b, s0) \<Longrightarrow> length s0 \<le> length s"
  using peek_rest skip_ws_shorter [of s] by auto

text \<open>An outcome that is a result, which gives back at most \<open>k\<close> characters, or one of the parser's messages.\<close>

definition syntax_errors :: "string set" where
  "syntax_errors = {''syntax'', ''missing file for redirection'', ''too many args'', ''syntax - missing )'', ''parseblock''}"

definition fine :: "nat \<Rightarrow> ('a \<times> byte list) res \<Rightarrow> bool" where
  "fine k x \<longleftrightarrow> (case x of Ok (c, r) \<Rightarrow> length r \<le> k | Panic m \<Rightarrow> m \<in> syntax_errors | _ \<Rightarrow> False)"

lemma fine_bind: "fine j x \<Longrightarrow> (\<And>c r. length r \<le> j \<Longrightarrow> fine k (f (c, r))) \<Longrightarrow> fine k (bind_res x f)"
  by (cases x) (auto simp: fine_def)

lemma fine_simps [simp]: "fine k (Ok (c, r)) \<longleftrightarrow> length r \<le> k" "fine k (Panic m) \<longleftrightarrow> m \<in> syntax_errors"
  by (auto simp: fine_def)

lemma fine_mono: "fine j x \<Longrightarrow> j \<le> k \<Longrightarrow> fine k x"
  by (auto simp: fine_def split: res.splits)

lemma fine_redirs: "length s \<le> k \<Longrightarrow> fine k (parseredirs rs s)"
proof (induction rs s rule: parseredirs.induct)
  case (1 rs s)
  obtain f s0 where p: "peek [60, 62] s = (f, s0)" by (cases "peek [60, 62] s")
  obtain tok w s1 where g: "gettoken s0 = (tok, w, s1)" by (cases "gettoken s0")
  obtain a q s2 where h: "gettoken s1 = (a, q, s2)" by (cases "gettoken s1")
  have l: "length s0 \<le> k" "length s2 \<le> k"
    using peek_rest [OF p] skip_ws_shorter [of s] gettoken_rest(1) [OF g] gettoken_rest(1) [OF h] 1(2) by simp_all
  show ?case
    using 1(1) [OF p [symmetric] _ g [symmetric] refl h [symmetric] refl] l
    by (auto simp: parseredirs.simps [of rs s] p g h syntax_errors_def)
qed

lemma fine_args: "length s \<le> k \<Longrightarrow> fine k (bind_res (parse_args args rs s) (\<lambda>(args, rs, s). Ok (x args rs, s)))"
proof (induction args rs s rule: parse_args.induct)
  case (1 args rs s)
  obtain f s0 where p: "peek [124, 41, 38, 59] s = (f, s0)" by (cases "peek [124, 41, 38, 59] s")
  obtain tok q s1 where g: "gettoken s0 = (tok, q, s1)" by (cases "gettoken s0")
  have l: "length s0 \<le> k" "length s1 \<le> k" using peek_rest [OF p] skip_ws_shorter [of s] gettoken_rest(1) [OF g] 1(2) by simp_all
  show ?case
  proof (cases "f \<or> tok = 0 \<or> tok \<noteq> 97 \<or> length args + 1 \<ge> MAXARGS")
    case True
    then show ?thesis using l by (auto simp: parse_args.simps [of args rs s] p g syntax_errors_def)
  next
    case False
    have "fine k (parseredirs rs s1)" by (rule fine_redirs [OF l(2)])
    then show ?thesis
      using 1(1) [OF p [symmetric] _ g [symmetric] refl] False
      by (cases "parseredirs rs s1") (auto simp: parse_args.simps [of args rs s] p g fine_def)
  qed
qed

lemma fine_peek:
  "length s \<le> k \<Longrightarrow> (\<And>s0. length s0 \<le> k \<Longrightarrow> length (skip_token s0) < k \<Longrightarrow> fine k (f True s0)) \<Longrightarrow> (\<And>s0. length s0 \<le> k \<Longrightarrow> fine k (f False s0))
   \<Longrightarrow> fine k (case peek toks s of (found, s) \<Rightarrow> f found s)"
  using peek_le [of toks s] skip_token_peek [of toks s] by (cases "peek toks s"; cases "fst (peek toks s)") fastforce+

text \<open>With four units of fuel for every character, no call runs out, and no call gives back more than it got.\<close>

lemma parser_fine:
  "n \<ge> 4 * length s + 4 \<Longrightarrow> length s \<le> k \<Longrightarrow> fine k (parseline n s)"
  "n \<ge> 4 * length s + 3 \<Longrightarrow> length s \<le> k \<Longrightarrow> fine k (parsepipe n s)"
  "n \<ge> 4 * length s + 2 \<Longrightarrow> length s \<le> k \<Longrightarrow> fine k (parseexec n s)"
  "n \<ge> 4 * length s + 1 \<Longrightarrow> length s \<le> k \<Longrightarrow> fine k (parseblock n s)"
proof (induction n arbitrary: s k)
  case (Suc n)
  {
    case 1
    have "fine (length s) (parsepipe n s)" using Suc(2) [of s "length s"] 1 by simp
    then show ?case
      unfolding parseline.simps
    proof (rule fine_bind, simp only: prod.case)
      fix c and r :: "byte list"
      assume r: "length r \<le> length s"
      obtain c1 s1 where b: "parse_backs c r = (c1, s1)" by (cases "parse_backs c r")
      have l: "length s1 \<le> k" "length s1 \<le> length s" using r parse_backs_rest [of c r] b 1 by simp_all
      have "fine (length s) (case peek [59] s1 of (found, s) \<Rightarrow>
          if found then bind_res (parseline n (skip_token s)) (\<lambda>(r, s). Ok (LIST c1 r, s)) else Ok (c1, s))"
        by (rule fine_peek [OF l(2)]) (use Suc(1) 1 in \<open>auto intro!: fine_bind [where j = "length s"]\<close>)
      then show "fine k (case parse_backs c r of (c, s) \<Rightarrow> case peek [59] s of (found, s) \<Rightarrow>
          if found then bind_res (parseline n (skip_token s)) (\<lambda>(r, s). Ok (LIST c r, s)) else Ok (c, s))"
        using fine_mono [OF _ 1(2)] by (simp add: b)
    qed
  next
    case 2
    have "fine (length s) (parseexec n s)" using Suc(3) [of s "length s"] 2 by simp
    then have "fine (length s) (parsepipe (Suc n) s)"
      unfolding parsepipe.simps
      by (rule fine_bind) (use Suc(2) 2 in \<open>auto intro!: fine_peek fine_bind [where j = "length s"]\<close>)
    then show ?case using 2(2) by (rule fine_mono)
  next
    case 3
    have "fine (length s) (parseexec (Suc n) s)"
      unfolding parseexec.simps
      by (rule fine_peek) (use Suc(4) 3 fine_redirs fine_args in \<open>auto intro!: fine_bind [where j = "length s"]\<close>)
    then show ?case using 3(2) by (rule fine_mono)
  next
    case 4
    have "fine (length s) (parseblock (Suc n) s)"
      unfolding parseblock.simps
      by (rule fine_peek) (use Suc(1) 4 fine_redirs syntax_errors_def in \<open>auto intro!: fine_bind [where j = "length s"] fine_peek\<close>)
    then show ?case using 4(2) by (rule fine_mono)
  }
qed simp_all

text \<open>
  C23. The parser of the shell ends on every line: with fuel for four nested calls per character the recursive
  descent never runs out, so the result is a command or one of its five error messages.
\<close>

theorem parser_terminates:
  "(\<exists>c. parsecmd s = Ok c) \<or> (\<exists>m \<in> syntax_errors. parsecmd s = Panic m)"
proof -
  have "fine (length s) (parseline (parse_fuel s) s)" by (rule parser_fine(1)) (simp_all add: parse_fuel_def)
  then show ?thesis
    by (auto simp: parsecmd_def fine_def syntax_errors_def split: res.splits prod.splits if_splits)
qed

end
