(* ===== verification/Sh_Print.thy ===== *)
theory Sh_Print
  imports Sh_Parse
begin

text \<open>A printer for the shell's commands, and that the parser reads back what it prints.\<close>

section \<open>The printer\<close>

definition word_ok :: "byte list \<Rightarrow> bool" where
  "word_ok w \<longleftrightarrow> w \<noteq> [] \<and> (\<forall>c \<in> set w. word_char c)"

definition pr_redir :: "redir \<Rightarrow> byte list" where
  "pr_redir r = (case r of (f, mode, fd) \<Rightarrow> (if fd = 0 then 60 else 62) # 32 # f @ [32])"

definition pr_words :: "byte list list \<Rightarrow> byte list" where
  "pr_words ws = concat (map (\<lambda>w. w @ [32]) ws)"

definition pr_redirs :: "redir list \<Rightarrow> byte list" where
  "pr_redirs rs = concat (map pr_redir rs)"

definition parens :: "bool \<Rightarrow> byte list \<Rightarrow> byte list" where
  "parens b t = (if b then 40 # 32 # t @ [41, 32] else t)"

text \<open>The levels are those of \<^verbatim>\<open>parseexec\<close>, \<^verbatim>\<open>parsepipe\<close>, the background marks, and \<^verbatim>\<open>parseline\<close>; a command of a higher level is put in parentheses.\<close>

fun pr :: "nat \<Rightarrow> cmd \<Rightarrow> byte list" where
  "pr k (EXEC args) = pr_words args"
| "pr k (REDIR c f mode fd) = pr 0 c @ pr_redir (f, mode, fd)"
| "pr k (PIPE l r) = parens (k < 1) (pr 0 l @ 124 # 32 # pr 1 r)"
| "pr k (BACK c) = parens (k < 2) (pr 2 c @ [38, 32])"
| "pr k (LIST l r) = parens (k < 3) (pr 2 l @ 59 # 32 # pr 3 r)"

definition redir_ok :: "redir \<Rightarrow> bool" where
  "redir_ok r = (case r of (f, mode, fd) \<Rightarrow> word_ok f \<and> (mode = O_RDONLY \<and> fd = 0 \<or> mode = O_WRONLY_CREATE \<and> fd = 1))"

fun cmd_ok :: "cmd \<Rightarrow> bool" where
  "cmd_ok (EXEC args) \<longleftrightarrow> length args < MAXARGS \<and> (\<forall>w \<in> set args. word_ok w)"
| "cmd_ok (REDIR c f mode fd) \<longleftrightarrow> cmd_ok c \<and> redir_ok (f, mode, fd)"
| "cmd_ok (PIPE l r) \<longleftrightarrow> cmd_ok l \<and> cmd_ok r"
| "cmd_ok (BACK c) \<longleftrightarrow> cmd_ok c"
| "cmd_ok (LIST l r) \<longleftrightarrow> cmd_ok l \<and> cmd_ok r"

section \<open>Tokens of printed text\<close>

definition nows :: "byte list \<Rightarrow> bool" where
  "nows s \<longleftrightarrow> s = [] \<or> hd s \<notin> set whitespace"

lemma nows_Nil [simp]: "nows []"
  by (simp add: nows_def)

lemma skip_nows: "nows s \<Longrightarrow> skip_ws s = s"
  by (cases s) (auto simp: nows_def skip_ws_def)

lemma peek_nows: "nows s \<Longrightarrow> peek toks s = (s \<noteq> [] \<and> hd s \<in> set toks, s)"
  by (cases s) (auto simp: peek_def skip_nows)

lemma gettoken_word: "word_ok w \<Longrightarrow> nows t \<Longrightarrow> gettoken (w @ 32 # t) = (97, w, t)"
proof -
  assume w: "word_ok w" and t: "nows t"
  obtain c v where c: "w = c # v" using w by (cases w) (auto simp: word_ok_def)
  have wc: "word_char c" "\<forall>d \<in> set v. word_char d" using w c by (auto simp: word_ok_def)
  have "c \<notin> set whitespace" "c \<notin> {124, 40, 41, 59, 38, 60}" "c \<noteq> 62" using wc(1) by (auto simp: word_char_def symbols_def)
  moreover have sp: "\<not> word_char 32" "skip_ws (32 # t) = t" using skip_nows [OF t] by (auto simp: word_char_def whitespace_def skip_ws_def)
  ultimately show ?thesis using wc by (simp add: c gettoken_def skip_ws_def [of "c # _"])
qed

lemma gettoken_symbol: "c \<in> {124, 40, 41, 59, 38, 60, 62} \<Longrightarrow> nows t \<Longrightarrow> gettoken (c # 32 # t) = (c, [c], t)"
  using skip_nows [of t] by (auto simp: gettoken_def skip_ws_def whitespace_def)

lemma skip_token_symbol: "c \<in> {124, 40, 41, 59, 38, 60, 62} \<Longrightarrow> nows t \<Longrightarrow> skip_token (c # 32 # t) = t"
  by (simp add: skip_token_def gettoken_symbol)

lemma nows_symbol [simp]: "c \<in> {124, 40, 41, 59, 38, 60, 62} \<Longrightarrow> nows (c # t)"
  by (auto simp: nows_def whitespace_def)

lemma nows_word: "word_ok w \<Longrightarrow> nows (w @ t)"
  by (cases w) (auto simp: word_ok_def nows_def word_char_def)

lemma nows_redirs: "nows t \<Longrightarrow> nows (pr_redirs rs @ t)"
  by (cases rs) (auto simp: pr_redirs_def pr_redir_def split: prod.splits)

lemma nows_words: "\<forall>w \<in> set ws. word_ok w \<Longrightarrow> nows t \<Longrightarrow> nows (pr_words ws @ t)"
  by (cases ws) (auto simp: pr_words_def nows_word)

lemma nows_pr: "cmd_ok c \<Longrightarrow> nows t \<Longrightarrow> nows (pr k c @ t)"
proof (induction c arbitrary: k t)
  case (REDIR c f mode fd)
  have "nows (pr_redir (f, mode, fd) @ t)" by (simp add: pr_redir_def)
  then show ?case using REDIR by simp
qed (auto simp: parens_def nows_words)

section \<open>Reading back\<close>

lemma parse_redirs_back:
  "\<forall>r \<in> set rs. redir_ok r \<Longrightarrow> nows t \<Longrightarrow> t = [] \<or> hd t \<notin> {60, 62} \<Longrightarrow> parseredirs acc (pr_redirs rs @ t) = Ok (acc @ rs, t)"
proof (induction rs arbitrary: acc)
  case Nil
  then show ?case by (auto simp: pr_redirs_def parseredirs.simps [of acc t] peek_nows)
next
  case (Cons r rs)
  obtain f mode fd where r: "r = (f, mode, fd)" by (cases r)
  let ?c = "if fd = 0 then 60 else 62 :: byte"
  have ok: "word_ok f" "redir_of ?c f = r" using Cons.prems(1) by (auto simp: r redir_ok_def redir_of_def)
  have n: "nows (pr_redirs rs @ t)" by (rule nows_redirs [OF Cons.prems(2)])
  let ?s = "?c # 32 # f @ 32 # (pr_redirs rs @ t)"
  have s: "pr_redirs (r # rs) @ t = ?s" by (simp add: pr_redirs_def pr_redir_def r)
  have nf: "nows (f @ 32 # (pr_redirs rs @ t))" by (rule nows_word [OF ok(1)])
  have "parseredirs acc ?s = parseredirs (acc @ [r]) (pr_redirs rs @ t)"
    using gettoken_symbol [of ?c, OF _ nf] gettoken_word [OF ok(1) n] ok(2)
    by (auto simp: parseredirs.simps [of acc ?s] peek_nows split: if_splits)
  then show ?case using Cons by (simp add: s)
qed

definition stops :: "byte set \<Rightarrow> byte list \<Rightarrow> bool" where
  "stops cs t \<longleftrightarrow> t = [] \<or> hd t \<in> cs"

lemma stops_nows: "stops cs t \<Longrightarrow> cs \<subseteq> {124, 41, 38, 59} \<Longrightarrow> nows t"
  by (cases t) (auto simp: stops_def)

lemma stops_redir: "stops {124, 41, 38, 59} t \<Longrightarrow> t = [] \<or> hd t \<notin> {60, 62}"
  by (auto simp: stops_def)

lemma parse_args_end: "stops {124, 41, 38, 59} t \<Longrightarrow> parse_args args rs t = Ok (args, rs, t)"
proof (cases t)
  case Nil
  then show ?thesis by (simp add: parse_args.simps [of args rs] peek_def skip_ws_def gettoken_def)
next
  case (Cons c u)
  assume "stops {124, 41, 38, 59} t"
  then show ?thesis using Cons by (auto simp: parse_args.simps [of args rs] peek_nows stops_def)
qed

lemma parse_args_back:
  assumes "ws \<noteq> []" "length args + length ws < MAXARGS" "\<forall>w \<in> set ws. word_ok w" "\<forall>r \<in> set rs. redir_ok r" "stops {124, 41, 38, 59} t"
  shows "parse_args args [] (pr_words ws @ pr_redirs rs @ t) = Ok (args @ ws, rs, t)"
  using assms
proof (induction ws arbitrary: args)
  case (Cons w ws)
  note nt = stops_nows [OF Cons.prems(5) subset_refl]
  let ?r = "pr_words ws @ pr_redirs rs @ t"
  have w: "word_ok w" and nr: "nows ?r" using Cons.prems nows_words [of ws] nows_redirs [OF nt] by auto
  let ?s = "w @ 32 # ?r"
  have s: "pr_words (w # ws) @ pr_redirs rs @ t = ?s" by (simp add: pr_words_def)
  have hd: "hd w \<notin> {124, 41, 38, 59}" "w \<noteq> []" using w by (auto simp: word_ok_def word_char_def symbols_def)
  have step: "parse_args args [] ?s = bind_res (parseredirs [] ?r) (\<lambda>(rs, s2). parse_args (args @ [w]) rs s2)"
    using gettoken_word [OF w nr] nows_word [OF w] hd Cons.prems(2) by (auto simp: parse_args.simps [of args "[]" ?s] peek_nows)
  show ?case
  proof (cases ws)
    case Nil
    have "parseredirs [] ?r = Ok (rs, t)" using parse_redirs_back [OF Cons.prems(4) nt stops_redir [OF Cons.prems(5)], of "[]"] Nil by (simp add: pr_words_def)
    then show ?thesis unfolding s step using parse_args_end [OF Cons.prems(5)] Nil by simp
  next
    case (Cons v vs)
    have v: "word_ok v" using Cons.prems(3) Cons by simp
    have "hd v \<notin> {60, 62}" "v \<noteq> []" using v by (auto simp: word_ok_def word_char_def symbols_def)
    then have "?r = [] \<or> hd ?r \<notin> {60, 62}" using Cons by (simp add: pr_words_def)
    then have "parseredirs [] ?r = Ok ([], ?r)" using parse_redirs_back [of "[]" ?r "[]"] nr by (simp add: pr_redirs_def)
    then show ?thesis unfolding s step using Cons.IH [of "args @ [w]"] Cons.prems Cons by simp
  qed
qed simp

text \<open>The end of a line that background marks may still follow.\<close>

lemma backs_stop: "stops {41, 59} t \<Longrightarrow> parse_backs c t = (c, t)"
  using stops_nows [of "{41, 59}" t] by (auto simp: parse_backs.simps [of c t] peek_nows stops_def)

lemma backs_step: "nows t \<Longrightarrow> parse_backs c (38 # 32 # t) = parse_backs (BACK c) t"
  using gettoken_symbol [of 38 t] by (simp add: parse_backs.simps [of c "38 # 32 # t"] peek_nows)

text \<open>What reading back means at the four levels, for a given command.\<close>

definition back_exec :: "cmd \<Rightarrow> bool" where
  "back_exec c \<longleftrightarrow> (\<forall>n rs t. (\<forall>r \<in> set rs. redir_ok r) \<longrightarrow> stops {124, 41, 38, 59} t \<longrightarrow> n \<ge> 4 * length (pr 0 c @ pr_redirs rs @ t) + 2
     \<longrightarrow> parseexec n (pr 0 c @ pr_redirs rs @ t) = Ok (foldl redircmd c rs, t))"

definition back_pipe :: "cmd \<Rightarrow> bool" where
  "back_pipe c \<longleftrightarrow> (\<forall>n t. stops {41, 38, 59} t \<longrightarrow> n \<ge> 4 * length (pr 1 c @ t) + 3 \<longrightarrow> parsepipe n (pr 1 c @ t) = Ok (c, t))"

definition back_back :: "cmd \<Rightarrow> bool" where
  "back_back c \<longleftrightarrow> (\<forall>n t. stops {41, 38, 59} t \<longrightarrow> n \<ge> 4 * length (pr 2 c @ t) + 3
     \<longrightarrow> (\<exists>d u. parsepipe n (pr 2 c @ t) = Ok (d, u) \<and> parse_backs d u = parse_backs c t))"

definition back_line :: "cmd \<Rightarrow> bool" where
  "back_line c \<longleftrightarrow> (\<forall>n t. stops {41} t \<longrightarrow> n \<ge> 4 * length (pr 3 c @ t) + 4 \<longrightarrow> parseline n (pr 3 c @ t) = Ok (c, t))"

lemma exec_pipe:
  assumes e: "back_exec c" and p: "pr 1 c = pr 0 c"
  shows "back_pipe c"
  unfolding back_pipe_def
proof (intro allI impI)
  fix n t
  assume t: "stops {41, 38, 59} t" and n: "n \<ge> 4 * length (pr 1 c @ t) + 3"
  obtain m where m: "n = Suc m" "m \<ge> 4 * length (pr 0 c @ t) + 2" using n p by (cases n) auto
  have "stops {124, 41, 38, 59} t" using t by (auto simp: stops_def)
  then have "parseexec m (pr 0 c @ t) = Ok (c, t)" using e m(2) unfolding back_exec_def by (metis append_Nil concat.simps(1) empty_iff foldl_Nil list.set(1) list.simps(8) pr_redirs_def)
  then show "parsepipe n (pr 1 c @ t) = Ok (c, t)"
    unfolding p m(1) using t stops_nows [OF t] by (auto simp: peek_nows stops_def)
qed

lemma pipe_pipe:
  assumes l: "back_exec l" and r: "back_pipe r" and ok: "cmd_ok r"
  shows "back_pipe (PIPE l r)"
  unfolding back_pipe_def
proof (intro allI impI)
  fix n t
  assume t: "stops {41, 38, 59} t" and n: "n \<ge> 4 * length (pr 1 (PIPE l r) @ t) + 3"
  let ?u = "124 # 32 # pr 1 r @ t"
  have s: "pr 1 (PIPE l r) @ t = pr 0 l @ ?u" by (simp add: parens_def)
  obtain m where m: "n = Suc m" "m \<ge> 4 * length (pr 0 l @ ?u) + 2" using n s by (cases n) auto
  have "stops {124, 41, 38, 59} ?u" by (simp add: stops_def)
  then have 1: "parseexec m (pr 0 l @ ?u) = Ok (l, ?u)"
    using l m(2) unfolding back_exec_def by (metis append_Nil concat.simps(1) empty_iff foldl_Nil list.set(1) list.simps(8) pr_redirs_def)
  have nr: "nows (pr 1 r @ t)" by (rule nows_pr [OF ok stops_nows [OF t]]) simp
  have "m \<ge> 4 * length (pr 1 r @ t) + 3" using m(2) by simp
  then have 2: "parsepipe m (pr 1 r @ t) = Ok (r, t)" using r t unfolding back_pipe_def by blast
  show "parsepipe n (pr 1 (PIPE l r) @ t) = Ok (PIPE l r, t)"
    unfolding s m(1) parsepipe.simps 1 using 2 skip_token_symbol [of 124, OF _ nr] by (simp add: peek_nows)
qed

lemma pipe_back:
  assumes "back_pipe c" "pr 2 c = pr 1 c"
  shows "back_back c"
  using assms unfolding back_pipe_def back_back_def by auto

lemma back_back_step:
  assumes b: "back_back c"
  shows "back_back (BACK c)"
  unfolding back_back_def
proof (intro allI impI)
  fix n t
  assume t: "stops {41, 38, 59} t" and n: "n \<ge> 4 * length (pr 2 (BACK c) @ t) + 3"
  have s: "pr 2 (BACK c) @ t = pr 2 c @ 38 # 32 # t" by (simp add: parens_def)
  have "stops {41, 38, 59} (38 # 32 # t)" by (simp add: stops_def)
  then obtain d u where "parsepipe n (pr 2 c @ 38 # 32 # t) = Ok (d, u)" "parse_backs d u = parse_backs c (38 # 32 # t)"
    using b n unfolding back_back_def s by blast
  moreover have "nows t" using stops_nows [OF t] by simp
  ultimately show "\<exists>d u. parsepipe n (pr 2 (BACK c) @ t) = Ok (d, u) \<and> parse_backs d u = parse_backs (BACK c) t"
    unfolding s using backs_step by auto
qed

lemma back_line_plain:
  assumes b: "back_back c" and p: "pr 3 c = pr 2 c"
  shows "back_line c"
  unfolding back_line_def
proof (intro allI impI)
  fix n t
  assume t: "stops {41} t" and n: "n \<ge> 4 * length (pr 3 c @ t) + 4"
  obtain m where m: "n = Suc m" "m \<ge> 4 * length (pr 2 c @ t) + 3" using n p by (cases n) auto
  have "stops {41, 38, 59} t" "stops {41, 59} t" using t by (auto simp: stops_def)
  then obtain d u where "parsepipe m (pr 2 c @ t) = Ok (d, u)" "parse_backs d u = (c, t)"
    using b m(2) backs_stop unfolding back_back_def by metis
  then show "parseline n (pr 3 c @ t) = Ok (c, t)"
    using t stops_nows [OF t] by (auto simp: m(1) p peek_nows stops_def)
qed

lemma back_line_list:
  assumes l: "back_back l" and r: "back_line r" and ok: "cmd_ok r"
  shows "back_line (LIST l r)"
  unfolding back_line_def
proof (intro allI impI)
  fix n t
  assume t: "stops {41} t" and n: "n \<ge> 4 * length (pr 3 (LIST l r) @ t) + 4"
  let ?u = "59 # 32 # pr 3 r @ t"
  have s: "pr 3 (LIST l r) @ t = pr 2 l @ ?u" by (simp add: parens_def)
  obtain m where m: "n = Suc m" "m \<ge> 4 * length (pr 2 l @ ?u) + 3" using n s by (cases n) auto
  have st: "stops {41, 38, 59} ?u" "stops {41, 59} ?u" by (simp_all add: stops_def)
  then obtain d u where 1: "parsepipe m (pr 2 l @ ?u) = Ok (d, u)" "parse_backs d u = (l, ?u)"
    using l m(2) backs_stop [of ?u] unfolding back_back_def by metis
  have nr: "nows (pr 3 r @ t)" by (rule nows_pr [OF ok stops_nows [OF t]]) simp
  have "m \<ge> 4 * length (pr 3 r @ t) + 4" using m(2) by simp
  then have 2: "parseline m (pr 3 r @ t) = Ok (r, t)" using r t unfolding back_line_def by blast
  show "parseline n (pr 3 (LIST l r) @ t) = Ok (LIST l r, t)"
    unfolding s m(1) parseline.simps 1(1) using 1(2) 2 skip_token_symbol [of 59, OF _ nr] by (simp add: peek_nows)
qed

lemma back_exec_block:
  assumes l: "back_line c" and p: "pr 0 c = 40 # 32 # pr 3 c @ [41, 32]" and ok: "cmd_ok c"
  shows "back_exec c"
  unfolding back_exec_def
proof (intro allI impI)
  fix n rs t
  assume rs: "\<forall>r \<in> set rs. redir_ok r" and t: "stops {124, 41, 38, 59} t" and n: "n \<ge> 4 * length (pr 0 c @ pr_redirs rs @ t) + 2"
  have nt: "nows t" using stops_nows [OF t] by simp
  let ?u = "41 # 32 # pr_redirs rs @ t"
  have s: "pr 0 c @ pr_redirs rs @ t = 40 # 32 # pr 3 c @ ?u" by (simp add: p)
  obtain m where m: "n = Suc (Suc m)" "m \<ge> 4 * length (pr 3 c @ ?u) + 4" using n s by (cases n rule: nat.exhaust; cases "n - 1") auto
  have nu: "nows (pr 3 c @ ?u)" by (rule nows_pr [OF ok]) simp
  have 1: "parseline m (pr 3 c @ ?u) = Ok (c, ?u)" using l m(2) unfolding back_line_def by (simp add: stops_def)
  have 2: "parseredirs [] (pr_redirs rs @ t) = Ok (rs, t)" using parse_redirs_back [OF rs nt stops_redir [OF t], of "[]"] by simp
  show "parseexec n (pr 0 c @ pr_redirs rs @ t) = Ok (foldl redircmd c rs, t)"
    unfolding s m(1) using 1 2 skip_token_symbol [of 40, OF _ nu] skip_token_symbol [of 41, OF _ nows_redirs [OF nt]]
    by (simp add: peek_nows)
qed

lemma back_exec_simple:
  assumes ok: "cmd_ok (EXEC args)"
  shows "back_exec (EXEC args)"
  unfolding back_exec_def
proof (intro allI impI)
  fix n rs t
  assume rs: "\<forall>r \<in> set rs. redir_ok r" and t: "stops {124, 41, 38, 59} t" and n: "n \<ge> 4 * length (pr 0 (EXEC args) @ pr_redirs rs @ t) + 2"
  let ?s = "pr_words args @ pr_redirs rs @ t"
  have nt: "nows t" using stops_nows [OF t] by simp
  have ns: "nows ?s" using nows_words [of args] nows_redirs [OF nt] ok by simp
  obtain m where m: "n = Suc m" using n by (cases n) auto
  have nopar: "\<not> (?s \<noteq> [] \<and> hd ?s = 40)"
  proof (cases args)
    case Nil
    then show ?thesis using t by (cases rs) (auto simp: pr_words_def pr_redirs_def pr_redir_def stops_def split: prod.splits)
  next
    case (Cons w ws)
    then have "word_ok w" using ok by simp
    then have "hd w \<noteq> 40" "w \<noteq> []" by (auto simp: word_ok_def word_char_def symbols_def)
    then show ?thesis using Cons by (simp add: pr_words_def)
  qed
  have "bind_res (parseredirs [] ?s) (\<lambda>(rs, s). parse_args [] rs s) = Ok (args, rs, t)"
  proof (cases "args = []")
    case True
    then show ?thesis using parse_redirs_back [OF rs nt stops_redir [OF t], of "[]"] parse_args_end [OF t] by (simp add: pr_words_def)
  next
    case False
    obtain w ws where w: "args = w # ws" using False by (cases args) auto
    have "word_ok w" using ok w by simp
    then have "hd w \<notin> {60, 62}" "w \<noteq> []" by (auto simp: word_ok_def word_char_def symbols_def)
    then have "?s = [] \<or> hd ?s \<notin> {60, 62}" using w by (simp add: pr_words_def)
    then have "parseredirs [] ?s = Ok ([], ?s)" using parse_redirs_back [of "[]" ?s "[]"] ns by (simp add: pr_redirs_def)
    then show ?thesis using parse_args_back [OF False, of "[]"] ok rs t by simp
  qed
  then show "parseexec n (pr 0 (EXEC args) @ pr_redirs rs @ t) = Ok (foldl redircmd (EXEC args) rs, t)"
    using ns nopar by (auto simp: m peek_nows)
qed

lemma back_exec_redir:
  assumes "back_exec c" "redir_ok (f, mode, fd)"
  shows "back_exec (REDIR c f mode fd)"
  unfolding back_exec_def
proof (intro allI impI)
  fix n rs t
  assume a: "\<forall>r \<in> set rs. redir_ok r" "stops {124, 41, 38, 59} t" "n \<ge> 4 * length (pr 0 (REDIR c f mode fd) @ pr_redirs rs @ t) + 2"
  have s: "pr 0 (REDIR c f mode fd) @ pr_redirs rs @ t = pr 0 c @ pr_redirs ((f, mode, fd) # rs) @ t" by (simp add: pr_redirs_def)
  have "parseexec n (pr 0 c @ pr_redirs ((f, mode, fd) # rs) @ t) = Ok (foldl redircmd c ((f, mode, fd) # rs), t)"
    using assms a unfolding back_exec_def s by simp
  then show "parseexec n (pr 0 (REDIR c f mode fd) @ pr_redirs rs @ t) = Ok (foldl redircmd (REDIR c f mode fd) rs, t)"
    unfolding s by (simp add: redircmd_def)
qed

lemma reads_back: "cmd_ok c \<Longrightarrow> back_exec c \<and> back_pipe c \<and> back_back c \<and> back_line c"
proof (induction c)
  case (EXEC args)
  note e = back_exec_simple [OF EXEC]
  note p = exec_pipe [OF e]
  note b = pipe_back [OF p]
  show ?case using e p b back_line_plain [OF b] by simp
next
  case (REDIR c f mode fd)
  then have e: "back_exec (REDIR c f mode fd)" using back_exec_redir by simp
  note p = exec_pipe [OF e]
  note b = pipe_back [OF p]
  show ?case using e p b back_line_plain [OF b] by simp
next
  case (PIPE l r)
  then have p: "back_pipe (PIPE l r)" using pipe_pipe by simp
  note b = pipe_back [OF p]
  note l = back_line_plain [OF b]
  show ?case using p b l back_exec_block [OF l] PIPE by (simp add: parens_def)
next
  case (LIST l r)
  then have li: "back_line (LIST l r)" using back_line_list by simp
  have e: "back_exec (LIST l r)" by (rule back_exec_block [OF li]) (use LIST in \<open>simp_all add: parens_def\<close>)
  note p = exec_pipe [OF e]
  note b = pipe_back [OF p]
  show ?case using e p b li by (simp add: parens_def)
next
  case (BACK c)
  then have b: "back_back (BACK c)" using back_back_step by simp
  note li = back_line_plain [OF b]
  have e: "back_exec (BACK c)" by (rule back_exec_block) (use BACK li in \<open>simp_all add: parens_def\<close>)
  show ?case using e b li exec_pipe [OF e] by (simp add: parens_def)
qed

lemma parseline_pr: "cmd_ok c \<Longrightarrow> parseline (parse_fuel (pr 3 c)) (pr 3 c) = Ok (c, [])"
proof -
  assume "cmd_ok c"
  then have "parseline (parse_fuel (pr 3 c)) (pr 3 c @ []) = Ok (c, [])"
    using reads_back unfolding back_line_def by (simp add: parse_fuel_def stops_def)
  then show ?thesis by simp
qed

text \<open>
  C24. The shell's parser reads back what the printer writes: every command, of simple commands with fewer than
  ten arguments, redirections, pipelines, background commands and lists nested in any way, is the
  result of parsing its text, with precedence and grouping as the printer's parentheses say.
\<close>

theorem parse_print_roundtrip:
  assumes "cmd_ok c"
  shows "parsecmd (pr 3 c) = Ok c"
  using parseline_pr [OF assms] by (simp add: parsecmd_def peek_def skip_ws_def)

theorem parse_print_roundtrip_witness:
  "parsecmd [97, 32, 60, 32, 98, 32, 124, 32, 99, 32, 59, 32, 100, 32, 38, 32]
     = Ok (LIST (PIPE (REDIR (EXEC [[97]]) [98] O_RDONLY 0) (EXEC [[99]])) (BACK (EXEC [[100]])))"
proof -
  let ?c = "LIST (PIPE (REDIR (EXEC [[97]]) [98] O_RDONLY 0) (EXEC [[99]])) (BACK (EXEC [[100]]))"
  have "cmd_ok ?c" by (simp add: MAXARGS_def redir_ok_def word_ok_def word_char_def whitespace_def symbols_def)
  from parse_print_roundtrip [OF this] show ?thesis by (simp add: parens_def pr_words_def pr_redir_def)
qed

end
