(* ===== verification/Sh_Run.thy ===== *)
theory Sh_Run
  imports Sh_Parse
begin

text \<open>
  \<^verbatim>\<open>runcmd\<close> of \<^verbatim>\<open>src/sh.c\<close>: the system calls that a shell process makes to run a parsed command, as a tree that branches on the
  results that the code tests, and what the calls do with the file descriptors.
\<close>

section \<open>The calls of runcmd\<close>

text \<open>A descriptor that the code names: a number, or \<^verbatim>\<open>p[0]\<close> and \<^verbatim>\<open>p[1]\<close> of the last \<^verbatim>\<open>pipe(p)\<close>.\<close>

datatype fdref = Fd nat | P0 | P1

text \<open>
  \<open>Stat\<close> branches on: no such file, a directory, another file. \<open>Open\<close> and \<open>Pipe\<close> branch on failure and success, \<open>Fork\<close> on
  failure, the child and the parent. \<open>Exec\<close> goes on only when it fails.
\<close>

datatype act =
    Exit
  | Print string act
  | Stat "byte list" act act act
  | Exec "byte list" "byte list list" act
  | Close fdref act
  | Dup fdref act
  | Open "byte list" "32 word" act act
  | Pipe act act
  | Fork act act act
  | Wait act

definition panic :: "string \<Rightarrow> act" where
  "panic s = Print (s @ [CHR 0x0A]) Exit"

definition fork1 :: "act \<Rightarrow> act \<Rightarrow> act" where
  "fork1 child parent = Fork (panic ''fork'') child parent"

definition bin_path :: "byte list \<Rightarrow> byte list" where
  "bin_path w = [47, 98, 105, 110, 47] @ w"

text \<open>The message about a file that cannot be opened is printed with its name.\<close>

definition open_failed :: "byte list \<Rightarrow> string" where
  "open_failed f = ''open '' @ map (\<lambda>b. char_of (unat b)) f @ '' failed'' @ [CHR 0x0A]"

definition run_exec :: "byte list list \<Rightarrow> act" where
  "run_exec argv =
     (if argv = [] then Exit
      else let w = hd argv;
               bin = Stat (bin_path w) (Print (''sh: unknown command'' @ [CHR 0x0A]) Exit)
                       (Exec (bin_path w) argv Exit) (Exec (bin_path w) argv Exit)
           in Stat w bin bin (Exec w argv Exit))"

fun runcmd :: "cmd \<Rightarrow> act" where
  "runcmd (EXEC argv) = run_exec argv"
| "runcmd (REDIR c file mode fd) = Close (Fd fd) (Open file mode (Print (open_failed file) Exit) (runcmd c))"
| "runcmd (LIST l r) = fork1 (runcmd l) (Wait (runcmd r))"
| "runcmd (PIPE l r) =
     Pipe (panic ''pipe'')
       (fork1 (Close (Fd 1) (Dup P1 (Close P0 (Close P1 (runcmd l)))))
       (fork1 (Close (Fd 0) (Dup P0 (Close P0 (Close P1 (runcmd r)))))
         (Close P0 (Close P1 (Wait (Wait Exit))))))"
| "runcmd (BACK c) = fork1 (runcmd c) Exit"

section \<open>Descriptors\<close>

text \<open>
  What a descriptor refers to: something that the shell was given, a file opened by name, or an end of a
  pipe. A pipe is named after the process that makes it, and a process after the forks that lead to it.
\<close>

type_synonym pname = "bool list"

datatype desc = Given nat | Opened "byte list" "32 word" | ReadEnd pname | WriteEnd pname

type_synonym fds = "desc option list"

datatype fkind = Absent | Dir | Other

text \<open>What the files are like: the kind of a path, and whether it can be opened in a mode.\<close>

record files =
  f_stat :: "byte list \<Rightarrow> fkind"
  f_open :: "byte list \<Rightarrow> 32 word \<Rightarrow> bool"

definition new_fd :: "desc \<Rightarrow> fds \<Rightarrow> (nat \<times> fds) option" where
  "new_fd d fs = map_option (\<lambda>i. (i, fs[i := Some d])) (first_idx (\<lambda>x. x = None) fs)"

definition fd_num :: "nat \<times> nat \<Rightarrow> fdref \<Rightarrow> nat" where
  "fd_num p x = (case x of Fd n \<Rightarrow> n | P0 \<Rightarrow> fst p | P1 \<Rightarrow> snd p)"

text \<open>
  The programs that a process and its children start, in the order of the forks, each with its path, arguments and
  descriptors. Forks succeed here; \<open>open\<close>, \<open>dup\<close> and \<open>pipe\<close> take the lowest free descriptors.
\<close>

fun run :: "files \<Rightarrow> pname \<Rightarrow> nat \<times> nat \<Rightarrow> fds \<Rightarrow> act \<Rightarrow> (byte list \<times> byte list list \<times> fds) list" where
  "run F q p fs Exit = []"
| "run F q p fs (Print s a) = run F q p fs a"
| "run F q p fs (Stat w a b c) = (case f_stat F w of Absent \<Rightarrow> run F q p fs a | Dir \<Rightarrow> run F q p fs b | Other \<Rightarrow> run F q p fs c)"
| "run F q p fs (Exec w argv a) = [(w, argv, fs)]"
| "run F q p fs (Close x a) = run F q p (fs[fd_num p x := None]) a"
| "run F q p fs (Dup x a) =
     (case fs ! fd_num p x of
        None \<Rightarrow> run F q p fs a
      | Some d \<Rightarrow> (case new_fd d fs of None \<Rightarrow> run F q p fs a | Some (i, fs) \<Rightarrow> run F q p fs a))"
| "run F q p fs (Open f m a b) =
     (if \<not> f_open F f m then run F q p fs a
      else case new_fd (Opened f m) fs of None \<Rightarrow> run F q p fs a | Some (i, fs) \<Rightarrow> run F q p fs b)"
| "run F q p fs (Pipe a b) =
     (case new_fd (ReadEnd q) fs of
        None \<Rightarrow> run F q p fs a
      | Some (i, fs') \<Rightarrow>
          (case new_fd (WriteEnd q) fs' of None \<Rightarrow> run F q p fs a | Some (j, fs') \<Rightarrow> run F q (i, j) fs' b))"
| "run F q p fs (Fork a b c) = run F (q @ [True]) p fs b @ run F (q @ [False]) p fs c"
| "run F q p fs (Wait a) = run F q p fs a"

section \<open>What a command means\<close>

text \<open>The program that a name stands for: a file that is not a directory, or a file under \<^verbatim>\<open>/bin\<close>.\<close>

definition resolve :: "files \<Rightarrow> byte list \<Rightarrow> byte list option" where
  "resolve F w =
     (if f_stat F w = Other then Some w else if f_stat F (bin_path w) \<noteq> Absent then Some (bin_path w) else None)"

fun denote :: "files \<Rightarrow> pname \<Rightarrow> fds \<Rightarrow> cmd \<Rightarrow> (byte list \<times> byte list list \<times> fds) list" where
  "denote F q fs (EXEC []) = []"
| "denote F q fs (EXEC (w # ws)) = (case resolve F w of None \<Rightarrow> [] | Some b \<Rightarrow> [(b, w # ws, fs)])"
| "denote F q fs (REDIR c f m fd) = (if f_open F f m then denote F q (fs[fd := Some (Opened f m)]) c else [])"
| "denote F q fs (LIST l r) = denote F (q @ [True]) fs l @ denote F (q @ [False]) fs r"
| "denote F q fs (PIPE l r) =
     denote F (q @ [True]) (fs[1 := Some (WriteEnd q)]) l @ denote F (q @ [False, True]) (fs[0 := Some (ReadEnd q)]) r"
| "denote F q fs (BACK c) = denote F (q @ [True]) fs c"

text \<open>Redirections of the standard input and output only, as the parser makes them.\<close>

fun std_redirs :: "cmd \<Rightarrow> bool" where
  "std_redirs (EXEC argv) = True"
| "std_redirs (REDIR c f m fd) = (fd \<le> 1 \<and> std_redirs c)"
| "std_redirs (LIST l r) = (std_redirs l \<and> std_redirs r)"
| "std_redirs (PIPE l r) = (std_redirs l \<and> std_redirs r)"
| "std_redirs (BACK c) = std_redirs c"

definition std_open :: "fds \<Rightarrow> bool" where
  "std_open fs \<longleftrightarrow> 2 \<le> length fs \<and> fs ! 0 \<noteq> None \<and> fs ! 1 \<noteq> None
     \<and> (\<exists>i j. i < j \<and> j < length fs \<and> fs ! i = None \<and> fs ! j = None)"

section \<open>Lemmas\<close>

lemma new_fd_lowest: "i < length fs \<Longrightarrow> fs ! i = None \<Longrightarrow> \<forall>j<i. fs ! j \<noteq> None \<Longrightarrow> new_fd d fs = Some (i, fs[i := Some d])"
proof -
  assume "i < length fs" "fs ! i = None" "\<forall>j<i. fs ! j \<noteq> None"
  then have "first_idx (\<lambda>x. x = None) fs = Some i" by (auto simp: first_idx_Some)
  then show ?thesis by (simp add: new_fd_def)
qed

text \<open>A closed standard descriptor is the one that the next call takes.\<close>

lemma new_fd_std:
  assumes "std_open fs" and "fd \<le> 1"
  shows "new_fd d (fs[fd := None]) = Some (fd, fs[fd := Some d])"
proof -
  have "fd < length fs" "\<forall>j<fd. fs ! j \<noteq> None" using assms by (auto simp: std_open_def le_Suc_eq)
  then have "new_fd d (fs[fd := None]) = Some (fd, fs[fd := None, fd := Some d])"
    by (intro new_fd_lowest) auto
  then show ?thesis by simp
qed

lemma std_open_set: "std_open fs \<Longrightarrow> fd \<le> 1 \<Longrightarrow> std_open (fs[fd := Some d])"
proof -
  assume s: "std_open fs" and fd: "fd \<le> 1"
  obtain i j where ij: "i < j" "j < length fs" "fs ! i = None" "fs ! j = None" using s by (auto simp: std_open_def)
  then have "i \<noteq> fd" "j \<noteq> fd" using s fd by (auto simp: std_open_def le_Suc_eq)
  then have "\<exists>i j. i < j \<and> j < length (fs[fd := Some d]) \<and> fs[fd := Some d] ! i = None \<and> fs[fd := Some d] ! j = None"
    using ij by (intro exI [of _ i] exI [of _ j]) simp
  moreover have "fs[fd := Some d] ! k \<noteq> None" if "k \<le> 1" for k
  proof (cases "k = fd")
    case True
    have "fd < length fs" using s fd by (simp add: std_open_def)
    then show ?thesis using True by simp
  next
    case False
    then show ?thesis using s that by (auto simp: std_open_def le_Suc_eq)
  qed
  ultimately show ?thesis using s by (simp add: std_open_def)
qed

lemma two_new_fds:
  assumes "std_open fs"
  obtains i j where "1 < i" "i < j" "j < length fs" "fs ! i = None" "fs ! j = None"
    "\<And>d. new_fd d fs = Some (i, fs[i := Some d])"
    "\<And>d e. new_fd e (fs[i := Some d]) = Some (j, fs[i := Some d, j := Some e])"
proof -
  let ?P = "\<lambda>i. i < length fs \<and> fs ! i = None"
  obtain a b where ab: "a < b" "?P a" "?P b" using assms by (auto simp: std_open_def)
  define i where "i = (LEAST i. ?P i)"
  have i: "?P i" "\<And>k. ?P k \<Longrightarrow> i \<le> k" using LeastI [of ?P a] Least_le [of ?P] ab(2) by (auto simp: i_def)
  define j where "j = (LEAST j. i < j \<and> ?P j)"
  have "i < b" using i(2) [OF ab(2)] ab(1) by simp
  then have j: "i < j \<and> ?P j" "\<And>k. i < k \<and> ?P k \<Longrightarrow> j \<le> k"
    using LeastI [of "\<lambda>j. i < j \<and> ?P j" b] Least_le [of "\<lambda>j. i < j \<and> ?P j"] ab(3) by (auto simp: j_def)
  have lowi: "\<forall>k<i. fs ! k \<noteq> None" using i j(1) by (meson less_trans linorder_not_le)
  have lowj: "\<forall>k<j. fs[i := Some d] ! k \<noteq> None" for d
  proof (intro allI impI)
    fix k assume k: "k < j"
    consider "k < i" | "k = i" | "i < k" by linarith
    then show "fs[i := Some d] ! k \<noteq> None"
    proof cases
      case 3
      then have "\<not> ?P k" using j(2) [of k] k by linarith
      then have "fs ! k \<noteq> None" using k j(1) by linarith
      then show ?thesis using 3 by simp
    qed (use lowi i(1) in auto)
  qed
  have "1 < i" using assms i(1) by (auto simp: std_open_def intro!: Suc_lessI gr0I)
  then show thesis
    by (rule that [of i j]) (use i(1) j(1) lowi lowj in \<open>auto intro!: new_fd_lowest\<close>)
qed

lemma run_panic [simp]: "run F q p fs (panic s) = []"
  by (simp add: panic_def)

lemma run_exec_denote: "run F q p fs (run_exec argv) = denote F q fs (EXEC argv)"
  by (cases argv) (auto simp: run_exec_def resolve_def Let_def split: fkind.splits)

text \<open>The part of a pipe's child that moves one end of the pipe to a standard descriptor and closes both.\<close>

lemma run_pipe_child:
  assumes fs: "std_open fs" and ij: "1 < i" "i < j" "j < length fs" "fs ! i = None" "fs ! j = None"
    and fs2: "fs2 = fs[i := Some (ReadEnd k), j := Some (WriteEnd k)]"
  shows "run F q (i, j) fs2 (Close (Fd 1) (Dup P1 (Close P0 (Close P1 a)))) = run F q (i, j) (fs[1 := Some (WriteEnd k)]) a"
    and "run F q (i, j) fs2 (Close (Fd 0) (Dup P0 (Close P0 (Close P1 a)))) = run F q (i, j) (fs[0 := Some (ReadEnd k)]) a"
proof -
  have open2: "fs2 ! 0 \<noteq> None" "1 < length fs2" using fs ij by (auto simp: fs2 std_open_def)
  have new: "new_fd d (fs2[n := None]) = Some (n, fs2[n := Some d])" if "n \<le> 1" for d n
    using new_fd_lowest [of n "fs2[n := None]" d] open2 that by (auto simp: le_Suc_eq)
  have ends: "fs2[n := None] ! i = Some (ReadEnd k)" "fs2[n := None] ! j = Some (WriteEnd k)" if "n \<le> 1" for n
    using ij that by (auto simp: fs2)
  have undone: "fs2[n := Some d, i := None, j := None] = fs[n := Some d]" if "n \<le> 1" for n d
    by (rule nth_equalityI) (use ij that in \<open>auto simp: fs2 nth_list_update\<close>)
  show "run F q (i, j) fs2 (Close (Fd 1) (Dup P1 (Close P0 (Close P1 a)))) = run F q (i, j) (fs[1 := Some (WriteEnd k)]) a"
    using new [of 1] ends [of 1] undone [of 1] by (simp add: fd_num_def)
  show "run F q (i, j) fs2 (Close (Fd 0) (Dup P0 (Close P0 (Close P1 a)))) = run F q (i, j) (fs[0 := Some (ReadEnd k)]) a"
    using new [of 0] ends [of 0] undone [of 0] by (simp add: fd_num_def)
qed

lemma runcmd_denotes: "std_open fs \<Longrightarrow> std_redirs c \<Longrightarrow> run F q p fs (runcmd c) = denote F q fs c"
proof (induction c arbitrary: q p fs)
  case (EXEC argv)
  then show ?case by (simp add: run_exec_denote)
next
  case (REDIR c f m fd)
  then show ?case using new_fd_std [OF REDIR.prems(1), of fd] std_open_set [OF REDIR.prems(1), of fd]
    by (simp add: fd_num_def)
next
  case (PIPE l r)
  obtain i j where ij: "1 < i" "i < j" "j < length fs" "fs ! i = None" "fs ! j = None"
    and new: "\<And>d. new_fd d fs = Some (i, fs[i := Some d])"
      "\<And>d e. new_fd e (fs[i := Some d]) = Some (j, fs[i := Some d, j := Some e])"
    using two_new_fds [OF PIPE.prems(1)] by metis
  note child = run_pipe_child [OF PIPE.prems(1) ij refl]
  note so = std_open_set [OF PIPE.prems(1)]
  have "run F q p fs (runcmd (PIPE l r)) =
      run F (q @ [True]) (i, j) (fs[1 := Some (WriteEnd q)]) (runcmd l)
      @ run F (q @ [False, True]) (i, j) (fs[0 := Some (ReadEnd q)]) (runcmd r)"
    unfolding runcmd.simps fork1_def run.simps(8) new option.case prod.case run.simps(9) child by simp
  also have "\<dots> = denote F q fs (PIPE l r)"
    using PIPE.IH so PIPE.prems(2) by simp
  finally show ?case .
qed (simp_all add: fork1_def)

text \<open>
  C25. Running a command starts exactly the programs that the command means, with the descriptors it means: the right side
  of a pipeline reads what the left side writes, a redirection replaces a standard descriptor, and no program
  is left with another open end of a pipe. This holds for every nesting of pipelines, lists, background commands
  and redirections of standard input and output, when two descriptors are free and forks succeed.
\<close>

theorem runcmd_wires_descriptors:
  assumes "std_open fs" and "std_redirs c"
  shows "run F q p fs (runcmd c) = denote F q fs c"
  using assms by (rule runcmd_denotes)

theorem runcmd_wires_descriptors_witness:
  "run \<lparr>f_stat = \<lambda>w. Other, f_open = \<lambda>f m. True\<rparr> [] (0, 0) [Some (Given 0), Some (Given 1), Some (Given 2), None, None]
     (runcmd (PIPE (REDIR (EXEC [[97]]) [102] O_RDONLY 0) (EXEC [[98]])))
   = [([97], [[97]], [Some (Opened [102] O_RDONLY), Some (WriteEnd []), Some (Given 2), None, None]),
      ([98], [[98]], [Some (ReadEnd []), Some (Given 1), Some (Given 2), None, None])]"
proof -
  let ?fs = "[Some (Given 0), Some (Given 1), Some (Given 2), None, None]"
  have "std_open ?fs"
    unfolding std_open_def by (intro conjI exI [of _ 3] exI [of _ 4]) simp_all
  from runcmd_wires_descriptors [OF this, of "PIPE (REDIR (EXEC [[97]]) [102] O_RDONLY 0) (EXEC [[98]])"
      "\<lparr>f_stat = \<lambda>w. Other, f_open = \<lambda>f m. True\<rparr>" "[]" "(0, 0)"]
  show ?thesis by (simp add: resolve_def)
qed

end
