(* ===== verification/Sh.thy ===== *)
theory Sh
  imports Sh_Parse Strings
begin

text \<open>
  The interactive part of \<^verbatim>\<open>src/sh.c\<close>: the command history, completion, reading a line, and the built-in tools. The
  linked lists are lists; file names, commands and lines are the bytes before the NUL. What the shell
  asks of the kernel is a parameter (directories, files) or an event of its trace (output, \<^verbatim>\<open>kbddecoy\<close>).
\<close>

section \<open>History\<close>

text \<open>
  \<^verbatim>\<open>prev\<close> holds the older commands, newest first, \<^verbatim>\<open>next\<close> those after the current one, oldest first. \<^verbatim>\<open>prev_end\<close> is
  the last element of \<^verbatim>\<open>prev\<close>. \<open>h_file\<close> is the history file and \<open>h_pos\<close> the position down to which it has been loaded.
\<close>

record history =
  h_file :: "byte list"
  h_pos :: nat
  h_topped :: bool
  h_prev :: "byte list list"
  h_curr :: "byte list option"
  h_next :: "byte list list"

definition load_history_command :: "byte list \<Rightarrow> history \<Rightarrow> history" where
  "load_history_command content h = h\<lparr>h_prev := h_prev h @ [cstr content]\<rparr>"

text \<open>
  The loop of \<^verbatim>\<open>load_history\<close> over the positions from \<open>pos\<close> down to 1: every newline becomes a NUL, and the
  string after it is loaded. It returns \<^verbatim>\<open>last_nl\<close> and the buffer.
\<close>

fun load_scan :: "nat \<Rightarrow> byte list \<Rightarrow> nat \<Rightarrow> history \<Rightarrow> nat \<times> byte list \<times> history" where
  "load_scan 0 buf last_nl h = (last_nl, buf, h)"
| "load_scan (Suc p) buf last_nl h =
     (if buf ! Suc p = 10 then
        let buf = buf[Suc p := 0] in load_scan p buf (Suc p) (load_history_command (drop (Suc p + 1) buf) h)
      else load_scan p buf last_nl h)"

definition DEFAULT_LOAD :: nat where
  "DEFAULT_LOAD = 255"

definition load_history :: "history \<Rightarrow> history" where
  "load_history h =
     (let start_pos = h_pos h;
          pos = min (start_pos - DEFAULT_LOAD) (length (h_file h));
          h = h\<lparr>h_pos := pos, h_topped := h_topped h \<or> pos = 0\<rparr>;
          chunk = take (start_pos - pos) (drop pos (h_file h));
          nread = length chunk
      in if nread = 0 then h
         else let buf = chunk[nread - 1 := 0];
                  (last_nl, buf, h) = load_scan (nread - 2) buf (nread - 1) h
              in if h_topped h then load_history_command buf h
                 else h\<lparr>h_pos := h_pos h + last_nl + 1\<rparr>)"

definition init_history :: "byte list \<Rightarrow> history" where
  "init_history f = load_history \<lparr>h_file = f, h_pos = length f, h_topped = False, h_prev = [], h_curr = None, h_next = []\<rparr>"

definition curr_list :: "history \<Rightarrow> byte list list" where
  "curr_list h = (case h_curr h of None \<Rightarrow> [] | Some c \<Rightarrow> [c])"

definition reset_command_position :: "history \<Rightarrow> history" where
  "reset_command_position h = h\<lparr>h_prev := rev (h_next h) @ curr_list h @ h_prev h, h_curr := None, h_next := []\<rparr>"

text \<open>\<^verbatim>\<open>log_command\<close> on a line that ends with a newline; \<^verbatim>\<open>fseek\<close> and \<^verbatim>\<open>write\<close> append to the file. The line without its newline stays in \<^verbatim>\<open>buf\<close>.\<close>

definition log_command :: "byte list \<Rightarrow> history \<Rightarrow> history" where
  "log_command line h =
     (let h = reset_command_position h; cmd = butlast line in
      if h_prev h \<noteq> [] \<and> hd (h_prev h) = cmd then h
      else h\<lparr>h_file := h_file h @ cmd @ [10], h_prev := cmd # h_prev h\<rparr>)"

text \<open>
  \<^verbatim>\<open>get_prev_command\<close> calls itself after loading more of the file, until a command has been loaded or the
  top of the file has been reached. The recursion may not end; \<open>fuel\<close> counts the calls.
\<close>

fun get_prev_command :: "nat \<Rightarrow> history \<Rightarrow> (byte list option \<times> history) option" where
  "get_prev_command 0 h = None"
| "get_prev_command (Suc fuel) h =
     (case h_prev h of
        [] \<Rightarrow> if \<not> h_topped h then get_prev_command fuel (load_history h) else Some (None, h)
      | c # cs \<Rightarrow> Some (Some c, h\<lparr>h_next := curr_list h @ h_next h, h_curr := Some c, h_prev := cs\<rparr>))"

definition get_next_command :: "history \<Rightarrow> byte list option \<times> history" where
  "get_next_command h =
     (case h_next h of
        [] \<Rightarrow> (None, h\<lparr>h_prev := curr_list h @ h_prev h, h_curr := None\<rparr>)
      | c # cs \<Rightarrow> (Some c, h\<lparr>h_prev := curr_list h @ h_prev h, h_curr := Some c, h_next := cs\<rparr>))"

section \<open>Completion\<close>

record autocomplete_state =
  ac_active :: bool
  ac_prefix_start :: nat
  ac_selected :: nat
  ac_matches :: "byte list list"

definition no_completion :: autocomplete_state where
  "no_completion = \<lparr>ac_active = False, ac_prefix_start = 0, ac_selected = 0, ac_matches = []\<rparr>"

text \<open>What the shell does to its surroundings. \<open>Write\<close> carries the text that goes to a descriptor, however many calls print it.\<close>

datatype tool_out = Chdir "byte list" | CannotCd "byte list" | JumpFailed "byte list" | NotInIndex "byte list" | RfshFailed | RfshDone

datatype sh_event = Write nat "byte list" | Decoy "byte list" | Prompt | Tool tool_out | Ran "cmd res"

type_synonym jump_table = "(byte list \<times> byte list) list"

record shell =
  sh_history :: history
  sh_complete :: autocomplete_state
  sh_jump :: jump_table
  sh_ev :: "sh_event list"

definition sh_emit :: "sh_event list \<Rightarrow> shell \<Rightarrow> shell" where
  "sh_emit vs sh = sh\<lparr>sh_ev := sh_ev sh @ vs\<rparr>"

text \<open>Directories: the entries of a directory that can be opened, and whether a path names a directory.\<close>

record sh_fs =
  fs_dir :: "byte list \<Rightarrow> (nat \<times> byte list) list option"
  fs_isdir :: "byte list \<Rightarrow> bool"

definition build_full_path :: "byte list \<Rightarrow> byte list \<Rightarrow> byte list" where
  "build_full_path dir name =
     (if dir = [46] then name else if dir = [47] then 47 # name else dir @ 47 # name)"

text \<open>The buffer is a list of \<^verbatim>\<open>nbuf\<close> bytes; \<open>n\<close> of them are in use.\<close>

definition replace_autocomplete :: "byte list \<Rightarrow> nat \<Rightarrow> nat \<Rightarrow> shell \<Rightarrow> byte list \<times> nat \<times> shell" where
  "replace_autocomplete buf n nbuf sh =
     (let st = sh_complete sh; m = ac_matches st ! ac_selected st; start = ac_prefix_start st in
      if start + length m \<ge> nbuf then (buf, n, sh)
      else (patch start (m @ [0]) buf, start + length m,
            sh_emit (replicate (n - start) (Write 1 [8, 32, 8]) @ [Write 1 m]) sh))"

text \<open>The last word of the line: its directory, if it fits, and where its last component starts.\<close>

definition last_word :: "byte list \<Rightarrow> nat \<Rightarrow> nat" where
  "last_word buf n = n - length (takeWhile (\<lambda>c. c \<noteq> 32) (rev (take n buf)))"

definition split_word :: "byte list \<Rightarrow> nat \<Rightarrow> (byte list \<times> nat) option" where
  "split_word buf n =
     (let start = last_word buf n; w = drop start (take n buf);
          comp = rev (takeWhile (\<lambda>c. c \<noteq> 47) (rev w)); dir_len = length w - length comp - 1
      in if 47 \<notin> set w then Some ([46], start)
         else if dir_len = 0 then Some ([47], start + 1)
         else if dir_len \<ge> 100 then None
         else Some (take dir_len w, start + dir_len + 1))"

text \<open>The match that a directory entry gives for the prefix, with a slash after a directory's name.\<close>

definition entry_match :: "sh_fs \<Rightarrow> byte list \<Rightarrow> byte list \<Rightarrow> nat \<times> byte list \<Rightarrow> byte list option" where
  "entry_match fs dir prefix de =
     (let name = cstr (take 14 (snd de)) in
      if fst de = 0 then None
      else if name \<noteq> [] \<and> hd name = 46 \<and> \<not> (prefix \<noteq> [] \<and> hd prefix = 46) then None
      else if length name \<ge> length prefix \<and> take (length prefix) name = prefix then
        Some (if fs_isdir fs (build_full_path dir name) then name @ [47] else name)
      else None)"

definition print_matches :: "byte list list \<Rightarrow> sh_event list" where
  "print_matches ms =
     [Write 1 [10]] @ concat (map (\<lambda>i. Write 1 (ms ! i) # (if i + 1 < length ms then [Write 1 [32, 32]] else [])) [0..<length ms]) @ [Write 1 [10]]"

definition autocomplete :: "sh_fs \<Rightarrow> byte list \<Rightarrow> nat \<Rightarrow> nat \<Rightarrow> shell \<Rightarrow> byte list \<times> nat \<times> shell" where
  "autocomplete fs buf n nbuf sh =
     (let st = sh_complete sh in
      if ac_active st then
        replace_autocomplete buf n nbuf
          (sh\<lparr>sh_complete := st\<lparr>ac_selected := if ac_selected st + 1 < length (ac_matches st) then ac_selected st + 1 else 0\<rparr>\<rparr>)
      else case split_word buf n of
        None \<Rightarrow> (buf, n, sh)
      | Some (dir, start) \<Rightarrow>
          if n - start > 14 then (buf, n, sh)
          else case fs_dir fs dir of
            None \<Rightarrow> (buf, n, sh)
          | Some des \<Rightarrow>
              let ms = List.map_filter (entry_match fs dir (drop start (take n buf))) des in
              if ms = [] then (buf, n, sh)
              else
                let sh = (if length ms > 1 then sh_emit (print_matches ms @ [Prompt, Write 1 (take n buf)]) sh else sh);
                    sh = sh\<lparr>sh_complete := \<lparr>ac_active = length ms > 1, ac_prefix_start = start, ac_selected = 0, ac_matches = ms\<rparr>\<rparr>;
                    (buf, n, sh) = replace_autocomplete buf n nbuf sh
                in (buf, n, if length ms = 1 then sh\<lparr>sh_complete := no_completion\<rparr> else sh))"

definition reset_autocomplete :: "shell \<Rightarrow> shell" where
  "reset_autocomplete sh = sh\<lparr>sh_complete := no_completion\<rparr>"

section \<open>Reading a line\<close>

text \<open>
  \<^verbatim>\<open>getcmd\<close> ends with -1 at the end of the input or on an empty line, with 0 and the line in the buffer, or, when
  \<^verbatim>\<open>nbuf\<close> characters have been typed without a newline, by writing the NUL one byte past the buffer: \<open>Overrun\<close>.
  \<open>Stuck\<close> is a recursion of \<^verbatim>\<open>get_prev_command\<close> that uses up its fuel.
\<close>

datatype getcmd_result = Eof | Line "byte list" | Overrun | Stuck

definition getcmd_end :: "byte list \<Rightarrow> nat \<Rightarrow> nat \<Rightarrow> getcmd_result" where
  "getcmd_end buf n nbuf =
     (if n < nbuf then let buf = buf[n := 0] in if cstr buf = [] then Eof else Line (cstr buf) else Overrun)"

definition show_prev :: "byte list option \<Rightarrow> history \<Rightarrow> byte list" where
  "show_prev com h = (case com of Some c \<Rightarrow> c | None \<Rightarrow> (case h_curr h of Some c \<Rightarrow> c | None \<Rightarrow> []))"

definition clear_from :: "nat \<Rightarrow> byte list \<Rightarrow> byte list" where
  "clear_from n buf = take n buf @ replicate (length buf - n) 0"

text \<open>The loop, over the bytes that \<^verbatim>\<open>read\<close> delivers; it returns those that are left.\<close>

fun getcmd_loop :: "nat \<Rightarrow> sh_fs \<Rightarrow> nat \<Rightarrow> byte list \<Rightarrow> byte list \<Rightarrow> nat \<Rightarrow> shell \<Rightarrow> getcmd_result \<times> byte list \<times> shell" where
  "getcmd_loop fuel fs nbuf inp buf n sh =
     (if n \<ge> nbuf then (getcmd_end buf n nbuf, inp, sh)
      else case inp of
        [] \<Rightarrow> (Eof, [], sh)
      | c # inp \<Rightarrow>
          if c = 16 then
            case get_prev_command fuel (sh_history sh) of
              None \<Rightarrow> (Stuck, inp, sh)
            | Some (com, h) \<Rightarrow>
                getcmd_loop fuel fs nbuf inp buf n (sh_emit [Decoy (show_prev com h)] ((reset_autocomplete sh)\<lparr>sh_history := h\<rparr>))
          else if c = 14 then
            let (com, h) = get_next_command (sh_history sh) in
            getcmd_loop fuel fs nbuf inp buf n
              (sh_emit [Decoy (case com of Some c \<Rightarrow> c | None \<Rightarrow> [])] ((reset_autocomplete sh)\<lparr>sh_history := h\<rparr>))
          else if c = 9 then
            let (buf, n, sh) = autocomplete fs buf n nbuf sh in getcmd_loop fuel fs nbuf inp (clear_from n buf) n sh
          else if c = 8 \<or> c = 127 then
            if n > 0 then getcmd_loop fuel fs nbuf inp (clear_from (n - 1) buf) (n - 1) (sh_emit [Write 1 [8, 32, 8]] (reset_autocomplete sh))
            else getcmd_loop fuel fs nbuf inp buf n (reset_autocomplete sh)
          else
            let buf = buf[n := c]; sh = reset_autocomplete sh in
            if c = 10 \<or> c = 13 then (getcmd_end buf (n + 1) nbuf, inp, sh)
            else getcmd_loop fuel fs nbuf inp buf (n + 1) sh)"

declare getcmd_loop.simps [simp del]

definition getcmd :: "nat \<Rightarrow> sh_fs \<Rightarrow> nat \<Rightarrow> byte list \<Rightarrow> shell \<Rightarrow> getcmd_result \<times> byte list \<times> shell" where
  "getcmd fuel fs nbuf inp sh = getcmd_loop fuel fs nbuf inp (replicate nbuf 0) 0 (sh_emit [Prompt] sh)"

section \<open>Built-in tools\<close>

text \<open>The jump table: names and paths. An entry that does not fit \<^verbatim>\<open>name[32]\<close> or \<^verbatim>\<open>path[64]\<close> overruns it.\<close>

definition MAX_JUMP_ENTRIES :: nat where
  "MAX_JUMP_ENTRIES = 50"

text \<open>The two inner loops read on while the stop set does not hold the last byte read; at the end of the file it stays in \<^verbatim>\<open>c\<close>.\<close>

fun read_until :: "byte list \<Rightarrow> byte \<Rightarrow> byte list \<Rightarrow> byte list \<times> byte \<times> byte list" where
  "read_until stop c [] = (if c \<in> set stop then ([], c, []) else ([c], c, []))"
| "read_until stop c (d # rest) =
     (if c \<in> set stop then ([], c, d # rest)
      else let (w, c', rest') = read_until stop d rest in (c # w, c', rest'))"

definition read_entry :: "byte \<Rightarrow> byte list \<Rightarrow> (byte list \<times> byte list) \<times> byte list" where
  "read_entry c rest =
     (let (name, c, rest) = read_until [32, 10] c rest;
          (c, rest) = (if c = 32 then (case rest of [] \<Rightarrow> (c, []) | d # ds \<Rightarrow> (d, ds)) else (c, rest));
          (path, c, rest) = read_until [10, 13] c rest
      in ((name, path), rest))"

lemma read_until_length [termination_simp]: "read_until stop c rest = (w, c', rest') \<Longrightarrow> length rest' \<le> length rest"
  by (induction stop c rest arbitrary: w c' rest' rule: read_until.induct)
    (auto split: if_splits prod.splits intro: le_SucI)

lemma read_entry_length: "read_entry c rest = (e, rest') \<Longrightarrow> length rest' \<le> length rest"
  by (auto simp: read_entry_def split: prod.splits if_splits list.splits dest!: read_until_length)

function jump_entries :: "nat \<Rightarrow> byte list \<Rightarrow> (byte list \<times> byte list) list \<Rightarrow> (byte list \<times> byte list) list option" where
  "jump_entries k file tab =
     (case file of
        [] \<Rightarrow> Some tab
      | c # rest \<Rightarrow>
          if k \<ge> MAX_JUMP_ENTRIES then Some tab
          else let (e, rest) = read_entry c rest in
               if length (fst e) \<ge> 32 \<or> length (snd e) \<ge> 64 then None
               else jump_entries (k + 1) rest (tab @ [(cstr (fst e), cstr (snd e))]))"
  by pat_completeness auto
termination
  by (relation "measure (\<lambda>(k, file, tab). length file)") (auto dest!: sym [of _ "read_entry _ _"] read_entry_length)

declare jump_entries.simps [simp del]

text \<open>What the tools ask of the kernel: whether \<^verbatim>\<open>chdir\<close> succeeds, and the contents of \<^verbatim>\<open>.jump_index\<close>.\<close>

record sh_kernel =
  k_chdir :: "byte list \<Rightarrow> bool"
  k_jump_index :: "byte list option"

definition init_jump_table :: "sh_kernel \<Rightarrow> jump_table \<Rightarrow> (int \<times> jump_table) option" where
  "init_jump_table k tab =
     (case k_jump_index k of
        None \<Rightarrow> Some (-1, tab)
      | Some file \<Rightarrow> map_option (Pair 0) (jump_entries 0 file []))"

definition cd :: "sh_kernel \<Rightarrow> byte list \<Rightarrow> tool_out list" where
  "cd k command =
     (let dir = drop 3 (butlast command) in if k_chdir k dir then [Chdir dir] else [CannotCd dir])"

definition jump :: "sh_kernel \<Rightarrow> jump_table \<Rightarrow> byte list \<Rightarrow> tool_out list" where
  "jump k tab command =
     (let filename = drop 5 (butlast command) in
      case map_of tab filename of
        Some path \<Rightarrow> if k_chdir k path then [Chdir path] else [JumpFailed path]
      | None \<Rightarrow> [NotInIndex filename])"

definition rfsh :: "sh_kernel \<Rightarrow> jump_table \<Rightarrow> (tool_out list \<times> jump_table) option" where
  "rfsh k tab = map_option (\<lambda>(r, tab). ([if r = -1 then RfshFailed else RfshDone], tab)) (init_jump_table k tab)"

datatype tool = CD | JUMP | RFSH

definition tools :: "(tool \<times> byte list \<times> byte) list" where
  "tools = [(CD, [99, 100], 32), (JUMP, [106, 117, 109, 112], 32), (RFSH, [114, 102, 115, 104], 10)]"

text \<open>The comparison of a tool's name with a command that ends with a NUL, then of the byte after it.\<close>

fun tool_matches :: "byte list \<Rightarrow> byte \<Rightarrow> byte list \<Rightarrow> bool" where
  "tool_matches (a # name) followup (c # comm) = (a = c \<and> tool_matches name followup comm)"
| "tool_matches name followup comm = ((if comm = [] then 0 else hd comm) = followup)"

text \<open>The first tool that matches handles the command; \<open>None\<close> is an overrun of the jump table.\<close>

definition check_tools :: "sh_kernel \<Rightarrow> jump_table \<Rightarrow> byte list \<Rightarrow> (bool \<times> tool_out list \<times> jump_table) option" where
  "check_tools k tab command =
     (case filter (\<lambda>(t, name, f). tool_matches name f command) tools of
        [] \<Rightarrow> Some (False, [], tab)
      | (CD, _) # _ \<Rightarrow> Some (True, cd k command, tab)
      | (JUMP, _) # _ \<Rightarrow> Some (True, jump k tab command, tab)
      | (RFSH, _) # _ \<Rightarrow> map_option (Pair True) (rfsh k tab))"

section \<open>The main loop\<close>

lemma getcmd_end_Line: "getcmd_end buf n nbuf = Line l \<Longrightarrow> n < nbuf"
  by (auto simp: getcmd_end_def split: if_splits)

lemma getcmd_loop_rest:
  "getcmd_loop fuel fs nbuf inp buf n sh = (r, rest, sh') \<Longrightarrow> length rest \<le> length inp \<and> (r = Line l \<longrightarrow> length rest < length inp)"
proof (induction inp arbitrary: buf n sh)
  case Nil
  then show ?case by (subst (asm) getcmd_loop.simps) (auto split: if_splits dest: getcmd_end_Line)
next
  case (Cons c inp)
  have IH: "length rest < length (c # inp)" if "getcmd_loop fuel fs nbuf inp buf' n' sh2 = (r, rest, sh')" for buf' n' sh2
    using Cons.IH [OF that] by auto
  show ?case
    using Cons.prems by (subst (asm) getcmd_loop.simps)
      (auto simp: Let_def dest: getcmd_end_Line split: if_splits option.splits prod.splits dest!: IH)
qed

lemma getcmd_consumes: "getcmd fuel fs nbuf inp sh = (Line l, rest, sh') \<Longrightarrow> length rest < length inp"
  using getcmd_loop_rest [of fuel fs nbuf inp] by (fastforce simp: getcmd_def)

text \<open>
  One pass per line: a tool handles it, or a child parses and runs it (\<open>Ran\<close>) and the line goes to the history. The
  kernel's answers depend on what has been done before. The loop ends at the end of the input, or where \<^verbatim>\<open>getcmd\<close> or a
  tool goes wrong.
\<close>

datatype sh_end = ShExit | ShOverrun | ShStuck

function main_loop :: "nat \<Rightarrow> (sh_event list \<Rightarrow> sh_fs) \<Rightarrow> (sh_event list \<Rightarrow> sh_kernel) \<Rightarrow> byte list \<Rightarrow> shell \<Rightarrow> sh_end \<times> shell" where
  "main_loop fuel fs k inp sh =
     (case getcmd fuel (fs (sh_ev sh)) 100 inp sh of
        (Eof, _, sh) \<Rightarrow> (ShExit, sh)
      | (Overrun, _, sh) \<Rightarrow> (ShOverrun, sh)
      | (Stuck, _, sh) \<Rightarrow> (ShStuck, sh)
      | (Line l, inp, sh) \<Rightarrow>
          (case check_tools (k (sh_ev sh)) (sh_jump sh) l of
             None \<Rightarrow> (ShOverrun, sh)
           | Some (True, out, tab) \<Rightarrow> main_loop fuel fs k inp (sh_emit (map Tool out) (sh\<lparr>sh_jump := tab\<rparr>))
           | Some (False, _, _) \<Rightarrow>
               main_loop fuel fs k inp (sh_emit [Ran (parsecmd l)] (sh\<lparr>sh_history := log_command l (sh_history sh)\<rparr>))))"
  by pat_completeness auto
termination
  by (relation "measure (\<lambda>(fuel, fs, k, inp, sh). length inp)") (auto dest!: sym [of "(_, _, _)" "getcmd _ _ _ _ _"] getcmd_consumes)

declare main_loop.simps [simp del]

definition sh_main :: "nat \<Rightarrow> (sh_event list \<Rightarrow> sh_fs) \<Rightarrow> (sh_event list \<Rightarrow> sh_kernel) \<Rightarrow> byte list \<Rightarrow> byte list \<Rightarrow> sh_end \<times> shell" where
  "sh_main fuel fs k file inp =
     (let sh = \<lparr>sh_history = init_history file, sh_complete = no_completion, sh_jump = [], sh_ev = []\<rparr> in
      case init_jump_table (k []) [] of
        None \<Rightarrow> (ShOverrun, sh)
      | Some (_, tab) \<Rightarrow> main_loop fuel fs k inp (sh\<lparr>sh_jump := tab\<rparr>))"

end
