(* ===== verification/Sh_History.thy ===== *)
theory Sh_History
  imports Sh
begin

text \<open>
  The command history of the shell refines a list of commands with a cursor. The history file is the text of
  all commands; the shell holds a suffix of them and loads older ones from the file in chunks.
\<close>

section \<open>Lines\<close>

definition lines_text :: "byte list list \<Rightarrow> byte list" where
  "lines_text ls = concat (map (\<lambda>l. l @ [10]) ls)"

definition line_ok :: "byte list \<Rightarrow> bool" where
  "line_ok l \<longleftrightarrow> 10 \<notin> set l \<and> 0 \<notin> set l \<and> length l < 253"

text \<open>A text and further lines, each after the separator \<open>s\<close>.\<close>

definition joined :: "byte \<Rightarrow> byte list \<Rightarrow> byte list list \<Rightarrow> byte list" where
  "joined s x ls = x @ concat (map (\<lambda>l. s # l) ls)"

lemma lines_text_simps [simp]:
  "lines_text [] = []" "lines_text (l # ls) = l @ 10 # lines_text ls" "lines_text (ls @ ms) = lines_text ls @ lines_text ms"
  by (simp_all add: lines_text_def)

lemma joined_snoc: "joined s x (ls @ [l]) = joined s x ls @ s # l"
  by (simp add: joined_def)

lemma joined_lines: "joined 10 x ls @ [10] = x @ 10 # lines_text ls"
  by (induction ls rule: rev_induct) (simp_all add: joined_def)

lemma cstr_app: "0 \<notin> set l \<Longrightarrow> cstr (l @ 0 # r) = l" "0 \<notin> set l \<Longrightarrow> cstr l = l"
  by (induction l) (auto simp: cstr_def)

section \<open>Scanning a chunk\<close>

lemma load_scan_skip:
  assumes "10 \<notin> set l" and "a \<noteq> []"
  shows "load_scan (length a + length l - 1) (a @ l @ r) nl h = load_scan (length a - 1) (a @ l @ r) nl h"
  using assms
proof (induction l arbitrary: r rule: rev_induct)
  case (snoc c l)
  have "(a @ (l @ [c]) @ r) ! (length a + length l) = c" by (simp add: nth_append)
  moreover obtain k where "length a + length l = Suc k" using snoc.prems(2) by (cases "length a + length l") auto
  ultimately have "load_scan (length a + length (l @ [c]) - 1) (a @ (l @ [c]) @ r) nl h
      = load_scan (length a + length l - 1) (a @ l @ [c] @ r) nl h"
    using snoc.prems(1) by auto
  then show ?case using snoc.IH [of "[c] @ r"] snoc.prems by simp
qed simp

lemma load_scan_chunk:
  assumes "x \<noteq> []" "10 \<notin> set (tl x)" "\<And>l. l \<in> set ls \<Longrightarrow> line_ok l"
  shows "load_scan (length (joined 10 x ls) - 1) (joined 10 x ls @ 0 # r) nl h
    = (if ls = [] then nl else length x, joined 0 x ls @ 0 # r, h\<lparr>h_prev := h_prev h @ rev ls\<rparr>)"
  using assms(3)
proof (induction ls arbitrary: r nl h rule: rev_induct)
  case Nil
  obtain c y where x: "x = c # y" using assms(1) by (cases x) auto
  show ?case using load_scan_skip [of y "[c]" "0 # r" nl h] assms(2) by (simp add: joined_def x)
next
  case (snoc l ls)
  let ?b = "joined 10 x ls"
  obtain k where k: "length ?b = Suc k" using assms(1) by (cases "length ?b") (auto simp: joined_def)
  have l: "10 \<notin> set l" "0 \<notin> set l" using snoc.prems by (auto simp: line_ok_def)
  have 1: "load_scan (length (?b @ [10]) + length l - 1) ((?b @ [10]) @ l @ 0 # r) nl h
      = load_scan (length (?b @ [10]) - 1) ((?b @ [10]) @ l @ 0 # r) nl h"
    by (rule load_scan_skip) (use l in auto)
  have n: "((?b @ [10]) @ l @ 0 # r) ! Suc k = 10" and u: "((?b @ [10]) @ l @ 0 # r)[Suc k := 0] = ?b @ 0 # l @ 0 # r"
    using k by (auto simp: nth_append list_update_append)
  have "load_scan (Suc k) ((?b @ [10]) @ l @ 0 # r) nl h
      = load_scan k (?b @ 0 # l @ 0 # r) (Suc k) (h\<lparr>h_prev := h_prev h @ [l]\<rparr>)"
    unfolding load_scan.simps n u Let_def using k l by (simp add: load_history_command_def cstr_app)
  also have "\<dots> = (if ls = [] then length ?b else length x, joined 0 x ls @ 0 # l @ 0 # r, h\<lparr>h_prev := h_prev h @ l # rev ls\<rparr>)"
    using snoc.IH [of "l @ 0 # r" "Suc k" "h\<lparr>h_prev := h_prev h @ [l]\<rparr>"] snoc.prems k by (cases "ls = []") simp_all
  also have "(if ls = [] then length ?b else length x) = length x" by (simp add: joined_def)
  finally show ?case using 1 k by (simp add: joined_snoc)
qed

section \<open>Loading a chunk\<close>

text \<open>
  \<open>backed\<close>: the file holds the lines that are not loaded yet (\<open>older\<close>), up to the position, and the loaded ones after them;
  the top has been reached exactly when nothing is left to load.
\<close>

definition timeline :: "history \<Rightarrow> byte list list" where
  "timeline h = rev (h_prev h) @ curr_list h @ h_next h"

definition backed :: "byte list list \<Rightarrow> history \<Rightarrow> bool" where
  "backed older h \<longleftrightarrow>
     h_file h = lines_text (older @ timeline h) \<and> h_pos h = length (lines_text older) \<and> (\<forall>l \<in> set older. line_ok l)
     \<and> (older \<noteq> [] \<longrightarrow> hd older \<noteq> []) \<and> (h_topped h \<longleftrightarrow> older = [])"

text \<open>The whole rest of the file fits into one chunk.\<close>

lemma load_history_all:
  assumes b: "backed (l # ls) h" and small: "h_pos h \<le> DEFAULT_LOAD"
  shows "load_history h = h\<lparr>h_pos := 0, h_topped := True, h_prev := h_prev h @ rev ls @ [l]\<rparr>"
proof -
  have l: "l \<noteq> []" "line_ok l" "\<And>m. m \<in> set ls \<Longrightarrow> line_ok m" and pos: "h_pos h = length (lines_text (l # ls))"
    and fl: "h_file h = lines_text (l # ls) @ lines_text (timeline h)"
    using b by (auto simp: backed_def)
  have j: "lines_text (l # ls) = joined 10 l ls @ [10]" using joined_lines [of l ls] by simp
  have "take (h_pos h) (h_file h) = joined 10 l ls @ [10]" using fl pos j by simp
  moreover have "min (h_pos h - DEFAULT_LOAD) (length (h_file h)) = 0" using small by simp
  moreover have "(joined 10 l ls @ [10])[length (joined 10 l ls @ [10]) - 1 := 0] = joined 10 l ls @ 0 # []" by simp
  moreover have "cstr (joined 0 l ls @ [0]) = l"
    using l(2) cstr_app(1) [of l] by (cases ls) (auto simp: joined_def line_ok_def)
  moreover have "10 \<notin> set (tl l)" using l(1,2) by (cases l) (auto simp: line_ok_def)
  note load_scan_chunk [OF l(1) this l(3), of ls]
  ultimately show ?thesis
    unfolding load_history_def Let_def
    by (simp add: load_history_command_def numeral_2_eq_2)
qed

text \<open>A longer rest: how the lines of the chunk are cut off it.\<close>

lemma longest_suffix:
  assumes "length (lines_text ls) \<le> 253" and "255 < length (lines_text (older @ ls))"
  shows "\<exists>o2 m ms. older = o2 @ m # ms \<and> length (lines_text (ms @ ls)) \<le> 253 \<and> 253 < length m + 1 + length (lines_text (ms @ ls))"
  using assms
proof (induction older arbitrary: ls rule: rev_induct)
  case (snoc m older)
  show ?case
  proof (cases "length (lines_text (m # ls)) \<le> 253")
    case True
    then obtain o2 m' ms where "older = o2 @ m' # ms" "length (lines_text (ms @ m # ls)) \<le> 253"
        "253 < length m' + 1 + length (lines_text (ms @ m # ls))"
      using snoc.IH [of "m # ls"] snoc.prems(2) by auto
    then show ?thesis by (intro exI [of _ o2] exI [of _ m'] exI [of _ "ms @ [m]"]) simp
  next
    case False
    then show ?thesis using snoc.prems(1) by (intro exI [of _ older] exI [of _ m] exI [of _ "[]"]) simp
  qed
qed simp

lemma chunk_split:
  assumes ok: "\<forall>l \<in> set older. line_ok l" and big: "255 < length (lines_text older)"
  obtains older' ls u x where "older = older' @ ls" "ls \<noteq> []" "lines_text older' = u @ x @ [10]" "x \<noteq> []" "10 \<notin> set (tl x)"
    "length x + 1 + length (lines_text ls) = 255"
proof -
  have "older \<noteq> []" using big by auto
  then obtain os l where o: "older = os @ [l]" by (metis rev_exhaust)
  have "length (lines_text [l]) \<le> 253" using ok o by (simp add: line_ok_def)
  then obtain o2 m ms where os: "os = o2 @ m # ms" and T: "length (lines_text (ms @ [l])) \<le> 253"
      and M: "253 < length m + 1 + length (lines_text (ms @ [l]))"
    using longest_suffix [of "[l]" os] big o by auto
  define w k where "w = lines_text o2 @ m" and "k = 254 - length (lines_text (ms @ [l]))"
  have kw: "k \<le> length w" "0 < k" using big T by (auto simp: w_def k_def o os)
  have "length (lines_text o2) \<le> length w - k + 1" using M by (simp add: w_def k_def)
  moreover have "tl (drop (length w - k) w) = drop (length w - k + 1) w" by (simp add: tl_drop drop_Suc)
  ultimately have tl: "tl (drop (length w - k) w) = drop (length w - k + 1 - length (lines_text o2)) m"
    by (simp add: w_def)
  show thesis
  proof (rule that [of "o2 @ [m]" "ms @ [l]" "take (length w - k) w" "drop (length w - k) w"])
    show "10 \<notin> set (tl (drop (length w - k) w))"
      unfolding tl using ok o os by (auto simp: line_ok_def dest: in_set_dropD)
    show "lines_text (o2 @ [m]) = take (length w - k) w @ drop (length w - k) w @ [10]"
      unfolding append_assoc [symmetric] append_take_drop_id by (simp add: w_def)
  qed (use kw T in \<open>auto simp: o os k_def\<close>)
qed

lemma load_history_part:
  assumes b: "backed older h" and big: "DEFAULT_LOAD < h_pos h"
  obtains older' ls where "older = older' @ ls" "ls \<noteq> []" "older' \<noteq> []"
    "load_history h = h\<lparr>h_pos := length (lines_text older'), h_prev := h_prev h @ rev ls\<rparr>"
proof -
  have ok: "\<forall>l \<in> set older. line_ok l" and pos: "h_pos h = length (lines_text older)" and top: "\<not> h_topped h"
    and fl: "h_file h = lines_text older @ lines_text (timeline h)"
    using b big by (auto simp: backed_def)
  from chunk_split [OF ok] big pos obtain older' ls u x where older: "older = older' @ ls" and ls: "ls \<noteq> []"
      and o': "lines_text older' = u @ x @ [10]" and x: "x \<noteq> []" "10 \<notin> set (tl x)"
      and n: "length x + 1 + length (lines_text ls) = 255"
    unfolding DEFAULT_LOAD_def by metis
  have tx: "lines_text older = u @ joined 10 x ls @ [10]" using joined_lines [of x ls] by (simp add: older o')
  have len: "length (joined 10 x ls @ [10]) = 255" using n joined_lines [of x ls] by simp
  have start: "min (h_pos h - DEFAULT_LOAD) (length (h_file h)) = length u" "h_pos h - length u = 255" "u \<noteq> []"
    using pos tx len big fl by (auto simp: DEFAULT_LOAD_def)
  have chunk: "take 255 (drop (length u) (h_file h)) = joined 10 x ls @ [10]"
    using fl tx len by simp
  have lok: "\<And>l. l \<in> set ls \<Longrightarrow> line_ok l" using ok older by simp
  note scan = load_scan_chunk [OF x lok, of ls]
  have "load_history h = h\<lparr>h_pos := length (lines_text older'), h_prev := h_prev h @ rev ls\<rparr>"
    unfolding load_history_def Let_def
    using scan start(3) top ls by (simp add: start(1,2) chunk o' numeral_2_eq_2)
  moreover have "older' \<noteq> []" using o' by auto
  ultimately show thesis using that [OF older ls] by blast
qed

section \<open>The list with a cursor\<close>

text \<open>
  The abstract history: all commands, oldest first, and the index of the one that is shown; past the end when none is.
\<close>

type_synonym cursor = "byte list list \<times> nat"

definition c_prev :: "cursor \<Rightarrow> byte list option \<times> cursor" where
  "c_prev s = (case s of (cs, i) \<Rightarrow> if i = 0 then (None, s) else (Some (cs ! (i - 1)), cs, i - 1))"

definition c_next :: "cursor \<Rightarrow> byte list option \<times> cursor" where
  "c_next s = (case s of (cs, i) \<Rightarrow> if i + 1 < length cs then (Some (cs ! (i + 1)), cs, i + 1) else (None, cs, length cs))"

definition c_log :: "byte list \<Rightarrow> cursor \<Rightarrow> cursor" where
  "c_log c s = (case s of (cs, i) \<Rightarrow> let cs = (if cs \<noteq> [] \<and> last cs = c then cs else cs @ [c]) in (cs, length cs))"

text \<open>How a history represents it; \<open>older\<close> are the commands that are only in the file.\<close>

definition represents :: "history \<Rightarrow> cursor \<Rightarrow> bool" where
  "represents h s \<longleftrightarrow>
     (\<exists>older. backed older h \<and> s = (older @ timeline h, length older + length (h_prev h))
       \<and> (timeline h = [] \<longrightarrow> older = []) \<and> (h_curr h = None \<longrightarrow> h_next h = [])
       \<and> (\<forall>l \<in> set (timeline h). line_ok l) \<and> (fst s \<noteq> [] \<longrightarrow> hd (fst s) \<noteq> []))"

lemma load_history_some:
  assumes b: "backed older h" and ne: "older \<noteq> []" "h_prev h = []"
  obtains older' ls where "older = older' @ ls" "ls \<noteq> []" "h_prev (load_history h) = rev ls" "h_curr (load_history h) = h_curr h"
    "h_next (load_history h) = h_next h" "backed older' (load_history h)"
proof (cases "h_pos h \<le> DEFAULT_LOAD")
  case True
  obtain l ls where o: "older = l # ls" using ne by (cases older) auto
  note ld = load_history_all [OF b [unfolded o] True]
  show thesis
    by (rule that [of "[]" "l # ls"]) (use b ne(2) in \<open>auto simp: ld o backed_def timeline_def curr_list_def\<close>)
next
  case False
  then have "DEFAULT_LOAD < h_pos h" by simp
  from load_history_part [OF b this] obtain older' ls where o: "older = older' @ ls" "ls \<noteq> []" "older' \<noteq> []"
    and ld: "load_history h = h\<lparr>h_pos := length (lines_text older'), h_prev := h_prev h @ rev ls\<rparr>" by metis
  show thesis
    by (rule that [OF o(1,2)]) (use b o(3) ne(2) in \<open>auto simp: ld o(1) backed_def timeline_def curr_list_def\<close>)
qed

lemma init_history_represents:
  assumes "\<forall>l \<in> set ls. line_ok l" and "ls \<noteq> [] \<longrightarrow> hd ls \<noteq> []"
  shows "represents (init_history (lines_text ls)) (ls, length ls)"
proof (cases "ls = []")
  case True
  then show ?thesis
    by (auto simp: represents_def init_history_def load_history_def backed_def timeline_def curr_list_def)
next
  case False
  let ?h = "\<lparr>h_file = lines_text ls, h_pos = length (lines_text ls), h_topped = False, h_prev = [], h_curr = None, h_next = []\<rparr>"
  have "backed ls ?h" using assms False by (auto simp: backed_def timeline_def curr_list_def)
  from load_history_some [OF this False] obtain older ms where ms: "ls = older @ ms" "ms \<noteq> []"
      and h: "h_prev (load_history ?h) = rev ms" "h_curr (load_history ?h) = None" "h_next (load_history ?h) = []"
      and b: "backed older (load_history ?h)"
    by (metis history.select_convs(4-6))
  have "timeline (load_history ?h) = ms" using h by (simp add: timeline_def curr_list_def)
  then show ?thesis unfolding represents_def init_history_def
    by (intro exI [of _ older]) (use b h ms assms in auto)
qed

lemma represents_older:
  assumes "backed older h" "timeline h \<noteq> []" "h_curr h = None \<longrightarrow> h_next h = []" "\<forall>l \<in> set (timeline h). line_ok l"
    "hd (older @ timeline h) \<noteq> []" "s = (older @ timeline h, length older + length (h_prev h))"
  shows "represents h s"
  unfolding represents_def by (rule exI [of _ older]) (use assms in auto)

text \<open>Moving the cursor within the loaded commands.\<close>

lemma backed_cong:
  "backed older h \<Longrightarrow> timeline h' = timeline h \<Longrightarrow> h_file h' = h_file h \<Longrightarrow> h_pos h' = h_pos h \<Longrightarrow> h_topped h' = h_topped h
   \<Longrightarrow> backed older h'"
  by (simp add: backed_def)

lemma get_prev_loaded:
  assumes r: "represents h s" and p: "h_prev h = c # cs"
  shows "\<exists>h'. get_prev_command (Suc n) h = Some (fst (c_prev s), h') \<and> represents h' (snd (c_prev s))"
proof -
  obtain older where o: "backed older h" "s = (older @ timeline h, length older + length (h_prev h))"
      "h_curr h = None \<longrightarrow> h_next h = []" "\<forall>l \<in> set (timeline h). line_ok l" "fst s \<noteq> [] \<longrightarrow> hd (fst s) \<noteq> []"
    using r by (auto simp: represents_def)
  let ?h = "h\<lparr>h_next := curr_list h @ h_next h, h_curr := Some c, h_prev := cs\<rparr>"
  have t: "timeline ?h = timeline h" by (simp add: timeline_def p curr_list_def)
  have c: "c_prev s = (Some c, older @ timeline h, length older + length cs)"
    by (simp add: c_prev_def o(2) p nth_append timeline_def)
  have "represents ?h (older @ timeline h, length older + length cs)"
    by (rule represents_older [OF backed_cong [OF o(1) t]]) (use o t in \<open>auto simp: timeline_def p\<close>)
  then show ?thesis by (simp add: p c)
qed

lemma get_prev_refines:
  assumes r: "represents h s"
  shows "\<exists>h'. get_prev_command (Suc (Suc n)) h = Some (fst (c_prev s), h') \<and> represents h' (snd (c_prev s))"
proof (cases "h_prev h")
  case (Cons c cs)
  then show ?thesis by (rule get_prev_loaded [OF r])
next
  case Nil
  obtain older where o: "backed older h" "s = (older @ timeline h, length older)" "timeline h = [] \<longrightarrow> older = []"
      "h_curr h = None \<longrightarrow> h_next h = []" "\<forall>l \<in> set (timeline h). line_ok l" "fst s \<noteq> [] \<longrightarrow> hd (fst s) \<noteq> []"
    using r Nil by (auto simp: represents_def)
  show ?thesis
  proof (cases "older = []")
    case True
    then show ?thesis using o(1,2) Nil r by (simp add: backed_def c_prev_def)
  next
    case False
    from load_history_some [OF o(1) False Nil] obtain older' ls where ls: "older = older' @ ls" "ls \<noteq> []"
      and h: "h_prev (load_history h) = rev ls" "h_curr (load_history h) = h_curr h" "h_next (load_history h) = h_next h"
        "backed older' (load_history h)" by metis
    have t: "timeline (load_history h) = ls @ timeline h" using h Nil by (simp add: timeline_def curr_list_def)
    have "\<forall>l \<in> set ls. line_ok l" using o(1) ls by (auto simp: backed_def)
    then have "represents (load_history h) s"
      by (intro represents_older [OF h(4)]) (use o ls t h in auto)
    moreover obtain c cs where "h_prev (load_history h) = c # cs" using h(1) ls(2) by (cases "rev ls") auto
    ultimately have "\<exists>h'. get_prev_command (Suc n) (load_history h) = Some (fst (c_prev s), h') \<and> represents h' (snd (c_prev s))"
      by (rule get_prev_loaded)
    then show ?thesis using False o(1) Nil by (simp add: backed_def)
  qed
qed

lemma get_next_refines:
  assumes r: "represents h s"
  shows "fst (get_next_command h) = fst (c_next s) \<and> represents (snd (get_next_command h)) (snd (c_next s))"
proof -
  obtain older where o: "backed older h" "s = (older @ timeline h, length older + length (h_prev h))" "timeline h = [] \<longrightarrow> older = []"
      "h_curr h = None \<longrightarrow> h_next h = []" "\<forall>l \<in> set (timeline h). line_ok l" "fst s \<noteq> [] \<longrightarrow> hd (fst s) \<noteq> []"
    using r by (auto simp: represents_def)
  have t: "timeline (snd (get_next_command h)) = timeline h"
    by (cases "h_next h") (simp_all add: get_next_command_def timeline_def curr_list_def split: option.splits)
  have b: "backed older (snd (get_next_command h))"
    by (rule backed_cong [OF o(1) t]) (simp_all add: get_next_command_def split: list.splits)
  have "snd (c_next s) = (older @ timeline h, length older + length (h_prev (snd (get_next_command h))))
      \<and> fst (get_next_command h) = fst (c_next s)"
    using o(2,4) by (cases "h_next h"; cases "h_curr h")
      (auto simp: c_next_def get_next_command_def timeline_def curr_list_def nth_append)
  moreover have "h_curr (snd (get_next_command h)) = None \<longrightarrow> h_next (snd (get_next_command h)) = []"
    by (simp add: get_next_command_def split: list.splits)
  ultimately show ?thesis
    using o b t unfolding represents_def by (auto intro!: exI [of _ older])
qed

lemma log_command_refines:
  assumes r: "represents h s" and c: "line_ok c" and first: "fst s = [] \<longrightarrow> c \<noteq> []"
  shows "represents (log_command (c @ [10]) h) (c_log c s)"
proof -
  obtain older where o: "backed older h" "s = (older @ timeline h, length older + length (h_prev h))" "timeline h = [] \<longrightarrow> older = []"
      "\<forall>l \<in> set (timeline h). line_ok l" "fst s \<noteq> [] \<longrightarrow> hd (fst s) \<noteq> []"
    using r by (auto simp: represents_def)
  let ?h = "reset_command_position h"
  have p: "h_prev ?h = rev (timeline h)" and t: "timeline ?h = timeline h" and cur: "h_curr ?h = None" "h_next ?h = []"
    by (auto simp: reset_command_position_def timeline_def curr_list_def split: option.splits)
  have b: "backed older ?h" by (rule backed_cong [OF o(1) t]) (simp_all add: reset_command_position_def)
  show ?thesis
  proof (cases "timeline h \<noteq> [] \<and> last (timeline h) = c")
    case True
    then have "log_command (c @ [10]) h = ?h" by (simp add: log_command_def Let_def p hd_rev)
    moreover have "c_log c s = (older @ timeline h, length older + length (h_prev ?h))" using True by (simp add: c_log_def o(2) p)
    ultimately show ?thesis by (auto intro!: represents_older [OF b] simp: t cur o True) (use True o in auto)
  next
    case False
    let ?n = "?h\<lparr>h_file := h_file ?h @ c @ [10], h_prev := c # h_prev ?h\<rparr>"
    have l: "log_command (c @ [10]) h = ?n" using False by (auto simp: log_command_def Let_def p hd_rev)
    have t': "timeline ?n = timeline h @ [c]" using p cur by (simp add: timeline_def curr_list_def)
    have b': "backed older ?n" using b t t' by (simp add: backed_def)
    have "c_log c s = (older @ timeline h @ [c], length older + length (h_prev ?n))"
      using False o(3) by (auto simp: c_log_def o(2) p)
    then show ?thesis unfolding l
      by (intro represents_older [OF b']) (use t' cur o c first in \<open>auto simp: hd_append\<close>)
  qed
qed

section \<open>Sequences of operations\<close>

text \<open>What the user does with the history: control-P, control-N, and a command that is run.\<close>

datatype hop = Prev | Next | Log "byte list"

fun h_run :: "hop list \<Rightarrow> history \<Rightarrow> (byte list option list \<times> history) option" where
  "h_run [] h = Some ([], h)"
| "h_run (Prev # ops) h =
     (case get_prev_command 2 h of
        None \<Rightarrow> None
      | Some (r, h) \<Rightarrow> map_option (\<lambda>(rs, h). (r # rs, h)) (h_run ops h))"
| "h_run (Next # ops) h =
     (case get_next_command h of (r, h) \<Rightarrow> map_option (\<lambda>(rs, h). (r # rs, h)) (h_run ops h))"
| "h_run (Log c # ops) h = h_run ops (log_command (c @ [10]) h)"

fun c_run :: "hop list \<Rightarrow> cursor \<Rightarrow> byte list option list \<times> cursor" where
  "c_run [] s = ([], s)"
| "c_run (Prev # ops) s = (case c_prev s of (r, s) \<Rightarrow> case c_run ops s of (rs, s) \<Rightarrow> (r # rs, s))"
| "c_run (Next # ops) s = (case c_next s of (r, s) \<Rightarrow> case c_run ops s of (rs, s) \<Rightarrow> (r # rs, s))"
| "c_run (Log c # ops) s = c_run ops (c_log c s)"

fun hop_ok :: "hop \<Rightarrow> bool" where
  "hop_ok (Log c) = (line_ok c \<and> c \<noteq> [])"
| "hop_ok op = True"

lemma h_run_refines:
  "represents h s \<Longrightarrow> \<forall>op \<in> set ops. hop_ok op \<Longrightarrow>
   \<exists>h'. h_run ops h = Some (fst (c_run ops s), h') \<and> represents h' (snd (c_run ops s))"
proof (induction ops arbitrary: h s)
  case (Cons op ops)
  show ?case
  proof (cases op)
    case Prev
    obtain h1 where h1: "get_prev_command 2 h = Some (fst (c_prev s), h1)" "represents h1 (snd (c_prev s))"
      using get_prev_refines [OF Cons.prems(1), of 0] by (auto simp: numeral_2_eq_2)
    show ?thesis using Cons.IH [OF h1(2)] Cons.prems(2) h1(1) by (auto simp: Prev split: prod.splits)
  next
    case Next
    show ?thesis
      using Cons.IH [OF conjunct2 [OF get_next_refines [OF Cons.prems(1)]]] get_next_refines [OF Cons.prems(1)] Cons.prems(2)
      by (auto simp: Next split: prod.splits)
  next
    case (Log c)
    then show ?thesis using Cons.IH [OF log_command_refines [OF Cons.prems(1), of c]] Cons.prems(2) by simp
  qed
qed simp

lemma represents_file: "represents h s \<Longrightarrow> h_file h = lines_text (fst s)"
  by (auto simp: represents_def backed_def)

text \<open>
  C26. The shell's command history implements a list of commands with a cursor. Starting from a history file of any
  length, whose first line is not empty and whose lines have fewer than 253 bytes, every sequence of control-P, control-N and logged commands shows
  the commands that the list shows, although the shell loads the file backwards in chunks of 255 bytes
  and keeps the commands in three linked lists; no step gets stuck, and at the end the file holds all commands in order, so that the next shell
  starts from the same list.
\<close>

theorem history_refines_cursor:
  assumes "\<forall>l \<in> set ls. line_ok l" and "ls \<noteq> [] \<longrightarrow> hd ls \<noteq> []" and "\<forall>op \<in> set ops. hop_ok op"
  shows "\<exists>h. h_run ops (init_history (lines_text ls)) = Some (fst (c_run ops (ls, length ls)), h)
    \<and> h_file h = lines_text (fst (snd (c_run ops (ls, length ls))))"
  using h_run_refines [OF init_history_represents [OF assms(1,2)] assms(3)] represents_file by blast

theorem history_refines_cursor_witness:
  "\<exists>h. h_run [Prev, Prev, Prev, Next, Log [99], Prev] (init_history [97, 10, 98, 10])
      = Some ([Some [98], Some [97], None, Some [98], Some [99]], h)
    \<and> h_file h = [97, 10, 98, 10, 99, 10]"
  using history_refines_cursor [of "[[97], [98]]" "[Prev, Prev, Prev, Next, Log [99], Prev]"]
  by (simp add: line_ok_def c_prev_def c_next_def c_log_def)

text \<open>
  A first line that is empty is not found by the scan, which stops before the first byte of the file: it is loaded
  together with the line after it.
\<close>

lemma first_line_empty_merges:
  "h_prev (init_history (lines_text [[], [97]])) = [[10, 97]]"
  by (simp add: init_history_def load_history_def load_history_command_def DEFAULT_LOAD_def cstr_def)

text \<open>A chunk of 255 bytes that is a single line makes no progress, and \<^verbatim>\<open>get_prev_command\<close> calls itself for ever.\<close>

lemma load_scan_no_newline: "10 \<notin> set l \<Longrightarrow> p < length l \<Longrightarrow> load_scan p (l @ r) nl h = (nl, l @ r, h)"
  by (induction p) (auto simp: nth_append, metis Suc_lessD nth_mem)

lemma load_history_stuck:
  assumes l: "10 \<notin> set l" "255 \<le> length l" and f: "h_file h = l @ [10]" "h_pos h = length l + 1" "\<not> h_topped h"
  shows "load_history h = h"
proof -
  define a where "a = drop (length l - 254) l"
  have a: "length a = 254" "10 \<notin> set a" "drop (length l - 254) (l @ [10]) = a @ [10]"
    using l by (auto simp: a_def dest: in_set_dropD)
  have scan: "load_scan 253 (a @ [0]) nl h' = (nl, a @ [0], h')" for nl h'
    by (rule load_scan_no_newline) (use a in auto)
  have p: "length l + 1 - DEFAULT_LOAD = length l - 254" "length l - 254 \<noteq> 0" using l by (auto simp: DEFAULT_LOAD_def)
  have u: "(a @ [10])[254 := 0] = a @ [0]" using a(1) by (simp add: list_update_append)
  have r: "h\<lparr>h_pos := h_pos h, h_topped := False\<rparr> = h" using f(3) by simp
  show ?thesis
    unfolding load_history_def Let_def using l f a p scan u r by (simp add: min_def)
qed

lemma long_line_stuck:
  assumes "10 \<notin> set l" "255 \<le> length l"
  shows "get_prev_command n (init_history (l @ [10])) = None"
proof -
  let ?h = "\<lparr>h_file = l @ [10], h_pos = length (l @ [10]), h_topped = False, h_prev = [], h_curr = None, h_next = []\<rparr>"
  have "load_history ?h = ?h" by (rule load_history_stuck [OF assms]) auto
  then show ?thesis unfolding init_history_def by (induction n) auto
qed

end
