(* ===== verification/Umalloc.thy ===== *)
theory Umalloc
  imports Prelude
begin

text \<open>
  \<^verbatim>\<open>src/umalloc.c\<close>: the allocator of user programs. Memory is seen in units of the 16 bytes of a \<^verbatim>\<open>Header\<close>: an address is
  the number of a unit, and a unit has a pointer and a size, also where a program keeps its data. The circular list of
  free blocks is followed with fuel; it is shown that the loops end. The size is an unsigned 32-bit number.
\<close>

section \<open>State and operations\<close>

text \<open>\<open>um_freep\<close> is 0 before the first call; \<open>um_brk\<close> is the end of the process's memory.\<close>

record um =
  um_ptr :: "nat \<Rightarrow> nat"
  um_size :: "nat \<Rightarrow> nat"
  um_freep :: nat
  um_brk :: nat

definition set_ptr :: "nat \<Rightarrow> nat \<Rightarrow> um \<Rightarrow> um" where
  "set_ptr a v st = st\<lparr>um_ptr := (um_ptr st)(a := v)\<rparr>"

definition set_size :: "nat \<Rightarrow> nat \<Rightarrow> um \<Rightarrow> um" where
  "set_size a v st = st\<lparr>um_size := (um_size st)(a := v mod 2 ^ 32)\<rparr>"

text \<open>The loop of \<^verbatim>\<open>free\<close>: the free block after which \<open>bp\<close> belongs.\<close>

definition free_stop :: "um \<Rightarrow> nat \<Rightarrow> nat \<Rightarrow> bool" where
  "free_stop st bp p \<longleftrightarrow>
     (let q = um_ptr st p in bp > p \<and> bp < q \<or> p \<ge> q \<and> (bp > p \<or> bp < q))"

fun free_find :: "nat \<Rightarrow> um \<Rightarrow> nat \<Rightarrow> nat \<Rightarrow> nat option" where
  "free_find 0 st bp p = None"
| "free_find (Suc n) st bp p = (if free_stop st bp p then Some p else free_find n st bp (um_ptr st p))"

definition free_right :: "nat \<Rightarrow> nat \<Rightarrow> um \<Rightarrow> um" where
  "free_right bp p st =
     (let q = um_ptr st p in
      if bp + um_size st bp = q then set_ptr bp (um_ptr st q) (set_size bp (um_size st bp + um_size st q) st)
      else set_ptr bp q st)"

definition free_left :: "nat \<Rightarrow> nat \<Rightarrow> um \<Rightarrow> um" where
  "free_left bp p st =
     (if p + um_size st p = bp then set_ptr p (um_ptr st bp) (set_size p (um_size st p + um_size st bp) st)
      else set_ptr p bp st)"

definition free :: "nat \<Rightarrow> nat \<Rightarrow> um \<Rightarrow> um option" where
  "free fuel ap st =
     (let bp = ap - 1 in
      case free_find fuel st bp (um_freep st) of
        None \<Rightarrow> None
      | Some p \<Rightarrow> Some ((free_left bp p (free_right bp p st))\<lparr>um_freep := p\<rparr>))"

text \<open>
  \<^verbatim>\<open>sbrk\<close>: \<open>grant\<close> tells whether the kernel gives the process that many more units. The number of bytes is converted to \<^verbatim>\<open>int\<close>: from
  \<open>2 ^ 27\<close> units on it is no positive number, and the model does not go on (\<open>None\<close>), as when the fuel is used up.
\<close>

definition morecore :: "nat \<Rightarrow> (nat \<Rightarrow> nat \<Rightarrow> bool) \<Rightarrow> nat \<Rightarrow> um \<Rightarrow> (nat \<times> um) option" where
  "morecore fuel grant nu st =
     (let nu = (if nu < 4096 then 4096 else nu) in
      if nu \<ge> 2 ^ 27 then None
      else if \<not> grant (um_brk st) nu then Some (0, st)
      else let hp = um_brk st in
           map_option (\<lambda>st. (um_freep st, st)) (free fuel (hp + 1) (set_size hp nu (st\<lparr>um_brk := hp + nu\<rparr>))))"

definition take_block :: "nat \<Rightarrow> nat \<Rightarrow> nat \<Rightarrow> um \<Rightarrow> nat \<times> um" where
  "take_block nunits prevp p st =
     (if um_size st p = nunits then (p + 1, (set_ptr prevp (um_ptr st p) st)\<lparr>um_freep := prevp\<rparr>)
      else let rest = um_size st p - nunits; q = p + rest in
           (q + 1, (set_size q nunits (set_size p rest st))\<lparr>um_freep := prevp\<rparr>))"

fun malloc_loop :: "nat \<Rightarrow> (nat \<Rightarrow> nat \<Rightarrow> bool) \<Rightarrow> nat \<Rightarrow> nat \<Rightarrow> nat \<Rightarrow> um \<Rightarrow> (nat \<times> um) option" where
  "malloc_loop 0 grant nunits prevp p st = None"
| "malloc_loop (Suc n) grant nunits prevp p st =
     (if um_size st p \<ge> nunits then Some (take_block nunits prevp p st)
      else if p = um_freep st then
        (case morecore n grant nunits st of
           None \<Rightarrow> None
         | Some (p, st) \<Rightarrow> if p = 0 then Some (0, st) else malloc_loop n grant nunits p (um_ptr st p) st)
      else malloc_loop n grant nunits p (um_ptr st p) st)"

definition units :: "nat \<Rightarrow> nat" where
  "units nbytes = (nbytes + 16 - 1) div 16 + 1"

definition malloc_start :: "nat \<Rightarrow> um \<Rightarrow> um" where
  "malloc_start base st = (if um_freep st = 0 then set_size base 0 (set_ptr base base (st\<lparr>um_freep := base\<rparr>)) else st)"

definition malloc :: "nat \<Rightarrow> nat \<Rightarrow> (nat \<Rightarrow> nat \<Rightarrow> bool) \<Rightarrow> nat \<Rightarrow> um \<Rightarrow> (nat \<times> um) option" where
  "malloc fuel base grant nbytes st =
     (let st = malloc_start base st; prevp = um_freep st in malloc_loop fuel grant (units nbytes) prevp (um_ptr st prevp) st)"

section \<open>Circular lists\<close>

fun linked :: "(nat \<Rightarrow> nat) \<Rightarrow> nat list \<Rightarrow> nat \<Rightarrow> bool" where
  "linked f [] t = True"
| "linked f (x # xs) t = (f x = hd (xs @ [t]) \<and> linked f xs t)"

lemma linked_append: "linked f (xs @ ys) t \<longleftrightarrow> linked f xs (hd (ys @ [t])) \<and> linked f ys t"
  by (induction xs) (auto simp: hd_append)

lemma linked_upd [simp]: "a \<notin> set xs \<Longrightarrow> linked (f(a := v)) xs t = linked f xs t"
  by (induction xs) auto

text \<open>Walking along a part of a list where the search does not stop.\<close>

lemma free_find_skip:
  "linked (um_ptr st) zs t \<Longrightarrow> \<forall>x \<in> set zs. \<not> free_stop st bp x \<Longrightarrow>
   free_find (length zs + n) st bp (hd (zs @ [t])) = free_find n st bp t"
proof (induction zs)
  case (Cons z zs)
  then show ?case by (simp add: hd_append)
qed simp

section \<open>The free list\<close>

text \<open>
  \<open>ns\<close> are the blocks of the free list in the order of their addresses. The first is \<^verbatim>\<open>base\<close>, of size 0, below the heap
  \<open>lo\<close>; the others lie in the heap, and no two of them overlap or are adjacent.
\<close>

definition blocks_ok :: "nat \<Rightarrow> nat \<Rightarrow> (nat \<Rightarrow> nat) \<Rightarrow> nat list \<Rightarrow> bool" where
  "blocks_ok lo hi sz ns \<longleftrightarrow>
     ns \<noteq> [] \<and> sz (hd ns) = 0 \<and> 0 < hd ns \<and> hd ns < lo \<and> sorted_wrt (\<lambda>x y. x + sz x < y) ns
     \<and> (\<forall>x \<in> set (tl ns). lo \<le> x \<and> 0 < sz x \<and> x + sz x \<le> hi) \<and> lo \<le> hi \<and> hi < 2 ^ 32"

definition fl_ok :: "nat \<Rightarrow> nat list \<Rightarrow> um \<Rightarrow> bool" where
  "fl_ok lo ns st \<longleftrightarrow> blocks_ok lo (um_brk st) (um_size st) ns \<and> linked (um_ptr st) ns (hd ns) \<and> um_freep st \<in> set ns"

definition span :: "nat \<Rightarrow> nat \<Rightarrow> nat set" where
  "span a n = {a..<a + n}"

definition free_units :: "(nat \<Rightarrow> nat) \<Rightarrow> nat list \<Rightarrow> nat set" where
  "free_units sz ns = (\<Union>x \<in> set (tl ns). span x (sz x))"

lemma blocks_sorted: "blocks_ok lo hi sz ns \<Longrightarrow> sorted_wrt (<) ns"
  by (auto simp: blocks_ok_def elim: sorted_wrt_mono_rel [rotated])

lemma blocks_distinct: "blocks_ok lo hi sz ns \<Longrightarrow> distinct ns"
  using blocks_sorted strict_sorted_iff by blast

lemma in_span: "a \<in> span b n \<longleftrightarrow> b \<le> a \<and> a < b + n"
  by (auto simp: span_def)

text \<open>Where a block that is not free belongs: after \<open>p\<close> and before \<open>ys\<close>.\<close>

lemma free_place:
  assumes b: "blocks_ok lo hi sz ns" and s: "0 < s" "lo \<le> bp" and d: "span bp s \<inter> free_units sz ns = {}"
  obtains us p ys where "ns = us @ p # ys" "\<forall>x \<in> set (us @ [p]). x < bp" "p + sz p \<le> bp" "\<forall>y \<in> set ys. bp + s \<le> y"
proof -
  have out: "bp \<noteq> x \<and> (bp < x \<longrightarrow> bp + s \<le> x) \<and> (x < bp \<longrightarrow> x + sz x \<le> bp)" if "x \<in> set (tl ns)" for x
  proof -
    have "0 < sz x" using b that by (auto simp: blocks_ok_def)
    then have x: "x \<in> free_units sz ns" using that by (auto simp: free_units_def in_span)
    have "bp \<in> span bp s" using s by (simp add: in_span)
    then have n: "bp \<notin> span x (sz x)" and m: "x \<notin> span bp s" using d that x by (auto simp: free_units_def)
    then show ?thesis using \<open>0 < sz x\<close> s by (auto simp: in_span)
  qed
  let ?P = "\<lambda>x. x < bp"
  have base: "ns = hd ns # tl ns" "hd ns < bp" "sz (hd ns) = 0" using b s by (auto simp: blocks_ok_def)
  then have "takeWhile ?P ns \<noteq> []" by (metis takeWhile.simps(2) list.distinct(1))
  then obtain us p where up: "takeWhile ?P ns = us @ [p]" by (metis rev_exhaust)
  have ns: "ns = us @ p # dropWhile ?P ns" using takeWhile_dropWhile_id [of ?P ns] up by simp
  have lt: "\<forall>x \<in> set (us @ [p]). x < bp" unfolding up [symmetric] by (auto dest: set_takeWhileD)
  have in_tl: "x \<in> set (tl ns)" if "x \<in> set ns" "x \<noteq> hd ns" for x using that base(1) by (metis set_ConsD)
  have "p \<in> set ns" using ns by (metis in_set_conv_decomp)
  then have "p + sz p \<le> bp"
    using out [OF in_tl, of p] lt base by (cases "p = hd ns") auto
  moreover have "bp + s \<le> y" if y: "y \<in> set (dropWhile ?P ns)" for y
  proof -
    have "y \<in> set ns" using y by (rule set_dropWhileD)
    have "dropWhile ?P ns \<noteq> []" using y by (metis empty_iff empty_set)
    then have hdd: "\<not> hd (dropWhile ?P ns) < bp" by (rule hd_dropWhile)
    have "sorted_wrt (<) (dropWhile ?P ns)"
      using blocks_sorted [OF b] by (subst (asm) ns) (simp add: sorted_wrt_append)
    then have "hd (dropWhile ?P ns) \<le> y" using y by (cases "dropWhile ?P ns") auto
    then have "bp \<le> y" using hdd by simp
    then show ?thesis using out [OF in_tl [OF \<open>y \<in> set ns\<close>]] base(2) by force
  qed
  ultimately show thesis using that [OF ns lt] by blast
qed

lemma linked_nth: "linked f xs t \<Longrightarrow> i < length xs \<Longrightarrow> f (xs ! i) = (xs @ [t]) ! Suc i"
proof (induction xs arbitrary: i)
  case (Cons x xs)
  then show ?case by (cases i) (auto simp: hd_append hd_conv_nth nth_append)
qed simp

lemma linked_mid: "linked f (xs @ x # ys) t \<Longrightarrow> f x = hd (ys @ [t])"
  by (simp add: linked_append)

lemma hd_mid: "hd (xs @ x # ys) = hd (xs @ [x])"
  by (cases xs) auto

text \<open>The cycle, seen from one of its elements.\<close>

lemma linked_rotate:
  assumes "linked f (as @ x # bs) (hd (as @ [x]))"
  shows "f x = hd (bs @ as @ [x])" and "linked f (bs @ as) x"
  using assms by (auto simp: linked_append hd_append)

lemma free_stops:
  assumes l: "linked (um_ptr st) (us @ p # ys) (hd (us @ [p]))" and so: "sorted_wrt (<) (us @ p # ys)"
    and lt: "\<forall>x \<in> set (us @ [p]). x < bp" and gt: "\<forall>y \<in> set ys. bp < y" and x: "x \<in> set (us @ p # ys)"
  shows "free_stop st bp x \<longleftrightarrow> x = p"
proof -
  let ?b = "hd (us @ [p])"
  have b: "?b < bp" using lt by (cases us) auto
  consider "x = p" | us1 us2 where "us = us1 @ x # us2" | ys1 ys2 where "ys = ys1 @ x # ys2"
    using x by (auto dest: split_list)
  then show ?thesis
  proof cases
    case 1
    moreover have "?b \<le> p" using so by (cases us) (auto simp: sorted_wrt_append)
    ultimately show ?thesis using linked_mid [OF l] lt gt b by (cases ys) (auto simp: free_stop_def)
  next
    case 2
    then have "um_ptr st x = hd (us2 @ [p])" "x < hd (us2 @ [p])" "hd (us2 @ [p]) < bp" "x \<noteq> p"
      using l so lt linked_mid [of "um_ptr st" us1 x "us2 @ p # ys"] by (cases us2; auto simp: sorted_wrt_append)+
    then show ?thesis by (auto simp: free_stop_def)
  next
    case 3
    then have f: "um_ptr st x = hd (ys2 @ [?b])" and "bp < x" "x \<noteq> p"
      using l so gt linked_mid [of "um_ptr st" "us @ p # ys1" x ys2] by (auto simp: sorted_wrt_append)
    moreover have "ys2 \<noteq> [] \<Longrightarrow> x < hd (ys2 @ [?b])" using so 3 by (cases ys2) (auto simp: sorted_wrt_append)
    ultimately show ?thesis using b by (cases "ys2 = []") (auto simp: free_stop_def)
  qed
qed

lemma free_find_found:
  assumes l: "linked (um_ptr st) ns (hd ns)" and ns: "ns = us @ p # ys" and so: "sorted_wrt (<) ns"
    and lt: "\<forall>x \<in> set (us @ [p]). x < bp" and gt: "\<forall>y \<in> set ys. bp < y"
    and q: "q \<in> set ns" and fuel: "length ns \<le> fuel"
  shows "free_find fuel st bp q = Some p"
proof -
  have l': "linked (um_ptr st) (us @ p # ys) (hd (us @ [p]))" using l ns by (cases us) simp_all
  note stop = free_stops [OF l' so [unfolded ns] lt gt]
  have d: "distinct (us @ p # ys)" using so ns strict_sorted_iff by blast
  obtain as bs where ab: "ns = as @ q # bs" using q by (auto dest: split_list)
  have rot: "linked (um_ptr st) (bs @ as) q" "um_ptr st q = hd (bs @ as @ [q])"
    using linked_rotate [of "um_ptr st" as q bs] l unfolding ab hd_mid [of as q bs] by blast+
  have path: "linked (um_ptr st) (q # bs @ as) q" using rot by simp
  have sub: "set (q # bs @ as) = set ns" using ab by auto
  then have "p \<in> set (q # bs @ as)" using ns by simp
  then obtain zs ws where z: "q # bs @ as = zs @ p # ws" by (metis split_list)
  have "distinct ns" using d ns by simp
  then have dz: "distinct (q # bs @ as)" using ab by auto
  have "\<not> free_stop st bp x" if "x \<in> set zs" for x
  proof -
    have "x \<in> set (us @ p # ys)" using that z sub ns by (metis Un_iff set_append)
    moreover have "x \<noteq> p" using that dz z by auto
    ultimately show ?thesis using stop by simp
  qed
  moreover have "linked (um_ptr st) zs p" using path unfolding z by (simp add: linked_append)
  ultimately have "free_find (length zs + n) st bp (hd (zs @ [p])) = free_find n st bp p" for n
    by (intro free_find_skip) auto
  moreover have "hd (zs @ [p]) = q" using z by (cases zs) auto
  moreover have "length zs < length ns" using arg_cong [OF z, of length] ab by simp
  then obtain n where "fuel = length zs + Suc n" using fuel by (metis add_Suc_right less_iff_Suc_add less_le_trans)
  moreover have "free_stop st bp p" using stop by simp
  ultimately show ?thesis by (metis free_find.simps(2))
qed

section \<open>Freeing a block\<close>

lemma set_simps [simp]:
  "um_ptr (set_ptr a v st) = (um_ptr st)(a := v)" "um_size (set_ptr a v st) = um_size st"
  "um_ptr (set_size a v st) = um_ptr st" "um_size (set_size a v st) = (um_size st)(a := v mod 2 ^ 32)"
  "um_brk (set_ptr a v st) = um_brk st" "um_brk (set_size a v st) = um_brk st"
  "um_freep (set_ptr a v st) = um_freep st" "um_freep (set_size a v st) = um_freep st"
  by (simp_all add: set_ptr_def set_size_def)

text \<open>A run of free blocks that is not yet linked to what comes before it.\<close>

definition run_ok :: "nat \<Rightarrow> nat \<Rightarrow> (nat \<Rightarrow> nat) \<Rightarrow> nat list \<Rightarrow> bool" where
  "run_ok lo hi sz xs \<longleftrightarrow>
     sorted_wrt (\<lambda>x y. x + sz x < y) xs \<and> (\<forall>x \<in> set xs. lo \<le> x \<and> 0 < sz x \<and> x + sz x \<le> hi)"

lemma blocks_run: "blocks_ok lo hi sz (us @ p # ys) \<Longrightarrow> run_ok lo hi sz ys"
  by (cases us) (auto simp: blocks_ok_def run_ok_def sorted_wrt_append)

lemma run_ok_cong: "run_ok lo hi sz xs \<Longrightarrow> \<forall>x \<in> set xs. sz' x = sz x \<Longrightarrow> run_ok lo hi sz' xs"
  by (induction xs) (auto simp: run_ok_def)

lemma run_ok_Cons:
  "run_ok lo hi sz (x # xs) \<longleftrightarrow> (\<forall>y \<in> set xs. x + sz x < y) \<and> lo \<le> x \<and> 0 < sz x \<and> x + sz x \<le> hi \<and> run_ok lo hi sz xs"
  by (auto simp: run_ok_def)

lemma run_distinct: "run_ok lo hi sz xs \<Longrightarrow> distinct xs"
  by (induction xs) (fastforce simp: run_ok_Cons run_ok_def)+

text \<open>The block takes in its right neighbour.\<close>

lemma free_right_run:
  assumes r: "run_ok lo hi (um_size st) ys" "hi < 2 ^ 32" and l: "linked (um_ptr st) ys b" "um_ptr st p = hd (ys @ [b])"
    and bp: "lo \<le> bp" "0 < um_size st bp" "bp + um_size st bp \<le> hi" "b < bp" "\<forall>y \<in> set ys. bp + um_size st bp \<le> y"
  obtains ys2 v where "free_right bp p st = set_ptr bp (hd (ys2 @ [b])) (set_size bp v st)"
    "run_ok lo hi ((um_size st)(bp := v)) (bp # ys2)" "linked (um_ptr st) ys2 b" "set ys2 \<subseteq> set ys" "um_size st bp \<le> v"
    "span bp v \<union> (\<Union>x \<in> set ys2. span x (um_size st x)) = span bp (um_size st bp) \<union> (\<Union>x \<in> set ys. span x (um_size st x))"
proof (cases "bp + um_size st bp = um_ptr st p")
  case True
  then obtain y ys' where ys: "ys = y # ys'" "um_ptr st p = y" using l(2) bp by (cases ys) auto
  let ?v = "um_size st bp + um_size st y"
  have y: "0 < um_size st y" "y + um_size st y \<le> hi" "um_ptr st y = hd (ys' @ [b])" "\<forall>x \<in> set ys'. bp \<noteq> x"
    using r(1) l bp by (auto simp: ys run_ok_def)
  show thesis
  proof (rule that [of ys' ?v])
    show "free_right bp p st = set_ptr bp (hd (ys' @ [b])) (set_size bp ?v st)"
      using True ys(2) y(3) by (simp add: free_right_def Let_def)
    show "run_ok lo hi ((um_size st)(bp := ?v)) (bp # ys')"
    proof -
      have "run_ok lo hi ((um_size st)(bp := ?v)) ys'"
        by (rule run_ok_cong [where sz = "um_size st"]) (use r(1) y in \<open>auto simp: ys run_ok_Cons\<close>)
      moreover have "\<forall>x \<in> set ys'. y + um_size st y < x" using r(1) by (simp add: ys run_ok_Cons)
      ultimately show ?thesis using bp True ys(2) y(1,2) by (simp add: run_ok_Cons add.assoc [symmetric])
    qed
    show "span bp ?v \<union> (\<Union>x \<in> set ys'. span x (um_size st x)) = span bp (um_size st bp) \<union> (\<Union>x \<in> set ys. span x (um_size st x))"
      using True ys by (auto simp: in_span)
  qed (use l ys in auto)
next
  case False
  have s: "um_size st bp mod 2 ^ 32 = um_size st bp" using r(2) bp(3) by simp
  show thesis
  proof (rule that [of ys "um_size st bp"])
    have "bp + um_size st bp < y" if "y \<in> set ys" for y
    proof -
      obtain z zs where z: "ys = z # zs" using \<open>y \<in> set ys\<close> by (cases ys) auto
      have "bp + um_size st bp < z" using False bp(5) l(2) by (simp add: z)
      moreover have "z \<le> y" using r(1) \<open>y \<in> set ys\<close> by (auto simp: z run_ok_Cons)
      ultimately show ?thesis by simp
    qed
    then show "run_ok lo hi ((um_size st)(bp := um_size st bp)) (bp # ys)" using r(1) bp by (simp add: run_ok_Cons)
    have "set_size bp (um_size st bp) st = st" using s by (simp add: set_size_def)
    then show "free_right bp p st = set_ptr bp (hd (ys @ [b])) (set_size bp (um_size st bp) st)"
      using False l(2) by (simp add: free_right_def Let_def)
  qed (use l in auto)
qed

text \<open>A list with a new end.\<close>

lemma blocks_glue:
  assumes b: "blocks_ok lo hi sz (us @ rest)" "us \<noteq> []" and r: "run_ok lo hi sz' zs"
    and same: "\<forall>u \<in> set us. sz' u = sz u" and gap: "\<forall>u \<in> set us. \<forall>z \<in> set zs. u + sz u < z"
  shows "blocks_ok lo hi sz' (us @ zs)"
proof -
  have so: "sorted_wrt (\<lambda>x y. x + sz x < y) us" using b by (simp add: blocks_ok_def sorted_wrt_append)
  have "sorted_wrt (\<lambda>x y. x + sz' x < y) us"
    by (rule sorted_wrt_mono_rel [OF _ so]) (use same in simp)
  then show ?thesis
    using b r same gap by (cases us) (auto simp: blocks_ok_def run_ok_def sorted_wrt_append)
qed

lemma blocks_cong: "blocks_ok lo hi sz ns \<Longrightarrow> \<forall>x \<in> set ns. sz' x = sz x \<Longrightarrow> blocks_ok lo hi sz' ns"
  using blocks_glue [of lo hi sz ns "[]" sz' "[]"] by (simp add: blocks_ok_def run_ok_def)

lemma free_units_append: "us \<noteq> [] \<Longrightarrow> free_units sz (us @ zs) = free_units sz us \<union> (\<Union>x \<in> set zs. span x (sz x))"
  by (auto simp: free_units_def)

lemma free_units_cong: "\<forall>u \<in> set us. sz' u = sz u \<Longrightarrow> free_units sz' us = free_units sz us"
  by (cases us) (auto simp: free_units_def)

text \<open>The block is taken in by its left neighbour, or linked after it.\<close>

lemma free_left_list:
  assumes b: "blocks_ok lo hi (um_size st) (us @ p # rest)" and l: "linked (um_ptr st) us p"
    and r: "run_ok lo hi (um_size st) (bp # ys)" and lys: "linked (um_ptr st) (bp # ys) (hd (us @ [p]))"
    and p: "p < bp" "p + um_size st p \<le> bp" "set ys \<subseteq> set rest"
  obtains ns' where "blocks_ok lo hi (um_size (free_left bp p st)) ns'" "linked (um_ptr (free_left bp p st)) ns' (hd ns')"
    "p \<in> set ns'" "hd ns' = hd (us @ [p])" "length ns' \<le> length us + length ys + 2"
    "free_units (um_size (free_left bp p st)) ns' = free_units (um_size st) (us @ p # bp # ys)"
    "\<exists>x \<in> set (tl ns'). x \<le> bp \<and> bp + um_size st bp \<le> x + um_size (free_left bp p st) x"
    "\<forall>a. a \<noteq> p \<longrightarrow> um_ptr (free_left bp p st) a = um_ptr st a \<and> um_size (free_left bp p st) a = um_size st a"
proof -
  have d: "distinct (us @ p # rest)" by (rule blocks_distinct [OF b])
  have lt: "\<forall>u \<in> set us. u + um_size st u < p" using b by (simp add: blocks_ok_def sorted_wrt_append)
  have hi: "hi < 2 ^ 32" using b by (simp add: blocks_ok_def)
  have nin: "bp \<notin> set us" "p \<notin> set us" "p \<notin> set ys" using d lt p by auto
  show thesis
  proof (cases "p + um_size st p = bp")
    case True
    let ?v = "um_size st p + um_size st bp" and ?st = "free_left bp p st"
    have "bp + um_size st bp < 2 ^ 32" using r hi by (simp add: run_ok_Cons)
    then have st: "?st = set_ptr p (hd (ys @ [hd (us @ [p])])) (set_size p ?v st)" and v: "?v mod 2 ^ 32 = ?v"
      using True lys by (auto simp: free_left_def)
    have us: "us \<noteq> []" using b p True by (cases us) (auto simp: blocks_ok_def)
    have pin: "lo \<le> p" using b us by (cases us) (auto simp: blocks_ok_def)
    have ry: "run_ok lo hi (um_size ?st) ys"
      by (rule run_ok_cong [where sz = "um_size st"]) (use r nin in \<open>auto simp: st run_ok_Cons\<close>)
    show thesis
    proof (rule that [of "us @ p # ys"])
      have "run_ok lo hi (um_size ?st) (p # ys)" using ry r True pin v by (auto simp: run_ok_Cons st)
      then show "blocks_ok lo hi (um_size ?st) (us @ p # ys)"
        by (rule blocks_glue [OF b us]) (use lt nin r p in \<open>auto simp: st run_ok_Cons\<close>, fastforce)
      show "linked (um_ptr ?st) (us @ p # ys) (hd (us @ p # ys))"
        using l lys nin us by (simp add: st linked_append hd_append)
      show "free_units (um_size ?st) (us @ p # ys) = free_units (um_size st) (us @ p # bp # ys)"
      proof -
        have "free_units (um_size ?st) us = free_units (um_size st) us" by (rule free_units_cong) (use nin in \<open>auto simp: st\<close>)
        moreover have "(\<Union>x \<in> set ys. span x (um_size ?st x)) = (\<Union>x \<in> set ys. span x (um_size st x))"
          by (rule SUP_cong) (use nin in \<open>auto simp: st\<close>)
        moreover have "span p (um_size ?st p) = span p (um_size st p) \<union> span bp (um_size st bp)"
          using True v by (auto simp: st in_span)
        ultimately show ?thesis using us by (simp add: free_units_append Un_assoc)
      qed
      show "\<exists>x \<in> set (tl (us @ p # ys)). x \<le> bp \<and> bp + um_size st bp \<le> x + um_size ?st x"
        using us True v p by (intro bexI [of _ p]) (auto simp: st)
    qed (use us in \<open>auto simp: st hd_append\<close>)
  next
    case False
    let ?st = "free_left bp p st"
    have st: "?st = set_ptr p bp st" using False by (simp add: free_left_def)
    show thesis
    proof (rule that [of "us @ p # bp # ys"])
      have "blocks_ok lo hi (um_size ?st) ((us @ [p]) @ bp # ys)"
        by (rule blocks_glue [of lo hi "um_size st" _ rest]) (use b r lt p False in \<open>auto simp: st run_ok_Cons\<close>, (fastforce+)?)
      then show "blocks_ok lo hi (um_size ?st) (us @ p # bp # ys)" by simp
      show "linked (um_ptr ?st) (us @ p # bp # ys) (hd (us @ p # bp # ys))"
        using l lys nin p by (auto simp: st linked_append hd_append)
      show "\<exists>x \<in> set (tl (us @ p # bp # ys)). x \<le> bp \<and> bp + um_size st bp \<le> x + um_size ?st x"
      proof (rule bexI [of _ bp])
        show "bp \<in> set (tl (us @ p # bp # ys))" by (cases us) auto
      qed (simp add: st)
    qed (auto simp: st hd_append)
  qed
qed

text \<open>
  Freeing a block that does not overlap the free blocks: the loop ends, the list stays well formed, and exactly
  the units of the block become free. Only headers of free blocks are written.
\<close>

lemma free_frees:
  assumes f: "fl_ok lo ns st" and bp: "0 < um_size st bp" "lo \<le> bp" "bp + um_size st bp \<le> um_brk st"
    and d: "span bp (um_size st bp) \<inter> free_units (um_size st) ns = {}" and fuel: "length ns \<le> fuel"
  obtains ns' st' where "free fuel (bp + 1) st = Some st'" "fl_ok lo ns' st'" "hd ns' = hd ns" "um_brk st' = um_brk st"
    "length ns' \<le> length ns + 1"
    "free_units (um_size st') ns' = free_units (um_size st) ns \<union> span bp (um_size st bp)"
    "\<exists>x \<in> set (tl ns'). x \<le> bp \<and> bp + um_size st bp \<le> x + um_size st' x"
    "\<forall>a. a \<noteq> bp \<and> a \<notin> set ns \<longrightarrow> um_ptr st' a = um_ptr st a \<and> um_size st' a = um_size st a"
proof -
  have b: "blocks_ok lo (um_brk st) (um_size st) ns" and l: "linked (um_ptr st) ns (hd ns)" and fp: "um_freep st \<in> set ns"
    using f by (auto simp: fl_ok_def)
  from free_place [OF b bp(1,2) d] obtain us p ys where ns: "ns = us @ p # ys" and lt: "\<forall>x \<in> set (us @ [p]). x < bp"
    and pg: "p + um_size st p \<le> bp" and gt: "\<forall>y \<in> set ys. bp + um_size st bp \<le> y" .
  let ?b = "hd (us @ [p])"
  have hd: "hd ns = ?b" unfolding ns by (rule hd_mid)
  have "\<forall>y \<in> set ys. bp < y" using gt bp(1) by fastforce
  then have find: "free_find fuel st bp (um_freep st) = Some p"
    by (rule free_find_found [OF l ns blocks_sorted [OF b] lt _ fp fuel])
  have l': "linked (um_ptr st) us p" "um_ptr st p = hd (ys @ [?b])" "linked (um_ptr st) ys ?b"
    using l hd unfolding ns by (auto simp: linked_append)
  have bb: "?b < bp" using lt by (cases us) auto
  have hi: "um_brk st < 2 ^ 32" using b by (simp add: blocks_ok_def)
  from free_right_run [OF blocks_run [OF b [unfolded ns]] hi l'(3) l'(2) bp(2,1,3) bb gt] obtain ys2 v where
    st1: "free_right bp p st = set_ptr bp (hd (ys2 @ [?b])) (set_size bp v st)"
    and r: "run_ok lo (um_brk st) ((um_size st)(bp := v)) (bp # ys2)" and l2: "linked (um_ptr st) ys2 ?b"
    and sub: "set ys2 \<subseteq> set ys" and v: "um_size st bp \<le> v"
    and un: "span bp v \<union> (\<Union>x \<in> set ys2. span x (um_size st x)) = span bp (um_size st bp) \<union> (\<Union>x \<in> set ys. span x (um_size st x))" .
  let ?st = "free_right bp p st"
  have vm: "v mod 2 ^ 32 = v" using r hi by (simp add: run_ok_Cons)
  have nin: "bp \<notin> set ns" "bp \<notin> set ys2" using lt gt bp(1) sub by (fastforce simp: ns)+
  have sz: "um_size ?st = (um_size st)(bp := v)" "um_brk ?st = um_brk st" using vm by (simp_all add: st1)
  have b1: "blocks_ok lo (um_brk st) (um_size ?st) (us @ p # ys)"
    by (rule blocks_cong [OF b [unfolded ns]]) (use nin in \<open>auto simp: sz ns\<close>)
  have "distinct ys2" using run_distinct [OF r] by simp
  then have len: "length ys2 \<le> length ys" using sub by (metis List.finite_set card_mono card_length distinct_card le_trans)
  from nin have l3: "linked (um_ptr ?st) us p" "linked (um_ptr ?st) (bp # ys2) ?b"
    using l' l2 by (auto simp: st1 ns)
  have p: "p < bp" "p + um_size ?st p \<le> bp" using lt pg by (auto simp: sz)
  from free_left_list [OF b1 l3(1) r [folded sz(1)] l3(2) p sub] obtain ns' where
    n: "blocks_ok lo (um_brk st) (um_size (free_left bp p ?st)) ns'" "linked (um_ptr (free_left bp p ?st)) ns' (hd ns')"
      "p \<in> set ns'" "hd ns' = ?b" "length ns' \<le> length us + length ys2 + 2"
    and fu: "free_units (um_size (free_left bp p ?st)) ns' = free_units (um_size ?st) (us @ p # bp # ys2)"
    and big: "\<exists>x \<in> set (tl ns'). x \<le> bp \<and> bp + um_size ?st bp \<le> x + um_size (free_left bp p ?st) x"
    and fr: "\<forall>a. a \<noteq> p \<longrightarrow> um_ptr (free_left bp p ?st) a = um_ptr ?st a \<and> um_size (free_left bp p ?st) a = um_size ?st a" .
  have brk: "um_brk (free_left bp p ?st) = um_brk st" by (simp add: free_left_def sz)
  have "free_units (um_size ?st) ((us @ [p]) @ bp # ys2) = free_units (um_size st) ((us @ [p]) @ ys) \<union> span bp (um_size st bp)"
  proof -
    have e1: "free_units (um_size ?st) (us @ [p]) = free_units (um_size st) (us @ [p])"
      by (rule free_units_cong) (use nin in \<open>auto simp: sz ns\<close>)
    have e2: "(\<Union>x \<in> set ys2. span x (um_size ?st x)) = (\<Union>x \<in> set ys2. span x (um_size st x))"
      by (rule SUP_cong) (use nin in \<open>auto simp: sz\<close>)
    have e3: "span bp (um_size ?st bp) = span bp v" by (simp add: sz)
    have app: "free_units z ((us @ [p]) @ zs) = free_units z (us @ [p]) \<union> (\<Union>x \<in> set zs. span x (z x))" for z zs
      by (rule free_units_append) simp
    show ?thesis unfolding app list.set UN_insert e1 e2 e3 un by (simp only: Un_ac)
  qed
  then have fu': "free_units (um_size (free_left bp p ?st)) ns' = free_units (um_size st) ns \<union> span bp (um_size st bp)"
    using fu by (simp add: ns)
  have big': "\<exists>x \<in> set (tl ns'). x \<le> bp \<and> bp + um_size st bp \<le> x + um_size (free_left bp p ?st) x"
    using big v unfolding sz by (auto intro: order_trans)
  have frame: "\<forall>a. a \<noteq> bp \<and> a \<notin> set ns \<longrightarrow>
      um_ptr (free_left bp p ?st) a = um_ptr st a \<and> um_size (free_left bp p ?st) a = um_size st a"
    using fr by (auto simp: sz ns) (simp add: st1)
  define st' where "st' = free_left bp p ?st"
  show thesis
    by (rule that [of "st'\<lparr>um_freep := p\<rparr>" ns', unfolded st'_def])
      (use n brk hd len fu' big' frame in \<open>simp_all add: free_def find fl_ok_def ns Let_def\<close>)
qed

section \<open>Taking a block\<close>

lemma blocks_apart:
  assumes "blocks_ok lo hi sz ns" "x \<in> set ns" "y \<in> set ns" "x < y"
  shows "x + sz x < y"
proof -
  obtain i j where ij: "i < length ns" "j < length ns" "ns ! i = x" "ns ! j = y" using assms(2,3) by (metis in_set_conv_nth)
  have "i < j"
    using blocks_sorted [OF assms(1)] ij assms(4) by (metis linorder_neqE_nat not_less_iff_gr_or_eq sorted_wrt_nth_less)
  then show ?thesis using assms(1) ij by (auto simp: blocks_ok_def dest: sorted_wrt_nth_less)
qed

lemma tl_in: "x \<in> set (tl ns) \<Longrightarrow> x \<in> set ns"
  by (cases ns) auto

lemma pred_unique:
  assumes l: "linked f (us @ y # vs) (hd (us @ [y]))" and d: "distinct (us @ y # vs)" and us: "us \<noteq> []"
    and x: "x \<in> set (us @ y # vs)" "f x = y"
  shows "x = last us"
proof -
  let ?ns = "us @ y # vs"
  obtain i where i: "i < length ?ns" "?ns ! i = x" using x(1) by (metis in_set_conv_nth)
  have f: "(?ns @ [hd us]) ! Suc i = y" using linked_nth [OF l i(1)] i(2) x(2) us by (simp add: hd_append)
  have "hd us \<noteq> y" using d us by (cases us) auto
  then have "Suc i < length ?ns" using f i(1) by (cases "Suc i = length ?ns") (simp_all add: nth_append)
  then have "?ns ! Suc i = y" using f nth_append [of ?ns "[hd us]" "Suc i"] by presburger
  then have "?ns ! Suc i = ?ns ! length us" by simp
  then have "Suc i = length us" using nth_eq_iff_index_eq [OF d \<open>Suc i < length ?ns\<close>, of "length us"] by simp
  then show ?thesis using i us by (auto simp: nth_append last_conv_nth dest: sym)
qed

lemma free_units_minus:
  assumes b: "blocks_ok lo hi sz ns" and y: "y \<in> set (tl ns)" and k: "k \<le> sz y"
  shows "free_units sz ns - span (y + k) (sz y - k) = span y k \<union> (\<Union>x \<in> set (tl ns) - {y}. span x (sz x))"
proof -
  have "span x (sz x) \<inter> span y (sz y) = {}" if "x \<in> set (tl ns)" "x \<noteq> y" for x
    using blocks_apart [OF b tl_in [OF that(1)] tl_in [OF y]] blocks_apart [OF b tl_in [OF y] tl_in [OF that(1)]] that(2)
    by (cases "x < y") (fastforce simp: in_span)+
  moreover have "span y (sz y) = span y k \<union> span (y + k) (sz y - k)" "span y k \<inter> span (y + k) (sz y - k) = {}"
    using k by (auto simp: in_span)
  ultimately show ?thesis using y by (auto simp: free_units_def)
qed

text \<open>
  The block \<open>q\<close> that \<^verbatim>\<open>malloc\<close> cuts off the free block \<open>y\<close>: its units, and no others, are no longer free.
\<close>

definition taken :: "nat \<Rightarrow> nat list \<Rightarrow> um \<Rightarrow> nat \<Rightarrow> nat \<Rightarrow> um \<Rightarrow> bool" where
  "taken lo ns st nu q st' \<longleftrightarrow>
     (\<exists>ns'. fl_ok lo ns' st' \<and> hd ns' = hd ns \<and> um_brk st' = um_brk st \<and> um_size st' q = nu
       \<and> span q nu \<subseteq> free_units (um_size st) ns
       \<and> free_units (um_size st') ns' = free_units (um_size st) ns - span q nu
       \<and> (\<forall>a. a \<notin> set ns \<and> a \<noteq> q \<longrightarrow> um_ptr st' a = um_ptr st a \<and> um_size st' a = um_size st a))"

lemma take_exact:
  assumes f: "fl_ok lo ns st" and y: "y \<in> set (tl ns)" "prev \<in> set ns" "um_ptr st prev = y" and nu: "um_size st y = nu"
  shows "taken lo ns st nu y ((set_ptr prev (um_ptr st y) st)\<lparr>um_freep := prev\<rparr>)"
proof -
  have b: "blocks_ok lo (um_brk st) (um_size st) ns" and l: "linked (um_ptr st) ns (hd ns)" using f by (auto simp: fl_ok_def)
  have d: "distinct ns" by (rule blocks_distinct [OF b])
  obtain us0 vs where "tl ns = us0 @ y # vs" using y(1) by (auto dest: split_list)
  then have "ns = (hd ns # us0) @ y # vs" using b by (cases ns) (auto simp: blocks_ok_def)
  then obtain us where ns: "ns = us @ y # vs" "us \<noteq> []" by blast
  have "prev = last us"
    by (rule pred_unique [of "um_ptr st" us y vs]) (use l d y(2,3) ns in \<open>auto simp: hd_append\<close>)
  then obtain ws where us: "us = ws @ [prev]" using ns(2) by (metis append_butlast_last_id)
  let ?st = "(set_ptr prev (um_ptr st y) st)\<lparr>um_freep := prev\<rparr>" and ?ns = "us @ vs"
  have gap: "\<forall>u \<in> set us. \<forall>z \<in> set vs. u + um_size st u < z"
    using b by (auto simp: blocks_ok_def ns sorted_wrt_append)
  have b': "blocks_ok lo (um_brk st) (um_size st) ?ns"
    by (rule blocks_glue [OF b [unfolded ns(1)] ns(2) blocks_run [OF b [unfolded ns(1)]] _ gap]) simp
  have l': "linked (um_ptr ?st) ?ns (hd ?ns)"
    using l d by (auto simp: ns us linked_append hd_append)
  have set: "set (tl ?ns) = set (tl ns) - {y}" using d ns by (cases us) auto
  have "free_units (um_size st) ns - span y nu = free_units (um_size st) ?ns"
    using free_units_minus [OF b y(1), of 0] nu set by (simp add: free_units_def span_def)
  moreover have "span y nu \<subseteq> free_units (um_size st) ns" using y(1) nu by (auto simp: free_units_def)
  ultimately show ?thesis unfolding taken_def
    by (intro exI [of _ ?ns]) (use b' l' nu y ns in \<open>auto simp: fl_ok_def us hd_append\<close>)
qed

lemma take_rest:
  assumes f: "fl_ok lo ns st" and y: "y \<in> set (tl ns)" "prev \<in> set ns" and nu: "0 < nu" "nu < um_size st y"
    and rest: "rest = um_size st y - nu"
  shows "taken lo ns st nu (y + rest) ((set_size (y + rest) nu (set_size y rest st))\<lparr>um_freep := prev\<rparr>)"
proof -
  have b: "blocks_ok lo (um_brk st) (um_size st) ns" and l: "linked (um_ptr st) ns (hd ns)" using f by (auto simp: fl_ok_def)
  have hi: "y + um_size st y < 2 ^ 32" using b y(1) by (auto simp: blocks_ok_def)
  have q: "y + rest \<notin> set ns"
  proof
    assume "y + rest \<in> set ns"
    then have "y + um_size st y < y + rest" by (rule blocks_apart [OF b tl_in [OF y(1)]]) (use nu rest in simp)
    then show False using rest by simp
  qed
  let ?sz = "(um_size st)(y := rest, y + rest := nu)"
  have m: "nu mod 2 ^ 32 = nu" "rest mod 2 ^ 32 = rest" using nu hi rest by simp_all
  have so: "sorted_wrt (\<lambda>x y. x + um_size st x < y) ns" using b by (simp add: blocks_ok_def)
  have hy: "hd ns \<noteq> y" using blocks_distinct [OF b] y(1) by (cases ns) auto
  have "sorted_wrt (\<lambda>x y. x + ?sz x < y) ns"
    by (rule sorted_wrt_mono_rel [OF _ so]) (use q nu rest in \<open>auto split: if_splits\<close>)
  moreover have "hd ns \<noteq> y + rest" using b q by (metis blocks_ok_def list.set_sel(1))
  ultimately have b': "blocks_ok lo (um_brk st) ?sz ns"
    using b q hy nu rest tl_in [of _ ns] by (auto simp: blocks_ok_def split: if_splits)
  have "(\<Union>x \<in> set (tl ns) - {y}. span x (?sz x)) = (\<Union>x \<in> set (tl ns) - {y}. span x (um_size st x))"
    by (rule SUP_cong) (use q tl_in [of _ ns] in auto)
  moreover have "free_units ?sz ns = span y (?sz y) \<union> (\<Union>x \<in> set (tl ns) - {y}. span x (?sz x))"
    using y(1) unfolding free_units_def by blast
  moreover have "?sz y = rest" using nu rest by simp
  ultimately have "free_units ?sz ns = span y rest \<union> (\<Union>x \<in> set (tl ns) - {y}. span x (um_size st x))"
    by simp
  also have "\<dots> = free_units (um_size st) ns - span (y + rest) nu"
    using free_units_minus [OF b y(1), of rest] nu rest by simp
  finally have fu: "free_units ?sz ns = free_units (um_size st) ns - span (y + rest) nu" .
  have "span (y + rest) nu \<subseteq> span y (um_size st y)" using nu rest by (auto simp: in_span)
  also have "\<dots> \<subseteq> free_units (um_size st) ns" using y(1) by (auto simp: free_units_def)
  finally have "span (y + rest) nu \<subseteq> free_units (um_size st) ns" .
  then show ?thesis unfolding taken_def
    by (intro exI [of _ ns]) (use b' l fu m y tl_in [of y ns] in \<open>auto simp: fl_ok_def\<close>)
qed

lemma take_block_taken:
  assumes "fl_ok lo ns st" "y \<in> set (tl ns)" "prev \<in> set ns" "um_ptr st prev = y" "0 < nu" "nu \<le> um_size st y"
  shows "\<exists>q st'. take_block nu prev y st = (q + 1, st') \<and> taken lo ns st nu q st'"
  using take_exact [OF assms(1-4)] take_rest [OF assms(1-3,5)] assms(6)
  by (cases "um_size st y = nu") (auto simp: take_block_def Let_def)

section \<open>Searching the list\<close>

lemma malloc_skip:
  assumes "linked (um_ptr st) zs t" "\<forall>x \<in> set zs. um_size st x < nu \<and> x \<noteq> um_freep st"
  shows "malloc_loop (length zs + n) grant nu prev (hd (zs @ [t])) st = malloc_loop n grant nu (last (prev # zs)) t st"
  using assms by (induction zs arbitrary: prev) (auto simp: hd_append)

text \<open>The cycle from the element after \<open>um_freep\<close> on.\<close>

lemma fl_cycle:
  assumes "fl_ok lo ns st"
  obtains zs where "um_ptr st (um_freep st) = hd (zs @ [um_freep st])" "linked (um_ptr st) zs (um_freep st)"
    "set (zs @ [um_freep st]) = set ns" "distinct (zs @ [um_freep st])" "length ns = Suc (length zs)"
proof -
  have l: "linked (um_ptr st) ns (hd ns)" and q: "um_freep st \<in> set ns" and d: "distinct ns"
    using assms blocks_distinct by (auto simp: fl_ok_def)
  obtain as bs where ab: "ns = as @ um_freep st # bs" using q by (metis split_list)
  have "um_ptr st (um_freep st) = hd (bs @ as @ [um_freep st])" "linked (um_ptr st) (bs @ as) (um_freep st)"
    using linked_rotate [of "um_ptr st" as "um_freep st" bs] l unfolding ab hd_mid [of as "um_freep st" bs] by blast+
  then show thesis using that [of "bs @ as"] d ab by auto
qed

lemma linked_last: "linked f (zs @ ws) t \<Longrightarrow> f p = hd (zs @ ws @ [t]) \<Longrightarrow> f (last (p # zs)) = hd (ws @ [t])"
  by (induction zs arbitrary: p) (auto simp: hd_append split: if_splits)

lemma malloc_finds:
  assumes f: "fl_ok lo ns st" and nu: "0 < nu" "\<exists>y \<in> set ns. nu \<le> um_size st y" and fuel: "length ns \<le> fuel"
  shows "\<exists>q st'. malloc_loop fuel grant nu (um_freep st) (um_ptr st (um_freep st)) st = Some (q + 1, st') \<and> taken lo ns st nu q st'"
proof -
  let ?x = "um_freep st"
  from fl_cycle [OF f] obtain zs where z: "um_ptr st ?x = hd (zs @ [?x])" "linked (um_ptr st) zs ?x"
    "set (zs @ [?x]) = set ns" "distinct (zs @ [?x])" "length ns = Suc (length zs)" .
  have "\<exists>y \<in> set (zs @ [?x]). nu \<le> um_size st y" using nu(2) z(3) by simp
  then obtain zs1 y zs2 where y: "zs @ [?x] = zs1 @ y # zs2" "nu \<le> um_size st y" "\<forall>x \<in> set zs1. \<not> nu \<le> um_size st x"
    by (rule split_list_first_propE)
  have path: "linked (um_ptr st) (zs @ [?x]) (hd (zs @ [?x]))" using z(1,2) by (simp add: linked_append)
  have l1: "linked (um_ptr st) zs1 y" using path unfolding y(1) by (simp add: linked_append)
  have "set zs1 \<subseteq> set zs" using y(1) by (cases zs2 rule: rev_cases) auto
  then have small: "\<forall>x \<in> set zs1. um_size st x < nu \<and> x \<noteq> ?x" using y(3) z(4) by auto
  have f1: "um_ptr st ?x = hd (zs1 @ [y])" using z(1) y(1) hd_mid [of zs1 y zs2] by simp
  have prev: "um_ptr st (last (?x # zs1)) = y" using linked_last [of "um_ptr st" zs1 "[]" y ?x] l1 f1 by simp
  have pin: "last (?x # zs1) \<in> set ns" using \<open>set zs1 \<subseteq> set zs\<close> z(3) by (cases zs1 rule: rev_cases) auto
  have "y \<in> set ns" using y(1) z(3) by (metis in_set_conv_decomp)
  moreover have "y \<noteq> hd ns" using f nu(1) y(2) by (auto simp: fl_ok_def blocks_ok_def)
  ultimately have yin: "y \<in> set (tl ns)" by (cases ns) auto
  have "length zs1 < length ns" using arg_cong [OF y(1), of length] z(5) by simp
  then obtain n where n: "fuel = length zs1 + Suc n" using fuel by (metis add_Suc_right less_iff_Suc_add less_le_trans)
  have "malloc_loop fuel grant nu ?x (um_ptr st ?x) st = Some (take_block nu (last (?x # zs1)) y st)"
    unfolding n f1 malloc_skip [OF l1 small] using y(2) by simp
  then show ?thesis using take_block_taken [OF f yin pin prev nu(1) y(2)] by auto
qed

text \<open>No block is big enough: the search comes back to where it started and asks for more memory.\<close>

lemma malloc_none:
  assumes f: "fl_ok lo ns st" and none: "\<forall>y \<in> set ns. um_size st y < nu"
  shows "malloc_loop (length ns + n) grant nu (um_freep st) (um_ptr st (um_freep st)) st
    = (case morecore n grant nu st of None \<Rightarrow> None
       | Some (p, st) \<Rightarrow> if p = 0 then Some (0, st) else malloc_loop n grant nu p (um_ptr st p) st)"
proof -
  let ?x = "um_freep st"
  from fl_cycle [OF f] obtain zs where z: "um_ptr st ?x = hd (zs @ [?x])" "linked (um_ptr st) zs ?x"
    "set (zs @ [?x]) = set ns" "distinct (zs @ [?x])" "length ns = Suc (length zs)" .
  have small: "\<forall>x \<in> set zs. um_size st x < nu \<and> x \<noteq> ?x" using none z(3,4) by auto
  have "um_size st ?x < nu" using none z(3) by auto
  then show ?thesis
    unfolding z(1) using malloc_skip [OF z(2) small, of "Suc n" grant ?x] z(5) by (simp add: not_le)
qed

section \<open>The heap\<close>

text \<open>
  \<open>A\<close> are the headers of the blocks that the program holds. Their units and the free units are disjoint, and together they are all the memory
  that the process has got from the kernel.
\<close>

definition owned :: "(nat \<Rightarrow> nat) \<Rightarrow> nat set \<Rightarrow> nat set" where
  "owned sz A = (\<Union>a \<in> A. span a (sz a))"

definition blocks_held :: "(nat \<Rightarrow> nat) \<Rightarrow> nat set \<Rightarrow> bool" where
  "blocks_held sz A \<longleftrightarrow> (\<forall>a \<in> A. 0 < sz a) \<and> (\<forall>a \<in> A. \<forall>b \<in> A. a \<noteq> b \<longrightarrow> span a (sz a) \<inter> span b (sz b) = {})"

definition tiled :: "nat \<Rightarrow> nat \<Rightarrow> nat set \<Rightarrow> um \<Rightarrow> nat list \<Rightarrow> bool" where
  "tiled lo base A st ns \<longleftrightarrow>
     fl_ok lo ns st \<and> hd ns = base \<and> blocks_held (um_size st) A
     \<and> free_units (um_size st) ns \<inter> owned (um_size st) A = {} \<and> free_units (um_size st) ns \<union> owned (um_size st) A = {lo..<um_brk st}"

definition heap_ok :: "nat \<Rightarrow> nat \<Rightarrow> nat set \<Rightarrow> um \<Rightarrow> bool" where
  "heap_ok lo base A st \<longleftrightarrow>
     um_freep st = 0 \<and> A = {} \<and> um_brk st = lo \<and> 0 < base \<and> base < lo \<and> lo < 2 ^ 32 \<or> (\<exists>ns. tiled lo base A st ns)"

text \<open>The contents of the blocks that the program holds, headers and data, are left alone.\<close>

definition kept :: "nat set \<Rightarrow> um \<Rightarrow> um \<Rightarrow> bool" where
  "kept X st st' \<longleftrightarrow> (\<forall>x \<in> X. um_ptr st' x = um_ptr st x \<and> um_size st' x = um_size st x)"

lemma keptI: "(\<And>x. x \<in> X \<Longrightarrow> um_ptr st' x = um_ptr st x \<and> um_size st' x = um_size st x) \<Longrightarrow> kept X st st'"
  by (simp add: kept_def)

lemma kept_trans: "kept X s t \<Longrightarrow> kept X t u \<Longrightarrow> kept X s u"
  by (simp add: kept_def)

lemma kept_sizes: "kept (owned (um_size st) A) st st' \<Longrightarrow> blocks_held (um_size st) A \<Longrightarrow> a \<in> A \<Longrightarrow> um_size st' a = um_size st a"
  unfolding kept_def owned_def blocks_held_def by (metis UN_I in_span le_refl less_add_same_cancel1)

lemma held_cong: "\<forall>a \<in> A. sz' a = sz a \<Longrightarrow> blocks_held sz' A = blocks_held sz A" "\<forall>a \<in> A. sz' a = sz a \<Longrightarrow> owned sz' A = owned sz A"
  by (auto simp: blocks_held_def owned_def)

lemma tiled_list:
  assumes "tiled lo base A st ns"
  shows "x \<in> set ns \<Longrightarrow> x = base \<or> x \<in> free_units (um_size st) ns" and "base < lo" and "x \<in> set ns \<Longrightarrow> x \<notin> owned (um_size st) A"
    and "length ns \<le> um_brk st - lo + 1"
proof -
  have b: "blocks_ok lo (um_brk st) (um_size st) ns" "hd ns = base" using assms by (auto simp: tiled_def fl_ok_def)
  then show base: "base < lo" by (auto simp: blocks_ok_def)
  show *: "x = base \<or> x \<in> free_units (um_size st) ns" if "x \<in> set ns" for x
  proof (cases "x = base")
    case False
    then have "x \<in> set (tl ns)" using that b by (cases ns) auto
    then show ?thesis using b by (auto simp: blocks_ok_def free_units_def in_span)
  qed simp
  show "x \<notin> owned (um_size st) A" if "x \<in> set ns"
    using * [OF that] assms base by (auto simp: tiled_def)
  have "set (tl ns) \<subseteq> {lo..<um_brk st}" using b by (auto simp: blocks_ok_def)
  moreover have "distinct (tl ns)" using blocks_distinct [OF b(1)] by (rule distinct_tl)
  ultimately have "length (tl ns) \<le> um_brk st - lo"
    by (metis card_atLeastLessThan card_mono distinct_card finite_atLeastLessThan)
  then show "length ns \<le> um_brk st - lo + 1" by simp
qed

lemma free_tiled:
  assumes t: "tiled lo base A st ns" and a: "a \<in> A" and fuel: "um_brk st - lo + 1 \<le> fuel"
  shows "\<exists>st' ns'. free fuel (a + 1) st = Some st' \<and> tiled lo base (A - {a}) st' ns'
    \<and> free_units (um_size st') ns' = free_units (um_size st) ns \<union> span a (um_size st a) \<and> um_brk st' = um_brk st
    \<and> (\<exists>x \<in> set ns'. um_size st a \<le> um_size st' x) \<and> kept (owned (um_size st) (A - {a})) st st'"
proof -
  have f: "fl_ok lo ns st" and base: "hd ns = base" and h: "blocks_held (um_size st) A"
    and dis: "free_units (um_size st) ns \<inter> owned (um_size st) A = {}"
    and un: "free_units (um_size st) ns \<union> owned (um_size st) A = {lo..<um_brk st}"
    using t by (auto simp: tiled_def)
  have sub: "span a (um_size st a) \<subseteq> owned (um_size st) A" using a by (auto simp: owned_def)
  have pos: "0 < um_size st a" using h a by (auto simp: blocks_held_def)
  then have ain: "a \<in> span a (um_size st a)" and "a + um_size st a - 1 \<in> span a (um_size st a)" by (auto simp: in_span)
  then have "a \<in> {lo..<um_brk st}" "a + um_size st a - 1 \<in> {lo..<um_brk st}" using sub un by blast+
  then have bd: "lo \<le> a" "a + um_size st a \<le> um_brk st" using pos by auto
  have "span a (um_size st a) \<inter> free_units (um_size st) ns = {}" using sub dis by blast
  from free_frees [OF f pos bd this order_trans [OF tiled_list(4) [OF t] fuel]] obtain ns' st' where
    r: "free fuel (a + 1) st = Some st'" "fl_ok lo ns' st'" "hd ns' = hd ns" "um_brk st' = um_brk st"
    and fu: "free_units (um_size st') ns' = free_units (um_size st) ns \<union> span a (um_size st a)"
    and big: "\<exists>x \<in> set (tl ns'). x \<le> a \<and> a + um_size st a \<le> x + um_size st' x"
    and fr: "\<forall>x. x \<noteq> a \<and> x \<notin> set ns \<longrightarrow> um_ptr st' x = um_ptr st x \<and> um_size st' x = um_size st x" by metis
  have own: "owned (um_size st) A = span a (um_size st a) \<union> owned (um_size st) (A - {a})"
    "span a (um_size st a) \<inter> owned (um_size st) (A - {a}) = {}"
    using a h by (auto simp: owned_def blocks_held_def)
  have k: "kept (owned (um_size st) (A - {a})) st st'"
  proof (rule keptI)
    fix x assume x: "x \<in> owned (um_size st) (A - {a})"
    then have "x \<notin> set ns" using tiled_list(3) [OF t, of x] own(1) by blast
    moreover have "x \<noteq> a" using x own(2) ain by blast
    ultimately show "um_ptr st' x = um_ptr st x \<and> um_size st' x = um_size st x" using fr by blast
  qed
  have h1: "blocks_held (um_size st) (A - {a})" using h by (simp add: blocks_held_def)
  have same: "\<forall>b \<in> A - {a}. um_size st' b = um_size st b" using kept_sizes [OF k h1] by blast
  have "tiled lo base (A - {a}) st' ns'"
    unfolding tiled_def held_cong [OF same] fu r(3,4) base using r(2) h1 dis un own by blast
  moreover have "\<exists>x \<in> set ns'. um_size st a \<le> um_size st' x"
  proof -
    from big obtain x where "x \<in> set (tl ns')" "x \<le> a" "a + um_size st a \<le> x + um_size st' x" by blast
    then show ?thesis using tl_in [of x ns'] by (intro bexI [of _ x]) auto
  qed
  ultimately show ?thesis using r(1,4) fu k by blast
qed

text \<open>A block that has been cut off the free units belongs to the program.\<close>

lemma taken_tiled:
  assumes t: "tiled lo base A st ns" and tk: "taken lo ns st nu q st'" and nu: "0 < nu"
  shows "\<exists>ns'. tiled lo base (insert q A) st' ns'" and "q \<notin> A" and "um_size st' q = nu" and "kept (owned (um_size st) A) st st'"
    and "q \<noteq> 0"
proof -
  have base: "hd ns = base" and h: "blocks_held (um_size st) A"
    and dis: "free_units (um_size st) ns \<inter> owned (um_size st) A = {}"
    and un: "free_units (um_size st) ns \<union> owned (um_size st) A = {lo..<um_brk st}"
    using t by (auto simp: tiled_def)
  from tk obtain ns' where r: "fl_ok lo ns' st'" "hd ns' = hd ns" "um_brk st' = um_brk st" and q: "um_size st' q = nu"
      and sub: "span q nu \<subseteq> free_units (um_size st) ns" and fu: "free_units (um_size st') ns' = free_units (um_size st) ns - span q nu"
      and fr: "\<forall>a. a \<notin> set ns \<and> a \<noteq> q \<longrightarrow> um_ptr st' a = um_ptr st a \<and> um_size st' a = um_size st a"
    unfolding taken_def by metis
  have qin: "q \<in> span q nu" using nu by (simp add: in_span)
  have qown: "q \<notin> owned (um_size st) A" using qin sub dis by blast
  show qA: "q \<notin> A"
  proof
    assume "q \<in> A"
    then have "q \<in> owned (um_size st) A" using h by (auto simp: owned_def blocks_held_def in_span)
    then show False using qown by simp
  qed
  show k: "kept (owned (um_size st) A) st st'"
    by (rule keptI) (use tiled_list(3) [OF t] qown fr in blast)
  have same: "\<forall>b \<in> A. um_size st' b = um_size st b" using kept_sizes [OF k h] by blast
  have own: "owned (um_size st') (insert q A) = span q nu \<union> owned (um_size st) A"
    using held_cong(2) [OF same] q by (simp add: owned_def)
  have h': "blocks_held (um_size st') (insert q A)"
  proof -
    have "span q nu \<inter> span b (um_size st b) = {}" if "b \<in> A" for b
      using that sub dis by (auto simp: owned_def)
    then show ?thesis using h same q nu qA unfolding blocks_held_def by (auto simp: Int_commute)
  qed
  have "tiled lo base (insert q A) st' ns'"
    unfolding tiled_def own fu r(2,3) base using r(1) h' dis un sub by blast
  then show "\<exists>ns'. tiled lo base (insert q A) st' ns'" by blast
  show "um_size st' q = nu" by (rule q)
  have "q \<in> {lo..<um_brk st}" using qin sub un by blast
  then show "q \<noteq> 0" using tiled_list(2) [OF t] by auto
qed

lemma malloc_start_tiled:
  assumes "heap_ok lo base A st"
  obtains ns where "tiled lo base A (malloc_start base st) ns" "um_brk (malloc_start base st) = um_brk st"
    "owned (um_size (malloc_start base st)) A = owned (um_size st) A" "kept (owned (um_size st) A) st (malloc_start base st)"
proof (cases "\<exists>ns. tiled lo base A st ns")
  case True
  then obtain ns where t: "tiled lo base A st ns" by blast
  have "0 < x" if "x \<in> set ns" for x
  proof -
    have b: "blocks_ok lo (um_brk st) (um_size st) ns" using t by (auto simp: tiled_def fl_ok_def)
    then show ?thesis using that by (cases ns) (auto simp: blocks_ok_def)
  qed
  then have "um_freep st \<noteq> 0" using t by (auto simp: tiled_def fl_ok_def)
  then show thesis using that [of ns] t by (simp add: malloc_start_def kept_def)
next
  case False
  then have *: "um_freep st = 0" "A = {}" "um_brk st = lo" "0 < base" "base < lo" "lo < 2 ^ 32"
    using assms by (auto simp: heap_ok_def)
  show thesis
    by (rule that [of "[base]"])
      (use * in \<open>auto simp: tiled_def fl_ok_def blocks_ok_def malloc_start_def blocks_held_def owned_def free_units_def kept_def\<close>)
qed

lemma blocks_raise: "blocks_ok lo hi sz ns \<Longrightarrow> hi \<le> hi' \<Longrightarrow> hi' < 2 ^ 32 \<Longrightarrow> blocks_ok lo hi' sz ns"
  unfolding blocks_ok_def by fastforce

lemma morecore_tiled:
  assumes t: "tiled lo base A st ns" and nu: "nu < 2 ^ 27" "k = (if nu < 4096 then 4096 else nu)"
    and g: "grant (um_brk st) k" "um_brk st + k < 2 ^ 32" and fuel: "um_brk st + k - lo + 1 \<le> fuel"
  shows "\<exists>st' ns'. morecore fuel grant nu st = Some (um_freep st', st') \<and> um_freep st' \<noteq> 0 \<and> tiled lo base A st' ns'
    \<and> um_brk st' = um_brk st + k \<and> (\<exists>x \<in> set ns'. nu \<le> um_size st' x) \<and> kept (owned (um_size st) A) st st'"
proof -
  let ?hp = "um_brk st"
  define st1 where "st1 = set_size ?hp k (st\<lparr>um_brk := ?hp + k\<rparr>)"
  have f: "fl_ok lo ns st" and h: "blocks_held (um_size st) A" and b: "blocks_ok lo ?hp (um_size st) ns"
    and un: "free_units (um_size st) ns \<union> owned (um_size st) A = {lo..<?hp}"
    and dis: "free_units (um_size st) ns \<inter> owned (um_size st) A = {}"
    using t by (auto simp: tiled_def fl_ok_def)
  have k: "0 < k" "k mod 2 ^ 32 = k" using nu(2) g(2) by auto
  have lo: "lo \<le> ?hp" using b by (simp add: blocks_ok_def)
  have nin: "?hp \<notin> set ns"
    using tiled_list(1,2) [OF t] un lo by (metis Un_iff atLeastLessThan_iff less_irrefl not_le)
  have "?hp \<notin> owned (um_size st) A" using un by (metis Un_iff atLeastLessThan_iff less_irrefl)
  then have hA: "?hp \<notin> A" using h by (auto simp: blocks_held_def owned_def in_span)
  have sz: "um_size st1 = (um_size st)(?hp := k)" "um_ptr st1 = um_ptr st" "um_freep st1 = um_freep st" "um_brk st1 = ?hp + k"
    using k by (simp_all add: st1_def)
  have "blocks_ok lo ?hp (um_size st1) ns" by (rule blocks_cong [OF b]) (use nin in \<open>auto simp: sz\<close>)
  then have b': "blocks_ok lo (?hp + k) (um_size st1) ns" by (rule blocks_raise) (use g(2) in simp_all)
  have fu: "free_units (um_size st1) ns = free_units (um_size st) ns" by (rule free_units_cong) (use nin in \<open>auto simp: sz\<close>)
  have same: "\<forall>a \<in> A. um_size st1 a = um_size st a" using hA by (auto simp: sz)
  have own: "owned (um_size st1) (insert ?hp A) = span ?hp k \<union> owned (um_size st) A"
    using held_cong(2) [OF same] by (simp add: owned_def sz)
  have out: "span ?hp k \<inter> {lo..<?hp} = {}" "span ?hp k \<union> {lo..<?hp} = {lo..<?hp + k}" using lo by (auto simp: in_span)
  have "span ?hp k \<inter> span a (um_size st a) = {}" if "a \<in> A" for a
    using out(1) un that unfolding owned_def by blast
  then have h': "blocks_held (um_size st1) (insert ?hp A)"
    using h hA k unfolding blocks_held_def sz by (auto simp: Int_commute)
  have "free_units (um_size st1) ns \<inter> owned (um_size st1) (insert ?hp A) = {}"
    unfolding own fu using dis un out(1) by blast
  moreover have "free_units (um_size st1) ns \<union> owned (um_size st1) (insert ?hp A) = {lo..<?hp + k}"
    unfolding own fu using un out(2) by blast
  ultimately have "tiled lo base (insert ?hp A) st1 ns"
    using t b' h' unfolding tiled_def fl_ok_def sz by blast
  from free_tiled [OF this, of ?hp fuel] fuel obtain st' ns' where
    r: "free fuel (?hp + 1) st1 = Some st'" "tiled lo base A st' ns'" "um_brk st' = ?hp + k"
    "\<exists>x \<in> set ns'. k \<le> um_size st' x" and kp: "kept (owned (um_size st1) A) st1 st'"
    using hA by (auto simp: sz)
  have "um_freep st' \<in> set ns'" "blocks_ok lo (um_brk st') (um_size st') ns'" using r(2) by (auto simp: tiled_def fl_ok_def)
  then have fp: "um_freep st' \<noteq> 0" by (cases ns') (auto simp: blocks_ok_def)
  have "kept (owned (um_size st) A) st st1" by (rule keptI) (use un sz in auto)
  then have "kept (owned (um_size st) A) st st'" using kp held_cong(2) [OF same] kept_trans by metis
  moreover have "morecore fuel grant nu st = Some (um_freep st', st')"
    using r(1) nu g(1) by (auto simp: morecore_def Let_def st1_def)
  moreover have "nu \<le> k" using nu(2) by simp
  then have "\<exists>x \<in> set ns'. nu \<le> um_size st' x" using r(4) le_trans by blast
  ultimately show ?thesis using r fp by blast
qed

lemma malloc_from_tiled:
  assumes t: "tiled lo base A st ns" and nu: "0 < nu" "nu < 2 ^ 27" and k: "k = (if nu < 4096 then 4096 else nu)"
    and g: "\<And>b n. grant b n \<Longrightarrow> b + n < 2 ^ 32" and fuel: "2 * (um_brk st + k - lo) + 4 \<le> fuel"
  shows "\<exists>p st'. malloc_loop fuel grant nu (um_freep st) (um_ptr st (um_freep st)) st = Some (p, st')
    \<and> (p = 0 \<and> st' = st \<and> \<not> grant (um_brk st) k \<and> (\<forall>y \<in> set ns. um_size st y < nu)
       \<or> p \<noteq> 0 \<and> (\<exists>ns'. tiled lo base (insert (p - 1) A) st' ns') \<and> p - 1 \<notin> A \<and> um_size st' (p - 1) = nu
         \<and> kept (owned (um_size st) A) st st')"
proof (cases "\<exists>y \<in> set ns. nu \<le> um_size st y")
  case True
  have f: "fl_ok lo ns st" using t by (simp add: tiled_def)
  have "lo \<le> um_brk st" using f by (simp add: fl_ok_def blocks_ok_def)
  then have "length ns \<le> fuel" using tiled_list(4) [OF t] fuel by simp
  from malloc_finds [OF f nu(1) True this, of grant] obtain q st' where
    "malloc_loop fuel grant nu (um_freep st) (um_ptr st (um_freep st)) st = Some (q + 1, st')" "taken lo ns st nu q st'" by blast
  then show ?thesis using taken_tiled [OF t _ nu(1)] by (intro exI [of _ "q + 1"]) auto
next
  case False
  then have none: "\<forall>y \<in> set ns. um_size st y < nu" by auto
  have f: "fl_ok lo ns st" using t by (simp add: tiled_def)
  have lo: "lo \<le> um_brk st" using f by (simp add: fl_ok_def blocks_ok_def)
  define n where "n = fuel - length ns"
  have len: "length ns \<le> um_brk st - lo + 1" by (rule tiled_list(4) [OF t])
  have n: "fuel = length ns + n" "um_brk st + k - lo + 1 \<le> n" using len fuel lo by (auto simp: n_def)
  note loop = malloc_none [OF f none, of n grant]
  show ?thesis
  proof (cases "grant (um_brk st) k")
    case False
    then have "morecore n grant nu st = Some (0, st)" using nu(2) k by (auto simp: morecore_def Let_def)
    then show ?thesis using loop none False n(1) by simp
  next
    case True
    from morecore_tiled [where fuel = n and nu = nu and grant = grant, OF t nu(2) k True g [OF True] n(2)] obtain st1 ns1 where
      m: "morecore n grant nu st = Some (um_freep st1, st1)" "um_freep st1 \<noteq> 0" "tiled lo base A st1 ns1"
      "um_brk st1 = um_brk st + k" "\<exists>x \<in> set ns1. nu \<le> um_size st1 x" "kept (owned (um_size st) A) st st1" by metis
    have "length ns1 \<le> n" using tiled_list(4) [OF m(3)] m(4) n(2) by simp
    from malloc_finds [OF _ nu(1) m(5) this, of lo grant] m(3) obtain q st' where
      q: "malloc_loop n grant nu (um_freep st1) (um_ptr st1 (um_freep st1)) st1 = Some (q + 1, st')" "taken lo ns1 st1 nu q st'"
      by (auto simp: tiled_def)
    note tk = taken_tiled [OF m(3) q(2) nu(1)]
    have "\<forall>a \<in> A. um_size st1 a = um_size st a" using kept_sizes [OF m(6)] t by (simp add: tiled_def)
    then have "kept (owned (um_size st) A) st st'" using kept_trans [OF m(6)] tk(4) held_cong(2) [of A] by metis
    then show ?thesis using loop m(1,2) q(1) tk n(1) by (intro exI [of _ "q + 1"]) auto
  qed
qed

text \<open>
  C27. \<^verbatim>\<open>malloc\<close> of the user library is correct for every heap that its own calls build up: it returns, either with a block of exactly the units that
  the request needs, which overlaps no other block that the program holds and no free block, or, when the kernel
  refuses more memory, with 0 and no change to the blocks. The free blocks stay sorted, apart and merged, free and
  held units together are still all of the heap, and the contents of all blocks that are held, headers
  included, are unchanged.
\<close>

theorem malloc_allocates:
  assumes "heap_ok lo base A st" and "units nbytes < 2 ^ 27" and "k = (if units nbytes < 4096 then 4096 else units nbytes)"
    and "\<And>b n. grant b n \<Longrightarrow> b + n < 2 ^ 32" and "2 * (um_brk st + k - lo) + 4 \<le> fuel"
  shows "\<exists>p st'. malloc fuel base grant nbytes st = Some (p, st') \<and> kept (owned (um_size st) A) st st'
    \<and> (p = 0 \<and> \<not> grant (um_brk st) k \<and> heap_ok lo base A st'
       \<or> p \<noteq> 0 \<and> heap_ok lo base (insert (p - 1) A) st' \<and> p - 1 \<notin> A \<and> um_size st' (p - 1) = units nbytes
         \<and> nbytes \<le> 16 * (units nbytes - 1))"
proof -
  let ?st = "malloc_start base st"
  from malloc_start_tiled [OF assms(1)] obtain ns where t: "tiled lo base A ?st ns" and b: "um_brk ?st = um_brk st"
    and o: "owned (um_size ?st) A = owned (um_size st) A" and kp: "kept (owned (um_size st) A) st ?st" .
  have "0 < units nbytes" by (simp add: units_def)
  from malloc_from_tiled [OF t this assms(2,3), of grant fuel] assms(4,5) b obtain p st' where
    "malloc_loop fuel grant (units nbytes) (um_freep ?st) (um_ptr ?st (um_freep ?st)) ?st = Some (p, st')"
    "p = 0 \<and> st' = ?st \<and> \<not> grant (um_brk st) k
     \<or> p \<noteq> 0 \<and> (\<exists>ns'. tiled lo base (insert (p - 1) A) st' ns') \<and> p - 1 \<notin> A \<and> um_size st' (p - 1) = units nbytes
       \<and> kept (owned (um_size ?st) A) ?st st'" by auto
  moreover have "nbytes \<le> 16 * (units nbytes - 1)" unfolding units_def by simp
  ultimately show ?thesis
    using t kp kept_trans [OF kp] by (auto simp: malloc_def Let_def heap_ok_def o)
qed

theorem malloc_allocates_witness:
  "\<exists>p st'. malloc 10000 1 (\<lambda>b n. b + n < 5000) 100 \<lparr>um_ptr = \<lambda>_. 0, um_size = \<lambda>_. 0, um_freep = 0, um_brk = 2\<rparr> = Some (p, st')
    \<and> p \<noteq> 0 \<and> heap_ok 2 1 {p - 1} st' \<and> um_size st' (p - 1) = 8"
proof -
  let ?st = "\<lparr>um_ptr = \<lambda>_. 0, um_size = \<lambda>_. 0, um_freep = 0, um_brk = 2\<rparr> :: um"
  have "heap_ok 2 1 {} ?st" by (simp add: heap_ok_def)
  from malloc_allocates [OF this, of 100 4096 "\<lambda>b n. b + n < 5000" 10000] show ?thesis
    by (fastforce simp: units_def)
qed

text \<open>
  C28. \<^verbatim>\<open>free\<close> of a block that the program holds returns and makes exactly the units of that block free: the
  loop finds the block's place in the circular list, neighbours are merged so that the free blocks stay apart, free and held units
  remain all of the heap, and the contents of the other blocks are unchanged.
\<close>

theorem free_returns_units:
  assumes "heap_ok lo base A st" and "a \<in> A" and "um_brk st - lo + 1 \<le> fuel"
  shows "\<exists>st'. free fuel (a + 1) st = Some st' \<and> heap_ok lo base (A - {a}) st' \<and> um_brk st' = um_brk st
    \<and> kept (owned (um_size st) (A - {a})) st st'"
proof -
  obtain ns where "tiled lo base A st ns" using assms(1,2) by (auto simp: heap_ok_def)
  from free_tiled [OF this assms(2,3)] show ?thesis unfolding heap_ok_def by blast
qed

theorem free_returns_units_witness:
  "\<exists>st'. free 9 3 \<lparr>um_ptr = (\<lambda>_. 0)(1 := 1), um_size = (\<lambda>_. 0)(2 := 8), um_freep = 1, um_brk = 10\<rparr> = Some st' \<and> heap_ok 2 1 {} st'"
proof -
  let ?st = "\<lparr>um_ptr = (\<lambda>_. 0)(1 := 1), um_size = (\<lambda>_. 0)(2 := 8), um_freep = 1, um_brk = 10\<rparr> :: um"
  have "tiled 2 1 {2} ?st [1]"
    by (simp add: tiled_def fl_ok_def blocks_ok_def blocks_held_def free_units_def owned_def span_def)
  then have "heap_ok 2 1 {2} ?st" unfolding heap_ok_def by blast
  from free_returns_units [OF this, of 2 9] show ?thesis by auto
qed

end
