(* ===== verification/Plugins.thy ===== *)
theory Plugins
  imports Console_Props Strings "HOL-Library.Multiset"
begin

text \<open>
  The plugins \<^verbatim>\<open>src/ohmyxv6/plugins/font.c\<close> and \<^verbatim>\<open>theme.c\<close>: they read the fonts or themes of a directory, sort them, and hand one to the console
  through its device operations, which are those of the kernel's \<open>Console\<close>. A string is the list of its bytes before the NUL.
\<close>

section \<open>Strings\<close>

definition ascii :: "string \<Rightarrow> byte list" where
  "ascii s = map (\<lambda>c. of_nat (of_char c)) s"

text \<open>\<^verbatim>\<open>strcmp\<close> of \<^verbatim>\<open>src/ulib.c\<close> on strings; the end of a string reads as 0.\<close>

fun str_cmp :: "byte list \<Rightarrow> byte list \<Rightarrow> int" where
  "str_cmp (a # as) (b # bs) = (if a \<noteq> 0 \<and> a = b then str_cmp as bs else int (unat a) - int (unat b))"
| "str_cmp (a # as) [] = int (unat a)"
| "str_cmp [] (b # bs) = - int (unat b)"
| "str_cmp [] [] = 0"

definition default_name :: "byte list" where
  "default_name = ascii ''default''"

text \<open>The comparison of \<^verbatim>\<open>sortfonts\<close> and \<^verbatim>\<open>sortthemes\<close>.\<close>

definition name_cmp :: "byte list \<Rightarrow> byte list \<Rightarrow> int" where
  "name_cmp a b =
     (if str_cmp a default_name = 0 then -1 else if str_cmp b default_name = 0 then 1 else str_cmp a b)"

section \<open>Sorting\<close>

text \<open>The two nested loops: entry \<open>i\<close> is exchanged with every later entry that comes before it.\<close>

definition sort_step :: "('a \<Rightarrow> byte list) \<Rightarrow> nat \<Rightarrow> nat \<Rightarrow> 'a list \<Rightarrow> 'a list" where
  "sort_step f i j xs = (if name_cmp (f (xs ! i)) (f (xs ! j)) > 0 then xs[i := xs ! j, j := xs ! i] else xs)"

definition sort_row :: "('a \<Rightarrow> byte list) \<Rightarrow> nat \<Rightarrow> 'a list \<Rightarrow> 'a list" where
  "sort_row f i xs = fold (sort_step f i) [i + 1..<length xs] xs"

definition sort_entries :: "('a \<Rightarrow> byte list) \<Rightarrow> 'a list \<Rightarrow> 'a list" where
  "sort_entries f xs = fold (sort_row f) [0..<length xs] xs"

section \<open>What the programs are given\<close>

text \<open>
  The answers of the kernel: the entries of the directory, what a path is (its type and contents), whether it can be
  opened, from which offset on reading it fails, and whether the console can be opened.
\<close>

record pl_env =
  pe_dir :: "(nat \<times> byte list) list option"
  pe_file :: "byte list \<Rightarrow> (nat \<times> byte list) option"
  pe_open :: "byte list \<Rightarrow> bool"
  pe_bad :: "byte list \<Rightarrow> nat option"
  pe_console :: bool

definition read_at :: "pl_env \<Rightarrow> byte list \<Rightarrow> nat \<Rightarrow> nat \<Rightarrow> byte list option" where
  "read_at e path off n =
     (case pe_bad e path of
        Some k \<Rightarrow> if k \<le> off then None else Some (take n (drop off (snd (the (pe_file e path)))))
      | None \<Rightarrow> Some (take n (drop off (snd (the (pe_file e path))))))"

text \<open>What is printed, by descriptor and kind of message.\<close>

datatype message =
    TooMany | NoConsole | NoDefault | NoFile "byte list" | NoStat "byte list" | BadSize "byte list" | NoOpen "byte list"
  | ReadFailed "byte list" | NotPsf1 "byte list" | NoFonts | TooLarge "byte list" | WriteFailed | Short "byte list" nat
  | Unknown "byte list" | UnknownColor "byte list" | NoThemes | Listing "byte list list" | Colors | Done "byte list"

section \<open>Fonts\<close>

record font =
  fn_name :: "byte list"
  fn_path :: "byte list"

definition FONTS_DIR :: "byte list" where
  "FONTS_DIR = ascii ''/etc/ohmyxv6/fonts''"

definition MAX_FONTS :: nat where
  "MAX_FONTS = 32"

definition PSF1_HEADER_BYTES :: nat where
  "PSF1_HEADER_BYTES = 4"

definition T_FILE_type :: nat where
  "T_FILE_type = 2"

text \<open>\<^verbatim>\<open>copyname\<close> of a directory entry's name into \<open>mx\<close> bytes: at most \<open>mx - 1\<close> and at most 14 of them.\<close>

definition copyname :: "byte list \<Rightarrow> nat \<Rightarrow> byte list" where
  "copyname src mx = take (min (mx - 1) 14) (cstr src)"

definition entry_path :: "byte list \<Rightarrow> byte list \<Rightarrow> byte list" where
  "entry_path dir name = cstr (dir @ 47 # take 14 name)"

definition sortfonts :: "font list \<Rightarrow> font list" where
  "sortfonts fs = sort_entries fn_name fs"

text \<open>The loop over the directory's entries; \<open>None\<close> when there are too many.\<close>

fun read_fonts :: "pl_env \<Rightarrow> (nat \<times> byte list) list \<Rightarrow> font list \<Rightarrow> font list option" where
  "read_fonts e [] fs = Some fs"
| "read_fonts e ((inum, name) # des) fs =
     (if inum = 0 \<or> (name \<noteq> [] \<and> hd name = 46) then read_fonts e des fs
      else if length fs = MAX_FONTS then None
      else let path = entry_path FONTS_DIR name in
        case pe_file e path of
          None \<Rightarrow> read_fonts e des fs
        | Some (type, content) \<Rightarrow>
            if type \<noteq> T_FILE_type then read_fonts e des fs
            else if length content \<noteq> CONSOLE_FONT_BYTES \<and> length content \<noteq> CONSOLE_FONT_BYTES + PSF1_HEADER_BYTES
            then read_fonts e des fs
            else read_fonts e des (fs @ [\<lparr>fn_name = copyname name 32, fn_path = path\<rparr>]))"

definition loadfonts :: "pl_env \<Rightarrow> font list option" where
  "loadfonts e =
     (let fs = [\<lparr>fn_name = default_name, fn_path = []\<rparr>] in
      case pe_dir e of
        None \<Rightarrow> Some fs
      | Some des \<Rightarrow> map_option sortfonts (read_fonts e des fs))"

text \<open>The names of the colors with their numbers, in the order of the tests.\<close>

definition color_names :: "(byte list \<times> int) list" where
  "color_names =
     [(ascii ''black'', 0), (ascii ''blue'', 1), (ascii ''green'', 2), (ascii ''cyan'', 3), (ascii ''red'', 4), (ascii ''magenta'', 5),
      (ascii ''brown'', 6), (ascii ''light-gray'', 7), (ascii ''gray'', 7), (ascii ''dark-gray'', 8), (ascii ''light-blue'', 9),
      (ascii ''light-green'', 10), (ascii ''light-cyan'', 11), (ascii ''light-red'', 12), (ascii ''light-magenta'', 13),
      (ascii ''yellow'', 14), (ascii ''white'', 15)]"

definition colorvalue :: "byte list \<Rightarrow> int" where
  "colorvalue name =
     (case find (\<lambda>(n, v). str_cmp name n = 0) color_names of
        Some (n, v) \<Rightarrow> v
      | None \<Rightarrow>
          if name \<noteq> [] \<and> 48 \<le> unat (hd name) \<and> unat (hd name) \<le> 57 \<and> 0 \<le> atoi name \<and> atoi name \<le> 15 then atoi name else -1)"

type_synonym 'z outcome = "int \<times> message \<times> 'z console_scheme"

definition setcolor :: "pl_env \<Rightarrow> byte list \<Rightarrow> 'z console_scheme \<Rightarrow> 'z outcome" where
  "setcolor e color st =
     (let v = colorvalue color in
      if v < 0 then (-1, UnknownColor color, st)
      else if \<not> pe_console e then (-1, NoConsole, st)
      else (0, Done color, snd (consoleioctl 8 0 (snd (consoleioctl 4 (word_of_int v) st)))))"

text \<open>
  The loop that copies the font in pieces of 128 bytes, from the offset of the open file on. It ends at the end of the file, with the number
  of bytes, or with an error, which cancels the loading.
\<close>

function copy_font :: "pl_env \<Rightarrow> byte list \<Rightarrow> nat \<Rightarrow> nat \<Rightarrow> 'z console_scheme \<Rightarrow> (message + nat) \<times> 'z console_scheme" where
  "copy_font e path off tot st =
     (case read_at e path off 128 of
        None \<Rightarrow> (Inl (ReadFailed path), snd (consoleioctl 10 0 st))
      | Some bs \<Rightarrow>
          if bs = [] then (Inr tot, st)
          else if tot + length bs > CONSOLE_FONT_BYTES then (Inl (TooLarge path), snd (consoleioctl 10 0 st))
          else let (r, st) = consolewrite 0 bs st in
               if r \<noteq> int (length bs) then (Inl WriteFailed, snd (consoleioctl 10 0 st))
               else copy_font e path (off + length bs) (tot + length bs) st)"
  by pat_completeness auto
termination
  by (relation "measure (\<lambda>(e, path, off, tot, st). Suc CONSOLE_FONT_BYTES - tot)") (auto simp: neq_Nil_conv)

declare copy_font.simps [simp del]

definition psf1_ok :: "byte list \<Rightarrow> bool" where
  "psf1_ok header \<longleftrightarrow> header = [0x36, 0x04, 0x00, 0x10]"

definition load_path :: "pl_env \<Rightarrow> font \<Rightarrow> byte list \<Rightarrow> 'z console_scheme \<Rightarrow> 'z outcome" where
  "load_path e f name st =
     (let path = fn_path f in
      if path = [] then (-1, NoFile name, st)
      else case pe_file e path of
        None \<Rightarrow> (-1, NoStat path, st)
      | Some (_, content) \<Rightarrow>
          let size = length content; psf1 = (size \<noteq> CONSOLE_FONT_BYTES) in
          if psf1 \<and> size \<noteq> CONSOLE_FONT_BYTES + PSF1_HEADER_BYTES then (-1, BadSize path, st)
          else if \<not> pe_open e path then (-1, NoOpen path, st)
          else
            let header = (if psf1 then read_at e path 0 PSF1_HEADER_BYTES else Some []) in
            if psf1 \<and> (case header of None \<Rightarrow> True | Some h \<Rightarrow> length h \<noteq> PSF1_HEADER_BYTES) then (-1, ReadFailed path, st)
            else if psf1 \<and> \<not> psf1_ok (the header) then (-1, NotPsf1 path, st)
            else if \<not> pe_console e then (-1, NoConsole, st)
            else let (r, st) = consoleioctl 9 0 st in
              if r < 0 then (-1, NoFonts, st)
              else (case copy_font e path (if psf1 then PSF1_HEADER_BYTES else 0) 0 st of
                (Inl m, st) \<Rightarrow> (-1, m, st)
              | (Inr tot, st) \<Rightarrow> if tot \<noteq> CONSOLE_FONT_BYTES then (-1, Short path tot, st) else (0, Done name, st)))"

definition loadfont :: "pl_env \<Rightarrow> font list \<Rightarrow> byte list \<Rightarrow> 'z console_scheme \<Rightarrow> 'z outcome" where
  "loadfont e fs name st =
     (if str_cmp name default_name = 0 then
        if \<not> pe_console e then (-1, NoConsole, st)
        else let (r, st) = consoleioctl 11 0 st in if r < 0 then (-1, NoDefault, st) else (0, Done default_name, st)
      else case find (\<lambda>f. str_cmp (fn_name f) name = 0) fs of
        None \<Rightarrow> (-1, Unknown name, st)
      | Some f \<Rightarrow> load_path e f name st)"

definition font_main :: "pl_env \<Rightarrow> byte list list \<Rightarrow> 'z console_scheme \<Rightarrow> message \<times> 'z console_scheme" where
  "font_main e argv st =
     (case loadfonts e of
        None \<Rightarrow> (TooMany, st)
      | Some fs \<Rightarrow>
          if length argv < 2 \<or> str_cmp (argv ! 1) (ascii ''list'') = 0 then (Listing (map fn_name fs), st)
          else if str_cmp (argv ! 1) (ascii ''color'') = 0 then
            if length argv < 3 then (Colors, st) else (case setcolor e (argv ! 2) st of (_, m, st) \<Rightarrow> (m, st))
          else (case loadfont e fs (argv ! 1) st of (_, m, st) \<Rightarrow> (m, st)))"

section \<open>Themes\<close>

record theme =
  th_name :: "byte list"
  th_fg :: int
  th_bg :: int

definition THEMES_DIR :: "byte list" where
  "THEMES_DIR = ascii ''/etc/ohmyxv6/themes''"

definition MAX_THEMES :: nat where
  "MAX_THEMES = 64"

definition is_space :: "byte \<Rightarrow> bool" where
  "is_space c \<longleftrightarrow> c \<in> {32, 10, 13, 9}"

text \<open>\<^verbatim>\<open>readword\<close>: the next word, cut to \<open>mx - 1\<close> bytes, and the rest.\<close>

definition readword :: "byte list \<Rightarrow> nat \<Rightarrow> byte list \<times> byte list" where
  "readword p mx =
     (let q = dropWhile is_space p in
      (take (mx - 1) (takeWhile (\<lambda>c. \<not> is_space c) q), dropWhile (\<lambda>c. \<not> is_space c) q))"

definition themeparse :: "pl_env \<Rightarrow> byte list \<Rightarrow> theme option" where
  "themeparse e path =
     (if \<not> pe_open e path then None
      else case read_at e path 0 95 of
        None \<Rightarrow> None
      | Some bs \<Rightarrow>
          if bs = [] then None
          else let (name, p) = readword (cstr bs) 32 in
            if name = [] then None
            else let (n1, p) = readword p 8; fg = atoi n1; (n2, p) = readword p 8; bg = atoi n2 in
              if fg < 0 \<or> fg > 15 \<or> bg < 0 \<or> bg > 15 then None
              else Some \<lparr>th_name = name, th_fg = fg, th_bg = bg\<rparr>)"

definition sortthemes :: "theme list \<Rightarrow> theme list" where
  "sortthemes ts = sort_entries th_name ts"

fun read_themes :: "pl_env \<Rightarrow> (nat \<times> byte list) list \<Rightarrow> theme list \<Rightarrow> theme list option" where
  "read_themes e [] ts = Some ts"
| "read_themes e ((inum, name) # des) ts =
     (if inum = 0 \<or> (name \<noteq> [] \<and> hd name = 46) then read_themes e des ts
      else if length ts = MAX_THEMES then None
      else let path = entry_path THEMES_DIR name in
        case pe_file e path of
          None \<Rightarrow> read_themes e des ts
        | Some (type, _) \<Rightarrow>
            if type \<noteq> T_FILE_type then read_themes e des ts
            else (case themeparse e path of None \<Rightarrow> read_themes e des ts | Some t \<Rightarrow> read_themes e des (ts @ [t])))"

definition loadthemes :: "pl_env \<Rightarrow> theme list option" where
  "loadthemes e =
     (let ts = [\<lparr>th_name = default_name, th_fg = 7, th_bg = 0\<rparr>] in
      case pe_dir e of
        None \<Rightarrow> Some ts
      | Some des \<Rightarrow> map_option sortthemes (read_themes e des ts))"

definition themeapply :: "pl_env \<Rightarrow> theme list \<Rightarrow> byte list \<Rightarrow> 'z console_scheme \<Rightarrow> 'z outcome" where
  "themeapply e ts name st =
     (case find (\<lambda>t. str_cmp (th_name t) name = 0) ts of
        None \<Rightarrow> (-1, Unknown name, st)
      | Some t \<Rightarrow>
          if \<not> pe_console e then (-1, NoConsole, st)
          else (0, Done name,
            snd (consoleioctl 8 0 (snd (consoleioctl 5 (word_of_int (th_bg t)) (snd (consoleioctl 4 (word_of_int (th_fg t)) st)))))))"

text \<open>\<open>Unknown\<close> is printed also after a failure to open the console.\<close>

definition theme_main :: "pl_env \<Rightarrow> byte list list \<Rightarrow> 'z console_scheme \<Rightarrow> message list \<times> 'z console_scheme" where
  "theme_main e argv st =
     (let warn = (if pe_dir e = None then [NoThemes] else []) in
      case loadthemes e of
        None \<Rightarrow> (warn @ [TooMany], st)
      | Some ts \<Rightarrow>
          if length argv < 2 \<or> str_cmp (argv ! 1) (ascii ''list'') = 0 then (warn @ [Listing (map th_name ts)], st)
          else (case themeapply e ts (argv ! 1) st of
            (r, m, st) \<Rightarrow> (warn @ (if m = NoConsole then [NoConsole, Unknown (argv ! 1)] else [m]), st)))"

section \<open>The order of names\<close>

text \<open>What a comparison function needs for the nested loops to sort.\<close>

locale comparison =
  fixes cmp :: "'k \<Rightarrow> 'k \<Rightarrow> int"
  assumes flip: "cmp a b > 0 \<Longrightarrow> cmp b a \<le> 0"
    and trans: "cmp a b \<le> 0 \<Longrightarrow> cmp b c \<le> 0 \<Longrightarrow> cmp a c \<le> 0"
begin

definition exchange :: "('a \<Rightarrow> 'k) \<Rightarrow> nat \<Rightarrow> nat \<Rightarrow> 'a list \<Rightarrow> 'a list" where
  "exchange f i j xs = (if cmp (f (xs ! i)) (f (xs ! j)) > 0 then xs[i := xs ! j, j := xs ! i] else xs)"

definition le :: "('a \<Rightarrow> 'k) \<Rightarrow> 'a \<Rightarrow> 'a \<Rightarrow> bool" where
  "le f x y \<longleftrightarrow> cmp (f x) (f y) \<le> 0"

lemma exchange_drop:
  assumes "i < j" "j < length xs"
  shows "take i (exchange f i j xs) = take i xs" "mset (drop i (exchange f i j xs)) = mset (drop i xs)"
    "length (exchange f i j xs) = length xs"
proof -
  have "drop i (xs[i := xs ! j, j := xs ! i]) = (drop i xs)[0 := drop i xs ! (j - i), j - i := drop i xs ! 0]"
    using assms by (simp add: drop_update_swap)
  moreover have "mset ((drop i xs)[0 := drop i xs ! (j - i), j - i := drop i xs ! 0]) = mset (drop i xs)"
    by (rule mset_swap) (use assms in auto)
  ultimately show "mset (drop i (exchange f i j xs)) = mset (drop i xs)" by (simp add: exchange_def)
qed (use assms in \<open>auto simp: exchange_def\<close>)

lemma row_inv:
  assumes "i < length xs" "k \<le> length xs" "i < k" "ys = fold (exchange f i) [i + 1..<k] xs"
  shows "length ys = length xs \<and> take i ys = take i xs \<and> mset (drop i ys) = mset (drop i xs)
    \<and> (\<forall>m. i < m \<and> m < k \<longrightarrow> le f (ys ! i) (ys ! m))"
  using assms(2,3) unfolding assms(4)
proof (induction k)
  case (Suc k)
  show ?case
  proof (cases "i < k")
    case True
    let ?ys = "fold (exchange f i) [i + 1..<k] xs"
    have IH: "length ?ys = length xs" "take i ?ys = take i xs" "mset (drop i ?ys) = mset (drop i xs)"
      "\<forall>m. i < m \<and> m < k \<longrightarrow> le f (?ys ! i) (?ys ! m)" using Suc True by auto
    have step: "fold (exchange f i) [i + 1..<Suc k] xs = exchange f i k ?ys" using True by simp
    note ex = exchange_drop [OF True, of ?ys f]
    have "le f (exchange f i k ?ys ! i) (exchange f i k ?ys ! m)" if m: "i < m" "m < Suc k" for m
    proof (cases "cmp (f (?ys ! i)) (f (?ys ! k)) > 0")
      case True
      then have "cmp (f (?ys ! k)) (f (?ys ! i)) \<le> 0" by (rule flip)
      then show ?thesis using True m IH(1,4) Suc.prems(1) \<open>i < k\<close> trans
        by (cases "m = k") (auto simp: exchange_def le_def nth_list_update)
    next
      case False
      then show ?thesis using m IH(4) by (cases "m = k") (auto simp: exchange_def le_def)
    qed
    then show ?thesis using IH ex step Suc.prems by simp
  qed (use Suc.prems in \<open>auto simp: not_less_eq\<close>)
qed simp

lemma rows_inv:
  assumes "k \<le> length xs" "ys = fold (\<lambda>i xs. fold (exchange f i) [i + 1..<length xs] xs) [0..<k] xs"
  shows "length ys = length xs \<and> mset ys = mset xs \<and> (\<forall>i m. i < k \<and> i < m \<and> m < length xs \<longrightarrow> le f (ys ! i) (ys ! m))"
  using assms(1) unfolding assms(2)
proof (induction k)
  case (Suc k)
  let ?row = "\<lambda>i xs. fold (exchange f i) [i + 1..<length xs] xs"
  let ?ys = "fold ?row [0..<k] xs"
  have IH: "length ?ys = length xs" "mset ?ys = mset xs" "\<forall>i m. i < k \<and> i < m \<and> m < length xs \<longrightarrow> le f (?ys ! i) (?ys ! m)"
    using Suc by auto
  let ?zs = "?row k ?ys"
  have r: "length ?zs = length ?ys" "take k ?zs = take k ?ys" "mset (drop k ?zs) = mset (drop k ?ys)"
    "\<forall>m. k < m \<and> m < length ?ys \<longrightarrow> le f (?zs ! k) (?zs ! m)"
    using row_inv [of k ?ys "length ?ys" _ f] Suc.prems IH(1) by auto
  have "mset ?zs = mset (take k ?zs) + mset (drop k ?zs)" by (simp flip: mset_append)
  also have "\<dots> = mset ?ys" unfolding r(2,3) by (simp flip: mset_append)
  finally have ms: "mset ?zs = mset xs" using IH(2) by simp
  have "le f (?zs ! i) (?zs ! m)" if im: "i < Suc k" "i < m" "m < length xs" for i m
  proof (cases "i = k")
    case True
    then show ?thesis using r(4) im IH(1) by simp
  next
    case False
    have pre: "?zs ! n = ?ys ! n" if "n < k" for n
      using arg_cong [OF r(2), of "\<lambda>ws. ws ! n"] that by simp
    have i: "i < k" "?zs ! i = ?ys ! i" using False im pre by auto
    show ?thesis
    proof (cases "m < k")
      case True
      then show ?thesis using IH(3) i im pre [OF True] by simp
    next
      case False
      then have "?zs ! m \<in> set (drop k ?zs)" using im r(1) IH(1) by (auto simp: in_set_conv_nth intro!: exI [of _ "m - k"])
      then have "?zs ! m \<in> set (drop k ?ys)" using r(3) mset_eq_setD by blast
      then obtain n where "n < length ?ys - k" "?zs ! m = ?ys ! (k + n)" by (auto simp: in_set_conv_nth)
      then show ?thesis using IH(1,3) i by (auto dest: spec [of _ i])
    qed
  qed
  then show ?case using r(1) IH(1) ms Suc.prems by simp
qed simp

lemma sorts:
  assumes "ys = fold (\<lambda>i xs. fold (exchange f i) [i + 1..<length xs] xs) [0..<length xs] xs"
  shows "mset ys = mset xs" "sorted_wrt (le f) ys"
  using rows_inv [OF _ assms] by (auto simp: sorted_wrt_iff_nth_less)

end

lemma str_cmp_flip: "str_cmp b a = - str_cmp a b"
  by (induction a b rule: str_cmp.induct) auto

lemma str_cmp_trans: "str_cmp a b \<le> 0 \<Longrightarrow> str_cmp b c \<le> 0 \<Longrightarrow> str_cmp a c \<le> 0"
proof (induction a b arbitrary: c rule: str_cmp.induct)
  case (1 a as b bs)
  then show ?case by (cases c) (auto simp: word_uint_eq_iff split: if_splits)
next
  case (2 a as)
  then show ?case by (cases c) (auto simp: word_uint_eq_iff split: if_splits)
next
  case (3 b bs)
  then show ?case by (cases c) (auto simp: word_uint_eq_iff split: if_splits)
qed auto

lemma str_cmp_zero: "str_cmp a b = 0 \<Longrightarrow> str_cmp a c = str_cmp b c"
proof (induction a b arbitrary: c rule: str_cmp.induct)
  case (1 a as b bs)
  then show ?case by (cases c) (auto simp: word_uint_eq_iff split: if_splits)
next
  case (2 a as)
  then show ?case by (cases c) (auto simp: word_uint_eq_iff split: if_splits)
next
  case (3 b bs)
  then show ?case by (cases c) (auto simp: word_uint_eq_iff split: if_splits)
qed auto

interpretation nc: comparison name_cmp
proof
  fix a b c :: "byte list"
  show "name_cmp b a \<le> 0" if "name_cmp a b > 0"
    using that str_cmp_flip [of b a] by (auto simp: name_cmp_def split: if_splits)
  show "name_cmp a c \<le> 0" if "name_cmp a b \<le> 0" "name_cmp b c \<le> 0"
    using that str_cmp_trans [of a b c] by (auto simp: name_cmp_def split: if_splits)
qed

lemma sort_entries_exchange:
  "sort_entries f xs = fold (\<lambda>i xs. fold (nc.exchange f i) [i + 1..<length xs] xs) [0..<length xs] xs"
proof -
  have "sort_step f = nc.exchange f" by (intro ext) (simp add: sort_step_def nc.exchange_def)
  then have "sort_row f = (\<lambda>i xs. fold (nc.exchange f i) [i + 1..<length xs] xs)" by (intro ext) (simp add: sort_row_def)
  then show ?thesis by (simp add: sort_entries_def)
qed

text \<open>
  The plugins sort what they have read: the entries are the same, in an order in which every name compares at most
  equal to every later one, \<^verbatim>\<open>default\<close> before all others.
\<close>

theorem sort_entries_sorts:
  "mset (sort_entries f xs) = mset xs \<and> sorted_wrt (\<lambda>x y. name_cmp (f x) (f y) \<le> 0) (sort_entries f xs)"
  using nc.sorts [OF sort_entries_exchange, of f xs] unfolding nc.le_def [abs_def] by simp

section \<open>Loading a font\<close>

lemma load_font_part:
  assumes "font_loading st" "length (font_buf st) = CONSOLE_FONT_BYTES" "font_offset st + length bs < CONSOLE_FONT_BYTES"
  shows "load_font bs st = st\<lparr>font_buf := patch (font_offset st) bs (font_buf st), font_offset := font_offset st + length bs\<rparr>"
  using assms
proof (induction bs arbitrary: st)
  case Nil
  then show ?case by (simp add: patch_def)
next
  case (Cons b bs)
  let ?st = "st\<lparr>font_buf := (font_buf st)[font_offset st := b], font_offset := font_offset st + 1\<rparr>"
  have "load_font (b # bs) st = load_font bs ?st" using Cons.prems by (simp add: Let_def)
  also have "\<dots> = ?st\<lparr>font_buf := patch (font_offset st + 1) bs ((font_buf st)[font_offset st := b]), font_offset := font_offset st + 1 + length bs\<rparr>"
    using Cons.IH [of ?st] Cons.prems by simp
  also have "patch (font_offset st + 1) bs ((font_buf st)[font_offset st := b]) = patch (font_offset st) (b # bs) (font_buf st)"
    using Cons.prems by (simp add: patch_def upd_conv_take_nth_drop take_Suc_conv_app_nth add.commute)
  finally show ?case by simp
qed

lemma load_font_idle: "\<not> font_loading st \<Longrightarrow> load_font bs st = st"
  by (cases bs) auto

lemma load_font_append: "load_font (xs @ ys) st = load_font ys (load_font xs st)"
  by (induction xs arbitrary: st) (auto simp: Let_def load_font_idle)

text \<open>The state in which the console has loaded the glyphs \<open>c\<close>.\<close>

definition font_loaded :: "byte list \<Rightarrow> 'z console_scheme \<Rightarrow> 'z console_scheme" where
  "font_loaded c st = st\<lparr>font_buf := c, font_loading := False, font_offset := 0, con_ev := con_ev st @ [LoadFont c]\<rparr>"

lemma load_font_last:
  assumes "font_loading st" "length (font_buf st) = CONSOLE_FONT_BYTES" "font_offset st + length bs = CONSOLE_FONT_BYTES" "bs \<noteq> []"
  shows "load_font bs st = font_loaded (take (font_offset st) (font_buf st) @ bs) st"
proof -
  obtain cs b where bs: "bs = cs @ [b]" using assms(4) by (metis rev_exhaust)
  have "load_font cs st = st\<lparr>font_buf := patch (font_offset st) cs (font_buf st), font_offset := font_offset st + length cs\<rparr>"
    by (rule load_font_part) (use assms bs in auto)
  moreover have "(patch (font_offset st) cs (font_buf st))[font_offset st + length cs := b] = take (font_offset st) (font_buf st) @ cs @ [b]"
  proof -
    have "drop (font_offset st + length cs) (font_buf st) = [font_buf st ! (font_offset st + length cs)]"
      using assms bs by (subst Cons_nth_drop_Suc [symmetric]) auto
    then show ?thesis using assms bs by (simp add: patch_def list_update_append)
  qed
  ultimately show ?thesis
    using assms(1,3) by (simp add: bs load_font_append emit_def font_loaded_def Let_def)
qed

lemma take_patch: "t \<le> length xs \<Longrightarrow> take (t + length bs) (patch t bs xs) = take t xs @ bs"
  by (simp add: patch_def)

lemma copy_font_copies:
  assumes "pe_file e path = Some (ty, h @ c)" "pe_bad e path = None" "length c = CONSOLE_FONT_BYTES" "t < CONSOLE_FONT_BYTES"
    and "font_loading st" "length (font_buf st) = CONSOLE_FONT_BYTES" "font_offset st = t" "take t (font_buf st) = take t c"
  shows "copy_font e path (length h + t) t st = (Inr CONSOLE_FONT_BYTES, font_loaded c st)"
  using assms(4-)
proof (induction "CONSOLE_FONT_BYTES - t" arbitrary: t st rule: less_induct)
  case less
  let ?bs = "take 128 (drop t c)"
  have bs: "read_at e path (length h + t) 128 = Some ?bs" "?bs \<noteq> []" "t + length ?bs \<le> CONSOLE_FONT_BYTES"
    using assms(1-3) less.prems(1) by (auto simp: read_at_def)
  have w: "consolewrite 0 ?bs st = (int (length ?bs), load_font ?bs st)" using less.prems(2) by (simp add: consolewrite_def)
  have step: "copy_font e path (length h + t) t st = copy_font e path (length h + t + length ?bs) (t + length ?bs) (load_font ?bs st)"
    by (subst copy_font.simps) (use bs w in \<open>simp add: not_less\<close>)
  show ?case
  proof (cases "t + length ?bs = CONSOLE_FONT_BYTES")
    case True
    then have "length (drop t c) \<le> 128" using assms(3) by simp
    then have "?bs = drop t c" by simp
    then have "take t (font_buf st) @ ?bs = c" using less.prems(5) by simp
    then have "load_font ?bs st = font_loaded c st"
      using load_font_last [OF less.prems(2,3), of ?bs] less.prems(4) True bs(2) by simp
    moreover have "read_at e path (length h + t + length ?bs) 128 = Some []"
      using assms(1-3) True by (simp add: read_at_def)
    ultimately show ?thesis unfolding step using True by (subst copy_font.simps) simp
  next
    case False
    then have lt: "t + length ?bs < CONSOLE_FONT_BYTES" using bs(3) by simp
    let ?st = "load_font ?bs st"
    have st: "?st = st\<lparr>font_buf := patch t ?bs (font_buf st), font_offset := t + length ?bs\<rparr>"
      using load_font_part [OF less.prems(2,3), of ?bs] less.prems(4) lt by simp
    have tk: "take (t + length ?bs) (patch t ?bs (font_buf st)) = take (t + length ?bs) c"
    proof -
      have "take (t + length ?bs) (patch t ?bs (font_buf st)) = take t c @ ?bs"
        using take_patch [of t "font_buf st" ?bs] less.prems(1,3,5) by simp
      also have "\<dots> = take (t + length ?bs) c" by (simp add: take_add min_def)
      finally show ?thesis .
    qed
    have "copy_font e path (length h + (t + length ?bs)) (t + length ?bs) ?st = (Inr CONSOLE_FONT_BYTES, font_loaded c ?st)"
      by (rule less.hyps) (use bs(2) less.prems lt tk st in \<open>auto simp: length_greater_0_conv [symmetric] simp del: length_greater_0_conv\<close>)
    then show ?thesis unfolding step by (simp add: st font_loaded_def add.assoc)
  qed
qed

text \<open>
  Loading a font gives the console exactly the glyphs of the file: for a file of 4096 bytes, or of 4096 bytes after the header of a PSF1 font with 256 glyphs, that can
  be read, the plugin's reads of 128 bytes and the kernel's \<^verbatim>\<open>consolewrite\<close> together load the glyphs once, the plugin
  reports success, and the console is otherwise unchanged and no longer in the loading state.
\<close>

theorem font_file_is_loaded:
  assumes "fn_path f \<noteq> []" and "pe_file e (fn_path f) = Some (ty, h @ glyphs)" and "pe_open e (fn_path f)" and "pe_bad e (fn_path f) = None"
    and "pe_console e" and "length glyphs = CONSOLE_FONT_BYTES" and "h = [] \<or> h = [0x36, 0x04, 0x00, 0x10]"
    and "length (font_buf st) = CONSOLE_FONT_BYTES"
  shows "load_path e f name st = (0, Done name, font_loaded glyphs st)"
proof -
  let ?st = "st\<lparr>font_loading := True, font_offset := 0\<rparr>"
  have io: "consoleioctl 9 0 st = (0, ?st)" by (simp add: consoleioctl_def)
  have "copy_font e (fn_path f) (length h + 0) 0 ?st = (Inr CONSOLE_FONT_BYTES, font_loaded glyphs ?st)"
    by (rule copy_font_copies [OF assms(2,4,6)]) (use assms(8) in \<open>simp_all add: CONSOLE_FONT_BYTES_def\<close>)
  moreover have "font_loaded glyphs ?st = font_loaded glyphs st" by (simp add: font_loaded_def)
  moreover have "length h \<noteq> 0 \<Longrightarrow> read_at e (fn_path f) 0 PSF1_HEADER_BYTES = Some h"
    using assms(2,4,7) by (auto simp: read_at_def PSF1_HEADER_BYTES_def)
  ultimately show ?thesis
    using assms io by (auto simp: load_path_def Let_def PSF1_HEADER_BYTES_def psf1_ok_def numeral_eq_Suc)
qed

theorem font_file_is_loaded_witness:
  "load_path \<lparr>pe_dir = None, pe_file = \<lambda>p. Some (2, [0x36, 0x04, 0x00, 0x10] @ replicate 4096 7), pe_open = \<lambda>p. True,
      pe_bad = \<lambda>p. None, pe_console = True\<rparr> \<lparr>fn_name = [97], fn_path = [47, 97]\<rparr> [97] empty_console
   = (0, Done [97], font_loaded (replicate 4096 7) empty_console)"
  using font_file_is_loaded [of "\<lparr>fn_name = [97], fn_path = [47, 97]\<rparr>"
      "\<lparr>pe_dir = None, pe_file = \<lambda>p. Some (2, [0x36, 0x04, 0x00, 0x10] @ replicate 4096 7), pe_open = \<lambda>p. True, pe_bad = \<lambda>p. None, pe_console = True\<rparr>"
      2 "[0x36, 0x04, 0x00, 0x10]" "replicate 4096 7" empty_console "[97]"]
  by (simp add: CONSOLE_FONT_BYTES_def empty_console_def)

end
