(* ===== verification/Ide.thy ===== *)
theory Ide
  imports Bio
begin

text \<open>
  \<^verbatim>\<open>src/ide.c\<close>: the driver of the IDE disk, which a build can use in the place of \<^verbatim>\<open>memide.c\<close>. Buffers wait in a queue; the first is the one the controller works on,
  and its interrupt completes it and starts the next. What the driver writes to the ports is a trace; what it reads from the data port
  is an argument of the interrupt, \<open>None\<close> when \<^verbatim>\<open>idewait\<close> reports an error. The values that polling the status port gives are a list;
  apart from the error, waiting changes nothing and is left out of the other operations.
\<close>

unbundle bit_operations_syntax

section \<open>State and operations\<close>

datatype port_op = Outb nat nat | Outsl nat block

record ide =
  id_bufs :: "buf list"
  id_queue :: "nat list"
  id_disk1 :: bool
  id_out :: "port_op list"

definition SECTOR_SIZE :: nat where
  "SECTOR_SIZE = 512"

definition IDE_CMD_READ :: nat where "IDE_CMD_READ = 0x20"
definition IDE_CMD_WRITE :: nat where "IDE_CMD_WRITE = 0x30"
definition IDE_CMD_RDMUL :: nat where "IDE_CMD_RDMUL = 0xc4"
definition IDE_CMD_WRMUL :: nat where "IDE_CMD_WRMUL = 0xc5"

definition IDE_BSY :: nat where "IDE_BSY = 0x80"
definition IDE_DRDY :: nat where "IDE_DRDY = 0x40"
definition IDE_DF :: nat where "IDE_DF = 0x20"
definition IDE_ERR :: nat where "IDE_ERR = 0x01"

text \<open>Polling the status port, whose values are \<open>rs\<close>; \<open>None\<close> while it still waits.\<close>

fun idewait :: "bool \<Rightarrow> nat list \<Rightarrow> int option" where
  "idewait checkerr [] = None"
| "idewait checkerr (r # rs) =
     (if r AND (IDE_BSY OR IDE_DRDY) \<noteq> IDE_DRDY then idewait checkerr rs
      else if checkerr \<and> r AND (IDE_DF OR IDE_ERR) \<noteq> 0 then Some (- 1) else Some 0)"

text \<open>The second disk is there when its status, of which \<open>rs\<close> are the values, becomes different from 0 within 1000 tries.\<close>

definition ideinit :: "nat list \<Rightarrow> ide \<Rightarrow> ide" where
  "ideinit rs s = s\<lparr>id_out := id_out s @ [Outb 0x1f6 (0xe0 OR push_bit 4 1), Outb 0x1f6 (0xe0 OR push_bit 4 0)],
     id_disk1 := id_disk1 s \<or> (\<exists>r \<in> set (take 1000 rs). r \<noteq> 0)\<rparr>"

text \<open>The ports that \<^verbatim>\<open>idestart\<close> writes, in their order.\<close>

definition start_ports :: "buf \<Rightarrow> port_op list" where
  "start_ports b =
     (let spb = BSIZE div SECTOR_SIZE; sector = b_blockno b * spb;
          read_cmd = (if spb = 1 then IDE_CMD_READ else IDE_CMD_RDMUL);
          write_cmd = (if spb = 1 then IDE_CMD_WRITE else IDE_CMD_WRMUL)
      in [Outb 0x3f6 0, Outb 0x1f2 spb, Outb 0x1f3 (sector mod 256), Outb 0x1f4 (sector div 2 ^ 8 mod 256),
          Outb 0x1f5 (sector div 2 ^ 16 mod 256),
          Outb 0x1f6 (0xe0 OR push_bit 4 (b_dev b mod 2) OR (sector div 2 ^ 24 mod 16))]
         @ (if b_dirty b then [Outb 0x1f7 write_cmd, Outsl 0x1f0 (b_data b)] else [Outb 0x1f7 read_cmd]))"

definition idestart :: "nat \<Rightarrow> ide \<Rightarrow> ide res" where
  "idestart i s =
     (let b = id_bufs s ! i in
      if b_blockno b \<ge> FSSIZE then Panic ''incorrect blockno''
      else if BSIZE div SECTOR_SIZE > 7 then Panic ''idestart''
      else Ok (s\<lparr>id_out := id_out s @ start_ports b\<rparr>))"

text \<open>The data port is read unless the buffer was written or the controller reports an error (\<open>None\<close>).\<close>

definition complete :: "block option \<Rightarrow> buf \<Rightarrow> buf" where
  "complete d b =
     (case d of
        Some bs \<Rightarrow> if b_dirty b then b else b\<lparr>b_data := bs\<rparr>
      | None \<Rightarrow> b)\<lparr>b_valid := True, b_dirty := False\<rparr>"

definition ideintr :: "block option \<Rightarrow> ide \<Rightarrow> ide res" where
  "ideintr d s =
     (case id_queue s of
        [] \<Rightarrow> Ok s
      | b # q \<Rightarrow>
          let s = s\<lparr>id_queue := q, id_bufs := (id_bufs s)[b := complete d (id_bufs s ! b)]\<rparr> in
          if q \<noteq> [] then idestart (hd q) s else Ok s)"

text \<open>\<^verbatim>\<open>iderw\<close> up to the loop in which it sleeps, and the condition of that loop.\<close>

definition iderw_submit :: "nat \<Rightarrow> ide \<Rightarrow> ide res" where
  "iderw_submit i s =
     (let b = id_bufs s ! i in
      if \<not> holdingsleep (b_lock b) then Panic ''iderw: buf not locked''
      else if b_valid b \<and> \<not> b_dirty b then Panic ''iderw: nothing to do''
      else if b_dev b \<noteq> 0 \<and> \<not> id_disk1 s then Panic ''iderw: ide disk 1 not present''
      else let s = s\<lparr>id_queue := id_queue s @ [i]\<rparr> in
           if hd (id_queue s) = i then idestart i s else Ok s)"

definition iderw_waits :: "nat \<Rightarrow> ide \<Rightarrow> bool" where
  "iderw_waits i s \<longleftrightarrow> \<not> (b_valid (id_bufs s ! i) \<and> \<not> b_dirty (id_bufs s ! i))"

section \<open>Runs\<close>

text \<open>
  Requests and interrupts in any order, with the requests in the order of their submission and the answers so far. A buffer in
  the queue is locked, so that nobody else submits or changes it; all other buffers may change at any time.
\<close>

record ide_run =
  r_ide :: ide
  r_sub :: "(nat \<times> buf) list"
  r_ans :: "block option list"

inductive ide_step :: "ide_run \<Rightarrow> ide_run \<Rightarrow> bool" where
  submit: "i < length (id_bufs (r_ide s)) \<Longrightarrow> i \<notin> set (id_queue (r_ide s)) \<Longrightarrow> iderw_submit i (r_ide s) = Ok d
    \<Longrightarrow> ide_step s (s\<lparr>r_ide := d, r_sub := r_sub s @ [(i, id_bufs (r_ide s) ! i)]\<rparr>)"
| answer: "id_queue (r_ide s) \<noteq> [] \<Longrightarrow> ideintr a (r_ide s) = Ok d \<Longrightarrow> ide_step s (s\<lparr>r_ide := d, r_ans := r_ans s @ [a]\<rparr>)"
| spurious: "id_queue (r_ide s) = [] \<Longrightarrow> ideintr a (r_ide s) = Ok d \<Longrightarrow> ide_step s (s\<lparr>r_ide := d\<rparr>)"
| client: "i \<notin> set (id_queue (r_ide s))
    \<Longrightarrow> ide_step s (s\<lparr>r_ide := (r_ide s)\<lparr>id_bufs := (id_bufs (r_ide s))[i := b]\<rparr>\<rparr>)"

definition ide_init :: "ide_run \<Rightarrow> bool" where
  "ide_init s \<longleftrightarrow> id_queue (r_ide s) = [] \<and> id_out (r_ide s) = [] \<and> r_sub s = [] \<and> r_ans s = []"

definition pending :: "ide_run \<Rightarrow> (nat \<times> buf) list" where
  "pending s = drop (length (r_ans s)) (r_sub s)"

text \<open>The requests that have been given to the controller: the answered ones and the first of the others.\<close>

definition started :: "ide_run \<Rightarrow> (nat \<times> buf) list" where
  "started s = take (length (r_ans s) + 1) (r_sub s)"

definition ide_inv :: "ide_run \<Rightarrow> bool" where
  "ide_inv s \<longleftrightarrow>
     length (r_ans s) \<le> length (r_sub s) \<and> id_queue (r_ide s) = map fst (pending s) \<and> distinct (id_queue (r_ide s))
     \<and> (\<forall>(i, b) \<in> set (pending s). i < length (id_bufs (r_ide s)) \<and> id_bufs (r_ide s) ! i = b)
     \<and> id_out (r_ide s) = concat (map (\<lambda>(i, b). start_ports b) (started s))"

lemma idestart_Ok: "idestart i s = Ok d \<longleftrightarrow> b_blockno (id_bufs s ! i) < FSSIZE \<and> d = s\<lparr>id_out := id_out s @ start_ports (id_bufs s ! i)\<rparr>"
  by (auto simp: idestart_def Let_def BSIZE_def SECTOR_SIZE_def)

lemma iderw_submit_Ok:
  assumes "iderw_submit i s = Ok d" "i \<notin> set (id_queue s)"
  shows "d = s\<lparr>id_queue := id_queue s @ [i], id_out := id_out s @ (if id_queue s = [] then start_ports (id_bufs s ! i) else [])\<rparr>"
  using assms by (cases "id_queue s") (auto simp: iderw_submit_def Let_def idestart_Ok split: if_splits)

lemma ideintr_Ok:
  assumes "ideintr a s = Ok d" "id_queue s = i # q" "distinct (i # q)"
  shows "d = s\<lparr>id_queue := q, id_bufs := (id_bufs s)[i := complete a (id_bufs s ! i)],
     id_out := id_out s @ (if q = [] then [] else start_ports (id_bufs s ! hd q))\<rparr>"
  using assms by (cases q) (auto simp: ideintr_def Let_def idestart_Ok)

lemma ide_step_inv:
  assumes inv: "ide_inv s" and step: "ide_step s t"
  shows "ide_inv t"
  using step
proof cases
  case (submit i d)
  let ?s = "r_ide s"
  have d: "d = ?s\<lparr>id_queue := id_queue ?s @ [i], id_out := id_out ?s @ (if id_queue ?s = [] then start_ports (id_bufs ?s ! i) else [])\<rparr>"
    by (rule iderw_submit_Ok) (use submit in auto)
  have p: "pending t = pending s @ [(i, id_bufs ?s ! i)]" using inv submit by (simp add: pending_def ide_inv_def)
  have "started t = started s @ (if pending s = [] then [(i, id_bufs ?s ! i)] else [])"
    using inv submit by (auto simp: started_def pending_def ide_inv_def)
  then show ?thesis using inv p submit d by (auto simp: ide_inv_def)
next
  case (answer a d)
  let ?s = "r_ide s"
  have q: "id_queue ?s = map fst (pending s)" using inv by (simp add: ide_inv_def)
  then obtain i b ps where p: "pending s = (i, b) # ps" using answer by (cases "pending s") auto
  have len: "length (r_ans s) < length (r_sub s)" using p by (metis drop_all linorder_not_le list.distinct(1) pending_def)
  have p': "pending t = ps" using p answer by (simp add: pending_def drop_Suc tl_drop) (metis list.sel(3) tl_drop)
  have d: "d = ?s\<lparr>id_queue := map fst ps, id_bufs := (id_bufs ?s)[i := complete a (id_bufs ?s ! i)],
      id_out := id_out ?s @ (if map fst ps = [] then [] else start_ports (id_bufs ?s ! hd (map fst ps)))\<rparr>"
    by (rule ideintr_Ok) (use answer q p inv in \<open>auto simp: ide_inv_def\<close>)
  have st: "started t = started s @ take 1 ps"
  proof -
    have "drop (length (r_ans s) + 1) (r_sub s) = ps" using p' answer by (simp add: pending_def)
    then have "take 1 ps = take 1 (drop (length (r_ans s) + 1) (r_sub s))" by simp
    then show ?thesis using answer take_add [of "length (r_ans s) + 1" 1 "r_sub s"] by (simp add: started_def)
  qed
  have nin: "i \<notin> fst ` set ps" using inv q p by (auto simp: ide_inv_def)
  have bufs: "\<forall>(j, b) \<in> set ps. j < length (id_bufs d) \<and> id_bufs d ! j = b"
  proof (clarify)
    fix j c assume jc: "(j, c) \<in> set ps"
    then have "j \<noteq> i" using nin by force
    then show "j < length (id_bufs d) \<and> id_bufs d ! j = c" using inv p jc by (auto simp: ide_inv_def d)
  qed
  have "concat (map (\<lambda>(i, b). start_ports b) (take 1 ps)) = (if map fst ps = [] then [] else start_ports (id_bufs ?s ! hd (map fst ps)))"
    using inv p by (cases ps) (auto simp: ide_inv_def)
  then show ?thesis using inv answer p p' bufs st len q by (simp add: ide_inv_def d)
next
  case (spurious a d)
  then have "d = r_ide s" by (simp add: ideintr_def)
  then show ?thesis using inv spurious by (simp add: ide_inv_def pending_def started_def)
next
  case (client i b)
  have pt: "pending t = pending s" "started t = started s" "r_ans t = r_ans s" "r_sub t = r_sub s"
    "id_queue (r_ide t) = id_queue (r_ide s)" "id_out (r_ide t) = id_out (r_ide s)"
    using client by (simp_all add: pending_def started_def)
  have "j < length (id_bufs (r_ide t)) \<and> id_bufs (r_ide t) ! j = c" if jc: "(j, c) \<in> set (pending s)" for j c
  proof -
    have "j \<in> set (id_queue (r_ide s))" using inv jc by (force simp: ide_inv_def)
    then have "j \<noteq> i" using client by auto
    then show ?thesis using inv jc client by (auto simp: ide_inv_def)
  qed
  then show ?thesis using inv unfolding ide_inv_def pt by blast
qed

interpretation ide_sys: step_system ide_init ide_step ide_inv
proof unfold_locales
  show "ide_init s \<Longrightarrow> ide_inv s" for s by (simp add: ide_init_def ide_inv_def pending_def started_def)
qed (rule ide_step_inv)

lemma pending_next: "ide_inv s \<Longrightarrow> pending s = (i, b) # ps \<Longrightarrow> r_sub s ! length (r_ans s) = (i, b)"
  by (metis drop_all hd_drop_conv_nth linorder_not_le list.distinct(1) list.sel(1) pending_def)

text \<open>
  C30. The disk driver serves requests in the order in which they were submitted. In every interleaving of requests, interrupts (also spurious ones) and changes of other
  buffers, the ports have been written for exactly the requests that are answered and the first that is not, in order; the queue is the
  rest of the requests. The next interrupt completes just that request: its buffer gets the data of this interrupt if it was to be read, keeps its data if it was written, and is valid and clean, so that the
  process that waits for it goes on; the only panic is that of a next request with a block number out of range.
\<close>

theorem ide_serves_in_order:
  assumes "ide_init s" and "ide_step\<^sup>*\<^sup>* s t"
  shows "id_out (r_ide t) = concat (map (\<lambda>(i, b). start_ports b) (take (length (r_ans t) + 1) (r_sub t)))
    \<and> id_queue (r_ide t) = map fst (drop (length (r_ans t)) (r_sub t))
    \<and> (length (r_ans t) < length (r_sub t) \<longrightarrow>
        (case r_sub t ! length (r_ans t) of (i, b) \<Rightarrow>
          (case ideintr (Some d) (r_ide t) of
             Ok u \<Rightarrow> id_bufs u ! i = b\<lparr>b_data := (if b_dirty b then b_data b else d), b_valid := True, b_dirty := False\<rparr>
               \<and> \<not> iderw_waits i u
           | Panic m \<Rightarrow> m = ''incorrect blockno'' \<and> (\<exists>(j, c) \<in> set (r_sub t). FSSIZE \<le> b_blockno c)
           | _ \<Rightarrow> False)))"
proof -
  have inv: "ide_inv t" by (rule ide_sys.inv_reachable [OF assms])
  have nxt: "case r_sub t ! length (r_ans t) of (i, b) \<Rightarrow>
          (case ideintr (Some d) (r_ide t) of
             Ok u \<Rightarrow> id_bufs u ! i = b\<lparr>b_data := (if b_dirty b then b_data b else d), b_valid := True, b_dirty := False\<rparr>
               \<and> \<not> iderw_waits i u
           | Panic m \<Rightarrow> m = ''incorrect blockno'' \<and> (\<exists>(j, c) \<in> set (r_sub t). FSSIZE \<le> b_blockno c)
           | _ \<Rightarrow> False)" if "length (r_ans t) < length (r_sub t)"
  proof -
    obtain i b ps where p: "pending t = (i, b) # ps" using \<open>length (r_ans t) < length (r_sub t)\<close> by (cases "pending t") (auto simp: pending_def)
    have nx: "r_sub t ! length (r_ans t) = (i, b)" by (rule pending_next [OF inv p])
    have sub: "set (pending t) \<subseteq> set (r_sub t)" by (simp add: pending_def set_drop_subset)
    have q: "id_queue (r_ide t) = i # map fst ps" using inv p by (simp add: ide_inv_def)
    moreover have "distinct (id_queue (r_ide t))" using inv unfolding ide_inv_def by blast
    ultimately have dq: "distinct (i # map fst ps)" by simp
    have ib: "i < length (id_bufs (r_ide t))" "id_bufs (r_ide t) ! i = b"
      and rest: "\<forall>(j, c) \<in> set ps. id_bufs (r_ide t) ! j = c"
      using inv p by (auto simp: ide_inv_def)
    show ?thesis
    proof (cases "ps = [] \<or> b_blockno (id_bufs (r_ide t) ! fst (hd ps)) < FSSIZE")
      case True
      then have "\<exists>u. ideintr (Some d) (r_ide t) = Ok u"
        using q dq by (cases ps) (auto simp: ideintr_def Let_def idestart_def BSIZE_def SECTOR_SIZE_def)
      then obtain u where u: "ideintr (Some d) (r_ide t) = Ok u" by blast
      have "id_bufs u ! i = complete (Some d) b" using ideintr_Ok [OF u q dq] ib by simp
      then show ?thesis using nx u by (simp add: complete_def iderw_waits_def)
    next
      case False
      then obtain j c ps' where ps: "ps = (j, c) # ps'" by (cases ps) auto
      have "c = id_bufs (r_ide t) ! j" "i \<noteq> j" using rest dq ps by auto
      then have "ideintr (Some d) (r_ide t) = Panic ''incorrect blockno''" "FSSIZE \<le> b_blockno c"
        using False q ps by (auto simp: ideintr_def Let_def idestart_def)
      moreover have "(j, c) \<in> set (r_sub t)" using sub p ps by auto
      ultimately show ?thesis using nx by auto
    qed
  qed
  show ?thesis using inv nxt unfolding ide_inv_def started_def pending_def by blast
qed

text \<open>One read request for block 5 of disk 1.\<close>

definition demo_buf :: buf where
  "demo_buf = \<lparr>b_valid = False, b_dirty = False, b_dev = 1, b_blockno = 5, b_lock = \<lparr>sl_locked = True, sl_name = ''buffer'', sl_pid = 3\<rparr>,
     b_refcnt = 1, b_prev = 0, b_next = 0, b_data = replicate 512 0\<rparr>"

definition demo_ide :: ide where
  "demo_ide = \<lparr>id_bufs = [demo_buf], id_queue = [], id_disk1 = True, id_out = []\<rparr>"

theorem ide_serves_in_order_witness:
  "id_out (demo_ide\<lparr>id_queue := [0], id_out := start_ports demo_buf\<rparr>) = concat (map (\<lambda>(i, b). start_ports b) (take 1 [(0 :: nat, demo_buf)]))
   \<and> (\<exists>u. ideintr (Some (replicate 512 7)) (demo_ide\<lparr>id_queue := [0], id_out := start_ports demo_buf\<rparr>) = Ok u
        \<and> b_data (id_bufs u ! 0) = replicate 512 7 \<and> \<not> iderw_waits 0 u)"
proof -
  let ?s = "\<lparr>r_ide = demo_ide, r_sub = [], r_ans = []\<rparr>"
  let ?d = "demo_ide\<lparr>id_queue := [0], id_out := start_ports demo_buf\<rparr>"
  let ?t = "\<lparr>r_ide = ?d, r_sub = [(0, demo_buf)], r_ans = []\<rparr>"
  have "iderw_submit 0 demo_ide = Ok ?d"
    by (simp add: iderw_submit_def Let_def idestart_Ok, simp add: demo_ide_def demo_buf_def holdingsleep_def FSSIZE_def)
  then have "ide_step ?s ?t" using ide_step.submit [of 0 ?s ?d] by (simp add: demo_ide_def)
  moreover have "ide_init ?s" by (simp add: ide_init_def demo_ide_def)
  ultimately have w: "ide_init ?s" "ide_step\<^sup>*\<^sup>* ?s ?t" by blast+
  have "\<exists>u. ideintr (Some (replicate 512 7)) ?d = Ok u" by (simp add: ideintr_def Let_def)
  then show ?thesis using ide_serves_in_order [OF w, of "replicate 512 7"] by (auto simp: demo_buf_def)
qed

end
