(* ===== verification/Mkfs.thy ===== *)
theory Mkfs
  imports Fs_Write
begin

text \<open>
  \<^verbatim>\<open>src/mkfs.c\<close>: the program that makes the first disk image on the build machine. The image is a list of blocks; files of the build machine
  are a parameter. \<open>Panic\<close> is a failed assertion or an exit with an error, \<open>Fault\<close> a string that does not fit its buffer. The build machine is
  little-endian, as \<^verbatim>\<open>xint\<close> and \<^verbatim>\<open>xshort\<close> make the image in any case.
\<close>

section \<open>Layout\<close>

definition NINODES :: nat where
  "NINODES = 200"

definition MAXDIRS :: nat where
  "MAXDIRS = 64"

definition nbitmap :: nat where
  "nbitmap = FSSIZE div (BSIZE * 8) + 1"

definition ninodeblocks :: nat where
  "ninodeblocks = NINODES div IPB + 1"

definition nmeta :: nat where
  "nmeta = 2 + LOGSIZE + ninodeblocks + nbitmap"

definition mkfs_sb :: superblock where
  "mkfs_sb = \<lparr>sb_size = FSSIZE, sb_nblocks = FSSIZE - nmeta, sb_ninodes = NINODES, sb_nlog = LOGSIZE, sb_logstart = 2,
     sb_inodestart = 2 + LOGSIZE, sb_bmapstart = 2 + LOGSIZE + ninodeblocks\<rparr>"

definition enc_superblock :: "superblock \<Rightarrow> byte list" where
  "enc_superblock sb = concat (map (le_bytes 4)
     [sb_size sb, sb_nblocks sb, sb_ninodes sb, sb_nlog sb, sb_logstart sb, sb_inodestart sb, sb_bmapstart sb])"

record mkfs =
  m_img :: "block list"
  m_freeinode :: nat
  m_freeblock :: nat
  m_dirs :: "(byte list \<times> nat) list"

section \<open>Sectors and inodes\<close>

definition rsect :: "nat \<Rightarrow> mkfs \<Rightarrow> block res" where
  "rsect sec m = (if sec < length (m_img m) then Ok (m_img m ! sec) else Panic ''read'')"

text \<open>Writing past the end of the image file extends it with zeros.\<close>

definition wsect :: "nat \<Rightarrow> block \<Rightarrow> mkfs \<Rightarrow> mkfs" where
  "wsect sec buf m =
     m\<lparr>m_img := (m_img m @ replicate (Suc sec - length (m_img m)) (replicate BSIZE 0))[sec := buf]\<rparr>"

definition rinode :: "nat \<Rightarrow> mkfs \<Rightarrow> dinode res" where
  "rinode inum m = bind_res (rsect (IBLOCK inum mkfs_sb) m) (\<lambda>buf. Ok (dec_dinode (IOFF inum) buf))"

definition winode :: "nat \<Rightarrow> dinode \<Rightarrow> mkfs \<Rightarrow> mkfs res" where
  "winode inum din m =
     bind_res (rsect (IBLOCK inum mkfs_sb) m) (\<lambda>buf. Ok (wsect (IBLOCK inum mkfs_sb) (enc_dinode (IOFF inum) din buf) m))"

definition mk_ialloc :: "nat \<Rightarrow> mkfs \<Rightarrow> (nat \<times> mkfs) res" where
  "mk_ialloc type m =
     (let inum = m_freeinode m; m = m\<lparr>m_freeinode := inum + 1\<rparr>;
          din = \<lparr>di_type = type, di_major = 0, di_minor = 0, di_nlink = 1, di_size = 0, di_addrs = replicate (NDIRECT + 1) 0\<rparr>
      in bind_res (winode inum din m) (\<lambda>m. Ok (inum, m)))"

definition take_block_no :: "mkfs \<Rightarrow> nat \<times> mkfs" where
  "take_block_no m = (m_freeblock m, m\<lparr>m_freeblock := m_freeblock m + 1\<rparr>)"

text \<open>The block of the file for its block number \<open>fbn\<close>; it is allocated when there is none, and so is the indirect block.\<close>

definition iappend_block :: "nat \<Rightarrow> nat list \<Rightarrow> mkfs \<Rightarrow> (nat \<times> nat list \<times> mkfs) res" where
  "iappend_block fbn as m =
     (if fbn < NDIRECT then
        (if as ! fbn = 0 then
           let (b, m) = take_block_no m in Ok (b, as[fbn := b], m)
         else Ok (as ! fbn, as, m))
      else
        let (as, m) = (if as ! NDIRECT = 0 then let (b, m) = take_block_no m in (as[NDIRECT := b], m) else (as, m)) in
        bind_res (rsect (as ! NDIRECT) m) (\<lambda>ind.
          let k = 4 * (fbn - NDIRECT) in
          if ld32 k ind = 0 then
            let (b, m) = take_block_no m; ind = st32 k b ind in Ok (ld32 k ind, as, wsect (as ! NDIRECT) ind m)
          else Ok (ld32 k ind, as, m)))"

text \<open>The number of bytes that go into the current block.\<close>

definition chunk_len :: "nat \<Rightarrow> byte list \<Rightarrow> nat" where
  "chunk_len off p = min (length p) ((off div BSIZE + 1) * BSIZE - off)"

lemma chunk_len_pos: "p \<noteq> [] \<Longrightarrow> 0 < chunk_len off p" "chunk_len off p \<le> length p"
proof -
  assume "p \<noteq> []"
  moreover have "off < (off div BSIZE + 1) * BSIZE"
    using dividend_less_div_times [of BSIZE off] by (simp add: BSIZE_def)
  ultimately show "0 < chunk_len off p" by (simp add: chunk_len_def)
qed (simp add: chunk_len_def)

function iappend_loop :: "nat \<Rightarrow> byte list \<Rightarrow> nat list \<Rightarrow> mkfs \<Rightarrow> (nat \<times> nat list \<times> mkfs) res" where
  "iappend_loop off p as m =
     (if p = [] then Ok (off, as, m)
      else let fbn = off div BSIZE in
        if fbn \<ge> MAXFILE then Panic ''assert''
        else bind_res (iappend_block fbn as m) (\<lambda>(x, as, m).
          let n1 = chunk_len off p in
          bind_res (rsect x m) (\<lambda>buf.
            iappend_loop (off + n1) (drop n1 p) as (wsect x (patch (off - fbn * BSIZE) (take n1 p) buf) m))))"
  by pat_completeness auto
termination
  by (relation "measure (\<lambda>(off, p, as, m). length p)") (simp_all add: chunk_len_pos)

declare iappend_loop.simps [simp del]

definition iappend :: "nat \<Rightarrow> byte list \<Rightarrow> mkfs \<Rightarrow> mkfs res" where
  "iappend inum p m =
     bind_res (rinode inum m) (\<lambda>din.
     bind_res (iappend_loop (di_size din) p (di_addrs din) m) (\<lambda>(off, as, m).
     winode inum (din\<lparr>di_size := off, di_addrs := as\<rparr>) m))"

section \<open>Directories\<close>

definition mk_dirlookup :: "byte list \<Rightarrow> mkfs \<Rightarrow> nat" where
  "mk_dirlookup path m = (case map_of (m_dirs m) path of Some inum \<Rightarrow> inum | None \<Rightarrow> 0)"

definition dirent_bytes :: "nat \<Rightarrow> byte list \<Rightarrow> byte list" where
  "dirent_bytes inum name = le_bytes 2 inum @ strncpy_bytes name DIRSIZ"

definition mk_dirlink :: "nat \<Rightarrow> byte list \<Rightarrow> nat \<Rightarrow> mkfs \<Rightarrow> mkfs res" where
  "mk_dirlink parent name child m =
     (if length name > DIRSIZ then Panic ''directory name too long'' else iappend parent (dirent_bytes child name) m)"

definition mk_dot :: "byte list" where "mk_dot = [46]"
definition mk_dotdot :: "byte list" where "mk_dotdot = [46, 46]"

text \<open>The part of \<^verbatim>\<open>mkdirp\<close> that makes one directory.\<close>

definition make_dir :: "nat \<Rightarrow> byte list \<Rightarrow> byte list \<Rightarrow> mkfs \<Rightarrow> (nat \<times> mkfs) res" where
  "make_dir parent partial component m =
     bind_res (mk_ialloc T_DIR m) (\<lambda>(child, m).
       if length (m_dirs m) \<ge> MAXDIRS then Panic ''too many directories''
       else
         bind_res (mk_dirlink parent component child m) (\<lambda>m.
         bind_res (mk_dirlink child mk_dot child m) (\<lambda>m.
         bind_res (mk_dirlink child mk_dotdot parent m) (\<lambda>m.
         Ok (child, m\<lparr>m_dirs := m_dirs m @ [(partial, child)]\<rparr>)))))"

text \<open>The path after the first component and the slash behind it.\<close>

definition path_rest :: "byte list \<Rightarrow> byte list" where
  "path_rest p = (let r = dropWhile (\<lambda>c. c \<noteq> 47) p in if r \<noteq> [] then tl r else r)"

lemma path_rest_shorter: "p \<noteq> [] \<Longrightarrow> length (path_rest p) < length p"
proof -
  assume p: "p \<noteq> []"
  have l: "length (dropWhile (\<lambda>c. c \<noteq> 47) p) \<le> length p" by (rule length_dropWhile_le)
  show ?thesis
  proof (cases "dropWhile (\<lambda>c. c \<noteq> 47) p")
    case Nil
    then have "path_rest p = []" by (simp add: path_rest_def)
    then show ?thesis using p by simp
  next
    case (Cons c r)
    then show ?thesis using l unfolding path_rest_def by simp
  qed
qed

function mkdirp_loop :: "byte list \<Rightarrow> byte list \<Rightarrow> nat \<Rightarrow> mkfs \<Rightarrow> (nat \<times> mkfs) res" where
  "mkdirp_loop p partial parent m =
     (if p = [] then Ok (parent, m)
      else let component = takeWhile (\<lambda>c. c \<noteq> 47) p; rest = path_rest p
           in if length component > DIRSIZ then Panic ''directory name too long''
              else let partial = (if partial \<noteq> [] then partial @ [47] else partial) @ component;
                       found = mk_dirlookup partial m
                in if length partial \<ge> 128 then Fault ''partial''
                   else if found \<noteq> 0 then mkdirp_loop rest partial found m
                   else bind_res (make_dir parent partial component m) (\<lambda>(child, m). mkdirp_loop rest partial child m))"
  by pat_completeness auto
termination
  by (relation "measure (\<lambda>(p, partial, parent, m). length p)") (simp_all add: path_rest_shorter)

declare mkdirp_loop.simps [simp del]

definition mkdirp :: "byte list \<Rightarrow> mkfs \<Rightarrow> (nat \<times> mkfs) res" where
  "mkdirp path m = (if path = [] then Ok (ROOTINO, m) else mkdirp_loop path [] ROOTINO m)"

section \<open>The program\<close>

definition bin_name :: "byte list" where "bin_name = [98, 105, 110]"
definition etc_slash :: "byte list" where "etc_slash = [101, 116, 99, 47]"

text \<open>\<^verbatim>\<open>index\<close> and \<^verbatim>\<open>rindex\<close>: what comes before and after the first or the last slash.\<close>

definition split_first :: "byte list \<Rightarrow> (byte list \<times> byte list) option" where
  "split_first s = (if 47 \<in> set s then Some (takeWhile (\<lambda>c. c \<noteq> 47) s, tl (dropWhile (\<lambda>c. c \<noteq> 47) s)) else None)"

definition split_last :: "byte list \<Rightarrow> (byte list \<times> byte list) option" where
  "split_last s = map_option (\<lambda>(a, b). (rev b, rev a)) (split_first (rev s))"

text \<open>The directory and the name in the image for a file of the command line.\<close>

definition place :: "byte list \<Rightarrow> (byte list \<times> byte list) res" where
  "place arg =
     (if length arg \<ge> 256 then Fault ''original''
      else if arg \<noteq> [] \<and> hd arg = 95 then Ok (bin_name, tl arg)
      else case split_first arg of
        Some (package, after) \<Rightarrow>
          if take 4 after = etc_slash then
            let rest = drop 4 after in
            if length package > DIRSIZ then Panic ''package name too long''
            else (case split_last rest of
              None \<Rightarrow> Ok (etc_slash @ package, rest)
            | Some (dir, name) \<Rightarrow> Ok (etc_slash @ package @ 47 # dir, name))
          else (case split_last arg of Some (dir, name) \<Rightarrow> Ok (dir, name) | None \<Rightarrow> Ok (bin_name, arg))
      | None \<Rightarrow> Ok (bin_name, arg))"

text \<open>The loop that copies a file in pieces of \<^verbatim>\<open>BSIZE\<close> bytes.\<close>

function copy_in :: "nat \<Rightarrow> byte list \<Rightarrow> mkfs \<Rightarrow> mkfs res" where
  "copy_in inum bs m =
     (if bs = [] then Ok m else bind_res (iappend inum (take BSIZE bs) m) (copy_in inum (drop BSIZE bs)))"
  by pat_completeness auto
termination
  by (relation "measure (\<lambda>(inum, bs, m). length bs)") (simp_all add: BSIZE_def)

declare copy_in.simps [simp del]

definition add_file :: "(byte list \<Rightarrow> byte list option) \<Rightarrow> byte list \<Rightarrow> mkfs \<Rightarrow> mkfs res" where
  "add_file host arg m =
     (case host arg of
        None \<Rightarrow> Panic ''open''
      | Some bs \<Rightarrow>
          bind_res (place arg) (\<lambda>(dirpath, name).
            if length name > DIRSIZ then Panic ''file name too long''
            else
              bind_res (mkdirp dirpath m) (\<lambda>(parent, m).
              bind_res (mk_ialloc T_FILE m) (\<lambda>(inum, m).
              bind_res (iappend parent (dirent_bytes inum name) m) (\<lambda>m.
              copy_in inum bs m)))))"

text \<open>The last loop: the size of every directory becomes the next multiple of the block size.\<close>

definition round_dir :: "nat \<Rightarrow> mkfs \<Rightarrow> mkfs res" where
  "round_dir inum m =
     bind_res (rinode inum m) (\<lambda>din. winode inum (din\<lparr>di_size := (di_size din div BSIZE + 1) * BSIZE\<rparr>) m)"

definition mk_balloc :: "nat \<Rightarrow> mkfs \<Rightarrow> mkfs res" where
  "mk_balloc n m =
     (if n \<ge> BSIZE * 8 then Panic ''assert''
      else Ok (wsect (sb_bmapstart mkfs_sb) (fold bm_mark [0..<n] (replicate BSIZE 0)) m))"

definition blank_image :: mkfs where
  "blank_image =
     wsect 1 (patch 0 (enc_superblock mkfs_sb) (replicate BSIZE 0))
       \<lparr>m_img = replicate FSSIZE (replicate BSIZE 0), m_freeinode = 1, m_freeblock = nmeta, m_dirs = []\<rparr>"

definition make_root :: "mkfs \<Rightarrow> mkfs res" where
  "make_root m =
     bind_res (mk_ialloc T_DIR m) (\<lambda>(root, m).
       if root \<noteq> ROOTINO then Panic ''assert''
       else
         bind_res (iappend root (dirent_bytes root mk_dot) (m\<lparr>m_dirs := [([], root)]\<rparr>)) (\<lambda>m.
         bind_res (iappend root (dirent_bytes root mk_dotdot) m) (\<lambda>m.
         bind_res (mk_ialloc T_DIR m) (\<lambda>(inum, m).
           let bin = inum mod 256 in
           bind_res (iappend root (dirent_bytes bin bin_name) m) (\<lambda>m.
           bind_res (iappend bin (dirent_bytes bin mk_dot) m) (\<lambda>m.
           bind_res (iappend bin (dirent_bytes root mk_dotdot) m) (\<lambda>m.
           Ok (m\<lparr>m_dirs := m_dirs m @ [(bin_name, bin)]\<rparr>))))))))"

definition mkfs_main :: "(byte list \<Rightarrow> byte list option) \<Rightarrow> byte list list \<Rightarrow> mkfs res" where
  "mkfs_main host args =
     bind_res (make_root blank_image) (\<lambda>m.
     bind_res (fold_res (add_file host) args m) (\<lambda>m.
     bind_res (fold_res round_dir (map snd (m_dirs m)) m) (\<lambda>m.
     mk_balloc (m_freeblock m) m)))"

end
