(* ===== verification/Mkfs_Props.thy ===== *)
theory Mkfs_Props
  imports Mkfs
begin

text \<open>
  Files in the image that \<^verbatim>\<open>mkfs\<close> makes: appending to a file appends to the bytes that the kernel will read from it,
  and leaves the other files alone.
\<close>

section \<open>Well-formed images\<close>

definition mview :: "mkfs \<Rightarrow> nat \<Rightarrow> block" where
  "mview m b = m_img m ! b"

text \<open>The blocks from \<open>m_freeblock\<close> on have not been used and hold zeros.\<close>

definition img_ok :: "mkfs \<Rightarrow> bool" where
  "img_ok m \<longleftrightarrow> length (m_img m) = FSSIZE \<and> (\<forall>b < FSSIZE. length (mview m b) = BSIZE) \<and> nmeta \<le> m_freeblock m
     \<and> (\<forall>b. m_freeblock m \<le> b \<and> b < FSSIZE \<longrightarrow> mview m b = zeros)"

text \<open>
  The block numbers \<open>f\<close> of a file and its indirect block \<open>ind\<close>: used data blocks below \<open>fb\<close>, all different.
\<close>

definition addrs_ok :: "nat \<Rightarrow> (nat \<Rightarrow> nat) \<Rightarrow> nat \<Rightarrow> bool" where
  "addrs_ok fb f ind \<longleftrightarrow> (\<forall>n < MAXFILE. f n = 0 \<or> nmeta \<le> f n \<and> f n < fb) \<and> (ind = 0 \<or> nmeta \<le> ind \<and> ind < fb)
     \<and> (\<forall>n < MAXFILE. \<forall>k < MAXFILE. f n = f k \<and> f n \<noteq> 0 \<longrightarrow> n = k) \<and> (ind \<noteq> 0 \<longrightarrow> (\<forall>n < MAXFILE. f n \<noteq> ind))"

definition mfile_ok :: "mkfs \<Rightarrow> nat list \<Rightarrow> bool" where
  "mfile_ok m as \<longleftrightarrow> length as = NDIRECT + 1 \<and> addrs_ok (m_freeblock m) (fa (mview m) as) (as ! NDIRECT)"

lemma nmeta_pos: "0 < nmeta"
  by (simp add: nmeta_def)

lemma addrs_grow:
  assumes "addrs_ok fb f ind" "f n = 0" "nmeta \<le> fb" "n < MAXFILE"
  shows "addrs_ok (fb + 1) (f(n := fb)) ind"
  using assms nmeta_pos unfolding addrs_ok_def by (auto simp: less_Suc_eq)

lemma addrs_ind:
  assumes "addrs_ok fb f 0" "nmeta \<le> fb"
  shows "addrs_ok (fb + 1) f fb"
  using assms nmeta_pos unfolding addrs_ok_def by (auto simp: less_Suc_eq)

lemma addrs_cong: "addrs_ok fb f ind \<Longrightarrow> (\<And>n. n < MAXFILE \<Longrightarrow> g n = f n) \<Longrightarrow> addrs_ok fb g ind"
  by (auto simp: addrs_ok_def)

lemma addrs_mono:
  assumes "addrs_ok fb f ind" "fb \<le> fb'"
  shows "addrs_ok fb' f ind"
proof -
  have "f n = 0 \<or> nmeta \<le> f n \<and> f n < fb'" if "n < MAXFILE" for n
    using assms that unfolding addrs_ok_def by (meson order.strict_trans2)
  moreover have "ind = 0 \<or> nmeta \<le> ind \<and> ind < fb'" using assms by (auto simp: addrs_ok_def)
  ultimately show ?thesis using assms(1) by (simp add: addrs_ok_def)
qed

lemma wsect_in:
  assumes "b < length (m_img m)"
  shows "mview (wsect b d m) = (mview m)(b := d)" "length (m_img (wsect b d m)) = length (m_img m)"
    "m_freeblock (wsect b d m) = m_freeblock m" "m_freeinode (wsect b d m) = m_freeinode m" "m_dirs (wsect b d m) = m_dirs m"
  using assms by (auto simp: wsect_def mview_def fun_eq_iff nth_list_update)

lemma NINDIRECT_bound: "n < MAXFILE \<Longrightarrow> NDIRECT \<le> n \<Longrightarrow> 4 * (n - NDIRECT) + 4 \<le> BSIZE"
  by (auto simp: MAXFILE_def NINDIRECT_def BSIZE_def)

section \<open>The block of a file\<close>

text \<open>
  The image goes from \<open>m\<close> to \<open>m'\<close> while a file's block numbers go from \<open>as\<close> to \<open>as'\<close>: blocks of the file may change
  and new ones may be taken, but no other block in use changes.
\<close>

definition extends :: "mkfs \<Rightarrow> nat list \<Rightarrow> mkfs \<Rightarrow> nat list \<Rightarrow> bool" where
  "extends m as m' as' \<longleftrightarrow> img_ok m' \<and> mfile_ok m' as' \<and> m_freeblock m \<le> m_freeblock m'
     \<and> (\<forall>b. b \<notin> fblocks (mview m) as \<and> b < m_freeblock m \<longrightarrow> mview m' b = mview m b)
     \<and> fblocks (mview m') as' \<subseteq> fblocks (mview m) as \<union> {m_freeblock m..<m_freeblock m'} \<and> m_dirs m' = m_dirs m"

lemma extends_trans:
  assumes "extends m as m1 as1" "extends m1 as1 m2 as2"
  shows "extends m as m2 as2"
proof -
  have "mview m2 b = mview m b" if "b \<notin> fblocks (mview m) as" "b < m_freeblock m" for b
  proof -
    have "b \<notin> fblocks (mview m1) as1" using assms(1) that unfolding extends_def by fastforce
    then show ?thesis using assms that unfolding extends_def by (metis order.strict_trans2)
  qed
  moreover have "fblocks (mview m2) as2 \<subseteq> fblocks (mview m) as \<union> {m_freeblock m..<m_freeblock m2}"
    using assms unfolding extends_def by fastforce
  ultimately show ?thesis using assms unfolding extends_def by (auto intro: order_trans)
qed

text \<open>Finding or allocating a block leaves what the file holds.\<close>

definition grows :: "mkfs \<Rightarrow> nat list \<Rightarrow> mkfs \<Rightarrow> nat list \<Rightarrow> bool" where
  "grows m as m' as' \<longleftrightarrow> extends m as m' as' \<and> (\<forall>n < MAXFILE. fdata (mview m') as' n = fdata (mview m) as n)
     \<and> m_freeinode m' = m_freeinode m"

lemmas grows_defs = grows_def extends_def

lemma grows_refl: "img_ok m \<Longrightarrow> mfile_ok m as \<Longrightarrow> grows m as m as"
  by (simp add: grows_defs)

lemma grows_trans: "grows m as m1 as1 \<Longrightarrow> grows m1 as1 m2 as2 \<Longrightarrow> grows m as m2 as2"
  using extends_trans by (auto simp: grows_def)

lemma img_take: "img_ok m \<Longrightarrow> img_ok (snd (take_block_no m))"
  by (auto simp: img_ok_def take_block_no_def mview_def)

lemma take_simps [simp]:
  "fst (take_block_no m) = m_freeblock m" "mview (snd (take_block_no m)) = mview m" "m_freeblock (snd (take_block_no m)) = m_freeblock m + 1"
  "m_freeinode (snd (take_block_no m)) = m_freeinode m" "m_dirs (snd (take_block_no m)) = m_dirs m" "m_img (snd (take_block_no m)) = m_img m"
  by (auto simp: take_block_no_def mview_def fun_eq_iff)

lemma grow_direct:
  assumes m: "img_ok m" "mfile_ok m as" and n: "n < NDIRECT" "as ! n = 0" and room: "m_freeblock m < FSSIZE"
  shows "grows m as (snd (take_block_no m)) (as[n := m_freeblock m])" and "fa (mview m) (as[n := m_freeblock m]) n = m_freeblock m"
proof -
  let ?v = "mview m" and ?b = "m_freeblock m" and ?as = "as[n := m_freeblock m]"
  have len: "length as = NDIRECT + 1" and ok: "addrs_ok ?b (fa ?v as) (as ! NDIRECT)" using m(2) by (auto simp: mfile_ok_def)
  have f: "fa ?v ?as = (fa ?v as)(n := ?b)" using n(1) len by (auto simp: fa_def fun_eq_iff nth_list_update)
  have f0: "fa ?v as n = 0" using n by (simp add: fa_def)
  have nm: "nmeta \<le> ?b" and z: "?v ?b = zeros" using m(1) room by (auto simp: img_ok_def)
  have n': "n < MAXFILE" using n(1) by (simp add: MAXFILE_def)
  have ind: "?as ! NDIRECT = as ! NDIRECT" using n(1) by simp
  have "mfile_ok (snd (take_block_no m)) ?as"
    using addrs_grow [OF ok f0 nm n'] len by (simp add: mfile_ok_def f ind)
  moreover have "fdata ?v ?as k = fdata ?v as k" if "k < MAXFILE" for k
    using f f0 z nm nmeta_pos by (auto simp: fdata_def)
  moreover have "fblocks ?v ?as \<subseteq> fblocks ?v as \<union> {?b..<?b + 1}" by (auto simp: fblocks_def f ind)
  ultimately show "grows m as (snd (take_block_no m)) ?as" using img_take [OF m(1)] by (simp add: grows_defs)
  show "fa ?v ?as n = ?b" using f by simp
qed

lemma grow_ind:
  assumes m: "img_ok m" "mfile_ok m as" and n: "as ! NDIRECT = 0" and room: "m_freeblock m < FSSIZE"
  shows "grows m as (snd (take_block_no m)) (as[NDIRECT := m_freeblock m])"
proof -
  let ?v = "mview m" and ?b = "m_freeblock m" and ?as = "as[NDIRECT := m_freeblock m]"
  have len: "length as = NDIRECT + 1" and ok: "addrs_ok ?b (fa ?v as) 0" using m(2) n by (auto simp: mfile_ok_def)
  have nm: "nmeta \<le> ?b" and z: "?v ?b = zeros" using m(1) room by (auto simp: img_ok_def)
  have f: "fa ?v ?as k = fa ?v as k" if "k < MAXFILE" for k
    using n len z NINDIRECT_bound [OF that] nm nmeta_pos by (auto simp: fa_def ld32_zeros nth_list_update)
  have ind: "?as ! NDIRECT = ?b" using len by simp
  have "mfile_ok (snd (take_block_no m)) ?as"
    using addrs_cong [OF addrs_ind [OF ok nm] f] len by (simp add: mfile_ok_def ind)
  moreover have "fdata ?v ?as k = fdata ?v as k" if "k < MAXFILE" for k using f [OF that] by (simp add: fdata_def)
  moreover have "fblocks ?v ?as \<subseteq> fblocks ?v as \<union> {?b..<?b + 1}" using f by (auto simp: fblocks_def ind)
  ultimately show ?thesis using img_take [OF m(1)] by (simp add: grows_defs)
qed

lemma grow_entry:
  assumes m: "img_ok m" "mfile_ok m as" and n: "NDIRECT \<le> n" "n < MAXFILE" "as ! NDIRECT \<noteq> 0" "ld32 (4 * (n - NDIRECT)) (mview m (as ! NDIRECT)) = 0"
    and room: "m_freeblock m < FSSIZE" and d: "d = st32 (4 * (n - NDIRECT)) (m_freeblock m) (mview m (as ! NDIRECT))"
    and m': "m' = wsect (as ! NDIRECT) d (snd (take_block_no m))"
  shows "grows m as m' as" and "fa (mview m') as n = m_freeblock m" and "ld32 (4 * (n - NDIRECT)) d = m_freeblock m"
    and "m_freeblock m' = m_freeblock m + 1"
proof -
  let ?v = "mview m" and ?b = "m_freeblock m" and ?i = "as ! NDIRECT"
  have len: "length as = NDIRECT + 1" and ok: "addrs_ok ?b (fa ?v as) ?i" using m(2) by (auto simp: mfile_ok_def)
  have nm: "nmeta \<le> ?b" and z: "?v ?b = zeros" and il: "length (m_img m) = FSSIZE" using m(1) room by (auto simp: img_ok_def)
  have i: "?i < ?b" "?i < FSSIZE" using ok n(3) room by (auto simp: addrs_ok_def)
  have li: "length (?v ?i) = BSIZE" using m(1) i(2) by (simp add: img_ok_def)
  note w = wsect_in [of ?i "snd (take_block_no m)" d, unfolded take_simps, folded m', OF i(2) [folded il]]
  have b32: "?b mod 2 ^ 32 = ?b" using room by (simp add: FSSIZE_def)
  show ld: "ld32 (4 * (n - NDIRECT)) d = ?b"
    using NINDIRECT_bound [OF n(2,1)] li b32 by (simp add: d)
  have other: "ld32 (4 * (k - NDIRECT)) d = ld32 (4 * (k - NDIRECT)) (?v ?i)" if "k < MAXFILE" "NDIRECT \<le> k" "k \<noteq> n" for k
    unfolding d by (rule ld32_st32_other) (use NINDIRECT_bound [OF n(2,1)] NINDIRECT_bound [OF that(1,2)] li that n(1) in auto)
  have f: "fa (mview m') as k = ((fa ?v as)(n := ?b)) k" if "k < MAXFILE" for k
    using n ld other [OF that] by (auto simp: fa_def w(1))
  then show fn: "fa (mview m') as n = ?b" using n(2) by simp
  have f0: "fa ?v as n = 0" using n by (simp add: fa_def)
  have "mfile_ok m' as" using addrs_cong [OF addrs_grow [OF ok f0 nm n(2)] f] len by (simp add: mfile_ok_def w(3))
  moreover have "length d = BSIZE" using NINDIRECT_bound [OF n(2,1)] li by (simp add: d st32_def)
  then have "img_ok m'" using m(1) i(1) by (auto simp: img_ok_def w)
  moreover have "fdata (mview m') as k = fdata ?v as k" if k: "k < MAXFILE" for k
  proof (cases "k = n")
    case True
    then show ?thesis using f [OF k] f0 z i nm nmeta_pos by (simp add: fdata_def w(1))
  next
    case False
    then show ?thesis using f [OF k] ok n(3) k by (auto simp: fdata_def w(1) addrs_ok_def)
  qed
  moreover have "fblocks (mview m') as \<subseteq> fblocks ?v as \<union> {?b..<?b + 1}" using f by (auto simp: fblocks_def split: if_splits)
  moreover have "mview m' b = ?v b" if "b \<notin> fblocks ?v as" for b
    using that n(3) by (auto simp: w(1) fblocks_def)
  ultimately show "grows m as m' as" by (simp add: grows_defs w)
  show "m_freeblock m' = ?b + 1" by (simp add: w)
qed

text \<open>Whether the indirect block is still to come.\<close>

definition no_ind :: "nat list \<Rightarrow> nat" where
  "no_ind as = (if as ! NDIRECT = 0 then 1 else 0)"

lemma iappend_block_grows:
  assumes m: "img_ok m" "mfile_ok m as" and n: "n < MAXFILE" and room: "m_freeblock m + no_ind as + 1 \<le> FSSIZE"
  shows "\<exists>x as' m'. iappend_block n as m = Ok (x, as', m') \<and> grows m as m' as' \<and> x = fa (mview m') as' n \<and> x \<noteq> 0
    \<and> m_freeblock m' + no_ind as' \<le> m_freeblock m + no_ind as + 1"
proof (cases "n < NDIRECT")
  case True
  have len: "length as = NDIRECT + 1" using m(2) by (simp add: mfile_ok_def)
  show ?thesis
  proof (cases "as ! n = 0")
    case z: True
    have r: "m_freeblock m < FSSIZE" "m_freeblock m \<noteq> 0" using room m(1) nmeta_pos by (auto simp: img_ok_def)
    note g = grow_direct [OF m True z r(1)]
    show ?thesis using True z g r len by (simp add: iappend_block_def split_beta no_ind_def)
  next
    case False
    then show ?thesis using True m grows_refl by (simp add: iappend_block_def fa_def)
  qed
next
  case nd: False
  define as1 m1 where "as1 = (if as ! NDIRECT = 0 then as[NDIRECT := m_freeblock m] else as)"
    and "m1 = (if as ! NDIRECT = 0 then snd (take_block_no m) else m)"
  have len: "length as = NDIRECT + 1" using m(2) by (simp add: mfile_ok_def)
  have fb0: "m_freeblock m \<noteq> 0" using m(1) nmeta_pos by (auto simp: img_ok_def)
  have g1: "grows m as m1 as1" "as1 ! NDIRECT \<noteq> 0" "m_freeblock m1 = m_freeblock m + no_ind as"
    using grow_ind [OF m] grows_refl [OF m] room len fb0 by (auto simp: as1_def m1_def no_ind_def)
  then have m1: "img_ok m1" "mfile_ok m1 as1" by (auto simp: grows_defs)
  then have i: "as1 ! NDIRECT < FSSIZE" using g1(2,3) room by (auto simp: mfile_ok_def addrs_ok_def)
  then have rd: "rsect (as1 ! NDIRECT) m1 = Ok (mview m1 (as1 ! NDIRECT))" using m1(1) by (simp add: rsect_def img_ok_def mview_def)
  have start: "iappend_block n as m = bind_res (rsect (as1 ! NDIRECT) m1) (\<lambda>ind.
      let k = 4 * (n - NDIRECT) in
      if ld32 k ind = 0 then let (b, m) = take_block_no m1; ind = st32 k b ind in Ok (ld32 k ind, as1, wsect (as1 ! NDIRECT) ind m)
      else Ok (ld32 k ind, as1, m1))"
  proof (cases "as ! NDIRECT = 0")
    case True
    then have e: "as1 = as[NDIRECT := m_freeblock m]" "m1 = m\<lparr>m_freeblock := Suc (m_freeblock m)\<rparr>"
      by (auto simp: as1_def m1_def take_block_no_def)
    show ?thesis unfolding e using nd True by (simp add: iappend_block_def take_block_no_def)
  next
    case False
    then have e: "as1 = as" "m1 = m" by (auto simp: as1_def m1_def)
    show ?thesis unfolding e using nd False by (simp add: iappend_block_def)
  qed
  show ?thesis
  proof (cases "ld32 (4 * (n - NDIRECT)) (mview m1 (as1 ! NDIRECT)) = 0")
    case True
    let ?d = "st32 (4 * (n - NDIRECT)) (m_freeblock m1) (mview m1 (as1 ! NDIRECT))"
    have r: "m_freeblock m1 < FSSIZE" using g1(3) room by simp
    note g2 = grow_entry [OF m1 _ n g1(2) True r refl refl]
    have "iappend_block n as m = Ok (m_freeblock m1, as1, wsect (as1 ! NDIRECT) ?d (snd (take_block_no m1)))"
      unfolding start rd using True g2(3) nd by (simp add: split_beta Let_def)
    then show ?thesis using g2 nd grows_trans [OF g1(1)] g1(2,3) fb0 by (auto simp: no_ind_def)
  next
    case False
    have "fa (mview m1) as1 n = ld32 (4 * (n - NDIRECT)) (mview m1 (as1 ! NDIRECT))" using nd g1(2) by (simp add: fa_def)
    then show ?thesis unfolding start rd using False g1 by (auto simp: Let_def no_ind_def)
  qed
qed

section \<open>Appending\<close>

text \<open>The file has new bytes from \<open>off\<close> on.\<close>

definition appended :: "mkfs \<Rightarrow> nat list \<Rightarrow> nat \<Rightarrow> byte list \<Rightarrow> mkfs \<Rightarrow> nat list \<Rightarrow> bool" where
  "appended m as off p m' as' \<longleftrightarrow> extends m as m' as' \<and> m_freeinode m' = m_freeinode m
     \<and> (\<forall>q < MAXFILE * BSIZE. fbyte (mview m') as' q = (if off \<le> q \<and> q < off + length p then p ! (q - off) else fbyte (mview m) as q))"

lemmas appended_defs = appended_def extends_def

lemma mfile_block:
  assumes "mfile_ok m as" "b \<in> fblocks (mview m) as"
  shows "nmeta \<le> b" "b < m_freeblock m" "b \<noteq> 0"
  using assms nmeta_pos by (auto simp: mfile_ok_def addrs_ok_def fblocks_def)

lemma fdata_len:
  assumes "img_ok m" "mfile_ok m as" "m_freeblock m \<le> FSSIZE" "n < MAXFILE"
  shows "length (fdata (mview m) as n) = BSIZE"
  using assms mfile_block [OF assms(2) fa_in_fblocks [OF assms(4)]] by (auto simp: fdata_def img_ok_def)

lemma put_block:
  assumes m: "img_ok m" "mfile_ok m as" and n: "n < MAXFILE" "fa (mview m) as n \<noteq> 0" and fb: "m_freeblock m \<le> FSSIZE"
    and d: "length d = BSIZE" and m': "m' = wsect (fa (mview m) as n) d m"
  shows "img_ok m'" "mfile_ok m' as" "m_freeblock m' = m_freeblock m" "m_freeinode m' = m_freeinode m" "m_dirs m' = m_dirs m"
    "fa (mview m') as = fa (mview m) as" "fblocks (mview m') as = fblocks (mview m) as"
    "k < MAXFILE \<Longrightarrow> fdata (mview m') as k = (if k = n then d else fdata (mview m) as k)"
    "b \<notin> fblocks (mview m) as \<Longrightarrow> mview m' b = mview m b"
proof -
  let ?x = "fa (mview m) as n"
  have xin: "?x \<in> fblocks (mview m) as" using n by (rule fa_in_fblocks)
  note x = mfile_block [OF m(2) xin]
  have ok: "addrs_ok (m_freeblock m) (fa (mview m) as) (as ! NDIRECT)" using m(2) by (simp add: mfile_ok_def)
  have xl: "?x < length (m_img m)" using x(2) fb m(1) by (simp add: img_ok_def)
  note w = wsect_in [OF xl, of d, folded m']
  show fl: "m_freeblock m' = m_freeblock m" "m_freeinode m' = m_freeinode m" "m_dirs m' = m_dirs m" by (simp_all add: w)
  have "as ! NDIRECT \<noteq> 0 \<Longrightarrow> as ! NDIRECT \<noteq> ?x" using ok n(1) by (auto simp: addrs_ok_def)
  then show f: "fa (mview m') as = fa (mview m) as" by (intro fa_cong) (auto simp: w(1))
  then show "fblocks (mview m') as = fblocks (mview m) as" by (simp add: fblocks_def)
  show "mfile_ok m' as" using m(2) f fl(1) by (simp add: mfile_ok_def)
  show "img_ok m'" using m(1) d x(2) by (auto simp: img_ok_def w)
  show "fdata (mview m') as k = (if k = n then d else fdata (mview m) as k)" if "k < MAXFILE"
  proof (cases "k = n")
    case True
    then show ?thesis unfolding fdata_def f using n(2) by (simp add: w(1))
  next
    case False
    then have "fa (mview m) as k = 0 \<or> fa (mview m) as k \<noteq> ?x" using ok n(1) that unfolding addrs_ok_def by metis
    then show ?thesis unfolding fdata_def f using False by (auto simp: w(1))
  qed
  show "mview m' b = mview m b" if "b \<notin> fblocks (mview m) as" using that xin by (auto simp: w(1))
qed

lemma chunk_len_alt: "chunk_len off p = min (length p) (BSIZE - off mod BSIZE)"
proof -
  have cut: "(q + 1) * b - (q * b + r) = b - r" for q b r :: nat by simp
  have "(off div BSIZE + 1) * BSIZE - off = BSIZE - off mod BSIZE"
    using cut [of "off div BSIZE" BSIZE "off mod BSIZE"] by simp
  then show ?thesis by (simp add: chunk_len_def)
qed

lemma appended_trans:
  assumes "appended m as off p m1 as1" "appended m1 as1 (off + length p) q m2 as2"
  shows "appended m as off (p @ q) m2 as2"
  using assms extends_trans [of m as m1 as1 m2 as2] by (auto simp: appended_def nth_append)

lemma append_chunk:
  assumes m: "img_ok m" "mfile_ok m as" and n: "off div BSIZE < MAXFILE" and room: "m_freeblock m + no_ind as + 1 \<le> FSSIZE"
    and p: "off mod BSIZE + length p \<le> BSIZE"
  shows "\<exists>x as' m1 m'. iappend_block (off div BSIZE) as m = Ok (x, as', m1) \<and> rsect x m1 = Ok (mview m1 x)
    \<and> m' = wsect x (patch (off mod BSIZE) p (mview m1 x)) m1 \<and> appended m as off p m' as'
    \<and> m_freeblock m' + no_ind as' \<le> m_freeblock m + no_ind as + 1"
proof -
  let ?n = "off div BSIZE"
  from iappend_block_grows [OF m n room] obtain x as' m1 where
    b: "iappend_block ?n as m = Ok (x, as', m1)" "grows m as m1 as'" "x = fa (mview m1) as' ?n" "x \<noteq> 0"
      "m_freeblock m1 + no_ind as' \<le> m_freeblock m + no_ind as + 1" by blast
  have m1: "img_ok m1" "mfile_ok m1 as'" using b(2) by (auto simp: grows_defs)
  have fb: "m_freeblock m1 \<le> FSSIZE" using b(5) room by simp
  have x: "fdata (mview m1) as' ?n = mview m1 x" using b(3,4) by (simp add: fdata_def)
  have l: "length (mview m1 x) = BSIZE" using fdata_len [OF m1 fb n] x by simp
  have "x < m_freeblock m1" using mfile_block(2) [OF m1(2) fa_in_fblocks [OF n]] b(3,4) by simp
  then have rd: "rsect x m1 = Ok (mview m1 x)" using m1(1) fb by (simp add: rsect_def img_ok_def mview_def)
  define d m' where "d = patch (off mod BSIZE) p (mview m1 x)" and "m' = wsect x d m1"
  have ld: "length d = BSIZE" using l p by (simp add: d_def)
  note pb = put_block [OF m1 n b(4) [unfolded b(3)] fb ld m'_def [unfolded b(3)]]
  have same: "fdata (mview m1) as' k = fdata (mview m) as k" if "k < MAXFILE" for k using b(2) that by (simp add: grows_defs)
  have fd: "fdata (mview m') as' k = (if k = ?n then patch (off mod BSIZE) p (fdata (mview m) as ?n) else fdata (mview m) as k)"
    if "k < MAXFILE" for k using pb(8) [OF that] same [OF that] same [OF n] x by (simp add: d_def)
  have len: "length (fdata (mview m) as ?n) = BSIZE" using same [OF n] x l by simp
  have "fbyte (mview m') as' q = (if off \<le> q \<and> q < off + length p then p ! (q - off) else fbyte (mview m) as q)"
    if "q < MAXFILE * BSIZE" for q by (rule chunk_fbyte_len [OF len p fd that])
  moreover have "mview m' b = mview m b" if "b \<notin> fblocks (mview m) as" "b < m_freeblock m" for b
    using pb(9) [of b] b(2) that unfolding grows_defs by fastforce
  ultimately have "appended m as off p m' as'" using pb(1-5,7) b(2) by (simp add: appended_defs grows_defs)
  then show ?thesis using b(1,5) rd pb(3) by (auto simp: m'_def d_def)
qed

lemma appended_refl: "img_ok m \<Longrightarrow> mfile_ok m as \<Longrightarrow> appended m as off [] m as"
  by (auto simp: appended_defs)

lemma iappend_loop_ok:
  assumes "img_ok m" "mfile_ok m as" "off + length p \<le> MAXFILE * BSIZE" "m_freeblock m + no_ind as + nblocks off (length p) \<le> FSSIZE"
  shows "\<exists>as' m'. iappend_loop off p as m = Ok (off + length p, as', m') \<and> appended m as off p m' as'
    \<and> m_freeblock m' + no_ind as' \<le> m_freeblock m + no_ind as + nblocks off (length p)"
  using assms
proof (induction "length p" arbitrary: off p as m rule: less_induct)
  case less
  show ?case
  proof (cases "p = []")
    case True
    then show ?thesis using less.prems(1,2) appended_refl by (simp add: iappend_loop.simps nblocks_def)
  next
    case False
    let ?c = "chunk_len off p"
    have nb: "nblocks off (length p) = Suc (nblocks (off + ?c) (length p - ?c))"
      using nblocks_chunk [OF _ chunk_len_alt [of off p]] False by simp
    have cl: "?c \<le> length p" "off mod BSIZE + length (take ?c p) \<le> BSIZE"
      using mod_less_divisor [OF BSIZE_pos, of off] by (auto simp: chunk_len_alt)
    have n: "off div BSIZE < MAXFILE" using less.prems(3) False by (intro block_in_range) (cases p, auto)
    have r: "m_freeblock m + no_ind as + 1 \<le> FSSIZE" using less.prems(4) nb by simp
    from append_chunk [OF less.prems(1,2) n r cl(2)] obtain x as1 m0 m1 where
      c: "iappend_block (off div BSIZE) as m = Ok (x, as1, m0)" "rsect x m0 = Ok (mview m0 x)"
        "m1 = wsect x (patch (off mod BSIZE) (take ?c p) (mview m0 x)) m0" "appended m as off (take ?c p) m1 as1"
        "m_freeblock m1 + no_ind as1 \<le> m_freeblock m + no_ind as + 1" by blast
    have off: "off - off div BSIZE * BSIZE = off mod BSIZE" by (simp add: minus_div_mult_eq_mod)
    have step: "iappend_loop off p as m = iappend_loop (off + ?c) (drop ?c p) as1 m1"
      using False n c(1-3) by (subst iappend_loop.simps) (simp add: Let_def off)
    have "\<exists>as' m'. iappend_loop (off + ?c) (drop ?c p) as1 m1 = Ok (off + ?c + length (drop ?c p), as', m')
        \<and> appended m1 as1 (off + ?c) (drop ?c p) m' as'
        \<and> m_freeblock m' + no_ind as' \<le> m_freeblock m1 + no_ind as1 + nblocks (off + ?c) (length (drop ?c p))"
      by (rule less.hyps) (use False chunk_len_pos(1) [OF False, of off] cl(1) c(4,5) nb less.prems(3,4) in \<open>auto simp: appended_defs\<close>)
    then obtain as' m' where t: "iappend_loop (off + ?c) (drop ?c p) as1 m1 = Ok (off + length p, as', m')"
      "appended m1 as1 (off + ?c) (drop ?c p) m' as'"
      "m_freeblock m' + no_ind as' \<le> m_freeblock m1 + no_ind as1 + nblocks (off + ?c) (length p - ?c)"
      using cl(1) by auto
    have "appended m as off (take ?c p @ drop ?c p) m' as'"
      by (rule appended_trans [OF c(4)]) (use t(2) cl(1) in simp)
    then show ?thesis using step t c(5) nb by simp
  qed
qed

section \<open>Inodes of the image\<close>

definition mk_inode :: "mkfs \<Rightarrow> nat \<Rightarrow> dinode" where
  "mk_inode m j = disk_inode mkfs_sb (mview m) j"

definition mblocks :: "mkfs \<Rightarrow> nat \<Rightarrow> nat set" where
  "mblocks m j = fblocks (mview m) (di_addrs (mk_inode m j))"

text \<open>The bytes of file \<open>j\<close>, as the kernel reads them.\<close>

definition file_bytes :: "mkfs \<Rightarrow> nat \<Rightarrow> byte list" where
  "file_bytes m j = map (fbyte (mview m) (di_addrs (mk_inode m j))) [0..<di_size (mk_inode m j)]"

text \<open>No two files share a block.\<close>

definition image_ok :: "mkfs \<Rightarrow> bool" where
  "image_ok m \<longleftrightarrow> img_ok m \<and> (\<forall>j < NINODES. mfile_ok m (di_addrs (mk_inode m j)))
     \<and> (\<forall>j < NINODES. \<forall>k < NINODES. j \<noteq> k \<longrightarrow> mblocks m j \<inter> mblocks m k = {})"

text \<open>File \<open>j\<close> is the same in two images.\<close>

definition same_file :: "mkfs \<Rightarrow> mkfs \<Rightarrow> nat \<Rightarrow> bool" where
  "same_file m m' j \<longleftrightarrow> mk_inode m' j = mk_inode m j \<and> (\<forall>q < MAXFILE * BSIZE.
     fbyte (mview m') (di_addrs (mk_inode m j)) q = fbyte (mview m) (di_addrs (mk_inode m j)) q)"

lemma IBLOCK_nmeta:
  assumes "inum < NINODES"
  shows "IBLOCK inum mkfs_sb < nmeta"
proof -
  have "inum div IPB \<le> NINODES div IPB" using assms by (intro div_le_mono) simp
  then show ?thesis by (simp add: IBLOCK_def mkfs_sb_def nmeta_def ninodeblocks_def)
qed

lemma nmeta_FSSIZE: "nmeta < FSSIZE"
  by (simp add: nmeta_def FSSIZE_def ninodeblocks_def nbitmap_def NINODES_def IPB_def BSIZE_def LOGSIZE_def MAXOPBLOCKS_def)

lemma mk_inode_ok:
  assumes "img_ok m" "j < NINODES"
  shows "dinode_ok (mk_inode m j)"
proof -
  have "length (mview m (IBLOCK j mkfs_sb)) = BSIZE" using assms IBLOCK_nmeta [OF assms(2)] nmeta_FSSIZE by (simp add: img_ok_def)
  then show ?thesis using IOFF_bound [of j] by (simp add: mk_inode_def disk_inode_def dec_dinode_ok)
qed

lemma rinode_ok: "img_ok m \<Longrightarrow> inum < NINODES \<Longrightarrow> rinode inum m = Ok (mk_inode m inum)"
  using IBLOCK_nmeta [of inum] nmeta_FSSIZE by (simp add: rinode_def rsect_def img_ok_def mk_inode_def disk_inode_def mview_def)

lemma winode_ok:
  assumes m: "img_ok m" and inum: "inum < NINODES" and di: "dinode_ok di"
  shows "\<exists>m'. winode inum di m = Ok m' \<and> img_ok m' \<and> m_freeblock m' = m_freeblock m \<and> m_freeinode m' = m_freeinode m \<and> m_dirs m' = m_dirs m
    \<and> (\<forall>j. mk_inode m' j = (if j = inum then di else mk_inode m j)) \<and> (\<forall>b. nmeta \<le> b \<longrightarrow> mview m' b = mview m b)"
proof -
  let ?b = "IBLOCK inum mkfs_sb"
  let ?d = "enc_dinode (IOFF inum) di (mview m ?b)"
  have b: "?b < nmeta" "?b < length (m_img m)" "length (mview m ?b) = BSIZE"
    using m IBLOCK_nmeta [OF inum] nmeta_FSSIZE by (auto simp: img_ok_def)
  note w = wsect_in [OF b(2), of ?d]
  have r: "winode inum di m = Ok (wsect ?b ?d m)" using b(2) by (simp add: winode_def rsect_def mview_def)
  have "length ?d = BSIZE" using b(3) IOFF_bound [of inum] length_dinode_bytes [OF di] by (simp add: enc_dinode_bytes)
  then have "img_ok (wsect ?b ?d m)" using m b(1) by (auto simp: img_ok_def w)
  moreover have "mk_inode (wsect ?b ?d m) j = (if j = inum then di else mk_inode m j)" for j
    using disk_inode_update [of "mview m" inum mkfs_sb, OF b(3) di] by (simp add: mk_inode_def w)
  ultimately show ?thesis using r b(1) by (auto simp: w)
qed

text \<open>Changing blocks from \<open>nmeta\<close> on changes no inode; what a file's blocks hold decides its contents.\<close>

lemma mk_inode_cong:
  assumes "\<And>b. b < nmeta \<Longrightarrow> mview m' b = mview m b" "j < NINODES"
  shows "mk_inode m' j = mk_inode m j"
  using assms(1) [OF IBLOCK_nmeta [OF assms(2)]] by (simp add: mk_inode_def disk_inode_def)

lemma same_file_cong:
  assumes "mk_inode m' j = mk_inode m j" "\<And>b. b \<in> mblocks m j \<Longrightarrow> mview m' b = mview m b"
  shows "same_file m m' j" "mblocks m' j = mblocks m j" "m_freeblock m \<le> m_freeblock m' \<Longrightarrow> mfile_ok m (di_addrs (mk_inode m j)) \<Longrightarrow> mfile_ok m' (di_addrs (mk_inode m' j))"
proof -
  note c = file_cong [OF assms(2) [unfolded mblocks_def]]
  show "same_file m m' j" using assms(1) c(3) block_in_range by (simp add: same_file_def fbyte_def)
  show "mblocks m' j = mblocks m j" using assms(1) c(2) by (simp add: mblocks_def)
  show "mfile_ok m' (di_addrs (mk_inode m' j))" if "m_freeblock m \<le> m_freeblock m'" "mfile_ok m (di_addrs (mk_inode m j))"
    using assms(1) c(1) that addrs_mono [of "m_freeblock m" _ _ "m_freeblock m'"] by (simp add: mfile_ok_def)
qed

lemma same_file_bytes: "same_file m m' j \<Longrightarrow> di_size (mk_inode m j) \<le> MAXFILE * BSIZE \<Longrightarrow> file_bytes m' j = file_bytes m j"
  by (auto simp: same_file_def file_bytes_def)

lemma same_file_trans: "same_file m m1 j \<Longrightarrow> same_file m1 m2 j \<Longrightarrow> same_file m m2 j"
  by (auto simp: same_file_def)

lemma same_file_inode: "same_file m m' j \<Longrightarrow> mk_inode m' j = mk_inode m j"
  by (simp add: same_file_def)

lemma MAXFILE_32: "n \<le> MAXFILE * BSIZE \<Longrightarrow> n < 2 ^ 32"
  by (simp add: MAXFILE_def NDIRECT_def NINDIRECT_def BSIZE_def)

lemma mfile_dinode:
  assumes ok: "dinode_ok di" and f: "mfile_ok m as" and fb: "m_freeblock m \<le> FSSIZE" and sz: "sz \<le> MAXFILE * BSIZE"
  shows "dinode_ok (di\<lparr>di_size := sz, di_addrs := as\<rparr>)"
proof -
  have "as ! k < 2 ^ 32" if "k < NDIRECT + 1" for k
  proof (cases "k = NDIRECT")
    case True
    then show ?thesis using f fb by (auto simp: mfile_ok_def addrs_ok_def FSSIZE_def)
  next
    case False
    then have k: "k < NDIRECT" using that by simp
    then have "as ! k = fa (mview m) as k" "k < MAXFILE" by (simp_all add: fa_def MAXFILE_def)
    then have "as ! k < FSSIZE \<or> as ! k = 0" using f fb unfolding mfile_ok_def addrs_ok_def by (metis order.strict_trans2)
    then show ?thesis by (auto simp: FSSIZE_def)
  qed
  then show ?thesis using ok f MAXFILE_32 [OF sz] by (auto simp: dinode_ok_def mfile_ok_def in_set_conv_nth)
qed

text \<open>What an operation on file \<open>inum\<close> promises: the image stays well formed and the other files stay as they are.\<close>

definition only_file :: "nat \<Rightarrow> mkfs \<Rightarrow> mkfs \<Rightarrow> bool" where
  "only_file inum m m' \<longleftrightarrow> image_ok m' \<and> (\<forall>j < NINODES. j \<noteq> inum \<longrightarrow> same_file m m' j) \<and> m_freeblock m \<le> m_freeblock m'
     \<and> m_dirs m' = m_dirs m"

lemma set_file:
  assumes m: "image_ok m" and inum: "inum < NINODES" and ext: "extends m (di_addrs (mk_inode m inum)) m1 as"
    and di: "dinode_ok di" "di_addrs di = as"
  shows "\<exists>m'. winode inum di m1 = Ok m' \<and> only_file inum m m'
    \<and> mk_inode m' inum = di \<and> m_freeblock m' = m_freeblock m1 \<and> m_freeinode m' = m_freeinode m1
    \<and> (\<forall>q < MAXFILE * BSIZE. fbyte (mview m') as q = fbyte (mview m1) as q)"
proof -
  have a: "img_ok m1" "mfile_ok m1 as" "m_freeblock m \<le> m_freeblock m1" "m_dirs m1 = m_dirs m"
    "\<And>b. b \<notin> mblocks m inum \<Longrightarrow> b < m_freeblock m \<Longrightarrow> mview m1 b = mview m b"
    "fblocks (mview m1) as \<subseteq> mblocks m inum \<union> {m_freeblock m..<m_freeblock m1}"
    using ext by (simp_all add: extends_def mblocks_def)
  have i: "img_ok m" "\<And>j. j < NINODES \<Longrightarrow> mfile_ok m (di_addrs (mk_inode m j))"
    "\<And>j k. j < NINODES \<Longrightarrow> k < NINODES \<Longrightarrow> j \<noteq> k \<Longrightarrow> mblocks m j \<inter> mblocks m k = {}" using m by (auto simp: image_ok_def)
  have nb: "nmeta \<le> b" "b < m_freeblock m" if "b \<in> mblocks m j" "j < NINODES" for b j
    using mfile_block [OF i(2) [OF that(2)]] that(1) by (auto simp: mblocks_def)
  have fm: "nmeta \<le> m_freeblock m" using i(1) by (simp add: img_ok_def)
  have ino1: "mk_inode m1 j = mk_inode m j" if "j < NINODES" for j
    by (rule mk_inode_cong [OF a(5) that]) (use nb(1) [OF _ inum] fm in fastforce)+
  from winode_ok [OF a(1) inum di(1)] obtain m' where
    w: "winode inum di m1 = Ok m'" "img_ok m'" "m_freeblock m' = m_freeblock m1" "m_freeinode m' = m_freeinode m1" "m_dirs m' = m_dirs m1"
      "\<And>j. mk_inode m' j = (if j = inum then di else mk_inode m1 j)" "\<And>b. nmeta \<le> b \<Longrightarrow> mview m' b = mview m1 b" by blast
  have other: "same_file m m' j" "mblocks m' j = mblocks m j" "mfile_ok m' (di_addrs (mk_inode m' j))" if j: "j < NINODES" "j \<noteq> inum" for j
  proof -
    have e: "mk_inode m' j = mk_inode m j" using w(6) ino1 j by simp
    have "mview m' b = mview m b" if "b \<in> mblocks m j" for b
      using w(7) a(5) nb [OF that j(1)] i(3) [OF j(1) inum j(2)] that by (metis disjoint_iff)
    note c = same_file_cong [OF e this]
    show "same_file m m' j" "mblocks m' j = mblocks m j" by (rule c(1), assumption) (rule c(2))
    show "mfile_ok m' (di_addrs (mk_inode m' j))" using c(3) i(2) [OF j(1)] a(3) w(3) by simp
  qed
  have v: "mview m' b = mview m1 b" if "b \<in> fblocks (mview m1) as" for b using that w(7) mfile_block(1) [OF a(2)] by blast
  note own = file_cong [of "mview m1" as "mview m'", OF v, simplified]
  have m_own: "mblocks m' inum \<subseteq> mblocks m inum \<union> {m_freeblock m..<m_freeblock m1}" using a(6) own(2) w(6) di(2) by (simp add: mblocks_def)
  have "mfile_ok m' (di_addrs (mk_inode m' inum))" using a(2) own(1) w(3,6) di(2) by (simp add: mfile_ok_def)
  moreover have "mblocks m' inum \<inter> mblocks m' j = {}" if "j < NINODES" "j \<noteq> inum" for j
    using m_own other(2) [OF that] i(3) [OF inum that(1)] nb(2) [OF _ that(1)] that(2) by fastforce
  moreover have "mblocks m' j \<inter> mblocks m' k = {}" if "j < NINODES" "k < NINODES" "j \<noteq> k" "j \<noteq> inum" "k \<noteq> inum" for j k
    using other(2) [OF that(1,4)] other(2) [OF that(2,5)] i(3) [OF that(1-3)] by simp
  ultimately have "image_ok m'" unfolding image_ok_def using w(2) other(3) by (metis Int_commute)
  then have "only_file inum m m'" using other(1) a(3,4) w(3,5) by (simp add: only_file_def)
  moreover have "fbyte (mview m') as q = fbyte (mview m1) as q" if "q < MAXFILE * BSIZE" for q
    using own(3) [OF block_in_range [OF that]] by (simp add: fbyte_def)
  ultimately show ?thesis using w(1,3,4,6) by simp
qed

section \<open>The operations\<close>

definition msize :: "mkfs \<Rightarrow> nat \<Rightarrow> nat" where
  "msize m j = di_size (mk_inode m j)"

text \<open>The blocks used at the most, when an indirect block of file \<open>j\<close> that does not exist yet counts.\<close>

definition reserve :: "mkfs \<Rightarrow> nat \<Rightarrow> nat" where
  "reserve m j = m_freeblock m + no_ind (di_addrs (mk_inode m j))"

lemma length_file_bytes [simp]: "length (file_bytes m j) = msize m j"
  by (simp add: file_bytes_def msize_def)

lemma iappend_ok:
  assumes m: "image_ok m" and inum: "inum < NINODES" and sz: "msize m inum + length p \<le> MAXFILE * BSIZE"
    and room: "reserve m inum + nblocks (msize m inum) (length p) \<le> FSSIZE"
  shows "\<exists>m'. iappend inum p m = Ok m' \<and> only_file inum m m' \<and> file_bytes m' inum = file_bytes m inum @ p \<and> m_freeinode m' = m_freeinode m
    \<and> reserve m' inum \<le> reserve m inum + nblocks (msize m inum) (length p)
    \<and> msize m' inum = msize m inum + length p \<and> di_type (mk_inode m' inum) = di_type (mk_inode m inum)"
proof -
  let ?di = "mk_inode m inum"
  have i: "img_ok m" "mfile_ok m (di_addrs ?di)" using m inum by (auto simp: image_ok_def)
  from iappend_loop_ok [OF i sz [unfolded msize_def] room [unfolded reserve_def msize_def]] obtain as m1 where
    l: "iappend_loop (di_size ?di) p (di_addrs ?di) m = Ok (di_size ?di + length p, as, m1)" "appended m (di_addrs ?di) (di_size ?di) p m1 as"
      "m_freeblock m1 + no_ind as \<le> reserve m inum + nblocks (msize m inum) (length p)" by (auto simp: msize_def reserve_def)
  let ?new = "?di\<lparr>di_size := di_size ?di + length p, di_addrs := as\<rparr>"
  have e: "extends m (di_addrs ?di) m1 as" "mfile_ok m1 as" "m_freeinode m1 = m_freeinode m" using l(2) by (auto simp: appended_defs)
  have ok: "dinode_ok ?new"
    by (rule mfile_dinode [OF mk_inode_ok [OF i(1) inum] e(2)]) (use l(3) room sz in \<open>simp_all add: msize_def\<close>)
  from set_file [OF m inum e(1) ok] obtain m' where w: "winode inum ?new m1 = Ok m'" "only_file inum m m'" "mk_inode m' inum = ?new"
      "m_freeblock m' = m_freeblock m1" "m_freeinode m' = m_freeinode m1"
      "\<And>q. q < MAXFILE * BSIZE \<Longrightarrow> fbyte (mview m') as q = fbyte (mview m1) as q" by auto
  have run: "iappend inum p m = Ok m'" using rinode_ok [OF i(1) inum] l(1) w(1) by (simp add: iappend_def)
  have "file_bytes m' inum = file_bytes m inum @ p"
  proof (rule nth_equalityI)
    show "length (file_bytes m' inum) = length (file_bytes m inum @ p)" using w(3) by (simp add: msize_def)
    fix q assume "q < length (file_bytes m' inum)"
    then have q: "q < di_size ?di + length p" using w(3) by (simp add: msize_def)
    then have "fbyte (mview m') as q = (if di_size ?di \<le> q then p ! (q - di_size ?di) else fbyte (mview m) (di_addrs ?di) q)"
      using w(6) l(2) sz by (auto simp: appended_def msize_def)
    then show "file_bytes m' inum ! q = (file_bytes m inum @ p) ! q"
      using q w(3) by (auto simp: file_bytes_def nth_append)
  qed
  then show ?thesis using run w(2-5) l(3) e(3) by (auto simp: reserve_def msize_def)
qed

definition no_addrs :: "nat list" where
  "no_addrs = replicate (NDIRECT + 1) 0"

definition new_inode :: "nat \<Rightarrow> dinode" where
  "new_inode type = \<lparr>di_type = type, di_major = 0, di_minor = 0, di_nlink = 1, di_size = 0, di_addrs = no_addrs\<rparr>"

lemma no_addrs [simp]: "length no_addrs = NDIRECT + 1" "set no_addrs = {0}" "no_addrs ! NDIRECT = 0" "fa v no_addrs = (\<lambda>n. 0)"
  "fblocks v no_addrs = {}"
proof -
  have nth: "no_addrs ! n = 0" if "n \<le> NDIRECT" for n unfolding no_addrs_def by (rule nth_replicate) (use that in simp)
  then show "fa v no_addrs = (\<lambda>n. 0)" by (auto simp: fa_def fun_eq_iff)
  then show "fblocks v no_addrs = {}" using nth by (auto simp: fblocks_def)
  show "no_addrs ! NDIRECT = 0" by (rule nth) simp
qed (auto simp: no_addrs_def)

lemma no_addrs_ok: "mfile_ok m no_addrs"
  by (simp add: mfile_ok_def addrs_ok_def)

lemma nblocks_one: "0 < k \<Longrightarrow> off mod BSIZE + k \<le> BSIZE \<Longrightarrow> nblocks off k = 1"
  using nblocks_chunk [of k k off] by (simp add: nblocks_def)

lemma mk_ialloc_ok:
  assumes m: "image_ok m" and inum: "m_freeinode m < NINODES" and type: "type < 2 ^ 16"
  shows "\<exists>m'. mk_ialloc type m = Ok (m_freeinode m, m') \<and> only_file (m_freeinode m) m m' \<and> mk_inode m' (m_freeinode m) = new_inode type
    \<and> m_freeblock m' = m_freeblock m \<and> m_freeinode m' = m_freeinode m + 1"
proof -
  let ?m = "m\<lparr>m_freeinode := m_freeinode m + 1\<rparr>" 
  have v: "mview (m\<lparr>m_freeinode := k\<rparr>) = mview m" for k by (simp add: mview_def fun_eq_iff)
  have ext: "extends m (di_addrs (mk_inode m (m_freeinode m))) ?m no_addrs"
    using m no_addrs_ok by (simp add: extends_def image_ok_def img_ok_def v)
  have ok: "dinode_ok (new_inode type)" using type by (auto simp: dinode_ok_def new_inode_def)
  have "mk_ialloc type m = bind_res (winode (m_freeinode m) (new_inode type) ?m) (\<lambda>m'. Ok (m_freeinode m, m'))"
    unfolding mk_ialloc_def new_inode_def no_addrs_def Let_def by (rule refl)
  then show ?thesis using set_file [OF m inum ext ok] by (auto simp: new_inode_def)
qed

lemma only_file_trans: "only_file j m m1 \<Longrightarrow> only_file j m1 m2 \<Longrightarrow> only_file j m m2"
  unfolding only_file_def using same_file_trans [of m m1 _ m2] by auto

lemma copy_in_ok:
  assumes "image_ok m" "inum < NINODES" "msize m inum + length bs \<le> MAXFILE * BSIZE"
    and "reserve m inum + nblocks (msize m inum) (length bs) \<le> FSSIZE" and "msize m inum mod BSIZE = 0"
  shows "\<exists>m'. copy_in inum bs m = Ok m' \<and> only_file inum m m' \<and> file_bytes m' inum = file_bytes m inum @ bs \<and> m_freeinode m' = m_freeinode m
    \<and> di_type (mk_inode m' inum) = di_type (mk_inode m inum)"
  using assms
proof (induction "length bs" arbitrary: bs m rule: less_induct)
  case less
  show ?case
  proof (cases "bs = []")
    case True
    then show ?thesis using less.prems(1) by (simp add: copy_in.simps only_file_def same_file_def)
  next
    case False
    let ?p = "take BSIZE bs" and ?r = "drop BSIZE bs" and ?n = "min (length bs) BSIZE"
    have nb: "nblocks (msize m inum) (length bs) = Suc (nblocks (msize m inum + ?n) (length bs - ?n))"
      by (rule nblocks_chunk) (use False less.prems(5) in simp_all)
    have n1: "nblocks (msize m inum) (length ?p) = 1"
      by (rule nblocks_one) (use False less.prems(5) BSIZE_pos in simp_all)
    have "reserve m inum + nblocks (msize m inum) (length ?p) \<le> FSSIZE" using less.prems(4) nb n1 by simp
    moreover have "msize m inum + length ?p \<le> MAXFILE * BSIZE" using less.prems(3) by simp
    ultimately obtain m1 where
      a: "iappend inum ?p m = Ok m1" "only_file inum m m1" "file_bytes m1 inum = file_bytes m inum @ ?p" "m_freeinode m1 = m_freeinode m"
        "reserve m1 inum \<le> reserve m inum + nblocks (msize m inum) (length ?p)"
        "msize m1 inum = msize m inum + length ?p" "di_type (mk_inode m1 inum) = di_type (mk_inode m inum)"
      using iappend_ok [OF less.prems(1,2), of ?p] by blast
    have step: "copy_in inum bs m = copy_in inum ?r m1" using False a(1) by (simp add: copy_in.simps)
    show ?thesis
    proof (cases "?r = []")
      case True
      then show ?thesis using step a(2,3,4,7) by (simp add: copy_in.simps)
    next
      case more: False
      then have p: "length ?p = BSIZE" "?n = BSIZE" by auto
      have "\<exists>m'. copy_in inum ?r m1 = Ok m' \<and> only_file inum m1 m' \<and> file_bytes m' inum = file_bytes m1 inum @ ?r \<and> m_freeinode m' = m_freeinode m1
          \<and> di_type (mk_inode m' inum) = di_type (mk_inode m1 inum)"
        by (rule less.hyps) (use False BSIZE_pos a n1 less.prems nb p in \<open>auto simp: only_file_def\<close>)
      then show ?thesis using step a(2-4,7) only_file_trans by fastforce
    qed
  qed
qed

lemma only_file_other:
  assumes "only_file j m m'" "k < NINODES" "k \<noteq> j"
  shows "mk_inode m' k = mk_inode m k" "msize m' k = msize m k" "msize m k \<le> MAXFILE * BSIZE \<Longrightarrow> file_bytes m' k = file_bytes m k"
  using assms same_file_bytes [of m m' k] same_file_inode [of m m' k] by (auto simp: only_file_def msize_def)

lemma length_dirent: "length (dirent_bytes inum name) = 16"
  by (simp add: dirent_bytes_def strncpy_bytes_def DIRSIZ_def)

section \<open>The first image\<close>

lemma ld16_zeros: "k + 2 \<le> BSIZE \<Longrightarrow> ld16 k zeros = 0"
  by (simp add: ld16_def zeros_def slice_def numeral_2_eq_2)

lemma dec_zeros:
  assumes "off + 64 \<le> BSIZE"
  shows "dec_dinode off zeros = (new_inode 0)\<lparr>di_nlink := 0\<rparr>"
proof -
  have "map (\<lambda>i. ld32 (off + 12 + 4 * i) zeros) [0..<NDIRECT + 1] = no_addrs"
    unfolding no_addrs_def by (rule nth_equalityI) (use assms in \<open>auto simp: ld32_zeros NDIRECT_def simp del: upt_Suc replicate.simps\<close>)
  then show ?thesis using assms by (simp add: dec_dinode_def new_inode_def ld16_zeros ld32_zeros)
qed

lemma blank_view: "b < FSSIZE \<Longrightarrow> mview blank_image b = (if b = 1 then patch 0 (enc_superblock mkfs_sb) zeros else zeros)"
  by (simp add: blank_image_def wsect_in mview_def zeros_def FSSIZE_def)

lemma blank_inode: "j < NINODES \<Longrightarrow> mk_inode blank_image j = (new_inode 0)\<lparr>di_nlink := 0\<rparr>"
  using IBLOCK_nmeta [of j] nmeta_FSSIZE IOFF_bound [of j]
  by (simp add: mk_inode_def disk_inode_def blank_view dec_zeros) (simp add: IBLOCK_def mkfs_sb_def)

lemma image_blank: "image_ok blank_image"
proof -
  have "img_ok blank_image"
    using nmeta_FSSIZE unfolding img_ok_def
    by (auto simp: blank_view zeros_def enc_superblock_def BSIZE_def) (auto simp: blank_image_def wsect_def FSSIZE_def nmeta_def)
  then show ?thesis by (simp add: image_ok_def blank_inode mblocks_def new_inode_def no_addrs_ok)
qed

text \<open>The list of directories is not on the disk.\<close>

lemma set_dirs [simp]:
  "mview (m\<lparr>m_dirs := d\<rparr>) = mview m" "mk_inode (m\<lparr>m_dirs := d\<rparr>) = mk_inode m" "file_bytes (m\<lparr>m_dirs := d\<rparr>) = file_bytes m"
  "msize (m\<lparr>m_dirs := d\<rparr>) = msize m" "image_ok (m\<lparr>m_dirs := d\<rparr>) = image_ok m"
proof -
  show v: "mview (m\<lparr>m_dirs := d\<rparr>) = mview m" by (simp add: mview_def fun_eq_iff)
  show i: "mk_inode (m\<lparr>m_dirs := d\<rparr>) = mk_inode m" by (rule ext) (simp add: mk_inode_def v)
  then show "file_bytes (m\<lparr>m_dirs := d\<rparr>) = file_bytes m" "msize (m\<lparr>m_dirs := d\<rparr>) = msize m"
    by (simp_all add: v file_bytes_def msize_def fun_eq_iff)
  show "image_ok (m\<lparr>m_dirs := d\<rparr>) = image_ok m" by (simp add: image_ok_def img_ok_def mfile_ok_def mblocks_def v i)
qed

lemma append_entry:
  assumes "image_ok m" "j < NINODES" "msize m j + 16 \<le> BSIZE" "m_freeblock m + 2 \<le> FSSIZE"
  shows "\<exists>m'. iappend j (dirent_bytes c name) m = Ok m' \<and> only_file j m m' \<and> file_bytes m' j = file_bytes m j @ dirent_bytes c name
    \<and> m_freeinode m' = m_freeinode m \<and> m_freeblock m' \<le> m_freeblock m + 2 \<and> msize m' j = msize m j + 16 \<and> di_type (mk_inode m' j) = di_type (mk_inode m j)"
proof -
  have n: "nblocks (msize m j) 16 = 1" by (rule nblocks_one) (use assms(3) in simp_all)
  have sz: "msize m j + 16 \<le> MAXFILE * BSIZE" using assms(3) by (simp add: MAXFILE_def NINDIRECT_def BSIZE_def)
  have r: "reserve m j \<le> m_freeblock m + 1" by (simp add: reserve_def no_ind_def)
  then have "reserve m j + nblocks (msize m j) 16 \<le> FSSIZE" using n assms(4) by simp
  with iappend_ok [OF assms(1,2), of "dirent_bytes c name"] sz n r show ?thesis by (fastforce simp: length_dirent reserve_def)
qed

lemma make_root_ok:
  "\<exists>m. make_root blank_image = Ok m \<and> image_ok m \<and> m_freeinode m = 3 \<and> m_dirs m = [([], 1), (bin_name, 2)] \<and> m_freeblock m \<le> nmeta + 10
    \<and> file_bytes m 1 = dirent_bytes 1 mk_dot @ dirent_bytes 1 mk_dotdot @ dirent_bytes 2 bin_name
    \<and> file_bytes m 2 = dirent_bytes 2 mk_dot @ dirent_bytes 1 mk_dotdot
    \<and> (\<forall>j < NINODES. di_type (mk_inode m j) = (if j = 1 \<or> j = 2 then T_DIR else 0))"
proof -
  have b: "m_freeinode blank_image = 1" "m_freeblock blank_image = nmeta" by (simp_all add: blank_image_def wsect_def)
  have c: "1 < NINODES" "2 < NINODES" "nmeta + 20 \<le> FSSIZE" "T_DIR < 2 ^ 16" "64 \<le> BSIZE"
    by (simp_all add: NINODES_def T_DIR_def nmeta_def FSSIZE_def ninodeblocks_def nbitmap_def IPB_def BSIZE_def LOGSIZE_def MAXOPBLOCKS_def)
  have step: "image_ok m'" if "only_file j m m'" for j m m' using that by (simp add: only_file_def)
  obtain m1 where m1: "mk_ialloc T_DIR blank_image = Ok (1, m1)" "only_file 1 blank_image m1" "mk_inode m1 1 = new_inode T_DIR"
      "m_freeblock m1 = nmeta" "m_freeinode m1 = 2"
    using mk_ialloc_ok [OF image_blank, of T_DIR] b c by (auto simp: numeral_2_eq_2)
  have s1: "file_bytes m1 1 = []" "msize m1 1 = 0" using m1(3) by (simp_all add: new_inode_def msize_def file_bytes_def)
  have im: "image_ok (m1\<lparr>m_dirs := [([], 1)]\<rparr>)" using step [OF m1(2)] by simp
  obtain m2 where m2: "iappend 1 (dirent_bytes 1 mk_dot) (m1\<lparr>m_dirs := [([], 1)]\<rparr>) = Ok m2" "only_file 1 (m1\<lparr>m_dirs := [([], 1)]\<rparr>) m2"
      "file_bytes m2 1 = dirent_bytes 1 mk_dot" "m_freeinode m2 = 2" "m_freeblock m2 \<le> nmeta + 2" "msize m2 1 = 16" "di_type (mk_inode m2 1) = di_type (mk_inode m1 1)"
    using append_entry [OF im c(1), of 1 mk_dot] m1(4,5) s1 c(3,5) by auto
  obtain m3 where m3: "iappend 1 (dirent_bytes 1 mk_dotdot) m2 = Ok m3" "only_file 1 m2 m3"
      "file_bytes m3 1 = dirent_bytes 1 mk_dot @ dirent_bytes 1 mk_dotdot" "m_freeinode m3 = 2" "m_freeblock m3 \<le> nmeta + 4" "msize m3 1 = 32" "di_type (mk_inode m3 1) = di_type (mk_inode m2 1)"
    using append_entry [OF step [OF m2(2)] c(1), of 1 mk_dotdot] m2(3-6) c(3,5) by auto
  obtain m4 where m4: "mk_ialloc T_DIR m3 = Ok (2, m4)" "only_file 2 m3 m4" "mk_inode m4 2 = new_inode T_DIR"
      "m_freeblock m4 \<le> nmeta + 4" "m_freeinode m4 = 3"
    using mk_ialloc_ok [of m3 T_DIR] m3 c by (auto simp: only_file_def)
  have s4: "file_bytes m4 2 = []" "msize m4 2 = 0" by (simp_all add: m4(3) new_inode_def msize_def file_bytes_def)
  have k4: "msize m4 1 = 32" "file_bytes m4 1 = file_bytes m3 1" using only_file_other(2,3) [OF m4(2) c(1)] m3(6) by (simp_all add: MAXFILE_def NDIRECT_def NINDIRECT_def BSIZE_def)
  obtain m5 where m5: "iappend 1 (dirent_bytes 2 bin_name) m4 = Ok m5" "only_file 1 m4 m5"
      "file_bytes m5 1 = file_bytes m3 1 @ dirent_bytes 2 bin_name" "m_freeinode m5 = 3" "m_freeblock m5 \<le> nmeta + 6" "msize m5 1 = 48" "di_type (mk_inode m5 1) = di_type (mk_inode m4 1)"
    using append_entry [OF step [OF m4(2)] c(1), of 2 bin_name] m4(4,5) k4 c(3,5) by auto
  have k5: "msize m5 2 = 0" "file_bytes m5 2 = []" using only_file_other(2,3) [OF m5(2) c(2)] s4 by simp_all
  obtain m6 where m6: "iappend 2 (dirent_bytes 2 mk_dot) m5 = Ok m6" "only_file 2 m5 m6"
      "file_bytes m6 2 = dirent_bytes 2 mk_dot" "m_freeinode m6 = 3" "m_freeblock m6 \<le> nmeta + 8" "msize m6 2 = 16" "di_type (mk_inode m6 2) = di_type (mk_inode m5 2)"
    using append_entry [OF step [OF m5(2)] c(2), of 2 mk_dot] m5(4,5) k5 c(3,5) by auto
  obtain m7 where m7: "iappend 2 (dirent_bytes 1 mk_dotdot) m6 = Ok m7" "only_file 2 m6 m7"
      "file_bytes m7 2 = dirent_bytes 2 mk_dot @ dirent_bytes 1 mk_dotdot" "m_freeinode m7 = 3" "m_freeblock m7 \<le> nmeta + 10" "di_type (mk_inode m7 2) = di_type (mk_inode m6 2)"
    using append_entry [OF step [OF m6(2)] c(2), of 1 mk_dotdot] m6(3-6) c(3,5) by auto
  have "make_root blank_image = Ok (m7\<lparr>m_dirs := m_dirs m7 @ [(bin_name, 2)]\<rparr>)"
    using m1(1) m2(1) m3(1) m4(1) m5(1) m6(1) m7(1) by (simp add: make_root_def ROOTINO_def)
  moreover have "m_dirs m7 = [([], 1)]" using m2(2) m3(2) m4(2) m5(2) m6(2) m7(2) by (simp add: only_file_def)
  moreover have "file_bytes m7 1 = file_bytes m5 1"
    using only_file_other(2,3) [OF m6(2) c(1)] only_file_other(3) [OF m7(2) c(1)] m5(6)
    by (simp add: MAXFILE_def NDIRECT_def NINDIRECT_def BSIZE_def)
  moreover have "di_type (mk_inode m7 j) = (if j = 1 \<or> j = 2 then T_DIR else 0)" if j: "j < NINODES" for j
  proof -
    note o = only_file_other(1) [OF _ j]
    consider "j = 1" | "j = 2" | "j \<noteq> 1" "j \<noteq> 2" by blast
    then show ?thesis
    proof cases
      case 1
      then show ?thesis using o [OF m7(2)] o [OF m6(2)] o [OF m4(2)] m5(7) m3(7) m2(7) m1(3) by (simp add: new_inode_def)
    next
      case 2
      then show ?thesis using m7(6) m6(7) o [OF m5(2)] m4(3) by (simp add: new_inode_def)
    next
      case 3
      then show ?thesis
        using o [OF m7(2)] o [OF m6(2)] o [OF m5(2)] o [OF m4(2)] o [OF m3(2)] o [OF m2(2)] o [OF m1(2)] blank_inode [OF j] by (simp add: new_inode_def)
    qed
  qed
  ultimately show ?thesis using m7(2-5) m5(3) m3(3) by (simp add: only_file_def)
qed

text \<open>
  The inode table has room for 208 inodes, and nothing stops \<^verbatim>\<open>ialloc\<close> there: inode 208 would be in the block of the free map.
\<close>

lemma inode_past_table: "IBLOCK 208 mkfs_sb = sb_bmapstart mkfs_sb"
  by (simp add: IBLOCK_def mkfs_sb_def ninodeblocks_def NINODES_def IPB_def BSIZE_def)

section \<open>The tree\<close>

text \<open>
  The image while files are added to it: the inodes below \<^verbatim>\<open>freeinode\<close> are in use and those from it on are not, and the directories that the program remembers are
  directories of the image.
\<close>

definition mk_type :: "mkfs \<Rightarrow> nat \<Rightarrow> nat" where
  "mk_type m j = di_type (mk_inode m j)"

definition tree_ok :: "mkfs \<Rightarrow> bool" where
  "tree_ok m \<longleftrightarrow> image_ok m \<and> ROOTINO < m_freeinode m \<and> mk_type m ROOTINO = T_DIR
     \<and> (\<forall>d \<in> set (m_dirs m). snd d < m_freeinode m \<and> mk_type m (snd d) = T_DIR)
     \<and> (\<forall>j < NINODES. m_freeinode m \<le> j \<longrightarrow> mk_type m j = 0)"

text \<open>Room for \<open>k\<close> more entries in each directory, with three blocks for each.\<close>

definition room_for :: "nat \<Rightarrow> mkfs \<Rightarrow> bool" where
  "room_for k m \<longleftrightarrow> m_freeblock m + 3 * k \<le> FSSIZE \<and> 16 * k \<le> MAXFILE * BSIZE
     \<and> (\<forall>j < NINODES. mk_type m j = T_DIR \<longrightarrow> msize m j + 16 * k \<le> MAXFILE * BSIZE)"

text \<open>What is in the image stays there: directories may get more entries at the end, other files do not change.\<close>

definition tree_grows :: "mkfs \<Rightarrow> mkfs \<Rightarrow> bool" where
  "tree_grows m m' \<longleftrightarrow> m_freeinode m \<le> m_freeinode m' \<and> (\<forall>j < NINODES. mk_type m j \<noteq> 0 \<longrightarrow> mk_type m' j = mk_type m j
     \<and> (if mk_type m j = T_DIR then \<exists>es. file_bytes m' j = file_bytes m j @ es else same_file m m' j))"

lemma tree_grows_refl: "tree_grows m m"
  by (simp add: tree_grows_def same_file_def)

lemma tree_grows_trans: "tree_grows m m1 \<Longrightarrow> tree_grows m1 m2 \<Longrightarrow> tree_grows m m2"
  unfolding tree_grows_def by (fastforce intro: same_file_trans)

lemma room_for_mono: "room_for k m \<Longrightarrow> j \<le> k \<Longrightarrow> room_for j m"
  unfolding room_for_def by (auto intro: order_trans [rotated])

lemma T_DIR_pos: "T_DIR \<noteq> 0" "T_FILE \<noteq> 0" "T_FILE \<noteq> T_DIR"
  by (simp_all add: T_DIR_def T_FILE_def)

lemma only_file_type: "only_file j m m' \<Longrightarrow> k < NINODES \<Longrightarrow> k \<noteq> j \<Longrightarrow> mk_type m' k = mk_type m k"
  using only_file_other(1) by (simp add: mk_type_def)

lemma nblocks_16: "nblocks off 16 \<le> 2"
proof -
  have "(off + 15) div BSIZE \<le> (off + BSIZE) div BSIZE" by (rule div_le_mono) (simp add: BSIZE_def)
  also have "\<dots> = off div BSIZE + 1" using div_add_self2 [of BSIZE off] BSIZE_pos by simp
  finally show ?thesis by (simp add: nblocks_def add.commute)
qed

text \<open>Changing file \<open>j\<close> only keeps the tree when its type and entries stay.\<close>

lemma only_file_tree:
  assumes "tree_ok m" "only_file j m m'" "m_freeinode m' = m_freeinode m" "mk_type m' j = mk_type m j" "m_freeinode m \<le> NINODES"
  shows "tree_ok m'"
proof -
  have t: "mk_type m' k = mk_type m k" if "k < NINODES" for k using only_file_type [OF assms(2) that] assms(4) by (cases "k = j") auto
  show ?thesis using assms(1,2,3,5) t unfolding tree_ok_def only_file_def by auto
qed

lemma only_file_tree_grows:
  assumes "only_file j m m'" "m_freeinode m \<le> m_freeinode m'" "room_for k m"
    and "mk_type m j \<noteq> 0 \<Longrightarrow> mk_type m j = T_DIR \<and> mk_type m' j = T_DIR \<and> (\<exists>es. file_bytes m' j = file_bytes m j @ es)"
  shows "tree_grows m m'"
  unfolding tree_grows_def
proof (intro conjI allI impI)
  fix i assume i: "i < NINODES" "mk_type m i \<noteq> 0"
  show "mk_type m' i = mk_type m i" using i assms(4) only_file_type [OF assms(1) i(1)] by (cases "i = j") auto
  show "if mk_type m i = T_DIR then \<exists>es. file_bytes m' i = file_bytes m i @ es else same_file m m' i"
  proof (cases "i = j")
    case True
    then show ?thesis using assms(4) i(2) by simp
  next
    case False
    have "mk_type m i = T_DIR \<Longrightarrow> msize m i \<le> MAXFILE * BSIZE" using assms(3) i(1) by (auto simp: room_for_def)
    then show ?thesis using False only_file_other(3) [OF assms(1) i(1) False] assms(1) i(1) by (auto simp: only_file_def)
  qed
qed (rule assms(2))

lemma add_dir_entry:
  assumes m: "tree_ok m" "m_freeinode m \<le> NINODES" and j: "j < NINODES" "mk_type m j = T_DIR" and room: "room_for (Suc k) m"
  shows "\<exists>m'. iappend j (dirent_bytes c name) m = Ok m' \<and> only_file j m m' \<and> file_bytes m' j = file_bytes m j @ dirent_bytes c name
    \<and> m_freeinode m' = m_freeinode m \<and> tree_ok m' \<and> tree_grows m m' \<and> room_for k m' \<and> m_freeblock m' \<le> m_freeblock m + 3 \<and> mk_type m' j = T_DIR"
proof -
  have i: "image_ok m" using m by (simp add: tree_ok_def)
  have r: "reserve m j \<le> m_freeblock m + 1" by (simp add: reserve_def no_ind_def)
  have sz: "msize m j + 16 * Suc k \<le> MAXFILE * BSIZE" using room j by (auto simp: room_for_def)
  have "reserve m j + nblocks (msize m j) 16 \<le> FSSIZE" using r nblocks_16 [of "msize m j"] room by (simp add: room_for_def)
  with iappend_ok [OF i j(1), of "dirent_bytes c name"] sz obtain m' where
    a: "iappend j (dirent_bytes c name) m = Ok m'" "only_file j m m'" "file_bytes m' j = file_bytes m j @ dirent_bytes c name"
      "m_freeinode m' = m_freeinode m" "reserve m' j \<le> reserve m j + nblocks (msize m j) 16" "msize m' j = msize m j + 16"
      "mk_type m' j = mk_type m j" by (auto simp: length_dirent mk_type_def)
  have fb: "m_freeblock m' \<le> m_freeblock m + 3" using a(5) r nblocks_16 [of "msize m j"] by (simp add: reserve_def)
  have "room_for k m'"
    unfolding room_for_def
  proof (intro conjI allI impI)
    show "m_freeblock m' + 3 * k \<le> FSSIZE" "16 * k \<le> MAXFILE * BSIZE" using fb room by (auto simp: room_for_def)
    fix i assume d: "i < NINODES" "mk_type m' i = T_DIR"
    show "msize m' i + 16 * k \<le> MAXFILE * BSIZE"
    proof (cases "i = j")
      case True
      then show ?thesis using sz a(6) by simp
    next
      case False
      then show ?thesis
        using room d only_file_other(2) [OF a(2) d(1) False] only_file_type [OF a(2) d(1) False] by (auto simp: room_for_def)
    qed
  qed
  moreover have "tree_grows m m'" by (rule only_file_tree_grows [OF a(2) _ room]) (use a j in auto)
  moreover have "tree_ok m'" using only_file_tree [OF m(1) a(2,4,7) m(2)] .
  moreover have "mk_type m' j = T_DIR" using a(7) j(2) by simp
  ultimately show ?thesis using a(1-4) fb by blast
qed

lemma add_inode:
  assumes m: "tree_ok m" "m_freeinode m < NINODES" and type: "type = T_DIR \<or> type = T_FILE" and room: "room_for k m"
  shows "\<exists>m'. mk_ialloc type m = Ok (m_freeinode m, m') \<and> only_file (m_freeinode m) m m' \<and> mk_inode m' (m_freeinode m) = new_inode type
    \<and> m_freeinode m' = m_freeinode m + 1 \<and> m_freeblock m' = m_freeblock m \<and> tree_ok m' \<and> tree_grows m m' \<and> room_for k m'"
proof -
  let ?i = "m_freeinode m"
  have im: "image_ok m" using m by (simp add: tree_ok_def)
  have t16: "type < 2 ^ 16" using type by (auto simp: T_DIR_def T_FILE_def)
  from mk_ialloc_ok [OF im m(2) t16] obtain m' where
    a: "mk_ialloc type m = Ok (?i, m')" "only_file ?i m m'" "mk_inode m' ?i = new_inode type" "m_freeblock m' = m_freeblock m" "m_freeinode m' = ?i + 1"
    by blast
  note other = only_file_type [OF a(2)] only_file_other(2) [OF a(2)]
  have new: "mk_type m' ?i = type" "msize m' ?i = 0" "mk_type m ?i = 0"
    using a(3) m by (auto simp: mk_type_def msize_def new_inode_def tree_ok_def)
  have "tree_ok m'"
    unfolding tree_ok_def
  proof (intro conjI ballI allI impI)
    show "image_ok m'" using a(2) by (simp add: only_file_def)
    show "ROOTINO < m_freeinode m'" using m a(5) by (simp add: tree_ok_def)
    have r: "ROOTINO < ?i" "mk_type m ROOTINO = T_DIR" using m by (simp_all add: tree_ok_def)
    then show "mk_type m' ROOTINO = T_DIR" using other(1) [of ROOTINO] m(2) by simp
    fix d assume "d \<in> set (m_dirs m')"
    then have d: "snd d < ?i" "mk_type m (snd d) = T_DIR" using m a(2) by (auto simp: tree_ok_def only_file_def)
    then show "snd d < m_freeinode m'" "mk_type m' (snd d) = T_DIR" using other(1) [of "snd d"] m(2) a(5) by simp_all
  next
    fix j assume j: "j < NINODES" "m_freeinode m' \<le> j"
    then show "mk_type m' j = 0" using other(1) [of j] a(5) m by (simp add: tree_ok_def)
  qed
  moreover have "room_for k m'"
    unfolding room_for_def
  proof (intro conjI allI impI)
    show "m_freeblock m' + 3 * k \<le> FSSIZE" "16 * k \<le> MAXFILE * BSIZE" using a(4) room by (simp_all add: room_for_def)
    fix j assume j: "j < NINODES" "mk_type m' j = T_DIR"
    show "msize m' j + 16 * k \<le> MAXFILE * BSIZE"
      using new other(1,2) [of j] j room by (cases "j = ?i") (auto simp: room_for_def)
  qed
  moreover have "tree_grows m m'" by (rule only_file_tree_grows [OF a(2) _ room]) (use a new in auto)
  ultimately show ?thesis using a by blast
qed

section \<open>Making directories\<close>

lemma set_dirs_type [simp]: "mk_type (m\<lparr>m_dirs := d\<rparr>) = mk_type m" "same_file (m\<lparr>m_dirs := d\<rparr>) = same_file m"
  "same_file m0 (m\<lparr>m_dirs := d\<rparr>) = same_file m0 m"
  by (simp_all add: mk_type_def same_file_def fun_eq_iff)

lemma set_dirs_grows [simp]: "tree_grows m0 (m\<lparr>m_dirs := d\<rparr>) = tree_grows m0 m" "room_for k (m\<lparr>m_dirs := d\<rparr>) = room_for k m"
  by (simp_all add: tree_grows_def room_for_def)

lemma make_dir_ok:
  assumes m: "tree_ok m" "m_freeinode m < NINODES" and p: "parent < m_freeinode m" "mk_type m parent = T_DIR" and room: "room_for (3 + k) m"
    and run: "make_dir parent partial component m = Ok (child, m')"
  shows "child < m_freeinode m' \<and> mk_type m' child = T_DIR \<and> m_freeinode m' = m_freeinode m + 1 \<and> tree_ok m' \<and> tree_grows m m' \<and> room_for k m'
    \<and> m_freeblock m' \<le> m_freeblock m + 9"
proof -
  let ?i = "m_freeinode m"
  have par: "parent < NINODES" "parent \<noteq> ?i" using p(1) m(2) by simp_all
  from add_inode [OF m, of T_DIR] room obtain m1 where
    a: "mk_ialloc T_DIR m = Ok (?i, m1)" "only_file ?i m m1" "mk_inode m1 ?i = new_inode T_DIR" "m_freeinode m1 = ?i + 1" "tree_ok m1" "tree_grows m m1"
      "room_for (Suc (Suc (Suc k))) m1" "m_freeblock m1 = m_freeblock m" by (auto simp: numeral_3_eq_3)
  have t1: "mk_type m1 parent = T_DIR" "mk_type m1 ?i = T_DIR"
    using only_file_type [OF a(2) par] p(2) a(3) by (simp_all add: mk_type_def new_inode_def)
  have n1: "m_freeinode m1 \<le> NINODES" using a(4) m(2) by simp
  from add_dir_entry [OF a(5) n1 par(1) t1(1) a(7), of ?i component] obtain m2 where
    b: "iappend parent (dirent_bytes ?i component) m1 = Ok m2" "only_file parent m1 m2" "m_freeinode m2 = m_freeinode m1" "tree_ok m2" "tree_grows m1 m2"
      "room_for (Suc (Suc k)) m2" "m_freeblock m2 \<le> m_freeblock m1 + 3" by blast
  have t2: "mk_type m2 ?i = T_DIR" using only_file_type [OF b(2) m(2)] par(2) t1(2) by simp
  from add_dir_entry [OF b(4) _ m(2) t2 b(6), of ?i mk_dot] n1 b(3) obtain m3 where
    c: "iappend ?i (dirent_bytes ?i mk_dot) m2 = Ok m3" "m_freeinode m3 = m_freeinode m1" "tree_ok m3" "tree_grows m2 m3" "room_for (Suc k) m3" "mk_type m3 ?i = T_DIR"
      "m_freeblock m3 \<le> m_freeblock m2 + 3" by auto
  from add_dir_entry [OF c(3) _ m(2) c(6,5), of parent mk_dotdot] n1 c(2) obtain m4 where
    d: "iappend ?i (dirent_bytes parent mk_dotdot) m3 = Ok m4" "m_freeinode m4 = m_freeinode m1" "tree_ok m4" "tree_grows m3 m4" "room_for k m4" "mk_type m4 ?i = T_DIR"
      "m_freeblock m4 \<le> m_freeblock m3 + 3" by auto
  have r: "child = ?i" "m' = m4\<lparr>m_dirs := m_dirs m4 @ [(partial, ?i)]\<rparr>"
    using run a(1) b(1) c(1) d(1) by (auto simp: make_dir_def mk_dirlink_def split: if_splits)
  have "tree_grows m m4" using a(6) b(5) c(4) d(4) tree_grows_trans by blast
  moreover have "tree_ok m'" using d(2,3,6) a(4) r(2) by (simp add: tree_ok_def)
  ultimately show ?thesis using r a(4,8) b(7) c(7) d(2,5,6,7) by simp
qed

text \<open>The number of components of a path.\<close>

definition components :: "byte list \<Rightarrow> nat" where
  "components p = (if p = [] then 0 else Suc (length (filter (\<lambda>c. c = 47) p)))"

lemma components_rest: "p \<noteq> [] \<Longrightarrow> Suc (components (path_rest p)) \<le> components p"
proof -
  assume p: "p \<noteq> []"
  show ?thesis
  proof (cases "dropWhile (\<lambda>c. c \<noteq> 47) p")
    case Nil
    then show ?thesis using p by (simp add: components_def path_rest_def)
  next
    case (Cons c r)
    then have "c = 47" using hd_dropWhile [of "\<lambda>c. c \<noteq> 47" p] by simp
    moreover have "filter (\<lambda>c. c = 47) p = filter (\<lambda>c. c = 47) (takeWhile (\<lambda>c. c \<noteq> 47) p) @ filter (\<lambda>c. c = 47) (c # r)"
      using Cons by (metis filter_append takeWhile_dropWhile_id)
    ultimately show ?thesis using p Cons by (simp add: components_def path_rest_def)
  qed
qed

lemma mkdirp_loop_ok:
  assumes "mkdirp_loop p partial parent m = Ok (r, m')" and "tree_ok m" "parent < m_freeinode m" "mk_type m parent = T_DIR"
    and "m_freeinode m + components p \<le> NINODES" "room_for (3 * components p + k) m"
  shows "r < m_freeinode m' \<and> mk_type m' r = T_DIR \<and> m_freeinode m' \<le> m_freeinode m + components p \<and> tree_ok m' \<and> tree_grows m m' \<and> room_for k m'
    \<and> m_freeblock m' \<le> m_freeblock m + 9 * components p"
  using assms
proof (induction p partial parent m rule: mkdirp_loop.induct)
  case (1 p partial parent m)
  show ?case
  proof (cases "p = []")
    case True
    then show ?thesis using "1.prems" tree_grows_refl by (auto simp: mkdirp_loop.simps [of "[]"] components_def)
  next
    case False
    define component where "component = takeWhile (\<lambda>c. c \<noteq> 47) p"
    define part where "part = (if partial \<noteq> [] then partial @ [47] else partial) @ component"
    note c = components_rest [OF False]
    have ok: "\<not> DIRSIZ < length component" "\<not> 128 \<le> length part"
      using "1.prems"(1) False by (auto simp: mkdirp_loop.simps [of p] Let_def component_def part_def split: if_splits)
    show ?thesis
    proof (cases "mk_dirlookup part m = 0")
      case found: False
      then obtain d where "d \<in> set (m_dirs m)" "snd d = mk_dirlookup part m"
        by (auto simp: mk_dirlookup_def split: option.splits dest!: map_of_SomeD)
      then have d: "mk_dirlookup part m < m_freeinode m" "mk_type m (mk_dirlookup part m) = T_DIR" using "1.prems"(2) by (metis tree_ok_def)+
      have "mkdirp_loop (path_rest p) part (mk_dirlookup part m) m = Ok (r, m')"
        using "1.prems"(1) False ok found by (simp add: mkdirp_loop.simps [of p] Let_def component_def part_def)
      from "1.IH"(1) [OF False component_def refl ok(1) part_def refl ok(2) found this "1.prems"(2) d]
      show ?thesis using "1.prems"(5,6) c room_for_mono by fastforce
    next
      case missing: True
      then obtain child m1 where r: "make_dir parent part component m = Ok (child, m1)" "mkdirp_loop (path_rest p) part child m1 = Ok (r, m')"
        using "1.prems"(1) False ok by (auto simp: mkdirp_loop.simps [of p] Let_def component_def part_def)
      have "room_for (3 + (3 * components (path_rest p) + k)) m" by (rule room_for_mono [OF "1.prems"(6)]) (use c in simp)
      from make_dir_ok [OF "1.prems"(2) _ "1.prems"(3,4) this r(1)] "1.prems"(5) c
      have d: "child < m_freeinode m1" "mk_type m1 child = T_DIR" "m_freeinode m1 = m_freeinode m + 1" "tree_ok m1" "tree_grows m m1"
        "room_for (3 * components (path_rest p) + k) m1" "m_freeblock m1 \<le> m_freeblock m + 9" by simp_all
      have "\<not> mk_dirlookup part m \<noteq> 0" using missing by simp
      from "1.IH"(2) [OF False component_def refl ok(1) part_def refl ok(2) this r(2) d(4,1,2) _ d(6)] d(3,5,7) "1.prems"(5) c
      show ?thesis using tree_grows_trans by fastforce
    qed
  qed
qed

lemma mkdirp_ok:
  assumes "mkdirp p m = Ok (r, m')" and "tree_ok m" "m_freeinode m + components p \<le> NINODES" "room_for (3 * components p + k) m"
  shows "r < m_freeinode m' \<and> mk_type m' r = T_DIR \<and> m_freeinode m' \<le> m_freeinode m + components p \<and> tree_ok m' \<and> tree_grows m m' \<and> room_for k m'
    \<and> m_freeblock m' \<le> m_freeblock m + 9 * components p"
proof (cases "p = []")
  case True
  then show ?thesis using assms tree_grows_refl by (auto simp: mkdirp_def components_def tree_ok_def)
next
  case False
  have "ROOTINO < m_freeinode m" "mk_type m ROOTINO = T_DIR" using assms(2) by (simp_all add: tree_ok_def)
  then show ?thesis using mkdirp_loop_ok [of p "[]" ROOTINO m r m' k] assms False by (simp add: mkdirp_def)
qed

section \<open>Adding a file\<close>

text \<open>Filling a file that the older image did not have.\<close>

lemma fill_new_grows:
  assumes g3: "tree_grows m m3" and c: "only_file i m3 m4" and new: "mk_type m i = 0" and room: "room_for 0 m3" and "m_freeinode m4 = m_freeinode m3"
  shows "tree_grows m m4"
  unfolding tree_grows_def
proof (intro conjI allI impI)
  show "m_freeinode m \<le> m_freeinode m4" using g3 assms(5) by (simp add: tree_grows_def)
  fix j assume j: "j < NINODES" "mk_type m j \<noteq> 0"
  have ne: "j \<noteq> i" using j(2) new by auto
  have g: "mk_type m3 j = mk_type m j" "if mk_type m j = T_DIR then \<exists>es. file_bytes m3 j = file_bytes m j @ es else same_file m m3 j"
    using g3 j by (simp_all add: tree_grows_def)
  show "mk_type m4 j = mk_type m j" using only_file_type [OF c j(1) ne] g(1) by simp
  show "if mk_type m j = T_DIR then \<exists>es. file_bytes m4 j = file_bytes m j @ es else same_file m m4 j"
  proof (cases "mk_type m j = T_DIR")
    case True
    then have "msize m3 j \<le> MAXFILE * BSIZE" using room g(1) j(1) by (simp add: room_for_def)
    then show ?thesis using True g(2) only_file_other(3) [OF c j(1) ne] by simp
  next
    case False
    then show ?thesis using g(2) c j(1) ne same_file_trans by (auto simp: only_file_def)
  qed
qed

text \<open>
  C29. A file of the build machine goes into the image whole: it gets an inode that was unused, and that the next file will not get, which then holds exactly the bytes of the file; its directory, made if
  needed, has one more entry at the end; and everything that was in the image before, ahead of the making of directories, is still there: directories with at most more entries, other files unchanged. No two files of the
  image share a block.
\<close>

theorem add_file_stores:
  assumes host: "host arg = Some bs" and pl: "place arg = Ok (dir, name)" "length name \<le> DIRSIZ" and par: "mkdirp dir m = Ok (parent, m1)"
    and ok: "tree_ok m" "m_freeinode m + components dir < NINODES"
    and room: "room_for (3 * components dir + 1) m" "m_freeblock m + 9 * components dir + 4 + nblocks 0 (length bs) \<le> FSSIZE"
      "length bs \<le> MAXFILE * BSIZE"
  shows "\<exists>m'. add_file host arg m = Ok m' \<and> tree_ok m' \<and> m_freeinode m \<le> m_freeinode m1 \<and> m_freeinode m' = m_freeinode m1 + 1
    \<and> mk_type m (m_freeinode m1) = 0 \<and> mk_type m' (m_freeinode m1) = T_FILE \<and> file_bytes m' (m_freeinode m1) = bs
    \<and> mk_type m' parent = T_DIR \<and> file_bytes m' parent = file_bytes m1 parent @ dirent_bytes (m_freeinode m1) name
    \<and> tree_grows m m'"
proof -
  let ?i = "m_freeinode m1"
  from mkdirp_ok [OF par ok(1) _ room(1)] ok(2) have
    d: "parent < ?i" "mk_type m1 parent = T_DIR" "?i < NINODES" "tree_ok m1" "tree_grows m m1" "room_for (Suc 0) m1"
      "m_freeblock m1 \<le> m_freeblock m + 9 * components dir" by simp_all
  have p: "parent < NINODES" "parent \<noteq> ?i" using d(1,3) by simp_all
  from add_inode [OF d(4,3), of T_FILE] d(6) obtain m2 where
    a: "mk_ialloc T_FILE m1 = Ok (?i, m2)" "only_file ?i m1 m2" "mk_inode m2 ?i = new_inode T_FILE" "m_freeinode m2 = ?i + 1" "m_freeblock m2 = m_freeblock m1"
      "tree_ok m2" "tree_grows m1 m2" "room_for (Suc 0) m2" by blast
  have t2: "mk_type m2 parent = T_DIR" using only_file_type [OF a(2) p] d(2) by simp
  have n2: "m_freeinode m2 \<le> NINODES" using a(4) d(3) by simp
  from add_dir_entry [OF a(6) n2 p(1) t2 a(8), of ?i name] obtain m3 where
    b: "iappend parent (dirent_bytes ?i name) m2 = Ok m3" "only_file parent m2 m3" "file_bytes m3 parent = file_bytes m2 parent @ dirent_bytes ?i name"
      "m_freeinode m3 = m_freeinode m2" "tree_ok m3" "tree_grows m2 m3" "room_for 0 m3" "m_freeblock m3 \<le> m_freeblock m2 + 3" "mk_type m3 parent = T_DIR" by blast
  have i3: "mk_inode m3 ?i = new_inode T_FILE" using only_file_other(1) [OF b(2) d(3)] p(2) a(3) by simp
  then have f3: "msize m3 ?i = 0" "file_bytes m3 ?i = []" by (simp_all add: msize_def new_inode_def file_bytes_def)
  have "reserve m3 ?i + nblocks 0 (length bs) \<le> FSSIZE" using b(8) a(5) d(7) room(2) by (auto simp: reserve_def no_ind_def)
  then obtain m4 where c: "copy_in ?i bs m3 = Ok m4" "only_file ?i m3 m4" "file_bytes m4 ?i = bs" "m_freeinode m4 = m_freeinode m3"
      "mk_type m4 ?i = mk_type m3 ?i"
    using copy_in_ok [of m3 ?i bs] b(5) d(3) room(3) f3 by (auto simp: tree_ok_def mk_type_def)
  have t3: "mk_type m3 ?i = T_FILE" using i3 by (simp add: mk_type_def new_inode_def)
  have small: "msize m2 parent \<le> MAXFILE * BSIZE" "msize m3 parent \<le> MAXFILE * BSIZE" "msize m1 parent \<le> MAXFILE * BSIZE"
    using a(8) b(7,9) t2 p(1) d(2,6) by (auto simp: room_for_def)
  have par4: "file_bytes m4 parent = file_bytes m1 parent @ dirent_bytes ?i name" "mk_type m4 parent = T_DIR"
    using only_file_other(3) [OF c(2) p small(2)] only_file_other(3) [OF a(2) p small(3)] b(3,9) only_file_type [OF c(2) p] by simp_all
  have new: "mk_type m ?i = 0" using ok(1) d(3,5) by (simp add: tree_ok_def tree_grows_def)
  have g3: "tree_grows m m3" using d(5) a(7) b(6) tree_grows_trans by blast
  have g4: "tree_grows m m4" by (rule fill_new_grows [OF g3 c(2) new b(7) c(4)])
  have "tree_ok m4" by (rule only_file_tree [OF b(5) c(2,4,5)]) (use n2 b(4) in simp)
  moreover have "add_file host arg m = Ok m4" using host pl par a(1) b(1) c(1) by (simp add: add_file_def)
  moreover have "m_freeinode m \<le> ?i" using d(5) by (simp add: tree_grows_def)
  ultimately show ?thesis using new t3 c(3,4,5) par4 g4 a(4) b(4) by auto
qed

lemma root_tree:
  "\<exists>m. make_root blank_image = Ok m \<and> tree_ok m \<and> m_freeinode m = 3 \<and> m_dirs m = [([], 1), (bin_name, 2)] \<and> m_freeblock m \<le> nmeta + 10
    \<and> file_bytes m 2 = dirent_bytes 2 mk_dot @ dirent_bytes 1 mk_dotdot \<and> room_for 10 m"
proof -
  obtain m where m: "make_root blank_image = Ok m" "image_ok m" "m_freeinode m = 3" "m_dirs m = [([], 1), (bin_name, 2)]" "m_freeblock m \<le> nmeta + 10"
      "file_bytes m 1 = dirent_bytes 1 mk_dot @ dirent_bytes 1 mk_dotdot @ dirent_bytes 2 bin_name"
      "file_bytes m 2 = dirent_bytes 2 mk_dot @ dirent_bytes 1 mk_dotdot"
      "\<And>j. j < NINODES \<Longrightarrow> di_type (mk_inode m j) = (if j = 1 \<or> j = 2 then T_DIR else 0)"
    using make_root_ok by blast
  have sz: "msize m 1 = 48" "msize m 2 = 32" using length_file_bytes [of m 1] length_file_bytes [of m 2] unfolding m(6,7) by (simp_all add: length_dirent)
  have "tree_ok m" using m(2-4) m(8) [of 1] m(8) [of 2] m(8) by (auto simp: tree_ok_def mk_type_def ROOTINO_def NINODES_def)
  moreover have "room_for 10 m"
    using m(5) sz m(8) T_DIR_pos(1)
    by (auto simp: room_for_def mk_type_def nmeta_def FSSIZE_def ninodeblocks_def nbitmap_def NINODES_def IPB_def BSIZE_def LOGSIZE_def MAXOPBLOCKS_def
        MAXFILE_def NDIRECT_def NINDIRECT_def split: if_splits)
  ultimately show ?thesis using m by blast
qed

theorem add_file_stores_witness:
  "\<exists>m m'. make_root blank_image = Ok m \<and> add_file (\<lambda>_. Some [104, 105]) [95, 97] m = Ok m' \<and> m_freeinode m' = 4 \<and> file_bytes m' 3 = [104, 105]
     \<and> file_bytes m' 2 = dirent_bytes 2 mk_dot @ dirent_bytes 1 mk_dotdot @ dirent_bytes 3 [97]"
proof -
  obtain m where m: "make_root blank_image = Ok m" "tree_ok m" "m_freeinode m = 3" "m_dirs m = [([], 1), (bin_name, 2)]"
    "m_freeblock m \<le> nmeta + 10" "file_bytes m 2 = dirent_bytes 2 mk_dot @ dirent_bytes 1 mk_dotdot" "room_for 10 m" using root_tree by blast
  have p: "place [95, 97] = Ok (bin_name, [97])" by (simp add: place_def)
  have d: "mkdirp bin_name m = Ok (2, m)"
    by (simp add: mkdirp_def bin_name_def mkdirp_loop.simps path_rest_def mk_dirlookup_def m(4) DIRSIZ_def)
  have c: "components bin_name = 1" by (simp add: components_def bin_name_def)
  have r: "room_for (3 * components bin_name + 1) m" by (rule room_for_mono [OF m(7)]) (simp add: c)
  have "m_freeblock m + 9 * components bin_name + 4 + nblocks 0 (length [104 :: byte, 105]) \<le> FSSIZE"
    using m(5) by (simp add: c nblocks_def BSIZE_def nmeta_def FSSIZE_def ninodeblocks_def nbitmap_def NINODES_def IPB_def LOGSIZE_def MAXOPBLOCKS_def)
  with add_file_stores [of "\<lambda>_. Some [104, 105]" "[95, 97]" "[104, 105]" bin_name "[97]" m 2 m] m p d r c show ?thesis
    by (auto simp: DIRSIZ_def NINODES_def MAXFILE_def NDIRECT_def NINDIRECT_def BSIZE_def)
qed

end
