(* ===== verification/Uprintf.thy ===== *)
theory Uprintf
  imports Console_Props
begin

text \<open>
  \<^verbatim>\<open>src/printf.c\<close>: formatted output of user programs. It prints to a terminal, whose \<^verbatim>\<open>write\<close> of a byte and \<^verbatim>\<open>ioctl\<close> are
  parameters. A locale states what \<^verbatim>\<open>printf\<close> needs of a terminal with colors, and the console has it.
\<close>

unbundle bit_operations_syntax

section \<open>The program\<close>

record 's tty =
  t_putc :: "byte \<Rightarrow> 's \<Rightarrow> 's"
  t_ioctl :: "int \<Rightarrow> int \<Rightarrow> 's \<Rightarrow> int \<times> 's"

definition putcs :: "'s tty \<Rightarrow> byte list \<Rightarrow> 's \<Rightarrow> 's" where
  "putcs t bs = fold (t_putc t) bs"

text \<open>The number routines are those of \<^verbatim>\<open>console.c\<close>, with another \<^verbatim>\<open>putc\<close>.\<close>

definition uprint_d :: "int \<Rightarrow> byte list" where
  "uprint_d v = map of_nat (print_d v)"

definition uprint_x32 :: "32 word \<Rightarrow> byte list" where
  "uprint_x32 x = map of_nat (print_x32 8 x)"

definition uprint_x64 :: "64 word \<Rightarrow> byte list" where
  "uprint_x64 x = map of_nat (print_x64 16 x)"

definition null_text :: "byte list" where
  "null_text = [40, 110, 117, 108, 108, 41]"

text \<open>One conversion \<open>%c\<close>; an argument that is missing or of another type is an error of the caller.\<close>

definition printf_arg :: "byte \<Rightarrow> carg list \<Rightarrow> (byte list \<times> carg list) res" where
  "printf_arg c args =
     (if c = 99 then (case args of ArgD v # args \<Rightarrow> Ok ([word_of_int v], args) | _ \<Rightarrow> Fault ''va_arg'')
      else if c = 100 then (case args of ArgD v # args \<Rightarrow> Ok (uprint_d v, args) | _ \<Rightarrow> Fault ''va_arg'')
      else if c = 120 then (case args of ArgX v # args \<Rightarrow> Ok (uprint_x32 v, args) | _ \<Rightarrow> Fault ''va_arg'')
      else if c = 112 then (case args of ArgP v # args \<Rightarrow> Ok (uprint_x64 v, args) | _ \<Rightarrow> Fault ''va_arg'')
      else if c = 115 then
        (case args of
           ArgS (Some t) # args \<Rightarrow> Ok (t, args)
         | ArgS None # args \<Rightarrow> Ok (null_text, args)
         | _ \<Rightarrow> Fault ''va_arg'')
      else if c = 37 then Ok ([37], args)
      else Ok ([37, c], args))"

text \<open>The numbers of the foreground colors.\<close>

definition sgr_fg :: "nat \<Rightarrow> int option" where
  "sgr_fg num = map_of [(30, 0), (31, 4), (32, 2), (33, 14), (34, 1), (35, 5), (36, 3), (37, 15)] num"

text \<open>An escape sequence that sets a color; \<open>color\<close> is the static variable, in which -1 stands for no saved color.\<close>

definition sgr :: "'s tty \<Rightarrow> nat \<Rightarrow> int \<Rightarrow> 's \<Rightarrow> int \<times> 's" where
  "sgr t num color s =
     (let (color, s) = (if color = -1 then t_ioctl t 1 (-1) s else (color, s)) in
      case sgr_fg num of
        Some c \<Rightarrow> (color, snd (t_ioctl t 4 c s))
      | None \<Rightarrow> if num = 39 \<or> num = 0 then (-1, snd (t_ioctl t 0 color s)) else (color, s))"

definition is_digit :: "byte \<Rightarrow> bool" where
  "is_digit c \<longleftrightarrow> 48 \<le> c \<and> c \<le> 57"

definition digits_value :: "byte list \<Rightarrow> nat" where
  "digits_value ds = foldl (\<lambda>n d. n * 10 + (unat d - 48)) 0 ds"

text \<open>
  \<open>fmt\<close> is the rest of the format before its NUL. An escape sequence that the end of the format cuts off makes the C program
  go on behind the NUL (\<open>Fault\<close>).
\<close>

lemma dropWhile_less: "dropWhile P xs = y # ys \<Longrightarrow> length ys < length xs"
  by (metis length_Cons length_dropWhile_le less_eq_Suc_le)

function printf_loop :: "'s tty \<Rightarrow> byte list \<Rightarrow> carg list \<Rightarrow> int \<Rightarrow> 's \<Rightarrow> (int \<times> 's) res" where
  "printf_loop t [] args color s = Ok (color, s)"
| "printf_loop t (c # fmt) args color s =
     (if c = 27 then
        (case fmt of
           [] \<Rightarrow> Fault ''format''
         | d # fmt \<Rightarrow>
             if d \<noteq> 91 then printf_loop t fmt args color (putcs t [91, d] s)
             else case dropWhile is_digit fmt of
               [] \<Rightarrow> Fault ''format''
             | e # rest \<Rightarrow>
                 if e = 109 then
                   let r = sgr t (digits_value (takeWhile is_digit fmt)) color s in printf_loop t rest args (fst r) (snd r)
                 else printf_loop t rest args color (putcs t [e] s))
      else if c \<noteq> 37 then printf_loop t fmt args color (putcs t [c] s)
      else case fmt of
        [] \<Rightarrow> Ok (color, s)
      | d # fmt \<Rightarrow> bind_res (printf_arg d args) (\<lambda>(out, args). printf_loop t fmt args color (putcs t out s)))"
  by pat_completeness auto
termination
  by (relation "measure (\<lambda>(t, fmt, args, color, s). length fmt)") (auto dest: dropWhile_less)

definition printf :: "'s tty \<Rightarrow> byte list \<Rightarrow> carg list \<Rightarrow> int \<Rightarrow> 's \<Rightarrow> (int \<times> 's) res" where
  "printf t fmt args color s = printf_loop t fmt args color s"

section \<open>Numerals\<close>

text \<open>
  What numbers look like, independently of the loops of the code: the decimal numeral of a natural number, that of an integer, and the digit at each position of a hexadecimal numeral with a fixed number of digits.
\<close>

function decimal :: "nat \<Rightarrow> byte list" where
  "decimal n = (if n < 10 then [48 + of_nat n] else decimal (n div 10) @ [48 + of_nat (n mod 10)])"
  by pat_completeness auto
termination
  by (relation "measure id") auto

declare decimal.simps [simp del]

definition dec_text :: "int \<Rightarrow> byte list" where
  "dec_text v = (if v < 0 then 45 # decimal (nat (- v)) else decimal (nat v))"

definition hex_digit :: "nat \<Rightarrow> byte" where
  "hex_digit d = (if d < 10 then 48 + of_nat d else 97 + of_nat (d - 10))"

definition hex_text :: "nat \<Rightarrow> nat \<Rightarrow> byte list" where
  "hex_text k x = map (\<lambda>i. hex_digit (x div 16 ^ (k - Suc i) mod 16)) [0..<k]"

lemma digits_hex: "d < 16 \<Longrightarrow> of_nat (digits ! d) = hex_digit d"
proof -
  have "\<forall>d \<in> set [0..<16]. (of_nat (digits ! d) :: byte) = hex_digit d" by code_simp
  then show "d < 16 \<Longrightarrow> of_nat (digits ! d) = hex_digit d" by simp
qed

lemma print_d_buf_decimal: "map of_nat (rev (print_d_buf n)) = decimal n"
proof (induction n rule: print_d_buf.induct)
  case (1 n)
  have d: "of_nat (digits ! (n mod 10)) = (48 + of_nat (n mod 10) :: byte)" using digits_hex [of "n mod 10"] by (simp add: hex_digit_def)
  show ?case
  proof (cases "n < 10")
    case True
    then show ?thesis using d by (simp add: print_d_buf.simps [of n] decimal.simps [of n])
  next
    case False
    then have "0 < n div 10" by (simp add: div_greater_zero_iff)
    then show ?thesis using d 1 False by (simp add: print_d_buf.simps [of n] decimal.simps [of n])
  qed
qed

lemma uprint_d_text [simp]: "uprint_d v = dec_text v"
  using print_d_buf_decimal by (simp add: uprint_d_def print_d_def dec_text_def)

lemma shifted_digit:
  assumes "j < k"
  shows "16 * x mod 16 ^ Suc k div 16 ^ Suc j mod 16 = x div 16 ^ j mod (16 :: nat)"
proof -
  have k: "(16 :: nat) ^ Suc k = 16 ^ Suc j * 16 ^ (k - j)" using assms by (simp flip: power_add)
  have "16 * x mod 16 ^ Suc k div 16 ^ Suc j = 16 * x div 16 ^ Suc j mod 16 ^ (k - j)"
    unfolding k by (simp add: mod_mult2_eq)
  moreover have "16 * x div 16 ^ Suc j = x div 16 ^ j" by simp
  moreover have "(16 :: nat) dvd 16 ^ (k - j)" using assms by (simp add: dvd_power)
  ultimately show ?thesis by (simp add: mod_mod_cancel)
qed

lemma nibbles_hex: "n \<le> k \<Longrightarrow> x < 16 ^ k \<Longrightarrow> map of_nat (map ((!) digits) (nibbles n k x)) = map (\<lambda>i. hex_digit (x div 16 ^ (k - Suc i) mod 16)) [0..<n]"
proof (induction n arbitrary: x)
  case (Suc n)
  obtain j where k: "k = Suc j" using Suc.prems(1) by (cases k) auto
  let ?y = "16 * x mod 16 ^ k"
  have "x div 16 ^ j < 16" using Suc.prems(2) by (simp add: k less_mult_imp_div_less)
  then have first: "of_nat (digits ! (x div 16 ^ j)) = hex_digit (x div 16 ^ j mod 16)" using digits_hex by simp
  have "map of_nat (map ((!) digits) (nibbles n k ?y)) = map (\<lambda>i. hex_digit (?y div 16 ^ (k - Suc i) mod 16)) [0..<n]"
    using Suc.IH [of ?y] Suc.prems(1) by simp
  also have "\<dots> = map (\<lambda>i. hex_digit (x div 16 ^ (k - Suc (Suc i)) mod 16)) [0..<n]"
  proof (rule map_cong [OF refl])
    fix i assume "i \<in> set [0..<n]"
    then have i: "j - i = Suc (j - Suc i)" "j - Suc i < j" using Suc.prems(1) k by auto
    show "hex_digit (?y div 16 ^ (k - Suc i) mod 16) = hex_digit (x div 16 ^ (k - Suc (Suc i)) mod 16)"
      using shifted_digit [OF i(2), of x] i(1) by (simp add: k)
  qed
  finally show ?case using first by (simp add: k upt_conv_Cons map_Suc_upt [symmetric] comp_def del: upt_Suc)
qed simp

lemma uprint_x_text [simp]: "uprint_x32 x = hex_text 8 (unat x)" "uprint_x64 y = hex_text 16 (unat y)"
  using nibbles_hex [of 8 8 "unat x"] nibbles_hex [of 16 16 "unat y"] unsigned_less [of x, where 'a = nat] unsigned_less [of y, where 'a = nat]
  by (simp_all add: uprint_x32_def uprint_x64_def hex_text_def print_x32_nibbles print_x64_nibbles)

section \<open>Formats\<close>

text \<open>A format as a list of items, its text, the arguments it takes and what it prints.\<close>

datatype item = Lit byte | Char int | Dec int | Hex "32 word" | Ptr "64 word" | Str "byte list option" | Percent | Color nat | Reset

fun item_ok :: "item \<Rightarrow> bool" where
  "item_ok (Lit b) = (b \<noteq> 0 \<and> b \<noteq> 27 \<and> b \<noteq> 37)"
| "item_ok (Color k) = (k < 8)"
| "item_ok _ = True"

fun item_text :: "item \<Rightarrow> byte list" where
  "item_text (Lit b) = [b]"
| "item_text (Char _) = [37, 99]"
| "item_text (Dec _) = [37, 100]"
| "item_text (Hex _) = [37, 120]"
| "item_text (Ptr _) = [37, 112]"
| "item_text (Str _) = [37, 115]"
| "item_text Percent = [37, 37]"
| "item_text (Color k) = [27, 91, 51, 48 + of_nat k, 109]"
| "item_text Reset = [27, 91, 48, 109]"

fun item_args :: "item \<Rightarrow> carg list" where
  "item_args (Char v) = [ArgD v]"
| "item_args (Dec v) = [ArgD v]"
| "item_args (Hex v) = [ArgX v]"
| "item_args (Ptr v) = [ArgP v]"
| "item_args (Str v) = [ArgS v]"
| "item_args _ = []"

fun item_shows :: "item \<Rightarrow> byte list" where
  "item_shows (Lit b) = [b]"
| "item_shows (Char v) = [word_of_int v]"
| "item_shows (Dec v) = dec_text v"
| "item_shows (Hex v) = hex_text 8 (unat v)"
| "item_shows (Ptr v) = hex_text 16 (unat v)"
| "item_shows (Str v) = (case v of None \<Rightarrow> null_text | Some t \<Rightarrow> t)"
| "item_shows Percent = [37]"
| "item_shows _ = []"

definition fmt_of :: "item list \<Rightarrow> byte list" where
  "fmt_of is = concat (map item_text is)"

definition args_of :: "item list \<Rightarrow> carg list" where
  "args_of is = concat (map item_args is)"

definition shows_of :: "item list \<Rightarrow> byte list" where
  "shows_of is = concat (map item_shows is)"

definition fg_of :: "nat \<Rightarrow> int" where
  "fg_of k = [0, 4, 2, 14, 1, 5, 3, 15] ! k"

text \<open>What items do to the saved color (-1: none) and the color of the terminal.\<close>

fun item_color :: "item \<Rightarrow> int \<times> int \<Rightarrow> int \<times> int" where
  "item_color (Color k) (saved, c) = (if saved = -1 then c else saved, c div 16 * 16 + fg_of k)"
| "item_color Reset (saved, c) = (-1, if saved = -1 then c else saved)"
| "item_color _ sc = sc"

lemma less_8: "k < 8 \<Longrightarrow> k = 0 \<or> k = 1 \<or> k = 2 \<or> k = 3 \<or> k = 4 \<or> k = 5 \<or> k = 6 \<or> k = (7 :: nat)"
  by linarith

lemma color_digits:
  assumes "k < 8"
  shows "is_digit (48 + of_nat k)" "unat (48 + of_nat k :: byte) = 48 + k" "sgr_fg (30 + k) = Some (fg_of k)" "0 \<le> fg_of k \<and> fg_of k < 16"
  using less_8 [OF assms] by (elim disjE; simp add: is_digit_def sgr_fg_def fg_of_def)+

section \<open>Terminals with colors\<close>

locale color_tty =
  fixes t :: "'s tty" and ok :: "'s \<Rightarrow> bool" and color :: "'s \<Rightarrow> int" and shown :: "'s \<Rightarrow> byte list"
  assumes range: "ok s \<Longrightarrow> 0 \<le> color s \<and> color s < 256"
    and get: "ok s \<Longrightarrow> t_ioctl t 1 v s = (color s, s)"
    and set_all: "ok s \<Longrightarrow> 0 \<le> c \<Longrightarrow> c < 256 \<Longrightarrow> ok (snd (t_ioctl t 0 c s)) \<and> color (snd (t_ioctl t 0 c s)) = c
      \<and> shown (snd (t_ioctl t 0 c s)) = shown s"
    and set_fg: "ok s \<Longrightarrow> 0 \<le> c \<Longrightarrow> c < 16 \<Longrightarrow> ok (snd (t_ioctl t 4 c s)) \<and> color (snd (t_ioctl t 4 c s)) = color s div 16 * 16 + c
      \<and> shown (snd (t_ioctl t 4 c s)) = shown s"
    and putc: "ok s \<Longrightarrow> ok (t_putc t b s) \<and> color (t_putc t b s) = color s \<and> shown (t_putc t b s) = shown s @ [b]"
begin

lemma putcs_shows: "ok s \<Longrightarrow> ok (putcs t bs s) \<and> color (putcs t bs s) = color s \<and> shown (putcs t bs s) = shown s @ bs"
  by (induction bs arbitrary: s) (auto simp: putcs_def putc)

text \<open>One item: the loop goes on behind it, with the item printed and the colors changed as it says.\<close>

lemma printf_item:
  assumes "ok s" "item_ok i" "- 1 \<le> saved" "saved < 256"
  shows "\<exists>s' saved'. printf_loop t (item_text i @ fmt) (item_args i @ args) saved s = printf_loop t fmt args saved' s' \<and> ok s'
    \<and> shown s' = shown s @ item_shows i \<and> (saved', color s') = item_color i (saved, color s) \<and> - 1 \<le> saved' \<and> saved' < 256"
proof (cases i)
  case (Color k)
  then have k: "k < 8" using assms(2) by simp
  let ?r = "sgr t (30 + k) saved s"
  have d: "digits_value [51, 48 + of_nat k] = 30 + k" "is_digit 51" "\<not> is_digit 109"
    using color_digits(2) [OF k] by (simp_all add: digits_value_def is_digit_def)
  have "printf_loop t (item_text i @ fmt) (item_args i @ args) saved s = printf_loop t fmt args (fst ?r) (snd ?r)"
    using d color_digits(1) [OF k] by (simp add: Color Let_def)
  moreover have "?r = (if saved = - 1 then color s else saved, snd (t_ioctl t 4 (fg_of k) s))"
    using get [OF assms(1)] color_digits(3) [OF k] by (simp add: sgr_def)
  ultimately show ?thesis using set_fg [OF assms(1), of "fg_of k"] color_digits(4) [OF k] range [OF assms(1)] assms(3,4)
    by (auto simp: Color)
next
  case Reset
  then show ?thesis using assms get [of s] range [of s] set_all [of s "color s"] set_all [of s saved]
    by (auto simp: sgr_def sgr_fg_def is_digit_def digits_value_def Let_def)
qed (use assms putcs_shows [of s] in \<open>auto simp: printf_arg_def split: option.splits\<close>)

lemma printf_items:
  assumes "ok s" "list_all item_ok is" "- 1 \<le> saved" "saved < 256"
  shows "\<exists>s' saved'. printf_loop t (fmt_of is) (args_of is) saved s = Ok (saved', s') \<and> ok s' \<and> shown s' = shown s @ shows_of is
    \<and> (saved', color s') = fold item_color is (saved, color s)"
  using assms
proof (induction "is" arbitrary: s saved)
  case (Cons i "is")
  from printf_item [of s i saved "fmt_of is" "args_of is"] Cons.prems obtain s1 saved1 where
    s: "printf_loop t (item_text i @ fmt_of is) (item_args i @ args_of is) saved s = printf_loop t (fmt_of is) (args_of is) saved1 s1"
      "ok s1" "shown s1 = shown s @ item_shows i" "(saved1, color s1) = item_color i (saved, color s)" "- 1 \<le> saved1" "saved1 < 256" by auto
  show ?case using Cons.IH [OF s(2) _ s(5,6)] Cons.prems(2) s(1,3,4) by (auto simp: fmt_of_def args_of_def shows_of_def)
qed (simp add: fmt_of_def args_of_def shows_of_def)

end

lemma fold_color_saved:
  assumes "0 \<le> c0" "sc = (-1, c0) \<or> fst sc = c0"
  shows "fold item_color is sc = (-1, c0) \<or> fst (fold item_color is sc) = c0"
  using assms(2)
proof (induction "is" arbitrary: sc)
  case (Cons i "is")
  obtain a b where sc: "sc = (a, b)" by (cases sc)
  have "item_color i sc = (-1, c0) \<or> fst (item_color i sc) = c0" using Cons.prems assms(1) by (cases i) (auto simp: sc)
  then show ?case using Cons.IH by simp
qed simp

lemma fold_color_reset:
  assumes "0 \<le> c0" "is \<noteq> []" "last is = Reset"
  shows "fold item_color is (-1, c0) = (-1, c0)"
proof -
  have "fold item_color is (-1, c0) = item_color Reset (fold item_color (butlast is) (-1, c0))"
    using assms(2,3) by (metis append_butlast_last_id comp_apply fold_Cons fold_Nil fold_append id_apply)
  then show ?thesis using fold_color_saved [OF assms(1), of "(-1, c0)" "butlast is"] assms(1)
    by (cases "fold item_color (butlast is) (-1, c0)") auto
qed

section \<open>The console\<close>

definition con_tty :: "64 word \<Rightarrow> 'z console_scheme tty" where
  "con_tty payload =
     \<lparr>t_putc = (\<lambda>b st. snd (consolewrite payload [b] st)), t_ioctl = (\<lambda>p v st. consoleioctl p (word_of_int v) st)\<rparr>"

text \<open>A console with a serial line that is not loading a font, its color, and what it has sent over the line.\<close>

definition con_ready :: "'z console_scheme \<Rightarrow> bool" where
  "con_ready st \<longleftrightarrow> has_uart st \<and> \<not> font_loading st \<and> fg st < 16 \<and> bg st < 16"

definition con_color :: "'z console_scheme \<Rightarrow> int" where
  "con_color st = sint (fg st OR push_bit 4 (bg st))"

definition con_shown :: "'z console_scheme \<Rightarrow> byte list" where
  "con_shown st = concat (map (\<lambda>e. case e of Uart c \<Rightarrow> [of_nat c] | _ \<Rightarrow> []) (con_ev st))"

lemma color_word:
  fixes f b :: "32 word"
  assumes "f < 16" "b < 16"
  shows "sint (f OR push_bit 4 b) = uint f + 16 * uint b"
proof -
  have u: "uint f < 16" "uint b < 16" using assms by (simp_all add: word_less_def)
  then have t: "take_bit 4 f = f" "take_bit 4 b = b" by (simp_all add: word_uint_eq_iff unsigned_take_bit_eq take_bit_int_eq_self)
  have bits: "bit f n \<Longrightarrow> n < 4" "bit b n \<Longrightarrow> n < 4" for n using t by (metis bit_take_bit_iff)+
  have dj: "f OR push_bit 4 b = f + push_bit 4 b"
    by (rule disjunctive_add [symmetric]) (use bits in \<open>force simp: bit_push_bit_iff\<close>)
  have "uint (f + push_bit 4 b) = uint f + 16 * uint b"
    using u by (simp add: push_bit_eq_mult uint_word_ariths)
  moreover have "signed_take_bit 31 (uint f + 16 * uint b) = uint f + 16 * uint b"
  proof (rule signed_take_bit_int_eq_self)
    have "0 \<le> uint f + 16 * uint b" by simp
    then show "- (2 ^ 31) \<le> uint f + 16 * uint b" by (rule order_trans [rotated]) simp
  qed (use u in simp)
  ultimately show ?thesis using dj by (simp add: sint_uint)
qed

lemma and_15: "w AND 15 = take_bit 4 w" for w :: "32 word"
  using take_bit_eq_mask [of 4 w] by (simp add: mask_eq_exp_minus_1)

lemma small_int:
  fixes c :: int
  assumes "0 \<le> c" "c < 256"
  shows "sint (word_of_int c :: 32 word) = c" "uint (word_of_int c :: 32 word) = c"
    "signed_drop_bit 4 (word_of_int c :: 32 word) = word_of_int (c div 16)"
proof -
  show s: "sint (word_of_int c :: 32 word) = c" using assms by (simp add: signed_of_int signed_take_bit_int_eq_self)
  show "uint (word_of_int c :: 32 word) = c" using assms by (simp add: unsigned_of_int take_bit_int_eq_self)
  have "sint (signed_drop_bit 4 (word_of_int c :: 32 word)) = c div 16" by (simp add: sint_signed_drop_bit_eq s drop_bit_eq_div)
  then show "signed_drop_bit 4 (word_of_int c :: 32 word) = word_of_int (c div 16)" by (metis of_int_sint scast_id)
qed

lemma con_color_eq: "con_ready st \<Longrightarrow> con_color st = uint (fg st) + 16 * uint (bg st)"
  by (simp add: con_ready_def con_color_def color_word)

lemma con_ready_uint: "con_ready st \<Longrightarrow> uint (fg st) < 16 \<and> uint (bg st) < 16"
  by (simp add: con_ready_def word_less_def)

lemma con_putc:
  assumes "con_ready st"
  shows "con_ready (snd (consolewrite payload [b] st)) \<and> con_color (snd (consolewrite payload [b] st)) = con_color st
    \<and> con_shown (snd (consolewrite payload [b] st)) = con_shown st @ [b]"
proof -
  have "unat b < 256" using unsigned_less [of b, where 'a = nat] by simp
  then have "unat b \<noteq> BACKSPACE" "unat b mod 256 = unat b" by (simp_all add: BACKSPACE_def)
  then show ?thesis using assms
    by (auto simp: con_ready_def con_color_def con_shown_def consolewrite_def consputc_color_def cgaputc_def uartputc_def emit_def Let_def
        split: prod.split)
qed

lemma uint_take_4: "uint (take_bit 4 w :: 32 word) = uint w mod 16"
  using unsigned_take_bit_eq [of 4 w, where 'a = int] take_bit_eq_mod [of 4 "uint w"] by simp

lemma take_bit_4_less: "take_bit 4 w < (16 :: 32 word)"
  using uint_take_4 [of w] by (simp add: word_less_def)

interpretation ct: color_tty "con_tty payload" con_ready con_color con_shown
proof
  fix st :: "'z console_scheme" and c v :: int and b
  assume ok: "con_ready st"
  note u = con_ready_uint [OF ok]
  note col = con_color_eq [OF ok]
  show "0 \<le> con_color st \<and> con_color st < 256" using u col by simp
  show "t_ioctl (con_tty payload) 1 v st = (con_color st, st)" by (simp add: con_tty_def consoleioctl_def con_color_def)
  show "con_ready (t_putc (con_tty payload) b st) \<and> con_color (t_putc (con_tty payload) b st) = con_color st
      \<and> con_shown (t_putc (con_tty payload) b st) = con_shown st @ [b]" using con_putc [OF ok] by (simp add: con_tty_def)
  {
    assume c: "0 \<le> c" "c < 256"
    have "con_ready (snd (consoleioctl 0 (word_of_int c) st))" using ok by (simp add: con_ready_def consoleioctl_def and_15 take_bit_4_less)
    from con_color_eq [OF this] have "con_color (snd (consoleioctl 0 (word_of_int c) st)) = c mod 16 + 16 * (c div 16 mod 16)"
      using c small_int [OF c] small_int(2) [of "c div 16"] by (simp add: consoleioctl_def and_15 uint_take_4)
    then show "con_ready (snd (t_ioctl (con_tty payload) 0 c st)) \<and> con_color (snd (t_ioctl (con_tty payload) 0 c st)) = c
        \<and> con_shown (snd (t_ioctl (con_tty payload) 0 c st)) = con_shown st"
      using c \<open>con_ready (snd (consoleioctl 0 (word_of_int c) st))\<close> by (simp add: con_tty_def con_shown_def consoleioctl_def)
  }
  {
    assume c: "0 \<le> c" "c < 16"
    have r: "con_ready (snd (consoleioctl 4 (word_of_int c) st))" using ok by (simp add: con_ready_def consoleioctl_def and_15 take_bit_4_less)
    from con_color_eq [OF this] have "con_color (snd (consoleioctl 4 (word_of_int c) st)) = c + 16 * uint (bg st)"
      using c small_int(2) [of c] by (simp add: consoleioctl_def and_15 uint_take_4)
    then show "con_ready (snd (t_ioctl (con_tty payload) 4 c st))
        \<and> con_color (snd (t_ioctl (con_tty payload) 4 c st)) = con_color st div 16 * 16 + c
        \<and> con_shown (snd (t_ioctl (con_tty payload) 4 c st)) = con_shown st"
      using r u col by (simp add: con_tty_def con_shown_def consoleioctl_def)
  }
qed

text \<open>All conversions that the code has, also those that its comment does not mention: \<open>%c\<close> and a percent sign.\<close>

lemma printf_all_items:
  assumes "con_ready st" "list_all item_ok is"
  shows "\<exists>saved st'. printf (con_tty payload) (fmt_of is) (args_of is) (- 1) st = Ok (saved, st')
    \<and> con_shown st' = con_shown st @ shows_of is
    \<and> (saved, con_color st') = fold item_color is (- 1, con_color st)
    \<and> (is \<noteq> [] \<and> last is = Reset \<longrightarrow> saved = - 1 \<and> con_color st' = con_color st)"
proof -
  from ct.printf_items [OF assms, of "- 1" payload] obtain saved st' where
    r: "printf_loop (con_tty payload) (fmt_of is) (args_of is) (- 1) st = Ok (saved, st')" "con_shown st' = con_shown st @ shows_of is"
      "(saved, con_color st') = fold item_color is (- 1, con_color st)" by auto
  have "0 \<le> con_color st" using ct.range [OF assms(1)] by simp
  then have "is \<noteq> [] \<and> last is = Reset \<longrightarrow> saved = - 1 \<and> con_color st' = con_color st" using fold_color_reset [of "con_color st" "is"] r(3)
    by (metis Pair_inject)
  then show ?thesis using r by (auto simp: printf_def)
qed

fun documented :: "item \<Rightarrow> bool" where
  "documented (Char _) = False"
| "documented Percent = False"
| "documented i = item_ok i"

text \<open>
  C32. \<^verbatim>\<open>printf\<close> on the console prints what its format and arguments say: literal characters, \<open>%d\<close> as the decimal numeral with its sign, \<open>%x\<close> and \<open>%p\<close> as hexadecimal
  numerals of 8 and 16 digits, \<open>%s\<close> as the string, and escape sequences as changes of color; and a format that
  ends by resetting the color leaves the console's color as it was, whatever colors it has used.
\<close>

theorem printf_renders:
  assumes "con_ready st" "list_all documented is"
  shows "\<exists>saved st'. printf (con_tty payload) (fmt_of is) (args_of is) (- 1) st = Ok (saved, st')
    \<and> con_shown st' = con_shown st @ shows_of is
    \<and> (saved, con_color st') = fold item_color is (- 1, con_color st)
    \<and> (is \<noteq> [] \<and> last is = Reset \<longrightarrow> saved = - 1 \<and> con_color st' = con_color st)"
proof -
  have "documented i \<Longrightarrow> item_ok i" for i by (cases i) simp_all
  then have "list_all item_ok is" using assms(2) by (auto simp: list_all_iff)
  from printf_all_items [OF assms(1) this] show ?thesis .
qed

definition demo_console :: console where
  "demo_console = \<lparr>in_buf = replicate INPUT_BUF 0, in_r = 0, in_w = 0, in_e = 0, in_cur = 0, in_raw = False, in_esc = 0, draft = [], draft_active = False,
     crt = (\<lambda>_. 0), crt_pos = 0, fg = 7, bg = 1, font_buf = [], font_loading = False, font_offset = 0, has_uart = True, con_ev = []\<rparr>"

theorem printf_renders_witness:
  "\<exists>saved st'. printf (con_tty 0) [27, 91, 51, 50, 109, 37, 115, 27, 91, 48, 109, 37, 100, 37, 120, 27, 91, 48, 109] [ArgS (Some [97, 98]), ArgD (- 105), ArgX 0xBEEF] (- 1) demo_console = Ok (saved, st')
     \<and> con_shown st' = [97, 98, 45, 49, 48, 53, 48, 48, 48, 48, 98, 101, 101, 102] \<and> saved = - 1 \<and> con_color st' = 23"
proof -
  let ?is = "[Color 2, Str (Some [97, 98]), Reset, Dec (- 105), Hex 0xBEEF, Reset]"
  have ok: "con_ready demo_console" "list_all documented ?is" by (simp_all add: con_ready_def demo_console_def)
  have "con_color demo_console = 23" "con_shown demo_console = []"
    using con_color_eq [OF ok(1)] by (simp_all add: demo_console_def con_shown_def)
  moreover have "dec_text (- 105) = [45, 49, 48, 53]" by (simp add: dec_text_def decimal.simps)
  moreover have "hex_text 8 0xBEEF = [48, 48, 48, 48, 98, 101, 101, 102]" by (simp add: hex_text_def hex_digit_def upt_rec)
  ultimately show ?thesis using printf_renders [OF ok, of 0] by (auto simp: fmt_of_def args_of_def shows_of_def)
qed

end
