(* ===== verification/Usercmds.thy ===== *)
theory Usercmds
  imports Plugins Uprintf Sh
begin

text \<open>
  User commands: \<^verbatim>\<open>echo\<close>, \<^verbatim>\<open>cat\<close>, \<^verbatim>\<open>wc\<close>, \<^verbatim>\<open>ls\<close>, \<^verbatim>\<open>crawler\<close> and the commands of a few system calls. A command gives the sequence of its
  calls; what the kernel answers is a parameter. For a file that is read, the parameter has the bytes that each \<^verbatim>\<open>read\<close> returns and
  whether the last one fails.
\<close>

datatype ucall =
  Printf nat "byte list" "carg list"
| Write nat "byte list"
| Ioctl nat int int
| Unlink "byte list"
| Link "byte list" "byte list"
| Mkdir "byte list"
| Touch "byte list"
| Kill int
| Exec "byte list" "byte list list"

abbreviation nl :: "string \<Rightarrow> byte list" where
  "nl s \<equiv> ascii s @ [10]"

abbreviation arg_s :: "byte list \<Rightarrow> carg" where
  "arg_s s \<equiv> ArgS (Some s)"

text \<open>The answer to a call may depend on the calls before it.\<close>

type_synonym answers = "ucall list \<Rightarrow> ucall \<Rightarrow> int"

section \<open>Commands of a few calls\<close>

definition echo_main :: "byte list list \<Rightarrow> ucall list" where
  "echo_main argv =
     map (\<lambda>i. Printf 1 (ascii ''%s%s'') [arg_s (argv ! i), arg_s (if i + 1 < length argv then [32] else [10])]) [1..<length argv]"

text \<open>The loop of \<^verbatim>\<open>rm\<close> and \<^verbatim>\<open>mkdir\<close>, which ends at the first failure.\<close>

fun each_arg :: "answers \<Rightarrow> (byte list \<Rightarrow> ucall) \<Rightarrow> byte list \<Rightarrow> byte list list \<Rightarrow> ucall list \<Rightarrow> ucall list" where
  "each_arg ans call msg [] tr = tr"
| "each_arg ans call msg (a # as) tr =
     (if ans tr (call a) < 0 then tr @ [call a, Printf 2 msg [arg_s a]] else each_arg ans call msg as (tr @ [call a]))"

definition rm_main :: "answers \<Rightarrow> byte list list \<Rightarrow> ucall list" where
  "rm_main ans argv =
     (if length argv < 2 then [Printf 2 (nl ''Usage: rm files...'') []]
      else each_arg ans Unlink (nl ''rm: %s failed to delete'') (tl argv) [])"

definition mkdir_main :: "answers \<Rightarrow> byte list list \<Rightarrow> ucall list" where
  "mkdir_main ans argv =
     (if length argv < 2 then [Printf 2 (nl ''Usage: mkdir files...'') []]
      else each_arg ans Mkdir (nl ''mkdir: %s failed to create'') (tl argv) [])"

fun touch_loop :: "answers \<Rightarrow> byte list list \<Rightarrow> ucall list \<Rightarrow> ucall list" where
  "touch_loop ans [] tr = tr"
| "touch_loop ans (a # as) tr =
     touch_loop ans as (tr @ Touch a # (if ans tr (Touch a) < 0 then [Printf 2 (nl ''touch: cannot touch %s'') [arg_s a]] else []))"

definition touch_main :: "answers \<Rightarrow> byte list list \<Rightarrow> ucall list" where
  "touch_main ans argv =
     (if length argv < 2 then [Printf 2 (nl ''Usage: touch files...'') []] else touch_loop ans (tl argv) [])"

definition ln_main :: "answers \<Rightarrow> byte list list \<Rightarrow> ucall list" where
  "ln_main ans argv =
     (if length argv \<noteq> 3 then [Printf 2 (nl ''Usage: ln old new'') []]
      else let l = Link (argv ! 1) (argv ! 2) in
        l # (if ans [] l < 0 then [Printf 2 (nl ''link %s %s: failed'') [arg_s (argv ! 1), arg_s (argv ! 2)]] else []))"

definition mv_main :: "answers \<Rightarrow> byte list list \<Rightarrow> ucall list" where
  "mv_main ans argv =
     (if length argv \<noteq> 3 then [Printf 2 (nl ''Usage: mv old new'') []]
      else let l = Link (argv ! 1) (argv ! 2); u = Unlink (argv ! 1);
               tr = l # (if ans [] l < 0 then [Printf 2 (nl ''move: link failed'') []] else [])
        in tr @ u # (if ans tr u < 0 then [Printf 2 (nl ''mv: unlink failed'') []] else []))"

text \<open>The file is unlinked also when the link has failed.\<close>

lemma mv_loses_file: "ans [] (Link a b) < 0 \<Longrightarrow> Unlink a \<in> set (mv_main ans [m, a, b])"
  by (simp add: mv_main_def Let_def)

definition kill_main :: "byte list list \<Rightarrow> ucall list" where
  "kill_main argv =
     (if length argv < 2 then [Printf 2 (nl ''usage: kill pid...'') []] else map (\<lambda>a. Kill (atoi a)) (tl argv))"

definition clear_main :: "answers \<Rightarrow> byte list list \<Rightarrow> ucall list" where
  "clear_main ans argv =
     (if length argv > 1 then [Printf 2 (nl ''clear: too many arguments'') []]
      else Ioctl 1 12 0 # (if ans [] (Ioctl 1 12 0) < 0 then [Printf 2 (nl ''clear: failed'') []] else []))"

text \<open>\<open>cwd\<close> is what \<^verbatim>\<open>getcwd\<close> stores, \<open>None\<close> when it fails.\<close>

definition pwd_main :: "byte list option \<Rightarrow> byte list list \<Rightarrow> ucall list" where
  "pwd_main cwd argv =
     (if length argv > 1 then [Printf 2 (nl ''pwd: too many arguments'') []]
      else case cwd of
        None \<Rightarrow> [Printf 2 (nl ''pwd: failed'') []]
      | Some d \<Rightarrow> [Printf 1 (nl ''%s'') [arg_s d]])"

section \<open>Plugins\<close>

definition PLUGIN_PATH :: "byte list" where
  "PLUGIN_PATH = ascii ''/bin/ohmyxv6-''"

definition plugins :: "byte list list" where
  "plugins = [ascii ''font'', ascii ''theme'']"

definition list_plugins :: "ucall list" where
  "list_plugins = Printf 1 (nl ''plugins:'') [] # map (\<lambda>p. Printf 1 (nl ''- %s'') [arg_s p]) plugins"

text \<open>\<^verbatim>\<open>exec\<close> returns only when it fails.\<close>

definition ohmyxv6_main :: "answers \<Rightarrow> byte list list \<Rightarrow> ucall list" where
  "ohmyxv6_main ans argv =
     (if length argv < 2 \<or> str_cmp (argv ! 1) (ascii ''list'') = 0 then list_plugins
      else if length PLUGIN_PATH + length (argv ! 1) \<ge> 64 then [Printf 2 (nl ''ohmyxv6: plugin name too long'') []]
      else let x = Exec (PLUGIN_PATH @ argv ! 1) (tl argv) in
        x # (if ans [] x < 0 then [Printf 2 (nl ''ohmyxv6: plugin not found: %s'') [arg_s (argv ! 1)]] else []))"

section \<open>cat and wc\<close>

type_synonym input = "byte list list \<times> bool"

text \<open>The result tells whether the program goes on with its next argument.\<close>

fun cat_loop :: "answers \<Rightarrow> byte list list \<Rightarrow> bool \<Rightarrow> ucall list \<Rightarrow> ucall list \<times> bool" where
  "cat_loop ans [] failed tr = (if failed then (tr @ [Printf 1 (nl ''cat: read error'') []], False) else (tr @ [Write 1 [10]], True))"
| "cat_loop ans (c # cs) failed tr =
     (if ans tr (Write 1 c) \<noteq> int (length c) then (tr @ [Write 1 c, Printf 1 (nl ''cat: write error'') []], False)
      else cat_loop ans cs failed (tr @ [Write 1 c]))"

definition cat :: "answers \<Rightarrow> input \<Rightarrow> ucall list \<Rightarrow> ucall list \<times> bool" where
  "cat ans inp tr = cat_loop ans (fst inp) (snd inp) tr"

text \<open>What \<^verbatim>\<open>open\<close> and \<^verbatim>\<open>fstat\<close> say of a file: \<open>None\<close> when it does not open, its type or \<open>None\<close>, and its input.\<close>

type_synonym opens = "byte list \<Rightarrow> (nat option \<times> input) option"

fun cat_files :: "answers \<Rightarrow> opens \<Rightarrow> byte list list \<Rightarrow> ucall list \<Rightarrow> ucall list" where
  "cat_files ans f [] tr = tr"
| "cat_files ans f (a # as) tr =
     (case f a of
        None \<Rightarrow> tr @ [Printf 1 (nl ''cat: cannot open %s'') [arg_s a]]
      | Some (type, inp) \<Rightarrow>
          if type = None \<or> type = Some 1 then tr @ [Printf 1 (nl ''cat: %s: is a directory'') [arg_s a]]
          else (case cat ans inp tr of (tr, go_on) \<Rightarrow> if go_on then cat_files ans f as tr else tr))"

definition cat_main :: "answers \<Rightarrow> input \<Rightarrow> opens \<Rightarrow> byte list list \<Rightarrow> ucall list" where
  "cat_main ans stdin f argv = (if length argv \<le> 1 then fst (cat ans stdin []) else cat_files ans f (tl argv) [])"

record wc_st =
  wc_l :: nat
  wc_w :: nat
  wc_c :: nat
  wc_inword :: bool

definition wc_space :: "byte \<Rightarrow> bool" where
  "wc_space b \<longleftrightarrow> b \<in> {32, 13, 9, 10, 11}"

definition wc_byte :: "byte \<Rightarrow> wc_st \<Rightarrow> wc_st" where
  "wc_byte b s =
     (let s = s\<lparr>wc_c := wc_c s + 1\<rparr>; s = (if b = 10 then s\<lparr>wc_l := wc_l s + 1\<rparr> else s) in
      if wc_space b then s\<lparr>wc_inword := False\<rparr>
      else if \<not> wc_inword s then s\<lparr>wc_w := wc_w s + 1, wc_inword := True\<rparr> else s)"

definition wc_count :: "byte list list \<Rightarrow> wc_st" where
  "wc_count cs = fold (fold wc_byte) cs \<lparr>wc_l = 0, wc_w = 0, wc_c = 0, wc_inword = False\<rparr>"

definition wc :: "input \<Rightarrow> byte list \<Rightarrow> ucall list \<times> bool" where
  "wc inp name =
     (let s = wc_count (fst inp) in
      if snd inp then ([Printf 1 (nl ''wc: read error'') []], False)
      else ([Printf 1 (nl ''%d %d %d %s'') [ArgD (int (wc_l s)), ArgD (int (wc_w s)), ArgD (int (wc_c s)), arg_s name]], True))"

fun wc_files :: "opens \<Rightarrow> byte list list \<Rightarrow> ucall list" where
  "wc_files f [] = []"
| "wc_files f (a # as) =
     (case f a of
        None \<Rightarrow> [Printf 1 (nl ''wc: cannot open %s'') [arg_s a]]
      | Some (_, inp) \<Rightarrow> (case wc inp a of (out, go_on) \<Rightarrow> out @ (if go_on then wc_files f as else [])))"

definition wc_main :: "input \<Rightarrow> opens \<Rightarrow> byte list list \<Rightarrow> ucall list" where
  "wc_main stdin f argv = (if length argv \<le> 1 then fst (wc stdin []) else wc_files f (tl argv))"

text \<open>The words of a text, cut at spaces.\<close>

function words :: "byte list \<Rightarrow> byte list list" where
  "words [] = []"
| "words (b # bs) =
     (if wc_space b then words bs
      else (b # takeWhile (\<lambda>c. \<not> wc_space c) bs) # words (dropWhile (\<lambda>c. \<not> wc_space c) bs))"
  by pat_completeness auto
termination
  by (relation "measure length") (auto simp: le_imp_less_Suc length_dropWhile_le)

lemma wc_fold:
  "wc_c (fold wc_byte bs s) = wc_c s + length bs \<and> wc_l (fold wc_byte bs s) = wc_l s + count_list bs 10
   \<and> wc_w (fold wc_byte bs s) = wc_w s + length (words (if wc_inword s then dropWhile (\<lambda>c. \<not> wc_space c) bs else bs))"
proof (induction bs arbitrary: s)
  case (Cons b bs)
  show ?case using Cons [of "wc_byte b s"] by (auto simp: wc_byte_def Let_def)
qed simp

lemma fold_fold_concat: "fold (fold f) xss s = fold f (concat xss) s"
  by (induction xss arbitrary: s) auto

text \<open>
  \<^verbatim>\<open>wc\<close> prints the number of newlines, words and bytes of the whole input, however \<^verbatim>\<open>read\<close> has cut it into pieces.
\<close>

theorem wc_counts:
  "wc (cs, False) name =
     ([Printf 1 (nl ''%d %d %d %s'')
        [ArgD (int (count_list (concat cs) 10)), ArgD (int (length (words (concat cs)))), ArgD (int (length (concat cs))), arg_s name]], True)"
  using wc_fold [of "concat cs" "\<lparr>wc_l = 0, wc_w = 0, wc_c = 0, wc_inword = False\<rparr>"]
  by (simp add: wc_def wc_count_def fold_fold_concat)

section \<open>ls\<close>

text \<open>The answers of \<^verbatim>\<open>open\<close>, of \<^verbatim>\<open>stat\<close> (type, inode number, size) and the entries that reading a directory gives.\<close>

record dir_env =
  de_open :: "byte list \<Rightarrow> bool"
  de_stat :: "byte list \<Rightarrow> (nat \<times> nat \<times> nat) option"
  de_dir :: "byte list \<Rightarrow> (nat \<times> byte list) list"

definition fmtname :: "byte list \<Rightarrow> byte list" where
  "fmtname path =
     (let p = rev (takeWhile (\<lambda>c. c \<noteq> 47) (rev path)) in
      if length p \<ge> 14 then p else p @ replicate (14 - length p) 32)"

definition ls_line :: "byte list \<Rightarrow> byte list \<Rightarrow> nat \<times> nat \<times> nat \<Rightarrow> ucall" where
  "ls_line fmt path st =
     (case st of (type, ino, sz) \<Rightarrow> Printf 1 fmt [arg_s (fmtname path), ArgD (int type), ArgD (int32 (int ino)), ArgD (int32 (int sz))])"

fun ls_entries :: "dir_env \<Rightarrow> byte list \<Rightarrow> (nat \<times> byte list) list \<Rightarrow> ucall list" where
  "ls_entries e path [] = []"
| "ls_entries e path ((inum, name) # des) =
     (if inum = 0 \<or> (name \<noteq> [] \<and> hd name = 46) then ls_entries e path des
      else let buf = entry_path path name in
        (case de_stat e buf of
           None \<Rightarrow> Printf 1 (nl ''ls: cannot stat %s'') [arg_s buf]
         | Some st \<Rightarrow>
             ls_line (if fst st = 1 then [27, 91, 51, 50, 109, 37, 115, 27, 91, 48, 109] @ nl ''/ %d %d %d'' else nl ''%s/ %d %d %d'') buf st)
        # ls_entries e path des)"

definition ls :: "dir_env \<Rightarrow> byte list \<Rightarrow> ucall list" where
  "ls e path =
     (if \<not> de_open e path then [Printf 2 (nl ''ls: cannot open %s'') [arg_s path]]
      else case de_stat e path of
        None \<Rightarrow> [Printf 2 (nl ''ls: cannot stat %s'') [arg_s path]]
      | Some st \<Rightarrow>
          if fst st = 2 then [ls_line (nl ''%s %d %d %d'') path st]
          else if fst st = 1 then
            if length path + 1 + 14 + 1 > 512 then [Printf 1 (nl ''ls: path too long'') []] else ls_entries e path (de_dir e path)
          else [])"

definition ls_main :: "dir_env \<Rightarrow> byte list list \<Rightarrow> ucall list" where
  "ls_main e argv = (if length argv < 2 then ls e [46] else concat (map (ls e) (tl argv)))"

section \<open>crawler\<close>

definition skipped :: "nat \<times> byte list \<Rightarrow> bool" where
  "skipped de \<longleftrightarrow> fst de = 0 \<or> cstr (snd de) = [46] \<or> cstr (snd de) = [46, 46]"

definition dir_prefix :: "byte list \<Rightarrow> byte list" where
  "dir_prefix path = (if path \<noteq> [] \<and> last path \<noteq> 47 then path @ [47] else path)"

definition child_path :: "byte list \<Rightarrow> byte list \<Rightarrow> byte list" where
  "child_path path name = cstr (dir_prefix path @ take 14 name)"

text \<open>
  \<^verbatim>\<open>crawl\<close> with the number of nested calls that are left. \<open>None\<close> when they are used up, when a path does not fit the 512 bytes of
  \<^verbatim>\<open>buf\<close>, or when \<^verbatim>\<open>printf\<close> reads behind a name without a NUL. \<^verbatim>\<open>malloc\<close> does not fail.
\<close>

fun crawl :: "nat \<Rightarrow> dir_env \<Rightarrow> byte list \<Rightarrow> ucall list option"
  and crawl_entries :: "nat \<Rightarrow> dir_env \<Rightarrow> byte list \<Rightarrow> (nat \<times> byte list) list \<Rightarrow> ucall list option" where
  "crawl 0 e path = None"
| "crawl (Suc n) e path =
     (if \<not> de_open e path then Some []
      else case de_stat e path of
        None \<Rightarrow> Some []
      | Some st \<Rightarrow> if fst st \<noteq> 1 then Some [] else crawl_entries n e path (de_dir e path))"
| "crawl_entries n e path [] = Some []"
| "crawl_entries n e path (de # des) =
     (if skipped de then crawl_entries n e path des
      else if length (dir_prefix path) + 14 + 1 > 512 then None
      else case de_stat e (child_path path (snd de)) of
        None \<Rightarrow> crawl_entries n e path des
      | Some st \<Rightarrow>
          if fst st = 2 then
            if length (snd de) \<ge> 14 \<and> 0 \<notin> set (take 14 (snd de)) then None
            else map_option (Cons (Printf 3 (nl ''%s %s'') [arg_s (cstr (snd de)), arg_s path])) (crawl_entries n e path des)
          else if fst st = 1 then
            (case crawl n e (child_path path (snd de)) of
               None \<Rightarrow> None
             | Some out \<Rightarrow> map_option (append out) (crawl_entries n e path des))
          else crawl_entries n e path des)"

text \<open>Printing to a file; \<open>old\<close> is what the file held, which is overwritten from the start and not cut off.\<close>

definition file_tty :: "byte list tty" where
  "file_tty = \<lparr>t_putc = (\<lambda>b s. s @ [b]), t_ioctl = (\<lambda>_ _ s. (-1, s))\<rparr>"

fun print_call :: "ucall \<Rightarrow> byte list \<Rightarrow> byte list res" where
  "print_call (Printf fd fmt args) s = bind_res (printf file_tty fmt args (-1) s) (\<lambda>(_, s). Ok s)"
| "print_call _ s = Ok s"

definition crawler_main :: "nat \<Rightarrow> dir_env \<Rightarrow> byte list \<Rightarrow> byte list res" where
  "crawler_main fuel e old =
     (case crawl fuel e [47] of
        None \<Rightarrow> Fault ''crawl''
      | Some calls \<Rightarrow> bind_res (fold_res print_call calls []) (\<lambda>s. Ok (s @ drop (length s) old)))"

section \<open>What the crawler finds\<close>

text \<open>
  A file system below a directory, as a tree with the names in the order of the directories. \<open>shows_tree e path t\<close>: what \<^verbatim>\<open>open\<close>, \<^verbatim>\<open>stat\<close> and reading directories answer is the
  tree \<open>t\<close>, from \<open>path\<close> on.
\<close>

datatype ftree = File | Device | Dir "(byte list \<times> ftree) list"

fun shows_tree :: "dir_env \<Rightarrow> byte list \<Rightarrow> ftree \<Rightarrow> bool" where
  "shows_tree e path File \<longleftrightarrow> (\<exists>i k. de_stat e path = Some (2, i, k))"
| "shows_tree e path Device \<longleftrightarrow> (\<exists>i k. de_stat e path = Some (3, i, k))"
| "shows_tree e path (Dir es) \<longleftrightarrow> de_open e path \<and> (\<exists>i k. de_stat e path = Some (1, i, k))
     \<and> map (\<lambda>de. cstr (snd de)) (filter (\<lambda>de. \<not> skipped de) (de_dir e path)) = map fst es
     \<and> (\<forall>x \<in> set es. shows_tree e (dir_prefix path @ fst x) (snd x))"

text \<open>The files of the tree with the directories they are in, in the order in which a walk of the tree comes to them.\<close>

fun files_of :: "byte list \<Rightarrow> ftree \<Rightarrow> (byte list \<times> byte list) list" where
  "files_of path (Dir es) =
     concat (map (\<lambda>x. if snd x = File then [(fst x, path)] else files_of (dir_prefix path @ fst x) (snd x)) es)"
| "files_of path _ = []"

fun height :: "ftree \<Rightarrow> nat" where
  "height (Dir es) = Suc (fold max (map (\<lambda>x. height (snd x)) es) 0)"
| "height _ = 0"

text \<open>Names and paths that fit the directory entries and the shell's table, and that its lines can be split at.\<close>

definition name_fits :: "byte list \<Rightarrow> bool" where
  "name_fits name \<longleftrightarrow> set name \<inter> {0, 10, 32} = {} \<and> length name < 14"

definition path_fits :: "byte list \<Rightarrow> bool" where
  "path_fits q \<longleftrightarrow> q \<noteq> [] \<and> set q \<inter> {0, 10, 13} = {} \<and> length q < 64"

fun tree_fits :: "byte list \<Rightarrow> ftree \<Rightarrow> bool" where
  "tree_fits path (Dir es) \<longleftrightarrow> path_fits path \<and> (\<forall>x \<in> set es. name_fits (fst x) \<and> tree_fits (dir_prefix path @ fst x) (snd x))"
| "tree_fits path _ \<longleftrightarrow> True"

definition line :: "byte list \<Rightarrow> byte list \<Rightarrow> ucall" where
  "line name path = Printf 3 (nl ''%s %s'') [arg_s name, arg_s path]"

lemma cstr_none: "0 \<notin> set bs \<Longrightarrow> cstr bs = bs"
  by (induction bs) (auto simp: cstr_def)

lemma cstr_append: "0 \<notin> set xs \<Longrightarrow> cstr (xs @ ys) = xs @ cstr ys"
  by (induction xs) (auto simp: cstr_def)

lemma cstr_take: "length (cstr name) < n \<Longrightarrow> cstr (take n name) = cstr name \<and> \<not> (length name \<ge> n \<and> 0 \<notin> set (take n name))"
proof (induction name arbitrary: n)
  case (Cons b name)
  then obtain m where n: "n = Suc m" by (cases n) auto
  show ?case using Cons.IH [of m] Cons.prems by (auto simp: n cstr_def)
qed (simp add: cstr_def)

lemma child_path_fits:
  assumes "path_fits path" "length (cstr name) < 14"
  shows "child_path path name = dir_prefix path @ cstr name"
proof -
  have "0 \<notin> set (dir_prefix path)" using assms(1) by (auto simp: path_fits_def dir_prefix_def)
  then show ?thesis using cstr_append cstr_take [OF assms(2)] by (simp add: child_path_def)
qed

lemma height_entry: "x \<in> set es \<Longrightarrow> height (Dir es) \<le> Suc n \<Longrightarrow> height (snd x) \<le> n"
proof -
  have mono: "a \<le> fold max (map f es) a" for a and es :: "(byte list \<times> ftree) list" and f :: "byte list \<times> ftree \<Rightarrow> nat"
  proof (induction es arbitrary: a)
    case (Cons y es)
    show ?case using Cons [of "max (f y) a"] by simp
  qed simp
  have "x \<in> set es \<Longrightarrow> f x \<le> fold max (map f es) a" for a and f :: "byte list \<times> ftree \<Rightarrow> nat"
  proof (induction es arbitrary: a)
    case (Cons y es)
    then show ?case using mono [of "max (f y) a" f es] by (cases "x = y") auto
  qed simp
  from this [of "\<lambda>x. height (snd x)" 0] show "x \<in> set es \<Longrightarrow> height (Dir es) \<le> Suc n \<Longrightarrow> height (snd x) \<le> n" by simp
qed

text \<open>The loop over a directory, when the calls for the directories in it do what they should.\<close>

lemma crawl_entries_tree:
  assumes "map (\<lambda>de. cstr (snd de)) (filter (\<lambda>de. \<not> skipped de) des) = map fst es" and "path_fits path"
    and "\<forall>x \<in> set es. name_fits (fst x) \<and> shows_tree e (dir_prefix path @ fst x) (snd x)"
    and "\<And>x fs. x \<in> set es \<Longrightarrow> snd x = Dir fs
      \<Longrightarrow> crawl n e (dir_prefix path @ fst x) = Some (map (\<lambda>(n, q). line n q) (files_of (dir_prefix path @ fst x) (snd x)))"
  shows "crawl_entries n e path des = Some (map (\<lambda>(n, q). line n q) (files_of path (Dir es)))"
  using assms(1,3,4)
proof (induction des arbitrary: es)
  case (Cons de des)
  show ?case
  proof (cases "skipped de")
    case False
    then obtain x es' where es: "es = x # es'" "cstr (snd de) = fst x" "map (\<lambda>de. cstr (snd de)) (filter (\<lambda>de. \<not> skipped de) des) = map fst es'"
      using Cons.prems(1) by (cases es) auto
    have nf: "length (cstr (snd de)) < 14" using Cons.prems(2) es by (simp add: name_fits_def)
    have room: "\<not> length (dir_prefix path) + 14 + 1 > 512" using assms(2) by (simp add: path_fits_def dir_prefix_def)
    have rest: "crawl_entries n e path des = Some (map (\<lambda>(n, q). line n q) (files_of path (Dir es')))"
      by (rule Cons.IH [OF es(3)]) (use Cons.prems(2,3) es(1) in auto)
    have child: "child_path path (snd de) = dir_prefix path @ fst x" using child_path_fits [OF assms(2) nf] es(2) by simp
    have sh: "shows_tree e (dir_prefix path @ fst x) (snd x)" using Cons.prems(2) es(1) by simp
    show ?thesis
    proof (cases "snd x")
      case (Dir fs)
      then have "crawl n e (dir_prefix path @ fst x) = Some (map (\<lambda>(n, q). line n q) (files_of (dir_prefix path @ fst x) (snd x)))"
        using Cons.prems(3) es(1) by simp
      then show ?thesis using False room rest child sh Dir es(1) by auto
    next
      case File
      then show ?thesis using False room rest child sh es(1,2) cstr_take [OF nf] by (auto simp: line_def)
    next
      case Device
      then show ?thesis using False room rest child sh es(1) by auto
    qed
  qed (use Cons in simp)
qed simp

text \<open>The crawler ends, and prints the files of the tree in the order of the walk.\<close>

lemma crawl_tree:
  "shows_tree e path (Dir es) \<Longrightarrow> tree_fits path (Dir es) \<Longrightarrow> height (Dir es) \<le> n
   \<Longrightarrow> crawl n e path = Some (map (\<lambda>(n, q). line n q) (files_of path (Dir es)))"
proof (induction n arbitrary: path es)
  case (Suc n)
  have "crawl n e (dir_prefix path @ fst x) = Some (map (\<lambda>(n, q). line n q) (files_of (dir_prefix path @ fst x) (snd x)))"
    if "x \<in> set es" "snd x = Dir fs" for x fs
  proof -
    have "shows_tree e (dir_prefix path @ fst x) (snd x)" "tree_fits (dir_prefix path @ fst x) (snd x)" using Suc.prems(1,2) that(1) by simp_all
    then show ?thesis using Suc.IH [of "dir_prefix path @ fst x" fs] height_entry [OF that(1) Suc.prems(3)] unfolding that(2) by blast
  qed
  then have "crawl_entries n e path (de_dir e path) = Some (map (\<lambda>(n, q). line n q) (files_of path (Dir es)))"
    using Suc.prems(1,2) by (intro crawl_entries_tree) auto
  then show ?case using Suc.prems(1) by auto
qed simp

lemma files_fit: "tree_fits path t \<Longrightarrow> (name, q) \<in> set (files_of path t) \<Longrightarrow> name_fits name \<and> path_fits q"
  by (induction path t rule: files_of.induct) (auto split: if_splits)

section \<open>The index and the shell\<close>

definition index_text :: "(byte list \<times> byte list) list \<Rightarrow> byte list" where
  "index_text es = concat (map (\<lambda>(name, q). name @ 32 # q @ [10]) es)"

lemma putcs_file: "putcs file_tty bs s = s @ bs"
  by (induction bs arbitrary: s) (simp_all add: putcs_def file_tty_def)

lemma print_line: "print_call (line name q) s = Ok (s @ name @ 32 # q @ [10])"
  by (simp add: line_def printf_def ascii_def printf_arg_def putcs_file)

lemma print_lines: "fold_res print_call (map (\<lambda>(n, q). line n q) es) s = Ok (s @ index_text es)"
  by (induction es arbitrary: s) (auto simp: index_text_def print_line)

lemma read_until_word:
  "c # rest = w @ d # r \<Longrightarrow> d \<in> set stop \<Longrightarrow> set w \<inter> set stop = {} \<Longrightarrow> read_until stop c rest = (w, d, r)"
proof (induction w arbitrary: c rest)
  case Nil
  then show ?case by (cases rest) auto
next
  case (Cons b w)
  then obtain x xs where x: "rest = x # xs" "x # xs = w @ d # r" by (cases rest) auto
  have "read_until stop x xs = (w, d, r)" using Cons.IH [OF x(2)] Cons.prems(2,3) by auto
  moreover have "c = b" "b \<notin> set stop" using Cons.prems(1,3) by auto
  ultimately show ?case by (simp add: x(1))
qed

lemma read_entry_line:
  assumes "name_fits name" "path_fits q" "c # rest = name @ 32 # q @ 10 # r"
  shows "read_entry c rest = ((name, q), r)"
proof -
  have 1: "read_until [32, 10] c rest = (name, 32, q @ 10 # r)" using assms by (intro read_until_word) (auto simp: name_fits_def)
  obtain d ds where q: "q = d # ds" using assms(2) by (cases q) (auto simp: path_fits_def)
  have "read_until [10, 13] d (ds @ 10 # r) = (q, 10, r)" using assms(2) q by (intro read_until_word) (auto simp: path_fits_def)
  then show ?thesis using 1 q by (simp add: read_entry_def)
qed

lemma jump_entries_index:
  "k + length es \<le> MAX_JUMP_ENTRIES \<Longrightarrow> \<forall>(n, q) \<in> set es. name_fits n \<and> path_fits q \<Longrightarrow> jump_entries k (index_text es) tab = Some (tab @ es)"
proof (induction es arbitrary: k tab)
  case Nil
  then show ?case by (simp add: index_text_def jump_entries.simps)
next
  case (Cons x es)
  obtain name q where x: "x = (name, q)" by (cases x)
  obtain c rest where t: "index_text (x # es) = c # rest" "c # rest = name @ 32 # q @ 10 # index_text es"
    by (cases name) (auto simp: index_text_def x)
  have f: "name_fits name" "path_fits q" using Cons.prems(2) by (auto simp: x)
  then have "cstr name = name" "cstr q = q" "length name < 32" "length q < 64" by (auto simp: name_fits_def path_fits_def intro: cstr_none)
  then show ?case using Cons read_entry_line [OF f t(2)] by (subst jump_entries.simps) (auto simp: t(1), simp_all add: x)
qed

text \<open>
  C31. The crawler ends on every tree of directories, and the index that it writes lets the shell's \<^verbatim>\<open>jump\<close> find every plain file of the tree: for a name, \<^verbatim>\<open>jump\<close> changes to the directory of the first file of this name
  that a walk of the tree from the root, directories in the order of their entries, comes to. Names and paths must fit the shell's table, which has room for as many files; the number of nested calls of \<^verbatim>\<open>crawl\<close> is
  at most the height of the tree.
\<close>

theorem jump_reaches_file:
  assumes tree: "shows_tree e [47] (Dir es)" "tree_fits [47] (Dir es)" "height (Dir es) \<le> fuel"
    and first: "files_of [47] (Dir es) = before @ (name, p) # after" "name \<notin> fst ` set before" "length (files_of [47] (Dir es)) \<le> MAX_JUMP_ENTRIES"
    and k: "k_chdir k p"
  shows "\<exists>index. crawler_main fuel e [] = Ok index \<and> init_jump_table (k\<lparr>k_jump_index := Some index\<rparr>) [] = Some (0, files_of [47] (Dir es))
    \<and> jump k (files_of [47] (Dir es)) ([106, 117, 109, 112, 32] @ name @ [10]) = [Chdir p]"
proof -
  let ?es = "files_of [47] (Dir es)"
  have index: "crawler_main fuel e [] = Ok (index_text ?es)"
    using print_lines [of ?es "[]"] crawl_tree [OF tree] by (simp add: crawler_main_def del: files_of.simps)
  have tab: "jump_entries 0 (index_text ?es) [] = Some ?es"
    using jump_entries_index [of 0 ?es "[]"] first(3) files_fit [OF tree(2)] by (auto simp del: files_of.simps)
  have "map_of ?es name = Some p" using first(2) unfolding first(1) by (simp add: map_add_def dom_map_of_conv_image_fst [symmetric] domIff)
  then show ?thesis using index tab k by (auto simp: init_jump_table_def jump_def simp del: files_of.simps)
qed

text \<open>A root with a file and two directories, each with a file of the same name.\<close>

definition demo_dirs :: dir_env where
  "demo_dirs = \<lparr>de_open = (\<lambda>_. True),
     de_stat = (\<lambda>p. if p \<in> {[47], [47, 98], [47, 99]} then Some (1, 1, 32) else if p \<in> {[47, 97], [47, 98, 47, 120], [47, 99, 47, 120]} then Some (2, 2, 5) else None),
     de_dir = (\<lambda>p. if p = [47] then [(1, [46, 0]), (4, [97, 0]), (2, [98, 0]), (5, [99, 0])] else if p = [47, 98] \<or> p = [47, 99] then [(1, [46, 46, 0]), (3, [120, 0])] else [])\<rparr>"

definition demo_tree :: "(byte list \<times> ftree) list" where
  "demo_tree = [([97], File), ([98], Dir [([120], File)]), ([99], Dir [([120], File)])]"

theorem jump_reaches_file_witness:
  "\<exists>index tab. crawler_main 2 demo_dirs [] = Ok index
     \<and> init_jump_table \<lparr>k_chdir = (\<lambda>_. True), k_jump_index = Some index\<rparr> [] = Some (0, tab)
     \<and> jump \<lparr>k_chdir = (\<lambda>_. True), k_jump_index = None\<rparr> tab [106, 117, 109, 112, 32, 120, 10] = [Chdir [47, 98]]"
proof -
  let ?k = "\<lparr>k_chdir = (\<lambda>_. True), k_jump_index = None\<rparr>"
  have s: "shows_tree demo_dirs [47] (Dir demo_tree)"
    by (simp add: demo_dirs_def demo_tree_def skipped_def cstr_def dir_prefix_def)
  have f: "tree_fits [47] (Dir demo_tree)" by (simp add: demo_tree_def name_fits_def path_fits_def dir_prefix_def)
  have h: "height (Dir demo_tree) \<le> 2" by (simp add: demo_tree_def)
  have l: "files_of [47] (Dir demo_tree) = [([97], [47])] @ ([120], [47, 98]) # [([120], [47, 99])]" by (simp add: demo_tree_def dir_prefix_def)
  show ?thesis using jump_reaches_file [OF s f h l, of ?k] l by (auto simp: MAX_JUMP_ENTRIES_def simp del: files_of.simps)
qed

end
