(* ===== verification/Boot.thy ===== *)
theory Boot
  imports Bytes
begin

text \<open>
  \<^verbatim>\<open>src/bootmain.c\<close>: the boot loader, which runs in 32-bit mode. It finds the multiboot header of the kernel on the disk, loads the
  kernel where the header says, clears what follows and enters it. The contents of the disk's sectors are a parameter; memory is a function on addresses.
  Waiting for the disk changes nothing and is left out.
\<close>

unbundle bit_operations_syntax

section \<open>Reading the disk\<close>

definition SECTSIZE :: nat where
  "SECTSIZE = 512"

record boot =
  bt_mem :: "nat \<Rightarrow> byte"
  bt_out :: "(nat \<times> nat) list"

definition mem_put :: "nat \<Rightarrow> byte list \<Rightarrow> (nat \<Rightarrow> byte) \<Rightarrow> nat \<Rightarrow> byte" where
  "mem_put a bs m x = (if a \<le> x \<and> x < a + length bs then bs ! (x - a) else m x)"

definition read_ports :: "nat \<Rightarrow> (nat \<times> nat) list" where
  "read_ports off =
     [(0x1F2, 1), (0x1F3, off mod 256), (0x1F4, off div 2 ^ 8 mod 256), (0x1F5, off div 2 ^ 16 mod 256),
      (0x1F6, (off div 2 ^ 24 mod 256) OR 0xE0), (0x1F7, 0x20)]"

text \<open>The disk takes the low 28 bits for the number of the sector.\<close>

definition readsect :: "(nat \<Rightarrow> byte list) \<Rightarrow> nat \<Rightarrow> nat \<Rightarrow> boot \<Rightarrow> boot" where
  "readsect disk dst off s = s\<lparr>bt_out := bt_out s @ read_ports off, bt_mem := mem_put dst (disk (off mod 2 ^ 28)) (bt_mem s)\<rparr>"

partial_function (option) readseg_loop :: "(nat \<Rightarrow> byte list) \<Rightarrow> nat \<Rightarrow> nat \<Rightarrow> nat \<Rightarrow> boot \<Rightarrow> boot option" where
  "readseg_loop disk pa epa off s =
     (if pa < epa then readseg_loop disk (wrap32 (pa + SECTSIZE)) epa (wrap32 (off + 1)) (readsect disk pa off s) else Some s)"

definition readseg :: "(nat \<Rightarrow> byte list) \<Rightarrow> nat \<Rightarrow> nat \<Rightarrow> nat \<Rightarrow> boot \<Rightarrow> boot option" where
  "readseg disk pa count off s =
     (let epa = wrap32 (pa + count); pa = wrap32 (pa + 2 ^ 32 - off mod SECTSIZE); off = off div SECTSIZE + 1
      in readseg_loop disk pa epa off s)"

section \<open>The loader\<close>

definition mem32 :: "(nat \<Rightarrow> byte) \<Rightarrow> nat \<Rightarrow> nat" where
  "mem32 m a = le_nat (map m [a..<a + 4])"

definition SCRATCH :: nat where
  "SCRATCH = 0x10000"

text \<open>The loop that looks for the header: a magic number, flags and a checksum that add up to 0.\<close>

definition is_header :: "(nat \<Rightarrow> byte) \<Rightarrow> nat \<Rightarrow> bool" where
  "is_header m n \<longleftrightarrow> mem32 m (SCRATCH + 4 * n) = 0x1BADB002
     \<and> wrap32 (mem32 m (SCRATCH + 4 * n) + mem32 m (SCRATCH + 4 * (n + 1)) + mem32 m (SCRATCH + 4 * (n + 2))) = 0"

definition find_header :: "(nat \<Rightarrow> byte) \<Rightarrow> nat option" where
  "find_header m = find (is_header m) [0..<8192 div 4]"

text \<open>A field of the header at word \<open>n\<close>, read when it is used.\<close>

definition hdr_field :: "nat \<Rightarrow> nat \<Rightarrow> boot \<Rightarrow> nat" where
  "hdr_field n k s = mem32 (bt_mem s) (SCRATCH + 4 * n + 4 * k)"

abbreviation hdr_flags :: "nat \<Rightarrow> boot \<Rightarrow> nat" where "hdr_flags n \<equiv> hdr_field n 1"
abbreviation hdr_header_addr :: "nat \<Rightarrow> boot \<Rightarrow> nat" where "hdr_header_addr n \<equiv> hdr_field n 3"
abbreviation hdr_load_addr :: "nat \<Rightarrow> boot \<Rightarrow> nat" where "hdr_load_addr n \<equiv> hdr_field n 4"
abbreviation hdr_load_end :: "nat \<Rightarrow> boot \<Rightarrow> nat" where "hdr_load_end n \<equiv> hdr_field n 5"
abbreviation hdr_bss_end :: "nat \<Rightarrow> boot \<Rightarrow> nat" where "hdr_bss_end n \<equiv> hdr_field n 6"
abbreviation hdr_entry :: "nat \<Rightarrow> boot \<Rightarrow> nat" where "hdr_entry n \<equiv> hdr_field n 7"

datatype booted = NoKernel | Enter nat boot

definition bootmain :: "(nat \<Rightarrow> byte list) \<Rightarrow> boot \<Rightarrow> booted option" where
  "bootmain disk s =
     (case readseg disk SCRATCH 8192 0 s of
        None \<Rightarrow> None
      | Some s \<Rightarrow>
          (case find_header (bt_mem s) of
             None \<Rightarrow> Some NoKernel
           | Some n \<Rightarrow>
               if hdr_flags n s AND 0x10000 = 0 then Some NoKernel
               else if hdr_load_addr n s > hdr_header_addr n s then Some NoKernel
               else if hdr_load_end n s < hdr_load_addr n s then Some NoKernel
               else
                 (case readseg disk (hdr_load_addr n s) (hdr_load_end n s - hdr_load_addr n s)
                         (wrap32 (4 * n + 2 ^ 32 - (hdr_header_addr n s - hdr_load_addr n s))) s of
                    None \<Rightarrow> None
                  | Some s \<Rightarrow>
                      let s = (if hdr_bss_end n s > hdr_load_end n s
                               then s\<lparr>bt_mem := mem_put (hdr_load_end n s) (replicate (hdr_bss_end n s - hdr_load_end n s) 0) (bt_mem s)\<rparr>
                               else s)
                      in Some (Enter (hdr_entry n s) s))))"

section \<open>What is read\<close>

text \<open>The byte at offset \<open>i\<close> of the kernel's image, which starts at sector 1.\<close>

definition kimage :: "(nat \<Rightarrow> byte list) \<Rightarrow> nat \<Rightarrow> byte" where
  "kimage disk i = disk (i div SECTSIZE + 1) ! (i mod SECTSIZE)"

lemma readseg_loop_ok:
  assumes disk: "\<And>i. length (disk i) = SECTSIZE"
    and "pa + k * SECTSIZE < 2 ^ 32" "off + k < 2 ^ 28" "epa \<le> pa + k * SECTSIZE" "k \<noteq> 0 \<Longrightarrow> pa + (k - 1) * SECTSIZE < epa"
  shows "\<exists>t. readseg_loop disk pa epa off s = Some t
    \<and> (\<forall>x. bt_mem t x = (if pa \<le> x \<and> x < pa + k * SECTSIZE then disk (off + (x - pa) div SECTSIZE) ! ((x - pa) mod SECTSIZE) else bt_mem s x))"
  using assms(2-5)
proof (induction k arbitrary: pa off s)
  case 0
  then show ?case by (subst readseg_loop.simps) auto
next
  case (Suc k)
  let ?s = "readsect disk pa off s"
  have w: "wrap32 (pa + SECTSIZE) = pa + SECTSIZE" "wrap32 (off + 1) = off + 1" using Suc.prems(1,2) by (simp_all add: wrap32_id)
  have "pa < epa" using Suc.prems(4) by (cases k) auto
  then have step: "readseg_loop disk pa epa off s = readseg_loop disk (pa + SECTSIZE) epa (off + 1) ?s"
    using w by (subst readseg_loop.simps) simp
  have "\<exists>t. readseg_loop disk (pa + SECTSIZE) epa (off + 1) ?s = Some t
    \<and> (\<forall>x. bt_mem t x = (if pa + SECTSIZE \<le> x \<and> x < pa + SECTSIZE + k * SECTSIZE
        then disk (off + 1 + (x - (pa + SECTSIZE)) div SECTSIZE) ! ((x - (pa + SECTSIZE)) mod SECTSIZE) else bt_mem ?s x))"
  proof (rule Suc.IH)
    show "pa + SECTSIZE + (k - 1) * SECTSIZE < epa" if "k \<noteq> 0" using Suc.prems(4) that by (cases k) (simp_all add: add.assoc)
  qed (use Suc.prems(1-3) in \<open>simp_all add: add.assoc\<close>)
  then obtain t where t: "readseg_loop disk (pa + SECTSIZE) epa (off + 1) ?s = Some t"
    "\<And>x. bt_mem t x = (if pa + SECTSIZE \<le> x \<and> x < pa + SECTSIZE + k * SECTSIZE
        then disk (off + 1 + (x - (pa + SECTSIZE)) div SECTSIZE) ! ((x - (pa + SECTSIZE)) mod SECTSIZE) else bt_mem ?s x)" by blast
  have m: "off mod 268435456 = off" using Suc.prems(2) by simp
  have first: "bt_mem ?s x = (if pa \<le> x \<and> x < pa + SECTSIZE then disk off ! (x - pa) else bt_mem s x)" for x
    by (simp add: readsect_def mem_put_def disk m)
  have "bt_mem t x = (if pa \<le> x \<and> x < pa + Suc k * SECTSIZE then disk (off + (x - pa) div SECTSIZE) ! ((x - pa) mod SECTSIZE) else bt_mem s x)" for x
  proof (cases "pa + SECTSIZE \<le> x")
    case True
    then obtain d where x: "x = pa + SECTSIZE + d" using le_Suc_ex by blast
    have p: "0 < SECTSIZE" by (simp add: SECTSIZE_def)
    have "x - pa = SECTSIZE + d" using x by simp
    then have "(x - pa) div SECTSIZE = 1 + d div SECTSIZE" "(x - pa) mod SECTSIZE = d mod SECTSIZE"
      using p div_add_self1 [of SECTSIZE d] by simp_all
    then show ?thesis using t(2) [of x] first [of x] x by simp
  next
    case False
    then show ?thesis using t(2) [of x] first [of x] by simp
  qed
  then show ?case using step t(1) by auto
qed

lemma SECTSIZE_pos: "0 < SECTSIZE"
  by (simp add: SECTSIZE_def)

text \<open>The number of sectors that hold \<open>n\<close> bytes.\<close>

lemma sectors_for:
  obtains k where "n \<le> k * SECTSIZE" "k * SECTSIZE < n + SECTSIZE"
proof
  let ?k = "(n + SECTSIZE - 1) div SECTSIZE"
  show "n \<le> ?k * SECTSIZE" using dividend_less_div_times [OF SECTSIZE_pos, of "n + SECTSIZE - 1"] SECTSIZE_pos by simp
  have "?k * SECTSIZE \<le> n + SECTSIZE - 1" by (rule div_times_less_eq_dividend)
  then show "?k * SECTSIZE < n + SECTSIZE" using SECTSIZE_pos by linarith
qed

lemma readseg_ok:
  assumes disk: "\<And>i. length (disk i) = SECTSIZE" and fit: "off mod SECTSIZE \<le> pa" "pa + count + SECTSIZE < 2 ^ 32" "off < 2 ^ 32"
  shows "\<exists>t. readseg disk pa count off s = Some t \<and> (\<forall>i < count. bt_mem t (pa + i) = kimage disk (off + i))
    \<and> (\<forall>x. x < pa - off mod SECTSIZE \<or> pa + count + SECTSIZE \<le> x \<longrightarrow> bt_mem t x = bt_mem s x)"
proof -
  define r q p0 where "r = off mod SECTSIZE" and "q = off div SECTSIZE" and "p0 = pa - r"
  have r: "r < SECTSIZE" "pa = p0 + r" "off = q * SECTSIZE + r" using fit(1) SECTSIZE_pos by (simp_all add: r_def p0_def q_def)
  obtain k where k: "r + count \<le> k * SECTSIZE" "k * SECTSIZE < r + count + SECTSIZE" by (rule sectors_for)
  have kb: "k \<le> 2 ^ 24" using k(2) fit(2) r(2) by (simp add: SECTSIZE_def)
  have qb: "q < 2 ^ 23" using fit(3) by (simp add: q_def SECTSIZE_def)
  have "\<exists>t. readseg_loop disk p0 (pa + count) (q + 1) s = Some t
    \<and> (\<forall>x. bt_mem t x = (if p0 \<le> x \<and> x < p0 + k * SECTSIZE then disk (q + 1 + (x - p0) div SECTSIZE) ! ((x - p0) mod SECTSIZE) else bt_mem s x))"
  proof (rule readseg_loop_ok [OF disk])
    show "p0 + k * SECTSIZE < 2 ^ 32" using k(2) fit(2) r(2) by simp
    show "q + 1 + k < 2 ^ 28" using kb qb by simp
    show "pa + count \<le> p0 + k * SECTSIZE" using k(1) r(2) by simp
    show "p0 + (k - 1) * SECTSIZE < pa + count" if "k \<noteq> 0" using k(2) that r(2) by (cases k) auto
  qed
  then obtain t where t: "readseg_loop disk p0 (pa + count) (q + 1) s = Some t"
    "\<And>x. bt_mem t x = (if p0 \<le> x \<and> x < p0 + k * SECTSIZE then disk (q + 1 + (x - p0) div SECTSIZE) ! ((x - p0) mod SECTSIZE) else bt_mem s x)"
    by blast
  have "wrap32 (pa + 2 ^ 32 - r) = p0"
  proof -
    have "pa + 2 ^ 32 - r = p0 + 2 ^ 32" using r(2) by simp
    then show ?thesis using fit(2) r(2) by (simp add: wrap32_id)
  qed
  then have run: "readseg disk pa count off s = Some t"
    using t(1) fit(2) by (simp add: readseg_def Let_def wrap32_id flip: r_def q_def)
  have "bt_mem t (pa + i) = kimage disk (off + i)" if "i < count" for i
  proof -
    have "off + i = q * SECTSIZE + (r + i)" using r(3) by simp
    then have "(off + i) div SECTSIZE = q + (r + i) div SECTSIZE" "(off + i) mod SECTSIZE = (r + i) mod SECTSIZE"
      using SECTSIZE_pos div_mult_self3 [of SECTSIZE q "r + i"] mod_mult_self3 [of q SECTSIZE "r + i"] by (simp_all only: neq0_conv)
    moreover have "pa + i - p0 = r + i" "p0 \<le> pa + i" "pa + i < p0 + k * SECTSIZE" using r(2) k(1) that by simp_all
    ultimately show ?thesis using t(2) [of "pa + i"] by (simp add: kimage_def add.commute add.left_commute)
  qed
  moreover have "bt_mem t x = bt_mem s x" if "x < pa - off mod SECTSIZE \<or> pa + count + SECTSIZE \<le> x" for x
  proof -
    have "x < p0 \<or> pa + count + SECTSIZE \<le> x" using that by (simp add: p0_def r_def)
    then have "\<not> (p0 \<le> x \<and> x < p0 + k * SECTSIZE)" using k(2) r(2) by linarith
    then show ?thesis using t(2) [of x] by (simp only: if_False)
  qed
  ultimately show ?thesis using run by blast
qed

text \<open>The same word of the image and of memory.\<close>

definition image32 :: "(nat \<Rightarrow> byte list) \<Rightarrow> nat \<Rightarrow> nat" where
  "image32 disk i = mem32 (kimage disk) i"

lemma mem32_cong: "(\<And>i. i < 4 \<Longrightarrow> m (a + i) = m' (b + i)) \<Longrightarrow> mem32 m a = mem32 m' b"
proof -
  assume e: "\<And>i. i < 4 \<Longrightarrow> m (a + i) = m' (b + i)"
  have "map m [a..<a + 4] = map m' [b..<b + 4]" by (rule nth_equalityI) (use e in simp_all)
  then show ?thesis by (simp add: mem32_def)
qed

lemma mem_put_other: "x < a \<or> a + length bs \<le> x \<Longrightarrow> mem_put a bs m x = m x"
  by (auto simp: mem_put_def)

definition header_at :: "(nat \<Rightarrow> byte list) \<Rightarrow> nat \<Rightarrow> bool" where
  "header_at disk n \<longleftrightarrow> image32 disk (4 * n) = 0x1BADB002
     \<and> wrap32 (image32 disk (4 * n) + image32 disk (4 * (n + 1)) + image32 disk (4 * (n + 2))) = 0"

lemma find_first:
  assumes "P n" "\<And>m. m < n \<Longrightarrow> \<not> P m" "n < N"
  shows "find P [0..<N] = Some n"
  unfolding find_Some_iff using assms by (intro exI [of _ n]) auto

text \<open>
  C33. A disk with a kernel image whose first multiboot header asks for loading above the scratch space: the loader enters the kernel at its
  entry address with the image at its load address and zeros behind it up to the end of the bss.
\<close>

theorem boot_enters_kernel:
  assumes disk: "\<And>i. length (disk i) = SECTSIZE" and hdr: "header_at disk n" "n + 8 \<le> 2048" "\<And>m. m < n \<Longrightarrow> \<not> header_at disk m"
    and h: "\<And>k. h k = image32 disk (4 * n + 4 * k)"
    and ok: "h 1 AND 0x10000 \<noteq> 0" "h 4 \<le> h 3" "h 3 - h 4 \<le> 4 * n" "h 4 \<le> h 5" "SCRATCH + 8192 + SECTSIZE \<le> h 4" "h 5 + SECTSIZE < 2 ^ 32"
  shows "\<exists>t. bootmain disk s = Some (Enter (h 7) t) \<and> (\<forall>i < h 5 - h 4. bt_mem t (h 4 + i) = kimage disk (4 * n - (h 3 - h 4) + i))
    \<and> (\<forall>x. h 5 \<le> x \<and> x < h 6 \<longrightarrow> bt_mem t x = 0)"
proof -
  have "\<exists>t. readseg disk SCRATCH 8192 0 s = Some t \<and> (\<forall>i < 8192. bt_mem t (SCRATCH + i) = kimage disk (0 + i))
    \<and> (\<forall>x. x < SCRATCH - 0 mod SECTSIZE \<or> SCRATCH + 8192 + SECTSIZE \<le> x \<longrightarrow> bt_mem t x = bt_mem s x)"
    by (rule readseg_ok [OF disk]) (simp_all add: SCRATCH_def SECTSIZE_def)
  then obtain s1 where s1: "readseg disk SCRATCH 8192 0 s = Some s1" "\<And>i. i < 8192 \<Longrightarrow> bt_mem s1 (SCRATCH + i) = kimage disk i" by auto
  have w1: "mem32 (bt_mem s1) (SCRATCH + a) = image32 disk a" if "a + 4 \<le> 8192" for a
    unfolding image32_def by (rule mem32_cong) (use s1(2) that in \<open>simp add: add.assoc\<close>)
  have "is_header (bt_mem s1) m = header_at disk m" if "m + 3 \<le> 2048" for m
    using that w1 [of "4 * m"] w1 [of "4 * (m + 1)"] w1 [of "4 * (m + 2)"] by (simp add: is_header_def header_at_def)
  then have "is_header (bt_mem s1) n" "\<And>m. m < n \<Longrightarrow> \<not> is_header (bt_mem s1) m" using hdr by simp_all
  then have "find_header (bt_mem s1) = Some n" unfolding find_header_def by (rule find_first) (use hdr(2) in simp_all)
  moreover have f1: "hdr_field n k s1 = h k" if "k < 8" for k
    using w1 [of "4 * n + 4 * k"] hdr(2) that by (simp add: hdr_field_def h add.assoc)
  define off where "off = 4 * n - (h 3 - h 4)"
  have o: "wrap32 (4 * n + 2 ^ 32 - (h 3 - h 4)) = off" "off < 2 ^ 32"
  proof -
    have e: "4 * n + 2 ^ 32 - (h 3 - h 4) = off + 2 ^ 32" using ok(3) by (simp add: off_def)
    have "off \<le> 4 * n" by (simp add: off_def)
    then show l: "off < 2 ^ 32" using hdr(2) by simp
    show "wrap32 (4 * n + 2 ^ 32 - (h 3 - h 4)) = off" unfolding e using wrap32_id [OF l] by simp
  qed
  have "off mod SECTSIZE < SECTSIZE" using SECTSIZE_pos by simp
  then have lo: "off mod SECTSIZE \<le> h 4" "SCRATCH + 8192 \<le> h 4 - off mod SECTSIZE" using ok(5) by simp_all
  from readseg_ok [where disk = disk and count = "h 5 - h 4" and s = s1, OF disk lo(1) _ o(2)] ok(4,6) obtain s2 where
    s2: "readseg disk (h 4) (h 5 - h 4) off s1 = Some s2" "\<And>i. i < h 5 - h 4 \<Longrightarrow> bt_mem s2 (h 4 + i) = kimage disk (off + i)"
      "\<And>x. x < h 4 - off mod SECTSIZE \<Longrightarrow> bt_mem s2 x = bt_mem s1 x" by auto
  have f2: "hdr_field n k s2 = h k" if "k < 8" for k
  proof -
    have "hdr_field n k s2 = hdr_field n k s1"
      unfolding hdr_field_def by (rule mem32_cong, rule s2(3)) (use lo(2) hdr(2) that in simp)
    then show ?thesis using f1 [OF that] by simp
  qed
  define s3 where "s3 = (if h 6 > h 5 then s2\<lparr>bt_mem := mem_put (h 5) (replicate (h 6 - h 5) 0) (bt_mem s2)\<rparr> else s2)"
  have s3: "bt_mem s3 x = (if h 5 \<le> x \<and> x < h 6 then 0 else bt_mem s2 x)" for x
    by (auto simp: s3_def mem_put_def)
  have "hdr_field n 7 s3 = hdr_field n 7 s2"
    unfolding hdr_field_def by (rule mem32_cong) (use s3 ok(4,5) hdr(2) in simp)
  ultimately have "bootmain disk s = Some (Enter (h 7) s3)"
    using s1(1) s2(1) f1 f2 ok(1,2,4) o(1) by (cases "h 5 < h 6") (simp_all add: bootmain_def Let_def s3_def)
  moreover have "bt_mem s3 (h 4 + i) = kimage disk (4 * n - (h 3 - h 4) + i)" if "i < h 5 - h 4" for i
    using s3 [of "h 4 + i"] s2(2) [OF that] that by (auto simp: off_def)
  ultimately show ?thesis using s3 by auto
qed

text \<open>A disk with a kernel of 32 bytes, its header in front, and 16 bytes of bss.\<close>

definition demo_header :: "nat list" where
  "demo_header = [0x1BADB002, 0x10000, 0xE4514FFE, 0x100000, 0x100000, 0x100020, 0x100030, 0x10000C]"

definition demo_disk :: "nat \<Rightarrow> byte list" where
  "demo_disk i = (if i = 1 then concat (map (le_bytes 4) demo_header) @ replicate 480 0 else replicate 512 0)"

lemma concat_words: "i < length vs \<Longrightarrow> j < 4 \<Longrightarrow> concat (map (le_bytes 4) vs) ! (4 * i + j) = le_bytes 4 (vs ! i) ! j"
proof (induction vs arbitrary: i)
  case (Cons v vs)
  then show ?case by (cases i) (simp_all add: nth_append)
qed simp

lemma length_words: "length (concat (map (le_bytes 4) vs)) = 4 * length vs"
  by (induction vs) simp_all

lemma demo_words:
  assumes "k < 8"
  shows "image32 demo_disk (4 * k) = demo_header ! k"
proof -
  have l: "length demo_header = 8" by (simp add: demo_header_def)
  have "kimage demo_disk (4 * k + j) = le_bytes 4 (demo_header ! k) ! j" if "j < 4" for j
    using assms that l concat_words [of k demo_header j] by (simp add: kimage_def SECTSIZE_def demo_disk_def nth_append length_words)
  then have "map (kimage demo_disk) [4 * k..<4 * k + 4] = le_bytes 4 (demo_header ! k)" by (intro nth_equalityI) simp_all
  then have "image32 demo_disk (4 * k) = demo_header ! k mod 256 ^ 4" by (simp add: image32_def mem32_def)
  moreover have "demo_header ! k < 256 ^ 4" using assms l nth_mem [of k demo_header] by (auto simp: demo_header_def)
  ultimately show ?thesis by simp
qed

lemma demo_fields:
  "image32 demo_disk 0 = 0x1BADB002" "image32 demo_disk 4 = 0x10000" "image32 demo_disk 8 = 0xE4514FFE" "image32 demo_disk 12 = 0x100000"
  "image32 demo_disk 16 = 0x100000" "image32 demo_disk 20 = 0x100020" "image32 demo_disk 24 = 0x100030" "image32 demo_disk 28 = 0x10000C"
  using demo_words [of 0] demo_words [of 1] demo_words [of 2] demo_words [of 3] demo_words [of 4] demo_words [of 5] demo_words [of 6] demo_words [of 7]
  by (simp_all add: demo_header_def)

theorem boot_enters_kernel_witness:
  "\<exists>t. bootmain demo_disk \<lparr>bt_mem = (\<lambda>_. 255), bt_out = []\<rparr> = Some (Enter 0x10000C t) \<and> (\<forall>i < 32. bt_mem t (0x100000 + i) = kimage demo_disk i)
     \<and> (\<forall>x. 0x100020 \<le> x \<and> x < 0x100030 \<longrightarrow> bt_mem t x = 0)"
proof -
  let ?h = "\<lambda>k. image32 demo_disk (4 * 0 + 4 * k)"
  have len: "length (demo_disk i) = SECTSIZE" for i by (simp add: demo_disk_def SECTSIZE_def length_words demo_header_def)
  have hd: "header_at demo_disk 0" by (simp add: header_at_def demo_fields wrap32_def)
  have a: "(65536 :: nat) AND 65536 \<noteq> 0" by simp
  show ?thesis using boot_enters_kernel [of demo_disk 0 ?h "\<lparr>bt_mem = (\<lambda>_. 255), bt_out = []\<rparr>", OF len hd] a by (simp add: demo_fields SCRATCH_def SECTSIZE_def)
qed

end
