(* ===== verification/Mp.thy ===== *)
theory Mp
  imports Bytes
begin

text \<open>
  \<^verbatim>\<open>src/mp.c\<close>: finding the processors in the tables that the firmware leaves in memory. Memory is a function on physical addresses.
\<close>

section \<open>Searching\<close>

definition NCPU :: nat where
  "NCPU = 8"

definition MPPROC :: byte where "MPPROC = 0"
definition MPBUS :: byte where "MPBUS = 1"
definition MPIOAPIC :: byte where "MPIOAPIC = 2"
definition MPIOINTR :: byte where "MPIOINTR = 3"
definition MPLINTR :: byte where "MPLINTR = 4"

text \<open>The sum of bytes as a byte.\<close>

definition mp_sum :: "(nat \<Rightarrow> byte) \<Rightarrow> nat \<Rightarrow> nat \<Rightarrow> byte" where
  "mp_sum m a len = sum_list (map m [a..<a + len])"

definition mp16 :: "(nat \<Rightarrow> byte) \<Rightarrow> nat \<Rightarrow> nat" where
  "mp16 m a = le_nat (map m [a..<a + 2])"

definition mp32 :: "(nat \<Rightarrow> byte) \<Rightarrow> nat \<Rightarrow> nat" where
  "mp32 m a = le_nat (map m [a..<a + 4])"

definition is_mp :: "(nat \<Rightarrow> byte) \<Rightarrow> nat \<Rightarrow> bool" where
  "is_mp m p \<longleftrightarrow> map m [p..<p + 4] = [95, 77, 80, 95] \<and> mp_sum m p 16 = 0"

function mpsearch_from :: "(nat \<Rightarrow> byte) \<Rightarrow> nat \<Rightarrow> nat \<Rightarrow> nat option" where
  "mpsearch_from m p e = (if p < e then if is_mp m p then Some p else mpsearch_from m (p + 16) e else None)"
  by pat_completeness auto
termination
  by (relation "measure (\<lambda>(m, p, e). e - p)") auto

declare mpsearch_from.simps [simp del]

definition mpsearch1 :: "(nat \<Rightarrow> byte) \<Rightarrow> nat \<Rightarrow> nat \<Rightarrow> nat option" where
  "mpsearch1 m a len = mpsearch_from m a (a + len)"

text \<open>The three places: the extended BIOS data area or, if there is none, the end of base memory; then the ROM.\<close>

definition mpsearch :: "(nat \<Rightarrow> byte) \<Rightarrow> nat option" where
  "mpsearch m =
     (let ebda = mp16 m 0x40E * 16; rom = mpsearch1 m 0xF0000 0x10000 in
      case (if ebda \<noteq> 0 then mpsearch1 m ebda 1024 else mpsearch1 m (wrap32 (mp16 m 0x413 * 1024 + 2 ^ 32 - 1024)) 1024) of
        Some p \<Rightarrow> Some p
      | None \<Rightarrow> rom)"

section \<open>The configuration table\<close>

definition mpconfig :: "(nat \<Rightarrow> byte) \<Rightarrow> (nat \<times> nat) option" where
  "mpconfig m =
     (case mpsearch m of
        None \<Rightarrow> None
      | Some mp \<Rightarrow>
          let conf = mp32 m (mp + 4) in
          if conf = 0 then None
          else if map m [conf..<conf + 4] \<noteq> [80, 67, 77, 80] then None
          else if m (conf + 6) \<noteq> 1 \<and> m (conf + 6) \<noteq> 4 then None
          else if mp_sum m conf (mp16 m (conf + 4)) \<noteq> 0 then None
          else Some (mp, conf))"

record mpinfo =
  mi_lapic :: nat
  mi_cpus :: "nat list"
  mi_ioapicid :: nat
  mi_imcr :: bool

text \<open>The loop over the entries of the table.\<close>

function mp_entries :: "(nat \<Rightarrow> byte) \<Rightarrow> nat \<Rightarrow> nat \<Rightarrow> mpinfo \<Rightarrow> mpinfo res" where
  "mp_entries m p e s =
     (if p < e then
        if m p = MPPROC then
          mp_entries m (p + 20) e (if length (mi_cpus s) < NCPU then s\<lparr>mi_cpus := mi_cpus s @ [unat (m (p + 1))]\<rparr> else s)
        else if m p = MPIOAPIC then mp_entries m (p + 8) e (s\<lparr>mi_ioapicid := unat (m (p + 1))\<rparr>)
        else if m p = MPBUS \<or> m p = MPIOINTR \<or> m p = MPLINTR then mp_entries m (p + 8) e s
        else Panic ''Major problem parsing mp config.''
      else Ok s)"
  by pat_completeness auto
termination
  by (relation "measure (\<lambda>(m, p, e, s). e - p)") auto

declare mp_entries.simps [simp del]

text \<open>\<open>mi_imcr\<close> tells that the interrupt mode register is set, by writing to two ports.\<close>

definition mpinit :: "(nat \<Rightarrow> byte) \<Rightarrow> mpinfo \<Rightarrow> mpinfo res" where
  "mpinit m s =
     (case mpconfig m of
        None \<Rightarrow> Ok s
      | Some (mp, conf) \<Rightarrow>
          bind_res (mp_entries m (conf + 44) (conf + mp16 m (conf + 4)) (s\<lparr>mi_lapic := mp32 m (conf + 36)\<rparr>)) (\<lambda>s.
          Ok (if m (mp + 12) \<noteq> 0 then s\<lparr>mi_imcr := True\<rparr> else s)))"

section \<open>What is found\<close>

text \<open>The first structure on a boundary of 16 bytes that has the signature and the right sum.\<close>

lemma mpsearch_from_first:
  assumes "is_mp m (p + 16 * k)" "p + 16 * k < e" "\<And>j. j < k \<Longrightarrow> \<not> is_mp m (p + 16 * j)"
  shows "mpsearch_from m p e = Some (p + 16 * k)"
  using assms
proof (induction k arbitrary: p)
  case 0
  then show ?case by (subst mpsearch_from.simps) simp
next
  case (Suc k)
  have "mpsearch_from m (p + 16) e = Some (p + 16 + 16 * k)"
  proof (rule Suc.IH)
    show "\<not> is_mp m (p + 16 + 16 * j)" if "j < k" for j using Suc.prems(3) [of "Suc j"] that by (simp add: algebra_simps)
  qed (use Suc.prems(1,2) in \<open>simp_all add: algebra_simps\<close>)
  then show ?case using Suc.prems(2) Suc.prems(3) [of 0] by (subst mpsearch_from.simps) simp
qed

lemma mpsearch_from_none: "mpsearch_from m p e = None \<longleftrightarrow> (\<forall>k. p + 16 * k < e \<longrightarrow> \<not> is_mp m (p + 16 * k))"
proof (induction m p e rule: mpsearch_from.induct)
  case (1 m p e)
  have all: "(\<forall>k. Q k) \<longleftrightarrow> Q 0 \<and> (\<forall>k. Q (Suc k))" for Q :: "nat \<Rightarrow> bool" by (metis nat.exhaust)
  show ?case using 1 by (subst mpsearch_from.simps, subst all) (auto simp: algebra_simps)
qed

text \<open>The entries of a table and their bytes.\<close>

datatype mpentry = Proc byte "byte list" | IoApic byte "byte list" | OtherEntry byte "byte list"

fun entry_ok :: "mpentry \<Rightarrow> bool" where
  "entry_ok (Proc i bs) = (length bs = 18)"
| "entry_ok (IoApic i bs) = (length bs = 6)"
| "entry_ok (OtherEntry t bs) = (t \<in> {MPBUS, MPIOINTR, MPLINTR} \<and> length bs = 7)"

fun entry_bytes :: "mpentry \<Rightarrow> byte list" where
  "entry_bytes (Proc i bs) = MPPROC # i # bs"
| "entry_bytes (IoApic i bs) = MPIOAPIC # i # bs"
| "entry_bytes (OtherEntry t bs) = t # bs"

fun procs :: "mpentry list \<Rightarrow> nat list" where
  "procs [] = []"
| "procs (Proc i bs # es) = unat i # procs es"
| "procs (_ # es) = procs es"

fun ioapics :: "mpentry list \<Rightarrow> nat list" where
  "ioapics [] = []"
| "ioapics (IoApic i bs # es) = unat i # ioapics es"
| "ioapics (_ # es) = ioapics es"

definition holds :: "(nat \<Rightarrow> byte) \<Rightarrow> nat \<Rightarrow> byte list \<Rightarrow> bool" where
  "holds m a bs \<longleftrightarrow> map m [a..<a + length bs] = bs"

lemma holds_append: "holds m a (xs @ ys) \<longleftrightarrow> holds m a xs \<and> holds m (a + length xs) ys"
  using upt_add_eq_append [of a "a + length xs" "length ys"] by (auto simp: holds_def add.assoc)

lemma holds_Cons: "holds m a (x # xs) \<longleftrightarrow> m a = x \<and> holds m (a + 1) xs"
  using holds_append [of m a "[x]" xs] by (simp add: holds_def)

lemma mp_entries_reads:
  assumes "list_all entry_ok es" "holds m p (concat (map entry_bytes es))" "length (mi_cpus s) \<le> NCPU"
  shows "mp_entries m p (p + length (concat (map entry_bytes es))) s
    = Ok (s\<lparr>mi_cpus := take NCPU (mi_cpus s @ procs es), mi_ioapicid := last (mi_ioapicid s # ioapics es)\<rparr>)"
  using assms
proof (induction es arbitrary: p s)
  case Nil
  then show ?case by (subst mp_entries.simps) simp
next
  case (Cons x es)
  have h: "holds m p (entry_bytes x)" "holds m (p + length (entry_bytes x)) (concat (map entry_bytes es))"
    using Cons.prems(2) by (simp_all add: holds_append)
  define E where "E = p + length (concat (map entry_bytes (x # es)))"
  have IH: "mp_entries m (p + length (entry_bytes x)) E s'
      = Ok (s'\<lparr>mi_cpus := take NCPU (mi_cpus s' @ procs es), mi_ioapicid := last (mi_ioapicid s' # ioapics es)\<rparr>)"
    if "length (mi_cpus s') \<le> NCPU" for s'
    using Cons.IH [OF _ h(2) that] Cons.prems(1) by (simp add: E_def add.assoc)
  have lt: "p < E" by (cases x) (simp_all add: E_def)
  have "mp_entries m p E s = Ok (s\<lparr>mi_cpus := take NCPU (mi_cpus s @ procs (x # es)), mi_ioapicid := last (mi_ioapicid s # ioapics (x # es))\<rparr>)"
  proof (cases x)
    case (Proc i bs)
    let ?s = "if length (mi_cpus s) < NCPU then s\<lparr>mi_cpus := mi_cpus s @ [unat i]\<rparr> else s"
    have "mp_entries m p E s = mp_entries m (p + 20) E ?s"
      using Proc h(1) lt Cons.prems(1) by (subst mp_entries.simps) (simp add: holds_Cons MPPROC_def)
    moreover have "length (mi_cpus ?s) \<le> NCPU" "length bs = 18" using Cons.prems(1,3) Proc by auto
    moreover have "take NCPU (mi_cpus ?s @ procs es) = take NCPU (mi_cpus s @ unat i # procs es)"
      using Cons.prems(3) by (auto simp: Suc_diff_le take_Cons')
    ultimately show ?thesis using IH [of ?s] Proc by (cases "length (mi_cpus s) < NCPU") (simp_all add: add.commute)
  next
    case (IoApic i bs)
    have "mp_entries m p E s = mp_entries m (p + 8) E (s\<lparr>mi_ioapicid := unat i\<rparr>)"
      using IoApic h(1) lt by (subst mp_entries.simps) (simp add: holds_Cons MPPROC_def MPIOAPIC_def)
    then show ?thesis using IH [of "s\<lparr>mi_ioapicid := unat i\<rparr>"] Cons.prems(1,3) IoApic by (simp add: add.commute)
  next
    case (OtherEntry t bs)
    then have "t \<in> {MPBUS, MPIOINTR, MPLINTR}" "length bs = 7" using Cons.prems(1) by simp_all
    moreover from this have "mp_entries m p E s = mp_entries m (p + 8) E s"
      using OtherEntry h(1) lt by (subst mp_entries.simps) (auto simp: holds_Cons MPPROC_def MPIOAPIC_def MPBUS_def MPIOINTR_def MPLINTR_def)
    ultimately show ?thesis using IH [of s] Cons.prems(3) OtherEntry by (simp add: add.commute)
  qed
  then show ?case by (simp add: E_def)
qed

text \<open>
  C34. When \<^verbatim>\<open>mpconfig\<close> finds a configuration table that holds well-formed entries, \<^verbatim>\<open>mpinit\<close> records exactly the first \<^verbatim>\<open>NCPU\<close> processors of
  the table in their order, the last I/O APIC and the address of the local APIC.
\<close>

theorem mpinit_reads_table:
  assumes "mpconfig m = Some (mp, conf)" "list_all entry_ok es" "holds m (conf + 44) (concat (map entry_bytes es))"
    and "mp16 m (conf + 4) = 44 + length (concat (map entry_bytes es))" "mi_cpus s = []"
  shows "mpinit m s = Ok (s\<lparr>mi_lapic := mp32 m (conf + 36), mi_cpus := take NCPU (procs es),
     mi_ioapicid := last (mi_ioapicid s # ioapics es), mi_imcr := (mi_imcr s \<or> m (mp + 12) \<noteq> 0)\<rparr>)"
  using mp_entries_reads [OF assms(2,3), of "s\<lparr>mi_lapic := mp32 m (conf + 36)\<rparr>"] assms(1,4,5)
  by (simp add: mpinit_def add.assoc)

text \<open>A table with one processor, whose APIC number is 5.\<close>

definition demo_mp :: "byte list" where
  "demo_mp = [95, 77, 80, 95, 0, 16, 0, 0, 1, 4, 144, 0, 0, 0, 0, 0]"

definition demo_conf :: "byte list" where
  "demo_conf = [80, 67, 77, 80, 64, 0, 4, 168, 0, 0, 0, 0, 0, 0, 0, 0, 0, 0, 0, 0, 0, 0, 0, 0, 0, 0, 0, 0, 0, 0, 0, 0, 0, 0, 1, 0,
     0, 0, 224, 254, 0, 0, 0, 0, 0, 5, 0, 0, 0, 0, 0, 0, 0, 0, 0, 0, 0, 0, 0, 0, 0, 0, 0, 0]"

definition demo_firmware :: "nat \<Rightarrow> byte" where
  "demo_firmware x =
     (if 0x80000 \<le> x \<and> x < 0x80010 then demo_mp ! (x - 0x80000)
      else if 0x1000 \<le> x \<and> x < 0x1040 then demo_conf ! (x - 0x1000)
      else if x = 0x40F then 0x80 else 0)"

lemma demo_mp_map: "map demo_firmware [0x80000..<0x80000 + 16] = demo_mp"
  by (rule nth_equalityI) (simp_all add: demo_firmware_def demo_mp_def)

lemma demo_conf_map: "map demo_firmware [0x1000..<0x1000 + 64] = demo_conf"
  by (rule nth_equalityI) (simp_all add: demo_firmware_def demo_conf_def)

lemma demo_config: "mpconfig demo_firmware = Some (0x80000, 0x1000)"
proof -
  have mp: "is_mp demo_firmware 0x80000"
    using demo_mp_map by (simp add: is_mp_def mp_sum_def demo_firmware_def demo_mp_def)
  have s: "mpsearch demo_firmware = Some 0x80000"
    using mpsearch_from_first [where p = "0x80000" and k = 0 and e = "0x80000 + 1024"] mp
    by (simp add: mpsearch_def mpsearch1_def mp16_def demo_firmware_def)
  have "mp_sum demo_firmware 0x1000 64 = 0" using demo_conf_map by (simp add: mp_sum_def demo_conf_def)
  then show ?thesis by (simp add: mpconfig_def s mp32_def mp16_def demo_firmware_def demo_mp_def demo_conf_def)
qed

theorem mpinit_reads_table_witness:
  "mpinit demo_firmware \<lparr>mi_lapic = 0, mi_cpus = [], mi_ioapicid = 0, mi_imcr = False\<rparr>
   = Ok \<lparr>mi_lapic = 0xFEE00000, mi_cpus = [5], mi_ioapicid = 0, mi_imcr = False\<rparr>"
proof -
  let ?es = "[Proc 5 [0, 0, 0, 0, 0, 0, 0, 0, 0, 0, 0, 0, 0, 0, 0, 0, 0, 0]]"
  have "holds demo_firmware (0x1000 + 44) (concat (map entry_bytes ?es))"
    by (simp add: holds_def demo_firmware_def demo_conf_def MPPROC_def)
  then show ?thesis
    using mpinit_reads_table [OF demo_config, of ?es "\<lparr>mi_lapic = 0, mi_cpus = [], mi_ioapicid = 0, mi_imcr = False\<rparr>"]
    by (simp add: mp16_def mp32_def demo_firmware_def demo_conf_def demo_mp_def NCPU_def)
qed

end
