(* ===== verification/Vga.thy ===== *)
theory Vga
  imports Vga_Tables Bytes
begin

text \<open>
  \<^verbatim>\<open>src/vga.c\<close> and \<^verbatim>\<open>src/display.c\<close>: the graphics and text modes of the display. The driver works on a card that is described by its
  registers: pairs of an index and a data port, the attribute port that takes index and data in turn, the palette with its pointers that move on with each access, and
  four planes of memory that the processor sees through a window, both selected by registers.
\<close>

unbundle bit_operations_syntax

section \<open>The card\<close>

record vga =
  v_misc :: byte
  v_seqi :: byte
  v_seq :: "byte \<Rightarrow> byte"
  v_gci :: byte
  v_gc :: "byte \<Rightarrow> byte"
  v_crti :: byte
  v_crt :: "byte \<Rightarrow> byte"
  v_atti :: byte
  v_att :: "byte \<Rightarrow> byte"
  v_attff :: bool
  v_dacr :: nat
  v_dacw :: nat
  v_dac :: "nat \<Rightarrow> byte"
  v_plane :: "nat \<Rightarrow> nat \<Rightarrow> byte"

text \<open>The top bit of register 11h of the screen controller protects its registers 0 to 7. The palette has six bits for each component.\<close>

definition outb :: "nat \<Rightarrow> byte \<Rightarrow> 'z vga_scheme \<Rightarrow> 'z vga_scheme" where
  "outb p b v =
     (if p = 0x3C0 then
        if v_attff v then v\<lparr>v_att := (v_att v)(v_atti v AND 31 := b), v_attff := False\<rparr> else v\<lparr>v_atti := b, v_attff := True\<rparr>
      else if p = 0x3C2 then v\<lparr>v_misc := b\<rparr>
      else if p = 0x3C4 then v\<lparr>v_seqi := b\<rparr>
      else if p = 0x3C5 then v\<lparr>v_seq := (v_seq v)(v_seqi v := b)\<rparr>
      else if p = 0x3C7 then v\<lparr>v_dacr := 3 * unat b\<rparr>
      else if p = 0x3C8 then v\<lparr>v_dacw := 3 * unat b\<rparr>
      else if p = 0x3C9 then v\<lparr>v_dac := (v_dac v)(v_dacw v := b AND 63), v_dacw := (v_dacw v + 1) mod 768\<rparr>
      else if p = 0x3CE then v\<lparr>v_gci := b\<rparr>
      else if p = 0x3CF then v\<lparr>v_gc := (v_gc v)(v_gci v := b)\<rparr>
      else if p = 0x3D4 then v\<lparr>v_crti := b\<rparr>
      else if p = 0x3D5 then
        if v_crti v \<le> 7 \<and> bit (v_crt v 0x11) 7 then v else v\<lparr>v_crt := (v_crt v)(v_crti v := b)\<rparr>
      else v)"

text \<open>What the status port 3DAh returns is not used; reading it makes the attribute port expect an index.\<close>

definition inb :: "nat \<Rightarrow> 'z vga_scheme \<Rightarrow> byte \<times> 'z vga_scheme" where
  "inb p v =
     (if p = 0x3C9 then (v_dac v (v_dacr v), v\<lparr>v_dacr := (v_dacr v + 1) mod 768\<rparr>)
      else if p = 0x3D5 then (v_crt v (v_crti v), v)
      else if p = 0x3DA then (0, v\<lparr>v_attff := False\<rparr>)
      else (255, v))"

text \<open>The window of the processor on the memory of the card.\<close>

definition window :: "'z vga_scheme \<Rightarrow> nat \<Rightarrow> nat option" where
  "window v a =
     (let (lo, hi) = [(0xA0000, 0xC0000), (0xA0000, 0xB0000), (0xB0000, 0xB8000), (0xB8000, 0xC0000)] ! unat (drop_bit 2 (v_gc v 6) AND 3)
      in if lo \<le> a \<and> a < hi then Some (a - lo) else None)"

definition cpu_write :: "nat \<Rightarrow> byte \<Rightarrow> 'z vga_scheme \<Rightarrow> 'z vga_scheme" where
  "cpu_write a b v =
     (case window v a of
        None \<Rightarrow> v
      | Some off \<Rightarrow>
          let (sel, off) = (if bit (v_seq v 4) 3 then (\<lambda>p. p = off mod 4, off - off mod 4)
                            else if \<not> bit (v_seq v 4) 2 then (\<lambda>p. p mod 2 = off mod 2, off - off mod 2)
                            else (\<lambda>p. True, off))
          in v\<lparr>v_plane := (\<lambda>p x. if x = off \<and> p < 4 \<and> sel p \<and> bit (v_seq v 2) p then b else v_plane v p x)\<rparr>)"

definition cpu_read :: "nat \<Rightarrow> 'z vga_scheme \<Rightarrow> byte" where
  "cpu_read a v =
     (case window v a of
        None \<Rightarrow> 255
      | Some off \<Rightarrow>
          if bit (v_seq v 4) 3 then v_plane v (off mod 4) (off - off mod 4)
          else if bit (v_gc v 5) 4 then v_plane v (off mod 2) (off - off mod 2)
          else v_plane v (unat (v_gc v 4 AND 3)) off)"

section \<open>Registers\<close>

definition VGA :: nat where
  "VGA = 0x3C0"

definition write3C0 :: "byte \<Rightarrow> byte \<Rightarrow> 'z vga_scheme \<Rightarrow> 'z vga_scheme" where
  "write3C0 index value v = outb 0x3C0 value (outb 0x3C0 index (snd (inb (VGA + 0x1A) v)))"

definition write3C2 :: "byte \<Rightarrow> 'z vga_scheme \<Rightarrow> 'z vga_scheme" where
  "write3C2 value v = outb 0x3C2 value v"

definition write3C4 :: "byte \<Rightarrow> byte \<Rightarrow> 'z vga_scheme \<Rightarrow> 'z vga_scheme" where
  "write3C4 index value v = outb 0x3C5 value (outb 0x3C4 index v)"

definition write3CE :: "byte \<Rightarrow> byte \<Rightarrow> 'z vga_scheme \<Rightarrow> 'z vga_scheme" where
  "write3CE index value v = outb 0x3CF value (outb 0x3CE index v)"

definition write3D4 :: "byte \<Rightarrow> byte \<Rightarrow> 'z vga_scheme \<Rightarrow> 'z vga_scheme" where
  "write3D4 index value v = outb 0x3D5 value (outb 0x3D4 index v)"

definition write3C6 :: "byte \<Rightarrow> 'z vga_scheme \<Rightarrow> 'z vga_scheme" where
  "write3C6 value v = outb 0x3C6 value v"

text \<open>A sequence of writes to registers of one kind.\<close>

definition writes :: "(byte \<Rightarrow> byte \<Rightarrow> 'v \<Rightarrow> 'v) \<Rightarrow> (byte \<times> byte) list \<Rightarrow> 'v \<Rightarrow> 'v" where
  "writes f ixs v = fold (\<lambda>(i, x). f i x) ixs v"

section \<open>Palette\<close>

definition vgaSetPalette :: "byte \<Rightarrow> byte \<Rightarrow> byte \<Rightarrow> byte \<Rightarrow> 'z vga_scheme \<Rightarrow> 'z vga_scheme" where
  "vgaSetPalette index r g b v = outb 0x3C9 b (outb 0x3C9 g (outb 0x3C9 r (outb 0x3C8 index v)))"

text \<open>The loop that sets all entries from a table of colours.\<close>

definition set_entry :: "32 word list \<Rightarrow> nat \<Rightarrow> 'z vga_scheme \<Rightarrow> 'z vga_scheme" where
  "set_entry table index v =
     (let value = table ! index in
      vgaSetPalette (of_nat index) (ucast (drop_bit 18 value AND 0x3f)) (ucast (drop_bit 10 value AND 0x3f)) (ucast (drop_bit 2 value AND 0x3f)) v)"

definition setdefaultVGApalette :: "'z vga_scheme \<Rightarrow> 'z vga_scheme" where
  "setdefaultVGApalette v = fold (set_entry vga256_24bit) [0..<256] v"

text \<open>The variables of the driver.\<close>

record display = vga +
  cga256 :: "32 word list"
  cursor :: "32 word"
  saved :: "byte list"

definition save_entry :: "nat \<Rightarrow> 'z display_scheme \<Rightarrow> 'z display_scheme" where
  "save_entry index s =
     (let (r, s) = inb 0x3C9 s; (g, s) = inb 0x3C9 s; (b, s) = inb 0x3C9 s in
      s\<lparr>cga256 := (cga256 s)[index := push_bit 18 (ucast r) OR push_bit 10 (ucast g) OR push_bit 2 (ucast b)]\<rparr>)"

definition cgaSavePalette :: "'z display_scheme \<Rightarrow> 'z display_scheme" where
  "cgaSavePalette s = fold save_entry [0..<256] (outb 0x3C7 0 s)"

definition cgaRestorePalette :: "'z display_scheme \<Rightarrow> 'z display_scheme" where
  "cgaRestorePalette s = fold (set_entry (cga256 s)) [0..<256] s"

section \<open>Font and modes\<close>

definition pokes :: "(nat \<times> byte) list \<Rightarrow> 'z vga_scheme \<Rightarrow> 'z vga_scheme" where
  "pokes ws v = fold (\<lambda>(a, b). cpu_write a b) ws v"

text \<open>The stores of the two nested loops, \<open>i\<close> in steps of 16 and \<open>j\<close> inside it.\<close>

definition glyph_stores :: "byte list \<Rightarrow> (nat \<times> byte) list" where
  "glyph_stores font = concat (map (\<lambda>n. map (\<lambda>j. (0xa0000 + 2 * (16 * n) + j, font ! (16 * n + j))) [0..<16]) [0..<256])"

definition vgaLoadFont :: "byte list \<Rightarrow> 'z vga_scheme \<Rightarrow> 'z vga_scheme" where
  "vgaLoadFont font v =
     (let v = writes write3C4 [(0x00, 0x01), (0x02, 0x04), (0x04, 0x07), (0x00, 0x03)] v;
          v = writes write3CE [(0x04, 0x02), (0x05, 0x00), (0x06, 0x00)] v;
          v = pokes (glyph_stores font) v;
          v = writes write3C4 [(0x00, 0x01), (0x02, 0x03), (0x03, 0x00), (0x04, 0x02), (0x00, 0x03)] v
      in writes write3CE [(0x02, 0x00), (0x03, 0x00), (0x04, 0x00), (0x05, 0x10), (0x06, 0x0E)] v)"

definition vgaLoadDefaultFont :: "'z vga_scheme \<Rightarrow> 'z vga_scheme" where
  "vgaLoadDefaultFont v = vgaLoadFont g_8x16_font v"

definition vgaMode13 :: "'z display_scheme \<Rightarrow> 'z display_scheme" where
  "vgaMode13 s =
     (let s = cgaSavePalette s;
          s = write3C2 0x63 s;
          s = writes write3C4 [(0x00, 0x03), (0x01, 0x01), (0x02, 0x0F), (0x03, 0x00), (0x04, 0x0E)] s;
          s = write3D4 0x11 0x0E s;
          s = writes write3D4 [(0x00, 0x5F), (0x01, 0x4F), (0x02, 0x50), (0x03, 0x82), (0x04, 0x54), (0x05, 0x80), (0x06, 0xBF),
                (0x07, 0x1F), (0x08, 0x00), (0x09, 0x41), (0x10, 0x9C), (0x12, 0x8F), (0x13, 0x28), (0x14, 0x40), (0x15, 0x96),
                (0x16, 0xB9), (0x17, 0xA3), (0x18, 0xFF)] s;
          s = writes write3CE [(0x00, 0x00), (0x01, 0x00), (0x02, 0x00), (0x03, 0x00), (0x04, 0x00), (0x05, 0x40), (0x06, 0x05),
                (0x07, 0x0F), (0x08, 0xFF)] s;
          s = writes write3C0 [(0x00, 0x00), (0x01, 0x01), (0x02, 0x02), (0x03, 0x03), (0x04, 0x04), (0x05, 0x05), (0x06, 0x06),
                (0x07, 0x07), (0x08, 0x08), (0x09, 0x09), (0x0A, 0x0A), (0x0B, 0x0B), (0x0C, 0x0C), (0x0D, 0x0D), (0x0E, 0x0E),
                (0x0F, 0x0F), (0x10, 0x41), (0x11, 0x00), (0x12, 0x0F), (0x13, 0x00), (0x14, 0x00)] s;
          s = outb 0x3C0 0x20 (snd (inb (VGA + 0x1A) s))
      in setdefaultVGApalette s)"

definition vgaMode3 :: "'z display_scheme \<Rightarrow> 'z display_scheme" where
  "vgaMode3 s =
     (let s = write3C2 0x67 s;
          s = writes write3C4 [(0x00, 0x03), (0x01, 0x00), (0x02, 0x03), (0x03, 0x00), (0x04, 0x02)] s;
          s = write3D4 0x11 0x0E s;
          s = writes write3D4 [(0x00, 0x5F), (0x01, 0x4F), (0x02, 0x50), (0x03, 0x82), (0x04, 0x55), (0x05, 0x81), (0x06, 0xBF),
                (0x07, 0x1F), (0x08, 0x00), (0x09, 0x4F), (0x0A, 0x0D), (0x0B, 0x0E), (0x0C, 0x00), (0x0D, 0x00), (0x0E, 0x01),
                (0x0F, 0xE0), (0x10, 0x9C), (0x11, 0x8E), (0x12, 0x8F), (0x13, 0x28), (0x14, 0x1F), (0x15, 0x96), (0x16, 0xB9),
                (0x17, 0xA3), (0x18, 0xFF)] s;
          s = writes write3CE [(0x00, 0x00), (0x01, 0x00), (0x02, 0x00), (0x03, 0x00), (0x04, 0x00), (0x05, 0x10), (0x06, 0x0E),
                (0x07, 0x00), (0x08, 0xFF)] s;
          s = snd (inb (VGA + 0x1A) s);
          s = writes write3C0 [(0x00, 0x00), (0x01, 0x01), (0x02, 0x02), (0x03, 0x03), (0x04, 0x04), (0x05, 0x05), (0x06, 0x14),
                (0x07, 0x07), (0x08, 0x38), (0x09, 0x39), (0x0A, 0x3A), (0x0B, 0x3B), (0x0C, 0x3C), (0x0D, 0x3D), (0x0E, 0x3E),
                (0x0F, 0x3F), (0x10, 0x0C), (0x11, 0x00), (0x12, 0x0F), (0x13, 0x08), (0x14, 0x00)] s;
          s = vgaLoadDefaultFont s;
          s = outb 0x3C0 0x20 (snd (inb (VGA + 0x1A) s))
      in cgaRestorePalette s)"

section \<open>The display device\<close>

definition CRTPORT :: nat where
  "CRTPORT = 0x3d4"

definition conscrt :: nat where
  "conscrt = 0xb8000"

definition dispcrt :: nat where
  "dispcrt = 0xa0000"

definition peeks :: "nat \<Rightarrow> nat \<Rightarrow> 'z vga_scheme \<Rightarrow> byte list" where
  "peeks a n v = map (\<lambda>i. cpu_read (a + i) v) [0..<n]"

definition video_store :: "nat \<Rightarrow> byte list \<Rightarrow> 'z vga_scheme \<Rightarrow> 'z vga_scheme" where
  "video_store a bs v = pokes (zip [a..<a + length bs] bs) v"

text \<open>The two branches of the mode switch: back to text, and to graphics.\<close>

definition to_text :: "'z display_scheme \<Rightarrow> 'z display_scheme" where
  "to_text s =
     (let s = vgaMode3 s;
          s = outb (CRTPORT + 1) (ucast (drop_bit 8 (cursor s))) (outb CRTPORT 14 s);
          s = outb (CRTPORT + 1) (ucast (cursor s)) (outb CRTPORT 15 s)
      in video_store conscrt (saved s) s)"

definition to_graphics :: "'z display_scheme \<Rightarrow> 'z display_scheme" where
  "to_graphics s =
     (let (hi, s) = inb (CRTPORT + 1) (outb CRTPORT 14 s);
          s = s\<lparr>cursor := push_bit 8 (ucast hi)\<rparr>;
          (lo, s) = inb (CRTPORT + 1) (outb CRTPORT 15 s);
          s = s\<lparr>cursor := cursor s OR ucast lo\<rparr>;
          s = s\<lparr>saved := peeks conscrt (2 * (80 * 25)) s\<rparr>
      in vgaMode13 s)"

definition displayioctl :: "32 word \<Rightarrow> 32 word \<Rightarrow> 'z display_scheme \<Rightarrow> 32 word \<times> 'z display_scheme" where
  "displayioctl param value s =
     (value,
      if param = 1 then if value = 0x3 then to_text s else if value = 0x13 then to_graphics s else s
      else if param = 2 then
        vgaSetPalette (ucast (drop_bit 24 value AND 0xff)) (ucast (drop_bit 16 value AND 0xff)) (ucast (drop_bit 8 value AND 0xff))
          (ucast (value AND 0xff)) s
      else s)"

text \<open>A write at offset \<open>off\<close> of the file returns the number of bytes and the new offset.\<close>

definition displaywrite :: "nat \<Rightarrow> byte list \<Rightarrow> 'z vga_scheme \<Rightarrow> (nat \<times> nat) \<times> 'z vga_scheme" where
  "displaywrite off buf v = ((length buf, off + length buf), video_store (dispcrt + off) buf v)"

end
