(* ===== verification/Vga_Props.thy ===== *)
theory Vga_Props
  imports Vga
begin

text \<open>
  What the driver of the display does to the card: the state of the registers, the palette and the memory after each operation. The modes show the
  memory as a plain array of bytes in a window (locale \<open>video_window\<close>); switching to graphics and back restores the text screen.
\<close>

unbundle bit_operations_syntax

section \<open>Sequences of register writes\<close>

definition regs :: "(byte \<times> byte) list \<Rightarrow> (byte \<Rightarrow> byte) \<Rightarrow> byte \<Rightarrow> byte" where
  "regs ixs f = fold (\<lambda>(i, x) f. f(i := x)) ixs f"

definition crt_regs :: "(byte \<times> byte) list \<Rightarrow> (byte \<Rightarrow> byte) \<Rightarrow> byte \<Rightarrow> byte" where
  "crt_regs ixs f = fold (\<lambda>(i, x) f. if i \<le> 7 \<and> bit (f 0x11) 7 then f else f(i := x)) ixs f"

definition att_regs :: "(byte \<times> byte) list \<Rightarrow> (byte \<Rightarrow> byte) \<Rightarrow> byte \<Rightarrow> byte" where
  "att_regs ixs f = fold (\<lambda>(i, x) f. f(i AND 31 := x)) ixs f"

abbreviation last_index :: "byte \<Rightarrow> (byte \<times> byte) list \<Rightarrow> byte" where
  "last_index i ixs \<equiv> last (i # map fst ixs)"

lemma last_index_Cons [simp]: "last_index i (x # xs) = last_index (fst x) xs"
  by simp

lemma writes_3C4: "writes write3C4 ixs v = v\<lparr>v_seqi := last_index (v_seqi v) ixs, v_seq := regs ixs (v_seq v)\<rparr>"
  unfolding writes_def regs_def by (induction ixs arbitrary: v) (auto simp: write3C4_def outb_def)

lemma writes_3CE: "writes write3CE ixs v = v\<lparr>v_gci := last_index (v_gci v) ixs, v_gc := regs ixs (v_gc v)\<rparr>"
  unfolding writes_def regs_def by (induction ixs arbitrary: v) (auto simp: write3CE_def outb_def)

lemma writes_3D4: "writes write3D4 ixs v = v\<lparr>v_crti := last_index (v_crti v) ixs, v_crt := crt_regs ixs (v_crt v)\<rparr>"
  unfolding writes_def crt_regs_def by (induction ixs arbitrary: v) (auto simp: write3D4_def outb_def)

lemma writes_3C0:
  "writes write3C0 ixs v = v\<lparr>v_atti := last_index (v_atti v) ixs, v_att := att_regs ixs (v_att v), v_attff := (v_attff v \<and> ixs = [])\<rparr>"
  unfolding writes_def att_regs_def by (induction ixs arbitrary: v) (auto simp: write3C0_def outb_def inb_def VGA_def)

lemma write3D4_writes: "write3D4 i x v = writes write3D4 [(i, x)] v"
  by (simp add: writes_def)

lemmas register_writes = writes_3C4 writes_3CE writes_3D4 writes_3C0 write3D4_writes

section \<open>The palette\<close>

text \<open>Component \<open>c\<close> of a colour: red, green, blue.\<close>

definition component :: "nat \<Rightarrow> 32 word \<Rightarrow> byte" where
  "component c w = ucast (drop_bit (18 - 8 * c) w AND 63)"

lemma component_6 [simp]: "component c w AND 63 = component c w"
  unfolding component_def by (rule bit_eqI) (auto simp: bit_simps)

lemma set_entry_eq:
  assumes "i < 256"
  shows "set_entry t i v = v\<lparr>v_dac := (v_dac v)(3 * i := component 0 (t ! i), 3 * i + 1 := component 1 (t ! i), 3 * i + 2 := component 2 (t ! i)),
     v_dacw := (3 * i + 3) mod 768\<rparr>"
proof -
  have "unat (of_nat i :: byte) = i" using assms by (simp add: unat_of_nat take_bit_eq_mod)
  moreover have "(3 * i + 1) mod 768 = 3 * i + 1" "(3 * i + 2) mod 768 = 3 * i + 2" using assms by simp_all
  moreover have "ucast (drop_bit 18 (t ! i) AND 63) = component 0 (t ! i)" "ucast (drop_bit 10 (t ! i) AND 63) = component 1 (t ! i)"
    "ucast (drop_bit 2 (t ! i) AND 63) = component 2 (t ! i)" by (simp_all add: component_def)
  ultimately show ?thesis
    by (simp add: set_entry_def vgaSetPalette_def outb_def Let_def add.commute)
qed

lemma set_entries:
  "n \<le> 256 \<Longrightarrow> fold (set_entry t) [0..<n] v = v\<lparr>v_dac := (\<lambda>k. if k < 3 * n then component (k mod 3) (t ! (k div 3)) else v_dac v k),
     v_dacw := (if n = 0 then v_dacw v else 3 * n mod 768)\<rparr>"
proof (induction n)
  case (Suc n)
  have upd: "(\<lambda>k. if k < 3 * n then component (k mod 3) (t ! (k div 3)) else f k)
      (3 * n := component 0 (t ! n), 3 * n + 1 := component 1 (t ! n), 3 * n + 2 := component 2 (t ! n))
    = (\<lambda>k. if k < 3 * Suc n then component (k mod 3) (t ! (k div 3)) else f k)" for f :: "nat \<Rightarrow> byte"
  proof (rule ext)
    fix k
    have d: "Suc (3 * n) div 3 = n" "Suc (Suc (3 * n)) div 3 = n" "Suc (Suc (3 * n)) mod 3 = 2" by presburger+
    consider "k < 3 * n" | "k = 3 * n" | "k = 3 * n + 1" | "k = 3 * n + 2" | "3 * n + 3 \<le> k" by arith
    then show "((\<lambda>k. if k < 3 * n then component (k mod 3) (t ! (k div 3)) else f k)
      (3 * n := component 0 (t ! n), 3 * n + 1 := component 1 (t ! n), 3 * n + 2 := component 2 (t ! n))) k
      = (if k < 3 * Suc n then component (k mod 3) (t ! (k div 3)) else f k)" by cases (simp_all add: d)
  qed
  show ?case using Suc upd [of "v_dac v"] by (simp add: set_entry_eq add.commute)
qed simp

definition dac_ok :: "'z vga_scheme \<Rightarrow> bool" where
  "dac_ok v \<longleftrightarrow> (\<forall>k < 768. v_dac v k AND 63 = v_dac v k)"

definition pack :: "(nat \<Rightarrow> byte) \<Rightarrow> nat \<Rightarrow> 32 word" where
  "pack d i = push_bit 18 (ucast (d (3 * i))) OR push_bit 10 (ucast (d (3 * i + 1))) OR push_bit 2 (ucast (d (3 * i + 2)))"

lemma bit_6: "b AND 63 = b \<Longrightarrow> bit b n \<Longrightarrow> n < 6" for b :: byte
proof -
  assume "b AND 63 = b" "bit b n"
  then have "bit (b AND 63) n" by simp
  then have "bit (63 :: byte) n" by (simp add: bit_simps)
  moreover have "(63 :: byte) = mask 6" by (simp add: mask_eq_exp_minus_1)
  ultimately show "n < 6" by (simp add: bit_mask_iff)
qed

lemma component_pack:
  assumes "\<And>j. j < 3 \<Longrightarrow> d (3 * i + j) AND 63 = d (3 * i + j)" "c < 3"
  shows "component c (pack d i) = d (3 * i + c)"
proof -
  have m: "(63 :: 32 word) = mask 6" by (simp add: mask_eq_exp_minus_1)
  have b: "bit (d (3 * i)) n \<Longrightarrow> n < 6" "bit (d (Suc (3 * i))) n \<Longrightarrow> n < 6" "bit (d (Suc (Suc (3 * i)))) n \<Longrightarrow> n < 6" for n
    using bit_6 assms(1) [of 0] assms(1) [of 1] assms(1) [of 2] by (simp_all add: numeral_2_eq_2)
  consider "c = 0" | "c = 1" | "c = 2" using assms(2) by linarith
  then show ?thesis
  proof cases
    case 1
    show ?thesis unfolding 1 component_def pack_def m by (rule bit_eqI) (auto simp: bit_simps dest: b)
  next
    case 2
    show ?thesis unfolding 2 component_def pack_def m by (rule bit_eqI) (auto simp: bit_simps dest: b)
  next
    case 3
    show ?thesis unfolding 3 component_def pack_def m by (rule bit_eqI) (auto simp: bit_simps dest: b)
  qed
qed

lemma save_entries:
  assumes "v_dacr s = 0" "length (cga256 s) = 256"
  shows "n \<le> 256 \<Longrightarrow> fold save_entry [0..<n] s = s\<lparr>v_dacr := 3 * n mod 768, cga256 := map (pack (v_dac s)) [0..<n] @ drop n (cga256 s)\<rparr>"
proof (induction n)
  case (Suc n)
  have "3 * n mod 768 = 3 * n" "(3 * n + 1) mod 768 = 3 * n + 1" "(3 * n + 2) mod 768 = 3 * n + 2" using Suc.prems by simp_all
  moreover have "drop n (cga256 s) = cga256 s ! n # drop (Suc n) (cga256 s)" using Suc.prems assms(2) by (simp add: Cons_nth_drop_Suc)
  ultimately show ?case using Suc
    by (simp add: save_entry_def inb_def Let_def pack_def list_update_append)
qed (use assms in simp)

lemma cgaSavePalette_eq:
  "length (cga256 s) = 256 \<Longrightarrow> cgaSavePalette s = s\<lparr>v_dacr := 0, cga256 := map (pack (v_dac s)) [0..<256]\<rparr>"
  unfolding cgaSavePalette_def by (subst save_entries) (simp_all add: outb_def)

lemma restore_saved:
  assumes "\<And>k. k < 768 \<Longrightarrow> d k AND 63 = d k" "k < 768"
  shows "component (k mod 3) (map (pack d) [0..<256] ! (k div 3)) = d k"
proof -
  have "k div 3 < 256" using assms(2) by linarith
  then have "component (k mod 3) (map (pack d) [0..<256] ! (k div 3)) = d (3 * (k div 3) + k mod 3)"
    using component_pack [of d "k div 3" "k mod 3"] assms(1) by simp
  then show ?thesis by simp
qed

section \<open>The memory of the card\<close>

text \<open>The mode \<open>ok\<close> shows the memory of the card at the addresses from \<open>lo\<close> to \<open>hi\<close> as an array of bytes.\<close>

locale video_window =
  fixes ok :: "'z vga_scheme \<Rightarrow> bool"
    and lo :: nat
    and hi :: nat
  assumes write_ok: "ok v \<Longrightarrow> lo \<le> a \<Longrightarrow> a < hi \<Longrightarrow> ok (cpu_write a b v)"
    and read_write: "ok v \<Longrightarrow> lo \<le> a \<Longrightarrow> a < hi \<Longrightarrow> lo \<le> a' \<Longrightarrow> a' < hi \<Longrightarrow>
      cpu_read a' (cpu_write a b v) = (if a' = a then b else cpu_read a' v)"
begin

lemma pokes_ok: "ok v \<Longrightarrow> \<forall>(a, b) \<in> set ws. lo \<le> a \<and> a < hi \<Longrightarrow> ok (pokes ws v)"
  unfolding pokes_def by (induction ws arbitrary: v) (auto intro: write_ok)

lemma store_reads:
  assumes "ok v" "lo \<le> a" "a + length bs \<le> hi" "lo \<le> x" "x < hi"
  shows "cpu_read x (video_store a bs v) = (if a \<le> x \<and> x < a + length bs then bs ! (x - a) else cpu_read x v)"
  using assms(1-3)
proof (induction bs arbitrary: a v)
  case (Cons b bs)
  let ?v = "cpu_write a b v"
  have step: "video_store a (b # bs) v = video_store (Suc a) bs ?v"
    by (simp add: video_store_def pokes_def upt_conv_Cons del: upt_Suc)
  have "cpu_read x (video_store (Suc a) bs ?v) = (if Suc a \<le> x \<and> x < Suc a + length bs then bs ! (x - Suc a) else cpu_read x ?v)"
    by (rule Cons.IH) (use Cons.prems in \<open>auto intro: write_ok\<close>)
  then show ?case unfolding step using read_write [of v a x b] Cons.prems assms(4,5) by (auto simp: nth_Cons')
qed (auto simp: video_store_def pokes_def)

lemma store_ok: "ok v \<Longrightarrow> lo \<le> a \<Longrightarrow> a + length bs \<le> hi \<Longrightarrow> ok (video_store a bs v)"
  unfolding video_store_def by (rule pokes_ok) (auto dest: set_zip_leftD)

lemma store_peeks:
  assumes "ok v" "lo \<le> a" "a + length bs \<le> hi"
  shows "peeks a (length bs) (video_store a bs v) = bs"
  by (rule nth_equalityI) (use store_reads [OF assms] assms(2,3) in \<open>auto simp: peeks_def\<close>)

end

definition text_mode :: "'z vga_scheme \<Rightarrow> bool" where
  "text_mode v \<longleftrightarrow> v_seq v 2 = 3 \<and> v_seq v 4 = 2 \<and> v_gc v 5 = 0x10 \<and> v_gc v 6 = 0x0E"

definition graphics_mode :: "'z vga_scheme \<Rightarrow> bool" where
  "graphics_mode v \<longleftrightarrow> v_seq v 2 = 15 \<and> v_seq v 4 = 0x0E \<and> v_gc v 6 = 5"

lemma bit_3: "bit (3 :: byte) p \<longleftrightarrow> p < 2"
proof -
  have "(3 :: byte) = mask 2" by (simp add: mask_eq_exp_minus_1)
  then show ?thesis by (simp only: bit_mask_iff) auto
qed

lemma bit_15: "bit (15 :: byte) p \<longleftrightarrow> p < 4"
proof -
  have "(15 :: byte) = mask 4" by (simp add: mask_eq_exp_minus_1)
  then show ?thesis by (simp only: bit_mask_iff) auto
qed

lemma text_window: "text_mode v \<Longrightarrow> window v a = (if 0xB8000 \<le> a \<and> a < 0xC0000 then Some (a - 0xB8000) else None)"
  by (simp add: window_def text_mode_def)

lemma graphics_window: "graphics_mode v \<Longrightarrow> window v a = (if 0xA0000 \<le> a \<and> a < 0xB0000 then Some (a - 0xA0000) else None)"
  by (simp add: window_def graphics_mode_def)

lemma cpu_write_regs [simp]:
  "v_seq (cpu_write a b v) = v_seq v" "v_gc (cpu_write a b v) = v_gc v" "v_crt (cpu_write a b v) = v_crt v" "v_dac (cpu_write a b v) = v_dac v"
  "window (cpu_write a b v) x = window v x"
  by (simp_all add: cpu_write_def window_def Let_def split: option.splits prod.splits)

lemma cells_eq: "x - x mod k = y - y mod k \<and> x mod k = y mod k \<longleftrightarrow> x = y" for x y k :: nat
  by (metis add_diff_cancel_right' div_mult_mod_eq minus_mod_eq_mult_div mod_mult_div_eq mult.commute)

text \<open>In both modes neighbouring bytes are in different planes: two planes for a character and its attribute, four for pixels.\<close>

lemma text_access:
  assumes "text_mode v" "0xB8000 \<le> a" "a < 0xC0000"
  shows "cpu_write a b v = v\<lparr>v_plane := (\<lambda>p x. if x = (a - 0xB8000) - (a - 0xB8000) mod 2 \<and> p = (a - 0xB8000) mod 2 then b else v_plane v p x)\<rparr>"
    and "cpu_read a v = v_plane v ((a - 0xB8000) mod 2) ((a - 0xB8000) - (a - 0xB8000) mod 2)"
proof -
  have sel: "p < 4 \<and> p mod 2 = (a - 0xB8000) mod 2 \<and> bit (3 :: byte) p \<longleftrightarrow> p = (a - 0xB8000) mod 2" for p
    unfolding bit_3 by auto
  have m: "v_seq v 4 = 2" "v_seq v 2 = 3" "v_gc v 5 = 16" using assms(1) by (simp_all add: text_mode_def)
  have w: "window v a = Some (a - 0xB8000)" using assms by (simp add: text_window)
  show "cpu_write a b v = v\<lparr>v_plane := (\<lambda>p x. if x = (a - 0xB8000) - (a - 0xB8000) mod 2 \<and> p = (a - 0xB8000) mod 2 then b else v_plane v p x)\<rparr>"
    unfolding cpu_write_def w m option.case using sel by (simp only: Let_def) simp
  show "cpu_read a v = v_plane v ((a - 0xB8000) mod 2) ((a - 0xB8000) - (a - 0xB8000) mod 2)"
    unfolding cpu_read_def w m option.case by simp
qed

lemma graphics_access:
  assumes "graphics_mode v" "0xA0000 \<le> a" "a < 0xB0000"
  shows "cpu_write a b v = v\<lparr>v_plane := (\<lambda>p x. if x = (a - 0xA0000) - (a - 0xA0000) mod 4 \<and> p = (a - 0xA0000) mod 4 then b else v_plane v p x)\<rparr>"
    and "cpu_read a v = v_plane v ((a - 0xA0000) mod 4) ((a - 0xA0000) - (a - 0xA0000) mod 4)"
proof -
  have sel: "p < 4 \<and> p = (a - 0xA0000) mod 4 \<and> bit (15 :: byte) p \<longleftrightarrow> p = (a - 0xA0000) mod 4" for p
    unfolding bit_15 by auto
  have m: "v_seq v 4 = 14" "v_seq v 2 = 15" using assms(1) by (simp_all add: graphics_mode_def)
  have w: "window v a = Some (a - 0xA0000)" using assms by (simp add: graphics_window)
  show "cpu_write a b v = v\<lparr>v_plane := (\<lambda>p x. if x = (a - 0xA0000) - (a - 0xA0000) mod 4 \<and> p = (a - 0xA0000) mod 4 then b else v_plane v p x)\<rparr>"
    unfolding cpu_write_def w m option.case using sel by (simp only: Let_def) simp
  show "cpu_read a v = v_plane v ((a - 0xA0000) mod 4) ((a - 0xA0000) - (a - 0xA0000) mod 4)"
    unfolding cpu_read_def w m option.case by simp
qed

interpretation tx: video_window text_mode "0xB8000" "0xC0000"
proof
  fix v :: "'z vga_scheme" and a a' :: nat and b :: byte
  assume a: "text_mode v" "0xB8000 \<le> a" "a < 0xC0000"
  show t: "text_mode (cpu_write a b v)" using a(1) by (simp add: text_mode_def)
  assume a': "0xB8000 \<le> a'" "a' < 0xC0000"
  have e: "a' - 0xB8000 = a - 0xB8000 \<longleftrightarrow> a' = a" using a(2) a'(1) by linarith
  show "cpu_read a' (cpu_write a b v) = (if a' = a then b else cpu_read a' v)"
    using e cells_eq [of "a' - 0xB8000" 2 "a - 0xB8000"]
    by (simp only: text_access(2) [OF t a'] text_access(2) [OF a(1) a']) (simp add: text_access(1) [OF a])
qed

interpretation gx: video_window graphics_mode "0xA0000" "0xB0000"
proof
  fix v :: "'z vga_scheme" and a a' :: nat and b :: byte
  assume a: "graphics_mode v" "0xA0000 \<le> a" "a < 0xB0000"
  show t: "graphics_mode (cpu_write a b v)" using a(1) by (simp add: graphics_mode_def)
  assume a': "0xA0000 \<le> a'" "a' < 0xB0000"
  have e: "a' - 0xA0000 = a - 0xA0000 \<longleftrightarrow> a' = a" using a(2) a'(1) by linarith
  show "cpu_read a' (cpu_write a b v) = (if a' = a then b else cpu_read a' v)"
    using e cells_eq [of "a' - 0xA0000" 4 "a - 0xA0000"]
    by (simp only: graphics_access(2) [OF t a'] graphics_access(2) [OF a(1) a']) (simp add: graphics_access(1) [OF a])
qed

section \<open>The font\<close>

text \<open>While a font is loaded, the processor writes to the second plane only.\<close>

definition font_mode :: "'z vga_scheme \<Rightarrow> bool" where
  "font_mode v \<longleftrightarrow> v_seq v 2 = 4 \<and> v_seq v 4 = 7 \<and> v_gc v 6 = 0"

lemma bit_4: "bit (4 :: byte) p \<longleftrightarrow> p = 2"
proof -
  have "(4 :: byte) = 2 ^ 2" by simp
  then show ?thesis by (simp only: bit_exp_iff) auto
qed

lemma font_write:
  assumes "font_mode v" "0xA0000 \<le> a" "a < 0xC0000"
  shows "cpu_write a b v = v\<lparr>v_plane := (v_plane v)(2 := (v_plane v 2)(a - 0xA0000 := b))\<rparr>"
proof -
  have m: "v_seq v 4 = 7" "v_seq v 2 = 4" using assms(1) by (simp_all add: font_mode_def)
  have w: "window v a = Some (a - 0xA0000)" using assms by (simp add: window_def font_mode_def)
  have sel: "p < 4 \<and> bit (4 :: byte) p \<longleftrightarrow> p = 2" for p unfolding bit_4 by auto
  have "(\<lambda>p x. if x = a - 0xA0000 \<and> p = 2 then b else v_plane v p x) = (v_plane v)(2 := (v_plane v 2)(a - 0xA0000 := b))"
    by (auto simp: fun_eq_iff)
  moreover have "cpu_write a b v = v\<lparr>v_plane := (\<lambda>p x. if x = a - 0xA0000 \<and> p = 2 then b else v_plane v p x)\<rparr>"
    unfolding cpu_write_def w m option.case using sel by (simp only: Let_def) simp
  ultimately show ?thesis by simp
qed

lemma font_writes:
  assumes "font_mode v" "\<forall>(a, b) \<in> set ws. 0xA0000 \<le> a \<and> a < 0xC0000"
  shows "pokes ws v = v\<lparr>v_plane := (v_plane v)(2 := fold (\<lambda>(a, b) m. m(a - 0xA0000 := b)) ws (v_plane v 2))\<rparr>"
  using assms unfolding pokes_def
proof (induction ws arbitrary: v)
  case (Cons w ws)
  obtain a b where w: "w = (a, b)" by (cases w)
  have c: "cpu_write a b v = v\<lparr>v_plane := (v_plane v)(2 := (v_plane v 2)(a - 0xA0000 := b))\<rparr>"
    by (rule font_write) (use Cons.prems in \<open>auto simp: w\<close>)
  have v: "font_mode (cpu_write a b v)" using Cons.prems(1) by (simp add: font_mode_def)
  show ?case using Cons.IH [OF v, unfolded c] Cons.prems(2) by (simp add: w c cong: if_cong)
qed simp

lemma fold_upd: "fold (\<lambda>(a, b) m. m(f a := b)) ws m x = (case map_of (rev (map (\<lambda>(a, b). (f a, b)) ws)) x of Some b \<Rightarrow> b | None \<Rightarrow> m x)"
  by (induction ws arbitrary: m) (auto simp: map_add_def split: option.splits)

text \<open>The rows of the glyph of character \<open>n\<close> are the bytes \<open>32 n\<close> to \<open>32 n + 15\<close> of the plane.\<close>

definition font_plane :: "byte list \<Rightarrow> (nat \<Rightarrow> byte) \<Rightarrow> nat \<Rightarrow> byte" where
  "font_plane font m x = (if x < 8192 \<and> x mod 32 < 16 then font ! (16 * (x div 32) + x mod 32) else m x)"

lemma set_glyph_stores:
  "(a, b) \<in> set (glyph_stores font) \<longleftrightarrow> (\<exists>n j. n < 256 \<and> j < 16 \<and> a = 0xa0000 + 32 * n + j \<and> b = font ! (16 * n + j))"
  unfolding glyph_stores_def by fastforce

lemma glyph_stores_map:
  "map_of (rev (map (\<lambda>(a, b). (a - 0xa0000, b)) (glyph_stores font))) x
   = (if x < 8192 \<and> x mod 32 < 16 then Some (font ! (16 * (x div 32) + x mod 32)) else None)"
proof (cases "x < 8192 \<and> x mod 32 < 16")
  case True
  let ?l = "rev (map (\<lambda>(a, b). (a - 0xa0000, b)) (glyph_stores font))"
  have val: "b = font ! (16 * (x div 32) + x mod 32)" if "(x, b) \<in> set ?l" for b
    using that by (auto simp: set_glyph_stores)
  have "(0xa0000 + 32 * (x div 32) + x mod 32, font ! (16 * (x div 32) + x mod 32)) \<in> set (glyph_stores font)"
    unfolding set_glyph_stores using True by (intro exI [of _ "x div 32"] exI [of _ "x mod 32"]) auto
  then have "x \<in> fst ` set ?l" by (force simp: image_iff)
  then obtain b where "map_of ?l x = Some b" by (metis domD dom_map_of_conv_image_fst)
  then show ?thesis using val [OF map_of_SomeD] True by simp
next
  case False
  then have "x \<notin> fst ` set (rev (map (\<lambda>(a, b). (a - 0xa0000, b)) (glyph_stores font)))"
    by (auto simp: set_glyph_stores)
  then have "map_of (rev (map (\<lambda>(a, b). (a - 0xa0000, b)) (glyph_stores font))) x = None" by (simp only: map_of_eq_None_iff not_False_eq_True)
  then show ?thesis using False by argo
qed

lemma load_glyphs:
  assumes "font_mode v"
  shows "pokes (glyph_stores font) v = v\<lparr>v_plane := (v_plane v)(2 := font_plane font (v_plane v 2))\<rparr>"
proof -
  have "pokes (glyph_stores font) v
    = v\<lparr>v_plane := (v_plane v)(2 := fold (\<lambda>(a, b) m. m(a - 0xA0000 := b)) (glyph_stores font) (v_plane v 2))\<rparr>"
    by (rule font_writes [OF assms]) (auto simp: set_glyph_stores)
  then show ?thesis by (simp only: fold_upd [abs_def] glyph_stores_map) (simp add: font_plane_def [abs_def] if_distrib cong: if_cong)
qed

lemma vgaLoadFont_eq:
  "vgaLoadFont font v = v\<lparr>v_seqi := 0, v_seq := (v_seq v)(0 := 3, 2 := 3, 3 := 0, 4 := 2),
     v_gci := 6, v_gc := (v_gc v)(2 := 0, 3 := 0, 4 := 0, 5 := 0x10, 6 := 0x0E),
     v_plane := (v_plane v)(2 := font_plane font (v_plane v 2))\<rparr>"
proof -
  let ?v = "writes write3CE [(4, 2), (5, 0), (6, 0)] (writes write3C4 [(0, 1), (2, 4), (4, 7), (0, 3)] v)"
  have "font_mode ?v" by (simp add: font_mode_def register_writes regs_def)
  from load_glyphs [OF this] show ?thesis
    by (simp add: vgaLoadFont_def Let_def) (auto simp: register_writes regs_def fun_eq_iff intro!: vga.fold_congs)
qed

section \<open>The modes\<close>

lemma set_palette:
  "fold (set_entry t) [0..<256] v = v\<lparr>v_dac := (\<lambda>k. if k < 768 then component (k mod 3) (t ! (k div 3)) else v_dac v k), v_dacw := 0\<rparr>"
  by (simp add: set_entries)

lemma inb_status: "inb (VGA + 0x1A) v = (0, v\<lparr>v_attff := False\<rparr>)"
  by (simp add: inb_def VGA_def)

lemma outb_attribute: "\<not> v_attff v \<Longrightarrow> outb 0x3C0 b v = v\<lparr>v_atti := b, v_attff := True\<rparr>"
  by (simp add: outb_def)

lemma write3C2_eq: "write3C2 b v = v\<lparr>v_misc := b\<rparr>"
  by (simp add: write3C2_def outb_def)

lemmas mode_steps = set_palette inb_status outb_attribute write3C2_eq writes_3C4 writes_3CE writes_3D4 writes_3C0 write3D4_writes vgaLoadFont_eq

lemma vgaMode13_fields:
  assumes "length (cga256 s) = 256"
  shows "graphics_mode (vgaMode13 s)" "cga256 (vgaMode13 s) = map (pack (v_dac s)) [0..<256]" "cursor (vgaMode13 s) = cursor s"
    "saved (vgaMode13 s) = saved s" "v_plane (vgaMode13 s) = v_plane s"
    "k < 768 \<Longrightarrow> v_dac (vgaMode13 s) k = component (k mod 3) (vga256_24bit ! (k div 3))"
  unfolding vgaMode13_def Let_def setdefaultVGApalette_def cgaSavePalette_eq [OF assms] graphics_mode_def
  by (simp_all add: mode_steps del: upt_Suc) (simp_all add: regs_def)

lemma vgaMode3_fields:
  shows "text_mode (vgaMode3 s)" "cursor (vgaMode3 s) = cursor s" "saved (vgaMode3 s) = saved s" "cga256 (vgaMode3 s) = cga256 s"
    "v_plane (vgaMode3 s) = (v_plane s)(2 := font_plane g_8x16_font (v_plane s 2))"
    "k < 768 \<Longrightarrow> v_dac (vgaMode3 s) k = component (k mod 3) (cga256 s ! (k div 3))"
  unfolding vgaMode3_def Let_def vgaLoadDefaultFont_def cgaRestorePalette_def text_mode_def
  by (simp_all add: mode_steps del: upt_Suc)

section \<open>Switching modes\<close>

lemma pokes_regs [simp]:
  "v_seq (pokes ws v) = v_seq v" "v_gc (pokes ws v) = v_gc v" "v_crt (pokes ws v) = v_crt v" "v_dac (pokes ws v) = v_dac v"
  unfolding pokes_def by (induction ws arbitrary: v) auto

lemma video_store_regs [simp]:
  "v_crt (video_store a bs v) = v_crt v" "v_dac (video_store a bs v) = v_dac v"
  by (simp_all add: video_store_def)

text \<open>Text does not reach the plane of the font.\<close>

lemma text_keeps_font:
  "text_mode v \<Longrightarrow> 0xB8000 \<le> a \<Longrightarrow> a + length bs \<le> 0xC0000 \<Longrightarrow> v_plane (video_store a bs v) 2 = v_plane v 2"
proof (induction bs arbitrary: a v)
  case (Cons b bs)
  have step: "video_store a (b # bs) v = video_store (Suc a) bs (cpu_write a b v)"
    by (simp add: video_store_def pokes_def upt_conv_Cons del: upt_Suc)
  have t: "text_mode (cpu_write a b v)" by (rule tx.write_ok) (use Cons.prems in auto)
  have "(a - 0xB8000) mod 2 \<noteq> 2" using mod_less_divisor [of 2 "a - 0xB8000"] by linarith
  then have "v_plane (cpu_write a b v) 2 = v_plane v 2" using Cons.prems by (simp add: text_access(1) fun_eq_iff)
  then show ?case unfolding step using Cons.IH [OF t, of "Suc a"] Cons.prems by simp
qed (simp add: video_store_def pokes_def)

lemma cursor_bytes:
  "ucast (drop_bit 8 (push_bit 8 (ucast hi) OR ucast lo :: 32 word)) = hi" "ucast (push_bit 8 (ucast hi) OR ucast lo :: 32 word) = lo"
  for hi lo :: byte
  by (rule bit_eqI, auto simp: bit_simps dest: bit_imp_le_length)+

lemma peeks_cong: "v_seq v = v_seq w \<Longrightarrow> v_gc v = v_gc w \<Longrightarrow> v_plane v = v_plane w \<Longrightarrow> peeks a n v = peeks a n w"
  unfolding peeks_def cpu_read_def window_def by (simp only:)

lemma to_graphics_fields:
  assumes "length (cga256 s) = 256"
  shows "graphics_mode (to_graphics s)" "cga256 (to_graphics s) = map (pack (v_dac s)) [0..<256]"
    "cursor (to_graphics s) = push_bit 8 (ucast (v_crt s 14)) OR ucast (v_crt s 15)" "saved (to_graphics s) = peeks conscrt 4000 s"
proof -
  let ?s = "s\<lparr>v_crti := 15, cursor := push_bit 8 (ucast (v_crt s 14)) OR ucast (v_crt s 15), saved := peeks conscrt 4000 s\<rparr>"
  have p: "peeks conscrt 4000 (s\<lparr>v_crti := i, cursor := x\<rparr>) = peeks conscrt 4000 s" for i x by (rule peeks_cong) simp_all
  have "to_graphics s = vgaMode13 ?s"
    by (simp add: to_graphics_def CRTPORT_def outb_def inb_def Let_def p)
  then show "graphics_mode (to_graphics s)" "cga256 (to_graphics s) = map (pack (v_dac s)) [0..<256]"
    "cursor (to_graphics s) = push_bit 8 (ucast (v_crt s 14)) OR ucast (v_crt s 15)" "saved (to_graphics s) = peeks conscrt 4000 s"
    using vgaMode13_fields [of ?s] assms by simp_all
qed

lemma to_text_fields:
  assumes "length (saved s) = 4000"
  shows "text_mode (to_text s)" "peeks conscrt 4000 (to_text s) = saved s"
    "v_crt (to_text s) 14 = ucast (drop_bit 8 (cursor s))" "v_crt (to_text s) 15 = ucast (cursor s)"
    "k < 768 \<Longrightarrow> v_dac (to_text s) k = component (k mod 3) (cga256 s ! (k div 3))"
    "v_plane (to_text s) 2 = font_plane g_8x16_font (v_plane s 2)"
proof -
  let ?v = "(vgaMode3 s)\<lparr>v_crti := 15, v_crt := (v_crt (vgaMode3 s))(14 := ucast (drop_bit 8 (cursor s)), 15 := ucast (cursor s))\<rparr>"
  note f = vgaMode3_fields [where s = s]
  have eq: "to_text s = video_store conscrt (saved s) ?v"
    by (simp add: to_text_def CRTPORT_def outb_def Let_def f(2,3) word_le_nat_alt)
  have t: "text_mode ?v" using f(1) by (simp add: text_mode_def)
  show "text_mode (to_text s)" "peeks conscrt 4000 (to_text s) = saved s"
    using tx.store_ok [OF t, of conscrt "saved s"] tx.store_peeks [OF t, of conscrt "saved s"] assms by (simp_all add: eq conscrt_def)
  show "v_crt (to_text s) 14 = ucast (drop_bit 8 (cursor s))" "v_crt (to_text s) 15 = ucast (cursor s)"
    "k < 768 \<Longrightarrow> v_dac (to_text s) k = component (k mod 3) (cga256 s ! (k div 3))"
    by (simp_all add: eq f(6))
  show "v_plane (to_text s) 2 = font_plane g_8x16_font (v_plane s 2)"
    using text_keeps_font [OF t, of conscrt "saved s"] assms by (simp add: eq conscrt_def f(5))
qed

text \<open>
  C35. A program that switches the display to graphics and later back to text, whatever it and others do to the card in between, leaves the
  screen as it was: the characters and their attributes, the position of the cursor, and every entry of the palette. The font is then the default font, with
  the glyph of character \<open>n\<close> at byte \<open>32 n\<close> of the font plane.
\<close>

theorem display_restores_console:
  assumes "text_mode s" "dac_ok s" "length (cga256 s) = 256" "displayioctl 1 0x13 s = (r, s1)"
    and "cga256 s2 = cga256 s1" "cursor s2 = cursor s1" "saved s2 = saved s1" "displayioctl 1 3 s2 = (r', s3)"
  shows "graphics_mode s1 \<and> text_mode s3 \<and> peeks conscrt 4000 s3 = peeks conscrt 4000 s
     \<and> v_crt s3 14 = v_crt s 14 \<and> v_crt s3 15 = v_crt s 15 \<and> (\<forall>k < 768. v_dac s3 k = v_dac s k)
     \<and> (\<forall>n < 256. \<forall>j < 16. v_plane s3 2 (32 * n + j) = g_8x16_font ! (16 * n + j))"
proof -
  have s1: "s1 = to_graphics s" and s3: "s3 = to_text s2" using assms(4,8) by (auto simp: displayioctl_def)
  note g = to_graphics_fields [OF assms(3), folded s1]
  have len: "length (saved s2) = 4000" using assms(7) g(4) by (simp add: peeks_def)
  note t = to_text_fields [OF len, folded s3]
  have "v_dac s3 k = v_dac s k" if "k < 768" for k
    using t(5) [OF that] assms(5) g(2) restore_saved [of "v_dac s" k] that assms(2) by (simp add: dac_ok_def)
  moreover have "v_plane s3 2 (32 * n + j) = g_8x16_font ! (16 * n + j)" if "n < 256" "j < 16" for n j
    using that by (simp add: t(6) font_plane_def)
  moreover have "v_crt s3 14 = v_crt s 14" "v_crt s3 15 = v_crt s 15" unfolding t(3,4) assms(6) g(3) by (rule cursor_bytes)+
  ultimately show ?thesis using g(1,4) t(1,2) assms(7) by simp
qed

definition demo_display :: display where
  "demo_display = \<lparr>v_misc = 0x67, v_seqi = 0, v_seq = (\<lambda>_. 0)(2 := 3, 4 := 2), v_gci = 0, v_gc = (\<lambda>_. 0)(5 := 0x10, 6 := 0x0E),
     v_crti = 0, v_crt = (\<lambda>i. i), v_atti = 0, v_att = (\<lambda>_. 0), v_attff = True, v_dacr = 3, v_dacw = 5, v_dac = (\<lambda>k. of_nat k AND 63),
     v_plane = (\<lambda>p x. of_nat (p + x)), cga256 = replicate 256 0, cursor = 0, saved = []\<rparr>"

theorem display_restores_console_witness:
  "let s1 = snd (displayioctl 1 0x13 demo_display);
       s3 = snd (displayioctl 1 3 (s1\<lparr>v_plane := (\<lambda>_ _. 255), v_dac := (\<lambda>_. 9), v_attff := True, v_seq := (\<lambda>_. 3)\<rparr>))
   in peeks conscrt 4000 s3 = peeks conscrt 4000 demo_display \<and> v_crt s3 15 = 15 \<and> v_dac s3 100 = 36 \<and> v_plane s3 2 (32 * 65 + 5) = g_8x16_font ! 1045"
proof -
  let ?s1 = "snd (displayioctl 1 0x13 demo_display)"
  let ?s2 = "?s1\<lparr>v_plane := (\<lambda>_ _. 255), v_dac := (\<lambda>_. 9), v_attff := True, v_seq := (\<lambda>_. 3)\<rparr>"
  let ?s3 = "snd (displayioctl 1 3 ?s2)"
  have "text_mode demo_display" "dac_ok demo_display" "length (cga256 demo_display) = 256"
    by (simp_all add: demo_display_def text_mode_def dac_ok_def and.assoc)
  note d = display_restores_console [OF this, where ?r = "0x13" and ?s1.0 = ?s1 and ?s2.0 = ?s2 and ?r' = 3 and ?s3.0 = ?s3]
  have p: "peeks conscrt 4000 ?s3 = peeks conscrt 4000 demo_display" "v_crt ?s3 15 = v_crt demo_display 15"
    "\<forall>k < 768. v_dac ?s3 k = v_dac demo_display k" "\<forall>n < 256. \<forall>j < 16. v_plane ?s3 2 (32 * n + j) = g_8x16_font ! (16 * n + j)"
    using d by (simp_all add: displayioctl_def)
  have "v_dac demo_display 100 = 36" "v_crt demo_display 15 = 15" by (simp_all add: demo_display_def)
  then show ?thesis unfolding Let_def using p(1,2) p(3) [rule_format, of 100] p(4) [rule_format, of 65 5] by simp
qed

text \<open>In graphics mode, what is written at an offset of the device's file appears on the screen there, as long as it is inside the window.\<close>

lemma displaywrite_draws:
  assumes "graphics_mode v" "off + length buf \<le> 0x10000" "displaywrite off buf v = ((n, off'), v')"
  shows "n = length buf \<and> off' = off + length buf \<and> graphics_mode v' \<and> peeks (dispcrt + off) n v' = buf"
  using assms gx.store_peeks [OF assms(1), of "dispcrt + off" buf] gx.store_ok [OF assms(1), of "dispcrt + off" buf]
  by (auto simp: displaywrite_def dispcrt_def)

end
