(* ===== verification/Cmos.thy ===== *)
theory Cmos
  imports Bytes
begin

text \<open>
  The clock of \<^verbatim>\<open>src/lapic.c\<close>: \<^verbatim>\<open>cmostime\<close> reads a date from registers that may change while they are read. The chip is a parameter, what each register
  contains at the time of each read, where time counts reads. The theorem shows that the loop ends and that the date is one that the clock had, although the registers
  are undefined during an update.
\<close>

unbundle bit_operations_syntax

section \<open>Reading the clock\<close>

record rtcdate =
  second :: "32 word"
  minute :: "32 word"
  hour :: "32 word"
  day :: "32 word"
  month :: "32 word"
  year :: "32 word"

type_synonym rtc = "nat \<Rightarrow> byte \<Rightarrow> byte"

definition CMOS_STATA :: byte where "CMOS_STATA = 0x0a"
definition CMOS_STATB :: byte where "CMOS_STATB = 0x0b"
definition CMOS_UIP :: "32 word" where "CMOS_UIP = push_bit 7 1"
definition SECS :: byte where "SECS = 0x00"
definition MINS :: byte where "MINS = 0x02"
definition HOURS :: byte where "HOURS = 0x04"
definition DAY :: byte where "DAY = 0x07"
definition MONTH :: byte where "MONTH = 0x08"
definition YEAR :: byte where "YEAR = 0x09"

definition cmos_read :: "rtc \<Rightarrow> byte \<Rightarrow> nat \<Rightarrow> 32 word \<times> nat" where
  "cmos_read c reg t = (ucast (c t reg), Suc t)"

definition fill_rtcdate :: "rtc \<Rightarrow> nat \<Rightarrow> rtcdate \<times> nat" where
  "fill_rtcdate c t =
     (let (se, t) = cmos_read c SECS t; (mi, t) = cmos_read c MINS t; (ho, t) = cmos_read c HOURS t;
          (da, t) = cmos_read c DAY t; (mo, t) = cmos_read c MONTH t; (ye, t) = cmos_read c YEAR t
      in (\<lparr>second = se, minute = mi, hour = ho, day = da, month = mo, year = ye\<rparr>, t))"

text \<open>The loop that reads until two readings agree and no update is under way between them.\<close>

partial_function (option) cmos_loop :: "rtc \<Rightarrow> nat \<Rightarrow> (rtcdate \<times> nat) option" where
  "cmos_loop c t =
     (let (t1, t) = fill_rtcdate c t; (sa, t) = cmos_read c CMOS_STATA t in
      if sa AND CMOS_UIP \<noteq> 0 then cmos_loop c t
      else let (t2, t) = fill_rtcdate c t in if t1 = t2 then Some (t1, t) else cmos_loop c t)"

definition CONV :: "32 word \<Rightarrow> 32 word" where
  "CONV x = drop_bit 4 x * 10 + (x AND 0xf)"

definition convert :: "rtcdate \<Rightarrow> rtcdate" where
  "convert d = \<lparr>second = CONV (second d), minute = CONV (minute d), hour = CONV (hour d), day = CONV (day d), month = CONV (month d), year = CONV (year d)\<rparr>"

definition cmostime :: "rtc \<Rightarrow> nat \<Rightarrow> (rtcdate \<times> nat) option" where
  "cmostime c t =
     (let (sb, t) = cmos_read c CMOS_STATB t; bcd = (sb AND push_bit 2 1 = 0) in
      case cmos_loop c t of
        None \<Rightarrow> None
      | Some (t1, t) \<Rightarrow> let t1 = (if bcd then convert t1 else t1) in Some (t1\<lparr>year := year t1 + 2000\<rparr>, t))"

section \<open>A clock\<close>

text \<open>Numbers below 100 in binary or, if \<open>b\<close>, as two decimal digits.\<close>

definition enc :: "bool \<Rightarrow> 32 word \<Rightarrow> byte" where
  "enc b w = (if b then of_nat (16 * (unat w div 10) + unat w mod 10) else ucast w)"

definition date_ok :: "rtcdate \<Rightarrow> bool" where
  "date_ok d \<longleftrightarrow> second d < 100 \<and> minute d < 100 \<and> hour d < 100 \<and> day d < 100 \<and> month d < 100 \<and> year d < 100"

definition shows_date :: "rtc \<Rightarrow> bool \<Rightarrow> nat \<Rightarrow> rtcdate \<Rightarrow> bool" where
  "shows_date c b t d \<longleftrightarrow> c t SECS = enc b (second d) \<and> c t MINS = enc b (minute d) \<and> c t HOURS = enc b (hour d)
     \<and> c t DAY = enc b (day d) \<and> c t MONTH = enc b (month d) \<and> c t YEAR = enc b (year d)"

text \<open>
  What the chip promises, \<open>D\<close> being the date it keeps: its status register says which encoding it uses, and when the bit for an update in progress is clear, the registers have the date and no update will begin for the next
  244 microseconds, time enough for the six reads of one reading (\<^verbatim>\<open>microdelay\<close> does not wait). While the bit is set, the registers may have any contents.
\<close>

definition rtc_works :: "rtc \<Rightarrow> bool \<Rightarrow> (nat \<Rightarrow> rtcdate) \<Rightarrow> bool" where
  "rtc_works c b D \<longleftrightarrow> (\<forall>t. bit (c t CMOS_STATB) 2 = (\<not> b))
     \<and> (\<forall>t. \<not> bit (c t CMOS_STATA) 7 \<longrightarrow> date_ok (D t) \<and> (\<forall>i \<le> 6. shows_date c b (t + i) (D t)))"

text \<open>For the reads of two rounds from \<open>T\<close> on there is no update.\<close>

definition calm :: "rtc \<Rightarrow> nat \<Rightarrow> bool" where
  "calm c T \<longleftrightarrow> (\<forall>i < 26. \<not> bit (c (T + i) CMOS_STATA) 7)"

lemma unat_and_15: "unat (x AND 15) = unat x mod 16" for x :: "32 word"
proof -
  have "x AND 15 = take_bit 4 x" by (simp add: take_bit_eq_mask mask_eq_exp_minus_1)
  then show ?thesis by (simp add: take_bit_eq_mod unat_mod)
qed

lemma CONV_enc: "w < 100 \<Longrightarrow> CONV (ucast (enc True w)) = w"
proof -
  assume "w < 100"
  then have n: "unat w < 100" by (simp add: word_less_nat_alt)
  define x :: "32 word" where "x = ucast (enc True w)"
  define k where "k = 16 * (unat w div 10) + unat w mod 10"
  have k: "k < 256" "k div 16 = unat w div 10" "k mod 16 = unat w mod 10" using n by (simp_all add: k_def)
  have "enc True w = of_nat k" by (simp add: enc_def k_def)
  then have x: "unat x = k" using k(1) by (simp add: x_def unsigned_ucast_eq unat_of_nat take_bit_nat_eq_self)
  have "unat (drop_bit 4 x) = unat w div 10" using x k(2) by (simp add: drop_bit_eq_div unat_div)
  then have d: "drop_bit 4 x = of_nat (unat w div 10)" by (metis of_nat_unat ucast_id)
  have "unat (x AND 15) = unat w mod 10" using x k(3) by (simp add: unat_and_15)
  then have m: "x AND 15 = of_nat (unat w mod 10)" by (metis of_nat_unat ucast_id)
  have "CONV x = of_nat (unat w div 10 * 10 + unat w mod 10)" unfolding CONV_def d m of_nat_add of_nat_mult by (simp only: of_nat_numeral)
  also have "unat w div 10 * 10 + unat w mod 10 = unat w" by simp
  finally show ?thesis by (simp add: x_def)
qed

lemma ucast_enc: "w < 100 \<Longrightarrow> ucast (enc False w) = w"
proof -
  assume "w < 100"
  then have "unat w < 256" by (simp add: word_less_nat_alt)
  then show ?thesis by (simp add: word_unat_eq_iff enc_def unsigned_ucast_eq unsigned_take_bit_eq take_bit_nat_eq_self)
qed

definition raw :: "bool \<Rightarrow> rtcdate \<Rightarrow> rtcdate" where
  "raw b d = \<lparr>second = ucast (enc b (second d)), minute = ucast (enc b (minute d)), hour = ucast (enc b (hour d)), day = ucast (enc b (day d)),
     month = ucast (enc b (month d)), year = ucast (enc b (year d))\<rparr>"

lemma raw_decodes: "date_ok d \<Longrightarrow> (if b then convert (raw b d) else raw b d) = d"
  by (cases b) (simp_all add: raw_def convert_def date_ok_def CONV_enc ucast_enc)

section \<open>The date that is read\<close>

lemma fill_reads:
  "fill_rtcdate c t = (\<lparr>second = ucast (c t SECS), minute = ucast (c (t + 1) MINS), hour = ucast (c (t + 2) HOURS), day = ucast (c (t + 3) DAY),
     month = ucast (c (t + 4) MONTH), year = ucast (c (t + 5) YEAR)\<rparr>, t + 6)"
  by (simp add: fill_rtcdate_def cmos_read_def eval_nat_numeral)

text \<open>A reading of registers that have a date.\<close>

lemma fill_date:
  assumes "\<And>i. i < 6 \<Longrightarrow> shows_date c b (t + i) d"
  shows "fill_rtcdate c t = (raw b d, t + 6)"
  using assms [of 0] assms [of 1] assms [of 2] assms [of 3] assms [of 4] assms [of 5]
  unfolding shows_date_def fill_reads raw_def by simp

text \<open>The second reading of a round, which comes after the test of the status register, is the date at the time of the test.\<close>

lemma second_reading:
  assumes "rtc_works c b D" "\<not> bit (c (u + 6) CMOS_STATA) 7"
  shows "fill_rtcdate c (u + 7) = (raw b (D (u + 6)), u + 13)"
proof -
  have "shows_date c b (u + 7 + i) (D (u + 6))" if "i < 6" for i
  proof -
    have "shows_date c b (u + 6 + Suc i) (D (u + 6))" using assms that unfolding rtc_works_def by (metis Suc_leI)
    then show ?thesis by (simp add: add.commute add.left_commute)
  qed
  from fill_date [of c b "u + 7", OF this] show ?thesis by simp
qed

text \<open>Without an update the first reading is the same.\<close>

lemma calm_readings:
  assumes "rtc_works c b D" "\<not> bit (c u CMOS_STATA) 7" "\<not> bit (c (u + 6) CMOS_STATA) 7"
  shows "fill_rtcdate c u = (raw b (D (u + 6)), u + 6)"
proof -
  have u: "shows_date c b (u + i) (D u)" if "i \<le> 6" for i using assms(1,2) that by (simp add: rtc_works_def)
  have "shows_date c b (u + 6 + 0) (D (u + 6))" using assms(1,3) unfolding rtc_works_def by blast
  then have "raw b (D u) = raw b (D (u + 6))" using u [of 6] by (simp add: shows_date_def raw_def)
  moreover have "fill_rtcdate c u = (raw b (D u), u + 6)" by (rule fill_date) (use u in simp)
  ultimately show ?thesis by simp
qed

lemma bit_UIP: "ucast x AND CMOS_UIP \<noteq> 0 \<longleftrightarrow> bit x 7" for x :: byte
proof -
  have "CMOS_UIP = 2 ^ 7" by (simp add: CMOS_UIP_def)
  then show ?thesis using and_exp_eq_0_iff_not_bit [of "ucast x :: 32 word" 7] by (simp add: bit_simps)
qed

lemma bit_BCD: "ucast x AND push_bit 2 1 = (0 :: 32 word) \<longleftrightarrow> \<not> bit x 2" for x :: byte
proof -
  have "push_bit 2 1 = (2 ^ 2 :: 32 word)" by simp
  then show ?thesis by (simp only: and_exp_eq_0_iff_not_bit) (simp add: bit_simps)
qed

lemma cmos_loop_step:
  "cmos_loop c u = (if bit (c (u + 6) CMOS_STATA) 7 then cmos_loop c (u + 7)
     else if fst (fill_rtcdate c u) = fst (fill_rtcdate c (u + 7)) then Some (fst (fill_rtcdate c u), u + 13) else cmos_loop c (u + 13))"
  by (subst cmos_loop.simps)
     (simp add: fill_reads cmos_read_def bit_UIP, simp add: Let_def eval_nat_numeral)

lemma cmos_loop_reads:
  assumes "rtc_works c b D" "calm c T" "u < T + 13"
  shows "\<exists>t' v. cmos_loop c u = Some (raw b (D v), t') \<and> u \<le> v \<and> v < t' \<and> \<not> bit (c v CMOS_STATA) 7"
  using assms(3)
proof (induction "T + 13 - u" arbitrary: u rule: less_induct)
  case less
  let ?eq = "fst (fill_rtcdate c u) = fst (fill_rtcdate c (u + 7))"
  have now: "\<exists>t' v. cmos_loop c u = Some (raw b (D v), t') \<and> u \<le> v \<and> v < t' \<and> \<not> bit (c v CMOS_STATA) 7" if "\<not> bit (c (u + 6) CMOS_STATA) 7" "?eq"
  proof -
    have "cmos_loop c u = Some (fst (fill_rtcdate c (u + 7)), u + 13)" using that cmos_loop_step [of c u] by metis
    then have "cmos_loop c u = Some (raw b (D (u + 6)), u + 13)" using second_reading [OF assms(1) that(1)] by simp
    moreover have "u \<le> u + 6" "u + 6 < u + 13" by simp_all
    ultimately show ?thesis using that(1) by (intro exI conjI)
  qed
  show ?case
  proof (cases "T \<le> u")
    case True
    have c: "\<not> bit (c (u + i) CMOS_STATA) 7" if "i < 13" for i
    proof -
      have "u - T + i < 26" "T + (u - T + i) = u + i" using less.prems True that by simp_all
      then show ?thesis using assms(2) unfolding calm_def by metis
    qed
    have "fill_rtcdate c u = (raw b (D (u + 6)), u + 6)" using calm_readings [OF assms(1)] c [of 0] c [of 6] by simp
    then show ?thesis using now second_reading [OF assms(1) c [of 6]] c [of 6] by simp
  next
    case False
    have "\<exists>t' v. cmos_loop c (u + j) = Some (raw b (D v), t') \<and> u \<le> v \<and> v < t' \<and> \<not> bit (c v CMOS_STATA) 7" if "j = 7 \<or> j = 13" for j
    proof -
      have j: "T + 13 - (u + j) < T + 13 - u" "u + j < T + 13" using that False by auto
      from less.hyps [OF j] obtain t' v where "cmos_loop c (u + j) = Some (raw b (D v), t')" "u + j \<le> v" "v < t'" "\<not> bit (c v CMOS_STATA) 7" by auto
      then show ?thesis by (metis add_leD1)
    qed
    then show ?thesis using now cmos_loop_step [of c u] by metis
  qed
qed

text \<open>
  C36. For a chip whose registers are undefined during an update and that announces an update in its status register, \<^verbatim>\<open>cmostime\<close> returns as soon as there is no update for two rounds of reads, and
  what it returns is the date that the clock had at one moment during the call, when no update was in progress: never undefined contents, never a mixture of two dates, in the year 2000 or later, whichever of the two encodings the clock uses.
\<close>

theorem cmostime_reads_date:
  assumes "rtc_works c b D" "calm c T" "t < T"
  shows "\<exists>r t' v. cmostime c t = Some (r, t') \<and> t \<le> v \<and> v < t' \<and> \<not> bit (c v CMOS_STATA) 7 \<and> r = (D v)\<lparr>year := year (D v) + 2000\<rparr>"
proof -
  have "Suc t < T + 13" using assms(3) by simp
  from cmos_loop_reads [OF assms(1,2) this] obtain t' v where
    l: "cmos_loop c (Suc t) = Some (raw b (D v), t')" "Suc t \<le> v" "v < t'" "\<not> bit (c v CMOS_STATA) 7" by blast
  have "(if b then convert (raw b (D v)) else raw b (D v)) = D v" using assms(1) l(4) by (intro raw_decodes) (simp add: rtc_works_def)
  moreover have "bit (c t CMOS_STATB) 2 = (\<not> b)" using assms(1) by (simp add: rtc_works_def)
  ultimately have "cmostime c t = Some ((D v)\<lparr>year := year (D v) + 2000\<rparr>, t')"
    using l(1) by (cases b) (simp_all add: cmostime_def cmos_read_def bit_BCD Let_def del: push_bit_of_1)
  then show ?thesis using l(2-4) by (intro exI [of _ t'] exI [of _ v] exI) auto
qed

text \<open>
  A clock with decimal digits that goes from the last second of 2025 to 2026 during the first reading: the update is announced from time 2 to time 11, and all registers read as 255 from time 9 to time 11.
\<close>

definition demo_date :: "nat \<Rightarrow> rtcdate" where
  "demo_date t = (if t < 10 then \<lparr>second = 59, minute = 59, hour = 23, day = 31, month = 12, year = 25\<rparr>
     else \<lparr>second = 0, minute = 0, hour = 0, day = 1, month = 1, year = 26\<rparr>)"

definition demo_rtc :: rtc where
  "demo_rtc t reg = (if reg = CMOS_STATA then (if 2 \<le> t \<and> t < 12 then 0x80 else 0) else if reg = CMOS_STATB then 0
     else if 9 \<le> t \<and> t < 12 then 255
     else if reg = SECS then enc True (second (demo_date t)) else if reg = MINS then enc True (minute (demo_date t))
     else if reg = HOURS then enc True (hour (demo_date t)) else if reg = DAY then enc True (day (demo_date t))
     else if reg = MONTH then enc True (month (demo_date t)) else if reg = YEAR then enc True (year (demo_date t)) else 0)"

lemmas rtc_regs = SECS_def MINS_def HOURS_def DAY_def MONTH_def YEAR_def CMOS_STATA_def CMOS_STATB_def

theorem cmostime_reads_date_witness:
  "\<exists>r t' v. cmostime demo_rtc 1 = Some (r, t') \<and> 1 \<le> v \<and> v < t' \<and> r = (demo_date v)\<lparr>year := year (demo_date v) + 2000\<rparr>"
proof -
  have "rtc_works demo_rtc True demo_date"
    unfolding rtc_works_def
  proof (intro conjI allI impI)
    show "bit (demo_rtc t CMOS_STATB) 2 = (\<not> True)" for t by (simp add: demo_rtc_def rtc_regs)
    show "date_ok (demo_date t)" for t by (simp add: date_ok_def demo_date_def)
    fix t i :: nat assume t: "\<not> bit (demo_rtc t CMOS_STATA) 7" and i: "i \<le> 6"
    have "\<not> (2 \<le> t \<and> t < 12)"
    proof
      assume "2 \<le> t \<and> t < 12"
      then have "demo_rtc t CMOS_STATA = 0x80" by (simp add: demo_rtc_def)
      then show False using t by simp
    qed
    then consider "t < 2" | "12 \<le> t" by linarith
    then show "shows_date demo_rtc True (t + i) (demo_date t)"
      by cases (use i in \<open>simp_all add: shows_date_def demo_rtc_def demo_date_def rtc_regs\<close>)
  qed
  moreover have "calm demo_rtc 12" by (simp add: calm_def demo_rtc_def)
  ultimately show ?thesis using cmostime_reads_date [of demo_rtc True demo_date 12 1] by auto
qed

end
