(* ===== verification/Segs.thy ===== *)
theory Segs
  imports Vm
begin

text \<open>
  The tables the processor reads: the interrupt descriptors that \<^verbatim>\<open>tvinit\<close> of \<^verbatim>\<open>src/trap.c\<close> builds, the segment descriptors and the machine registers
  that \<^verbatim>\<open>seginit\<close> and \<^verbatim>\<open>syscallinit\<close> of \<^verbatim>\<open>src/vm.c\<close> set. Each is written to memory as the code does and read back with the layout of the
  processor's manual.
\<close>

unbundle bit_operations_syntax

section \<open>Arrays of 32-bit integers\<close>

definition ld32m :: "memory \<Rightarrow> addr_t \<Rightarrow> 32 word" where
  "ld32m m a = of_nat (le_nat (map (\<lambda>k. m (a + of_nat k)) [0..<4]))"

definition st32m :: "memory \<Rightarrow> addr_t \<Rightarrow> 32 word \<Rightarrow> memory" where
  "st32m m a v = (\<lambda>x. if unat (x - a) < 4 then le_bytes 4 (unat v) ! unat (x - a) else m x)"

text \<open>Element \<open>i\<close> of the array of \<^verbatim>\<open>uint\<close>s at \<open>p\<close>.\<close>

definition elem32 :: "addr_t \<Rightarrow> nat \<Rightarrow> addr_t" where
  "elem32 p i = p + of_nat (4 * i)"

section \<open>Interrupt descriptors\<close>

definition SEG_KCODE :: nat where "SEG_KCODE = 1"
definition SEG_KDATA :: nat where "SEG_KDATA = 2"
definition SEG_UCODE32 :: nat where "SEG_UCODE32 = 3"
definition SEG_UDATA :: nat where "SEG_UDATA = 4"
definition SEG_UCODE :: nat where "SEG_UCODE = 5"
definition SEG_KCPU :: nat where "SEG_KCPU = 6"
definition SEG_TSS :: nat where "SEG_TSS = 7"
definition DPL_USER :: nat where "DPL_USER = 3"
definition KERNEL_CS :: nat where "KERNEL_CS = SEG_KCODE * 8"
definition USER_CS :: nat where "USER_CS = SEG_UCODE * 8 + DPL_USER"
definition USER_DS :: nat where "USER_DS = SEG_UDATA * 8 + DPL_USER"
definition USER32_CS :: nat where "USER32_CS = SEG_UCODE32 * 8 + DPL_USER"

definition mkgate :: "addr_t \<Rightarrow> nat \<Rightarrow> addr_t \<Rightarrow> 32 word \<Rightarrow> memory \<Rightarrow> memory" where
  "mkgate idt n kva pl m =
     (let n = n * 4;
          m = st32m m (elem32 idt (n + 0)) (ucast (kva AND 0xFFFF) OR push_bit 16 (of_nat KERNEL_CS));
          m = st32m m (elem32 idt (n + 1)) (ucast (kva AND 0xFFFF0000) OR 0x8E00 OR push_bit 13 (pl AND 3));
          m = st32m m (elem32 idt (n + 2)) (ucast (drop_bit 32 kva))
      in st32m m (elem32 idt (n + 3)) 0)"

text \<open>\<open>vectors\<close> are the addresses of the entry points that \<^verbatim>\<open>vectors.S\<close> lists; the result is the address of the table.\<close>

definition tvinit :: "(nat \<Rightarrow> addr_t) \<Rightarrow> 'z kmem_scheme \<Rightarrow> (addr_t \<times> 'z kmem_scheme) res" where
  "tvinit vectors k =
     bind_res (kalloc k) (\<lambda>(idt, k).
       let k = zero_page idt k
       in Ok (idt, k\<lparr>km_mem := fold (\<lambda>n. mkgate idt n (vectors n) 0) [0..<256] (km_mem k)\<rparr>))"

text \<open>What the processor takes from the four words of a gate.\<close>

record gate =
  g_offset :: addr_t
  g_selector :: nat
  g_type :: nat
  g_dpl :: nat
  g_present :: bool

definition gate_at :: "memory \<Rightarrow> addr_t \<Rightarrow> nat \<Rightarrow> gate" where
  "gate_at m idt n =
     (let d0 = ld32m m (elem32 idt (4 * n)); d1 = ld32m m (elem32 idt (4 * n + 1)); d2 = ld32m m (elem32 idt (4 * n + 2)) in
      \<lparr>g_offset = ucast (d0 AND 0xFFFF) OR ucast (d1 AND 0xFFFF0000) OR push_bit 32 (ucast d2), g_selector = unat (drop_bit 16 d0),
       g_type = unat (drop_bit 8 d1 AND 15), g_dpl = unat (drop_bit 13 d1 AND 3), g_present = bit d1 15\<rparr>)"

lemma elem32_diff:
  assumes "i < 1024" "j < 1024" "k < 4"
  shows "unat (elem32 p j + of_nat k - elem32 p i) = (if 4 * i \<le> 4 * j + k then 4 * j + k - 4 * i else 4 * j + k + 2 ^ 64 - 4 * i)"
proof -
  have e: "elem32 p j + of_nat k - elem32 p i = of_nat (4 * j + k) - of_nat (4 * i)" by (simp add: elem32_def)
  have u: "unat (of_nat (4 * j + k) :: addr_t) = 4 * j + k" "unat (of_nat (4 * i) :: addr_t) = 4 * i"
    using assms by (simp_all only: unat_of_nat) (simp_all add: take_bit_eq_mod)
  show ?thesis unfolding e unat_diff word_le_nat_alt u ..
qed

lemma elem32_st:
  assumes "i < 1024" "j < 1024"
  shows "ld32m (st32m m (elem32 p i) v) (elem32 p j) = (if i = j then v else ld32m m (elem32 p j))"
proof (cases "i = j")
  case True
  have "map (\<lambda>k. st32m m (elem32 p i) v (elem32 p i + of_nat k)) [0..<4] = le_bytes 4 (unat v)"
    by (intro nth_equalityI) (use elem32_diff [OF assms(1,1)] in \<open>simp_all add: st32m_def\<close>)
  then have "ld32m (st32m m (elem32 p i) v) (elem32 p i) = of_nat (unat v mod 256 ^ 4)" unfolding ld32m_def by simp
  also have "unat v mod 256 ^ 4 = unat v" using unsigned_less [where 'a = nat, of v] by simp
  finally show ?thesis using True by simp
next
  case False
  have "st32m m (elem32 p i) v (elem32 p j + of_nat k) = m (elem32 p j + of_nat k)" if "k < 4" for k
  proof -
    have "i < j \<or> j < i" using False by auto
    then have "4 \<le> unat (elem32 p j + of_nat k - elem32 p i)" unfolding elem32_diff [OF assms that] using assms that by auto
    then show ?thesis by (simp add: st32m_def)
  qed
  then have "map (\<lambda>k. st32m m (elem32 p i) v (elem32 p j + of_nat k)) [0..<4] = map (\<lambda>k. m (elem32 p j + of_nat k)) [0..<4]"
    by (intro map_cong) auto
  then show ?thesis using False unfolding ld32m_def by (simp only: if_False)
qed

section \<open>The gates of the table\<close>

definition gate_word :: "nat \<Rightarrow> addr_t \<Rightarrow> 32 word" where
  "gate_word i kva =
     (if i = 0 then ucast (kva AND 0xFFFF) OR push_bit 16 (of_nat KERNEL_CS)
      else if i = 1 then ucast (kva AND 0xFFFF0000) OR 0x8E00
      else if i = 2 then ucast (drop_bit 32 kva) else 0)"

lemma mkgate_elem:
  assumes "n < 256" "j < 1024"
  shows "ld32m (mkgate idt n kva 0 m) (elem32 idt j) = (if j div 4 = n then gate_word (j mod 4) kva else ld32m m (elem32 idt j))"
proof -
  have i: "n * 4 < 1024" "n * 4 + 1 < 1024" "n * 4 + 2 < 1024" "n * 4 + 3 < 1024" using assms(1) by simp_all
  have "ld32m (mkgate idt n kva 0 m) (elem32 idt j)
    = (if j = n * 4 + 3 then 0 else if j = n * 4 + 2 then ucast (drop_bit 32 kva) else if j = n * 4 + 1 then gate_word 1 kva
       else if j = n * 4 then gate_word 0 kva else ld32m m (elem32 idt j))"
    unfolding mkgate_def Let_def add_0_right
    by (simp only: elem32_st [OF i(1) assms(2)] elem32_st [OF i(2) assms(2)] elem32_st [OF i(3) assms(2)] elem32_st [OF i(4) assms(2)])
       (auto simp: gate_word_def)
  moreover have "j = n * 4 + 3 \<longleftrightarrow> j div 4 = n \<and> j mod 4 = 3" "j = n * 4 + 2 \<longleftrightarrow> j div 4 = n \<and> j mod 4 = 2"
    "j = n * 4 + 1 \<longleftrightarrow> j div 4 = n \<and> j mod 4 = 1" "j = n * 4 \<longleftrightarrow> j div 4 = n \<and> j mod 4 = 0" by presburger+
  moreover have "j mod 4 = 0 \<or> j mod 4 = 1 \<or> j mod 4 = 2 \<or> j mod 4 = 3" by presburger
  ultimately show ?thesis by (auto simp: gate_word_def simp del: One_nat_def)
qed

lemma gates_elem:
  "n \<le> 256 \<Longrightarrow> j < 1024 \<Longrightarrow> ld32m (fold (\<lambda>n. mkgate idt n (vectors n) 0) [0..<n] m) (elem32 idt j)
   = (if j div 4 < n then gate_word (j mod 4) (vectors (j div 4)) else ld32m m (elem32 idt j))"
proof (induction n)
  case (Suc n)
  then have n: "n < 256" by simp
  show ?case using Suc by (simp add: mkgate_elem [OF n Suc.prems(2)] less_Suc_eq)
qed simp

text \<open>The bits of the constants.\<close>

lemma bits_of_masks:
  "bit (0xFFFF :: 64 word) n \<longleftrightarrow> n < 16" "bit (0xFFFF :: 32 word) n \<longleftrightarrow> n < 16"
  "bit (0xFFFF0000 :: 64 word) n \<longleftrightarrow> 16 \<le> n \<and> n < 32" "bit (0xFFFF0000 :: 32 word) n \<longleftrightarrow> 16 \<le> n \<and> n < 32"
proof -
  have "(0xFFFF :: 64 word) = mask 16" "(0xFFFF :: 32 word) = mask 16" "(0xFFFF0000 :: 64 word) = push_bit 16 (mask 16)"
    "(0xFFFF0000 :: 32 word) = push_bit 16 (mask 16)" by (simp_all add: mask_eq_exp_minus_1)
  then show "bit (0xFFFF :: 64 word) n \<longleftrightarrow> n < 16" "bit (0xFFFF :: 32 word) n \<longleftrightarrow> n < 16"
    "bit (0xFFFF0000 :: 64 word) n \<longleftrightarrow> 16 \<le> n \<and> n < 32" "bit (0xFFFF0000 :: 32 word) n \<longleftrightarrow> 16 \<le> n \<and> n < 32"
    by (simp_all only: bit_mask_iff bit_push_bit_iff) auto
qed

lemma low_bits: "bit (15 :: 32 word) n \<longleftrightarrow> n < 4" "bit (3 :: 32 word) n \<longleftrightarrow> n < 2"
proof -
  have "(15 :: 32 word) = mask 4" "(3 :: 32 word) = mask 2" by (simp_all add: mask_eq_exp_minus_1)
  then show "bit (15 :: 32 word) n \<longleftrightarrow> n < 4" "bit (3 :: 32 word) n \<longleftrightarrow> n < 2" by (simp_all only: bit_mask_iff) auto
qed

lemma gate_decodes:
  assumes "ld32m m (elem32 idt (4 * n)) = gate_word 0 kva" "ld32m m (elem32 idt (4 * n + 1)) = gate_word 1 kva"
    and "ld32m m (elem32 idt (4 * n + 2)) = gate_word 2 kva"
  shows "gate_at m idt n = \<lparr>g_offset = kva, g_selector = KERNEL_CS, g_type = 14, g_dpl = 0, g_present = True\<rparr>"
proof -
  define l :: "32 word" where "l = ucast (kva AND 0xFFFF)"
  define h :: "32 word" where "h = ucast (kva AND 0xFFFF0000)"
  have w: "gate_word 0 kva = l OR 0x80000" "gate_word 1 kva = h OR 0x8E00" "gate_word 2 kva = ucast (drop_bit 32 kva)"
    by (simp_all add: gate_word_def l_def h_def KERNEL_CS_def SEG_KCODE_def)
  have l: "l AND 0xFFFF = l" "l AND 0xFFFF0000 = 0" and h: "h AND 0xFFFF0000 = h" "h AND 0xFFFF = 0"
    by (rule bit_eqI, auto simp: l_def h_def bit_and_iff bit_ucast_iff bits_of_masks simp del: bit_numeral_word_iff)+
  have "drop_bit 16 (l AND 0xFFFF) = 0" "drop_bit 8 (h AND 0xFFFF0000) AND 15 = 0" "drop_bit 13 (h AND 0xFFFF0000) AND 3 = 0"
    by (rule bit_eqI; simp only: bit_and_iff bit_drop_bit_eq bits_of_masks low_bits comp_def; auto)+
  moreover have "\<not> bit (h AND 0xFFFF0000) 15" by (simp only: bit_and_iff bits_of_masks) simp
  ultimately have b: "drop_bit 16 l = 0" "drop_bit 8 h AND 15 = 0" "drop_bit 13 h AND 3 = 0" "\<not> bit h 15" unfolding l(1) h(1) by blast+
  have d0: "(l OR 0x80000) AND 0xFFFF = l" "drop_bit 16 (l OR 0x80000) = 8"
    using l(1) b(1) by (simp_all add: bit.conj_disj_distrib2 drop_bit_or)
  have d1: "(h OR 0x8E00) AND 0xFFFF0000 = h" "drop_bit 8 (h OR 0x8E00) AND 15 = 14" "drop_bit 13 (h OR 0x8E00) AND 3 = 0" "bit (h OR 0x8E00) 15"
    using h(1) b by (simp_all add: bit.conj_disj_distrib2 drop_bit_or bit_or_iff)
  have "ucast l OR ucast h OR push_bit 32 (ucast (ucast (drop_bit 32 kva) :: 32 word)) = kva"
  proof (rule bit_eqI)
    fix n :: nat
    have "32 + (n - 32) = n" if "\<not> n < 32" using that by simp
    then show "bit (ucast l OR ucast h OR push_bit 32 (ucast (ucast (drop_bit 32 kva) :: 32 word)) :: addr_t) n = bit kva n"
      using bit_imp_le_length [of kva n]
      by (cases "n < 16"; cases "n < 32") (auto simp: l_def h_def bit_simps bits_of_masks simp del: bit_numeral_word_iff)
  qed
  then show ?thesis unfolding gate_at_def Let_def assms w d0 d1(1-3) using d1(4) by (simp add: KERNEL_CS_def SEG_KCODE_def)
qed

text \<open>A page that is changed does not matter for the free list when it is not on it.\<close>

definition only_page :: "addr_t \<Rightarrow> memory \<Rightarrow> memory \<Rightarrow> bool" where
  "only_page p m m' \<longleftrightarrow> (\<forall>x. PGSIZE \<le> unat (x - p) \<longrightarrow> m' x = m x)"

lemma only_page_free:
  assumes "kmem_free kend k ps" "only_page p (km_mem k) (km_mem k')" "km_freelist k' = km_freelist k" "unat p mod PGSIZE = 0" "p \<notin> set ps"
  shows "kmem_free kend k' ps"
proof -
  have "ld64 (km_mem k') q = ld64 (km_mem k) q" if q: "q \<in> set ps" for q
  proof (rule ld64_cong)
    fix i :: nat assume "i < 8"
    moreover have "unat q mod PGSIZE = 0" "p \<noteq> q" using q assms(1,5) by (auto simp: kmem_free_def page_ok_def)
    ultimately show "km_mem k' (q + of_nat i) = km_mem k (q + of_nat i)"
      using assms(2) pages_apart [OF assms(4), of q i] unfolding only_page_def by (simp add: PGSIZE_def)
  qed
  then have "chain (km_mem k') (km_freelist k) ps" using assms(1) chain_cong [of ps "km_mem k'" "km_mem k"] by (simp add: kmem_free_def)
  then show ?thesis using assms(1,3) by (simp add: kmem_free_def)
qed

lemma only_page_trans: "only_page p m m' \<Longrightarrow> only_page p m' m'' \<Longrightarrow> only_page p m m''"
  by (simp add: only_page_def)

lemma only_page_zero: "only_page p m (fill m p c PGSIZE)"
  by (simp add: only_page_def fill_def)

lemma only_page_elem32: "i < 1024 \<Longrightarrow> only_page p m (st32m m (elem32 p i) v)"
proof -
  assume i: "i < 1024"
  have "4 \<le> unat (x - elem32 p i)" if x: "PGSIZE \<le> unat (x - p)" for x
  proof -
    have e: "x - elem32 p i = (x - p) - of_nat (4 * i)" by (simp add: elem32_def)
    have "unat (of_nat (4 * i) :: addr_t) = 4 * i" using i by (simp only: unat_of_nat) (simp add: take_bit_eq_mod)
    then have "unat (x - elem32 p i) = unat (x - p) - 4 * i" unfolding e unat_diff [of "x - p"] word_le_nat_alt using x i by (simp add: PGSIZE_def)
    then show ?thesis using x i by (simp add: PGSIZE_def)
  qed
  then have "\<not> unat (x - elem32 p i) < 4" if "PGSIZE \<le> unat (x - p)" for x using that not_less by blast
  then show ?thesis by (auto simp: only_page_def st32m_def)
qed

lemma only_page_mkgate: "n < 256 \<Longrightarrow> only_page p m (mkgate p n kva pl m)"
proof -
  assume n: "n < 256"
  have e: "only_page p m (st32m m' (elem32 p i) v)" if "only_page p m m'" "i < 1024" for m' i v
    using only_page_trans [OF that(1) only_page_elem32 [OF that(2)]] .
  have "only_page p m m" by (simp add: only_page_def)
  then show ?thesis using n unfolding mkgate_def Let_def by (intro e) simp_all
qed

lemma only_page_gates: "n \<le> 256 \<Longrightarrow> only_page p m (fold (\<lambda>n. mkgate p n (vectors n) 0) [0..<n] m)"
proof (induction n)
  case (Suc n)
  then have "only_page p m (fold (\<lambda>n. mkgate p n (vectors n) 0) [0..<n] m)" "n < 256" by simp_all
  from only_page_trans [OF this(1) only_page_mkgate [OF this(2)]] show ?case by simp
qed (simp add: only_page_def)

text \<open>
  C38. After \<^verbatim>\<open>tvinit\<close> the processor finds in each of the 256 gates the address of that interrupt's entry point with all its 64 bits, in the kernel's code
  segment, as a present interrupt gate that only the kernel may call. The table takes one page, and the other free pages stay free.
\<close>

theorem tvinit_gates:
  assumes "kmem_free kend k (p # ps)"
  shows "\<exists>k'. tvinit vectors k = Ok (p, k') \<and> kmem_free kend k' ps
     \<and> (\<forall>n < 256. gate_at (km_mem k') p n = \<lparr>g_offset = vectors n, g_selector = KERNEL_CS, g_type = 14, g_dpl = 0, g_present = True\<rparr>)"
proof -
  obtain k1 where k1: "kalloc k = Ok (p, k1)" "kmem_free kend k1 ps" using kalloc_ok(1) [OF assms] by blast
  let ?m = "fill (km_mem k1) p 0 PGSIZE"
  let ?k = "k1\<lparr>km_mem := fold (\<lambda>n. mkgate p n (vectors n) 0) [0..<256] ?m\<rparr>"
  have "tvinit vectors k = Ok (p, ?k)" by (simp add: tvinit_def k1(1) zero_page_def Let_def)
  moreover have "kmem_free kend ?k ps"
    by (rule only_page_free [OF k1(2), of p])
       (use assms only_page_trans [OF only_page_zero only_page_gates] in \<open>auto simp: kmem_free_def page_ok_def\<close>)
  moreover have "gate_at (km_mem ?k) p n = \<lparr>g_offset = vectors n, g_selector = KERNEL_CS, g_type = 14, g_dpl = 0, g_present = True\<rparr>" if "n < 256" for n
  proof (rule gate_decodes)
    have "(4 * n + 1) div 4 = n" "(4 * n + 2) div 4 = n" "(4 * n + 1) mod 4 = 1" "(4 * n + 2) mod 4 = 2" by presburger+
    then show "ld32m (km_mem ?k) (elem32 p (4 * n)) = gate_word 0 (vectors n)" "ld32m (km_mem ?k) (elem32 p (4 * n + 1)) = gate_word 1 (vectors n)"
      "ld32m (km_mem ?k) (elem32 p (4 * n + 2)) = gate_word 2 (vectors n)"
      using that gates_elem [of 256 "4 * n" p vectors ?m] gates_elem [of 256 "4 * n + 1" p vectors ?m] gates_elem [of 256 "4 * n + 2" p vectors ?m]
      by simp_all
  qed
  ultimately show ?thesis by blast
qed

theorem tvinit_gates_witness:
  "\<exists>k'. tvinit (\<lambda>n. 0xFFFF800000104321 + of_nat n) (any_kmem\<lparr>km_freelist := 0xFFFF800000200000\<rparr>) = Ok (0xFFFF800000200000, k')
     \<and> g_offset (gate_at (km_mem k') 0xFFFF800000200000 64) = 0xFFFF800000104361"
proof -
  let ?k = "any_kmem\<lparr>km_freelist := 0xFFFF800000200000\<rparr>"
  have "kmem_free 0xFFFF800000100000 ?k [0xFFFF800000200000]"
    by (simp add: kmem_free_def page_ok_def PGSIZE_def V2P_def KERNBASE_def PHYSTOP_def any_kmem_def ld64_def upt_rec)
  from tvinit_gates [OF this, of "\<lambda>n. 0xFFFF800000104321 + of_nat n"] show ?thesis by auto
qed

section \<open>Segment descriptors\<close>

text \<open>The fields of \<^verbatim>\<open>struct segdesc\<close> as the compiler packs them into eight bytes, with the values of the macro \<^verbatim>\<open>SEG\<close>.\<close>

definition SEG :: "addr_t \<Rightarrow> addr_t \<Rightarrow> addr_t \<Rightarrow> addr_t \<Rightarrow> addr_t \<Rightarrow> addr_t \<Rightarrow> addr_t" where
  "SEG type lim base sys dpl rsv =
     (lim AND 0xffff) OR push_bit 16 (base AND 0xffff) OR push_bit 32 (drop_bit 16 base AND 0xff) OR push_bit 40 (type AND 15)
     OR push_bit 44 (sys AND 1) OR push_bit 45 (dpl AND 3) OR push_bit 47 1 OR push_bit 48 (drop_bit 60 lim AND 15)
     OR push_bit 53 (rsv AND 1) OR push_bit 55 1 OR push_bit 56 (drop_bit 24 base AND 0xff)"

definition APP_SEG :: addr_t where "APP_SEG = 1"
definition STA_X :: addr_t where "STA_X = 8"
definition STA_W :: addr_t where "STA_W = 2"
definition STA_R :: addr_t where "STA_R = 2"
definition STS_T64A :: addr_t where "STS_T64A = 9"
definition NSEGS :: nat where "NSEGS = 8"

text \<open>Element \<open>i\<close> of an array of eight-byte values.\<close>

definition elem64 :: "addr_t \<Rightarrow> nat \<Rightarrow> addr_t" where
  "elem64 p i = p + of_nat (8 * i)"

record cpuseg =
  cs_local :: addr_t
  cs_fsbase :: addr_t
  cs_gdt :: addr_t
  cs_gdtlimit :: nat
  cs_tr :: nat

definition gdt_entries :: "addr_t \<Rightarrow> (nat \<times> addr_t) list" where
  "gdt_entries addr =
     [(0, 0), (SEG_KCODE, SEG (STA_X OR STA_R) 0 0 APP_SEG 0 1), (SEG_KDATA, SEG STA_W 0 0 APP_SEG 0 0), (SEG_UCODE32, 0),
      (SEG_UDATA, SEG STA_W 0 0 APP_SEG (of_nat DPL_USER) 0), (SEG_UCODE, SEG (STA_X OR STA_R) 0 0 APP_SEG (of_nat DPL_USER) 1), (SEG_KCPU, 0),
      (SEG_TSS, SEG STS_T64A 0xb addr 0 (of_nat DPL_USER) 0), (SEG_TSS + 1, SEG 0 (drop_bit 32 addr) (drop_bit 48 addr) 0 0 0)]"

definition seginit :: "'z kmem_scheme \<Rightarrow> (cpuseg \<times> 'z kmem_scheme) res" where
  "seginit k =
     bind_res (kalloc k) (\<lambda>(local, k).
       let k = zero_page local k; tss = local + 1024;
           m = st32m (km_mem k) (elem32 tss 16) 0x00680000;
           m = fold (\<lambda>(i, d) m. st64 m (elem64 local i) d) (gdt_entries tss) m
       in Ok (\<lparr>cs_local = local, cs_fsbase = local + 2048, cs_gdt = local, cs_gdtlimit = (NSEGS + 1) * 8 - 1, cs_tr = SEG_TSS * 8\<rparr>,
              k\<lparr>km_mem := m\<rparr>))"

text \<open>The machine registers of system calls: \<open>syscall_entry\<close> and \<open>ignore_sysret\<close> are the addresses of the assembly routines.\<close>

definition FL_TF :: addr_t where "FL_TF = 0x100"
definition FL_IF :: addr_t where "FL_IF = 0x200"
definition FL_DF :: addr_t where "FL_DF = 0x400"
definition FL_IOPL_3 :: addr_t where "FL_IOPL_3 = 0x3000"
definition FL_NT :: addr_t where "FL_NT = 0x4000"
definition FL_AC :: addr_t where "FL_AC = 0x40000"
definition MSR_STAR :: nat where "MSR_STAR = 0xC0000081"
definition MSR_LSTAR :: nat where "MSR_LSTAR = 0xC0000082"
definition MSR_CSTAR :: nat where "MSR_CSTAR = 0xC0000083"
definition MSR_SFMASK :: nat where "MSR_SFMASK = 0xC0000084"

definition syscallinit :: "addr_t \<Rightarrow> addr_t \<Rightarrow> (nat \<Rightarrow> addr_t) \<Rightarrow> nat \<Rightarrow> addr_t" where
  "syscallinit syscall_entry ignore_sysret msr =
     msr(MSR_STAR := push_bit 48 (of_nat USER32_CS) OR push_bit 32 (of_nat KERNEL_CS), MSR_LSTAR := syscall_entry, MSR_CSTAR := ignore_sysret,
         MSR_SFMASK := FL_TF OR FL_DF OR FL_IF OR FL_IOPL_3 OR FL_AC OR FL_NT)"

text \<open>The processor's reading of a descriptor, and of the selectors that \<^verbatim>\<open>syscall\<close> and \<^verbatim>\<open>sysret\<close> load.\<close>

definition d_code :: "addr_t \<Rightarrow> bool" where "d_code d \<longleftrightarrow> bit d 44 \<and> bit d 43"
definition d_data :: "addr_t \<Rightarrow> bool" where "d_data d \<longleftrightarrow> bit d 44 \<and> \<not> bit d 43 \<and> bit d 41"
definition d_long :: "addr_t \<Rightarrow> bool" where "d_long d \<longleftrightarrow> bit d 53 \<and> \<not> bit d 54"
definition d_present :: "addr_t \<Rightarrow> bool" where "d_present d \<longleftrightarrow> bit d 47"
definition d_dpl :: "addr_t \<Rightarrow> nat" where "d_dpl d = unat (drop_bit 45 d AND 3)"
definition d_tss :: "addr_t \<Rightarrow> bool" where "d_tss d \<longleftrightarrow> drop_bit 40 d AND 31 = 9"

definition tss_base :: "addr_t \<Rightarrow> addr_t \<Rightarrow> addr_t" where
  "tss_base d d' = (drop_bit 16 d AND 0xffff) OR push_bit 16 (drop_bit 32 d AND 0xff) OR push_bit 24 (drop_bit 56 d AND 0xff) OR push_bit 32 d'"

definition syscall_cs :: "(nat \<Rightarrow> addr_t) \<Rightarrow> nat" where "syscall_cs msr = unat (drop_bit 32 (msr MSR_STAR) AND 0xffff)"
definition syscall_ss :: "(nat \<Rightarrow> addr_t) \<Rightarrow> nat" where "syscall_ss msr = syscall_cs msr + 8"
definition sysret_cs :: "(nat \<Rightarrow> addr_t) \<Rightarrow> nat" where "sysret_cs msr = (unat (drop_bit 48 (msr MSR_STAR) AND 0xffff) + 16) OR 3"
definition sysret_ss :: "(nat \<Rightarrow> addr_t) \<Rightarrow> nat" where "sysret_ss msr = (unat (drop_bit 48 (msr MSR_STAR) AND 0xffff) + 8) OR 3"

definition descriptor :: "memory \<Rightarrow> addr_t \<Rightarrow> nat \<Rightarrow> addr_t" where
  "descriptor m gdt sel = ld64 m (elem64 gdt (sel div 8))"

lemma elem64_st:
  assumes "i < 512" "j < 512"
  shows "ld64 (st64 m (elem64 p i) v) (elem64 p j) = (if i = j then v else ld64 m (elem64 p j))"
proof (cases "i = j")
  case False
  have "8 \<le> unat (elem64 p j + of_nat k - elem64 p i)" if "k < 8" for k
  proof -
    have e: "elem64 p j + of_nat k - elem64 p i = of_nat (8 * j + k) - of_nat (8 * i)" by (simp add: elem64_def)
    have u: "unat (of_nat (8 * j + k) :: addr_t) = 8 * j + k" "unat (of_nat (8 * i) :: addr_t) = 8 * i"
      using assms that by (simp_all only: unat_of_nat) (simp_all add: take_bit_eq_mod)
    have "i < j \<or> j < i" using False by auto
    then show ?thesis unfolding e unat_diff word_le_nat_alt u using assms that by auto
  qed
  then show ?thesis using False ld64_apart(1) [of "elem64 p i" "elem64 p j"] by (simp add: apart_def)
qed simp

lemma stores64:
  "\<forall>(i, d) \<in> set es. i < 512 \<Longrightarrow> j < 512 \<Longrightarrow>
   ld64 (fold (\<lambda>(i, d) m. st64 m (elem64 p i) d) es m) (elem64 p j) = (case map_of (rev es) j of Some d \<Rightarrow> d | None \<Rightarrow> ld64 m (elem64 p j))"
  by (induction es arbitrary: m) (auto simp: elem64_st map_add_def split: option.splits)

lemma seginit_table:
  assumes "kmem_free kend k (p # ps)" "j < 9"
  shows "\<exists>k'. seginit k = Ok (\<lparr>cs_local = p, cs_fsbase = p + 2048, cs_gdt = p, cs_gdtlimit = 71, cs_tr = 56\<rparr>, k')
     \<and> ld64 (km_mem k') (elem64 p j) = the (map_of (gdt_entries (p + 1024)) j)"
proof -
  obtain k1 where k1: "kalloc k = Ok (p, k1)" using kalloc_ok(1) [OF assms(1)] by blast
  note segs = SEG_KCODE_def SEG_KDATA_def SEG_UCODE32_def SEG_UDATA_def SEG_UCODE_def SEG_KCPU_def SEG_TSS_def NSEGS_def
  have "j \<in> {0, 1, 2, 3, 4, 5, 6, 7, 8}" using assms(2) by auto
  then obtain d where "map_of (gdt_entries (p + 1024)) j = Some d" "map_of (rev (gdt_entries (p + 1024))) j = Some d"
    by (auto simp: gdt_entries_def segs)
  moreover have "\<forall>(i, d) \<in> set (gdt_entries a). i < 512" for a by (simp add: gdt_entries_def segs)
  ultimately show ?thesis using assms(2)
    by (simp add: seginit_def k1 zero_page_def Let_def SEG_TSS_def NSEGS_def stores64)
qed

lemma bit_byte_mask: "bit (0xFF :: 64 word) n \<longleftrightarrow> n < 8" "bit (15 :: 64 word) n \<longleftrightarrow> n < 4" "bit (3 :: 64 word) n \<longleftrightarrow> n < 2"
proof -
  have "(0xFF :: 64 word) = mask 8" "(15 :: 64 word) = mask 4" "(3 :: 64 word) = mask 2" by (simp_all add: mask_eq_exp_minus_1)
  then show "bit (0xFF :: 64 word) n \<longleftrightarrow> n < 8" "bit (15 :: 64 word) n \<longleftrightarrow> n < 4" "bit (3 :: 64 word) n \<longleftrightarrow> n < 2"
    by (simp_all only: bit_mask_iff) auto
qed

text \<open>The base of a task state segment, spread over two descriptors, is put together again.\<close>

lemma bit_SEG_low:
  "n < 16 \<Longrightarrow> bit (SEG ty lim base sys dpl rsv) n = bit lim n"
  "16 \<le> n \<Longrightarrow> n < 32 \<Longrightarrow> bit (SEG ty lim base sys dpl rsv) n = bit base (n - 16)"
  "32 \<le> n \<Longrightarrow> n < 40 \<Longrightarrow> bit (SEG ty lim base sys dpl rsv) n = bit base (n - 16)"
  "56 \<le> n \<Longrightarrow> n < 64 \<Longrightarrow> bit (SEG ty lim base sys dpl rsv) n = bit base (n - 32)"
  unfolding SEG_def bit_or_iff bit_push_bit_iff bit_and_iff bit_drop_bit_eq comp_def bits_of_masks bit_byte_mask bit_1_iff by auto

lemma tss_base_SEG: "tss_base (SEG ty lim a sys dpl rsv) (SEG ty' (drop_bit 32 a) (drop_bit 48 a) sys' dpl' rsv') = a"
proof (rule bit_eqI)
  fix n :: nat
  assume "possible_bit TYPE(64 word) n"
  then have n: "n < 64" by simp
  let ?d = "SEG ty lim a sys dpl rsv" and ?d' = "SEG ty' (drop_bit 32 a) (drop_bit 48 a) sys' dpl' rsv'"
  have b: "bit (tss_base ?d ?d') n \<longleftrightarrow> n < 16 \<and> bit ?d (16 + n) \<or> 16 \<le> n \<and> n < 24 \<and> bit ?d (32 + (n - 16))
      \<or> 24 \<le> n \<and> n < 32 \<and> bit ?d (56 + (n - 24)) \<or> 32 \<le> n \<and> bit ?d' (n - 32)"
    unfolding tss_base_def bit_or_iff bit_push_bit_iff bit_and_iff bit_drop_bit_eq comp_def bits_of_masks bit_byte_mask using n by auto
  consider "n < 16" | "16 \<le> n" "n < 24" | "24 \<le> n" "n < 32" | "32 \<le> n" "n < 48" | "48 \<le> n" by linarith
  then show "bit (tss_base ?d ?d') n = bit a n"
  proof cases
    case 4
    then show ?thesis unfolding b using bit_SEG_low(1) [of "n - 32" ty' "drop_bit 32 a" "drop_bit 48 a" sys' dpl' rsv'] by (simp add: bit_drop_bit_eq)
  next
    case 5
    then show ?thesis unfolding b using n bit_SEG_low(2) [of "n - 32" ty' "drop_bit 32 a" "drop_bit 48 a" sys' dpl' rsv'] by (simp add: bit_drop_bit_eq)
  qed (unfold b, simp_all add: bit_SEG_low)
qed

lemma bit_SEG_mid:
  "40 \<le> n \<Longrightarrow> n < 44 \<Longrightarrow> bit (SEG ty lim base sys dpl rsv) n = bit ty (n - 40)"
  "bit (SEG ty lim base sys dpl rsv) 44 = bit sys 0" "bit (SEG ty lim base sys dpl rsv) 47"
  unfolding SEG_def bit_or_iff bit_push_bit_iff bit_and_iff bit_drop_bit_eq comp_def bits_of_masks bit_byte_mask bit_1_iff by auto

lemma SEG_tss: "d_tss (SEG STS_T64A lim a 0 dpl rsv)" "d_present (SEG STS_T64A lim a 0 dpl rsv)"
proof -
  have m: "(31 :: 64 word) = mask 5" "(9 :: 64 word) = 2 ^ 0 OR 2 ^ 3" by (simp_all add: mask_eq_exp_minus_1)
  show "d_tss (SEG STS_T64A lim a 0 dpl rsv)" unfolding d_tss_def
  proof (rule bit_eqI)
    fix n :: nat
    have "bit (9 :: 64 word) n \<longleftrightarrow> n = 0 \<or> n = 3" unfolding m(2) bit_or_iff bit_exp_iff by auto
    moreover have "bit (31 :: 64 word) n \<longleftrightarrow> n < 5" unfolding m(1) bit_mask_iff by auto
    moreover have "bit (SEG STS_T64A lim a 0 dpl rsv) (40 + n) \<longleftrightarrow> bit (9 :: 64 word) n" if "n < 5"
      using bit_SEG_mid(1) [of "40 + n"] bit_SEG_mid(2) that by (cases "n = 4") (simp_all add: STS_T64A_def)
    ultimately show "bit (drop_bit 40 (SEG STS_T64A lim a 0 dpl rsv) AND 31) n = bit (9 :: 64 word) n"
      unfolding bit_and_iff bit_drop_bit_eq comp_def by (cases "n < 5") (simp_all only: simp_thms, auto)
  qed
  show "d_present (SEG STS_T64A lim a 0 dpl rsv)" by (simp add: d_present_def bit_SEG_mid)
qed

lemma selectors_value:
  "syscall_cs (syscallinit e i msr) = 8" "syscall_ss (syscallinit e i msr) = 16" "sysret_cs (syscallinit e i msr) = 43" "sysret_ss (syscallinit e i msr) = 35"
  by (simp_all add: syscall_cs_def syscall_ss_def sysret_cs_def sysret_ss_def syscallinit_def MSR_STAR_def MSR_LSTAR_def MSR_CSTAR_def MSR_SFMASK_def
      USER32_CS_def KERNEL_CS_def SEG_KCODE_def SEG_UCODE32_def DPL_USER_def)

text \<open>
  C39. The selectors that \<^verbatim>\<open>syscall\<close> and \<^verbatim>\<open>sysret\<close> load after \<^verbatim>\<open>syscallinit\<close> name descriptors that \<^verbatim>\<open>seginit\<close> wrote for that purpose: 64-bit code and
  writable data, present, with the privilege the selector asks for; the user selectors are the ones the rest of the kernel uses. The task register
  names a task state segment whose base is the page's address plus 1024, and all selectors are within the limit of the table.
\<close>

theorem segments_serve_syscalls:
  assumes "kmem_free kend k (p # ps)"
  shows "\<exists>cs k'. seginit k = Ok (cs, k') \<and> (let msr = syscallinit e i msr0; d = descriptor (km_mem k') (cs_gdt cs) in
     syscall_cs msr = KERNEL_CS \<and> d_code (d (syscall_cs msr)) \<and> d_long (d (syscall_cs msr)) \<and> d_present (d (syscall_cs msr)) \<and> d_dpl (d (syscall_cs msr)) = 0
     \<and> d_data (d (syscall_ss msr)) \<and> d_present (d (syscall_ss msr)) \<and> d_dpl (d (syscall_ss msr)) = 0
     \<and> sysret_cs msr = USER_CS \<and> d_code (d (sysret_cs msr)) \<and> d_long (d (sysret_cs msr)) \<and> d_present (d (sysret_cs msr)) \<and> d_dpl (d (sysret_cs msr)) = 3
     \<and> sysret_ss msr = USER_DS \<and> d_data (d (sysret_ss msr)) \<and> d_present (d (sysret_ss msr)) \<and> d_dpl (d (sysret_ss msr)) = 3
     \<and> d_tss (d (cs_tr cs)) \<and> d_present (d (cs_tr cs)) \<and> tss_base (d (cs_tr cs)) (d (cs_tr cs + 8)) = cs_local cs + 1024
     \<and> cs_tr cs + 15 \<le> cs_gdtlimit cs)"
proof -
  let ?cs = "\<lparr>cs_local = p, cs_fsbase = p + 2048, cs_gdt = p, cs_gdtlimit = 71, cs_tr = 56\<rparr>"
  obtain k' where k': "seginit k = Ok (?cs, k')" using seginit_table [OF assms, of 0] by auto
  note segs = SEG_KCODE_def SEG_KDATA_def SEG_UCODE32_def SEG_UDATA_def SEG_UCODE_def SEG_KCPU_def SEG_TSS_def
  note descs = d_code_def d_data_def d_long_def d_present_def d_dpl_def
  note types = STA_X_def STA_R_def STA_W_def APP_SEG_def DPL_USER_def
  have entries: "ld64 (km_mem k') (elem64 p j) = the (map_of (gdt_entries (p + 1024)) j)" if "j < 9" for j
    using seginit_table [OF assms that] k' by auto
  have d: "descriptor (km_mem k') p 8 = SEG (STA_X OR STA_R) 0 0 APP_SEG 0 1" "descriptor (km_mem k') p 16 = SEG STA_W 0 0 APP_SEG 0 0"
    "descriptor (km_mem k') p 35 = SEG STA_W 0 0 APP_SEG 3 0" "descriptor (km_mem k') p 43 = SEG (STA_X OR STA_R) 0 0 APP_SEG 3 1"
    "descriptor (km_mem k') p 56 = SEG STS_T64A 0xb (p + 1024) 0 3 0"
    "descriptor (km_mem k') p 64 = SEG 0 (drop_bit 32 (p + 1024)) (drop_bit 48 (p + 1024)) 0 0 0"
    by (simp_all add: descriptor_def entries gdt_entries_def segs DPL_USER_def)
  have u: "USER_CS = 43" "USER_DS = 35" "KERNEL_CS = 8" by (simp_all add: USER_CS_def USER_DS_def KERNEL_CS_def segs DPL_USER_def)
  show ?thesis
    by (rule exI [of _ ?cs], rule exI [of _ k'])
       (simp add: k' Let_def selectors_value d u SEG_tss tss_base_SEG, simp add: SEG_def types descs)
qed

theorem segments_serve_syscalls_witness:
  "\<exists>cs k'. seginit (any_kmem\<lparr>km_freelist := 0xFFFF800000200000\<rparr>) = Ok (cs, k')
     \<and> d_code (descriptor (km_mem k') (cs_gdt cs) (sysret_cs (syscallinit 0xFFFF800000105000 0 (\<lambda>_. 0))))"
proof -
  let ?k = "any_kmem\<lparr>km_freelist := 0xFFFF800000200000\<rparr>"
  have "kmem_free 0xFFFF800000100000 ?k [0xFFFF800000200000]"
    by (simp add: kmem_free_def page_ok_def PGSIZE_def V2P_def KERNBASE_def PHYSTOP_def any_kmem_def ld64_def upt_rec)
  from segments_serve_syscalls [OF this, where e = "0xFFFF800000105000" and i = 0 and ?msr0.0 = "\<lambda>_. 0"]
  show ?thesis unfolding Let_def by blast
qed

end
