(* ===== verification/Apic.thy ===== *)
theory Apic
  imports Trap Mp Console
begin

text \<open>
  \<^verbatim>\<open>src/lapic.c\<close> (but for the clock, which is in \<open>Cmos\<close>), \<^verbatim>\<open>src/ioapic.c\<close>, \<^verbatim>\<open>src/uart.c\<close> and \<^verbatim>\<open>startothers\<close> of \<^verbatim>\<open>src/main.c\<close>: interrupt controllers, the serial line, and
  the start of the other processors. Writes to device registers and ports are traces in the order of the code; loops that wait for a device or for
  another processor are left out.
\<close>

unbundle bit_operations_syntax

section \<open>The local APIC\<close>

definition ID :: nat where "ID = 0x0020 div 4"
definition VER :: nat where "VER = 0x0030 div 4"
definition TPR :: nat where "TPR = 0x0080 div 4"
definition EOI :: nat where "EOI = 0x00B0 div 4"
definition SVR :: nat where "SVR = 0x00F0 div 4"
definition ENABLE :: "32 word" where "ENABLE = 0x00000100"
definition ESR :: nat where "ESR = 0x0280 div 4"
definition ICRLO :: nat where "ICRLO = 0x0300 div 4"
definition INIT :: "32 word" where "INIT = 0x00000500"
definition LEVEL :: "32 word" where "LEVEL = 0x00008000"
definition BCAST :: "32 word" where "BCAST = 0x00080000"
definition ICRHI :: nat where "ICRHI = 0x0310 div 4"
definition TIMER :: nat where "TIMER = 0x0320 div 4"
definition X1 :: "32 word" where "X1 = 0x0000000B"
definition PERIODIC :: "32 word" where "PERIODIC = 0x00020000"
definition PCINT :: nat where "PCINT = 0x0340 div 4"
definition LINT0 :: nat where "LINT0 = 0x0350 div 4"
definition LINT1 :: nat where "LINT1 = 0x0360 div 4"
definition ERROR :: nat where "ERROR = 0x0370 div 4"
definition MASKED :: "32 word" where "MASKED = 0x00010000"
definition TICR :: nat where "TICR = 0x0380 div 4"
definition TDCR :: nat where "TDCR = 0x03E0 div 4"
definition IRQ_ERROR :: nat where "IRQ_ERROR = 19"

text \<open>\<open>lapic\<close> is what the registers contain when they are read, if there is a controller; the result are the writes.\<close>

definition lapicinit :: "(nat \<Rightarrow> 32 word) option \<Rightarrow> (nat \<times> 32 word) list" where
  "lapicinit lapic =
     (case lapic of
        None \<Rightarrow> []
      | Some r \<Rightarrow>
          [(SVR, ENABLE OR of_nat (T_IRQ0 + IRQ_SPURIOUS)), (TDCR, X1), (TIMER, PERIODIC OR of_nat (T_IRQ0 + IRQ_TIMER)), (TICR, 10000000),
           (LINT0, MASKED), (LINT1, MASKED)]
          @ (if drop_bit 16 (r VER) AND 0xFF \<ge> 4 then [(PCINT, MASKED)] else [])
          @ [(ERROR, of_nat (T_IRQ0 + IRQ_ERROR)), (ESR, 0), (ESR, 0), (EOI, 0), (ICRHI, 0), (ICRLO, BCAST OR INIT OR LEVEL), (TPR, 0)])"

definition lapiceoi :: "(nat \<Rightarrow> 32 word) option \<Rightarrow> (nat \<times> 32 word) list" where
  "lapiceoi lapic = (case lapic of None \<Rightarrow> [] | Some r \<Rightarrow> [(EOI, 0)])"

text \<open>The warning of \<^verbatim>\<open>cpunum\<close> is printed for the first call with interrupts on; \<open>n\<close> counts such calls.\<close>

definition cpunum_warns :: "bool \<Rightarrow> nat \<Rightarrow> bool \<times> nat" where
  "cpunum_warns intr n = (if intr then (n = 0, n + 1) else (False, n))"

fun find_cpu :: "nat \<Rightarrow> nat \<Rightarrow> nat list \<Rightarrow> nat option" where
  "find_cpu i apicid [] = None"
| "find_cpu i apicid (c # cs) = (if c = apicid then Some i else find_cpu (Suc i) apicid cs)"

definition cpunum :: "(nat \<Rightarrow> 32 word) option \<Rightarrow> nat list \<Rightarrow> nat res" where
  "cpunum lapic cpus =
     (case lapic of
        None \<Rightarrow> Ok 0
      | Some r \<Rightarrow> (case find_cpu 0 (unat (drop_bit 24 (r ID))) cpus of Some i \<Rightarrow> Ok i | None \<Rightarrow> Panic (''unknown apicid'' @ [CHR 0x0A])))"

text \<open>The number of a processor is its place in the table that \<^verbatim>\<open>mpinit\<close> has filled.\<close>

lemma find_cpu_nth: "j < length cs \<Longrightarrow> distinct cs \<Longrightarrow> find_cpu i (cs ! j) cs = Some (i + j)"
proof (induction cs arbitrary: i j)
  case (Cons c cs)
  then show ?case by (cases j) (auto simp: in_set_conv_nth)
qed simp

lemma cpunum_finds: "j < length cpus \<Longrightarrow> distinct cpus \<Longrightarrow> unat (drop_bit 24 (r ID)) = cpus ! j \<Longrightarrow> cpunum (Some r) cpus = Ok j"
  by (simp add: cpunum_def find_cpu_nth)

section \<open>Starting the other processors\<close>







section \<open>The I/O APIC\<close>

definition REG_ID :: nat where "REG_ID = 0x00"
definition REG_VER :: nat where "REG_VER = 0x01"
definition REG_TABLE :: nat where "REG_TABLE = 0x10"
definition INT_DISABLED :: "32 word" where "INT_DISABLED = 0x00010000"

record ioapic =
  io_reg :: nat
  io_data :: "nat \<Rightarrow> 32 word"

definition ioapicread :: "nat \<Rightarrow> ioapic \<Rightarrow> 32 word \<times> ioapic" where
  "ioapicread reg s = (let s = s\<lparr>io_reg := reg\<rparr> in (io_data s (io_reg s), s))"

definition ioapicwrite :: "nat \<Rightarrow> 32 word \<Rightarrow> ioapic \<Rightarrow> ioapic" where
  "ioapicwrite reg data s = (let s = s\<lparr>io_reg := reg\<rparr> in s\<lparr>io_data := (io_data s)(io_reg s := data)\<rparr>)"

text \<open>The result tells also whether the message about the identifier is printed.\<close>

definition disable_irq :: "nat \<Rightarrow> ioapic \<Rightarrow> ioapic" where
  "disable_irq i s = ioapicwrite (REG_TABLE + 2 * i + 1) 0 (ioapicwrite (REG_TABLE + 2 * i) (INT_DISABLED OR of_nat (T_IRQ0 + i)) s)"

definition ioapicinit :: "nat \<Rightarrow> ioapic \<Rightarrow> bool \<times> ioapic" where
  "ioapicinit ioapicid s =
     (let (v, s) = ioapicread REG_VER s; maxintr = unat (drop_bit 16 v AND 0xFF); (v, s) = ioapicread REG_ID s; idn = unat (drop_bit 24 v)
      in (idn \<noteq> ioapicid, fold disable_irq [0..<Suc maxintr] s))"

definition ioapicenable :: "nat \<Rightarrow> nat \<Rightarrow> ioapic \<Rightarrow> ioapic" where
  "ioapicenable irq cpu s =
     ioapicwrite (REG_TABLE + 2 * irq + 1) (push_bit 24 (of_nat cpu)) (ioapicwrite (REG_TABLE + 2 * irq) (of_nat (T_IRQ0 + irq)) s)"

section \<open>The serial line\<close>

definition COM1 :: nat where "COM1 = 0x3f8"

text \<open>The wait of \<^verbatim>\<open>uartputc\<close>: \<open>st i\<close> is the line status at read \<open>i\<close>. The port writes of a character follow it.\<close>

function uart_spins :: "(nat \<Rightarrow> byte) \<Rightarrow> nat \<Rightarrow> nat" where
  "uart_spins st i = (if i < 128 \<and> st i AND 0x20 = 0 then uart_spins st (Suc i) else i)"
  by pat_completeness auto
termination by (relation "measure (\<lambda>(st, i). 128 - i)") auto

declare uart_spins.simps [simp del]

definition uart_send :: "bool \<Rightarrow> (nat \<Rightarrow> byte) \<Rightarrow> nat \<Rightarrow> nat \<times> (nat \<times> nat) list" where
  "uart_send uart st c = (if \<not> uart then (0, []) else (uart_spins st 0, [(COM1, c mod 256)]))"

definition uartearlyinit :: "byte \<Rightarrow> (nat \<Rightarrow> nat \<Rightarrow> byte) \<Rightarrow> bool \<times> (nat \<times> nat) list" where
  "uartearlyinit status st =
     (let outs = [(COM1 + 2, 0), (COM1 + 3, 0x80), (COM1, 115200 div 9600), (COM1 + 1, 0), (COM1 + 3, 3), (COM1 + 4, 0), (COM1 + 1, 1)] in
      if status = 0xFF then (False, outs)
      else (True, outs @ concat (map (\<lambda>(n, c). snd (uart_send True (st n) c)) (enumerate 0 [120, 118, 54, 46, 46, 46, 10]))))"

definition uartinit :: "bool \<Rightarrow> ioapic \<Rightarrow> ioapic" where
  "uartinit uart s = (if uart then ioapicenable IRQ_COM1 0 s else s)"

definition uartgetc :: "bool \<Rightarrow> byte \<Rightarrow> byte \<Rightarrow> int" where
  "uartgetc uart status data = (if \<not> uart then -1 else if status AND 1 = 0 then -1 else uint data)"

text \<open>The characters that are in the receiver are read one after the other until there is none.\<close>

definition uartintr :: "byte list \<Rightarrow> 'z console_scheme \<Rightarrow> 'z console_scheme" where
  "uartintr cs st = consoleintr (if has_uart st then map (\<lambda>c. nat (uartgetc True 1 c)) cs else []) st"

section \<open>Power\<close>

text \<open>The port writes of \<^verbatim>\<open>sys_shutdown\<close> and \<^verbatim>\<open>sys_reboot\<close> with their results.\<close>

definition sys_shutdown :: "int \<times> (nat \<times> nat) list" where
  "sys_shutdown = (0, [(0x604, 0x2000)])"

definition sys_reboot :: "int \<times> (nat \<times> nat) list" where
  "sys_reboot = (0, [(0xCF9, 0x02), (0xCF9, 0x06), (0x64, 0xFE)])"

section \<open>Processors that are started\<close>










lemma apic_dest: "c < 256 \<Longrightarrow> unat (drop_bit 24 (push_bit 24 (ucast (of_nat c :: byte)) :: 32 word)) = c"
proof -
  assume "c < 256"
  then have c: "unat (of_nat c :: byte) = c" by (simp add: unat_of_nat take_bit_eq_mod)
  have "drop_bit 24 (push_bit 24 (ucast b) :: 32 word) = ucast b" for b :: byte
    by (rule bit_eqI) (auto simp: bit_simps dest: bit_imp_le_length)
  then have "unat (drop_bit 24 (push_bit 24 (ucast (of_nat c :: byte)) :: 32 word)) = unat (ucast (of_nat c :: byte) :: 32 word)" by simp
  also have "\<dots> = c" using c \<open>c < 256\<close> by (simp add: unsigned_ucast_eq take_bit_nat_eq_self)
  finally show ?thesis .
qed




















section \<open>Interrupt routing\<close>

text \<open>What the controller does with a line: nothing if it is masked, and otherwise the vector and the processor it sends.\<close>

definition route :: "ioapic \<Rightarrow> nat \<Rightarrow> (nat \<times> nat) option" where
  "route s i = (let lo = io_data s (REG_TABLE + 2 * i); hi = io_data s (REG_TABLE + 2 * i + 1) in
     if bit lo 16 then None else Some (unat (lo AND 0xFF), unat (drop_bit 24 hi)))"

lemma low_byte: "n < 256 \<Longrightarrow> unat ((of_nat n :: 32 word) AND 0xFF) = n \<and> \<not> bit (of_nat n :: 32 word) 16"
proof -
  assume n: "n < 256"
  have m: "(0xFF :: 32 word) = mask 8" by (simp add: mask_eq_exp_minus_1)
  have u: "unat (of_nat n :: 32 word) = n" using n by (simp add: unat_of_nat take_bit_eq_mod)
  have "unat ((of_nat n :: 32 word) AND 0xFF) = n" unfolding m take_bit_eq_mask [symmetric] unsigned_take_bit_eq u
    using n by (simp add: take_bit_nat_eq_self)
  moreover have "bit (unat (of_nat n :: 32 word)) 16 = bit (of_nat n :: 32 word) 16" by (simp only: bit_unsigned_iff) simp
  ultimately show ?thesis using n unfolding u by (simp add: bit_iff_odd)
qed

lemma route_disable: "route (disable_irq i s) j = (if i = j then None else route s j)"
  by (auto simp: route_def disable_irq_def ioapicwrite_def REG_TABLE_def INT_DISABLED_def bit_or_iff Let_def)

lemma route_enable:
  assumes "i < 224" "c < 256"
  shows "route (ioapicenable i c s) j = (if i = j then Some (T_IRQ0 + i, c) else route s j)"
proof -
  have "(of_nat c :: 32 word) = ucast (of_nat c :: byte)"
    using assms(2) by (simp add: word_unat_eq_iff unsigned_ucast_eq unat_of_nat take_bit_nat_eq_self)
  then have "unat (drop_bit 24 (push_bit 24 (of_nat c)) :: 32 word) = c" using apic_dest [OF assms(2)] by simp
  then show ?thesis using low_byte [of "T_IRQ0 + i"] assms(1)
    by (auto simp: route_def ioapicenable_def ioapicwrite_def REG_TABLE_def Let_def T_IRQ0_def simp del: of_nat_add)
qed

lemma disable_all: "route (fold disable_irq [0..<n] s) j = (if j < n then None else route s j)"
  by (induction n) (auto simp: route_disable less_Suc_eq)

lemma enable_all:
  assumes "list_all (\<lambda>(i, c). i < 224 \<and> c < 256) es"
  shows "route (fold (\<lambda>(i, c). ioapicenable i c) es s) j = (case map_of (rev es) j of Some c \<Rightarrow> Some (T_IRQ0 + j, c) | None \<Rightarrow> route s j)"
  using assms by (induction es arbitrary: s) (auto simp: route_enable map_add_def split: option.splits)

text \<open>
  After \<^verbatim>\<open>ioapicinit\<close> and any calls of \<^verbatim>\<open>ioapicenable\<close>, a line of the controller is silent unless it has been enabled; then its interrupt goes to the
  processor of the last call for it, with the vector \<^verbatim>\<open>T_IRQ0\<close> plus the number of the line.
\<close>

theorem ioapic_routes:
  assumes "ioapicinit ioapicid s = (w, s')" "list_all (\<lambda>(i, c). i < 224 \<and> c < 256) es" "j \<le> unat (drop_bit 16 (io_data s REG_VER) AND 0xFF)"
  shows "route (fold (\<lambda>(i, c). ioapicenable i c) es s') j = (case map_of (rev es) j of Some c \<Rightarrow> Some (T_IRQ0 + j, c) | None \<Rightarrow> None)"
proof -
  have s': "s' = fold disable_irq [0..<Suc (unat (drop_bit 16 (io_data s REG_VER) AND 0xFF))] (s\<lparr>io_reg := REG_ID\<rparr>)"
    using assms(1) by (auto simp: ioapicinit_def ioapicread_def Let_def simp del: upt_Suc)
  have "route s' j = None" unfolding s' disable_all using assms(3) by simp
  then show ?thesis by (simp add: enable_all [OF assms(2)] split: option.splits)
qed

text \<open>The lines of the keyboard, which console and display both enable, the serial line and the disk, on a controller with 24 lines.\<close>

theorem ioapic_routes_witness:
  "let s' = snd (ioapicinit 0 \<lparr>io_reg = 0, io_data = (\<lambda>_. 0x00170011)\<rparr>);
       t = fold (\<lambda>(i, c). ioapicenable i c) [(IRQ_KBD, 0), (IRQ_KBD, 0), (IRQ_COM1, 0), (IRQ_IDE, 3)] s'
   in route t IRQ_IDE = Some (46, 3) \<and> route t IRQ_KBD = Some (33, 0) \<and> route t 12 = None"
proof -
  let ?s = "\<lparr>io_reg = 0, io_data = (\<lambda>_. 0x00170011 :: 32 word)\<rparr>"
  obtain w s' where i: "ioapicinit 0 ?s = (w, s')" by (cases "ioapicinit 0 ?s")
  note r = ioapic_routes [OF i, of "[(IRQ_KBD, 0), (IRQ_KBD, 0), (IRQ_COM1, 0), (IRQ_IDE, 3)]"]
  show ?thesis using r [of IRQ_IDE] r [of IRQ_KBD] r [of 12] unfolding i Let_def snd_conv
    by (simp add: IRQ_KBD_def IRQ_COM1_def IRQ_IDE_def T_IRQ0_def)
qed

section \<open>Serial output\<close>

text \<open>A character is sent after at most 128 looks at the line, and what is sent is what the console's model records.\<close>

lemma uart_spins_bound: "i \<le> 128 \<Longrightarrow> uart_spins st i \<le> 128 \<and> (uart_spins st i < 128 \<longrightarrow> st (uart_spins st i) AND 0x20 \<noteq> 0)"
proof (induction st i rule: uart_spins.induct)
  case (1 st i)
  then show ?case by (subst (1 2 3) uart_spins.simps) auto
qed

lemma uart_send_console:
  "uart_send (has_uart st) line c = (n, outs) \<Longrightarrow> n \<le> 128 \<and> con_ev (uartputc c st) = con_ev st @ map (\<lambda>(p, b). Uart b) outs"
  using uart_spins_bound [of 0 line] by (auto simp: uart_send_def uartputc_def emit_def split: if_splits)

end
