(* ===== verification/Init.thy ===== *)
theory Init
  imports Usercmds
begin

text \<open>
  \<^verbatim>\<open>src/init.c\<close>, the first user program: it opens the devices, makes them if they are missing, runs the crawler once and then a shell after the other. The files it
  works on are the directory of the devices and the nodes in it; the results of \<^verbatim>\<open>fork\<close>, \<^verbatim>\<open>wait\<close> and \<^verbatim>\<open>chdir\<close> are parameters.
\<close>

section \<open>Devices\<close>

text \<open>A descriptor refers to a device by its numbers.\<close>

record initst =
  is_fds :: "(nat \<times> nat) option list"
  is_dev :: bool
  is_nodes :: "(byte list \<times> nat \<times> nat) list"

definition DEV_CONSOLE :: "byte list" where "DEV_CONSOLE = ascii ''/dev/console''"
definition DEV_DISPLAY :: "byte list" where "DEV_DISPLAY = ascii ''/dev/display''"

definition put_fd :: "nat \<times> nat \<Rightarrow> initst \<Rightarrow> int \<times> initst" where
  "put_fd d s = (case first_idx (\<lambda>x. x = None) (is_fds s) of None \<Rightarrow> (-1, s) | Some i \<Rightarrow> (int i, s\<lparr>is_fds := (is_fds s)[i := Some d]\<rparr>))"

definition i_open :: "byte list \<Rightarrow> initst \<Rightarrow> int \<times> initst" where
  "i_open path s = (case map_of (is_nodes s) path of None \<Rightarrow> (-1, s) | Some d \<Rightarrow> put_fd d s)"

definition i_dup :: "nat \<Rightarrow> initst \<Rightarrow> int \<times> initst" where
  "i_dup fd s = (if fd < length (is_fds s) then case is_fds s ! fd of None \<Rightarrow> (-1, s) | Some d \<Rightarrow> put_fd d s else (-1, s))"

definition i_mkdir :: "initst \<Rightarrow> int \<times> initst" where
  "i_mkdir s = (if is_dev s then (-1, s) else (0, s\<lparr>is_dev := True\<rparr>))"

definition i_mknod :: "byte list \<Rightarrow> nat \<Rightarrow> nat \<Rightarrow> initst \<Rightarrow> int \<times> initst" where
  "i_mknod path major minor s =
     (if \<not> is_dev s \<or> map_of (is_nodes s) path \<noteq> None then (-1, s) else (0, s\<lparr>is_nodes := (path, major, minor) # is_nodes s\<rparr>))"

text \<open>The first part of \<^verbatim>\<open>main\<close>.\<close>

definition init_console :: "initst \<Rightarrow> initst" where
  "init_console s =
     (let (r, s) = i_open DEV_CONSOLE s in
      if r < 0 then let s = snd (i_mkdir s); s = snd (i_mknod DEV_CONSOLE 1 1 s) in snd (i_open DEV_CONSOLE s) else s)"

definition init_display :: "initst \<Rightarrow> initst" where
  "init_display s =
     (let (r, s) = i_open DEV_DISPLAY s in
      if r < 0 then let s = snd (i_mknod DEV_DISPLAY 2 1 s) in snd (i_open DEV_DISPLAY s) else s)"

definition init_devices :: "initst \<Rightarrow> initst" where
  "init_devices s = init_display (snd (i_dup 0 (snd (i_dup 0 (init_console s)))))"

section \<open>Processes\<close>

definition init_crawler :: "int \<Rightarrow> ucall list" where
  "init_crawler pid =
     (if pid = 0 then [ucall.Exec (ascii ''/bin/crawler'') [ascii ''/bin/crawler''], Printf 1 (nl ''init: crawler failed'') []] else [])"

text \<open>What the child of a round does up to its \<^verbatim>\<open>exec\<close>, and after it if it fails; \<open>cd\<close> are the results of the two calls of \<^verbatim>\<open>chdir\<close>.\<close>

definition init_child :: "int \<Rightarrow> int \<Rightarrow> ucall list" where
  "init_child cd1 cd2 =
     (if cd1 < 0 then Mkdir (ascii ''/home'') # (if cd2 < 0 then [Printf 1 (nl ''init: cannot enter /home'') []] else []) else [])
     @ [ucall.Exec (ascii ''/bin/sh'') [ascii ''/bin/sh''], Printf 1 (nl ''init: exec sh failed'') []]"

text \<open>The loop that waits for the shell: \<open>ws\<close> are the results of \<^verbatim>\<open>wait\<close>, and the result has those that are left.\<close>

fun init_wait :: "int \<Rightarrow> int list \<Rightarrow> ucall list \<times> int list" where
  "init_wait pid [] = ([], [])"
| "init_wait pid (w # ws) =
     (if w \<ge> 0 \<and> w \<noteq> pid then case init_wait pid ws of (out, ws) \<Rightarrow> (Printf 1 (nl ''zombie!'') [] # out, ws) else ([], ws))"

text \<open>The rounds of the parent, given the results of \<^verbatim>\<open>fork\<close> and \<^verbatim>\<open>wait\<close>; it ends when a fork fails or the results are used up.\<close>

fun init_rounds :: "int list \<Rightarrow> int list \<Rightarrow> ucall list" where
  "init_rounds [] ws = []"
| "init_rounds (pid # pids) ws =
     Printf 1 (nl ''init: starting sh'') [] #
     (if pid < 0 then [Printf 1 (nl ''init: fork failed'') []]
      else case init_wait pid ws of (out, ws) \<Rightarrow> out @ init_rounds pids ws)"

section \<open>Properties\<close>

lemma dev_names: "DEV_CONSOLE \<noteq> DEV_DISPLAY" "DEV_DISPLAY \<noteq> DEV_CONSOLE"
  by (simp_all add: DEV_CONSOLE_def DEV_DISPLAY_def ascii_def)

lemma init_console_opens:
  assumes "is_fds s = None # fs" "map_of (is_nodes s) DEV_CONSOLE \<in> {None, Some (1, 1)}" "is_nodes s \<noteq> [] \<longrightarrow> is_dev s"
  shows "is_fds (init_console s) = Some (1, 1) # fs" "is_dev (init_console s)" "map_of (is_nodes (init_console s)) DEV_CONSOLE = Some (1, 1)"
    "map_of (is_nodes (init_console s)) DEV_DISPLAY = map_of (is_nodes s) DEV_DISPLAY"
  using assms by (auto simp: init_console_def i_open_def i_mkdir_def i_mknod_def put_fd_def Let_def dev_names split: if_splits)

lemma dup_opens: "is_fds s = map Some ds @ None # fs \<Longrightarrow> ds \<noteq> [] \<Longrightarrow> snd (i_dup 0 s) = s\<lparr>is_fds := map Some (ds @ [hd ds]) @ fs\<rparr>"
proof -
  assume s: "is_fds s = map Some ds @ None # fs" "ds \<noteq> []"
  have "first_idx (\<lambda>x. x = None) (map Some ds @ None # fs) = Some (length ds)" by (induction ds) auto
  then show ?thesis using s by (cases ds) (auto simp: i_dup_def put_fd_def list_update_append)
qed

lemma init_display_opens:
  assumes "is_fds s = map Some ds @ None # fs" "map_of (is_nodes s) DEV_DISPLAY \<in> {None, Some (2, 1)}" "is_dev s"
  shows "is_fds (init_display s) = map Some (ds @ [(2, 1)]) @ fs" "map_of (is_nodes (init_display s)) DEV_DISPLAY = Some (2, 1)"
    "map_of (is_nodes (init_display s)) DEV_CONSOLE = map_of (is_nodes s) DEV_CONSOLE"
proof -
  have "first_idx (\<lambda>x. x = None) (map Some ds @ None # fs) = Some (length ds)" by (induction ds) auto
  then have "put_fd (2, 1) t = (int (length ds), t\<lparr>is_fds := map Some (ds @ [(2, 1)]) @ fs\<rparr>)" if "is_fds t = is_fds s" for t
    using that assms(1) by (simp add: put_fd_def list_update_append)
  then show "is_fds (init_display s) = map Some (ds @ [(2, 1)]) @ fs" "map_of (is_nodes (init_display s)) DEV_DISPLAY = Some (2, 1)"
    "map_of (is_nodes (init_display s)) DEV_CONSOLE = map_of (is_nodes s) DEV_CONSOLE"
    using assms(2,3) by (auto simp: init_display_def i_open_def i_mknod_def Let_def dev_names)
qed

text \<open>
  Whether the device nodes, or even their directory, exist or not, after the start the descriptors 0, 1 and 2 are the console and 3 is the display, and
  the nodes are there for the next start.
\<close>

theorem init_opens_devices:
  assumes "is_fds s = replicate n None" "4 \<le> n" "is_nodes s \<noteq> [] \<longrightarrow> is_dev s"
    and "map_of (is_nodes s) DEV_CONSOLE \<in> {None, Some (1, 1)}" "map_of (is_nodes s) DEV_DISPLAY \<in> {None, Some (2, 1)}"
  shows "is_fds (init_devices s) = [Some (1, 1), Some (1, 1), Some (1, 1), Some (2, 1)] @ replicate (n - 4) None
     \<and> map_of (is_nodes (init_devices s)) DEV_CONSOLE = Some (1, 1) \<and> map_of (is_nodes (init_devices s)) DEV_DISPLAY = Some (2, 1)"
proof -
  define fs :: "(nat \<times> nat) option list" where "fs = replicate (n - 4) None"
  have "n = Suc (Suc (Suc (Suc (n - 4))))" using assms(2) by simp
  then have "is_fds s = None # None # None # None # fs" unfolding assms(1) fs_def by (metis replicate_Suc)
  note c = init_console_opens [OF this assms(4,3)]
  let ?t = "snd (i_dup 0 (snd (i_dup 0 (init_console s))))"
  have "?t = (init_console s)\<lparr>is_fds := map Some [(1, 1), (1, 1), (1, 1)] @ None # fs\<rparr>"
    using dup_opens [of "init_console s" "[(1, 1)]" "None # None # fs"] c(1)
      dup_opens [of "(init_console s)\<lparr>is_fds := map Some [(1, 1), (1, 1)] @ None # None # fs\<rparr>" "[(1, 1), (1, 1)]" "None # fs"] by simp
  then show ?thesis using init_display_opens [of ?t "[(1, 1), (1, 1), (1, 1)]" fs] c assms(5) by (simp add: init_devices_def fs_def)
qed

theorem init_opens_devices_witness:
  "is_fds (init_devices \<lparr>is_fds = replicate 16 None, is_dev = False, is_nodes = []\<rparr>)
   = [Some (1, 1), Some (1, 1), Some (1, 1), Some (2, 1)] @ replicate 12 None"
  using init_opens_devices [of "\<lparr>is_fds = replicate 16 None, is_dev = False, is_nodes = []\<rparr>" 16] by simp

text \<open>The parent reaps every child that \<^verbatim>\<open>wait\<close> reports before the shell, with a message each, and then starts the next shell.\<close>

lemma init_wait_reaps:
  assumes "\<forall>w \<in> set zs. 0 \<le> w \<and> w \<noteq> pid"
  shows "init_wait pid (zs @ pid # ws) = (replicate (length zs) (Printf 1 (nl ''zombie!'') []), ws)"
  using assms by (induction zs) auto

lemma init_round:
  assumes "\<forall>w \<in> set zs. 0 \<le> w \<and> w \<noteq> pid" "0 < pid"
  shows "init_rounds (pid # pids) (zs @ pid # ws)
    = Printf 1 (nl ''init: starting sh'') [] # replicate (length zs) (Printf 1 (nl ''zombie!'') []) @ init_rounds pids ws"
  using assms(2) by (simp add: init_wait_reaps [OF assms(1)])

end
