(* ===== verification/Typed.thy ===== *)
theory Typed
  imports Kbd Console_Props Sh_Print Sh
begin

text \<open>
  From the keyboard to the command: the interrupt handler of \<^verbatim>\<open>kbd.c\<close>, the line editor of \<^verbatim>\<open>console.c\<close>, the reads of
  one byte by \<^verbatim>\<open>getcmd\<close> and the parser of \<^verbatim>\<open>sh.c\<close> together.
\<close>

section \<open>The parser does not distinguish blanks\<close>

definition blank :: "byte \<Rightarrow> byte" where
  "blank c = (if c \<in> set whitespace then 32 else c)"

lemma blank_ws [simp]: "blank c \<in> set whitespace \<longleftrightarrow> c \<in> set whitespace"
  by (simp add: blank_def whitespace_def)

lemma blank_id [simp]: "c \<notin> set whitespace \<Longrightarrow> blank c = c"
  by (simp add: blank_def)

lemma blank_char [simp]: "d \<notin> set whitespace \<Longrightarrow> blank c = d \<longleftrightarrow> c = d"
  by (auto simp: blank_def whitespace_def split: if_splits)

lemma word_char_blank [simp]: "word_char (blank c) \<longleftrightarrow> word_char c"
  by (cases "c \<in> set whitespace") (simp_all add: word_char_def)

lemma skip_ws_blank: "skip_ws (map blank s) = map blank (skip_ws s)"
  by (simp add: skip_ws_def dropWhile_map comp_def)

lemma takeWhile_blank: "takeWhile word_char (map blank s) = takeWhile word_char s"
  by (induction s) (auto simp: word_char_def blank_def whitespace_def)

lemma dropWhile_blank: "dropWhile word_char (map blank s) = map blank (dropWhile word_char s)"
  by (simp add: dropWhile_map comp_def)

lemma peek_blank:
  assumes "set toks \<inter> set whitespace = {}"
  shows "peek toks (map blank s) = map_prod id (map blank) (peek toks s)"
proof (cases "skip_ws s")
  case (Cons c t)
  have "c \<notin> set whitespace" by (rule skip_ws_hd [OF Cons])
  then show ?thesis by (simp add: peek_def skip_ws_blank Cons)
qed (simp add: peek_def skip_ws_blank)

lemma gettoken_blank: "gettoken (map blank s) = map_prod id (map_prod id (map blank)) (gettoken s)"
proof (cases "skip_ws s")
  case (Cons c t)
  have c: "c \<notin> set whitespace" by (rule skip_ws_hd [OF Cons])
  have d: "blank d = 62 \<longleftrightarrow> d = 62" for d by (rule blank_char) (simp add: whitespace_def)
  have w: "takeWhile word_char (c # map blank t) = takeWhile word_char (c # t)"
    "dropWhile word_char (c # map blank t) = map blank (dropWhile word_char (c # t))"
    using takeWhile_blank [of "c # t"] dropWhile_blank [of "c # t"] c by simp_all
  have sk: "skip_ws (map blank s) = c # map blank t" using Cons c by (simp add: skip_ws_blank)
  have sc: "skip_ws (blank a # map blank u) = map blank (skip_ws (a # u))" for a u using skip_ws_blank [of "a # u"] by simp
  have sn: "skip_ws [] = []" by (simp add: skip_ws_def)
  show ?thesis
    unfolding gettoken_def sk Cons list.case w
    by (cases t) (simp_all add: skip_ws_blank sc d sn del: takeWhile.simps dropWhile.simps)
qed (simp add: gettoken_def skip_ws_blank)

lemma skip_token_blank: "skip_token (map blank s) = map blank (skip_token s)"
  by (simp add: skip_token_def gettoken_blank)

text \<open>A parser's result with the rest of its input made blank.\<close>

abbreviation blank_rest :: "('a \<times> byte list) res \<Rightarrow> ('a \<times> byte list) res" where
  "blank_rest \<equiv> map_res (map_prod id (map blank))"

lemma bind_map_res: "bind_res (map_res h r) f = bind_res r (\<lambda>x. f (h x))"
  by (cases r) simp_all

lemma map_bind_res: "map_res h (bind_res r f) = bind_res r (\<lambda>x. map_res h (f x))"
  by (cases r) simp_all

lemma bind_res_eqI: "(\<And>x. r = Ok x \<Longrightarrow> f x = g x) \<Longrightarrow> bind_res r f = bind_res r g"
  by (cases r) simp_all

lemma sym_peek [simp]:
  "peek [60, 62] (map blank s) = map_prod id (map blank) (peek [60, 62] s)"
  "peek [124, 41, 38, 59] (map blank s) = map_prod id (map blank) (peek [124, 41, 38, 59] s)"
  "peek [38] (map blank s) = map_prod id (map blank) (peek [38] s)"
  "peek [59] (map blank s) = map_prod id (map blank) (peek [59] s)"
  "peek [124] (map blank s) = map_prod id (map blank) (peek [124] s)"
  "peek [40] (map blank s) = map_prod id (map blank) (peek [40] s)"
  "peek [41] (map blank s) = map_prod id (map blank) (peek [41] s)"
  "peek [] (map blank s) = map_prod id (map blank) (peek [] s)"
  by (simp_all add: peek_blank whitespace_def)

lemma parseredirs_blank: "parseredirs rs (map blank s) = blank_rest (parseredirs rs s)"
proof (induction rs s rule: parseredirs.induct)
  case (1 rs s)
  obtain f s0 where p: "peek [60, 62] s = (f, s0)" by (cases "peek [60, 62] s")
  obtain tok w s1 where g: "gettoken s0 = (tok, w, s1)" by (cases "gettoken s0")
  obtain a q s2 where h: "gettoken s1 = (a, q, s2)" by (cases "gettoken s1")
  note IH = 1 [OF p [symmetric] _ g [symmetric] refl h [symmetric] refl]
  show ?case
    using IH by (simp add: parseredirs.simps [of rs s] parseredirs.simps [of rs "map blank s"] p g h gettoken_blank)
qed

lemma parse_args_blank:
  "parse_args args rs (map blank s) = map_res (map_prod id (map_prod id (map blank))) (parse_args args rs s)"
proof (induction args rs s rule: parse_args.induct)
  case (1 args rs s)
  obtain f s0 where p: "peek [124, 41, 38, 59] s = (f, s0)" by (cases "peek [124, 41, 38, 59] s")
  obtain tok q s1 where g: "gettoken s0 = (tok, q, s1)" by (cases "gettoken s0")
  note IH = 1 [OF p [symmetric] _ g [symmetric] refl]
  show ?case
    using IH by (cases "parseredirs rs s1")
      (auto simp: parse_args.simps [of args rs s] parse_args.simps [of args rs "map blank s"] p g gettoken_blank parseredirs_blank)
qed

lemma parse_backs_blank: "parse_backs c (map blank s) = map_prod id (map blank) (parse_backs c s)"
proof (induction c s rule: parse_backs.induct)
  case (1 c s)
  obtain f s0 where p: "peek [38] s = (f, s0)" by (cases "peek [38] s")
  obtain tok q s1 where g: "gettoken s0 = (tok, q, s1)" by (cases "gettoken s0")
  show ?case
    using 1 [OF p [symmetric] _ g [symmetric] refl]
    by (simp add: parse_backs.simps [of c s] parse_backs.simps [of c "map blank s"] p g gettoken_blank)
qed

lemma parser_blank:
  "parseline n (map blank s) = blank_rest (parseline n s) \<and> parsepipe n (map blank s) = blank_rest (parsepipe n s)
    \<and> parseexec n (map blank s) = blank_rest (parseexec n s) \<and> parseblock n (map blank s) = blank_rest (parseblock n s)"
proof (induction n arbitrary: s)
  case (Suc n)
  note IH = Suc [THEN conjunct1] Suc [THEN conjunct2, THEN conjunct1] Suc [THEN conjunct2, THEN conjunct2, THEN conjunct1]
    Suc [THEN conjunct2, THEN conjunct2, THEN conjunct2]
  note step = IH parse_backs_blank parseredirs_blank parse_args_blank skip_token_blank bind_map_res map_bind_res
  have "parseline (Suc n) (map blank s) = blank_rest (parseline (Suc n) s)"
    by (auto simp: step split: prod.splits intro!: bind_res_eqI)
  moreover have "parsepipe (Suc n) (map blank s) = blank_rest (parsepipe (Suc n) s)"
    by (auto simp: step split: prod.splits intro!: bind_res_eqI)
  moreover have "parseexec (Suc n) (map blank s) = blank_rest (parseexec (Suc n) s)"
    by (auto simp: step id_def split: prod.splits intro!: bind_res_eqI)
  moreover have "parseblock (Suc n) (map blank s) = blank_rest (parseblock (Suc n) s)"
    by (auto simp: step split: prod.splits intro!: bind_res_eqI)
  ultimately show ?case by blast
qed simp

lemma parsecmd_blank: "parsecmd (map blank s) = parsecmd s"
proof -
  have "parseline (parse_fuel s) (map blank s) = blank_rest (parseline (parse_fuel s) s)" using parser_blank by blast
  then show ?thesis
    by (auto simp: parsecmd_def parse_fuel_def bind_map_res split: prod.splits intro!: bind_res_eqI)
qed

section \<open>Reading a typed line\<close>

text \<open>Characters that \<^verbatim>\<open>getcmd\<close> stores: no history, completion, erase or end-of-line key, no end of file and no NUL.\<close>

definition plain :: "byte \<Rightarrow> bool" where
  "plain b \<longleftrightarrow> b \<notin> {0, 4, 8, 9, 10, 13, 14, 16, 127}"

lemma getcmd_loop_plain:
  assumes "\<forall>b \<in> set xs. plain b" "n + length xs + 1 < nbuf" "length buf = nbuf"
  shows "getcmd_loop fuel fs nbuf (xs @ 10 # inp) buf n sh =
    (getcmd_end (take n buf @ xs @ 10 # drop (n + length xs + 1) buf) (n + length xs + 1) nbuf, inp, reset_autocomplete sh)"
  using assms
proof (induction xs arbitrary: buf n sh)
  case Nil
  then show ?case by (simp add: getcmd_loop.simps Let_def upd_conv_take_nth_drop)
next
  case (Cons x xs)
  have u: "take (Suc n) (buf[n := x]) = take n buf @ [x]" using Cons.prems by (simp add: take_Suc_conv_app_nth)
  have "getcmd_loop fuel fs nbuf (x # xs @ 10 # inp) buf n sh
    = getcmd_loop fuel fs nbuf (xs @ 10 # inp) (buf[n := x]) (Suc n) (reset_autocomplete sh)"
    using Cons.prems by (simp add: getcmd_loop.simps [of fuel fs nbuf "x # _"] Let_def plain_def)
  then show ?case using Cons.IH [of "Suc n" "buf[n := x]" "reset_autocomplete sh"] Cons.prems u
    by (simp add: reset_autocomplete_def)
qed

lemma getcmd_plain:
  assumes "\<forall>b \<in> set xs. plain b" "length xs + 1 < nbuf"
  shows "getcmd fuel fs nbuf (xs @ 10 # inp) sh = (Line (xs @ [10]), inp, reset_autocomplete (sh_emit [Prompt] sh))"
proof -
  have z: "\<forall>b \<in> set xs. b \<noteq> 0" using assms(1) by (auto simp: plain_def)
  have "cstr (xs @ 10 # (replicate (nbuf - Suc (length xs)) 0)[0 := 0]) = xs @ [10]"
    using z assms(2) by (cases "nbuf - Suc (length xs)") (simp_all add: cstr_def takeWhile_append2)
  then have "getcmd_end (xs @ 10 # replicate (nbuf - Suc (length xs)) 0) (length xs + 1) nbuf = Line (xs @ [10])"
    using assms(2) by (simp add: getcmd_end_def Let_def list_update_append)
  then show ?thesis
    using getcmd_loop_plain [OF assms(1), of 0 nbuf "replicate nbuf 0" fuel fs inp "sh_emit [Prompt] sh"] assms(2)
    by (simp add: getcmd_def)
qed

text \<open>The reads of \<^verbatim>\<open>getcmd\<close>, one byte each, as long as the console does not put the reader to sleep.\<close>

fun con_bytes :: "nat \<Rightarrow> 'z console_scheme \<Rightarrow> byte list \<times> 'z console_scheme" where
  "con_bytes 0 st = ([], st)"
| "con_bytes (Suc k) st =
     (case consoleread 1 [] False st of
        (CDone n bs, st) \<Rightarrow> (let (cs, st) = con_bytes k st in (bs @ cs, st))
      | (CSleep _ _, st) \<Rightarrow> ([], st))"

lemma con_bytes_line:
  assumes "con_ok st" and "fst (ed_of st) = xs @ rest" and "4 \<notin> set xs"
  shows "\<exists>st'. con_bytes (length xs) st = (xs, st') \<and> con_ok st' \<and> ed_of st' = (rest, snd (ed_of st))"
  using assms
proof (induction xs arbitrary: st)
  case Nil
  then show ?case by (metis append_Nil con_bytes.simps(1) list.size(3) prod.collapse)
next
  case (Cons x xs)
  have "seg (in_buf st) (unat (in_r st)) (unat (in_w st)) = x # xs @ rest" using Cons.prems(2) by (simp add: ed_of_def)
  note o = read_one [OF Cons.prems(1) this]
  have "consoleread 1 [] False st = (CDone 1 [x], st\<lparr>in_r := in_r st + 1\<rparr>)"
    using o Cons.prems(3) by (simp add: One_nat_def Let_def ctl_def)
  then show ?case using Cons.IH [of "st\<lparr>in_r := in_r st + 1\<rparr>"] o Cons.prems(3) by auto
qed

section \<open>From keys to the command\<close>

lemma blank_pr: "cmd_ok c \<Longrightarrow> map blank (pr k c) = pr k c"
proof (induction c arbitrary: k)
  case (EXEC args)
  then show ?case by (auto simp: pr_words_def map_concat comp_def word_ok_def word_char_def blank_def whitespace_def intro!: arg_cong [where f = concat] map_idI)
next
  case (REDIR c f mode fd)
  then show ?case by (auto simp: pr_redir_def redir_ok_def word_ok_def word_char_def blank_def whitespace_def intro!: map_idI)
qed (auto simp: parens_def blank_def whitespace_def)

lemma parsecmd_line:
  assumes "cmd_ok c" and "pr 3 c = xs @ [32]"
  shows "parsecmd (xs @ [10]) = Ok c"
proof -
  have "map blank (xs @ [10]) = map blank (pr 3 c)" using assms(2) by (simp add: blank_def whitespace_def)
  then have "parsecmd (xs @ [10]) = parsecmd (pr 3 c)" by (metis parsecmd_blank)
  then show ?thesis using parseline_pr [OF assms(1)] by (simp add: parsecmd_def peek_def skip_ws_def)
qed

text \<open>
  C19. From the keyboard to the command. Let scan codes, with modifiers, releases and cursor keys, make the line
  \<open>l @ r\<close> with the cursor anywhere in it, and end with Enter; let this line be the text of a command that is not a built-in
  tool. Then the reads of one byte by the shell return exactly this line and leave the console empty, and the main loop of the shell
  runs exactly this command, logs the line, and goes on with the next one.
\<close>

theorem typed_command_runs:
  assumes "kbd_read codes shift = (cs @ [10], shift')" and "con_ok st" and "unat (in_e st) + length cs + 1 < 2 ^ 32" and "\<not> in_raw st"
    and "fold (ed_key False) cs (in_esc st, ed_of st) = (0, [], l, r)"
    and "cmd_ok c" and "pr 3 c = l @ r @ [32]" and "\<forall>b \<in> set (l @ r). plain b" and "length (l @ r) < 99"
    and "\<forall>(t, name, f) \<in> set tools. \<not> tool_matches name f (l @ r @ [10])"
  shows "(\<exists>st'. con_bytes (length (l @ r) + 1) (snd (kbdintr codes (shift, st))) = (l @ r @ [10], st')
      \<and> con_ok st' \<and> ed_of st' = ([], [], []))
    \<and> (\<exists>sh'. getcmd fuel (fs (sh_ev sh)) 100 ((l @ r @ [10]) @ inp) sh = (Line (l @ r @ [10]), inp, sh')
      \<and> main_loop fuel fs k ((l @ r @ [10]) @ inp) sh
        = main_loop fuel fs k inp (sh_emit [Ran (Ok c)] (sh'\<lparr>sh_history := log_command (l @ r @ [10]) (sh_history sh')\<rparr>)))"
proof -
  have len: "length (l @ r) < INPUT_BUF" using assms(9) by (simp add: INPUT_BUF_def)
  note e = enter_submits [OF assms(2-4) _ assms(5) len, of 10, simplified]
  have t: "snd (kbdintr codes (shift, st)) = consoleintr (cs @ [10]) st" by (simp add: kbdintr_def assms(1))
  have f: "4 \<notin> set (l @ r @ [10])" using assms(8) by (auto simp: plain_def)
  obtain st' where st': "con_bytes (length (l @ r) + 1) (snd (kbdintr codes (shift, st))) = (l @ r @ [10], st')" "con_ok st'" "ed_of st' = ([], [], [])"
    using con_bytes_line [OF e(1), of "l @ r @ [10]" "[]"] f e(3) by (auto simp: t)
  have g: "getcmd fuel (fs (sh_ev sh)) 100 ((l @ r @ [10]) @ inp) sh = (Line (l @ r @ [10]), inp, reset_autocomplete (sh_emit [Prompt] sh))"
    using getcmd_plain [OF assms(8), of 100 fuel "fs (sh_ev sh)" inp sh] assms(9) by simp
  have "check_tools (k ev) tab (l @ r @ [10]) = Some (False, [], tab)" for ev tab
    using assms(10) by (simp add: check_tools_def tools_def)
  moreover have "parsecmd (l @ r @ [10]) = Ok c" using parsecmd_line [of c "l @ r"] assms(6,7) by simp
  ultimately have "main_loop fuel fs k ((l @ r @ [10]) @ inp) sh = main_loop fuel fs k inp (sh_emit [Ran (Ok c)]
      (reset_autocomplete (sh_emit [Prompt] sh)\<lparr>sh_history := log_command (l @ r @ [10]) (sh_history (reset_autocomplete (sh_emit [Prompt] sh)))\<rparr>))"
    by (subst main_loop.simps, subst g) simp
  then show ?thesis using st' g by blast
qed

text \<open>The keys \<open>s\<close>, left arrow and \<open>l\<close> with their releases, then Enter: the shell runs \<open>ls\<close>.\<close>

lemma demo_codes:
  "kbd_read [0x1F, 0x9F, 0xE0, 0x4B, 0xE0, 0xCB, 0x26, 0xA6, 0x1C] 0 = ([115, 0, 0, KEY_LF, 0, 0, 108, 0, 10], 0)"
  by code_simp

lemma demo_line: "fold (ed_key False) [115, 0, 0, KEY_LF, 0, 0, 108, 0] (0, [], [], []) = (0, [], [108], [115])"
  by (simp add: ed_key_def KEY_LF_def KEY_RT_def KEY_UP_def KEY_DN_def ed_edit_def ctl_def ed_room_def ed_insert_def ed_left_def INPUT_BUF_def)

definition demo_fs :: sh_fs where
  "demo_fs = \<lparr>fs_dir = (\<lambda>_. None), fs_isdir = (\<lambda>_. False)\<rparr>"

definition demo_kernel :: sh_kernel where
  "demo_kernel = \<lparr>k_chdir = (\<lambda>_. False), k_jump_index = None\<rparr>"

definition demo_shell :: shell where
  "demo_shell = \<lparr>sh_history = init_history [], sh_complete = no_completion, sh_jump = [], sh_ev = []\<rparr>"

theorem typed_command_runs_witness:
  "(\<exists>st'. con_bytes 3 (snd (kbdintr [0x1F, 0x9F, 0xE0, 0x4B, 0xE0, 0xCB, 0x26, 0xA6, 0x1C] (0, empty_console))) = ([108, 115, 10], st')
      \<and> con_ok st' \<and> ed_of st' = ([], [], []))
    \<and> (\<exists>sh'. main_loop 0 (\<lambda>_. demo_fs) (\<lambda>_. demo_kernel) [108, 115, 10] demo_shell
        = main_loop 0 (\<lambda>_. demo_fs) (\<lambda>_. demo_kernel) [] (sh_emit [Ran (Ok (EXEC [[108, 115]]))] sh'))"
proof -
  have t: "\<forall>(t, name, f) \<in> set tools. \<not> tool_matches name f ([108] @ [115] @ [10])" by (simp add: tools_def)
  have c: "cmd_ok (EXEC [[108, 115]])" "pr 3 (EXEC [[108, 115]]) = [108] @ [115] @ [32]" "\<forall>b \<in> set ([108] @ [115]). plain b"
    by (simp_all add: MAXARGS_def word_ok_def word_char_def whitespace_def symbols_def pr_words_def plain_def)
  have d: "kbd_read [0x1F, 0x9F, 0xE0, 0x4B, 0xE0, 0xCB, 0x26, 0xA6, 0x1C] 0 = ([115, 0, 0, KEY_LF, 0, 0, 108, 0] @ [10], 0)"
    using demo_codes by simp
  have l: "fold (ed_key False) [115, 0, 0, KEY_LF, 0, 0, 108, 0] (in_esc empty_console, ed_of empty_console) = (0, [], [108], [115])"
    using demo_line empty_console_ok by simp
  have n: "unat (in_e empty_console) + length [115, 0, 0, KEY_LF, 0, 0, 108, 0] + 1 < 2 ^ 32" "length ([108 :: byte] @ [115]) < 99"
    using empty_console_ok by simp_all
  have three: "length [108 :: byte, 115] + 1 = 3" by simp
  show ?thesis
    using typed_command_runs [OF d empty_console_ok(1) n(1) empty_console_ok(4) l c n(2) t,
        of 0 "\<lambda>_. demo_fs" demo_shell "[]" "\<lambda>_. demo_kernel"]
    unfolding append.simps three by blast
qed

end
