(* ===== verification/File_Refs.thy ===== *)
theory File_Refs
  imports Exec_Props
begin

text \<open>
  The reference counts of open files over all calls of \<^verbatim>\<open>src/sysfile.c\<close>. The calls of \<open>File_Props\<close> move references; the others leave
  the counts, the descriptors and the current process alone, which is all that the invariant speaks of.
\<close>

section \<open>What the invariant depends on\<close>

definition rtabs :: "'z kst_scheme \<Rightarrow> int list \<times> nat option list list \<times> nat" where
  "rtabs s = (map f_ref (k_file s), ofiles s, k_cur s)"

lemma refs_ok_rtabs:
  assumes "rtabs t = rtabs s" and "refs_ok s"
  shows "refs_ok t"
proof -
  have e: "map f_ref (k_file t) = map f_ref (k_file s)" "ofiles t = ofiles s" "k_cur t = k_cur s" using assms(1) by (simp_all add: rtabs_def)
  have l: "length (k_proc t) = length (k_proc s)" "length (k_file t) = length (k_file s)"
    using e(2) length_ofiles [of t] length_ofiles [of s] map_eq_imp_length_eq [OF e(1)] by simp_all
  have "f_ref (get_file t i) = f_ref (get_file s i)" if "i < length (k_file s)" for i
    using arg_cong [OF e(1), of "\<lambda>xs. xs ! i"] that l(2) by simp
  then show ?thesis using assms(2) e l by (simp add: refs_ok_def)
qed

lemma tables_rtabs: "tables t = tables s \<Longrightarrow> rtabs t = rtabs s"
  by (simp add: tables_def rtabs_def)

lemma more_rtabs: "fsst.more t = fsst.more s \<Longrightarrow> rtabs t = rtabs s"
  using more_tables tables_rtabs by blast

lemma upd_file_rtabs [simp]: "(\<And>f. f_ref (g f) = f_ref f) \<Longrightarrow> rtabs (upd_file i g s) = rtabs s"
  by (simp add: rtabs_def map_update) (metis list_update_id map_update)

lemma pipe_rtabs [simp]: "rtabs (pipe_wakeups p cs s) = rtabs s" "rtabs (s\<lparr>k_pipe := q\<rparr>) = rtabs s"
  by (rule tables_rtabs, simp)+

lemmas fs_rtabs = begin_op_fs [THEN more_rtabs] end_op_fs [THEN more_rtabs] ilock_fs [THEN more_rtabs] iunlock_fs [THEN more_rtabs]
  iunlockput_fs [THEN more_rtabs] iput_fs [THEN more_rtabs] iupdate_fs [THEN more_rtabs] readi_fs [THEN more_rtabs] writei_fs [THEN more_rtabs]
  namei_fs [THEN more_rtabs] nameiparent_fs [THEN more_rtabs] dirlookup_fs [THEN more_rtabs] end_ret_fs [THEN more_rtabs]

section \<open>Reading and writing\<close>

text \<open>What the calls rely on of a driver: it leaves descriptors and reference counts alone.\<close>

definition devices_keep :: "(nat \<Rightarrow> 'z kst_scheme devops) \<Rightarrow> bool" where
  "devices_keep devsw \<longleftrightarrow> (\<forall>major s t.
     (\<forall>rd i n r bs. d_read (devsw major) = Some rd \<and> rd i n s = Ok (r, bs, t) \<longrightarrow> rtabs t = rtabs s)
     \<and> (\<forall>wr i bs n r. d_write (devsw major) = Some wr \<and> wr i bs n s = Ok (r, t) \<longrightarrow> rtabs t = rtabs s)
     \<and> (\<forall>io i p v r. d_ioctl (devsw major) = Some io \<and> io i p v s = Ok (r, t) \<longrightarrow> rtabs t = rtabs s))"

lemma devices_keepD:
  assumes "devices_keep devsw"
  shows "d_read (devsw m) = Some rd \<Longrightarrow> rd i n s = Ok (r, bs, t) \<Longrightarrow> rtabs t = rtabs s"
    "d_write (devsw m) = Some wr \<Longrightarrow> wr i bs n s = Ok (r, t) \<Longrightarrow> rtabs t = rtabs s"
    "d_ioctl (devsw m) = Some io \<Longrightarrow> io i p v s = Ok (r, t) \<Longrightarrow> rtabs t = rtabs s"
  using assms unfolding devices_keep_def by blast+

lemma fileread_rtabs:
  assumes "devices_keep devsw" and "fileread devsw i n s = Ok (r, t)"
  shows "rtabs t = rtabs s"
  using assms(2)
  by (auto simp: fileread_def pipe_read_def Let_def split: if_splits ftype.splits option.splits prod.splits
      dest!: fs_rtabs(3,4,8) dest: devices_keepD(1) [OF assms(1)])

lemma filewrite_loop_rtabs: "filewrite_loop fi addr i n s = Ok (k, t) \<Longrightarrow> rtabs t = rtabs s"
proof (induction fi addr i n s arbitrary: k t rule: filewrite_loop.induct)
  case (1 fi addr i n s)
  show ?case
  proof (cases "i < n")
    case False
    then show ?thesis using "1.prems" by (simp add: filewrite_loop.simps [of fi addr i n])
  next
    case True
    define n1 ip where "n1 = min (n - i) WRITEMAX" and "ip = f_ip (get_file s fi)"
    obtain s1 s2 r s3 where a: "begin_op s = Ok s1" "ilock ip s1 = Ok s2" "writei ip (drop i addr) (f_off (get_file s2 fi)) n1 s2 = Ok (r, s3)"
      using "1.prems" True by (auto simp: filewrite_loop.simps [of fi addr i n s] Let_def n1_def ip_def)
    define s4 where "s4 = (if r > 0 then upd_file fi (\<lambda>f. f\<lparr>f_off := wrap32 (f_off f + nat r)\<rparr>) s3 else s3)"
    obtain s5 s6 where b: "iunlock ip s4 = Ok s5" "end_op s5 = Ok s6"
      "(if r < 0 then Ok (i, s6) else if r \<noteq> int n1 then Panic ''short filewrite'' else filewrite_loop fi addr (i + n1) n s6) = Ok (k, t)"
      using "1.prems" True a unfolding filewrite_loop.simps [of fi addr i n s] n1_def ip_def s4_def by (simp add: Let_def) blast
    have "rtabs s6 = rtabs s4" using fs_rtabs(4) [OF b(1)] fs_rtabs(2) [OF b(2)] by simp
    also have "rtabs s4 = rtabs s" using fs_rtabs(1) [OF a(1)] fs_rtabs(3) [OF a(2)] fs_rtabs(9) [OF a(3)] by (simp add: s4_def)
    finally have e: "rtabs s6 = rtabs s" .
    have "rtabs t = rtabs s6 \<or> t = s6"
      using b(3) "1.IH" [OF True n1_def ip_def s4_def] by (auto split: if_splits)
    then show ?thesis using e by auto
  qed
qed

lemma filewrite_rtabs:
  assumes "devices_keep devsw" and "filewrite devsw i addr n s = Ok (r, t)"
  shows "rtabs t = rtabs s"
  using assms(2)
  by (auto simp: filewrite_def pipe_write_def Let_def split: if_splits ftype.splits option.splits prod.splits
      dest!: filewrite_loop_rtabs dest: devices_keepD(2) [OF assms(1)])

section \<open>The other calls\<close>

lemma sys_read_rtabs:
  assumes d: "devices_keep devsw" and r: "sys_read devsw s = Ok (q, t)"
  shows "rtabs t = rtabs s"
proof -
  obtain a where a: "argfd 0 s = Ok a" using r by (auto simp: sys_read_def)
  show ?thesis
  proof (cases "\<exists>fd f n p. a = Some (fd, f) \<and> argint 2 s = Ok n \<and> argptr 1 n s = Ok (Some p)")
    case True
    then obtain fd f n p where b: "a = Some (fd, f)" "argint 2 s = Ok n" "argptr 1 n s = Ok (Some p)" by blast
    obtain o' u where u: "fileread devsw f n s = Ok (o', u)" using r a b by (auto simp: sys_read_def)
    have "rtabs u = rtabs s" by (rule fileread_rtabs [OF d u])
    then show ?thesis using r a b u store_user_tables [THEN tables_rtabs, of p _ u t] by (cases o') (auto simp: sys_read_def)
  next
    case False
    then show ?thesis using r a by (cases a) (auto simp: sys_read_def split: option.split_asm)
  qed
qed

lemma sys_write_rtabs:
  assumes d: "devices_keep devsw" and r: "sys_write devsw s = Ok (q, t)"
  shows "rtabs t = rtabs s"
proof -
  obtain a where a: "argfd 0 s = Ok a" using r by (auto simp: sys_write_def)
  show ?thesis
  proof (cases "\<exists>fd f n p. a = Some (fd, f) \<and> argint 2 s = Ok n \<and> argptr 1 n s = Ok (Some p) \<and> f_writable (get_file s f)")
    case True
    then obtain fd f n p where b: "a = Some (fd, f)" "argint 2 s = Ok n" "argptr 1 n s = Ok (Some p)" "f_writable (get_file s f)" by blast
    obtain bs o' u where u: "load_user p (nat n) s = Ok bs" "filewrite devsw f bs n s = Ok (o', u)" using r a b by (auto simp: sys_write_def)
    have "rtabs u = rtabs s" by (rule filewrite_rtabs [OF d u(2)])
    then show ?thesis using r a b u by (cases o') (auto simp: sys_write_def)
  next
    case False
    then show ?thesis using r a by (cases a) (auto simp: sys_write_def split: option.split_asm)
  qed
qed

lemma sys_ioctl_rtabs:
  assumes "devices_keep devsw"
  shows "sys_ioctl devsw s = Ok (r, t) \<Longrightarrow> rtabs t = rtabs s"
  by (auto simp: sys_ioctl_def fileioctl_def Let_def split: option.split_asm prod.split_asm if_split_asm dest: devices_keepD(3) [OF assms])

lemma filestat_rtabs: "filestat i s = Ok (r, st, t) \<Longrightarrow> rtabs t = rtabs s"
  by (auto simp: filestat_def Let_def split: if_splits dest!: fs_rtabs(3,4))

lemma sys_fstat_rtabs: "sys_fstat s = Ok (r, t) \<Longrightarrow> rtabs t = rtabs s"
  by (auto simp: sys_fstat_def store_stat_def split: option.splits prod.splits dest!: filestat_rtabs store_user_tables [THEN tables_rtabs])

lemma fileseek_rtabs:
  assumes "fileseek i off pos s = Ok (r, t)"
  shows "rtabs t = rtabs s"
proof (cases "f_type (get_file s i) = FD_INODE")
  case True
  then obtain q st u where u: "filestat i s = Ok (q, st, u)" using assms by (auto simp: fileseek_def)
  have "rtabs u = rtabs s" by (rule filestat_rtabs [OF u])
  then show ?thesis using assms True u by (cases st) (auto simp: fileseek_def Let_def split: if_split_asm)
next
  case False
  then show ?thesis using assms by (simp add: fileseek_def)
qed

lemma sys_fseek_rtabs: "sys_fseek s = Ok (r, t) \<Longrightarrow> rtabs t = rtabs s"
  by (auto simp: sys_fseek_def split: option.split_asm prod.split_asm dest!: fileseek_rtabs)

lemma upd_cwd_rtabs [simp]: "rtabs (upd_cur (\<lambda>p. p\<lparr>p_cwd := c\<rparr>) u) = rtabs u"
  by (simp add: rtabs_def ofiles_upd_proc) (metis cur_ofile list_update_beyond list_update_id linorder_not_le length_ofiles)

lemma sys_chdir_rtabs: "sys_chdir s = Ok (r, t) \<Longrightarrow> rtabs t = rtabs s"
  by (auto simp: sys_chdir_def split: option.split_asm if_split_asm dest!: fs_rtabs)

lemma sys_unlink_rtabs: "sys_unlink s = Ok (r, t) \<Longrightarrow> rtabs t = rtabs s"
  by (rule more_rtabs)
    (auto simp: sys_unlink_def isdirempty_def split: option.splits if_splits prod.splits
      dest!: begin_op_fs nameiparent_fs end_ret_fs ilock_fs unlink_bad_fs dirlookup_fs isdirempty_from_fs iunlockput_fs writei_fs iupdate_fs)

lemma getcwd_find_fs: "getcwd_find parent inum ds off s = Ok (e, t) \<Longrightarrow> fsst.more t = fsst.more s"
proof (induction parent inum ds off s rule: getcwd_find.induct)
  case (1 parent inum ds off s)
  show ?case
  proof (cases "off < ds")
    case True
    then obtain q de u where u: "readi parent off DIRENT_SIZE s = Ok (q, de, u)"
      using "1.prems" by (auto simp: getcwd_find.simps [of parent inum ds off])
    have "getcwd_find parent inum ds (off + DIRENT_SIZE) u = Ok (e, t) \<Longrightarrow> q = int DIRENT_SIZE \<Longrightarrow> ld16 0 de \<noteq> inum \<Longrightarrow> fsst.more t = fsst.more u"
      using "1.IH" [OF True] by metis
    then show ?thesis using "1.prems" True u readi_fs [OF u]
      by (auto simp: getcwd_find.simps [of parent inum ds off] split: if_splits)
  next
    case False
    then show ?thesis using "1.prems" by (simp add: getcwd_find.simps [of parent inum ds off])
  qed
qed

lemma getcwd_loop_fs: "getcwd_loop dir path s = Ok (e, t) \<Longrightarrow> fsst.more t = fsst.more s"
proof (induction dir path s rule: getcwd_loop.induct)
  case (1 dir path s)
  obtain s1 pa s2 s3 where a: "ilock dir s = Ok s1" "dirlookup dir dotdot s1 = Ok (pa, s2)" "iunlock dir s2 = Ok s3"
    using "1.prems" by (auto simp: getcwd_loop.simps [of dir path s] Let_def)
  note run = "1.prems" [unfolded getcwd_loop.simps [of dir path s] Let_def a(1) bind_res.simps, unfolded a(2) bind_res.simps prod.case, unfolded a(3) bind_res.simps]
  have e3: "fsst.more s3 = fsst.more s" using ilock_fs [OF a(1)] dirlookup_fs [OF a(2)] iunlock_fs [OF a(3)] by simp
  show ?case
  proof (cases pa)
    case None
    then show ?thesis using run [unfolded None option.case] e3 by (auto dest!: iput_fs)
  next
    case (Some x)
    then obtain p y where x: "pa = Some (p, y)" by (cases x) auto
    note run = run [unfolded x option.case prod.case]
    obtain s4 where s4: "ilock p s3 = Ok s4" using run by auto
    note run = run [unfolded s4 bind_res.simps]
    have e4: "fsst.more s4 = fsst.more s" using ilock_fs [OF s4] e3 by simp
    show ?thesis
    proof (cases "i_inum (get_inode s1 dir) = i_inum (get_inode s4 p)")
      case True
      then show ?thesis using run [unfolded if_P [OF True]] e4 by (auto dest!: iput_fs iunlock_fs)
    next
      case False
      note run = run [unfolded if_not_P [OF False]]
      obtain de s5 s6 where b: "getcwd_find p (i_inum (get_inode s1 dir)) (i_size (get_inode s4 p)) 0 s4 = Ok (de, s5)" "iunlock p s5 = Ok s6"
        using run by auto
      have e6: "fsst.more s6 = fsst.more s" using getcwd_find_fs [OF b(1)] iunlock_fs [OF b(2)] e4 by simp
      note rest = run [unfolded b(1) bind_res.simps prod.case, unfolded b(2) bind_res.simps]
      show ?thesis
      proof (cases de)
        case None
        then show ?thesis using rest [unfolded None option.case] e6 by (auto dest!: iput_fs)
      next
        case (Some name)
        note IH = "1.IH" [OF refl x refl False Some]
        from rest [unfolded Some option.case] consider u w where "iput p s6 = Ok u" "iput dir u = Ok w" "t = w"
          | u where "0 \<in> set name" "\<not> 511 - length path < length (cstr name) + 1" "iput dir s6 = Ok u"
              "getcwd_loop p (slash # cstr name @ path) u = Ok (e, t)"
          by (auto split: if_split_asm)
        then show ?thesis
        proof cases
          case 1
          then show ?thesis using e6 iput_fs [OF 1(1)] iput_fs [OF 1(2)] by simp
        next
          case 2
          then show ?thesis using IH iput_fs [OF 2(3)] e6 by simp
        qed
      qed
    qed
  qed
qed

lemma sys_getcwd_rtabs: "sys_getcwd s = Ok (r, t) \<Longrightarrow> rtabs t = rtabs s"
proof -
  have i: "rtabs (snd (idup i s)) = rtabs s" for i and s :: "'z kst_scheme" by (rule more_rtabs) simp
  assume r: "sys_getcwd s = Ok (r, t)"
  obtain sz b where b: "argint 1 s = Ok sz" "argptr 0 sz s = Ok b" using r by (auto simp: sys_getcwd_def)
  show ?thesis
  proof (cases b)
    case None
    then show ?thesis using r b by (simp add: sys_getcwd_def)
  next
    case (Some buf)
    obtain dir u where d: "idup (cwd s) s = (dir, u)" by (cases "idup (cwd s) s")
    obtain path w where w: "getcwd_loop dir [] u = Ok (path, w)" using r b Some d by (auto simp: sys_getcwd_def)
    have "rtabs w = rtabs s" using getcwd_loop_fs [OF w] more_rtabs i [of "cwd s" s] d by fastforce
    then show ?thesis using r b Some d w store_user_tables [THEN tables_rtabs, of buf _ w t]
      by (cases path) (auto simp: sys_getcwd_def Let_def split: if_split_asm)
  qed
qed

lemma exec_rtabs:
  assumes "exec path argv s = Ok (r, t)" "refs_ok s"
  shows "rtabs t = rtabs s"
proof -
  have "k_cur s < length (k_proc s)" using assms(2) by (simp add: refs_ok_def)
  from exec_effect_ok [OF assms(1) this] obtain q where q: "k_cur t = k_cur s" "k_file t = k_file s" "k_proc t = (k_proc s)[k_cur s := q]"
    "p_ofile q = p_ofile (cur s)" by (auto simp: exec_effect_def kept_image_def new_image_def)
  have "map p_ofile (k_proc t) = map p_ofile (k_proc s)" unfolding q(3) map_update q(4) by (simp add: list_update_same_conv map_update [symmetric])
  then show ?thesis using q by (simp add: rtabs_def ofiles_def)
qed

lemma sys_exec_rtabs: "sys_exec s = Ok (r, t) \<Longrightarrow> refs_ok s \<Longrightarrow> rtabs t = rtabs s"
  by (auto simp: sys_exec_def split: option.split_asm dest: exec_rtabs)

lemma sys_kbddecoy_rtabs: "(\<And>bs s. rtabs (ci bs s) = rtabs s) \<Longrightarrow> sys_kbddecoy ci s = Ok (r, t) \<Longrightarrow> rtabs t = rtabs s"
  by (auto simp: sys_kbddecoy_def split: option.split_asm)

section \<open>The invariant\<close>

text \<open>
  C10. Descriptors and reference counts agree after every system call of \<^verbatim>\<open>sysfile.c\<close>: whatever path the call takes, failures included and also when a read or
  a write goes to sleep on a pipe, the reference count of each
  open file is again the number of descriptors, over all processes, that refer to it. Drivers and the console's entry point are assumed to
  leave both alone.
\<close>

theorem file_refs_invariant:
  assumes "refs_ok s" and "devices_keep devsw" and "\<And>bs s. rtabs (ci bs s) = rtabs s"
    and "call \<in> {sys_dup, sys_close, sys_open, sys_pipe, sys_link, sys_unlink, sys_mkdir, sys_mknod, sys_chdir, sys_fstat, sys_fseek, sys_getcwd,
        sys_exec, sys_ioctl devsw, sys_kbddecoy ci} \<and> call s = Ok (r, t)
      \<or> rw \<in> {sys_read devsw, sys_write devsw} \<and> rw s = Ok (q, t)"
  shows "refs_ok t"
proof -
  have keep: "rtabs t = rtabs s \<Longrightarrow> refs_ok t" using refs_ok_rtabs assms(1) by blast
  note kept = sys_unlink_rtabs sys_chdir_rtabs sys_fstat_rtabs sys_fseek_rtabs sys_getcwd_rtabs sys_exec_rtabs [OF _ assms(1)]
    sys_ioctl_rtabs [OF assms(2)] sys_kbddecoy_rtabs [OF assms(3)] sys_read_rtabs [OF assms(2)] sys_write_rtabs [OF assms(2)]
  have dup: "sys_dup s = Ok (r, t) \<Longrightarrow> refs_ok t" using sys_dup_ok [OF assms(1)] by auto
  note moved = dup sys_close_refs [OF assms(1)] sys_open_refs [OF assms(1)] sys_pipe_refs [OF assms(1)] fs_calls_refs [OF assms(1)]
  show ?thesis using assms(4) by (elim disjE conjE) (auto intro: moved keep kept)
qed

definition no_devices :: "nat \<Rightarrow> kst devops" where
  "no_devices = (\<lambda>_. \<lparr>d_read = None, d_write = None, d_ioctl = None\<rparr>)"

theorem file_refs_invariant_witness:
  "\<exists>t. sys_dup plain_kst = Ok (1, t) \<and> refs_ok t"
proof -
  obtain t where t: "sys_dup plain_kst = Ok (1, t)" using plain_dup by blast
  have d: "devices_keep no_devices" by (simp add: devices_keep_def no_devices_def)
  have "refs_ok t"
    by (rule file_refs_invariant [where call = sys_dup and devsw = no_devices and ci = "\<lambda>_ s. s" and rw = "sys_read no_devices" and r = 1 and q = "Ret 0", OF plain_refs d refl])
      (use t in simp)
  with t show ?thesis by blast
qed

end
