(* ===== verification/Spec2Isabelle.thy ===== *)
theory Spec2Isabelle
  imports Strings Trap_Props Exec_Props Console_Props Kbd Grep Sh_Print Sh_Run Sh_History Umalloc Plugins Ide Mkfs_Props Usercmds Boot Mp Vga_Props Cmos Segs Apic Init Typed File_Refs
begin

text \<open>
  Oh My xv6: a model of a small Unix-like operating system for 64-bit x86, its kernel and its shell, and
  theorems about it.

  \<^bold>\<open>The program.\<close> The kernel is a set of layers. At the bottom are spin locks and sleep locks
  (\<^verbatim>\<open>spinlock.c\<close>, \<^verbatim>\<open>sleeplock.c\<close>) and the page allocator (\<^verbatim>\<open>kalloc.c\<close>). The buffer cache (\<^verbatim>\<open>bio.c\<close>) holds disk
  blocks, on top of the in-memory disk (\<^verbatim>\<open>memide.c\<close>) or of the IDE driver (\<^verbatim>\<open>ide.c\<close>); the log (\<^verbatim>\<open>log.c\<close>) makes groups of block writes atomic over crashes;
  the file system (\<^verbatim>\<open>fs.c\<close>) has a free map, inodes, file contents, directories and paths on logged blocks. Open files and
  pipes (\<^verbatim>\<open>file.c\<close>, \<^verbatim>\<open>pipe.c\<close>) and the system calls (\<^verbatim>\<open>sysfile.c\<close>, \<^verbatim>\<open>sysproc.c\<close>, \<^verbatim>\<open>syscall.c\<close>) are above it. Processes
  (\<^verbatim>\<open>proc.c\<close>) own an address space (\<^verbatim>\<open>vm.c\<close>), are scheduled, sleep on channels and are replaced by \<^verbatim>\<open>exec.c\<close>. The processor enters
  the kernel through \<^verbatim>\<open>trap.c\<close>. The console (\<^verbatim>\<open>console.c\<close>, with \<^verbatim>\<open>kbd.c\<close> and \<^verbatim>\<open>uart.c\<close>) is a device under the file
  layer with a line editor of its own. The shell (\<^verbatim>\<open>sh.c\<close>), \<^verbatim>\<open>grep.c\<close>, the user library and the plugins run on the system calls;
  \<^verbatim>\<open>mkfs.c\<close> makes the first disk image. All files are under \<^verbatim>\<open>src/src\<close>.

  \<^bold>\<open>How it is modelled.\<close> A C structure is a record, an enumeration a datatype, memory a function from addresses to
  bytes or a list of bytes, a machine integer a word where its width matters. Each layer's state record extends the record of
  the layer below (\<open>bcache\<close>, \<open>logst\<close>, \<open>fsst\<close>, \<open>vmst\<close>, \<open>kst\<close>), so that an operation of a lower layer runs on the state of a
  higher one. An operation of the kernel returns \<open>Ok\<close>, \<open>Panic\<close> with the message of the code, or \<open>Fault\<close> where the C program has no
  defined behaviour (a null pointer, an index out of range). Code that may sleep is cut at the points
  where it sleeps: the operation runs one segment and reports that it sleeps, on which channel.

  \<^bold>\<open>The theories.\<close>
  \<^item> \<open>Prelude\<close> has results and their monad, words, first-free-slot tables (locale \<open>slot_table\<close>), step systems with invariants
    (\<open>step_system\<close>) and ring buffers (\<open>ring_size\<close>); \<open>Bytes\<close> has slices of byte arrays and little-endian integers.
  \<^item> \<open>Strings\<close>: \<^verbatim>\<open>string.c\<close> and the string part of \<^verbatim>\<open>ulib.c\<close> on byte-addressed memory.
  \<^item> \<open>Locks\<close>: spin locks, interrupt nesting and sleep locks; mutual exclusion as an invariant of all interleavings.
  \<^item> \<open>Bio\<close>, \<open>Bio_Spec\<close>, \<open>Bio_Props\<close>: the buffer cache with its LRU list. The locale \<open>buffer_cache\<close> states what the cache promises; it is
    interpreted on the code's operations, and the log is verified against it.
  \<^item> \<open>Log\<close>, \<open>Log_Props\<close>: the redo log. A crash is a prefix of the sequence of disk writes. Locale \<open>logged_cache\<close>.
  \<^item> \<open>Fs\<close> (operations), \<open>Fs_Blocks\<close>, \<open>Fs_Inode\<close>, \<open>Fs_File\<close>, \<open>Fs_Write\<close>, \<open>Fs_Props\<close> (free map, inode cache, contents of files).
  \<^item> \<open>Pipe\<close>: pipes; first-in first-out order in every interleaving of readers and writers.
  \<^item> \<open>Kalloc\<close>: the page allocator, whose free list runs through the free pages; locale \<open>page_allocator\<close>. \<open>Vm\<close>: page tables and user memory.
  \<^item> \<open>Kstate\<close>, \<open>File\<close>, \<open>Syscall\<close>, \<open>Sysfile\<close>: the state of the kernel, open files, arguments of system calls, the file system calls.
    \<open>Frames\<close> shows what each layer leaves alone; \<open>File_Props\<close> and \<open>File_Refs\<close> the reference counts of open files, over every call of \<^verbatim>\<open>sysfile.c\<close>.
  \<^item> \<open>Proc\<close>, \<open>Proc_Props\<close>: processes and the scheduler. \<open>Exec\<close>, \<open>Exec_Props\<close>: program loading. \<open>Trap\<close>, \<open>Trap_Props\<close>: system call dispatch,
    interrupts and faults.
  \<^item> \<open>Console\<close>, \<open>Console_Props\<close>: screen, line editor, formatted output; the ring buffer refines an editor on lists. \<open>Kbd\<close>: scan codes,
    against a keyboard given by the rows of its layout.
  \<^item> \<open>Grep\<close>: the matcher against the language of a pattern, and the loop over the lines of a file of any length.
  \<^item> \<open>Sh_Parse\<close>, \<open>Sh_Print\<close>: the shell's parser, its termination and its round trip with a printer. \<open>Sh_Run\<close>: \<^verbatim>\<open>runcmd\<close> as a tree of system
    calls and what they do to descriptors. \<open>Sh\<close>: history, completion, line reading, tools and the main loop. \<open>Sh_History\<close>: the history
    refines a list with a cursor.
  \<^item> \<open>Ide\<close>: the disk driver's request queue, as steps of submissions and interrupts in any order; requests are served in the order
    of their submission.
  \<^item> \<open>Umalloc\<close>: the user allocator with its circular, address-ordered free list. \<open>malloc\<close> and \<open>free\<close> take fuel for walking the list; with fuel
    for the length of the list, which the theorems ask for, both return.
  \<^item> \<open>Plugins\<close>: \<^verbatim>\<open>font.c\<close> and \<^verbatim>\<open>theme.c\<close> on the console's model; locale \<open>comparison\<close> for the sort they share.
  \<^item> \<open>Mkfs\<close>, \<open>Mkfs_Props\<close>: \<^verbatim>\<open>mkfs.c\<close> on a list of blocks. The contents of a file are read with the same functions as in \<open>Fs_File\<close>, so that what
    \<^verbatim>\<open>mkfs\<close> stores is what the kernel's \<^verbatim>\<open>readi\<close> would return.
  \<^item> \<open>Uprintf\<close>: the user library's \<^verbatim>\<open>printf\<close>, over a locale \<open>color_tty\<close> that the console implements. \<open>Usercmds\<close>: the small commands and the
    crawler; what the crawler prints is what the shell's \<^verbatim>\<open>jump\<close> reads. The crawler recurses over directories with fuel for their depth.
  \<^item> \<open>Boot\<close>: the boot loader on the sectors of a disk; \<open>Mp\<close>: the multiprocessor tables of the firmware.
  \<^item> \<open>Vga_Tables\<close>, \<open>Vga\<close>, \<open>Vga_Props\<close>: the VGA driver and the display device on a model of the card; locale \<open>video_window\<close> for the memory the processor
    sees, with an instance for text and one for graphics. \<open>Apic\<close>: interrupt controllers, the serial line, the start of the other processors, with
    a model of what they read from low memory. \<open>Cmos\<close>: the clock, whose registers are undefined during an update.
  \<^item> \<open>Segs\<close>: the interrupt and segment descriptors, written as the code does and read as the processor does. \<open>Init\<close>: the first user program.
  \<^item> \<open>Typed\<close>: the composition of keyboard, console and shell: the parser does not distinguish blanks, and the command typed is the command run.

  \<^bold>\<open>Bounds and fuel.\<close> Loops are structural or have a termination proof with a measure, with these exceptions, where fuel counts nested
  calls or visited elements: the two walks over the buffer list, which the cache's invariant shows to end within the length of the list; the arguments of \<^verbatim>\<open>exec\<close>, at most 32; the shell's parser, whose fuel of four calls per character and four more is shown to be enough for every line; and
  \<^verbatim>\<open>get_prev_command\<close>, which two calls suffice for when lines are shorter than 253 bytes, and which is shown not to end on a longer one.
  \<^verbatim>\<open>getcmd\<close> limits a line to 100 bytes. The counters of pipes wrap around at 32 bits, and the theorem on pipes holds over
  the wrap; those of the console's input buffer wrap too, but its comparisons of the cursor do not survive that, and the theorems on the console
  hold for as many keys as keep the counters below \<open>2 ^ 32\<close>. The disk, tables and caches have the sizes of \<^verbatim>\<open>param.h\<close>.

  \<^bold>\<open>Not modelled.\<close> The assembly files. \<^verbatim>\<open>main.c\<close> but for \<^verbatim>\<open>startothers\<close>: it calls the initialisation functions once, in a fixed order. Loops that
  wait for a device or another processor without a bound. \<^verbatim>\<open>procdump\<close> and the messages of the kernel, where they do not matter for its state.
  The test programs, and the user commands that only make one call. Real parallelism inside an operation: an operation that holds its lock is one step.
  Answers of the kernel to user programs, and of devices to the kernel, are parameters; the VGA card and the processors that are started are described by
  what their documentation says of the registers the code uses.
\<close>

end
